(* ===== verification/Roxy_Prelude.thy ===== *)
theory Roxy_Prelude
  imports Main "HOL-Library.AList" "HOL-Library.Sublist" "HOL-Library.Char_ord"
    "HOL-Library.List_Lexorder" "HOL-Library.Product_Lexorder"
begin

text \<open>
  The shared vocabulary of the development.

  Python dictionaries keep their insertion order, so they are modelled as association
  lists: \<open>dict_get\<close> is \<open>d.get(k)\<close>, \<open>dict_set\<close> is \<open>d[k] = v\<close> (an existing key
  keeps its position, a new key goes to the end) and \<open>dict_del\<close> is \<open>d.pop(k, None)\<close>.
  The locale \<open>keyed_store\<close> states the laws the components rely on, and is interpreted on
  these operations.  Results of fallible operations are sums: \<open>Inl\<close> an error, \<open>Inr\<close> a
  value.
\<close>

named_theorems dict_simps \<open>rewriting of dictionary operations\<close>

type_synonym ('k, 'v) dict = "('k \<times> 'v) list"

definition dict_get :: "('k, 'v) dict \<Rightarrow> 'k \<Rightarrow> 'v option" where
  "dict_get d k = map_of d k"

definition dict_set :: "('k, 'v) dict \<Rightarrow> 'k \<Rightarrow> 'v \<Rightarrow> ('k, 'v) dict" where
  "dict_set d k v = AList.update k v d"

definition dict_del :: "('k, 'v) dict \<Rightarrow> 'k \<Rightarrow> ('k, 'v) dict" where
  "dict_del d k = AList.delete k d"

abbreviation dict_keys :: "('k, 'v) dict \<Rightarrow> 'k list" where
  "dict_keys d \<equiv> map fst d"

definition dict_ok :: "('k, 'v) dict \<Rightarrow> bool" where
  "dict_ok d \<longleftrightarrow> distinct (dict_keys d)"

lemma dict_get_set [simp, dict_simps]:
  "dict_get (dict_set d k v) k' = (if k' = k then Some v else dict_get d k')"
  by (simp add: dict_get_def dict_set_def update_conv')

lemma dict_get_del [simp, dict_simps]:
  "dict_get (dict_del d k) k' = (if k' = k then None else dict_get d k')"
  by (simp add: dict_get_def dict_del_def delete_conv')

lemma dict_get_empty [simp, dict_simps]: "dict_get [] k = None"
  by (simp add: dict_get_def)

lemma dict_ok_empty [simp, intro]: "dict_ok []"
  by (simp add: dict_ok_def)

lemma dict_ok_set [simp, intro]: "dict_ok d \<Longrightarrow> dict_ok (dict_set d k v)"
  by (simp add: dict_ok_def dict_set_def distinct_update)

lemma dict_ok_del [simp, intro]: "dict_ok d \<Longrightarrow> dict_ok (dict_del d k)"
  by (simp add: dict_ok_def dict_del_def distinct_delete)

lemma dict_get_None_iff: "dict_get d k = None \<longleftrightarrow> k \<notin> set (dict_keys d)"
  by (simp add: dict_get_def map_of_eq_None_iff)

lemma dict_get_SomeD: "dict_get d k = Some v \<Longrightarrow> (k, v) \<in> set d"
  by (simp add: dict_get_def map_of_SomeD)

lemma dict_set_new: "k \<notin> set (dict_keys d) \<Longrightarrow> dict_set d k v = d @ [(k, v)]"
  by (induction d) (auto simp: dict_set_def)

lemma dict_get_map_values: "dict_get (map (\<lambda>(i, r). (i, f r)) d) i = map_option f (dict_get d i)"
  by (induction d) (auto simp: dict_get_def)

lemma dict_get_Some_iff: "dict_ok d \<Longrightarrow> dict_get d k = Some v \<longleftrightarrow> (k, v) \<in> set d"
  by (auto simp: dict_get_def dict_ok_def intro: map_of_SomeD map_of_is_SomeI)

lemma set_dict_keys_set [simp, dict_simps]:
  "set (dict_keys (dict_set d k v)) = insert k (set (dict_keys d))"
  by (simp add: dict_set_def dom_update)

lemma set_dict_keys_del [simp, dict_simps]:
  "set (dict_keys (dict_del d k)) = set (dict_keys d) - {k}"
  by (auto simp: dict_del_def delete_keys simp del: list.set_map)

lemma fst_set_dict_set [simp, dict_simps]: "fst ` set (dict_set d k v) = insert k (fst ` set d)"
  using set_dict_keys_set[of d k v] by simp

lemma fst_set_dict_del [simp, dict_simps]: "fst ` set (dict_del d k) = fst ` set d - {k}"
  using set_dict_keys_del[of d k] by simp

text \<open>The contract of a keyed store, as its clients use it.\<close>

locale keyed_store =
  fixes lookup :: "'s \<Rightarrow> 'k \<Rightarrow> 'v option"
    and store :: "'s \<Rightarrow> 'k \<Rightarrow> 'v \<Rightarrow> 's"
    and remove :: "'s \<Rightarrow> 'k \<Rightarrow> 's"
    and wf :: "'s \<Rightarrow> bool"
  assumes lookup_store: "lookup (store s k v) k' = (if k' = k then Some v else lookup s k')"
    and lookup_remove: "lookup (remove s k) k' = (if k' = k then None else lookup s k')"
    and wf_store: "wf s \<Longrightarrow> wf (store s k v)"
    and wf_remove: "wf s \<Longrightarrow> wf (remove s k)"
begin

lemma store_store: "lookup (store (store s k v) k w) = lookup (store s k w)"
  by (rule ext) (simp add: lookup_store)

lemma store_commute: "k \<noteq> l \<Longrightarrow> lookup (store (store s k v) l w) = lookup (store (store s l w) k v)"
  by (rule ext) (simp add: lookup_store)

lemma remove_store: "lookup (remove (store s k v) k) = lookup (remove s k)"
  by (rule ext) (simp add: lookup_store lookup_remove)

lemma remove_absent: "lookup s k = None \<Longrightarrow> lookup (remove s k) = lookup s"
  by (rule ext) (simp add: lookup_remove)

end

interpretation pydict: keyed_store dict_get dict_set dict_del dict_ok
  by unfold_locales auto

lemma not_is_none_the: "\<not> Option.is_none x \<Longrightarrow> x = Some (the x)"
  by (cases x) (auto simp: Option.is_none_def)

text \<open>Python's \<open>str.isspace\<close> (on code points below 256) and \<open>str.strip\<close>.\<close>

definition is_space :: "char \<Rightarrow> bool" where
  "is_space c \<longleftrightarrow> (let n = (of_char c :: nat) in
     (9 \<le> n \<and> n \<le> 13) \<or> (28 \<le> n \<and> n \<le> 32) \<or> n = 133 \<or> n = 160)"

definition py_strip :: "string \<Rightarrow> string" where
  "py_strip s = rev (dropWhile is_space (rev (dropWhile is_space s)))"

lemma dropWhile_id: "xs = [] \<or> \<not> P (hd xs) \<Longrightarrow> dropWhile P xs = xs"
  by (cases xs) auto

lemma py_strip_idem [simp]: "py_strip (py_strip s) = py_strip s"
proof -
  define u where "u = dropWhile is_space s"
  define v where "v = dropWhile is_space (rev u)"
  have u: "u = [] \<or> \<not> is_space (hd u)" using hd_dropWhile[of is_space s] by (auto simp: u_def)
  have v: "v = [] \<or> \<not> is_space (hd v)" using hd_dropWhile[of is_space "rev u"] by (auto simp: v_def)
  have "suffix v (rev u)" by (simp add: v_def suffix_dropWhile)
  then obtain w where "u = rev v @ w" by (metis suffix_def rev_append rev_rev_ident)
  then have "rev v = [] \<or> \<not> is_space (hd (rev v))" using u by (cases "rev v") auto
  then have "dropWhile is_space (rev v) = rev v" by (rule dropWhile_id)
  moreover have "dropWhile is_space v = v" using v by (rule dropWhile_id)
  ultimately show ?thesis by (simp add: py_strip_def u_def[symmetric] v_def[symmetric])
qed

text \<open>Lists and counting.\<close>

lemma count_list_filter_fst:
  "count_list (map snd (filter (\<lambda>e. fst e = x) es)) y = count_list es (x, y)"
  by (induction es) auto

lemma distinct_map_fst_filter: "distinct (map fst xs) \<Longrightarrow> distinct (map fst (filter P xs))"
  by (induction xs) auto

lemma map_fst_filter_key: "map fst (filter (\<lambda>(k, _). P k) xs) = filter P (map fst xs)"
  by (induction xs) auto

lemma map_of_filter_key:
  "map_of (filter (\<lambda>p. P (fst p)) xs) k = (if P k then map_of xs k else None)"
  by (induction xs) auto

text \<open>
  JSON documents as the programs read and write them: an object keeps the order of its keys,
  and a number that is not an integer is kept as its text.
\<close>

datatype json = JNull | JBool bool | JInt int | JFloat string | JStr string
  | JList "json list" | JObj "(string \<times> json) list"

definition json_field :: "(string, json) dict \<Rightarrow> string \<Rightarrow> json" where
  "json_field d k = (case dict_get d k of Some v \<Rightarrow> v | None \<Rightarrow> JNull)"

definition json_get :: "(string, json) dict \<Rightarrow> string \<Rightarrow> json \<Rightarrow> json" where
  "json_get d k dflt = (case dict_get d k of Some v \<Rightarrow> v | None \<Rightarrow> dflt)"

definition truthy :: "json \<Rightarrow> bool" where
  "truthy v = (case v of JNull \<Rightarrow> False | JBool b \<Rightarrow> b | JInt n \<Rightarrow> n \<noteq> 0 | JFloat t \<Rightarrow> t \<notin> {''0.0'', ''-0.0''}
     | JStr s \<Rightarrow> s \<noteq> [] | JList xs \<Rightarrow> xs \<noteq> [] | JObj xs \<Rightarrow> xs \<noteq> [])"

definition is_str :: "json \<Rightarrow> bool" where
  "is_str v = (case v of JStr s \<Rightarrow> True | _ \<Rightarrow> False)"

definition is_text :: "json \<Rightarrow> bool" where
  "is_text v = (case v of JStr s \<Rightarrow> s \<noteq> [] | _ \<Rightarrow> False)"

definition the_str :: "json \<Rightarrow> string" where
  "the_str v = (case v of JStr s \<Rightarrow> s | _ \<Rightarrow> [])"

definition check :: "bool \<Rightarrow> 'e \<Rightarrow> 'e option \<Rightarrow> 'e option" where
  "check bad e rest = (if bad then Some e else rest)"

lemma check_None [simp]: "check bad e rest = None \<longleftrightarrow> \<not> bad \<and> rest = None"
  by (simp add: check_def)

lemma dict_get_filter:
  "dict_ok rows \<Longrightarrow> dict_get (filter P rows) k = (case dict_get rows k of None \<Rightarrow> None | Some r \<Rightarrow> if P (k, r) then Some r else None)"
proof (induction rows)
  case (Cons x rows)
  obtain a b where x: "x = (a, b)" by (cases x)
  have d: "dict_ok rows" "dict_get rows a = None" using Cons.prems x by (auto simp: dict_ok_def dict_get_None_iff)
  then show ?case using Cons.IH[OF d(1)] x d(2) by (auto simp: dict_get_def split: option.splits)
qed simp

lemma dict_ok_filter: "dict_ok rows \<Longrightarrow> dict_ok (filter P rows)"
  by (simp add: dict_ok_def distinct_map_fst_filter)

subsection \<open>Numbers and secrets as text\<close>

definition digit :: "nat \<Rightarrow> char" where
  "digit n = char_of (48 + n)"

fun decimal :: "nat \<Rightarrow> string" where
  "decimal n = (if n < 10 then [digit n] else decimal (n div 10) @ [digit (n mod 10)])"

declare decimal.simps [simp del]

definition is_ascii :: "string \<Rightarrow> bool" where
  "is_ascii s = list_all (\<lambda>c. (of_char c :: nat) < 128) s"

text \<open>\<open>secrets.compare_digest\<close> raises \<open>TypeError\<close> on text that is not ASCII (\<open>None\<close>).\<close>

definition compare_digest :: "string \<Rightarrow> string \<Rightarrow> bool option" where
  "compare_digest a b = (if is_ascii a \<and> is_ascii b then Some (a = b) else None)"

end
