(* ===== verification/Phase_Graph.thy ===== *)
theory Phase_Graph
  imports Roxy_Prelude
begin

text \<open>
  The lifecycle module graph of \<open>agent/lifecycle/phase.py\<close>: which plugin modules stay
  active, the order in which the modules of a phase run (\<open>topo_sort_modules\<close>), the start-up
  check of a phase (\<open>Phase._validate\<close>) and the run of its module chain.
\<close>

section \<open>Modules and slots\<close>

text \<open>
  A module is seen only through \<open>getattr\<close>: \<open>pm_slot\<close> is \<open>None\<close> when the attribute is
  missing or not a string, \<open>pm_requires\<close> and \<open>pm_produces\<close> are the class attributes
  after \<open>str(...)\<close>.
\<close>

record phase_module =
  pm_slot :: "string option"
  pm_requires :: "string list"
  pm_produces :: "string list"

datatype phase_error =
    Missing_slot nat
  | Duplicate_slot string
  | Cyclic_modules "string list"
  | Dependency_unsatisfied nat string
  | Dependency_missing nat string
  | Slot_unclosed nat string
  | No_output

definition builtin_prefixes :: "string list" where
  "builtin_prefixes =
     [''before_turn.'', ''before_reasoning.'', ''prompt_render.'', ''before_step.'',
      ''after_step.'', ''after_reasoning.'', ''after_turn.'']"

definition is_builtin_slot :: "string \<Rightarrow> bool" where
  "is_builtin_slot slot = list_ex (\<lambda>p. prefix p slot) builtin_prefixes"

definition is_module_slot :: "string \<Rightarrow> bool" where
  "is_module_slot slot \<longleftrightarrow> CHR ''.'' \<in> set slot \<and> CHR '':'' \<notin> set slot"

definition missing_module_requires :: "phase_module \<Rightarrow> string list \<Rightarrow> string list" where
  "missing_module_requires m active =
     filter (\<lambda>req. is_module_slot req \<and> req \<notin> set active) (pm_requires m)"

definition module_requires :: "phase_module \<Rightarrow> string list \<Rightarrow> string list" where
  "module_requires m known = filter (\<lambda>slot. slot \<in> set known) (pm_requires m)"

section \<open>Disabling modules whose dependencies are absent\<close>

text \<open>
  One pass of the \<open>while True\<close> loop of \<open>_active_module_slots\<close> over \<open>slot_map.items()\<close>:
  the slots to disable, all judged against the same \<open>active\<close>.
\<close>

definition disabled_slots :: "(string, phase_module) dict \<Rightarrow> string list \<Rightarrow> string list" where
  "disabled_slots slot_map active =
     map fst (filter (\<lambda>(slot, m). slot \<in> set active \<and> \<not> is_builtin_slot slot
                          \<and> missing_module_requires m active \<noteq> []) slot_map)"

lemma set_disabled_slots:
  "set (disabled_slots slot_map active) =
     {s \<in> set active. \<not> is_builtin_slot s \<and>
        (\<exists>m. (s, m) \<in> set slot_map \<and> missing_module_requires m active \<noteq> [])}"
  by (force simp: disabled_slots_def)

lemma disabled_slots_nonempty:
  "disabled_slots slot_map active \<noteq> [] \<Longrightarrow> \<exists>s \<in> set active. s \<in> set (disabled_slots slot_map active)"
  by (metis (no_types, lifting) list.set_intros(1) mem_Collect_eq neq_Nil_conv set_disabled_slots)

function active_loop :: "(string, phase_module) dict \<Rightarrow> string list \<Rightarrow> string list" where
  "active_loop slot_map active =
     (let disabled = disabled_slots slot_map active in
      if disabled = [] then active
      else active_loop slot_map (filter (\<lambda>s. s \<notin> set disabled) active))"
  by pat_completeness auto
termination
  by (relation "measure (\<lambda>(_, active). length active)")
    (auto simp: Let_def intro: length_filter_less dest!: disabled_slots_nonempty)

declare active_loop.simps [simp del]

definition active_module_slots :: "(string, phase_module) dict \<Rightarrow> string list" where
  "active_module_slots slot_map = active_loop slot_map (dict_keys slot_map)"

text \<open>
  A set of slots is closed when each plugin slot in it has its module dependencies in it.
  The loop computes the largest closed subset: it stops at a closed set, and no closed set
  ever loses a member to a pass.
\<close>

definition closed_slots :: "(string, phase_module) dict \<Rightarrow> string set \<Rightarrow> bool" where
  "closed_slots slot_map A \<longleftrightarrow>
     (\<forall>(s, m) \<in> set slot_map. s \<in> A \<and> \<not> is_builtin_slot s \<longrightarrow>
        (\<forall>r \<in> set (pm_requires m). is_module_slot r \<longrightarrow> r \<in> A))"

lemma missing_Nil_iff:
  "missing_module_requires m active = [] \<longleftrightarrow>
     (\<forall>r \<in> set (pm_requires m). is_module_slot r \<longrightarrow> r \<in> set active)"
  by (auto simp: missing_module_requires_def filter_empty_conv)

lemma closed_disjoint_disabled:
  assumes "closed_slots slot_map A" and "A \<subseteq> set active"
  shows "A \<inter> set (disabled_slots slot_map active) = {}"
  using assms unfolding set_disabled_slots closed_slots_def missing_Nil_iff by fastforce

lemma active_loop_subset: "set (active_loop slot_map active) \<subseteq> set active"
proof (induction slot_map active rule: active_loop.induct)
  case (1 slot_map active)
  then show ?case
    by (subst active_loop.simps) (auto simp: Let_def)
qed

lemma active_loop_closed: "closed_slots slot_map (set (active_loop slot_map active))"
proof (induction slot_map active rule: active_loop.induct)
  case (1 slot_map active)
  show ?case
  proof (cases "disabled_slots slot_map active = []")
    case True
    then have "set (disabled_slots slot_map active) = {}" by simp
    then have "closed_slots slot_map (set active)"
      unfolding set_disabled_slots closed_slots_def
      using missing_Nil_iff by blast
    with True show ?thesis by (subst active_loop.simps) simp
  next
    case False
    with 1 show ?thesis by (subst active_loop.simps) (simp add: Let_def)
  qed
qed

lemma active_loop_greatest:
  "closed_slots slot_map A \<Longrightarrow> A \<subseteq> set active \<Longrightarrow> A \<subseteq> set (active_loop slot_map active)"
proof (induction slot_map active rule: active_loop.induct)
  case (1 slot_map active)
  show ?case
  proof (cases "disabled_slots slot_map active = []")
    case True
    with 1 show ?thesis by (subst active_loop.simps) simp
  next
    case False
    have "A \<subseteq> set (filter (\<lambda>s. s \<notin> set (disabled_slots slot_map active)) active)"
      using 1(2,3) closed_disjoint_disabled[OF 1(2,3)] by auto
    with False 1 show ?thesis by (subst active_loop.simps) (simp add: Let_def)
  qed
qed

section \<open>Topological order\<close>

text \<open>The first loop of \<open>topo_sort_modules\<close>: slots are collected in order, or it raises.\<close>

fun collect_slots ::
  "nat \<Rightarrow> (string, phase_module) dict \<Rightarrow> (string, nat) dict \<Rightarrow> phase_module list
     \<Rightarrow> phase_error + (string, phase_module) dict \<times> (string, nat) dict" where
  "collect_slots index slot_map slot_order [] = Inr (slot_map, slot_order)"
| "collect_slots index slot_map slot_order (m # ms) =
     (case pm_slot m of
        None \<Rightarrow> Inl (Missing_slot index)
      | Some slot \<Rightarrow>
          if slot = [] then Inl (Missing_slot index)
          else if slot \<in> set (dict_keys slot_map) then Inl (Duplicate_slot slot)
          else collect_slots (Suc index) (dict_set slot_map slot m)
                 (dict_set slot_order slot index) ms)"

text \<open>
  \<open>in_degree\<close> and \<open>dependents\<close>: the edges \<open>(req, slot)\<close> in the order the nested loop
  visits them.  \<open>dependents[req]\<close> is the list appended for \<open>req\<close>, and \<open>in_degree[slot]\<close>
  the number of increments of \<open>slot\<close>.
\<close>

definition requirement_edges :: "(string, phase_module) dict \<Rightarrow> (string \<times> string) list" where
  "requirement_edges slot_map =
     concat (map (\<lambda>(slot, m). map (\<lambda>req. (req, slot)) (module_requires m (dict_keys slot_map)))
               slot_map)"

definition initial_degree :: "(string \<times> string) list \<Rightarrow> string \<Rightarrow> int" where
  "initial_degree edges slot = int (length (filter (\<lambda>e. snd e = slot) edges))"

definition dependents_of :: "(string \<times> string) list \<Rightarrow> string \<Rightarrow> string list" where
  "dependents_of edges req = map snd (filter (\<lambda>e. fst e = req) edges)"

text \<open>\<open>for dependent in dependents[slot]\<close>: decrement, and queue at zero.\<close>

fun release_dependents ::
  "(string \<Rightarrow> int) \<Rightarrow> string list \<Rightarrow> string list \<Rightarrow> (string \<Rightarrow> int) \<times> string list" where
  "release_dependents deg queue [] = (deg, queue)"
| "release_dependents deg queue (d # ds) =
     (let deg' = deg(d := deg d - 1) in
      release_dependents deg' (if deg' d = 0 then queue @ [d] else queue) ds)"

definition slot_key :: "(string, nat) dict \<Rightarrow> string \<Rightarrow> bool \<times> nat" where
  "slot_key slot_order slot =
     (is_builtin_slot slot, case dict_get slot_order slot of Some i \<Rightarrow> i | None \<Rightarrow> 0)"

lemma release_Cons:
  "release_dependents deg queue (d # ds) =
     release_dependents (deg(d := deg d - 1)) (if deg d = 1 then queue @ [d] else queue) ds"
  by (simp add: Let_def)

declare release_dependents.simps(2) [simp del]

lemma release_deg:
  "fst (release_dependents deg queue ds) = (\<lambda>d. deg d - int (count_list ds d))"
  by (induction ds arbitrary: deg queue) (simp_all add: release_Cons fun_eq_iff)

lemma release_measure:
  assumes "finite S" and "set ds \<subseteq> S"
  shows "length (snd (release_dependents deg queue ds))
           + (\<Sum>d\<in>S. nat (fst (release_dependents deg queue ds) d))
         \<le> length queue + (\<Sum>d\<in>S. nat (deg d))"
  using assms(2)
proof (induction ds arbitrary: deg queue)
  case Nil
  then show ?case by simp
next
  case (Cons d ds)
  define deg' where "deg' = deg(d := deg d - 1)"
  define queue' where "queue' = (if deg d = 1 then queue @ [d] else queue)"
  have rest: "(\<Sum>e\<in>S - {d}. nat (deg' e)) = (\<Sum>e\<in>S - {d}. nat (deg e))"
    by (rule sum.cong) (auto simp: deg'_def)
  have d: "d \<in> S" using Cons.prems by simp
  have "(if deg d = 1 then 1 else 0) + (\<Sum>e\<in>S. nat (deg' e)) \<le> (\<Sum>e\<in>S. nat (deg e))"
    unfolding sum.remove[OF assms(1) d] rest by (auto simp: deg'_def)
  moreover have "length queue' = length queue + (if deg d = 1 then 1 else 0)"
    by (simp add: queue'_def)
  moreover have "set ds \<subseteq> S" using Cons.prems by simp
  note Cons.IH[OF this, of deg' queue']
  ultimately show ?case
    by (simp add: release_Cons flip: deg'_def queue'_def)
qed

text \<open>The \<open>while queue\<close> loop: sort the queue, pop its head, release its dependents.\<close>

function kahn_loop ::
  "(string \<Rightarrow> bool \<times> nat) \<Rightarrow> (string \<times> string) list \<Rightarrow> (string \<Rightarrow> int) \<Rightarrow> string list \<Rightarrow> string list
     \<Rightarrow> (string \<Rightarrow> int) \<times> string list" where
  "kahn_loop key edges deg queue sorted_slots =
     (case sort_key key queue of
        [] \<Rightarrow> (deg, sorted_slots)
      | slot # rest \<Rightarrow>
          kahn_loop key edges
            (fst (release_dependents deg rest (dependents_of edges slot)))
            (snd (release_dependents deg rest (dependents_of edges slot)))
            (sorted_slots @ [slot]))"
  by pat_completeness auto
termination
proof (relation "measure (\<lambda>(key, edges, deg, queue, _).
      length queue + (\<Sum>d\<in>snd ` set edges. nat (deg d)))", goal_cases)
  case 1
  then show ?case by simp
next
  case (2 key edges deg queue sorted_slots slot rest)
  from 2 have "length queue = Suc (length rest)"
    by (metis length_Cons length_sort)
  moreover have "set (dependents_of edges slot) \<subseteq> snd ` set edges"
    by (auto simp: dependents_of_def)
  ultimately show ?case
    using release_measure[of "snd ` set edges" "dependents_of edges slot" deg rest] by simp
qed

declare kahn_loop.simps [simp del]

definition topo_sort_modules :: "phase_module list \<Rightarrow> phase_error + phase_module list" where
  "topo_sort_modules modules =
     (case collect_slots 0 [] [] modules of
        Inl e \<Rightarrow> Inl e
      | Inr (all_slots, slot_order) \<Rightarrow>
          (let active = active_module_slots all_slots;
               slot_map = filter (\<lambda>(slot, m). slot \<in> set active) all_slots;
               edges = requirement_edges slot_map;
               in_degree = initial_degree edges;
               queue = filter (\<lambda>slot. in_degree slot = 0) (dict_keys slot_map);
               (deg, order) = kahn_loop (slot_key slot_order) edges in_degree queue []
           in if length order \<noteq> length slot_map
              then Inl (Cyclic_modules (sort (filter (\<lambda>slot. deg slot > 0) (dict_keys slot_map))))
              else Inr (map (\<lambda>slot. the (dict_get slot_map slot)) order)))"

section \<open>Correctness of the topological order\<close>

lemma release_new:
  assumes "\<forall>d \<in> set ds. int (count_list ds d) \<le> deg d"
  shows "\<exists>news. snd (release_dependents deg queue ds) = queue @ news \<and> distinct news
           \<and> set news = {d \<in> set ds. deg d = int (count_list ds d)}"
  using assms
proof (induction ds arbitrary: deg queue)
  case Nil
  then show ?case by simp
next
  case (Cons d ds)
  define deg' where "deg' = deg(d := deg d - 1)"
  define queue' where "queue' = (if deg d = 1 then queue @ [d] else queue)"
  have deg': "deg' d = deg d - 1" "\<And>e. e \<noteq> d \<Longrightarrow> deg' e = deg e"
    by (simp_all add: deg'_def)
  have "int (count_list ds e) \<le> deg' e" if "e \<in> set ds" for e
    using Cons.prems that deg' by (cases "e = d") fastforce+
  with Cons.IH[of deg' queue'] obtain news where news:
    "snd (release_dependents deg' queue' ds) = queue' @ news"
    "distinct news" "set news = {e \<in> set ds. deg' e = int (count_list ds e)}"
    by blast
  have step: "release_dependents deg queue (d # ds) = release_dependents deg' queue' ds"
    by (simp add: release_Cons deg'_def queue'_def)
  have other: "e \<in> set news \<longleftrightarrow> e \<in> set (d # ds) \<and> deg e = int (count_list (d # ds) e)"
    if "e \<noteq> d" for e
    using that by (auto simp: news(3) deg'(2))
  have here: "d \<in> set news \<longleftrightarrow> d \<in> set ds \<and> deg d = int (count_list (d # ds) d)"
    by (auto simp: news(3) deg'(1))
  show ?case
  proof (cases "deg d = 1")
    case True
    then have none: "d \<notin> set ds"
      using Cons.prems by (auto simp: count_list_0_iff[symmetric] simp del: count_list_0_iff)
    then have "set (d # news) = {e \<in> set (d # ds). deg e = int (count_list (d # ds) e)}"
      using other here True by (auto simp: count_list_0_iff)
    moreover have "distinct (d # news)" using here none news(2) by simp
    ultimately show ?thesis
      using news(1) True step by (intro exI[of _ "d # news"]) (simp add: queue'_def)
  next
    case False
    then have "deg d = int (count_list (d # ds) d) \<Longrightarrow> d \<in> set ds"
      by (cases "d \<in> set ds") (auto simp: count_notin)
    then have "set news = {e \<in> set (d # ds). deg e = int (count_list (d # ds) e)}"
      using other here by auto
    with news(1,2) False step show ?thesis
      by (intro exI[of _ news]) (simp add: queue'_def)
  qed
qed

text \<open>
  The dependency graph as the loop sees it: the slots \<open>S\<close>, the known requirements \<open>R s\<close>
  of each, and the appended edges.
\<close>

definition graph_ok :: "string list \<Rightarrow> (string \<Rightarrow> string list) \<Rightarrow> (string \<times> string) list \<Rightarrow> bool" where
  "graph_ok S R edges \<longleftrightarrow>
     (\<forall>s \<in> set S. set (R s) \<subseteq> set S)
     \<and> (\<forall>x. set (dependents_of edges x) \<subseteq> set S)
     \<and> (\<forall>x. \<forall>s \<in> set S. count_list (dependents_of edges x) s = count_list (R s) x)"

definition waits_for :: "string list \<Rightarrow> (string \<Rightarrow> string list) \<Rightarrow> (string \<times> string) set" where
  "waits_for S R = {(r, s). s \<in> set S \<and> r \<in> set (R s)}"

definition emits_after_requirements :: "(string \<Rightarrow> string list) \<Rightarrow> string list \<Rightarrow> bool" where
  "emits_after_requirements R out \<longleftrightarrow>
     (\<forall>i < length out. set (R (out ! i)) \<subseteq> set (take i out))"

definition emits_least_ready ::
  "string list \<Rightarrow> (string \<Rightarrow> string list) \<Rightarrow> (string \<Rightarrow> bool \<times> nat) \<Rightarrow> string list \<Rightarrow> bool" where
  "emits_least_ready S R key out \<longleftrightarrow>
     (\<forall>i < length out. \<forall>s \<in> set S. s \<notin> set (take i out) \<and> set (R s) \<subseteq> set (take i out)
         \<longrightarrow> key (out ! i) \<le> key s)"

definition kahn_inv ::
  "string list \<Rightarrow> (string \<Rightarrow> string list) \<Rightarrow> (string \<Rightarrow> bool \<times> nat) \<Rightarrow> (string \<Rightarrow> int)
     \<Rightarrow> string list \<Rightarrow> string list \<Rightarrow> bool" where
  "kahn_inv S R key deg queue out \<longleftrightarrow>
     distinct (out @ queue) \<and> set (out @ queue) \<subseteq> set S
     \<and> (\<forall>s \<in> set S. deg s = int (length (filter (\<lambda>r. r \<notin> set out) (R s))))
     \<and> (\<forall>s \<in> set S. s \<in> set (out @ queue) \<longleftrightarrow> deg s = 0)
     \<and> emits_after_requirements R out \<and> emits_least_ready S R key out"

lemma length_filter_insert:
  "x \<notin> A \<Longrightarrow> length (filter (\<lambda>r. r \<notin> A) xs)
     = length (filter (\<lambda>r. r \<notin> insert x A) xs) + count_list xs x"
  by (induction xs) auto

lemma emits_after_requirements_snoc:
  "emits_after_requirements R out \<Longrightarrow> set (R x) \<subseteq> set out
     \<Longrightarrow> emits_after_requirements R (out @ [x])"
  by (auto simp: emits_after_requirements_def nth_append less_Suc_eq)

lemma emits_least_ready_snoc:
  assumes "emits_least_ready S R key out"
    and "\<And>s. s \<in> set S \<Longrightarrow> s \<notin> set out \<Longrightarrow> set (R s) \<subseteq> set out \<Longrightarrow> key x \<le> key s"
  shows "emits_least_ready S R key (out @ [x])"
  using assms unfolding emits_least_ready_def by (auto simp: nth_append less_Suc_eq)

lemma kahn_step:
  assumes g: "graph_ok S R edges" and inv: "kahn_inv S R key deg queue out"
    and pop: "sort_key key queue = x # rest"
  shows "kahn_inv S R key
           (fst (release_dependents deg rest (dependents_of edges x)))
           (snd (release_dependents deg rest (dependents_of edges x))) (out @ [x])"
proof -
  let ?ds = "dependents_of edges x"
  define deg' where "deg' = fst (release_dependents deg rest ?ds)"
  have q: "set queue = insert x (set rest)" "distinct (x # rest)"
    using inv pop set_sort[of key queue] distinct_sort[of key queue]
    by (auto simp: kahn_inv_def)
  have least: "key x \<le> key s" if "s \<in> set queue" for s
    using sorted_sort_key[of key queue] that pop q by auto
  have xS: "x \<in> set S" "x \<notin> set out" "deg x = 0" and disj: "set out \<inter> set queue = {}"
    using inv q by (auto simp: kahn_inv_def)
  have deps: "set ?ds \<subseteq> set S" "\<And>s. s \<in> set S \<Longrightarrow> count_list ?ds s = count_list (R s) x"
    using g by (auto simp: graph_ok_def)
  have deg: "deg s = int (length (filter (\<lambda>r. r \<notin> set (out @ [x])) (R s))) + int (count_list ?ds s)"
    if "s \<in> set S" for s
    using inv that length_filter_insert[OF xS(2), of "R s"] deps(2)[OF that]
    by (simp add: kahn_inv_def)
  have deg': "deg' s = int (length (filter (\<lambda>r. r \<notin> set (out @ [x])) (R s)))"
    if "s \<in> set S" for s
    using deg[OF that] by (simp add: deg'_def release_deg)
  have "\<forall>d \<in> set ?ds. int (count_list ?ds d) \<le> deg d"
    using deg deps(1) by fastforce
  from release_new[OF this, of rest] obtain news where
    new: "snd (release_dependents deg rest ?ds) = rest @ news" "distinct news"
      "set news = {d \<in> set ?ds. deg d = int (count_list ?ds d)}" by blast
  have iff: "s \<in> set news \<longleftrightarrow> deg' s = 0 \<and> deg s \<noteq> 0" if "s \<in> set S" for s
    using that deg[OF that] deg'[OF that] by (auto simp: new(3) count_list_0_iff)
  have newS: "set news \<subseteq> set S" using new(3) deps(1) by auto
  have zero: "deg' s = 0" if "s \<in> set S" "deg s = 0" for s
    using deg[OF that(1)] deg'[OF that(1)] that(2) by linarith
  have state: "s \<in> set (out @ queue) \<longleftrightarrow> deg s = 0" if "s \<in> set S" for s
    using inv that by (simp add: kahn_inv_def)
  have fresh: "set news \<inter> set (out @ queue) = {}"
    using iff newS state by blast
  have "distinct (out @ [x] @ rest @ news)"
    using inv q fresh new(2) disj by (auto simp: kahn_inv_def)
  moreover have "set (out @ [x] @ rest @ news) \<subseteq> set S"
    using inv q newS by (auto simp: kahn_inv_def)
  moreover have "\<forall>s \<in> set S. s \<in> set (out @ [x] @ rest @ news) \<longleftrightarrow> deg' s = 0"
    using iff state zero q(1) by auto
  moreover have "emits_after_requirements R (out @ [x])"
    using inv xS by (intro emits_after_requirements_snoc) (auto simp: kahn_inv_def filter_empty_conv)
  moreover have "emits_least_ready S R key (out @ [x])"
  proof (rule emits_least_ready_snoc)
    show "emits_least_ready S R key out" using inv by (simp add: kahn_inv_def)
    fix s assume s: "s \<in> set S" "s \<notin> set out" "set (R s) \<subseteq> set out"
    then have "filter (\<lambda>r. r \<notin> set out) (R s) = []"
      by (auto simp: filter_empty_conv)
    then have "deg s = 0"
      using inv s(1) by (simp add: kahn_inv_def)
    then show "key x \<le> key s" using state s least by auto
  qed
  ultimately show ?thesis
    using new(1) deg' unfolding kahn_inv_def deg'_def[symmetric] by simp
qed

lemma kahn_loop_inv:
  "graph_ok S R edges \<Longrightarrow> kahn_inv S R key deg queue out \<Longrightarrow>
     (case kahn_loop key edges deg queue out of (deg', out') \<Rightarrow> kahn_inv S R key deg' [] out')"
proof (induction key edges deg queue out rule: kahn_loop.induct)
  case (1 key edges deg queue out)
  show ?case
  proof (cases "sort_key key queue")
    case Nil
    then have "queue = []"
      by (metis length_0_conv length_sort)
    moreover have "kahn_loop key edges deg queue out = (deg, out)"
      using Nil by (subst kahn_loop.simps) simp
    ultimately show ?thesis using 1(3) by simp
  next
    case (Cons x rest)
    have "kahn_loop key edges deg queue out = kahn_loop key edges
            (fst (release_dependents deg rest (dependents_of edges x)))
            (snd (release_dependents deg rest (dependents_of edges x))) (out @ [x])"
      using Cons by (subst kahn_loop.simps) simp
    with 1(1)[OF Cons 1(2) kahn_step[OF 1(2,3) Cons]] show ?thesis by simp
  qed
qed

lemma order_acyclic:
  assumes "emits_after_requirements R out" and "set out = set S"
  shows "acyclic (waits_for S R)"
proof -
  define pos where "pos s = (LEAST i. i < length out \<and> out ! i = s)" for s
  have pos: "pos s < length out \<and> out ! pos s = s" if "s \<in> set S" for s
  proof -
    from that assms(2) have "\<exists>i. i < length out \<and> out ! i = s"
      by (simp flip: in_set_conv_nth)
    then show ?thesis unfolding pos_def by (rule LeastI_ex)
  qed
  have "pos r < pos s" if "(r, s) \<in> waits_for S R" for r s
  proof -
    from that have "s \<in> set S" and "r \<in> set (R s)" by (auto simp: waits_for_def)
    have lt: "pos s < length out" and at: "out ! pos s = s"
      using pos[OF \<open>s \<in> set S\<close>] by blast+
    have "set (R (out ! pos s)) \<subseteq> set (take (pos s) out)"
      using assms(1) lt unfolding emits_after_requirements_def by blast
    then have "set (R s) \<subseteq> set (take (pos s) out)" unfolding at .
    with \<open>r \<in> set (R s)\<close> have "r \<in> set (take (pos s) out)" by blast
    then obtain i where "i < pos s" "i < length out" "out ! i = r"
      by (auto simp: in_set_conv_nth)
    moreover from this have "pos r \<le> i" unfolding pos_def by (intro Least_le) simp
    ultimately show ?thesis by simp
  qed
  then have "waits_for S R \<subseteq> measure pos" by auto
  then show ?thesis
    by (meson wf_acyclic wf_measure wf_subset)
qed

lemma kahn_complete:
  assumes "graph_ok S R edges" and "kahn_inv S R key deg [] out" and "acyclic (waits_for S R)"
  shows "set S \<subseteq> set out"
proof (rule ccontr)
  assume "\<not> set S \<subseteq> set out"
  then obtain s0 where s0: "s0 \<in> set S - set out" by blast
  have "waits_for S R \<subseteq> set S \<times> set S"
    using assms(1) by (auto simp: waits_for_def graph_ok_def)
  then have "finite (waits_for S R)" by (rule finite_subset) simp
  then have "wf (waits_for S R)" using assms(3) by (rule finite_acyclic_wf)
  from wfE_min[OF this s0] obtain z where
    z: "z \<in> set S - set out" "\<And>y. (y, z) \<in> waits_for S R \<Longrightarrow> y \<notin> set S - set out" by metis
  have "set (R z) \<subseteq> set out"
    using z assms(1) by (fastforce simp: waits_for_def graph_ok_def)
  then have "filter (\<lambda>r. r \<notin> set out) (R z) = []" by (auto simp: filter_empty_conv)
  with z(1) assms(2) show False by (auto simp: kahn_inv_def)
qed

section \<open>The sorted chain of a phase\<close>

abbreviation slots_of :: "phase_module list \<Rightarrow> string list" where
  "slots_of ms \<equiv> map (\<lambda>m. the (pm_slot m)) ms"

definition slot_map_ok :: "(string, phase_module) dict \<Rightarrow> bool" where
  "slot_map_ok M \<longleftrightarrow> dict_ok M \<and> (\<forall>(s, m) \<in> set M. pm_slot m = Some s)"

lemma collect_slots_ok:
  assumes "collect_slots (length M) M Ord ms = Inr (M', Ord')"
    and "slot_map_ok M" and "\<forall>i < length M. dict_get Ord (fst (M ! i)) = Some i"
  shows "slot_map_ok M' \<and> map snd M' = map snd M @ ms
           \<and> (\<forall>i < length M'. dict_get Ord' (fst (M' ! i)) = Some i)"
  using assms
proof (induction ms arbitrary: M Ord)
  case Nil
  then show ?case by simp
next
  case (Cons m ms)
  from Cons.prems(1) obtain slot where slot:
    "pm_slot m = Some slot" "slot \<notin> set (dict_keys M)"
    "collect_slots (Suc (length M)) (dict_set M slot m) (dict_set Ord slot (length M)) ms = Inr (M', Ord')"
    by (auto split: option.splits if_splits)
  have set: "dict_set M slot m = M @ [(slot, m)]"
    using slot(2) unfolding dict_set_def by (induction M) auto
  have "slot_map_ok (M @ [(slot, m)])"
    using Cons.prems(2) slot by (auto simp: slot_map_ok_def dict_ok_def)
  moreover have "\<forall>i < length (M @ [(slot, m)]).
      dict_get (dict_set Ord slot (length M)) (fst ((M @ [(slot, m)]) ! i)) = Some i"
    using Cons.prems(3) slot(2) by (auto simp: nth_append less_Suc_eq)
  ultimately show ?case
    using Cons.IH[of "M @ [(slot, m)]" "dict_set Ord slot (length M)"] slot(3) by (simp add: set)
qed

lemma slot_map_ok_keys: "slot_map_ok M \<Longrightarrow> dict_keys M = slots_of (map snd M)"
  by (induction M) (auto simp: slot_map_ok_def dict_ok_def)

lemma slot_map_ok_filter: "slot_map_ok M \<Longrightarrow> slot_map_ok (filter P M)"
  by (auto simp: slot_map_ok_def dict_ok_def distinct_map_fst_filter)

lemma slot_map_get: "slot_map_ok M \<Longrightarrow> s \<in> set (dict_keys M) \<Longrightarrow>
    \<exists>m. dict_get M s = Some m \<and> (s, m) \<in> set M \<and> pm_slot m = Some s"
  by (auto simp: slot_map_ok_def dict_get_Some_iff) fastforce

abbreviation requires_in :: "(string, phase_module) dict \<Rightarrow> string \<Rightarrow> string list" where
  "requires_in M s \<equiv> module_requires (the (dict_get M s)) (dict_keys M)"

lemma count_list_map_Pair: "count_list (map (\<lambda>r. (r, t)) xs) (x, s) = (if t = s then count_list xs x else 0)"
  by (induction xs) auto

lemma count_edges:
  "distinct (map fst M) \<Longrightarrow>
   count_list (concat (map (\<lambda>(t, m). map (\<lambda>r. (r, t)) (module_requires m known)) M)) (x, s)
     = (case map_of M s of None \<Rightarrow> 0 | Some m \<Rightarrow> count_list (module_requires m known) x)"
proof (induction M)
  case (Cons a M)
  obtain t m where a: "a = (t, m)" by (cases a)
  have "map_of M t = None" using Cons.prems a by (simp add: map_of_eq_None_iff)
  with Cons a show ?case by (auto simp: count_list_map_Pair)
qed simp

lemma length_edges:
  "distinct (map fst M) \<Longrightarrow>
   length (filter (\<lambda>e. snd e = s) (concat (map (\<lambda>(t, m). map (\<lambda>r. (r, t)) (module_requires m known)) M)))
     = (case map_of M s of None \<Rightarrow> 0 | Some m \<Rightarrow> length (module_requires m known))"
proof (induction M)
  case (Cons a M)
  have "filter (\<lambda>e. snd e = s) (map (\<lambda>r. (r, t)) xs) = (if t = s then map (\<lambda>r. (r, t)) xs else [])"
    for t and xs :: "string list"
    by (induction xs) auto
  moreover obtain t m where a: "a = (t, m)" by (cases a)
  moreover have "map_of M t = None" using Cons.prems a by (simp add: map_of_eq_None_iff)
  ultimately show ?case using Cons by auto
qed simp

lemma requirement_graph_ok:
  assumes "slot_map_ok M"
  shows "graph_ok (dict_keys M) (requires_in M) (requirement_edges M)"
proof -
  have d: "distinct (map fst M)" using assms by (simp add: slot_map_ok_def dict_ok_def)
  have "count_list (dependents_of (requirement_edges M) x) s = count_list (requires_in M s) x"
    if "s \<in> set (dict_keys M)" for x s
    using slot_map_get[OF assms that] count_edges[OF d, of "dict_keys M" x s]
    by (auto simp: dependents_of_def requirement_edges_def count_list_filter_fst dict_get_def)
  moreover have "set (dependents_of (requirement_edges M) x) \<subseteq> set (dict_keys M)" for x
    by (force simp: dependents_of_def requirement_edges_def)
  ultimately show ?thesis
    by (auto simp: graph_ok_def module_requires_def)
qed

lemma initial_degree_eq:
  assumes "slot_map_ok M" and "s \<in> set (dict_keys M)"
  shows "initial_degree (requirement_edges M) s = int (length (requires_in M s))"
proof -
  have d: "distinct (map fst M)" using assms by (simp add: slot_map_ok_def dict_ok_def)
  show ?thesis
    using slot_map_get[OF assms] length_edges[OF d, of s "dict_keys M"]
    by (auto simp: initial_degree_def requirement_edges_def dict_get_def)
qed

lemma kahn_inv_init:
  assumes "slot_map_ok M"
  shows "kahn_inv (dict_keys M) (requires_in M) key (initial_degree (requirement_edges M))
           (filter (\<lambda>s. initial_degree (requirement_edges M) s = 0) (dict_keys M)) []"
  using assms initial_degree_eq[OF assms]
  by (auto simp: kahn_inv_def emits_after_requirements_def emits_least_ready_def
      slot_map_ok_def dict_ok_def)

text \<open>The state in which \<open>topo_sort_modules\<close> enters its second half, and what it returns.\<close>

definition active_map :: "phase_module list \<Rightarrow> (string, phase_module) dict" where
  "active_map ms =
     (let M = map (\<lambda>m. (the (pm_slot m), m)) ms
      in filter (\<lambda>(s, _). s \<in> set (active_module_slots M)) M)"

definition well_slotted :: "phase_module list \<Rightarrow> bool" where
  "well_slotted ms \<longleftrightarrow>
     (\<forall>m \<in> set ms. pm_slot m \<noteq> None \<and> pm_slot m \<noteq> Some []) \<and> distinct (map pm_slot ms)"

abbreviation slot_pairs :: "phase_module list \<Rightarrow> (string, phase_module) dict" where
  "slot_pairs ms \<equiv> map (\<lambda>m. (the (pm_slot m), m)) ms"

lemma collect_slots_Inr_iff:
  "(\<exists>r. collect_slots n M Ord ms = Inr r) \<longleftrightarrow>
     (\<forall>m \<in> set ms. pm_slot m \<noteq> None \<and> pm_slot m \<noteq> Some []) \<and> distinct (map pm_slot ms)
     \<and> (\<forall>m \<in> set ms. the (pm_slot m) \<notin> set (dict_keys M))"
proof (induction ms arbitrary: n M Ord)
  case (Cons m ms)
  show ?case
  proof (cases "pm_slot m")
    case None
    then show ?thesis by simp
  next
    case (Some slot)
    let ?rest = "collect_slots (Suc n) (dict_set M slot m) (dict_set Ord slot n) ms"
    show ?thesis
    proof (cases "slot = [] \<or> slot \<in> set (dict_keys M)")
      case True
      with Some show ?thesis by auto
    next
      case False
      have "(\<exists>r. collect_slots n M Ord (m # ms) = Inr r) \<longleftrightarrow> (\<exists>r. ?rest = Inr r)"
        using Some False by simp
      also have "\<dots> \<longleftrightarrow> (\<forall>x \<in> set ms. pm_slot x \<noteq> None \<and> pm_slot x \<noteq> Some []) \<and> distinct (map pm_slot ms)
          \<and> (\<forall>x \<in> set ms. the (pm_slot x) \<notin> insert slot (set (dict_keys M)))"
        unfolding Cons.IH by (simp only: set_dict_keys_set)
      also have "\<dots> \<longleftrightarrow> (\<forall>x \<in> set (m # ms). pm_slot x \<noteq> None \<and> pm_slot x \<noteq> Some [])
          \<and> distinct (map pm_slot (m # ms)) \<and> (\<forall>x \<in> set (m # ms). the (pm_slot x) \<notin> set (dict_keys M))"
      proof (cases "\<forall>x \<in> set ms. pm_slot x \<noteq> None")
        case True
        then have "pm_slot m \<in> set (map pm_slot ms) \<longleftrightarrow> (\<exists>x \<in> set ms. the (pm_slot x) = slot)"
          unfolding Some by force
        then show ?thesis using Some False by (simp del: set_map) blast
      qed auto
      finally show ?thesis .
    qed
  qed
qed simp

lemma slot_map_ok_pairs: "slot_map_ok M \<Longrightarrow> M = slot_pairs (map snd M)"
  by (induction M) (auto simp: slot_map_ok_def dict_ok_def)

lemma topo_collect:
  assumes "well_slotted ms"
  obtains Ord where "collect_slots 0 [] [] ms = Inr (slot_pairs ms, Ord)"
    and "slot_map_ok (slot_pairs ms)"
    and "\<And>i. i < length ms \<Longrightarrow> dict_get Ord (slots_of ms ! i) = Some i"
proof -
  have "\<exists>r. collect_slots 0 [] [] ms = Inr r"
    unfolding collect_slots_Inr_iff using assms by (simp add: well_slotted_def)
  then obtain M Ord where c: "collect_slots 0 [] [] ms = Inr (M, Ord)" by auto
  have "slot_map_ok M \<and> map snd M = map snd [] @ ms
           \<and> (\<forall>i < length M. dict_get Ord (fst (M ! i)) = Some i)"
    using collect_slots_ok[of "[]" "[]" ms M Ord] c by (simp add: slot_map_ok_def)
  moreover from this slot_map_ok_pairs[of M] have "M = slot_pairs ms" by simp
  ultimately show ?thesis using that c by auto
qed

lemma topo_spec:
  assumes "well_slotted ms"
  obtains Ord deg order where
    "\<And>i. i < length ms \<Longrightarrow> dict_get Ord (slots_of ms ! i) = Some i"
    and "slot_map_ok (active_map ms)"
    and "kahn_inv (dict_keys (active_map ms)) (requires_in (active_map ms)) (slot_key Ord) deg [] order"
    and "topo_sort_modules ms =
           (if length order \<noteq> length (active_map ms)
            then Inl (Cyclic_modules (sort (filter (\<lambda>s. deg s > 0) (dict_keys (active_map ms)))))
            else Inr (map (\<lambda>s. the (dict_get (active_map ms) s)) order))"
proof -
  obtain Ord where c: "collect_slots 0 [] [] ms = Inr (slot_pairs ms, Ord)"
    and ok: "slot_map_ok (slot_pairs ms)"
    and pos: "\<And>i. i < length ms \<Longrightarrow> dict_get Ord (slots_of ms ! i) = Some i"
    using topo_collect[OF assms] by blast
  have act: "slot_map_ok (active_map ms)"
    unfolding active_map_def Let_def by (rule slot_map_ok_filter[OF ok])
  let ?edges = "requirement_edges (active_map ms)"
  obtain deg order where loop: "kahn_loop (slot_key Ord) ?edges (initial_degree ?edges)
      (filter (\<lambda>s. initial_degree ?edges s = 0) (dict_keys (active_map ms))) [] = (deg, order)"
    by fastforce
  have "kahn_inv (dict_keys (active_map ms)) (requires_in (active_map ms)) (slot_key Ord) deg [] order"
    using kahn_loop_inv[OF requirement_graph_ok[OF act] kahn_inv_init[OF act, of "slot_key Ord"]] loop
    by simp
  moreover have "topo_sort_modules ms =
           (if length order \<noteq> length (active_map ms)
            then Inl (Cyclic_modules (sort (filter (\<lambda>s. deg s > 0) (dict_keys (active_map ms)))))
            else Inr (map (\<lambda>s. the (dict_get (active_map ms) s)) order))"
    using loop by (simp add: topo_sort_modules_def c active_map_def Let_def)
  ultimately show ?thesis using that pos act by blast
qed

lemma kahn_inv_full:
  assumes "slot_map_ok M" and "kahn_inv (dict_keys M) R key deg [] order"
    and "length order = length M"
  shows "set order = set (dict_keys M)"
proof -
  have "card (set order) = card (set (dict_keys M))"
    using assms by (simp add: kahn_inv_def slot_map_ok_def dict_ok_def distinct_card del: set_map)
  moreover have "set order \<subseteq> set (dict_keys M)" using assms(2) by (simp add: kahn_inv_def)
  ultimately show ?thesis by (simp add: card_subset_eq del: set_map)
qed

lemma slots_of_lookup:
  assumes "slot_map_ok M" and "set order \<subseteq> set (dict_keys M)"
  shows "slots_of (map (\<lambda>s. the (dict_get M s)) order) = order"
proof -
  have "the (pm_slot (the (dict_get M s))) = s" if "s \<in> set order" for s
  proof -
    have "s \<in> set (dict_keys M)" using that assms(2) by blast
    with slot_map_get[OF assms(1)] show ?thesis by fastforce
  qed
  then show ?thesis by (induction order) auto
qed

lemma topo_Inr_well_slotted: "topo_sort_modules ms = Inr out \<Longrightarrow> well_slotted ms"
  using collect_slots_Inr_iff[of 0 "[]" "[]" ms]
  by (auto simp: topo_sort_modules_def well_slotted_def split: sum.splits)

section \<open>Properties of the sorted chain\<close>

lemma topo_Inr_cases:
  assumes "topo_sort_modules ms = Inr out"
  obtains Ord deg order where
    "\<And>i. i < length ms \<Longrightarrow> dict_get Ord (slots_of ms ! i) = Some i"
    and "slot_map_ok (active_map ms)"
    and "kahn_inv (dict_keys (active_map ms)) (requires_in (active_map ms)) (slot_key Ord) deg [] order"
    and "out = map (\<lambda>s. the (dict_get (active_map ms) s)) order"
    and "set order = set (dict_keys (active_map ms))"
    and "slots_of out = order"
proof -
  obtain Ord deg order where t:
    "\<And>i. i < length ms \<Longrightarrow> dict_get Ord (slots_of ms ! i) = Some i"
    "slot_map_ok (active_map ms)"
    "kahn_inv (dict_keys (active_map ms)) (requires_in (active_map ms)) (slot_key Ord) deg [] order"
    "topo_sort_modules ms =
           (if length order \<noteq> length (active_map ms)
            then Inl (Cyclic_modules (sort (filter (\<lambda>s. deg s > 0) (dict_keys (active_map ms)))))
            else Inr (map (\<lambda>s. the (dict_get (active_map ms) s)) order))"
    using topo_spec[OF topo_Inr_well_slotted[OF assms]] by blast
  from t(4) assms have len: "length order = length (active_map ms)"
    and out: "out = map (\<lambda>s. the (dict_get (active_map ms) s)) order"
    by (auto split: if_splits)
  have full: "set order = set (dict_keys (active_map ms))"
    by (rule kahn_inv_full[OF t(2,3) len])
  moreover have "slots_of out = order"
    unfolding out by (rule slots_of_lookup[OF t(2)]) (simp add: full)
  ultimately show ?thesis using that t(1-3) out by blast
qed

lemma active_map_subset: "set (active_map ms) \<subseteq> set (slot_pairs ms)"
  by (auto simp: active_map_def Let_def)

lemma dict_keys_slot_pairs: "dict_keys (slot_pairs ms) = slots_of ms"
  by (induction ms) auto

lemma active_map_keys: "set (dict_keys (active_map ms)) = set (active_module_slots (slot_pairs ms))"
proof -
  have "set (active_module_slots (slot_pairs ms)) \<subseteq> set (slots_of ms)"
    using active_loop_subset[of "slot_pairs ms" "slots_of ms"]
    unfolding active_module_slots_def dict_keys_slot_pairs .
  then show ?thesis
    unfolding active_map_def Let_def map_fst_filter_key dict_keys_slot_pairs by auto
qed

lemma active_map_lookup:
  assumes "slot_map_ok (active_map ms)" and "s \<in> set (dict_keys (active_map ms))"
  shows "the (dict_get (active_map ms) s) \<in> set ms
           \<and> pm_slot (the (dict_get (active_map ms) s)) = Some s"
  using slot_map_get[OF assms] active_map_subset[of ms] by auto

lemma topo_sort_facts:
  assumes "topo_sort_modules ms = Inr out"
  shows "set out \<subseteq> set ms" and "distinct (slots_of out)"
    and "emits_after_requirements (requires_in (active_map ms)) (slots_of out)"
    and "out = map (\<lambda>s. the (dict_get (active_map ms) s)) (slots_of out)"
    and "set (slots_of out) = set (active_loop (slot_pairs ms) (slots_of ms))"
proof -
  obtain Ord deg order where t: "slot_map_ok (active_map ms)"
    "kahn_inv (dict_keys (active_map ms)) (requires_in (active_map ms)) (slot_key Ord) deg [] order"
    "out = map (\<lambda>s. the (dict_get (active_map ms) s)) order"
    "set order = set (dict_keys (active_map ms))" "slots_of out = order"
    using topo_Inr_cases[OF assms] by metis
  show "set out \<subseteq> set ms"
    unfolding t(3) using active_map_lookup[OF t(1)] t(4) by (simp add: image_subset_iff)
  show "distinct (slots_of out)"
    and "emits_after_requirements (requires_in (active_map ms)) (slots_of out)"
    using t(2) unfolding t(5) by (simp_all add: kahn_inv_def)
  show "out = map (\<lambda>s. the (dict_get (active_map ms) s)) (slots_of out)"
    using t(3) unfolding t(5) .
  show "set (slots_of out) = set (active_loop (slot_pairs ms) (slots_of ms))"
    unfolding t(5) t(4) active_map_keys active_module_slots_def dict_keys_slot_pairs ..
qed

lemma topo_sort_requires:
  assumes "topo_sort_modules ms = Inr out" and "i < length out"
    and "r \<in> set (pm_requires (out ! i))" and "r \<in> set (slots_of out)"
  shows "r \<in> set (take i (slots_of out))"
proof -
  note f = topo_sort_facts[OF assms(1)]
  have "the (dict_get (active_map ms) (slots_of out ! i)) = out ! i"
    using arg_cong[OF f(4), of "\<lambda>xs. xs ! i"] assms(2) by simp
  moreover have "r \<in> set (dict_keys (active_map ms))"
    using assms(4) unfolding active_map_keys f(5) active_module_slots_def dict_keys_slot_pairs .
  ultimately have "r \<in> set (requires_in (active_map ms) (slots_of out ! i))"
    using assms(3) by (simp add: module_requires_def)
  then show ?thesis
    using f(3) assms(2) unfolding emits_after_requirements_def length_map by blast
qed

lemma topo_closed_requires:
  assumes "topo_sort_modules ms = Inr out" and "m \<in> set out" and "r \<in> set (pm_requires m)"
    and "\<not> is_builtin_slot (the (pm_slot m))" and "is_module_slot r"
  shows "r \<in> set (slots_of out)"
proof -
  note f = topo_sort_facts[OF assms(1)]
  have "(the (pm_slot m), m) \<in> set (slot_pairs ms)" "the (pm_slot m) \<in> set (slots_of out)"
    using assms(2) f(1) by auto
  with active_loop_closed[of "slot_pairs ms" "slots_of ms"] assms(3-5) show ?thesis
    unfolding f(5) closed_slots_def by blast
qed

text \<open>
  C1. The order computed for the modules of a phase: it contains only the given modules,
  each slot once, and every dependency that takes part in the phase runs before the module
  that requires it.
\<close>

theorem topo_sort_sound:
  assumes "topo_sort_modules ms = Inr out"
  shows "set out \<subseteq> set ms \<and> distinct (slots_of out)
    \<and> (\<forall>i < length out. \<forall>r \<in> set (pm_requires (out ! i)).
         r \<in> set (slots_of out) \<longrightarrow> r \<in> set (take i (slots_of out)))"
  using topo_sort_facts(1,2)[OF assms] topo_sort_requires[OF assms] by blast

text \<open>
  Which modules take part: the slots of the computed order are the largest set of the
  given slots in which every plugin module has all its module dependencies.  Builtin
  modules are always kept.
\<close>

theorem topo_sort_active:
  assumes "topo_sort_modules ms = Inr out"
  shows "closed_slots (slot_pairs ms) (set (slots_of out))
    \<and> (\<forall>A \<subseteq> set (slots_of ms). closed_slots (slot_pairs ms) A \<longrightarrow> A \<subseteq> set (slots_of out))"
  using active_loop_closed[of "slot_pairs ms" "slots_of ms"]
    active_loop_greatest[of "slot_pairs ms" _ "slots_of ms"]
  unfolding topo_sort_facts(5)[OF assms] by simp

definition active_dependencies :: "phase_module list \<Rightarrow> (string \<times> string) set" where
  "active_dependencies ms =
     {(r, s). \<exists>m \<in> set ms. pm_slot m = Some s \<and> r \<in> set (pm_requires m)
        \<and> {r, s} \<subseteq> set (active_module_slots (slot_pairs ms))}"

lemma active_dependencies_eq:
  assumes "well_slotted ms" and ok: "slot_map_ok (active_map ms)"
  shows "active_dependencies ms
           = waits_for (dict_keys (active_map ms)) (requires_in (active_map ms))"
proof -
  let ?M = "active_map ms" and ?S = "dict_keys (active_map ms)"
  have "slot_map_ok (slot_pairs ms)" using topo_collect[OF assms(1)] by blast
  then have inj: "inj_on (\<lambda>m. the (pm_slot m)) (set ms)"
    by (auto simp: slot_map_ok_def dict_ok_def dict_keys_slot_pairs distinct_map comp_def)
  have lookup: "m = the (dict_get ?M s)" if "m \<in> set ms" "pm_slot m = Some s" "s \<in> set ?S" for m s
    using active_map_lookup[OF ok that(3)] inj_onD[OF inj, of m] that(1,2) by simp
  show ?thesis
  proof (intro set_eqI iffI; clarify)
    fix r s assume "(r, s) \<in> active_dependencies ms"
    then obtain m where "m \<in> set ms" "pm_slot m = Some s" "r \<in> set (pm_requires m)"
      "r \<in> set ?S" "s \<in> set ?S"
      unfolding active_dependencies_def active_map_keys[symmetric] by blast
    with lookup show "(r, s) \<in> waits_for ?S (requires_in ?M)"
      unfolding waits_for_def module_requires_def by simp
  next
    fix r s assume "(r, s) \<in> waits_for ?S (requires_in ?M)"
    then have "s \<in> set ?S" "r \<in> set ?S" "r \<in> set (pm_requires (the (dict_get ?M s)))"
      by (simp_all add: waits_for_def module_requires_def)
    with active_map_lookup[OF ok] show "(r, s) \<in> active_dependencies ms"
      unfolding active_dependencies_def active_map_keys[symmetric] by blast
  qed
qed

text \<open>
  \<open>topo_sort_modules\<close> raises for a cycle exactly when the dependencies between the
  active modules are cyclic; modules with distinct non-empty slots never raise otherwise.
\<close>

theorem topo_sort_cycle_iff:
  assumes "well_slotted ms"
  shows "if acyclic (active_dependencies ms) then \<exists>out. topo_sort_modules ms = Inr out
         else \<exists>u. topo_sort_modules ms = Inl (Cyclic_modules u)"
proof -
  obtain Ord deg order where t: "slot_map_ok (active_map ms)"
    "kahn_inv (dict_keys (active_map ms)) (requires_in (active_map ms)) (slot_key Ord) deg [] order"
    "topo_sort_modules ms =
           (if length order \<noteq> length (active_map ms)
            then Inl (Cyclic_modules (sort (filter (\<lambda>s. deg s > 0) (dict_keys (active_map ms)))))
            else Inr (map (\<lambda>s. the (dict_get (active_map ms) s)) order))"
    using topo_spec[OF assms] by metis
  let ?M = "active_map ms" and ?S = "dict_keys (active_map ms)"
  have rel: "active_dependencies ms = waits_for ?S (requires_in ?M)"
    by (rule active_dependencies_eq[OF assms t(1)])
  have sub: "set order \<subseteq> set ?S" and dist: "distinct order"
    using t(2) by (simp_all add: kahn_inv_def)
  have "set order = set ?S \<Longrightarrow> length order = length ?M"
    using t(1) dist by (metis dict_ok_def distinct_card length_map slot_map_ok_def)
  then have card: "length order = length ?M \<longleftrightarrow> set order = set ?S"
    using kahn_inv_full[OF t(1,2)] by blast
  show ?thesis
  proof (cases "acyclic (active_dependencies ms)")
    case True
    then have "set order = set ?S"
      using kahn_complete[OF requirement_graph_ok[OF t(1)] t(2)] sub rel by auto
    with True t(3) card show ?thesis by simp
  next
    case False
    then have "set order \<noteq> set ?S"
      using order_acyclic[of "requires_in ?M" order ?S] t(2) rel by (auto simp: kahn_inv_def)
    with False t(3) card show ?thesis by auto
  qed
qed

text \<open>The tie-break of \<open>queue.sort\<close>: plugin modules before builtin ones, then list position.\<close>

definition module_rank :: "phase_module list \<Rightarrow> string \<Rightarrow> bool \<times> nat" where
  "module_rank ms s = (is_builtin_slot s, length (takeWhile (\<lambda>m. pm_slot m \<noteq> Some s) ms))"

lemma slot_index:
  assumes "well_slotted ms" and "i < length ms"
  shows "length (takeWhile (\<lambda>m. pm_slot m \<noteq> Some (slots_of ms ! i)) ms) = i"
proof -
  have ex: "pm_slot m = Some (the (pm_slot m))" if "m \<in> set ms" for m
    using assms(1) that by (auto simp: well_slotted_def)
  have "takeWhile (\<lambda>m. pm_slot m \<noteq> Some (slots_of ms ! i)) ms = take i ms"
  proof (rule takeWhile_eq_take_P_nth)
    fix j assume j: "j < i" "j < length ms"
    then have "map pm_slot ms ! j \<noteq> map pm_slot ms ! i"
      using assms by (simp add: well_slotted_def nth_eq_iff_index_eq del: nth_map)
    then show "pm_slot (ms ! j) \<noteq> Some (slots_of ms ! i)"
      using j assms(2) ex[OF nth_mem[OF assms(2)]] by simp
  next
    assume "i < length ms"
    then show "\<not> pm_slot (ms ! i) \<noteq> Some (slots_of ms ! i)"
      using ex[OF nth_mem[OF assms(2)]] by simp
  qed
  with assms(2) show ?thesis by simp
qed

lemma slot_key_rank:
  assumes "well_slotted ms" and "s \<in> set (slots_of ms)"
    and "\<And>i. i < length ms \<Longrightarrow> dict_get Ord (slots_of ms ! i) = Some i"
  shows "slot_key Ord s = module_rank ms s"
proof -
  from assms(2) obtain i where "i < length ms" "slots_of ms ! i = s"
    by (metis in_set_conv_nth length_map)
  with assms(3)[of i] slot_index[OF assms(1), of i] show ?thesis
    by (simp add: slot_key_def module_rank_def)
qed

text \<open>
  The order is deterministic: each position holds, of all active modules that have not
  run yet and whose dependencies have all run, the one of least rank, that is, plugin
  modules before builtin ones and otherwise the earliest in the given list.
\<close>

theorem topo_sort_least_ready:
  assumes "topo_sort_modules ms = Inr out" and "i < length out" and "m \<in> set out"
    and "the (pm_slot m) \<notin> set (take i (slots_of out))"
    and "\<And>r. r \<in> set (pm_requires m) \<Longrightarrow> r \<in> set (slots_of out) \<Longrightarrow> r \<in> set (take i (slots_of out))"
  shows "module_rank ms (slots_of out ! i) \<le> module_rank ms (the (pm_slot m))"
proof -
  let ?M = "active_map ms" and ?s = "the (pm_slot m)"
  note ws = topo_Inr_well_slotted[OF assms(1)]
  obtain Ord deg order where t:
    "\<And>i. i < length ms \<Longrightarrow> dict_get Ord (slots_of ms ! i) = Some i"
    "slot_map_ok ?M" "kahn_inv (dict_keys ?M) (requires_in ?M) (slot_key Ord) deg [] order"
    "out = map (\<lambda>s. the (dict_get ?M s)) order" "set order = set (dict_keys ?M)" "slots_of out = order"
    using topo_Inr_cases[OF assms(1)] by blast
  have keys: "set (dict_keys ?M) \<subseteq> set (slots_of ms)"
    using image_mono[OF active_map_subset[of ms], of fst] by (simp add: image_image)
  obtain s where s: "s \<in> set order" "m = the (dict_get ?M s)" using assms(3) t(4) by auto
  then have slot: "?s = s" using active_map_lookup[OF t(2), of s] t(5) by simp
  have here: "slots_of out ! i \<in> set (dict_keys ?M)"
    using assms(2) t(4,5,6) by (metis length_map nth_mem)
  have "set (requires_in ?M s) \<subseteq> set (take i order)"
    using assms(5) t(5,6) s(2) by (auto simp: module_requires_def)
  moreover have "emits_least_ready (dict_keys ?M) (requires_in ?M) (slot_key Ord) order"
    using t(3) by (simp add: kahn_inv_def)
  moreover have "i < length order" "s \<notin> set (take i order)" "s \<in> set (dict_keys ?M)"
    using assms(2,4) s(1) slot t(4,5,6) by simp_all
  ultimately have "slot_key Ord (order ! i) \<le> slot_key Ord s"
    unfolding emits_least_ready_def by blast
  then show ?thesis
    using slot_key_rank[OF ws _ t(1)] keys here s(1) t(5,6) slot by (metis subsetD)
qed

section \<open>A phase: start-up check and run\<close>

text \<open>
  \<open>_disable_modules_with_missing_module_dependencies\<close> works on the module list itself:
  modules without a usable slot are skipped and kept, and a slot may occur several times.
\<close>

definition usable_slots :: "phase_module list \<Rightarrow> (string, phase_module) dict" where
  "usable_slots ms =
     concat (map (\<lambda>m. case pm_slot m of
                        None \<Rightarrow> []
                      | Some slot \<Rightarrow> if slot = [] then [] else [(slot, m)]) ms)"

function disable_loop ::
  "(string, phase_module) dict \<Rightarrow> string list \<Rightarrow> string list \<Rightarrow> string list" where
  "disable_loop pairs active disabled =
     (let current = disabled_slots pairs active in
      if current = [] then disabled
      else disable_loop pairs (filter (\<lambda>s. s \<notin> set current) active) (disabled @ current))"
  by pat_completeness auto
termination
  by (relation "measure (\<lambda>(_, active, _). length active)")
    (auto simp: Let_def intro: length_filter_less dest!: disabled_slots_nonempty)

declare disable_loop.simps [simp del]

definition disable_modules :: "phase_module list \<Rightarrow> phase_module list" where
  "disable_modules ms =
     (let pairs = usable_slots ms;
          disabled = disable_loop pairs (dict_keys pairs) []
      in filter (\<lambda>m. case pm_slot m of None \<Rightarrow> True | Some slot \<Rightarrow> slot \<notin> set disabled) ms)"

fun validate_requires ::
  "nat \<Rightarrow> phase_module \<Rightarrow> string list \<Rightarrow> string list \<Rightarrow> string list \<Rightarrow> phase_error option" where
  "validate_requires index m module_slots provided [] = None"
| "validate_requires index m module_slots provided (slot # rest) =
     (if slot \<in> set module_slots then
        if pm_slot m \<noteq> Some slot \<and> slot \<notin> set provided
        then Some (Dependency_unsatisfied index slot)
        else validate_requires index m module_slots provided rest
      else if is_module_slot slot then Some (Dependency_missing index slot)
      else if slot \<notin> set provided then Some (Slot_unclosed index slot)
      else validate_requires index m module_slots provided rest)"

definition provides :: "phase_module \<Rightarrow> string list" where
  "provides m =
     (case pm_slot m of None \<Rightarrow> [] | Some slot \<Rightarrow> if slot = [] then [] else [slot]) @ pm_produces m"

fun validate_from ::
  "nat \<Rightarrow> string list \<Rightarrow> string list \<Rightarrow> phase_module list \<Rightarrow> phase_error option" where
  "validate_from index module_slots provided [] = None"
| "validate_from index module_slots provided (m # ms) =
     (case validate_requires index m module_slots provided (pm_requires m) of
        Some e \<Rightarrow> Some e
      | None \<Rightarrow> validate_from (Suc index) module_slots (provided @ provides m) ms)"

definition validate :: "phase_module list \<Rightarrow> phase_error option" where
  "validate ms = validate_from 0 (dict_keys (usable_slots ms)) [] ms"

definition phase_init :: "phase_module list \<Rightarrow> phase_error + phase_module list" where
  "phase_init modules =
     (let ms = disable_modules modules in
      case validate ms of Some e \<Rightarrow> Inl e | None \<Rightarrow> Inr ms)"

text \<open>
  \<open>Phase.run\<close>: plugin code is a parameter.  \<open>run m frame\<close> is the awaited
  \<open>module.run(frame)\<close>, which returns the next frame or raises; \<open>output\<close> reads
  \<open>frame.output\<close>.
\<close>

fun run_modules ::
  "(phase_module \<Rightarrow> 'f \<Rightarrow> 'x + 'f) \<Rightarrow> phase_module list \<Rightarrow> 'f \<Rightarrow> 'x + 'f" where
  "run_modules run [] frame = Inr frame"
| "run_modules run (m # ms) frame =
     (case run m frame of Inl e \<Rightarrow> Inl e | Inr frame' \<Rightarrow> run_modules run ms frame')"

definition phase_run ::
  "(phase_module \<Rightarrow> 'f \<Rightarrow> 'x + 'f) \<Rightarrow> ('f \<Rightarrow> 'o option) \<Rightarrow> phase_module list \<Rightarrow> 'f
     \<Rightarrow> (phase_error + 'x) + 'o" where
  "phase_run run output ms frame =
     (case run_modules run ms frame of
        Inl e \<Rightarrow> Inl (Inr e)
      | Inr frame' \<Rightarrow> (case output frame' of None \<Rightarrow> Inl (Inl No_output) | Some out \<Rightarrow> Inr out))"

subsection \<open>What an accepted chain guarantees\<close>

lemma validate_requires_None:
  "validate_requires i m S P rs = None \<longleftrightarrow>
     (\<forall>r \<in> set rs. if r \<in> set S then pm_slot m = Some r \<or> r \<in> set P
                  else \<not> is_module_slot r \<and> r \<in> set P)"
  by (induction rs) auto

lemma validate_requires_Some:
  "validate_requires i m S P rs = Some e \<Longrightarrow>
     \<exists>r \<in> set rs. e = (if r \<in> set S then Dependency_unsatisfied i r
                     else if is_module_slot r then Dependency_missing i r else Slot_unclosed i r)
       \<and> (r \<in> set S \<longrightarrow> pm_slot m \<noteq> Some r \<and> r \<notin> set P)
       \<and> (r \<notin> set S \<longrightarrow> is_module_slot r \<or> r \<notin> set P)"
  by (induction rs) (auto split: if_splits)

definition provided_by :: "phase_module list \<Rightarrow> string set" where
  "provided_by ms = (\<Union>m \<in> set ms. set (provides m))"

lemma validate_from_None:
  "validate_from i S P ms = None \<Longrightarrow> k < length ms \<Longrightarrow> r \<in> set (pm_requires (ms ! k)) \<Longrightarrow>
     pm_slot (ms ! k) = Some r \<or> r \<in> set P \<union> provided_by (take k ms)"
proof (induction ms arbitrary: i P k)
  case (Cons m ms)
  from Cons.prems(1) have ok: "validate_requires i m S P (pm_requires m) = None"
    and rest: "validate_from (Suc i) S (P @ provides m) ms = None"
    by (auto split: option.splits)
  show ?case
  proof (cases k)
    case 0
    with ok Cons.prems show ?thesis
      unfolding validate_requires_None by (auto split: if_splits)
  next
    case (Suc j)
    with Cons.IH[OF rest, of j] Cons.prems show ?thesis
      by (auto simp: provided_by_def)
  qed
qed simp

text \<open>
  A phase that starts is closed: each requirement of each of its modules is the
  module's own slot, or the slot or a product of a module that runs earlier.
\<close>

theorem phase_init_closed:
  assumes "phase_init modules = Inr ms" and "k < length ms" and "r \<in> set (pm_requires (ms ! k))"
  shows "pm_slot (ms ! k) = Some r \<or> r \<in> provided_by (take k ms)"
  using assms validate_from_None[of 0 _ "[]" ms k r]
  by (auto simp: phase_init_def validate_def Let_def split: option.splits)

lemma validate_from_Some:
  "validate_from i S P ms = Some e \<Longrightarrow>
     \<exists>k < length ms. \<exists>r \<in> set (pm_requires (ms ! k)).
       e = (if r \<in> set S then Dependency_unsatisfied (i + k) r
            else if is_module_slot r then Dependency_missing (i + k) r else Slot_unclosed (i + k) r)
       \<and> (r \<in> set S \<longrightarrow> pm_slot (ms ! k) \<noteq> Some r \<and> r \<notin> set P \<union> provided_by (take k ms))"
proof (induction ms arbitrary: i P)
  case (Cons m ms)
  show ?case
  proof (cases "validate_requires i m S P (pm_requires m)")
    case (Some e')
    with Cons.prems have "e' = e" by simp
    from validate_requires_Some[OF Some[unfolded this]] obtain r where
      "r \<in> set (pm_requires m)"
      "e = (if r \<in> set S then Dependency_unsatisfied i r
            else if is_module_slot r then Dependency_missing i r else Slot_unclosed i r)"
      "r \<in> set S \<longrightarrow> pm_slot m \<noteq> Some r \<and> r \<notin> set P" by metis
    then show ?thesis
      by (intro exI[of _ 0] conjI bexI[of _ r]) (simp_all add: provided_by_def)
  next
    case None
    with Cons.prems have "validate_from (Suc i) S (P @ provides m) ms = Some e" by simp
    from Cons.IH[OF this] obtain k r where
      "k < length ms" "r \<in> set (pm_requires (ms ! k))"
      "e = (if r \<in> set S then Dependency_unsatisfied (Suc i + k) r
            else if is_module_slot r then Dependency_missing (Suc i + k) r
            else Slot_unclosed (Suc i + k) r)"
      "r \<in> set S \<longrightarrow> pm_slot (ms ! k) \<noteq> Some r \<and> r \<notin> set (P @ provides m) \<union> provided_by (take k ms)"
      by blast
    then show ?thesis
      by (intro exI[of _ "Suc k"] conjI bexI[of _ r]) (simp_all add: provided_by_def)
  qed
qed simp

lemma usable_slots_well_slotted:
  "\<forall>m \<in> set ms. pm_slot m \<noteq> None \<and> pm_slot m \<noteq> Some [] \<Longrightarrow> usable_slots ms = slot_pairs ms"
  by (induction ms) (auto simp: usable_slots_def)

lemma topo_out_well_slotted:
  assumes "topo_sort_modules ms = Inr out"
  shows "\<forall>m \<in> set out. pm_slot m \<noteq> None \<and> pm_slot m \<noteq> Some []"
  using topo_Inr_well_slotted[OF assms] topo_sort_facts(1)[OF assms] by (auto simp: well_slotted_def)

text \<open>
  A phase built from a sorted chain keeps every module of the chain, and its start-up
  check never fails on the order: it can only report a data slot nobody produces, or a
  module dependency of a builtin module (which is never disabled) that does not exist.
\<close>

theorem phase_init_sorted:
  assumes "topo_sort_modules ms = Inr out"
  shows "disable_modules out = out
    \<and> (\<forall>i r. validate out \<noteq> Some (Dependency_unsatisfied i r))
    \<and> (\<forall>i r. validate out = Some (Dependency_missing i r) \<longrightarrow> is_builtin_slot (slots_of out ! i))"
proof -
  note ws = topo_out_well_slotted[OF assms]
  have pairs: "usable_slots out = slot_pairs out" by (rule usable_slots_well_slotted[OF ws])
  have v: "validate out = validate_from 0 (slots_of out) [] out"
    unfolding validate_def pairs dict_keys_slot_pairs ..
  have closed: "is_module_slot r \<Longrightarrow> r \<in> set (slots_of out)"
    if "m \<in> set out" "r \<in> set (pm_requires m)" "\<not> is_builtin_slot (the (pm_slot m))" for m r
    using topo_closed_requires[OF assms that] .
  have "disabled_slots (slot_pairs out) (slots_of out) = []"
    using closed unfolding disabled_slots_def by (auto simp: filter_empty_conv missing_Nil_iff)
  then have "disable_loop (slot_pairs out) (slots_of out) [] = []"
    by (subst disable_loop.simps) (simp add: Let_def)
  then have "disable_modules out = out"
    unfolding disable_modules_def pairs dict_keys_slot_pairs Let_def
    by (simp add: filter_id_conv split: option.splits)
  moreover have "False" if d: "validate out = Some (Dependency_unsatisfied i r)" for i r
  proof -
    from d obtain k where k: "k < length out" "r \<in> set (pm_requires (out ! k))"
      "r \<in> set (slots_of out)" "r \<notin> provided_by (take k out)"
      using validate_from_Some[OF d[unfolded v]] by (auto simp del: set_map split: if_splits)
    have "r \<in> set (slots_of (take k out))"
      using topo_sort_requires[OF assms k(1-3)] by (simp add: take_map)
    then obtain m where m: "m \<in> set (take k out)" "the (pm_slot m) = r" by auto
    from m(1) have "m \<in> set out" by (rule in_set_takeD)
    with ws m(2) have "pm_slot m = Some r" "r \<noteq> []" by force+
    with m(1) k(4) show False by (auto simp: provided_by_def provides_def)
  qed
  moreover have "is_builtin_slot (slots_of out ! i)"
    if "validate out = Some (Dependency_missing i r)" for i r
  proof -
    from that have k: "i < length out" "r \<in> set (pm_requires (out ! i))"
      "r \<notin> set (slots_of out)" "is_module_slot r"
      using validate_from_Some[OF that[unfolded v]] by (auto simp del: set_map split: if_splits)
    with closed[of "out ! i" r] show ?thesis by (auto simp del: set_map)
  qed
  ultimately show ?thesis by blast
qed

section \<open>A concrete phase\<close>

definition demo_emit :: phase_module where
  "demo_emit = \<lparr>pm_slot = Some ''before_turn.emit'', pm_requires = [''memo.late'', ''turn:ctx''],
                pm_produces = []\<rparr>"

definition demo_late :: phase_module where
  "demo_late = \<lparr>pm_slot = Some ''memo.late'', pm_requires = [''memo.early''], pm_produces = []\<rparr>"

definition demo_early :: phase_module where
  "demo_early = \<lparr>pm_slot = Some ''memo.early'', pm_requires = [], pm_produces = [''turn:ctx'']\<rparr>"

definition demo_lost :: phase_module where
  "demo_lost = \<lparr>pm_slot = Some ''memo.lost'', pm_requires = [''memo.absent''], pm_produces = []\<rparr>"

lemmas demo_defs = demo_emit_def demo_late_def demo_early_def demo_lost_def

lemma demo_sorted:
  "topo_sort_modules [demo_emit, demo_late, demo_lost, demo_early]
     = Inr [demo_early, demo_late, demo_emit]"
  by code_simp

lemma demo_started: "phase_init [demo_early, demo_late, demo_emit] = Inr [demo_early, demo_late, demo_emit]"
  by code_simp

lemma demo_well_slotted: "well_slotted [demo_emit, demo_late, demo_lost, demo_early]"
  by code_simp

theorem topo_sort_sound_witness:
  "distinct (slots_of [demo_early, demo_late, demo_emit])
     \<and> ''memo.late'' \<in> set (take 2 (slots_of [demo_early, demo_late, demo_emit]))"
  using topo_sort_sound[OF demo_sorted] by (simp add: demo_defs)

theorem topo_sort_active_witness:
  "closed_slots (slot_pairs [demo_emit, demo_late, demo_lost, demo_early])
     (set (slots_of [demo_early, demo_late, demo_emit]))"
  using topo_sort_active[OF demo_sorted] by blast

theorem topo_sort_cycle_iff_witness:
  "acyclic (active_dependencies [demo_emit, demo_late, demo_lost, demo_early])"
  using topo_sort_cycle_iff[OF demo_well_slotted] demo_sorted by (auto split: if_splits)

theorem topo_sort_least_ready_witness:
  "module_rank [demo_emit, demo_late, demo_lost, demo_early] (slots_of [demo_early, demo_late, demo_emit] ! 0)
     \<le> module_rank [demo_emit, demo_late, demo_lost, demo_early] ''memo.early''"
  using topo_sort_least_ready[OF demo_sorted, of 0 demo_early] by (simp add: demo_defs)

theorem phase_init_closed_witness:
  "''memo.late'' \<in> provided_by (take 2 [demo_early, demo_late, demo_emit])"
  using phase_init_closed[OF demo_started, of 2 "''memo.late''"] by (simp add: demo_defs)

theorem phase_init_sorted_witness:
  "disable_modules [demo_early, demo_late, demo_emit] = [demo_early, demo_late, demo_emit]"
  using phase_init_sorted[OF demo_sorted] by blast

end
