(* ===== verification/Chat_Lane.thy ===== *)
theory Chat_Lane
  imports Roxy_Prelude "HOL-Library.Multiset"
begin

text \<open>
  The per-chat send lane of \<open>bus/queue.py\<close> (\<open>ChatLane\<close>): passive replies and
  proactive (non-passive) messages of one chat are sent one at a time, proactive ones only
  when no passive work is pending, in ticket order.  The lane states are shared mutable
  objects kept in a dictionary and dropped when idle, so the model has an explicit store of
  lane states and a dictionary from chats to addresses.

  Under asyncio a coroutine runs without interruption between two awaits.  The critical
  sections of the code contain no await but \<open>condition.wait()\<close>, so each section is one
  step here, and the waits for the lock, for the condition and for \<open>send()\<close> are the
  places where clients interleave or are cancelled.  A second cancellation that arrives
  while a \<open>finally\<close> block waits for the condition's lock is not modelled.
\<close>

section \<open>Lane states and the dictionary of lanes\<close>

datatype chat_key = Chat_key (key_channel: string) (key_chat_id: string)

record lane_state =
  active_users :: int
  passive_turns :: int
  passive_sends :: int
  next_ticket :: int
  serving_ticket :: int
  cancelled_tickets :: "int list"
  sending :: bool

definition new_lane :: lane_state where
  "new_lane = \<lparr>active_users = 0, passive_turns = 0, passive_sends = 0, next_ticket = 0,
               serving_ticket = 0, cancelled_tickets = [], sending = False\<rparr>"

record chat_lanes =
  lane_heap :: "nat \<Rightarrow> lane_state"
  lane_next :: nat
  lane_states :: "(chat_key, nat) dict"

definition empty_lanes :: chat_lanes where
  "empty_lanes = \<lparr>lane_heap = (\<lambda>_. new_lane), lane_next = 0, lane_states = []\<rparr>"

definition update_lane :: "chat_lanes \<Rightarrow> nat \<Rightarrow> (lane_state \<Rightarrow> lane_state) \<Rightarrow> chat_lanes" where
  "update_lane cl a f = cl\<lparr>lane_heap := (lane_heap cl)(a := f (lane_heap cl a))\<rparr>"

lemma update_lane_simps [simp]:
  "lane_states (update_lane cl a f) = lane_states cl"
  "lane_next (update_lane cl a f) = lane_next cl"
  "lane_heap (update_lane cl a f) b = (if b = a then f (lane_heap cl a) else lane_heap cl b)"
  by (simp_all add: update_lane_def)

definition acquire_state :: "chat_lanes \<Rightarrow> chat_key \<Rightarrow> nat \<times> chat_lanes" where
  "acquire_state cl key =
     (case dict_get (lane_states cl) key of
        Some a \<Rightarrow> (a, update_lane cl a (\<lambda>s. s\<lparr>active_users := active_users s + 1\<rparr>))
      | None \<Rightarrow>
          (let a = lane_next cl;
               cl' = cl\<lparr>lane_heap := (lane_heap cl)(a := new_lane), lane_next := Suc a,
                        lane_states := dict_set (lane_states cl) key a\<rparr>
           in (a, update_lane cl' a (\<lambda>s. s\<lparr>active_users := active_users s + 1\<rparr>))))"

definition lane_in_use :: "lane_state \<Rightarrow> bool" where
  "lane_in_use s \<longleftrightarrow>
     active_users s \<noteq> 0 \<or> passive_turns s \<noteq> 0 \<or> passive_sends s \<noteq> 0 \<or> sending s
     \<or> next_ticket s \<noteq> serving_ticket s \<or> cancelled_tickets s \<noteq> []"

definition release_state :: "chat_lanes \<Rightarrow> chat_key \<Rightarrow> nat \<Rightarrow> chat_lanes" where
  "release_state cl key a =
     (let cl' = update_lane cl a (\<lambda>s. s\<lparr>active_users := active_users s - 1\<rparr>) in
      if lane_in_use (lane_heap cl' a) then cl'
      else if dict_get (lane_states cl') key = Some a
           then cl'\<lparr>lane_states := dict_del (lane_states cl') key\<rparr>
           else cl')"

section \<open>The critical sections\<close>

function skip_cancelled :: "lane_state \<Rightarrow> lane_state" where
  "skip_cancelled s =
     (if serving_ticket s \<in> set (cancelled_tickets s)
      then skip_cancelled
             (s\<lparr>cancelled_tickets := removeAll (serving_ticket s) (cancelled_tickets s),
                serving_ticket := serving_ticket s + 1\<rparr>)
      else s)"
  by pat_completeness auto
termination
  by (relation "measure (\<lambda>s. length (cancelled_tickets s))") (auto intro: length_removeAll_less)

declare skip_cancelled.simps [simp del]

datatype mark = Turn_pending | Turn_done | Send_pending | Send_done

fun mark_section :: "mark \<Rightarrow> lane_state \<Rightarrow> lane_state" where
  "mark_section Turn_pending s = s\<lparr>passive_turns := passive_turns s + 1\<rparr>"
| "mark_section Turn_done s =
     (if passive_turns s > 0 then s\<lparr>passive_turns := passive_turns s - 1\<rparr> else s)"
| "mark_section Send_pending s = s\<lparr>passive_sends := passive_sends s + 1\<rparr>"
| "mark_section Send_done s =
     (if passive_sends s > 0 then s\<lparr>passive_sends := passive_sends s - 1\<rparr> else s)"

datatype verdict = Send | Wait | Imbalance

definition passive_try :: "lane_state \<Rightarrow> verdict \<times> lane_state" where
  "passive_try s = (if sending s then (Wait, s) else (Send, s\<lparr>sending := True\<rparr>))"

definition passive_section :: "lane_state \<Rightarrow> bool \<Rightarrow> verdict \<times> lane_state" where
  "passive_section s pending_registered =
     (if pending_registered
      then if passive_sends s \<le> 0 then (Imbalance, s) else passive_try s
      else passive_try (s\<lparr>passive_sends := passive_sends s + 1\<rparr>))"

text \<open>The \<open>finally\<close> block of \<open>run_passive\<close>; \<open>None\<close> is the raised imbalance.\<close>

definition passive_finally :: "lane_state \<Rightarrow> bool \<Rightarrow> bool \<Rightarrow> lane_state option" where
  "passive_finally s owns_pending was_sending =
     (if \<not> owns_pending then Some s
      else if passive_sends s \<le> 0 then None
      else Some (s\<lparr>passive_sends := passive_sends s - 1,
                   sending := (if was_sending then False else sending s)\<rparr>))"

definition non_passive_try :: "lane_state \<Rightarrow> int \<Rightarrow> verdict \<times> lane_state" where
  "non_passive_try s ticket =
     (if sending s \<or> passive_turns s > 0 \<or> passive_sends s > 0 \<or> ticket \<noteq> serving_ticket s
      then (Wait, s) else (Send, s\<lparr>sending := True\<rparr>))"

definition non_passive_section :: "lane_state \<Rightarrow> int \<times> verdict \<times> lane_state" where
  "non_passive_section s =
     (let ticket = next_ticket s
      in (ticket, non_passive_try (skip_cancelled (s\<lparr>next_ticket := next_ticket s + 1\<rparr>)) ticket))"

definition non_passive_wake :: "lane_state \<Rightarrow> int \<Rightarrow> verdict \<times> lane_state" where
  "non_passive_wake s ticket = non_passive_try (skip_cancelled s) ticket"

definition non_passive_finally :: "lane_state \<Rightarrow> int \<Rightarrow> bool \<Rightarrow> lane_state" where
  "non_passive_finally s ticket was_sending =
     (if ticket \<ge> 0
      then skip_cancelled
             (if was_sending
              then s\<lparr>serving_ticket := serving_ticket s + 1, sending := False\<rparr>
              else s\<lparr>cancelled_tickets := List.insert ticket (cancelled_tickets s)\<rparr>)
      else s)"

section \<open>Clients and their steps\<close>

text \<open>
  A client is one call of \<open>mark_passive_*\<close>, \<open>run_passive\<close> or \<open>run_non_passive\<close>.
  The \<open>_enter\<close> positions wait for the condition's lock before the first critical section
  (\<open>Passive_enter b\<close> has \<open>pending_registered = b\<close>), the \<open>_queued\<close> ones wait on the
  condition, the \<open>_sending\<close> ones are inside \<open>await send()\<close>.
\<close>

datatype lane_pc =
    Marking mark
  | Passive_enter bool
  | Passive_queued
  | Passive_sending
  | Non_passive_enter
  | Non_passive_queued int
  | Non_passive_sending int
  | Finished
  | Failed

record lane_client =
  cl_key :: chat_key
  cl_addr :: nat
  cl_pc :: lane_pc

text \<open>
  \<open>sys_queued key\<close> counts the outbound items whose pending mark is registered and which no
  call has taken over yet (the items in \<open>MessageBus._outbound\<close>); a registered
  \<open>run_passive\<close> and a \<open>mark_passive_send_done\<close> each take one of them.
  \<open>sys_orphaned key\<close> counts the items whose rollback was cancelled before it ran.
\<close>

record lane_sys =
  sys_lanes :: chat_lanes
  sys_clients :: "lane_client list"
  sys_queued :: "chat_key \<Rightarrow> nat"
  sys_orphaned :: "chat_key \<Rightarrow> nat"

definition init_sys :: lane_sys where
  "init_sys = \<lparr>sys_lanes = empty_lanes, sys_clients = [], sys_queued = (\<lambda>_. 0),
               sys_orphaned = (\<lambda>_. 0)\<rparr>"

fun starts :: "lane_pc \<Rightarrow> bool" where
  "starts (Marking m) = True"
| "starts (Passive_enter b) = True"
| "starts Non_passive_enter = True"
| "starts _ = False"

definition takes_item :: "lane_pc \<Rightarrow> bool" where
  "takes_item pc \<longleftrightarrow> pc = Marking Send_done \<or> pc = Passive_enter True"

text \<open>A call begins: \<open>_acquire_state\<close> runs at once, before the first await.\<close>

definition begin_call :: "lane_sys \<Rightarrow> chat_key \<Rightarrow> lane_pc \<Rightarrow> lane_sys option" where
  "begin_call s key pc =
     (if \<not> starts pc \<or> (takes_item pc \<and> sys_queued s key = 0) then None
      else let (a, cl) = acquire_state (sys_lanes s) key in
        Some (s\<lparr>sys_lanes := cl,
                sys_clients := sys_clients s @ [\<lparr>cl_key = key, cl_addr = a, cl_pc = pc\<rparr>],
                sys_queued := (if takes_item pc
                               then (sys_queued s)(key := sys_queued s key - 1)
                               else sys_queued s)\<rparr>))"

definition move_client :: "lane_sys \<Rightarrow> nat \<Rightarrow> lane_state \<Rightarrow> lane_pc \<Rightarrow> lane_sys" where
  "move_client s i st pc =
     (let c = sys_clients s ! i in
      s\<lparr>sys_lanes := update_lane (sys_lanes s) (cl_addr c) (\<lambda>_. st),
        sys_clients := (sys_clients s)[i := c\<lparr>cl_pc := pc\<rparr>]\<rparr>)"

definition finish_client :: "lane_sys \<Rightarrow> nat \<Rightarrow> lane_state \<Rightarrow> lane_pc \<Rightarrow> lane_sys" where
  "finish_client s i st pc =
     (let c = sys_clients s ! i; s' = move_client s i st pc
      in s'\<lparr>sys_lanes := release_state (sys_lanes s') (cl_key c) (cl_addr c)\<rparr>)"

text \<open>The critical section a client runs when it gets the lock, or wakes on the condition.\<close>

definition enter_section :: "lane_sys \<Rightarrow> nat \<Rightarrow> lane_sys option" where
  "enter_section s i =
     (if i \<ge> length (sys_clients s) then None
      else let c = sys_clients s ! i; st = lane_heap (sys_lanes s) (cl_addr c) in
        case cl_pc c of
          Marking m \<Rightarrow>
            (let s' = finish_client s i (mark_section m st) Finished in
             Some (if m = Send_pending
                   then s'\<lparr>sys_queued := (sys_queued s')(cl_key c := Suc (sys_queued s' (cl_key c)))\<rparr>
                   else s'))
        | Passive_enter b \<Rightarrow>
            (case passive_section st b of
               (Send, st') \<Rightarrow> Some (move_client s i st' Passive_sending)
             | (Wait, st') \<Rightarrow> Some (move_client s i st' Passive_queued)
             | (Imbalance, st') \<Rightarrow> Some (finish_client s i st' Failed))
        | Passive_queued \<Rightarrow>
            (case passive_try st of
               (Send, st') \<Rightarrow> Some (move_client s i st' Passive_sending)
             | (_, st') \<Rightarrow> Some (move_client s i st' Passive_queued))
        | Non_passive_enter \<Rightarrow>
            (case non_passive_section st of
               (t, Send, st') \<Rightarrow> Some (move_client s i st' (Non_passive_sending t))
             | (t, _, st') \<Rightarrow> Some (move_client s i st' (Non_passive_queued t)))
        | Non_passive_queued t \<Rightarrow>
            (case non_passive_wake st t of
               (Send, st') \<Rightarrow> Some (move_client s i st' (Non_passive_sending t))
             | (_, st') \<Rightarrow> Some (move_client s i st' (Non_passive_queued t)))
        | _ \<Rightarrow> None)"

text \<open>
  The \<open>finally\<close> block a client runs when its \<open>send()\<close> ends (returns or raises), or when
  it is cancelled at the await it is at.
\<close>

fun finally_section :: "lane_pc \<Rightarrow> lane_state \<Rightarrow> lane_state option" where
  "finally_section (Marking m) st = Some st"
| "finally_section (Passive_enter b) st = passive_finally st b False"
| "finally_section Passive_queued st = passive_finally st True False"
| "finally_section Passive_sending st = passive_finally st True True"
| "finally_section Non_passive_enter st = Some (non_passive_finally st (-1) False)"
| "finally_section (Non_passive_queued t) st = Some (non_passive_finally st t False)"
| "finally_section (Non_passive_sending t) st = Some (non_passive_finally st t True)"
| "finally_section _ st = None"

definition leave_call :: "lane_sys \<Rightarrow> nat \<Rightarrow> lane_sys option" where
  "leave_call s i =
     (if i \<ge> length (sys_clients s) then None
      else let c = sys_clients s ! i; st = lane_heap (sys_lanes s) (cl_addr c) in
        if cl_pc c \<in> {Finished, Failed} then None
        else Some (case finally_section (cl_pc c) st of
               None \<Rightarrow> finish_client s i st Failed
             | Some st' \<Rightarrow>
                 (let s' = finish_client s i st' Finished in
                  if cl_pc c = Marking Send_done
                  then s'\<lparr>sys_orphaned :=
                            (sys_orphaned s')(cl_key c := Suc (sys_orphaned s' (cl_key c)))\<rparr>
                  else s')))"

datatype lane_event = Begin chat_key lane_pc | Enter nat | Leave nat

fun lane_exec :: "lane_sys \<Rightarrow> lane_event \<Rightarrow> lane_sys option" where
  "lane_exec s (Begin key pc) = begin_call s key pc"
| "lane_exec s (Enter i) = enter_section s i"
| "lane_exec s (Leave i) = leave_call s i"

inductive lane_reachable :: "lane_sys \<Rightarrow> bool" where
  lane_start: "lane_reachable init_sys"
| lane_step: "lane_reachable s \<Longrightarrow> lane_exec s e = Some t \<Longrightarrow> lane_reachable t"

fun lane_run :: "lane_sys \<Rightarrow> lane_event list \<Rightarrow> lane_sys option" where
  "lane_run s [] = Some s"
| "lane_run s (e # es) = (case lane_exec s e of None \<Rightarrow> None | Some t \<Rightarrow> lane_run t es)"

section \<open>The invariant of one lane\<close>

text \<open>
  One lane is judged with the positions \<open>M\<close> of its unfinished clients and the number
  \<open>tok\<close> of its registered items that no client has taken (queued or orphaned).  The ticket
  equation says that every ticket from the serving one on is held by exactly one waiting or
  sending client or is cancelled, exactly once.
\<close>

definition owns_pending :: "lane_pc \<Rightarrow> bool" where
  "owns_pending pc \<longleftrightarrow>
     pc \<in> {Passive_enter True, Passive_queued, Passive_sending, Marking Send_done}"

fun is_sending :: "lane_pc \<Rightarrow> bool" where
  "is_sending Passive_sending = True"
| "is_sending (Non_passive_sending _) = True"
| "is_sending _ = False"

fun ticket_of :: "lane_pc \<Rightarrow> int multiset" where
  "ticket_of (Non_passive_queued t) = {#t#}"
| "ticket_of (Non_passive_sending t) = {#t#}"
| "ticket_of _ = {#}"

definition tickets :: "lane_pc multiset \<Rightarrow> int multiset" where
  "tickets M = sum_mset (image_mset ticket_of M)"

definition unfinished :: "lane_pc \<Rightarrow> bool" where
  "unfinished pc \<longleftrightarrow> pc \<noteq> Finished \<and> pc \<noteq> Failed"

definition lane_inv :: "nat \<Rightarrow> lane_pc multiset \<Rightarrow> lane_state \<Rightarrow> bool" where
  "lane_inv tok M s \<longleftrightarrow>
     active_users s = int (size M) \<and> 0 \<le> passive_turns s
     \<and> passive_sends s = int tok + int (size (filter_mset owns_pending M))
     \<and> size (filter_mset is_sending M) = (if sending s then 1 else 0)
     \<and> tickets M + mset (cancelled_tickets s) = mset_set {serving_ticket s..<next_ticket s}
     \<and> 0 \<le> serving_ticket s \<and> serving_ticket s \<le> next_ticket s
     \<and> serving_ticket s \<notin> set (cancelled_tickets s)
     \<and> (\<forall>t. Non_passive_sending t \<in># M \<longrightarrow> t = serving_ticket s)"

lemma tickets_add [simp]: "tickets (add_mset p M) = ticket_of p + tickets M"
  by (simp add: tickets_def)

lemma tickets_empty [simp]: "tickets {#} = {#}"
  by (simp add: tickets_def)

lemma interval_first: "(s::int) < n \<Longrightarrow> mset_set {s..<n} = add_mset s (mset_set {s + 1..<n})"
proof -
  assume "s < n"
  then have "{s..<n} = insert s {s + 1..<n}" by auto
  then show ?thesis by simp
qed

lemma interval_last: "(s::int) \<le> n \<Longrightarrow> mset_set {s..<n + 1} = add_mset n (mset_set {s..<n})"
proof -
  assume "s \<le> n"
  then have "{s..<n + 1} = insert n {s..<n}" by auto
  then show ?thesis by simp
qed

lemma skip_same: "serving_ticket s \<notin> set (cancelled_tickets s) \<Longrightarrow> skip_cancelled s = s"
  by (subst skip_cancelled.simps) simp

lemma skip_frame [simp]:
  "active_users (skip_cancelled s) = active_users s"
  "passive_turns (skip_cancelled s) = passive_turns s"
  "passive_sends (skip_cancelled s) = passive_sends s"
  "next_ticket (skip_cancelled s) = next_ticket s"
  "sending (skip_cancelled s) = sending s"
  by (induction s rule: skip_cancelled.induct; subst skip_cancelled.simps; simp)+

lemma count_mset_removeAll: "count (mset (removeAll y xs)) x = (if x = y then 0 else count (mset xs) x)"
  by (induction xs) auto

lemma skip_tickets:
  "T + mset (cancelled_tickets s) = mset_set {serving_ticket s..<next_ticket s} \<Longrightarrow>
   serving_ticket s \<le> next_ticket s \<Longrightarrow>
     T + mset (cancelled_tickets (skip_cancelled s))
       = mset_set {serving_ticket (skip_cancelled s)..<next_ticket s}
     \<and> serving_ticket s \<le> serving_ticket (skip_cancelled s)
     \<and> serving_ticket (skip_cancelled s) \<le> next_ticket s
     \<and> serving_ticket (skip_cancelled s) \<notin> set (cancelled_tickets (skip_cancelled s))"
proof (induction s rule: skip_cancelled.induct)
  case (1 s)
  let ?v = "serving_ticket s" and ?c = "cancelled_tickets s"
  show ?case
  proof (cases "?v \<in> set ?c")
    case False
    with 1 show ?thesis by (simp add: skip_same)
  next
    case True
    let ?s' = "s\<lparr>cancelled_tickets := removeAll ?v ?c, serving_ticket := ?v + 1\<rparr>"
    have "?v \<in># mset_set {?v..<next_ticket s}" using True 1(2) by (metis set_mset_mset union_iff)
    then have lt: "?v < next_ticket s" by simp
    have cnt: "count T x + count (mset ?c) x = count (mset_set {?v..<next_ticket s}) x" for x
      using arg_cong[OF 1(2), of "\<lambda>M. count M x"] by simp
    have eq: "T + mset (removeAll ?v ?c) = mset_set {?v + 1..<next_ticket s}"
    proof (rule multiset_eqI)
      fix x
      have pos: "count (mset ?c) ?v > 0" using True by (simp only: count_greater_zero_iff set_mset_mset)
      show "count (T + mset (removeAll ?v ?c)) x = count (mset_set {?v + 1..<next_ticket s}) x"
      proof (cases "x = ?v")
        case True
        have "count T ?v + count (mset ?c) ?v = 1"
          using cnt[of ?v] by (simp add: interval_first[OF lt] not_in_iff[THEN iffD1])
        with pos have "count T ?v = 0" by linarith
        with True show ?thesis by (simp add: count_mset_removeAll not_in_iff[THEN iffD1])
      next
        case False
        with cnt[of x] show ?thesis by (simp add: count_mset_removeAll interval_first[OF lt])
      qed
    qed
    have step: "skip_cancelled s = skip_cancelled ?s'"
      using True by (subst skip_cancelled.simps) simp
    show ?thesis using 1(1)[OF True] eq lt unfolding step by simp
  qed
qed

subsection \<open>Each section keeps the lane invariant\<close>

abbreviation release_user :: "lane_state \<Rightarrow> lane_state" where
  "release_user s \<equiv> s\<lparr>active_users := active_users s - 1\<rparr>"

lemma lane_inv_start:
  assumes "lane_inv tok M s" and "starts pc" and "takes_item pc \<Longrightarrow> 0 < tok"
  shows "lane_inv (if takes_item pc then tok - 1 else tok) (add_mset pc M)
           (s\<lparr>active_users := active_users s + 1\<rparr>)"
  using assms
  by (cases pc) (auto simp: lane_inv_def takes_item_def owns_pending_def)

lemma lane_inv_mark:
  assumes "lane_inv tok (add_mset (Marking m) M) s"
  shows "lane_inv (if m = Send_pending then Suc tok else tok) M (release_user (mark_section m s))"
  using assms by (cases m) (auto simp: lane_inv_def owns_pending_def)

lemma lane_inv_passive_try:
  assumes "lane_inv tok (add_mset Passive_queued M) s"
  shows "case passive_try s of
           (Send, s') \<Rightarrow> lane_inv tok (add_mset Passive_sending M) s'
         | (Wait, s') \<Rightarrow> lane_inv tok (add_mset Passive_queued M) s'
         | (Imbalance, s') \<Rightarrow> False"
  using assms by (auto simp: passive_try_def lane_inv_def owns_pending_def split: if_splits)

lemma lane_inv_passive_section:
  assumes "lane_inv tok (add_mset (Passive_enter b) M) s"
  shows "case passive_section s b of
           (Send, s') \<Rightarrow> lane_inv tok (add_mset Passive_sending M) s'
         | (Wait, s') \<Rightarrow> lane_inv tok (add_mset Passive_queued M) s'
         | (Imbalance, s') \<Rightarrow> False"
proof (cases b)
  case True
  then have "lane_inv tok (add_mset Passive_queued M) s" and "passive_sends s > 0"
    using assms by (auto simp: lane_inv_def owns_pending_def)
  with True lane_inv_passive_try[OF this(1)] show ?thesis by (simp add: passive_section_def)
next
  case False
  then have "lane_inv tok (add_mset Passive_queued M) (s\<lparr>passive_sends := passive_sends s + 1\<rparr>)"
    using assms by (auto simp: lane_inv_def owns_pending_def)
  with False lane_inv_passive_try[OF this] show ?thesis by (simp add: passive_section_def)
qed

lemma lane_inv_non_passive_try:
  assumes "lane_inv tok (add_mset (Non_passive_queued t) M) s"
  shows "case non_passive_try s t of
           (Send, s') \<Rightarrow> lane_inv tok (add_mset (Non_passive_sending t) M) s'
         | (Wait, s') \<Rightarrow> lane_inv tok (add_mset (Non_passive_queued t) M) s'
         | (Imbalance, s') \<Rightarrow> False"
  using assms by (auto simp: non_passive_try_def lane_inv_def owns_pending_def split: if_splits)

lemma lane_inv_take_ticket:
  assumes "lane_inv tok (add_mset Non_passive_enter M) s"
  shows "lane_inv tok (add_mset (Non_passive_queued (next_ticket s)) M)
           (skip_cancelled (s\<lparr>next_ticket := next_ticket s + 1\<rparr>))"
proof -
  have "skip_cancelled (s\<lparr>next_ticket := next_ticket s + 1\<rparr>) = s\<lparr>next_ticket := next_ticket s + 1\<rparr>"
    using assms by (intro skip_same) (simp add: lane_inv_def)
  with assms show ?thesis by (auto simp: lane_inv_def owns_pending_def interval_last)
qed

lemma lane_inv_non_passive_section:
  assumes "lane_inv tok (add_mset Non_passive_enter M) s"
  shows "case non_passive_section s of
           (t, Send, s') \<Rightarrow> lane_inv tok (add_mset (Non_passive_sending t) M) s'
         | (t, Wait, s') \<Rightarrow> lane_inv tok (add_mset (Non_passive_queued t) M) s'
         | (t, Imbalance, s') \<Rightarrow> False"
  using lane_inv_non_passive_try[OF lane_inv_take_ticket[OF assms]]
  by (simp add: non_passive_section_def Let_def)

lemma lane_inv_non_passive_wake:
  assumes "lane_inv tok (add_mset (Non_passive_queued t) M) s"
  shows "case non_passive_wake s t of
           (Send, s') \<Rightarrow> lane_inv tok (add_mset (Non_passive_sending t) M) s'
         | (Wait, s') \<Rightarrow> lane_inv tok (add_mset (Non_passive_queued t) M) s'
         | (Imbalance, s') \<Rightarrow> False"
proof -
  have "skip_cancelled s = s" using assms by (intro skip_same) (simp add: lane_inv_def)
  with lane_inv_non_passive_try[OF assms] show ?thesis by (simp add: non_passive_wake_def)
qed

lemma lane_inv_ticket_bounds:
  assumes "lane_inv tok (add_mset p M) s" and "ticket_of p = {#t#}"
  shows "serving_ticket s \<le> t" and "t < next_ticket s" and "0 \<le> t"
    and "t \<notin> set (cancelled_tickets s)" and "t \<notin># tickets M"
proof -
  have eq: "add_mset t (tickets M + mset (cancelled_tickets s)) = mset_set {serving_ticket s..<next_ticket s}"
    using assms by (simp add: lane_inv_def)
  have "t \<in># mset_set {serving_ticket s..<next_ticket s}"
    unfolding eq[symmetric] by simp
  then show "serving_ticket s \<le> t" and "t < next_ticket s" by auto
  with assms(1) show "0 \<le> t" by (simp add: lane_inv_def)
  have "count (mset_set {serving_ticket s..<next_ticket s}) t \<le> 1"
    by (simp add: count_mset_set')
  then have "t \<notin># tickets M + mset (cancelled_tickets s)"
    unfolding eq[symmetric] by (simp add: not_in_iff)
  then show "t \<notin> set (cancelled_tickets s)" and "t \<notin># tickets M" by simp_all
qed

lemma sender_ticket: "Non_passive_sending t \<in># M \<Longrightarrow> t \<in># tickets M"
  by (auto simp: tickets_def intro!: bexI[of _ "Non_passive_sending t"])

lemma lane_inv_cancel_queued:
  assumes "lane_inv tok (add_mset (Non_passive_queued t) M) s"
  shows "lane_inv tok M (release_user (non_passive_finally s t False))"
proof -
  note b = lane_inv_ticket_bounds[OF assms, of t, simplified]
  let ?s = "s\<lparr>cancelled_tickets := List.insert t (cancelled_tickets s)\<rparr>"
  have eq: "tickets M + mset (cancelled_tickets ?s) = mset_set {serving_ticket s..<next_ticket s}"
    using assms b(4) by (simp add: lane_inv_def)
  have sk: "tickets M + mset (cancelled_tickets (skip_cancelled ?s))
       = mset_set {serving_ticket (skip_cancelled ?s)..<next_ticket s}
     \<and> serving_ticket s \<le> serving_ticket (skip_cancelled ?s)
     \<and> serving_ticket (skip_cancelled ?s) \<le> next_ticket s
     \<and> serving_ticket (skip_cancelled ?s) \<notin> set (cancelled_tickets (skip_cancelled ?s))"
    using skip_tickets[of "tickets M" ?s] eq b(1,2) by simp
  have snd: "t' = serving_ticket (skip_cancelled ?s)" if "Non_passive_sending t' \<in># M" for t'
  proof -
    have "t' = serving_ticket s" using assms that by (simp add: lane_inv_def)
    moreover have "t' \<noteq> t" using sender_ticket[OF that] b(5) by auto
    ultimately have "skip_cancelled ?s = ?s"
      using assms by (intro skip_same) (auto simp: lane_inv_def)
    with \<open>t' = serving_ticket s\<close> show ?thesis by simp
  qed
  have "non_passive_finally s t False = skip_cancelled ?s"
    using b(3) by (simp add: non_passive_finally_def)
  with assms sk snd show ?thesis by (simp add: lane_inv_def owns_pending_def)
qed

lemma lane_inv_end_sending:
  assumes "lane_inv tok (add_mset (Non_passive_sending t) M) s"
  shows "lane_inv tok M (release_user (non_passive_finally s t True))"
proof -
  note b = lane_inv_ticket_bounds[OF assms, of t, simplified]
  let ?s = "s\<lparr>serving_ticket := serving_ticket s + 1, sending := False\<rparr>"
  have t: "t = serving_ticket s" using assms by (simp add: lane_inv_def)
  have eq: "tickets M + mset (cancelled_tickets ?s) = mset_set {serving_ticket ?s..<next_ticket ?s}"
    using assms b(2) by (simp add: lane_inv_def t interval_first)
  have sk: "tickets M + mset (cancelled_tickets (skip_cancelled ?s))
       = mset_set {serving_ticket (skip_cancelled ?s)..<next_ticket s}
     \<and> serving_ticket s + 1 \<le> serving_ticket (skip_cancelled ?s)
     \<and> serving_ticket (skip_cancelled ?s) \<le> next_ticket s
     \<and> serving_ticket (skip_cancelled ?s) \<notin> set (cancelled_tickets (skip_cancelled ?s))"
    using skip_tickets[OF eq] b(2) t by simp
  have none: "filter_mset is_sending M = {#}"
    using assms by (auto simp: lane_inv_def split: if_splits)
  have "Non_passive_sending t' \<notin># M" for t'
  proof
    assume "Non_passive_sending t' \<in># M"
    with none show False by (metis filter_mset_eq_mempty_iff is_sending.simps(2))
  qed
  moreover have "non_passive_finally s t True = skip_cancelled ?s"
    using b(3) by (simp add: non_passive_finally_def)
  ultimately show ?thesis
    using assms sk none by (simp add: lane_inv_def owns_pending_def split: if_splits)
qed

lemma lane_inv_finally:
  assumes "lane_inv tok (add_mset p M) s" and "unfinished p"
  shows "\<exists>s'. finally_section p s = Some s'
           \<and> lane_inv (if p = Marking Send_done then Suc tok else tok) M (release_user s')"
proof (cases p)
  case (Marking m)
  with assms show ?thesis by (cases m) (auto simp: lane_inv_def owns_pending_def)
next
  case (Passive_enter b)
  with assms show ?thesis
    by (cases b) (auto simp: lane_inv_def owns_pending_def passive_finally_def)
next
  case Passive_queued
  with assms show ?thesis by (auto simp: lane_inv_def owns_pending_def passive_finally_def)
next
  case Passive_sending
  with assms show ?thesis
    by (auto simp: lane_inv_def owns_pending_def passive_finally_def split: if_splits)
next
  case Non_passive_enter
  with assms show ?thesis by (auto simp: lane_inv_def owns_pending_def non_passive_finally_def)
next
  case (Non_passive_queued t)
  with lane_inv_cancel_queued assms show ?thesis by simp
next
  case (Non_passive_sending t)
  with lane_inv_end_sending assms show ?thesis by simp
qed (use assms in \<open>auto simp: unfinished_def\<close>)

section \<open>The invariant of the whole system\<close>

definition at_lane :: "nat \<Rightarrow> lane_client \<Rightarrow> bool" where
  "at_lane a c \<longleftrightarrow> cl_addr c = a \<and> unfinished (cl_pc c)"

definition pcs :: "lane_client list \<Rightarrow> nat \<Rightarrow> lane_pc multiset" where
  "pcs cs a = mset (map cl_pc (filter (at_lane a) cs))"

definition others :: "lane_client list \<Rightarrow> nat \<Rightarrow> nat \<Rightarrow> lane_pc multiset" where
  "others cs i a = pcs (take i cs @ drop (Suc i) cs) a"

definition lanes_inv :: "chat_lanes \<Rightarrow> lane_client list \<Rightarrow> (chat_key \<Rightarrow> nat) \<Rightarrow> bool" where
  "lanes_inv cl cs tok \<longleftrightarrow>
     (\<forall>c \<in> set cs. unfinished (cl_pc c) \<longrightarrow> dict_get (lane_states cl) (cl_key c) = Some (cl_addr c))
     \<and> (\<forall>c \<in> set cs. cl_addr c < lane_next cl)
     \<and> (\<forall>k a. dict_get (lane_states cl) k = Some a \<longrightarrow>
            a < lane_next cl \<and> (\<forall>k'. dict_get (lane_states cl) k' = Some a \<longrightarrow> k' = k)
            \<and> lane_inv (tok k) (pcs cs a) (lane_heap cl a) \<and> lane_in_use (lane_heap cl a))
     \<and> (\<forall>k. dict_get (lane_states cl) k = None \<longrightarrow> tok k = 0)"

definition sys_tokens :: "lane_sys \<Rightarrow> chat_key \<Rightarrow> nat" where
  "sys_tokens s k = sys_queued s k + sys_orphaned s k"

definition sys_inv :: "lane_sys \<Rightarrow> bool" where
  "sys_inv s \<longleftrightarrow> lanes_inv (sys_lanes s) (sys_clients s) (sys_tokens s)"

lemma pcs_append [simp]: "pcs (xs @ ys) a = pcs xs a + pcs ys a"
  by (simp add: pcs_def)

lemma pcs_Cons: "pcs (c # cs) a = (if at_lane a c then add_mset (cl_pc c) (pcs cs a) else pcs cs a)"
  by (simp add: pcs_def)

lemma pcs_Nil [simp]: "pcs [] a = {#}"
  by (simp add: pcs_def)

lemma pcs_split:
  assumes "i < length cs"
  shows "pcs cs a = (if at_lane a (cs ! i) then add_mset (cl_pc (cs ! i)) (others cs i a) else others cs i a)"
proof -
  have "pcs cs a = pcs (take i cs @ cs ! i # drop (Suc i) cs) a"
    using id_take_nth_drop[OF assms] by simp
  then show ?thesis by (simp add: others_def pcs_Cons)
qed

lemma pcs_update:
  assumes "i < length cs"
  shows "pcs (cs[i := c]) a = (if at_lane a c then add_mset (cl_pc c) (others cs i a) else others cs i a)"
proof -
  have "pcs (cs[i := c]) a = pcs (take i cs @ c # drop (Suc i) cs) a"
    using upd_conv_take_nth_drop[OF assms] by simp
  then show ?thesis by (simp add: others_def pcs_Cons)
qed

lemma pcs_fresh: "\<forall>c \<in> set cs. cl_addr c < a \<Longrightarrow> pcs cs a = {#}"
  by (induction cs) (auto simp: pcs_Cons at_lane_def)

lemma set_update_cases: "x \<in> set (xs[i := y]) \<Longrightarrow> x = y \<or> x \<in> set xs"
  using set_update_subset_insert[of xs i y] by blast

lemma lanes_inv_get: "lanes_inv cl cs tok \<Longrightarrow> c \<in> set cs \<Longrightarrow> unfinished (cl_pc c) \<Longrightarrow>
    dict_get (lane_states cl) (cl_key c) = Some (cl_addr c)"
  unfolding lanes_inv_def by blast

lemma lanes_inv_addr: "lanes_inv cl cs tok \<Longrightarrow> c \<in> set cs \<Longrightarrow> cl_addr c < lane_next cl"
  unfolding lanes_inv_def by blast

lemma lanes_inv_entry:
  assumes "lanes_inv cl cs tok" and "dict_get (lane_states cl) k = Some a"
  shows "a < lane_next cl" and "lane_inv (tok k) (pcs cs a) (lane_heap cl a)"
    and "lane_in_use (lane_heap cl a)"
  using assms unfolding lanes_inv_def by blast+

lemma lanes_inv_inj: "lanes_inv cl cs tok \<Longrightarrow> dict_get (lane_states cl) k = Some a \<Longrightarrow>
    dict_get (lane_states cl) k' = Some a \<Longrightarrow> k' = k"
  unfolding lanes_inv_def by blast

lemma lanes_inv_absent: "lanes_inv cl cs tok \<Longrightarrow> dict_get (lane_states cl) k = None \<Longrightarrow> tok k = 0"
  unfolding lanes_inv_def by blast

lemma lanes_invI:
  assumes "\<And>c. c \<in> set cs \<Longrightarrow> unfinished (cl_pc c) \<Longrightarrow>
             dict_get (lane_states cl) (cl_key c) = Some (cl_addr c)"
    and "\<And>c. c \<in> set cs \<Longrightarrow> cl_addr c < lane_next cl"
    and "\<And>k a. dict_get (lane_states cl) k = Some a \<Longrightarrow> a < lane_next cl"
    and "\<And>k a k'. dict_get (lane_states cl) k = Some a \<Longrightarrow> dict_get (lane_states cl) k' = Some a \<Longrightarrow> k' = k"
    and "\<And>k a. dict_get (lane_states cl) k = Some a \<Longrightarrow> lane_inv (tok k) (pcs cs a) (lane_heap cl a)"
    and "\<And>k a. dict_get (lane_states cl) k = Some a \<Longrightarrow> lane_in_use (lane_heap cl a)"
    and "\<And>k. dict_get (lane_states cl) k = None \<Longrightarrow> tok k = 0"
  shows "lanes_inv cl cs tok"
  unfolding lanes_inv_def using assms by blast

lemma lanes_inv_client:
  assumes "lanes_inv cl cs tok" and "i < length cs" and "unfinished (cl_pc (cs ! i))"
  shows "dict_get (lane_states cl) (cl_key (cs ! i)) = Some (cl_addr (cs ! i))"
    and "lane_inv (tok (cl_key (cs ! i))) (add_mset (cl_pc (cs ! i)) (others cs i (cl_addr (cs ! i))))
           (lane_heap cl (cl_addr (cs ! i)))"
proof -
  show get: "dict_get (lane_states cl) (cl_key (cs ! i)) = Some (cl_addr (cs ! i))"
    by (rule lanes_inv_get[OF assms(1) nth_mem[OF assms(2)] assms(3)])
  show "lane_inv (tok (cl_key (cs ! i))) (add_mset (cl_pc (cs ! i)) (others cs i (cl_addr (cs ! i))))
           (lane_heap cl (cl_addr (cs ! i)))"
    using lanes_inv_entry(2)[OF assms(1) get] pcs_split[OF assms(2), of "cl_addr (cs ! i)"] assms(3)
    by (simp add: at_lane_def)
qed

lemma lane_inv_in_use: "lane_inv tok (add_mset p M) s \<Longrightarrow> lane_in_use s"
  by (simp add: lane_inv_def lane_in_use_def)

text \<open>A client moves inside its call: only its own lane changes.\<close>

lemma lanes_inv_move:
  assumes inv: "lanes_inv cl cs tok" and i: "i < length cs"
    and c: "c = cs ! i" "unfinished (cl_pc c)" "unfinished q"
    and step: "lane_inv (tok (cl_key c)) (add_mset q (others cs i (cl_addr c))) st"
  shows "lanes_inv (update_lane cl (cl_addr c) (\<lambda>_. st)) (cs[i := c\<lparr>cl_pc := q\<rparr>]) tok"
proof -
  let ?a = "cl_addr c" and ?cs = "cs[i := c\<lparr>cl_pc := q\<rparr>]"
  note get = lanes_inv_client(1)[OF inv i, folded c(1), OF c(2)]
  have mem: "c \<in> set cs" using i c(1) by simp
  have here: "pcs ?cs ?a = add_mset q (others cs i ?a)"
    using pcs_update[OF i] c(3) by (simp add: at_lane_def)
  have there: "pcs ?cs b = pcs cs b" if "b \<noteq> ?a" for b
    using pcs_update[OF i] pcs_split[OF i] that c(1) by (simp add: at_lane_def)
  have client: "d = c\<lparr>cl_pc := q\<rparr> \<or> d \<in> set cs" if "d \<in> set ?cs" for d
    using set_update_cases[OF that] .
  show ?thesis
  proof (rule lanes_invI, unfold update_lane_simps)
    fix d assume d: "d \<in> set ?cs"
    then show "cl_addr d < lane_next cl"
      using client[OF d] lanes_inv_addr[OF inv] mem by auto
    assume "unfinished (cl_pc d)"
    with client[OF d] show "dict_get (lane_states cl) (cl_key d) = Some (cl_addr d)"
      using lanes_inv_get[OF inv] get by auto
  next
    fix k a assume k: "dict_get (lane_states cl) k = Some a"
    from lanes_inv_entry(1)[OF inv k] show "a < lane_next cl" .
    have key: "a = ?a \<Longrightarrow> k = cl_key c" using lanes_inv_inj[OF inv get] k by simp
    show "lane_inv (tok k) (pcs ?cs a) (if a = ?a then st else lane_heap cl a)"
      using key here there step lanes_inv_entry(2)[OF inv k] by simp
    show "lane_in_use (if a = ?a then st else lane_heap cl a)"
      using lane_inv_in_use[OF step] lanes_inv_entry(3)[OF inv k] by simp
    fix k' assume "dict_get (lane_states cl) k' = Some a"
    with lanes_inv_inj[OF inv k] show "k' = k" by simp
  next
    fix k assume "dict_get (lane_states cl) k = None"
    with lanes_inv_absent[OF inv] show "tok k = 0" .
  qed
qed

text \<open>A client leaves its call: the lane is dropped exactly when it is idle.\<close>

lemma lane_inv_idle:
  "lane_inv tok M s \<Longrightarrow> \<not> lane_in_use s \<Longrightarrow> M = {#} \<and> tok = 0"
  by (simp add: lane_inv_def lane_in_use_def)

lemma release_states:
  assumes "dict_get (lane_states cl) key = Some a"
  shows "lane_states (release_state cl key a) =
           (if lane_in_use (release_user (lane_heap cl a)) then lane_states cl
            else dict_del (lane_states cl) key)"
    and "lane_next (release_state cl key a) = lane_next cl"
    and "lane_heap (release_state cl key a) b
           = (if b = a then release_user (lane_heap cl a) else lane_heap cl b)"
  using assms by (simp_all add: release_state_def Let_def)

lemma lanes_inv_finish:
  assumes inv: "lanes_inv cl cs tok" and i: "i < length cs"
    and c: "c = cs ! i" "unfinished (cl_pc c)" "\<not> unfinished q"
    and step: "lane_inv (tok' (cl_key c)) (others cs i (cl_addr c)) (release_user st)"
    and other: "\<And>k. k \<noteq> cl_key c \<Longrightarrow> tok' k = tok k"
  shows "lanes_inv (release_state (update_lane cl (cl_addr c) (\<lambda>_. st)) (cl_key c) (cl_addr c))
           (cs[i := c\<lparr>cl_pc := q\<rparr>]) tok'"
proof -
  let ?a = "cl_addr c" and ?k = "cl_key c" and ?cs = "cs[i := c\<lparr>cl_pc := q\<rparr>]"
  let ?st = "release_user st"
  note get = lanes_inv_client(1)[OF inv i, folded c(1), OF c(2)]
  have mem: "c \<in> set cs" using i c(1) by simp
  have here: "pcs ?cs ?a = others cs i ?a"
    using pcs_update[OF i] c(3) by (simp add: at_lane_def)
  have there: "pcs ?cs b = pcs cs b" if "b \<noteq> ?a" for b
    using pcs_update[OF i] pcs_split[OF i] that c(1) by (simp add: at_lane_def)
  have client: "d = c\<lparr>cl_pc := q\<rparr> \<or> d \<in> set cs" if "d \<in> set ?cs" for d
    using set_update_cases[OF that] .
  have idle: "others cs i ?a = {#} \<and> tok' ?k = 0" if "\<not> lane_in_use ?st"
    using lane_inv_idle[OF step that] .
  have present: "d \<in> set ?cs \<Longrightarrow> unfinished (cl_pc d) \<Longrightarrow> cl_addr d = ?a \<Longrightarrow> lane_in_use ?st" for d
  proof (rule ccontr)
    assume d: "d \<in> set ?cs" "unfinished (cl_pc d)" "cl_addr d = ?a" and no: "\<not> lane_in_use ?st"
    then have "cl_pc d \<in># pcs ?cs ?a" by (auto simp: pcs_def at_lane_def)
    with idle[OF no] here show False by simp
  qed
  let ?cl = "release_state (update_lane cl ?a (\<lambda>_. st)) ?k ?a"
  have states: "lane_states ?cl = (if lane_in_use ?st then lane_states cl else dict_del (lane_states cl) ?k)"
    and nxt: "lane_next ?cl = lane_next cl"
    and heap: "\<And>b. lane_heap ?cl b = (if b = ?a then ?st else lane_heap cl b)"
    using release_states[of "update_lane cl ?a (\<lambda>_. st)" ?k ?a] get by simp_all
  have sub: "dict_get (lane_states cl) k = Some a" if "dict_get (lane_states ?cl) k = Some a" for k a
    using that by (simp add: states split: if_splits)
  show ?thesis
  proof (rule lanes_invI, unfold nxt heap)
    fix d assume d: "d \<in> set ?cs"
    then show "cl_addr d < lane_next cl"
      using client[OF d] lanes_inv_addr[OF inv] mem by auto
    assume u: "unfinished (cl_pc d)"
    with client[OF d] c(3) have dcs: "d \<in> set cs" by auto
    note gd = lanes_inv_get[OF inv dcs u]
    show "dict_get (lane_states ?cl) (cl_key d) = Some (cl_addr d)"
      using gd present[OF d u] get by (auto simp: states)
  next
    fix k a assume k: "dict_get (lane_states ?cl) k = Some a"
    from lanes_inv_entry(1)[OF inv sub[OF k]] show "a < lane_next cl" .
    have key: "a = ?a \<Longrightarrow> k = ?k" using lanes_inv_inj[OF inv get] sub[OF k] by simp
    have key': "a \<noteq> ?a \<Longrightarrow> k \<noteq> ?k" using sub[OF k] get by auto
    show "lane_inv (tok' k) (pcs ?cs a) (if a = ?a then ?st else lane_heap cl a)"
      using key key' here there step other lanes_inv_entry(2)[OF inv sub[OF k]] by simp
    show "lane_in_use (if a = ?a then ?st else lane_heap cl a)"
      using lanes_inv_entry(3)[OF inv sub[OF k]] key k by (auto simp: states split: if_splits)
    fix k' assume "dict_get (lane_states ?cl) k' = Some a"
    with lanes_inv_inj[OF inv sub[OF k]] sub show "k' = k" by simp
  next
    fix k assume "dict_get (lane_states ?cl) k = None"
    then show "tok' k = 0"
      using lanes_inv_absent[OF inv, of k] other[of k] idle get
      by (cases "k = ?k") (auto simp: states split: if_splits)
  qed
qed

text \<open>A call begins, on an existing or a new lane.\<close>

lemma lane_inv_new: "lane_inv 0 {#} new_lane"
  by (simp add: lane_inv_def new_lane_def)

lemma lanes_inv_begin:
  assumes inv: "lanes_inv cl cs tok" and acq: "acquire_state cl key = (a, cl')"
    and u: "starts pc"
    and item: "takes_item pc \<Longrightarrow> 0 < tok key"
  shows "lanes_inv cl' (cs @ [\<lparr>cl_key = key, cl_addr = a, cl_pc = pc\<rparr>])
           (if takes_item pc then tok(key := tok key - 1) else tok)"
proof -
  let ?c = "\<lparr>cl_key = key, cl_addr = a, cl_pc = pc\<rparr>"
  let ?tok = "if takes_item pc then tok(key := tok key - 1) else tok"
  have live: "unfinished pc" using u by (cases pc) (auto simp: unfinished_def)
  have pcs': "pcs (cs @ [?c]) b = (if b = a then add_mset pc (pcs cs b) else pcs cs b)" for b
    using live by (simp add: pcs_Cons at_lane_def)
  have fresh: "pcs cs (lane_next cl) = {#}"
    by (rule pcs_fresh) (use lanes_inv_addr[OF inv] in blast)
  have acq_all: "dict_get (lane_states cl') k = (if k = key then Some a else dict_get (lane_states cl) k)
      \<and> lane_next cl \<le> lane_next cl' \<and> a < lane_next cl'
      \<and> (\<forall>b. b \<noteq> a \<longrightarrow> lane_heap cl' b = lane_heap cl b)
      \<and> (dict_get (lane_states cl) k = Some a \<longrightarrow> k = key)" for k
  proof (cases "dict_get (lane_states cl) key")
    case None
    then have "a = lane_next cl" and "cl' = update_lane (cl\<lparr>lane_heap := (lane_heap cl)(a := new_lane),
        lane_next := Suc a, lane_states := dict_set (lane_states cl) key a\<rparr>) a
        (\<lambda>s. s\<lparr>active_users := active_users s + 1\<rparr>)"
      using acq by (auto simp: acquire_state_def Let_def)
    then show ?thesis
      using lanes_inv_entry(1)[OF inv, of k a] by auto
  next
    case (Some b)
    then have "a = b" and "cl' = update_lane cl a (\<lambda>s. s\<lparr>active_users := active_users s + 1\<rparr>)"
      using acq by (auto simp: acquire_state_def)
    moreover have "k = key \<or> dict_get (lane_states cl) k \<noteq> Some b"
      using lanes_inv_inj[OF inv Some, of k] by blast
    ultimately show ?thesis
      using lanes_inv_entry(1)[OF inv Some] Some by auto
  qed
  note acq' = acq_all[THEN conjunct1] acq_all[THEN conjunct2, THEN conjunct1]
    acq_all[THEN conjunct2, THEN conjunct2, THEN conjunct1]
    acq_all[THEN conjunct2, THEN conjunct2, THEN conjunct2, THEN conjunct1, rule_format]
    acq_all[THEN conjunct2, THEN conjunct2, THEN conjunct2, THEN conjunct2, rule_format]
  have same: "dict_get (lane_states cl) key = Some b \<Longrightarrow> b = a" for b
    using acq by (auto simp: acquire_state_def)
  have lane: "lane_inv (?tok key) (add_mset pc (pcs cs a)) (lane_heap cl' a)"
  proof (cases "dict_get (lane_states cl) key")
    case None
    with acq have "a = lane_next cl"
      and "lane_heap cl' a = new_lane\<lparr>active_users := active_users new_lane + 1\<rparr>"
      by (auto simp: acquire_state_def Let_def)
    with lane_inv_start[OF lane_inv_new u] fresh lanes_inv_absent[OF inv None] item show ?thesis
      by (cases "takes_item pc") auto
  next
    case (Some b)
    with acq have "a = b"
      and "lane_heap cl' a = (lane_heap cl a)\<lparr>active_users := active_users (lane_heap cl a) + 1\<rparr>"
      by (auto simp: acquire_state_def)
    with lane_inv_start[OF lanes_inv_entry(2)[OF inv Some] u item] show ?thesis by auto
  qed
  show ?thesis
  proof (rule lanes_invI)
    fix d assume d: "d \<in> set (cs @ [?c])"
    then show "cl_addr d < lane_next cl'"
      using lanes_inv_addr[OF inv, of d] acq'(2,3) by auto
    assume un: "unfinished (cl_pc d)"
    show "dict_get (lane_states cl') (cl_key d) = Some (cl_addr d)"
    proof (cases "d = ?c")
      case True
      then show ?thesis using acq'(1)[of key] by simp
    next
      case False
      with d lanes_inv_get[OF inv, of d] un have "dict_get (lane_states cl) (cl_key d) = Some (cl_addr d)"
        by simp
      with same acq'(1)[of "cl_key d"] show ?thesis by (cases "cl_key d = key") auto
    qed
  next
    fix k b assume k: "dict_get (lane_states cl') k = Some b"
    show "b < lane_next cl'"
      using k acq' lanes_inv_entry(1)[OF inv, of k b] by (auto split: if_splits)
    have cases: "(k = key \<and> b = a) \<or> (k \<noteq> key \<and> b \<noteq> a \<and> dict_get (lane_states cl) k = Some b)"
      using k acq'(1,5) by (auto split: if_splits)
    then show "lane_inv (?tok k) (pcs (cs @ [?c]) b) (lane_heap cl' b)"
      using lane lanes_inv_entry(2)[OF inv, of k b] pcs' acq'(4)[of b] by auto
    show "lane_in_use (lane_heap cl' b)"
      using cases lane_inv_in_use[OF lane] lanes_inv_entry(3)[OF inv, of k b] acq'(4)[of b] by auto
    fix k' assume "dict_get (lane_states cl') k' = Some b"
    then show "k' = k"
      using cases acq'(1,5) lanes_inv_inj[OF inv, of k b k'] by (auto split: if_splits)
  next
    fix k assume "dict_get (lane_states cl') k = None"
    then show "?tok k = 0"
      using acq'(1) lanes_inv_absent[OF inv, of k] by (auto split: if_splits)
  qed
qed

section \<open>Every step keeps the invariant\<close>

lemma sys_inv_init: "sys_inv init_sys"
  by (simp add: sys_inv_def lanes_inv_def init_sys_def empty_lanes_def sys_tokens_def)

lemma sys_inv_begin:
  assumes "sys_inv s" and "begin_call s key pc = Some t"
  shows "sys_inv t"
proof -
  obtain a cl where acq: "acquire_state (sys_lanes s) key = (a, cl)" by fastforce
  have pc: "starts pc" "takes_item pc \<Longrightarrow> 0 < sys_queued s key"
    and t: "t = s\<lparr>sys_lanes := cl,
                sys_clients := sys_clients s @ [\<lparr>cl_key = key, cl_addr = a, cl_pc = pc\<rparr>],
                sys_queued := (if takes_item pc
                               then (sys_queued s)(key := sys_queued s key - 1)
                               else sys_queued s)\<rparr>"
    using assms(2) acq by (auto simp: begin_call_def split: if_splits)
  have item: "takes_item pc \<Longrightarrow> 0 < sys_tokens s key" using pc(2) by (simp add: sys_tokens_def)
  have "sys_tokens t = (if takes_item pc then (sys_tokens s)(key := sys_tokens s key - 1) else sys_tokens s)"
    using pc(2) by (auto simp: t sys_tokens_def fun_eq_iff)
  moreover have inv: "lanes_inv (sys_lanes s) (sys_clients s) (sys_tokens s)"
    using assms(1) by (simp add: sys_inv_def)
  ultimately show ?thesis using lanes_inv_begin[OF inv acq pc(1) item]
    by (simp add: sys_inv_def t)
qed

lemma sys_inv_move:
  assumes "sys_inv s" and "i < length (sys_clients s)" and "c = sys_clients s ! i"
    and "unfinished (cl_pc c)" and "unfinished q"
    and "lane_inv (sys_tokens s (cl_key c)) (add_mset q (others (sys_clients s) i (cl_addr c))) st"
  shows "sys_inv (move_client s i st q)"
proof -
  have "sys_tokens (move_client s i st q) = sys_tokens s"
    by (simp add: move_client_def Let_def sys_tokens_def fun_eq_iff)
  moreover have inv: "lanes_inv (sys_lanes s) (sys_clients s) (sys_tokens s)"
    using assms(1) by (simp add: sys_inv_def)
  ultimately show ?thesis using lanes_inv_move[OF inv assms(2-6)] assms(3)
    by (simp add: sys_inv_def move_client_def Let_def)
qed

lemma sys_inv_finish:
  assumes "sys_inv s" and "i < length (sys_clients s)" and "c = sys_clients s ! i"
    and "unfinished (cl_pc c)" and "\<not> unfinished q"
    and "lane_inv (sys_tokens t (cl_key c)) (others (sys_clients s) i (cl_addr c)) (release_user st)"
    and "\<And>k. k \<noteq> cl_key c \<Longrightarrow> sys_tokens t k = sys_tokens s k"
    and "sys_lanes t = sys_lanes (finish_client s i st q)"
    and "sys_clients t = sys_clients (finish_client s i st q)"
  shows "sys_inv t"
proof -
  have inv: "lanes_inv (sys_lanes s) (sys_clients s) (sys_tokens s)"
    using assms(1) by (simp add: sys_inv_def)
  show ?thesis using lanes_inv_finish[OF inv assms(2-7)] assms(3,8,9)
    by (simp add: sys_inv_def finish_client_def move_client_def Let_def)
qed

lemma sys_inv_lane:
  assumes "sys_inv s" and "i < length (sys_clients s)" and "c = sys_clients s ! i"
    and "unfinished (cl_pc c)"
  shows "lane_inv (sys_tokens s (cl_key c)) (add_mset (cl_pc c) (others (sys_clients s) i (cl_addr c)))
           (lane_heap (sys_lanes s) (cl_addr c))"
  using lanes_inv_client(2)[of "sys_lanes s" "sys_clients s" "sys_tokens s" i] assms
  by (simp add: sys_inv_def)

lemma sys_inv_enter:
  assumes inv: "sys_inv s" and e: "enter_section s i = Some t"
  shows "sys_inv t"
proof -
  define c where "c = sys_clients s ! i"
  define st where "st = lane_heap (sys_lanes s) (cl_addr c)"
  from e have i: "i < length (sys_clients s)" by (auto simp: enter_section_def split: if_splits)
  note e' = e[unfolded enter_section_def Let_def, folded c_def, folded st_def]
  have u: "unfinished (cl_pc c)"
    using e' i by (auto simp: unfinished_def split: lane_pc.splits)
  note lane = sys_inv_lane[OF inv i c_def u, folded st_def]
  note move = sys_inv_move[OF inv i c_def u]
  show ?thesis
  proof (cases "cl_pc c")
    case (Marking m)
    note l = lane_inv_mark[OF lane[unfolded Marking]]
    let ?f = "finish_client s i (mark_section m st) Finished"
    have t: "t = (if m = Send_pending
        then ?f\<lparr>sys_queued := (sys_queued ?f)(cl_key c := Suc (sys_queued ?f (cl_key c)))\<rparr> else ?f)"
      using e' i Marking by simp
    have tok: "sys_tokens t k = (if m = Send_pending \<and> k = cl_key c then Suc (sys_tokens s k)
        else sys_tokens s k)" for k
      by (simp add: t sys_tokens_def finish_client_def move_client_def Let_def)
    show ?thesis
      by (rule sys_inv_finish[OF inv i c_def u, of Finished t "mark_section m st"])
        (use l tok in \<open>auto simp: unfinished_def t split: if_splits\<close>)
  next
    case (Passive_enter b)
    with lane_inv_passive_section[OF lane[unfolded Passive_enter]] e' i show ?thesis
      by (auto simp: unfinished_def split: prod.splits verdict.splits intro!: move)
  next
    case Passive_queued
    with lane_inv_passive_try[OF lane[unfolded Passive_queued]] e' i show ?thesis
      by (auto simp: unfinished_def split: prod.splits verdict.splits intro!: move)
  next
    case Non_passive_enter
    with lane_inv_non_passive_section[OF lane[unfolded Non_passive_enter]] e' i show ?thesis
      by (auto simp: unfinished_def split: prod.splits verdict.splits intro!: move)
  next
    case (Non_passive_queued n)
    with lane_inv_non_passive_wake[OF lane[unfolded Non_passive_queued]] e' i show ?thesis
      by (auto simp: unfinished_def split: prod.splits verdict.splits intro!: move)
  qed (use e' i in auto)
qed

lemma sys_inv_leave:
  assumes inv: "sys_inv s" and e: "leave_call s i = Some t"
  shows "sys_inv t"
proof -
  define c where "c = sys_clients s ! i"
  define st where "st = lane_heap (sys_lanes s) (cl_addr c)"
  from e have i: "i < length (sys_clients s)" by (auto simp: leave_call_def split: if_splits)
  note e' = e[unfolded leave_call_def Let_def, folded c_def, folded st_def]
  have u: "unfinished (cl_pc c)"
    using e' i by (auto simp: unfinished_def split: if_splits)
  obtain st' where st': "finally_section (cl_pc c) st = Some st'"
    "lane_inv (if cl_pc c = Marking Send_done then Suc (sys_tokens s (cl_key c)) else sys_tokens s (cl_key c))
       (others (sys_clients s) i (cl_addr c)) (release_user st')"
    using lane_inv_finally[OF sys_inv_lane[OF inv i c_def u, folded st_def] u] by blast
  let ?f = "finish_client s i st' Finished"
  have t: "t = (if cl_pc c = Marking Send_done
      then ?f\<lparr>sys_orphaned := (sys_orphaned ?f)(cl_key c := Suc (sys_orphaned ?f (cl_key c)))\<rparr> else ?f)"
    using e' i u st'(1) by (simp add: unfinished_def)
  have tok: "sys_tokens t k = (if cl_pc c = Marking Send_done \<and> k = cl_key c then Suc (sys_tokens s k)
      else sys_tokens s k)" for k
    by (simp add: t sys_tokens_def finish_client_def move_client_def Let_def)
  show ?thesis
    by (rule sys_inv_finish[OF inv i c_def u, of Finished t st'])
      (use st'(2) tok in \<open>auto simp: unfinished_def t split: if_splits\<close>)
qed

lemma sys_inv_exec: "sys_inv s \<Longrightarrow> lane_exec s e = Some t \<Longrightarrow> sys_inv t"
  by (cases e) (auto intro: sys_inv_begin sys_inv_enter sys_inv_leave)

lemma reachable_sys_inv: "lane_reachable s \<Longrightarrow> sys_inv s"
  by (induction rule: lane_reachable.induct) (auto intro: sys_inv_init sys_inv_exec)

lemma lane_run_reachable: "lane_reachable s \<Longrightarrow> lane_run s es = Some t \<Longrightarrow> lane_reachable t"
  by (induction es arbitrary: s) (auto split: option.splits intro: lane_reachable.lane_step)

lemma client_updates [simp]:
  "sys_clients (move_client s i st q) = (sys_clients s)[i := (sys_clients s ! i)\<lparr>cl_pc := q\<rparr>]"
  "sys_clients (finish_client s i st q) = (sys_clients s)[i := (sys_clients s ! i)\<lparr>cl_pc := q\<rparr>]"
  by (simp_all add: move_client_def finish_client_def Let_def)

lemma enter_never_fails:
  assumes inv: "sys_inv s" and e: "enter_section s i = Some t"
  shows "\<exists>q. q \<noteq> Failed \<and> sys_clients t = (sys_clients s)[i := (sys_clients s ! i)\<lparr>cl_pc := q\<rparr>]"
proof -
  define c where "c = sys_clients s ! i"
  define st where "st = lane_heap (sys_lanes s) (cl_addr c)"
  from e have i: "i < length (sys_clients s)" by (auto simp: enter_section_def split: if_splits)
  note e' = e[unfolded enter_section_def Let_def, folded c_def, folded st_def]
  have u: "unfinished (cl_pc c)"
    using e' i by (auto simp: unfinished_def split: lane_pc.splits)
  note lane = sys_inv_lane[OF inv i c_def u, folded st_def]
  show ?thesis
  proof (cases "cl_pc c")
    case (Passive_enter b)
    with lane_inv_passive_section[OF lane[unfolded Passive_enter]] e' i show ?thesis
      by (auto simp flip: c_def split: prod.splits verdict.splits)
  qed (use e' i in \<open>auto simp flip: c_def split: prod.splits verdict.splits if_splits\<close>)
qed

lemma leave_never_fails:
  assumes inv: "sys_inv s" and e: "leave_call s i = Some t"
  shows "\<exists>q. q \<noteq> Failed \<and> sys_clients t = (sys_clients s)[i := (sys_clients s ! i)\<lparr>cl_pc := q\<rparr>]"
proof -
  define c where "c = sys_clients s ! i"
  define st where "st = lane_heap (sys_lanes s) (cl_addr c)"
  from e have i: "i < length (sys_clients s)" by (auto simp: leave_call_def split: if_splits)
  note e' = e[unfolded leave_call_def Let_def, folded c_def, folded st_def]
  have u: "unfinished (cl_pc c)"
    using e' i by (auto simp: unfinished_def split: if_splits)
  obtain st' where "finally_section (cl_pc c) st = Some st'"
    using lane_inv_finally[OF sys_inv_lane[OF inv i c_def u, folded st_def] u] by blast
  with e' i u show ?thesis
    by (intro exI[of _ Finished]) (auto simp: unfinished_def simp flip: c_def split: if_splits)
qed

section \<open>Properties of the chat lane\<close>

abbreviation client_pc :: "lane_sys \<Rightarrow> nat \<Rightarrow> lane_pc" where
  "client_pc s i \<equiv> cl_pc (sys_clients s ! i)"

abbreviation client_key :: "lane_sys \<Rightarrow> nat \<Rightarrow> chat_key" where
  "client_key s i \<equiv> cl_key (sys_clients s ! i)"

abbreviation client_lane :: "lane_sys \<Rightarrow> nat \<Rightarrow> lane_state" where
  "client_lane s i \<equiv> lane_heap (sys_lanes s) (cl_addr (sys_clients s ! i))"

text \<open>Two unfinished calls on one chat always work on the same state object.\<close>

lemma same_chat_same_lane:
  assumes "sys_inv s" and "i < length (sys_clients s)" and "j < length (sys_clients s)"
    and "unfinished (client_pc s i)" and "unfinished (client_pc s j)" and "client_key s i = client_key s j"
  shows "cl_addr (sys_clients s ! i) = cl_addr (sys_clients s ! j)"
  using lanes_inv_get[of "sys_lanes s" "sys_clients s" "sys_tokens s"] assms nth_mem[OF assms(2)]
    nth_mem[OF assms(3)] unfolding sys_inv_def by (metis option.inject)

lemma others_member:
  assumes "i < length cs" and "j < length cs" and "i \<noteq> j" and "at_lane a (cs ! j)"
  shows "cl_pc (cs ! j) \<in># others cs i a"
proof -
  have "cs ! j \<in> set (take i cs @ drop (Suc i) cs)"
  proof (cases "j < i")
    case True
    then have "take i cs ! j = cs ! j" "j < length (take i cs)" using assms by simp_all
    then show ?thesis by (metis UnI1 nth_mem set_append)
  next
    case False
    then have "drop (Suc i) cs ! (j - Suc i) = cs ! j" "j - Suc i < length (drop (Suc i) cs)"
      using assms by simp_all
    then show ?thesis by (metis UnI2 nth_mem set_append)
  qed
  with assms(4) show ?thesis by (auto simp: others_def pcs_def)
qed

lemma other_client:
  assumes "sys_inv s" and "i < length (sys_clients s)" and "j < length (sys_clients s)" and "i \<noteq> j"
    and "unfinished (client_pc s i)" and "unfinished (client_pc s j)" and "client_key s i = client_key s j"
  shows "client_pc s j \<in># others (sys_clients s) i (cl_addr (sys_clients s ! i))"
  using others_member[OF assms(2,3,4)] same_chat_same_lane[OF assms(1,2,3,5,6,7)] assms(6)
  by (simp add: at_lane_def)

lemma count_filter_pos: "x \<in># M \<Longrightarrow> P x \<Longrightarrow> 0 < size (filter_mset P M)"
  by (metis filter_mset_eq_mempty_iff nonempty_has_size)

text \<open>
  C2. Mutual exclusion: whatever calls are made, wherever they are cancelled and however
  they interleave, at most one message of a chat is being sent.
\<close>

theorem lane_mutual_exclusion:
  assumes "lane_reachable s" and "i < length (sys_clients s)" and "j < length (sys_clients s)"
    and "is_sending (client_pc s i)" and "is_sending (client_pc s j)"
    and "client_key s i = client_key s j"
  shows "i = j"
proof (rule ccontr)
  assume "i \<noteq> j"
  note inv = reachable_sys_inv[OF assms(1)]
  have u: "unfinished (client_pc s i)" "unfinished (client_pc s j)"
    using assms(4,5) by (auto simp: unfinished_def)
  note mem = other_client[OF inv assms(2,3) \<open>i \<noteq> j\<close> u assms(6)]
  let ?M = "others (sys_clients s) i (cl_addr (sys_clients s ! i))"
  have "size (filter_mset is_sending (add_mset (client_pc s i) ?M)) \<le> 1"
    using sys_inv_lane[OF inv assms(2) refl u(1)] by (simp add: lane_inv_def)
  moreover have "size (filter_mset is_sending (add_mset (client_pc s i) ?M))
      = Suc (size (filter_mset is_sending ?M))" using assms(4) by simp
  moreover note count_filter_pos[of _ _ is_sending, OF mem assms(5)]
  ultimately show False by linarith
qed

lemma enter_non_passive:
  assumes "sys_inv s" and e: "enter_section s i = Some t" and snd: "client_pc t i = Non_passive_sending n"
  obtains "i < length (sys_clients s)" "unfinished (client_pc s i)"
    and "client_pc s i = Non_passive_enter \<or> client_pc s i = Non_passive_queued n"
    and "sending (client_lane s i) = False" "passive_turns (client_lane s i) \<le> 0"
    and "passive_sends (client_lane s i) \<le> 0"
    and "n = serving_ticket (client_lane s i)"
proof -
  from e have i: "i < length (sys_clients s)" by (auto simp: enter_section_def split: if_splits)
  have u: "unfinished (client_pc s i)"
    using e i by (auto simp: enter_section_def Let_def unfinished_def split: lane_pc.splits)
  have same: "skip_cancelled (client_lane s i) = client_lane s i"
    using sys_inv_lane[OF assms(1) i refl u] by (intro skip_same) (simp add: lane_inv_def)
  have same': "skip_cancelled ((client_lane s i)\<lparr>next_ticket := next_ticket (client_lane s i) + 1\<rparr>)
      = (client_lane s i)\<lparr>next_ticket := next_ticket (client_lane s i) + 1\<rparr>"
    using sys_inv_lane[OF assms(1) i refl u] by (intro skip_same) (simp add: lane_inv_def)
  show ?thesis
    using e i snd
    by (intro that[OF i u])
      (auto simp: enter_section_def Let_def finish_client_def move_client_def passive_section_def
        passive_try_def non_passive_section_def non_passive_wake_def non_passive_try_def same same'
        split: lane_pc.splits if_splits)
qed

text \<open>
  C3. Passive work goes first: a proactive send starts only when its chat has no passive
  turn in progress, no reply that is registered, waiting or being sent, and no other send.
\<close>

theorem lane_passive_first:
  assumes "lane_reachable s" and "enter_section s i = Some t"
    and "client_pc t i = Non_passive_sending n"
  shows "passive_turns (client_lane s i) = 0 \<and> sys_queued s (client_key s i) = 0
    \<and> (\<forall>j < length (sys_clients s). j \<noteq> i \<and> client_key s j = client_key s i \<longrightarrow>
          \<not> owns_pending (client_pc s j) \<and> \<not> is_sending (client_pc s j))"
proof -
  note inv = reachable_sys_inv[OF assms(1)]
  have i: "i < length (sys_clients s)" and u: "unfinished (client_pc s i)"
    and free: "sending (client_lane s i) = False" "passive_turns (client_lane s i) \<le> 0"
      "passive_sends (client_lane s i) \<le> 0"
    by (rule enter_non_passive[OF inv assms(2,3)]; assumption)+
  note lane = sys_inv_lane[OF inv i refl u]
  let ?O = "others (sys_clients s) i (cl_addr (sys_clients s ! i))"
  have "int (sys_tokens s (client_key s i)) + int (size (filter_mset owns_pending ?O)) \<le> 0"
    using lane free by (simp add: lane_inv_def split: if_splits)
  then have "sys_tokens s (client_key s i) = 0" "filter_mset owns_pending ?O = {#}"
    unfolding size_eq_0_iff_empty[symmetric] by linarith+
  moreover have "filter_mset is_sending ?O = {#}" "passive_turns (client_lane s i) = 0"
    using lane free by (auto simp: lane_inv_def split: if_splits)
  moreover have "\<not> owns_pending (client_pc s j) \<and> \<not> is_sending (client_pc s j)"
    if "j < length (sys_clients s)" "j \<noteq> i" "client_key s j = client_key s i" for j
  proof (cases "unfinished (client_pc s j)")
    case True
    with other_client[OF inv i that(1) that(2)[symmetric] u True that(3)[symmetric]] calculation
    show ?thesis by (auto simp: filter_mset_eq_mempty_iff)
  qed (auto simp: unfinished_def owns_pending_def)
  ultimately show ?thesis by (simp add: sys_tokens_def)
qed

text \<open>
  First come, first served: a proactive send that starts has the smallest ticket of all
  proactive calls of its chat that still wait.
\<close>

theorem lane_ticket_order:
  assumes "lane_reachable s" and "enter_section s i = Some t"
    and "client_pc t i = Non_passive_sending n"
    and "j < length (sys_clients s)" and "j \<noteq> i" and "client_key s j = client_key s i"
    and "client_pc s j = Non_passive_queued m"
  shows "n < m"
proof -
  note inv = reachable_sys_inv[OF assms(1)]
  have i: "i < length (sys_clients s)" and u: "unfinished (client_pc s i)"
    and pc: "client_pc s i = Non_passive_enter \<or> client_pc s i = Non_passive_queued n"
    and n: "n = serving_ticket (client_lane s i)"
    by (rule enter_non_passive[OF inv assms(2,3)]; assumption)+
  have uj: "unfinished (client_pc s j)" using assms(7) by (simp add: unfinished_def)
  note lane_i = sys_inv_lane[OF inv i refl u] and lane_j = sys_inv_lane[OF inv assms(4) refl uj]
  have addr: "cl_addr (sys_clients s ! i) = cl_addr (sys_clients s ! j)"
    by (rule same_chat_same_lane[OF inv i assms(4) u uj assms(6)[symmetric]])
  note b = lane_inv_ticket_bounds[OF lane_j[unfolded assms(7)], of m, simplified]
  have le: "n \<le> m" using b(1) n addr by simp
  have "n \<noteq> m"
  proof
    assume "n = m"
    from pc show False
    proof
      assume "client_pc s i = Non_passive_queued n"
      then have "Non_passive_queued m \<in># others (sys_clients s) j (cl_addr (sys_clients s ! j))"
        using other_client[OF inv assms(4) i assms(5) uj u assms(6)] \<open>n = m\<close> by simp
      then have "m \<in># tickets (others (sys_clients s) j (cl_addr (sys_clients s ! j)))"
        by (auto simp: tickets_def intro!: bexI[of _ "Non_passive_queued m"])
      with b(5) show False by simp
    next
      assume enter: "client_pc s i = Non_passive_enter"
      then have "n = next_ticket (client_lane s i)"
        using assms(2,3) i by (auto simp: enter_section_def Let_def non_passive_section_def
            non_passive_try_def move_client_def split: if_splits)
      with b(2) addr \<open>n = m\<close> show False by simp
    qed
  qed
  with le show ?thesis by simp
qed

text \<open>
  The pending counts never run out of balance: the two \<open>RuntimeError\<close>s of
  \<open>run_passive\<close> are unreachable, so no call ever ends in the failed position.
\<close>

theorem lane_never_imbalanced:
  assumes "lane_reachable s"
  shows "\<forall>c \<in> set (sys_clients s). cl_pc c \<noteq> Failed"
  using assms
proof (induction rule: lane_reachable.induct)
  case lane_start
  then show ?case by (simp add: init_sys_def)
next
  case (lane_step s e t)
  note inv = reachable_sys_inv[OF lane_step.hyps(1)]
  have moved: "\<forall>c \<in> set ((sys_clients s)[i := (sys_clients s ! i)\<lparr>cl_pc := q\<rparr>]). cl_pc c \<noteq> Failed"
    if "q \<noteq> Failed" for i q
    using lane_step.IH that by (auto dest!: set_update_cases)
  show ?case
  proof (cases e)
    case (Begin key pc)
    with lane_step show ?thesis
      by (cases pc) (auto simp: begin_call_def split: if_splits prod.splits)
  next
    case (Enter i)
    with lane_step(2) have e: "enter_section s i = Some t" by simp
    obtain q where "q \<noteq> Failed"
      "sys_clients t = (sys_clients s)[i := (sys_clients s ! i)\<lparr>cl_pc := q\<rparr>]"
      using enter_never_fails[OF inv e] by blast
    with moved show ?thesis by simp
  next
    case (Leave i)
    with lane_step(2) have e: "leave_call s i = Some t" by simp
    obtain q where "q \<noteq> Failed"
      "sys_clients t = (sys_clients s)[i := (sys_clients s ! i)\<lparr>cl_pc := q\<rparr>]"
      using leave_never_fails[OF inv e] by blast
    with moved show ?thesis by simp
  qed
qed

lemma pcs_client:
  assumes "sys_inv s" and "dict_get (lane_states (sys_lanes s)) k = Some a"
    and "pc \<in># pcs (sys_clients s) a"
  obtains j where "j < length (sys_clients s)" "client_pc s j = pc" "unfinished pc"
    "client_key s j = k" "cl_addr (sys_clients s ! j) = a"
proof -
  from assms(3) obtain c where c: "c \<in> set (sys_clients s)" "cl_pc c = pc" "at_lane a c"
    by (auto simp: pcs_def)
  then obtain j where j: "j < length (sys_clients s)" "sys_clients s ! j = c"
    by (metis in_set_conv_nth)
  have inv: "lanes_inv (sys_lanes s) (sys_clients s) (sys_tokens s)"
    using assms(1) by (simp add: sys_inv_def)
  have "dict_get (lane_states (sys_lanes s)) (cl_key c) = Some a"
    using lanes_inv_get[OF inv c(1)] c(3) by (simp add: at_lane_def)
  then have "cl_key c = k" using lanes_inv_inj[OF inv assms(2)] by simp
  with that[of j] j c show ?thesis by (simp add: at_lane_def)
qed

text \<open>
  Lanes are reclaimed and never lost: a chat has an entry in the dictionary exactly
  when it has a call in progress, an outbound item whose pending mark is still counted, or a
  passive turn; a call in progress always finds its own state object in the dictionary.
\<close>

theorem lane_reclaimed:
  assumes "lane_reachable s"
  shows "(case dict_get (lane_states (sys_lanes s)) k of
            None \<Rightarrow> sys_queued s k = 0 \<and> sys_orphaned s k = 0
                    \<and> (\<forall>c \<in> set (sys_clients s). cl_key c = k \<longrightarrow> \<not> unfinished (cl_pc c))
          | Some a \<Rightarrow> (\<forall>c \<in> set (sys_clients s). cl_key c = k \<and> unfinished (cl_pc c) \<longrightarrow> cl_addr c = a)
                    \<and> (0 < sys_queued s k \<or> 0 < sys_orphaned s k
                       \<or> 0 < passive_turns (lane_heap (sys_lanes s) a)
                       \<or> (\<exists>c \<in> set (sys_clients s). cl_key c = k \<and> unfinished (cl_pc c))))"
proof -
  note sinv = reachable_sys_inv[OF assms]
  then have inv: "lanes_inv (sys_lanes s) (sys_clients s) (sys_tokens s)"
    by (simp add: sys_inv_def)
  show ?thesis
  proof (cases "dict_get (lane_states (sys_lanes s)) k")
    case None
    with lanes_inv_absent[OF inv None] lanes_inv_get[OF inv] show ?thesis
      by (auto simp: sys_tokens_def)
  next
    case (Some a)
    note lane = lanes_inv_entry(2,3)[OF inv Some]
    have "0 < passive_turns (lane_heap (sys_lanes s) a)"
      if none: "\<forall>c \<in> set (sys_clients s). cl_key c = k \<longrightarrow> \<not> unfinished (cl_pc c)"
        and tok: "sys_tokens s k = 0"
    proof -
      have "pcs (sys_clients s) a = {#}"
      proof (rule ccontr)
        assume "pcs (sys_clients s) a \<noteq> {#}"
        then obtain pc where "pc \<in># pcs (sys_clients s) a" by blast
        then show False
          by (rule pcs_client[OF sinv Some]) (use none in force)
      qed
      note lane0 = lane(1)[unfolded this tok]
      let ?s = "lane_heap (sys_lanes s) a"
      have "\<not> serving_ticket ?s < next_ticket ?s"
      proof
        assume lt: "serving_ticket ?s < next_ticket ?s"
        have "mset (cancelled_tickets ?s) = mset_set {serving_ticket ?s..<next_ticket ?s}"
          using lane0 by (simp add: lane_inv_def)
        then have "serving_ticket ?s \<in> set (cancelled_tickets ?s)"
          by (metis interval_first[OF lt] set_mset_mset union_single_eq_member add_mset_add_single)
        with lane0 show False by (simp add: lane_inv_def)
      qed
      with lane0 lane(2) show ?thesis
        by (auto simp: lane_inv_def lane_in_use_def split: if_splits)
    qed
    then show ?thesis
      using Some lanes_inv_get[OF inv] by (force simp: sys_tokens_def)
  qed
qed

text \<open>
  C4. No lane gets stuck: when a call waits on a chat on which nothing is being sent, no
  passive turn runs and no registered item or mark is outstanding, then some call of that
  chat starts sending as soon as it is woken.
\<close>

theorem lane_progress:
  assumes "lane_reachable s" and "i < length (sys_clients s)"
    and "client_pc s i = Passive_queued \<or> client_pc s i = Non_passive_queued n"
    and "passive_turns (client_lane s i) = 0"
    and "sys_queued s (client_key s i) = 0" and "sys_orphaned s (client_key s i) = 0"
    and "\<forall>j < length (sys_clients s). client_key s j = client_key s i \<longrightarrow>
           \<not> is_sending (client_pc s j) \<and> (\<forall>m. client_pc s j \<noteq> Marking m)"
  shows "\<exists>j < length (sys_clients s). \<exists>t. client_key s j = client_key s i
           \<and> enter_section s j = Some t \<and> is_sending (client_pc t j)"
proof -
  note sinv = reachable_sys_inv[OF assms(1)]
  then have inv: "lanes_inv (sys_lanes s) (sys_clients s) (sys_tokens s)" by (simp add: sys_inv_def)
  have u: "unfinished (client_pc s i)" using assms(3) by (auto simp: unfinished_def)
  let ?k = "client_key s i" and ?a = "cl_addr (sys_clients s ! i)" and ?st = "client_lane s i"
  have get: "dict_get (lane_states (sys_lanes s)) ?k = Some ?a"
    by (rule lanes_inv_get[OF inv nth_mem[OF assms(2)] u])
  note lane = lanes_inv_entry(2)[OF inv get]
  note client = pcs_client[OF sinv get]
  have "filter_mset is_sending (pcs (sys_clients s) ?a) = {#}"
    unfolding filter_mset_eq_mempty_iff using client assms(7) by metis
  then have "size (filter_mset is_sending (pcs (sys_clients s) ?a)) = 0" by (simp only: size_empty)
  moreover have "size (filter_mset is_sending (pcs (sys_clients s) ?a)) = (if sending ?st then 1 else 0)"
    using lane unfolding lane_inv_def by blast
  ultimately have idle: "\<not> sending ?st" by (simp split: if_splits)
  show ?thesis
  proof (cases "filter_mset owns_pending (pcs (sys_clients s) ?a) = {#}")
    case False
    then obtain pc where pc: "pc \<in># pcs (sys_clients s) ?a" "owns_pending pc"
      unfolding filter_mset_eq_mempty_iff by blast
    from pc(1) obtain j where j: "j < length (sys_clients s)" "client_pc s j = pc"
      "client_key s j = ?k" "cl_addr (sys_clients s ! j) = ?a" by (rule client)
    have "0 < size (filter_mset owns_pending (pcs (sys_clients s) ?a))"
      using count_filter_pos[of _ _ owns_pending, OF pc] .
    then have "passive_sends ?st > 0" using lane by (simp add: lane_inv_def)
    then have "\<exists>t. enter_section s j = Some t \<and> is_sending (client_pc t j)"
      using j pc(2) assms(7) idle
      by (auto simp: enter_section_def owns_pending_def passive_section_def passive_try_def Let_def
          split: lane_pc.splits)
    with j show ?thesis by blast
  next
    case True
    have "client_pc s i \<in># pcs (sys_clients s) ?a"
      using nth_mem[OF assms(2)] u by (auto simp: pcs_def at_lane_def)
    with True assms(3) have q: "client_pc s i = Non_passive_queued n"
      unfolding filter_mset_eq_mempty_iff owns_pending_def by auto
    let ?v = "serving_ticket ?st"
    have "?v < next_ticket ?st"
      using lane_inv_ticket_bounds(1,2)[OF sys_inv_lane[OF sinv assms(2) refl u], of n] q by simp
    then have "?v \<in># tickets (pcs (sys_clients s) ?a) + mset (cancelled_tickets ?st)"
      using lane by (simp add: lane_inv_def interval_first)
    then have "?v \<in># tickets (pcs (sys_clients s) ?a)"
      using lane by (simp add: lane_inv_def)
    then obtain pc where pc: "pc \<in># pcs (sys_clients s) ?a" "?v \<in># ticket_of pc"
      by (auto simp: tickets_def)
    from pc(1) obtain j where j: "j < length (sys_clients s)" "client_pc s j = pc"
      "client_key s j = ?k" "cl_addr (sys_clients s ! j) = ?a" by (rule client)
    have "client_pc s j = Non_passive_queued ?v"
      using pc(2) j assms(7) by (cases pc) auto
    moreover have "passive_sends ?st = 0"
      using lane True assms(5,6) by (simp add: lane_inv_def sys_tokens_def)
    moreover have "skip_cancelled ?st = ?st" using lane by (intro skip_same) (simp add: lane_inv_def)
    ultimately have "\<exists>t. enter_section s j = Some t \<and> is_sending (client_pc t j)"
      using j idle assms(4)
      by (auto simp: enter_section_def non_passive_wake_def non_passive_try_def Let_def)
    with j show ?thesis by blast
  qed
qed

section \<open>A concrete run\<close>

text \<open>
  On one chat a reply is registered and sent; two proactive calls queue up meanwhile, the
  first of them starts when the reply is done.
\<close>

definition demo_chat :: chat_key where
  "demo_chat = Chat_key ''telegram'' ''42''"

definition demo_wait_events :: "lane_event list" where
  "demo_wait_events =
     [Begin demo_chat (Marking Send_pending), Enter 0, Begin demo_chat (Passive_enter True), Enter 1,
      Begin demo_chat Non_passive_enter, Enter 2, Begin demo_chat Non_passive_enter, Enter 3, Leave 1]"

definition demo_wait_sys :: lane_sys where
  "demo_wait_sys = the (lane_run init_sys demo_wait_events)"

definition demo_send_sys :: lane_sys where
  "demo_send_sys = the (enter_section demo_wait_sys 2)"

lemma demo_runs:
  "\<not> Option.is_none (lane_run init_sys demo_wait_events)"
  "\<not> Option.is_none (enter_section demo_wait_sys 2)"
  by code_simp+

lemma demo_facts:
  "length (sys_clients demo_wait_sys) = 4"
  "client_pc demo_wait_sys 0 = Finished" "client_pc demo_wait_sys 1 = Finished"
  "client_pc demo_wait_sys 2 = Non_passive_queued 0" "client_pc demo_wait_sys 3 = Non_passive_queued 1"
  "client_key demo_wait_sys 2 = demo_chat" "client_key demo_wait_sys 3 = demo_chat"
  "sys_queued demo_wait_sys demo_chat = 0" "sys_orphaned demo_wait_sys demo_chat = 0"
  "passive_turns (client_lane demo_wait_sys 2) = 0"
  "length (sys_clients demo_send_sys) = 4" "client_pc demo_send_sys 2 = Non_passive_sending 0"
  by code_simp+

lemma demo_wait_reachable: "lane_reachable demo_wait_sys"
  using lane_run_reachable[OF lane_start, of demo_wait_events demo_wait_sys]
    not_is_none_the[OF demo_runs(1)] by (simp add: demo_wait_sys_def)

lemma demo_send_step: "enter_section demo_wait_sys 2 = Some demo_send_sys"
  using not_is_none_the[OF demo_runs(2)] by (simp add: demo_send_sys_def)

lemma demo_send_reachable: "lane_reachable demo_send_sys"
  using lane_step[OF demo_wait_reachable, of "Enter 2"] demo_send_step by simp

theorem lane_mutual_exclusion_witness:
  "is_sending (client_pc demo_send_sys 2) \<and> (2::nat) = 2"
  using lane_mutual_exclusion[OF demo_send_reachable, of 2 2] demo_facts by simp

theorem lane_passive_first_witness:
  "sys_queued demo_wait_sys (client_key demo_wait_sys 2) = 0"
  using lane_passive_first[OF demo_wait_reachable demo_send_step demo_facts(12)] by blast

theorem lane_ticket_order_witness: "(0::int) < 1"
  using lane_ticket_order[OF demo_wait_reachable demo_send_step demo_facts(12), of 3 1] demo_facts
  by simp

theorem lane_never_imbalanced_witness: "client_pc demo_send_sys 0 \<noteq> Failed"
  using lane_never_imbalanced[OF demo_send_reachable] nth_mem[of 0 "sys_clients demo_send_sys"]
    demo_facts(11) by simp

theorem lane_reclaimed_witness:
  "\<exists>a. dict_get (lane_states (sys_lanes demo_send_sys)) demo_chat = Some a \<or>
       sys_queued demo_send_sys demo_chat = 0"
  using lane_reclaimed[OF demo_send_reachable, of demo_chat] by (auto split: option.splits)

theorem lane_progress_witness:
  "\<exists>j < length (sys_clients demo_wait_sys). \<exists>t. client_key demo_wait_sys j = client_key demo_wait_sys 2
     \<and> enter_section demo_wait_sys j = Some t \<and> is_sending (client_pc t j)"
proof (rule lane_progress[OF demo_wait_reachable, of 2 0])
  show "\<forall>j < length (sys_clients demo_wait_sys). client_key demo_wait_sys j = client_key demo_wait_sys 2 \<longrightarrow>
      \<not> is_sending (client_pc demo_wait_sys j) \<and> (\<forall>m. client_pc demo_wait_sys j \<noteq> Marking m)"
    using demo_facts by (auto simp: less_Suc_eq numeral_eq_Suc)
qed (use demo_facts in auto)

end
