(* ===== verification/Schedule_Time.thy ===== *)
theory Schedule_Time
  imports Roxy_Prelude
begin

text \<open>
  The time arithmetic of the scheduler (agent/scheduler.py, lines 54--222 and 749--761):
  the latency window, durations such as \<open>1h30m\<close>, \<open>HH:MM\<close> and ISO times, cron expressions,
  the first and the next firing time of a job.

  A \<open>timedelta\<close> is an integer number of microseconds.  An aware \<open>datetime\<close> is its wall
  clock (microseconds since 0001-01-01), its \<open>fold\<close> and its \<open>tzinfo\<close>, because Python adds
  on the wall clock and compares two values of the same \<open>tzinfo\<close> on the wall clock, but
  values of different ones on UTC.  The time zone database, ISO parsing and the cron
  trigger of APScheduler are parameters.  Texts are lists of HOL characters, that is of
  code points below 256, for which \<open>is_space\<close> and \<open>is_digit\<close> are Python's \<open>str.isspace\<close> and
  the regular expression class of decimal digits.
\<close>

named_theorems sched_simps \<open>evaluation of the scheduler's time functions\<close>

datatype py_error = Value_error | Overflow_error | Type_error | Key_error | Runtime_error | Os_error

subsection \<open>Texts\<close>

definition is_digit :: "char \<Rightarrow> bool" where
  "is_digit c \<longleftrightarrow> CHR ''0'' \<le> c \<and> c \<le> CHR ''9''"

fun split_fields :: "string \<Rightarrow> string \<Rightarrow> string list" where
  "split_fields cur [] = (if cur = [] then [] else [rev cur])"
| "split_fields cur (c # s) =
     (if is_space c then (if cur = [] then split_fields [] s else rev cur # split_fields [] s)
      else split_fields (c # cur) s)"

definition py_split :: "string \<Rightarrow> string list" where
  "py_split s = split_fields [] s"

definition digit_value :: "char \<Rightarrow> int" where
  "digit_value c = int (of_char c) - 48"

definition digits_value :: "string \<Rightarrow> int" where
  "digits_value ds = foldl (\<lambda>a c. 10 * a + digit_value c) 0 ds"

definition int_max_str_digits :: nat where
  "int_max_str_digits = 4300"

definition py_int :: "string \<Rightarrow> py_error + int" where
  "py_int ds = (if length ds > int_max_str_digits then Inl Value_error else Inr (digits_value ds))"

subsection \<open>Durations and datetimes\<close>

definition us_second :: int where "us_second = 1000000"
definition us_day :: int where "us_day = 86400000000"

definition max_delta_days :: int where "max_delta_days = 999999999"

text \<open>The constructor \<open>timedelta(...)\<close> raises \<open>OverflowError\<close> outside its range of days.\<close>

definition mk_delta :: "int \<Rightarrow> py_error + int" where
  "mk_delta us = (if \<bar>us div us_day\<bar> \<le> max_delta_days then Inr us else Inl Overflow_error)"

datatype tzinfo = UTC | Offset int | Zone string

record datetime =
  wall :: int
  dt_fold :: bool
  tz :: tzinfo

text \<open>What the code uses of the time zone database: the keys \<open>ZoneInfo\<close> accepts, the
  offset of a wall clock time and the wall clock (with its \<open>fold\<close>) of an instant.\<close>

record tzdb =
  zone_known :: "string \<Rightarrow> bool"
  zone_offset :: "string \<Rightarrow> bool \<Rightarrow> int \<Rightarrow> int"
  zone_wall :: "string \<Rightarrow> int \<Rightarrow> int"
  zone_fold :: "string \<Rightarrow> int \<Rightarrow> bool"

fun utcoffset :: "tzdb \<Rightarrow> datetime \<Rightarrow> int" where
  "utcoffset db d = (case tz d of UTC \<Rightarrow> 0 | Offset k \<Rightarrow> k
     | Zone n \<Rightarrow> zone_offset db n (dt_fold d) (wall d))"

definition instant :: "tzdb \<Rightarrow> datetime \<Rightarrow> int" where
  "instant db d = wall d - utcoffset db d"

definition max_wall :: int where "max_wall = 3652059 * us_day"

definition dt_add :: "datetime \<Rightarrow> int \<Rightarrow> py_error + datetime" where
  "dt_add d us = (let w = wall d + us in
     if 0 \<le> w \<and> w < max_wall then Inr (d\<lparr>wall := w, dt_fold := False\<rparr>) else Inl Overflow_error)"

definition dt_sub :: "tzdb \<Rightarrow> datetime \<Rightarrow> datetime \<Rightarrow> int" where
  "dt_sub db a b = (if tz a = tz b then wall a - wall b else instant db a - instant db b)"

definition dt_le :: "tzdb \<Rightarrow> datetime \<Rightarrow> datetime \<Rightarrow> bool" where
  "dt_le db a b \<longleftrightarrow> dt_sub db a b \<le> 0"

definition dt_less :: "tzdb \<Rightarrow> datetime \<Rightarrow> datetime \<Rightarrow> bool" where
  "dt_less db a b \<longleftrightarrow> dt_sub db a b < 0"

definition dt_max :: "tzdb \<Rightarrow> datetime \<Rightarrow> datetime \<Rightarrow> datetime" where
  "dt_max db a b = (if dt_less db a b then b else a)"

definition astimezone :: "tzdb \<Rightarrow> datetime \<Rightarrow> string \<Rightarrow> datetime" where
  "astimezone db d n = (if tz d = Zone n then d else
     \<lparr>wall = zone_wall db n (instant db d), dt_fold = zone_fold db n (instant db d), tz = Zone n\<rparr>)"

text \<open>A value that may lack a \<open>tzinfo\<close>, as parsing and callers produce it.\<close>

datatype stamp = Naive int | Aware datetime

definition assume_tz :: "tzinfo \<Rightarrow> stamp \<Rightarrow> datetime" where
  "assume_tz z s = (case s of Naive w \<Rightarrow> \<lparr>wall = w, dt_fold = False, tz = z\<rparr> | Aware d \<Rightarrow> d)"

subsection \<open>The latency window\<close>

record latency_tracker =
  samples :: "int list"
  window :: nat
  default_lead :: int

definition record_latency :: "latency_tracker \<Rightarrow> int \<Rightarrow> latency_tracker" where
  "record_latency t e = (let xs = samples t @ [e] in
     t\<lparr>samples := drop (length xs - window t) xs\<rparr>)"

definition half_even_div :: "int \<Rightarrow> int \<Rightarrow> int" where
  "half_even_div a b = (let q = a div b; r = a mod b in
     if 2 * r < b \<or> (2 * r = b \<and> even q) then q else q + 1)"

text \<open>Entry 8 of \<open>statistics.quantiles(data, n=10)\<close> (the exclusive method), rounded to
  microseconds as \<open>timedelta(seconds=...)\<close> does.\<close>

definition p90 :: "int list \<Rightarrow> int" where
  "p90 xs = (let d = sort xs; ld = int (length d); m = ld + 1; j0 = (9 * m) div 10;
       j = (if j0 < 1 then 1 else if j0 > ld - 1 then ld - 1 else j0);
       delta = 9 * m - j * 10 in
     half_even_div (d ! nat (j - 1) * (10 - delta) + d ! nat j * delta) 10)"

definition lead :: "latency_tracker \<Rightarrow> int" where
  "lead t = (if length (samples t) < 3 then default_lead t else p90 (samples t))"

definition new_tracker :: latency_tracker where
  "new_tracker = \<lparr>samples = [], window = 20, default_lead = 25 * us_second\<rparr>"

subsection \<open>Durations\<close>

definition take_group :: "char \<Rightarrow> string \<Rightarrow> string \<times> string" where
  "take_group u s = (let ds = takeWhile is_digit s; r = dropWhile is_digit s in
     if ds \<noteq> [] \<and> r \<noteq> [] \<and> hd r = u then (ds, tl r) else ([], s))"

text \<open>The four groups of \<open>_DURATION_RE\<close>; a group that did not take part is empty.\<close>

definition match_duration :: "string \<Rightarrow> (string \<times> string \<times> string \<times> string) option" where
  "match_duration s = (let (d, s1) = take_group CHR ''d'' s; (h, s2) = take_group CHR ''h'' s1;
       (m, s3) = take_group CHR ''m'' s2; (c, s4) = take_group CHR ''s'' s3 in
     if s4 = [] then Some (d, h, m, c) else None)"

definition group_int :: "string \<Rightarrow> py_error + int" where
  "group_int ds = (if ds = [] then Inr 0 else py_int ds)"

definition parse_duration :: "string \<Rightarrow> py_error + int" where
  "parse_duration s = (case match_duration (py_strip s) of
     None \<Rightarrow> Inl Value_error
   | Some (d, h, m, c) \<Rightarrow>
       if d = [] \<and> h = [] \<and> m = [] \<and> c = [] then Inl Value_error
       else case group_int d of Inl e \<Rightarrow> Inl e | Inr days \<Rightarrow>
            (case group_int h of Inl e \<Rightarrow> Inl e | Inr hours \<Rightarrow>
            (case group_int m of Inl e \<Rightarrow> Inl e | Inr minutes \<Rightarrow>
            (case group_int c of Inl e \<Rightarrow> Inl e | Inr seconds \<Rightarrow>
               mk_delta ((((days * 24 + hours) * 60 + minutes) * 60 + seconds) * us_second)))))"

subsection \<open>Absolute times\<close>

definition is_hhmm :: "string \<Rightarrow> bool" where
  "is_hhmm s \<longleftrightarrow> (let h = takeWhile is_digit s; r = dropWhile is_digit s in
     (length h = 1 \<or> length h = 2) \<and> length r = 3 \<and> hd r = CHR '':'' \<and> list_all is_digit (tl r))"

definition hhmm :: "string \<Rightarrow> py_error + int \<times> int" where
  "hhmm s = (let h = digits_value (takeWhile is_digit s);
       m = digits_value (tl (dropWhile is_digit s)) in
     if h < 24 \<and> m < 60 then Inr (h, m) else Inl Value_error)"

definition set_time :: "datetime \<Rightarrow> int \<Rightarrow> int \<Rightarrow> datetime" where
  "set_time d h m = d\<lparr>wall := wall d div us_day * us_day + (h * 60 + m) * 60 * us_second\<rparr>"

definition parse_when_at ::
  "tzdb \<Rightarrow> (string \<Rightarrow> stamp option) \<Rightarrow> string \<Rightarrow> string \<Rightarrow> stamp \<Rightarrow> py_error + datetime" where
  "parse_when_at db fromiso s0 tzname now0 =
     (if \<not> zone_known db tzname then Inl Key_error
      else let s = py_strip s0 in
        if is_hhmm s then
          (let now = (case now0 of Naive w \<Rightarrow> assume_tz (Zone tzname) now0
                      | Aware d \<Rightarrow> astimezone db d tzname) in
           case hhmm s of Inl e \<Rightarrow> Inl e
           | Inr (h, m) \<Rightarrow>
               (let d = set_time now h m in
                if dt_le db d now then dt_add d us_day else Inr d))
        else case fromiso s of
          Some st \<Rightarrow> Inr (assume_tz (Zone tzname) st)
        | None \<Rightarrow> Inl Value_error)"

subsection \<open>Cron expressions\<close>

definition is_cron_expr :: "string \<Rightarrow> bool" where
  "is_cron_expr s \<longleftrightarrow> length (py_split (py_strip s)) \<in> {5, 6}"

record cron_fields =
  cron_second :: "string option"
  cron_minute :: string
  cron_hour :: string
  cron_day :: string
  cron_month :: string
  cron_dow :: string

definition cron_fields_of :: "string list \<Rightarrow> cron_fields option" where
  "cron_fields_of parts = (case parts of
     [m, h, d, mon, dow] \<Rightarrow> Some \<lparr>cron_second = None, cron_minute = m, cron_hour = h,
       cron_day = d, cron_month = mon, cron_dow = dow\<rparr>
   | [s, m, h, d, mon, dow] \<Rightarrow> Some \<lparr>cron_second = Some s, cron_minute = m, cron_hour = h,
       cron_day = d, cron_month = mon, cron_dow = dow\<rparr>
   | _ \<Rightarrow> None)"

text \<open>The trigger of APScheduler: the fields and zone it is built from, the previous firing
  time and the current time give an error of its constructor, or the next firing time.\<close>

type_synonym cron_trigger =
  "cron_fields \<Rightarrow> string \<Rightarrow> datetime option \<Rightarrow> datetime \<Rightarrow> py_error + stamp option"

definition next_cron_fire ::
  "tzdb \<Rightarrow> cron_trigger \<Rightarrow> string \<Rightarrow> string \<Rightarrow> datetime \<Rightarrow> py_error + datetime" where
  "next_cron_fire db trig expr tzname after =
     (case cron_fields_of (py_split (py_strip expr)) of
        None \<Rightarrow> Inl Value_error
      | Some fs \<Rightarrow>
          if \<not> zone_known db tzname then Inl Key_error
          else case trig fs tzname None after of
            Inl e \<Rightarrow> Inl e
          | Inr None \<Rightarrow> Inl Value_error
          | Inr (Some (Naive w)) \<Rightarrow> Inl Type_error
          | Inr (Some (Aware r)) \<Rightarrow>
              if dt_le db r after then
                (case trig fs tzname (Some r) after of
                   Inl e \<Rightarrow> Inl e
                 | Inr None \<Rightarrow> Inl Value_error
                 | Inr (Some st) \<Rightarrow> Inr (assume_tz UTC st))
              else Inr r)"

subsection \<open>First and next firing time\<close>

definition compute_fire_at ::
  "tzdb \<Rightarrow> (string \<Rightarrow> stamp option) \<Rightarrow> cron_trigger \<Rightarrow> string \<Rightarrow> string \<Rightarrow> string
     \<Rightarrow> string option \<Rightarrow> datetime \<Rightarrow> py_error + datetime" where
  "compute_fire_at db fromiso trig trigger when tzname request_time now =
     (if \<not> zone_known db tzname then Inl Key_error
      else if trigger = ''at'' then parse_when_at db fromiso when tzname (Aware now)
      else if trigger = ''after'' then
        (case parse_duration when of Inl e \<Rightarrow> Inl e
         | Inr duration \<Rightarrow>
             (case request_time of
                None \<Rightarrow> dt_add now duration
              | Some rt \<Rightarrow>
                  if rt = [] then dt_add now duration
                  else (case fromiso rt of
                          None \<Rightarrow> Inl Value_error
                        | Some st \<Rightarrow> dt_add (assume_tz (Zone tzname) st) duration)))
      else if trigger = ''every'' then
        (if is_cron_expr when then next_cron_fire db trig when tzname now
         else case parse_duration when of Inl e \<Rightarrow> Inl e
           | Inr interval \<Rightarrow> dt_add now interval)
      else Inl Value_error)"

definition compute_actual_trigger ::
  "datetime \<Rightarrow> string \<Rightarrow> latency_tracker \<Rightarrow> py_error + datetime" where
  "compute_actual_trigger fire_at tier tracker =
     (if tier = ''instant'' then Inr fire_at
      else case mk_delta (lead tracker) of Inl e \<Rightarrow> Inl e
           | Inr l \<Rightarrow> dt_add fire_at (- l))"

definition advance_interval ::
  "tzdb \<Rightarrow> datetime \<Rightarrow> int option \<Rightarrow> datetime \<Rightarrow> py_error + datetime" where
  "advance_interval db fire_at interval_seconds after =
     (case interval_seconds of
        None \<Rightarrow> Inl Value_error
      | Some n \<Rightarrow>
          if n \<le> 0 then Inl Value_error
          else case mk_delta (n * us_second) of Inl e \<Rightarrow> Inl e
            | Inr interval \<Rightarrow>
                if dt_less db after fire_at then dt_add fire_at interval
                else let steps = dt_sub db after fire_at div interval + 1 in
                  (case mk_delta (steps * interval) of Inl e \<Rightarrow> Inl e
                   | Inr d \<Rightarrow> dt_add fire_at d))"

definition advance_every ::
  "tzdb \<Rightarrow> cron_trigger \<Rightarrow> datetime \<Rightarrow> int option \<Rightarrow> string option \<Rightarrow> string \<Rightarrow> datetime
     \<Rightarrow> py_error + datetime" where
  "advance_every db trig fire_at interval_seconds cron_expr tzname after =
     (case cron_expr of
        Some e \<Rightarrow> if e = [] then advance_interval db fire_at interval_seconds after
                  else next_cron_fire db trig e tzname after
      | None \<Rightarrow> advance_interval db fire_at interval_seconds after)"

subsection \<open>The duration language\<close>

definition dur_part :: "string \<Rightarrow> char \<Rightarrow> string" where
  "dur_part ds u = (if ds = [] then [] else ds @ [u])"

definition dur_text :: "string \<Rightarrow> string \<Rightarrow> string \<Rightarrow> string \<Rightarrow> string" where
  "dur_text d h m c = dur_part d CHR ''d'' @ dur_part h CHR ''h'' @ dur_part m CHR ''m'' @ dur_part c CHR ''s''"

lemma takeWhile_digits_stop:
  "list_all is_digit ds \<Longrightarrow> \<not> is_digit u \<Longrightarrow> takeWhile is_digit (ds @ u # r) = ds"
  by (induction ds) auto

lemma dropWhile_digits_stop:
  "list_all is_digit ds \<Longrightarrow> \<not> is_digit u \<Longrightarrow> dropWhile is_digit (ds @ u # r) = u # r"
  by (induction ds) auto

lemma units_not_digit [simp]:
  "\<not> is_digit CHR ''d''" "\<not> is_digit CHR ''h''" "\<not> is_digit CHR ''m''" "\<not> is_digit CHR ''s''"
  by (simp_all add: is_digit_def less_eq_char_def)

lemma take_group_spec:
  assumes "take_group u s = (ds, r)"
  shows "s = dur_part ds u @ r" "list_all is_digit ds"
proof -
  have split: "takeWhile is_digit s @ dropWhile is_digit s = s" by simp
  have digits: "list_all is_digit (takeWhile is_digit s)"
    by (simp add: list_all_iff) (blast dest: set_takeWhileD)
  show "s = dur_part ds u @ r"
  proof (cases "takeWhile is_digit s \<noteq> [] \<and> dropWhile is_digit s \<noteq> [] \<and> hd (dropWhile is_digit s) = u")
    case True
    with assms have "ds = takeWhile is_digit s" "r = tl (dropWhile is_digit s)"
      by (auto simp: take_group_def Let_def)
    then show ?thesis
      using True split by (cases "dropWhile is_digit s") (auto simp: dur_part_def)
  next
    case False
    with assms show ?thesis by (auto simp: take_group_def Let_def dur_part_def split: if_splits)
  qed
  show "list_all is_digit ds"
    using assms digits by (auto simp: take_group_def Let_def split: if_splits)
qed

lemma take_group_hit:
  "list_all is_digit ds \<Longrightarrow> ds \<noteq> [] \<Longrightarrow> \<not> is_digit u \<Longrightarrow> take_group u (dur_part ds u @ r) = (ds, r)"
  by (simp add: take_group_def dur_part_def takeWhile_digits_stop dropWhile_digits_stop)

text \<open>A group whose digits are followed by another unit, or by nothing, does not match.\<close>

definition starts_with_unit :: "char set \<Rightarrow> string \<Rightarrow> bool" where
  "starts_with_unit us s \<longleftrightarrow> s = [] \<or>
     (\<exists>ds u r. list_all is_digit ds \<and> ds \<noteq> [] \<and> u \<in> us \<and> \<not> is_digit u \<and> s = ds @ u # r)"

lemma take_group_miss:
  "starts_with_unit us s \<Longrightarrow> u \<notin> us \<Longrightarrow> take_group u s = ([], s)"
  by (auto simp: starts_with_unit_def take_group_def takeWhile_digits_stop dropWhile_digits_stop Let_def)

lemma starts_with_unit_part:
  assumes "list_all is_digit ds" "\<not> is_digit u" "starts_with_unit us r" "u \<in> vs" "us \<subseteq> vs"
  shows "starts_with_unit vs (dur_part ds u @ r)"
proof (cases "ds = []")
  case True
  then show ?thesis using assms by (auto simp: dur_part_def starts_with_unit_def)
next
  case False
  then have "dur_part ds u @ r = ds @ u # r" by (simp add: dur_part_def)
  then show ?thesis using False assms unfolding starts_with_unit_def by blast
qed

lemma take_group_part:
  assumes "list_all is_digit ds" "\<not> is_digit u" "starts_with_unit us r" "u \<notin> us"
  shows "take_group u (dur_part ds u @ r) = (ds, r)"
proof (cases "ds = []")
  case True
  then show ?thesis using take_group_miss[OF assms(3,4)] by (simp add: dur_part_def)
next
  case False
  then show ?thesis using assms by (simp add: take_group_hit)
qed

lemma match_duration_text:
  assumes "list_all is_digit d" "list_all is_digit h" "list_all is_digit m" "list_all is_digit c"
  shows "match_duration (dur_text d h m c) = Some (d, h, m, c)"
proof -
  have s0: "starts_with_unit {} []" by (simp add: starts_with_unit_def)
  have s1: "starts_with_unit {CHR ''s''} (dur_part c CHR ''s'')"
    using starts_with_unit_part[OF assms(4) units_not_digit(4) s0, of "{CHR ''s''}"] by simp
  have s2: "starts_with_unit {CHR ''m'', CHR ''s''} (dur_part m CHR ''m'' @ dur_part c CHR ''s'')"
    by (rule starts_with_unit_part[OF assms(3) units_not_digit(3) s1]) auto
  have s3: "starts_with_unit {CHR ''h'', CHR ''m'', CHR ''s''}
    (dur_part h CHR ''h'' @ dur_part m CHR ''m'' @ dur_part c CHR ''s'')"
    by (rule starts_with_unit_part[OF assms(2) units_not_digit(2) s2]) auto
  have "take_group CHR ''s'' (dur_part c CHR ''s'' @ []) = (c, [])"
    by (rule take_group_part[OF assms(4) units_not_digit(4) s0]) simp
  then show ?thesis
    using take_group_part[OF assms(1) units_not_digit(1) s3]
      take_group_part[OF assms(2) units_not_digit(2) s2]
      take_group_part[OF assms(3) units_not_digit(3) s1]
    by (simp add: match_duration_def dur_text_def)
qed

lemma match_duration_Some:
  assumes "match_duration s = Some (d, h, m, c)"
  shows "s = dur_text d h m c" "list_all is_digit d" "list_all is_digit h"
    "list_all is_digit m" "list_all is_digit c"
proof -
  obtain s1 s2 s3 s4 where g: "take_group CHR ''d'' s = (d, s1)" "take_group CHR ''h'' s1 = (h, s2)"
      "take_group CHR ''m'' s2 = (m, s3)" "take_group CHR ''s'' s3 = (c, s4)" "s4 = []"
    using assms by (auto simp: match_duration_def split: prod.splits if_splits)
  show "s = dur_text d h m c"
    using take_group_spec(1)[OF g(1)] take_group_spec(1)[OF g(2)] take_group_spec(1)[OF g(3)]
      take_group_spec(1)[OF g(4)] g(5) by (simp add: dur_text_def)
  show "list_all is_digit d" "list_all is_digit h" "list_all is_digit m" "list_all is_digit c"
    using g(1-4)[THEN take_group_spec(2)] by simp_all
qed

definition dur_us :: "string \<Rightarrow> string \<Rightarrow> string \<Rightarrow> string \<Rightarrow> int" where
  "dur_us d h m c = (((digits_value d * 24 + digits_value h) * 60 + digits_value m) * 60
     + digits_value c) * us_second"

lemma group_int_Inr: "group_int ds = Inr n \<longleftrightarrow> length ds \<le> 4300 \<and> n = digits_value ds"
  by (auto simp: group_int_def py_int_def int_max_str_digits_def digits_value_def)

text \<open>
  \<open>parse_duration\<close> accepts exactly the stripped texts made of the parts \<open><n>d<n>h<n>m<n>s\<close>
  in that order, each optional but not all missing, with at most 4300 digits a number
  and a total of at most 999999999 days, and returns their sum; every other text is an
  error.
\<close>

theorem parse_duration_language:
  "parse_duration s = Inr us \<longleftrightarrow>
     (\<exists>d h m c. py_strip s = dur_text d h m c \<and> py_strip s \<noteq> [] \<and>
        list_all is_digit (d @ h @ m @ c) \<and>
        length d \<le> 4300 \<and> length h \<le> 4300 \<and> length m \<le> 4300 \<and> length c \<le> 4300 \<and>
        us = dur_us d h m c \<and> us \<le> 999999999 * us_day + (us_day - 1))"
proof -
  have nonneg: "0 \<le> digits_value ds" if "list_all is_digit ds" for ds
  proof -
    have "0 \<le> foldl (\<lambda>a c. 10 * a + digit_value c) k ds" if "0 \<le> k" for k
      using \<open>list_all is_digit ds\<close> that
      by (induction ds arbitrary: k) (auto simp: is_digit_def digit_value_def less_eq_char_def)
    then show ?thesis by (simp add: digits_value_def)
  qed
  have bound: "(\<bar>us div us_day\<bar> \<le> max_delta_days) \<longleftrightarrow> us \<le> 999999999 * us_day + (us_day - 1)"
    if "0 \<le> us" for us
  proof -
    have "us = us_day * (us div us_day) + us mod us_day" "0 \<le> us mod us_day" "us mod us_day < us_day"
        "0 \<le> us div us_day"
      using that by (simp_all add: us_day_def pos_imp_zdiv_nonneg_iff)
    then show ?thesis unfolding us_day_def max_delta_days_def by linarith
  qed
  have us_nonneg: "0 \<le> dur_us d h m c" if "list_all is_digit (d @ h @ m @ c)" for d h m c
    using that nonneg by (simp add: dur_us_def us_second_def)
  have empty: "dur_text d h m c = [] \<longleftrightarrow> d = [] \<and> h = [] \<and> m = [] \<and> c = []" for d h m c
    by (auto simp: dur_text_def dur_part_def)
  show ?thesis (is "?l \<longleftrightarrow> ?r")
  proof
    assume l: ?l
    then obtain d h m c where md: "match_duration (py_strip s) = Some (d, h, m, c)"
      by (auto simp: parse_duration_def split: option.splits)
    note parts = match_duration_Some[OF md]
    then have all: "list_all is_digit (d @ h @ m @ c)" by simp
    have "\<not> (d = [] \<and> h = [] \<and> m = [] \<and> c = [])" "us = dur_us d h m c"
        "length d \<le> 4300" "length h \<le> 4300" "length m \<le> 4300" "length c \<le> 4300"
        "\<bar>us div us_day\<bar> \<le> max_delta_days"
      using l md by (auto simp: parse_duration_def mk_delta_def dur_us_def group_int_Inr
        split: if_splits sum.splits)
    then show ?r using parts(1) all empty us_nonneg[OF all] bound by metis
  next
    assume ?r
    then obtain d h m c where *: "py_strip s = dur_text d h m c" "py_strip s \<noteq> []"
        "list_all is_digit (d @ h @ m @ c)" "us = dur_us d h m c"
        "length d \<le> 4300" "length h \<le> 4300" "length m \<le> 4300" "length c \<le> 4300"
        "us \<le> 999999999 * us_day + (us_day - 1)" by blast
    then have md: "match_duration (py_strip s) = Some (d, h, m, c)"
      using match_duration_text[of d h m c] by simp
    moreover have "\<bar>us div us_day\<bar> \<le> max_delta_days"
      using *(4,9) bound us_nonneg[OF *(3)] by simp
    moreover have "group_int d = Inr (digits_value d)" "group_int h = Inr (digits_value h)"
        "group_int m = Inr (digits_value m)" "group_int c = Inr (digits_value c)"
      using * by (simp_all add: group_int_Inr)
    moreover have "\<not> (d = [] \<and> h = [] \<and> m = [] \<and> c = [])" using *(1,2) empty by metis
    ultimately show ?l
      by (simp only: parse_duration_def mk_delta_def dur_us_def *(4) option.case prod.case sum.case
        if_False if_True)
  qed
qed

subsection \<open>The next firing time of a fixed period\<close>

definition fixed_zone :: "datetime \<Rightarrow> bool" where
  "fixed_zone d = (case tz d of Zone n \<Rightarrow> False | _ \<Rightarrow> True)"

lemma us_second_pos [simp]: "0 < us_second"
  by (simp add: us_second_def)

lemma instant_dt_add:
  "fixed_zone d \<Longrightarrow> dt_add d us = Inr e \<Longrightarrow> instant db e = instant db d + us"
  by (auto simp: fixed_zone_def dt_add_def instant_def Let_def split: if_splits tzinfo.splits)

lemma dt_sub_instant: "fixed_zone b \<Longrightarrow> dt_sub db a b = instant db a - instant db b"
  by (auto simp: dt_sub_def fixed_zone_def instant_def split: tzinfo.splits)

lemma dt_sub_instant2: "fixed_zone a \<Longrightarrow> dt_sub db a b = instant db a - instant db b"
  by (auto simp: dt_sub_def fixed_zone_def instant_def split: tzinfo.splits)

lemma mk_delta_ok:
  assumes "0 \<le> us" "us < max_wall"
  shows "mk_delta us = Inr us"
proof -
  have "us = us_day * (us div us_day) + us mod us_day" "0 \<le> us mod us_day"
      "0 \<le> us div us_day"
    using assms by (simp_all add: us_day_def pos_imp_zdiv_nonneg_iff)
  then have "\<bar>us div us_day\<bar> \<le> max_delta_days"
    using assms unfolding us_day_def max_delta_days_def max_wall_def by linarith
  then show ?thesis by (simp add: mk_delta_def)
qed

lemma dt_add_ok: "0 \<le> wall d \<Longrightarrow> 0 \<le> us \<Longrightarrow> wall d + us < max_wall \<Longrightarrow>
  dt_add d us = Inr (d\<lparr>wall := wall d + us, dt_fold := False\<rparr>)"
  by (simp add: dt_add_def Let_def)

lemma fixed_zone_update [simp]: "fixed_zone (d\<lparr>wall := w, dt_fold := f\<rparr>) = fixed_zone d"
  by (simp add: fixed_zone_def)

lemma advance_interval_bounds:
  assumes "0 < n" "fixed_zone fire" "0 \<le> wall fire"
    and "wall fire + max 0 (dt_sub db after fire) + n * us_second < max_wall"
  shows "\<exists>d. advance_interval db fire (Some n) after = Inr d \<and>
     instant db fire < instant db d \<and> instant db after < instant db d \<and>
     instant db d \<le> max (instant db fire) (instant db after) + n * us_second \<and>
     (instant db d - instant db fire) mod (n * us_second) = 0"
proof -
  define iv where "iv = n * us_second"
  define el where "el = dt_sub db after fire"
  have iv: "0 < iv" using assms(1) by (simp add: iv_def)
  have el: "el = instant db after - instant db fire"
    unfolding el_def by (rule dt_sub_instant[OF assms(2)])
  have room: "wall fire + max 0 el + iv < max_wall" using assms(4) by (simp add: el_def iv_def)
  have delta: "mk_delta iv = Inr iv" using iv room assms(3) by (intro mk_delta_ok) auto
  show ?thesis
  proof (cases "el < 0")
    case True
    then have less: "dt_less db after fire" by (simp add: dt_less_def el_def)
    have add: "dt_add fire iv = Inr (fire\<lparr>wall := wall fire + iv, dt_fold := False\<rparr>)"
      using iv room assms(3) True by (intro dt_add_ok) auto
    have "instant db (fire\<lparr>wall := wall fire + iv, dt_fold := False\<rparr>) = instant db fire + iv"
      by (rule instant_dt_add[OF assms(2) add])
    moreover have "advance_interval db fire (Some n) after =
        Inr (fire\<lparr>wall := wall fire + iv, dt_fold := False\<rparr>)"
      using less add delta assms(1) by (simp add: advance_interval_def iv_def)
    moreover have "instant db after < instant db fire + iv"
        "instant db fire + iv \<le> max (instant db fire) (instant db after) + iv"
      using True el iv by linarith+
    ultimately show ?thesis using iv by (simp add: iv_def)
  next
    case False
    define st where "st = el div iv + 1"
    define r where "r = el mod iv"
    have st: "st * iv = el - r + iv"
      unfolding st_def r_def by (simp add: algebra_simps minus_mod_eq_div_mult)
    have m: "0 \<le> r" "r < iv" using iv by (simp_all add: r_def)
    have nl: "\<not> dt_less db after fire" using False by (simp add: dt_less_def el_def)
    have delta2: "mk_delta (st * iv) = Inr (st * iv)"
      using st m room assms(3) False by (intro mk_delta_ok) auto
    have add: "dt_add fire (st * iv) = Inr (fire\<lparr>wall := wall fire + st * iv, dt_fold := False\<rparr>)"
      using st m room assms(3) False by (intro dt_add_ok) auto
    define d where "d = fire\<lparr>wall := wall fire + st * iv, dt_fold := False\<rparr>"
    have inst: "instant db d = instant db fire + st * iv"
      unfolding d_def by (rule instant_dt_add[OF assms(2) add])
    have "advance_interval db fire (Some n) after = Inr d"
    proof -
      have "\<not> n \<le> 0" using assms(1) by simp
      then show ?thesis
        unfolding advance_interval_def iv_def[symmetric] option.case el_def[symmetric] Let_def
          st_def[symmetric] delta sum.case d_def
        using nl delta2 add by simp
    qed
    moreover have "instant db after < instant db d" "instant db fire < instant db d"
      using inst st m el False by linarith+
    moreover have "instant db d \<le> max (instant db fire) (instant db after) + iv"
      using inst st m el False by linarith
    moreover have "(instant db d - instant db fire) mod iv = 0" by (simp add: inst)
    ultimately show ?thesis unfolding iv_def by (intro exI[of _ d] conjI)
  qed
qed

text \<open>
  For an interval of \<open>n\<close> seconds and a job whose \<open>fire_at\<close> has a fixed UTC offset,
  \<open>_advance_every\<close> returns (within the range of \<open>datetime\<close>) a time on the job's grid
  \<open>fire_at + k * interval\<close> that is strictly later than both \<open>fire_at\<close> and the given time,
  and by at most one interval: no period is skipped and none is repeated.
\<close>

theorem advance_interval_next:
  assumes "0 < n" "fixed_zone fire" "0 \<le> wall fire"
    and "wall fire + max 0 (dt_sub db after fire) + n * us_second < max_wall"
  shows "\<exists>d. advance_interval db fire (Some n) after = Inr d \<and>
     instant db fire < instant db d \<and> instant db after < instant db d \<and>
     instant db d \<le> max (instant db fire) (instant db after) + n * us_second \<and>
     (instant db d - instant db fire) mod (n * us_second) = 0"
  by (rule advance_interval_bounds[OF assms])

definition no_zones :: tzdb where
  "no_zones = \<lparr>zone_known = (\<lambda>n. n = ''UTC''), zone_offset = (\<lambda>n f w. 0), zone_wall = (\<lambda>n i. i),
     zone_fold = (\<lambda>n i. False)\<rparr>"

lemma advance_interval_next_witness:
  "\<exists>d. advance_interval no_zones \<lparr>wall = 10000000, dt_fold = False, tz = UTC\<rparr> (Some 3)
      \<lparr>wall = 19000000, dt_fold = False, tz = Offset 0\<rparr> = Inr d \<and> 19000000 < instant no_zones d"
proof -
  define fire where "fire = \<lparr>wall = 10000000, dt_fold = False, tz = UTC\<rparr>"
  define after where "after = \<lparr>wall = 19000000, dt_fold = False, tz = Offset 0\<rparr>"
  have sub: "dt_sub no_zones after fire = 9000000"
    by (simp add: dt_sub_def after_def fire_def instant_def)
  have "\<exists>d. advance_interval no_zones fire (Some 3) after = Inr d \<and>
     instant no_zones fire < instant no_zones d \<and> instant no_zones after < instant no_zones d \<and>
     instant no_zones d \<le> max (instant no_zones fire) (instant no_zones after) + 3 * us_second \<and>
     (instant no_zones d - instant no_zones fire) mod (3 * us_second) = 0"
    by (rule advance_interval_next)
      (simp_all only: sub, simp_all add: fire_def fixed_zone_def max_wall_def us_day_def us_second_def)
  then show ?thesis by (auto simp: fire_def after_def instant_def)
qed

text \<open>
  Python adds a \<open>timedelta\<close> on the wall clock.  In a zone with a daylight saving change the
  claim above fails: the 30 minute job below is due at 02:30 on the wall (02:00--03:00 does
  not exist that day), and the time computed for its next run is already past.
\<close>

definition spring_zone :: tzdb where
  "spring_zone = \<lparr>zone_known = (\<lambda>n. True),
     zone_offset = (\<lambda>n f w. if w < 10800000000 then 3600000000 else 7200000000),
     zone_wall = (\<lambda>n i. if i < 3600000000 then i + 3600000000 else i + 7200000000),
     zone_fold = (\<lambda>n i. False)\<rparr>"

lemma advance_interval_dst_repeats:
  "\<exists>d. advance_interval spring_zone \<lparr>wall = 9000000000, dt_fold = False, tz = Zone ''Europe/Berlin''\<rparr>
      (Some 1800) \<lparr>wall = 5400000001, dt_fold = False, tz = UTC\<rparr> = Inr d \<and>
      instant spring_zone d \<le> 5400000001"
  by (simp add: advance_interval_def mk_delta_def us_day_def max_delta_days_def us_second_def dt_less_def
    dt_sub_def instant_def spring_zone_def dt_add_def max_wall_def)

end
