(* ===== verification/Scheduler.thy ===== *)
theory Scheduler
  imports Schedule_Time
begin

text \<open>
  The scheduled jobs of agent/scheduler.py: the job record, the JSON store with its strict
  schema check (\<open>JobStore\<close>), the service (\<open>SchedulerService\<close>) and the two tools of
  agent/tools/schedule.py that register and cancel jobs.

  Jobs are mutable objects shared between the service's two dictionaries and the running
  tasks, so they live in a heap \<open>objs\<close> and the dictionaries hold references; the test
  \<open>current_job is job\<close> compares references.  Every await of a background task is a step of
  its own (\<open>sched_exec\<close>), so the commands of the service interleave with it freely.  The
  outcome of writing the file, the clock and the replies of the agent loop are inputs.
\<close>

record job =
  trigger :: string
  tier :: string
  fire_at :: datetime
  channel :: string
  chat_id :: string
  interval_seconds :: "int option"
  cron_expr :: "string option"
  message :: "string option"
  prompt :: "string option"
  job_name :: "string option"
  timezone :: string
  created_at :: datetime
  run_count :: int
  enabled :: bool
  job_id :: string

record sched_env =
  env_db :: tzdb
  env_iso :: "datetime \<Rightarrow> string"
  env_fromiso :: "string \<Rightarrow> stamp option"
  env_trig :: cron_trigger

datatype schema_detail = Bad_trigger | Bad_tier | Bad_id | Bad_channel | Bad_chat_id
  | Bad_timezone | No_message | No_prompt | Bad_message | Bad_prompt | Bad_name
  | Bad_run_count | Bad_enabled | One_period | Bad_interval | Bad_cron | Period_not_allowed

datatype sched_error = Schema schema_detail | Not_a_list | Not_an_object | Duplicate_id
  | Key_mismatch | Bad_fields | Bad_time string | Capacity int int | Py py_error

subsection \<open>The job store\<close>

definition jopt_str :: "string option \<Rightarrow> json" where
  "jopt_str x = (case x of None \<Rightarrow> JNull | Some s \<Rightarrow> JStr s)"

definition jopt_int :: "int option \<Rightarrow> json" where
  "jopt_int x = (case x of None \<Rightarrow> JNull | Some n \<Rightarrow> JInt n)"

definition to_dict :: "sched_env \<Rightarrow> job \<Rightarrow> (string, json) dict" where
  "to_dict env j =
    [(''trigger'', JStr (trigger j)), (''tier'', JStr (tier j)),
     (''fire_at'', JStr (env_iso env (fire_at j))),
     (''channel'', JStr (channel j)), (''chat_id'', JStr (chat_id j)),
     (''interval_seconds'', jopt_int (interval_seconds j)), (''cron_expr'', jopt_str (cron_expr j)),
     (''message'', jopt_str (message j)), (''prompt'', jopt_str (prompt j)),
     (''name'', jopt_str (job_name j)), (''timezone'', JStr (timezone j)),
     (''created_at'', JStr (env_iso env (created_at j))),
     (''run_count'', JInt (run_count j)), (''enabled'', JBool (enabled j)), (''id'', JStr (job_id j))]"

definition job_fields :: "string list" where
  "job_fields = [''trigger'', ''tier'', ''fire_at'', ''channel'', ''chat_id'', ''interval_seconds'',
     ''cron_expr'', ''message'', ''prompt'', ''name'', ''timezone'', ''created_at'', ''run_count'',
     ''enabled'', ''id'']"

definition the_int :: "json \<Rightarrow> int" where
  "the_int v = (case v of JInt n \<Rightarrow> n | _ \<Rightarrow> 0)"

definition opt_str :: "json \<Rightarrow> string option" where
  "opt_str v = (case v of JStr s \<Rightarrow> Some s | _ \<Rightarrow> None)"

definition opt_int :: "json \<Rightarrow> int option" where
  "opt_int v = (case v of JInt n \<Rightarrow> Some n | _ \<Rightarrow> None)"

definition validate_identity :: "tzdb \<Rightarrow> (string \<Rightarrow> json) \<Rightarrow> schema_detail option" where
  "validate_identity db f =
     check (f ''trigger'' \<notin> {JStr ''at'', JStr ''after'', JStr ''every''}) Bad_trigger
    (check (f ''tier'' \<notin> {JStr ''instant'', JStr ''soft''}) Bad_tier
    (check (\<not> is_text (f ''id'')) Bad_id
    (check (\<not> is_text (f ''channel'')) Bad_channel
    (check (\<not> is_text (f ''chat_id'')) Bad_chat_id
    (check (\<not> is_text (f ''timezone'')) Bad_timezone
    (check (\<not> zone_known db (the_str (f ''timezone''))) Bad_timezone None))))))"

definition validate_payload :: "(string \<Rightarrow> json) \<Rightarrow> schema_detail option" where
  "validate_payload f =
     check (f ''tier'' = JStr ''instant'' \<and> \<not> is_text (f ''message'')) No_message
    (check (f ''tier'' = JStr ''soft'' \<and> \<not> is_text (f ''prompt'')) No_prompt
    (check (f ''message'' \<noteq> JNull \<and> \<not> is_str (f ''message'')) Bad_message
    (check (f ''prompt'' \<noteq> JNull \<and> \<not> is_str (f ''prompt'')) Bad_prompt
    (check (f ''name'' \<noteq> JNull \<and> \<not> is_str (f ''name'')) Bad_name
    (check (case f ''run_count'' of JInt n \<Rightarrow> n < 0 | _ \<Rightarrow> True) Bad_run_count
    (check (case f ''enabled'' of JBool b \<Rightarrow> False | _ \<Rightarrow> True) Bad_enabled None))))))"

definition validate_schedule :: "(string \<Rightarrow> json) \<Rightarrow> schema_detail option" where
  "validate_schedule f =
     (if f ''trigger'' = JStr ''every'' then
        check ((f ''interval_seconds'' = JNull) = (f ''cron_expr'' = JNull)) One_period
       (check (f ''interval_seconds'' \<noteq> JNull \<and>
            (case f ''interval_seconds'' of JInt n \<Rightarrow> n \<le> 0 | _ \<Rightarrow> True)) Bad_interval
       (check (f ''cron_expr'' \<noteq> JNull \<and>
            (case f ''cron_expr'' of JStr s \<Rightarrow> \<not> is_cron_expr s | _ \<Rightarrow> True)) Bad_cron None))
      else check (f ''interval_seconds'' \<noteq> JNull \<or> f ''cron_expr'' \<noteq> JNull) Period_not_allowed None)"

definition validate_job :: "tzdb \<Rightarrow> (string \<Rightarrow> json) \<Rightarrow> schema_detail option" where
  "validate_job db f = (case validate_identity db f of Some e \<Rightarrow> Some e
     | None \<Rightarrow> (case validate_payload f of Some e \<Rightarrow> Some e
     | None \<Rightarrow> validate_schedule f))"

text \<open>\<open>parse_iso\<close> of core/common/timekit.py: a \<open>Z\<close> is read as \<open>+00:00\<close>, no zone as UTC.\<close>

definition replace_z :: "string \<Rightarrow> string" where
  "replace_z s = concat (map (\<lambda>c. if c = CHR ''Z'' then ''+00:00'' else [c]) s)"

definition parse_iso :: "sched_env \<Rightarrow> string \<Rightarrow> datetime option" where
  "parse_iso env s = (if s = [] then None
     else map_option (assume_tz UTC) (env_fromiso env (replace_z s)))"

definition parse_dt :: "sched_env \<Rightarrow> string \<Rightarrow> json \<Rightarrow> sched_error + datetime" where
  "parse_dt env name v = (case v of
     JStr s \<Rightarrow> (case parse_iso env s of Some d \<Rightarrow> Inr d | None \<Rightarrow> Inl (Bad_time name))
   | _ \<Rightarrow> Inl (Bad_time name))"

definition from_dict :: "sched_env \<Rightarrow> (string, json) dict \<Rightarrow> sched_error + job" where
  "from_dict env d =
     (if set (dict_keys d) \<noteq> set job_fields then Inl Bad_fields
      else case parse_dt env ''fire_at'' (json_field d ''fire_at'') of Inl e \<Rightarrow> Inl e
      | Inr fire \<Rightarrow>
     (case parse_dt env ''created_at'' (json_field d ''created_at'') of Inl e \<Rightarrow> Inl e
      | Inr created \<Rightarrow>
     (case validate_job (env_db env) (json_field d) of Some e \<Rightarrow> Inl (Schema e)
      | None \<Rightarrow> Inr \<lparr>
          trigger = the_str (json_field d ''trigger''), tier = the_str (json_field d ''tier''),
          fire_at = fire, channel = the_str (json_field d ''channel''),
          chat_id = the_str (json_field d ''chat_id''),
          interval_seconds = opt_int (json_field d ''interval_seconds''),
          cron_expr = opt_str (json_field d ''cron_expr''),
          message = opt_str (json_field d ''message''), prompt = opt_str (json_field d ''prompt''),
          job_name = opt_str (json_field d ''name''), timezone = the_str (json_field d ''timezone''),
          created_at = created, run_count = the_int (json_field d ''run_count''),
          enabled = (json_field d ''enabled'' = JBool True), job_id = the_str (json_field d ''id'')\<rparr>)))"

fun load_items :: "sched_env \<Rightarrow> string list \<Rightarrow> json list \<Rightarrow> sched_error + job list" where
  "load_items env seen [] = Inr []"
| "load_items env seen (item # items) = (case item of
     JObj d \<Rightarrow> (case from_dict env d of Inl e \<Rightarrow> Inl e
       | Inr j \<Rightarrow> if job_id j \<in> set seen then Inl Duplicate_id
           else (case load_items env (job_id j # seen) items of Inl e \<Rightarrow> Inl e
                 | Inr js \<Rightarrow> Inr (j # js)))
   | _ \<Rightarrow> Inl Not_an_object)"

definition load_jobs :: "sched_env \<Rightarrow> json option \<Rightarrow> sched_error + job list" where
  "load_jobs env doc = (case doc of None \<Rightarrow> Inr []
     | Some (JList items) \<Rightarrow> load_items env [] items
     | Some _ \<Rightarrow> Inl Not_a_list)"

fun save_items :: "sched_env \<Rightarrow> (string, job) dict \<Rightarrow> sched_error + json list" where
  "save_items env [] = Inr []"
| "save_items env ((k, j) # js) =
     (if k \<noteq> job_id j then Inl Key_mismatch
      else case validate_job (env_db env) (json_field (to_dict env j)) of Some e \<Rightarrow> Inl (Schema e)
      | None \<Rightarrow> (case save_items env js of Inl e \<Rightarrow> Inl e
          | Inr items \<Rightarrow> Inr (JObj (to_dict env j) # items)))"

definition save_jobs :: "sched_env \<Rightarrow> bool \<Rightarrow> (string, job) dict \<Rightarrow> sched_error + json" where
  "save_jobs env io js = (case save_items env js of Inl e \<Rightarrow> Inl e
     | Inr items \<Rightarrow> if io then Inr (JList items) else Inl (Py Os_error))"

subsection \<open>What is written can be read back\<close>

lemma to_dict_fields [sched_simps]:
  "json_field (to_dict env j) ''trigger'' = JStr (trigger j)"
  "json_field (to_dict env j) ''tier'' = JStr (tier j)"
  "json_field (to_dict env j) ''fire_at'' = JStr (env_iso env (fire_at j))"
  "json_field (to_dict env j) ''channel'' = JStr (channel j)"
  "json_field (to_dict env j) ''chat_id'' = JStr (chat_id j)"
  "json_field (to_dict env j) ''interval_seconds'' = jopt_int (interval_seconds j)"
  "json_field (to_dict env j) ''cron_expr'' = jopt_str (cron_expr j)"
  "json_field (to_dict env j) ''message'' = jopt_str (message j)"
  "json_field (to_dict env j) ''prompt'' = jopt_str (prompt j)"
  "json_field (to_dict env j) ''name'' = jopt_str (job_name j)"
  "json_field (to_dict env j) ''timezone'' = JStr (timezone j)"
  "json_field (to_dict env j) ''created_at'' = JStr (env_iso env (created_at j))"
  "json_field (to_dict env j) ''run_count'' = JInt (run_count j)"
  "json_field (to_dict env j) ''enabled'' = JBool (enabled j)"
  "json_field (to_dict env j) ''id'' = JStr (job_id j)"
  by (simp_all add: json_field_def dict_get_def to_dict_def)

lemma to_dict_keys [sched_simps]: "dict_keys (to_dict env j) = job_fields"
  by (simp add: to_dict_def job_fields_def)

lemma json_values [sched_simps]:
  "the_str (JStr s) = s" "the_int (JInt n) = n"
  "opt_str (jopt_str os) = os" "opt_int (jopt_int oi) = oi"
  by (simp_all add: the_str_def the_int_def opt_str_def jopt_str_def opt_int_def jopt_int_def
    split: option.splits)

definition renorm :: "(datetime \<Rightarrow> datetime) \<Rightarrow> job \<Rightarrow> job" where
  "renorm norm j = j\<lparr>fire_at := norm (fire_at j), created_at := norm (created_at j)\<rparr>"

lemma renorm_fields [simp]:
  "job_id (renorm norm j) = job_id j" "enabled (renorm norm j) = enabled j"
  "trigger (renorm norm j) = trigger j" "fire_at (renorm norm j) = norm (fire_at j)"
  by (simp_all add: renorm_def)

definition iso_law :: "sched_env \<Rightarrow> (datetime \<Rightarrow> datetime) \<Rightarrow> bool" where
  "iso_law env norm \<longleftrightarrow> (\<forall>d. parse_iso env (env_iso env d) = Some (norm d)) \<and>
     (\<forall>d. norm (norm d) = norm d) \<and> (\<forall>d. instant (env_db env) (norm d) = instant (env_db env) d)"

lemma from_dict_to_dict:
  assumes "iso_law env norm" "validate_job (env_db env) (json_field (to_dict env j)) = None"
  shows "from_dict env (to_dict env j) = Inr (renorm norm j)"
proof -
  have "parse_dt env n (JStr (env_iso env d)) = Inr (norm d)" for n d
    using assms(1) by (simp add: iso_law_def parse_dt_def)
  then show ?thesis
    using assms(2) unfolding from_dict_def
    by (simp add: sched_simps renorm_def del: set_map)
qed

lemma load_save_items:
  assumes "iso_law env norm" "save_items env js = Inr items" "distinct (map fst js)"
    "set seen \<inter> set (map fst js) = {}"
  shows "load_items env seen items = Inr (map (\<lambda>p. renorm norm (snd p)) js)"
  using assms(2-)
proof (induction js arbitrary: items seen)
  case Nil
  then show ?case by simp
next
  case (Cons p js)
  obtain k j where p: "p = (k, j)" by (cases p)
  with Cons.prems obtain its where its: "save_items env js = Inr its"
      "items = JObj (to_dict env j) # its" "k = job_id j"
      "validate_job (env_db env) (json_field (to_dict env j)) = None"
    by (auto split: if_splits option.splits sum.splits)
  have "load_items env (k # seen) its = Inr (map (\<lambda>p. renorm norm (snd p)) js)"
    using Cons.prems p by (intro Cons.IH[OF its(1)]) auto
  moreover have "k \<notin> set seen" using Cons.prems(3) p by auto
  ultimately show ?case
    by (simp add: its from_dict_to_dict[OF assms(1) its(4)] p)
qed

lemma load_save_jobs:
  "iso_law env norm \<Longrightarrow> dict_ok js \<Longrightarrow> save_jobs env io js = Inr doc \<Longrightarrow>
   load_jobs env (Some doc) = Inr (map (\<lambda>p. renorm norm (snd p)) js)"
  using load_save_items[of env norm js _ "[]"]
  by (auto simp: save_jobs_def load_jobs_def dict_ok_def split: sum.splits if_splits)

text \<open>
  Whatever \<open>JobStore.save\<close> accepts and writes, \<open>JobStore.load\<close> reads back without an
  error: the same jobs in the same order, each with the same fields and with times that
  denote the same instants.
\<close>

theorem job_store_roundtrip:
  assumes "iso_law env norm" "dict_ok js" "save_jobs env io js = Inr doc"
  shows "load_jobs env (Some doc) = Inr (map (\<lambda>p. renorm norm (snd p)) js)"
  by (rule load_save_jobs[OF assms])

subsection \<open>The service\<close>

text \<open>
  A background task is created but not yet started, awaits the agent loop, or awaits the
  push tool.  \<open>pushed\<close> records the calls of the push tool, for the statements only.
\<close>

datatype task_pc = Created | Processing | Pushing

record sched_task =
  t_id :: nat
  t_job :: nat
  t_pc :: task_pc

record sched =
  store_doc :: "json option"
  objs :: "nat \<Rightarrow> job"
  next_obj :: nat
  jobs :: "(string, nat) dict"
  persisted :: "(string, nat) dict option"
  in_flight :: "string list"
  tasks :: "sched_task list"
  next_task :: nat
  background_error :: "sched_error option"
  running :: bool
  stopping :: bool
  tracker :: latency_tracker
  has_loop :: bool
  pushed :: "(string \<times> string \<times> string option) list"

definition max_active_jobs :: nat where "max_active_jobs = 10"
definition grace_us :: int where "grace_us = 300 * us_second"

definition new_sched :: "json option \<Rightarrow> (nat \<Rightarrow> job) \<Rightarrow> bool \<Rightarrow> sched" where
  "new_sched doc heap loop = \<lparr>store_doc = doc, objs = heap, next_obj = 0, jobs = [], persisted = None,
     in_flight = [], tasks = [], next_task = 0, background_error = None, running = False,
     stopping = False, tracker = new_tracker, has_loop = loop, pushed = []\<rparr>"

definition deref :: "sched \<Rightarrow> (string, nat) dict \<Rightarrow> (string, job) dict" where
  "deref s d = map (\<lambda>(k, r). (k, objs s r)) d"

definition active_count :: "sched \<Rightarrow> (string, nat) dict \<Rightarrow> nat" where
  "active_count s d = length (filter (\<lambda>p. enabled (objs s (snd p))) d)"

definition current_persisted :: "sched \<Rightarrow> (string, nat) dict" where
  "current_persisted s = (case persisted s of Some p \<Rightarrow> p | None \<Rightarrow> jobs s)"

definition commit_jobs ::
  "sched_env \<Rightarrow> bool \<Rightarrow> sched \<Rightarrow> (string, nat) dict \<Rightarrow> sched_error + sched" where
  "commit_jobs env io s d = (case save_jobs env io (deref s d) of Inl e \<Rightarrow> Inl e
     | Inr doc \<Rightarrow> Inr (s\<lparr>store_doc := Some doc, persisted := Some d,
         jobs := filter (\<lambda>p. enabled (objs s (snd p))) d\<rparr>))"

definition alloc :: "sched \<Rightarrow> job \<Rightarrow> nat \<times> sched" where
  "alloc s j = (next_obj s, s\<lparr>objs := (objs s)(next_obj s := j), next_obj := next_obj s + 1\<rparr>)"

definition add_job :: "sched_env \<Rightarrow> bool \<Rightarrow> job \<Rightarrow> stamp \<Rightarrow> sched \<Rightarrow> sched_error + sched" where
  "add_job env io j0 fire s0 = (let j = j0\<lparr>fire_at := assume_tz UTC fire\<rparr>; (r, s) = alloc s0 j;
       current = current_persisted s; candidate = dict_set current (job_id j) r in
     if active_count s candidate > max_active_jobs
     then Inl (Capacity (int (active_count s current)) (int max_active_jobs))
     else commit_jobs env io s candidate)"

definition cancel_job :: "sched_env \<Rightarrow> bool \<Rightarrow> string \<Rightarrow> sched \<Rightarrow> sched_error + bool \<times> sched" where
  "cancel_job env io k s = (let candidate = current_persisted s in
     if k \<notin> set (dict_keys candidate) then Inr (False, s)
     else case commit_jobs env io s (dict_del candidate k) of Inl e \<Rightarrow> Inl e
       | Inr s' \<Rightarrow> Inr (True, s'))"

definition cancel_job_by_name ::
  "sched_env \<Rightarrow> bool \<Rightarrow> string \<Rightarrow> sched \<Rightarrow> sched_error + string list \<times> sched" where
  "cancel_job_by_name env io n s = (let candidate = current_persisted s;
       cancelled = map fst (filter (\<lambda>p. job_name (objs s (snd p)) = Some n) candidate) in
     if cancelled = [] then Inr ([], s)
     else case commit_jobs env io s (foldl dict_del candidate cancelled) of Inl e \<Rightarrow> Inl e
       | Inr s' \<Rightarrow> Inr (cancelled, s'))"

definition list_jobs :: "sched \<Rightarrow> job list" where
  "list_jobs s = map (\<lambda>p. objs s (snd p)) (jobs s)"

definition match_job_ids :: "sched \<Rightarrow> string \<Rightarrow> string list" where
  "match_job_ids s key = filter (\<lambda>k. k = key \<or> prefix key k) (dict_keys (current_persisted s))"

subsection \<open>Recovery\<close>

definition job_advance :: "sched_env \<Rightarrow> job \<Rightarrow> datetime \<Rightarrow> sched_error + datetime" where
  "job_advance env j after = (case advance_every (env_db env) (env_trig env) (fire_at j)
       (interval_seconds j) (cron_expr j) (timezone j) after of
     Inl e \<Rightarrow> Inl (Py e) | Inr d \<Rightarrow> Inr d)"

text \<open>One round of the loop of \<open>load_and_recover\<close>: the job to persist, whether it goes into
  the running set, and whether the file has to be rewritten.\<close>

definition recover_job :: "sched_env \<Rightarrow> datetime \<Rightarrow> job \<Rightarrow> sched_error + job \<times> bool \<times> bool" where
  "recover_job env now j =
     (if \<not> enabled j then Inr (j, False, False)
      else if dt_le (env_db env) (fire_at j) now then
        (let age = dt_sub (env_db env) now (fire_at j) in
         if trigger j = ''every'' then
           (case job_advance env j now of Inl e \<Rightarrow> Inl e
            | Inr d \<Rightarrow> Inr (j\<lparr>fire_at := d\<rparr>, True, True))
         else if age \<le> grace_us then Inr (j, True, False)
         else Inr (j\<lparr>enabled := False\<rparr>, False, True))
      else Inr (j, True, False))"

fun recover_loop ::
  "sched_env \<Rightarrow> datetime \<Rightarrow> sched \<Rightarrow> (string, nat) dict \<Rightarrow> (string, nat) dict \<Rightarrow> bool \<Rightarrow> job list
     \<Rightarrow> sched_error + sched \<times> (string, nat) dict \<times> (string, nat) dict \<times> bool" where
  "recover_loop env now s rec per changed [] = Inr (s, rec, per, changed)"
| "recover_loop env now s rec per changed (j # js) = (case recover_job env now j of Inl e \<Rightarrow> Inl e
     | Inr (j', active, ch) \<Rightarrow>
         let (r, s') = alloc s j' in
         recover_loop env now s' (if active then dict_set rec (job_id j') r else rec)
           (dict_set per (job_id j') r) (changed \<or> ch) js)"

definition load_and_recover ::
  "sched_env \<Rightarrow> bool \<Rightarrow> datetime \<Rightarrow> sched \<Rightarrow> sched_error + sched" where
  "load_and_recover env io now s = (case load_jobs env (store_doc s) of Inl e \<Rightarrow> Inl e
     | Inr js \<Rightarrow> (case recover_loop env now s [] [] False js of Inl e \<Rightarrow> Inl e
     | Inr (s', rec, per, changed) \<Rightarrow>
         if changed then (case save_jobs env io (deref s' per) of Inl e \<Rightarrow> Inl e
           | Inr doc \<Rightarrow> Inr (s'\<lparr>store_doc := Some doc, persisted := Some per, jobs := rec\<rparr>))
         else Inr (s'\<lparr>persisted := Some per, jobs := rec\<rparr>)))"

subsection \<open>Firing\<close>

fun tick_loop :: "sched_env \<Rightarrow> datetime \<Rightarrow> nat list \<Rightarrow> sched \<Rightarrow> sched \<times> sched_error option" where
  "tick_loop env now [] s = (s, None)"
| "tick_loop env now (r # rs) s = (let j = objs s r in
     if \<not> enabled j \<or> job_id j \<in> set (in_flight s) then tick_loop env now rs s
     else case compute_actual_trigger (fire_at j) (tier j) (tracker s) of
       Inl e \<Rightarrow> (s, Some (Py e))
     | Inr actual \<Rightarrow>
         if dt_le (env_db env) actual now
         then tick_loop env now rs (s\<lparr>in_flight := in_flight s @ [job_id j],
                tasks := tasks s @ [\<lparr>t_id = next_task s, t_job = r, t_pc = Created\<rparr>],
                next_task := next_task s + 1\<rparr>)
         else tick_loop env now rs s)"

definition tick :: "sched_env \<Rightarrow> datetime \<Rightarrow> sched \<Rightarrow> sched \<times> sched_error option" where
  "tick env now s = tick_loop env now (map snd (jobs s)) s"

datatype outcome = Succeeded | Failed | Cancelled

text \<open>The \<open>finally\<close> block of \<open>_execute_and_reschedule\<close>.\<close>

definition bump :: "outcome \<Rightarrow> job \<Rightarrow> int" where
  "bump out j = run_count j + (if out = Succeeded then 1 else 0)"

definition reschedule_every ::
  "sched_env \<Rightarrow> datetime \<Rightarrow> outcome \<Rightarrow> job \<Rightarrow> sched_error + job" where
  "reschedule_every env now out j =
     (case dt_add (dt_max (env_db env) now (fire_at j)) 1 of Inl e \<Rightarrow> Inl (Py e)
      | Inr after \<Rightarrow> (case job_advance env j after of Inl e \<Rightarrow> Inl e
         | Inr d \<Rightarrow> Inr (j\<lparr>fire_at := d, run_count := bump out j\<rparr>)))"

definition finish_job ::
  "sched_env \<Rightarrow> bool \<Rightarrow> datetime \<Rightarrow> outcome \<Rightarrow> nat \<Rightarrow> sched \<Rightarrow> sched \<times> sched_error option" where
  "finish_job env io now out r s0 = (let j = objs s0 r;
       s = s0\<lparr>in_flight := removeAll (job_id j) (in_flight s0)\<rparr>;
       candidate = current_persisted s;
       is_current = (dict_get (jobs s) (job_id j) = Some r) in
     if out \<noteq> Cancelled \<and> trigger j = ''every'' \<and> \<not> stopping s \<and> is_current then
       (case reschedule_every env now out j of Inl e \<Rightarrow> (s, Some e)
        | Inr j' \<Rightarrow> (let (r', s1) = alloc s j' in
            case commit_jobs env io s1 (dict_set candidate (job_id j) r') of
              Inl e \<Rightarrow> (s1, Some e)
            | Inr s2 \<Rightarrow> (s2\<lparr>objs := (objs s2)(r := (objs s2 r)\<lparr>fire_at := fire_at j',
                run_count := run_count j'\<rparr>)\<rparr>, None)))
     else if out \<noteq> Cancelled \<and> trigger j \<noteq> ''every'' \<and> is_current then
       (let (r', s1) = alloc s (j\<lparr>enabled := False, run_count := bump out j\<rparr>) in
        case commit_jobs env io s1 (dict_set candidate (job_id j) r') of
          Inl e \<Rightarrow> (s1, Some e) | Inr s2 \<Rightarrow> (s2, None))
     else (case commit_jobs env io s candidate of Inl e \<Rightarrow> (s, Some e) | Inr s2 \<Rightarrow> (s2, None)))"

definition drop_task :: "nat \<Rightarrow> sched \<Rightarrow> sched" where
  "drop_task i s = s\<lparr>tasks := filter (\<lambda>t. t_id t \<noteq> i) (tasks s)\<rparr>"

text \<open>\<open>_task_done\<close>: the first error of a background task is kept for the owner.\<close>

definition task_done :: "nat \<Rightarrow> sched_error option \<Rightarrow> sched \<Rightarrow> sched" where
  "task_done i err s = (let s' = drop_task i s in
     case err of None \<Rightarrow> s'
     | Some e \<Rightarrow> (if background_error s' = None then s'\<lparr>background_error := Some e\<rparr> else s'))"

definition finish_task ::
  "sched_env \<Rightarrow> bool \<Rightarrow> datetime \<Rightarrow> outcome \<Rightarrow> sched_task \<Rightarrow> sched \<Rightarrow> sched" where
  "finish_task env io now out t s =
     (let (s', err) = finish_job env io now out (t_job t) s in task_done (t_id t) err s')"

definition set_pc :: "nat \<Rightarrow> task_pc \<Rightarrow> sched \<Rightarrow> sched" where
  "set_pc i pc s = s\<lparr>tasks := map (\<lambda>t. if t_id t = i then t\<lparr>t_pc := pc\<rparr> else t) (tasks s)\<rparr>"

definition call_push :: "job \<Rightarrow> string option \<Rightarrow> sched \<Rightarrow> sched" where
  "call_push j msg s = s\<lparr>pushed := pushed s @ [(channel j, chat_id j, msg)]\<rparr>"

text \<open>\<open>_execute\<close> up to its first await, and after the reply of the agent loop.\<close>

definition execute_start :: "sched_env \<Rightarrow> bool \<Rightarrow> datetime \<Rightarrow> sched_task \<Rightarrow> sched \<Rightarrow> sched" where
  "execute_start env io now t s = (let j = objs s (t_job t) in
     if tier j = ''instant'' then set_pc (t_id t) Pushing (call_push j (message j) s)
     else if \<not> has_loop s then finish_task env io now Failed t s
     else set_pc (t_id t) Processing s)"

definition execute_reply ::
  "sched_env \<Rightarrow> bool \<Rightarrow> datetime \<Rightarrow> int \<Rightarrow> string \<Rightarrow> sched_task \<Rightarrow> sched \<Rightarrow> sched" where
  "execute_reply env io now elapsed content t s0 = (let j = objs s0 (t_job t);
       s = s0\<lparr>tracker := record_latency (tracker s0) elapsed\<rparr> in
     if content \<noteq> [] then set_pc (t_id t) Pushing (call_push j (Some content) s)
     else finish_task env io now Succeeded t s)"

subsection \<open>The commands of the service and the steps of its tasks\<close>

datatype sched_cmd =
    Add job stamp bool
  | Cancel string bool
  | Cancel_name string bool
  | Run datetime bool
  | Tick datetime
  | Raise_background
  | Stop
  | Shutdown datetime bool
  | Task_start nat datetime bool
  | Task_reply nat int string datetime bool
  | Task_end nat outcome datetime bool

definition find_task :: "nat \<Rightarrow> sched \<Rightarrow> sched_task option" where
  "find_task i s = find (\<lambda>t. t_id t = i) (tasks s)"

definition keep :: "sched \<Rightarrow> sched_error + sched \<Rightarrow> sched \<times> sched_error option" where
  "keep s r = (case r of Inl e \<Rightarrow> (s, Some e) | Inr s' \<Rightarrow> (s', None))"

definition keep2 :: "sched \<Rightarrow> sched_error + 'a \<times> sched \<Rightarrow> sched \<times> sched_error option" where
  "keep2 s r = (case r of Inl e \<Rightarrow> (s, Some e) | Inr (x, s') \<Rightarrow> (s', None))"

definition raise_background :: "sched \<Rightarrow> sched \<times> sched_error option" where
  "raise_background s = (s\<lparr>background_error := None\<rparr>, background_error s)"

definition begin_run :: "sched \<Rightarrow> sched" where
  "begin_run s = s\<lparr>background_error := None, stopping := False, running := True\<rparr>"

definition end_task ::
  "sched_env \<Rightarrow> bool \<Rightarrow> datetime \<Rightarrow> outcome \<Rightarrow> sched_task \<Rightarrow> sched \<Rightarrow> sched" where
  "end_task env io now out t s =
     (if t_pc t = Created then (if out = Cancelled then drop_task (t_id t) s else s)
      else if out = Succeeded \<and> t_pc t = Processing then s
      else finish_task env io now out t s)"

text \<open>The \<open>finally\<close> block of \<open>run\<close>: no rescheduling from here on, every task is cancelled.\<close>

definition shutdown :: "sched_env \<Rightarrow> bool \<Rightarrow> datetime \<Rightarrow> sched \<Rightarrow> sched" where
  "shutdown env io now s = (let s' = s\<lparr>running := False, stopping := True\<rparr> in
     (foldl (\<lambda>x t. end_task env io now Cancelled t x) s' (tasks s'))\<lparr>tasks := []\<rparr>)"

definition sched_exec :: "sched_env \<Rightarrow> sched_cmd \<Rightarrow> sched \<Rightarrow> sched \<times> sched_error option" where
  "sched_exec env c s = (case c of
     Add j fire io \<Rightarrow> keep s (add_job env io j fire s)
   | Cancel k io \<Rightarrow> keep2 s (cancel_job env io k s)
   | Cancel_name n io \<Rightarrow> keep2 s (cancel_job_by_name env io n s)
   | Run now io \<Rightarrow> (case load_and_recover env io now s of Inl e \<Rightarrow> (s, Some e)
       | Inr s' \<Rightarrow> (begin_run s', None))
   | Tick now \<Rightarrow> (if running s then tick env now s else (s, None))
   | Raise_background \<Rightarrow> raise_background s
   | Stop \<Rightarrow> (s\<lparr>running := False, stopping := True\<rparr>, None)
   | Shutdown now io \<Rightarrow> (shutdown env io now s, None)
   | Task_start i now io \<Rightarrow> (case find_task i s of None \<Rightarrow> (s, None)
       | Some t \<Rightarrow> (if t_pc t = Created then execute_start env io now t s else s, None))
   | Task_reply i elapsed content now io \<Rightarrow> (case find_task i s of None \<Rightarrow> (s, None)
       | Some t \<Rightarrow> (if t_pc t = Processing then execute_reply env io now elapsed content t s else s, None))
   | Task_end i out now io \<Rightarrow> (case find_task i s of None \<Rightarrow> (s, None)
       | Some t \<Rightarrow> (end_task env io now out t s, None)))"

inductive sched_reachable :: "sched_env \<Rightarrow> json option \<Rightarrow> sched \<Rightarrow> bool" for env doc where
  start: "sched_reachable env doc (new_sched doc heap loop)"
| exec: "sched_reachable env doc s \<Longrightarrow> sched_reachable env doc (fst (sched_exec env c s))"

subsection \<open>The invariant of the service\<close>

definition refs_ok :: "sched \<Rightarrow> (string, nat) dict \<Rightarrow> bool" where
  "refs_ok s d \<longleftrightarrow> dict_ok d \<and>
     (\<forall>k r. (k, r) \<in> set d \<longrightarrow> r < next_obj s \<and> job_id (objs s r) = k)"

definition enabled_jobs :: "job list \<Rightarrow> nat" where
  "enabled_jobs js = length (filter enabled js)"

definition disk_view :: "sched_env \<Rightarrow> (datetime \<Rightarrow> datetime) \<Rightarrow> sched \<Rightarrow> job list \<Rightarrow> bool" where
  "disk_view env norm s js \<longleftrightarrow> (\<exists>ls. load_jobs env (store_doc s) = Inr ls \<and>
     map (renorm norm) ls = map (renorm norm) js)"

definition store_capped :: "sched_env \<Rightarrow> json option \<Rightarrow> bool" where
  "store_capped env doc \<longleftrightarrow> (\<forall>ls. load_jobs env doc = Inr ls \<longrightarrow> enabled_jobs ls \<le> max_active_jobs)"

definition store_inv :: "sched_env \<Rightarrow> (datetime \<Rightarrow> datetime) \<Rightarrow> sched \<Rightarrow> bool" where
  "store_inv env norm s \<longleftrightarrow> store_capped env (store_doc s) \<and>
     (case persisted s of None \<Rightarrow> jobs s = []
      | Some p \<Rightarrow> refs_ok s p \<and> jobs s = filter (\<lambda>e. enabled (objs s (snd e))) p \<and>
          active_count s p \<le> max_active_jobs \<and> disk_view env norm s (map snd (deref s p)))"

definition task_inv :: "sched \<Rightarrow> bool" where
  "task_inv s \<longleftrightarrow> distinct (map t_id (tasks s)) \<and>
     distinct (map (\<lambda>t. job_id (objs s (t_job t))) (tasks s)) \<and>
     (\<forall>t \<in> set (tasks s). t_id t < next_task s \<and> t_job t < next_obj s \<and>
        job_id (objs s (t_job t)) \<in> set (in_flight s))"

lemma snd_deref: "map snd (deref s d) = map (\<lambda>p. objs s (snd p)) d"
  by (induction d) (auto simp: deref_def)

lemma fst_deref [simp]: "map fst (deref s d) = map fst d"
  by (induction d) (auto simp: deref_def)

lemma active_count_enabled: "active_count s d = enabled_jobs (map (\<lambda>p. objs s (snd p)) d)"
  by (induction d) (auto simp: active_count_def enabled_jobs_def)

lemma enabled_jobs_renorm:
  "map (renorm norm) ls = map (renorm norm) js \<Longrightarrow> enabled_jobs ls = enabled_jobs js"
proof -
  assume "map (renorm norm) ls = map (renorm norm) js"
  then have "map enabled (map (renorm norm) ls) = map enabled (map (renorm norm) js)" by simp
  then have "map enabled ls = map enabled js" by (simp add: comp_def)
  then have "length (filter id (map enabled ls)) = length (filter id (map enabled js))" by simp
  then show ?thesis by (simp add: enabled_jobs_def filter_map comp_def)
qed

lemma refs_ok_get: "refs_ok s d \<Longrightarrow> dict_get d k = Some r \<Longrightarrow> r < next_obj s \<and> job_id (objs s r) = k"
  by (auto simp: refs_ok_def dest: dict_get_SomeD)

lemma alloc_simps [simp]:
  "fst (alloc s j) = next_obj s" "next_obj (snd (alloc s j)) = next_obj s + 1"
  "objs (snd (alloc s j)) = (objs s)(next_obj s := j)"
  "persisted (snd (alloc s j)) = persisted s" "jobs (snd (alloc s j)) = jobs s"
  "store_doc (snd (alloc s j)) = store_doc s" "tasks (snd (alloc s j)) = tasks s"
  "in_flight (snd (alloc s j)) = in_flight s" "next_task (snd (alloc s j)) = next_task s"
  "stopping (snd (alloc s j)) = stopping s"
  by (simp_all add: alloc_def)

lemma refs_okD: "refs_ok s d \<Longrightarrow> p \<in> set d \<Longrightarrow> snd p < next_obj s \<and> job_id (objs s (snd p)) = fst p"
  by (cases p) (auto simp: refs_ok_def)

lemma refs_ok_alloc: "refs_ok s d \<Longrightarrow> refs_ok (snd (alloc s j)) d"
  unfolding refs_ok_def by (auto intro: less_SucI)

lemma map_objs_alloc:
  "refs_ok s d \<Longrightarrow> map (\<lambda>p. objs (snd (alloc s j)) (snd p)) d = map (\<lambda>p. objs s (snd p)) d"
  by (rule map_cong) (auto dest: refs_okD)

lemma filter_objs_alloc:
  "refs_ok s d \<Longrightarrow> filter (\<lambda>p. enabled (objs (snd (alloc s j)) (snd p))) d
     = filter (\<lambda>p. enabled (objs s (snd p))) d"
  by (rule filter_cong) (auto dest: refs_okD)

lemma store_inv_alloc: "store_inv env norm s \<Longrightarrow> store_inv env norm (snd (alloc s j))"
  by (auto simp: store_inv_def refs_ok_alloc filter_objs_alloc active_count_enabled map_objs_alloc
    disk_view_def snd_deref split: option.splits simp del: alloc_simps(3) map_map map_eq_conv)

lemma task_inv_alloc: "task_inv s \<Longrightarrow> task_inv (snd (alloc s j))"
proof -
  assume a: "task_inv s"
  then have "map (\<lambda>t. job_id (objs (snd (alloc s j)) (t_job t))) (tasks s)
      = map (\<lambda>t. job_id (objs s (t_job t))) (tasks s)"
    by (intro map_cong) (auto simp: task_inv_def)
  then show ?thesis using a by (auto simp: task_inv_def simp del: map_eq_conv)
qed

text \<open>A change that leaves the heap, the dictionaries and the file alone keeps the store part;
  one that leaves the heap and the tasks alone keeps the task part.\<close>

lemma store_inv_cong:
  "store_doc s' = store_doc s \<Longrightarrow> objs s' = objs s \<Longrightarrow> next_obj s' = next_obj s \<Longrightarrow>
   jobs s' = jobs s \<Longrightarrow> persisted s' = persisted s \<Longrightarrow> store_inv env norm s' = store_inv env norm s"
  by (simp add: store_inv_def refs_ok_def active_count_def disk_view_def deref_def cong: option.case_cong)

lemma task_inv_cong:
  "tasks s' = tasks s \<Longrightarrow> objs s' = objs s \<Longrightarrow> next_obj s' = next_obj s \<Longrightarrow>
   in_flight s' = in_flight s \<Longrightarrow> next_task s' = next_task s \<Longrightarrow> task_inv s' = task_inv s"
  by (simp add: task_inv_def)

lemma commit_simps:
  assumes "commit_jobs env io s d = Inr s'"
  shows "objs s' = objs s" "next_obj s' = next_obj s" "persisted s' = Some d"
    "jobs s' = filter (\<lambda>p. enabled (objs s (snd p))) d" "tasks s' = tasks s"
    "in_flight s' = in_flight s" "next_task s' = next_task s"
    "save_jobs env io (deref s d) = Inr (the (store_doc s'))" "store_doc s' \<noteq> None"
  using assms by (auto simp: commit_jobs_def split: sum.splits)

lemma commit_store_inv:
  assumes "iso_law env norm" "refs_ok s d" "active_count s d \<le> max_active_jobs"
    "commit_jobs env io s d = Inr s'"
  shows "store_inv env norm s'"
proof -
  note c = commit_simps[OF assms(4)]
  have doc: "store_doc s' = Some (the (store_doc s'))" using c(9) by simp
  have "dict_ok (deref s d)" using assms(2) by (simp add: refs_ok_def dict_ok_def)
  then have "load_jobs env (Some (the (store_doc s'))) =
      Inr (map (\<lambda>p. renorm norm (snd p)) (deref s d))"
    by (rule load_save_jobs[OF assms(1) _ c(8)])
  then have load: "load_jobs env (store_doc s') = Inr (map (renorm norm) (map snd (deref s d)))"
    using doc by (simp add: comp_def)
  have idem: "renorm norm (renorm norm j) = renorm norm j" for j
    using assms(1) by (simp add: renorm_def iso_law_def)
  have "map snd (deref s' d) = map snd (deref s d)" by (simp add: deref_def c(1))
  then have view: "disk_view env norm s' (map snd (deref s' d))"
    unfolding disk_view_def load by (simp add: idem)
  have "store_capped env (store_doc s')"
    using assms(3) unfolding store_capped_def load
    by (simp add: active_count_enabled snd_deref enabled_jobs_def filter_map comp_def)
  then show ?thesis
    using assms(2,3) view by (simp add: store_inv_def c(1-4) refs_ok_def active_count_def)
qed

lemma commit_task_inv: "commit_jobs env io s d = Inr s' \<Longrightarrow> task_inv s \<Longrightarrow> task_inv s'"
  by (auto simp: commit_jobs_def task_inv_def split: sum.splits)

lemma refs_ok_set:
  assumes "refs_ok s d" "r < next_obj s" "job_id (objs s r) = k"
  shows "refs_ok s (dict_set d k r)"
proof -
  have ok: "dict_ok d" "dict_ok (dict_set d k r)" using assms(1) by (simp_all add: refs_ok_def)
  have "(k', r') \<in> set (dict_set d k r) \<Longrightarrow> (k' = k \<and> r' = r) \<or> (k', r') \<in> set d" for k' r'
    using ok by (auto simp: dict_get_Some_iff[symmetric] split: if_splits)
  then show ?thesis using assms ok(2) by (auto simp: refs_ok_def)
qed

lemma refs_ok_filter: "refs_ok s d \<Longrightarrow> refs_ok s (filter P d)"
  by (auto simp: refs_ok_def dict_ok_def distinct_map_fst_filter)

lemma dict_del_filter: "dict_del d k = filter (\<lambda>p. fst p \<noteq> k) d"
  by (simp add: dict_del_def AList.delete_eq case_prod_unfold eq_commute)

lemma foldl_dict_del: "\<exists>P. foldl dict_del d ks = filter P d"
proof (induction ks arbitrary: d)
  case Nil
  have "d = filter (\<lambda>p. True) d" by simp
  then show ?case by (metis foldl_Nil)
next
  case (Cons k ks)
  then obtain P where "foldl dict_del (dict_del d k) ks = filter P (dict_del d k)" by blast
  then have "foldl dict_del d (k # ks) = filter (\<lambda>x. fst x \<noteq> k \<and> P x) d"
    by (simp add: dict_del_filter[of d k])
  then show ?case by blast
qed

lemma active_count_filter: "active_count s (filter P d) \<le> active_count s d"
  by (induction d) (auto simp: active_count_def)

lemma active_count_replace:
  "dict_get d k = Some r \<Longrightarrow> enabled (objs s r) \<Longrightarrow>
   active_count s (dict_set d k r') \<le> active_count s d"
  by (induction d) (auto simp: active_count_def dict_set_def dict_get_def split: if_splits)

lemma active_count_alloc: "refs_ok s d \<Longrightarrow> active_count (snd (alloc s j)) d = active_count s d"
  by (simp add: active_count_def filter_objs_alloc del: alloc_simps(3))

lemma store_inv_current:
  assumes "store_inv env norm s"
  shows "refs_ok s (current_persisted s)" "active_count s (current_persisted s) \<le> max_active_jobs"
    "jobs s = filter (\<lambda>p. enabled (objs s (snd p))) (current_persisted s)"
  using assms by (auto simp: store_inv_def current_persisted_def refs_ok_def active_count_def
    dict_ok_def split: option.splits)

lemma add_job_inv:
  assumes "iso_law env norm" "store_inv env norm s" "task_inv s" "add_job env io j fire s = Inr s'"
  shows "store_inv env norm s' \<and> task_inv s'"
proof -
  define j1 where "j1 = j\<lparr>fire_at := assume_tz UTC fire\<rparr>"
  define a where "a = snd (alloc s j1)"
  define d where "d = dict_set (current_persisted s) (job_id j1) (next_obj s)"
  have al: "alloc s j1 = (next_obj s, a)" by (simp add: a_def prod_eq_iff)
  have cur: "current_persisted a = current_persisted s" by (simp add: a_def current_persisted_def cong: option.case_cong)
  have c: "commit_jobs env io a d = Inr s'" "active_count a d \<le> max_active_jobs"
    using assms(4) by (auto simp: add_job_def Let_def j1_def[symmetric] al cur d_def[symmetric]
      split: if_splits)
  have "refs_ok a d" unfolding d_def a_def
    using refs_ok_alloc[OF store_inv_current(1)[OF assms(2)]] by (intro refs_ok_set) simp_all
  then show ?thesis
    using commit_store_inv[OF assms(1) _ c(2,1)] commit_task_inv[OF c(1)] task_inv_alloc[OF assms(3)]
    by (simp add: a_def)
qed

lemma commit_filter_inv:
  assumes "iso_law env norm" "store_inv env norm s" "task_inv s"
    "commit_jobs env io s (filter P (current_persisted s)) = Inr s'"
  shows "store_inv env norm s' \<and> task_inv s'"
  using commit_store_inv[OF assms(1) _ _ assms(4)] commit_task_inv[OF assms(4,3)]
    refs_ok_filter[OF store_inv_current(1)[OF assms(2)], of P]
    active_count_filter[of s P "current_persisted s"] store_inv_current(2)[OF assms(2)]
  by (simp add: le_trans)

lemma cancel_job_inv:
  assumes "iso_law env norm" "store_inv env norm s" "task_inv s" "cancel_job env io k s = Inr (b, s')"
  shows "store_inv env norm s' \<and> task_inv s'"
  using assms commit_filter_inv[OF assms(1-3)]
  by (auto simp: cancel_job_def Let_def dict_del_filter split: if_splits sum.splits)

lemma cancel_name_inv:
  assumes "iso_law env norm" "store_inv env norm s" "task_inv s"
    "cancel_job_by_name env io n s = Inr (ks, s')"
  shows "store_inv env norm s' \<and> task_inv s'"
proof (cases "ks = []")
  case True
  then show ?thesis using assms by (auto simp: cancel_job_by_name_def Let_def split: if_splits sum.splits)
next
  case False
  then obtain xs where "commit_jobs env io s (foldl dict_del (current_persisted s) xs) = Inr s'"
    using assms(4) by (auto simp: cancel_job_by_name_def Let_def split: if_splits sum.splits)
  moreover obtain P where "foldl dict_del (current_persisted s) xs = filter P (current_persisted s)"
    using foldl_dict_del by blast
  ultimately show ?thesis using commit_filter_inv[OF assms(1-3)] by metis
qed

text \<open>Completion of a task.\<close>

lemma store_inv_mutate:
  assumes "store_inv env norm s" "\<And>p. p \<in> set (current_persisted s) \<Longrightarrow> snd p \<noteq> r"
    "job_id j = job_id (objs s r)"
  shows "store_inv env norm (s\<lparr>objs := (objs s)(r := j)\<rparr>)"
proof (cases "persisted s")
  case None
  then show ?thesis using assms by (simp add: store_inv_def)
next
  case (Some p)
  then have r: "\<And>e. e \<in> set p \<Longrightarrow> snd e \<noteq> r" using assms(2) by (simp add: current_persisted_def)
  have f: "filter (\<lambda>e. enabled (((objs s)(r := j)) (snd e))) p = filter (\<lambda>e. enabled (objs s (snd e))) p"
    by (rule filter_cong) (auto dest: r)
  have m: "map (\<lambda>e. ((objs s)(r := j)) (snd e)) p = map (\<lambda>e. objs s (snd e)) p"
    by (rule map_cong) (auto dest: r)
  have refs: "refs_ok s p \<Longrightarrow> refs_ok (s\<lparr>objs := (objs s)(r := j)\<rparr>) p"
    using r by (auto simp: refs_ok_def) (metis snd_conv)+
  show ?thesis
    using assms(1) Some refs
    by (simp add: store_inv_def active_count_def snd_deref disk_view_def f m
      del: fun_upd_apply map_map map_eq_conv)
qed

lemma task_inv_mutate:
  assumes "task_inv s" "job_id j = job_id (objs s r)"
  shows "task_inv (s\<lparr>objs := (objs s)(r := j)\<rparr>)"
proof -
  have "job_id (((objs s)(r := j)) x) = job_id (objs s x)" for x
    using assms(2) by auto
  then show ?thesis using assms(1) by (simp add: task_inv_def del: fun_upd_apply)
qed

definition heap_grows :: "sched \<Rightarrow> sched \<Rightarrow> bool" where
  "heap_grows s s' \<longleftrightarrow> next_obj s \<le> next_obj s' \<and>
     (\<forall>x < next_obj s. job_id (objs s' x) = job_id (objs s x))"

lemma task_inv_mono:
  assumes "task_inv s" "heap_grows s s'" "tasks s' = filter P (tasks s)" "next_task s' = next_task s"
    "\<And>t. t \<in> set (tasks s') \<Longrightarrow> job_id (objs s (t_job t)) \<in> set (in_flight s')"
  shows "task_inv s'"
proof -
  have ids: "job_id (objs s' (t_job t)) = job_id (objs s (t_job t))" "t_job t < next_obj s'"
      if "t \<in> set (tasks s)" for t
    using that assms(1,2) by (auto simp: task_inv_def heap_grows_def less_le_trans)
  have "map (\<lambda>t. job_id (objs s' (t_job t))) (tasks s') = map (\<lambda>t. job_id (objs s (t_job t))) (tasks s')"
    using assms(3) ids by (intro map_cong) auto
  then show ?thesis
    using assms ids by (auto simp: task_inv_def distinct_map_filter simp del: map_eq_conv)
qed

definition unflight :: "nat \<Rightarrow> sched \<Rightarrow> sched" where
  "unflight r s = s\<lparr>in_flight := removeAll (job_id (objs s r)) (in_flight s)\<rparr>"

definition record_run :: "nat \<Rightarrow> datetime \<Rightarrow> int \<Rightarrow> sched \<Rightarrow> sched" where
  "record_run r f n s = s\<lparr>objs := (objs s)(r := (objs s r)\<lparr>fire_at := f, run_count := n\<rparr>)\<rparr>"

lemma reschedule_every_id: "reschedule_every env now out j = Inr j' \<Longrightarrow> job_id j' = job_id j"
  by (auto simp: reschedule_every_def split: sum.splits)

text \<open>The ways the \<open>finally\<close> block can go: an error before or after a new job object was made,
  a commit without a change, or a commit of the new object.\<close>

lemma finish_job_cases:
  assumes "finish_job env io now out r s = (s', err)"
  obtains (plain) "s' = unflight r s"
  | (unchanged) "commit_jobs env io (unflight r s) (current_persisted (unflight r s)) = Inr s'"
  | (made) j where "s' = snd (alloc (unflight r s) j)"
  | (replaced) j b where "job_id j = job_id (objs s r)"
      "dict_get (jobs s) (job_id (objs s r)) = Some r"
      "commit_jobs env io (snd (alloc (unflight r s) j))
         (dict_set (current_persisted (unflight r s)) (job_id (objs s r)) (next_obj s)) = Inr b"
      "s' = b \<or> s' = record_run r (fire_at j) (run_count j) b"
proof -
  have fl [simp]: "jobs (unflight r s) = jobs s" "stopping (unflight r s) = stopping s"
      "next_obj (unflight r s) = next_obj s"
    by (simp_all add: unflight_def)
  define u where "u = unflight r s"
  define c where "c = current_persisted u"
  define k where "k = job_id (objs s r)"
  have split: "(case commit_jobs env io (snd (alloc u j)) (dict_set c k (next_obj s)) of
        Inl e \<Rightarrow> (snd (alloc u j), Some e) | Inr s2 \<Rightarrow> (f s2, None)) = (s', err) \<Longrightarrow> thesis"
    if f: "\<And>b. f b = b \<or> f b = record_run r (fire_at j) (run_count j) b"
      and j: "job_id j = k" "dict_get (jobs s) k = Some r" for j f
    using f j made[of j] replaced[of j] unfolding u_def[symmetric] c_def[symmetric] k_def[symmetric]
    by (auto split: sum.splits)
  have fin: "finish_job env io now out r s =
    (if out \<noteq> Cancelled \<and> trigger (objs s r) = ''every'' \<and> \<not> stopping s \<and> dict_get (jobs s) k = Some r then
       (case reschedule_every env now out (objs s r) of Inl e \<Rightarrow> (u, Some e)
        | Inr j' \<Rightarrow> (case commit_jobs env io (snd (alloc u j')) (dict_set c k (next_obj s)) of
              Inl e \<Rightarrow> (snd (alloc u j'), Some e)
            | Inr s2 \<Rightarrow> (record_run r (fire_at j') (run_count j') s2, None)))
     else if out \<noteq> Cancelled \<and> trigger (objs s r) \<noteq> ''every'' \<and> dict_get (jobs s) k = Some r then
       (case commit_jobs env io (snd (alloc u ((objs s r)\<lparr>enabled := False, run_count := bump out (objs s r)\<rparr>)))
            (dict_set c k (next_obj s)) of
          Inl e \<Rightarrow> (snd (alloc u ((objs s r)\<lparr>enabled := False, run_count := bump out (objs s r)\<rparr>)), Some e)
        | Inr s2 \<Rightarrow> (s2, None))
     else (case commit_jobs env io u c of Inl e \<Rightarrow> (u, Some e) | Inr s2 \<Rightarrow> (s2, None)))"
    unfolding finish_job_def Let_def u_def k_def c_def record_run_def unflight_def
    by (simp add: alloc_def split: sum.split)
  show thesis
  proof (cases "out \<noteq> Cancelled \<and> dict_get (jobs s) k = Some r \<and>
      (trigger (objs s r) = ''every'' \<longrightarrow> \<not> stopping s)")
    case True
    show thesis
    proof (cases "trigger (objs s r) = ''every''")
      case every: True
      show thesis
      proof (cases "reschedule_every env now out (objs s r)")
        case (Inl e)
        then show thesis using assms fin True every plain by (simp add: u_def)
      next
        case (Inr j')
        then show thesis
          using assms fin True every reschedule_every_id[OF Inr]
          by (intro split[of "record_run r (fire_at j') (run_count j')" j']) (simp_all add: k_def)
      qed
    next
      case False
      then show thesis
        using assms fin True
        by (intro split[of "\<lambda>x. x" "(objs s r)\<lparr>enabled := False, run_count := bump out (objs s r)\<rparr>"])
          (simp_all add: k_def)
    qed
  next
    case False
    then have "(case commit_jobs env io u c of Inl e \<Rightarrow> (u, Some e) | Inr s2 \<Rightarrow> (s2, None)) = (s', err)"
      using assms fin by (simp split: if_splits) 
    then show thesis using plain unchanged by (auto simp: u_def c_def split: sum.splits)
  qed
qed

lemma finish_job_frame:
  assumes "finish_job env io now out r s = (s', err)"
  shows "heap_grows s s' \<and> tasks s' = tasks s \<and> next_task s' = next_task s \<and>
     in_flight s' = removeAll (job_id (objs s r)) (in_flight s)"
  using assms
proof (cases rule: finish_job_cases)
  case plain
  then show ?thesis by (simp add: unflight_def heap_grows_def)
next
  case unchanged
  then show ?thesis using commit_simps[OF unchanged] by (simp add: unflight_def heap_grows_def)
next
  case (made j)
  then show ?thesis by (simp add: unflight_def heap_grows_def)
next
  case (replaced j b)
  note c = commit_simps[OF replaced(3)]
  have "heap_grows s b" using c by (simp add: unflight_def heap_grows_def)
  then have "heap_grows s (record_run r f n b)" for f n by (simp add: record_run_def heap_grows_def)
  moreover have "tasks (record_run r f n b) = tasks b \<and> next_task (record_run r f n b) = next_task b \<and>
      in_flight (record_run r f n b) = in_flight b" for f n
    by (simp add: record_run_def)
  ultimately show ?thesis
    using \<open>heap_grows s b\<close> replaced(4) c by (auto simp: unflight_def)
qed

lemma dict_get_filter_fst:
  "dict_ok d \<Longrightarrow> dict_get (filter P d) k = Some v \<Longrightarrow> dict_get d k = Some v"
  by (auto simp: dict_get_Some_iff dict_ok_def distinct_map_fst_filter)

lemma current_is_enabled:
  assumes "store_inv env norm s" "dict_get (jobs s) k = Some r"
  shows "dict_get (current_persisted s) k = Some r" "enabled (objs s r)"
proof -
  have ok: "dict_ok (current_persisted s)"
    using store_inv_current(1)[OF assms(1)] by (simp add: refs_ok_def)
  then show "dict_get (current_persisted s) k = Some r"
    using assms store_inv_current(3)[OF assms(1)] dict_get_filter_fst[OF ok] by metis
  have "(k, r) \<in> set (jobs s)" using assms(2) by (rule dict_get_SomeD)
  then show "enabled (objs s r)" using store_inv_current(3)[OF assms(1)] by auto
qed

lemma commit_replaced_inv:
  assumes iso: "iso_law env norm" and s: "store_inv env norm s" and al: "alloc s j = (r', a)"
    and cur: "dict_get (jobs s) (job_id j) = Some r"
    and c: "commit_jobs env io a (dict_set (current_persisted s) (job_id j) r') = Inr b"
  shows "store_inv env norm b \<and> (\<forall>p \<in> set (current_persisted b). snd p \<noteq> r) \<and>
    (r < next_obj s \<longrightarrow> objs b r = objs s r)"
proof -
  define d where "d = dict_set (current_persisted s) (job_id j) r'"
  have a: "r' = next_obj s" "a = snd (alloc s j)" using al by (auto simp: alloc_def)
  note enabled = current_is_enabled[OF s cur]
  have refs: "refs_ok a d" unfolding d_def a
    using refs_ok_alloc[OF store_inv_current(1)[OF s]] by (intro refs_ok_set) simp_all
  have "active_count a d \<le> active_count a (current_persisted s)"
    unfolding d_def
    using enabled refs_okD[OF store_inv_current(1)[OF s] dict_get_SomeD[OF enabled(1)]]
    by (intro active_count_replace) (auto simp: a)
  then have cap: "active_count a d \<le> max_active_jobs"
    using active_count_alloc[OF store_inv_current(1)[OF s], of j] store_inv_current(2)[OF s] a by simp
  have inv: "store_inv env norm b"
    using commit_store_inv[OF iso refs cap] c by (simp add: d_def)
  have per: "current_persisted b = d" using commit_simps(3)[OF c] by (simp add: current_persisted_def d_def)
  have "snd p \<noteq> r" if "p \<in> set d" for p
  proof
    assume "snd p = r"
    moreover have "r < next_obj s \<and> job_id (objs s r) = job_id j"
      using refs_ok_get[OF store_inv_current(1)[OF s] enabled(1)] by simp
    ultimately have "fst p = job_id j" using refs_okD[OF refs that] a by simp
    then have "dict_get d (job_id j) = Some r"
      using that refs \<open>snd p = r\<close> by (cases p) (simp add: dict_get_Some_iff refs_ok_def)
    then have "r = next_obj s" by (simp add: d_def a)
    then show False using \<open>r < next_obj s \<and> _\<close> by simp
  qed
  then show ?thesis using inv per commit_simps(1)[OF c] a by simp
qed

lemma finish_job_store_inv:
  assumes "iso_law env norm" "store_inv env norm s" "r < next_obj s"
    "finish_job env io now out r s = (s', err)"
  shows "store_inv env norm s'"
proof -
  have u: "store_inv env norm (unflight r s)"
    using assms(2) store_inv_cong[of "unflight r s" s] by (simp add: unflight_def)
  show ?thesis
    using assms(4)
  proof (cases rule: finish_job_cases)
    case plain
    then show ?thesis using u by simp
  next
    case unchanged
    then show ?thesis using commit_store_inv[OF assms(1) store_inv_current(1,2)[OF u]] by blast
  next
    case (made j)
    then show ?thesis using store_inv_alloc[OF u] by simp
  next
    case (replaced j b)
    have b: "store_inv env norm b \<and> (\<forall>p \<in> set (current_persisted b). snd p \<noteq> r) \<and>
        (r < next_obj (unflight r s) \<longrightarrow> objs b r = objs (unflight r s) r)"
      using replaced(1-3)
      by (intro commit_replaced_inv[OF assms(1) u, of j "next_obj s" "snd (alloc (unflight r s) j)" r io])
        (simp_all add: prod_eq_iff unflight_def)
    then have "store_inv env norm (record_run r f n b)" for f n
      unfolding record_run_def by (intro store_inv_mutate) auto
    then show ?thesis using b replaced(4) by blast
  qed
qed

definition sched_inv :: "sched_env \<Rightarrow> (datetime \<Rightarrow> datetime) \<Rightarrow> sched \<Rightarrow> bool" where
  "sched_inv env norm s \<longleftrightarrow> store_inv env norm s \<and> task_inv s"

lemma sched_inv_cong:
  "store_doc s' = store_doc s \<Longrightarrow> objs s' = objs s \<Longrightarrow> next_obj s' = next_obj s \<Longrightarrow>
   jobs s' = jobs s \<Longrightarrow> persisted s' = persisted s \<Longrightarrow> tasks s' = tasks s \<Longrightarrow>
   in_flight s' = in_flight s \<Longrightarrow> next_task s' = next_task s \<Longrightarrow>
   sched_inv env norm s' = sched_inv env norm s"
  unfolding sched_inv_def by (metis store_inv_cong task_inv_cong)

lemma task_done_simps [simp]:
  "tasks (task_done i e s) = filter (\<lambda>t. t_id t \<noteq> i) (tasks s)"
  "objs (task_done i e s) = objs s" "next_obj (task_done i e s) = next_obj s"
  "jobs (task_done i e s) = jobs s" "persisted (task_done i e s) = persisted s"
  "store_doc (task_done i e s) = store_doc s" "in_flight (task_done i e s) = in_flight s"
  "next_task (task_done i e s) = next_task s"
  by (simp_all add: task_done_def drop_task_def Let_def split: option.splits)

lemma heap_grows_refl [simp]: "heap_grows s s"
  by (simp add: heap_grows_def)

lemma finish_task_inv:
  assumes "iso_law env norm" "sched_inv env norm s" "t \<in> set (tasks s)"
  shows "sched_inv env norm (finish_task env io now out t s)"
proof -
  obtain s' err where f: "finish_job env io now out (t_job t) s = (s', err)"
    by (cases "finish_job env io now out (t_job t) s")
  define d where "d = task_done (t_id t) err s'"
  have inv: "store_inv env norm s" "task_inv s" using assms(2) by (simp_all add: sched_inv_def)
  have r: "t_job t < next_obj s" using inv(2) assms(3) by (simp add: task_inv_def)
  note frame = finish_job_frame[OF f]
  have "store_inv env norm d"
    using finish_job_store_inv[OF assms(1) inv(1) r f] store_inv_cong[of d s'] by (simp add: d_def)
  moreover have "task_inv d"
  proof (rule task_inv_mono[OF inv(2)])
    show "heap_grows s d" using frame by (simp add: d_def heap_grows_def)
    show "tasks d = filter (\<lambda>u. t_id u \<noteq> t_id t) (tasks s)" using frame by (simp add: d_def)
    show "next_task d = next_task s" using frame by (simp add: d_def)
    fix u assume "u \<in> set (tasks d)"
    then have u: "u \<in> set (tasks s)" "u \<noteq> t" using frame by (auto simp: d_def)
    then have "job_id (objs s (t_job u)) \<noteq> job_id (objs s (t_job t))"
      using inv(2) assms(3) by (auto simp: task_inv_def distinct_map inj_on_def)
    then show "job_id (objs s (t_job u)) \<in> set (in_flight d)"
      using inv(2) u(1) frame by (simp add: d_def task_inv_def)
  qed
  ultimately show ?thesis by (simp add: finish_task_def f sched_inv_def d_def)
qed

lemma drop_task_inv: "sched_inv env norm s \<Longrightarrow> sched_inv env norm (drop_task i s)"
  using store_inv_cong[of "drop_task i s" s env norm]
    task_inv_mono[of s "drop_task i s" "\<lambda>t. t_id t \<noteq> i"]
  by (auto simp: sched_inv_def drop_task_def task_inv_def heap_grows_def)

lemma set_pc_inv: "sched_inv env norm s \<Longrightarrow> sched_inv env norm (set_pc i pc s)"
  using store_inv_cong[of "set_pc i pc s" s env norm]
  by (auto simp: sched_inv_def set_pc_def task_inv_def comp_def if_distrib cong: if_cong)

lemma record_fields_inv:
  "sched_inv env norm (s\<lparr>tracker := t\<rparr>) = sched_inv env norm s"
  "sched_inv env norm (s\<lparr>background_error := e\<rparr>) = sched_inv env norm s"
  "sched_inv env norm (s\<lparr>running := b, stopping := b'\<rparr>) = sched_inv env norm s"
  "sched_inv env norm (begin_run s) = sched_inv env norm s"
  "sched_inv env norm (call_push j msg s) = sched_inv env norm s"
  by (rule sched_inv_cong; simp add: begin_run_def call_push_def)+

lemma end_task_inv:
  "iso_law env norm \<Longrightarrow> sched_inv env norm s \<Longrightarrow> t \<in> set (tasks s) \<Longrightarrow>
   sched_inv env norm (end_task env io now out t s)"
  by (simp add: end_task_def drop_task_inv finish_task_inv)

lemma end_task_tasks:
  "set (tasks (end_task env io now out t s)) \<subseteq> set (tasks s)"
  "out = Cancelled \<Longrightarrow> tasks (end_task env io now out t s) = filter (\<lambda>u. t_id u \<noteq> t_id t) (tasks s)"
  using finish_job_frame
  by (auto simp: end_task_def drop_task_def finish_task_def split: prod.splits)

lemma shutdown_loop_inv:
  assumes "iso_law env norm" "sched_inv env norm s" "set ts \<subseteq> set (tasks s)" "distinct (map t_id ts)"
  shows "sched_inv env norm (foldl (\<lambda>x t. end_task env io now Cancelled t x) s ts)"
  using assms(2-)
proof (induction ts arbitrary: s)
  case (Cons t ts)
  have "set ts \<subseteq> set (tasks (end_task env io now Cancelled t s))"
    using Cons.prems by (simp add: end_task_tasks(2) subset_iff) (metis image_eqI)
  then show ?case using Cons end_task_inv[OF assms(1)] by simp
qed simp

lemma shutdown_inv:
  assumes "iso_law env norm" "sched_inv env norm s"
  shows "sched_inv env norm (shutdown env io now s)"
proof -
  define x where "x = foldl (\<lambda>x t. end_task env io now Cancelled t x)
    (s\<lparr>running := False, stopping := True\<rparr>) (tasks s)"
  have s': "sched_inv env norm (s\<lparr>running := False, stopping := True\<rparr>)"
    using assms(2) sched_inv_cong[of "s\<lparr>running := False, stopping := True\<rparr>" s] by simp
  have "sched_inv env norm x"
    unfolding x_def using assms s'
    by (intro shutdown_loop_inv) (auto simp: sched_inv_def task_inv_def)
  then have "sched_inv env norm (x\<lparr>tasks := []\<rparr>)"
    using store_inv_cong[of "x\<lparr>tasks := []\<rparr>" x] by (simp add: sched_inv_def task_inv_def)
  then show ?thesis by (simp add: shutdown_def x_def)
qed

lemma tick_loop_inv:
  assumes "sched_inv env norm s" "\<forall>r \<in> set rs. r < next_obj s"
  shows "sched_inv env norm (fst (tick_loop env now rs s))"
  using assms
proof (induction env now rs s rule: tick_loop.induct)
  case (2 env now r rs s)
  define s' where "s' = s\<lparr>in_flight := in_flight s @ [job_id (objs s r)],
    tasks := tasks s @ [\<lparr>t_id = next_task s, t_job = r, t_pc = Created\<rparr>], next_task := next_task s + 1\<rparr>"
  have "sched_inv env norm s'" if "job_id (objs s r) \<notin> set (in_flight s)"
    using 2(4,5) that store_inv_cong[of s' s env norm]
    by (fastforce simp: sched_inv_def s'_def task_inv_def)
  then show ?case
    using 2 by (auto simp: Let_def s'_def split: sum.splits)
qed simp

lemma execute_start_inv:
  "iso_law env norm \<Longrightarrow> sched_inv env norm s \<Longrightarrow> t \<in> set (tasks s) \<Longrightarrow>
   sched_inv env norm (execute_start env io now t s)"
  by (simp add: execute_start_def Let_def finish_task_inv set_pc_inv record_fields_inv)

lemma execute_reply_inv:
  "iso_law env norm \<Longrightarrow> sched_inv env norm s \<Longrightarrow> t \<in> set (tasks s) \<Longrightarrow>
   sched_inv env norm (execute_reply env io now elapsed content t s)"
  by (simp add: execute_reply_def Let_def finish_task_inv set_pc_inv record_fields_inv)

subsection \<open>Recovery keeps every record\<close>

lemma load_items_ids:
  "load_items env seen items = Inr js \<Longrightarrow> distinct (map job_id js) \<and> set (map job_id js) \<inter> set seen = {}"
proof (induction items arbitrary: seen js)
  case (Cons item items)
  then obtain d j ks where *: "item = JObj d" "from_dict env d = Inr j" "job_id j \<notin> set seen"
      "load_items env (job_id j # seen) items = Inr ks" "js = j # ks"
    by (auto split: json.splits sum.splits if_splits)
  then show ?case using Cons.IH[OF *(4)] by auto
qed simp

lemma load_jobs_ids: "load_jobs env doc = Inr js \<Longrightarrow> distinct (map job_id js)"
  by (auto simp: load_jobs_def load_items_ids split: option.splits json.splits)

lemma recover_job_facts:
  "recover_job env now j = Inr (j', active, ch) \<Longrightarrow>
   job_id j' = job_id j \<and> active = enabled j' \<and> (\<not> ch \<longrightarrow> j' = j) \<and> (enabled j' \<longrightarrow> enabled j)"
  by (auto simp: recover_job_def Let_def split: if_splits sum.splits)

lemma recover_loop_spec:
  assumes "recover_loop env now s rec per ch js = Inr (s', rec', per', ch')"
    "refs_ok s per" "rec = filter (\<lambda>p. enabled (objs s (snd p))) per"
    "distinct (map job_id js)" "set (map job_id js) \<inter> set (dict_keys per) = {}"
  shows "refs_ok s' per' \<and> rec' = filter (\<lambda>p. enabled (objs s' (snd p))) per' \<and>
    store_doc s' = store_doc s \<and> (task_inv s \<longrightarrow> task_inv s') \<and>
    (\<exists>js'. map (\<lambda>p. objs s' (snd p)) per' = map (\<lambda>p. objs s (snd p)) per @ js' \<and>
      list_all2 (\<lambda>j j'. \<exists>a c. recover_job env now j = Inr (j', a, c)) js js' \<and>
      (\<not> ch' \<longrightarrow> \<not> ch \<and> js' = js))"
  using assms
proof (induction js arbitrary: s rec per ch)
  case Nil
  then show ?case by auto
next
  case (Cons j js)
  obtain j1 a c where r: "recover_job env now j = Inr (j1, a, c)"
    using Cons.prems(1) by (cases "recover_job env now j") auto
  note facts = recover_job_facts[OF r]
  define s1 where "s1 = snd (alloc s j1)"
  define per1 where "per1 = dict_set per (job_id j1) (next_obj s)"
  define rec1 where "rec1 = (if a then dict_set rec (job_id j1) (next_obj s) else rec)"
  have al: "alloc s j1 = (next_obj s, s1)" by (simp add: s1_def prod_eq_iff)
  have step: "recover_loop env now s1 rec1 per1 (ch \<or> c) js = Inr (s', rec', per', ch')"
    using Cons.prems(1) r al by (simp add: rec1_def per1_def)
  have new: "job_id j1 \<notin> set (dict_keys per)" using Cons.prems(5) facts by auto
  then have new_rec: "job_id j1 \<notin> set (dict_keys rec)" using Cons.prems(3) by auto
  have per1: "per1 = per @ [(job_id j1, next_obj s)]" unfolding per1_def using new by (rule dict_set_new)
  have old: "filter (\<lambda>p. enabled (objs s1 (snd p))) per = rec"
      "map (\<lambda>p. objs s1 (snd p)) per = map (\<lambda>p. objs s (snd p)) per"
    unfolding s1_def using filter_objs_alloc[OF Cons.prems(2)] map_objs_alloc[OF Cons.prems(2)]
      Cons.prems(3) by simp_all
  have 1: "refs_ok s1 per1"
    unfolding per1_def s1_def using refs_ok_alloc[OF Cons.prems(2)] by (intro refs_ok_set) simp_all
  have 2: "rec1 = filter (\<lambda>p. enabled (objs s1 (snd p))) per1"
    unfolding per1 rec1_def filter_append old(1)
    using facts new_rec by (simp add: s1_def dict_set_new)
  have 3: "set (map job_id js) \<inter> set (dict_keys per1) = {}"
    using Cons.prems(4,5) facts unfolding per1 by auto
  have IH: "refs_ok s' per' \<and> rec' = filter (\<lambda>p. enabled (objs s' (snd p))) per' \<and>
    store_doc s' = store_doc s1 \<and> (task_inv s1 \<longrightarrow> task_inv s') \<and>
    (\<exists>js'. map (\<lambda>p. objs s' (snd p)) per' = map (\<lambda>p. objs s1 (snd p)) per1 @ js' \<and>
      list_all2 (\<lambda>j j'. \<exists>a c. recover_job env now j = Inr (j', a, c)) js js' \<and>
      (\<not> ch' \<longrightarrow> \<not> (ch \<or> c) \<and> js' = js))"
    using Cons.prems(4) by (intro Cons.IH[OF step 1 2 _ 3]) simp
  then obtain js' where js': "map (\<lambda>p. objs s' (snd p)) per' = map (\<lambda>p. objs s1 (snd p)) per1 @ js'"
      "list_all2 (\<lambda>j j'. \<exists>a c. recover_job env now j = Inr (j', a, c)) js js'"
      "\<not> ch' \<longrightarrow> \<not> (ch \<or> c) \<and> js' = js" by blast
  have "map (\<lambda>p. objs s1 (snd p)) per1 = map (\<lambda>p. objs s (snd p)) per @ [j1]"
    unfolding per1 map_append old(2) by (simp add: s1_def)
  then have "map (\<lambda>p. objs s' (snd p)) per' = map (\<lambda>p. objs s (snd p)) per @ (j1 # js')"
    using js'(1) by simp
  moreover have "list_all2 (\<lambda>j j'. \<exists>a c. recover_job env now j = Inr (j', a, c)) (j # js) (j1 # js')"
    using js'(2) r by simp
  moreover have "\<not> ch' \<longrightarrow> \<not> ch \<and> j1 # js' = j # js" using js'(3) facts by auto
  moreover have "store_doc s' = store_doc s" "task_inv s \<longrightarrow> task_inv s'"
    using IH task_inv_alloc[of s j1] by (simp_all add: s1_def)
  ultimately show ?case using IH by blast
qed

lemma list_all2_recover_enabled:
  "list_all2 (\<lambda>j j'. \<exists>a c. recover_job env now j = Inr (j', a, c)) js js' \<Longrightarrow>
   enabled_jobs js' \<le> enabled_jobs js"
  by (induction rule: list_all2_induct) (auto simp: enabled_jobs_def dest: recover_job_facts)

lemma load_and_recover_cases:
  assumes "load_and_recover env io now s = Inr s'"
  obtains js js' s1 per where "load_jobs env (store_doc s) = Inr js"
    "list_all2 (\<lambda>j j'. \<exists>a c. recover_job env now j = Inr (j', a, c)) js js'"
    "map (\<lambda>p. objs s1 (snd p)) per = js'" "refs_ok s1 per" "store_doc s1 = store_doc s"
    "task_inv s \<longrightarrow> task_inv s1"
    "(save_jobs env io (deref s1 per) = Inr (the (store_doc s')) \<and>
        s' = s1\<lparr>store_doc := store_doc s', persisted := Some per,
               jobs := filter (\<lambda>p. enabled (objs s1 (snd p))) per\<rparr> \<and> store_doc s' \<noteq> None) \<or>
     (js' = js \<and> s' = s1\<lparr>persisted := Some per, jobs := filter (\<lambda>p. enabled (objs s1 (snd p))) per\<rparr>)"
proof -
  obtain js where js: "load_jobs env (store_doc s) = Inr js"
    using assms by (auto simp: load_and_recover_def split: sum.splits)
  obtain s1 rec per ch where loop: "recover_loop env now s [] [] False js = Inr (s1, rec, per, ch)"
    using assms js by (auto simp: load_and_recover_def split: sum.splits)
  have spec: "refs_ok s1 per \<and> rec = filter (\<lambda>p. enabled (objs s1 (snd p))) per \<and>
    store_doc s1 = store_doc s \<and> (task_inv s \<longrightarrow> task_inv s1) \<and>
    (\<exists>js'. map (\<lambda>p. objs s1 (snd p)) per = map (\<lambda>p. objs s (snd p)) [] @ js' \<and>
      list_all2 (\<lambda>j j'. \<exists>a c. recover_job env now j = Inr (j', a, c)) js js' \<and>
      (\<not> ch \<longrightarrow> \<not> False \<and> js' = js))"
    using recover_loop_spec[OF loop] load_jobs_ids[OF js] by (simp add: refs_ok_def)
  then obtain js' where js': "map (\<lambda>p. objs s1 (snd p)) per = js'"
      "list_all2 (\<lambda>j j'. \<exists>a c. recover_job env now j = Inr (j', a, c)) js js'"
      "\<not> ch \<longrightarrow> js' = js" by auto
  have "(save_jobs env io (deref s1 per) = Inr (the (store_doc s')) \<and>
        s' = s1\<lparr>store_doc := store_doc s', persisted := Some per,
               jobs := filter (\<lambda>p. enabled (objs s1 (snd p))) per\<rparr> \<and> store_doc s' \<noteq> None) \<or>
     (js' = js \<and> s' = s1\<lparr>persisted := Some per, jobs := filter (\<lambda>p. enabled (objs s1 (snd p))) per\<rparr>)"
    using assms js loop js'(3) spec
    by (auto simp: load_and_recover_def split: sum.splits if_splits)
  then show thesis using that js js' spec by blast
qed

lemma load_and_recover_inv:
  assumes "iso_law env norm" "sched_inv env norm s" "load_and_recover env io now s = Inr s'"
  shows "sched_inv env norm s'"
proof -
  obtain js js' s1 per where *: "load_jobs env (store_doc s) = Inr js"
    "list_all2 (\<lambda>j j'. \<exists>a c. recover_job env now j = Inr (j', a, c)) js js'"
    "map (\<lambda>p. objs s1 (snd p)) per = js'" "refs_ok s1 per" "store_doc s1 = store_doc s"
    "task_inv s \<longrightarrow> task_inv s1"
    "(save_jobs env io (deref s1 per) = Inr (the (store_doc s')) \<and>
        s' = s1\<lparr>store_doc := store_doc s', persisted := Some per,
               jobs := filter (\<lambda>p. enabled (objs s1 (snd p))) per\<rparr> \<and> store_doc s' \<noteq> None) \<or>
     (js' = js \<and> s' = s1\<lparr>persisted := Some per, jobs := filter (\<lambda>p. enabled (objs s1 (snd p))) per\<rparr>)"
    by (rule load_and_recover_cases[OF assms(3)])
  have capped: "store_capped env (store_doc s)" using assms(2) by (simp add: sched_inv_def store_inv_def)
  then have cap: "active_count s1 per \<le> max_active_jobs"
    using *(1) list_all2_recover_enabled[OF *(2)] unfolding store_capped_def active_count_enabled *(3)
    by (meson le_trans)
  have tasks: "task_inv s1" using *(6) assms(2) by (simp add: sched_inv_def)
  show ?thesis
    using *(7)
  proof (elim disjE conjE)
    assume sv: "save_jobs env io (deref s1 per) = Inr (the (store_doc s'))"
      "s' = s1\<lparr>store_doc := store_doc s', persisted := Some per,
         jobs := filter (\<lambda>p. enabled (objs s1 (snd p))) per\<rparr>" "store_doc s' \<noteq> None"
    then have "commit_jobs env io s1 per = Inr s'" by (auto simp: commit_jobs_def)
    then show ?thesis
      using commit_store_inv[OF assms(1) *(4) cap] commit_task_inv tasks by (simp add: sched_inv_def)
  next
    assume same: "js' = js"
      "s' = s1\<lparr>persisted := Some per, jobs := filter (\<lambda>p. enabled (objs s1 (snd p))) per\<rparr>"
    have "disk_view env norm s' (map snd (deref s' per))"
      unfolding disk_view_def snd_deref using same *(1,3,5) by simp
    moreover have "refs_ok s' per" "active_count s' per = active_count s1 per"
      using *(4) same by (simp_all add: refs_ok_def active_count_def)
    moreover have "task_inv s'" using tasks task_inv_cong[of s' s1] same by simp
    ultimately show ?thesis
      using cap capped same *(5) by (simp add: sched_inv_def store_inv_def)
  qed
qed

lemma find_task_mem: "find_task i s = Some t \<Longrightarrow> t \<in> set (tasks s)"
  by (auto simp: find_task_def find_Some_iff)

lemma jobs_refs:
  assumes "sched_inv env norm s" "r \<in> snd ` set (jobs s)"
  shows "r < next_obj s"
proof -
  have "refs_ok s (jobs s)"
    using assms(1) store_inv_current[of env norm s] refs_ok_filter by (metis sched_inv_def)
  then show ?thesis using assms(2) by (auto dest: refs_okD)
qed

lemma sched_exec_inv:
  assumes "iso_law env norm" "sched_inv env norm s"
  shows "sched_inv env norm (fst (sched_exec env c s))"
proof (cases c)
  case (Add j fire io)
  then show ?thesis
  proof (cases "add_job env io j fire s")
    case (Inr s')
    then show ?thesis using Add add_job_inv[OF assms(1) _ _ Inr] assms(2)
      by (simp add: sched_exec_def keep_def sched_inv_def)
  qed (simp add: sched_exec_def keep_def assms)
next
  case (Cancel k io)
  then show ?thesis
  proof (cases "cancel_job env io k s")
    case (Inr q)
    then obtain b s' where q: "cancel_job env io k s = Inr (b, s')" by (cases q) simp
    then show ?thesis using Cancel cancel_job_inv[OF assms(1) _ _ q] q assms(2)
      by (simp add: sched_exec_def keep2_def sched_inv_def)
  qed (simp add: sched_exec_def keep2_def assms)
next
  case (Cancel_name n io)
  then show ?thesis
  proof (cases "cancel_job_by_name env io n s")
    case (Inr q)
    then obtain b s' where q: "cancel_job_by_name env io n s = Inr (b, s')" by (cases q) simp
    then show ?thesis using Cancel_name cancel_name_inv[OF assms(1) _ _ q] q assms(2)
      by (simp add: sched_exec_def keep2_def sched_inv_def)
  qed (simp add: sched_exec_def keep2_def assms)
next
  case (Run now io)
  then show ?thesis using assms(2) load_and_recover_inv[OF assms]
    by (cases "load_and_recover env io now s") (simp_all add: sched_exec_def record_fields_inv)
next
  case (Tick now)
  then show ?thesis using assms tick_loop_inv[OF assms(2), of "map snd (jobs s)"] jobs_refs[OF assms(2)]
    by (auto simp: sched_exec_def tick_def)
next
  case (Shutdown now io)
  then show ?thesis using shutdown_inv[OF assms] by (simp add: sched_exec_def)
next
  case Stop
  then show ?thesis using assms by (simp add: sched_exec_def record_fields_inv)
next
  case Raise_background
  then show ?thesis using assms by (simp add: sched_exec_def raise_background_def record_fields_inv)
next
  case (Task_start i now io)
  then show ?thesis using assms(2)
    by (cases "find_task i s") (simp_all add: sched_exec_def execute_start_inv[OF assms find_task_mem])
next
  case (Task_reply i elapsed content now io)
  then show ?thesis using assms(2)
    by (cases "find_task i s") (simp_all add: sched_exec_def execute_reply_inv[OF assms find_task_mem])
next
  case (Task_end i out now io)
  then show ?thesis using assms(2)
    by (cases "find_task i s") (simp_all add: sched_exec_def end_task_inv[OF assms find_task_mem])
qed

lemma sched_reachable_inv:
  assumes "iso_law env norm" "store_capped env doc" "sched_reachable env doc s"
  shows "sched_inv env norm s"
  using assms(3)
proof (induction rule: sched_reachable.induct)
  case (start heap loop)
  then show ?case using assms(2)
    by (simp add: new_sched_def sched_inv_def store_inv_def task_inv_def)
next
  case (exec s c)
  then show ?case by (intro sched_exec_inv[OF assms(1)])
qed

subsection \<open>Properties of the service\<close>

text \<open>
  In every reachable state of the service the file and the memory agree: reading the
  job file back gives, up to the notation of times, exactly the jobs of the persisted
  dictionary in their order, so a restart at any moment loses and invents nothing; and the
  running dictionary holds exactly the enabled ones.
\<close>

theorem sched_durable:
  assumes "iso_law env norm" "store_capped env doc" "sched_reachable env doc s" "persisted s = Some p"
  shows "\<exists>ls. load_jobs env (store_doc s) = Inr ls \<and>
       map (renorm norm) ls = map (\<lambda>e. renorm norm (objs s (snd e))) p \<and>
       jobs s = filter (\<lambda>e. enabled (objs s (snd e))) p"
proof -
  have "store_inv env norm s" using sched_reachable_inv[OF assms(1-3)] by (simp add: sched_inv_def)
  then show ?thesis
    using assms(4) by (auto simp: store_inv_def disk_view_def snd_deref)
qed

text \<open>
  However commands, task steps and file failures interleave, the service never holds more
  than ten active jobs, and every listed job is enabled.
\<close>

theorem sched_capacity:
  assumes "iso_law env norm" "store_capped env doc" "sched_reachable env doc s"
  shows "length (list_jobs s) \<le> 10 \<and> list_all enabled (list_jobs s)"
proof -
  have "store_inv env norm s" using sched_reachable_inv[OF assms] by (simp add: sched_inv_def)
  then have "jobs s = filter (\<lambda>p. enabled (objs s (snd p))) (current_persisted s)"
      "active_count s (current_persisted s) \<le> max_active_jobs"
    using store_inv_current(2,3) by blast+
  then show ?thesis
    by (simp add: list_jobs_def active_count_def max_active_jobs_def list_all_iff)
qed

text \<open>
  C5. A job never runs twice at the same time: from a stored document of at most ten enabled jobs,
  the cap the service keeps, in every reachable state the background tasks
  belong to jobs with different ids, and each of those ids is marked in flight, so the next
  tick does not start the job again.
\<close>

theorem sched_single_flight:
  assumes "iso_law env norm" "store_capped env doc" "sched_reachable env doc s"
  shows "distinct (map (\<lambda>t. job_id (objs s (t_job t))) (tasks s)) \<and>
    list_all (\<lambda>t. job_id (objs s (t_job t)) \<in> set (in_flight s)) (tasks s)"
  using sched_reachable_inv[OF assms] by (simp add: sched_inv_def task_inv_def list_all_iff)

text \<open>
  When a run of the current interval job ends (not cancelled, the service not stopping)
  and the file is written, the job's record is replaced by one that fires strictly after
  both now and the old firing time, by at most one interval and a microsecond, with the run
  counted exactly if it succeeded.
\<close>

theorem finish_reschedules:
  assumes "finish_job env io now out r s = (s', None)" "out \<noteq> Cancelled" "\<not> stopping s"
    and "trigger (objs s r) = ''every''" "dict_get (jobs s) (job_id (objs s r)) = Some r"
    and "cron_expr (objs s r) = None" "interval_seconds (objs s r) = Some n"
    and "fixed_zone (fire_at (objs s r))" "fixed_zone now" "r < next_obj s"
    and "0 \<le> wall (fire_at (objs s r))"
    and "wall (fire_at (objs s r)) +
       max 0 (dt_sub (env_db env) now (fire_at (objs s r))) + n * us_second + 2 < max_wall"
  shows "\<exists>r'. dict_get (current_persisted s') (job_id (objs s r)) = Some r' \<and>
     run_count (objs s' r') = run_count (objs s r) + (if out = Succeeded then 1 else 0) \<and>
     instant (env_db env) now < instant (env_db env) (fire_at (objs s' r')) \<and>
     instant (env_db env) (fire_at (objs s r)) < instant (env_db env) (fire_at (objs s' r')) \<and>
     instant (env_db env) (fire_at (objs s' r')) \<le>
       max (instant (env_db env) now) (instant (env_db env) (fire_at (objs s r))) + n * us_second + 1"
proof -
  define j where "j = objs s r"
  define db where "db = env_db env"
  define u where "u = unflight r s"
  define k where "k = job_id j"
  obtain j' where j': "reschedule_every env now out j = Inr j'"
    using assms(1-5) by (auto simp: finish_job_def Let_def j_def split: sum.splits)
  obtain after where after: "dt_add (dt_max db now (fire_at j)) 1 = Inr after"
      and adv: "job_advance env j after = Inr (fire_at j')" "run_count j' = bump out j"
      "job_id j' = job_id j"
    using j' by (auto simp: reschedule_every_def db_def split: sum.splits)
  have mx: "fixed_zone (dt_max db now (fire_at j))"
      "instant db (dt_max db now (fire_at j)) = max (instant db now) (instant db (fire_at j))"
    using assms(8,9) dt_sub_instant2[OF assms(9), of db "fire_at j"]
    by (auto simp: dt_max_def dt_less_def j_def)
  have ai: "instant db after = max (instant db now) (instant db (fire_at j)) + 1"
    using instant_dt_add[OF mx(1) after] mx(2) by simp
  have af: "fixed_zone after" using mx(1) after by (auto simp: dt_add_def Let_def fixed_zone_def split: if_splits)
  have room: "wall (fire_at j) + max 0 (dt_sub db after (fire_at j)) + n * us_second < max_wall"
  proof -
    have "dt_sub db after (fire_at j) = max 0 (dt_sub db now (fire_at j)) + 1"
      using ai dt_sub_instant2[OF af, of db "fire_at j"] dt_sub_instant2[OF assms(9), of db "fire_at j"]
      by simp
    then show ?thesis using assms(12) by (simp add: j_def db_def)
  qed
  have pos: "0 < n"
    using adv(1) assms(6,7) by (auto simp: job_advance_def advance_every_def advance_interval_def j_def
      split: sum.splits if_splits)
  have iv: "advance_interval db (fire_at j) (Some n) after = Inr (fire_at j')"
    using adv(1) assms(6,7) by (auto simp: job_advance_def advance_every_def j_def db_def split: sum.splits)
  have grid: "instant db (fire_at j) < instant db (fire_at j')" "instant db after < instant db (fire_at j')"
      "instant db (fire_at j') \<le> max (instant db (fire_at j)) (instant db after) + n * us_second"
    using advance_interval_bounds[OF pos _ _ room] iv assms(8,11) by (auto simp: j_def)
  obtain b where c: "commit_jobs env io (snd (alloc u j')) (dict_set (current_persisted u) k (next_obj s)) = Inr b"
      and s': "s' = record_run r (fire_at j') (run_count j') b"
    using assms(1-5) j' unfolding finish_job_def Let_def
    by (auto simp: j_def[symmetric] k_def[symmetric] unflight_def u_def alloc_def record_run_def
      split: sum.splits)
  note cs = commit_simps[OF c]
  have r': "dict_get (current_persisted s') k = Some (next_obj s)"
    using cs(3) by (simp add: s' record_run_def current_persisted_def)
  have "objs s' (next_obj s) = j'"
    using cs(1) assms(10) by (simp add: s' record_run_def u_def unflight_def)
  then show ?thesis
    using r' grid ai adv(2)
    by (intro exI[of _ "next_obj s"]) (auto simp: k_def j_def bump_def db_def)
qed

text \<open>
  Starting the service (with the file readable) keeps every record of the file, in order:
  disabled jobs and jobs due in the future are unchanged, a missed job within the five
  minute grace stays as it is and will fire, an older missed one stays as a disabled record,
  and a missed recurring job stays enabled with only its firing time moved.
\<close>

theorem recovery_keeps_records:
  assumes "load_and_recover env io now s = Inr s'" "load_jobs env (store_doc s) = Inr js"
  shows "\<exists>p. persisted s' = Some p \<and> jobs s' = filter (\<lambda>e. enabled (objs s' (snd e))) p \<and>
    list_all2 (\<lambda>j j'.
      j' = (if \<not> enabled j \<or> \<not> dt_le (env_db env) (fire_at j) now then j
            else if trigger j = ''every'' then j\<lparr>fire_at := fire_at j'\<rparr>
            else if dt_sub (env_db env) now (fire_at j) \<le> 300000000 then j
            else j\<lparr>enabled := False\<rparr>))
      js (map (\<lambda>e. objs s' (snd e)) p)"
proof -
  obtain js0 js' s1 per where *: "load_jobs env (store_doc s) = Inr js0"
    "list_all2 (\<lambda>j j'. \<exists>a c. recover_job env now j = Inr (j', a, c)) js0 js'"
    "map (\<lambda>p. objs s1 (snd p)) per = js'" "refs_ok s1 per" "store_doc s1 = store_doc s"
    "task_inv s \<longrightarrow> task_inv s1"
    "(save_jobs env io (deref s1 per) = Inr (the (store_doc s')) \<and>
        s' = s1\<lparr>store_doc := store_doc s', persisted := Some per,
               jobs := filter (\<lambda>p. enabled (objs s1 (snd p))) per\<rparr> \<and> store_doc s' \<noteq> None) \<or>
     (js' = js0 \<and> s' = s1\<lparr>persisted := Some per, jobs := filter (\<lambda>p. enabled (objs s1 (snd p))) per\<rparr>)"
    by (rule load_and_recover_cases[OF assms(1)])
  define Q where "Q = (\<lambda>j (j' :: job). j' = (if \<not> enabled j \<or> \<not> dt_le (env_db env) (fire_at j) now then j
            else if trigger j = ''every'' then j\<lparr>fire_at := fire_at j'\<rparr>
            else if dt_sub (env_db env) now (fire_at j) \<le> 300000000 then j
            else j\<lparr>enabled := False\<rparr>))"
  have s1: "objs s' = objs s1" "persisted s' = Some per"
      "jobs s' = filter (\<lambda>p. enabled (objs s1 (snd p))) per"
    using *(7) by (metis (no_types, lifting) sched.select_convs(2,4,5) sched.surjective
      sched.update_convs(1,4,5))+
  have "Q j j'" if "recover_job env now j = Inr (j', a, c)" for j j' a c
    using that by (auto simp: recover_job_def Let_def Q_def grace_us_def us_second_def
      split: if_splits sum.splits)
  then have "list_all2 Q js js'"
    using *(1,2) assms(2) by (auto elim!: list_all2_mono)
  then show ?thesis using s1 *(3) unfolding Q_def by auto
qed

subsection \<open>The schedule tools\<close>

datatype tool_reply =
    Rejected string
  | At_capacity int int
  | Registered datetime
  | Cancelled_jobs nat
  | Not_found
  | Raised sched_error

definition check_schedule_args :: "(string, json) dict \<Rightarrow> json \<Rightarrow> string option" where
  "check_schedule_args kw tzv = (let tr = json_get kw ''tier'' (JStr []);
       trg = json_get kw ''trigger'' (JStr []); msg = json_field kw ''message'';
       pr = json_field kw ''prompt''; rt = json_field kw ''request_time'' in
     check (tr \<notin> {JStr ''instant'', JStr ''soft''}) ''tier''
    (check (trg \<notin> {JStr ''at'', JStr ''after'', JStr ''every''}) ''trigger''
    (check (\<not> is_str (json_get kw ''when'' (JStr []))) ''when''
    (check (\<not> is_str (json_get kw ''channel'' (JStr []))) ''channel''
    (check (\<not> is_str (json_get kw ''chat_id'' (JStr []))) ''chat_id''
    (check (\<not> is_str tzv) ''timezone''
    (check (trg = JStr ''after'' \<and> rt \<noteq> JNull \<and> \<not> is_str rt) ''request_time''
    (check (msg \<noteq> JNull \<and> \<not> is_str msg) ''message''
    (check (pr \<noteq> JNull \<and> \<not> is_str pr) ''prompt''
    (check (json_field kw ''name'' \<noteq> JNull \<and> \<not> is_str (json_field kw ''name'')) ''name''
    (check (tr = JStr ''instant'' \<and> \<not> truthy msg) ''message''
    (check (tr = JStr ''soft'' \<and> \<not> truthy pr) ''prompt''
    (check (\<not> truthy (json_get kw ''channel'' (JStr [])) \<or>
            \<not> truthy (json_get kw ''chat_id'' (JStr []))) ''channel'' None)))))))))))))"

definition period_of :: "string \<Rightarrow> string \<Rightarrow> py_error + int option \<times> string option" where
  "period_of trg when =
     (if trg \<noteq> ''every'' then Inr (None, None)
      else if is_cron_expr when then Inr (None, Some (py_strip when))
      else case parse_duration when of Inl e \<Rightarrow> Inl e
        | Inr iv \<Rightarrow> Inr (Some (iv div us_second), None))"

definition schedule_tool ::
  "sched_env \<Rightarrow> bool \<Rightarrow> datetime \<Rightarrow> string \<Rightarrow> datetime \<Rightarrow> string \<Rightarrow> (string, json) dict \<Rightarrow> sched
     \<Rightarrow> tool_reply \<times> sched" where
  "schedule_tool env io now default_tz created new_id kw s =
     (let given = json_field kw ''timezone'';
          tzv = (if truthy given then given else JStr default_tz);
          txt = (\<lambda>k. the_str (json_get kw k (JStr []))) in
      case check_schedule_args kw tzv of Some e \<Rightarrow> (Rejected e, s)
      | None \<Rightarrow>
     (if \<not> zone_known (env_db env) (the_str tzv) then (Rejected ''timezone'', s)
      else case compute_fire_at (env_db env) (env_fromiso env) (env_trig env) (txt ''trigger'')
             (txt ''when'') (the_str tzv) (opt_str (json_field kw ''request_time'')) now of
        Inl e \<Rightarrow> (if e \<in> {Type_error, Value_error, Overflow_error} then (Rejected ''when'', s)
                  else (Raised (Py e), s))
      | Inr fire \<Rightarrow> (case period_of (txt ''trigger'') (txt ''when'') of
          Inl e \<Rightarrow> (Rejected ''when'', s)
        | Inr (iv, cron) \<Rightarrow>
            (case add_job env io \<lparr>trigger = txt ''trigger'', tier = txt ''tier'', fire_at = fire,
                channel = txt ''channel'', chat_id = txt ''chat_id'', interval_seconds = iv,
                cron_expr = cron, message = opt_str (json_field kw ''message''),
                prompt = opt_str (json_field kw ''prompt''),
                job_name = opt_str (json_field kw ''name''), timezone = the_str tzv,
                created_at = created, run_count = 0, enabled = True, job_id = new_id\<rparr>
                (Aware fire) s of
               Inl (Capacity a m) \<Rightarrow> (At_capacity a m, s)
             | Inl e \<Rightarrow> (Raised e, s)
             | Inr s' \<Rightarrow> (Registered fire, s')))))"

fun cancel_all :: "sched_env \<Rightarrow> bool list \<Rightarrow> string list \<Rightarrow> sched \<Rightarrow> sched \<times> sched_error option" where
  "cancel_all env ios [] s = (s, None)"
| "cancel_all env ios (k # ks) s =
     (case cancel_job env (case ios of [] \<Rightarrow> True | b # bs \<Rightarrow> b) k s of
        Inl e \<Rightarrow> (s, Some e)
      | Inr (b, s') \<Rightarrow> cancel_all env (tl ios) ks s')"

definition cancel_tool ::
  "sched_env \<Rightarrow> bool list \<Rightarrow> string \<Rightarrow> string \<Rightarrow> sched \<Rightarrow> tool_reply \<times> sched" where
  "cancel_tool env ios key name s =
     (if key = [] \<and> name = [] then (Rejected ''id'', s)
      else if key \<noteq> [] then
        (let matches = match_job_ids s key in
         if matches = [] then (Not_found, s)
         else case cancel_all env ios matches s of
           (s', Some e) \<Rightarrow> (Raised e, s')
         | (s', None) \<Rightarrow> (Cancelled_jobs (length matches), s'))
      else (case cancel_job_by_name env (case ios of [] \<Rightarrow> True | b # bs \<Rightarrow> b) name s of
              Inl e \<Rightarrow> (Raised e, s)
            | Inr (ks, s') \<Rightarrow> if ks = [] then (Not_found, s') else (Cancelled_jobs (length ks), s')))"

lemma cancel_job_current:
  "cancel_job env io k s = Inr (b, s') \<Longrightarrow>
   current_persisted s' = filter (\<lambda>p. fst p \<noteq> k) (current_persisted s) \<and> objs s' = objs s"
proof (cases "k \<in> set (dict_keys (current_persisted s))")
  case True
  assume "cancel_job env io k s = Inr (b, s')"
  then have "commit_jobs env io s (dict_del (current_persisted s) k) = Inr s'"
    using True by (auto simp: cancel_job_def Let_def split: sum.splits)
  then show ?thesis
    using commit_simps(1,3) by (fastforce simp: current_persisted_def[of s'] dict_del_filter)
next
  case False
  assume "cancel_job env io k s = Inr (b, s')"
  then have "s' = s" using False by (simp add: cancel_job_def Let_def)
  moreover have "filter (\<lambda>p. fst p \<noteq> k) (current_persisted s) = current_persisted s"
    using False by (auto simp: filter_id_conv)
  ultimately show ?thesis by simp
qed

lemma cancel_all_current:
  "cancel_all env ios ks s = (s', None) \<Longrightarrow>
   current_persisted s' = filter (\<lambda>p. fst p \<notin> set ks) (current_persisted s)"
proof (induction env ios ks s rule: cancel_all.induct)
  case (2 env ios k ks s)
  then obtain b s1 where c: "cancel_job env (case ios of [] \<Rightarrow> True | b # bs \<Rightarrow> b) k s = Inr (b, s1)"
      and "cancel_all env (tl ios) ks s1 = (s', None)"
    by (auto split: sum.splits)
  then have "current_persisted s' = filter (\<lambda>p. fst p \<notin> set ks) (current_persisted s1)"
    using 2(1)[OF c] by simp
  moreover have "current_persisted s1 = filter (\<lambda>p. fst p \<noteq> k) (current_persisted s)"
    using cancel_job_current[OF c] by simp
  ultimately show ?case by (auto intro: filter_cong)
qed simp

text \<open>
  When the cancel tool reports \<open>n\<close> cancelled jobs for an id or prefix, the jobs removed are
  exactly the \<open>n\<close> whose id starts with it; all others stay, in their order.
\<close>

theorem cancel_tool_removes:
  assumes "cancel_tool env ios key name s = (Cancelled_jobs n, s')" "key \<noteq> []"
  shows "current_persisted s' = filter (\<lambda>p. \<not> prefix key (fst p)) (current_persisted s) \<and>
    n = length (filter (\<lambda>p. prefix key (fst p)) (current_persisted s))"
proof -
  define cur where "cur = current_persisted s"
  have m: "match_job_ids s key = map fst (filter (\<lambda>p. prefix key (fst p)) cur)"
    by (auto simp: match_job_ids_def filter_map comp_def cur_def intro!: arg_cong[where f = "map fst"] filter_cong)
  have c: "cancel_all env ios (match_job_ids s key) s = (s', None)" "n = length (match_job_ids s key)"
    using assms by (auto simp: cancel_tool_def Let_def split: if_splits option.splits prod.splits)
  have "current_persisted s' = filter (\<lambda>p. fst p \<notin> set (match_job_ids s key)) cur"
    using cancel_all_current[OF c(1)] by (simp add: cur_def)
  also have "\<dots> = filter (\<lambda>p. \<not> prefix key (fst p)) cur"
    unfolding m by (rule filter_cong) auto
  finally show ?thesis using c(2) unfolding m by (simp add: cur_def)
qed

subsection \<open>Concrete runs\<close>

function bits :: "int \<Rightarrow> string" where
  "bits n = (if n \<le> 0 then [] else (if odd n then CHR ''1'' else CHR ''0'') # bits (n div 2))"
  by pat_completeness auto
termination by (relation "measure nat") auto

declare bits.simps [simp del]

fun bits_value :: "string \<Rightarrow> int" where
  "bits_value [] = 0"
| "bits_value (c # s) = (if c = CHR ''1'' then 1 else 0) + 2 * bits_value s"

lemma bits_value_bits: "0 \<le> n \<Longrightarrow> bits_value (bits n) = n"
proof (induction n rule: bits.induct)
  case (1 n)
  then show ?case
    by (cases "n \<le> 0") (auto simp: bits.simps[of n] bits.simps[of 0], presburger)
qed

lemma bits_no_z: "CHR ''Z'' \<notin> set (bits n)"
proof (induction n rule: bits.induct)
  case (1 n)
  then show ?case by (cases "n \<le> 0") (auto simp: bits.simps[of n])
qed

definition tick_text :: "datetime \<Rightarrow> string" where
  "tick_text d = (let i = instant no_zones d in
     (if i < 0 then CHR ''-'' else CHR ''+'') # bits \<bar>i\<bar>)"

definition text_tick :: "string \<Rightarrow> stamp option" where
  "text_tick s = (case s of [] \<Rightarrow> None | c # r \<Rightarrow>
     Some (Aware \<lparr>wall = (if c = CHR ''-'' then - bits_value r else bits_value r),
       dt_fold = False, tz = UTC\<rparr>))"

definition demo_env :: sched_env where
  "demo_env = \<lparr>env_db = no_zones, env_iso = tick_text, env_fromiso = text_tick,
     env_trig = (\<lambda>fs z prev now. Inr None)\<rparr>"

definition utc_time :: "int \<Rightarrow> datetime" where
  "utc_time i = \<lparr>wall = i, dt_fold = False, tz = UTC\<rparr>"

definition demo_norm :: "datetime \<Rightarrow> datetime" where
  "demo_norm d = utc_time (instant no_zones d)"

lemma replace_z_id: "CHR ''Z'' \<notin> set s \<Longrightarrow> replace_z s = s"
  by (induction s) (auto simp: replace_z_def)

lemma demo_iso_law: "iso_law demo_env demo_norm"
proof -
  have z: "replace_z (tick_text d) = tick_text d" for d
    by (rule replace_z_id) (auto simp: tick_text_def Let_def bits_no_z)
  have t: "text_tick (tick_text d) = Some (Aware (demo_norm d))" for d
    by (auto simp: tick_text_def text_tick_def demo_norm_def utc_time_def Let_def bits_value_bits)
  have ne: "tick_text d \<noteq> []" for d by (simp add: tick_text_def Let_def)
  have "parse_iso demo_env (tick_text d) = Some (demo_norm d)" for d
    unfolding parse_iso_def z using ne by (simp add: demo_env_def t assume_tz_def)
  then show ?thesis
    by (auto simp: iso_law_def demo_norm_def utc_time_def instant_def demo_env_def)
qed

definition demo_job :: job where
  "demo_job = \<lparr>trigger = ''every'', tier = ''instant'', fire_at = utc_time 3, channel = ''tg'',
     chat_id = ''7'', interval_seconds = Some 60, cron_expr = None, message = Some ''drink'',
     prompt = None, job_name = None, timezone = ''UTC'', created_at = utc_time 1, run_count = 0,
     enabled = True, job_id = ''j1''\<rparr>"

definition demo_run :: "sched_cmd list \<Rightarrow> sched" where
  "demo_run cs = foldl (\<lambda>s c. fst (sched_exec demo_env c s)) (new_sched None (\<lambda>x. demo_job) True) cs"

lemma demo_run_reachable: "sched_reachable demo_env None (demo_run cs)"
proof -
  have "sched_reachable demo_env None s \<Longrightarrow>
    sched_reachable demo_env None (foldl (\<lambda>s c. fst (sched_exec demo_env c s)) s cs)" for s
    by (induction cs arbitrary: s) (auto intro: sched_reachable.exec)
  then show ?thesis unfolding demo_run_def by (blast intro: sched_reachable.start)
qed

lemma demo_capped: "store_capped demo_env None"
  by (simp add: store_capped_def load_jobs_def enabled_jobs_def)

definition demo_state :: sched where
  "demo_state = demo_run [Run (utc_time 1) True, Add demo_job (Aware (utc_time 3)) True, Tick (utc_time 4),
     Task_start 0 (utc_time 4) True]"

definition demo_two :: "(string, job) dict" where
  "demo_two = [(''j1'', demo_job), (''j2'', demo_job\<lparr>job_id := ''j2'', trigger := ''at'',
     interval_seconds := None, tier := ''soft'', prompt := Some ''weather''\<rparr>)]"

lemma job_store_roundtrip_witness:
  "load_jobs demo_env (Some (projr (save_jobs demo_env True demo_two)))
     = Inr (map (\<lambda>p. renorm demo_norm (snd p)) demo_two)"
proof (rule job_store_roundtrip[OF demo_iso_law])
  show "dict_ok demo_two" by (simp add: demo_two_def dict_ok_def)
  show "save_jobs demo_env True demo_two = Inr (projr (save_jobs demo_env True demo_two))"
  proof -
    have "isl (save_jobs demo_env True demo_two) = False" by code_simp
    then show ?thesis by (simp add: sum.collapse(2))
  qed
qed

lemma sched_durable_witness:
  "\<exists>ls. load_jobs demo_env (store_doc demo_state) = Inr ls \<and>
     map (renorm demo_norm) ls = map (\<lambda>e. renorm demo_norm (objs demo_state (snd e))) [(''j1'', 0)] \<and>
     jobs demo_state = filter (\<lambda>e. enabled (objs demo_state (snd e))) [(''j1'', 0)]"
proof (rule sched_durable[OF demo_iso_law demo_capped])
  show "sched_reachable demo_env None demo_state"
    unfolding demo_state_def by (rule demo_run_reachable)
  have "\<not> Option.is_none (persisted demo_state) \<and> the (persisted demo_state) = [(''j1'', 0)]" by code_simp
  then show "persisted demo_state = Some [(''j1'', 0)]" using not_is_none_the by force
qed

lemma sched_capacity_witness:
  "length (list_jobs demo_state) \<le> 10 \<and> list_all enabled (list_jobs demo_state) \<and>
   list_jobs demo_state \<noteq> []"
proof -
  have "sched_reachable demo_env None demo_state"
    unfolding demo_state_def by (rule demo_run_reachable)
  moreover have "list_jobs demo_state \<noteq> []"
  proof -
    have "length (list_jobs demo_state) = 1" by code_simp
    then show ?thesis by auto
  qed
  ultimately show ?thesis using sched_capacity[OF demo_iso_law demo_capped] by blast
qed

lemma sched_single_flight_witness:
  "distinct (map (\<lambda>t. job_id (objs demo_state (t_job t))) (tasks demo_state)) \<and>
   length (tasks demo_state) = 1"
proof -
  have "sched_reachable demo_env None demo_state"
    unfolding demo_state_def by (rule demo_run_reachable)
  moreover have "length (tasks demo_state) = 1" by code_simp
  ultimately show ?thesis using sched_single_flight[OF demo_iso_law demo_capped] by blast
qed

lemma not_isl_projr: "\<not> isl x \<Longrightarrow> x = Inr (projr x)"
  by (simp add: sum.collapse(2))

lemma recovery_keeps_records_witness:
  "\<exists>s'. load_and_recover demo_env True (utc_time 100) demo_state = Inr s' \<and>
     length (jobs s') = 1 \<and> (\<exists>p. persisted s' = Some p \<and>
       jobs s' = filter (\<lambda>e. enabled (objs s' (snd e))) p)"
proof -
  define s' where "s' = projr (load_and_recover demo_env True (utc_time 100) demo_state)"
  have "\<not> isl (load_and_recover demo_env True (utc_time 100) demo_state)" by code_simp
  then have r: "load_and_recover demo_env True (utc_time 100) demo_state = Inr s'"
    unfolding s'_def by (rule not_isl_projr)
  have "\<not> isl (load_jobs demo_env (store_doc demo_state))" by code_simp
  then have l: "load_jobs demo_env (store_doc demo_state) = Inr (projr (load_jobs demo_env (store_doc demo_state)))"
    by (rule not_isl_projr)
  have "length (jobs s') = 1" unfolding s'_def by code_simp
  then show ?thesis using r recovery_keeps_records[OF r l] by blast
qed

lemma finish_reschedules_witness:
  "\<exists>s' r'. finish_job demo_env True (utc_time 4) Succeeded 0 demo_state = (s', None) \<and>
     dict_get (current_persisted s') ''j1'' = Some r' \<and> run_count (objs s' r') = 1 \<and>
     4 < instant no_zones (fire_at (objs s' r'))"
proof -
  define s' where "s' = fst (finish_job demo_env True (utc_time 4) Succeeded 0 demo_state)"
  have o: "objs demo_state 0 = demo_job" by code_simp
  have "Option.is_none (snd (finish_job demo_env True (utc_time 4) Succeeded 0 demo_state))" by code_simp
  then have f: "finish_job demo_env True (utc_time 4) Succeeded 0 demo_state = (s', None)"
    by (simp add: s'_def prod_eq_iff Option.is_none_def)
  have j: "trigger demo_job = ''every''" "cron_expr demo_job = None" "interval_seconds demo_job = Some 60"
      "fire_at demo_job = utc_time 3" "job_id demo_job = ''j1''" "run_count demo_job = 0"
    by (simp_all add: demo_job_def)
  have "dict_get (jobs demo_state) ''j1'' = Some 0" by code_simp
  moreover have "\<not> stopping demo_state" "0 < next_obj demo_state" by code_simp+
  moreover have "dt_sub (env_db demo_env) (utc_time 4) (utc_time 3) = 1" by code_simp
  ultimately obtain r' where "dict_get (current_persisted s') (job_id (objs demo_state 0)) = Some r' \<and>
     run_count (objs s' r') = run_count (objs demo_state 0) + (if Succeeded = Succeeded then 1 else 0) \<and>
     instant (env_db demo_env) (utc_time 4) < instant (env_db demo_env) (fire_at (objs s' r')) \<and>
     instant (env_db demo_env) (fire_at (objs demo_state 0)) < instant (env_db demo_env) (fire_at (objs s' r')) \<and>
     instant (env_db demo_env) (fire_at (objs s' r')) \<le>
       max (instant (env_db demo_env) (utc_time 4)) (instant (env_db demo_env) (fire_at (objs demo_state 0)))
         + 60 * us_second + 1"
    using finish_reschedules[OF f]
    by (auto simp: o j fixed_zone_def utc_time_def max_wall_def us_day_def us_second_def)
  moreover have "instant (env_db demo_env) (utc_time 4) = 4" "env_db demo_env = no_zones"
    by (simp_all add: demo_env_def instant_def utc_time_def)
  ultimately show ?thesis using f by (auto simp: o j)
qed

lemma cancel_tool_removes_witness:
  "current_persisted (snd (cancel_tool demo_env [] ''j'' [] demo_state)) = [] \<and>
   (1::nat) = length (filter (\<lambda>p. prefix ''j'' (fst p)) (current_persisted demo_state))"
proof -
  define s' where "s' = snd (cancel_tool demo_env [] ''j'' [] demo_state)"
  have "case fst (cancel_tool demo_env [] ''j'' [] demo_state) of Cancelled_jobs n \<Rightarrow> n = 1 | _ \<Rightarrow> False"
    by code_simp
  then have c: "cancel_tool demo_env [] ''j'' [] demo_state = (Cancelled_jobs 1, s')"
    by (simp add: s'_def prod_eq_iff split: tool_reply.splits)
  have "current_persisted demo_state = [(''j1'', 0)]" by code_simp
  then show ?thesis using cancel_tool_removes[OF c] by (simp add: s'_def)
qed

text \<open>
  The tool accepts a recurring job of zero seconds and does not turn the refusal of the
  store into an error message: the exception leaves the tool.
\<close>

lemma zero_interval_raises:
  "fst (schedule_tool demo_env True (utc_time 4) ''UTC'' (utc_time 4) ''j9''
     [(''tier'', JStr ''instant''), (''trigger'', JStr ''every''), (''when'', JStr ''0s''),
      (''channel'', JStr ''tg''), (''chat_id'', JStr ''7''), (''message'', JStr ''hi'')]
     (demo_run [Run (utc_time 1) True])) = Raised (Schema Bad_interval)"
  by code_simp

end
