(* ===== verification/Notes_Broker.thy ===== *)
theory Notes_Broker
  imports Roxy_Prelude
begin

text \<open>
  The notes bridge (infra/notes_bridge/broker.py, auth.py, port.py, store.py): one
  authenticated connection to a Mac, and a propose/commit exchange per operation with an
  audit ledger that survives a restart.

  The operation lock admits one call of \<open>execute\<close> at a time, so the state holds one program
  counter (\<open>nb_pc\<close>, one constructor per await).  Connections are objects in a heap.  The
  transport (send succeeds or fails), time-outs, cancellation, the Mac's messages and the
  clock are inputs of the step function \<open>nb_exec\<close>.  \<open>history\<close> records what was sent,
  received, written and returned; no step reads it.  The texts of the \<open>detail\<close> fields are
  shortened to ASCII.
\<close>

subsection \<open>The audit ledger\<close>

record audit_row =
  row_bridge :: string
  row_epoch :: string
  row_action :: string
  row_document_hash :: string
  row_request_hash :: string
  row_content_hash :: string
  row_status :: string
  row_error :: string
  row_created :: string
  row_updated :: string

type_synonym ledger = "(string, audit_row) dict"

definition ledger_record :: "ledger \<Rightarrow> string \<Rightarrow> audit_row \<Rightarrow> ledger" where
  "ledger_record l k new = (case dict_get l k of
     None \<Rightarrow> dict_set l k new
   | Some old \<Rightarrow> dict_set l k (old\<lparr>row_epoch := row_epoch new, row_status := row_status new,
       row_error := row_error new, row_updated := row_updated new\<rparr>))"

definition ledger_get :: "ledger \<Rightarrow> string \<Rightarrow> audit_row option" where
  "ledger_get l k = dict_get l k"

definition recover_row :: "string \<Rightarrow> audit_row \<Rightarrow> audit_row" where
  "recover_row now r =
     (if row_status r = ''proposed'' \<or> row_status r = ''proposal_accepted''
      then r\<lparr>row_status := ''skipped_offline'', row_error := ''cloud_restarted_before_commit'',
        row_updated := now\<rparr>
      else if row_status r = ''commit_sent''
      then r\<lparr>row_status := ''outcome_unknown'', row_error := ''cloud_restarted_after_commit'',
        row_updated := now\<rparr>
      else r)"

definition recover_incomplete :: "string \<Rightarrow> ledger \<Rightarrow> (nat \<times> nat) \<times> ledger" where
  "recover_incomplete now l =
     ((length (filter (\<lambda>p. row_status (snd p) = ''proposed'' \<or> row_status (snd p) = ''proposal_accepted'') l),
       length (filter (\<lambda>p. row_status (snd p) = ''commit_sent'') l)),
      map (\<lambda>(k, r). (k, recover_row now r)) l)"

definition status_of :: "ledger \<Rightarrow> string \<Rightarrow> string option" where
  "status_of l k = map_option row_status (ledger_get l k)"

text \<open>What the broker relies on of its ledger.\<close>

locale audit_ledger =
  fixes record_row :: "'l \<Rightarrow> string \<Rightarrow> audit_row \<Rightarrow> 'l"
    and status :: "'l \<Rightarrow> string \<Rightarrow> string option"
    and recovered :: "string \<Rightarrow> 'l \<Rightarrow> 'l"
  assumes status_record: "status (record_row l k r) k' = (if k' = k then Some (row_status r) else status l k')"
    and recover_commit: "status l k = Some ''commit_sent'' \<Longrightarrow>
      status (recovered now l) k = Some ''outcome_unknown''"
    and recover_proposal: "status l k = Some ''proposed'' \<or> status l k = Some ''proposal_accepted'' \<Longrightarrow>
      status (recovered now l) k = Some ''skipped_offline''"
    and recover_settled: "status l k \<notin> Some ` {''proposed'', ''proposal_accepted'', ''commit_sent''} \<Longrightarrow>
      status (recovered now l) k = status l k"
begin

lemma recover_idem: "status (recovered now (recovered now' l)) k = status (recovered now' l) k"
proof -
  have "status (recovered now' l) k \<notin> Some ` {''proposed'', ''proposal_accepted'', ''commit_sent''}"
  proof (cases "status l k \<in> Some ` {''proposed'', ''proposal_accepted'', ''commit_sent''}")
    case True
    then show ?thesis using recover_commit[of l k now'] recover_proposal[of l k now'] by auto
  next
    case False
    then show ?thesis using recover_settled[of l k now'] by simp
  qed
  then show ?thesis by (rule recover_settled)
qed

lemma recover_keeps_boundary:
  "status (recovered now l) k = Some ''skipped_offline'' \<Longrightarrow> status l k \<noteq> Some ''commit_sent''"
  using recover_commit[of l k now] by auto

end

lemma get_recovered [simp]:
  "dict_get (snd (recover_incomplete now l)) k = map_option (recover_row now) (dict_get l k)"
  by (simp add: recover_incomplete_def dict_get_map_values)

lemma status_of_get: "status_of l k = map_option row_status (dict_get l k)"
  by (simp add: status_of_def ledger_get_def)

interpretation bridge_ledger: audit_ledger ledger_record status_of "\<lambda>now l. snd (recover_incomplete now l)"
proof unfold_locales
  show "status_of (ledger_record l k r) k' = (if k' = k then Some (row_status r) else status_of l k')" for l k r k'
    by (simp add: status_of_get ledger_record_def split: option.split)
  show "status_of l k = Some ''commit_sent'' \<Longrightarrow>
      status_of (snd (recover_incomplete now l)) k = Some ''outcome_unknown''" for l k now
    by (cases "dict_get l k") (auto simp: recover_row_def status_of_get)
  show "status_of l k = Some ''proposed'' \<or> status_of l k = Some ''proposal_accepted'' \<Longrightarrow>
      status_of (snd (recover_incomplete now l)) k = Some ''skipped_offline''" for l k now
    by (cases "dict_get l k") (auto simp: recover_row_def status_of_get)
  show "status_of l k \<notin> Some ` {''proposed'', ''proposal_accepted'', ''commit_sent''} \<Longrightarrow>
      status_of (snd (recover_incomplete now l)) k = status_of l k" for l k now
    by (cases "dict_get l k") (auto simp: recover_row_def status_of_get)
qed

subsection \<open>Operations, results and the configuration\<close>

record nb_operation =
  operation_id :: string
  action :: string
  account :: string
  folder :: string
  create_folder :: bool
  document_key :: string
  title :: string
  html :: string
  note_id :: string
  marker :: string

record nb_result =
  status :: string
  res_operation :: string
  res_note :: string
  res_folder :: string
  res_error :: string
  res_detail :: string

text \<open>Hashes, the text of a JSON value, its size in bytes and Python's \<open>int\<close> of it are
  parameters, as is the configuration.\<close>

record nb_cfg =
  bridge_id :: string
  token :: string
  offline_after :: int
  max_bytes :: int
  size_of :: "json \<Rightarrow> int"
  hash_of :: "json \<Rightarrow> string"
  sha256 :: "string \<Rightarrow> string"
  hmac_of :: "string \<Rightarrow> json \<Rightarrow> string"
  str_of :: "json \<Rightarrow> string"
  int_of :: "json \<Rightarrow> int option"

definition operation_json :: "nb_operation \<Rightarrow> json" where
  "operation_json op = JObj
     [(''operation_id'', JStr (operation_id op)), (''action'', JStr (action op)),
      (''account'', JStr (account op)), (''folder'', JStr (folder op)),
      (''create_folder_if_missing'', JBool (create_folder op)),
      (''document_key'', JStr (document_key op)), (''title'', JStr (title op)),
      (''html'', JStr (html op)), (''note_id'', JStr (note_id op)), (''marker'', JStr (marker op))]"

definition size_ok :: "nb_cfg \<Rightarrow> json \<Rightarrow> bool" where
  "size_ok cfg m \<longleftrightarrow> size_of cfg m \<le> max_bytes cfg"

definition validate_operation :: "nb_cfg \<Rightarrow> nb_operation \<Rightarrow> bool" where
  "validate_operation cfg op \<longleftrightarrow>
     operation_id op \<noteq> [] \<and> length (operation_id op) \<le> 128 \<and>
     \<not> (action op = ''create'' \<and> (title op = [] \<or> html op = [])) \<and>
     \<not> (action op = ''append'' \<and> (note_id op = [] \<or> html op = [])) \<and>
     \<not> (action op = ''find'' \<and> marker op = []) \<and>
     size_ok cfg (JObj [(''operation'', operation_json op)])"

definition hash_text :: "nb_cfg \<Rightarrow> string \<Rightarrow> string" where
  "hash_text cfg s = (if s = [] then [] else sha256 cfg s)"

subsection \<open>Messages\<close>

type_synonym message = "(string, json) dict"

definition or_text :: "nb_cfg \<Rightarrow> message \<Rightarrow> string \<Rightarrow> string \<Rightarrow> string" where
  "or_text cfg m k dflt = (let v = json_field m k in
     if truthy v then (case v of JStr s \<Rightarrow> s | _ \<Rightarrow> str_of cfg v) else dflt)"

definition unsigned :: "message \<Rightarrow> message" where
  "unsigned m = filter (\<lambda>p. fst p \<noteq> ''signature'') m"

definition sign_message :: "nb_cfg \<Rightarrow> message \<Rightarrow> message" where
  "sign_message cfg m = unsigned m @ [(''signature'', JStr (hmac_of cfg (token cfg) (JObj (unsigned m))))]"

definition verify_message :: "nb_cfg \<Rightarrow> message \<Rightarrow> bool" where
  "verify_message cfg m \<longleftrightarrow> (let supplied = or_text cfg m ''signature'' [] in
     supplied \<noteq> [] \<and> supplied = hmac_of cfg (token cfg) (JObj (unsigned m)))"

text \<open>The two checks of the handshake: \<open>client_nonce\<close> on success.\<close>

definition check_hello :: "nb_cfg \<Rightarrow> message \<Rightarrow> string option" where
  "check_hello cfg m =
     (if \<not> size_ok cfg (JObj m) \<or> json_field m ''type'' \<noteq> JStr ''hello''
         \<or> json_field m ''protocol'' \<notin> {JInt 1, JBool True, JFloat ''1.0''}
         \<or> or_text cfg m ''bridge_id'' [] \<noteq> bridge_id cfg then None
      else let nonce = or_text cfg m ''client_nonce'' [] in
        if length nonce < 24 then None else Some nonce)"

definition check_proof :: "nb_cfg \<Rightarrow> string \<Rightarrow> string \<Rightarrow> string \<Rightarrow> message \<Rightarrow> bool" where
  "check_proof cfg nonce challenge server_nonce m \<longleftrightarrow>
     size_ok cfg (JObj m) \<and> verify_message cfg m \<and>
     json_field m ''type'' = JStr ''proof'' \<and> json_field m ''bridge_id'' = JStr (bridge_id cfg) \<and>
     json_field m ''client_nonce'' = JStr nonce \<and> json_field m ''challenge_id'' = JStr challenge \<and>
     json_field m ''server_nonce'' = JStr server_nonce"

subsection \<open>Connections\<close>

datatype accept_future = Acc_open | Acc_yes | Acc_no string string | Acc_lost | Acc_cancelled
datatype result_future = Res_open | Res_got nb_result | Res_lost | Res_cancelled

record nb_pending =
  p_hash :: string
  accepted :: accept_future
  result :: result_future
  commit_sent :: bool

datatype conn_pc = Ready_sending | Receiving | Gone

record nb_conn =
  epoch :: string
  last_heartbeat :: int
  notes_ready :: bool
  permissions_ready :: bool
  closed :: bool
  recv_sequence :: int
  send_sequence :: int
  pending :: "(string, nb_pending) dict"
  conn_pc :: conn_pc

datatype frame = Ready_frame | Propose string string | Commit string string | Abort string string

text \<open>An entry of the history names the connection; those of a call of \<open>execute\<close> its run.\<close>

datatype nb_event =
    Started nat string
  | Sent nat int frame
  | Received nat int
  | Accepted nat string string
  | Wrote nat string string
  | Returned nat nb_result
  | Raised_in nat

datatype nb_pc =
    At_propose | At_proposed | At_accept | At_rejected nb_result | At_accepted
  | At_commit_row | At_commit | At_result | At_abort | At_final nb_result

record nb_run =
  r_id :: nat
  r_op :: nb_operation
  r_hash :: string
  r_conn :: "nat option"
  r_pc :: nb_pc

record nb_sys =
  conns :: "nat \<Rightarrow> nb_conn"
  next_conn :: nat
  active :: "nat option"
  shut :: bool
  rows :: ledger
  run :: "nb_run option"
  next_run :: nat
  history :: "nb_event list"

definition log :: "nb_event \<Rightarrow> nb_sys \<Rightarrow> nb_sys" where
  "log e s = s\<lparr>history := history s @ [e]\<rparr>"

definition upd_conn :: "nat \<Rightarrow> (nb_conn \<Rightarrow> nb_conn) \<Rightarrow> nb_sys \<Rightarrow> nb_sys" where
  "upd_conn c f s = s\<lparr>conns := (conns s)(c := f (conns s c))\<rparr>"

definition new_conn :: "string \<Rightarrow> int \<Rightarrow> nb_conn" where
  "new_conn e now = \<lparr>epoch = e, last_heartbeat = now, notes_ready = False, permissions_ready = False,
     closed = False, recv_sequence = 0, send_sequence = 0, pending = [], conn_pc = Ready_sending\<rparr>"

definition new_broker :: "string \<Rightarrow> ledger \<Rightarrow> nb_sys" where
  "new_broker now l = \<lparr>conns = (\<lambda>c. new_conn [] 0), next_conn = 0, active = None, shut = False,
     rows = snd (recover_incomplete now l), run = None, next_run = 0, history = []\<rparr>"

text \<open>\<open>_ActiveConnection.send\<close> up to its await: \<open>None\<close> is \<open>_BridgeDisconnected\<close>.\<close>

definition begin_send :: "nat \<Rightarrow> frame \<Rightarrow> nb_sys \<Rightarrow> nb_sys option" where
  "begin_send c f s = (if closed (conns s c) then None
     else let n = send_sequence (conns s c) + 1 in
       Some (log (Sent c n f) (upd_conn c (\<lambda>k. k\<lparr>send_sequence := n\<rparr>) s)))"

definition fail_entry :: "nb_pending \<Rightarrow> nb_pending" where
  "fail_entry p = (if commit_sent p
     then (if result p = Res_open then p\<lparr>result := Res_lost\<rparr> else p)
     else (if accepted p = Acc_open then p\<lparr>accepted := Acc_lost\<rparr> else p))"

definition fail_pending :: "nb_conn \<Rightarrow> nb_conn" where
  "fail_pending k = k\<lparr>closed := True, pending := map (\<lambda>(o', p). (o', fail_entry p)) (pending k)\<rparr>"

definition is_online :: "nb_cfg \<Rightarrow> int \<Rightarrow> nb_sys \<Rightarrow> bool" where
  "is_online cfg now s \<longleftrightarrow> \<not> shut s \<and> (case active s of None \<Rightarrow> False
     | Some c \<Rightarrow> (let k = conns s c in \<not> closed k \<and> notes_ready k \<and> permissions_ready k \<and>
         now - last_heartbeat k \<le> offline_after cfg))"

subsection \<open>Messages from the Mac\<close>

definition result_statuses :: "string list" where
  "result_statuses = [''committed'', ''not_found'', ''operation_rejected'', ''unit_failed'', ''outcome_unknown'']"

definition set_pending :: "nat \<Rightarrow> string \<Rightarrow> nb_pending \<Rightarrow> nb_sys \<Rightarrow> nb_sys" where
  "set_pending c k p s = upd_conn c (\<lambda>x. x\<lparr>pending := dict_set (pending x) k p\<rparr>) s"

text \<open>\<open>_handle_authenticated_message\<close> after the epoch and sequence checks; \<open>None\<close> is a
  \<open>ValueError\<close>.\<close>

definition handle_reply :: "nb_cfg \<Rightarrow> nat \<Rightarrow> message \<Rightarrow> nb_sys \<Rightarrow> nb_sys option" where
  "handle_reply cfg c m s =
     (let kind = or_text cfg m ''type'' []; k = or_text cfg m ''operation_id'' [] in
      case dict_get (pending (conns s c)) k of
        None \<Rightarrow> None
      | Some p \<Rightarrow>
          if or_text cfg m ''request_hash'' [] \<noteq> p_hash p then None
          else if kind = ''proposal_accepted'' then
            Some (if accepted p = Acc_open
                  then log (Accepted c k (p_hash p)) (set_pending c k (p\<lparr>accepted := Acc_yes\<rparr>) s) else s)
          else if kind = ''proposal_rejected'' then
            Some (if accepted p = Acc_open
                  then set_pending c k (p\<lparr>accepted := Acc_no
                    (take 128 (or_text cfg m ''error_code'' ''proposal_rejected''))
                    (take 2000 (or_text cfg m ''detail'' ''Mac proposal''))\<rparr>) s else s)
          else if kind \<noteq> ''result'' \<or> \<not> commit_sent p then None
          else let st = or_text cfg m ''status'' [] in
            if st \<notin> set result_statuses then None
            else Some (if result p = Res_open
              then set_pending c k (p\<lparr>result := Res_got \<lparr>status = st, res_operation = k,
                res_note = take 512 (or_text cfg m ''note_id'' []),
                res_folder = take 512 (or_text cfg m ''folder_id'' []),
                res_error = take 128 (or_text cfg m ''error_code'' []),
                res_detail = take 2000 (or_text cfg m ''detail'' [])\<rparr>\<rparr>) s else s))"

definition handle_message :: "nb_cfg \<Rightarrow> int \<Rightarrow> nat \<Rightarrow> message \<Rightarrow> nb_sys \<Rightarrow> nb_sys option" where
  "handle_message cfg now c m s0 =
     (if json_field m ''bridge_id'' \<noteq> JStr (bridge_id cfg)
         \<or> json_field m ''connection_epoch'' \<noteq> JStr (epoch (conns s0 c)) then None
      else let v = json_field m ''sequence'' in
        case (if truthy v then int_of cfg v else Some 0) of None \<Rightarrow> None
        | Some n \<Rightarrow>
            if n \<le> recv_sequence (conns s0 c) then None
            else let s = log (Received c n) (upd_conn c (\<lambda>x. x\<lparr>recv_sequence := n\<rparr>) s0) in
              if or_text cfg m ''type'' [] = ''heartbeat'' then
                Some (upd_conn c (\<lambda>x. x\<lparr>last_heartbeat := now,
                  notes_ready := truthy (json_field m ''notes_ready''),
                  permissions_ready := truthy (json_field m ''permissions_ready'')\<rparr>) s)
              else handle_reply cfg c m s)"

text \<open>The \<open>finally\<close> block of \<open>handle_websocket\<close>.\<close>

definition drop_conn :: "nat \<Rightarrow> nb_sys \<Rightarrow> nb_sys" where
  "drop_conn c s = (let s' = upd_conn c (\<lambda>x. (fail_pending x)\<lparr>conn_pc := Gone\<rparr>) s in
     if active s' = Some c then s'\<lparr>active := None\<rparr> else s')"

definition connect :: "nb_cfg \<Rightarrow> message \<Rightarrow> string \<Rightarrow> string \<Rightarrow> message \<Rightarrow> string \<Rightarrow> int \<Rightarrow> nb_sys \<Rightarrow> nb_sys" where
  "connect cfg hello challenge server_nonce proof_msg e now s =
     (case check_hello cfg hello of None \<Rightarrow> s
      | Some nonce \<Rightarrow>
          if \<not> check_proof cfg nonce challenge server_nonce proof_msg then s
          else let c = next_conn s;
                 s1 = s\<lparr>conns := (conns s)(c := new_conn e now), next_conn := c + 1, active := Some c\<rparr>;
                 s2 = (case active s of None \<Rightarrow> s1 | Some old \<Rightarrow> upd_conn old fail_pending s1) in
            (case begin_send c Ready_frame s2 of None \<Rightarrow> drop_conn c s2 | Some s3 \<Rightarrow> s3))"

definition ready_done :: "nat \<Rightarrow> bool \<Rightarrow> nb_sys \<Rightarrow> nb_sys" where
  "ready_done c ok s = (if conn_pc (conns s c) \<noteq> Ready_sending \<or> c \<ge> next_conn s then s
     else if \<not> ok then drop_conn c s
     else if shut s then drop_conn c s
     else upd_conn c (\<lambda>x. x\<lparr>conn_pc := Receiving\<rparr>) s)"

definition receive :: "nb_cfg \<Rightarrow> int \<Rightarrow> nat \<Rightarrow> message \<Rightarrow> nb_sys \<Rightarrow> nb_sys" where
  "receive cfg now c m s =
     (if conn_pc (conns s c) \<noteq> Receiving \<or> c \<ge> next_conn s then s
      else if \<not> size_ok cfg (JObj m) \<or> \<not> verify_message cfg m then drop_conn c s
      else case handle_message cfg now c m s of
        None \<Rightarrow> (let v = json_field m ''sequence'';
             n = (case (if truthy v then int_of cfg v else Some 0) of Some n \<Rightarrow> n | None \<Rightarrow> 0) in
           drop_conn c (if json_field m ''bridge_id'' = JStr (bridge_id cfg) \<and>
               json_field m ''connection_epoch'' = JStr (epoch (conns s c)) \<and>
               n > recv_sequence (conns s c)
             then upd_conn c (\<lambda>x. x\<lparr>recv_sequence := n\<rparr>) s else s))
      | Some s' \<Rightarrow> if shut s' then drop_conn c s' else s')"

definition close_broker :: "nb_sys \<Rightarrow> nb_sys" where
  "close_broker s = (let s' = s\<lparr>shut := True, active := None\<rparr> in
     case active s of None \<Rightarrow> s' | Some c \<Rightarrow> upd_conn c fail_pending s')"

subsection \<open>One call of \<open>execute\<close>\<close>

definition plain_result :: "string \<Rightarrow> string \<Rightarrow> string \<Rightarrow> string \<Rightarrow> nb_result" where
  "plain_result st k code detail = \<lparr>status = st, res_operation = k, res_note = [], res_folder = [],
     res_error = code, res_detail = detail\<rparr>"

definition skipped_result :: "string \<Rightarrow> nb_result" where
  "skipped_result k = plain_result ''skipped_offline'' k ''mac_bridge_disconnected_before_commit''
     ''commit not sent''"

definition unknown_result :: "string \<Rightarrow> nb_result" where
  "unknown_result k = plain_result ''outcome_unknown'' k ''mac_bridge_commit_outcome_unknown''
     ''commit sent without a trusted receipt''"

definition offline_result :: "string \<Rightarrow> nb_result" where
  "offline_result k = plain_result ''skipped_offline'' k ''mac_notes_bridge_offline'' ''no live connection''"

definition at :: "nb_run \<Rightarrow> nb_pc \<Rightarrow> nb_sys \<Rightarrow> nb_sys" where
  "at r pc s = s\<lparr>run := Some (r\<lparr>r_pc := pc\<rparr>)\<rparr>"

definition terminal_before_commit :: "nb_run \<Rightarrow> nat \<Rightarrow> nb_sys \<Rightarrow> nb_sys" where
  "terminal_before_commit r c s = (let k = operation_id (r_op r) in
     if \<not> closed (conns s c) \<and> active s = Some c then
       (case begin_send c (Abort k (r_hash r)) s of
          Some s' \<Rightarrow> at r At_abort s'
        | None \<Rightarrow> at r (At_final (skipped_result k)) s)
     else at r (At_final (skipped_result k)) s)"

definition start_run :: "nb_cfg \<Rightarrow> int \<Rightarrow> nb_operation \<Rightarrow> nb_sys \<Rightarrow> nb_sys" where
  "start_run cfg now op s0 =
     (let k = operation_id op; h = hash_of cfg (operation_json op);
          s = log (Started (next_run s0) k) (s0\<lparr>next_run := next_run s0 + 1\<rparr>);
          r = \<lparr>r_id = next_run s0, r_op = op, r_hash = h, r_conn = None, r_pc = At_final (offline_result k)\<rparr> in
      case active s of
        None \<Rightarrow> s\<lparr>run := Some r\<rparr>
      | Some c \<Rightarrow>
          if \<not> is_online cfg now s then s\<lparr>run := Some r\<rparr>
          else let r' = r\<lparr>r_conn := Some c\<rparr>;
              s1 = set_pending c k \<lparr>p_hash = h, accepted = Acc_open, result = Res_open, commit_sent = False\<rparr> s in
            (case begin_send c (Propose k h) s1 of
               Some s2 \<Rightarrow> at r' At_propose s2
             | None \<Rightarrow> terminal_before_commit r' c s1))"

definition write_row :: "nb_cfg \<Rightarrow> string \<Rightarrow> nb_run \<Rightarrow> string \<Rightarrow> string \<Rightarrow> nb_sys \<Rightarrow> nb_sys" where
  "write_row cfg text r st err s =
     (let k = operation_id (r_op r);
          row = \<lparr>row_bridge = bridge_id cfg,
            row_epoch = (case r_conn r of None \<Rightarrow> [] | Some c \<Rightarrow> epoch (conns s c)),
            row_action = action (r_op r), row_document_hash = hash_text cfg (document_key (r_op r)),
            row_request_hash = r_hash r, row_content_hash = hash_text cfg (html (r_op r)),
            row_status = st, row_error = err, row_created = text, row_updated = text\<rparr> in
      log (Wrote (r_id r) k st) (s\<lparr>rows := ledger_record (rows s) k row\<rparr>))"

text \<open>The row a call is waiting to have written, if any.\<close>

definition row_due :: "nb_pc \<Rightarrow> (string \<times> string) option" where
  "row_due pc = (case pc of
     At_proposed \<Rightarrow> Some (''proposed'', []) | At_accepted \<Rightarrow> Some (''proposal_accepted'', [])
   | At_commit_row \<Rightarrow> Some (''commit_sent'', [])
   | At_rejected res \<Rightarrow> Some (status res, res_error res) | At_final res \<Rightarrow> Some (status res, res_error res)
   | _ \<Rightarrow> None)"

text \<open>The \<open>finally\<close> block of \<open>execute\<close>.\<close>

definition end_run :: "nb_run \<Rightarrow> nb_sys \<Rightarrow> nb_sys" where
  "end_run r s = (case r_conn r of None \<Rightarrow> s
     | Some c \<Rightarrow> upd_conn c (\<lambda>x. x\<lparr>pending := dict_del (pending x) (operation_id (r_op r))\<rparr>) s)\<lparr>run := None\<rparr>"

definition raise_run :: "nb_run \<Rightarrow> nb_sys \<Rightarrow> nb_sys" where
  "raise_run r s = log (Raised_in (r_id r)) (end_run r s)"

definition my_pending :: "nb_run \<Rightarrow> nb_sys \<Rightarrow> nb_pending option" where
  "my_pending r s = (case r_conn r of None \<Rightarrow> None
     | Some c \<Rightarrow> dict_get (pending (conns s c)) (operation_id (r_op r)))"

definition upd_pending :: "nb_run \<Rightarrow> (nb_pending \<Rightarrow> nb_pending) \<Rightarrow> nb_sys \<Rightarrow> nb_sys" where
  "upd_pending r f s = (case (r_conn r, my_pending r s) of
     (Some c, Some p) \<Rightarrow> set_pending c (operation_id (r_op r)) (f p) s | _ \<Rightarrow> s)"

text \<open>What follows a row that was written.\<close>

definition after_row :: "nb_cfg \<Rightarrow> int \<Rightarrow> nb_run \<Rightarrow> nb_sys \<Rightarrow> nb_sys" where
  "after_row cfg now r s = (let k = operation_id (r_op r) in
     case (r_pc r, r_conn r) of
       (At_proposed, _) \<Rightarrow> at r At_accept s
     | (At_accepted, Some c) \<Rightarrow>
         if closed (conns s c) \<or> active s \<noteq> Some c \<or> \<not> is_online cfg now s
         then terminal_before_commit r c s
         else at r At_commit_row (upd_pending r (\<lambda>p. p\<lparr>commit_sent := True\<rparr>) s)
     | (At_commit_row, Some c) \<Rightarrow>
         (case begin_send c (Commit k (r_hash r)) s of
            Some s' \<Rightarrow> at r At_commit s'
          | None \<Rightarrow> at r (At_final (unknown_result k)) s)
     | (At_rejected res, _) \<Rightarrow> end_run r (log (Returned (r_id r) res) s)
     | (At_final res, _) \<Rightarrow> end_run r (log (Returned (r_id r) res) s)
     | _ \<Rightarrow> s)"

definition after_send :: "nb_run \<Rightarrow> bool \<Rightarrow> nb_sys \<Rightarrow> nb_sys" where
  "after_send r ok s0 = (let k = operation_id (r_op r) in
     case r_conn r of None \<Rightarrow> s0
     | Some c \<Rightarrow>
        let s = (if ok then s0 else upd_conn c (\<lambda>x. x\<lparr>closed := True\<rparr>) s0) in
        (case r_pc r of
           At_propose \<Rightarrow> if ok then at r At_proposed s else terminal_before_commit r c s
         | At_commit \<Rightarrow> if ok then at r At_result s else at r (At_final (unknown_result k)) s
         | At_abort \<Rightarrow> at r (At_final (skipped_result k)) s
         | _ \<Rightarrow> s0))"

text \<open>A future the call waits for is done (\<open>wake\<close>) or its time is up.\<close>

definition wake :: "nb_run \<Rightarrow> nb_sys \<Rightarrow> nb_sys" where
  "wake r s = (let k = operation_id (r_op r) in
     case (r_pc r, r_conn r, my_pending r s) of
       (At_accept, Some c, Some p) \<Rightarrow> (case accepted p of
          Acc_yes \<Rightarrow> at r At_accepted s
        | Acc_no code detail \<Rightarrow> at r (At_rejected (plain_result ''operation_rejected'' k code detail)) s
        | Acc_lost \<Rightarrow> terminal_before_commit r c s
        | _ \<Rightarrow> s)
     | (At_result, Some c, Some p) \<Rightarrow> (case result p of
          Res_got res \<Rightarrow> at r (At_final res) s
        | Res_lost \<Rightarrow> at r (At_final (unknown_result k)) s
        | _ \<Rightarrow> s)
     | _ \<Rightarrow> s)"

definition time_out :: "nb_run \<Rightarrow> nb_sys \<Rightarrow> nb_sys" where
  "time_out r s = (case (r_pc r, r_conn r, my_pending r s) of
       (At_accept, Some c, Some p) \<Rightarrow> if accepted p \<noteq> Acc_open then s
          else terminal_before_commit r c (upd_pending r (\<lambda>p. p\<lparr>accepted := Acc_cancelled\<rparr>) s)
     | (At_result, Some c, Some p) \<Rightarrow> if result p \<noteq> Res_open then s
          else at r (At_final (unknown_result (operation_id (r_op r))))
                 (upd_pending r (\<lambda>p. p\<lparr>result := Res_cancelled\<rparr>) s)
     | _ \<Rightarrow> s)"

subsection \<open>Steps\<close>

datatype nb_input =
    Connect message string string message string int
  | Ready_done nat bool
  | Receive nat message int
  | Lost nat
  | Close
  | Execute nb_operation int
  | Send_done bool
  | Row_done string int
  | Row_failed
  | Wake
  | Time_out
  | Cancel_run string bool

definition on_run :: "nb_sys \<Rightarrow> (nb_run \<Rightarrow> nb_sys) \<Rightarrow> nb_sys" where
  "on_run s f = (case run s of None \<Rightarrow> s | Some r \<Rightarrow> f r)"

definition row_done :: "nb_cfg \<Rightarrow> string \<Rightarrow> int \<Rightarrow> nb_run \<Rightarrow> nb_sys \<Rightarrow> nb_sys" where
  "row_done cfg text now r s = (case row_due (r_pc r) of None \<Rightarrow> s
     | Some (st, err) \<Rightarrow> after_row cfg now r (write_row cfg text r st err s))"

definition cancel_run :: "nb_cfg \<Rightarrow> string \<Rightarrow> bool \<Rightarrow> nb_run \<Rightarrow> nb_sys \<Rightarrow> nb_sys" where
  "cancel_run cfg text applied r s = raise_run r (case row_due (r_pc r) of
     Some (st, err) \<Rightarrow> if applied then write_row cfg text r st err s else s | None \<Rightarrow> s)"

definition nb_exec :: "nb_cfg \<Rightarrow> nb_input \<Rightarrow> nb_sys \<Rightarrow> nb_sys" where
  "nb_exec cfg i s = (case i of
     Connect hello ch sn pr e now \<Rightarrow> connect cfg hello ch sn pr e now s
   | Ready_done c ok \<Rightarrow> ready_done c ok s
   | Receive c m now \<Rightarrow> receive cfg now c m s
   | Lost c \<Rightarrow> if c < next_conn s \<and> conn_pc (conns s c) \<noteq> Gone then drop_conn c s else s
   | Close \<Rightarrow> close_broker s
   | Execute op now \<Rightarrow> if run s = None \<and> validate_operation cfg op then start_run cfg now op s else s
   | Send_done ok \<Rightarrow> on_run s (\<lambda>r. after_send r ok s)
   | Row_done text now \<Rightarrow> on_run s (\<lambda>r. row_done cfg text now r s)
   | Row_failed \<Rightarrow> on_run s (\<lambda>r. if row_due (r_pc r) = None then s else raise_run r s)
   | Wake \<Rightarrow> on_run s (\<lambda>r. wake r s)
   | Time_out \<Rightarrow> on_run s (\<lambda>r. time_out r s)
   | Cancel_run text applied \<Rightarrow> on_run s (\<lambda>r. cancel_run cfg text applied r s))"

inductive nb_reachable :: "nb_cfg \<Rightarrow> nb_sys \<Rightarrow> bool" for cfg where
  nb_start: "nb_reachable cfg (new_broker now l)"
| nb_step: "nb_reachable cfg s \<Longrightarrow> nb_reachable cfg (nb_exec cfg i s)"

subsection \<open>What a history may look like\<close>

fun is_start :: "nb_event \<Rightarrow> bool" where
  "is_start (Started n k) = True"
| "is_start e = False"

text \<open>The entries since the last call of \<open>execute\<close> began, the latest first.\<close>

definition this_run :: "nb_event list \<Rightarrow> nb_event list" where
  "this_run h = takeWhile (\<lambda>e. \<not> is_start e) (rev h)"

definition last_start :: "nb_event list \<Rightarrow> string option" where
  "last_start h = (case dropWhile (\<lambda>e. \<not> is_start e) (rev h) of
     Started n k # es \<Rightarrow> Some k | _ \<Rightarrow> None)"

definition is_commit :: "nb_event \<Rightarrow> bool" where
  "is_commit e = (case e of Sent c n f \<Rightarrow> (case f of Commit k h \<Rightarrow> True | _ \<Rightarrow> False) | _ \<Rightarrow> False)"

definition no_commit :: "nb_event list \<Rightarrow> bool" where
  "no_commit h \<longleftrightarrow> list_all (\<lambda>e. \<not> is_commit e) (this_run h)"

definition before_settled :: "string list" where
  "before_settled = [''proposed'', ''proposal_accepted'', ''commit_sent'']"

text \<open>A commit frame for the operation went out in its latest run and no final row was written.\<close>

definition commit_flag :: "string \<Rightarrow> bool \<Rightarrow> nb_event \<Rightarrow> bool" where
  "commit_flag k b e = (case e of
     Started n k' \<Rightarrow> if k' = k then False else b
   | Sent c n f \<Rightarrow> (case f of Commit k' h \<Rightarrow> k' = k \<or> b | _ \<Rightarrow> b)
   | Wrote n k' st \<Rightarrow> if k' = k \<and> st \<notin> set before_settled then False else b
   | _ \<Rightarrow> b)"

definition commit_open :: "string \<Rightarrow> nb_event list \<Rightarrow> bool" where
  "commit_open k h = foldl (commit_flag k) False h"

definition ok_at :: "nb_event list \<Rightarrow> nb_event \<Rightarrow> bool" where
  "ok_at pre e = (case e of
     Sent c n f \<Rightarrow> (case f of Commit k h \<Rightarrow> Accepted c k h \<in> set (this_run pre) \<and> no_commit pre
                   | _ \<Rightarrow> True)
   | Returned n res \<Rightarrow> (status res = ''skipped_offline'' \<longrightarrow> no_commit pre)
   | _ \<Rightarrow> True)"

definition hist_ok :: "nb_event list \<Rightarrow> bool" where
  "hist_ok h \<longleftrightarrow> (\<forall>pre e post. h = pre @ e # post \<longrightarrow> ok_at pre e)"

definition received :: "nat \<Rightarrow> nb_event list \<Rightarrow> int list" where
  "received c h = concat (map (\<lambda>e. case e of Received c' n \<Rightarrow> if c' = c then [n] else [] | _ \<Rightarrow> []) h)"

definition sent :: "nat \<Rightarrow> nb_event list \<Rightarrow> int list" where
  "sent c h = concat (map (\<lambda>e. case e of Sent c' n f \<Rightarrow> if c' = c then [n] else [] | _ \<Rightarrow> []) h)"

lemma this_run_snoc [simp]:
  "this_run (h @ [e]) = (if is_start e then [] else e # this_run h)"
  by (simp add: this_run_def)

lemma last_start_snoc: "last_start (h @ [e]) = (case e of Started n k \<Rightarrow> Some k | _ \<Rightarrow> last_start h)"
  by (cases e) (simp_all add: last_start_def)

lemma commit_open_snoc: "commit_open k (h @ [e]) = commit_flag k (commit_open k h) e"
  by (simp add: commit_open_def)

lemma no_commit_snoc: "no_commit (h @ [e]) \<longleftrightarrow> is_start e \<or> \<not> is_commit e \<and> no_commit h"
  by (simp add: no_commit_def)

lemma hist_ok_snoc: "hist_ok (h @ [e]) \<longleftrightarrow> hist_ok h \<and> ok_at h e"
proof
  assume a: "hist_ok (h @ [e])"
  then have "ok_at h e" by (auto simp: hist_ok_def)
  moreover have "hist_ok h" unfolding hist_ok_def
  proof (intro allI impI)
    fix pre e' post assume "h = pre @ e' # post"
    then have "h @ [e] = pre @ e' # (post @ [e])" by simp
    then show "ok_at pre e'" using a unfolding hist_ok_def by blast
  qed
  ultimately show "hist_ok h \<and> ok_at h e" by blast
next
  assume a: "hist_ok h \<and> ok_at h e"
  show "hist_ok (h @ [e])" unfolding hist_ok_def
  proof (intro allI impI)
    fix pre e' post assume s: "h @ [e] = pre @ e' # post"
    show "ok_at pre e'"
    proof (cases "post = []")
      case True
      then show ?thesis using s a by simp
    next
      case False
      then obtain q x where "post = q @ [x]" by (cases post rule: rev_cases) auto
      then have "h = pre @ e' # q" using s by simp
      then show ?thesis using a unfolding hist_ok_def by blast
    qed
  qed
qed

lemma received_snoc: "received c (h @ [e]) =
  received c h @ (case e of Received c' n \<Rightarrow> if c' = c then [n] else [] | _ \<Rightarrow> [])"
  by (simp add: received_def)

lemma sent_snoc: "sent c (h @ [e]) =
  sent c h @ (case e of Sent c' n f \<Rightarrow> if c' = c then [n] else [] | _ \<Rightarrow> [])"
  by (simp add: sent_def)

lemmas snoc_simps = last_start_snoc commit_open_snoc no_commit_snoc hist_ok_snoc received_snoc sent_snoc

lemma no_commit_closed: "last_start h = Some k \<Longrightarrow> no_commit h \<Longrightarrow> \<not> commit_open k h"
proof (induction h rule: rev_induct)
  case Nil
  then show ?case by (simp add: commit_open_def)
next
  case (snoc e h)
  then show ?case
    by (cases e) (auto simp: snoc_simps commit_flag_def is_commit_def split: frame.splits if_splits)
qed

subsection \<open>The invariant of the broker\<close>

definition conn_inv :: "nb_sys \<Rightarrow> bool" where
  "conn_inv s \<longleftrightarrow> (\<forall>c. active s = Some c \<longrightarrow> c < next_conn s) \<and>
     (\<forall>c < next_conn s. active s \<noteq> Some c \<longrightarrow> closed (conns s c))"

definition seq_inv :: "nb_sys \<Rightarrow> bool" where
  "seq_inv s \<longleftrightarrow> (\<forall>c. sorted_wrt (<) (received c (history s)) \<and> sorted_wrt (<) (sent c (history s)) \<and>
     (c < next_conn s \<or> received c (history s) = [] \<and> sent c (history s) = []) \<and>
     (\<forall>n \<in> set (received c (history s)). n \<le> recv_sequence (conns s c)) \<and>
     (\<forall>n \<in> set (sent c (history s)). n \<le> send_sequence (conns s c)))"

definition pc_ok :: "nb_event list \<Rightarrow> nb_pending \<Rightarrow> nb_pc \<Rightarrow> bool" where
  "pc_ok h p pc = (case pc of
     At_propose \<Rightarrow> no_commit h | At_proposed \<Rightarrow> no_commit h | At_accept \<Rightarrow> no_commit h
   | At_abort \<Rightarrow> no_commit h
   | At_rejected res \<Rightarrow> no_commit h \<and> status res = ''operation_rejected''
   | At_accepted \<Rightarrow> no_commit h \<and> accepted p = Acc_yes
   | At_commit_row \<Rightarrow> no_commit h \<and> accepted p = Acc_yes
   | At_commit \<Rightarrow> True | At_result \<Rightarrow> True
   | At_final res \<Rightarrow> status res \<in> set result_statuses \<or> status res = ''skipped_offline'' \<and> no_commit h)"

definition pend_ok :: "nb_event list \<Rightarrow> nat \<Rightarrow> nb_run \<Rightarrow> nb_pending \<Rightarrow> bool" where
  "pend_ok h c r p \<longleftrightarrow> p_hash p = r_hash r \<and>
     (accepted p = Acc_yes \<longrightarrow> Accepted c (operation_id (r_op r)) (r_hash r) \<in> set (this_run h)) \<and>
     (\<forall>res. result p = Res_got res \<longrightarrow> status res \<in> set result_statuses) \<and> pc_ok h p (r_pc r)"

definition run_inv :: "nb_sys \<Rightarrow> bool" where
  "run_inv s = (case run s of None \<Rightarrow> (\<forall>c. pending (conns s c) = [])
   | Some r \<Rightarrow> last_start (history s) = Some (operation_id (r_op r)) \<and>
       (\<forall>c. r_conn r \<noteq> Some c \<longrightarrow> pending (conns s c) = []) \<and>
       (case r_conn r of
          None \<Rightarrow> r_pc r = At_final (offline_result (operation_id (r_op r))) \<and> no_commit (history s)
        | Some c \<Rightarrow> c < next_conn s \<and> (\<exists>p. pending (conns s c) = [(operation_id (r_op r), p)] \<and>
              pend_ok (history s) c r p)))"

definition row_inv :: "nb_sys \<Rightarrow> bool" where
  "row_inv s \<longleftrightarrow> (\<forall>k. commit_open k (history s) \<longrightarrow> status_of (rows s) k = Some ''commit_sent'')"

definition nb_inv :: "nb_sys \<Rightarrow> bool" where
  "nb_inv s \<longleftrightarrow> conn_inv s \<and> seq_inv s \<and> run_inv s \<and> row_inv s \<and> hist_ok (history s)"

lemma upd_conn_fields [simp]:
  "history (upd_conn c f s) = history s" "next_conn (upd_conn c f s) = next_conn s"
  "active (upd_conn c f s) = active s" "run (upd_conn c f s) = run s" "rows (upd_conn c f s) = rows s"
  "conns (upd_conn c f s) = (conns s)(c := f (conns s c))" "shut (upd_conn c f s) = shut s"
  "next_run (upd_conn c f s) = next_run s"
  by (simp_all add: upd_conn_def)

lemma log_fields [simp]:
  "history (log e s) = history s @ [e]" "next_conn (log e s) = next_conn s" "conns (log e s) = conns s"
  "active (log e s) = active s" "run (log e s) = run s" "rows (log e s) = rows s" "shut (log e s) = shut s"
  "next_run (log e s) = next_run s"
  by (simp_all add: log_def)

lemma at_fields [simp]:
  "history (at r pc s) = history s" "next_conn (at r pc s) = next_conn s" "conns (at r pc s) = conns s"
  "active (at r pc s) = active s" "run (at r pc s) = Some (r\<lparr>r_pc := pc\<rparr>)" "rows (at r pc s) = rows s"
  by (simp_all add: at_def)

text \<open>A change of a connection that keeps its pending operations, lowers no counter and does
  not reopen it.\<close>

lemma upd_conn_inv:
  assumes "nb_inv s" "pending (f (conns s c)) = pending (conns s c)"
    "recv_sequence (conns s c) \<le> recv_sequence (f (conns s c))"
    "send_sequence (conns s c) \<le> send_sequence (f (conns s c))"
    "closed (conns s c) \<longrightarrow> closed (f (conns s c))"
  shows "nb_inv (upd_conn c f s)"
  unfolding nb_inv_def
proof (intro conjI)
  show "conn_inv (upd_conn c f s)" using assms by (auto simp: nb_inv_def conn_inv_def)
  show "seq_inv (upd_conn c f s)"
    using assms by (auto simp: nb_inv_def seq_inv_def intro: order_trans)
  show "run_inv (upd_conn c f s)"
    using assms by (auto simp: nb_inv_def run_inv_def split: option.splits)
  show "row_inv (upd_conn c f s)" using assms by (auto simp: nb_inv_def row_inv_def)
  show "hist_ok (history (upd_conn c f s))" using assms by (auto simp: nb_inv_def)
qed

lemma fail_entry_ok: "pend_ok h c r p \<Longrightarrow> pend_ok h c r (fail_entry p)"
  by (auto simp: pend_ok_def fail_entry_def pc_ok_def split: nb_pc.splits)

lemma fail_pending_inv:
  assumes "nb_inv s"
  shows "nb_inv (upd_conn c fail_pending s)"
  unfolding nb_inv_def
proof (intro conjI)
  show "conn_inv (upd_conn c fail_pending s)" "seq_inv (upd_conn c fail_pending s)"
      "row_inv (upd_conn c fail_pending s)" "hist_ok (history (upd_conn c fail_pending s))"
    using assms by (auto simp: nb_inv_def conn_inv_def seq_inv_def row_inv_def fail_pending_def)
  show "run_inv (upd_conn c fail_pending s)"
  proof (cases "run s")
    case None
    then show ?thesis using assms by (simp add: nb_inv_def run_inv_def fail_pending_def)
  next
    case (Some r)
    then show ?thesis using assms fail_entry_ok
      by (cases "r_conn r") (auto simp: nb_inv_def run_inv_def fail_pending_def)
  qed
qed

lemma active_inv:
  "nb_inv s \<Longrightarrow> (\<And>c. x = Some c \<Longrightarrow> c < next_conn s) \<Longrightarrow>
   (\<And>c. c < next_conn s \<Longrightarrow> x \<noteq> Some c \<Longrightarrow> closed (conns s c)) \<Longrightarrow> nb_inv (s\<lparr>active := x\<rparr>)"
  by (auto simp: nb_inv_def conn_inv_def seq_inv_def run_inv_def row_inv_def split: option.splits)

lemma shut_inv: "nb_inv (s\<lparr>shut := b\<rparr>) = nb_inv s"
  by (simp add: nb_inv_def conn_inv_def seq_inv_def run_inv_def row_inv_def cong: option.case_cong)

lemma next_run_inv: "nb_inv (s\<lparr>next_run := b\<rparr>) = nb_inv s"
  by (simp add: nb_inv_def conn_inv_def seq_inv_def run_inv_def row_inv_def cong: option.case_cong)

definition quiet :: "nb_event \<Rightarrow> bool" where
  "quiet e \<longleftrightarrow> (case e of Accepted c k h \<Rightarrow> True | Raised_in n \<Rightarrow> True
     | Returned n res \<Rightarrow> True | Received c n \<Rightarrow> True | Sent c n f \<Rightarrow> (case f of Commit k h \<Rightarrow> False | _ \<Rightarrow> True)
     | _ \<Rightarrow> False)"

lemma quiet_facts:
  "quiet e \<Longrightarrow> \<not> is_start e \<and> \<not> is_commit e \<and> commit_flag k b e = b \<and> last_start (h @ [e]) = last_start h"
  by (cases e) (auto simp: quiet_def is_commit_def commit_flag_def last_start_snoc split: frame.splits)

lemma pend_ok_quiet: "quiet e \<Longrightarrow> pend_ok h c r p \<Longrightarrow> pend_ok (h @ [e]) c r p"
  using quiet_facts[of e] by (auto simp: pend_ok_def pc_ok_def no_commit_snoc split: nb_pc.splits)

lemma run_inv_quiet:
  assumes "run_inv s" "quiet e"
  shows "run_inv (log e s)"
proof (cases "run s")
  case None
  then show ?thesis using assms by (simp add: run_inv_def)
next
  case (Some r)
  then show ?thesis using assms quiet_facts[OF assms(2)] pend_ok_quiet[OF assms(2)]
    by (cases "r_conn r") (auto simp: run_inv_def no_commit_snoc)
qed

lemma row_inv_quiet: "row_inv s \<Longrightarrow> quiet e \<Longrightarrow> row_inv (log e s)"
  using quiet_facts[of e] by (simp add: row_inv_def commit_open_snoc)

lemma quiet_hist: "hist_ok h \<Longrightarrow> ok_at h e \<Longrightarrow> hist_ok (h @ [e])"
  by (simp add: hist_ok_snoc)

lemma log_quiet_inv:
  assumes "nb_inv s" "quiet e" "ok_at (history s) e" "\<And>c n. e \<noteq> Received c n" "\<And>c n f. e \<noteq> Sent c n f"
  shows "nb_inv (log e s)"
  unfolding nb_inv_def
proof (intro conjI)
  show "conn_inv (log e s)" using assms(1) by (simp add: nb_inv_def conn_inv_def)
  have "received c (history s @ [e]) = received c (history s)" "sent c (history s @ [e]) = sent c (history s)" for c
    using assms(4,5) by (cases e; auto simp: received_snoc sent_snoc)+
  then show "seq_inv (log e s)" using assms(1) by (simp add: nb_inv_def seq_inv_def)
  show "run_inv (log e s)" using assms by (simp add: nb_inv_def run_inv_quiet)
  show "row_inv (log e s)" using assms by (simp add: nb_inv_def row_inv_quiet)
  show "hist_ok (history (log e s))" using assms by (simp add: nb_inv_def quiet_hist)
qed

lemma seq_inv_recv:
  assumes "seq_inv s" "c < next_conn s" "recv_sequence (conns s c) < n"
  shows "seq_inv (log (Received c n) (upd_conn c (\<lambda>x. x\<lparr>recv_sequence := n\<rparr>) s))"
  using assms
  by (fastforce simp: seq_inv_def received_snoc sent_snoc sorted_wrt_append)

lemma receive_log_inv:
  assumes "nb_inv s" "c < next_conn s" "recv_sequence (conns s c) < n"
  shows "nb_inv (log (Received c n) (upd_conn c (\<lambda>x. x\<lparr>recv_sequence := n\<rparr>) s))"
proof -
  define s1 where "s1 = upd_conn c (\<lambda>x. x\<lparr>recv_sequence := n\<rparr>) s"
  have s1: "nb_inv s1" unfolding s1_def using assms by (intro upd_conn_inv) auto
  have "seq_inv (log (Received c n) s1)"
    using seq_inv_recv assms by (simp add: s1_def nb_inv_def)
  then show ?thesis
    using s1 by (simp add: s1_def[symmetric] nb_inv_def conn_inv_def run_inv_quiet row_inv_quiet quiet_def
      hist_ok_snoc ok_at_def)
qed

lemma seq_inv_send:
  assumes "seq_inv s" "c < next_conn s"
  shows "seq_inv (log (Sent c (send_sequence (conns s c) + 1) f)
    (upd_conn c (\<lambda>x. x\<lparr>send_sequence := send_sequence (conns s c) + 1\<rparr>) s))"
  using assms by (fastforce simp: seq_inv_def received_snoc sent_snoc sorted_wrt_append)

lemma begin_send_inv:
  assumes "nb_inv s" "c < next_conn s" "begin_send c f s = Some s'" "\<And>k h. f \<noteq> Commit k h"
  shows "nb_inv s'"
proof -
  define n where "n = send_sequence (conns s c) + 1"
  define s1 where "s1 = upd_conn c (\<lambda>x. x\<lparr>send_sequence := n\<rparr>) s"
  have s': "s' = log (Sent c n f) s1"
    using assms(3) by (auto simp: begin_send_def Let_def s1_def n_def split: if_splits)
  have s1: "nb_inv s1" unfolding s1_def using assms by (intro upd_conn_inv) (auto simp: n_def)
  have "seq_inv s'" using seq_inv_send[of s c f] assms by (simp add: s' s1_def n_def nb_inv_def)
  moreover have "quiet (Sent c n f)" "ok_at (history s1) (Sent c n f)"
    using assms(4) by (auto simp: quiet_def ok_at_def split: frame.splits)
  ultimately show ?thesis
    using s1 by (simp add: s' nb_inv_def conn_inv_def run_inv_quiet row_inv_quiet hist_ok_snoc)
qed

lemma run_inv_pendingD:
  assumes "nb_inv s" "dict_get (pending (conns s c)) k = Some p"
  obtains r where "run s = Some r" "r_conn r = Some c" "operation_id (r_op r) = k"
    "pending (conns s c) = [(k, p)]" "pend_ok (history s) c r p" "c < next_conn s"
proof -
  have inv: "run_inv s" using assms(1) by (simp add: nb_inv_def)
  have ne: "pending (conns s c) \<noteq> []" using assms(2) by auto
  then obtain r where r: "run s = Some r" using inv by (auto simp: run_inv_def split: option.splits)
  then have rc: "r_conn r = Some c" using inv ne by (auto simp: run_inv_def split: option.splits)
  then obtain q where "pending (conns s c) = [(operation_id (r_op r), q)]" "pend_ok (history s) c r q"
      "c < next_conn s"
    using inv r by (auto simp: run_inv_def)
  then show thesis using that[of r] r rc assms(2) by (auto simp: dict_get_def split: if_splits)
qed

lemma set_pending_inv:
  assumes "nb_inv s" "run s = Some r" "r_conn r = Some c" "pending (conns s c) = [(operation_id (r_op r), p)]"
    "pend_ok (history s) c r p'"
  shows "nb_inv (set_pending c (operation_id (r_op r)) p' s)"
proof -
  have "dict_set (pending (conns s c)) (operation_id (r_op r)) p' = [(operation_id (r_op r), p')]"
    by (simp add: assms(4) dict_set_def)
  then show ?thesis
    using assms by (auto simp: set_pending_def nb_inv_def conn_inv_def seq_inv_def row_inv_def run_inv_def)
qed

lemma log_set_pending: "log e (set_pending c k p s) = set_pending c k p (log e s)"
  by (simp add: log_def set_pending_def upd_conn_def)

lemma handle_reply_inv:
  assumes "nb_inv s" "handle_reply cfg c m s = Some s'"
  shows "nb_inv s'"
proof -
  define k where "k = or_text cfg m ''operation_id'' []"
  define kind where "kind = or_text cfg m ''type'' []"
  obtain p where p: "dict_get (pending (conns s c)) k = Some p" "or_text cfg m ''request_hash'' [] = p_hash p"
    using assms(2) by (auto simp: handle_reply_def Let_def k_def split: option.splits if_splits)
  obtain r where r: "run s = Some r" "r_conn r = Some c" "operation_id (r_op r) = k"
    "pending (conns s c) = [(k, p)]" "pend_ok (history s) c r p" "c < next_conn s"
    by (rule run_inv_pendingD[OF assms(1) p(1)])
  have same: "\<And>s1 q. nb_inv s1 \<Longrightarrow> run s1 = run s \<Longrightarrow> conns s1 = conns s \<Longrightarrow>
      pend_ok (history s1) c r q \<Longrightarrow> nb_inv (set_pending c k q s1)"
    using set_pending_inv[of _ r c p] r by simp
  consider (acc) "kind = ''proposal_accepted''" | (rej) "kind = ''proposal_rejected''"
    | (res) "kind = ''result''" "commit_sent p"
    using assms(2) p by (auto simp: handle_reply_def Let_def k_def[symmetric] kind_def[symmetric] split: if_splits)
  then show ?thesis
  proof cases
    case acc
    show ?thesis
    proof (cases "accepted p = Acc_open")
      case True
      define e where "e = Accepted c k (p_hash p)"
      have s': "s' = set_pending c k (p\<lparr>accepted := Acc_yes\<rparr>) (log e s)"
        using assms(2) p acc True
        by (simp add: handle_reply_def Let_def k_def[symmetric] kind_def[symmetric] log_set_pending e_def)
      have "nb_inv (log e s)" using assms(1)
        by (intro log_quiet_inv) (auto simp: e_def quiet_def ok_at_def)
      moreover have "pend_ok (history (log e s)) c r (p\<lparr>accepted := Acc_yes\<rparr>)"
        using pend_ok_quiet[OF _ r(5), of e] r(3,5)
        by (auto simp: e_def quiet_def pend_ok_def pc_ok_def split: nb_pc.splits)
      ultimately show ?thesis unfolding s' by (intro same) simp_all
    next
      case False
      then show ?thesis using assms p acc
        by (simp add: handle_reply_def Let_def k_def[symmetric] kind_def[symmetric])
    qed
  next
    case rej
    have "pend_ok (history s) c r (p\<lparr>accepted := Acc_no x y\<rparr>)" if "accepted p = Acc_open" for x y
      using r(5) that by (auto simp: pend_ok_def pc_ok_def split: nb_pc.splits)
    then show ?thesis using assms p rej same[of s]
      by (auto simp: handle_reply_def Let_def k_def[symmetric] kind_def[symmetric] split: if_splits)
  next
    case res
    have "pend_ok (history s) c r (p\<lparr>result := Res_got x\<rparr>)" if "status x \<in> set result_statuses" for x
      using r(5) that by (auto simp: pend_ok_def pc_ok_def split: nb_pc.splits)
    then show ?thesis using assms p res same[of s]
      by (auto simp: handle_reply_def Let_def k_def[symmetric] kind_def[symmetric] split: if_splits)
  qed
qed

lemma handle_message_inv:
  assumes "nb_inv s" "c < next_conn s" "handle_message cfg now c m s = Some s'"
  shows "nb_inv s' \<and> next_conn s' = next_conn s"
proof -
  obtain n where n: "recv_sequence (conns s c) < n" and
    h: "(let s1 = log (Received c n) (upd_conn c (\<lambda>x. x\<lparr>recv_sequence := n\<rparr>) s) in
         if or_text cfg m ''type'' [] = ''heartbeat'' then
           Some (upd_conn c (\<lambda>x. x\<lparr>last_heartbeat := now,
             notes_ready := truthy (json_field m ''notes_ready''),
             permissions_ready := truthy (json_field m ''permissions_ready'')\<rparr>) s1)
         else handle_reply cfg c m s1) = Some s'"
    using assms(3) unfolding handle_message_def
    by (simp add: Let_def not_le split: if_splits option.splits)
  define s1 where "s1 = log (Received c n) (upd_conn c (\<lambda>x. x\<lparr>recv_sequence := n\<rparr>) s)"
  have s1: "nb_inv s1" "next_conn s1 = next_conn s"
    unfolding s1_def using receive_log_inv[OF assms(1,2) n] by simp_all
  show ?thesis
  proof (cases "or_text cfg m ''type'' [] = ''heartbeat''")
    case True
    then have "s' = upd_conn c (\<lambda>x. x\<lparr>last_heartbeat := now,
             notes_ready := truthy (json_field m ''notes_ready''),
             permissions_ready := truthy (json_field m ''permissions_ready'')\<rparr>) s1"
      using h by (simp add: s1_def Let_def)
    then show ?thesis using s1 upd_conn_inv[OF s1(1)] by simp
  next
    case False
    then have "handle_reply cfg c m s1 = Some s'" using h by (simp add: s1_def Let_def)
    then show ?thesis using handle_reply_inv[OF s1(1)] s1(2)
      by (auto simp: handle_reply_def Let_def set_pending_def split: option.splits if_splits)
  qed
qed

lemma drop_conn_inv:
  assumes "nb_inv s"
  shows "nb_inv (drop_conn c s)"
proof -
  define s0 where "s0 = upd_conn c fail_pending s"
  define s1 where "s1 = upd_conn c (\<lambda>x. (fail_pending x)\<lparr>conn_pc := Gone\<rparr>) s"
  have "s1 = upd_conn c (\<lambda>x. x\<lparr>conn_pc := Gone\<rparr>) s0" by (simp add: s1_def s0_def upd_conn_def)
  moreover have "nb_inv s0" unfolding s0_def by (rule fail_pending_inv[OF assms])
  ultimately have s1: "nb_inv s1" using upd_conn_inv[of s0] by simp
  have "nb_inv (s1\<lparr>active := None\<rparr>)" if "active s1 = Some c"
    using s1 that by (intro active_inv) (auto simp: s1_def fail_pending_def nb_inv_def conn_inv_def)
  then show ?thesis using s1 by (simp add: drop_conn_def s1_def[symmetric] Let_def)
qed

lemma connect_inv:
  assumes "nb_inv s"
  shows "nb_inv (connect cfg hello ch sn pr e now s)"
proof -
  define c where "c = next_conn s"
  define s1 where "s1 = s\<lparr>conns := (conns s)(c := new_conn e now), next_conn := c + 1, active := Some c\<rparr>"
  define s2 where "s2 = (case active s of None \<Rightarrow> s1 | Some old \<Rightarrow> upd_conn old fail_pending s1)"
  have inv: "conn_inv s" "seq_inv s" "run_inv s" "row_inv s" "hist_ok (history s)"
    using assms by (simp_all add: nb_inv_def)
  have seq: "seq_inv s1" using inv(2)
    by (auto simp: seq_inv_def s1_def c_def less_Suc_eq)
  have run: "run_inv s1" using inv(3)
    by (auto simp: run_inv_def s1_def c_def new_conn_def less_SucI split: option.splits)
  have row: "row_inv s1" using inv(4) by (simp add: row_inv_def s1_def)
  have key: "nb_inv s2"
  proof (cases "active s")
    case None
    then have "conn_inv s1" using inv(1) by (auto simp: conn_inv_def s1_def c_def)
    then show ?thesis using None seq run row inv(5) by (simp add: s2_def nb_inv_def s1_def)
  next
    case (Some old)
    have old: "old \<noteq> c" using inv(1) Some by (auto simp: conn_inv_def c_def)
    have "conn_inv s2" using inv(1) Some old
      by (auto simp: conn_inv_def s2_def s1_def c_def fail_pending_def less_Suc_eq)
    moreover have "seq_inv s2" using seq Some by (simp add: seq_inv_def s2_def fail_pending_def)
    moreover have "run_inv s2"
      using run Some fail_entry_ok
      by (cases "run s1"; cases "r_conn (the (run s1))")
        (auto simp: run_inv_def s2_def fail_pending_def)
    ultimately show ?thesis using row inv(5) Some by (simp add: nb_inv_def row_inv_def s2_def s1_def)
  qed
  have "c < next_conn s2" by (simp add: s2_def s1_def split: option.splits)
  then have "begin_send c Ready_frame s2 = Some s3 \<Longrightarrow> nb_inv s3" for s3
    using begin_send_inv[OF key] by blast
  then show ?thesis
    using assms drop_conn_inv[OF key]
    unfolding connect_def Let_def c_def[symmetric] s1_def[symmetric] s2_def[symmetric]
    by (auto split: option.splits)
qed

text \<open>Steps of the call that runs.  \<open>run_at s r c p\<close>: the call \<open>r\<close> uses connection \<open>c\<close> and its
  pending entry there is \<open>p\<close>.\<close>

definition run_at :: "nb_sys \<Rightarrow> nb_run \<Rightarrow> nat \<Rightarrow> nb_pending \<Rightarrow> bool" where
  "run_at s r c p \<longleftrightarrow> nb_inv s \<and> run s = Some r \<and> r_conn r = Some c \<and> c < next_conn s \<and>
     pending (conns s c) = [(operation_id (r_op r), p)] \<and> pend_ok (history s) c r p"

lemma run_atI:
  assumes "nb_inv s" "run s = Some r" "r_conn r = Some c"
  obtains p where "run_at s r c p" "my_pending r s = Some p"
proof -
  obtain p where "pending (conns s c) = [(operation_id (r_op r), p)]" "pend_ok (history s) c r p"
      "c < next_conn s"
    using assms by (auto simp: nb_inv_def run_inv_def)
  then show thesis using that assms by (auto simp: run_at_def my_pending_def dict_get_def)
qed

lemma at_inv:
  assumes "run_at s r c p" "pc_ok (history s) p pc"
  shows "nb_inv (at r pc s)"
  using assms
  by (auto simp: run_at_def nb_inv_def conn_inv_def seq_inv_def row_inv_def run_inv_def pend_ok_def)

lemma skipped_pc_ok: "no_commit h \<Longrightarrow> pc_ok h p (At_final (skipped_result k))"
  by (simp add: pc_ok_def skipped_result_def plain_result_def)

lemma unknown_pc_ok: "pc_ok h p (At_final (unknown_result k))"
  by (simp add: pc_ok_def unknown_result_def plain_result_def result_statuses_def)

lemma begin_send_frame:
  "begin_send c f s = Some s' \<Longrightarrow> run s' = run s \<and> next_conn s' = next_conn s \<and>
     pending (conns s' c') = pending (conns s c') \<and> active s' = active s \<and> rows s' = rows s \<and>
     closed (conns s' c') = closed (conns s c') \<and>
     history s' = history s @ [Sent c (send_sequence (conns s c) + 1) f]"
  by (auto simp: begin_send_def Let_def split: if_splits)

lemma begin_send_run_at:
  assumes "run_at s r c p" "begin_send c f s = Some s'" "\<And>k h. f \<noteq> Commit k h"
  shows "run_at s' r c p \<and> no_commit (history s') = no_commit (history s)"
proof -
  have q: "quiet (Sent c n f)" for n using assms(3) by (auto simp: quiet_def split: frame.splits)
  have "nb_inv s'" using assms begin_send_inv by (auto simp: run_at_def)
  then show ?thesis
    using assms(1) begin_send_frame[OF assms(2)] pend_ok_quiet[OF q] quiet_facts[OF q]
    by (auto simp: run_at_def no_commit_snoc)
qed

lemma terminal_inv:
  assumes "run_at s r c p" "no_commit (history s)"
  shows "nb_inv (terminal_before_commit r c s)"
proof (cases "begin_send c (Abort (operation_id (r_op r)) (r_hash r)) s")
  case None
  then show ?thesis using at_inv[OF assms(1) skipped_pc_ok[OF assms(2)]]
    by (simp add: terminal_before_commit_def Let_def)
next
  case (Some s')
  note b = begin_send_run_at[OF assms(1) Some]
  have "nb_inv (at r At_abort s')"
    using at_inv[of s' r c p At_abort] b assms(2) by (simp add: pc_ok_def)
  then show ?thesis using at_inv[OF assms(1) skipped_pc_ok[OF assms(2)]] Some
    by (simp add: terminal_before_commit_def Let_def)
qed

lemma upd_conn_run_at:
  assumes "run_at s r c p" "\<And>x. pending (f x) = pending x" "\<And>x. recv_sequence (f x) = recv_sequence x"
    "\<And>x. send_sequence (f x) = send_sequence x" "\<And>x. closed x \<Longrightarrow> closed (f x)"
  shows "run_at (upd_conn c' f s) r c p"
  using assms upd_conn_inv[of s f c'] by (auto simp: run_at_def)

lemma upd_pending_run_at:
  assumes "run_at s r c p" "pend_ok (history s) c r (f p)"
  shows "run_at (upd_pending r f s) r c (f p) \<and> history (upd_pending r f s) = history s"
proof -
  have my: "my_pending r s = Some p" using assms(1) by (simp add: my_pending_def run_at_def dict_get_def)
  have "upd_pending r f s = set_pending c (operation_id (r_op r)) (f p) s"
    using assms(1) my by (simp add: upd_pending_def run_at_def)
  then show ?thesis
    using assms set_pending_inv[of s r c p "f p"]
    by (simp add: run_at_def set_pending_def dict_set_def)
qed

lemma start_run_inv:
  assumes "nb_inv s0" "run s0 = None"
  shows "nb_inv (start_run cfg now op s0)"
proof -
  define k where "k = operation_id op"
  define h where "h = hash_of cfg (operation_json op)"
  define s where "s = log (Started (next_run s0) k) (s0\<lparr>next_run := next_run s0 + 1\<rparr>)"
  define r where "r = \<lparr>r_id = next_run s0, r_op = op, r_hash = h, r_conn = None, r_pc = At_final (offline_result k)\<rparr>"
  define p where "p = \<lparr>p_hash = h, accepted = Acc_open, result = Res_open, commit_sent = False\<rparr>"
  have inv: "conn_inv s0" "seq_inv s0" "run_inv s0" "row_inv s0" "hist_ok (history s0)"
    using assms(1) by (simp_all add: nb_inv_def)
  have nc: "no_commit (history s)" by (simp add: s_def no_commit_snoc)
  have nores: "conn_inv s" "seq_inv s" "row_inv s" "hist_ok (history s)"
    using inv by (simp_all add: s_def conn_inv_def seq_inv_def received_snoc sent_snoc row_inv_def
      commit_open_snoc commit_flag_def hist_ok_snoc ok_at_def)
  have pend: "pending (conns s c) = []" "run s = None" for c
    using inv(3) assms(2) by (simp_all add: s_def run_inv_def)
  have off: "nb_inv (s\<lparr>run := Some r\<rparr>)"
    using nores nc pend by (simp add: nb_inv_def conn_inv_def seq_inv_def row_inv_def run_inv_def r_def
      s_def last_start_snoc k_def)
  have live: "nb_inv (case begin_send c (Propose k h) (set_pending c k p s) of
        Some s2 \<Rightarrow> at (r\<lparr>r_conn := Some c\<rparr>) At_propose s2
      | None \<Rightarrow> terminal_before_commit (r\<lparr>r_conn := Some c\<rparr>) c (set_pending c k p s))"
    if c: "active s = Some c" for c
  proof -
    define r' where "r' = r\<lparr>r_conn := Some c, r_pc := At_propose\<rparr>"
    define s1 where "s1 = (set_pending c k p s)\<lparr>run := Some r'\<rparr>"
    have cn: "c < next_conn s" using nores(1) c by (simp add: conn_inv_def)
    have po: "pend_ok (history s1) c r' p"
      using nc by (simp add: pend_ok_def p_def r'_def r_def pc_ok_def s1_def set_pending_def)
    have "nb_inv s1"
      using nores pend cn po
      by (auto simp: nb_inv_def conn_inv_def seq_inv_def row_inv_def run_inv_def s1_def set_pending_def
        dict_set_def r'_def r_def k_def s_def last_start_snoc)
    then have s1: "run_at s1 r' c p"
      using po cn pend by (simp add: run_at_def s1_def set_pending_def dict_set_def r'_def r_def k_def)
    have nc1: "no_commit (history s1)" using nc by (simp add: s1_def set_pending_def)
    have bs: "begin_send c (Propose k h) (set_pending c k p s) =
        map_option (\<lambda>x. x\<lparr>run := None\<rparr>) (begin_send c (Propose k h) s1)"
      using pend by (auto simp: begin_send_def s1_def Let_def log_def upd_conn_def set_pending_def)
    have at: "at (r\<lparr>r_conn := Some c\<rparr>) pc (x\<lparr>run := None\<rparr>) = at r' pc x" for pc x
      by (simp add: at_def r'_def r_def)
    show ?thesis
    proof (cases "begin_send c (Propose k h) s1")
      case None
      then have closed: "closed (conns s1 c)" by (auto simp: begin_send_def Let_def split: if_splits)
      then have "terminal_before_commit (r\<lparr>r_conn := Some c\<rparr>) c (set_pending c k p s) = terminal_before_commit r' c s1"
        by (simp add: terminal_before_commit_def s1_def at_def r'_def r_def Let_def)
      then show ?thesis using terminal_inv[OF s1 nc1] bs None by simp
    next
      case (Some s2)
      have "nb_inv (at r' At_propose s2)"
        using begin_send_run_at[OF s1 Some] nc1 at_inv[of s2 r' c p At_propose] by (simp add: pc_ok_def)
      then show ?thesis using bs Some at by simp
    qed
  qed
  show ?thesis
    unfolding start_run_def Let_def k_def[symmetric] h_def[symmetric] s_def[symmetric] r_def[symmetric]
      p_def[symmetric]
    using off live by (simp split: option.split)
qed

lemma pend_ok_wrote: "pend_ok h c r p \<Longrightarrow> pend_ok (h @ [Wrote n k st]) c r p"
  by (auto simp: pend_ok_def pc_ok_def no_commit_snoc is_commit_def split: nb_pc.splits)

lemma write_row_fields [simp]:
  "run (write_row cfg text r st err s) = run s" "conns (write_row cfg text r st err s) = conns s"
  "next_conn (write_row cfg text r st err s) = next_conn s"
  "active (write_row cfg text r st err s) = active s"
  "history (write_row cfg text r st err s) = history s @ [Wrote (r_id r) (operation_id (r_op r)) st]"
  "status_of (rows (write_row cfg text r st err s)) k' =
     (if k' = operation_id (r_op r) then Some st else status_of (rows s) k')"
  by (simp_all add: write_row_def Let_def bridge_ledger.status_record)

lemma write_row_inv:
  assumes "nb_inv s" "st \<in> set before_settled \<Longrightarrow> st \<noteq> ''commit_sent'' \<Longrightarrow>
    \<not> commit_open (operation_id (r_op r)) (history s)"
  shows "nb_inv (write_row cfg text r st err s)"
proof -
  define w where "w = write_row cfg text r st err s"
  have h: "history w = history s @ [Wrote (r_id r) (operation_id (r_op r)) st]" by (simp add: w_def)
  have "run_inv w"
  proof (cases "run s")
    case None
    then show ?thesis using assms(1) by (simp add: nb_inv_def run_inv_def w_def)
  next
    case (Some r')
    then show ?thesis using assms(1) pend_ok_wrote
      by (cases "r_conn r'") (auto simp: nb_inv_def run_inv_def w_def last_start_snoc no_commit_snoc is_commit_def)
  qed
  moreover have "row_inv w"
    using assms by (auto simp: nb_inv_def row_inv_def w_def commit_open_snoc commit_flag_def split: if_splits)
  ultimately show ?thesis
    using assms(1) by (simp add: nb_inv_def conn_inv_def seq_inv_def w_def received_snoc sent_snoc
      hist_ok_snoc ok_at_def)
qed

lemma pc_ok_early:
  assumes "run_at s r c p" "no_commit (history s)"
  shows "\<not> commit_open (operation_id (r_op r)) (history s)"
proof (rule no_commit_closed)
  show "last_start (history s) = Some (operation_id (r_op r))"
    using assms(1) by (auto simp: run_at_def nb_inv_def run_inv_def)
qed (rule assms(2))

lemma row_due_inv:
  assumes "nb_inv s" "run s = Some r" "row_due (r_pc r) = Some (st, err)"
  shows "nb_inv (write_row cfg text r st err s)"
proof (cases "r_conn r")
  case None
  then have "r_pc r = At_final (offline_result (operation_id (r_op r)))"
    using assms by (simp add: nb_inv_def run_inv_def)
  then have "st = ''skipped_offline''" using assms(3) by (simp add: row_due_def offline_result_def plain_result_def)
  then show ?thesis using assms(1) by (intro write_row_inv) (simp_all add: before_settled_def)
next
  case (Some c)
  then obtain p where r: "run_at s r c p" using run_atI[OF assms(1,2)] by blast
  then have pc: "pc_ok (history s) p (r_pc r)" by (simp add: run_at_def pend_ok_def)
  have "\<not> commit_open (operation_id (r_op r)) (history s)"
    if "st \<in> set before_settled" "st \<noteq> ''commit_sent''"
    using assms(3) pc that pc_ok_early[OF r]
    by (auto simp: row_due_def pc_ok_def before_settled_def result_statuses_def split: nb_pc.splits)
  then show ?thesis using assms(1) by (intro write_row_inv)
qed

lemma write_row_run_at:
  assumes "run_at s r c p" "row_due (r_pc r) = Some (st, err)"
  shows "run_at (write_row cfg text r st err s) r c p"
  using row_due_inv[of s r st err cfg] assms pend_ok_wrote by (auto simp: run_at_def)

lemma end_run_inv:
  assumes "nb_inv s" "run s = Some r"
  shows "nb_inv (end_run r s)"
proof (cases "r_conn r")
  case None
  then show ?thesis using assms
    by (simp add: end_run_def nb_inv_def conn_inv_def seq_inv_def row_inv_def run_inv_def)
next
  case (Some c)
  then obtain p where "run_at s r c p" using run_atI[OF assms] by blast
  then have "dict_del (pending (conns s c)) (operation_id (r_op r)) = []"
    by (simp add: run_at_def dict_del_def)
  then show ?thesis using assms Some
    by (auto simp: end_run_def nb_inv_def conn_inv_def seq_inv_def row_inv_def run_inv_def)
qed

lemma raise_run_inv: "nb_inv s \<Longrightarrow> run s = Some r \<Longrightarrow> nb_inv (raise_run r s)"
  unfolding raise_run_def
  by (intro log_quiet_inv end_run_inv) (auto simp: quiet_def ok_at_def)

lemma return_inv:
  assumes "nb_inv s" "run s = Some r" "status res = ''skipped_offline'' \<Longrightarrow> no_commit (history s)"
  shows "nb_inv (end_run r (log (Returned (r_id r) res) s))"
  using assms by (intro end_run_inv log_quiet_inv) (auto simp: quiet_def ok_at_def)

lemma row_done_inv:
  assumes "nb_inv s" "run s = Some r"
  shows "nb_inv (row_done cfg text now r s)"
proof (cases "row_due (r_pc r)")
  case None
  then show ?thesis using assms by (simp add: row_done_def)
next
  case (Some q)
  obtain st err where q: "row_due (r_pc r) = Some (st, err)" using Some by (cases q) simp
  define w where "w = write_row cfg text r st err s"
  have w: "nb_inv w" "run w = Some r" unfolding w_def using row_due_inv[OF assms q] assms(2) by simp_all
  have nc: "no_commit (history w) = no_commit (history s)" by (simp add: w_def no_commit_snoc is_commit_def)
  have done_eq: "row_done cfg text now r s = after_row cfg now r w" by (simp add: row_done_def q w_def)
  show ?thesis
  proof (cases "r_conn r")
    case None
    then have pc: "r_pc r = At_final (offline_result (operation_id (r_op r)))" and "no_commit (history s)"
      using assms by (simp_all add: nb_inv_def run_inv_def)
    then show ?thesis using return_inv[OF w] None nc by (simp add: done_eq after_row_def Let_def)
  next
    case (Some c)
    then obtain p where r0: "run_at s r c p" using run_atI[OF assms] by blast
    then have ra: "run_at w r c p" unfolding w_def using q by (rule write_row_run_at)
    have pok: "pend_ok (history w) c r p" and pc: "pc_ok (history w) p (r_pc r)"
      using ra by (simp_all add: run_at_def pend_ok_def)
    show ?thesis
    proof (cases "r_pc r")
      case At_proposed
      then show ?thesis using at_inv[OF ra, of At_accept] pc by (simp add: done_eq after_row_def Let_def pc_ok_def)
    next
      case At_accepted
      have "nb_inv (at r At_commit_row (upd_pending r (\<lambda>p. p\<lparr>commit_sent := True\<rparr>) w))"
      proof -
        have "pend_ok (history w) c r (p\<lparr>commit_sent := True\<rparr>)"
          using pok At_accepted by (simp add: pend_ok_def pc_ok_def)
        then have "run_at (upd_pending r (\<lambda>p. p\<lparr>commit_sent := True\<rparr>) w) r c (p\<lparr>commit_sent := True\<rparr>) \<and>
            history (upd_pending r (\<lambda>p. p\<lparr>commit_sent := True\<rparr>) w) = history w"
          by (rule upd_pending_run_at[OF ra])
        then show ?thesis using pc At_accepted by (intro at_inv) (auto simp: pc_ok_def)
      qed
      then show ?thesis using terminal_inv[OF ra] pc Some At_accepted
        by (simp add: done_eq after_row_def Let_def pc_ok_def)
    next
      case At_commit_row
      define k where "k = operation_id (r_op r)"
      show ?thesis
      proof (cases "begin_send c (Commit k (r_hash r)) w")
        case None
        then show ?thesis using at_inv[OF ra unknown_pc_ok] Some At_commit_row
          by (simp add: done_eq after_row_def Let_def k_def)
      next
        case (Some w')
        note fr = begin_send_frame[OF Some]
        define n where "n = send_sequence (conns w c) + 1"
        define u where "u = upd_conn c (\<lambda>x. x\<lparr>send_sequence := n\<rparr>) w"
        have w': "w' = log (Sent c n (Commit k (r_hash r))) u"
          using Some by (auto simp: begin_send_def Let_def n_def u_def split: if_splits)
        have u: "nb_inv u" unfolding u_def using w(1) by (intro upd_conn_inv) (auto simp: n_def)
        have "seq_inv w'" using seq_inv_send[of w c] w(1) ra by (simp add: w' u_def n_def nb_inv_def run_at_def)
        moreover have "conn_inv w'" using u by (simp add: w' nb_inv_def conn_inv_def)
        moreover have st: "status_of (rows w') k = Some ''commit_sent''"
          using fr q At_commit_row by (simp add: w_def k_def row_due_def)
        moreover have "row_inv w'"
          using u st fr w(1) by (auto simp: nb_inv_def row_inv_def w' u_def commit_open_snoc commit_flag_def)
        moreover have acc: "accepted p = Acc_yes" "no_commit (history w)"
          using pc At_commit_row by (simp_all add: pc_ok_def)
        moreover have "hist_ok (history w')"
          using w(1) pok acc fr by (simp add: nb_inv_def hist_ok_snoc ok_at_def pend_ok_def k_def)
        moreover have "pend_ok (history w') c (r\<lparr>r_pc := At_commit\<rparr>) p"
          using pok fr by (auto simp: pend_ok_def pc_ok_def)
        ultimately have "nb_inv (at r At_commit w')"
          using ra fr w(1)
          by (auto simp: nb_inv_def run_inv_def conn_inv_def seq_inv_def row_inv_def run_at_def last_start_snoc)
        then show ?thesis using Some \<open>r_conn r = Some c\<close> At_commit_row
          by (simp add: done_eq after_row_def Let_def k_def)
      qed
    next
      case (At_rejected res)
      then show ?thesis using return_inv[OF w, of res] pc by (simp add: done_eq after_row_def Let_def pc_ok_def)
    next
      case (At_final res)
      then have "status res = ''skipped_offline'' \<Longrightarrow> no_commit (history w)"
        using pc by (auto simp: pc_ok_def result_statuses_def)
      then show ?thesis using return_inv[OF w, of res] At_final by (simp add: done_eq after_row_def Let_def)
    qed (use q in \<open>simp_all add: row_due_def\<close>)
  qed
qed

lemma after_send_inv:
  assumes "nb_inv s" "run s = Some r"
  shows "nb_inv (after_send r ok s)"
proof (cases "r_conn r")
  case None
  then show ?thesis using assms by (simp add: after_send_def Let_def)
next
  case (Some c)
  then obtain p where r0: "run_at s r c p" using run_atI[OF assms] by blast
  define u where "u = (if ok then s else upd_conn c (\<lambda>x. x\<lparr>closed := True\<rparr>) s)"
  have ra: "run_at u r c p" unfolding u_def
    using r0 upd_conn_run_at[OF r0, of "\<lambda>x. x\<lparr>closed := True\<rparr>"] by simp
  then have pc: "pc_ok (history u) p (r_pc r)" by (simp add: run_at_def pend_ok_def)
  show ?thesis
    using assms(1) pc at_inv[OF ra, of At_proposed] at_inv[OF ra, of At_result] terminal_inv[OF ra]
      at_inv[OF ra unknown_pc_ok] at_inv[OF ra skipped_pc_ok]
    unfolding after_send_def Let_def Some option.case u_def[symmetric]
    by (cases "r_pc r") (simp_all add: pc_ok_def)
qed

lemma wake_inv:
  assumes "nb_inv s" "run s = Some r"
  shows "nb_inv (wake r s)"
proof (cases "r_conn r")
  case None
  then show ?thesis using assms by (simp add: wake_def Let_def split: nb_pc.split)
next
  case (Some c)
  then obtain p where ra: "run_at s r c p" and my: "my_pending r s = Some p" using run_atI[OF assms] by blast
  then have pc: "pc_ok (history s) p (r_pc r)" and po: "pend_ok (history s) c r p"
    by (simp_all add: run_at_def pend_ok_def)
  show ?thesis
  proof (cases "r_pc r")
    case At_accept
    then have nc: "no_commit (history s)" using pc by (simp add: pc_ok_def)
    show ?thesis
      using At_accept Some my assms(1) nc at_inv[OF ra, of At_accepted] terminal_inv[OF ra nc]
        at_inv[OF ra, of "At_rejected (plain_result ''operation_rejected'' (operation_id (r_op r)) x y)" for x y]
      by (simp add: wake_def Let_def pc_ok_def plain_result_def split: accept_future.split)
  next
    case At_result
    have "nb_inv (at r (At_final res) s)" if "result p = Res_got res" for res
      using po that by (intro at_inv[OF ra]) (simp add: pend_ok_def pc_ok_def)
    then show ?thesis
      using At_result Some my assms(1) at_inv[OF ra unknown_pc_ok]
      by (simp add: wake_def Let_def split: result_future.split)
  qed (use assms in \<open>simp_all add: wake_def Let_def\<close>)
qed

lemma time_out_inv:
  assumes "nb_inv s" "run s = Some r"
  shows "nb_inv (time_out r s)"
proof (cases "r_conn r")
  case None
  then show ?thesis using assms by (simp add: time_out_def split: nb_pc.split)
next
  case (Some c)
  then obtain p where ra: "run_at s r c p" and my: "my_pending r s = Some p" using run_atI[OF assms] by blast
  then have pc: "pc_ok (history s) p (r_pc r)" and po: "pend_ok (history s) c r p"
    by (simp_all add: run_at_def pend_ok_def)
  show ?thesis
  proof (cases "r_pc r")
    case At_accept
    then have nc: "no_commit (history s)" using pc by (simp add: pc_ok_def)
    have "pend_ok (history s) c r (p\<lparr>accepted := Acc_cancelled\<rparr>)"
      using po At_accept by (simp add: pend_ok_def pc_ok_def)
    then have up: "run_at (upd_pending r (\<lambda>p. p\<lparr>accepted := Acc_cancelled\<rparr>) s) r c (p\<lparr>accepted := Acc_cancelled\<rparr>) \<and>
        history (upd_pending r (\<lambda>p. p\<lparr>accepted := Acc_cancelled\<rparr>) s) = history s"
      by (rule upd_pending_run_at[OF ra])
    show ?thesis
      using At_accept Some my assms(1) terminal_inv[OF conjunct1[OF up]] nc up
      by (simp add: time_out_def)
  next
    case At_result
    have "pend_ok (history s) c r (p\<lparr>result := Res_cancelled\<rparr>)"
      using po At_result by (simp add: pend_ok_def pc_ok_def)
    then have up: "run_at (upd_pending r (\<lambda>p. p\<lparr>result := Res_cancelled\<rparr>) s) r c (p\<lparr>result := Res_cancelled\<rparr>) \<and>
        history (upd_pending r (\<lambda>p. p\<lparr>result := Res_cancelled\<rparr>) s) = history s"
      by (rule upd_pending_run_at[OF ra])
    show ?thesis
      using At_result Some my assms(1) at_inv[OF conjunct1[OF up] unknown_pc_ok]
      by (simp add: time_out_def)
  qed (use assms in \<open>simp_all add: time_out_def\<close>)
qed

lemma receive_inv:
  assumes "nb_inv s"
  shows "nb_inv (receive cfg now c m s)"
proof (cases "conn_pc (conns s c) \<noteq> Receiving \<or> c \<ge> next_conn s")
  case True
  then show ?thesis using assms by (simp add: receive_def)
next
  case False
  then have c: "c < next_conn s" by simp
  have up: "nb_inv (upd_conn c (\<lambda>x. x\<lparr>recv_sequence := n\<rparr>) s)" if "recv_sequence (conns s c) < n" for n
    using assms that by (intro upd_conn_inv) auto
  show ?thesis
  proof (cases "handle_message cfg now c m s")
    case None
    then show ?thesis using False assms drop_conn_inv up by (simp add: receive_def Let_def)
  next
    case (Some s')
    then show ?thesis using False assms drop_conn_inv handle_message_inv[OF assms c Some]
      by (simp add: receive_def)
  qed
qed

lemma close_broker_inv:
  assumes "nb_inv s"
  shows "nb_inv (close_broker s)"
proof (cases "active s")
  case None
  have "nb_inv ((s\<lparr>shut := True\<rparr>)\<lparr>active := None\<rparr>)"
    using assms shut_inv[of True s] None by (intro active_inv) (auto simp: nb_inv_def conn_inv_def)
  then show ?thesis using None by (simp add: close_broker_def Let_def)
next
  case (Some c)
  define t where "t = upd_conn c fail_pending (s\<lparr>shut := True\<rparr>)"
  have t: "nb_inv t" unfolding t_def using assms shut_inv by (intro fail_pending_inv) simp
  have "nb_inv (t\<lparr>active := None\<rparr>)"
    using t Some by (intro active_inv) (auto simp: t_def fail_pending_def nb_inv_def conn_inv_def)
  moreover have "close_broker s = t\<lparr>active := None\<rparr>"
    using Some by (simp add: close_broker_def t_def upd_conn_def Let_def)
  ultimately show ?thesis by simp
qed

lemma nb_exec_inv:
  assumes "nb_inv s"
  shows "nb_inv (nb_exec cfg i s)"
proof (cases i)
  case (Execute op now)
  then show ?thesis using assms start_run_inv[OF assms] by (simp add: nb_exec_def)
next
  case (Connect hello ch sn pr e now)
  then show ?thesis using connect_inv[OF assms] by (simp add: nb_exec_def)
next
  case (Ready_done c ok)
  then show ?thesis using assms drop_conn_inv upd_conn_inv[OF assms, of "\<lambda>x. x\<lparr>conn_pc := Receiving\<rparr>" c]
    by (simp add: nb_exec_def ready_done_def)
next
  case (Cancel_run t applied)
  have "nb_inv (cancel_run cfg t applied r s)" if r: "run s = Some r" for r
  proof (cases "row_due (r_pc r)")
    case None
    then show ?thesis using raise_run_inv[OF assms r] by (simp add: cancel_run_def)
  next
    case (Some q)
    then obtain st err where q: "row_due (r_pc r) = Some (st, err)" by (cases q) simp
    then show ?thesis using raise_run_inv[OF assms r] raise_run_inv[OF row_due_inv[OF assms r q]] r
      by (simp add: cancel_run_def)
  qed
  then show ?thesis using Cancel_run assms by (simp add: nb_exec_def on_run_def split: option.split)
qed (use assms drop_conn_inv receive_inv close_broker_inv after_send_inv row_done_inv raise_run_inv wake_inv
  time_out_inv in \<open>simp_all add: nb_exec_def on_run_def split: option.split\<close>)

lemma nb_reachable_inv: "nb_reachable cfg s \<Longrightarrow> nb_inv s"
proof (induction rule: nb_reachable.induct)
  case (nb_start now l)
  show ?case
    by (auto simp: new_broker_def new_conn_def nb_inv_def conn_inv_def seq_inv_def run_inv_def row_inv_def
      received_def sent_def commit_open_def hist_ok_def)
next
  case (nb_step s i)
  then show ?case by (intro nb_exec_inv)
qed

subsection \<open>Properties\<close>

lemma history_ok_at: "nb_reachable cfg s \<Longrightarrow> history s = pre @ e # post \<Longrightarrow> ok_at pre e"
  using nb_reachable_inv[of cfg s] unfolding nb_inv_def hist_ok_def by blast

text \<open>
  C6. A commit frame leaves the broker only after the Mac accepted, in the same call of
  \<open>execute\<close> and on the same connection, the proposal with that operation id and request
  hash; and it leaves at most once per call.
\<close>

theorem commit_follows_acceptance:
  assumes "nb_reachable cfg s" "history s = pre @ Sent c n (Commit k h) # post"
  shows "Accepted c k h \<in> set (this_run pre) \<and> no_commit pre"
  using history_ok_at[OF assms] by (simp add: ok_at_def)

text \<open>
  A call that returns \<open>skipped_offline\<close>, the status that tells the caller nothing was
  written, sent no commit frame.
\<close>

theorem skipped_sent_nothing:
  assumes "nb_reachable cfg s" "history s = pre @ Returned n res # post" "status res = ''skipped_offline''"
  shows "no_commit pre"
  using history_ok_at[OF assms(1,2)] assms(3) by (simp add: ok_at_def)

text \<open>
  Write-ahead: if the process stops at any moment after a commit frame for an operation
  went out and before the final row was written (also when the call was cancelled or the
  ledger failed), the recovery of the next start classifies the operation as
  \<open>outcome_unknown\<close>, and a second recovery does not change that.
\<close>

theorem crash_keeps_commit_boundary:
  assumes "nb_reachable cfg s" "commit_open k (history s)"
  shows "status_of (snd (recover_incomplete now (rows s))) k = Some ''outcome_unknown'' \<and>
    status_of (snd (recover_incomplete now' (snd (recover_incomplete now (rows s))))) k =
      Some ''outcome_unknown''"
proof -
  have "status_of (rows s) k = Some ''commit_sent''"
    using nb_reachable_inv[OF assms(1)] assms(2) by (simp add: nb_inv_def row_inv_def)
  then have "status_of (snd (recover_incomplete now (rows s))) k = Some ''outcome_unknown''"
    by (rule bridge_ledger.recover_commit)
  then show ?thesis using bridge_ledger.recover_idem[of now' now "rows s" k] by simp
qed

text \<open>
  On every connection the sequence numbers of the handled messages strictly increase, as
  do those of the frames sent, so a replayed or reordered message is never handled; and of
  all connections only the active one can be open, so a superseded connection never sends.
\<close>

theorem no_replay_single_connection:
  assumes "nb_reachable cfg s" "c < next_conn s"
  shows "sorted_wrt (<) (received c (history s)) \<and> sorted_wrt (<) (sent c (history s)) \<and>
    (closed (conns s c) \<or> active s = Some c)"
  using nb_reachable_inv[OF assms(1)] assms(2) by (auto simp: nb_inv_def seq_inv_def conn_inv_def)

subsection \<open>A concrete run\<close>

definition demo_cfg :: nb_cfg where
  "demo_cfg = \<lparr>bridge_id = ''mac'', token = ''t'', offline_after = 15, max_bytes = 100,
     size_of = (\<lambda>m. 1), hash_of = (\<lambda>m. ''h''), sha256 = (\<lambda>s. ''d''), hmac_of = (\<lambda>t m. ''sig''),
     str_of = (\<lambda>v. []), int_of = (\<lambda>v. case v of JInt n \<Rightarrow> Some n | _ \<Rightarrow> None)\<rparr>"

definition demo_nonce :: string where
  "demo_nonce = ''abcdefghijklmnopqrstuvwxyz''"

definition demo_msg :: "int \<Rightarrow> (string \<times> json) list \<Rightarrow> message" where
  "demo_msg n kvs = kvs @ [(''bridge_id'', JStr ''mac''), (''connection_epoch'', JStr ''e''),
     (''sequence'', JInt n), (''signature'', JStr ''sig'')]"

definition demo_op :: nb_operation where
  "demo_op = \<lparr>operation_id = ''o1'', action = ''create'', account = [], folder = [], create_folder = False,
     document_key = [], title = ''T'', html = ''<p>'', note_id = [], marker = []\<rparr>"

definition demo_inputs :: "nb_input list" where
  "demo_inputs =
    [Connect [(''type'', JStr ''hello''), (''protocol'', JInt 1), (''bridge_id'', JStr ''mac''),
        (''client_nonce'', JStr demo_nonce)] ''ch'' ''sn''
       [(''type'', JStr ''proof''), (''bridge_id'', JStr ''mac''), (''client_nonce'', JStr demo_nonce),
        (''challenge_id'', JStr ''ch''), (''server_nonce'', JStr ''sn''), (''signature'', JStr ''sig'')] ''e'' 0,
     Ready_done 0 True,
     Receive 0 (demo_msg 1 [(''type'', JStr ''heartbeat''), (''notes_ready'', JBool True),
        (''permissions_ready'', JBool True)]) 1,
     Execute demo_op 2, Send_done True, Row_done ''t2'' 2,
     Receive 0 (demo_msg 2 [(''type'', JStr ''proposal_accepted''), (''operation_id'', JStr ''o1''),
        (''request_hash'', JStr ''h'')]) 3,
     Wake, Row_done ''t3'' 3, Row_done ''t4'' 3]"

definition demo_broker :: "nb_input list \<Rightarrow> nb_sys" where
  "demo_broker is = foldl (\<lambda>s i. nb_exec demo_cfg i s) (new_broker ''t0'' []) is"

lemma demo_broker_reachable: "nb_reachable demo_cfg (demo_broker is)"
proof -
  have "nb_reachable demo_cfg s \<Longrightarrow> nb_reachable demo_cfg (foldl (\<lambda>s i. nb_exec demo_cfg i s) s is)" for s
    by (induction "is" arbitrary: s) (auto intro: nb_step)
  then show ?thesis unfolding demo_broker_def by (blast intro: nb_start)
qed

lemma commit_follows_acceptance_witness:
  "Accepted 0 ''o1'' ''h'' \<in> set (this_run
     [Sent 0 1 Ready_frame, Received 0 1, Started 0 ''o1'', Sent 0 2 (Propose ''o1'' ''h''),
      Wrote 0 ''o1'' ''proposed'', Received 0 2, Accepted 0 ''o1'' ''h'',
      Wrote 0 ''o1'' ''proposal_accepted'', Wrote 0 ''o1'' ''commit_sent''])"
proof -
  have "history (demo_broker demo_inputs) =
     [Sent 0 1 Ready_frame, Received 0 1, Started 0 ''o1'', Sent 0 2 (Propose ''o1'' ''h''),
      Wrote 0 ''o1'' ''proposed'', Received 0 2, Accepted 0 ''o1'' ''h'',
      Wrote 0 ''o1'' ''proposal_accepted'', Wrote 0 ''o1'' ''commit_sent''] @
     Sent 0 3 (Commit ''o1'' ''h'') # []"
    by code_simp
  then show ?thesis using commit_follows_acceptance[OF demo_broker_reachable] by blast
qed

lemma crash_keeps_commit_boundary_witness:
  "status_of (snd (recover_incomplete ''t9'' (rows (demo_broker demo_inputs)))) ''o1''
     = Some ''outcome_unknown''"
proof -
  have "commit_open ''o1'' (history (demo_broker demo_inputs))" by code_simp
  then show ?thesis using crash_keeps_commit_boundary[OF demo_broker_reachable] by blast
qed

definition demo_offline :: nb_sys where
  "demo_offline = demo_broker [Execute demo_op 2, Row_done ''t2'' 2]"

lemma skipped_sent_nothing_witness:
  "no_commit [Started 0 ''o1'', Wrote 0 ''o1'' ''skipped_offline'']"
proof (rule skipped_sent_nothing)
  show "nb_reachable demo_cfg demo_offline" unfolding demo_offline_def by (rule demo_broker_reachable)
  show "history demo_offline = [Started 0 ''o1'', Wrote 0 ''o1'' ''skipped_offline''] @
      Returned 0 (offline_result ''o1'') # []" by code_simp
  show "status (offline_result ''o1'') = ''skipped_offline''" by code_simp
qed

lemma no_replay_single_connection_witness:
  "received 0 (history (demo_broker demo_inputs)) = [1, 2] \<and>
   sorted_wrt (<) (received 0 (history (demo_broker demo_inputs))) \<and>
   sorted_wrt (<) (sent 0 (history (demo_broker demo_inputs)))"
proof -
  have "0 < next_conn (demo_broker demo_inputs)" by code_simp
  then show ?thesis
    using no_replay_single_connection[OF demo_broker_reachable]
    by (intro conjI) (code_simp, blast+)
qed

end
