(* ===== verification/Handoff_Store.thy ===== *)
theory Handoff_Store
  imports Roxy_Prelude
begin

text \<open>
  The durable handoff table of session/store.py (lines 584--602, 757--930): mobile messages
  are written here before the bus queues them and deleted only after they were processed.
  The table is a list of rows in insertion order; \<open>handoff_id\<close> is its primary key and
  \<open>dedupe_key\<close> is unique where present.  The interface the bus relies on (the protocol
  \<open>DurableInboundStore\<close> of bus/queue.py) is the locale \<open>durable_inbound\<close>, interpreted here on
  the table.
\<close>

record handoff_row =
  hr_id :: string
  hr_dedupe :: "string option"
  hr_channel :: string
  hr_sender :: string
  hr_chat :: string
  hr_session :: string
  hr_content :: string
  hr_timestamp :: string
  hr_media :: string
  hr_metadata :: string
  hr_created :: string

type_synonym handoffs = "handoff_row list"

datatype handoff_error = Empty_field | Identity_conflict | Disappeared | Not_found | Bad_limit

definition row_by_id :: "handoffs \<Rightarrow> string \<Rightarrow> handoff_row option" where
  "row_by_id t k = find (\<lambda>r. hr_id r = k) t"

definition row_by_dedupe :: "handoffs \<Rightarrow> string option \<Rightarrow> handoff_row option" where
  "row_by_dedupe t d = (case d of None \<Rightarrow> None | Some x \<Rightarrow> find (\<lambda>r. hr_dedupe r = Some x) t)"

definition fields_ok :: "handoff_row \<Rightarrow> bool" where
  "fields_ok r \<longleftrightarrow> list_all (\<lambda>s. s \<noteq> [])
     [hr_id r, hr_channel r, hr_sender r, hr_chat r, hr_session r, hr_content r, hr_timestamp r,
      hr_media r, hr_metadata r, hr_created r] \<and> hr_dedupe r \<noteq> Some []"

definition same_identity :: "bool \<Rightarrow> handoff_row \<Rightarrow> handoff_row \<Rightarrow> bool" where
  "same_identity with_timestamp old new \<longleftrightarrow>
     hr_dedupe old = hr_dedupe new \<and> hr_channel old = hr_channel new \<and> hr_sender old = hr_sender new \<and>
     hr_chat old = hr_chat new \<and> hr_session old = hr_session new \<and> hr_content old = hr_content new \<and>
     hr_media old = hr_media new \<and> hr_metadata old = hr_metadata new \<and>
     (with_timestamp \<longrightarrow> hr_timestamp old = hr_timestamp new)"

text \<open>\<open>INSERT ... ON CONFLICT DO NOTHING\<close>: the table and the number of rows written.\<close>

definition insert_row :: "handoffs \<Rightarrow> handoff_row \<Rightarrow> handoffs \<times> nat" where
  "insert_row t r = (if row_by_id t (hr_id r) \<noteq> None \<or> row_by_dedupe t (hr_dedupe r) \<noteq> None
     then (t, 0) else (t @ [r], 1))"

definition reserve_inbound_handoff ::
  "handoffs \<Rightarrow> handoff_row \<Rightarrow> handoff_error + (string \<times> bool) \<times> handoffs" where
  "reserve_inbound_handoff t r =
     (if \<not> fields_ok r then Inl Empty_field
      else let by_id = row_by_id t (hr_id r); by_dedupe = row_by_dedupe t (hr_dedupe r) in
        if by_id \<noteq> None \<and> by_dedupe \<noteq> None \<and> hr_id (the by_id) \<noteq> hr_id (the by_dedupe)
        then Inl Identity_conflict
        else case (if by_id \<noteq> None then by_id else by_dedupe) of
          Some old \<Rightarrow> if same_identity (by_id \<noteq> None) old r then Inr ((hr_id old, False), t)
                      else Inl Identity_conflict
        | None \<Rightarrow>
            let (t', n) = insert_row t r;
                row = (case row_by_id t' (hr_id r) of Some x \<Rightarrow> Some x
                       | None \<Rightarrow> row_by_dedupe t' (hr_dedupe r)) in
            (case row of None \<Rightarrow> Inl Disappeared
             | Some x \<Rightarrow> if same_identity (hr_id x = hr_id r) x r then Inr ((hr_id x, n = 1), t')
                         else Inl Identity_conflict))"

definition arrival :: "handoff_row \<Rightarrow> string \<times> string" where
  "arrival r = (hr_created r, hr_id r)"

definition list_inbound_handoffs :: "handoffs \<Rightarrow> int option \<Rightarrow> handoff_error + handoff_row list" where
  "list_inbound_handoffs t limit = (case limit of
     None \<Rightarrow> Inr (sort_key arrival t)
   | Some n \<Rightarrow> if n < 1 then Inl Bad_limit else Inr (take (nat n) (sort_key arrival t)))"

definition has_inbound_handoff :: "handoffs \<Rightarrow> string \<Rightarrow> string \<Rightarrow> bool" where
  "has_inbound_handoff t session client =
     (row_by_dedupe t (Some (session @ '':'' @ client)) \<noteq> None)"

definition complete_inbound_handoff :: "handoffs \<Rightarrow> string \<Rightarrow> handoff_error + handoffs" where
  "complete_inbound_handoff t k =
     (if k = [] then Inl Empty_field
      else if length (filter (\<lambda>r. hr_id r = k) t) \<noteq> 1 then Inl Not_found
      else Inr (filter (\<lambda>r. hr_id r \<noteq> k) t))"

definition handoff_ids :: "handoffs \<Rightarrow> string set" where
  "handoff_ids t = hr_id ` set t"

text \<open>The two unique columns.\<close>

definition handoffs_ok :: "handoffs \<Rightarrow> bool" where
  "handoffs_ok t \<longleftrightarrow> distinct (map hr_id t) \<and>
     distinct (map the (filter (\<lambda>d. d \<noteq> None) (map hr_dedupe t)))"

text \<open>The laws of the protocol.\<close>

locale durable_inbound =
  fixes reserve :: "'s \<Rightarrow> handoff_row \<Rightarrow> 'e + (string \<times> bool) \<times> 's"
    and page :: "'s \<Rightarrow> int option \<Rightarrow> 'e + handoff_row list"
    and complete :: "'s \<Rightarrow> string \<Rightarrow> 'e + 's"
    and ids :: "'s \<Rightarrow> string set"
    and ok :: "'s \<Rightarrow> bool"
  assumes reserve_new: "reserve s r = Inr ((k, True), s') \<Longrightarrow>
      k = hr_id r \<and> k \<notin> ids s \<and> ids s' = insert k (ids s)"
    and reserve_old: "reserve s r = Inr ((k, False), s') \<Longrightarrow> k \<in> ids s \<and> s' = s"
    and reserve_same: "reserve s r = Inr ((k, b), s') \<Longrightarrow> hr_id r \<in> ids s \<Longrightarrow> k = hr_id r"
    and reserve_ok: "ok s \<Longrightarrow> reserve s r = Inr (q, s') \<Longrightarrow> ok s'"
    and complete_ids: "complete s k = Inr s' \<Longrightarrow> k \<in> ids s \<and> ids s' = ids s - {k}"
    and complete_ok: "ok s \<Longrightarrow> complete s k = Inr s' \<Longrightarrow> ok s'"
    and page_ids: "ok s \<Longrightarrow> page s n = Inr rs \<Longrightarrow> distinct (map hr_id rs) \<and> hr_id ` set rs \<subseteq> ids s"
    and page_all: "page s None = Inr rs \<Longrightarrow> hr_id ` set rs = ids s"
    and page_sorted: "page s n = Inr rs \<Longrightarrow> sorted (map arrival rs)"
    and page_progress: "1 \<le> m \<Longrightarrow> ids s \<noteq> {} \<Longrightarrow> \<exists>rs. page s (Some m) = Inr rs \<and> rs \<noteq> []"
begin

lemma reserve_mem: "reserve s r = Inr ((k, b), s') \<Longrightarrow> k \<in> ids s' \<and> ids s \<subseteq> ids s'"
  using reserve_new[of s r k s'] reserve_old[of s r k s'] by (cases b) auto

lemma complete_once: "complete s k = Inr s' \<Longrightarrow> complete s' k \<noteq> Inr s''"
  using complete_ids by blast

end

lemma row_by_id_Some: "row_by_id t k = Some r \<Longrightarrow> r \<in> set t \<and> hr_id r = k"
  by (auto simp: row_by_id_def find_Some_iff)

lemma row_by_id_None: "row_by_id t k = None \<longleftrightarrow> k \<notin> handoff_ids t"
  by (auto simp: row_by_id_def find_None_iff handoff_ids_def)

lemma row_by_dedupe_Some: "row_by_dedupe t d = Some r \<Longrightarrow> r \<in> set t \<and> hr_dedupe r = d \<and> d \<noteq> None"
  by (auto simp: row_by_dedupe_def find_Some_iff split: option.splits)

lemma row_by_dedupe_None: "row_by_dedupe t d = None \<longleftrightarrow> d = None \<or> (\<forall>r \<in> set t. hr_dedupe r \<noteq> d)"
  by (auto simp: row_by_dedupe_def find_None_iff split: option.splits)

lemma find_append_hit: "find P t = None \<Longrightarrow> P x \<Longrightarrow> find P (t @ [x]) = Some x"
  by (induction t) auto

text \<open>The cases of a successful reservation.\<close>

lemma reserve_cases:
  assumes "reserve_inbound_handoff t r = Inr ((k, b), t')"
  obtains (old_id) old where "row_by_id t (hr_id r) = Some old" "same_identity True old r" "k = hr_id r"
      "\<not> b" "t' = t"
  | (old_dedupe) old where "row_by_id t (hr_id r) = None" "row_by_dedupe t (hr_dedupe r) = Some old"
      "same_identity False old r" "k = hr_id old" "\<not> b" "t' = t"
  | (new) "row_by_id t (hr_id r) = None" "row_by_dedupe t (hr_dedupe r) = None" "k = hr_id r" "b"
      "t' = t @ [r]" "fields_ok r"
proof (cases "row_by_id t (hr_id r)")
  case None
  show thesis
  proof (cases "row_by_dedupe t (hr_dedupe r)")
    case None': None
    have "insert_row t r = (t @ [r], 1)" using None None' by (simp add: insert_row_def)
    moreover have "row_by_id (t @ [r]) (hr_id r) = Some r"
      using None unfolding row_by_id_def by (intro find_append_hit) auto
    ultimately show thesis using assms None None' new
      by (auto simp: reserve_inbound_handoff_def Let_def split: if_splits)
  next
    case (Some old)
    then show thesis using assms None old_dedupe
      by (auto simp: reserve_inbound_handoff_def Let_def split: if_splits)
  qed
next
  case (Some old)
  then show thesis using assms old_id row_by_id_Some[OF Some]
    by (auto simp: reserve_inbound_handoff_def Let_def split: if_splits)
qed

lemma reserve_keeps_ok:
  assumes "handoffs_ok t" "reserve_inbound_handoff t r = Inr (q, t')"
  shows "handoffs_ok t'"
proof -
  obtain k b where q: "q = (k, b)" by (cases q)
  show ?thesis
    using assms(2)[unfolded q]
  proof (cases rule: reserve_cases)
    case new
    then show ?thesis using assms(1)
      by (auto simp: handoffs_ok_def row_by_id_None row_by_dedupe_None handoff_ids_def)
  qed (use assms in auto)
qed

lemma handoffs_ok_filter:
  assumes "handoffs_ok t"
  shows "handoffs_ok (filter P t)"
proof -
  have "distinct (map (\<lambda>r. the (hr_dedupe r)) (filter P (filter (\<lambda>r. hr_dedupe r \<noteq> None) t)))"
    using assms distinct_map_filter[of "\<lambda>r. the (hr_dedupe r)" "filter (\<lambda>r. hr_dedupe r \<noteq> None) t" P]
    by (simp add: handoffs_ok_def filter_map comp_def del: filter_filter)
  then show ?thesis using assms by (simp add: handoffs_ok_def distinct_map_filter filter_map comp_def conj_commute)
qed

interpretation handoff_table: durable_inbound reserve_inbound_handoff list_inbound_handoffs
  complete_inbound_handoff handoff_ids handoffs_ok
proof unfold_locales
  fix s r k s' assume "reserve_inbound_handoff s r = Inr ((k, True), s')"
  then show "k = hr_id r \<and> k \<notin> handoff_ids s \<and> handoff_ids s' = insert k (handoff_ids s)"
    by (cases rule: reserve_cases) (auto simp: row_by_id_None handoff_ids_def)
next
  fix s r k s' assume "reserve_inbound_handoff s r = Inr ((k, False), s')"
  then show "k \<in> handoff_ids s \<and> s' = s"
    by (cases rule: reserve_cases)
      (simp_all, (metis handoff_ids_def image_eqI row_by_id_Some row_by_dedupe_Some)+)
next
  fix s r k b s' assume "reserve_inbound_handoff s r = Inr ((k, b), s')" "hr_id r \<in> handoff_ids s"
  then show "k = hr_id r" by (cases rule: reserve_cases) (simp_all add: row_by_id_None)
next
  show "handoffs_ok s \<Longrightarrow> reserve_inbound_handoff s r = Inr (q, s') \<Longrightarrow> handoffs_ok s'" for s r q s'
    by (rule reserve_keeps_ok)
next
  fix s k s' assume c: "complete_inbound_handoff s k = Inr s'"
  then have "length (filter (\<lambda>r. hr_id r = k) s) = 1" "s' = filter (\<lambda>r. hr_id r \<noteq> k) s"
    by (auto simp: complete_inbound_handoff_def split: if_splits)
  moreover from this have "filter (\<lambda>r. hr_id r = k) s \<noteq> []" by auto
  then obtain r where "r \<in> set s" "hr_id r = k" by (auto simp: filter_empty_conv)
  ultimately show "k \<in> handoff_ids s \<and> handoff_ids s' = handoff_ids s - {k}"
    by (auto simp: handoff_ids_def)
next
  show "handoffs_ok s \<Longrightarrow> complete_inbound_handoff s k = Inr s' \<Longrightarrow> handoffs_ok s'" for s k s'
    by (auto simp: complete_inbound_handoff_def handoffs_ok_filter split: if_splits)
next
  fix s n rs assume "handoffs_ok s" "list_inbound_handoffs s n = Inr rs"
  moreover have "distinct (map hr_id (sort_key arrival s))" if "distinct (map hr_id s)"
    using that by (simp add: distinct_map)
  ultimately show "distinct (map hr_id rs) \<and> hr_id ` set rs \<subseteq> handoff_ids s"
    by (auto simp: list_inbound_handoffs_def handoffs_ok_def handoff_ids_def take_map[symmetric]
      split: option.splits if_splits dest: in_set_takeD)
next
  show "list_inbound_handoffs s None = Inr rs \<Longrightarrow> hr_id ` set rs = handoff_ids s" for s rs
    by (auto simp: list_inbound_handoffs_def handoff_ids_def)
next
  show "list_inbound_handoffs s n = Inr rs \<Longrightarrow> sorted (map arrival rs)" for s n rs
    by (auto simp: list_inbound_handoffs_def sorted_wrt_take take_map[symmetric] split: option.splits if_splits)
next
  show "1 \<le> n \<Longrightarrow> handoff_ids s \<noteq> {} \<Longrightarrow> \<exists>rs. list_inbound_handoffs s (Some n) = Inr rs \<and> rs \<noteq> []" for n s
  proof -
    assume n: "1 \<le> n" and "handoff_ids s \<noteq> {}"
    then have "s \<noteq> []" by (auto simp: handoff_ids_def)
    then have "sort_key arrival s \<noteq> []" by (metis length_0_conv length_sort)
    then have "take (nat n) (sort_key arrival s) \<noteq> []" using n by (cases "nat n") auto
    then show ?thesis using n by (auto simp: list_inbound_handoffs_def)
  qed
qed

subsection \<open>The table refines two maps\<close>

text \<open>
  What the table promises: a map from handoff ids to rows, and an index from dedupe keys to the id that
  owns them.  A reservation extends both or finds the row that is already there, a completion takes a
  row out of both.
\<close>

type_synonym row_maps = "(string \<Rightarrow> handoff_row option) \<times> (string \<Rightarrow> string option)"

definition handoff_maps :: "handoffs \<Rightarrow> row_maps" where
  "handoff_maps t = (\<lambda>k. row_by_id t k, \<lambda>d. map_option hr_id (row_by_dedupe t (Some d)))"

definition spec_reserve :: "row_maps \<Rightarrow> handoff_row \<Rightarrow> handoff_error + (string \<times> bool) \<times> row_maps" where
  "spec_reserve m r = (case m of (rows, owner) \<Rightarrow>
     let keep = (\<lambda>with_timestamp old. if same_identity with_timestamp old r then Inr ((hr_id old, False), m)
           else Inl Identity_conflict) in
     if \<not> fields_ok r then Inl Empty_field
     else case (rows (hr_id r), Option.bind (hr_dedupe r) owner) of
       (Some old, Some k) \<Rightarrow> if k = hr_id r then keep True old else Inl Identity_conflict
     | (Some old, None) \<Rightarrow> keep True old
     | (None, Some k) \<Rightarrow> keep False (the (rows k))
     | (None, None) \<Rightarrow> Inr ((hr_id r, True), (rows(hr_id r \<mapsto> r),
         case hr_dedupe r of None \<Rightarrow> owner | Some d \<Rightarrow> owner(d \<mapsto> hr_id r))))"

definition spec_complete :: "row_maps \<Rightarrow> string \<Rightarrow> handoff_error + row_maps" where
  "spec_complete m k = (case m of (rows, owner) \<Rightarrow>
     if k = [] then Inl Empty_field
     else case rows k of None \<Rightarrow> Inl Not_found
       | Some r \<Rightarrow> Inr (rows(k := None), case hr_dedupe r of None \<Rightarrow> owner | Some d \<Rightarrow> owner(d := None)))"

lemma row_by_id_mem: "distinct (map hr_id t) \<Longrightarrow> r \<in> set t \<Longrightarrow> row_by_id t (hr_id r) = Some r"
  by (induction t) (auto simp: row_by_id_def)

lemma handoffs_ok_Cons: "handoffs_ok (r # t) \<Longrightarrow> handoffs_ok t \<and> hr_id r \<notin> hr_id ` set t \<and>
    (\<forall>x \<in> set t. hr_dedupe r \<noteq> None \<longrightarrow> hr_dedupe x \<noteq> hr_dedupe r)"
  by (auto simp: handoffs_ok_def split: if_splits) force

lemma row_by_dedupe_mem: "handoffs_ok t \<Longrightarrow> r \<in> set t \<Longrightarrow> hr_dedupe r = Some d \<Longrightarrow> row_by_dedupe t (Some d) = Some r"
proof (induction t)
  case (Cons x t)
  show ?case
  proof (cases "r = x")
    case False
    then have "hr_dedupe x \<noteq> Some d" using handoffs_ok_Cons[OF Cons.prems(1)] Cons.prems(2,3) by force
    then show ?thesis using Cons False handoffs_ok_Cons[OF Cons.prems(1)] by (simp add: row_by_dedupe_def)
  qed (use Cons.prems in \<open>simp add: row_by_dedupe_def\<close>)
qed simp

lemma row_by_id_snoc: "row_by_id t (hr_id r) = None \<Longrightarrow> row_by_id (t @ [r]) k = (if k = hr_id r then Some r else row_by_id t k)"
  by (induction t) (auto simp: row_by_id_def split: if_splits)

lemma row_by_dedupe_snoc: "row_by_dedupe t (hr_dedupe r) = None \<Longrightarrow>
    row_by_dedupe (t @ [r]) (Some d) = (if hr_dedupe r = Some d then Some r else row_by_dedupe t (Some d))"
  by (cases "hr_dedupe r"; induction t) (auto simp: row_by_dedupe_def split: if_splits)

lemma row_by_id_filter: "row_by_id (filter (\<lambda>r. hr_id r \<noteq> k) t) j = (if j = k then None else row_by_id t j)"
  by (induction t) (auto simp: row_by_id_def)

lemma row_by_dedupe_filter:
  assumes "handoffs_ok t" "row_by_id t k = Some r"
  shows "row_by_dedupe (filter (\<lambda>r. hr_id r \<noteq> k) t) (Some d) =
    (if hr_dedupe r = Some d then None else row_by_dedupe t (Some d))"
proof (cases "row_by_dedupe t (Some d)")
  case None
  then have "row_by_dedupe (filter (\<lambda>r. hr_id r \<noteq> k) t) (Some d) = None" by (auto simp: row_by_dedupe_None)
  then show ?thesis using None by simp
next
  case (Some x)
  note x = row_by_dedupe_Some[OF Some]
  note r = row_by_id_Some[OF assms(2)]
  show ?thesis
  proof (cases "hr_dedupe r = Some d")
    case True
    have "y = r" if "y \<in> set t" "hr_dedupe y = Some d" for y
      using row_by_dedupe_mem[OF assms(1)] that True r by (metis option.inject)
    then have "row_by_dedupe (filter (\<lambda>r. hr_id r \<noteq> k) t) (Some d) = None" using r by (auto simp: row_by_dedupe_None)
    then show ?thesis using True by simp
  next
    case False
    have "hr_id x \<noteq> k" using False x r assms by (metis handoffs_ok_def option.inject row_by_id_mem)
    then have "row_by_dedupe (filter (\<lambda>r. hr_id r \<noteq> k) t) (Some d) = Some x"
      using x handoffs_ok_filter[OF assms(1)] by (intro row_by_dedupe_mem) auto
    then show ?thesis using False Some by simp
  qed
qed

lemma filter_id_count: "distinct (map hr_id t) \<Longrightarrow>
    length (filter (\<lambda>r. hr_id r = k) t) = (if k \<in> handoff_ids t then 1 else 0)"
  by (induction t) (auto simp: handoff_ids_def filter_empty_conv)

lemma reserve_refines:
  assumes "handoffs_ok t"
  shows "map_sum id (apsnd handoff_maps) (reserve_inbound_handoff t r) = spec_reserve (handoff_maps t) r"
proof (cases "fields_ok r")
  case True
  have d: "distinct (map hr_id t)" using assms by (simp add: handoffs_ok_def)
  have bind: "Option.bind (hr_dedupe r) (\<lambda>d. map_option hr_id (row_by_dedupe t (Some d))) = map_option hr_id (row_by_dedupe t (hr_dedupe r))"
    by (cases "hr_dedupe r") (simp_all add: row_by_dedupe_def)
  show ?thesis
  proof (cases "row_by_id t (hr_id r)")
    case id: (Some old)
    have "hr_id old = hr_id r" using row_by_id_Some[OF id] by simp
    then show ?thesis using True id
      by (cases "row_by_dedupe t (hr_dedupe r)")
        (auto simp: reserve_inbound_handoff_def spec_reserve_def handoff_maps_def Let_def bind)
  next
    case id: None
    show ?thesis
    proof (cases "row_by_dedupe t (hr_dedupe r)")
      case (Some old)
      have "row_by_id t (hr_id old) = Some old" using row_by_dedupe_Some[OF Some] row_by_id_mem[OF d] by blast
      then show ?thesis using True id Some
        by (auto simp: reserve_inbound_handoff_def spec_reserve_def handoff_maps_def Let_def bind)
    next
      case None
      have self: "row_by_id (t @ [r]) (hr_id r) = Some r" using row_by_id_snoc[OF id] by simp
      have res: "reserve_inbound_handoff t r = Inr ((hr_id r, True), t @ [r])"
        using True id None self by (simp add: reserve_inbound_handoff_def Let_def insert_row_def same_identity_def)
      show ?thesis using True id None row_by_id_snoc[OF id] row_by_dedupe_snoc[OF None]
        by (cases "hr_dedupe r") (auto simp: res spec_reserve_def handoff_maps_def fun_eq_iff)
    qed
  qed
qed (simp add: reserve_inbound_handoff_def spec_reserve_def handoff_maps_def)

lemma complete_refines:
  assumes "handoffs_ok t"
  shows "map_sum id handoff_maps (complete_inbound_handoff t k) = spec_complete (handoff_maps t) k"
proof (cases "row_by_id t k")
  case None
  then have "k \<notin> handoff_ids t" by (simp add: row_by_id_None)
  then show ?thesis using None assms filter_id_count[of t k]
    by (simp add: complete_inbound_handoff_def spec_complete_def handoff_maps_def handoffs_ok_def)
next
  case (Some r)
  have "k \<in> handoff_ids t" using row_by_id_Some[OF Some] by (auto simp: handoff_ids_def)
  then have "length (filter (\<lambda>r. hr_id r = k) t) = 1" using assms filter_id_count[of t k] by (simp add: handoffs_ok_def)
  then show ?thesis using Some row_by_id_filter[of k t] row_by_dedupe_filter[OF assms Some]
    by (cases "hr_dedupe r")
      (auto simp: complete_inbound_handoff_def spec_complete_def handoff_maps_def fun_eq_iff)
qed

text \<open>A page of the map: the rows in the order of arrival, the first \<open>limit\<close> of them.\<close>

definition spec_list :: "row_maps \<Rightarrow> int option \<Rightarrow> handoff_error + handoff_row list" where
  "spec_list m limit =
     (let rows = map (\<lambda>(created, k). the (fst m k)) (sorted_list_of_set {(hr_created r, hr_id r) |r. r \<in> ran (fst m)}) in
      case limit of None \<Rightarrow> Inr rows
      | Some n \<Rightarrow> if n < 1 then Inl Bad_limit else Inr (take (nat n) rows))"

lemma ran_row_by_id: "handoffs_ok t \<Longrightarrow> ran (\<lambda>k. row_by_id t k) = set t"
  using row_by_id_mem[of t] row_by_id_Some[of t] by (fastforce simp: ran_def handoffs_ok_def)

lemma list_refines:
  assumes "handoffs_ok t"
  shows "list_inbound_handoffs t limit = spec_list (handoff_maps t) limit"
proof -
  have d: "distinct (map hr_id t)" using assms by (simp add: handoffs_ok_def)
  define xs where "xs = sort_key arrival t"
  have ids: "distinct (map hr_id xs)" using d by (simp add: xs_def distinct_map)
  have xs: "sorted (map arrival xs)" "distinct (map arrival xs)" "set xs = set t"
    using ids by (auto simp: xs_def distinct_map inj_on_def arrival_def)
  have keys: "{(hr_created r, hr_id r) |r. r \<in> ran (fst (handoff_maps t))} = set (map arrival xs)"
    using ran_row_by_id[OF assms] xs(3) by (auto simp: handoff_maps_def arrival_def)
  have sorted: "sorted_list_of_set (set (map arrival xs)) = map arrival xs"
    using xs(1,2) by (rule sorted_list_of_set.idem_if_sorted_distinct)
  have "the (row_by_id t (hr_id r)) = r" if r: "r \<in> set xs" for r
    using row_by_id_mem[OF d, of r] r xs(3) by simp
  then have rows: "map (\<lambda>(created, k). the (fst (handoff_maps t) k)) (map arrival xs) = xs"
    by (simp add: handoff_maps_def arrival_def map_idI)
  show ?thesis unfolding spec_list_def keys sorted rows Let_def unfolding xs_def list_inbound_handoffs_def ..
qed

text \<open>
  C18. The handoff table implements two maps.  Read as the map from ids to rows and the index from dedupe
  keys to ids, reserving a row, with every answer and error, and completing a handoff are exactly the
  operations of the maps; the look-up by session and client message id is the look-up in the index; and
  a listing with any limit is exactly the listing of the map: the rows ordered by creation time and id,
  all of them or the first as many as the limit, or the error for a limit below one.
\<close>

theorem handoff_table_refines:
  assumes "handoffs_ok t"
  shows "map_sum id (apsnd handoff_maps) (reserve_inbound_handoff t r) = spec_reserve (handoff_maps t) r \<and>
    map_sum id handoff_maps (complete_inbound_handoff t k) = spec_complete (handoff_maps t) k \<and>
    has_inbound_handoff t session client = (snd (handoff_maps t) (session @ '':'' @ client) \<noteq> None) \<and>
    list_inbound_handoffs t limit = spec_list (handoff_maps t) limit"
  using reserve_refines[OF assms] complete_refines[OF assms] list_refines[OF assms]
  by (simp add: has_inbound_handoff_def handoff_maps_def)

definition demo_handoff :: handoff_row where
  "demo_handoff = \<lparr>hr_id = ''h'', hr_dedupe = Some ''s:c'', hr_channel = ''mobile'', hr_sender = ''u'', hr_chat = ''d'',
     hr_session = ''s'', hr_content = ''hi'', hr_timestamp = ''t'', hr_media = ''[]'', hr_metadata = ''{}'', hr_created = ''t''\<rparr>"

theorem handoff_table_refines_witness:
  "handoffs_ok [demo_handoff] \<and>
   spec_reserve (handoff_maps [demo_handoff]) (demo_handoff\<lparr>hr_id := ''i''\<rparr>) = Inr ((''h'', False), handoff_maps [demo_handoff]) \<and>
   spec_list (handoff_maps [demo_handoff]) (Some 256) = Inr [demo_handoff]"
proof -
  have ok: "handoffs_ok [demo_handoff]" by code_simp
  have "reserve_inbound_handoff [demo_handoff] (demo_handoff\<lparr>hr_id := ''i''\<rparr>) = Inr ((''h'', False), [demo_handoff])" by code_simp
  moreover have "list_inbound_handoffs [demo_handoff] (Some 256) = Inr [demo_handoff]" by (simp add: list_inbound_handoffs_def)
  ultimately show ?thesis
    using ok handoff_table_refines[OF ok, where r = "demo_handoff\<lparr>hr_id := ''i''\<rparr>" and limit = "Some 256"] by simp
qed

end
