(* ===== verification/Message_Bus.thy ===== *)
theory Message_Bus
  imports Handoff_Store
begin

text \<open>
  The message bus of bus/queue.py (lines 58--116 and 307--889): durable mobile input and
  outbound dispatch.  Messages are objects in a heap (\<open>id(msg)\<close> is the reference).  The
  durable handoff lock is part of the state, with one constructor per await inside it, and
  the completion of a message waits outside it (\<open>b_final\<close>), so every interleaving of
  publishing, recovery, consumption, completion and clean-up retries is a sequence of
  \<open>bus_exec\<close> steps.  JSON text, timestamps and fresh ids are parameters or inputs; the lane
  itself is the subject of theory Chat_Lane, here its passive turns are counted in \<open>b_turns\<close>.
\<close>

subsection \<open>Rows of inbound messages\<close>

record inbound =
  ib_channel :: string
  ib_sender :: string
  ib_chat :: string
  ib_content :: string
  ib_timestamp :: string
  ib_media :: "string list"
  ib_metadata :: "(string, json) dict"
  ib_handoff :: "string option"

text \<open>\<open>json.dumps\<close> (None: a value it refuses), \<open>json.loads\<close>, \<open>astimezone(utc).isoformat()\<close>,
  \<open>datetime.fromisoformat\<close> (None: invalid or without a zone) and \<open>str\<close>.\<close>

record bus_env =
  dumps :: "json \<Rightarrow> string option"
  loads :: "string \<Rightarrow> json option"
  utc_iso :: "string \<Rightarrow> string"
  parse_ts :: "string \<Rightarrow> string option"
  str_text :: "json \<Rightarrow> string"

definition session_key :: "bus_env \<Rightarrow> inbound \<Rightarrow> string" where
  "session_key env m = (let v = json_field (ib_metadata m) ''session_key_override'';
       override = py_strip (if truthy v then (case v of JStr s \<Rightarrow> s | _ \<Rightarrow> str_text env v) else []) in
     if override \<noteq> [] then override else ib_channel m @ '':'' @ ib_chat m)"

definition mobile_dedupe_key :: "bus_env \<Rightarrow> inbound \<Rightarrow> string option" where
  "mobile_dedupe_key env m = (case json_field (ib_metadata m) ''client_message_id'' of
     JStr s \<Rightarrow> if s = [] then None else Some (session_key env m @ '':'' @ s)
   | _ \<Rightarrow> None)"

definition serialize_handoff :: "bus_env \<Rightarrow> inbound \<Rightarrow> (string \<times> string) option" where
  "serialize_handoff env m = (case dumps env (JList (map JStr (ib_media m))) of None \<Rightarrow> None
     | Some media \<Rightarrow> (case dumps env (JObj (ib_metadata m)) of None \<Rightarrow> None
       | Some metadata \<Rightarrow> Some (media, metadata)))"

definition handoff_row_of :: "bus_env \<Rightarrow> inbound \<Rightarrow> string \<Rightarrow> string \<Rightarrow> handoff_row option" where
  "handoff_row_of env m k created = (case serialize_handoff env m of None \<Rightarrow> None
     | Some (media, metadata) \<Rightarrow> Some \<lparr>hr_id = k, hr_dedupe = mobile_dedupe_key env m,
         hr_channel = ib_channel m, hr_sender = ib_sender m, hr_chat = ib_chat m,
         hr_session = session_key env m, hr_content = ib_content m,
         hr_timestamp = utc_iso env (ib_timestamp m), hr_media = media, hr_metadata = metadata,
         hr_created = created\<rparr>)"

definition all_texts :: "json list \<Rightarrow> string list option" where
  "all_texts js = (if list_all is_str js then Some (map the_str js) else None)"

definition inbound_from_handoff :: "bus_env \<Rightarrow> handoff_row \<Rightarrow> inbound option" where
  "inbound_from_handoff env r =
     (if \<not> list_all (\<lambda>s. s \<noteq> []) [hr_id r, hr_channel r, hr_sender r, hr_chat r, hr_content r,
          hr_timestamp r, hr_media r, hr_metadata r] then None
      else case loads env (hr_media r) of
        Some (JList js) \<Rightarrow> (case all_texts js of None \<Rightarrow> None
          | Some media \<Rightarrow> (case loads env (hr_metadata r) of
              Some (JObj metadata) \<Rightarrow> (case parse_ts env (hr_timestamp r) of None \<Rightarrow> None
                | Some ts \<Rightarrow> Some \<lparr>ib_channel = hr_channel r, ib_sender = hr_sender r,
                    ib_chat = hr_chat r, ib_content = hr_content r, ib_timestamp = ts,
                    ib_media = media, ib_metadata = metadata, ib_handoff = Some (hr_id r)\<rparr>)
            | _ \<Rightarrow> None))
      | _ \<Rightarrow> None)"

text \<open>The documented behaviour of the JSON and ISO functions that recovery relies on.\<close>

definition codec_law :: "bus_env \<Rightarrow> bool" where
  "codec_law env \<longleftrightarrow> (\<forall>j t. dumps env j = Some t \<longrightarrow> loads env t = Some j \<and> t \<noteq> []) \<and>
     (\<forall>t. utc_iso env t \<noteq> [] \<and>
       (\<exists>u. parse_ts env (utc_iso env t) = Some u \<and> utc_iso env u = utc_iso env t))"

subsection \<open>State\<close>

datatype bus_lock =
    Free
  | Publishing nat
  | Recovering "handoff_row list" "string list"
  | Restoring nat string "handoff_row list" "string list"

record bus =
  b_msgs :: "nat \<Rightarrow> inbound"
  b_next :: nat
  b_store :: "handoffs option"
  b_queue :: "nat list"
  b_accepted :: "(nat, bool) dict"
  b_retry :: "nat list"
  b_fatal :: bool
  b_claimed :: "string list"
  b_lock :: bus_lock
  b_final :: "(nat \<times> bool) list"
  b_leaked :: "nat list"
  b_turns :: "string \<times> string \<Rightarrow> int"

datatype io = Io_ok | Io_os_error | Io_fatal

definition page_size :: int where "page_size = 256"

definition new_bus :: "(nat \<Rightarrow> inbound) \<Rightarrow> bus" where
  "new_bus heap = \<lparr>b_msgs = heap, b_next = 0, b_store = None, b_queue = [], b_accepted = [],
     b_retry = [], b_fatal = False, b_claimed = [], b_lock = Free, b_final = [], b_leaked = [],
     b_turns = (\<lambda>k. 0)\<rparr>"

text \<open>The session owner binds the table once, before any channel starts.\<close>

definition bind_store :: "handoffs \<Rightarrow> bus \<Rightarrow> bus" where
  "bind_store st s = (if b_store s \<noteq> None then s else s\<lparr>b_store := Some st\<rparr>)"

definition lane_key :: "inbound \<Rightarrow> string \<times> string" where
  "lane_key m = (ib_channel m, ib_chat m)"

definition add_turn :: "nat \<Rightarrow> int \<Rightarrow> bus \<Rightarrow> bus" where
  "add_turn r d s = (let k = lane_key (b_msgs s r) in s\<lparr>b_turns := (b_turns s)(k := b_turns s k + d)\<rparr>)"

definition handoff_of :: "bus \<Rightarrow> nat \<Rightarrow> string option" where
  "handoff_of s r = ib_handoff (b_msgs s r)"

subsection \<open>Reserving and queueing\<close>

datatype reserve_result = Refused | Duplicate bus | Reserved bus

text \<open>\<open>_reserve_and_queue_mobile\<close> up to its await.\<close>

definition reserve_mobile :: "bus_env \<Rightarrow> bool \<Rightarrow> nat \<Rightarrow> string \<Rightarrow> string \<Rightarrow> bus \<Rightarrow> reserve_result" where
  "reserve_mobile env allow_existing r new_id created s =
     (if dict_get (b_accepted s) r \<noteq> None then Refused
      else case b_store s of None \<Rightarrow> Refused
      | Some st \<Rightarrow>
          let m = b_msgs s r; requested = ib_handoff m;
              wanted = (case requested of Some k \<Rightarrow> (if k = [] then new_id else k) | None \<Rightarrow> new_id) in
          (case handoff_row_of env m wanted created of None \<Rightarrow> Refused
           | Some row \<Rightarrow>
               (case reserve_inbound_handoff st row of Inl e \<Rightarrow> Refused
                | Inr ((k, made), st') \<Rightarrow>
                    let s' = s\<lparr>b_store := Some st', b_msgs := (b_msgs s)(r := m\<lparr>ib_handoff := Some k\<rparr>)\<rparr> in
                    if \<not> made \<and> \<not> (allow_existing \<and> requested = Some k) then Duplicate s' else Reserved s')))"

definition queue_mobile :: "nat \<Rightarrow> bus \<Rightarrow> bus" where
  "queue_mobile r s = add_turn r 1 (s\<lparr>b_queue := b_queue s @ [r],
     b_accepted := dict_set (b_accepted s) r False\<rparr>)"

definition publish_inbound :: "bus_env \<Rightarrow> nat \<Rightarrow> string \<Rightarrow> string \<Rightarrow> bus \<Rightarrow> bus" where
  "publish_inbound env r new_id created s =
     (if b_fatal s then s
      else if ib_channel (b_msgs s r) \<noteq> ''mobile'' then add_turn r 1 (s\<lparr>b_queue := b_queue s @ [r]\<rparr>)
      else if b_lock s \<noteq> Free then s
      else case reserve_mobile env False r new_id created s of
        Refused \<Rightarrow> s | Duplicate s' \<Rightarrow> s' | Reserved s' \<Rightarrow> s'\<lparr>b_lock := Publishing r\<rparr>)"

text \<open>The lane answered (\<open>ok\<close>), or the wait was cancelled, while the lock is held.\<close>

definition lane_reply :: "bool \<Rightarrow> bus \<Rightarrow> bus" where
  "lane_reply ok s = (case b_lock s of
     Publishing r \<Rightarrow> (if ok then queue_mobile r s else s)\<lparr>b_lock := Free\<rparr>
   | Restoring r k rows infl \<Rightarrow>
       (if ok then (queue_mobile r s)\<lparr>b_lock := Recovering rows infl\<rparr>
        else s\<lparr>b_claimed := removeAll k (b_claimed s), b_lock := Free\<rparr>)
   | _ \<Rightarrow> s)"

subsection \<open>Recovery\<close>

definition owned_handoffs :: "bus \<Rightarrow> string list" where
  "owned_handoffs s = concat (map (\<lambda>(r, c). case handoff_of s r of Some k \<Rightarrow> [k] | None \<Rightarrow> []) (b_accepted s))"

definition recover_begin :: "bus \<Rightarrow> bus" where
  "recover_begin s =
     (if b_fatal s \<or> b_lock s \<noteq> Free then s
      else case b_store s of None \<Rightarrow> s
      | Some st \<Rightarrow> (case list_inbound_handoffs st (Some page_size) of Inl e \<Rightarrow> s
          | Inr rows \<Rightarrow> s\<lparr>b_lock := Recovering rows (owned_handoffs s)\<rparr>))"

text \<open>One row of the page that nobody owns: it is claimed, reserved again and queued.\<close>

definition recover_claimed ::
  "bus_env \<Rightarrow> string \<Rightarrow> string \<Rightarrow> inbound \<Rightarrow> handoff_row list \<Rightarrow> string list \<Rightarrow> bus \<Rightarrow> bus" where
  "recover_claimed env created k m rows infl s =
     (let r = b_next s;
          s1 = s\<lparr>b_msgs := (b_msgs s)(r := m), b_next := r + 1, b_claimed := b_claimed s @ [k]\<rparr> in
      case reserve_mobile env True r [] created s1 of
        Refused \<Rightarrow> s1\<lparr>b_claimed := removeAll k (b_claimed s1), b_lock := Free\<rparr>
      | Duplicate s2 \<Rightarrow> s2\<lparr>b_lock := Recovering rows infl\<rparr>
      | Reserved s2 \<Rightarrow> s2\<lparr>b_lock := Restoring r k rows infl\<rparr>)"

definition recover_next :: "bus_env \<Rightarrow> string \<Rightarrow> bus \<Rightarrow> bus" where
  "recover_next env created s = (case b_lock s of
     Recovering [] infl \<Rightarrow> s\<lparr>b_lock := Free\<rparr>
   | Recovering (row # rows) infl \<Rightarrow>
       (if hr_id row \<in> set (b_claimed s) \<or> hr_id row \<in> set infl then s\<lparr>b_lock := Recovering rows infl\<rparr>
        else case inbound_from_handoff env row of None \<Rightarrow> s\<lparr>b_lock := Free\<rparr>
        | Some m \<Rightarrow> recover_claimed env created (hr_id row) m rows infl s)
   | _ \<Rightarrow> s)"

subsection \<open>Completion\<close>

text \<open>\<open>store.complete_inbound_handoff\<close> with the outcome of the file: the new state, or whether
  the failure is an \<open>OSError\<close>.\<close>

definition store_complete :: "io \<Rightarrow> string \<Rightarrow> bus \<Rightarrow> bool + bus" where
  "store_complete o1 k s = (case b_store s of None \<Rightarrow> Inl False
     | Some st \<Rightarrow> (case o1 of Io_os_error \<Rightarrow> Inl True | Io_fatal \<Rightarrow> Inl False
       | Io_ok \<Rightarrow> (case complete_inbound_handoff st k of Inl e \<Rightarrow> Inl False
           | Inr st' \<Rightarrow> Inr (s\<lparr>b_store := Some st'\<rparr>))))"

definition complete_inbound :: "io \<Rightarrow> nat \<Rightarrow> bus \<Rightarrow> bus" where
  "complete_inbound o1 r s =
     (if b_fatal s then s
      else case dict_get (b_accepted s) r of
        None \<Rightarrow> add_turn r (- 1) s
      | Some cleanup \<Rightarrow>
          if cleanup then s
          else (case handoff_of s r of None \<Rightarrow> s\<lparr>b_final := b_final s @ [(r, False)]\<rparr>
            | Some k \<Rightarrow>
                if b_store s = None then s
                else (case store_complete o1 k s of
                   Inr s' \<Rightarrow> s'\<lparr>b_final := b_final s @ [(r, False)]\<rparr>
                 | Inl os \<Rightarrow>
                     if os then s\<lparr>b_accepted := dict_set (b_accepted s) r True, b_retry := b_retry s @ [r]\<rparr>
                     else s\<lparr>b_fatal := True\<rparr>)))"

definition retry_cleanup :: "io \<Rightarrow> nat \<Rightarrow> bus \<Rightarrow> bus" where
  "retry_cleanup o1 r s =
     (if r \<notin> set (b_retry s) then s
      else let give_up = s\<lparr>b_fatal := True, b_retry := removeAll r (b_retry s)\<rparr> in
        case dict_get (b_accepted s) r of
          Some True \<Rightarrow>
            (case handoff_of s r of None \<Rightarrow> give_up
             | Some k \<Rightarrow> (case store_complete o1 k s of
                 Inr s' \<Rightarrow> s'\<lparr>b_final := b_final s @ [(r, False)], b_retry := removeAll r (b_retry s)\<rparr>
               | Inl os \<Rightarrow> if os then s else give_up))
        | _ \<Rightarrow> give_up)"

text \<open>\<open>_finalize_inbound_owner\<close>: the lane turn ends, then the owner is released under the lock.\<close>

definition finalize_lane :: "nat \<Rightarrow> bus \<Rightarrow> bus" where
  "finalize_lane r s = (if (r, False) \<in> set (b_final s)
     then add_turn r (- 1) (s\<lparr>b_final := map (\<lambda>p. if p = (r, False) then (r, True) else p) (b_final s)\<rparr>)
     else s)"

definition finalize_release :: "nat \<Rightarrow> bus \<Rightarrow> bus" where
  "finalize_release r s =
     (if (r, True) \<notin> set (b_final s) \<or> b_lock s \<noteq> Free then s
      else s\<lparr>b_final := filter (\<lambda>p. fst p \<noteq> r) (b_final s), b_accepted := dict_del (b_accepted s) r,
        b_claimed := (case handoff_of s r of Some k \<Rightarrow> removeAll k (b_claimed s) | None \<Rightarrow> b_claimed s)\<rparr>)"

text \<open>Cancelled while waiting: the owner stays behind.\<close>

definition finalize_cancelled :: "nat \<Rightarrow> bus \<Rightarrow> bus" where
  "finalize_cancelled r s = (if r \<in> fst ` set (b_final s)
     then s\<lparr>b_final := filter (\<lambda>p. fst p \<noteq> r) (b_final s), b_leaked := b_leaked s @ [r]\<rparr> else s)"

definition has_pending_mobile_handoff :: "bus \<Rightarrow> string \<Rightarrow> string \<Rightarrow> bool" where
  "has_pending_mobile_handoff s session client = (case b_store s of None \<Rightarrow> False
     | Some st \<Rightarrow> has_inbound_handoff st session client)"

subsection \<open>Steps\<close>

datatype bus_cmd =
    New_message inbound
  | Publish nat string string
  | Lane_reply bool
  | Recover
  | Recover_row string
  | Consume
  | Complete nat io
  | Retry nat io
  | Finalize_lane nat
  | Finalize_release nat
  | Finalize_cancelled nat
  | Close_bus

text \<open>A channel publishes a message object once and lets the bus choose the handoff id, which
  \<open>uuid4\<close> makes different from every id in use.\<close>

definition publishable :: "nat \<Rightarrow> string \<Rightarrow> bus \<Rightarrow> bool" where
  "publishable r new_id s \<longleftrightarrow> r < b_next s \<and> handoff_of s r = None \<and> new_id \<noteq> [] \<and>
     list_all (\<lambda>x. handoff_of s x \<noteq> Some new_id) [0..<b_next s] \<and>
     (case b_store s of None \<Rightarrow> True | Some st \<Rightarrow> list_all (\<lambda>row. hr_id row \<noteq> new_id) st)"

definition bus_exec :: "bus_env \<Rightarrow> bus_cmd \<Rightarrow> bus \<Rightarrow> bus" where
  "bus_exec env c s = (case c of
     New_message m \<Rightarrow> s\<lparr>b_msgs := (b_msgs s)(b_next s := m\<lparr>ib_handoff := None\<rparr>), b_next := b_next s + 1\<rparr>
   | Publish r new_id created \<Rightarrow> if publishable r new_id s then publish_inbound env r new_id created s else s
   | Lane_reply ok \<Rightarrow> lane_reply ok s
   | Recover \<Rightarrow> recover_begin s
   | Recover_row created \<Rightarrow> recover_next env created s
   | Consume \<Rightarrow> s\<lparr>b_queue := tl (b_queue s)\<rparr>
   | Complete r o1 \<Rightarrow> complete_inbound o1 r s
   | Retry r o1 \<Rightarrow> retry_cleanup o1 r s
   | Finalize_lane r \<Rightarrow> finalize_lane r s
   | Finalize_release r \<Rightarrow> finalize_release r s
   | Finalize_cancelled r \<Rightarrow> finalize_cancelled r s
   | Close_bus \<Rightarrow> s\<lparr>b_retry := []\<rparr>)"

inductive bus_reachable :: "bus_env \<Rightarrow> bus \<Rightarrow> bool" for env where
  bus_unbound: "bus_reachable env (new_bus heap)"
| bus_bound: "handoffs_ok st \<Longrightarrow> bus_reachable env (bind_store st (new_bus heap))"
| bus_step: "bus_reachable env s \<Longrightarrow> bus_reachable env (bus_exec env c s)"

subsection \<open>The invariant of durable input\<close>

definition owners :: "bus \<Rightarrow> nat set" where
  "owners s = set (dict_keys (b_accepted s))"

definition stored :: "bus \<Rightarrow> string set" where
  "stored s = (case b_store s of None \<Rightarrow> {} | Some st \<Rightarrow> handoff_ids st)"

definition finishing :: "bus \<Rightarrow> nat set" where
  "finishing s = fst ` set (b_final s) \<union> set (b_leaked s)"

definition owned :: "bus \<Rightarrow> string set" where
  "owned s = {k. \<exists>r \<in> owners s. handoff_of s r = Some k}"

definition holder_ok :: "bus \<Rightarrow> nat \<Rightarrow> string \<Rightarrow> bool" where
  "holder_ok s r k \<longleftrightarrow> r < b_next s \<and> r \<notin> owners s \<and> handoff_of s r = Some k \<and> k \<notin> owned s \<and> k \<in> stored s"

definition page_ok :: "bus \<Rightarrow> handoff_row list \<Rightarrow> string list \<Rightarrow> bool" where
  "page_ok s rows infl \<longleftrightarrow> owned s \<subseteq> set infl \<union> set (b_claimed s) \<and>
     hr_id ` set rows \<subseteq> set infl \<union> set (b_claimed s) \<union> stored s"

definition lock_ok :: "bus \<Rightarrow> bool" where
  "lock_ok s = (case b_lock s of Free \<Rightarrow> True
     | Publishing r \<Rightarrow> (\<exists>k. holder_ok s r k)
     | Recovering rows infl \<Rightarrow> page_ok s rows infl
     | Restoring r k rows infl \<Rightarrow> holder_ok s r k \<and> k \<in> set (b_claimed s) \<and> page_ok s rows infl)"

definition restoring :: "bus \<Rightarrow> string set" where
  "restoring s = (case b_lock s of Restoring r k rows infl \<Rightarrow> {k} | _ \<Rightarrow> {})"

definition owner_inv :: "bus \<Rightarrow> bool" where
  "owner_inv s \<longleftrightarrow> (\<forall>r \<in> owners s. r < b_next s \<and> handoff_of s r \<noteq> None \<and>
       (if r \<in> finishing s then the (handoff_of s r) \<notin> stored s else the (handoff_of s r) \<in> stored s)) \<and>
     inj_on (handoff_of s) (owners s)"

definition bus_inv :: "bus \<Rightarrow> bool" where
  "bus_inv s \<longleftrightarrow> owner_inv s \<and> lock_ok s \<and> set (b_claimed s) \<subseteq> owned s \<union> restoring s \<and>
     finishing s \<subseteq> owners s \<and> fst ` set (b_final s) \<inter> set (b_leaked s) = {} \<and> (\<forall>st. b_store s = Some st \<longrightarrow> handoffs_ok st)"

text \<open>The parts of the state the invariant reads.\<close>

definition same_view :: "bus \<Rightarrow> bus \<Rightarrow> bool" where
  "same_view s s' \<longleftrightarrow> b_msgs s' = b_msgs s \<and> b_next s' = b_next s \<and> b_store s' = b_store s \<and>
     owners s' = owners s \<and> b_claimed s' = b_claimed s \<and> b_lock s' = b_lock s \<and>
     fst ` set (b_final s') = fst ` set (b_final s) \<and> b_leaked s' = b_leaked s"

lemma same_view_inv:
  assumes "same_view s s'"
  shows "bus_inv s' = bus_inv s"
proof -
  have h: "handoff_of s' = handoff_of s" using assms by (simp add: same_view_def handoff_of_def fun_eq_iff)
  have o: "owned s' = owned s" using assms h by (simp add: owned_def same_view_def)
  have st: "stored s' = stored s" using assms by (simp add: stored_def same_view_def)
  have hold: "holder_ok s' r k = holder_ok s r k" for r k
    using assms h o st by (simp add: holder_ok_def same_view_def)
  have pg: "page_ok s' rows infl = page_ok s rows infl" for rows infl
    using assms o st by (simp add: page_ok_def same_view_def)
  have "lock_ok s' = lock_ok s" using assms hold pg by (simp add: lock_ok_def same_view_def cong: bus_lock.case_cong)
  moreover have "owner_inv s' = owner_inv s"
    using assms h st by (simp add: owner_inv_def same_view_def finishing_def)
  moreover have "restoring s' = restoring s" using assms by (simp add: restoring_def same_view_def)
  moreover have "finishing s' = finishing s" using assms by (simp add: finishing_def same_view_def)
  ultimately show ?thesis using assms o by (simp add: bus_inv_def same_view_def)
qed

lemma add_turn_view: "same_view s (add_turn r d s)"
  by (simp add: same_view_def add_turn_def Let_def owners_def finishing_def)

lemma add_turn_inv [simp]: "bus_inv (add_turn r d s) = bus_inv s"
  by (rule same_view_inv[OF add_turn_view])

lemma set_owned_handoffs: "dict_ok (b_accepted s) \<Longrightarrow> set (owned_handoffs s) = owned s"
  by (force simp: owned_handoffs_def owned_def owners_def split: option.splits)

lemma set_owned_handoffs': "set (owned_handoffs s) = owned s"
  by (force simp: owned_handoffs_def owned_def owners_def split: option.splits)

lemma bus_owners_set:
  "owners (s\<lparr>b_accepted := dict_set d r c\<rparr>) = insert r (set (dict_keys d))"
  by (simp add: owners_def)

subsection \<open>Reservation\<close>

lemma reserve_mobile_cases:
  assumes "reserve_mobile env allow r new_id created s = res" "res \<noteq> Refused"
  obtains st k where "b_store s = Some st" "r \<notin> owners s"
      "res = Duplicate (s\<lparr>b_msgs := (b_msgs s)(r := (b_msgs s r)\<lparr>ib_handoff := Some k\<rparr>)\<rparr>)"
      "\<not> (allow \<and> handoff_of s r = Some k)" "k \<in> handoff_ids st"
      "\<And>w. handoff_of s r = Some w \<Longrightarrow> w \<noteq> [] \<Longrightarrow> w \<in> handoff_ids st \<Longrightarrow> k = w"
  | st k where "b_store s = Some st" "r \<notin> owners s" "allow" "handoff_of s r = Some k" "k \<in> handoff_ids st"
      "res = Reserved s"
  | st st' k where "b_store s = Some st" "r \<notin> owners s"
      "k = (case handoff_of s r of Some k \<Rightarrow> (if k = [] then new_id else k) | None \<Rightarrow> new_id)"
      "k \<notin> handoff_ids st" "handoff_ids st' = insert k (handoff_ids st)" "handoffs_ok st \<longrightarrow> handoffs_ok st'"
      "res = Reserved (s\<lparr>b_store := Some st',
         b_msgs := (b_msgs s)(r := (b_msgs s r)\<lparr>ib_handoff := Some k\<rparr>)\<rparr>)"
proof -
  define m where "m = b_msgs s r"
  define wanted where "wanted = (case ib_handoff m of Some k \<Rightarrow> (if k = [] then new_id else k) | None \<Rightarrow> new_id)"
  have r: "r \<notin> owners s" using assms dict_get_None_iff[of "b_accepted s" r]
    by (auto simp: reserve_mobile_def owners_def split: if_splits)
  obtain st where st: "b_store s = Some st"
    using assms by (cases "b_store s") (auto simp: reserve_mobile_def split: if_splits)
  have free: "dict_get (b_accepted s) r = None" using assms by (auto simp: reserve_mobile_def split: if_splits)
  obtain row where row: "handoff_row_of env m wanted created = Some row"
    using assms free st by (cases "handoff_row_of env m wanted created")
      (auto simp: reserve_mobile_def Let_def m_def wanted_def)
  have rid: "hr_id row = wanted" using row by (auto simp: handoff_row_of_def split: option.splits)
  obtain k made st' where q: "reserve_inbound_handoff st row = Inr ((k, made), st')"
    using assms free st row by (cases "reserve_inbound_handoff st row")
      (auto simp: reserve_mobile_def Let_def m_def wanted_def)
  have res: "res = (let s' = s\<lparr>b_store := Some st', b_msgs := (b_msgs s)(r := m\<lparr>ib_handoff := Some k\<rparr>)\<rparr> in
      if \<not> made \<and> \<not> (allow \<and> ib_handoff m = Some k) then Duplicate s' else Reserved s')"
    using assms(1) free st row q by (simp add: reserve_mobile_def Let_def m_def[symmetric] wanted_def[symmetric])
  show thesis
  proof (cases made)
    case True
    then have k: "k = hr_id row \<and> k \<notin> handoff_ids st \<and> handoff_ids st' = insert k (handoff_ids st)"
      using handoff_table.reserve_new q by simp
    have w: "wanted = (case handoff_of s r of Some k \<Rightarrow> (if k = [] then new_id else k) | None \<Rightarrow> new_id)"
      by (simp add: wanted_def m_def handoff_of_def)
    have e: "res = Reserved (s\<lparr>b_store := Some st',
         b_msgs := (b_msgs s)(r := (b_msgs s r)\<lparr>ib_handoff := Some k\<rparr>)\<rparr>)"
      using res True by (simp add: m_def Let_def)
    show thesis
    proof (rule that(3)[OF st r _ _ _ _ e])
      show "k = (case handoff_of s r of Some k \<Rightarrow> (if k = [] then new_id else k) | None \<Rightarrow> new_id)"
        using k rid w by simp
      show "k \<notin> handoff_ids st" "handoff_ids st' = insert k (handoff_ids st)" using k by blast+
      show "handoffs_ok st \<longrightarrow> handoffs_ok st'" using handoff_table.reserve_ok[OF _ q] by simp
    qed
  next
    case False
    then have k: "k \<in> handoff_ids st" "st' = st" using handoff_table.reserve_old q by auto
    have same: "s\<lparr>b_store := Some st, b_msgs := b_msgs s\<rparr> = s" using st by simp
    show thesis
    proof (cases "allow \<and> ib_handoff m = Some k")
      case True
      then have "m\<lparr>ib_handoff := Some k\<rparr> = m" by simp
      then have "res = Reserved s" using res True False k st same by (simp add: m_def Let_def)
      then show thesis using that(2)[of st k] st r True k by (simp add: handoff_of_def m_def)
    next
      case no: False
      have "k = w" if "handoff_of s r = Some w" "w \<noteq> []" "w \<in> handoff_ids st" for w
      proof -
        have "wanted = w" using that by (simp add: wanted_def m_def handoff_of_def)
        then show ?thesis using handoff_table.reserve_same[OF q] rid that(3) by simp
      qed
      then show thesis using that(1)[of st k] st r res False k no
        by (auto simp: handoff_of_def m_def Let_def)
    qed
  qed
qed

lemma handoff_of_frame [simp]:
  "handoff_of (s\<lparr>b_lock := l\<rparr>) = handoff_of s" "handoff_of (s\<lparr>b_claimed := cl\<rparr>) = handoff_of s"
  "handoff_of (s\<lparr>b_store := st\<rparr>) = handoff_of s" "handoff_of (s\<lparr>b_final := f\<rparr>) = handoff_of s"
  "handoff_of (s\<lparr>b_accepted := a\<rparr>) = handoff_of s" "handoff_of (s\<lparr>b_queue := q\<rparr>) = handoff_of s"
  "handoff_of (s\<lparr>b_retry := rt\<rparr>) = handoff_of s" "handoff_of (s\<lparr>b_leaked := q\<rparr>) = handoff_of s"
  "handoff_of (add_turn r d s) = handoff_of s"
  by (auto simp: handoff_of_def fun_eq_iff add_turn_def Let_def)

lemma owners_frame [simp]:
  "owners (s\<lparr>b_lock := l\<rparr>) = owners s" "owners (s\<lparr>b_claimed := cl\<rparr>) = owners s"
  "owners (s\<lparr>b_store := st\<rparr>) = owners s" "owners (s\<lparr>b_final := f\<rparr>) = owners s"
  "owners (s\<lparr>b_queue := q\<rparr>) = owners s" "owners (s\<lparr>b_retry := rt\<rparr>) = owners s"
  "owners (s\<lparr>b_leaked := q\<rparr>) = owners s" "owners (add_turn r d s) = owners s"
  by (simp_all add: owners_def add_turn_def Let_def)

lemma owned_frame [simp]:
  "owned (s\<lparr>b_lock := l\<rparr>) = owned s" "owned (s\<lparr>b_claimed := cl\<rparr>) = owned s"
  "owned (s\<lparr>b_store := st\<rparr>) = owned s" "owned (s\<lparr>b_final := f\<rparr>) = owned s"
  "owned (s\<lparr>b_queue := q\<rparr>) = owned s" "owned (s\<lparr>b_retry := rt\<rparr>) = owned s"
  "owned (s\<lparr>b_leaked := q\<rparr>) = owned s" "owned (add_turn r d s) = owned s"
  by (simp_all add: owned_def)

lemma stored_frame [simp]:
  "stored (s\<lparr>b_lock := l\<rparr>) = stored s" "stored (s\<lparr>b_claimed := cl\<rparr>) = stored s"
  "stored (s\<lparr>b_final := f\<rparr>) = stored s" "stored (s\<lparr>b_accepted := a\<rparr>) = stored s"
  "stored (s\<lparr>b_queue := q\<rparr>) = stored s" "stored (s\<lparr>b_retry := rt\<rparr>) = stored s"
  "stored (s\<lparr>b_leaked := q\<rparr>) = stored s" "stored (add_turn r d s) = stored s"
  by (simp_all add: stored_def add_turn_def Let_def)

lemma finishing_frame [simp]:
  "finishing (s\<lparr>b_lock := l\<rparr>) = finishing s" "finishing (s\<lparr>b_claimed := cl\<rparr>) = finishing s"
  "finishing (s\<lparr>b_store := st\<rparr>) = finishing s" "finishing (s\<lparr>b_accepted := a\<rparr>) = finishing s"
  "finishing (s\<lparr>b_queue := q\<rparr>) = finishing s" "finishing (s\<lparr>b_retry := rt\<rparr>) = finishing s"
  "finishing (add_turn r d s) = finishing s"
  by (simp_all add: finishing_def add_turn_def Let_def)

lemma owner_inv_frame [simp]:
  "owner_inv (s\<lparr>b_lock := l\<rparr>) = owner_inv s" "owner_inv (s\<lparr>b_claimed := cl\<rparr>) = owner_inv s"
  by (simp_all add: owner_inv_def)

lemma relock_inv:
  assumes "bus_inv s" "set cl \<subseteq> owned s \<union> restoring (s\<lparr>b_lock := l\<rparr>)" "lock_ok (s\<lparr>b_claimed := cl, b_lock := l\<rparr>)"
  shows "bus_inv (s\<lparr>b_claimed := cl, b_lock := l\<rparr>)"
  using assms by (auto simp: bus_inv_def restoring_def)

lemma holder_frame [simp]:
  "holder_ok (s\<lparr>b_lock := l\<rparr>) r k = holder_ok s r k" "holder_ok (s\<lparr>b_claimed := cl\<rparr>) r k = holder_ok s r k"
  by (simp_all add: holder_ok_def)

text \<open>A message object that owns nothing gets its handoff id.\<close>

lemma handoff_of_upd:
  "handoff_of (s\<lparr>b_store := x, b_msgs := (b_msgs s)(r := (b_msgs s r)\<lparr>ib_handoff := Some k\<rparr>)\<rparr>) r' =
     (if r' = r then Some k else handoff_of s r')"
  "handoff_of (s\<lparr>b_msgs := (b_msgs s)(r := (b_msgs s r)\<lparr>ib_handoff := Some k\<rparr>)\<rparr>) r' =
     (if r' = r then Some k else handoff_of s r')"
  by (auto simp: handoff_of_def)

lemma bus_invD:
  assumes "bus_inv s"
  shows "owner_inv s" "lock_ok s" "set (b_claimed s) \<subseteq> owned s \<union> restoring s"
    "finishing s \<subseteq> owners s" "fst ` set (b_final s) \<inter> set (b_leaked s) = {}"
    "b_store s = Some st \<Longrightarrow> handoffs_ok st"
  using assms by (simp_all add: bus_inv_def)

text \<open>A handoff id is given to an object without an owner, and the table may gain an id that no
  owner has.\<close>

lemma assign_inv:
  assumes inv: "bus_inv s" and free: "b_lock s = Free" and r: "r < b_next s" "r \<notin> owners s"
    and st: "b_store s = Some st" "handoffs_ok st'"
      "handoff_ids st' = handoff_ids st \<or> (k \<notin> owned s \<and> handoff_ids st' = insert k (handoff_ids st))"
  defines "s' \<equiv> s\<lparr>b_store := Some st', b_msgs := (b_msgs s)(r := (b_msgs s r)\<lparr>ib_handoff := Some k\<rparr>)\<rparr>"
  shows "bus_inv s'" "owned s' = owned s" "owners s' = owners s" "stored s' = handoff_ids st'"
    "handoff_of s' r = Some k" "b_lock s' = Free" "b_next s' = b_next s"
proof -
  show ow: "owners s' = owners s" by (simp add: s'_def owners_def)
  show h: "handoff_of s' r = Some k" "b_lock s' = Free" "b_next s' = b_next s"
    using free by (simp_all add: s'_def handoff_of_def)
  show stored: "stored s' = handoff_ids st'" by (simp add: s'_def stored_def)
  have hs: "handoff_of s' x = handoff_of s x" if "x \<in> owners s" for x
    using that r by (auto simp: s'_def handoff_of_def)
  then show owned: "owned s' = owned s" using ow by (auto simp: owned_def)
  have fin: "finishing s' = finishing s" by (simp add: s'_def finishing_def)
  have "owner_inv s'"
    unfolding owner_inv_def ow
  proof (intro conjI ballI)
    fix x assume x: "x \<in> owners s"
    then have "x < b_next s" "handoff_of s x \<noteq> None"
        "if x \<in> finishing s then the (handoff_of s x) \<notin> stored s else the (handoff_of s x) \<in> stored s"
      using bus_invD(1)[OF inv] by (auto simp: owner_inv_def)
    moreover from this x have "the (handoff_of s x) \<in> owned s" by (auto simp: owned_def)
    ultimately show "x < b_next s'" "handoff_of s' x \<noteq> None"
        "if x \<in> finishing s' then the (handoff_of s' x) \<notin> stored s' else the (handoff_of s' x) \<in> stored s'"
      using st hs[OF x] stored fin by (auto simp: s'_def stored_def)
  next
    show "inj_on (handoff_of s') (owners s)"
      using bus_invD(1)[OF inv] hs by (auto simp: owner_inv_def inj_on_def)
  qed
  moreover have "lock_ok s'" "restoring s' = restoring s" using free by (simp_all add: lock_ok_def restoring_def s'_def)
  ultimately show "bus_inv s'"
    using bus_invD(3,4,5)[OF inv] ow owned fin st(2) by (simp add: bus_inv_def s'_def)
qed

lemma publish_inv:
  assumes "bus_inv s" "publishable r new_id s"
  shows "bus_inv (publish_inbound env r new_id created s)"
proof (cases "b_fatal s \<or> ib_channel (b_msgs s r) \<noteq> ''mobile'' \<or> b_lock s \<noteq> Free")
  case True
  have "same_view s (s\<lparr>b_queue := b_queue s @ [r]\<rparr>)" by (simp add: same_view_def owners_def finishing_def)
  then show ?thesis using True assms(1) same_view_inv by (auto simp: publish_inbound_def)
next
  case False
  define res where "res = reserve_mobile env False r new_id created s"
  have pub: "r < b_next s" "handoff_of s r = None" "new_id \<noteq> []"
      "\<And>x. x < b_next s \<Longrightarrow> handoff_of s x \<noteq> Some new_id"
    using assms(2) by (auto simp: publishable_def list_all_iff)
  have eq: "publish_inbound env r new_id created s = (case res of Refused \<Rightarrow> s | Duplicate s' \<Rightarrow> s'
      | Reserved s' \<Rightarrow> s'\<lparr>b_lock := Publishing r\<rparr>)"
    using False by (simp add: publish_inbound_def res_def)
  have fresh: "new_id \<notin> owned s"
    using pub(4) bus_invD(1)[OF assms(1)] by (auto simp: owned_def owner_inv_def)
  show ?thesis
  proof (cases "res = Refused")
    case True
    then show ?thesis using eq assms(1) by simp
  next
    case nr: False
    show ?thesis
    proof (rule reserve_mobile_cases[OF res_def[symmetric] nr])
      fix st k assume a: "b_store s = Some st" "r \<notin> owners s" "k \<in> handoff_ids st"
        "res = Duplicate (s\<lparr>b_msgs := (b_msgs s)(r := (b_msgs s r)\<lparr>ib_handoff := Some k\<rparr>)\<rparr>)"
      have "bus_inv (s\<lparr>b_store := Some st, b_msgs := (b_msgs s)(r := (b_msgs s r)\<lparr>ib_handoff := Some k\<rparr>)\<rparr>)"
        using False by (intro assign_inv(1)[OF assms(1) _ pub(1) a(2) a(1)])
          (auto intro: bus_invD(6)[OF assms(1) a(1)])
      moreover have "s\<lparr>b_store := Some st\<rparr> = s" using a(1) by simp
      then have "s\<lparr>b_store := Some st, b_msgs := (b_msgs s)(r := (b_msgs s r)\<lparr>ib_handoff := Some k\<rparr>)\<rparr> =
          s\<lparr>b_msgs := (b_msgs s)(r := (b_msgs s r)\<lparr>ib_handoff := Some k\<rparr>)\<rparr>" by metis
      ultimately show ?thesis using eq a(4) by simp
    next
      fix st st' k assume a: "b_store s = Some st" "r \<notin> owners s"
        "k = (case handoff_of s r of Some k \<Rightarrow> (if k = [] then new_id else k) | None \<Rightarrow> new_id)"
        "k \<notin> handoff_ids st" "handoff_ids st' = insert k (handoff_ids st)" "handoffs_ok st \<longrightarrow> handoffs_ok st'"
        "res = Reserved (s\<lparr>b_store := Some st',
           b_msgs := (b_msgs s)(r := (b_msgs s r)\<lparr>ib_handoff := Some k\<rparr>)\<rparr>)"
      have k: "k = new_id" using a(3) pub(2) by simp
      define s' where "s' = s\<lparr>b_store := Some st', b_msgs := (b_msgs s)(r := (b_msgs s r)\<lparr>ib_handoff := Some k\<rparr>)\<rparr>"
      have as: "b_lock s = Free" "handoffs_ok st'"
          "handoff_ids st' = handoff_ids st \<or> (k \<notin> owned s \<and> handoff_ids st' = insert k (handoff_ids st))"
        using False a(5,6) bus_invD(6)[OF assms(1) a(1)] fresh k by auto
      note s' = assign_inv[OF assms(1) as(1) pub(1) a(2) a(1) as(2,3), folded s'_def]
      have hold: "holder_ok s' r k"
        using s' pub(1) a(2,5) fresh k by (simp add: holder_ok_def)
      have "bus_inv (s'\<lparr>b_claimed := b_claimed s', b_lock := Publishing r\<rparr>)"
        using bus_invD(3)[OF s'(1)] hold s'(6)
        by (intro relock_inv[OF s'(1)]) (auto simp: lock_ok_def restoring_def)
      then have "bus_inv (s'\<lparr>b_lock := Publishing r\<rparr>)" by simp
      then show ?thesis using eq a(7) by (simp add: s'_def)
    qed simp
  qed
qed

text \<open>The object that holds the lock becomes an owner.\<close>

lemma add_turn_fields [simp]:
  "b_accepted (add_turn r d s) = b_accepted s" "b_claimed (add_turn r d s) = b_claimed s"
  "b_next (add_turn r d s) = b_next s" "b_store (add_turn r d s) = b_store s"
  "b_lock (add_turn r d s) = b_lock s" "b_final (add_turn r d s) = b_final s"
  "b_leaked (add_turn r d s) = b_leaked s" "b_msgs (add_turn r d s) = b_msgs s"
  by (simp_all add: add_turn_def Let_def)

lemma queue_mobile_facts:
  assumes "bus_inv s" "holder_ok s r k"
  shows "owner_inv (queue_mobile r s)" "owned (queue_mobile r s) = insert k (owned s)"
    "stored (queue_mobile r s) = stored s" "owners (queue_mobile r s) = insert r (owners s)"
    "finishing (queue_mobile r s) = finishing s" "b_claimed (queue_mobile r s) = b_claimed s"
    "b_store (queue_mobile r s) = b_store s" "b_final (queue_mobile r s) = b_final s"
    "b_leaked (queue_mobile r s) = b_leaked s" "handoff_of (queue_mobile r s) = handoff_of s"
proof -
  define q where "q = queue_mobile r s"
  note inv = bus_invD[OF assms(1)]
  show h: "handoff_of (queue_mobile r s) = handoff_of s" by (simp add: queue_mobile_def)
  show ow: "owners (queue_mobile r s) = insert r (owners s)" by (simp add: queue_mobile_def owners_def)
  show st: "stored (queue_mobile r s) = stored s" by (simp add: queue_mobile_def)
  show fin: "finishing (queue_mobile r s) = finishing s" by (simp add: queue_mobile_def)
  show nx: "b_claimed (queue_mobile r s) = b_claimed s" "b_store (queue_mobile r s) = b_store s"
    "b_final (queue_mobile r s) = b_final s" "b_leaked (queue_mobile r s) = b_leaked s"
    by (simp_all add: queue_mobile_def)
  have hr: "handoff_of s r = Some k" "r \<notin> owners s" "k \<notin> owned s" "k \<in> stored s" "r < b_next s"
    using assms(2) by (simp_all add: holder_ok_def)
  show "owned (queue_mobile r s) = insert k (owned s)"
    using ow h hr by (auto simp: owned_def)
  have "Some k \<notin> handoff_of s ` owners s" using hr by (force simp: owned_def)
  then have "inj_on (handoff_of s) (insert r (owners s))"
    using inv(1) hr by (simp add: owner_inv_def)
  moreover have "r \<notin> finishing s" using inv(4) hr by blast
  ultimately show "owner_inv (queue_mobile r s)"
    using inv(1) hr ow h st fin
    unfolding owner_inv_def by (simp add: queue_mobile_def del: owners_frame stored_frame finishing_frame)
qed

lemma page_frame [simp]:
  "page_ok (s\<lparr>b_lock := l\<rparr>) rows infl = page_ok s rows infl"
  by (simp add: page_ok_def)

lemma lane_reply_inv:
  assumes "bus_inv s"
  shows "bus_inv (lane_reply ok s)"
proof (cases "b_lock s")
  case (Publishing r)
  note inv = bus_invD[OF assms]
  obtain k where k: "holder_ok s r k" using inv(2) Publishing by (auto simp: lock_ok_def)
  note q = queue_mobile_facts[OF assms k]
  have "bus_inv (queue_mobile r s\<lparr>b_lock := Free\<rparr>)"
    using inv q Publishing by (auto simp: bus_inv_def lock_ok_def restoring_def)
  moreover have "bus_inv (s\<lparr>b_lock := Free\<rparr>)"
    using inv Publishing by (auto simp: bus_inv_def lock_ok_def restoring_def)
  ultimately show ?thesis using Publishing by (simp add: lane_reply_def)
next
  case (Restoring r k rows infl)
  note inv = bus_invD[OF assms]
  have k: "holder_ok s r k" "k \<in> set (b_claimed s)" "page_ok s rows infl"
    using inv(2) Restoring by (auto simp: lock_ok_def)
  note q = queue_mobile_facts[OF assms k(1)]
  have "bus_inv (queue_mobile r s\<lparr>b_lock := Recovering rows infl\<rparr>)"
    using inv q k Restoring by (auto simp: bus_inv_def lock_ok_def restoring_def page_ok_def)
  moreover have "bus_inv (s\<lparr>b_claimed := removeAll k (b_claimed s), b_lock := Free\<rparr>)"
    using inv Restoring by (auto simp: bus_inv_def lock_ok_def restoring_def)
  ultimately show ?thesis using Restoring by (simp add: lane_reply_def)
qed (use assms in \<open>simp_all add: lane_reply_def\<close>)

lemma recover_begin_inv:
  assumes "bus_inv s"
  shows "bus_inv (recover_begin s)"
proof (cases "b_fatal s \<or> b_lock s \<noteq> Free \<or> b_store s = None")
  case True
  then show ?thesis using assms by (auto simp: recover_begin_def)
next
  case False
  note inv = bus_invD[OF assms]
  obtain st where st: "b_store s = Some st" using False by auto
  show ?thesis
  proof (cases "list_inbound_handoffs st (Some page_size)")
    case (Inl e)
    then show ?thesis using False st assms by (simp add: recover_begin_def)
  next
    case (Inr rows)
    have "hr_id ` set rows \<subseteq> stored s"
      using handoff_table.page_ids[OF inv(6)[OF st] Inr] st by (simp add: stored_def)
    then have "page_ok s rows (owned_handoffs s)"
      by (auto simp: page_ok_def set_owned_handoffs')
    then show ?thesis using inv False st Inr
      by (auto simp: recover_begin_def bus_inv_def lock_ok_def restoring_def)
  qed
qed

lemma inbound_from_handoff_id:
  "inbound_from_handoff env row = Some m \<Longrightarrow> ib_handoff m = Some (hr_id row) \<and> hr_id row \<noteq> []"
  by (auto simp: inbound_from_handoff_def split: if_splits option.splits json.splits)

lemma recover_next_inv:
  assumes "bus_inv s"
  shows "bus_inv (recover_next env created s)"
proof (cases "b_lock s")
  case (Recovering rows0 infl)
  note inv = bus_invD[OF assms]
  have page: "page_ok s rows0 infl" using inv(2) Recovering by (simp add: lock_ok_def)
  have free: "bus_inv (s\<lparr>b_lock := Free\<rparr>)"
    using inv Recovering by (auto simp: bus_inv_def lock_ok_def restoring_def)
  show ?thesis
  proof (cases rows0)
    case Nil
    then show ?thesis using free Recovering by (simp add: recover_next_def)
  next
    case (Cons row rows)
    have page': "page_ok s rows infl" using page Cons by (auto simp: page_ok_def)
    have skip: "bus_inv (s\<lparr>b_lock := Recovering rows infl\<rparr>)"
      using inv Recovering page' by (auto simp: bus_inv_def lock_ok_def restoring_def)
    show ?thesis
    proof (cases "hr_id row \<in> set (b_claimed s) \<or> hr_id row \<in> set infl \<or> inbound_from_handoff env row = None")
      case True
      then show ?thesis using Recovering Cons skip free by (auto simp: recover_next_def)
    next
      case False
      define k where "k = hr_id row"
      define r where "r = b_next s"
      obtain m where m: "inbound_from_handoff env row = Some m" using False by auto
      have mk: "ib_handoff m = Some k" "k \<noteq> []" using inbound_from_handoff_id[OF m] by (simp_all add: k_def)
      define s1 where "s1 = s\<lparr>b_msgs := (b_msgs s)(r := m), b_next := r + 1, b_claimed := b_claimed s @ [k]\<rparr>"
      have kn: "k \<in> stored s" "k \<notin> owned s"
        using page False Cons by (auto simp: page_ok_def k_def)
      have old: "x \<in> owners s \<Longrightarrow> x < b_next s" for x using inv(1) by (simp add: owner_inv_def)
      then have r: "r \<notin> owners s" by (auto simp: r_def)
      have hs: "handoff_of s1 x = handoff_of s x" if "x \<in> owners s" for x
        using that r by (auto simp: s1_def handoff_of_def)
      have frame: "owners s1 = owners s" "stored s1 = stored s" "finishing s1 = finishing s"
          "b_final s1 = b_final s" "b_leaked s1 = b_leaked s" "b_store s1 = b_store s"
        by (simp_all add: s1_def owners_def stored_def finishing_def)
      have owned1: "owned s1 = owned s" using hs frame(1) by (auto simp: owned_def)
      have oi: "owner_inv s1"
        using inv(1) hs frame old
        by (simp add: owner_inv_def inj_on_def s1_def r_def less_SucI cong: ball_cong)
      have hold: "holder_ok s1 r k"
        using r kn frame owned1 mk by (simp add: holder_ok_def s1_def r_def handoff_of_def)
      have claimed1: "set (b_claimed s1) = insert k (set (b_claimed s))" by (simp add: s1_def)
      have pg1: "page_ok s1 rows infl" using page' owned1 frame claimed1 by (auto simp: page_ok_def)
      define res where "res = reserve_mobile env True r [] created s1"
      have eq: "recover_next env created s = (case res of
          Refused \<Rightarrow> s1\<lparr>b_claimed := removeAll k (b_claimed s1), b_lock := Free\<rparr>
        | Duplicate s2 \<Rightarrow> s2\<lparr>b_lock := Recovering rows infl\<rparr>
        | Reserved s2 \<Rightarrow> s2\<lparr>b_lock := Restoring r k rows infl\<rparr>)"
      proof -
        have "recover_next env created s = recover_claimed env created k m rows infl s"
          using False Recovering Cons m by (simp add: recover_next_def k_def[symmetric])
        then show ?thesis
          unfolding recover_claimed_def Let_def r_def[symmetric] s1_def[symmetric] res_def .
      qed
      have base: "set (b_claimed s) \<subseteq> owned s" using inv(3) Recovering by (simp add: restoring_def)
      have refused: "bus_inv (s1\<lparr>b_claimed := removeAll k (b_claimed s1), b_lock := Free\<rparr>)"
        using oi owned1 frame inv(4,5,6) base claimed1
        by (auto simp: bus_inv_def lock_ok_def restoring_def)
      have reserved: "bus_inv (s1\<lparr>b_lock := Restoring r k rows infl\<rparr>)"
        using oi owned1 frame inv(4,5,6) base claimed1 hold pg1
        by (auto simp: bus_inv_def lock_ok_def restoring_def)
      have "res = Refused \<or> res = Reserved s1"
      proof (rule disjCI)
        assume "res \<noteq> Reserved s1"
        have h1: "handoff_of s1 r = Some k" using hold by (simp add: holder_ok_def)
        show "res = Refused"
        proof (rule ccontr)
          assume "res \<noteq> Refused"
          then show False
          proof (rule reserve_mobile_cases[OF res_def[symmetric]])
            fix st k' assume "b_store s1 = Some st" "k' \<in> handoff_ids st"
              "\<not> (True \<and> handoff_of s1 r = Some k')"
              "\<And>w. handoff_of s1 r = Some w \<Longrightarrow> w \<noteq> [] \<Longrightarrow> w \<in> handoff_ids st \<Longrightarrow> k' = w"
              "res = Duplicate (s1\<lparr>b_msgs := (b_msgs s1)(r := (b_msgs s1 r)\<lparr>ib_handoff := Some k'\<rparr>)\<rparr>)"
            then show False using h1 mk(2) kn(1) frame(6) by (simp add: stored_def)
          next
            assume "res = Reserved s1"
            then show False using \<open>res \<noteq> Reserved s1\<close> by simp
          next
            fix st st' k' assume "b_store s1 = Some st" "k' \<notin> handoff_ids st"
              "k' = (case handoff_of s1 r of Some k \<Rightarrow> (if k = [] then [] else k) | None \<Rightarrow> [])"
            then show False using h1 mk(2) kn(1) frame(6) by (simp add: stored_def)
          qed
        qed
      qed
      then show ?thesis using eq refused reserved by auto
    qed
  qed
qed (use assms in \<open>simp_all add: recover_next_def\<close>)

lemma store_drop_inv:
  assumes "bus_inv s" "r \<in> owners s" "handoff_of s r = Some k" "b_store s = Some st"
    "complete_inbound_handoff st k = Inr st'"
  shows "bus_inv (s\<lparr>b_store := Some st', b_final := b_final s @ [(r, False)]\<rparr>)"
proof -
  note inv = bus_invD[OF assms(1)]
  define s' where "s' = s\<lparr>b_store := Some st', b_final := b_final s @ [(r, False)]\<rparr>"
  have ids: "k \<in> handoff_ids st" "handoff_ids st' = handoff_ids st - {k}"
    using handoff_table.complete_ids[OF assms(5)] by simp_all
  have st: "stored s = handoff_ids st" "stored s' = handoff_ids st - {k}"
    using assms(4) ids(2) by (simp_all add: stored_def s'_def)
  have notfin: "r \<notin> finishing s"
    using inv(1) assms(2,3) ids(1) st(1) by (auto simp: owner_inv_def)
  have fr: "owners s' = owners s" "handoff_of s' = handoff_of s" "owned s' = owned s"
      "finishing s' = insert r (finishing s)" "b_claimed s' = b_claimed s" "b_lock s' = b_lock s"
      "b_next s' = b_next s" "restoring s' = restoring s"
    by (auto simp: s'_def finishing_def owned_def restoring_def)
  have kown: "k \<in> owned s" using assms(2,3) by (auto simp: owned_def)
  have other: "handoff_of s x \<noteq> Some k" if "x \<in> owners s" "x \<noteq> r" for x
    using inv(1) that assms(2,3) by (auto simp: owner_inv_def inj_on_def)
  have "owner_inv s'"
    using inv(1) fr st other assms(2,3) by (auto simp: owner_inv_def)
  moreover have hold: "holder_ok s r2 k2 \<Longrightarrow> holder_ok s' r2 k2" for r2 k2
    using fr st kown by (auto simp: holder_ok_def)
  have "page_ok s rows infl \<Longrightarrow> page_ok s' rows infl" for rows infl
    using fr st kown by (auto simp: page_ok_def)
  then have "lock_ok s'"
    using inv(2) hold fr(6,5) by (auto simp: lock_ok_def split: bus_lock.splits)
  moreover have "handoffs_ok st'" using handoff_table.complete_ok[OF inv(6)[OF assms(4)] assms(5)] .
  moreover have "fst ` set (b_final s') \<inter> set (b_leaked s') = {}"
    using inv(5) notfin by (auto simp: s'_def finishing_def)
  ultimately show ?thesis
    using inv(3,4) fr assms(2) unfolding s'_def[symmetric] by (auto simp: bus_inv_def s'_def)
qed

lemma owners_get: "r \<in> owners s \<longleftrightarrow> dict_get (b_accepted s) r \<noteq> None"
  by (auto simp: owners_def dict_get_None_iff)

lemma view_intros:
  "same_view s (s\<lparr>b_fatal := f\<rparr>)" "same_view s (s\<lparr>b_retry := q\<rparr>)" "same_view s (s\<lparr>b_queue := q\<rparr>)"
  "same_view s (s\<lparr>b_fatal := f, b_retry := q\<rparr>)"
  "r \<in> owners s \<Longrightarrow> same_view s (s\<lparr>b_accepted := dict_set (b_accepted s) r c, b_retry := q\<rparr>)"
  by (auto simp: same_view_def owners_def)

lemma store_complete_Inr:
  "store_complete o1 k s = Inr s' \<Longrightarrow>
   \<exists>st st'. b_store s = Some st \<and> complete_inbound_handoff st k = Inr st' \<and> s' = s\<lparr>b_store := Some st'\<rparr>"
  by (auto simp: store_complete_def split: option.splits io.splits sum.splits)

lemma complete_inbound_inv:
  assumes "bus_inv s"
  shows "bus_inv (complete_inbound o1 r s)"
proof (cases "b_fatal s \<or> dict_get (b_accepted s) r = None \<or> dict_get (b_accepted s) r = Some True")
  case True
  then show ?thesis using assms by (auto simp: complete_inbound_def)
next
  case False
  then have acc: "dict_get (b_accepted s) r = Some False" by (cases "dict_get (b_accepted s) r") auto
  then have r: "r \<in> owners s" by (simp add: owners_get)
  then obtain k where k: "handoff_of s r = Some k" using bus_invD(1)[OF assms] by (auto simp: owner_inv_def)
  show ?thesis
  proof (cases "store_complete o1 k s")
    case (Inl os)
    then show ?thesis using False acc k assms same_view_inv[OF view_intros(1)] same_view_inv[OF view_intros(5)[OF r]]
      by (simp add: complete_inbound_def)
  next
    case (Inr s')
    then show ?thesis using False acc k assms store_complete_Inr[OF Inr] store_drop_inv[OF assms r k]
      by (auto simp: complete_inbound_def)
  qed
qed

lemma retry_cleanup_inv:
  assumes "bus_inv s"
  shows "bus_inv (retry_cleanup o1 r s)"
proof (cases "r \<in> set (b_retry s) \<and> dict_get (b_accepted s) r = Some True")
  case False
  then show ?thesis using assms same_view_inv[OF view_intros(4)]
    by (auto simp: retry_cleanup_def Let_def split: option.splits)
next
  case True
  then have r: "r \<in> owners s" by (simp add: owners_get)
  then obtain k where k: "handoff_of s r = Some k" using bus_invD(1)[OF assms] by (auto simp: owner_inv_def)
  show ?thesis
  proof (cases "store_complete o1 k s")
    case (Inl os)
    then show ?thesis using True k assms same_view_inv[OF view_intros(4)]
      by (simp add: retry_cleanup_def Let_def)
  next
    case (Inr s')
    then obtain st st' where st: "b_store s = Some st" "complete_inbound_handoff st k = Inr st'"
        "s' = s\<lparr>b_store := Some st'\<rparr>" using store_complete_Inr by blast
    define t where "t = s\<lparr>b_store := Some st', b_final := b_final s @ [(r, False)]\<rparr>"
    have "bus_inv t" unfolding t_def by (rule store_drop_inv[OF assms r k st(1,2)])
    then have "bus_inv (t\<lparr>b_retry := removeAll r (b_retry s)\<rparr>)" using same_view_inv[OF view_intros(2)] by simp
    moreover have "retry_cleanup o1 r s = t\<lparr>b_retry := removeAll r (b_retry s)\<rparr>"
      using True k Inr st(3) by (simp add: retry_cleanup_def Let_def t_def)
    ultimately show ?thesis by simp
  qed
qed

lemma finalize_lane_inv: "bus_inv s \<Longrightarrow> bus_inv (finalize_lane r s)"
proof -
  assume "bus_inv s"
  moreover have "fst ` set (map (\<lambda>p. if p = (r, False) then (r, True) else p) xs) = fst ` set xs" for xs :: "(nat \<times> bool) list"
    by (induction xs) auto
  then have "same_view s (s\<lparr>b_final := map (\<lambda>p. if p = (r, False) then (r, True) else p) (b_final s)\<rparr>)"
    by (simp add: same_view_def)
  ultimately show ?thesis using same_view_inv by (simp add: finalize_lane_def)
qed

lemma finalize_release_inv:
  assumes "bus_inv s"
  shows "bus_inv (finalize_release r s)"
proof (cases "(r, True) \<in> set (b_final s) \<and> b_lock s = Free")
  case False
  then show ?thesis using assms by (auto simp: finalize_release_def)
next
  case True
  note inv = bus_invD[OF assms]
  have rf: "r \<in> finishing s" using True by (force simp: finishing_def)
  then have r: "r \<in> owners s" using inv(4) by blast
  then obtain k where k: "handoff_of s r = Some k" using inv(1) by (auto simp: owner_inv_def)
  define s' where "s' = s\<lparr>b_final := filter (\<lambda>p. fst p \<noteq> r) (b_final s), b_accepted := dict_del (b_accepted s) r,
     b_claimed := removeAll k (b_claimed s)\<rparr>"
  have s': "finalize_release r s = s'" using True k by (simp add: finalize_release_def s'_def)
  have rl: "r \<notin> set (b_leaked s)" using inv(5) True by force
  have fr: "owners s' = owners s - {r}" "handoff_of s' = handoff_of s" "stored s' = stored s"
      "finishing s' = finishing s - {r}"
    using rl by (auto simp: s'_def owners_def finishing_def stored_def)
  have other: "handoff_of s x \<noteq> Some k" if "x \<in> owners s" "x \<noteq> r" for x
    using inv(1) that r k by (auto simp: owner_inv_def inj_on_def)
  have owned: "owned s' = owned s - {k}"
    using fr other k by (auto simp: owned_def)
  have "owner_inv s'" using inv(1) fr by (auto simp: owner_inv_def s'_def inj_on_def)
  then show ?thesis
    using inv(3-6) True fr owned unfolding s'
    by (auto simp: bus_inv_def lock_ok_def restoring_def s'_def)
qed

lemma finalize_cancelled_inv:
  assumes "bus_inv s"
  shows "bus_inv (finalize_cancelled r s)"
proof (cases "r \<in> fst ` set (b_final s)")
  case False
  then show ?thesis using assms by (simp add: finalize_cancelled_def)
next
  case True
  define s' where "s' = s\<lparr>b_final := filter (\<lambda>p. fst p \<noteq> r) (b_final s), b_leaked := b_leaked s @ [r]\<rparr>"
  have fin: "finishing s' = finishing s" using True by (auto simp: s'_def finishing_def)
  have "page_ok s' = page_ok s" "holder_ok s' = holder_ok s" "stored s' = stored s"
    by (simp_all add: fun_eq_iff page_ok_def holder_ok_def s'_def stored_def owners_def owned_def handoff_of_def)
  then have "bus_inv s'"
    using bus_invD[OF assms] fin
    by (auto simp: bus_inv_def lock_ok_def restoring_def owner_inv_def s'_def split: bus_lock.splits)
  then show ?thesis using True by (simp add: finalize_cancelled_def s'_def)
qed

lemma new_message_inv:
  assumes "bus_inv s"
  shows "bus_inv (s\<lparr>b_msgs := (b_msgs s)(b_next s := m), b_next := b_next s + 1\<rparr>)"
proof -
  note inv = bus_invD[OF assms]
  define s' where "s' = s\<lparr>b_msgs := (b_msgs s)(b_next s := m), b_next := b_next s + 1\<rparr>"
  have old: "x < b_next s" if "x \<in> owners s" for x using inv(1) that by (simp add: owner_inv_def)
  have hs: "x < b_next s \<Longrightarrow> handoff_of s' x = handoff_of s x" for x
    by (simp add: s'_def handoff_of_def)
  have fr: "owners s' = owners s" "stored s' = stored s" "finishing s' = finishing s"
      "restoring s' = restoring s" "b_claimed s' = b_claimed s" "b_next s' = Suc (b_next s)"
    by (simp_all add: s'_def owners_def stored_def finishing_def restoring_def)
  have owned: "owned s' = owned s" using old hs fr(1) by (force simp: owned_def)
  have oi: "owner_inv s'"
    using inv(1) old hs fr by (auto simp: owner_inv_def inj_on_def less_SucI)
  have hold: "holder_ok s r k \<Longrightarrow> holder_ok s' r k" for r k
    using hs fr owned by (auto simp: holder_ok_def)
  have pg: "page_ok s' = page_ok s" using fr owned by (simp add: page_ok_def fun_eq_iff)
  have "lock_ok s'" using inv(2) hold pg fr(5) by (auto simp: lock_ok_def s'_def split: bus_lock.splits)
  then show ?thesis using inv(3-6) oi fr owned by (simp add: bus_inv_def s'_def)
qed

lemma bus_exec_inv:
  assumes "bus_inv s"
  shows "bus_inv (bus_exec env c s)"
  using assms
  by (cases c) (simp_all add: bus_exec_def new_message_inv[simplified] publish_inv lane_reply_inv recover_begin_inv
    recover_next_inv complete_inbound_inv retry_cleanup_inv finalize_lane_inv finalize_release_inv
    finalize_cancelled_inv same_view_inv[OF view_intros(2)] same_view_inv[OF view_intros(3)])

lemma bus_reachable_inv: "bus_reachable env s \<Longrightarrow> bus_inv s"
proof (induction rule: bus_reachable.induct)
  case (bus_step s c)
  then show ?case by (intro bus_exec_inv)
qed (simp_all add: new_bus_def bind_store_def bus_inv_def owner_inv_def lock_ok_def owners_def
  restoring_def finishing_def)

text \<open>
  C8. At any moment of any interleaving, two accepted owners never hold the same handoff: a
  mobile message is in the hands of at most one worker, also while recovery pages through
  the table and while live publishing and completion go on.
\<close>

theorem bus_single_owner:
  assumes "bus_reachable env s" "dict_get (b_accepted s) r1 \<noteq> None" "dict_get (b_accepted s) r2 \<noteq> None"
    "handoff_of s r1 = handoff_of s r2"
  shows "r1 = r2 \<and> handoff_of s r1 \<noteq> None"
  using bus_invD(1)[OF bus_reachable_inv[OF assms(1)]] assms(2-)
  by (auto simp: owner_inv_def owners_get inj_on_def)

lemma stored_frame2 [simp]: "stored (s\<lparr>b_fatal := f\<rparr>) = stored s" "stored (s\<lparr>b_msgs := g\<rparr>) = stored s"
  "stored (s\<lparr>b_next := n\<rparr>) = stored s"
  by (simp_all add: stored_def)

lemma reserve_mobile_stored:
  assumes "reserve_mobile env allow r new_id created s = Duplicate s' \<or>
    reserve_mobile env allow r new_id created s = Reserved s'"
  shows "stored s \<subseteq> stored s'"
proof -
  define res where "res = reserve_mobile env allow r new_id created s"
  have a: "res = Duplicate s' \<or> res = Reserved s'" using assms by (simp add: res_def)
  then have "res \<noteq> Refused" by auto
  from res_def[symmetric] this show ?thesis
    by (rule reserve_mobile_cases) (use a in \<open>auto simp: stored_def\<close>)
qed

lemma store_complete_stored:
  "store_complete o1 k s = Inr s' \<Longrightarrow> stored s' = stored s - {k}"
  using store_complete_Inr[of o1 k s s'] handoff_table.complete_ids by (force simp: stored_def)

text \<open>
  C7. A stored message is never lost: while its owner has not finished, the owner's row is in
  the table (so a restart replays it), and the only steps that remove a row are the
  completion and the clean-up retry of that very owner.
\<close>

theorem handoff_never_lost:
  assumes "bus_reachable env s"
  shows "(dict_get (b_accepted s) r \<noteq> None \<and> r \<notin> finishing s \<longrightarrow> the (handoff_of s r) \<in> stored s) \<and>
    (k \<in> stored s \<and> k \<notin> stored (bus_exec env c s) \<longrightarrow>
      (\<exists>r o1. (c = Complete r o1 \<or> c = Retry r o1) \<and> dict_get (b_accepted s) r \<noteq> None \<and>
         handoff_of s r = Some k))"
proof (intro conjI impI)
  assume "dict_get (b_accepted s) r \<noteq> None \<and> r \<notin> finishing s"
  then show "the (handoff_of s r) \<in> stored s"
    using bus_invD(1)[OF bus_reachable_inv[OF assms]] by (auto simp: owner_inv_def owners_get)
next
  assume k: "k \<in> stored s \<and> k \<notin> stored (bus_exec env c s)"
  have keep: "stored s \<subseteq> stored (bus_exec env c s) \<Longrightarrow> False" using k by auto
  show "\<exists>r o1. (c = Complete r o1 \<or> c = Retry r o1) \<and> dict_get (b_accepted s) r \<noteq> None \<and>
         handoff_of s r = Some k"
  proof (cases c)
    case (Publish r new_id created)
    have "stored s \<subseteq> stored (bus_exec env c s)"
      using reserve_mobile_stored[of env False r new_id created s] Publish
      by (auto simp: bus_exec_def publish_inbound_def split: reserve_result.splits)
    then show ?thesis using keep by blast
  next
    case (Lane_reply ok)
    then have "stored s \<subseteq> stored (bus_exec env c s)"
      by (simp add: bus_exec_def lane_reply_def queue_mobile_def split: bus_lock.splits)
    then show ?thesis using keep by blast
  next
    case Recover
    then have "stored s \<subseteq> stored (bus_exec env c s)"
      by (simp add: bus_exec_def recover_begin_def split: option.splits sum.splits)
    then show ?thesis using keep by blast
  next
    case (Recover_row created)
    have "stored s \<subseteq> stored (recover_claimed env created k' m rows infl s)" for k' m rows infl
      using reserve_mobile_stored[of env True "b_next s" "[]" created
          "s\<lparr>b_msgs := (b_msgs s)(b_next s := m), b_next := b_next s + 1, b_claimed := b_claimed s @ [k']\<rparr>"]
      by (auto simp: recover_claimed_def Let_def split: reserve_result.splits)
    then have "stored s \<subseteq> stored (bus_exec env c s)" using Recover_row
      by (simp add: bus_exec_def recover_next_def split: bus_lock.splits list.splits option.splits)
    then show ?thesis using keep by blast
  next
    case (Complete r o1)
    then show ?thesis using k store_complete_stored
      by (fastforce simp: bus_exec_def complete_inbound_def split: option.splits if_splits sum.splits)
  next
    case (Retry r o1)
    then show ?thesis using k store_complete_stored
      by (fastforce simp: bus_exec_def retry_cleanup_def Let_def split: option.splits if_splits sum.splits bool.splits)
  next
    case (Finalize_release r)
    then have "stored s \<subseteq> stored (bus_exec env c s)"
      by (simp add: bus_exec_def finalize_release_def split: option.splits)
    then show ?thesis using keep by blast
  next
    case (Finalize_lane r)
    then have "stored s \<subseteq> stored (bus_exec env c s)" by (simp add: bus_exec_def finalize_lane_def)
    then show ?thesis using keep by blast
  next
    case (Finalize_cancelled r)
    then have "stored s \<subseteq> stored (bus_exec env c s)" by (simp add: bus_exec_def finalize_cancelled_def)
    then show ?thesis using keep by blast
  qed (use keep in \<open>auto simp: bus_exec_def\<close>)
qed

subsection \<open>A stored row comes back as the message it was written from\<close>

lemma all_texts_strs: "all_texts (map JStr xs) = Some xs"
  by (simp add: all_texts_def is_str_def the_str_def list_all_iff comp_def)

lemma session_key_cong:
  assumes "ib_metadata m = ib_metadata m'" "ib_channel m = ib_channel m'" "ib_chat m = ib_chat m'"
  shows "session_key env m = session_key env m'"
  unfolding session_key_def assms ..

lemma handoff_row_created:
  "handoff_row_of env m k c = Some row \<Longrightarrow> handoff_row_of env m k c' = Some (row\<lparr>hr_created := c'\<rparr>)"
  by (cases "serialize_handoff env m") (auto simp: handoff_row_of_def)

lemma handoff_row_roundtrip:
  assumes "codec_law env" "handoff_row_of env m k created = Some row" "fields_ok row"
  shows "\<exists>m'. inbound_from_handoff env row = Some m' \<and> handoff_row_of env m' k created = Some row \<and>
    ib_channel m' = ib_channel m \<and> ib_chat m' = ib_chat m \<and> ib_content m' = ib_content m \<and>
    ib_media m' = ib_media m \<and> ib_metadata m' = ib_metadata m \<and> ib_handoff m' = Some k"
proof -
  obtain media metadata where ser: "serialize_handoff env m = Some (media, metadata)"
    using assms(2) by (auto simp: handoff_row_of_def split: option.splits)
  have row: "row = \<lparr>hr_id = k, hr_dedupe = mobile_dedupe_key env m,
         hr_channel = ib_channel m, hr_sender = ib_sender m, hr_chat = ib_chat m,
         hr_session = session_key env m, hr_content = ib_content m,
         hr_timestamp = utc_iso env (ib_timestamp m), hr_media = media, hr_metadata = metadata,
         hr_created = created\<rparr>"
    using assms(2) ser by (simp add: handoff_row_of_def)
  have dm: "dumps env (JList (map JStr (ib_media m))) = Some media" "dumps env (JObj (ib_metadata m)) = Some metadata"
    using ser by (auto simp: serialize_handoff_def split: option.splits)
  have ld: "loads env media = Some (JList (map JStr (ib_media m)))" "loads env metadata = Some (JObj (ib_metadata m))"
      "media \<noteq> []" "metadata \<noteq> []"
    using dm assms(1) by (auto simp: codec_law_def)
  obtain u where u: "parse_ts env (utc_iso env (ib_timestamp m)) = Some u"
      "utc_iso env u = utc_iso env (ib_timestamp m)"
    using assms(1) unfolding codec_law_def by blast
  define m' where "m' = \<lparr>ib_channel = ib_channel m, ib_sender = ib_sender m, ib_chat = ib_chat m,
     ib_content = ib_content m, ib_timestamp = u, ib_media = ib_media m, ib_metadata = ib_metadata m,
     ib_handoff = Some k\<rparr>"
  have from_row: "inbound_from_handoff env row = Some m'"
    using assms(3) ld u by (simp add: inbound_from_handoff_def row fields_ok_def m'_def all_texts_strs)
  have "session_key env m' = session_key env m" by (rule session_key_cong) (simp_all add: m'_def)
  then have "mobile_dedupe_key env m' = mobile_dedupe_key env m" "serialize_handoff env m' = Some (media, metadata)"
      "session_key env m' = session_key env m"
    using dm by (simp_all add: mobile_dedupe_key_def m'_def serialize_handoff_def split: json.splits)
  then have "handoff_row_of env m' k created = Some row"
    using u by (simp add: handoff_row_of_def row m'_def)
  then show ?thesis using from_row by (auto simp: m'_def)
qed

lemma reserve_present:
  assumes "handoffs_ok st" "row \<in> set st" "fields_ok row"
  shows "reserve_inbound_handoff st (row\<lparr>hr_created := c\<rparr>) = Inr ((hr_id row, False), st) \<or> c = []"
proof -
  have uniq: "x = row" if "x \<in> set st" "hr_id x = hr_id row" for x
    using assms(1,2) that by (auto simp: handoffs_ok_def distinct_map inj_on_def)
  have "row_by_id st (hr_id row) \<noteq> None" using assms(2) by (auto simp: row_by_id_None handoff_ids_def)
  then have id: "row_by_id st (hr_id row) = Some row" using row_by_id_Some uniq by fastforce
  have dd: "x = row" if "row_by_dedupe st (hr_dedupe row) = Some x" for x
  proof -
    note x = row_by_dedupe_Some[OF that]
    have "distinct (map the (filter (\<lambda>d. d \<noteq> None) (map hr_dedupe st)))" using assms(1) by (simp add: handoffs_ok_def)
    then have "distinct (map (\<lambda>r. the (hr_dedupe r)) (filter (\<lambda>r. hr_dedupe r \<noteq> None) st))"
      by (simp add: filter_map comp_def)
    then have "inj_on (\<lambda>r. the (hr_dedupe r)) (set (filter (\<lambda>r. hr_dedupe r \<noteq> None) st))"
      by (simp add: distinct_map)
    then show ?thesis using x assms(2) by (auto simp: inj_on_def)
  qed
  show ?thesis
    using id dd assms(3)
    by (cases "row_by_dedupe st (hr_dedupe row)")
      (auto simp: reserve_inbound_handoff_def Let_def fields_ok_def same_identity_def)
qed

text \<open>
  C9. When recovery meets a stored row that nobody owns, it rebuilds the message the row was
  written from and queues it under the same handoff: the row is accepted again without an
  identity conflict, the message has its owner, and the table is unchanged.
\<close>

theorem recovery_requeues:
  assumes "codec_law env" "bus_reachable env s" "b_lock s = Recovering (row # rows) infl"
    and "b_store s = Some st" "row \<in> set st"
    and "handoff_row_of env m (hr_id row) (hr_created row) = Some row" "fields_ok row"
    and "hr_id row \<notin> set infl" "hr_id row \<notin> set (b_claimed s)" "created \<noteq> []"
  shows "\<exists>s' r. s' = lane_reply True (recover_next env created s) \<and> b_store s' = Some st \<and>
    dict_get (b_accepted s') r = Some False \<and> r \<in> set (b_queue s') \<and>
    handoff_of s' r = Some (hr_id row) \<and> ib_content (b_msgs s' r) = ib_content m \<and>
    ib_metadata (b_msgs s' r) = ib_metadata m \<and> b_lock s' = Recovering rows infl"
proof -
  define k where "k = hr_id row"
  define r where "r = b_next s"
  note inv = bus_invD[OF bus_reachable_inv[OF assms(2)]]
  obtain m' where m': "inbound_from_handoff env row = Some m'" "handoff_row_of env m' k (hr_created row) = Some row"
      "ib_content m' = ib_content m" "ib_metadata m' = ib_metadata m" "ib_handoff m' = Some k"
    using handoff_row_roundtrip[OF assms(1,6,7)] by (auto simp: k_def)
  define s1 where "s1 = s\<lparr>b_msgs := (b_msgs s)(r := m'), b_next := r + 1, b_claimed := b_claimed s @ [k]\<rparr>"
  have "r \<notin> owners s" using inv(1) by (auto simp: owner_inv_def r_def)
  then have free: "dict_get (b_accepted s1) r = None" by (simp add: s1_def owners_get)
  have kne: "k \<noteq> []" using assms(7) by (simp add: fields_ok_def k_def)
  have row': "handoff_row_of env m' k created = Some (row\<lparr>hr_created := created\<rparr>)"
    by (rule handoff_row_created[OF m'(2)])
  have res: "reserve_inbound_handoff st (row\<lparr>hr_created := created\<rparr>) = Inr ((k, False), st)"
    using reserve_present[OF inv(6)[OF assms(4)] assms(5,7)] assms(10) by (auto simp: k_def)
  have msg: "(b_msgs s1)(r := (b_msgs s1 r)\<lparr>ib_handoff := Some k\<rparr>) = b_msgs s1"
    using m'(5) by (simp add: s1_def fun_eq_iff)
  have st1: "s1\<lparr>b_store := Some st, b_msgs := b_msgs s1\<rparr> = s1"
    using assms(4) by (simp add: s1_def)
  have reserved: "reserve_mobile env True r [] created s1 = Reserved s1"
  proof -
    have "b_store s1 = Some st" "b_msgs s1 r = m'" using assms(4) by (simp_all add: s1_def)
    then show ?thesis using free row' res kne msg st1 m'(5)
      by (simp add: reserve_mobile_def Let_def)
  qed
  have "recover_next env created s = recover_claimed env created k m' rows infl s"
    using assms(3,8,9) m'(1) by (simp add: recover_next_def k_def)
  also have "\<dots> = s1\<lparr>b_lock := Restoring r k rows infl\<rparr>"
    using reserved unfolding recover_claimed_def Let_def r_def[symmetric] s1_def[symmetric] by simp
  finally have next_eq: "recover_next env created s = s1\<lparr>b_lock := Restoring r k rows infl\<rparr>" .
  define s' where "s' = (queue_mobile r (s1\<lparr>b_lock := Restoring r k rows infl\<rparr>))\<lparr>b_lock := Recovering rows infl\<rparr>"
  have "lane_reply True (recover_next env created s) = s'"
    unfolding next_eq by (simp add: lane_reply_def s'_def)
  moreover have "b_store s' = Some st" using assms(4) by (simp add: s'_def queue_mobile_def s1_def)
  moreover have "dict_get (b_accepted s') r = Some False" "b_lock s' = Recovering rows infl"
    by (simp_all add: s'_def queue_mobile_def)
  moreover have "r \<in> set (b_queue s')" by (simp add: s'_def queue_mobile_def add_turn_def Let_def)
  moreover have "b_msgs s' r = m'" by (simp add: s'_def queue_mobile_def s1_def)
  ultimately show ?thesis using m'(3-5) by (auto simp: handoff_of_def k_def)
qed

subsection \<open>Concrete runs\<close>

text \<open>A codec on the two JSON shapes of the demonstration; every other value is refused.\<close>

definition demo_codec :: bus_env where
  "demo_codec = \<lparr>
     dumps = (\<lambda>j. case j of JList [] \<Rightarrow> Some ''[]''
       | JObj [(k, JStr c)] \<Rightarrow> (if k = ''client_message_id'' then Some (CHR 0x7B # c) else None)
       | _ \<Rightarrow> None),
     loads = (\<lambda>t. if t = ''[]'' then Some (JList [])
       else case t of [] \<Rightarrow> None
         | b # c \<Rightarrow> if b = CHR 0x7B then Some (JObj [(''client_message_id'', JStr c)]) else None),
     utc_iso = (\<lambda>t. CHR ''U'' # t),
     parse_ts = (\<lambda>t. case t of [] \<Rightarrow> None | u # r \<Rightarrow> if u = CHR ''U'' then Some r else None),
     str_text = (\<lambda>j. ''?'')\<rparr>"

lemma demo_codec_law: "codec_law demo_codec"
  by (auto simp: codec_law_def demo_codec_def split: json.splits list.splits prod.splits if_splits)

definition demo_inbound :: "string \<Rightarrow> inbound" where
  "demo_inbound c = \<lparr>ib_channel = ''mobile'', ib_sender = ''me'', ib_chat = ''c1'', ib_content = ''hi'',
     ib_timestamp = ''t'', ib_media = [], ib_metadata = [(''client_message_id'', JStr c)], ib_handoff = None\<rparr>"

definition demo_bus :: "handoffs \<Rightarrow> bus_cmd list \<Rightarrow> bus" where
  "demo_bus st cs = foldl (\<lambda>s c. bus_exec demo_codec c s)
     (bind_store st (new_bus (\<lambda>r. demo_inbound ''x''))) cs"

lemma demo_bus_reachable: "handoffs_ok st \<Longrightarrow> bus_reachable demo_codec (demo_bus st cs)"
proof -
  have "bus_reachable demo_codec s \<Longrightarrow> bus_reachable demo_codec (foldl (\<lambda>s c. bus_exec demo_codec c s) s cs)" for s
    by (induction cs arbitrary: s) (auto intro: bus_step)
  then show "handoffs_ok st \<Longrightarrow> ?thesis" unfolding demo_bus_def by (blast intro: bus_bound)
qed

definition demo_owned :: bus where
  "demo_owned = demo_bus [] [New_message (demo_inbound ''m1''), New_message (demo_inbound ''m2''),
     Publish 0 ''h1'' ''t0'', Lane_reply True, Publish 1 ''h2'' ''t1'', Lane_reply True, Consume]"

lemma demo_owned_reachable: "bus_reachable demo_codec demo_owned"
  unfolding demo_owned_def by (rule demo_bus_reachable) (simp add: handoffs_ok_def)

theorem bus_single_owner_witness:
  "dict_get (b_accepted demo_owned) 0 = Some False \<and> dict_get (b_accepted demo_owned) 1 = Some False \<and>
   handoff_of demo_owned 0 = Some ''h1'' \<and> handoff_of demo_owned 1 \<noteq> None"
proof -
  have s: "dict_get (b_accepted demo_owned) 0 = Some False" "dict_get (b_accepted demo_owned) 1 = Some False"
    "handoff_of demo_owned 0 = Some ''h1''" by code_simp+
  show ?thesis using s bus_single_owner[OF demo_owned_reachable, of 1 1] by auto
qed

theorem handoff_never_lost_witness:
  "''h1'' \<in> stored demo_owned \<and> the (handoff_of demo_owned 1) \<in> stored demo_owned \<and>
   dict_get (b_accepted demo_owned) 1 = Some False \<and>
   ''h1'' \<notin> stored (bus_exec demo_codec (Complete 0 Io_ok) demo_owned) \<and>
   (\<exists>r o1. (Complete 0 Io_ok = Complete r o1 \<or> Complete 0 Io_ok = Retry r o1) \<and>
      dict_get (b_accepted demo_owned) r \<noteq> None \<and> handoff_of demo_owned r = Some ''h1'')"
proof -
  have s: "dict_get (b_accepted demo_owned) 1 = Some False" "1 \<notin> finishing demo_owned"
      "''h1'' \<in> stored demo_owned" "''h1'' \<notin> stored (bus_exec demo_codec (Complete 0 Io_ok) demo_owned)"
    by code_simp+
  show ?thesis
    using s handoff_never_lost[OF demo_owned_reachable, of 1 "''h1''" "Complete 0 Io_ok"] by simp
qed

definition demo_row :: handoff_row where
  "demo_row = the (handoff_row_of demo_codec (demo_inbound ''m1'') ''h1'' ''t0'')"

theorem recovery_requeues_witness:
  "\<exists>s' r. s' = lane_reply True (recover_next demo_codec ''t9'' (demo_bus [demo_row] [Recover])) \<and>
     b_store s' = Some [demo_row] \<and> dict_get (b_accepted s') r = Some False \<and> r \<in> set (b_queue s') \<and>
     handoff_of s' r = Some ''h1'' \<and> ib_content (b_msgs s' r) = ''hi'' \<and> b_lock s' = Recovering [] []"
proof -
  have ok: "handoffs_ok [demo_row]" by code_simp
  have lock: "b_lock (demo_bus [demo_row] [Recover]) = Recovering [demo_row] []" by code_simp
  have st: "b_store (demo_bus [demo_row] [Recover]) = Some [demo_row]" by code_simp
  have row: "handoff_row_of demo_codec (demo_inbound ''m1'') (hr_id demo_row) (hr_created demo_row) = Some demo_row"
    by code_simp
  have f: "fields_ok demo_row" "hr_id demo_row = ''h1''" "hr_id demo_row \<notin> set []"
    "hr_id demo_row \<notin> set (b_claimed (demo_bus [demo_row] [Recover]))" "ib_content (demo_inbound ''m1'') = ''hi''"
    by code_simp+
  have "\<exists>s' r. s' = lane_reply True (recover_next demo_codec ''t9'' (demo_bus [demo_row] [Recover])) \<and>
     b_store s' = Some [demo_row] \<and> dict_get (b_accepted s') r = Some False \<and> r \<in> set (b_queue s') \<and>
     handoff_of s' r = Some (hr_id demo_row) \<and> ib_content (b_msgs s' r) = ib_content (demo_inbound ''m1'') \<and>
     ib_metadata (b_msgs s' r) = ib_metadata (demo_inbound ''m1'') \<and> b_lock s' = Recovering [] []"
    by (rule recovery_requeues[OF demo_codec_law demo_bus_reachable[OF ok] lock st _ row f(1) f(3) f(4)]) simp_all
  then show ?thesis using f(2,5) by metis
qed

end
