(* ===== verification/Outbound.thy ===== *)
theory Outbound
  imports Roxy_Prelude "HOL-Library.Multiset"
begin

text \<open>
  The outbound half of bus/queue.py (lines 307--325 and 653--889): subscriptions, sending with
  one retry and a fallback notice, the dispatcher task, awaited publishing with receipts and
  the draining on close.  Every await is a point where other calls may run, so a run of the
  bus is a sequence of \<open>ob_exec\<close> steps; the answers of the channel callbacks and the order of
  the lane are inputs of the steps.
\<close>

subsection \<open>Subscriptions\<close>

type_synonym subscribers = "(string, nat list) dict"

definition callbacks_of :: "subscribers \<Rightarrow> string \<Rightarrow> nat list" where
  "callbacks_of d c = (case dict_get d c of Some cbs \<Rightarrow> cbs | None \<Rightarrow> [])"

definition subscribe_outbound :: "subscribers \<Rightarrow> string \<Rightarrow> nat \<Rightarrow> subscribers" where
  "subscribe_outbound d c cb = dict_set d c (callbacks_of d c @ [cb])"

definition unsubscribe_outbound :: "subscribers \<Rightarrow> string \<Rightarrow> nat \<Rightarrow> subscribers" where
  "unsubscribe_outbound d c cb = (case dict_get d c of None \<Rightarrow> d
     | Some cbs \<Rightarrow> if cb \<notin> set cbs then d
         else (let cbs' = remove1 cb cbs in if cbs' = [] then dict_del d c else dict_set d c cbs'))"

record subscription =
  sub_channel :: string
  sub_callback :: nat
  sub_active :: bool

definition subscription_close :: "subscription \<Rightarrow> subscribers \<Rightarrow> subscription \<times> subscribers" where
  "subscription_close h d = (if \<not> sub_active h then (h, d)
     else (h\<lparr>sub_active := False\<rparr>, unsubscribe_outbound d (sub_channel h) (sub_callback h)))"

text \<open>No channel is kept with an empty list of callbacks.\<close>

definition subscribers_ok :: "subscribers \<Rightarrow> bool" where
  "subscribers_ok d \<longleftrightarrow> dict_ok d \<and> list_all (\<lambda>(c, cbs). cbs \<noteq> []) d"

lemma subscribers_ok_iff:
  "subscribers_ok d \<longleftrightarrow> dict_ok d \<and> (\<forall>c. dict_get d c \<noteq> Some [])"
  by (auto simp: subscribers_ok_def list_all_iff dict_get_Some_iff)

lemma callbacks_subscribe:
  "callbacks_of (subscribe_outbound d c cb) c' = (if c' = c then callbacks_of d c @ [cb] else callbacks_of d c')"
  by (simp add: callbacks_of_def subscribe_outbound_def)

lemma callbacks_unsubscribe:
  "callbacks_of (unsubscribe_outbound d c cb) c' =
     (if c' = c then remove1 cb (callbacks_of d c) else callbacks_of d c')"
  by (auto simp: callbacks_of_def unsubscribe_outbound_def Let_def remove1_idem split: option.split)

lemma subscribe_ok: "subscribers_ok d \<Longrightarrow> subscribers_ok (subscribe_outbound d c cb)"
  by (auto simp: subscribers_ok_iff subscribe_outbound_def)

lemma unsubscribe_ok: "subscribers_ok d \<Longrightarrow> subscribers_ok (unsubscribe_outbound d c cb)"
  by (auto simp: subscribers_ok_iff unsubscribe_outbound_def Let_def split: option.split)

text \<open>
  Closing a subscription takes exactly the callback it registered out of its channel, once:
  whatever was subscribed before is back, in its order, and a second close changes nothing.
\<close>

theorem subscription_close_restores:
  assumes "subscribers_ok d" "cb \<notin> set (callbacks_of d c)"
    and "subscription_close \<lparr>sub_channel = c, sub_callback = cb, sub_active = True\<rparr> (subscribe_outbound d c cb) = (h, d')"
  shows "callbacks_of d' = callbacks_of d \<and> subscribers_ok d' \<and> subscription_close h d' = (h, d')"
  using assms by (auto simp: subscription_close_def fun_eq_iff callbacks_unsubscribe callbacks_subscribe
      remove1_append remove1_idem intro: unsubscribe_ok subscribe_ok)

theorem subscription_close_restores_witness:
  "callbacks_of (snd (subscription_close \<lparr>sub_channel = ''tg'', sub_callback = 7, sub_active = True\<rparr>
       (subscribe_outbound [(''tg'', [3])] ''tg'' 7))) = callbacks_of [(''tg'', [3])]"
proof -
  have h: "subscribers_ok [(''tg'', [3])]" "7 \<notin> set (callbacks_of [(''tg'', [3])] ''tg'')"
    by (code_simp, simp add: callbacks_of_def dict_get_def)
  show ?thesis
    using subscription_close_restores[OF h surjective_pairing] by simp
qed

subsection \<open>Sending\<close>

record outbound =
  ob_channel :: string
  ob_chat :: string
  ob_content :: string
  ob_extra :: json

text \<open>The answer of one callback call: it returned, it raised an \<open>Exception\<close>, it raised one and
  the task was cancelled in the pause that follows, or the task was cancelled inside the call.\<close>

datatype reply = Accept | Fail | Fail_then_cancelled | Cancel

type_synonym calls = "(nat \<times> outbound) list"

text \<open>The fallback notice (its UTF-8 bytes); the other fields have their defaults.\<close>

definition fallback_text :: string where
  "fallback_text = map (char_of :: nat \<Rightarrow> char)
     [239, 188, 136, 230, 182, 136, 230, 129, 175, 229, 143, 145, 233, 128,
      129, 229, 164, 177, 232, 180, 165, 239, 188, 140, 232, 175, 183, 231,
      168, 141, 229, 144, 142, 233, 135, 141, 232, 175, 149, 239, 188, 137]"

definition fallback_of :: "outbound \<Rightarrow> outbound" where
  "fallback_of m = \<lparr>ob_channel = ob_channel m, ob_chat = ob_chat m,
     ob_content = fallback_text, ob_extra = JNull\<rparr>"

text \<open>One callback: the calls made, and its part of \<open>delivered\<close> (\<open>None\<close>: cancelled).  \<open>ans n\<close> is the
  answer of the n-th call of the whole send.\<close>

definition send_one :: "bool \<Rightarrow> outbound \<Rightarrow> nat \<Rightarrow> (nat \<Rightarrow> reply) \<Rightarrow> calls \<Rightarrow> bool option \<times> calls" where
  "send_one fallback_allowed m cb ans done1 =
     (let calls1 = done1 @ [(cb, m)] in
      case ans (length done1) of
        Accept \<Rightarrow> (Some True, calls1)
      | Cancel \<Rightarrow> (None, calls1)
      | Fail_then_cancelled \<Rightarrow> (None, calls1)
      | Fail \<Rightarrow>
          (let calls2 = calls1 @ [(cb, m)] in
           case ans (length calls1) of
             Accept \<Rightarrow> (Some True, calls2)
           | Cancel \<Rightarrow> (None, calls2)
           | _ \<Rightarrow>
               if \<not> fallback_allowed then (Some False, calls2)
               else (let calls3 = calls2 @ [(cb, fallback_of m)] in
                 case ans (length calls2) of Cancel \<Rightarrow> (None, calls3) | _ \<Rightarrow> (Some False, calls3))))"

fun send_loop :: "bool \<Rightarrow> outbound \<Rightarrow> nat list \<Rightarrow> (nat \<Rightarrow> reply) \<Rightarrow> bool \<Rightarrow> calls \<Rightarrow> bool option \<times> calls" where
  "send_loop fallback_allowed m [] ans delivered done1 = (Some delivered, done1)"
| "send_loop fallback_allowed m (cb # cbs) ans delivered done1 =
     (case send_one fallback_allowed m cb ans done1 of
        (None, calls1) \<Rightarrow> (None, calls1)
      | (Some ok, calls1) \<Rightarrow> send_loop fallback_allowed m cbs ans (delivered \<and> ok) calls1)"

definition send_outbound :: "bool \<Rightarrow> outbound \<Rightarrow> nat list \<Rightarrow> (nat \<Rightarrow> reply) \<Rightarrow> bool option \<times> calls" where
  "send_outbound fallback_allowed m callbacks ans =
     (if callbacks = [] then (Some False, []) else send_loop fallback_allowed m callbacks ans True [])"

text \<open>In a list of calls: a call of \<open>cb\<close> with the message that was accepted, and two calls of it in a
  row that were not.\<close>

definition accepted_by :: "outbound \<Rightarrow> (nat \<Rightarrow> reply) \<Rightarrow> calls \<Rightarrow> nat \<Rightarrow> bool" where
  "accepted_by m ans calls cb \<longleftrightarrow> (\<exists>i < length calls. calls ! i = (cb, m) \<and> ans i = Accept)"

definition refused_by :: "outbound \<Rightarrow> (nat \<Rightarrow> reply) \<Rightarrow> calls \<Rightarrow> nat \<Rightarrow> bool" where
  "refused_by m ans calls cb \<longleftrightarrow> (\<exists>i. Suc i < length calls \<and> calls ! i = (cb, m) \<and> ans i = Fail \<and>
     calls ! Suc i = (cb, m) \<and> ans (Suc i) \<noteq> Accept)"

lemma accepted_by_append: "accepted_by m ans calls cb \<Longrightarrow> accepted_by m ans (calls @ new) cb"
  unfolding accepted_by_def by (metis length_append nth_append trans_less_add1)

lemma refused_by_append: "refused_by m ans calls cb \<Longrightarrow> refused_by m ans (calls @ new) cb"
  unfolding refused_by_def by (metis Suc_lessD length_append nth_append trans_less_add1)

lemma send_one_grows:
  "send_one f m cb ans done1 = (r, calls) \<Longrightarrow> \<exists>new. calls = done1 @ new \<and> new \<noteq> [] \<and> length new \<le> 3 \<and>
     set new \<subseteq> {(cb, m), (cb, fallback_of m)} \<and> (\<not> f \<longrightarrow> length new \<le> 2 \<and> set new \<subseteq> {(cb, m)})"
  by (auto simp: send_one_def Let_def split: reply.splits if_splits)

lemma send_one_accepted:
  assumes "send_one f m cb ans done1 = (Some True, calls)"
  shows "accepted_by m ans calls cb"
proof -
  have "calls = done1 @ [(cb, m)] \<and> ans (length done1) = Accept \<or>
      calls = done1 @ [(cb, m), (cb, m)] \<and> ans (Suc (length done1)) = Accept"
    using assms by (auto simp: send_one_def Let_def split: reply.splits if_splits)
  then show ?thesis
  proof
    assume "calls = done1 @ [(cb, m)] \<and> ans (length done1) = Accept"
    then show ?thesis by (auto simp: accepted_by_def intro!: exI[of _ "length done1"])
  next
    assume "calls = done1 @ [(cb, m), (cb, m)] \<and> ans (Suc (length done1)) = Accept"
    then show ?thesis by (auto simp: accepted_by_def nth_append intro!: exI[of _ "Suc (length done1)"])
  qed
qed

lemma send_one_refused:
  assumes "send_one f m cb ans done1 = (Some False, calls)"
  shows "refused_by m ans calls cb"
proof -
  have "\<exists>new. calls = done1 @ (cb, m) # (cb, m) # new" "ans (length done1) = Fail" "ans (Suc (length done1)) \<noteq> Accept"
    using assms by (auto simp: send_one_def Let_def split: reply.splits if_splits)
  then show ?thesis by (auto simp: refused_by_def nth_append intro!: exI[of _ "length done1"])
qed

lemma send_loop_grows:
  assumes "send_loop f m cbs ans d done1 = (r, calls)"
  shows "\<exists>new. calls = done1 @ new \<and> length new \<le> 3 * length cbs \<and> snd ` set new \<subseteq> {m, fallback_of m} \<and>
     (\<not> f \<longrightarrow> length new \<le> 2 * length cbs \<and> snd ` set new \<subseteq> {m})"
  using assms
proof (induction f m cbs ans d done1 rule: send_loop.induct)
  case (2 f m cb cbs ans d done1)
  obtain r1 calls1 where one: "send_one f m cb ans done1 = (r1, calls1)" by fastforce
  obtain new1 where m1: "calls1 = done1 @ new1" "length new1 \<le> 3" "set new1 \<subseteq> {(cb, m), (cb, fallback_of m)}"
      "\<not> f \<longrightarrow> length new1 \<le> 2 \<and> set new1 \<subseteq> {(cb, m)}"
    using send_one_grows[OF one] by blast
  show ?case
  proof (cases r1)
    case None
    then show ?thesis using 2(2) one m1 by (auto intro!: exI[of _ new1])
  next
    case (Some ok)
    then have "send_loop f m cbs ans (d \<and> ok) calls1 = (r, calls)" using 2(2) one by simp
    from 2(1)[OF one[symmetric] Some this] obtain new2 where m2: "calls = calls1 @ new2"
        "length new2 \<le> 3 * length cbs" "snd ` set new2 \<subseteq> {m, fallback_of m}"
        "\<not> f \<longrightarrow> length new2 \<le> 2 * length cbs \<and> snd ` set new2 \<subseteq> {m}" by blast
    then show ?thesis using m1 by (intro exI[of _ "new1 @ new2"]) (auto simp: image_subset_iff)
  qed
qed simp

lemma send_loop_result:
  assumes "send_loop f m cbs ans d done1 = (Some r, calls)"
  shows "(r \<longrightarrow> d \<and> (\<forall>cb \<in> set cbs. accepted_by m ans calls cb)) \<and>
    (\<not> r \<longrightarrow> \<not> d \<or> (\<exists>cb \<in> set cbs. refused_by m ans calls cb))"
  using assms
proof (induction f m cbs ans d done1 rule: send_loop.induct)
  case (2 f m cb cbs ans d done1)
  obtain ok calls1 where one: "send_one f m cb ans done1 = (Some ok, calls1)"
    and rest: "send_loop f m cbs ans (d \<and> ok) calls1 = (Some r, calls)"
    using 2(2) by (auto split: prod.splits option.splits)
  obtain new where new: "calls = calls1 @ new" using send_loop_grows[OF rest] by blast
  have "ok \<Longrightarrow> accepted_by m ans calls cb" "\<not> ok \<Longrightarrow> refused_by m ans calls cb"
    using one send_one_accepted[of f m cb ans done1 calls1] send_one_refused[of f m cb ans done1 calls1]
    unfolding new by (auto intro: accepted_by_append refused_by_append)
  then show ?case using 2(1)[OF one[symmetric] refl rest] by auto
qed simp

text \<open>
  C11. A send reports delivery only when the channel has a subscriber and every subscriber
  accepted the message itself, and reports failure only when there is no subscriber or one
  refused it twice in a row.  A send whose receipt is awaited never calls a subscriber with
  anything but the message, and calls at most twice per subscriber.
\<close>

theorem send_outbound_delivered:
  assumes "send_outbound f m cbs ans = (r, calls)"
  shows "(r = Some True \<longrightarrow> cbs \<noteq> [] \<and> (\<forall>cb \<in> set cbs. accepted_by m ans calls cb)) \<and>
    (r = Some False \<longrightarrow> cbs = [] \<or> (\<exists>cb \<in> set cbs. refused_by m ans calls cb)) \<and>
    (\<not> f \<longrightarrow> snd ` set calls \<subseteq> {m} \<and> length calls \<le> 2 * length cbs) \<and> length calls \<le> 3 * length cbs"
proof (cases "cbs = []")
  case False
  then have l: "send_loop f m cbs ans True [] = (r, calls)" using assms by (simp add: send_outbound_def)
  then show ?thesis using send_loop_grows[OF l] send_loop_result[of f m cbs ans True "[]" _ calls] False
    by (cases r) auto
qed (use assms in \<open>auto simp: send_outbound_def\<close>)

definition demo_out :: outbound where
  "demo_out = \<lparr>ob_channel = ''tg'', ob_chat = ''c'', ob_content = ''hello'', ob_extra = JNull\<rparr>"

theorem send_outbound_delivered_witness:
  "send_outbound False demo_out [1, 2] (\<lambda>n. if n = 0 then Fail else Accept) =
     (Some True, [(1, demo_out), (1, demo_out), (2, demo_out)]) \<and>
   snd ` set [(1 :: nat, demo_out), (1, demo_out), (2, demo_out)] \<subseteq> {demo_out}"
proof -
  have h: "send_outbound False demo_out [1, 2] (\<lambda>n. if n = 0 then Fail else Accept) =
     (Some True, [(1, demo_out), (1, demo_out), (2, demo_out)])"
    by (simp add: send_outbound_def send_one_def Let_def)
  show ?thesis using h send_outbound_delivered[OF h] by simp
qed

subsection \<open>The dispatcher\<close>

text \<open>A queued item is a message with the receipt its publisher awaits, if any.\<close>

type_synonym item = "outbound \<times> nat option"

datatype receipt = Waiting | Done bool | Dropped

datatype dispatcher =
    D_off
  | D_wait
  | D_lane item
  | D_send item "nat list"
  | D_observe item bool

record ob_bus =
  o_subs :: subscribers
  o_entering :: "item list"
  o_queue :: "item list"
  o_disp :: dispatcher
  o_running :: bool
  o_stopped :: bool
  o_observer :: bool
  o_receipts :: "(nat, receipt) dict"
  o_next :: nat
  o_sends :: "string \<times> string \<Rightarrow> int"
  o_marks :: "(string \<times> string) list"
  o_draining :: bool

definition new_outbound :: ob_bus where
  "new_outbound = \<lparr>o_subs = [], o_entering = [], o_queue = [], o_disp = D_off, o_running = False,
     o_stopped = False, o_observer = False, o_receipts = [], o_next = 0, o_sends = (\<lambda>k. 0),
     o_marks = [], o_draining = False\<rparr>"

definition chat_of :: "item \<Rightarrow> string \<times> string" where
  "chat_of it = (ob_channel (fst it), ob_chat (fst it))"

definition count_send :: "string \<times> string \<Rightarrow> int \<Rightarrow> ob_bus \<Rightarrow> ob_bus" where
  "count_send k d s = s\<lparr>o_sends := (o_sends s)(k := o_sends s k + d)\<rparr>"

text \<open>\<open>if not receipt.done(): receipt.set_result(d)\<close>\<close>

definition settle :: "nat option \<Rightarrow> receipt \<Rightarrow> ob_bus \<Rightarrow> ob_bus" where
  "settle ro v s = (case ro of None \<Rightarrow> s
     | Some r \<Rightarrow> if dict_get (o_receipts s) r = Some Waiting
         then s\<lparr>o_receipts := dict_set (o_receipts s) r v\<rparr> else s)"

text \<open>The \<open>finally\<close> of \<open>dispatch_outbound\<close> and the head of its loop.\<close>

definition dispatch_finish :: "nat option \<Rightarrow> ob_bus \<Rightarrow> ob_bus" where
  "dispatch_finish ro s = settle ro (Done False) (s\<lparr>o_disp := D_off, o_running := False, o_stopped := True\<rparr>)"

definition loop_head :: "nat option \<Rightarrow> ob_bus \<Rightarrow> ob_bus" where
  "loop_head ro s = (if o_running s then s\<lparr>o_disp := D_wait\<rparr> else dispatch_finish ro s)"

definition publish_outbound :: "outbound \<Rightarrow> ob_bus \<Rightarrow> ob_bus" where
  "publish_outbound m s = s\<lparr>o_entering := o_entering s @ [(m, None)]\<rparr>"

definition publish_outbound_awaited :: "outbound \<Rightarrow> ob_bus \<Rightarrow> ob_bus" where
  "publish_outbound_awaited m s = (if o_stopped s then s
     else s\<lparr>o_receipts := dict_set (o_receipts s) (o_next s) Waiting, o_next := o_next s + 1,
       o_entering := o_entering s @ [(m, Some (o_next s))]\<rparr>)"

text \<open>The lane registered the send of the i-th publisher that waits for it, or its wait was
  cancelled; the cancelled wait of a queued receipt.\<close>

definition enter_queue :: "nat \<Rightarrow> ob_bus \<Rightarrow> ob_bus" where
  "enter_queue i s = (if i < length (o_entering s)
     then count_send (chat_of (o_entering s ! i)) 1
       (s\<lparr>o_queue := o_queue s @ [o_entering s ! i], o_entering := take i (o_entering s) @ drop (Suc i) (o_entering s)\<rparr>)
     else s)"

definition cancel_entry :: "nat \<Rightarrow> ob_bus \<Rightarrow> ob_bus" where
  "cancel_entry i s = (if i < length (o_entering s)
     then settle (snd (o_entering s ! i)) Dropped
       (s\<lparr>o_entering := take i (o_entering s) @ drop (Suc i) (o_entering s)\<rparr>)
     else s)"

definition cancel_await :: "nat \<Rightarrow> ob_bus \<Rightarrow> ob_bus" where
  "cancel_await r s = settle (Some r) Dropped s"

definition dispatch_start :: "ob_bus \<Rightarrow> ob_bus" where
  "dispatch_start s = (if o_disp s = D_off
     then s\<lparr>o_disp := D_wait, o_running := True, o_stopped := False\<rparr> else s)"

definition dispatch_take :: "ob_bus \<Rightarrow> ob_bus" where
  "dispatch_take s = (case (o_disp s, o_queue s) of
     (D_wait, it # q) \<Rightarrow> s\<lparr>o_queue := q, o_disp := D_lane it\<rparr> | _ \<Rightarrow> s)"

definition dispatch_timeout :: "ob_bus \<Rightarrow> ob_bus" where
  "dispatch_timeout s = (if o_disp s = D_wait then loop_head None s else s)"

text \<open>\<open>run_passive\<close>: the lane lets the send start, or the wait ends without a send; then the
  callbacks answer.  In both cases its \<open>finally\<close> takes the pending send back.\<close>

definition lane_granted :: "ob_bus \<Rightarrow> ob_bus" where
  "lane_granted s = (case o_disp s of
     D_lane it \<Rightarrow> s\<lparr>o_disp := D_send it (callbacks_of (o_subs s) (ob_channel (fst it)))\<rparr> | _ \<Rightarrow> s)"

definition lane_failed :: "ob_bus \<Rightarrow> ob_bus" where
  "lane_failed s = (case o_disp s of
     D_lane it \<Rightarrow> dispatch_finish (snd it) (count_send (chat_of it) (- 1) s) | _ \<Rightarrow> s)"

definition send_answered :: "(nat \<Rightarrow> reply) \<Rightarrow> ob_bus \<Rightarrow> ob_bus" where
  "send_answered ans s = (case o_disp s of
     D_send it cbs \<Rightarrow>
       (let s1 = count_send (chat_of it) (- 1) s in
        case fst (send_outbound (snd it = None) (fst it) cbs ans) of
          None \<Rightarrow> dispatch_finish (snd it) s1
        | Some delivered \<Rightarrow>
            (let s2 = settle (snd it) (Done delivered) s1 in
             if o_observer s2 then s2\<lparr>o_disp := D_observe it delivered\<rparr> else loop_head (snd it) s2))
   | _ \<Rightarrow> s)"

definition observed :: "bool \<Rightarrow> ob_bus \<Rightarrow> ob_bus" where
  "observed ok s = (case o_disp s of
     D_observe it d \<Rightarrow> (if ok then loop_head (snd it) s else dispatch_finish (snd it) s) | _ \<Rightarrow> s)"

text \<open>\<open>aclose\<close> and \<open>_drain_outbound_queue\<close>: a taken item is settled at once, its mark follows.\<close>

definition aclose :: "ob_bus \<Rightarrow> ob_bus" where
  "aclose s = s\<lparr>o_running := False, o_draining := True\<rparr>"

definition drain_next :: "ob_bus \<Rightarrow> ob_bus" where
  "drain_next s = (if \<not> o_draining s then s
     else case o_queue s of [] \<Rightarrow> s\<lparr>o_draining := False\<rparr>
       | it # q \<Rightarrow> settle (snd it) (Done False) (s\<lparr>o_queue := q, o_marks := o_marks s @ [chat_of it]\<rparr>))"

definition mark_done :: "ob_bus \<Rightarrow> ob_bus" where
  "mark_done s = (case o_marks s of [] \<Rightarrow> s | k # ks \<Rightarrow> count_send k (- 1) (s\<lparr>o_marks := ks\<rparr>))"

datatype ob_cmd =
    Subscribe string nat | Unsubscribe string nat | Bind_observer
  | Put outbound | Put_awaited outbound | Entered nat | Entry_cancelled nat | Await_cancelled nat
  | Start_dispatch | Take | Timeout | Granted | Not_granted | Answered "nat \<Rightarrow> reply" | Observed bool
  | Stop_dispatch | Aclose | Drain | Mark

fun ob_exec :: "ob_cmd \<Rightarrow> ob_bus \<Rightarrow> ob_bus" where
  "ob_exec (Subscribe c cb) s = s\<lparr>o_subs := subscribe_outbound (o_subs s) c cb\<rparr>"
| "ob_exec (Unsubscribe c cb) s = s\<lparr>o_subs := unsubscribe_outbound (o_subs s) c cb\<rparr>"
| "ob_exec Bind_observer s = s\<lparr>o_observer := True\<rparr>"
| "ob_exec (Put m) s = publish_outbound m s"
| "ob_exec (Put_awaited m) s = publish_outbound_awaited m s"
| "ob_exec (Entered i) s = enter_queue i s"
| "ob_exec (Entry_cancelled i) s = cancel_entry i s"
| "ob_exec (Await_cancelled r) s = cancel_await r s"
| "ob_exec Start_dispatch s = dispatch_start s"
| "ob_exec Take s = dispatch_take s"
| "ob_exec Timeout s = dispatch_timeout s"
| "ob_exec Granted s = lane_granted s"
| "ob_exec Not_granted s = lane_failed s"
| "ob_exec (Answered ans) s = send_answered ans s"
| "ob_exec (Observed ok) s = observed ok s"
| "ob_exec Stop_dispatch s = s\<lparr>o_running := False\<rparr>"
| "ob_exec Aclose s = aclose s"
| "ob_exec Drain s = drain_next s"
| "ob_exec Mark s = mark_done s"

inductive ob_reachable :: "ob_bus \<Rightarrow> bool" where
  ob_new: "ob_reachable new_outbound"
| ob_step: "ob_reachable s \<Longrightarrow> ob_reachable (ob_exec c s)"

subsection \<open>Every receipt is accounted for\<close>

definition in_flight :: "ob_bus \<Rightarrow> item list" where
  "in_flight s = (case o_disp s of D_lane it \<Rightarrow> [it] | D_send it cbs \<Rightarrow> [it] | _ \<Rightarrow> [])"

definition places :: "ob_bus \<Rightarrow> item multiset" where
  "places s = mset (o_entering s) + mset (o_queue s) + mset (in_flight s)"

definition receipt_ids :: "item multiset \<Rightarrow> nat multiset" where
  "receipt_ids M = image_mset (\<lambda>it. the (snd it)) (filter_mset (\<lambda>it. snd it \<noteq> None) M)"

definition counted :: "ob_bus \<Rightarrow> (string \<times> string) multiset" where
  "counted s = image_mset chat_of (mset (o_queue s) + mset (in_flight s)) + mset (o_marks s)"

definition waiting :: "ob_bus \<Rightarrow> nat set" where
  "waiting s = {r. dict_get (o_receipts s) r = Some Waiting}"

definition ob_inv :: "ob_bus \<Rightarrow> bool" where
  "ob_inv s \<longleftrightarrow> waiting s \<subseteq> set_mset (receipt_ids (places s)) \<and>
     (\<forall>r. count (receipt_ids (places s)) r \<le> 1) \<and>
     (\<forall>r. r \<in># receipt_ids (places s) \<longrightarrow> r < o_next s) \<and>
     (\<forall>k. o_sends s k = int (count (counted s) k))"

lemmas ob_view = waiting_def places_def counted_def in_flight_def

lemma settle_frame [simp]:
  "o_subs (settle ro v s) = o_subs s" "o_entering (settle ro v s) = o_entering s"
  "o_queue (settle ro v s) = o_queue s" "o_disp (settle ro v s) = o_disp s"
  "o_running (settle ro v s) = o_running s" "o_stopped (settle ro v s) = o_stopped s"
  "o_observer (settle ro v s) = o_observer s" "o_next (settle ro v s) = o_next s"
  "o_sends (settle ro v s) = o_sends s" "o_marks (settle ro v s) = o_marks s"
  "o_draining (settle ro v s) = o_draining s"
  by (simp_all add: settle_def split: option.split)

lemma count_send_frame [simp]:
  "o_subs (count_send k d s) = o_subs s" "o_entering (count_send k d s) = o_entering s"
  "o_queue (count_send k d s) = o_queue s" "o_disp (count_send k d s) = o_disp s"
  "o_running (count_send k d s) = o_running s" "o_stopped (count_send k d s) = o_stopped s"
  "o_observer (count_send k d s) = o_observer s" "o_next (count_send k d s) = o_next s"
  "o_receipts (count_send k d s) = o_receipts s" "o_marks (count_send k d s) = o_marks s"
  "o_draining (count_send k d s) = o_draining s"
  "o_sends (count_send k d s) = (o_sends s)(k := o_sends s k + d)"
  by (simp_all add: count_send_def)

lemma waiting_settle:
  "v \<noteq> Waiting \<Longrightarrow> waiting (settle ro v s) = waiting s - (case ro of None \<Rightarrow> {} | Some r \<Rightarrow> {r})"
  by (auto simp: waiting_def settle_def split: option.splits if_splits)

lemma waiting_frame [simp]:
  "waiting (o_subs_update f s) = waiting s" "waiting (o_entering_update f1 s) = waiting s"
  "waiting (o_queue_update f1 s) = waiting s" "waiting (o_disp_update f3 s) = waiting s"
  "waiting (o_running_update g s) = waiting s" "waiting (o_stopped_update g s) = waiting s"
  "waiting (o_observer_update g s) = waiting s" "waiting (o_next_update f4 s) = waiting s"
  "waiting (o_marks_update f5 s) = waiting s" "waiting (o_draining_update g s) = waiting s"
  "waiting (count_send k d s) = waiting s"
  by (simp_all add: waiting_def)

lemma receipt_ids_add [simp]:
  "receipt_ids (A + B) = receipt_ids A + receipt_ids B"
  "receipt_ids (add_mset it A) = (case snd it of None \<Rightarrow> {#} | Some r \<Rightarrow> {#r#}) + receipt_ids A"
  "receipt_ids {#} = {#}"
  by (auto simp: receipt_ids_def split: option.split)

text \<open>Steps that keep every item where it is, and steps that take one item out.\<close>

lemma ob_inv_same:
  assumes "ob_inv s" "places s' = places s" "counted s' = counted s" "o_next s' = o_next s"
    "o_sends s' = o_sends s" "waiting s' \<subseteq> waiting s"
  shows "ob_inv s'"
  using assms by (auto simp: ob_inv_def)

lemma ob_inv_remove:
  assumes "ob_inv s" "places s = add_mset it (places s')" "o_next s' = o_next s"
    "\<forall>k. o_sends s' k = int (count (counted s') k)"
    "waiting s' \<subseteq> waiting s - (case snd it of None \<Rightarrow> {} | Some r \<Rightarrow> {r})"
  shows "ob_inv s'"
proof -
  have c: "count (receipt_ids (places s')) r \<le> count (receipt_ids (places s)) r" for r
    unfolding assms(2) by simp
  have w: "waiting s' \<subseteq> set_mset (receipt_ids (places s'))"
  proof
    fix r assume r: "r \<in> waiting s'"
    then have "r \<in># receipt_ids (places s)" "snd it \<noteq> Some r"
      using assms(1,5) by (auto simp: ob_inv_def)
    then show "r \<in># receipt_ids (places s')" unfolding assms(2) by (auto split: option.splits)
  qed
  have "r \<in># receipt_ids (places s') \<Longrightarrow> r < o_next s'" for r
    using assms(1,3) unfolding ob_inv_def assms(2) by auto
  moreover have "count (receipt_ids (places s')) r \<le> 1" for r
    using assms(1) c[of r] unfolding ob_inv_def by (metis le_trans)
  ultimately show ?thesis using w assms(4) by (simp add: ob_inv_def)
qed

lemma mset_remove_nth:
  "i < length xs \<Longrightarrow> mset xs = add_mset (xs ! i) (mset (take i xs @ drop (Suc i) xs))"
proof -
  assume "i < length xs"
  then have "mset xs = mset (take i xs @ xs ! i # drop (Suc i) xs)" by (simp add: id_take_nth_drop[symmetric])
  then show ?thesis by simp
qed

lemma sends_step:
  assumes "\<forall>k. f k = int (count M k)" "M = add_mset x N"
  shows "(f(x := f x - 1)) k = int (count N k)"
  using assms by auto

lemma sends_add:
  assumes "\<forall>k. f k = int (count M k)"
  shows "(f(x := f x + 1)) k = int (count (add_mset x M) k)"
  using assms by auto

lemma inv_sends: "ob_inv s \<Longrightarrow> \<forall>k. o_sends s k = int (count (counted s) k)"
  by (simp add: ob_inv_def)

lemma dispatch_finish_frame [simp]:
  "o_entering (dispatch_finish ro s) = o_entering s" "o_queue (dispatch_finish ro s) = o_queue s"
  "o_disp (dispatch_finish ro s) = D_off" "o_next (dispatch_finish ro s) = o_next s"
  "o_sends (dispatch_finish ro s) = o_sends s" "o_marks (dispatch_finish ro s) = o_marks s"
  by (simp_all add: dispatch_finish_def)

lemma loop_head_frame [simp]:
  "o_entering (loop_head ro s) = o_entering s" "o_queue (loop_head ro s) = o_queue s"
  "o_next (loop_head ro s) = o_next s"
  "o_sends (loop_head ro s) = o_sends s" "o_marks (loop_head ro s) = o_marks s"
  "in_flight (loop_head ro s) = []"
  by (simp_all add: loop_head_def in_flight_def)

lemma waiting_dispatch_finish:
  "waiting (dispatch_finish ro s) = waiting s - (case ro of None \<Rightarrow> {} | Some r \<Rightarrow> {r})"
  by (simp add: dispatch_finish_def waiting_settle)

lemma waiting_loop_head: "waiting (loop_head ro s) \<subseteq> waiting s"
  by (auto simp: loop_head_def waiting_dispatch_finish)

text \<open>The item in flight leaves: the lane took its pending send back.\<close>

lemma leave_flight_inv:
  assumes "ob_inv s" "in_flight s = [it]" "in_flight s' = []"
    "o_entering s' = o_entering s" "o_queue s' = o_queue s" "o_marks s' = o_marks s" "o_next s' = o_next s"
    "o_sends s' = (o_sends s)(chat_of it := o_sends s (chat_of it) - 1)"
    "waiting s' \<subseteq> waiting s - (case snd it of None \<Rightarrow> {} | Some r \<Rightarrow> {r})"
  shows "ob_inv s'"
proof (rule ob_inv_remove[OF assms(1) _ assms(7) _ assms(9)])
  show "places s = add_mset it (places s')" using assms(2-5) by (simp add: places_def)
  have "counted s = add_mset (chat_of it) (counted s')" using assms(2-6) by (simp add: counted_def)
  from sends_step[OF inv_sends[OF assms(1)] this] show "\<forall>k. o_sends s' k = int (count (counted s') k)"
    unfolding assms(8) by blast
qed

lemma put_awaited_inv:
  assumes "ob_inv s"
  shows "ob_inv (publish_outbound_awaited m s)"
proof (cases "o_stopped s")
  case False
  define s' where "s' = publish_outbound_awaited m s"
  have p: "places s' = add_mset (m, Some (o_next s)) (places s)" and c: "counted s' = counted s"
    and n: "o_next s' = Suc (o_next s)" "o_sends s' = o_sends s" and w: "waiting s' = insert (o_next s) (waiting s)"
    using False by (auto simp: s'_def publish_outbound_awaited_def ob_view)
  have fresh: "count (receipt_ids (places s)) (o_next s) = 0"
    using assms by (auto simp: ob_inv_def count_eq_zero_iff)
  have "ob_inv s'" using assms fresh unfolding ob_inv_def p c n w
    by (auto simp: less_SucI)
  then show ?thesis by (simp add: s'_def)
qed (use assms in \<open>simp add: publish_outbound_awaited_def\<close>)

lemma enter_queue_inv:
  assumes "ob_inv s"
  shows "ob_inv (enter_queue i s)"
proof (cases "i < length (o_entering s)")
  case True
  define s' where "s' = enter_queue i s"
  have p: "places s' = places s" and c: "counted s' = add_mset (chat_of (o_entering s ! i)) (counted s)"
    and n: "o_next s' = o_next s" and w: "waiting s' = waiting s"
    and v: "o_sends s' = (o_sends s)(chat_of (o_entering s ! i) := o_sends s (chat_of (o_entering s ! i)) + 1)"
    using True mset_remove_nth[OF True] by (simp_all add: s'_def enter_queue_def places_def counted_def in_flight_def)
  have "\<forall>k. o_sends s' k = int (count (counted s') k)"
    using sends_add[OF inv_sends[OF assms]] unfolding v c by blast
  then have "ob_inv s'" using assms unfolding ob_inv_def p n w by blast
  then show ?thesis by (simp add: s'_def)
qed (use assms in \<open>simp add: enter_queue_def\<close>)

lemma cancel_entry_inv:
  assumes "ob_inv s"
  shows "ob_inv (cancel_entry i s)"
proof (cases "i < length (o_entering s)")
  case True
  show ?thesis
  proof (rule ob_inv_remove[OF assms, of "o_entering s ! i"])
    show "places s = add_mset (o_entering s ! i) (places (cancel_entry i s))"
      using True mset_remove_nth[OF True] by (simp add: cancel_entry_def places_def in_flight_def)
    show "\<forall>k. o_sends (cancel_entry i s) k = int (count (counted (cancel_entry i s)) k)"
      using True inv_sends[OF assms] by (simp add: cancel_entry_def counted_def in_flight_def)
  qed (use True in \<open>simp_all add: cancel_entry_def waiting_settle\<close>)
qed (use assms in \<open>simp add: cancel_entry_def\<close>)

lemma cancel_await_inv: "ob_inv s \<Longrightarrow> ob_inv (cancel_await r s)"
  by (rule ob_inv_same) (auto simp: cancel_await_def places_def counted_def in_flight_def waiting_settle)

lemma dispatch_take_inv:
  assumes "ob_inv s"
  shows "ob_inv (dispatch_take s)"
proof (cases "o_disp s = D_wait \<and> o_queue s \<noteq> []")
  case True
  then obtain it q where "o_disp s = D_wait" "o_queue s = it # q" by (cases "o_queue s") auto
  then show ?thesis by (intro ob_inv_same[OF assms]) (simp_all add: dispatch_take_def places_def counted_def in_flight_def)
next
  case False
  then have "dispatch_take s = s" by (auto simp: dispatch_take_def split: dispatcher.splits list.splits)
  then show ?thesis using assms by simp
qed

lemma loop_head_inv: "ob_inv s \<Longrightarrow> in_flight s = [] \<Longrightarrow> ob_inv (loop_head ro s)"
  by (rule ob_inv_same) (use waiting_loop_head[of ro s] in \<open>auto simp: places_def counted_def\<close>)

lemma dispatch_finish_inv: "ob_inv s \<Longrightarrow> in_flight s = [] \<Longrightarrow> ob_inv (dispatch_finish ro s)"
  by (rule ob_inv_same) (auto simp: places_def counted_def in_flight_def waiting_dispatch_finish split: dispatcher.splits)

lemma lane_failed_inv:
  assumes "ob_inv s"
  shows "ob_inv (lane_failed s)"
proof (cases "o_disp s")
  case (D_lane it)
  show ?thesis by (rule leave_flight_inv[OF assms, of it])
    (use D_lane in \<open>auto simp: lane_failed_def in_flight_def waiting_dispatch_finish\<close>)
qed (use assms in \<open>simp_all add: lane_failed_def\<close>)

lemma send_answered_inv:
  assumes "ob_inv s"
  shows "ob_inv (send_answered ans s)"
proof (cases "o_disp s")
  case (D_send it cbs)
  define s1 where "s1 = count_send (chat_of it) (- 1) s"
  show ?thesis
  proof (cases "fst (send_outbound (snd it = None) (fst it) cbs ans)")
    case None
    then have "send_answered ans s = dispatch_finish (snd it) s1" using D_send by (simp add: send_answered_def s1_def)
    then show ?thesis using D_send
      by (intro leave_flight_inv[OF assms, of it]) (auto simp: s1_def in_flight_def waiting_dispatch_finish)
  next
    case (Some d)
    define s2 where "s2 = settle (snd it) (Done d) s1"
    have fl: "in_flight s = [it]" using D_send by (simp add: in_flight_def)
    have w: "waiting s2 = waiting s - (case snd it of None \<Rightarrow> {} | Some r \<Rightarrow> {r})"
      by (simp add: s2_def s1_def waiting_settle)
    have "send_answered ans s = (if o_observer s2 then s2\<lparr>o_disp := D_observe it d\<rparr> else loop_head (snd it) s2)"
      using D_send Some by (simp add: send_answered_def s1_def s2_def Let_def)
    moreover have "ob_inv (s2\<lparr>o_disp := D_observe it d\<rparr>)"
      by (rule leave_flight_inv[OF assms, of it])
        (use D_send w in \<open>auto simp: s2_def s1_def in_flight_def\<close>)
    moreover have "ob_inv (loop_head (snd it) s2)"
      by (rule leave_flight_inv[OF assms, of it])
        (use w waiting_loop_head[of "snd it" s2] fl in \<open>auto simp: s2_def s1_def\<close>)
    ultimately show ?thesis by simp
  qed
qed (use assms in \<open>simp_all add: send_answered_def\<close>)

lemma drain_next_inv:
  assumes "ob_inv s"
  shows "ob_inv (drain_next s)"
proof (cases "o_draining s \<and> o_queue s \<noteq> []")
  case True
  then obtain it q where q: "o_queue s = it # q" by (cases "o_queue s") auto
  have c: "counted (drain_next s) = counted s" and v: "o_sends (drain_next s) = o_sends s"
    using True q by (simp_all add: drain_next_def counted_def in_flight_def)
  show ?thesis
    by (rule ob_inv_remove[OF assms, of it])
      (use True q inv_sends[OF assms] c v in \<open>simp_all add: drain_next_def places_def in_flight_def waiting_settle\<close>)
next
  case False
  then show ?thesis using assms by (auto simp: drain_next_def intro!: ob_inv_same[OF assms] simp: ob_view)
qed

lemma mark_done_inv:
  assumes "ob_inv s"
  shows "ob_inv (mark_done s)"
proof (cases "o_marks s")
  case (Cons k ks)
  have "counted s = add_mset k (counted (mark_done s))" using Cons
    by (simp add: mark_done_def counted_def in_flight_def)
  note v = sends_step[OF inv_sends[OF assms] this]
  have p: "places (mark_done s) = places s" "o_next (mark_done s) = o_next s" "waiting (mark_done s) = waiting s"
      "o_sends (mark_done s) = (o_sends s)(k := o_sends s k - 1)"
    using Cons by (simp_all add: mark_done_def places_def in_flight_def)
  then show ?thesis using assms v unfolding ob_inv_def p by blast
qed (use assms in \<open>simp add: mark_done_def\<close>)

lemma frame_inv:
  assumes "ob_inv s" "o_entering s' = o_entering s" "o_queue s' = o_queue s" "in_flight s' = in_flight s"
    "o_marks s' = o_marks s" "o_next s' = o_next s" "o_sends s' = o_sends s" "waiting s' = waiting s"
  shows "ob_inv s'"
  by (rule ob_inv_same[OF assms(1)]) (use assms in \<open>simp_all add: places_def counted_def\<close>)

lemma put_inv:
  assumes "ob_inv s"
  shows "ob_inv (publish_outbound m s)"
proof -
  have "receipt_ids (places (publish_outbound m s)) = receipt_ids (places s)" "counted (publish_outbound m s) = counted s"
    by (simp_all add: publish_outbound_def places_def counted_def in_flight_def)
  then show ?thesis using assms by (simp add: ob_inv_def publish_outbound_def)
qed

lemma lane_granted_inv:
  assumes "ob_inv s"
  shows "ob_inv (lane_granted s)"
proof (cases "o_disp s")
  case (D_lane it)
  then show ?thesis by (intro frame_inv[OF assms]) (simp_all add: lane_granted_def in_flight_def)
qed (use assms in \<open>simp_all add: lane_granted_def\<close>)

lemma observed_inv: "ob_inv s \<Longrightarrow> ob_inv (observed ok s)"
  by (auto simp: observed_def in_flight_def intro: loop_head_inv dispatch_finish_inv split: dispatcher.splits)

lemma dispatch_timeout_inv: "ob_inv s \<Longrightarrow> ob_inv (dispatch_timeout s)"
  by (auto simp: dispatch_timeout_def in_flight_def intro: loop_head_inv)

lemma dispatch_start_inv: "ob_inv s \<Longrightarrow> ob_inv (dispatch_start s)"
  unfolding dispatch_start_def by (auto intro: frame_inv[of s] simp: in_flight_def)

lemmas ob_op_inv = put_inv put_awaited_inv enter_queue_inv cancel_entry_inv cancel_await_inv dispatch_start_inv
  dispatch_take_inv dispatch_timeout_inv lane_granted_inv lane_failed_inv send_answered_inv observed_inv
  drain_next_inv mark_done_inv

lemma ob_exec_inv:
  assumes "ob_inv s"
  shows "ob_inv (ob_exec c s)"
  by (cases c) (use assms in \<open>simp_all add: ob_op_inv aclose_def frame_inv[OF assms] in_flight_def\<close>)

lemma ob_reachable_inv: "ob_reachable s \<Longrightarrow> ob_inv s"
proof (induction rule: ob_reachable.induct)
  case ob_new
  show ?case by (simp add: ob_inv_def new_outbound_def ob_view receipt_ids_def)
qed (rule ob_exec_inv)

text \<open>
  C10. Every receipt that is still awaited belongs to exactly one item on its way: a publisher
  still registering with the lane, the queue, or the dispatcher.  So once the queue is drained,
  the dispatcher has nothing in flight and no publisher is registering, no receipt is left
  unresolved; and the pending sends of a chat count exactly its queued and flying items and
  the marks under way.
\<close>

theorem receipts_accounted:
  assumes "ob_reachable s"
  shows "(dict_get (o_receipts s) r = Some Waiting \<longrightarrow> count (receipt_ids (places s)) r = 1) \<and>
    (o_entering s = [] \<and> o_queue s = [] \<and> in_flight s = [] \<longrightarrow> waiting s = {}) \<and>
    o_sends s k = int (count (counted s) k)"
proof -
  note inv = ob_reachable_inv[OF assms]
  have "r \<in> waiting s \<Longrightarrow> count (receipt_ids (places s)) r = 1"
    using inv unfolding ob_inv_def by (metis count_greater_eq_one_iff le_antisym subsetD)
  moreover have "o_entering s = [] \<and> o_queue s = [] \<and> in_flight s = [] \<longrightarrow> waiting s = {}"
    using inv by (auto simp: ob_inv_def places_def)
  moreover have "o_sends s k = int (count (counted s) k)" using inv_sends[OF inv] by blast
  ultimately show ?thesis by (simp only: waiting_def mem_Collect_eq) blast
qed

lemma settle_done:
  "dict_get (o_receipts (settle ro v s)) r = Some (Done d) \<longleftrightarrow>
     (if ro = Some r \<and> dict_get (o_receipts s) r = Some Waiting then v = Done d
      else dict_get (o_receipts s) r = Some (Done d))"
  by (auto simp: settle_def split: option.splits)

lemma dispatch_finish_done:
  "dict_get (o_receipts (dispatch_finish ro s)) r = Some (Done True) \<longleftrightarrow> dict_get (o_receipts s) r = Some (Done True)"
  by (auto simp: dispatch_finish_def settle_done)

lemma loop_head_done:
  "dict_get (o_receipts (loop_head ro s)) r = Some (Done True) \<longleftrightarrow> dict_get (o_receipts s) r = Some (Done True)"
  by (simp add: loop_head_def dispatch_finish_done)

lemma send_answered_done:
  assumes "dict_get (o_receipts (send_answered ans s)) r = Some (Done True)"
    and "dict_get (o_receipts s) r \<noteq> Some (Done True)"
  obtains m cbs where "o_disp s = D_send (m, Some r) cbs" "fst (send_outbound False m cbs ans) = Some True"
proof (cases "o_disp s")
  case (D_send it cbs)
  define s1 where "s1 = count_send (chat_of it) (- 1) s"
  have same: "o_receipts s1 = o_receipts s" by (simp add: s1_def)
  show ?thesis
  proof (cases "fst (send_outbound (snd it = None) (fst it) cbs ans)")
    case None
    then have "send_answered ans s = dispatch_finish (snd it) s1" using D_send by (simp add: send_answered_def s1_def)
    then show ?thesis using assms by (simp add: dispatch_finish_done same)
  next
    case (Some d)
    have "dict_get (o_receipts (settle (snd it) (Done d) s1)) r = Some (Done True)"
      using assms(1) D_send Some by (simp add: send_answered_def s1_def Let_def loop_head_done split: if_splits)
    then have "snd it = Some r" "d" using assms(2) by (auto simp: settle_done same split: if_splits)
    then show ?thesis using that[of "fst it" cbs] D_send Some by (cases it) simp
  qed
qed (use assms in \<open>simp_all add: send_answered_def\<close>)

text \<open>
  A receipt becomes \<open>True\<close> only by the answer of the callbacks to that very message: the
  channel had subscribers and every one of them accepted it; neither the fallback notice, nor
  closing, nor a cancelled dispatcher resolves a receipt to \<open>True\<close>.
\<close>

theorem receipt_true_delivered:
  assumes "dict_get (o_receipts (ob_exec c s)) r = Some (Done True)" "dict_get (o_receipts s) r \<noteq> Some (Done True)"
  shows "\<exists>ans m cbs calls. c = Answered ans \<and> o_disp s = D_send (m, Some r) cbs \<and> cbs \<noteq> [] \<and>
    send_outbound False m cbs ans = (Some True, calls) \<and> (\<forall>cb \<in> set cbs. accepted_by m ans calls cb)"
proof (cases c)
  case (Answered ans)
  obtain m cbs where d: "o_disp s = D_send (m, Some r) cbs" "fst (send_outbound False m cbs ans) = Some True"
    using send_answered_done assms unfolding Answered by (metis ob_exec.simps(14))
  obtain calls where c: "send_outbound False m cbs ans = (Some True, calls)" using d(2) by (cases "send_outbound False m cbs ans") auto
  have ne: "cbs \<noteq> []" using c by (auto simp: send_outbound_def)
  then have "\<forall>cb \<in> set cbs. accepted_by m ans calls cb"
    using c send_loop_result[of False m cbs ans True "[]" True calls] by (simp add: send_outbound_def)
  then show ?thesis using Answered d c ne by blast
qed (use assms in \<open>auto simp: publish_outbound_def publish_outbound_awaited_def enter_queue_def cancel_entry_def
   cancel_await_def dispatch_start_def dispatch_take_def dispatch_timeout_def lane_granted_def lane_failed_def
   observed_def drain_next_def mark_done_def aclose_def settle_done dispatch_finish_done loop_head_done
   split: if_splits dispatcher.splits list.splits\<close>)

definition demo_ob :: "ob_cmd list \<Rightarrow> ob_bus" where
  "demo_ob cs = foldl (\<lambda>s c. ob_exec c s) new_outbound cs"

lemma demo_ob_reachable: "ob_reachable (demo_ob cs)"
proof -
  have "ob_reachable s \<Longrightarrow> ob_reachable (foldl (\<lambda>s c. ob_exec c s) s cs)" for s
    by (induction cs arbitrary: s) (auto intro: ob_step)
  then show ?thesis by (simp add: demo_ob_def ob_new)
qed

definition demo_sending :: ob_bus where
  "demo_sending = demo_ob [Subscribe ''tg'' 7, Start_dispatch, Put_awaited demo_out, Entered 0, Take, Granted]"

lemma demo_receipts: "dict_get (o_receipts demo_sending) 0 = Some Waiting"
  by (simp add: demo_sending_def demo_ob_def new_outbound_def publish_outbound_awaited_def enter_queue_def
      dispatch_start_def dispatch_take_def lane_granted_def)

theorem receipts_accounted_witness:
  "ob_reachable demo_sending \<and> count (receipt_ids (places demo_sending)) 0 = 1"
  using receipts_accounted[OF demo_ob_reachable, of "[Subscribe ''tg'' 7, Start_dispatch, Put_awaited demo_out, Entered 0, Take, Granted]" 0]
    demo_receipts demo_ob_reachable by (auto simp: demo_sending_def)

theorem receipt_true_delivered_witness:
  "\<exists>ans m cbs calls. Answered (\<lambda>n. Accept) = Answered ans \<and> o_disp demo_sending = D_send (m, Some 0) cbs \<and> cbs \<noteq> [] \<and>
    send_outbound False m cbs ans = (Some True, calls) \<and> (\<forall>cb \<in> set cbs. accepted_by m ans calls cb)"
proof (rule receipt_true_delivered)
  show "dict_get (o_receipts demo_sending) 0 \<noteq> Some (Done True)" by (simp add: demo_receipts)
  show "dict_get (o_receipts (ob_exec (Answered (\<lambda>n. Accept)) demo_sending)) 0 = Some (Done True)"
    by code_simp
qed

text \<open>Closing does not reach a publisher that is still registering with the lane, and a bus whose
  dispatcher never ran does not refuse one after it was closed: the receipt then stays unresolved
  with nobody left to resolve it.\<close>

lemma aclose_leaves_receipt:
  "let s = demo_ob [Start_dispatch, Put_awaited demo_out, Aclose, Drain, Timeout, Entered 0] in
     dict_get (o_receipts s) 0 = Some Waiting \<and> o_disp s = D_off \<and> \<not> o_draining s \<and> o_stopped s"
  "let s = demo_ob [Aclose, Drain, Put_awaited demo_out, Entered 0] in
     dict_get (o_receipts s) 0 = Some Waiting \<and> o_disp s = D_off \<and> \<not> o_draining s"
  by (simp_all add: demo_ob_def new_outbound_def publish_outbound_awaited_def enter_queue_def aclose_def
      dispatch_start_def drain_next_def dispatch_timeout_def loop_head_def dispatch_finish_def settle_def)

end
