(* ===== verification/Lifecycle_Pipe.thy ===== *)
theory Lifecycle_Pipe
  imports Roxy_Prelude
begin

text \<open>
  The private pipe between a boot and its supervisor: the frames that
  \<open>SupervisorCommitChannel\<close> writes (agent/restart.py lines 41--140), the parser
  \<open>_LifecycleState\<close> that reads them in arbitrary chunks (agent/supervisor.py lines 97--199)
  and the verdict the supervisor draws from a finished boot (lines 420--443).  JSON text is a
  parameter; bytes are characters.
\<close>

record json_codec =
  jc_dump :: "json \<Rightarrow> string"
  jc_parse :: "string \<Rightarrow> json option"
  jc_str :: "json \<Rightarrow> string"

definition max_frame :: nat where "max_frame = 4096"

subsection \<open>The writing side\<close>

record pipe_channel =
  ch_boot :: string
  ch_nonce :: string

datatype pipe_error = Bad_fd | Bad_identity | No_fd | Fd_not_int | Wrong_boot | Bad_settings_id
  | Empty_stage | Bad_pid | Frame_too_long | Short_write

definition open_channel :: "int \<Rightarrow> string \<Rightarrow> string \<Rightarrow> pipe_error + pipe_channel" where
  "open_channel fd boot nonce = (if fd \<le> 2 then Inl Bad_fd
     else if boot = [] \<or> length nonce < 32 then Inl Bad_identity
     else Inr \<lparr>ch_boot = boot, ch_nonce = nonce\<rparr>)"

text \<open>The environment variables; \<open>None\<close> in the result: not supervised.\<close>

definition channel_from_environment ::
  "(string \<Rightarrow> int option) \<Rightarrow> string \<Rightarrow> string \<Rightarrow> string \<Rightarrow> string \<Rightarrow> pipe_error + pipe_channel option" where
  "channel_from_environment to_int supervised raw_fd boot nonce =
     (if supervised \<noteq> ''1'' then Inr None
      else if raw_fd = [] then Inl No_fd
      else case to_int raw_fd of None \<Rightarrow> Inl Fd_not_int
        | Some fd \<Rightarrow> map_sum id Some (open_channel fd boot nonce))"

text \<open>\<open>_write_frame\<close>: the bytes on the pipe; \<open>written\<close> is what \<open>os.write\<close> returned for a length.\<close>

definition write_frame :: "json_codec \<Rightarrow> (nat \<Rightarrow> nat) \<Rightarrow> json \<Rightarrow> pipe_error + string" where
  "write_frame jc written frame = (let payload = jc_dump jc frame @ [CHR 0x0A] in
     if length payload > max_frame then Inl Frame_too_long
     else if written (length payload) \<noteq> length payload then Inl Short_write
     else Inr payload)"

definition commit_frame :: "pipe_channel \<Rightarrow> string \<Rightarrow> json" where
  "commit_frame ch request = JObj [(''type'', JStr ''commit''), (''bootId'', JStr (ch_boot ch)),
     (''nonce'', JStr (ch_nonce ch)), (''requestId'', JStr request)]"

definition stage_frame :: "pipe_channel \<Rightarrow> string \<Rightarrow> int \<Rightarrow> json" where
  "stage_frame ch name elapsed = JObj [(''type'', JStr ''stage''), (''bootId'', JStr (ch_boot ch)),
     (''stage'', JStr name), (''elapsedMs'', JInt elapsed)]"

definition ready_frame :: "pipe_channel \<Rightarrow> int \<Rightarrow> json" where
  "ready_frame ch pid = JObj [(''type'', JStr ''ready''), (''bootId'', JStr (ch_boot ch)), (''pid'', JInt pid)]"

definition settings_frame :: "pipe_channel \<Rightarrow> bool \<Rightarrow> string \<Rightarrow> json" where
  "settings_frame ch success detail = JObj [(''type'', JStr ''settings_reloaded''),
     (''bootId'', JStr (ch_boot ch)), (''success'', JBool success), (''detail'', JStr (take 1024 detail))]"

definition commit_restart :: "json_codec \<Rightarrow> (nat \<Rightarrow> nat) \<Rightarrow> pipe_channel \<Rightarrow> string \<Rightarrow> string \<Rightarrow> pipe_error + string" where
  "commit_restart jc written ch request_boot request =
     (if request_boot \<noteq> ch_boot ch then Inl Wrong_boot else write_frame jc written (commit_frame ch request))"

definition commit_settings :: "json_codec \<Rightarrow> (nat \<Rightarrow> nat) \<Rightarrow> pipe_channel \<Rightarrow> string \<Rightarrow> pipe_error + string" where
  "commit_settings jc written ch request =
     (if \<not> prefix ''settings_'' request then Inl Bad_settings_id else write_frame jc written (commit_frame ch request))"

definition settings_reloaded :: "json_codec \<Rightarrow> (nat \<Rightarrow> nat) \<Rightarrow> pipe_channel \<Rightarrow> bool \<Rightarrow> string \<Rightarrow> pipe_error + string" where
  "settings_reloaded jc written ch success detail = write_frame jc written (settings_frame ch success detail)"

definition stage :: "json_codec \<Rightarrow> (nat \<Rightarrow> nat) \<Rightarrow> pipe_channel \<Rightarrow> string \<Rightarrow> int \<Rightarrow> pipe_error + string" where
  "stage jc written ch name elapsed =
     (if py_strip name = [] then Inl Empty_stage else write_frame jc written (stage_frame ch (py_strip name) elapsed))"

definition ready :: "json_codec \<Rightarrow> (nat \<Rightarrow> nat) \<Rightarrow> pipe_channel \<Rightarrow> int \<Rightarrow> pipe_error + string" where
  "ready jc written ch pid = (if pid \<le> 0 then Inl Bad_pid else write_frame jc written (ready_frame ch pid))"

subsection \<open>The reading side\<close>

datatype protocol_error = Too_long | Not_json | Wrong_identity | Unknown_frame json
  | Invalid_stage | Invalid_ready | Invalid_commit | Invalid_settings | Incomplete

record lifecycle =
  lf_boot :: string
  lf_nonce :: string
  lf_ready :: bool
  lf_pid :: "int option"
  lf_commit :: bool
  lf_stage :: string
  lf_elapsed :: int
  lf_error :: "protocol_error option"
  lf_buffer :: string
  lf_settings :: "(bool \<times> string) list"

definition new_lifecycle :: "string \<Rightarrow> string \<Rightarrow> lifecycle" where
  "new_lifecycle boot nonce = \<lparr>lf_boot = boot, lf_nonce = nonce, lf_ready = False, lf_pid = None,
     lf_commit = False, lf_stage = ''guardian.spawn'', lf_elapsed = -1, lf_error = None, lf_buffer = [],
     lf_settings = []\<rparr>"

text \<open>\<open>isinstance(v, int)\<close> also holds of the booleans.\<close>

definition int_like :: "json \<Rightarrow> int option" where
  "int_like v = (case v of JInt n \<Rightarrow> Some n | JBool b \<Rightarrow> Some (if b then 1 else 0) | _ \<Rightarrow> None)"

definition utf8_length :: "string \<Rightarrow> nat" where
  "utf8_length s = length s + length (filter (\<lambda>c. (of_char c :: nat) \<ge> 128) s)"

definition fail_with :: "protocol_error \<Rightarrow> lifecycle \<Rightarrow> lifecycle" where
  "fail_with e st = st\<lparr>lf_error := Some e\<rparr>"

definition accept_stage :: "(string, json) dict \<Rightarrow> lifecycle \<Rightarrow> lifecycle" where
  "accept_stage d st = (case (json_field d ''stage'', int_like (json_field d ''elapsedMs'')) of
     (JStr name, Some ms) \<Rightarrow>
       if py_strip name = [] \<or> ms < lf_elapsed st \<or> lf_ready st then fail_with Invalid_stage st
       else st\<lparr>lf_stage := name, lf_elapsed := ms\<rparr>
   | _ \<Rightarrow> fail_with Invalid_stage st)"

definition accept_ready :: "(string, json) dict \<Rightarrow> lifecycle \<Rightarrow> lifecycle" where
  "accept_ready d st = (case int_like (json_field d ''pid'') of
     Some pid \<Rightarrow> if lf_ready st \<or> pid \<le> 0 then fail_with Invalid_ready st
       else st\<lparr>lf_ready := True, lf_pid := Some pid\<rparr>
   | None \<Rightarrow> fail_with Invalid_ready st)"

definition nonce_text :: "json_codec \<Rightarrow> json \<Rightarrow> string" where
  "nonce_text jc v = (if \<not> truthy v then [] else case v of JStr s \<Rightarrow> s | _ \<Rightarrow> jc_str jc v)"

definition accept_commit :: "json_codec \<Rightarrow> (string, json) dict \<Rightarrow> lifecycle \<Rightarrow> lifecycle option" where
  "accept_commit jc d st =
     (let request = json_field d ''requestId''; nonce = nonce_text jc (json_field d ''nonce'') in
      if \<not> lf_ready st \<or> lf_commit st \<or> \<not> is_str request \<or>
         \<not> (prefix ''restart_'' (the_str request) \<or> prefix ''settings_'' (the_str request))
      then Some (fail_with Invalid_commit st)
      else (case compare_digest nonce (lf_nonce st) of None \<Rightarrow> None
        | Some same \<Rightarrow> Some (if same then st\<lparr>lf_commit := True\<rparr> else fail_with Invalid_commit st)))"

definition accept_settings :: "(string, json) dict \<Rightarrow> lifecycle \<Rightarrow> lifecycle" where
  "accept_settings d st = (case (json_field d ''success'', json_get d ''detail'' (JStr [])) of
     (JBool success, JStr detail) \<Rightarrow>
       if \<not> lf_ready st \<or> utf8_length detail > 2048 then fail_with Invalid_settings st
       else st\<lparr>lf_settings := lf_settings st @ [(success, detail)]\<rparr>
   | _ \<Rightarrow> fail_with Invalid_settings st)"

definition accept_object :: "json_codec \<Rightarrow> (string, json) dict \<Rightarrow> lifecycle \<Rightarrow> lifecycle option" where
  "accept_object jc d st =
     (let t = json_field d ''type'' in
      if json_field d ''bootId'' \<noteq> JStr (lf_boot st) then Some (fail_with Wrong_identity st)
      else if t = JStr ''stage'' then Some (accept_stage d st)
      else if t = JStr ''ready'' then Some (accept_ready d st)
      else if t = JStr ''commit'' then accept_commit jc d st
      else if t = JStr ''settings_reloaded'' then Some (accept_settings d st)
      else Some (fail_with (Unknown_frame t) st))"

definition accept_frame :: "json_codec \<Rightarrow> string \<Rightarrow> lifecycle \<Rightarrow> lifecycle option" where
  "accept_frame jc raw st =
     (if lf_error st \<noteq> None then Some st
      else case jc_parse jc raw of None \<Rightarrow> Some (fail_with Not_json st)
        | Some (JObj d) \<Rightarrow> accept_object jc d st
        | Some _ \<Rightarrow> Some (fail_with Wrong_identity st))"

text \<open>The loop of \<open>feed\<close> over the complete frames of the buffer.\<close>

definition newline :: char where "newline = CHR 0x0A"

definition first_frame :: "string \<Rightarrow> string" where
  "first_frame b = takeWhile (\<lambda>c. c \<noteq> newline) b"

definition after_frame :: "string \<Rightarrow> string" where
  "after_frame b = tl (dropWhile (\<lambda>c. c \<noteq> newline) b)"

lemma after_frame_shorter [termination_simp]: "newline \<in> set b \<Longrightarrow> length (after_frame b) < length b"
proof -
  assume "newline \<in> set b"
  then have "dropWhile (\<lambda>c. c \<noteq> newline) b \<noteq> []" by (auto simp: dropWhile_eq_Nil_conv)
  then have "length (after_frame b) < length (dropWhile (\<lambda>c. c \<noteq> newline) b)" by (simp add: after_frame_def)
  then show ?thesis using length_dropWhile_le[of "\<lambda>c. c \<noteq> newline" b] by simp
qed

function feed_loop :: "json_codec \<Rightarrow> lifecycle \<Rightarrow> string \<Rightarrow> lifecycle option" where
  "feed_loop jc st b =
     (if newline \<notin> set b then Some (st\<lparr>lf_buffer := b\<rparr>)
      else if first_frame b = [] then feed_loop jc st (after_frame b)
      else if length (first_frame b) > max_frame
      then Some (st\<lparr>lf_error := Some Too_long, lf_buffer := after_frame b\<rparr>)
      else case accept_frame jc (first_frame b) st of None \<Rightarrow> None
        | Some st' \<Rightarrow> feed_loop jc st' (after_frame b))"
  by pat_completeness auto

termination by (relation "measure (\<lambda>(jc, st, b). length b)") (simp_all add: after_frame_shorter)

declare feed_loop.simps [simp del]

definition feed_end :: "bool \<Rightarrow> lifecycle \<Rightarrow> lifecycle" where
  "feed_end eof st =
     (let st1 = (if length (lf_buffer st) > max_frame \<and> lf_error st = None then fail_with Too_long st else st);
          st2 = (if eof \<and> lf_buffer st1 \<noteq> [] \<and> lf_error st1 = None then fail_with Incomplete st1 else st1)
      in if lf_error st2 \<noteq> None then st2\<lparr>lf_commit := False\<rparr> else st2)"

definition feed :: "json_codec \<Rightarrow> string \<Rightarrow> bool \<Rightarrow> lifecycle \<Rightarrow> lifecycle option" where
  "feed jc payload eof st = map_option (feed_end eof) (feed_loop jc st (lf_buffer st @ payload))"

subsection \<open>The verdict\<close>

datatype boot_decision = Leave int | Protocol_failure | Restart_with int

definition restart_exit_code :: int where "restart_exit_code = 75"

definition portable_exit_code :: "int \<Rightarrow> int" where
  "portable_exit_code c = (if c \<ge> 0 then c else 128 + \<bar>c\<bar>)"

text \<open>What the supervisor does after a boot ended without a stop signal; \<open>rollback\<close> is the
  generation that \<open>wait_request\<close> returned.\<close>

definition boot_verdict :: "int \<Rightarrow> lifecycle \<Rightarrow> int \<Rightarrow> int \<Rightarrow> boot_decision" where
  "boot_verdict code st generation rollback =
     (if lf_error st \<noteq> None then Protocol_failure
      else if code \<noteq> restart_exit_code then
        (if generation \<noteq> 0 \<and> rollback \<noteq> 0 then Restart_with rollback else Leave (portable_exit_code code))
      else if \<not> lf_ready st \<or> \<not> lf_commit st then
        (if generation \<noteq> 0 \<and> rollback \<noteq> 0 then Restart_with rollback else Protocol_failure)
      else Restart_with generation)"

subsection \<open>Well-formed reader states\<close>

definition frames_ok :: "lifecycle \<Rightarrow> bool" where
  "frames_ok st \<longleftrightarrow> (lf_pid st = None \<longleftrightarrow> \<not> lf_ready st) \<and> (\<forall>p. lf_pid st = Some p \<longrightarrow> p > 0) \<and>
     ((lf_commit st \<or> lf_settings st \<noteq> []) \<longrightarrow> lf_ready st) \<and> py_strip (lf_stage st) \<noteq> [] \<and>
     list_all (\<lambda>(b, d). utf8_length d \<le> 2048) (lf_settings st)"

definition lifecycle_ok :: "lifecycle \<Rightarrow> bool" where
  "lifecycle_ok st \<longleftrightarrow> frames_ok st \<and> (lf_commit st \<longrightarrow> lf_error st = None) \<and>
     (lf_error st = None \<longrightarrow> newline \<notin> set (lf_buffer st) \<and> length (lf_buffer st) \<le> max_frame)"

lemmas accept_defs = accept_stage_def accept_ready_def accept_commit_def accept_settings_def fail_with_def Let_def

lemma accept_frame_ok:
  assumes "accept_frame jc raw st = Some st'" "frames_ok st"
  shows "frames_ok st'"
proof (cases "lf_error st = None \<and> (\<exists>d. jc_parse jc raw = Some (JObj d))")
  case True
  then obtain d where d: "jc_parse jc raw = Some (JObj d)" "lf_error st = None" by blast
  then have a: "accept_object jc d st = Some st'" using assms(1) by (simp add: accept_frame_def)
  have f: "frames_ok (fail_with e st)" for e using assms(2) by (simp add: frames_ok_def fail_with_def)
  have "frames_ok (accept_stage d st)"
    using assms(2) f by (auto simp: accept_stage_def frames_ok_def split: json.split option.split)
  moreover have "frames_ok (accept_ready d st)"
    using assms(2) f by (auto simp: accept_ready_def frames_ok_def split: option.split)
  moreover have "frames_ok (accept_settings d st)"
    using assms(2) f by (auto simp: accept_settings_def frames_ok_def split: json.split)
  moreover have "accept_commit jc d st = Some st' \<Longrightarrow> frames_ok st'"
    using assms(2) by (auto simp: accept_commit_def frames_ok_def fail_with_def Let_def split: if_splits option.splits)
  ultimately show ?thesis using a f by (auto simp: accept_object_def Let_def split: if_splits)
next
  case False
  then show ?thesis using assms
    by (auto simp: accept_frame_def frames_ok_def fail_with_def split: if_splits option.splits json.splits)
qed

lemma feed_loop_ok:
  "feed_loop jc st b = Some st' \<Longrightarrow> frames_ok st \<Longrightarrow>
     frames_ok st' \<and> (lf_error st' = None \<longrightarrow> newline \<notin> set (lf_buffer st'))"
proof (induction jc st b arbitrary: st' rule: feed_loop.induct)
  case (1 jc st b)
  show ?case
  proof (cases "newline \<notin> set b \<or> first_frame b \<noteq> [] \<and> length (first_frame b) > max_frame")
    case True
    then show ?thesis using 1(3,4) by (subst (asm) feed_loop.simps) (auto simp: frames_ok_def split: if_splits)
  next
    case False
    then show ?thesis using 1 accept_frame_ok
      by (subst (asm) (3) feed_loop.simps) (auto split: if_splits option.splits)
  qed
qed

lemma feed_end_frame [simp]:
  "lf_buffer (feed_end eof st) = lf_buffer st" "lf_ready (feed_end eof st) = lf_ready st"
  by (simp_all add: feed_end_def fail_with_def Let_def)

lemma feed_end_ok:
  assumes "frames_ok st" "lf_error st = None \<longrightarrow> newline \<notin> set (lf_buffer st)"
  shows "lifecycle_ok (feed_end eof st)"
  using assms by (auto simp: feed_end_def lifecycle_ok_def frames_ok_def fail_with_def Let_def)

lemma feed_ok: "lifecycle_ok st \<Longrightarrow> feed jc chunk eof st = Some st' \<Longrightarrow> lifecycle_ok st'"
  unfolding feed_def lifecycle_ok_def[of st] by (auto dest: feed_loop_ok intro: feed_end_ok)

lemma new_lifecycle_ok: "lifecycle_ok (new_lifecycle boot nonce)"
  by (simp add: lifecycle_ok_def frames_ok_def new_lifecycle_def py_strip_def is_space_def max_frame_def)

fun feed_all :: "json_codec \<Rightarrow> string list \<Rightarrow> lifecycle \<Rightarrow> lifecycle option" where
  "feed_all jc [] st = Some st"
| "feed_all jc (c # cs) st = (case feed jc c False st of None \<Rightarrow> None | Some st' \<Rightarrow> feed_all jc cs st')"

lemma feed_all_ok: "lifecycle_ok st \<Longrightarrow> feed_all jc cs st = Some st' \<Longrightarrow> lifecycle_ok st'"
  by (induction jc cs st rule: feed_all.induct) (auto split: option.splits dest: feed_ok)

text \<open>
  C14. However the bytes of a boot arrive, the supervisor's reader is well-formed: it has a
  process id exactly when the boot is ready, the id is positive, a restart commit or a reload
  answer is held only for a ready boot, never together with a protocol error, and what it
  buffers is an incomplete frame within the limit.
\<close>

theorem lifecycle_typed:
  assumes "feed_all jc cs (new_lifecycle boot nonce) = Some st" "feed jc c eof st = Some st'"
  shows "lifecycle_ok st'"
  using feed_ok[OF feed_all_ok[OF new_lifecycle_ok assms(1)] assms(2)] .

subsection \<open>Chunks do not matter\<close>

text \<open>After a protocol error the buffer is no longer looked at.\<close>

definition reader_view :: "lifecycle \<Rightarrow> lifecycle" where
  "reader_view st = (if lf_error st \<noteq> None then st\<lparr>lf_buffer := []\<rparr> else st)"

lemma accept_frame_buffer:
  "accept_frame jc raw (st\<lparr>lf_buffer := x\<rparr>) = map_option (\<lambda>s. s\<lparr>lf_buffer := x\<rparr>) (accept_frame jc raw st)"
  by (auto simp: accept_frame_def accept_object_def accept_defs split: option.split json.split)

lemma accept_frame_error: "lf_error st \<noteq> None \<Longrightarrow> accept_frame jc raw st = Some st"
  by (simp add: accept_frame_def)

lemma feed_loop_none: "newline \<notin> set b \<Longrightarrow> feed_loop jc st b = Some (st\<lparr>lf_buffer := b\<rparr>)"
  by (subst feed_loop.simps) simp

lemma feed_loop_empty:
  "newline \<in> set b \<Longrightarrow> first_frame b = [] \<Longrightarrow> feed_loop jc st b = feed_loop jc st (after_frame b)"
  by (subst feed_loop.simps) simp

lemma feed_loop_long:
  "newline \<in> set b \<Longrightarrow> length (first_frame b) > max_frame \<Longrightarrow>
     feed_loop jc st b = Some (st\<lparr>lf_error := Some Too_long, lf_buffer := after_frame b\<rparr>)"
  by (subst feed_loop.simps) auto

lemma feed_loop_frame:
  "newline \<in> set b \<Longrightarrow> first_frame b \<noteq> [] \<Longrightarrow> \<not> length (first_frame b) > max_frame \<Longrightarrow>
     feed_loop jc st b = (case accept_frame jc (first_frame b) st of None \<Rightarrow> None
       | Some st' \<Rightarrow> feed_loop jc st' (after_frame b))"
  by (subst feed_loop.simps) simp

lemma feed_cases [case_names none_left empty too_long one_frame]:
  "(newline \<notin> set b \<Longrightarrow> P) \<Longrightarrow> (newline \<in> set b \<Longrightarrow> first_frame b = [] \<Longrightarrow> P) \<Longrightarrow>
   (newline \<in> set b \<Longrightarrow> first_frame b \<noteq> [] \<Longrightarrow> length (first_frame b) > max_frame \<Longrightarrow> P) \<Longrightarrow>
   (newline \<in> set b \<Longrightarrow> first_frame b \<noteq> [] \<Longrightarrow> \<not> length (first_frame b) > max_frame \<Longrightarrow> P) \<Longrightarrow> P"
  by blast

lemma feed_loop_rest:
  "feed_loop jc st b = Some s \<Longrightarrow> lf_error s = None \<longrightarrow> newline \<notin> set (lf_buffer s)"
proof (induction jc st b rule: feed_loop.induct)
  case (1 jc st b)
  show ?case
  proof (cases rule: feed_cases[of b])
    case one_frame
    then show ?thesis using 1(2)[OF _ one_frame(2,3)] 1(3)
      by (cases "accept_frame jc (first_frame b) st") (simp_all add: feed_loop_frame)
  qed (use 1(1,3) in \<open>auto simp: feed_loop_none feed_loop_empty feed_loop_long\<close>)
qed

lemma feed_loop_buffer: "feed_loop jc (st\<lparr>lf_buffer := x\<rparr>) b = feed_loop jc st b"
proof (induction jc st b rule: feed_loop.induct)
  case (1 jc st b)
  show ?case
  proof (cases rule: feed_cases[of b])
    case one_frame
    then show ?thesis using 1(2)[OF _ _ one_frame(3)]
      by (cases "accept_frame jc (first_frame b) st") (simp_all add: feed_loop_frame accept_frame_buffer)
  qed (use 1(1) in \<open>simp_all add: feed_loop_none feed_loop_empty feed_loop_long\<close>)
qed

lemma feed_loop_too_long:
  "lf_error st = Some Too_long \<Longrightarrow> \<exists>x. feed_loop jc st b = Some (st\<lparr>lf_buffer := x\<rparr>)"
proof (induction jc st b rule: feed_loop.induct)
  case (1 jc st b)
  have same: "st\<lparr>lf_error := Some Too_long, lf_buffer := y\<rparr> = st\<lparr>lf_buffer := y\<rparr>" for y
    using 1(3) by (cases st) simp
  show ?case
  proof (cases rule: feed_cases[of b])
    case none_left
    then show ?thesis by (auto simp: feed_loop_none)
  next
    case empty
    then show ?thesis using 1(1)[OF _ empty(2) 1(3)] by (simp add: feed_loop_empty)
  next
    case too_long
    then show ?thesis using same by (auto simp: feed_loop_long)
  next
    case one_frame
    then show ?thesis using 1(2)[OF _ one_frame(2,3) _ 1(3)] 1(3) by (simp add: feed_loop_frame accept_frame_error)
  qed
qed

lemma feed_loop_commit:
  "lf_error st \<noteq> None \<Longrightarrow>
     feed_loop jc (st\<lparr>lf_commit := False\<rparr>) b = map_option (\<lambda>s. s\<lparr>lf_commit := False\<rparr>) (feed_loop jc st b) \<and>
     (\<exists>s. feed_loop jc st b = Some s \<and> lf_error s \<noteq> None)"
proof (induction jc st b rule: feed_loop.induct)
  case (1 jc st b)
  show ?case
  proof (cases rule: feed_cases[of b])
    case one_frame
    then show ?thesis using 1(2)[OF _ _ one_frame(3)] 1(3) by (simp add: feed_loop_frame accept_frame_error)
  qed (use 1(1,3) in \<open>simp_all add: feed_loop_none feed_loop_empty feed_loop_long\<close>)
qed

lemma first_frame_append: "newline \<in> set a \<Longrightarrow> first_frame (a @ b) = first_frame a"
  by (simp add: first_frame_def takeWhile_append1)

lemma after_frame_append: "newline \<in> set a \<Longrightarrow> after_frame (a @ b) = after_frame a @ b"
proof -
  assume a: "newline \<in> set a"
  then have "dropWhile (\<lambda>c. c \<noteq> newline) a \<noteq> []" by (auto simp: dropWhile_eq_Nil_conv)
  then show ?thesis using a by (simp add: after_frame_def dropWhile_append1)
qed

lemma feed_loop_append:
  "map_option reader_view (feed_loop jc st (a @ b)) =
   map_option reader_view (case feed_loop jc st a of None \<Rightarrow> None | Some s \<Rightarrow> feed_loop jc s (lf_buffer s @ b))"
proof (induction jc st a rule: feed_loop.induct)
  case (1 jc st a)
  show ?case
  proof (cases "newline \<in> set a")
    case False
    then have "feed_loop jc st a = Some (st\<lparr>lf_buffer := a\<rparr>)" by (subst feed_loop.simps) simp
    then show ?thesis by (simp add: feed_loop_buffer)
  next
    case nl: True
    note app = first_frame_append[OF nl, of b] after_frame_append[OF nl, of b]
    show ?thesis
    proof (cases "first_frame a \<noteq> [] \<and> length (first_frame a) > max_frame")
      case True
      define s where "s = st\<lparr>lf_error := Some Too_long, lf_buffer := after_frame a\<rparr>"
      have l: "feed_loop jc st a = Some s" using True nl by (subst feed_loop.simps) (simp add: s_def)
      have "feed_loop jc st (a @ b) = Some (st\<lparr>lf_error := Some Too_long, lf_buffer := after_frame a @ b\<rparr>)"
        using True nl app by (subst feed_loop.simps) simp
      moreover obtain x where "feed_loop jc s (lf_buffer s @ b) = Some (s\<lparr>lf_buffer := x\<rparr>)"
        using feed_loop_too_long[of s jc "lf_buffer s @ b"] by (auto simp: s_def)
      ultimately show ?thesis using l by (simp add: reader_view_def s_def)
    next
      case False
      show ?thesis
      proof (cases "first_frame a = []")
        case True
        then show ?thesis using nl app 1(1)[OF _ True] by (simp add: feed_loop_empty)
      next
        case ne: False
        then have "\<not> length (first_frame a) > max_frame" using False by blast
        then show ?thesis using nl ne app 1(2)[OF _ ne]
          by (cases "accept_frame jc (first_frame a) st") (simp_all add: feed_loop_frame)
      qed
    qed
  qed
qed

lemma feed_end_error: "lf_error u = Some e \<Longrightarrow> feed_end eof u = u\<lparr>lf_commit := False\<rparr>"
  by (simp add: feed_end_def Let_def)

lemma reader_view_error: "lf_error u = Some e \<Longrightarrow> reader_view u = u\<lparr>lf_buffer := []\<rparr>"
  by (simp add: reader_view_def)

lemma reader_view_feed_end: "reader_view s = reader_view t \<Longrightarrow> reader_view (feed_end eof s) = reader_view (feed_end eof t)"
proof (cases "lf_error s = None")
  case True
  assume "reader_view s = reader_view t"
  then have "s = t" using True by (cases "lf_error t") (auto simp: reader_view_def)
  then show ?thesis by simp
next
  case False
  assume eq: "reader_view s = reader_view t"
  then obtain e e' where e: "lf_error s = Some e" "lf_error t = Some e'"
    using False by (auto simp: reader_view_def split: if_splits)
  have c: "reader_view (feed_end eof u) = (reader_view u)\<lparr>lf_commit := False\<rparr>" if "lf_error u = Some x" for u x
  proof -
    have "lf_error (u\<lparr>lf_commit := False\<rparr>) = Some x" using that by simp
    from reader_view_error[OF this] show ?thesis by (simp add: feed_end_error[OF that] reader_view_error[OF that])
  qed
  show ?thesis unfolding c[OF e(1)] c[OF e(2)] eq ..
qed

lemma map_reader_view_feed_end:
  "map_option reader_view x = map_option reader_view y \<Longrightarrow>
   map_option reader_view (map_option (feed_end eof) x) = map_option reader_view (map_option (feed_end eof) y)"
  by (cases x; cases y) (auto intro: reader_view_feed_end)

text \<open>The checks at the end of a chunk change nothing that a longer chunk would not also do.\<close>

lemma feed_end_absorbed:
  assumes "lf_error s = None \<longrightarrow> newline \<notin> set (lf_buffer s)"
  shows "map_option reader_view (map_option (feed_end eof) (feed_loop jc (feed_end False s) (lf_buffer s @ b))) =
         map_option reader_view (map_option (feed_end eof) (feed_loop jc s (lf_buffer s @ b)))"
proof (cases "lf_error s")
  case (Some e)
  have "feed_end False s = s\<lparr>lf_commit := False\<rparr>" using Some by (simp add: feed_end_def Let_def)
  moreover obtain t e' where t: "feed_loop jc s (lf_buffer s @ b) = Some t" "lf_error t = Some e'"
      "feed_loop jc (s\<lparr>lf_commit := False\<rparr>) (lf_buffer s @ b) = Some (t\<lparr>lf_commit := False\<rparr>)"
    using feed_loop_commit[of s jc "lf_buffer s @ b"] Some by auto
  moreover have "lf_error (t\<lparr>lf_commit := False\<rparr>) = Some e'" using t(2) by simp
  ultimately show ?thesis by (simp add: feed_end_error)
next
  case None
  show ?thesis
  proof (cases "length (lf_buffer s) > max_frame")
    case False
    then have "feed_end False s = s" using None
      by (simp add: feed_end_def Let_def lifecycle_ok_def)
    then show ?thesis by simp
  next
    case True
    have nl: "newline \<notin> set (lf_buffer s)" using assms None by blast
    define t where "t = s\<lparr>lf_error := Some Too_long, lf_commit := False\<rparr>"
    have t: "feed_end False s = t" using True None by (simp add: feed_end_def Let_def fail_with_def t_def)
    show ?thesis
    proof (cases "newline \<in> set b")
      case False
      then show ?thesis using True None nl unfolding t
        by (simp add: feed_loop_none feed_end_def Let_def fail_with_def reader_view_def t_def)
    next
      case nlb: True
      have "first_frame (lf_buffer s @ b) = lf_buffer s @ first_frame b"
        unfolding first_frame_def by (rule takeWhile_append2) (use nl in auto)
      then have "length (first_frame (lf_buffer s @ b)) > max_frame" using True by simp
      then show ?thesis using nlb unfolding t
        by (simp add: feed_loop_long feed_end_def Let_def reader_view_def t_def)
    qed
  qed
qed

lemma feed_append:
  "map_option reader_view (feed jc (a @ b) eof st) =
   map_option reader_view (case feed jc a False st of None \<Rightarrow> None | Some s \<Rightarrow> feed jc b eof s)"
proof -
  have "map_option reader_view (feed jc (a @ b) eof st) = map_option reader_view (map_option (feed_end eof)
      (case feed_loop jc st (lf_buffer st @ a) of None \<Rightarrow> None | Some s \<Rightarrow> feed_loop jc s (lf_buffer s @ b)))"
    unfolding feed_def append_assoc[symmetric] by (rule map_reader_view_feed_end[OF feed_loop_append])
  also have "\<dots> = map_option reader_view (case feed jc a False st of None \<Rightarrow> None | Some s \<Rightarrow> feed jc b eof s)"
  proof (cases "feed_loop jc st (lf_buffer st @ a)")
    case (Some s)
    have "lf_error s = None \<longrightarrow> newline \<notin> set (lf_buffer s)" by (rule feed_loop_rest[OF Some])
    from feed_end_absorbed[OF this] Some show ?thesis by (simp add: feed_def)
  qed (simp add: feed_def)
  finally show ?thesis .
qed

text \<open>
  The way the pipe splits the bytes of a boot into reads does not matter: feeding the
  chunks one by one ends in the same readiness, process id, stage, commit, reload answers and
  protocol error as feeding all bytes at once, and raises in the same cases.
\<close>

theorem feed_chunks:
  "map_option reader_view (feed_all jc cs (new_lifecycle boot nonce)) =
   map_option reader_view (feed jc (concat cs) False (new_lifecycle boot nonce))"
proof (cases "cs = []")
  case True
  have "(new_lifecycle boot nonce)\<lparr>lf_buffer := []\<rparr> = new_lifecycle boot nonce" by (simp add: new_lifecycle_def)
  then show ?thesis using True by (simp add: feed_def feed_loop_none feed_end_def new_lifecycle_def)
next
  case False
  have "cs \<noteq> [] \<Longrightarrow> map_option reader_view (feed_all jc cs st) = map_option reader_view (feed jc (concat cs) False st)" for st
  proof (induction jc cs st rule: feed_all.induct)
    case (2 jc c cs st)
    show ?case
    proof (cases "cs = []")
      case False
      then show ?thesis using 2 feed_append[of jc c "concat cs" False st] by (auto split: option.splits)
    qed (auto split: option.split)
  qed simp
  then show ?thesis using False by blast
qed

subsection \<open>What is written is understood\<close>

text \<open>The documented behaviour of compact \<open>json.dumps\<close> and \<open>json.loads\<close>: a frame is one
  non-empty line and reads back as itself.\<close>

definition codec_ok :: "json_codec \<Rightarrow> json \<Rightarrow> bool" where
  "codec_ok jc j \<longleftrightarrow> jc_parse jc (jc_dump jc j) = Some j \<and> newline \<notin> set (jc_dump jc j) \<and> jc_dump jc j \<noteq> []"

lemma feed_loop_payload:
  assumes "codec_ok jc (JObj d)" "write_frame jc w (JObj d) = Inr p" "lf_error st = None"
  shows "feed_loop jc st (p @ rest) =
    (case accept_object jc d st of None \<Rightarrow> None | Some st' \<Rightarrow> feed_loop jc st' rest)"
proof -
  define t where "t = jc_dump jc (JObj d)"
  have t: "jc_parse jc t = Some (JObj d)" "newline \<notin> set t" "t \<noteq> []" using assms(1) by (simp_all add: codec_ok_def t_def)
  have p: "p = t @ [newline]" and len: "length p \<le> max_frame"
    using assms(2) by (auto simp: write_frame_def Let_def t_def newline_def split: if_splits)
  have tw: "takeWhile (\<lambda>c. c \<noteq> newline) t = t" "dropWhile (\<lambda>c. c \<noteq> newline) t = []"
    using t(2) by (auto simp: takeWhile_eq_all_conv dropWhile_eq_Nil_conv)
  have f: "first_frame (p @ rest) = t" "after_frame (p @ rest) = rest" "newline \<in> set (p @ rest)"
    using t(2) unfolding p first_frame_def after_frame_def
    by (simp_all add: takeWhile_append dropWhile_append tw)
  have len_t: "\<not> length t > max_frame" using len p by simp
  from feed_loop_frame[of "p @ rest" jc st, unfolded f(1,2), OF f(3) t(3) len_t] show ?thesis
    using t(1) assms(3) by (simp add: accept_frame_def)
qed

text \<open>
  The restart handshake goes through: when a boot's channel writes a stage, its process id
  and a restart commit, and the supervisor reads all of it up to the
  end of the pipe, it holds a valid commit without protocol error and starts the next boot.
\<close>

theorem restart_handshake:
  assumes "codec_ok jc (stage_frame ch (py_strip name) ms)" "codec_ok jc (ready_frame ch pid)"
    and "codec_ok jc (commit_frame ch request)" "is_ascii (ch_nonce ch)" "0 \<le> ms"
    and "stage jc w ch name ms = Inr p1" "ready jc w ch pid = Inr p2"
    and "commit_restart jc w ch (ch_boot ch) request = Inr p3" "prefix ''restart_'' request"
  shows "\<exists>st. feed jc (p1 @ p2 @ p3) True (new_lifecycle (ch_boot ch) (ch_nonce ch)) = Some st \<and>
    lf_commit st \<and> lf_error st = None \<and> lf_pid st = Some pid \<and> lf_stage st = py_strip name \<and>
    boot_verdict 75 st g rb = Restart_with g"
proof -
  define st0 where "st0 = new_lifecycle (ch_boot ch) (ch_nonce ch)"
  define st1 where "st1 = st0\<lparr>lf_stage := py_strip name, lf_elapsed := ms\<rparr>"
  define st2 where "st2 = st1\<lparr>lf_ready := True, lf_pid := Some pid\<rparr>"
  define st3 where "st3 = st2\<lparr>lf_commit := True\<rparr>"
  have strip: "py_strip (py_strip name) \<noteq> []" if "py_strip name \<noteq> []"
    using that by (simp add: py_strip_idem)
  have n: "py_strip name \<noteq> []" "write_frame jc w (stage_frame ch (py_strip name) ms) = Inr p1"
    using assms(6) by (auto simp: stage_def split: if_splits)
  have q: "pid > 0" "write_frame jc w (ready_frame ch pid) = Inr p2"
    using assms(7) by (auto simp: ready_def split: if_splits)
  have c: "write_frame jc w (commit_frame ch request) = Inr p3"
    using assms(8) by (simp add: commit_restart_def)
  have "feed_loop jc st0 (p1 @ p2 @ p3) = feed_loop jc st1 (p2 @ p3)"
    using feed_loop_payload[OF assms(1)[unfolded stage_frame_def] n(2)[unfolded stage_frame_def], of st0 "p2 @ p3"] n strip assms(5)
    by (simp add: st0_def st1_def new_lifecycle_def accept_object_def accept_stage_def json_field_def dict_get_def int_like_def)
  also have "\<dots> = feed_loop jc st2 p3"
    using feed_loop_payload[OF assms(2)[unfolded ready_frame_def] q(2)[unfolded ready_frame_def], of st1 p3] q
    by (simp add: st0_def st1_def st2_def new_lifecycle_def accept_object_def accept_ready_def json_field_def dict_get_def int_like_def)
  also have "\<dots> = feed_loop jc st3 []"
    using feed_loop_payload[OF assms(3)[unfolded commit_frame_def] c[unfolded commit_frame_def], of st2 "[]"] assms(4,9)
    by (simp add: st0_def st1_def st2_def st3_def new_lifecycle_def accept_object_def accept_commit_def json_field_def
      dict_get_def is_str_def the_str_def nonce_text_def compare_digest_def truthy_def is_ascii_def Let_def)
  also have "\<dots> = Some (st3\<lparr>lf_buffer := []\<rparr>)" by (simp add: feed_loop_none)
  finally have "feed jc (p1 @ p2 @ p3) True st0 = Some (feed_end True (st3\<lparr>lf_buffer := []\<rparr>))"
    by (simp add: feed_def st0_def new_lifecycle_def)
  moreover have "feed_end True (st3\<lparr>lf_buffer := []\<rparr>) = st3\<lparr>lf_buffer := []\<rparr>"
    by (simp add: feed_end_def Let_def st3_def st2_def st1_def st0_def new_lifecycle_def)
  ultimately show ?thesis
    by (auto simp: st0_def st1_def st2_def st3_def new_lifecycle_def boot_verdict_def restart_exit_code_def)
qed

definition demo_channel :: pipe_channel where
  "demo_channel = \<lparr>ch_boot = ''boot1'', ch_nonce = replicate 32 CHR ''n''\<rparr>"

definition demo_jc :: json_codec where
  "demo_jc = \<lparr>
     jc_dump = (\<lambda>j. if j = stage_frame demo_channel ''core'' 12 then ''S''
       else if j = ready_frame demo_channel 4711 then ''R''
       else if j = commit_frame demo_channel ''restart_1'' then ''C'' else ''?''),
     jc_parse = (\<lambda>t. if t = ''S'' then Some (stage_frame demo_channel ''core'' 12)
       else if t = ''R'' then Some (ready_frame demo_channel 4711)
       else if t = ''C'' then Some (commit_frame demo_channel ''restart_1'') else None),
     jc_str = (\<lambda>j. ''?'')\<rparr>"

theorem restart_handshake_witness:
  "\<exists>st. feed demo_jc (''S'' @ [newline] @ ''R'' @ [newline] @ ''C'' @ [newline]) True (new_lifecycle ''boot1'' (replicate 32 CHR ''n'')) = Some st \<and>
     lf_commit st \<and> lf_error st = None \<and> lf_pid st = Some 4711 \<and> lf_stage st = ''core'' \<and>
     boot_verdict 75 st 0 0 = Restart_with 0"
proof -
  have strip: "py_strip ''core'' = ''core''" by code_simp
  have p: "stage demo_jc id demo_channel ''core'' 12 = Inr (''S'' @ [newline])"
      "ready demo_jc id demo_channel 4711 = Inr (''R'' @ [newline])"
      "commit_restart demo_jc id demo_channel (ch_boot demo_channel) ''restart_1'' = Inr (''C'' @ [newline])"
    by code_simp+
  have h: "codec_ok demo_jc (stage_frame demo_channel (py_strip ''core'') 12)" "codec_ok demo_jc (ready_frame demo_channel 4711)"
      "codec_ok demo_jc (commit_frame demo_channel ''restart_1'')" "is_ascii (ch_nonce demo_channel)"
      "prefix ''restart_'' ''restart_1''" by code_simp+
  show ?thesis
    using restart_handshake[OF h(1-4) _ p h(5), of 0 0] strip by (simp add: demo_channel_def)
qed

theorem lifecycle_typed_witness:
  "lifecycle_ok (the (feed demo_jc [newline] True (the (feed_all demo_jc [''S'' @ [newline], ''R'']
     (new_lifecycle ''boot1'' (replicate 32 CHR ''n''))))))"
proof -
  define st where "st = the (feed_all demo_jc [''S'' @ [newline], ''R''] (new_lifecycle ''boot1'' (replicate 32 CHR ''n'')))"
  have "Option.is_none (feed_all demo_jc [''S'' @ [newline], ''R''] (new_lifecycle ''boot1'' (replicate 32 CHR ''n''))) = False"
      "Option.is_none (feed demo_jc [newline] True (the (feed_all demo_jc [''S'' @ [newline], ''R'']
        (new_lifecycle ''boot1'' (replicate 32 CHR ''n''))))) = False" by code_simp+
  then have h: "feed_all demo_jc [''S'' @ [newline], ''R''] (new_lifecycle ''boot1'' (replicate 32 CHR ''n'')) = Some st"
      "feed demo_jc [newline] True st = Some (the (feed demo_jc [newline] True st))"
    unfolding st_def by (metis not_is_none_the)+
  show ?thesis unfolding st_def[symmetric] by (rule lifecycle_typed[OF h])
qed

end
