(* ===== verification/Restart.thy ===== *)
theory Restart
  imports Lifecycle_Pipe
begin

text \<open>
  The restart coordinator of agent/restart.py (lines 14--39 and 143--327): one request at a
  time freezes the admission of new turns, waits for its turn to complete and for the final
  answer to be written out, commits through the private pipe, and otherwise thaws admission.
  The log of the state records the calls the coordinator makes and the two reports it waits
  for, in order.
\<close>

datatype restart_state = Idle | Armed | Waiting_delivery | Committed | Cancelled

record restart_request =
  rq_id :: string
  rq_boot :: string
  rq_turn :: string
  rq_session :: string
  rq_channel :: string
  rq_chat :: string
  rq_reason :: string

datatype restart_error = Blank_boot | Bad_timeout | Unpaired_commit | Already_bound
  | Not_supervised | Not_bound | Bad_reason | No_context | Other_pending string | Quiesce_raised
  | No_request

datatype restart_event = Quiesce string | Resume string | Commit restart_request
  | Turn_completed string | Delivered string

record coordinator =
  rc_boot :: string
  rc_supervised :: bool
  rc_bound :: bool
  rc_state :: restart_state
  rc_pending :: "restart_request option"
  rc_error :: "string option"
  rc_completed :: bool
  rc_delivered :: bool
  rc_committed :: bool
  rc_timer :: "string option"
  rc_timeout_text :: string
  rc_log :: "restart_event list"

text \<open>\<open>commit_given\<close>: a commit function was passed; the text is that of the timeout error.\<close>

definition new_coordinator :: "string \<Rightarrow> bool \<Rightarrow> bool \<Rightarrow> bool \<Rightarrow> string \<Rightarrow> restart_error + coordinator" where
  "new_coordinator boot supervised commit_given timeout_positive timeout_text =
     (if py_strip boot = [] then Inl Blank_boot
      else if \<not> timeout_positive then Inl Bad_timeout
      else if supervised \<noteq> commit_given then Inl Unpaired_commit
      else Inr \<lparr>rc_boot = boot, rc_supervised = supervised, rc_bound = False, rc_state = Idle,
        rc_pending = None, rc_error = None, rc_completed = False, rc_delivered = False,
        rc_committed = False, rc_timer = None, rc_timeout_text = timeout_text, rc_log = []\<rparr>)"

definition bind_admission :: "coordinator \<Rightarrow> restart_error + coordinator" where
  "bind_admission s = (if rc_bound s then Inl Already_bound else Inr (s\<lparr>rc_bound := True\<rparr>))"

definition record_event :: "restart_event \<Rightarrow> coordinator \<Rightarrow> coordinator" where
  "record_event e s = s\<lparr>rc_log := rc_log s @ [e]\<rparr>"

text \<open>\<open>new_id\<close> is the fresh id of the request, \<open>quiesced\<close> whether the admission could be frozen.\<close>

definition arm :: "string \<Rightarrow> bool \<Rightarrow> string \<Rightarrow> string \<Rightarrow> string \<Rightarrow> string \<Rightarrow> string \<Rightarrow> coordinator \<Rightarrow>
    (restart_error + restart_request) \<times> coordinator" where
  "arm new_id quiesced turn session channel chat reason s =
     (let clean = py_strip reason in
      if \<not> rc_supervised s then (Inl Not_supervised, s)
      else if \<not> rc_bound s then (Inl Not_bound, s)
      else if \<not> (1 \<le> length clean \<and> length clean \<le> 300) then (Inl Bad_reason, s)
      else if turn = [] \<or> session = [] \<or> channel = [] \<or> chat = [] then (Inl No_context, s)
      else case rc_pending s of
        Some p \<Rightarrow> if rq_turn p = turn then (Inr p, s) else (Inl (Other_pending (rq_id p)), s)
      | None \<Rightarrow>
          if \<not> quiesced then (Inl Quiesce_raised, s)
          else (let request = \<lparr>rq_id = ''restart_'' @ new_id, rq_boot = rc_boot s, rq_turn = turn,
                  rq_session = session, rq_channel = channel, rq_chat = chat, rq_reason = clean\<rparr> in
            (Inr request, (record_event (Quiesce turn) s)\<lparr>rc_pending := Some request, rc_state := Armed,
               rc_error := None, rc_completed := False, rc_delivered := False,
               rc_timer := Some (rq_id request)\<rparr>)))"

definition cancel_restart :: "string \<Rightarrow> coordinator \<Rightarrow> coordinator" where
  "cancel_restart reason s = (case rc_pending s of None \<Rightarrow> s
     | Some p \<Rightarrow> record_event (Resume (rq_turn p)) (s\<lparr>rc_timer := None, rc_state := Cancelled,
         rc_error := Some reason, rc_pending := None, rc_completed := False, rc_delivered := False\<rparr>))"

text \<open>\<open>fault\<close>: the text of the exception the commit raised, if it did.\<close>

definition commit_if_ready :: "string option \<Rightarrow> coordinator \<Rightarrow> coordinator" where
  "commit_if_ready fault s =
     (if rc_state s = Committed \<or> \<not> rc_completed s \<or> \<not> rc_delivered s then s
      else case rc_pending s of None \<Rightarrow> s
      | Some p \<Rightarrow> (case fault of
            Some t \<Rightarrow> cancel_restart (''supervisor commit failed: '' @ t) s
          | None \<Rightarrow> (record_event (Commit p) s)\<lparr>rc_state := Committed, rc_timer := None, rc_committed := True\<rparr>))"

definition for_turn :: "string \<Rightarrow> coordinator \<Rightarrow> bool" where
  "for_turn turn s \<longleftrightarrow> rc_state s \<noteq> Committed \<and> (case rc_pending s of None \<Rightarrow> False | Some p \<Rightarrow> rq_turn p = turn)"

definition mark_turn_terminal :: "string \<Rightarrow> string \<Rightarrow> string option \<Rightarrow> coordinator \<Rightarrow> coordinator" where
  "mark_turn_terminal turn status fault s =
     (if \<not> for_turn turn s then s
      else if status \<noteq> ''completed'' then cancel_restart (''restart caller turn ended as '' @ status) s
      else commit_if_ready fault ((record_event (Turn_completed turn) s)
        \<lparr>rc_completed := True, rc_state := Waiting_delivery\<rparr>))"

definition mark_delivered :: "string \<Rightarrow> string option \<Rightarrow> coordinator \<Rightarrow> coordinator" where
  "mark_delivered turn fault s =
     (if \<not> for_turn turn s then s
      else commit_if_ready fault ((record_event (Delivered turn) s)\<lparr>rc_delivered := True\<rparr>))"

definition mark_delivery_failed :: "string \<Rightarrow> string \<Rightarrow> coordinator \<Rightarrow> coordinator" where
  "mark_delivery_failed turn reason s =
     (if \<not> for_turn turn s then s else cancel_restart (''restart response delivery failed: '' @ reason) s)"

text \<open>The watchdog whose sleep ended; a cancelled watchdog never gets here.\<close>

definition delivery_watchdog :: "string \<Rightarrow> coordinator \<Rightarrow> coordinator" where
  "delivery_watchdog request s =
     (if rc_timer s \<noteq> Some request then s
      else case rc_pending s of None \<Rightarrow> s
      | Some p \<Rightarrow> if rq_id p \<noteq> request then s else cancel_restart (rc_timeout_text s) s)"

definition wait_committed :: "coordinator \<Rightarrow> (restart_error + restart_request) option" where
  "wait_committed s = (if \<not> rc_committed s then None
     else case rc_pending s of
       Some p \<Rightarrow> if rc_state s = Committed then Some (Inr p) else Some (Inl No_request)
     | None \<Rightarrow> Some (Inl No_request))"

datatype restart_cmd =
    Bind
  | Arm string bool string string string string string
  | Terminal string string "string option"
  | Written string "string option"
  | Write_failed string string
  | Watchdog string

definition restart_exec :: "restart_cmd \<Rightarrow> coordinator \<Rightarrow> coordinator" where
  "restart_exec c s = (case c of
     Bind \<Rightarrow> (case bind_admission s of Inl e \<Rightarrow> s | Inr s' \<Rightarrow> s')
   | Arm new_id q turn session channel chat reason \<Rightarrow> snd (arm new_id q turn session channel chat reason s)
   | Terminal turn status fault \<Rightarrow> mark_turn_terminal turn status fault s
   | Written turn fault \<Rightarrow> mark_delivered turn fault s
   | Write_failed turn reason \<Rightarrow> mark_delivery_failed turn reason s
   | Watchdog request \<Rightarrow> delivery_watchdog request s)"

inductive restart_reachable :: "coordinator \<Rightarrow> bool" where
  restart_new: "new_coordinator boot owned given pos label = Inr s \<Longrightarrow> restart_reachable s"
| restart_step: "restart_reachable s \<Longrightarrow> restart_reachable (restart_exec c s)"

subsection \<open>What the log says\<close>

text \<open>The turn that froze the admission and has not thawed it, the reports that came since then,
  and the request that was committed.\<close>

fun frozen_by :: "restart_event list \<Rightarrow> string option \<Rightarrow> string option" where
  "frozen_by [] t = t"
| "frozen_by (Quiesce x # es) t = frozen_by es (Some x)"
| "frozen_by (Resume x # es) t = frozen_by es None"
| "frozen_by (_ # es) t = frozen_by es t"

definition commits :: "restart_event list \<Rightarrow> restart_request list" where
  "commits es = concat (map (\<lambda>e. case e of Commit p \<Rightarrow> [p] | _ \<Rightarrow> []) es)"

definition since_quiesce :: "restart_event list \<Rightarrow> restart_event list" where
  "since_quiesce es = rev (takeWhile (\<lambda>e. case e of Quiesce t \<Rightarrow> False | _ \<Rightarrow> True) (rev es))"

lemma frozen_by_append [simp]: "frozen_by (es @ fs) t = frozen_by fs (frozen_by es t)"
  by (induction es t rule: frozen_by.induct) auto

lemma commits_append [simp]: "commits (es @ fs) = commits es @ commits fs"
  by (simp add: commits_def)

lemma since_quiesce_snoc:
  "since_quiesce (es @ [e]) = (case e of Quiesce t \<Rightarrow> [] | _ \<Rightarrow> since_quiesce es @ [e])"
  by (cases e) (simp_all add: since_quiesce_def)

definition report_inv :: "coordinator \<Rightarrow> restart_request \<Rightarrow> bool" where
  "report_inv s p \<longleftrightarrow> rq_boot p = rc_boot s \<and> prefix ''restart_'' (rq_id p) \<and>
     (rc_completed s \<longrightarrow> Turn_completed (rq_turn p) \<in> set (since_quiesce (rc_log s))) \<and>
     (rc_delivered s \<longrightarrow> Delivered (rq_turn p) \<in> set (since_quiesce (rc_log s)))"

definition restart_inv :: "coordinator \<Rightarrow> bool" where
  "restart_inv s \<longleftrightarrow> frozen_by (rc_log s) None = map_option rq_turn (rc_pending s) \<and>
     (rc_pending s = None \<longleftrightarrow> rc_state s \<in> {Idle, Cancelled}) \<and>
     (rc_pending s \<noteq> None \<longrightarrow> rc_supervised s \<and> rc_bound s) \<and>
     (rc_timer s = (if rc_state s = Committed then None else map_option rq_id (rc_pending s))) \<and>
     (rc_state s = Armed \<longrightarrow> \<not> rc_completed s) \<and> (rc_state s = Waiting_delivery \<longrightarrow> rc_completed s \<and> \<not> rc_delivered s) \<and>
     (rc_committed s \<longleftrightarrow> rc_state s = Committed) \<and>
     commits (rc_log s) = (if rc_state s = Committed then [the (rc_pending s)] else []) \<and>
     (\<forall>p. rc_pending s = Some p \<longrightarrow> report_inv s p \<and>
        (rc_state s = Committed \<longrightarrow> rc_completed s \<and> rc_delivered s))"

lemma cancel_restart_inv: "restart_inv s \<Longrightarrow> rc_state s \<noteq> Committed \<Longrightarrow> restart_inv (cancel_restart r s)"
  by (auto simp: restart_inv_def cancel_restart_def record_event_def commits_def split: option.splits)

lemma for_turnE:
  assumes "for_turn turn s"
  obtains p where "rc_pending s = Some p" "rq_turn p = turn" "rc_state s \<noteq> Committed"
  using assms by (auto simp: for_turn_def split: option.splits)

text \<open>A report of the pending turn, recorded before the readiness check.\<close>

definition reported :: "coordinator \<Rightarrow> bool" where
  "reported s \<longleftrightarrow> rc_pending s \<noteq> None \<and> rc_state s \<in> {Armed, Waiting_delivery} \<and>
     frozen_by (rc_log s) None = map_option rq_turn (rc_pending s) \<and> rc_supervised s \<and> rc_bound s \<and>
     rc_timer s = map_option rq_id (rc_pending s) \<and> \<not> rc_committed s \<and> commits (rc_log s) = [] \<and>
     (rc_completed s \<longleftrightarrow> rc_state s = Waiting_delivery) \<and> report_inv s (the (rc_pending s))"

lemma commit_if_ready_inv:
  assumes "reported s"
  shows "restart_inv (commit_if_ready fault s)"
proof -
  obtain p where p: "rc_pending s = Some p" using assms by (auto simp: reported_def)
  show ?thesis
    using assms p unfolding commit_if_ready_def
    by (cases fault)
      (auto simp: reported_def restart_inv_def cancel_restart_def record_event_def commits_def report_inv_def since_quiesce_snoc)
qed

lemma reported_frozen:
  assumes "restart_inv s" "for_turn turn s"
  shows "reported ((record_event (Turn_completed turn) s)\<lparr>rc_completed := True, rc_state := Waiting_delivery\<rparr>)"
    and "reported ((record_event (Delivered turn) s)\<lparr>rc_delivered := True\<rparr>)"
proof -
  obtain p where p: "rc_pending s = Some p" "rq_turn p = turn" "rc_state s \<noteq> Committed" using for_turnE[OF assms(2)] .
  then have st: "rc_state s = Armed \<or> rc_state s = Waiting_delivery"
    using assms(1) by (cases "rc_state s") (auto simp: restart_inv_def)
  show "reported ((record_event (Turn_completed turn) s)\<lparr>rc_completed := True, rc_state := Waiting_delivery\<rparr>)"
    using assms(1) p by (auto simp: reported_def restart_inv_def report_inv_def record_event_def since_quiesce_snoc commits_def)
  show "reported ((record_event (Delivered turn) s)\<lparr>rc_delivered := True\<rparr>)"
    using assms(1) p st by (auto simp: reported_def restart_inv_def report_inv_def record_event_def since_quiesce_snoc commits_def)
qed

lemma arm_inv:
  assumes "restart_inv s"
  shows "restart_inv (snd (arm new_id q turn session channel chat reason s))"
proof (cases "rc_pending s")
  case None
  then have log: "commits (rc_log s) = []" "\<not> rc_committed s" using assms by (auto simp: restart_inv_def)
  define p where "p = \<lparr>rq_id = ''restart_'' @ new_id, rq_boot = rc_boot s, rq_turn = turn,
      rq_session = session, rq_channel = channel, rq_chat = chat, rq_reason = py_strip reason\<rparr>"
  define s' where "s' = (record_event (Quiesce turn) s)\<lparr>rc_pending := Some p, rc_state := Armed,
      rc_error := None, rc_completed := False, rc_delivered := False, rc_timer := Some (rq_id p)\<rparr>"
  have "snd (arm new_id q turn session channel chat reason s) =
      (if rc_supervised s \<and> rc_bound s \<and> 1 \<le> length (py_strip reason) \<and> length (py_strip reason) \<le> 300 \<and>
          turn \<noteq> [] \<and> session \<noteq> [] \<and> channel \<noteq> [] \<and> chat \<noteq> [] \<and> q then s' else s)"
    unfolding arm_def Let_def p_def[symmetric] s'_def[symmetric] by (simp add: None)
  moreover have "rc_supervised s \<and> rc_bound s \<Longrightarrow> restart_inv s'"
    using log by (simp add: restart_inv_def s'_def record_event_def report_inv_def p_def commits_def)
  ultimately show ?thesis using assms by simp
next
  case (Some p)
  then have "snd (arm new_id q turn session channel chat reason s) = s" by (simp add: arm_def Let_def)
  then show ?thesis using assms by simp
qed

lemma restart_exec_inv:
  assumes "restart_inv s"
  shows "restart_inv (restart_exec c s)"
proof (cases c)
  case Bind
  then show ?thesis using assms by (auto simp: restart_exec_def bind_admission_def restart_inv_def report_inv_def)
next
  case (Terminal turn status fault)
  then show ?thesis using assms commit_if_ready_inv[OF reported_frozen(1)[OF assms]] cancel_restart_inv[OF assms]
    by (auto simp: restart_exec_def mark_turn_terminal_def for_turn_def)
next
  case (Written turn fault)
  then show ?thesis using assms commit_if_ready_inv[OF reported_frozen(2)[OF assms]]
    by (auto simp: restart_exec_def mark_delivered_def)
next
  case (Write_failed turn reason)
  then show ?thesis using assms cancel_restart_inv[OF assms]
    by (auto simp: restart_exec_def mark_delivery_failed_def for_turn_def)
next
  case (Watchdog request)
  have "rc_timer s = Some request \<Longrightarrow> rc_state s \<noteq> Committed" using assms by (auto simp: restart_inv_def)
  then show ?thesis using assms cancel_restart_inv[OF assms] Watchdog
    by (auto simp: restart_exec_def delivery_watchdog_def split: option.split)
qed (use assms arm_inv in \<open>simp_all add: restart_exec_def\<close>)

lemma restart_reachable_inv: "restart_reachable s \<Longrightarrow> restart_inv s"
proof (induction rule: restart_reachable.induct)
  case (restart_new boot owned given pos label s)
  then show ?case by (auto simp: new_coordinator_def restart_inv_def commits_def split: if_splits)
qed (rule restart_exec_inv)

lemma commits_mem: "Commit p \<in> set es \<Longrightarrow> p \<in> set (commits es)"
  by (force simp: commits_def)

lemma committed_stays: "rc_state s = Committed \<Longrightarrow> rc_timer s = None \<Longrightarrow> rc_pending s = Some p \<Longrightarrow>
    rc_state (restart_exec c s) = Committed \<and> rc_log (restart_exec c s) = rc_log s"
  by (cases c) (simp_all add: restart_exec_def bind_admission_def arm_def Let_def mark_turn_terminal_def
      mark_delivered_def mark_delivery_failed_def for_turn_def delivery_watchdog_def)

text \<open>
  C12. A restart is committed at most once, and only for the pending request of this boot, after
  its turn completed and its final answer was written out, both reported since admission was
  frozen for that turn; from then on admission stays frozen and nothing changes any more.
\<close>

theorem restart_commit_safe:
  assumes "restart_reachable s" "Commit p \<in> set (rc_log s)"
  shows "commits (rc_log s) = [p] \<and> rc_pending s = Some p \<and> rq_boot p = rc_boot s \<and>
    Turn_completed (rq_turn p) \<in> set (since_quiesce (rc_log s)) \<and>
    Delivered (rq_turn p) \<in> set (since_quiesce (rc_log s)) \<and>
    frozen_by (rc_log s) None = Some (rq_turn p) \<and> wait_committed s = Some (Inr p) \<and>
    rc_state (restart_exec c s) = Committed \<and> rc_log (restart_exec c s) = rc_log s"
proof -
  note inv = restart_reachable_inv[OF assms(1)]
  have st: "rc_state s = Committed" "rc_pending s = Some p" "rc_committed s" "rc_timer s = None"
    using inv commits_mem[OF assms(2)] by (auto simp: restart_inv_def split: if_splits)
  then show ?thesis using inv committed_stays[OF st(1,4,2), of c]
    by (auto simp: restart_inv_def report_inv_def wait_committed_def)
qed

text \<open>
  C13. Admission is frozen exactly while a request is pending, for its turn; and a pending request
  that does not commit always thaws it: its watchdog is armed, and when it fires the request is
  cancelled with admission resumed and a new request can be armed.
\<close>

theorem restart_thaws:
  assumes "restart_reachable s"
  shows "frozen_by (rc_log s) None = map_option rq_turn (rc_pending s) \<and>
    (rc_pending s = Some p \<and> rc_state s \<noteq> Committed \<longrightarrow> rc_timer s = Some (rq_id p) \<and>
      (let s' = delivery_watchdog (rq_id p) s in
         rc_pending s' = None \<and> rc_state s' = Cancelled \<and> frozen_by (rc_log s') None = None \<and>
         isl (fst (arm i True ''t2'' ''k'' ''c'' ''d'' ''again'' s')) = False))"
proof -
  note inv = restart_reachable_inv[OF assms]
  have r: "py_strip ''again'' = ''again''" by code_simp
  have "rc_timer s = Some (rq_id p) \<and> rc_supervised s \<and> rc_bound s" if "rc_pending s = Some p" "rc_state s \<noteq> Committed"
    using inv that by (auto simp: restart_inv_def)
  then show ?thesis using inv
    by (auto simp: restart_inv_def delivery_watchdog_def cancel_restart_def record_event_def arm_def Let_def r)
qed

definition demo_restart :: "restart_cmd list \<Rightarrow> coordinator" where
  "demo_restart cs = foldl (\<lambda>s c. restart_exec c s) (projr (new_coordinator ''b1'' True True True ''late'')) cs"

lemma demo_restart_reachable: "restart_reachable (demo_restart cs)"
proof -
  have "restart_reachable s \<Longrightarrow> restart_reachable (foldl (\<lambda>s c. restart_exec c s) s cs)" for s
    by (induction cs arbitrary: s) (auto intro: restart_step)
  moreover have "new_coordinator ''b1'' True True True ''late'' = Inr (projr (new_coordinator ''b1'' True True True ''late''))"
    by (simp add: new_coordinator_def py_strip_def is_space_def)
  ultimately show ?thesis unfolding demo_restart_def by (blast intro: restart_new)
qed

theorem restart_commit_safe_witness:
  "\<exists>p. Commit p \<in> set (rc_log (demo_restart [Bind, Arm ''1'' True ''t1'' ''k'' ''c'' ''d'' ''update'',
      Written ''t1'' None, Terminal ''t1'' ''completed'' None])) \<and> rq_turn p = ''t1'' \<and>
    wait_committed (demo_restart [Bind, Arm ''1'' True ''t1'' ''k'' ''c'' ''d'' ''update'',
      Written ''t1'' None, Terminal ''t1'' ''completed'' None]) = Some (Inr p)"
proof -
  define cs where "cs = [Bind, Arm ''1'' True ''t1'' ''k'' ''c'' ''d'' ''update'',
      Written ''t1'' None, Terminal ''t1'' ''completed'' None]"
  define p where "p = \<lparr>rq_id = ''restart_1'', rq_boot = ''b1'', rq_turn = ''t1'', rq_session = ''k'',
      rq_channel = ''c'', rq_chat = ''d'', rq_reason = ''update''\<rparr>"
  have "Commit p \<in> set (rc_log (demo_restart cs))" unfolding p_def cs_def by code_simp
  from this restart_commit_safe[OF demo_restart_reachable this] show ?thesis
    unfolding cs_def[symmetric] by (auto simp: p_def)
qed

theorem restart_thaws_witness:
  "frozen_by (rc_log (demo_restart [Bind, Arm ''1'' True ''t1'' ''k'' ''c'' ''d'' ''update''])) None = Some ''t1'' \<and>
   rc_pending (delivery_watchdog ''restart_1'' (demo_restart [Bind, Arm ''1'' True ''t1'' ''k'' ''c'' ''d'' ''update''])) = None"
proof -
  define s where "s = demo_restart [Bind, Arm ''1'' True ''t1'' ''k'' ''c'' ''d'' ''update'']"
  define p where "p = \<lparr>rq_id = ''restart_1'', rq_boot = ''b1'', rq_turn = ''t1'', rq_session = ''k'',
      rq_channel = ''c'', rq_chat = ''d'', rq_reason = ''update''\<rparr>"
  have "rc_pending s = Some p" "rc_state s \<noteq> Committed" unfolding s_def p_def by code_simp+
  then show ?thesis
    using restart_thaws[OF demo_restart_reachable, of "[Bind, Arm ''1'' True ''t1'' ''k'' ''c'' ''d'' ''update'']" p "''2''"]
    unfolding s_def[symmetric] by (simp add: p_def Let_def)
qed

end
