(* ===== verification/Reload_Journal.thy ===== *)
theory Reload_Journal
  imports Roxy_Prelude "HOL-Library.Multiset"
begin

text \<open>
  The plugin reload journal of agent/plugins/reload_journal.py and the recovery that the plugin
  manager runs over it at start-up (agent/plugins/manager.py lines 870--1058 and 1077--1098).  The two tables
  are lists in insertion order, with the automatic sequence number of an event as its
  position; each operation is one committed SQL transaction.
\<close>

datatype phase = Preparing | Prepared | Validating | Commit_started | Latest_ready | Discarding
  | Promoting | Phase_committed | Draining | Complete | Aborted | Recovered

datatype recovery_action = Discard_candidate | Restore_candidate | Restore_committed

definition terminal_phases :: "phase list" where
  "terminal_phases = [Complete, Aborted, Recovered]"

fun transitions :: "phase \<Rightarrow> phase list" where
  "transitions Preparing = [Prepared, Aborted]"
| "transitions Prepared = [Validating, Aborted]"
| "transitions Validating = [Commit_started, Aborted]"
| "transitions Commit_started = [Latest_ready, Phase_committed, Aborted, Recovered]"
| "transitions Latest_ready = [Discarding, Promoting, Aborted, Recovered]"
| "transitions Discarding = [Aborted]"
| "transitions Promoting = [Discarding, Phase_committed, Aborted, Recovered]"
| "transitions Phase_committed = [Draining, Complete, Recovered]"
| "transitions Draining = [Complete, Recovered]"
| "transitions _ = []"

record reload_row =
  rl_tx :: string
  rl_plugin :: string
  rl_base :: "string option"
  rl_candidate :: "string option"
  rl_generation :: string
  rl_source :: string
  rl_config :: string
  rl_phase :: phase
  rl_started :: string
  rl_updated :: string
  rl_error :: string

record reload_event =
  ev_sequence :: nat
  ev_tx :: string
  ev_phase :: phase
  ev_details :: "(string, json) dict"
  ev_created :: string

record journal =
  jr_rows :: "reload_row list"
  jr_events :: "reload_event list"

record reload_recovery =
  ra_tx :: string
  ra_plugin :: string
  ra_generation :: string
  ra_source :: string
  ra_phase :: phase
  ra_action :: recovery_action

datatype journal_error = Missing_tx | Duplicate_tx | Bad_jump phase phase
  | Several_open string | Source_mismatch string | Discard_mismatch string | Pointer_fault string
  | Missing_generation string | Stale_generation string | Missing_latest string

definition empty_journal :: journal where
  "empty_journal = \<lparr>jr_rows = [], jr_events = []\<rparr>"

definition find_row :: "journal \<Rightarrow> string \<Rightarrow> reload_row option" where
  "find_row j tx = find (\<lambda>r. rl_tx r = tx) (jr_rows j)"

definition append_event :: "string \<Rightarrow> phase \<Rightarrow> (string, json) dict \<Rightarrow> string \<Rightarrow> journal \<Rightarrow> journal" where
  "append_event tx p details now j = j\<lparr>jr_events := jr_events j @
     [\<lparr>ev_sequence = length (jr_events j) + 1, ev_tx = tx, ev_phase = p, ev_details = details, ev_created = now\<rparr>]\<rparr>"

definition update_row :: "string \<Rightarrow> (reload_row \<Rightarrow> reload_row) \<Rightarrow> journal \<Rightarrow> journal" where
  "update_row tx f j = j\<lparr>jr_rows := map (\<lambda>r. if rl_tx r = tx then f r else r) (jr_rows j)\<rparr>"

text \<open>\<open>tx\<close> is the fresh \<open>uuid4\<close>; the primary key refuses one that is in use.\<close>

definition begin_reload ::
  "string \<Rightarrow> string \<Rightarrow> string \<Rightarrow> string option \<Rightarrow> string \<Rightarrow> string \<Rightarrow> string \<Rightarrow> journal \<Rightarrow> journal_error + journal" where
  "begin_reload tx now plugin base generation source config j =
     (if find_row j tx \<noteq> None then Inl Duplicate_tx
      else Inr (append_event tx Preparing [] now (j\<lparr>jr_rows := jr_rows j @
        [\<lparr>rl_tx = tx, rl_plugin = plugin, rl_base = base, rl_candidate = None, rl_generation = generation,
          rl_source = source, rl_config = config, rl_phase = Preparing, rl_started = now,
          rl_updated = now, rl_error = []\<rparr>]\<rparr>)))"

definition advance_reload ::
  "string \<Rightarrow> phase \<Rightarrow> string option \<Rightarrow> (string, json) dict \<Rightarrow> string \<Rightarrow> string \<Rightarrow> journal \<Rightarrow> journal_error + journal" where
  "advance_reload tx p candidate details err now j =
     (case find_row j tx of None \<Rightarrow> Inl Missing_tx
      | Some row \<Rightarrow>
          if p \<notin> set (transitions (rl_phase row)) then Inl (Bad_jump (rl_phase row) p)
          else Inr (append_event tx p details now (update_row tx (\<lambda>r. r\<lparr>rl_phase := p,
            rl_candidate := (case candidate of Some c \<Rightarrow> Some c | None \<Rightarrow> rl_candidate r),
            rl_updated := now, rl_error := err\<rparr>) j)))"

definition annotate_reload :: "string \<Rightarrow> (string, json) dict \<Rightarrow> string \<Rightarrow> journal \<Rightarrow> journal_error + journal" where
  "annotate_reload tx details now j =
     (case find_row j tx of None \<Rightarrow> Inl Missing_tx
      | Some row \<Rightarrow> Inr (append_event tx (rl_phase row) details now
          (update_row tx (\<lambda>r. r\<lparr>rl_updated := now\<rparr>) j)))"

definition get_reload :: "string \<Rightarrow> journal \<Rightarrow> journal_error + reload_row" where
  "get_reload tx j = (case find_row j tx of None \<Rightarrow> Inl Missing_tx | Some r \<Rightarrow> Inr r)"

text \<open>\<open>ORDER BY updated_at DESC, rowid DESC LIMIT 1\<close>\<close>

definition latest_reload :: "string option \<Rightarrow> journal \<Rightarrow> reload_row option" where
  "latest_reload plugin j =
     (let rows = filter (\<lambda>r. case plugin of None \<Rightarrow> True | Some p \<Rightarrow> rl_plugin r = p) (jr_rows j) in
      if rows = [] then None else Some (last (sort_key rl_updated rows)))"

definition events_of :: "string \<Rightarrow> journal \<Rightarrow> reload_event list" where
  "events_of tx j = sort_key ev_sequence (filter (\<lambda>e. ev_tx e = tx) (jr_events j))"

subsection \<open>Recovery\<close>

definition recovery_action_of :: "phase \<Rightarrow> recovery_action" where
  "recovery_action_of p = (if p = Latest_ready then Discard_candidate
     else if p \<in> {Commit_started, Promoting, Phase_committed, Draining} then Restore_committed
     else Discard_candidate)"

definition action_of_row :: "reload_row \<Rightarrow> reload_recovery" where
  "action_of_row r = \<lparr>ra_tx = rl_tx r, ra_plugin = rl_plugin r, ra_generation = rl_generation r,
     ra_source = rl_source r, ra_phase = rl_phase r, ra_action = recovery_action_of (rl_phase r)\<rparr>"

definition pending_recovery :: "journal \<Rightarrow> reload_recovery list" where
  "pending_recovery j =
     (let rows = sort_key (\<lambda>r. (rl_started r, rl_tx r)) (filter (\<lambda>r. rl_phase r \<notin> set terminal_phases) (jr_rows j)) in
      sort_key (\<lambda>a. (ra_action a = Discard_candidate, ra_action a = Restore_candidate, ra_tx a))
        (map action_of_row rows))"

definition finish_recovery :: "string \<Rightarrow> reload_recovery \<Rightarrow> journal \<Rightarrow> journal_error + journal" where
  "finish_recovery now a j =
     advance_reload (ra_tx a) (if ra_action a = Discard_candidate then Aborted else Recovered) None
       [(''recovery_action'', JStr (case ra_action a of Discard_candidate \<Rightarrow> ''discard_candidate''
          | Restore_candidate \<Rightarrow> ''restore_candidate'' | Restore_committed \<Rightarrow> ''restore_committed''))]
       ''startup recovery'' now j"

fun unique_plugins :: "reload_recovery list \<Rightarrow> string list \<Rightarrow> journal_error option" where
  "unique_plugins [] seen = None"
| "unique_plugins (a # acts) seen =
     (if ra_plugin a \<in> set seen then Some (Several_open (ra_plugin a)) else unique_plugins acts (ra_plugin a # seen))"

text \<open>What discovery finds on disk for a plugin: the source revisions of its stable and latest
  artifact (\<open>None\<close> when it has none), whether the latest one is of type installed, whether its
  pointer file can be read and rewritten, and whether there is a pointer file at all.\<close>

record pointers =
  stable_rev :: "string \<Rightarrow> string option"
  latest_rev :: "string \<Rightarrow> string option"
  latest_installed :: "string \<Rightarrow> bool"
  pointer_ok :: "string \<Rightarrow> bool"
  has_state :: "string \<Rightarrow> bool"

text \<open>\<open>_discard_recovery_pointer\<close>: whether the latest pointer was set back to stable.\<close>

definition discard_pointer :: "pointers \<Rightarrow> reload_recovery \<Rightarrow> journal_error + bool" where
  "discard_pointer ps a = (let p = ra_plugin a in
     if latest_rev ps p = None \<or> \<not> latest_installed ps p then Inr False
     else if latest_rev ps p = stable_rev ps p then Inr False
     else if latest_rev ps p \<noteq> Some (ra_source a) then Inl (Discard_mismatch p)
     else if \<not> pointer_ok ps p then Inl (Pointer_fault p)
     else Inr True)"

text \<open>The lists: candidates and committed generations to restore, transactions to discard.\<close>

datatype route = Skip | To_candidates | To_committed | To_discarded

definition classify_one :: "pointers \<Rightarrow> reload_recovery \<Rightarrow> journal_error + route \<times> reload_recovery" where
  "classify_one ps a =
     (let stable = stable_rev ps (ra_plugin a); latest = latest_rev ps (ra_plugin a) in
      if ra_action a = Discard_candidate then Inr (Skip, a)
      else if ra_action a = Restore_candidate then
        (if latest \<noteq> Some (ra_source a) then Inl (Source_mismatch (ra_plugin a)) else Inr (To_candidates, a))
      else if stable = Some (ra_source a) then Inr (To_committed, a)
      else if ra_phase a \<in> {Commit_started, Promoting} \<and> latest = Some (ra_source a) then
        (case discard_pointer ps a of Inl e \<Rightarrow> Inl e
         | Inr _ \<Rightarrow> Inr (To_discarded, a\<lparr>ra_action := Discard_candidate\<rparr>))
      else if ra_phase a \<in> {Commit_started, Promoting} \<and> stable = latest \<and> has_state ps (ra_plugin a) then
        Inr (To_discarded, a)
      else Inl (Source_mismatch (ra_plugin a)))"

text \<open>The classification up to its first error, if any.\<close>

fun routed :: "pointers \<Rightarrow> reload_recovery list \<Rightarrow> journal_error option \<times> (route \<times> reload_recovery) list" where
  "routed ps [] = (None, [])"
| "routed ps (a # acts) = (case classify_one ps a of Inl e \<Rightarrow> (Some e, [])
     | Inr x \<Rightarrow> (case routed ps acts of (e, xs) \<Rightarrow> (e, x # xs)))"

definition on_route :: "route \<Rightarrow> (route \<times> reload_recovery) list \<Rightarrow> reload_recovery list" where
  "on_route k xs = map snd (filter (\<lambda>x. fst x = k) xs)"

text \<open>The plugins whose latest pointer the classification set back.\<close>

definition classify_removed :: "pointers \<Rightarrow> (route \<times> reload_recovery) list \<Rightarrow> string list" where
  "classify_removed ps xs = map ra_plugin (filter (\<lambda>a. ra_action a = Discard_candidate \<and>
     discard_pointer ps a = Inr True) (on_route To_discarded xs))"

text \<open>The state of a start-up recovery: the journal, the plugins whose latest pointer was set back
  and the rollout facts written (the plugin, and whether its update is reported as committed).\<close>

record recovery_run =
  rr_journal :: journal
  rr_removed :: "string list"
  rr_facts :: "(string \<times> bool) list"

definition finish_step ::
  "string \<Rightarrow> bool option \<Rightarrow> reload_recovery \<Rightarrow> recovery_run \<Rightarrow> journal_error option \<times> recovery_run" where
  "finish_step now report a s = (case finish_recovery now a (rr_journal s) of Inl e \<Rightarrow> (Some e, s)
     | Inr j' \<Rightarrow> (None, s\<lparr>rr_journal := j', rr_facts := rr_facts s @
         (case report of None \<Rightarrow> [] | Some committed \<Rightarrow> [(ra_plugin a, committed)])\<rparr>))"

definition discard_step ::
  "string \<Rightarrow> pointers \<Rightarrow> reload_recovery \<Rightarrow> recovery_run \<Rightarrow> journal_error option \<times> recovery_run" where
  "discard_step now ps a s = (case discard_pointer ps a of Inl e \<Rightarrow> (Some e, s)
     | Inr gone \<Rightarrow> finish_step now (Some False) a
         (if gone then s\<lparr>rr_removed := rr_removed s @ [ra_plugin a]\<rparr> else s))"

text \<open>\<open>active\<close>: the source revisions of the generations in use once step 3 has loaded the stable
  plugins.\<close>

definition committed_step :: "string \<Rightarrow> (string \<Rightarrow> string option) \<Rightarrow> reload_recovery \<Rightarrow> recovery_run \<Rightarrow>
    journal_error option \<times> recovery_run" where
  "committed_step now active a s = (case active (ra_plugin a) of None \<Rightarrow> (Some (Missing_generation (ra_plugin a)), s)
     | Some source \<Rightarrow> if source \<noteq> ra_source a then (Some (Stale_generation (ra_plugin a)), s)
         else finish_step now (Some True) a s)"

definition candidate_step :: "string \<Rightarrow> pointers \<Rightarrow> reload_recovery \<Rightarrow> recovery_run \<Rightarrow>
    journal_error option \<times> recovery_run" where
  "candidate_step now ps a s = (case finish_step now None a s of (Some e, s') \<Rightarrow> (Some e, s')
     | (None, s') \<Rightarrow> (if latest_rev ps (ra_plugin a) = None then (Some (Missing_latest (ra_plugin a)), s') else (None, s')))"

fun run_steps :: "(reload_recovery \<Rightarrow> recovery_run \<Rightarrow> journal_error option \<times> recovery_run) \<Rightarrow>
    reload_recovery list \<Rightarrow> recovery_run \<Rightarrow> journal_error option \<times> recovery_run" where
  "run_steps f [] s = (None, s)"
| "run_steps f (a # acts) s = (case f a s of (Some e, s') \<Rightarrow> (Some e, s') | (None, s') \<Rightarrow> run_steps f acts s')"

text \<open>\<open>load_all\<close>.  What discovery finds is read twice: \<open>ps0\<close> before the discards of step 1 and \<open>ps1\<close>
  after them.  The loading of the plugins in step 3 and the reload transactions that a restored
  candidate starts are other operations.\<close>

definition recover_all ::
  "string \<Rightarrow> pointers \<Rightarrow> pointers \<Rightarrow> (string \<Rightarrow> string option) \<Rightarrow> journal \<Rightarrow> journal_error option \<times> recovery_run" where
  "recover_all now ps0 ps1 active j =
     (let recovery = pending_recovery j; s0 = \<lparr>rr_journal = j, rr_removed = [], rr_facts = []\<rparr> in
      case unique_plugins recovery [] of Some e \<Rightarrow> (Some e, s0)
      | None \<Rightarrow> (case run_steps (discard_step now ps0) (filter (\<lambda>a. ra_action a = Discard_candidate) recovery) s0 of
          (Some e, s1) \<Rightarrow> (Some e, s1)
        | (None, s1) \<Rightarrow> (case routed ps1 recovery of (err, xs) \<Rightarrow>
            (let s2 = s1\<lparr>rr_removed := rr_removed s1 @ classify_removed ps1 xs\<rparr> in
             case err of Some e \<Rightarrow> (Some e, s2)
             | None \<Rightarrow> (case run_steps (finish_step now (Some False)) (on_route To_discarded xs) s2 of
                 (Some e, s3) \<Rightarrow> (Some e, s3)
               | (None, s3) \<Rightarrow> (case run_steps (committed_step now active) (on_route To_committed xs) s3 of
                   (Some e, s4) \<Rightarrow> (Some e, s4)
                 | (None, s4) \<Rightarrow> run_steps (candidate_step now ps1) (on_route To_candidates xs) s4))))))"

subsection \<open>Steps\<close>

datatype journal_cmd =
    Begin_reload string string string "string option" string string string
  | Advance string phase "string option" "(string, json) dict" string string
  | Annotate string "(string, json) dict" string

definition journal_exec :: "journal_cmd \<Rightarrow> journal \<Rightarrow> journal_error + journal" where
  "journal_exec c j = (case c of
     Begin_reload tx now plugin base generation source config \<Rightarrow> begin_reload tx now plugin base generation source config j
   | Advance tx p candidate details err now \<Rightarrow> advance_reload tx p candidate details err now j
   | Annotate tx details now \<Rightarrow> annotate_reload tx details now j)"

inductive journal_reachable :: "journal \<Rightarrow> bool" where
  journal_new: "journal_reachable empty_journal"
| journal_step: "journal_reachable j \<Longrightarrow> journal_exec c j = Inr j' \<Longrightarrow> journal_reachable j'"

subsection \<open>The history of a transaction\<close>

definition history :: "string \<Rightarrow> journal \<Rightarrow> phase list" where
  "history tx j = map ev_phase (filter (\<lambda>e. ev_tx e = tx) (jr_events j))"

definition allowed :: "phase \<Rightarrow> phase \<Rightarrow> bool" where
  "allowed p q \<longleftrightarrow> q = p \<or> q \<in> set (transitions p)"

definition row_ok :: "journal \<Rightarrow> reload_row \<Rightarrow> bool" where
  "row_ok j r \<longleftrightarrow> (let h = history (rl_tx r) j in
     h \<noteq> [] \<and> hd h = Preparing \<and> last h = rl_phase r \<and> successively allowed h)"

definition numbered :: "reload_event list \<Rightarrow> bool" where
  "numbered es \<longleftrightarrow> map ev_sequence es = [1..<length es + 1]"

definition journal_inv :: "journal \<Rightarrow> bool" where
  "journal_inv j \<longleftrightarrow> distinct (map rl_tx (jr_rows j)) \<and> list_all (row_ok j) (jr_rows j) \<and>
     set (map ev_tx (jr_events j)) \<subseteq> set (map rl_tx (jr_rows j)) \<and>
     numbered (jr_events j)"

lemma find_row_Some: "find_row j tx = Some r \<Longrightarrow> r \<in> set (jr_rows j) \<and> rl_tx r = tx"
  by (auto simp: find_row_def find_Some_iff)

lemma find_row_None: "find_row j tx = None \<longleftrightarrow> tx \<notin> rl_tx ` set (jr_rows j)"
  by (auto simp: find_row_def find_None_iff)

lemma find_row_eq: "distinct (map rl_tx (jr_rows j)) \<Longrightarrow> r \<in> set (jr_rows j) \<Longrightarrow> find_row j (rl_tx r) = Some r"
proof -
  assume d: "distinct (map rl_tx (jr_rows j))" and r: "r \<in> set (jr_rows j)"
  then have "find_row j (rl_tx r) \<noteq> None" by (auto simp: find_row_None)
  then obtain r' where r': "find_row j (rl_tx r) = Some r'" by auto
  with find_row_Some[OF this] d r have "r' = r" by (auto simp: distinct_map inj_on_def)
  then show ?thesis using r' by simp
qed

lemma find_key_None: "k \<notin> f ` set xs \<Longrightarrow> find (\<lambda>x. f x = k) xs = None"
  by (induction xs) auto

lemma find_map_key: "find P (map f xs) = map_option f (find (\<lambda>x. P (f x)) xs)"
  by (induction xs) auto

lemma find_row_map:
  assumes "\<And>r. rl_tx (f r) = rl_tx r" "jr_rows j' = map f (jr_rows j)"
  shows "find_row j' tx = map_option f (find_row j tx)"
  using assms by (simp add: find_row_def find_map_key)

lemma history_append [simp]:
  "history tx (append_event tx' p d now j) = history tx j @ (if tx' = tx then [p] else [])"
  by (simp add: history_def append_event_def)

lemma append_event_rows [simp]: "jr_rows (append_event tx p d now j) = jr_rows j"
  by (simp add: append_event_def)

lemma update_row_simps [simp]:
  "jr_events (update_row tx f j) = jr_events j" "history tx' (update_row tx f j) = history tx' j"
  "jr_rows (update_row tx f j) = map (\<lambda>r. if rl_tx r = tx then f r else r) (jr_rows j)"
  by (simp_all add: update_row_def history_def)

lemma history_frame [simp]: "history tx (j\<lparr>jr_rows := rs\<rparr>) = history tx j"
  by (simp add: history_def)

lemma history_empty: "tx \<notin> set (map ev_tx (jr_events j)) \<Longrightarrow> history tx j = []"
  by (auto simp: history_def filter_empty_conv)

lemma append_event_sequence:
  "numbered (jr_events j) \<Longrightarrow> numbered (jr_events (append_event tx p d now j))"
  by (simp add: append_event_def numbered_def)

lemma append_event_txs:
  "ev_tx ` set (jr_events (append_event tx p d now j)) = insert tx (ev_tx ` set (jr_events j))"
  by (simp add: append_event_def)

text \<open>An update of the row with its event.\<close>

lemma step_row_inv:
  assumes "journal_inv j" "find_row j tx = Some row" "\<And>r. rl_tx (f r) = rl_tx r"
    "rl_phase (f row) = p" "allowed (rl_phase row) p"
  shows "journal_inv (append_event tx p d now (update_row tx f j))"
proof -
  note row = find_row_Some[OF assms(2)]
  let ?g = "\<lambda>r. if rl_tx r = tx then f r else r"
  have keys: "map rl_tx (map ?g (jr_rows j)) = map rl_tx (jr_rows j)" using assms(3) by auto
  have same: "r = row" if "r \<in> set (jr_rows j)" "rl_tx r = tx" for r
    using that row assms(1) by (auto simp: journal_inv_def distinct_map inj_on_def)
  have rows: "row_ok (append_event tx p d now (update_row tx f j)) (?g r)" if r: "r \<in> set (jr_rows j)" for r
  proof -
    have old: "row_ok j r" using assms(1) r by (auto simp: journal_inv_def list_all_iff)
    show ?thesis
    proof (cases "rl_tx r = tx")
      case True
      then have "r = row" using same r by blast
      then show ?thesis using old True assms(3-5)
        by (auto simp: row_ok_def Let_def successively_append_iff)
    qed (use old in \<open>simp add: row_ok_def Let_def\<close>)
  qed
  define j' where "j' = append_event tx p d now (update_row tx f j)"
  have rows': "jr_rows j' = map ?g (jr_rows j)" by (simp add: j'_def)
  have "list_all (row_ok j') (jr_rows j')" unfolding rows' unfolding j'_def list_all_iff using rows by (metis (no_types, lifting) imageE list.set_map)
  moreover have "distinct (map rl_tx (jr_rows j'))" using assms(1) unfolding rows' keys by (simp add: journal_inv_def)
  moreover have "set (map ev_tx (jr_events j')) \<subseteq> set (map rl_tx (jr_rows j'))"
    using assms(1) row unfolding rows' keys by (auto simp: j'_def append_event_txs journal_inv_def)
  moreover have "numbered (jr_events j')"
    using assms(1) append_event_sequence[of "update_row tx f j" tx p d now] by (simp add: j'_def journal_inv_def)
  ultimately show ?thesis by (simp add: journal_inv_def j'_def)
qed

lemma begin_reload_inv:
  assumes "journal_inv j" "begin_reload tx now plugin base generation source config j = Inr j'"
  shows "journal_inv j'"
proof -
  define row where "row = \<lparr>rl_tx = tx, rl_plugin = plugin, rl_base = base, rl_candidate = None, rl_generation = generation,
          rl_source = source, rl_config = config, rl_phase = Preparing, rl_started = now,
          rl_updated = now, rl_error = []\<rparr>"
  have free: "tx \<notin> rl_tx ` set (jr_rows j)" using assms(2) by (auto simp: begin_reload_def find_row_None split: if_splits)
  have j': "j' = append_event tx Preparing [] now (j\<lparr>jr_rows := jr_rows j @ [row]\<rparr>)"
    using assms(2) by (auto simp: begin_reload_def row_def split: if_splits)
  have "history tx j = []" using assms(1) free by (intro history_empty) (auto simp: journal_inv_def)
  then have new: "row_ok j' row" by (simp add: j' row_ok_def row_def Let_def)
  have old: "row_ok j' r" if "r \<in> set (jr_rows j)" for r
  proof -
    have "rl_tx r \<noteq> tx" using that free by auto
    moreover have "row_ok j r" using that assms(1) by (auto simp: journal_inv_def list_all_iff)
    ultimately show ?thesis by (simp add: j' row_ok_def Let_def)
  qed
  have "numbered (jr_events j')"
    using assms(1) append_event_sequence[of "j\<lparr>jr_rows := jr_rows j @ [row]\<rparr>" tx Preparing "[]" now]
    by (simp add: j' journal_inv_def)
  then show ?thesis using assms(1) new old free
    unfolding journal_inv_def by (auto simp: j' list_all_iff append_event_txs row_def)
qed

lemma advance_reload_inv:
  assumes "journal_inv j" "advance_reload tx p cand details err now j = Inr j'"
  shows "journal_inv j'"
proof -
  obtain row where row: "find_row j tx = Some row" and p: "p \<in> set (transitions (rl_phase row))"
    using assms(2) by (auto simp: advance_reload_def split: option.splits if_splits)
  show ?thesis using assms(2) row p
    by (auto simp: advance_reload_def allowed_def intro!: step_row_inv[OF assms(1) row])
qed

lemma annotate_reload_inv:
  assumes "journal_inv j" "annotate_reload tx details now j = Inr j'"
  shows "journal_inv j'"
  using assms by (auto simp: annotate_reload_def allowed_def intro!: step_row_inv split: option.splits)

lemma journal_exec_inv: "journal_inv j \<Longrightarrow> journal_exec c j = Inr j' \<Longrightarrow> journal_inv j'"
  by (cases c) (auto simp: journal_exec_def intro: begin_reload_inv advance_reload_inv annotate_reload_inv)

lemma journal_reachable_inv: "journal_reachable j \<Longrightarrow> journal_inv j"
proof (induction rule: journal_reachable.induct)
  case journal_new
  show ?case by (simp add: journal_inv_def empty_journal_def numbered_def)
qed (rule journal_exec_inv)

text \<open>
  The event log explains every row: the events of a transaction start in \<open>preparing\<close>, each
  one repeats the phase before it (an annotation) or follows an allowed transition, the last one
  is the phase the row is in, and the events of the journal are numbered without a gap.
\<close>

theorem reload_history:
  assumes "journal_reachable j" "r \<in> set (jr_rows j)"
  shows "history (rl_tx r) j \<noteq> [] \<and> hd (history (rl_tx r) j) = Preparing \<and>
    last (history (rl_tx r) j) = rl_phase r \<and> successively allowed (history (rl_tx r) j) \<and>
    get_reload (rl_tx r) j = Inr r \<and> numbered (jr_events j)"
proof -
  note inv = journal_reachable_inv[OF assms(1)]
  have "row_ok j r" using inv assms(2) by (auto simp: journal_inv_def list_all_iff)
  moreover have "find_row j (rl_tx r) = Some r" using inv assms(2) by (auto simp: journal_inv_def intro: find_row_eq)
  ultimately show ?thesis using inv by (simp add: row_ok_def Let_def get_reload_def journal_inv_def)
qed

text \<open>How far a phase is from the end.\<close>

fun phase_rank :: "phase \<Rightarrow> nat" where
  "phase_rank Preparing = 8" | "phase_rank Prepared = 7" | "phase_rank Validating = 6"
| "phase_rank Commit_started = 5" | "phase_rank Latest_ready = 4" | "phase_rank Promoting = 3"
| "phase_rank Phase_committed = 2" | "phase_rank Draining = 1" | "phase_rank Discarding = 1"
| "phase_rank _ = 0"

lemma transitions_rank: "q \<in> set (transitions p) \<Longrightarrow> phase_rank q < phase_rank p"
  by (cases p) auto

lemma path_length:
  "successively allowed ps \<Longrightarrow> ps \<noteq> [] \<Longrightarrow> length (remdups_adj ps) + phase_rank (last ps) \<le> phase_rank (hd ps) + 1"
proof (induction ps rule: remdups_adj.induct)
  case (3 x y xs)
  show ?case
  proof (cases "x = y")
    case False
    then have "phase_rank y < phase_rank x" using 3(3) transitions_rank by (simp add: allowed_def)
    then show ?thesis using 3(2)[OF False] 3(3) False by simp
  qed (use 3 in simp)
qed simp_all

definition final_phase :: "reload_recovery \<Rightarrow> phase" where
  "final_phase a = (if ra_action a = Discard_candidate then Aborted else Recovered)"

lemma final_phase_allowed:
  "rl_phase r \<notin> set terminal_phases \<Longrightarrow> final_phase (action_of_row r) \<in> set (transitions (rl_phase r))"
  by (cases "rl_phase r") (simp_all add: terminal_phases_def final_phase_def action_of_row_def recovery_action_of_def)

lemma final_phase_terminal: "final_phase a \<in> set terminal_phases"
  by (simp add: final_phase_def terminal_phases_def)

lemma finish_recovery_eq:
  assumes "find_row j (ra_tx a) = Some r" "final_phase a \<in> set (transitions (rl_phase r))"
  shows "\<exists>j'. finish_recovery now a j = Inr j' \<and> jr_rows j' = map (\<lambda>r. if rl_tx r = ra_tx a
      then r\<lparr>rl_phase := final_phase a, rl_updated := now, rl_error := ''startup recovery''\<rparr> else r) (jr_rows j)"
  using assms by (auto simp: finish_recovery_def advance_reload_def final_phase_def)

text \<open>
  C16. Every reload transaction ends: it changes its phase at most eight times, one that is
  complete, aborted or recovered accepts no further phase, and any other can be ended by start-up
  recovery in a single step, whatever phase the crash left it in.
\<close>

theorem reload_terminates:
  assumes "journal_reachable j" "r \<in> set (jr_rows j)"
  shows "length (remdups_adj (history (rl_tx r) j)) \<le> 9 \<and>
    (rl_phase r \<in> set terminal_phases \<longrightarrow> isl (advance_reload (rl_tx r) p cand details err now j)) \<and>
    (rl_phase r \<notin> set terminal_phases \<longrightarrow>
      (\<exists>j' r'. finish_recovery now (action_of_row r) j = Inr j' \<and> find_row j' (rl_tx r) = Some r' \<and>
         rl_phase r' \<in> set terminal_phases))"
proof -
  note inv = journal_reachable_inv[OF assms(1)]
  have ok: "row_ok j r" and f: "find_row j (rl_tx r) = Some r"
    using inv assms(2) by (auto simp: journal_inv_def list_all_iff intro: find_row_eq)
  have "length (remdups_adj (history (rl_tx r) j)) \<le> 9"
    using ok path_length[of "history (rl_tx r) j"] by (simp add: row_ok_def Let_def)
  moreover have "rl_phase r \<in> set terminal_phases \<Longrightarrow> isl (advance_reload (rl_tx r) p cand details err now j)"
    using f by (auto simp: advance_reload_def terminal_phases_def)
  moreover have "\<exists>j' r'. finish_recovery now (action_of_row r) j = Inr j' \<and> find_row j' (rl_tx r) = Some r' \<and>
         rl_phase r' \<in> set terminal_phases" if unfinished: "rl_phase r \<notin> set terminal_phases"
  proof -
    have tx: "ra_tx (action_of_row r) = rl_tx r" by (simp add: action_of_row_def)
    define g where "g = (\<lambda>x :: reload_row. if rl_tx x = ra_tx (action_of_row r) then x\<lparr>rl_phase := final_phase (action_of_row r),
         rl_updated := now, rl_error := ''startup recovery''\<rparr> else x)"
    obtain j' where j': "finish_recovery now (action_of_row r) j = Inr j'" "jr_rows j' = map g (jr_rows j)"
      using finish_recovery_eq[of j "action_of_row r" r now] f final_phase_allowed[OF unfinished] unfolding g_def tx by blast
    have "find_row j' (rl_tx r) = map_option g (find_row j (rl_tx r))"
      by (rule find_row_map[OF _ j'(2)]) (simp add: g_def)
    then have r': "find_row j' (rl_tx r) = Some (g r)" by (simp add: f)
    have "rl_phase (g r) = final_phase (action_of_row r)" by (simp add: g_def tx)
    then show ?thesis using j'(1) r' final_phase_terminal by metis
  qed
  ultimately show ?thesis by blast
qed

subsection \<open>Start-up recovery settles everything\<close>

definition settle_row :: "string \<Rightarrow> reload_recovery list \<Rightarrow> reload_row \<Rightarrow> reload_row" where
  "settle_row now acts r = (case find (\<lambda>a. ra_tx a = rl_tx r) acts of None \<Rightarrow> r
     | Some a \<Rightarrow> r\<lparr>rl_phase := final_phase a, rl_updated := now, rl_error := ''startup recovery''\<rparr>)"

definition can_finish :: "journal \<Rightarrow> reload_recovery \<Rightarrow> bool" where
  "can_finish j a \<longleftrightarrow> (\<exists>r. find_row j (ra_tx a) = Some r \<and> final_phase a \<in> set (transitions (rl_phase r)))"

definition settled :: "string \<Rightarrow> reload_recovery list \<Rightarrow> journal \<Rightarrow> journal \<Rightarrow> bool" where
  "settled now acts j j' \<longleftrightarrow> jr_rows j' = map (settle_row now acts) (jr_rows j)"

lemma settle_row_key [simp]: "rl_tx (settle_row now acts r) = rl_tx r"
  by (simp add: settle_row_def split: option.split)

lemma settle_row_untouched: "rl_tx r \<notin> ra_tx ` set acts \<Longrightarrow> settle_row now acts r = r"
proof -
  assume "rl_tx r \<notin> ra_tx ` set acts"
  then have "find (\<lambda>a. ra_tx a = rl_tx r) acts = None" by (rule find_key_None)
  then show ?thesis by (simp add: settle_row_def)
qed

lemma settle_row_terminal: "rl_tx r \<in> ra_tx ` set acts \<Longrightarrow> rl_phase (settle_row now acts r) \<in> set terminal_phases"
  by (auto simp: settle_row_def final_phase_terminal find_None_iff split: option.split)

lemma settled_refl: "settled now [] j j"
  by (simp add: settled_def settle_row_untouched map_idI)

lemma find_append: "find P (xs @ ys) = (case find P xs of None \<Rightarrow> find P ys | Some x \<Rightarrow> Some x)"
  by (induction xs) auto

lemma settle_row_append:
  assumes "ra_tx ` set xs \<inter> ra_tx ` set ys = {}"
  shows "settle_row now ys (settle_row now xs r) = settle_row now (xs @ ys) r"
proof (cases "rl_tx r \<in> ra_tx ` set xs")
  case True
  then have "rl_tx r \<notin> ra_tx ` set ys" using assms by blast
  then have "settle_row now ys (settle_row now xs r) = settle_row now xs r" by (intro settle_row_untouched) simp
  moreover have "find (\<lambda>a. ra_tx a = rl_tx r) xs \<noteq> None" using True by (auto simp: find_None_iff)
  ultimately show ?thesis by (auto simp: settle_row_def find_append)
next
  case False
  then have "find (\<lambda>a. ra_tx a = rl_tx r) xs = None" by (rule find_key_None)
  then show ?thesis by (simp add: settle_row_def find_append)
qed

lemma settled_append:
  assumes "settled now xs j j1" "settled now ys j1 j2" "ra_tx ` set xs \<inter> ra_tx ` set ys = {}"
  shows "settled now (xs @ ys) j j2"
  using assms by (simp add: settled_def settle_row_append)

lemma can_finish_settled:
  assumes "can_finish j b" "settled now acts j j'" "ra_tx b \<notin> ra_tx ` set acts"
  shows "can_finish j' b"
proof -
  obtain r where r: "find_row j (ra_tx b) = Some r" "final_phase b \<in> set (transitions (rl_phase r))"
    using assms(1) by (auto simp: can_finish_def)
  have "settle_row now acts r = r" using assms(3) find_row_Some[OF r(1)] by (intro settle_row_untouched) simp
  then show ?thesis using r find_row_map[of "settle_row now acts" j' j] assms(2) by (simp add: can_finish_def settled_def)
qed

lemma finish_one: "can_finish j a \<Longrightarrow> \<exists>j'. finish_recovery now a j = Inr j' \<and> settled now [a] j j'"
  using finish_recovery_eq[of j a _ now] by (fastforce simp: can_finish_def settled_def settle_row_def)

text \<open>What the step functions have in common: a step finishes its action, or stops with an error of
  its own, which it would not have passed over.\<close>

definition finishes :: "string \<Rightarrow> (reload_recovery \<Rightarrow> journal_error \<Rightarrow> bool) \<Rightarrow>
    (reload_recovery \<Rightarrow> recovery_run \<Rightarrow> journal_error option \<times> recovery_run) \<Rightarrow> bool" where
  "finishes now E f \<longleftrightarrow> (\<forall>a s j'. finish_recovery now a (rr_journal s) = Inr j' \<longrightarrow>
     (case f a s of (None, s') \<Rightarrow> rr_journal s' = j' \<and> (\<forall>e. \<not> E a e)
      | (Some e, s') \<Rightarrow> E a e \<and> (rr_journal s' = rr_journal s \<or> rr_journal s' = j')))"

lemma finishes_cases:
  assumes "finishes now E f" "finish_recovery now a (rr_journal s) = Inr j'" "f a s = (err, s')"
  shows "case err of None \<Rightarrow> rr_journal s' = j' \<and> (\<forall>e. \<not> E a e)
    | Some e \<Rightarrow> E a e \<and> (rr_journal s' = rr_journal s \<or> rr_journal s' = j')"
  using assms unfolding finishes_def by (metis (mono_tags, lifting) case_prod_conv)

lemma run_steps_settle:
  assumes "finishes now E f" "distinct (map ra_tx acts)" "\<forall>a \<in> set acts. can_finish (rr_journal s) a"
    "run_steps f acts s = (err, s')"
  shows "\<exists>d. set d \<subseteq> set acts \<and> distinct (map ra_tx d) \<and> settled now d (rr_journal s) (rr_journal s') \<and>
     (case err of None \<Rightarrow> d = acts \<and> (\<forall>a \<in> set acts. \<forall>e. \<not> E a e) | Some e \<Rightarrow> \<exists>a \<in> set acts. E a e)"
  using assms(2-)
proof (induction acts arbitrary: s)
  case Nil
  then show ?case by (auto intro: settled_refl)
next
  case (Cons a acts)
  obtain j1 where j1: "finish_recovery now a (rr_journal s) = Inr j1" "settled now [a] (rr_journal s) j1"
    using finish_one Cons.prems(2) by (metis list.set_intros(1))
  obtain err1 s1 where f: "f a s = (err1, s1)" by (cases "f a s")
  show ?case
  proof (cases err1)
    case (Some e)
    then have e: "E a e" "rr_journal s1 = rr_journal s \<or> rr_journal s1 = j1" "err = Some e" "s' = s1"
      using finishes_cases[OF assms(1) j1(1) f] f Cons.prems(3) by auto
    define d where "d = (if rr_journal s1 = rr_journal s then [] else [a])"
    have "settled now d (rr_journal s) (rr_journal s1)" using e(2) j1(2) settled_refl by (auto simp: d_def)
    then show ?thesis using e by (intro exI[of _ d]) (auto simp: d_def)
  next
    case None
    then have s1: "rr_journal s1 = j1" "\<forall>e. \<not> E a e" "run_steps f acts s1 = (err, s')"
      using finishes_cases[OF assms(1) j1(1) f] f Cons.prems(3) by auto
    have apart: "ra_tx b \<noteq> ra_tx a" if "b \<in> set acts" for b
      using that Cons.prems(1) by (metis distinct.simps(2) imageI list.set_map list.simps(9))
    have "\<forall>b \<in> set acts. can_finish (rr_journal s1) b"
      using can_finish_settled[OF _ j1(2)] Cons.prems(2) apart s1(1) by simp
    then obtain d where d: "set d \<subseteq> set acts" "distinct (map ra_tx d)" "settled now d (rr_journal s1) (rr_journal s')"
      "case err of None \<Rightarrow> d = acts \<and> (\<forall>a \<in> set acts. \<forall>e. \<not> E a e) | Some e \<Rightarrow> \<exists>a \<in> set acts. E a e"
      using Cons.IH[OF _ _ s1(3)] Cons.prems(1) by auto
    have new: "ra_tx a \<notin> ra_tx ` set d" using apart d(1) by force
    have "settled now (a # d) (rr_journal s) (rr_journal s')"
      using settled_append[OF j1(2)] d(3) new s1(1) by fastforce
    then show ?thesis using d new s1(2) by (intro exI[of _ "a # d"]) (auto split: option.splits)
  qed
qed

lemma run_steps_after:
  assumes "finishes now E f" "settled now d0 j (rr_journal s)" "distinct (map ra_tx (d0 @ acts))"
    "\<forall>a \<in> set acts. can_finish j a" "run_steps f acts s = (err, s')"
  shows "\<exists>d. set d \<subseteq> set acts \<and> settled now (d0 @ d) j (rr_journal s') \<and>
     (case err of None \<Rightarrow> d = acts \<and> (\<forall>a \<in> set acts. \<forall>e. \<not> E a e) | Some e \<Rightarrow> \<exists>a \<in> set acts. E a e)"
proof -
  have apart: "ra_tx ` set d0 \<inter> ra_tx ` set acts = {}" using assms(3) by auto
  have "\<forall>a \<in> set acts. can_finish (rr_journal s) a" using can_finish_settled[OF _ assms(2)] assms(4) apart by blast
  then obtain d where d: "set d \<subseteq> set acts" "settled now d (rr_journal s) (rr_journal s')"
    "case err of None \<Rightarrow> d = acts \<and> (\<forall>a \<in> set acts. \<forall>e. \<not> E a e) | Some e \<Rightarrow> \<exists>a \<in> set acts. E a e"
    using run_steps_settle[OF assms(1) _ _ assms(5)] assms(3) by auto
  have "ra_tx ` set d0 \<inter> ra_tx ` set d = {}" using apart d(1) by blast
  then show ?thesis using settled_append[OF assms(2) d(2)] d by blast
qed

lemma run_steps_invariant:
  assumes "run_steps f acts s = (err, s')" "P s"
    "\<And>a s. a \<in> set acts \<Longrightarrow> P s \<Longrightarrow> P (snd (f a s))"
  shows "P s'"
  using assms
proof (induction acts arbitrary: s)
  case (Cons a acts)
  obtain e1 s1 where f: "f a s = (e1, s1)" by (cases "f a s")
  then have "P s1" using Cons.prems(3)[of a s] Cons.prems(2) by simp
  then show ?case using Cons.IH[of s1] Cons.prems f by (cases e1) auto
qed simp

lemma finish_step_finishes: "finishes now (\<lambda>_ _. False) (finish_step now report)"
  by (simp add: finishes_def finish_step_def)

lemma discard_step_finishes: "finishes now (\<lambda>a e. discard_pointer ps a = Inl e) (discard_step now ps)"
  by (auto simp: finishes_def discard_step_def finish_step_def split: sum.splits)

definition committed_error :: "(string \<Rightarrow> string option) \<Rightarrow> reload_recovery \<Rightarrow> journal_error \<Rightarrow> bool" where
  "committed_error active a e \<longleftrightarrow> active (ra_plugin a) = None \<and> e = Missing_generation (ra_plugin a) \<or>
     (\<exists>g. active (ra_plugin a) = Some g \<and> g \<noteq> ra_source a \<and> e = Stale_generation (ra_plugin a))"

lemma committed_step_finishes: "finishes now (committed_error active) (committed_step now active)"
  by (auto simp: finishes_def committed_step_def finish_step_def committed_error_def split: option.splits)

lemma classify_one_cases:
  assumes "classify_one ps a = Inr (k, b)"
  shows "(k = Skip \<longleftrightarrow> ra_action a = Discard_candidate)"
    "b = a \<or> (b = a\<lparr>ra_action := Discard_candidate\<rparr> \<and> ra_phase a \<in> {Commit_started, Promoting})"
    "k = To_candidates \<Longrightarrow> ra_action a = Restore_candidate"
    "k = To_committed \<Longrightarrow> b = a \<and> stable_rev ps (ra_plugin a) = Some (ra_source a)"
    "ra_action a = Restore_committed \<Longrightarrow> stable_rev ps (ra_plugin a) = Some (ra_source a) \<Longrightarrow> k = To_committed"
  using assms by (auto simp: classify_one_def Let_def split: if_splits sum.splits)

lemma routed_sources: "routed ps acts = (err, xs) \<Longrightarrow> \<forall>x \<in> set xs. \<exists>a \<in> set acts. classify_one ps a = Inr x"
  by (induction acts arbitrary: xs) (auto split: sum.splits prod.splits)

lemma routed_error: "routed ps acts = (Some e, xs) \<Longrightarrow> \<exists>a \<in> set acts. classify_one ps a = Inl e"
  by (induction acts arbitrary: xs) (auto split: sum.splits prod.splits)

lemma routed_all: "routed ps acts = (None, xs) \<Longrightarrow> \<forall>a \<in> set acts. \<exists>x \<in> set xs. classify_one ps a = Inr x"
  by (induction acts arbitrary: xs) (auto split: sum.splits prod.splits)

lemma routed_actions: "routed ps acts = (None, xs) \<Longrightarrow> map (ra_tx \<circ> snd) xs = map ra_tx acts"
proof (induction acts arbitrary: xs)
  case (Cons a acts)
  obtain k b ys where x: "classify_one ps a = Inr (k, b)" "routed ps acts = (None, ys)" "xs = (k, b) # ys"
    using Cons.prems by (auto split: sum.splits prod.splits)
  have "ra_tx b = ra_tx a" using classify_one_cases(2)[OF x(1)] by auto
  then show ?case using Cons.IH[OF x(2)] x by auto
qed simp

lemma set_pending_recovery:
  "set (pending_recovery j) = action_of_row ` {r \<in> set (jr_rows j). rl_phase r \<notin> set terminal_phases}"
  by (auto simp: pending_recovery_def Let_def)

lemma distinct_map_sort: "distinct (map g (sort_key f xs)) = distinct (map g xs)"
proof -
  have "mset (map g (sort_key f xs)) = mset (map g xs)" by simp
  then show ?thesis by (rule mset_eq_imp_distinct_iff)
qed

lemmas distinct_map_sort_comp = distinct_map_sort[of "g \<circ> h" for g h]

lemma distinct_pending_recovery:
  assumes "distinct (map rl_tx (jr_rows j))"
  shows "distinct (map ra_tx (pending_recovery j))"
proof -
  have "distinct (map rl_tx (filter (\<lambda>r. rl_phase r \<notin> set terminal_phases) (jr_rows j)))"
    by (rule distinct_map_filter[OF assms])
  then have "distinct (map ra_tx (map action_of_row (filter (\<lambda>r. rl_phase r \<notin> set terminal_phases) (jr_rows j))))"
    by (simp add: action_of_row_def comp_def)
  then show ?thesis unfolding pending_recovery_def Let_def by (simp only: distinct_map_sort map_map distinct_map_sort_comp)
qed

lemma can_finish_pending:
  assumes "journal_inv j" "a \<in> set (pending_recovery j)"
  shows "can_finish j a" "ra_phase a \<in> {Commit_started, Promoting} \<Longrightarrow> can_finish j (a\<lparr>ra_action := Discard_candidate\<rparr>)"
proof -
  obtain r where r: "r \<in> set (jr_rows j)" "rl_phase r \<notin> set terminal_phases" "a = action_of_row r"
    using assms(2) by (auto simp: set_pending_recovery)
  have f: "find_row j (ra_tx a) = Some r" using assms(1) r by (auto simp: journal_inv_def action_of_row_def intro: find_row_eq)
  show "can_finish j a" using f final_phase_allowed[OF r(2)] r(3) by (auto simp: can_finish_def)
  show "ra_phase a \<in> {Commit_started, Promoting} \<Longrightarrow> can_finish j (a\<lparr>ra_action := Discard_candidate\<rparr>)"
    using f r(3) by (auto simp: can_finish_def final_phase_def action_of_row_def)
qed

lemma distinct_routes:
  assumes d: "distinct (map (f \<circ> snd) ys)" and "k1 \<noteq> k2" "k1 \<noteq> k3" "k2 \<noteq> k3"
  shows "distinct (map (f \<circ> snd) (filter (\<lambda>x. fst x = k1) ys @ filter (\<lambda>x. fst x = k2) ys @ filter (\<lambda>x. fst x = k3) ys))"
proof -
  have same: "x = y" if "x \<in> set ys" "y \<in> set ys" "f (snd x) = f (snd y)" for x y
    using d that unfolding distinct_map inj_on_def comp_def by blast
  have part: "distinct (map (f \<circ> snd) (filter P ys))" for P using d by (rule distinct_map_filter)
  have apart: "(f \<circ> snd) ` set (filter (\<lambda>x. fst x = k) ys) \<inter> (f \<circ> snd) ` set (filter (\<lambda>x. fst x = l) ys) = {}"
    if "k \<noteq> l" for k l using same that by fastforce
  show ?thesis unfolding map_append distinct_append set_append set_map
    using part apart[OF assms(2)] apart[OF assms(3)] apart[OF assms(4)] by blast
qed

text \<open>The actions of the second stage in the order in which they are finished.\<close>

definition later_actions :: "(route \<times> reload_recovery) list \<Rightarrow> reload_recovery list" where
  "later_actions xs = on_route To_discarded xs @ on_route To_committed xs @ on_route To_candidates xs"

lemma later_actions_iff: "b \<in> set (later_actions xs) \<longleftrightarrow> (\<exists>k. (k, b) \<in> set xs \<and> k \<noteq> Skip)"
  unfolding later_actions_def on_route_def by (auto simp: image_iff) (metis route.exhaust)

lemma second_stage:
  assumes "journal_inv j" "routed ps (pending_recovery j) = (None, xs)"
  shows "distinct (map ra_tx (filter (\<lambda>a. ra_action a = Discard_candidate) (pending_recovery j) @ later_actions xs))"
    and "b \<in> set (later_actions xs) \<Longrightarrow> can_finish j b \<and> (\<exists>a \<in> set (pending_recovery j). ra_tx b = ra_tx a)"
    and "a \<in> set (pending_recovery j) \<Longrightarrow> ra_action a \<noteq> Discard_candidate \<Longrightarrow> ra_tx a \<in> ra_tx ` set (later_actions xs)"
proof -
  note r = routed_sources[OF assms(2)] routed_actions[OF assms(2)] routed_all[OF assms(2)]
  have dp: "distinct (map ra_tx (pending_recovery j))" using assms(1) by (auto simp: journal_inv_def intro: distinct_pending_recovery)
  then have "distinct (map (ra_tx \<circ> snd) xs)" using r(2) by simp
  from distinct_routes[OF this, of To_discarded To_committed To_candidates]
  have later: "distinct (map ra_tx (later_actions xs))" by (simp add: later_actions_def on_route_def)
  have source: "\<exists>a \<in> set (pending_recovery j). ra_action a \<noteq> Discard_candidate \<and> ra_tx b = ra_tx a \<and> can_finish j b"
    if b: "b \<in> set (later_actions xs)" for b
  proof -
    obtain k a where k: "k \<noteq> Skip" "a \<in> set (pending_recovery j)" "classify_one ps a = Inr (k, b)"
      using b r(1) later_actions_iff by blast
    note c = classify_one_cases[OF k(3)]
    have "can_finish j b" using c(2) can_finish_pending[OF assms(1) k(2)] by auto
    moreover have "ra_action a \<noteq> Discard_candidate" "ra_tx b = ra_tx a" using c(1,2) k(1) by auto
    ultimately show ?thesis using k(2) by blast
  qed
  then show "b \<in> set (later_actions xs) \<Longrightarrow> can_finish j b \<and> (\<exists>a \<in> set (pending_recovery j). ra_tx b = ra_tx a)"
    by blast
  have "ra_tx ` set (filter (\<lambda>a. ra_action a = Discard_candidate) (pending_recovery j)) \<inter> ra_tx ` set (later_actions xs) = {}"
  proof -
    have same: "a = b" if "a \<in> set (pending_recovery j)" "b \<in> set (pending_recovery j)" "ra_tx a = ra_tx b" for a b
      using dp that by (auto simp: distinct_map inj_on_def)
    have "ra_tx a \<noteq> ra_tx b" if a: "a \<in> set (pending_recovery j)" "ra_action a = Discard_candidate"
      and b: "b \<in> set (later_actions xs)" for a b
      using source[OF b] same[OF a(1)] a(2) by metis
    then show ?thesis by auto
  qed
  then show "distinct (map ra_tx (filter (\<lambda>a. ra_action a = Discard_candidate) (pending_recovery j) @ later_actions xs))"
    using later distinct_map_filter[OF dp] by (simp only: map_append distinct_append set_map)
  show "ra_tx a \<in> ra_tx ` set (later_actions xs)" if a: "a \<in> set (pending_recovery j)" "ra_action a \<noteq> Discard_candidate"
  proof -
    obtain k b where b: "(k, b) \<in> set xs" "classify_one ps a = Inr (k, b)" using r(3) a(1) by (metis surj_pair)
    then have "k \<noteq> Skip" "ra_tx b = ra_tx a" using classify_one_cases(1,2)[OF b(2)] a(2) by auto
    then show ?thesis using later_actions_iff b(1) by (metis imageI)
  qed
qed

text \<open>Rows of a journal in which some pending transactions were finished.\<close>

lemma settled_rows:
  assumes "journal_inv j" "settled now acts j j'" "\<And>b. b \<in> set acts \<Longrightarrow> \<exists>a \<in> set (pending_recovery j). ra_tx b = ra_tx a"
  shows "map rl_tx (jr_rows j') = map rl_tx (jr_rows j)"
    and "set (filter (\<lambda>r. rl_phase r \<in> set terminal_phases) (jr_rows j)) \<subseteq> set (jr_rows j')"
    and "set (pending_recovery j') \<subseteq> set (pending_recovery j)"
    and "(\<And>a. a \<in> set (pending_recovery j) \<Longrightarrow> ra_tx a \<in> ra_tx ` set acts) \<Longrightarrow> pending_recovery j' = []"
proof -
  have rows: "jr_rows j' = map (settle_row now acts) (jr_rows j)" using assms(2) by (simp add: settled_def)
  show "map rl_tx (jr_rows j') = map rl_tx (jr_rows j)" by (simp add: rows)
  have ended: "settle_row now acts r = r" if r: "r \<in> set (jr_rows j)" "rl_phase r \<in> set terminal_phases" for r
  proof (rule settle_row_untouched)
    have "rl_tx r \<noteq> ra_tx a" if a: "a \<in> set (pending_recovery j)" for a
      using a assms(1) r by (auto simp: set_pending_recovery action_of_row_def journal_inv_def distinct_map inj_on_def)
    then show "rl_tx r \<notin> ra_tx ` set acts" using assms(3) by force
  qed
  then show "set (filter (\<lambda>r. rl_phase r \<in> set terminal_phases) (jr_rows j)) \<subseteq> set (jr_rows j')"
    unfolding rows by (force simp: image_iff)
  have open_row: "r' \<in> set (jr_rows j) \<and> rl_tx r' \<notin> ra_tx ` set acts"
    if r: "r' \<in> set (jr_rows j')" "rl_phase r' \<notin> set terminal_phases" for r'
  proof -
    obtain r where "r \<in> set (jr_rows j)" "r' = settle_row now acts r" using r(1) by (auto simp: rows)
    then show ?thesis using r(2) settle_row_terminal[of r acts now] settle_row_untouched[of r acts now]
      by (cases "rl_tx r \<in> ra_tx ` set acts") auto
  qed
  then show "set (pending_recovery j') \<subseteq> set (pending_recovery j)" by (auto simp: set_pending_recovery)
  assume all: "\<And>a. a \<in> set (pending_recovery j) \<Longrightarrow> ra_tx a \<in> ra_tx ` set acts"
  have "rl_phase r' \<in> set terminal_phases" if r: "r' \<in> set (jr_rows j')" for r'
  proof (rule ccontr)
    assume n: "rl_phase r' \<notin> set terminal_phases"
    then have "action_of_row r' \<in> set (pending_recovery j)" using open_row[OF r n] by (auto simp: set_pending_recovery)
    from all[OF this] show False using open_row[OF r n] by (simp add: action_of_row_def)
  qed
  then show "pending_recovery j' = []"
    by (metis (no_types, lifting) Collect_empty_eq image_empty set_empty set_pending_recovery)
qed

text \<open>The grounds on which start-up recovery refuses to go on: \<open>acts\<close> are the open transactions.\<close>

definition unlike_pointers :: "pointers \<Rightarrow> reload_recovery \<Rightarrow> bool" where
  "unlike_pointers ps a \<longleftrightarrow> latest_installed ps (ra_plugin a) \<and>
     latest_rev ps (ra_plugin a) \<noteq> None \<and> latest_rev ps (ra_plugin a) \<noteq> stable_rev ps (ra_plugin a)"

fun refusal_cause :: "pointers \<Rightarrow> pointers \<Rightarrow> (string \<Rightarrow> string option) \<Rightarrow> reload_recovery list \<Rightarrow> journal_error \<Rightarrow> bool" where
  "refusal_cause ps0 ps1 active acts (Several_open p) \<longleftrightarrow>
     (\<exists>a \<in> set acts. \<exists>b \<in> set acts. ra_tx a \<noteq> ra_tx b \<and> ra_plugin a = p \<and> ra_plugin b = p)"
| "refusal_cause ps0 ps1 active acts (Discard_mismatch p) \<longleftrightarrow>
     (\<exists>a \<in> set acts. ra_plugin a = p \<and> ra_action a = Discard_candidate \<and> unlike_pointers ps0 a \<and>
        latest_rev ps0 p \<noteq> Some (ra_source a))"
| "refusal_cause ps0 ps1 active acts (Pointer_fault p) \<longleftrightarrow>
     (\<exists>a \<in> set acts. ra_plugin a = p \<and>
       (ra_action a = Discard_candidate \<and> unlike_pointers ps0 a \<and> latest_rev ps0 p = Some (ra_source a) \<and> \<not> pointer_ok ps0 p
        \<or> ra_action a = Restore_committed \<and> ra_phase a \<in> {Commit_started, Promoting} \<and> unlike_pointers ps1 a \<and>
          latest_rev ps1 p = Some (ra_source a) \<and> \<not> pointer_ok ps1 p))"
| "refusal_cause ps0 ps1 active acts (Source_mismatch p) \<longleftrightarrow>
     (\<exists>a \<in> set acts. ra_plugin a = p \<and> ra_action a = Restore_committed \<and> stable_rev ps1 p \<noteq> Some (ra_source a) \<and>
        \<not> (ra_phase a \<in> {Commit_started, Promoting} \<and>
           (latest_rev ps1 p = Some (ra_source a) \<or> stable_rev ps1 p = latest_rev ps1 p \<and> has_state ps1 p)))"
| "refusal_cause ps0 ps1 active acts (Missing_generation p) \<longleftrightarrow>
     (\<exists>a \<in> set acts. ra_plugin a = p \<and> ra_action a = Restore_committed \<and> stable_rev ps1 p = Some (ra_source a) \<and>
        active p = None)"
| "refusal_cause ps0 ps1 active acts (Stale_generation p) \<longleftrightarrow>
     (\<exists>a \<in> set acts. ra_plugin a = p \<and> ra_action a = Restore_committed \<and> stable_rev ps1 p = Some (ra_source a) \<and>
        (\<exists>g. active p = Some g \<and> g \<noteq> ra_source a))"
| "refusal_cause ps0 ps1 active acts _ \<longleftrightarrow> False"

lemma pending_action: "a \<in> set (pending_recovery j) \<Longrightarrow> ra_action a = Discard_candidate \<or> ra_action a = Restore_committed"
  by (auto simp: set_pending_recovery action_of_row_def recovery_action_of_def)

lemma unique_plugins_error:
  "unique_plugins acts seen = Some e \<Longrightarrow> \<exists>p. e = Several_open p \<and>
     (\<exists>pre a post. acts = pre @ a # post \<and> ra_plugin a = p \<and> p \<in> set seen \<union> ra_plugin ` set pre)"
proof (induction acts seen rule: unique_plugins.induct)
  case (2 a acts seen)
  show ?case
  proof (cases "ra_plugin a \<in> set seen")
    case True
    then have "e = Several_open (ra_plugin a)" using "2.prems" by simp
    then show ?thesis using True by (intro exI[of _ "ra_plugin a"] conjI exI[of _ "[]"] exI[of _ a] exI[of _ acts]) auto
  next
    case False
    then obtain p pre b post where x: "e = Several_open p" "acts = pre @ b # post" "ra_plugin b = p"
      "p \<in> set (ra_plugin a # seen) \<union> ra_plugin ` set pre" using 2 by auto
    then show ?thesis by (intro exI[of _ p] conjI exI[of _ "a # pre"] exI[of _ b] exI[of _ post]) auto
  qed
qed simp

lemma unique_plugins_none: "unique_plugins acts seen = None \<Longrightarrow> distinct (map ra_plugin acts)"
proof -
  have "unique_plugins acts seen = None \<Longrightarrow> distinct (map ra_plugin acts) \<and> set (map ra_plugin acts) \<inter> set seen = {}"
    by (induction acts seen rule: unique_plugins.induct) (auto split: if_splits)
  then show "unique_plugins acts seen = None \<Longrightarrow> distinct (map ra_plugin acts)" by blast
qed

lemma several_open_cause:
  assumes "unique_plugins acts [] = Some e" "distinct (map ra_tx acts)"
  shows "refusal_cause ps0 ps1 active acts e"
proof -
  obtain pre a post where x: "e = Several_open (ra_plugin a)" "acts = pre @ a # post" "ra_plugin a \<in> ra_plugin ` set pre"
    using unique_plugins_error[OF assms(1)] by auto
  then obtain b where b: "b \<in> set pre" "ra_plugin b = ra_plugin a" by auto
  then have "ra_tx b \<in> ra_tx ` set pre" "ra_tx a \<notin> ra_tx ` set pre" using assms(2) x(2) by auto
  then have "ra_tx b \<noteq> ra_tx a" by metis
  then show ?thesis using x b by auto
qed

lemma discard_error_cause:
  "a \<in> set acts \<Longrightarrow> ra_action a = Discard_candidate \<Longrightarrow> discard_pointer ps0 a = Inl e \<Longrightarrow>
     refusal_cause ps0 ps1 active acts e"
  by (auto simp: discard_pointer_def unlike_pointers_def Let_def intro!: bexI[of _ a] split: if_splits)

lemma classify_error_cause:
  assumes "a \<in> set (pending_recovery j)" "classify_one ps1 a = Inl e"
  shows "refusal_cause ps0 ps1 active (pending_recovery j) e"
proof -
  have a: "ra_action a = Restore_committed" using assms pending_action[OF assms(1)] by (auto simp: classify_one_def)
  show ?thesis using assms(1) assms(2)[unfolded classify_one_def Let_def discard_pointer_def] a
    by (auto simp: unlike_pointers_def intro!: bexI[of _ a] split: if_splits sum.splits)
qed

lemma committed_error_cause:
  assumes "routed ps1 (pending_recovery j) = (None, xs)" "b \<in> set (on_route To_committed xs)" "committed_error active b e"
  shows "refusal_cause ps0 ps1 active (pending_recovery j) e"
proof -
  obtain a where a: "a \<in> set (pending_recovery j)" "classify_one ps1 a = Inr (To_committed, b)"
    using routed_sources[OF assms(1)] assms(2) by (auto simp: on_route_def)
  have "b = a" "stable_rev ps1 (ra_plugin a) = Some (ra_source a)" "ra_action a = Restore_committed"
    using classify_one_cases(1,4)[OF a(2)] pending_action[OF a(1)] by auto
  then show ?thesis using a(1) assms(3) by (auto simp: committed_error_def intro!: bexI[of _ a])
qed

lemma no_candidates: "routed ps (pending_recovery j) = (None, xs) \<Longrightarrow> on_route To_candidates xs = []"
proof -
  assume r: "routed ps (pending_recovery j) = (None, xs)"
  have "fst x \<noteq> To_candidates" if x: "x \<in> set xs" for x
  proof -
    obtain a where "a \<in> set (pending_recovery j)" "classify_one ps a = Inr x" using routed_sources[OF r] x by blast
    then show ?thesis using pending_action[of a j] classify_one_cases(3)[of ps a "fst x" "snd x"] by (cases x) auto
  qed
  then show ?thesis by (simp add: on_route_def filter_empty_conv)
qed

text \<open>With no error on the way there is no ground to refuse.\<close>

lemma no_refusal_cause:
  assumes "distinct (map ra_plugin (pending_recovery j))"
    and discards: "\<forall>a \<in> set (pending_recovery j). ra_action a = Discard_candidate \<longrightarrow> (\<forall>e. discard_pointer ps0 a \<noteq> Inl e)"
    and routes: "routed ps1 (pending_recovery j) = (None, xs)"
    and committed: "\<forall>a \<in> set (on_route To_committed xs). \<forall>e. \<not> committed_error active a e"
  shows "\<not> refusal_cause ps0 ps1 active (pending_recovery j) e"
proof
  assume c: "refusal_cause ps0 ps1 active (pending_recovery j) e"
  have routes_on: "classify_one ps1 a \<noteq> Inl e" if "a \<in> set (pending_recovery j)" for a e
    using routed_all[OF routes] that by fastforce
  have comm: "active (ra_plugin a) = Some (ra_source a)"
    if a: "a \<in> set (pending_recovery j)" "ra_action a = Restore_committed" "stable_rev ps1 (ra_plugin a) = Some (ra_source a)" for a
  proof -
    obtain k b where b: "(k, b) \<in> set xs" "classify_one ps1 a = Inr (k, b)"
      using routed_all[OF routes] a(1) by (metis surj_pair)
    have "k = To_committed" "b = a" using classify_one_cases(4,5)[OF b(2)] a(2,3) by auto
    then have "a \<in> set (on_route To_committed xs)" using b(1) by (force simp: on_route_def)
    then have "\<not> committed_error active a (Missing_generation (ra_plugin a))"
      "\<not> committed_error active a (Stale_generation (ra_plugin a))" using committed by auto
    then show ?thesis by (auto simp: committed_error_def)
  qed
  show False
  proof (cases e)
    case (Several_open p)
    then show ?thesis using c assms(1) by (auto simp: distinct_map inj_on_def)
  next
    case (Discard_mismatch p)
    then show ?thesis using c discards by (auto simp: unlike_pointers_def discard_pointer_def Let_def)
  next
    case (Pointer_fault p)
    then obtain a where a: "a \<in> set (pending_recovery j)" "ra_plugin a = p"
      "ra_action a = Discard_candidate \<and> unlike_pointers ps0 a \<and> latest_rev ps0 p = Some (ra_source a) \<and> \<not> pointer_ok ps0 p \<or>
       ra_action a = Restore_committed \<and> ra_phase a \<in> {Commit_started, Promoting} \<and> unlike_pointers ps1 a \<and>
          latest_rev ps1 p = Some (ra_source a) \<and> \<not> pointer_ok ps1 p" using c by auto
    then show ?thesis using discards routes_on[OF a(1), of e] Pointer_fault
      by (auto simp: unlike_pointers_def discard_pointer_def classify_one_def Let_def)
  next
    case (Source_mismatch p)
    then obtain a where a: "a \<in> set (pending_recovery j)" "ra_plugin a = p" "ra_action a = Restore_committed"
       "stable_rev ps1 p \<noteq> Some (ra_source a)"
       "\<not> (ra_phase a \<in> {Commit_started, Promoting} \<and>
           (latest_rev ps1 p = Some (ra_source a) \<or> stable_rev ps1 p = latest_rev ps1 p \<and> has_state ps1 p))" using c by auto
    then have "classify_one ps1 a = Inl (Source_mismatch p)" by (auto simp: classify_one_def Let_def)
    then show ?thesis using routes_on[OF a(1)] by blast
  qed (use c comm in auto)
qed

text \<open>A computation in stages, each of which may stop it.\<close>

lemma staged_cases:
  assumes "(case u of None \<Rightarrow> (case e1 of None \<Rightarrow> (case e2 of None \<Rightarrow> (case e3 of None \<Rightarrow> (case e4 of None \<Rightarrow> r
      | Some e \<Rightarrow> (Some e, s4)) | Some e \<Rightarrow> (Some e, s3)) | Some e \<Rightarrow> (Some e, s2)) | Some e \<Rightarrow> (Some e, s1))
      | Some e \<Rightarrow> (Some e, s0)) = (err, s)"
  obtains (several) e where "u = Some e" "err = Some e" "s = s0"
    | (discard) e where "e1 = Some e" "err = Some e" "s = s1"
    | (route) e where "e1 = None" "e2 = Some e" "err = Some e" "s = s2"
    | (discarded) e where "e1 = None" "e2 = None" "e3 = Some e" "err = Some e" "s = s3"
    | (committed) e where "e1 = None" "e2 = None" "e3 = None" "e4 = Some e" "err = Some e" "s = s4"
    | (settled) "u = None" "e1 = None" "e2 = None" "e3 = None" "e4 = None" "r = (err, s)"
  using assms by (auto split: option.splits)

text \<open>The stages of a recovery: what was finished, and why it stopped.\<close>

lemma recover_all_run:
  assumes "journal_inv j" "recover_all now ps0 ps1 active j = (err, s)"
  shows "\<exists>d. settled now d j (rr_journal s) \<and> (\<forall>b \<in> set d. \<exists>a \<in> set (pending_recovery j). ra_tx b = ra_tx a) \<and>
    (case err of None \<Rightarrow> (\<forall>a \<in> set (pending_recovery j). ra_tx a \<in> ra_tx ` set d) \<and>
        (\<forall>e. \<not> refusal_cause ps0 ps1 active (pending_recovery j) e)
     | Some e \<Rightarrow> refusal_cause ps0 ps1 active (pending_recovery j) e)"
proof -
  define rec where "rec = pending_recovery j"
  define disc where "disc = filter (\<lambda>a. ra_action a = Discard_candidate) rec"
  define s0 where "s0 = \<lparr>rr_journal = j, rr_removed = [], rr_facts = []\<rparr>"
  have dr: "distinct (map ra_tx rec)" using assms(1) unfolding rec_def by (auto simp: journal_inv_def intro: distinct_pending_recovery)
  have dd: "distinct (map ra_tx disc)" unfolding disc_def by (rule distinct_map_filter[OF dr])
  have fin: "\<forall>a \<in> set disc. can_finish j a" using can_finish_pending(1)[OF assms(1)] by (auto simp: disc_def rec_def)
  have in_rec: "set disc \<subseteq> set rec" by (auto simp: disc_def)
  obtain e1 s1 where r1: "run_steps (discard_step now ps0) disc s0 = (e1, s1)" by fastforce
  obtain e2 xs where r2: "routed ps1 rec = (e2, xs)" by fastforce
  obtain d1 where d1: "set d1 \<subseteq> set disc" "settled now d1 j (rr_journal s1)"
    "case e1 of None \<Rightarrow> d1 = disc \<and> (\<forall>a \<in> set disc. \<forall>e. discard_pointer ps0 a \<noteq> Inl e)
     | Some e \<Rightarrow> \<exists>a \<in> set disc. discard_pointer ps0 a = Inl e"
    using run_steps_settle[OF discard_step_finishes dd _ r1] fin by (auto simp: s0_def)
  define s2 where "s2 = s1\<lparr>rr_removed := rr_removed s1 @ classify_removed ps1 xs\<rparr>"
  obtain e3 s3 where r3: "run_steps (finish_step now (Some False)) (on_route To_discarded xs) s2 = (e3, s3)" by fastforce
  obtain e4 s4 where r4: "run_steps (committed_step now active) (on_route To_committed xs) s3 = (e4, s4)" by fastforce
  note outcome = assms(2)[unfolded recover_all_def Let_def, folded rec_def s0_def, folded disc_def, unfolded r1 r2 prod.case,
    folded s2_def, unfolded r3 r4 prod.case]
  have stages: "\<And>b. b \<in> set (later_actions xs) \<Longrightarrow> \<exists>a \<in> set rec. ra_tx b = ra_tx a"
    "\<exists>d. settled now d j (rr_journal s3) \<and> set d \<subseteq> set disc \<union> set (later_actions xs)"
    "\<exists>d. settled now d j (rr_journal s4) \<and> set d \<subseteq> set disc \<union> set (later_actions xs)"
    "e3 = None"
    "case e4 of None \<Rightarrow> \<forall>a \<in> set (on_route To_committed xs). \<forall>e. \<not> committed_error active a e
      | Some e \<Rightarrow> \<exists>a \<in> set (on_route To_committed xs). committed_error active a e"
    "e4 = None \<Longrightarrow> settled now (disc @ on_route To_discarded xs @ on_route To_committed xs) j (rr_journal s4)"
    if ok: "e1 = None" "e2 = None"
  proof -
    note st = second_stage[OF assms(1) r2[unfolded rec_def ok(2)], folded rec_def, folded disc_def]
    show "\<And>b. b \<in> set (later_actions xs) \<Longrightarrow> \<exists>a \<in> set rec. ra_tx b = ra_tx a" using st(2) by blast
    have parts: "set (on_route To_discarded xs) \<subseteq> set (later_actions xs)" "set (on_route To_committed xs) \<subseteq> set (later_actions xs)"
      "distinct (map ra_tx ((disc @ on_route To_discarded xs) @ on_route To_committed xs))"
      "distinct (map ra_tx (disc @ on_route To_discarded xs))"
      using st(1) by (auto simp: later_actions_def)
    have can: "\<forall>a \<in> set (on_route To_discarded xs). can_finish j a" "\<forall>a \<in> set (on_route To_committed xs). can_finish j a"
      using st(2) parts by auto
    have base: "settled now disc j (rr_journal s2)" using d1(2,3) ok(1) by (simp add: s2_def)
    obtain d3 where d3: "set d3 \<subseteq> set (on_route To_discarded xs)" "settled now (disc @ d3) j (rr_journal s3)"
      "e3 = None" "d3 = on_route To_discarded xs"
      using run_steps_after[OF finish_step_finishes base parts(4) can(1) r3] by (auto split: option.splits)
    show "e3 = None" by (rule d3(3))
    show "\<exists>d. settled now d j (rr_journal s3) \<and> set d \<subseteq> set disc \<union> set (later_actions xs)"
      using d3(1,2) parts(1) by (intro exI[of _ "disc @ d3"]) auto
    obtain d4 where d4: "set d4 \<subseteq> set (on_route To_committed xs)" "settled now ((disc @ d3) @ d4) j (rr_journal s4)"
      "case e4 of None \<Rightarrow> d4 = on_route To_committed xs \<and> (\<forall>a \<in> set (on_route To_committed xs). \<forall>e. \<not> committed_error active a e)
      | Some e \<Rightarrow> \<exists>a \<in> set (on_route To_committed xs). committed_error active a e"
      using run_steps_after[OF committed_step_finishes d3(2) parts(3)[folded d3(4)] can(2) r4] by blast
    show "\<exists>d. settled now d j (rr_journal s4) \<and> set d \<subseteq> set disc \<union> set (later_actions xs)"
      using d3(1) d4(1,2) parts(1,2) by (intro exI[of _ "(disc @ d3) @ d4"]) auto
    show "case e4 of None \<Rightarrow> \<forall>a \<in> set (on_route To_committed xs). \<forall>e. \<not> committed_error active a e
      | Some e \<Rightarrow> \<exists>a \<in> set (on_route To_committed xs). committed_error active a e"
      using d4(3) by (auto split: option.splits)
    show "e4 = None \<Longrightarrow> settled now (disc @ on_route To_discarded xs @ on_route To_committed xs) j (rr_journal s4)"
      using d4(2,3) d3(4) by simp
  qed
  from outcome show ?thesis
  proof (cases rule: staged_cases)
    case (several e)
    then show ?thesis unfolding rec_def[symmetric] using several_open_cause[OF several(1) dr]
      by (intro exI[of _ "[]"]) (simp add: s0_def settled_refl)
  next
    case (discard e)
    then obtain a where "a \<in> set rec" "ra_action a = Discard_candidate" "discard_pointer ps0 a = Inl e"
      using d1(3) by (auto simp: disc_def)
    then have "refusal_cause ps0 ps1 active rec e" by (rule discard_error_cause)
    then show ?thesis unfolding rec_def[symmetric] using discard d1 in_rec by (intro exI[of _ d1]) auto
  next
    case (route e)
    then obtain a where "a \<in> set rec" "classify_one ps1 a = Inl e" using routed_error r2 by blast
    then have "refusal_cause ps0 ps1 active rec e" unfolding rec_def by (rule classify_error_cause)
    then show ?thesis unfolding rec_def[symmetric] using route d1 in_rec by (intro exI[of _ d1]) (auto simp: s2_def)
  next
    case (discarded e)
    note st = stages[OF discarded(1,2)]
    have False using st(4) discarded(3) by simp
    then show ?thesis ..
  next
    case (committed e)
    note st = stages[OF committed(1,2)]
    obtain a where a: "a \<in> set (on_route To_committed xs)" "committed_error active a e"
      using st(5) committed(4) by auto
    have "refusal_cause ps0 ps1 active rec e" unfolding rec_def
      by (rule committed_error_cause[OF r2[unfolded rec_def committed(2)] a])
    moreover obtain d where "settled now d j (rr_journal s)" "set d \<subseteq> set disc \<union> set (later_actions xs)"
      using st(2,3) committed(6) by blast
    ultimately show ?thesis unfolding rec_def[symmetric] using committed(5) st(1) in_rec by (intro exI[of _ d]) auto
  next
    case settled
    note st = stages[OF settled(2,3)]
    have "on_route To_candidates xs = []" using no_candidates r2 settled(3) unfolding rec_def by blast
    then have last: "err = None" "s = s4" and acts: "later_actions xs = on_route To_discarded xs @ on_route To_committed xs"
      using settled(6) by (simp_all add: later_actions_def)
    have "settled now (disc @ later_actions xs) j (rr_journal s)" using st(6) settled(5) by (simp add: last acts)
    moreover have "\<not> refusal_cause ps0 ps1 active rec e" for e unfolding rec_def
    proof (rule no_refusal_cause[OF _ _ r2[unfolded rec_def settled(3)]])
      show "distinct (map ra_plugin (pending_recovery j))" using unique_plugins_none settled(1) unfolding rec_def by blast
      show "\<forall>a \<in> set (pending_recovery j). ra_action a = Discard_candidate \<longrightarrow> (\<forall>e. discard_pointer ps0 a \<noteq> Inl e)"
        using d1(3) settled(2) by (auto simp: disc_def rec_def)
      show "\<forall>a \<in> set (on_route To_committed xs). \<forall>e. \<not> committed_error active a e" using st(5) settled(5) by simp
    qed
    moreover have "ra_tx a \<in> ra_tx ` set (disc @ later_actions xs)" if a: "a \<in> set rec" for a
      using second_stage(3)[OF assms(1) r2[unfolded rec_def settled(3)], of a] a
      by (cases "ra_action a = Discard_candidate") (auto simp: rec_def disc_def)
    ultimately show ?thesis unfolding rec_def[symmetric] using st(1) in_rec last
      by (intro exI[of _ "disc @ later_actions xs"]) auto
  qed
qed

text \<open>What a recovery reports and removes.\<close>

definition records_ok :: "pointers \<Rightarrow> pointers \<Rightarrow> (string \<Rightarrow> string option) \<Rightarrow> reload_recovery list \<Rightarrow> recovery_run \<Rightarrow> bool" where
  "records_ok ps0 ps1 active acts s \<longleftrightarrow>
     (\<forall>p. (p, True) \<in> set (rr_facts s) \<longrightarrow> (\<exists>a \<in> set acts. ra_plugin a = p \<and>
        stable_rev ps1 p = Some (ra_source a) \<and> active p = Some (ra_source a))) \<and>
     (\<forall>p \<in> set (rr_removed s). \<exists>a \<in> set acts. ra_plugin a = p \<and>
        (\<exists>ps \<in> {ps0, ps1}. unlike_pointers ps a \<and> latest_rev ps p = Some (ra_source a)))"

lemma removed_pointer: "discard_pointer ps a = Inr True \<Longrightarrow> unlike_pointers ps a \<and> latest_rev ps (ra_plugin a) = Some (ra_source a)"
  by (auto simp: discard_pointer_def unlike_pointers_def Let_def split: if_splits)

lemma records_ok_discard:
  "records_ok ps0 ps1 active acts s \<Longrightarrow> a \<in> set acts \<Longrightarrow> records_ok ps0 ps1 active acts (snd (discard_step now ps0 a s))"
  using removed_pointer[of ps0 a]
  by (auto simp: discard_step_def finish_step_def records_ok_def split: sum.splits if_splits)

lemma records_ok_finish:
  "records_ok ps0 ps1 active acts s \<Longrightarrow> records_ok ps0 ps1 active acts (snd (finish_step now (Some False) a s))"
  "records_ok ps0 ps1 active acts s \<Longrightarrow> records_ok ps0 ps1 active acts (snd (candidate_step now ps a s))"
  by (auto simp: finish_step_def candidate_step_def records_ok_def split: sum.splits)

lemma records_ok_committed:
  "records_ok ps0 ps1 active acts s \<Longrightarrow> a \<in> set acts \<Longrightarrow> stable_rev ps1 (ra_plugin a) = Some (ra_source a) \<Longrightarrow>
     records_ok ps0 ps1 active acts (snd (committed_step now active a s))"
  by (auto simp: committed_step_def finish_step_def records_ok_def split: sum.splits option.splits)

lemma recover_all_records:
  assumes "recover_all now ps0 ps1 active j = (err, s)"
  shows "records_ok ps0 ps1 active (pending_recovery j) s"
proof -
  define rec where "rec = pending_recovery j"
  define disc where "disc = filter (\<lambda>a. ra_action a = Discard_candidate) rec"
  define s0 where "s0 = \<lparr>rr_journal = j, rr_removed = [], rr_facts = []\<rparr>"
  let ?P = "records_ok ps0 ps1 active rec"
  obtain e1 s1 where r1: "run_steps (discard_step now ps0) disc s0 = (e1, s1)" by fastforce
  obtain e2 xs where r2: "routed ps1 rec = (e2, xs)" by fastforce
  define s2 where "s2 = s1\<lparr>rr_removed := rr_removed s1 @ classify_removed ps1 xs\<rparr>"
  obtain e3 s3 where r3: "run_steps (finish_step now (Some False)) (on_route To_discarded xs) s2 = (e3, s3)" by fastforce
  obtain e4 s4 where r4: "run_steps (committed_step now active) (on_route To_committed xs) s3 = (e4, s4)" by fastforce
  obtain e5 s5 where r5: "run_steps (candidate_step now ps1) (on_route To_candidates xs) s4 = (e5, s5)" by fastforce
  have source: "\<exists>a \<in> set rec. classify_one ps1 a = Inr (k, b)" if "b \<in> set (on_route k xs)" for k b
    using routed_sources[OF r2] that by (force simp: on_route_def)
  have p0: "?P s0" by (simp add: records_ok_def s0_def)
  have p1: "?P s1" by (rule run_steps_invariant[where P = "records_ok ps0 ps1 active rec", OF r1 p0]) (auto simp: disc_def intro: records_ok_discard)
  have p2: "?P s2"
  proof -
    have "\<exists>a \<in> set rec. ra_plugin a = p \<and> unlike_pointers ps1 a \<and> latest_rev ps1 p = Some (ra_source a)"
      if p: "p \<in> set (classify_removed ps1 xs)" for p
    proof -
      obtain b where b: "b \<in> set (on_route To_discarded xs)" "p = ra_plugin b" "discard_pointer ps1 b = Inr True"
        using p by (auto simp: classify_removed_def)
      obtain a where a: "a \<in> set rec" "classify_one ps1 a = Inr (To_discarded, b)" using source[OF b(1)] by blast
      have "ra_plugin b = ra_plugin a" "ra_source b = ra_source a" using classify_one_cases(2)[OF a(2)] by auto
      then show ?thesis using removed_pointer[OF b(3)] b(2) a(1) by (intro bexI[of _ a]) (auto simp: unlike_pointers_def)
    qed
    then show ?thesis using p1 by (auto simp: records_ok_def s2_def)
  qed
  have p3: "?P s3" by (rule run_steps_invariant[where P = "records_ok ps0 ps1 active rec", OF r3 p2]) (rule records_ok_finish)
  have p4: "?P s4"
  proof (rule run_steps_invariant[where P = "records_ok ps0 ps1 active rec", OF r4 p3])
    fix b s assume b: "b \<in> set (on_route To_committed xs)" and s: "?P s"
    obtain a where a: "a \<in> set rec" "classify_one ps1 a = Inr (To_committed, b)" using source[OF b] by blast
    then have "b = a" "stable_rev ps1 (ra_plugin a) = Some (ra_source a)" using classify_one_cases(4)[OF a(2)] by auto
    then show "?P (snd (committed_step now active b s))" using records_ok_committed[OF s a(1)] by simp
  qed
  have p5: "?P s5" by (rule run_steps_invariant[where P = "records_ok ps0 ps1 active rec", OF r5 p4]) (rule records_ok_finish)
  note outcome = assms[unfolded recover_all_def Let_def, folded rec_def s0_def, folded disc_def, unfolded r1 r2 prod.case,
    folded s2_def, unfolded r3 r4 r5 prod.case]
  from outcome have "s \<in> {s0, s1, s2, s3, s4, s5}" by (cases rule: staged_cases) simp_all
  then show ?thesis unfolding rec_def[symmetric] using p0 p1 p2 p3 p4 p5 by auto
qed

text \<open>
  C15. Start-up recovery settles the journal exactly when there is no ground to refuse: no two
  open transactions of one plugin, every pointer it sets back names the source of its transaction
  and can be rewritten, the sources on disk fit every transaction that may have been committed, and
  the generation in use of every plugin committed on disk is there with that source.  It then
  leaves no transaction pending; otherwise it stops with an error whose ground is one of these.
  Either way no transaction disappears, those that had ended are not touched, nothing becomes
  pending, an update is reported as committed only if its source is stable on disk and in use, and
  a latest pointer is set back only if it is an installed one that differs from stable.
\<close>

theorem recovery_settles:
  assumes "journal_reachable j"
  shows "case recover_all now ps0 ps1 active j of (err, s) \<Rightarrow>
      (case err of Some e \<Rightarrow> refusal_cause ps0 ps1 active (pending_recovery j) e
       | None \<Rightarrow> (\<forall>e. \<not> refusal_cause ps0 ps1 active (pending_recovery j) e) \<and> pending_recovery (rr_journal s) = []) \<and>
      map rl_tx (jr_rows (rr_journal s)) = map rl_tx (jr_rows j) \<and>
      set (filter (\<lambda>r. rl_phase r \<in> set terminal_phases) (jr_rows j)) \<subseteq> set (jr_rows (rr_journal s)) \<and>
      set (pending_recovery (rr_journal s)) \<subseteq> set (pending_recovery j) \<and>
      records_ok ps0 ps1 active (pending_recovery j) s"
proof -
  note inv = journal_reachable_inv[OF assms]
  obtain err s where run: "recover_all now ps0 ps1 active j = (err, s)" by fastforce
  obtain d where d: "settled now d j (rr_journal s)" "\<forall>b \<in> set d. \<exists>a \<in> set (pending_recovery j). ra_tx b = ra_tx a"
    "case err of None \<Rightarrow> (\<forall>a \<in> set (pending_recovery j). ra_tx a \<in> ra_tx ` set d) \<and>
        (\<forall>e. \<not> refusal_cause ps0 ps1 active (pending_recovery j) e)
     | Some e \<Rightarrow> refusal_cause ps0 ps1 active (pending_recovery j) e"
    using recover_all_run[OF inv run] by blast
  have cover: "\<exists>a \<in> set (pending_recovery j). ra_tx b = ra_tx a" if "b \<in> set d" for b using d(2) that by blast
  note rows = settled_rows[OF inv d(1) cover]
  have "err = None \<Longrightarrow> pending_recovery (rr_journal s) = []" using d(3) by (intro rows(4)) auto
  then show ?thesis using d(3) rows(1-3) recover_all_records[OF run] by (simp add: run split: option.splits)
qed

definition demo_journal :: "journal_cmd list \<Rightarrow> journal" where
  "demo_journal cs = foldl (\<lambda>j c. case journal_exec c j of Inl e \<Rightarrow> j | Inr j' \<Rightarrow> j') empty_journal cs"

lemma demo_journal_reachable: "journal_reachable (demo_journal cs)"
proof -
  have "journal_reachable j \<Longrightarrow>
    journal_reachable (foldl (\<lambda>j c. case journal_exec c j of Inl e \<Rightarrow> j | Inr j' \<Rightarrow> j') j cs)" for j
    by (induction cs arbitrary: j) (auto intro: journal_step split: sum.split)
  then show ?thesis by (simp add: demo_journal_def journal_new)
qed

definition demo_reloads :: "journal_cmd list" where
  "demo_reloads = [Begin_reload ''x1'' ''t1'' ''weather'' None ''g2'' ''r2'' ''c'',
     Advance ''x1'' Prepared (Some ''s2'') [] [] ''t2'', Annotate ''x1'' [] ''t3'',
     Begin_reload ''x2'' ''t4'' ''feed'' None ''g5'' ''r5'' ''c'', Advance ''x2'' Prepared None [] [] ''t5'',
     Advance ''x2'' Validating None [] [] ''t6'', Advance ''x2'' Commit_started None [] [] ''t7'']"

definition demo_pointers :: pointers where
  "demo_pointers = \<lparr>stable_rev = (\<lambda>p. if p = ''feed'' then Some ''r5'' else Some ''r1''),
     latest_rev = (\<lambda>p. if p = ''feed'' then Some ''r5'' else Some ''r2''), latest_installed = (\<lambda>p. True),
     pointer_ok = (\<lambda>p. True), has_state = (\<lambda>p. True)\<rparr>"

definition demo_reload :: reload_row where
  "demo_reload = the (find_row (demo_journal demo_reloads) ''x1'')"

lemma demo_reload_row: "demo_reload \<in> set (jr_rows (demo_journal demo_reloads))"
proof -
  have "Option.is_none (find_row (demo_journal demo_reloads) ''x1'') = False" by code_simp
  then have "find_row (demo_journal demo_reloads) ''x1'' = Some demo_reload"
    unfolding demo_reload_def by (metis not_is_none_the)
  then show ?thesis by (rule find_row_Some[THEN conjunct1])
qed

theorem reload_history_witness:
  "history ''x1'' (demo_journal demo_reloads) = [Preparing, Prepared, Prepared] \<and>
   last (history ''x1'' (demo_journal demo_reloads)) = rl_phase demo_reload"
proof -
  have h: "history ''x1'' (demo_journal demo_reloads) = [Preparing, Prepared, Prepared]" "rl_tx demo_reload = ''x1''"
    by code_simp+
  show ?thesis using h reload_history[OF demo_journal_reachable demo_reload_row] by simp
qed

theorem reload_terminates_witness:
  "\<exists>j' r'. finish_recovery ''t9'' (action_of_row demo_reload) (demo_journal demo_reloads) = Inr j' \<and>
     find_row j' ''x1'' = Some r' \<and> rl_phase r' \<in> set terminal_phases"
proof -
  have h: "rl_phase demo_reload \<notin> set terminal_phases" "rl_tx demo_reload = ''x1''" by code_simp+
  show ?thesis using h reload_terminates[OF demo_journal_reachable demo_reload_row, where now = "''t9''"] by simp
qed

text \<open>The journal of the demonstration has a transaction to discard, with a latest pointer to set back,
  and one that was committed on disk.\<close>

theorem recovery_settles_witness:
  "fst (recover_all ''t9'' demo_pointers demo_pointers (stable_rev demo_pointers) (demo_journal demo_reloads)) = None \<and>
   rr_removed (snd (recover_all ''t9'' demo_pointers demo_pointers (stable_rev demo_pointers) (demo_journal demo_reloads))) = [''weather''] \<and>
   pending_recovery (rr_journal (snd (recover_all ''t9'' demo_pointers demo_pointers (stable_rev demo_pointers) (demo_journal demo_reloads)))) = [] \<and>
   refusal_cause demo_pointers demo_pointers (\<lambda>p. None) (pending_recovery (demo_journal demo_reloads)) (Missing_generation ''feed'')"
proof -
  define res where "res = recover_all ''t9'' demo_pointers demo_pointers (stable_rev demo_pointers) (demo_journal demo_reloads)"
  define bad where "bad = recover_all ''t9'' demo_pointers demo_pointers (\<lambda>p. None) (demo_journal demo_reloads)"
  have ok: "fst res = None" "rr_removed (snd res) = [''weather'']" unfolding res_def by code_simp+
  have no: "fst bad = Some (Missing_generation ''feed'')" unfolding bad_def by code_simp
  have r: "pending_recovery (rr_journal (snd res)) = []"
    using recovery_settles[OF demo_journal_reachable, where now = "''t9''" and cs1 = demo_reloads and
      ?ps0.0 = demo_pointers and ?ps1.0 = demo_pointers and active = "stable_rev demo_pointers", folded res_def] ok(1)
    by (cases res) simp
  have b: "refusal_cause demo_pointers demo_pointers (\<lambda>p. None) (pending_recovery (demo_journal demo_reloads)) (Missing_generation ''feed'')"
    using recovery_settles[OF demo_journal_reachable, where now = "''t9''" and cs1 = demo_reloads and
      ?ps0.0 = demo_pointers and ?ps1.0 = demo_pointers and active = "\<lambda>p. None", folded bad_def] no
    by (cases bad) simp
  show ?thesis unfolding res_def[symmetric] using ok r b by blast
qed

end
