(* ===== verification/Snapshot_Store.thy ===== *)
theory Snapshot_Store
  imports Roxy_Prelude
begin

text \<open>
  The store of runtime snapshots of agent/plugins/snapshot.py (lines 29--77, 276--310 and
  375--850): a turn, job or event leases the snapshot of plugin generations it runs on, new
  snapshots are published, promoted or discarded meanwhile, and an old snapshot is cleaned up
  only when its leases are released.  Snapshots are objects in a heap, a lease is an object of
  its own, and every operation is split at its awaits into the commands of \<open>snap_exec\<close>; a
  clean-up that is running is an entry of \<open>ss_drains\<close>.
\<close>

datatype snap_state = Compiled | Validating | Committed | Aborted | Retired

record snapshot =
  sn_id :: string
  sn_gens :: "(string, nat) dict"
  sn_mcp :: "nat option"
  sn_state :: snap_state
  sn_count :: int
  sn_accepting :: bool
  sn_claimed :: bool

record lease =
  le_snap :: nat
  le_active :: bool
  le_plugins :: "string list"

record snap_store =
  ss_heap :: "nat \<Rightarrow> snapshot"
  ss_next :: nat
  ss_current :: "nat option"
  ss_latest :: "nat option"
  ss_snaps :: "(string, nat) dict"
  ss_pending :: "(nat option \<times> nat) option"
  ss_drains :: "(string, nat) dict"
  ss_failures :: "string list"
  ss_gen_count :: "nat \<Rightarrow> int"
  ss_mcp_count :: "nat \<Rightarrow> int"
  ss_leases :: "lease list"
  ss_closing :: bool

datatype snap_error = Not_fresh | Already_installed | Publishing_already | Candidate_waiting | Exists string
  | No_transaction | No_candidate | Admission_open | Wrong_candidate | Unavailable | Not_leasable snap_state
  | Paused | Not_forkable | Imbalance string | Callback | Still_leased | Transaction_open

definition new_store :: snap_store where
  "new_store = \<lparr>ss_heap = (\<lambda>r. \<lparr>sn_id = [], sn_gens = [], sn_mcp = None, sn_state = Compiled, sn_count = 0,
     sn_accepting = True, sn_claimed = False\<rparr>), ss_next = 0, ss_current = None, ss_latest = None, ss_snaps = [],
     ss_pending = None, ss_drains = [], ss_failures = [], ss_gen_count = (\<lambda>g. 0), ss_mcp_count = (\<lambda>g. 0),
     ss_leases = [], ss_closing = False\<rparr>"

definition upd_snap :: "nat \<Rightarrow> (snapshot \<Rightarrow> snapshot) \<Rightarrow> snap_store \<Rightarrow> snap_store" where
  "upd_snap r f s = s\<lparr>ss_heap := (ss_heap s)(r := f (ss_heap s r))\<rparr>"

definition set_state :: "nat \<Rightarrow> snap_state \<Rightarrow> snap_store \<Rightarrow> snap_store" where
  "set_state r st = upd_snap r (\<lambda>x. x\<lparr>sn_state := st\<rparr>)"

definition set_accepting :: "nat \<Rightarrow> bool \<Rightarrow> snap_store \<Rightarrow> snap_store" where
  "set_accepting r b = upd_snap r (\<lambda>x. x\<lparr>sn_accepting := b\<rparr>)"

subsection \<open>Views\<close>

definition latest_snap :: "snap_store \<Rightarrow> nat option" where
  "latest_snap s = (case ss_latest s of Some r \<Rightarrow> Some r | None \<Rightarrow> ss_current s)"

definition unpromoted :: "snap_store \<Rightarrow> nat option" where
  "unpromoted s = (if latest_snap s \<noteq> ss_current s then latest_snap s else None)"

definition referenced_elsewhere :: "snap_store \<Rightarrow> (snapshot \<Rightarrow> bool) \<Rightarrow> string \<Rightarrow> bool" where
  "referenced_elsewhere s uses excluding = list_ex (\<lambda>(k, r). let x = ss_heap s r in
     sn_id x \<noteq> excluding \<and> (sn_state x \<in> {Validating, Committed} \<or> sn_count x > 0) \<and> uses x) (ss_snaps s)"

definition generation_referenced_elsewhere :: "nat \<Rightarrow> string \<Rightarrow> snap_store \<Rightarrow> bool" where
  "generation_referenced_elsewhere g excluding s =
     referenced_elsewhere s (\<lambda>x. list_ex (\<lambda>(k, h). h = g) (sn_gens x)) excluding"

definition mcp_referenced_elsewhere :: "nat \<Rightarrow> string \<Rightarrow> snap_store \<Rightarrow> bool" where
  "mcp_referenced_elsewhere g excluding s = referenced_elsewhere s (\<lambda>x. sn_mcp x = Some g) excluding"

subsection \<open>Draining\<close>

definition schedule_drain :: "nat \<Rightarrow> snap_store \<Rightarrow> snap_store" where
  "schedule_drain r s = (let x = ss_heap s r in
     if dict_get (ss_snaps s) (sn_id x) \<noteq> Some r \<or> sn_state x \<notin> {Retired, Aborted} \<or> sn_count x \<noteq> 0 then s
     else if dict_get (ss_drains s) (sn_id x) \<noteq> None then s
     else s\<lparr>ss_failures := removeAll (sn_id x) (ss_failures s),
            ss_drains := dict_set (ss_drains s) (sn_id x) r\<rparr>)"

text \<open>The end of a clean-up, with the outcome of the \<open>on_drained\<close> callback.\<close>

definition drain_done :: "string \<Rightarrow> bool \<Rightarrow> snap_store \<Rightarrow> snap_store" where
  "drain_done k ok s = (case dict_get (ss_drains s) k of None \<Rightarrow> s
     | Some r \<Rightarrow> (if ok then s\<lparr>ss_snaps := dict_del (ss_snaps s) k\<rparr>
                  else s\<lparr>ss_failures := ss_failures s @ [k]\<rparr>)\<lparr>ss_drains := dict_del (ss_drains s) k\<rparr>)"

definition retry_drains :: "snap_store \<Rightarrow> snap_store" where
  "retry_drains s = fold (\<lambda>(k, r). schedule_drain r) (ss_snaps s) s"

subsection \<open>Publishing\<close>

definition claim_snapshot :: "nat \<Rightarrow> snap_store \<Rightarrow> snap_error + snap_store" where
  "claim_snapshot r s = (let x = ss_heap s r in
     if sn_state x \<noteq> Compiled \<or> sn_count x \<noteq> 0 \<or> sn_claimed x then Inl Not_fresh
     else Inr (upd_snap r (\<lambda>x. x\<lparr>sn_claimed := True\<rparr>) s))"

definition install_snapshot :: "nat \<Rightarrow> snap_store \<Rightarrow> snap_error + snap_store" where
  "install_snapshot r s =
     (if ss_current s \<noteq> None \<or> ss_pending s \<noteq> None then Inl Already_installed
      else case claim_snapshot r s of Inl e \<Rightarrow> Inl e
        | Inr s1 \<Rightarrow> Inr ((set_state r Committed s1)\<lparr>ss_current := Some r, ss_latest := Some r,
            ss_snaps := dict_set (ss_snaps s) (sn_id (ss_heap s r)) r\<rparr>))"

definition begin_publish :: "nat \<Rightarrow> snap_store \<Rightarrow> snap_error + snap_store" where
  "begin_publish r s =
     (if ss_pending s \<noteq> None then Inl Publishing_already
      else if unpromoted s \<noteq> None then Inl Candidate_waiting
      else if dict_get (ss_snaps s) (sn_id (ss_heap s r)) \<noteq> None then Inl (Exists (sn_id (ss_heap s r)))
      else case claim_snapshot r s of Inl e \<Rightarrow> Inl e
        | Inr s1 \<Rightarrow> Inr ((set_accepting r False (set_state r Validating s1))
            \<lparr>ss_snaps := dict_set (ss_snaps s) (sn_id (ss_heap s r)) r,
             ss_pending := Some (ss_current s, r)\<rparr>))"

text \<open>\<open>before_ok\<close> and \<open>after_ok\<close>: the callbacks returned.  The second component of a result says
  whether the operation raised.\<close>

definition open_candidate :: "nat \<Rightarrow> snap_store \<Rightarrow> snap_store" where
  "open_candidate c s = (set_accepting c True (set_state c Committed s))\<lparr>ss_latest := Some c, ss_pending := None\<rparr>"

definition commit_snapshot :: "bool \<Rightarrow> bool \<Rightarrow> snap_store \<Rightarrow> snap_error option \<times> snap_store" where
  "commit_snapshot before_ok after_ok s =
     (case ss_pending s of None \<Rightarrow> (Some No_transaction, s)
      | Some (previous, c) \<Rightarrow>
          if \<not> before_ok then (Some Callback, s)
          else let s1 = (open_candidate c s)\<lparr>ss_current := Some c\<rparr> in
            (case previous of None \<Rightarrow> (None, s1)
             | Some p \<Rightarrow> let s2 = set_state p Retired s1 in
                 if after_ok then (None, schedule_drain p s2) else (Some Callback, s2)))"

definition commit_latest :: "bool \<Rightarrow> snap_store \<Rightarrow> snap_error option \<times> snap_store" where
  "commit_latest before_ok s =
     (case ss_pending s of None \<Rightarrow> (Some No_transaction, s)
      | Some (previous, c) \<Rightarrow> if \<not> before_ok then (Some Callback, s) else (None, open_candidate c s))"

definition promote_latest :: "bool \<Rightarrow> bool \<Rightarrow> snap_store \<Rightarrow> snap_error option \<times> snap_store" where
  "promote_latest before_ok after_ok s =
     (case unpromoted s of None \<Rightarrow> (Some No_candidate, s)
      | Some c \<Rightarrow>
          if sn_accepting (ss_heap s c) then (Some Admission_open, s)
          else if \<not> before_ok then (Some Callback, s)
          else let s1 = (set_accepting c True s)\<lparr>ss_current := Some c, ss_latest := Some c\<rparr>;
              s2 = (case ss_current s of None \<Rightarrow> s1
                    | Some p \<Rightarrow> set_accepting p False (set_state p Retired s1)) in
            if after_ok then (None, case ss_current s of None \<Rightarrow> s2 | Some p \<Rightarrow> schedule_drain p s2)
            else (Some Callback,
              let s3 = (set_accepting c True s2)\<lparr>ss_current := ss_current s, ss_latest := Some c\<rparr> in
              case ss_current s of None \<Rightarrow> s3
              | Some p \<Rightarrow> set_accepting p True (set_state p Committed s3)))"

text \<open>\<open>discard_latest\<close> up to its first await; the clean-up is scheduled when the leases are gone.\<close>

definition discard_latest :: "nat option \<Rightarrow> snap_store \<Rightarrow> snap_error option \<times> snap_store" where
  "discard_latest expected s =
     (case unpromoted s of
        None \<Rightarrow> (case expected of
            Some r \<Rightarrow> if sn_state (ss_heap s r) = Aborted then (None, s) else (Some No_candidate, s)
          | None \<Rightarrow> (Some No_candidate, s))
      | Some c \<Rightarrow>
          if expected \<noteq> None \<and> expected \<noteq> Some c then (Some Wrong_candidate, s)
          else if sn_state (ss_heap s c) = Aborted then (None, s)
          else (None, (set_accepting c False (set_state c Aborted s))\<lparr>ss_latest := ss_current s\<rparr>))"

definition abort_publish :: "snap_store \<Rightarrow> snap_error option \<times> snap_store" where
  "abort_publish s =
     (case ss_pending s of None \<Rightarrow> (Some No_transaction, s)
      | Some (previous, c) \<Rightarrow>
          let s1 = set_accepting c False (set_state c Aborted s);
              s2 = (case previous of Some p \<Rightarrow> if ss_current s1 = previous then set_accepting p True s1 else s1
                    | None \<Rightarrow> s1) in
            (None, schedule_drain c (s2\<lparr>ss_pending := None\<rparr>)))"

definition pause_admission :: "snap_store \<Rightarrow> snap_store" where
  "pause_admission s = (case ss_current s of None \<Rightarrow> s | Some r \<Rightarrow> set_accepting r False s)"

definition pause_candidate :: "nat \<Rightarrow> snap_store \<Rightarrow> snap_error option \<times> snap_store" where
  "pause_candidate expected s =
     (if unpromoted s \<noteq> Some expected then (Some Wrong_candidate, s) else (None, set_accepting expected False s))"

definition resume_snapshot :: "nat \<Rightarrow> snap_store \<Rightarrow> snap_store" where
  "resume_snapshot r s =
     (if sn_state (ss_heap s r) = Committed \<and> (ss_current s = Some r \<or> unpromoted s = Some r)
      then set_accepting r True s else s)"

subsection \<open>Leases\<close>

definition count_lease :: "nat \<Rightarrow> int \<Rightarrow> snap_store \<Rightarrow> snap_store" where
  "count_lease r d s = (let x = ss_heap s r in
     (upd_snap r (\<lambda>x. x\<lparr>sn_count := sn_count x + d\<rparr>) s)
       \<lparr>ss_gen_count := fold (\<lambda>(k, g) f. f(g := f g + d)) (sn_gens x) (ss_gen_count s),
        ss_mcp_count := (case sn_mcp x of None \<Rightarrow> ss_mcp_count s
          | Some g \<Rightarrow> (ss_mcp_count s)(g := ss_mcp_count s g + d))\<rparr>)"

definition validation_plugins :: "nat \<Rightarrow> snap_store \<Rightarrow> string list" where
  "validation_plugins r s = (case ss_current s of None \<Rightarrow> []
     | Some cur \<Rightarrow> if unpromoted s \<noteq> Some r then []
         else map fst (filter (\<lambda>(k, g). dict_get (sn_gens (ss_heap s cur)) k \<noteq> Some g) (sn_gens (ss_heap s r))))"

definition add_lease :: "nat \<Rightarrow> string list \<Rightarrow> snap_store \<Rightarrow> snap_store" where
  "add_lease r plugins s = (count_lease r 1 s)\<lparr>ss_leases := ss_leases s @
     [\<lparr>le_snap = r, le_active = True, le_plugins = plugins\<rparr>]\<rparr>"

text \<open>The snapshot a request names: by id, or the stable or latest one.\<close>

datatype selector = By_id string | Stable | Latest

definition selected :: "selector \<Rightarrow> snap_store \<Rightarrow> nat option" where
  "selected sel s = (case sel of By_id k \<Rightarrow> dict_get (ss_snaps s) k | Stable \<Rightarrow> ss_current s | Latest \<Rightarrow> latest_snap s)"

text \<open>\<open>lease\<close>, and each look of \<open>acquire\<close>, which waits where \<open>lease\<close> raises \<open>Paused\<close>.\<close>

definition take_lease :: "selector \<Rightarrow> snap_store \<Rightarrow> snap_error + snap_store" where
  "take_lease sel s = (case selected sel s of None \<Rightarrow> Inl Unavailable
     | Some r \<Rightarrow> let x = ss_heap s r in
         if sn_state x \<noteq> Committed then Inl (Not_leasable (sn_state x))
         else if \<not> sn_accepting x then Inl Paused
         else Inr (add_lease r (validation_plugins r s) s))"

definition fork_lease :: "nat \<Rightarrow> snap_store \<Rightarrow> snap_error + snap_store" where
  "fork_lease i s = (let l = ss_leases s ! i; r = le_snap l in
     if \<not> le_active l \<or> dict_get (ss_snaps s) (sn_id (ss_heap s r)) \<noteq> Some r then Inl Not_forkable
     else Inr (add_lease r (le_plugins l) s))"

text \<open>\<open>RuntimeSnapshotLease.release\<close>; a lease that was released does nothing.\<close>

definition release_lease :: "nat \<Rightarrow> snap_store \<Rightarrow> snap_error option \<times> snap_store" where
  "release_lease i s = (let l = ss_leases s ! i; r = le_snap l in
     if \<not> le_active l then (None, s)
     else let s1 = s\<lparr>ss_leases := (ss_leases s)[i := l\<lparr>le_active := False\<rparr>]\<rparr> in
       if sn_count (ss_heap s r) \<le> 0 then (Some (Imbalance (sn_id (ss_heap s r))), s1)
       else (None, schedule_drain r (count_lease r (- 1) s1)))"

subsection \<open>Closing\<close>

text \<open>The checks; the retry of clean-ups that follows is the command \<open>Retry\<close>.\<close>

definition close_begin :: "snap_store \<Rightarrow> snap_error option \<times> snap_store" where
  "close_begin s = (if ss_pending s \<noteq> None then (Some Transaction_open, s)
     else if list_ex (\<lambda>(k, r). sn_count (ss_heap s r) \<noteq> 0) (ss_snaps s) then (Some Still_leased, s)
     else (None, s\<lparr>ss_closing := True\<rparr>))"

text \<open>After the clean-ups that were under way, up to the last retry.\<close>

definition close_end :: "snap_store \<Rightarrow> snap_store" where
  "close_end s = (if \<not> ss_closing s then s
     else let latest = unpromoted s;
         s1 = s\<lparr>ss_latest := ss_current s\<rparr>;
         s2 = (case latest of None \<Rightarrow> s1
               | Some c \<Rightarrow> schedule_drain c (set_accepting c False (set_state c Aborted s1)));
         s3 = s2\<lparr>ss_current := None, ss_latest := None, ss_closing := False\<rparr> in
       case ss_current s2 of None \<Rightarrow> s3
       | Some r \<Rightarrow> schedule_drain r (set_state r Retired s3))"

subsection \<open>Steps\<close>

datatype snap_cmd =
    New_snapshot string "(string, nat) dict" "nat option"
  | Install nat | Begin nat | Commit_snap bool bool | Commit_latest bool | Promote bool bool
  | Discard "nat option" | Abort | Pause | Pause_candidate nat | Resume nat
  | Lease selector | Fork nat | Release nat
  | Schedule nat | Retry | Drain_done string bool
  | Close_begin | Close_end

definition keep_error :: "snap_store \<Rightarrow> snap_error + snap_store \<Rightarrow> snap_store" where
  "keep_error s r = (case r of Inl e \<Rightarrow> s | Inr s' \<Rightarrow> s')"

text \<open>The manager installs its first snapshot into an empty store; arguments name existing objects.\<close>

definition snap_exec :: "snap_cmd \<Rightarrow> snap_store \<Rightarrow> snap_store" where
  "snap_exec c s = (case c of
     New_snapshot k gens mcp \<Rightarrow> s\<lparr>ss_heap := (ss_heap s)(ss_next s := \<lparr>sn_id = k, sn_gens = gens, sn_mcp = mcp,
       sn_state = Compiled, sn_count = 0, sn_accepting = True, sn_claimed = False\<rparr>), ss_next := ss_next s + 1\<rparr>
   | Install r \<Rightarrow> if r < ss_next s \<and> ss_snaps s = [] then keep_error s (install_snapshot r s) else s
   | Begin r \<Rightarrow> if r < ss_next s then keep_error s (begin_publish r s) else s
   | Commit_snap b a \<Rightarrow> snd (commit_snapshot b a s)
   | Commit_latest b \<Rightarrow> snd (commit_latest b s)
   | Promote b a \<Rightarrow> snd (promote_latest b a s)
   | Discard e \<Rightarrow> snd (discard_latest e s)
   | Abort \<Rightarrow> snd (abort_publish s)
   | Pause \<Rightarrow> pause_admission s
   | Pause_candidate r \<Rightarrow> snd (pause_candidate r s)
   | Resume r \<Rightarrow> resume_snapshot r s
   | Lease sel \<Rightarrow> keep_error s (take_lease sel s)
   | Fork i \<Rightarrow> if i < length (ss_leases s) then keep_error s (fork_lease i s) else s
   | Release i \<Rightarrow> if i < length (ss_leases s) then snd (release_lease i s) else s
   | Schedule r \<Rightarrow> schedule_drain r s
   | Retry \<Rightarrow> retry_drains s
   | Drain_done k ok \<Rightarrow> drain_done k ok s
   | Close_begin \<Rightarrow> snd (close_begin s)
   | Close_end \<Rightarrow> close_end s)"

inductive snap_reachable :: "snap_store \<Rightarrow> bool" where
  snap_new: "snap_reachable new_store"
| snap_step: "snap_reachable s \<Longrightarrow> snap_reachable (snap_exec c s)"

subsection \<open>Frames\<close>

lemma upd_snap_frame [simp]:
  "ss_next (upd_snap r f s) = ss_next s" "ss_current (upd_snap r f s) = ss_current s"
  "ss_latest (upd_snap r f s) = ss_latest s" "ss_snaps (upd_snap r f s) = ss_snaps s"
  "ss_pending (upd_snap r f s) = ss_pending s" "ss_drains (upd_snap r f s) = ss_drains s"
  "ss_gen_count (upd_snap r f s) = ss_gen_count s" "ss_mcp_count (upd_snap r f s) = ss_mcp_count s"
  "ss_leases (upd_snap r f s) = ss_leases s" "ss_closing (upd_snap r f s) = ss_closing s"
  "ss_heap (upd_snap r f s) = (ss_heap s)(r := f (ss_heap s r))"
  by (simp_all add: upd_snap_def)

lemma set_frame [simp]:
  "ss_next (set_state r x s) = ss_next s" "ss_current (set_state r x s) = ss_current s"
  "ss_latest (set_state r x s) = ss_latest s" "ss_snaps (set_state r x s) = ss_snaps s"
  "ss_pending (set_state r x s) = ss_pending s" "ss_drains (set_state r x s) = ss_drains s"
  "ss_gen_count (set_state r x s) = ss_gen_count s" "ss_mcp_count (set_state r x s) = ss_mcp_count s"
  "ss_leases (set_state r x s) = ss_leases s" "ss_closing (set_state r x s) = ss_closing s"
  "ss_heap (set_state r x s) q = (if q = r then (ss_heap s q)\<lparr>sn_state := x\<rparr> else ss_heap s q)"
  "ss_next (set_accepting r b s) = ss_next s" "ss_current (set_accepting r b s) = ss_current s"
  "ss_latest (set_accepting r b s) = ss_latest s" "ss_snaps (set_accepting r b s) = ss_snaps s"
  "ss_pending (set_accepting r b s) = ss_pending s" "ss_drains (set_accepting r b s) = ss_drains s"
  "ss_gen_count (set_accepting r b s) = ss_gen_count s" "ss_mcp_count (set_accepting r b s) = ss_mcp_count s"
  "ss_leases (set_accepting r b s) = ss_leases s" "ss_closing (set_accepting r b s) = ss_closing s"
  "ss_heap (set_accepting r b s) q = (if q = r then (ss_heap s q)\<lparr>sn_accepting := b\<rparr> else ss_heap s q)"
  by (simp_all add: set_state_def set_accepting_def)

lemma schedule_drain_frame [simp]:
  "ss_heap (schedule_drain r s) = ss_heap s" "ss_next (schedule_drain r s) = ss_next s"
  "ss_current (schedule_drain r s) = ss_current s" "ss_latest (schedule_drain r s) = ss_latest s"
  "ss_snaps (schedule_drain r s) = ss_snaps s" "ss_pending (schedule_drain r s) = ss_pending s"
  "ss_gen_count (schedule_drain r s) = ss_gen_count s" "ss_mcp_count (schedule_drain r s) = ss_mcp_count s"
  "ss_leases (schedule_drain r s) = ss_leases s" "ss_closing (schedule_drain r s) = ss_closing s"
  by (simp_all add: schedule_drain_def Let_def)

subsection \<open>The invariant\<close>

definition ptr_inv :: "snap_store \<Rightarrow> bool" where
  "ptr_inv s \<longleftrightarrow>
     (\<forall>k r. dict_get (ss_snaps s) k = Some r \<longrightarrow> r < ss_next s \<and> sn_id (ss_heap s r) = k \<and>
        sn_claimed (ss_heap s r) \<and> sn_state (ss_heap s r) \<noteq> Compiled) \<and>
     (\<forall>k r. dict_get (ss_drains s) k = Some r \<longrightarrow> dict_get (ss_snaps s) k = Some r \<and>
        sn_state (ss_heap s r) \<in> {Retired, Aborted} \<and> sn_count (ss_heap s r) = 0) \<and>
     (\<forall>r. ss_current s = Some r \<or> ss_latest s = Some r \<longrightarrow>
        dict_get (ss_snaps s) (sn_id (ss_heap s r)) = Some r \<and> sn_state (ss_heap s r) = Committed) \<and>
     (\<forall>p c. ss_pending s = Some (p, c) \<longrightarrow> dict_get (ss_snaps s) (sn_id (ss_heap s c)) = Some c \<and>
        sn_state (ss_heap s c) = Validating \<and> ss_latest s = ss_current s \<and> (p = ss_current s \<or> ss_current s = None) \<and>
        (\<forall>q. p = Some q \<longrightarrow> q < ss_next s \<and> sn_state (ss_heap s q) \<in> {Committed, Retired})) \<and>
     (ss_latest s = None \<longrightarrow> ss_current s = None)"

text \<open>The active leases on a snapshot, and the leases it holds on a generation.\<close>

definition leases_on :: "snap_store \<Rightarrow> nat \<Rightarrow> lease list" where
  "leases_on s r = filter (\<lambda>l. le_active l \<and> le_snap l = r) (ss_leases s)"

definition uses_of :: "snapshot \<Rightarrow> nat \<Rightarrow> nat" where
  "uses_of x g = length (filter (\<lambda>(k, h). h = g) (sn_gens x))"

definition held :: "snap_store \<Rightarrow> (snapshot \<Rightarrow> nat) \<Rightarrow> nat" where
  "held s f = (\<Sum>l\<leftarrow>filter le_active (ss_leases s). f (ss_heap s (le_snap l)))"

definition lease_inv :: "snap_store \<Rightarrow> bool" where
  "lease_inv s \<longleftrightarrow> (\<forall>r. sn_count (ss_heap s r) = int (length (leases_on s r))) \<and>
     (\<forall>g. ss_gen_count s g = int (held s (\<lambda>x. uses_of x g))) \<and>
     (\<forall>g. ss_mcp_count s g = int (held s (\<lambda>x. if sn_mcp x = Some g then 1 else 0))) \<and>
     (\<forall>l \<in> set (ss_leases s). le_snap l < ss_next s \<and>
        (le_active l \<longrightarrow> dict_get (ss_snaps s) (sn_id (ss_heap s (le_snap l))) = Some (le_snap l)))"

definition snap_inv :: "snap_store \<Rightarrow> bool" where
  "snap_inv s \<longleftrightarrow> ptr_inv s \<and> lease_inv s"

text \<open>Steps that touch neither the leases nor what they lease, and keep every stored snapshot.\<close>

definition leases_kept :: "snap_store \<Rightarrow> snap_store \<Rightarrow> bool" where
  "leases_kept s s' \<longleftrightarrow> ss_leases s' = ss_leases s \<and> ss_gen_count s' = ss_gen_count s \<and> ss_mcp_count s' = ss_mcp_count s \<and>
     ss_next s' = ss_next s \<and> (\<forall>r. sn_count (ss_heap s' r) = sn_count (ss_heap s r) \<and> sn_id (ss_heap s' r) = sn_id (ss_heap s r) \<and>
       sn_gens (ss_heap s' r) = sn_gens (ss_heap s r) \<and> sn_mcp (ss_heap s' r) = sn_mcp (ss_heap s r)) \<and>
     (\<forall>k r. dict_get (ss_snaps s) k = Some r \<longrightarrow> dict_get (ss_snaps s') k = Some r)"

lemma leases_kept_inv:
  assumes "leases_kept s s'" "lease_inv s"
  shows "lease_inv s'"
proof -
  have on: "leases_on s' r = leases_on s r" for r using assms(1) by (simp add: leases_on_def leases_kept_def)
  have u: "uses_of (ss_heap s' r) g = uses_of (ss_heap s r) g" for r g using assms(1) by (simp add: uses_of_def leases_kept_def)
  have "held s' (\<lambda>x. uses_of x g) = held s (\<lambda>x. uses_of x g)"
      "held s' (\<lambda>x. if sn_mcp x = Some g then 1 else 0) = held s (\<lambda>x. if sn_mcp x = Some g then 1 else 0)" for g
    using assms(1) by (simp_all add: held_def u leases_kept_def)
  then show ?thesis using assms on by (auto simp: lease_inv_def leases_kept_def)
qed

lemma leases_kept_refl [simp]: "leases_kept s s"
  by (simp add: leases_kept_def)

lemma leases_kept_trans: "leases_kept s t \<Longrightarrow> leases_kept t u \<Longrightarrow> leases_kept s u"
  by (simp add: leases_kept_def)

lemma leases_kept_schedule [simp]: "leases_kept s (schedule_drain r s)"
  by (simp add: leases_kept_def)

lemma schedule_drain_inv: "ptr_inv s \<Longrightarrow> ptr_inv (schedule_drain r s)"
  by (auto simp: ptr_inv_def schedule_drain_def Let_def)

lemma fold_schedule: "ptr_inv s \<Longrightarrow> ptr_inv (fold (\<lambda>(k, r). schedule_drain r) rs s) \<and>
    leases_kept s (fold (\<lambda>(k, r). schedule_drain r) rs s)"
proof (induction rs arbitrary: s)
  case (Cons x rs)
  obtain k r where x: "x = (k, r)" by (cases x)
  show ?case using Cons.IH[OF schedule_drain_inv[OF Cons.prems, of r]] unfolding x
    by (auto intro: leases_kept_trans[OF leases_kept_schedule])
qed simp

lemma retry_drains_inv: "ptr_inv s \<Longrightarrow> ptr_inv (retry_drains s)"
  and leases_kept_retry: "ptr_inv s \<Longrightarrow> leases_kept s (retry_drains s)"
  unfolding retry_drains_def using fold_schedule by blast+

subsection \<open>Publishing keeps the invariant\<close>

lemmas ptr_invD =
  ptr_inv_def[THEN iffD1, THEN conjunct1]
  ptr_inv_def[THEN iffD1, THEN conjunct2, THEN conjunct1]
  ptr_inv_def[THEN iffD1, THEN conjunct2, THEN conjunct2, THEN conjunct1]
  ptr_inv_def[THEN iffD1, THEN conjunct2, THEN conjunct2, THEN conjunct2, THEN conjunct1]
  ptr_inv_def[THEN iffD1, THEN conjunct2, THEN conjunct2, THEN conjunct2, THEN conjunct2]

lemma claim_snapshot_Inr:
  assumes "claim_snapshot r s = Inr s1"
  shows "s1 = upd_snap r (\<lambda>x. x\<lparr>sn_claimed := True\<rparr>) s" "sn_state (ss_heap s r) = Compiled"
    "sn_count (ss_heap s r) = 0" "\<not> sn_claimed (ss_heap s r)"
  using assms by (auto simp: claim_snapshot_def Let_def split: if_splits)

lemma unclaimed_free:
  assumes "ptr_inv s" "\<not> sn_claimed (ss_heap s r)"
  shows "dict_get (ss_snaps s) k \<noteq> Some r" "dict_get (ss_drains s) k \<noteq> Some r" "ss_current s \<noteq> Some r"
    "ss_latest s \<noteq> Some r" "ss_pending s \<noteq> Some (p, r)"
proof -
  show a: "dict_get (ss_snaps s) k \<noteq> Some r" for k using ptr_invD(1)[OF assms(1)] assms(2) by blast
  show "dict_get (ss_drains s) k \<noteq> Some r" using ptr_invD(2)[OF assms(1)] a by blast
  show "ss_current s \<noteq> Some r" "ss_latest s \<noteq> Some r" using ptr_invD(3)[OF assms(1)] a by blast+
  show "ss_pending s \<noteq> Some (p, r)" using ptr_invD(4)[OF assms(1)] a by blast
qed

lemma install_inv:
  assumes "ptr_inv s" "r < ss_next s" "ss_snaps s = []" "install_snapshot r s = Inr s'"
  shows "ptr_inv s' \<and> leases_kept s s'"
proof -
  obtain s1 where c: "claim_snapshot r s = Inr s1" and s': "s' = (set_state r Committed s1)\<lparr>ss_current := Some r,
      ss_latest := Some r, ss_snaps := dict_set (ss_snaps s) (sn_id (ss_heap s r)) r\<rparr>"
    and n: "ss_pending s = None"
    using assms(4) by (cases "ss_pending s") (auto simp: install_snapshot_def split: if_splits sum.splits)
  note c = claim_snapshot_Inr[OF c]
  have "dict_get (ss_drains s) k = None" for k
    using assms(1,3) by (cases "dict_get (ss_drains s) k") (auto simp: ptr_inv_def)
  then show ?thesis using assms(2,3) n by (simp add: s' c(1) ptr_inv_def leases_kept_def)
qed

lemma begin_publish_inv:
  assumes "ptr_inv s" "r < ss_next s" "begin_publish r s = Inr s'"
  shows "ptr_inv s' \<and> leases_kept s s'"
proof -
  obtain s1 where c: "claim_snapshot r s = Inr s1" and s': "s' = (set_accepting r False (set_state r Validating s1))
      \<lparr>ss_snaps := dict_set (ss_snaps s) (sn_id (ss_heap s r)) r, ss_pending := Some (ss_current s, r)\<rparr>"
    and n: "ss_pending s = None" "unpromoted s = None" "dict_get (ss_snaps s) (sn_id (ss_heap s r)) = None"
    using assms(3) by (cases "ss_pending s") (auto simp: begin_publish_def split: if_splits sum.splits)
  note c = claim_snapshot_Inr[OF c]
  note free = unclaimed_free[OF assms(1) c(4)]
  have lat: "ss_latest s = ss_current s"
    using n(2) assms(1) by (auto simp: unpromoted_def latest_snap_def ptr_inv_def split: if_splits option.splits)
  show ?thesis using assms(1,2) free n lat unfolding s' c(1)
    by (auto simp: ptr_inv_def leases_kept_def)
qed

lemma leases_kept_set [simp]: "leases_kept s (set_state r x s)" "leases_kept s (set_accepting r b s)"
  by (simp_all add: leases_kept_def)

lemma leases_kept_upd [simp]:
  "leases_kept s (s\<lparr>ss_current := c\<rparr>)" "leases_kept s (s\<lparr>ss_latest := c\<rparr>)" "leases_kept s (s\<lparr>ss_pending := p\<rparr>)"
  "leases_kept s (s\<lparr>ss_closing := b\<rparr>)" "leases_kept s (s\<lparr>ss_latest := c, ss_pending := p\<rparr>)"
  by (simp_all add: leases_kept_def)

text \<open>One snapshot changes its state and the pointers move.\<close>

lemma ptr_inv_move:
  assumes "ptr_inv s"
    and "\<And>q. sn_id (ss_heap s' q) = sn_id (ss_heap s q) \<and> sn_claimed (ss_heap s' q) = sn_claimed (ss_heap s q) \<and>
      sn_count (ss_heap s' q) = sn_count (ss_heap s q) \<and> sn_state (ss_heap s' q) = (if q = r then x else sn_state (ss_heap s q))"
    and "ss_snaps s' = ss_snaps s" "ss_drains s' = ss_drains s" "ss_next s' = ss_next s"
    and "x \<noteq> Compiled" "x \<in> {Retired, Aborted} \<or> sn_state (ss_heap s r) \<notin> {Retired, Aborted}"
    and "\<And>v. ss_current s' = Some v \<or> ss_latest s' = Some v \<Longrightarrow> dict_get (ss_snaps s) (sn_id (ss_heap s v)) = Some v \<and>
      (if v = r then x = Committed else sn_state (ss_heap s v) = Committed)"
    and "ss_latest s' = None \<longrightarrow> ss_current s' = None"
    and "\<And>p c. ss_pending s' = Some (p, c) \<Longrightarrow> ss_pending s = Some (p, c) \<and> c \<noteq> r \<and> x \<in> {Committed, Retired} \<and>
      ss_latest s' = ss_current s' \<and> (p = ss_current s' \<or> ss_current s' = None)"
  shows "ptr_inv s'"
proof -
  note d = ptr_invD[OF assms(1)]
  have f: "sn_id (ss_heap s' q) = sn_id (ss_heap s q)" "sn_claimed (ss_heap s' q) = sn_claimed (ss_heap s q)"
    "sn_count (ss_heap s' q) = sn_count (ss_heap s q)" "sn_state (ss_heap s' q) = (if q = r then x else sn_state (ss_heap s q))" for q
    using assms(2) by blast+
  show ?thesis unfolding ptr_inv_def f assms(3-5)
  proof (intro conjI allI impI)
    fix p c q assume pend: "ss_pending s' = Some (p, c)"
    note old = assms(10)[OF pend]
    note o = d(4)[rule_format, OF conjunct1[OF old]]
    show "dict_get (ss_snaps s) (sn_id (ss_heap s c)) = Some c" "ss_latest s' = ss_current s'" "p = ss_current s' \<or> ss_current s' = None"
      "(if c = r then x else sn_state (ss_heap s c)) = Validating"
      using old o by auto
    assume "p = Some q"
    then show "q < ss_next s" "(if q = r then x else sn_state (ss_heap s q)) \<in> {Committed, Retired}" using old o by auto
  qed (use d(1,2) assms(6-9) in \<open>auto split: if_splits\<close>)
qed

lemma accepting_inv: "ptr_inv s \<Longrightarrow> ptr_inv (set_accepting r b s)"
proof -
  assume i: "ptr_inv s"
  have f: "sn_id (ss_heap (set_accepting r b s) q) = sn_id (ss_heap s q)" "sn_claimed (ss_heap (set_accepting r b s) q) = sn_claimed (ss_heap s q)"
    "sn_count (ss_heap (set_accepting r b s) q) = sn_count (ss_heap s q)" "sn_state (ss_heap (set_accepting r b s) q) = sn_state (ss_heap s q)" for q
    by simp_all
  show ?thesis using i unfolding ptr_inv_def f set_frame(12-21) .
qed

lemma pending_parts:
  assumes "ptr_inv s" "ss_pending s = Some (p, c)"
  shows "dict_get (ss_snaps s) (sn_id (ss_heap s c)) = Some c" "sn_state (ss_heap s c) = Validating"
    "ss_latest s = ss_current s" "p = ss_current s \<or> ss_current s = None"
    "\<And>q. p = Some q \<Longrightarrow> q < ss_next s \<and> sn_state (ss_heap s q) \<in> {Committed, Retired} \<and> q \<noteq> c"
  using ptr_invD(4)[OF assms(1), rule_format, OF assms(2)] by auto

text \<open>Opening a candidate: the pending one becomes the latest, or the current one as well.\<close>

lemma commit_latest_inv:
  assumes "ptr_inv s"
  shows "ptr_inv (snd (commit_latest b s)) \<and> leases_kept s (snd (commit_latest b s))"
proof (cases "ss_pending s")
  case (Some pc)
  obtain p c where pc: "ss_pending s = Some (p, c)" using Some by (cases pc) auto
  note c = pending_parts[OF assms pc]
  have "ptr_inv (open_candidate c s)"
    by (rule ptr_inv_move[OF assms, where r = c and x = Committed])
      (use c ptr_invD(3)[OF assms] in \<open>auto simp: open_candidate_def\<close>)
  then show ?thesis using pc assms by (simp add: commit_latest_def open_candidate_def leases_kept_def)
qed (use assms in \<open>simp add: commit_latest_def\<close>)

lemma commit_snapshot_inv:
  assumes "ptr_inv s"
  shows "ptr_inv (snd (commit_snapshot b a s)) \<and> leases_kept s (snd (commit_snapshot b a s))"
proof (cases "ss_pending s")
  case (Some pc)
  obtain p c where pc: "ss_pending s = Some (p, c)" using Some by (cases pc) auto
  note c = pending_parts[OF assms pc]
  define s1 where "s1 = (open_candidate c s)\<lparr>ss_current := Some c\<rparr>"
  have one: "ptr_inv s1"
    by (rule ptr_inv_move[OF assms, where r = c and x = Committed])
      (use c in \<open>auto simp: s1_def open_candidate_def\<close>)
  have two: "ptr_inv (set_state q Retired s1)" if q: "p = Some q" for q
    by (rule ptr_inv_move[OF one, where r = q and x = Retired])
      (use c(1) c(5)[OF q] in \<open>auto simp: s1_def open_candidate_def\<close>)
  have k: "leases_kept s s1" by (simp add: s1_def open_candidate_def leases_kept_def)
  show ?thesis
  proof (cases b)
    case True
    show ?thesis
    proof (cases p)
      case None
      then show ?thesis using pc one k True by (simp add: commit_snapshot_def s1_def[symmetric])
    next
      case q: (Some q)
      have "leases_kept s (set_state q Retired s1)" "leases_kept s (schedule_drain q (set_state q Retired s1))"
        using k by (blast intro: leases_kept_trans leases_kept_set leases_kept_schedule)+
      then show ?thesis using pc q True two[OF q] schedule_drain_inv[OF two[OF q]]
        by (simp add: commit_snapshot_def s1_def[symmetric] Let_def)
    qed
  qed (use pc assms in \<open>simp add: commit_snapshot_def\<close>)
qed (use assms in \<open>simp add: commit_snapshot_def\<close>)

lemma unpromoted_Some:
  assumes "ptr_inv s" "unpromoted s = Some c"
  shows "ss_latest s = Some c" "ss_current s \<noteq> Some c" "ss_pending s = None"
    "dict_get (ss_snaps s) (sn_id (ss_heap s c)) = Some c" "sn_state (ss_heap s c) = Committed"
proof -
  show l: "ss_latest s = Some c" and n: "ss_current s \<noteq> Some c"
    using assms(2) by (auto simp: unpromoted_def latest_snap_def split: if_splits option.splits)
  show "ss_pending s = None"
  proof (rule ccontr)
    assume "ss_pending s \<noteq> None"
    then obtain p q where "ss_pending s = Some (p, q)" by auto
    then show False using pending_parts(3)[OF assms(1)] l n by simp
  qed
  show "dict_get (ss_snaps s) (sn_id (ss_heap s c)) = Some c" "sn_state (ss_heap s c) = Committed"
    using ptr_invD(3)[OF assms(1)] l by blast+
qed

lemma discard_latest_inv:
  assumes "ptr_inv s"
  shows "ptr_inv (snd (discard_latest e s)) \<and> leases_kept s (snd (discard_latest e s))"
proof (cases "unpromoted s")
  case (Some c)
  note u = unpromoted_Some[OF assms Some]
  have "ptr_inv ((set_accepting c False (set_state c Aborted s))\<lparr>ss_latest := ss_current s\<rparr>)"
    by (rule ptr_inv_move[OF assms, where r = c and x = Aborted])
      (use u ptr_invD(3)[OF assms] in auto)
  moreover have "leases_kept s ((set_accepting c False (set_state c Aborted s))\<lparr>ss_latest := ss_current s\<rparr>)"
    by (simp add: leases_kept_def)
  ultimately show ?thesis using Some u(5) assms by (simp add: discard_latest_def)
qed (use assms in \<open>simp add: discard_latest_def split: option.split\<close>)

lemma abort_publish_inv:
  assumes "ptr_inv s"
  shows "ptr_inv (snd (abort_publish s)) \<and> leases_kept s (snd (abort_publish s))"
proof (cases "ss_pending s")
  case (Some pc)
  obtain p c where pc: "ss_pending s = Some (p, c)" using Some by (cases pc) auto
  note c = pending_parts[OF assms pc]
  define s1 where "s1 = (set_accepting c False (set_state c Aborted s))\<lparr>ss_pending := None\<rparr>"
  have s1: "ptr_inv s1"
    by (rule ptr_inv_move[OF assms, where r = c and x = Aborted])
      (use c ptr_invD(3,5)[OF assms] in \<open>auto simp: s1_def\<close>)
  have k: "leases_kept s s1" by (simp add: s1_def leases_kept_def)
  have eq: "(set_accepting q b t)\<lparr>ss_pending := None\<rparr> = set_accepting q b (t\<lparr>ss_pending := None\<rparr>)" for q b t
    by (simp add: set_accepting_def upd_snap_def)
  have "snd (abort_publish s) = schedule_drain c s1 \<or> (\<exists>q. snd (abort_publish s) = schedule_drain c (set_accepting q True s1))"
    using pc by (auto simp: abort_publish_def Let_def s1_def eq split: option.split)
  then show ?thesis
  proof
    assume e: "snd (abort_publish s) = schedule_drain c s1"
    show ?thesis unfolding e using schedule_drain_inv[OF s1] leases_kept_trans[OF k leases_kept_schedule] by blast
  next
    assume "\<exists>q. snd (abort_publish s) = schedule_drain c (set_accepting q True s1)"
    then obtain q where e: "snd (abort_publish s) = schedule_drain c (set_accepting q True s1)" by blast
    show ?thesis unfolding e
      using schedule_drain_inv[OF accepting_inv[OF s1]]
        leases_kept_trans[OF leases_kept_trans[OF k leases_kept_set(2)] leases_kept_schedule] by blast
  qed
qed (use assms in \<open>simp add: abort_publish_def\<close>)

lemma unpromoted_None: "ptr_inv s \<Longrightarrow> unpromoted s = None \<Longrightarrow> ss_latest s = ss_current s"
  using ptr_invD(5)[of s] by (auto simp: unpromoted_def latest_snap_def split: if_splits option.splits)

lemma promote_latest_inv:
  assumes "ptr_inv s"
  shows "ptr_inv (snd (promote_latest b a s)) \<and> leases_kept s (snd (promote_latest b a s))"
proof (cases "unpromoted s")
  case (Some c)
  note u = unpromoted_Some[OF assms Some]
  define s1 where "s1 = (set_accepting c True s)\<lparr>ss_current := Some c, ss_latest := Some c\<rparr>"
  have one: "ptr_inv s1"
    by (rule ptr_inv_move[OF assms, where r = c and x = Committed]) (use u in \<open>auto simp: s1_def\<close>)
  have k: "leases_kept s s1" by (simp add: s1_def leases_kept_def)
  define s2 where "s2 = (\<lambda>p. set_accepting p False (set_state p Retired s1))"
  have two: "ptr_inv (s2 p)" if p: "ss_current s = Some p" for p
    unfolding s2_def
    by (rule accepting_inv, rule ptr_inv_move[OF one, where r = p and x = Retired])
      (use u p in \<open>auto simp: s1_def\<close>)
  have k2: "leases_kept s (s2 p)" for p by (simp add: s2_def s1_def leases_kept_def)
  define s3 where "s3 = (\<lambda>p. set_accepting p True (set_state p Committed ((set_accepting c True (s2 p))
      \<lparr>ss_current := ss_current s, ss_latest := Some c\<rparr>)))"
  have three: "ptr_inv (s3 p)" if p: "ss_current s = Some p" for p
  proof -
    have "sn_state (ss_heap s p) = Committed" using ptr_invD(3)[OF assms] p by blast
    then show ?thesis
      by (intro ptr_inv_move[OF assms, where r = c and x = Committed])
        (use u p ptr_invD(3)[OF assms] in \<open>auto simp: s3_def s2_def s1_def\<close>)
  qed
  have k3: "leases_kept s (s3 p)" for p by (simp add: s3_def s2_def s1_def leases_kept_def)
  have undo: "ptr_inv ((set_accepting c True s1)\<lparr>ss_current := None, ss_latest := Some c\<rparr>)" if "ss_current s = None"
    by (rule ptr_inv_move[OF assms, where r = c and x = Committed]) (use u that in \<open>auto simp: s1_def\<close>)
  have ku: "leases_kept s ((set_accepting c True s1)\<lparr>ss_current := None, ss_latest := Some c\<rparr>)"
    by (simp add: s1_def leases_kept_def)
  show ?thesis
  proof (cases "sn_accepting (ss_heap s c) \<or> \<not> b")
    case go: False
    show ?thesis
    proof (cases "ss_current s")
      case None
      then show ?thesis using Some go one k undo ku
        by (simp add: promote_latest_def Let_def s1_def)
    next
      case p: (Some p)
      have sched: "leases_kept s (schedule_drain p (s2 p))" using k2 leases_kept_trans[OF _ leases_kept_schedule] by blast
      have "snd (promote_latest b a s) = (if a then schedule_drain p (s2 p) else s3 p)"
        using Some go p by (simp add: promote_latest_def Let_def s1_def s3_def s2_def)
      then show ?thesis using two[OF p] three[OF p] k3 sched schedule_drain_inv[OF two[OF p]] by simp
    qed
  qed (use Some assms in \<open>auto simp: promote_latest_def\<close>)
qed (use assms in \<open>simp add: promote_latest_def\<close>)

lemma pausing_inv:
  assumes "ptr_inv s"
  shows "ptr_inv (pause_admission s) \<and> leases_kept s (pause_admission s)"
    "ptr_inv (snd (pause_candidate r s)) \<and> leases_kept s (snd (pause_candidate r s))"
    "ptr_inv (resume_snapshot r s) \<and> leases_kept s (resume_snapshot r s)"
  using assms by (auto simp: pause_admission_def pause_candidate_def resume_snapshot_def accepting_inv split: option.split)

lemma closing_inv [simp]: "ptr_inv (s\<lparr>ss_closing := b\<rparr>) = ptr_inv s"
  by (simp add: ptr_inv_def)

lemma close_begin_inv: "ptr_inv s \<Longrightarrow> ptr_inv (snd (close_begin s)) \<and> leases_kept s (snd (close_begin s))"
  by (simp add: close_begin_def)

lemma unset_inv: "ptr_inv s \<Longrightarrow> ptr_inv (s\<lparr>ss_current := None, ss_latest := None, ss_closing := b\<rparr>)"
  by (simp add: ptr_inv_def)

lemma close_end_inv:
  assumes "ptr_inv s"
  shows "ptr_inv (close_end s) \<and> leases_kept s (close_end s)"
proof (cases "ss_closing s")
  case True
  define s2 where "s2 = (case unpromoted s of None \<Rightarrow> s\<lparr>ss_latest := ss_current s\<rparr>
      | Some c \<Rightarrow> schedule_drain c (set_accepting c False (set_state c Aborted (s\<lparr>ss_latest := ss_current s\<rparr>))))"
  have two: "ptr_inv s2 \<and> leases_kept s s2"
  proof (cases "unpromoted s")
    case None
    then have "s\<lparr>ss_latest := ss_current s\<rparr> = s" using unpromoted_None[OF assms] by (cases s) simp
    then show ?thesis using None assms by (simp add: s2_def)
  next
    case (Some c)
    note u = unpromoted_Some[OF assms Some]
    define t where "t = set_accepting c False (set_state c Aborted (s\<lparr>ss_latest := ss_current s\<rparr>))"
    have "ptr_inv t" by (rule ptr_inv_move[OF assms, where r = c and x = Aborted])
      (use u ptr_invD(3)[OF assms] in \<open>auto simp: t_def\<close>)
    moreover have "leases_kept s t" by (simp add: t_def leases_kept_def)
    ultimately show ?thesis using Some schedule_drain_inv leases_kept_trans[OF _ leases_kept_schedule]
      by (simp add: s2_def t_def[symmetric])
  qed
  define s3 where "s3 = s2\<lparr>ss_current := None, ss_latest := None, ss_closing := False\<rparr>"
  have three: "ptr_inv s3" "leases_kept s s3"
    using two unset_inv by (auto simp: s3_def leases_kept_def)
  show ?thesis
  proof (cases "ss_current s2")
    case None
    then show ?thesis using True three by (simp add: close_end_def Let_def s2_def[symmetric] s3_def[symmetric])
  next
    case (Some r)
    have st: "sn_state (ss_heap s2 r) = Committed" using ptr_invD(3) two Some by blast
    have pend: "ss_pending s2 = Some (p, c) \<Longrightarrow> c \<noteq> r" for p c
      using pending_parts(2)[of s2 p c] two st by auto
    have ret: "ptr_inv (set_state r Retired s3)"
      by (rule ptr_inv_move[OF three(1), where r = r and x = Retired]) (use pend in \<open>auto simp: s3_def\<close>)
    define t where "t = schedule_drain r (set_state r Retired s3)"
    have t: "ptr_inv t" unfolding t_def by (rule schedule_drain_inv[OF ret])
    have "leases_kept s t" unfolding t_def
      by (rule leases_kept_trans[OF leases_kept_trans[OF three(2) leases_kept_set(1)] leases_kept_schedule])
    moreover have "close_end s = t" using True Some
      by (simp add: close_end_def Let_def s2_def[symmetric] s3_def[symmetric] t_def)
    ultimately show ?thesis using t by simp
  qed
qed (use assms in \<open>simp add: close_end_def\<close>)

subsection \<open>Leases keep the invariant\<close>

definition lease_sum :: "(lease \<Rightarrow> nat) \<Rightarrow> lease list \<Rightarrow> nat" where
  "lease_sum f ls = (\<Sum>l\<leftarrow>filter le_active ls. f l)"

lemma lease_sum_snoc [simp]: "lease_sum f (ls @ [l]) = lease_sum f ls + (if le_active l then f l else 0)"
  by (simp add: lease_sum_def)

lemma lease_sum_release:
  assumes "i < length ls" "le_active (ls ! i)"
  shows "lease_sum f (ls[i := (ls ! i)\<lparr>le_active := False\<rparr>]) + f (ls ! i) = lease_sum f ls"
proof -
  have u: "ls[i := l] = take i ls @ l # drop (Suc i) ls" for l using assms(1) by (simp add: upd_conv_take_nth_drop)
  have o: "ls = take i ls @ ls ! i # drop (Suc i) ls" using assms(1) by (simp add: id_take_nth_drop)
  have "lease_sum f ls = lease_sum f (take i ls) + f (ls ! i) + lease_sum f (drop (Suc i) ls)"
    by (subst o) (simp add: lease_sum_def assms(2))
  then show ?thesis unfolding u by (simp add: lease_sum_def)
qed

lemma lease_sum_cong: "(\<And>l. l \<in> set ls \<Longrightarrow> f l = g l) \<Longrightarrow> lease_sum f ls = lease_sum g ls"
  unfolding lease_sum_def by (rule arg_cong[of _ _ sum_list], rule map_cong) auto

lemma leases_on_sum: "length (leases_on s r) = lease_sum (\<lambda>l. if le_snap l = r then 1 else 0) (ss_leases s)"
proof -
  have "length (filter (\<lambda>l. le_active l \<and> le_snap l = r) ls) = lease_sum (\<lambda>l. if le_snap l = r then 1 else 0) ls" for ls
    by (induction ls) (auto simp: lease_sum_def)
  then show ?thesis by (simp add: leases_on_def)
qed

lemma held_sum: "held s f = lease_sum (\<lambda>l. f (ss_heap s (le_snap l))) (ss_leases s)"
  by (simp add: held_def lease_sum_def)

lemma fold_gens:
  "fold (\<lambda>(k, g) f. f(g := f g + d)) gens f0 = (\<lambda>g. f0 g + d * int (length (filter (\<lambda>(k, h). h = g) gens)))"
  by (induction gens arbitrary: f0) (auto simp: fun_eq_iff algebra_simps)

lemma count_lease_frame [simp]:
  "ss_next (count_lease r d s) = ss_next s" "ss_current (count_lease r d s) = ss_current s"
  "ss_latest (count_lease r d s) = ss_latest s" "ss_snaps (count_lease r d s) = ss_snaps s"
  "ss_pending (count_lease r d s) = ss_pending s" "ss_drains (count_lease r d s) = ss_drains s"
  "ss_leases (count_lease r d s) = ss_leases s" "ss_closing (count_lease r d s) = ss_closing s"
  "ss_heap (count_lease r d s) q = (if q = r then (ss_heap s q)\<lparr>sn_count := sn_count (ss_heap s q) + d\<rparr> else ss_heap s q)"
  "ss_gen_count (count_lease r d s) g = ss_gen_count s g + d * int (uses_of (ss_heap s r) g)"
  "ss_mcp_count (count_lease r d s) g = ss_mcp_count s g + d * (if sn_mcp (ss_heap s r) = Some g then 1 else 0)"
  by (auto simp: count_lease_def Let_def fold_gens uses_of_def split: option.split)

lemma uses_of_count [simp]: "uses_of (x\<lparr>sn_count := c\<rparr>) g = uses_of x g"
  by (simp add: uses_of_def)

lemma ptr_inv_leases:
  assumes "ptr_inv s" "\<And>q. sn_id (ss_heap s' q) = sn_id (ss_heap s q) \<and> sn_claimed (ss_heap s' q) = sn_claimed (ss_heap s q) \<and>
      sn_state (ss_heap s' q) = sn_state (ss_heap s q)"
    and "ss_snaps s' = ss_snaps s" "ss_drains s' = ss_drains s" "ss_next s' = ss_next s" "ss_current s' = ss_current s"
    "ss_latest s' = ss_latest s" "ss_pending s' = ss_pending s"
    and "\<And>k r. dict_get (ss_drains s) k = Some r \<Longrightarrow> sn_count (ss_heap s' r) = 0"
  shows "ptr_inv s'"
proof -
  have f: "sn_id (ss_heap s' q) = sn_id (ss_heap s q)" "sn_claimed (ss_heap s' q) = sn_claimed (ss_heap s q)"
    "sn_state (ss_heap s' q) = sn_state (ss_heap s q)" for q using assms(2) by blast+
  show ?thesis using ptr_invD[OF assms(1)] assms(9) unfolding ptr_inv_def f assms(3-8) by blast
qed

lemma add_lease_inv:
  assumes "snap_inv s" "dict_get (ss_snaps s) (sn_id (ss_heap s r)) = Some r"
    and "\<And>k. dict_get (ss_drains s) k \<noteq> Some r"
  shows "snap_inv (add_lease r ps s)"
proof -
  define l where "l = \<lparr>le_snap = r, le_active = True, le_plugins = ps\<rparr>"
  define s' where "s' = add_lease r ps s"
  have p: "ptr_inv s" "lease_inv s" using assms(1) by (simp_all add: snap_inv_def)
  have "ptr_inv s'" unfolding s'_def
    by (rule ptr_inv_leases[OF p(1)]) (use ptr_invD(2)[OF p(1)] assms(3) in \<open>auto simp: add_lease_def\<close>)
  moreover have "lease_inv s'"
  proof -
    have heap: "ss_heap s' q = (if q = r then (ss_heap s q)\<lparr>sn_count := sn_count (ss_heap s q) + 1\<rparr> else ss_heap s q)" for q
      by (simp add: s'_def add_lease_def)
    have ls: "ss_leases s' = ss_leases s @ [l]" by (simp add: s'_def add_lease_def l_def)
    have frame: "ss_next s' = ss_next s" "ss_snaps s' = ss_snaps s" by (simp_all add: s'_def add_lease_def)
    have cnt: "ss_gen_count s' g = ss_gen_count s g + int (uses_of (ss_heap s r) g)"
        "ss_mcp_count s' g = ss_mcp_count s g + (if sn_mcp (ss_heap s r) = Some g then 1 else 0)" for g
      by (simp_all add: s'_def add_lease_def)
    have on: "length (leases_on s' q) = length (leases_on s q) + (if q = r then 1 else 0)" for q
      by (simp add: leases_on_sum ls) (simp add: l_def)
    have hold: "held s' f = held s f + f (ss_heap s r)" if "\<And>x c. f (x\<lparr>sn_count := c\<rparr>) = f x" for f
    proof -
      have "f (ss_heap s' q) = f (ss_heap s q)" for q using that by (simp add: heap)
      then show ?thesis by (simp add: held_sum ls) (simp add: l_def)
    qed
    have r: "r < ss_next s" using ptr_invD(1)[OF p(1)] assms(2) by blast
    have sn_ids: "sn_id (ss_heap s' q) = sn_id (ss_heap s q)" "sn_count (ss_heap s' q) = sn_count (ss_heap s q) + (if q = r then 1 else 0)" for q
      by (simp_all add: heap)
    show ?thesis using p(2) r assms(2)
      unfolding lease_inv_def frame on cnt sn_ids by (auto simp: hold ls l_def)
  qed
  ultimately show ?thesis by (simp add: snap_inv_def s'_def)
qed

lemma lease_invD:
  assumes "snap_inv s"
  shows "sn_count (ss_heap s r) = int (length (leases_on s r))"
    "i < length (ss_leases s) \<Longrightarrow> le_snap (ss_leases s ! i) < ss_next s"
    "i < length (ss_leases s) \<Longrightarrow> le_active (ss_leases s ! i) \<Longrightarrow>
      dict_get (ss_snaps s) (sn_id (ss_heap s (le_snap (ss_leases s ! i)))) = Some (le_snap (ss_leases s ! i))"
  using assms nth_mem unfolding snap_inv_def lease_inv_def by blast+

text \<open>A snapshot with an active lease has a positive count, so no clean-up of it runs.\<close>

lemma active_counts:
  assumes "snap_inv s" "i < length (ss_leases s)" "le_active (ss_leases s ! i)"
  shows "0 < sn_count (ss_heap s (le_snap (ss_leases s ! i)))"
    "dict_get (ss_drains s) k \<noteq> Some (le_snap (ss_leases s ! i))"
proof -
  have "ss_leases s ! i \<in> set (leases_on s (le_snap (ss_leases s ! i)))"
    using assms(2,3) by (simp add: leases_on_def)
  then have "leases_on s (le_snap (ss_leases s ! i)) \<noteq> []" by auto
  then show c: "0 < sn_count (ss_heap s (le_snap (ss_leases s ! i)))" by (simp add: lease_invD(1)[OF assms(1)])
  have "ptr_inv s" using assms(1) by (simp add: snap_inv_def)
  then show "dict_get (ss_drains s) k \<noteq> Some (le_snap (ss_leases s ! i))" using ptr_invD(2) c by fastforce
qed

lemma committed_not_draining:
  assumes "ptr_inv s" "sn_state (ss_heap s r) = Committed"
  shows "dict_get (ss_drains s) k \<noteq> Some r"
  using ptr_invD(2)[OF assms(1)] assms(2) by fastforce

lemma selected_stored:
  assumes "ptr_inv s" "selected sel s = Some r"
  shows "dict_get (ss_snaps s) (sn_id (ss_heap s r)) = Some r"
proof (cases sel)
  case (By_id k)
  then show ?thesis using assms(2) ptr_invD(1)[OF assms(1)] by (auto simp: selected_def)
next
  case Stable
  then show ?thesis using assms(2) ptr_invD(3)[OF assms(1)] by (auto simp: selected_def)
next
  case Latest
  then show ?thesis using assms(2) ptr_invD(3)[OF assms(1)]
    by (auto simp: selected_def latest_snap_def split: option.splits)
qed

lemma take_lease_inv:
  assumes "snap_inv s" "take_lease sel s = Inr s'"
  shows "snap_inv s'"
proof -
  have p: "ptr_inv s" using assms(1) by (simp add: snap_inv_def)
  obtain r where r: "selected sel s = Some r" "sn_state (ss_heap s r) = Committed"
    and s': "s' = add_lease r (validation_plugins r s) s"
    using assms(2) by (auto simp: take_lease_def Let_def split: option.splits if_splits)
  show ?thesis unfolding s'
    using add_lease_inv[OF assms(1) selected_stored[OF p r(1)] committed_not_draining[OF p r(2)]] .
qed

lemma fork_lease_inv:
  assumes "snap_inv s" "i < length (ss_leases s)" "fork_lease i s = Inr s'"
  shows "snap_inv s'"
proof -
  define l where "l = ss_leases s ! i"
  have l: "le_active l" "dict_get (ss_snaps s) (sn_id (ss_heap s (le_snap l))) = Some (le_snap l)"
    and s': "s' = add_lease (le_snap l) (le_plugins l) s"
    using assms(3) by (auto simp: fork_lease_def Let_def l_def split: if_splits)
  show ?thesis unfolding s'
    by (rule add_lease_inv[OF assms(1) l(2)]) (use active_counts(2)[OF assms(1,2)] l(1) in \<open>simp add: l_def\<close>)
qed

lemma release_lease_inv:
  assumes "snap_inv s" "i < length (ss_leases s)"
  shows "snap_inv (snd (release_lease i s))"
proof (cases "le_active (ss_leases s ! i)")
  case act: True
  define l where "l = ss_leases s ! i"
  define r where "r = le_snap l"
  define ls where "ls = (ss_leases s)[i := l\<lparr>le_active := False\<rparr>]"
  define s2 where "s2 = count_lease r (- 1) (s\<lparr>ss_leases := ls\<rparr>)"
  have p: "ptr_inv s" "lease_inv s" using assms(1) by (simp_all add: snap_inv_def)
  note pos = active_counts[OF assms act, folded l_def, folded r_def]
  have heap: "ss_heap s2 q = (if q = r then (ss_heap s q)\<lparr>sn_count := sn_count (ss_heap s q) - 1\<rparr> else ss_heap s q)" for q
    by (simp add: s2_def)
  have one: "ptr_inv s2"
    by (rule ptr_inv_leases[OF p(1)]) (use ptr_invD(2)[OF p(1)] pos(2) in \<open>auto simp: s2_def\<close>)
  have ls: "ss_leases s2 = ls" by (simp add: s2_def)
  have sum: "lease_sum f ls + f l = lease_sum f (ss_leases s)" for f
    unfolding ls_def l_def by (rule lease_sum_release[OF assms(2) act])
  have on: "int (length (leases_on s2 q)) = int (length (leases_on s q)) - (if q = r then 1 else 0)" for q
    using sum[of "\<lambda>l. if le_snap l = q then 1 else 0"] by (cases "le_snap l = q") (simp_all add: leases_on_sum ls r_def)
  have hold: "int (held s2 f) = int (held s f) - int (f (ss_heap s r))" if "\<And>x c. f (x\<lparr>sn_count := c\<rparr>) = f x" for f
  proof -
    have "f (ss_heap s2 q) = f (ss_heap s q)" for q using that by (simp add: heap)
    then show ?thesis using sum[of "\<lambda>l. f (ss_heap s (le_snap l))"] by (simp add: held_sum ls r_def)
  qed
  have cnt: "ss_gen_count s2 g = ss_gen_count s g - int (uses_of (ss_heap s r) g)"
      "ss_mcp_count s2 g = ss_mcp_count s g - (if sn_mcp (ss_heap s r) = Some g then 1 else 0)" for g
    by (simp_all add: s2_def)
  have frame: "ss_next s2 = ss_next s" "ss_snaps s2 = ss_snaps s" by (simp_all add: s2_def)
  have x: "sn_id (ss_heap s2 q) = sn_id (ss_heap s q)"
      "sn_count (ss_heap s2 q) = sn_count (ss_heap s q) - (if q = r then 1 else 0)" for q
    by (simp_all add: heap)
  have mem: "m \<in> set (ss_leases s2) \<Longrightarrow> \<exists>m' \<in> set (ss_leases s). le_snap m = le_snap m' \<and> (le_active m \<longrightarrow> le_active m')" for m
    using set_update_subset_insert[of "ss_leases s" i "l\<lparr>le_active := False\<rparr>"] nth_mem[OF assms(2)]
    unfolding ls ls_def l_def by fastforce
  have "lease_inv s2" unfolding lease_inv_def frame on cnt x
  proof (intro conjI allI ballI impI)
    fix m assume "m \<in> set (ss_leases s2)"
    then obtain m' where "m' \<in> set (ss_leases s)" "le_snap m = le_snap m'" "le_active m \<longrightarrow> le_active m'" using mem by blast
    then show "le_snap m < ss_next s" "le_active m \<Longrightarrow> dict_get (ss_snaps s) (sn_id (ss_heap s (le_snap m))) = Some (le_snap m)"
      using p(2) unfolding lease_inv_def by auto
  qed (use p(2) in \<open>auto simp: lease_inv_def hold\<close>)
  then have "lease_inv (schedule_drain r s2)" by (rule leases_kept_inv[OF leases_kept_schedule])
  then have "snap_inv (schedule_drain r s2)" using schedule_drain_inv[OF one] by (simp add: snap_inv_def)
  moreover have "snd (release_lease i s) = schedule_drain r s2"
    using act pos(1) by (simp add: release_lease_def Let_def l_def r_def s2_def ls_def)
  ultimately show ?thesis by simp
qed (use assms in \<open>simp add: release_lease_def\<close>)

lemma drain_done_inv:
  assumes "snap_inv s"
  shows "snap_inv (drain_done k ok s)"
proof (cases "dict_get (ss_drains s) k")
  case (Some r)
  have p: "ptr_inv s" "lease_inv s" using assms by (simp_all add: snap_inv_def)
  note d = ptr_invD[OF p(1)]
  note dr = d(2)[rule_format, OF Some]
  show ?thesis
  proof (cases ok)
    case True
    define s' where "s' = s\<lparr>ss_snaps := dict_del (ss_snaps s) k, ss_drains := dict_del (ss_drains s) k\<rparr>"
    have other: "sn_id (ss_heap s v) \<noteq> k" if "dict_get (ss_snaps s) (sn_id (ss_heap s v)) = Some v" "v \<noteq> r" for v
      using that dr by auto
    have live: "v \<noteq> r" if "sn_state (ss_heap s v) \<in> {Committed, Validating}" for v using that dr by auto
    have f: "ss_heap s' = ss_heap s" "ss_next s' = ss_next s" "ss_current s' = ss_current s" "ss_latest s' = ss_latest s"
      "ss_pending s' = ss_pending s" "ss_leases s' = ss_leases s" "ss_gen_count s' = ss_gen_count s"
      "ss_mcp_count s' = ss_mcp_count s" "dict_get (ss_snaps s') j = (if j = k then None else dict_get (ss_snaps s) j)"
      "dict_get (ss_drains s') j = (if j = k then None else dict_get (ss_drains s) j)" for j
      by (simp_all add: s'_def)
    have "ptr_inv s'" unfolding ptr_inv_def f
    proof (intro conjI allI impI)
      fix v assume v: "ss_current s = Some v \<or> ss_latest s = Some v"
      then have "dict_get (ss_snaps s) (sn_id (ss_heap s v)) = Some v" "sn_state (ss_heap s v) = Committed" using d(3) by blast+
      then show "(if sn_id (ss_heap s v) = k then None else dict_get (ss_snaps s) (sn_id (ss_heap s v))) = Some v"
        "sn_state (ss_heap s v) = Committed" using other live by auto
    next
      fix q c assume q: "ss_pending s = Some (q, c)"
      note pp = pending_parts[OF p(1) q]
      show "(if sn_id (ss_heap s c) = k then None else dict_get (ss_snaps s) (sn_id (ss_heap s c))) = Some c"
        using pp(1,2) other live by auto
    qed (use d in \<open>auto split: if_splits\<close>)
    moreover have "lease_inv s'"
    proof -
      have on: "leases_on s' v = leases_on s v" "held s' g = held s g" for v g by (simp_all add: leases_on_def held_def f)
      have free: "leases_on s r = []" using lease_invD(1)[OF assms, of r] dr by simp
      have "le_snap l \<noteq> r" if "l \<in> set (ss_leases s)" "le_active l" for l
        using free that by (auto simp: leases_on_def filter_empty_conv)
      then show ?thesis using p(2) other unfolding lease_inv_def f on by auto
    qed
    ultimately show ?thesis using Some True by (simp add: drain_done_def s'_def snap_inv_def)
  next
    case False
    have "ptr_inv (drain_done k ok s)" using p(1) Some False by (auto simp: drain_done_def ptr_inv_def)
    moreover have "leases_kept s (drain_done k ok s)" using Some False by (simp add: drain_done_def leases_kept_def)
    ultimately show ?thesis using leases_kept_inv p(2) by (simp add: snap_inv_def)
  qed
qed (use assms in \<open>simp add: drain_done_def\<close>)

lemma new_snapshot_inv:
  assumes "snap_inv s"
  shows "snap_inv (snap_exec (New_snapshot k gens mcp) s)"
proof -
  define x where "x = \<lparr>sn_id = k, sn_gens = gens, sn_mcp = mcp, sn_state = Compiled, sn_count = 0, sn_accepting = True,
    sn_claimed = False\<rparr>"
  define s' where "s' = snap_exec (New_snapshot k gens mcp) s"
  have p: "ptr_inv s" "lease_inv s" using assms by (simp_all add: snap_inv_def)
  note d = ptr_invD[OF p(1)]
  have f: "ss_next s' = ss_next s + 1" "ss_current s' = ss_current s" "ss_latest s' = ss_latest s" "ss_pending s' = ss_pending s"
    "ss_leases s' = ss_leases s" "ss_gen_count s' = ss_gen_count s" "ss_mcp_count s' = ss_mcp_count s" "ss_snaps s' = ss_snaps s"
    "ss_drains s' = ss_drains s" "ss_heap s' = (ss_heap s)(ss_next s := x)"
    by (simp_all add: s'_def snap_exec_def x_def)
  have old: "ss_heap s' r = ss_heap s r" if "r < ss_next s" for r using that by (simp add: f)
  have stored: "dict_get (ss_snaps s) j = Some r \<Longrightarrow> r < ss_next s" for j r using d(1) by blast
  have "ptr_inv s'"
    unfolding ptr_inv_def f(1-5,8,9)
  proof (intro conjI allI impI)
    fix j r assume a: "dict_get (ss_snaps s) j = Some r"
    show "r < ss_next s + 1" using stored[OF a] by simp
    show "sn_id (ss_heap s' r) = j" "sn_claimed (ss_heap s' r)" "sn_state (ss_heap s' r) \<noteq> Compiled"
      using d(1) a old[OF stored[OF a]] by auto
  next
    fix j r assume a: "dict_get (ss_drains s) j = Some r"
    then have b: "dict_get (ss_snaps s) j = Some r" using d(2) by blast
    show "dict_get (ss_snaps s) j = Some r" "sn_state (ss_heap s' r) \<in> {Retired, Aborted}" "sn_count (ss_heap s' r) = 0"
      using d(2) a b old[OF stored[OF b]] by auto
  next
    fix r assume a: "ss_current s = Some r \<or> ss_latest s = Some r"
    then have b: "dict_get (ss_snaps s) (sn_id (ss_heap s r)) = Some r" "sn_state (ss_heap s r) = Committed" using d(3) by blast+
    then show "dict_get (ss_snaps s) (sn_id (ss_heap s' r)) = Some r" "sn_state (ss_heap s' r) = Committed"
      using old[OF stored[OF b(1)]] by auto
  next
    fix q c assume a: "ss_pending s = Some (q, c)"
    note pp = pending_parts[OF p(1) a]
    show "dict_get (ss_snaps s) (sn_id (ss_heap s' c)) = Some c" "sn_state (ss_heap s' c) = Validating"
      "ss_latest s = ss_current s" "q = ss_current s \<or> ss_current s = None"
      using pp old[OF stored[OF pp(1)]] by auto
    fix v assume v: "q = Some v"
    then show "v < ss_next s + 1" "sn_state (ss_heap s' v) \<in> {Committed, Retired}" using pp(5)[OF v] old by auto
  qed (use d(5) in simp)
  moreover have "lease_inv s'"
  proof -
    have lt: "l \<in> set (ss_leases s) \<Longrightarrow> le_snap l < ss_next s" for l using p(2) by (simp add: lease_inv_def)
    have hold: "held s' f = held s f" for f
      unfolding held_sum f(5) by (rule lease_sum_cong) (simp add: old lt)
    have on: "leases_on s' r = leases_on s r" for r by (simp add: leases_on_def f)
    have "leases_on s (ss_next s) = []" using lt by (fastforce simp: leases_on_def filter_empty_conv)
    then have cnt: "sn_count (ss_heap s' r) = int (length (leases_on s r))" for r
      using p(2) by (cases "r = ss_next s") (simp_all add: lease_inv_def f(10) x_def)
    show ?thesis unfolding lease_inv_def on hold f(1,5-8) cnt
    proof (intro conjI allI ballI impI)
      fix l assume l: "l \<in> set (ss_leases s)"
      show "le_snap l < ss_next s + 1" using lt[OF l] by simp
      show "le_active l \<Longrightarrow> dict_get (ss_snaps s) (sn_id (ss_heap s' (le_snap l))) = Some (le_snap l)"
        using p(2) l unfolding old[OF lt[OF l]] lease_inv_def by blast
    qed (use p(2) in \<open>simp_all add: lease_inv_def\<close>)
  qed
  ultimately show ?thesis by (simp add: snap_inv_def s'_def)
qed

text \<open>Every step keeps the invariant.\<close>

lemma kept_inv: "snap_inv s \<Longrightarrow> ptr_inv s' \<and> leases_kept s s' \<Longrightarrow> snap_inv s'"
  using leases_kept_inv by (auto simp: snap_inv_def)

lemma snap_exec_inv:
  assumes "snap_inv s"
  shows "snap_inv (snap_exec c s)"
proof -
  have p: "ptr_inv s" using assms by (simp add: snap_inv_def)
  note publish = commit_snapshot_inv[OF p] commit_latest_inv[OF p] promote_latest_inv[OF p] discard_latest_inv[OF p]
    abort_publish_inv[OF p] pausing_inv[OF p] close_begin_inv[OF p] close_end_inv[OF p]
  have kept: "snap_inv s'" if "ptr_inv s' \<and> leases_kept s s'" for s' using kept_inv[OF assms that] .
  show ?thesis
  proof (cases c)
    case (New_snapshot k gens mcp)
    then show ?thesis using new_snapshot_inv[OF assms] by simp
  next
    case (Install r)
    then show ?thesis using assms kept[OF install_inv[OF p]]
      by (auto simp: snap_exec_def keep_error_def split: sum.split)
  next
    case (Begin r)
    then show ?thesis using assms kept[OF begin_publish_inv[OF p]]
      by (auto simp: snap_exec_def keep_error_def split: sum.split)
  next
    case (Lease sel)
    then show ?thesis using assms take_lease_inv[OF assms]
      by (simp add: snap_exec_def keep_error_def split: sum.split)
  next
    case (Fork i)
    then show ?thesis using assms fork_lease_inv[OF assms]
      by (simp add: snap_exec_def keep_error_def split: sum.split)
  next
    case (Release i)
    then show ?thesis using assms release_lease_inv[OF assms] by (simp add: snap_exec_def)
  next
    case (Schedule r)
    then show ?thesis using kept schedule_drain_inv[OF p] by (simp add: snap_exec_def)
  next
    case Retry
    then show ?thesis using kept retry_drains_inv[OF p] leases_kept_retry[OF p] by (simp add: snap_exec_def)
  next
    case (Drain_done k ok)
    then show ?thesis using drain_done_inv[OF assms] by (simp add: snap_exec_def)
  qed (use publish kept in \<open>simp_all add: snap_exec_def\<close>)
qed

lemma new_store_inv: "snap_inv new_store"
  by (simp add: snap_inv_def ptr_inv_def lease_inv_def new_store_def leases_on_def held_def)

lemma snap_reachable_inv: "snap_reachable s \<Longrightarrow> snap_inv s"
  by (induction rule: snap_reachable.induct) (auto simp: new_store_inv snap_exec_inv)

subsection \<open>Properties\<close>

text \<open>A lease stays active until it is released itself.\<close>

lemma exec_keeps_lease:
  assumes "snap_inv s" "i < length (ss_leases s)" "le_active (ss_leases s ! i)" "c \<noteq> Release i"
  shows "i < length (ss_leases (snap_exec c s)) \<and> ss_leases (snap_exec c s) ! i = ss_leases s ! i"
proof -
  have p: "ptr_inv s" using assms(1) by (simp add: snap_inv_def)
  note publish = commit_snapshot_inv[OF p] commit_latest_inv[OF p] promote_latest_inv[OF p] discard_latest_inv[OF p]
    abort_publish_inv[OF p] pausing_inv[OF p] close_begin_inv[OF p] close_end_inv[OF p]
  have kept: ?thesis if "leases_kept s (snap_exec c s)" using that assms(2) by (simp add: leases_kept_def)
  have add: "ss_leases (add_lease r ps s) ! i = ss_leases s ! i" "i < length (ss_leases (add_lease r ps s))" for r ps
    using assms(2) by (simp_all add: add_lease_def nth_append)
  show ?thesis
  proof (cases c)
    case (New_snapshot k gens mcp)
    then show ?thesis using assms(2) by (simp add: snap_exec_def)
  next
    case (Install r)
    then show ?thesis using install_inv[OF p] by (intro kept) (auto simp: snap_exec_def keep_error_def split: sum.split)
  next
    case (Begin r)
    then show ?thesis using begin_publish_inv[OF p] by (intro kept) (auto simp: snap_exec_def keep_error_def split: sum.split)
  next
    case (Lease sel)
    then show ?thesis using assms(2) add
      by (auto simp: snap_exec_def keep_error_def take_lease_def Let_def split: option.split)
  next
    case (Fork j)
    then show ?thesis using assms(2) add by (auto simp: snap_exec_def keep_error_def fork_lease_def Let_def)
  next
    case (Release j)
    then show ?thesis using assms(2,4) by (auto simp: snap_exec_def release_lease_def Let_def)
  next
    case (Schedule r)
    then show ?thesis by (intro kept) (simp add: snap_exec_def)
  next
    case Retry
    then show ?thesis using leases_kept_retry[OF p] by (intro kept) (simp add: snap_exec_def)
  next
    case (Drain_done k ok)
    then show ?thesis using assms(2) by (simp add: snap_exec_def drain_done_def split: option.split)
  qed (use publish in \<open>intro kept, simp add: snap_exec_def\<close>)+
qed

text \<open>
  The lease counters are exact.  In every reachable store the count of a snapshot is the number of
  its active leases, and the count of a plugin generation, or of a workspace MCP generation, is the
  number of uses of it by the snapshots of all active leases.
\<close>

theorem leases_counted:
  assumes "snap_reachable s"
  shows "sn_count (ss_heap s r) = int (length (leases_on s r)) \<and>
    ss_gen_count s g = int (\<Sum>l\<leftarrow>filter le_active (ss_leases s). uses_of (ss_heap s (le_snap l)) g) \<and>
    ss_mcp_count s h =
      int (\<Sum>l\<leftarrow>filter le_active (ss_leases s). if sn_mcp (ss_heap s (le_snap l)) = Some h then 1 else 0)"
  using snap_reachable_inv[OF assms] by (simp_all add: snap_inv_def lease_inv_def held_def)

text \<open>
  C17. A leased snapshot is kept.  In every reachable store, for a lease that is active, its snapshot is
  still stored under its id, no clean-up of it runs, the lease can be forked, and releasing it does not
  report an unbalanced count; and after any further command other than its own release all this still
  holds: neither a publication, promotion, discard or close nor any other lease takes the snapshot away.
\<close>

theorem leased_snapshot_kept:
  assumes "snap_reachable s" "i < length (ss_leases s)" "le_active (ss_leases s ! i)" "c \<noteq> Release i" "s' \<in> {s, snap_exec c s}"
  shows "le_active (ss_leases s' ! i) \<and> le_snap (ss_leases s' ! i) = le_snap (ss_leases s ! i) \<and>
    dict_get (ss_snaps s') (sn_id (ss_heap s' (le_snap (ss_leases s ! i)))) = Some (le_snap (ss_leases s ! i)) \<and>
    dict_get (ss_drains s') k \<noteq> Some (le_snap (ss_leases s ! i)) \<and>
    fst (release_lease i s') = None \<and> fork_lease i s' \<noteq> Inl e"
proof -
  have i: "snap_inv s" by (rule snap_reachable_inv[OF assms(1)])
  have l: "i < length (ss_leases s')" "ss_leases s' ! i = ss_leases s ! i"
    using exec_keeps_lease[OF i assms(2-4)] assms(2,5) by auto
  have i': "snap_inv s'" using assms(5) i snap_exec_inv[OF i] by auto
  have a: "le_active (ss_leases s' ! i)" using l assms(3) by simp
  have stored: "dict_get (ss_snaps s') (sn_id (ss_heap s' (le_snap (ss_leases s ! i)))) = Some (le_snap (ss_leases s ! i))"
    using lease_invD(3)[OF i' l(1) a] l by simp
  have "dict_get (ss_drains s') k \<noteq> Some (le_snap (ss_leases s ! i))" using active_counts(2)[OF i' l(1) a] l by simp
  moreover have "fst (release_lease i s') = None" using active_counts(1)[OF i' l(1) a] by (simp add: release_lease_def Let_def)
  moreover have "fork_lease i s' \<noteq> Inl e" using stored a l by (simp add: fork_lease_def Let_def)
  ultimately show ?thesis using stored l assms(3) by simp
qed

definition snap_demo_cmds :: "snap_cmd list" where
  "snap_demo_cmds = [New_snapshot ''a'' [(''p'', 0)] None, Install 0, Lease Stable,
     New_snapshot ''b'' [(''p'', 1)] (Some 2), Begin 1, Commit_latest True, Lease Latest]"

definition snap_demo :: snap_store where
  "snap_demo = fold snap_exec snap_demo_cmds new_store"

lemma fold_reachable: "snap_reachable s \<Longrightarrow> snap_reachable (fold snap_exec cs s)"
  by (induction cs arbitrary: s) (auto intro: snap_step)

lemma snap_demo_reachable: "snap_reachable snap_demo"
  unfolding snap_demo_def by (intro fold_reachable snap_new)

lemma snap_demo_leases: "length (ss_leases snap_demo) = 2" "le_active (ss_leases snap_demo ! 0)" "le_snap (ss_leases snap_demo ! 0) = 0"
  "le_plugins (ss_leases snap_demo ! 1) = [''p'']"
  by code_simp+

theorem leases_counted_witness: "sn_count (ss_heap snap_demo 1) = 1 \<and> ss_gen_count snap_demo 1 = 1 \<and> ss_mcp_count snap_demo 2 = 1"
proof -
  have "length (leases_on snap_demo 1) = 1"
    "(\<Sum>l\<leftarrow>filter le_active (ss_leases snap_demo). uses_of (ss_heap snap_demo (le_snap l)) 1) = 1"
    "(\<Sum>l\<leftarrow>filter le_active (ss_leases snap_demo). if sn_mcp (ss_heap snap_demo (le_snap l)) = Some 2 then 1 else 0) = (1::nat)"
    by code_simp+
  then show ?thesis using leases_counted[OF snap_demo_reachable, where r = 1 and g = 1 and h = 2] by simp
qed

theorem leased_snapshot_kept_witness:
  "dict_get (ss_snaps (snap_exec (Promote True True) snap_demo))
     (sn_id (ss_heap (snap_exec (Promote True True) snap_demo) 0)) = Some 0"
  using leased_snapshot_kept[OF snap_demo_reachable, where i = 0 and c = "Promote True True"
      and s' = "snap_exec (Promote True True) snap_demo"] snap_demo_leases by simp

end
