(* ===== verification/Plugin_Rollout.thy ===== *)
theory Plugin_Rollout
  imports Roxy_Prelude
begin

text \<open>
  Turn-owned plugin operations: agent/plugins/turn_rollout.py, the capability registry of
  agent/control/context.py and the capability parts of \<open>start_thread\<close> and \<open>start_turn\<close> of
  agent/control/service.py.  A turn stages a plugin candidate, hands capabilities to child turns
  that try it out, and when the turn is over a background task either switches the candidate in
  or drops it.  Calls to the plugin manager are recorded in a log with the operation they serve;
  their answers are inputs.  Every await is a command boundary of \<open>rollout_exec\<close>.  The operator's command
  plugin/promote, which calls the manager past these operations, is outside the model.
\<close>

datatype op_kind = Install_op | Uninstall_op

datatype turn_status = Queued | In_progress | Completed | Interrupted | Failed | Cancelled

text \<open>\<open>po_ref\<close> stands for the identity of the object.\<close>

record operation =
  po_ref :: nat
  po_owner :: string
  po_plugin :: string
  po_kind :: op_kind
  po_generation :: string
  po_revision :: string
  po_tx :: string
  po_evidence :: "string list"
  po_sealed :: bool

datatype cancel_reason = Parent_not_completed turn_status | No_evidence

text \<open>The four texts of the rollout fact, and the content of its file.\<close>

datatype rollout_fact = Switched_in string | Removed string | Kept string cancel_reason | Not_done string op_kind
datatype fact_file = Fact rollout_fact | Malformed

text \<open>A resolution is at the await of its first statement's call or of the clean-up in the handler.\<close>

datatype res_pc = Res_start | Res_dropping cancel_reason | Res_switching | Res_uninstalling | Res_cleaning

record resolution =
  rs_op :: operation
  rs_status :: turn_status
  rs_pc :: res_pc

datatype rollout_event = Registered operation | Reverted nat | Minted nat string
  | Bound nat string string | Child_done nat string "string list" | Sealed nat string turn_status
  | Switch nat string | Uninstall nat string | Drop "nat option" string | Annotate string

datatype lock_holder = Fetching string | Dropping_unidentified string

datatype rollout_error = Blank_owner | Blank_plugin | Lock_held | Other_operation | Manager_raised
  | No_identity | Plugin_missing | Not_owner | Already_sealed | Bad_fact | Bad_runtime | Reserved_field
  | Bad_capability | Not_attached | Unknown_thread | Bad_memory_flag

type_synonym metadata = "(string, json) dict"

record rollout =
  ro_pending :: "operation option"
  ro_next :: nat
  ro_lock :: "lock_holder option"
  ro_children :: "(string, string) dict"
  ro_reserved :: "(string, string) dict"
  ro_minters :: "string list"
  ro_tasks :: "resolution list"
  ro_resolution :: "nat option"
  ro_fact :: "fact_file option"
  ro_threads :: "(string, string) dict"
  ro_turns :: "(string, metadata) dict"
  ro_log :: "rollout_event list"

definition new_rollout :: rollout where
  "new_rollout = \<lparr>ro_pending = None, ro_next = 0, ro_lock = None, ro_children = [], ro_reserved = [], ro_minters = [],
     ro_tasks = [], ro_resolution = None, ro_fact = None, ro_threads = [], ro_turns = [], ro_log = []\<rparr>"

definition log_event :: "rollout_event \<Rightarrow> rollout \<Rightarrow> rollout" where
  "log_event e s = s\<lparr>ro_log := ro_log s @ [e]\<rparr>"

definition register_minter :: "string \<Rightarrow> rollout \<Rightarrow> rollout" where
  "register_minter owner s = s\<lparr>ro_minters := List.insert owner (ro_minters s)\<rparr>"

definition unregister_minter :: "string \<Rightarrow> rollout \<Rightarrow> rollout" where
  "unregister_minter owner s = s\<lparr>ro_minters := removeAll owner (ro_minters s)\<rparr>"

definition clear_capabilities :: "rollout \<Rightarrow> rollout" where
  "clear_capabilities s = s\<lparr>ro_children := [], ro_reserved := []\<rparr>"

subsection \<open>Registering operations\<close>

text \<open>\<open>install\<close> up to the fetch of the candidate, which runs under the lock.\<close>

definition install_begin :: "string \<Rightarrow> rollout \<Rightarrow> rollout_error option \<times> rollout" where
  "install_begin owner s =
     (if py_strip owner = [] then (Some Blank_owner, s)
      else if ro_lock s \<noteq> None then (Some Lock_held, s)
      else if ro_pending s \<noteq> None then (Some Other_operation, s)
      else (None, s\<lparr>ro_lock := Some (Fetching owner)\<rparr>))"

text \<open>The answer of the manager: nothing if it raised, else the plugin name, the marketplace, whether a
  candidate was staged, its source revision, generation and transaction.\<close>

record staged =
  st_name :: string
  st_market :: string
  st_staged :: bool
  st_revision :: string
  st_generation :: string
  st_tx :: string

definition install_end :: "staged option \<Rightarrow> bool \<Rightarrow> rollout \<Rightarrow> rollout_error option \<times> rollout" where
  "install_end answer annotated s = (case ro_lock s of
     Some (Fetching owner) \<Rightarrow> (let s0 = s\<lparr>ro_lock := None\<rparr> in case answer of
         None \<Rightarrow> (Some Manager_raised, s0)
       | Some a \<Rightarrow> let plugin = st_name a @ ''@'' @ st_market a in
           if \<not> st_staged a then (None, s0)
           else if st_generation a = [] \<or> st_tx a = [] then
             (None, log_event (Drop None plugin) (s\<lparr>ro_lock := Some (Dropping_unidentified plugin)\<rparr>))
           else let op = \<lparr>po_ref = ro_next s, po_owner = owner, po_plugin = plugin, po_kind = Install_op,
               po_generation = st_generation a, po_revision = st_revision a, po_tx = st_tx a,
               po_evidence = [], po_sealed = False\<rparr> in
             (if annotated then None else Some Manager_raised,
              log_event (Annotate (st_tx a)) (register_minter owner (log_event (Registered op)
                (s0\<lparr>ro_pending := Some op, ro_next := ro_next s + 1\<rparr>)))))
   | _ \<Rightarrow> (None, s))"

definition install_dropped :: "rollout \<Rightarrow> rollout_error option \<times> rollout" where
  "install_dropped s = (case ro_lock s of
     Some (Dropping_unidentified plugin) \<Rightarrow> (Some No_identity, s\<lparr>ro_lock := None\<rparr>)
   | _ \<Rightarrow> (None, s))"

definition uninstall_plugin :: "string \<Rightarrow> string \<Rightarrow> bool \<Rightarrow> rollout \<Rightarrow> rollout_error option \<times> rollout" where
  "uninstall_plugin owner plugin installed s =
     (if py_strip owner = [] then (Some Blank_owner, s)
      else if py_strip plugin = [] then (Some Blank_plugin, s)
      else if ro_lock s \<noteq> None then (Some Lock_held, s)
      else if ro_pending s \<noteq> None then (Some Other_operation, s)
      else if \<not> installed then (Some Plugin_missing, s)
      else let op = \<lparr>po_ref = ro_next s, po_owner = owner, po_plugin = py_strip plugin, po_kind = Uninstall_op,
          po_generation = [], po_revision = [], po_tx = [], po_evidence = [], po_sealed = False\<rparr> in
        (None, log_event (Registered op) (s\<lparr>ro_pending := Some op, ro_next := ro_next s + 1\<rparr>)))"

text \<open>\<open>revert\<close>; the candidate is dropped after the lock is released.\<close>

definition revert_operation :: "string \<Rightarrow> rollout \<Rightarrow> rollout_error option \<times> rollout" where
  "revert_operation owner s =
     (if py_strip owner = [] then (Some Blank_owner, s)
      else if ro_lock s \<noteq> None then (Some Lock_held, s)
      else case ro_pending s of None \<Rightarrow> (Some Not_owner, s)
      | Some p \<Rightarrow>
          if po_owner p \<noteq> owner then (Some Not_owner, s)
          else if po_sealed p then (Some Already_sealed, s)
          else let s1 = log_event (Reverted (po_ref p))
              (unregister_minter (po_owner p) (clear_capabilities (s\<lparr>ro_pending := None\<rparr>))) in
            (None, if po_kind p = Install_op then log_event (Drop (Some (po_ref p)) (po_plugin p)) s1 else s1))"

subsection \<open>Capabilities\<close>

definition live_install :: "string \<Rightarrow> rollout \<Rightarrow> operation option" where
  "live_install owner s = (case ro_pending s of None \<Rightarrow> None
     | Some p \<Rightarrow> if po_sealed p \<or> po_kind p \<noteq> Install_op \<or> po_owner p \<noteq> owner then None else Some p)"

text \<open>\<open>mint_plugin_child_capability\<close> with \<open>mint_child_capability\<close>; \<open>fresh\<close> is the random token.\<close>

definition mint_capability :: "string \<Rightarrow> string \<Rightarrow> rollout \<Rightarrow> string \<times> rollout" where
  "mint_capability owner fresh s =
     (if owner \<notin> set (ro_minters s) then ([], s)
      else case live_install owner s of None \<Rightarrow> ([], s)
      | Some p \<Rightarrow> (fresh, log_event (Minted (po_ref p) fresh) (s\<lparr>ro_children := dict_set (ro_children s) fresh owner\<rparr>)))"

definition child_binding :: "string \<Rightarrow> bool \<Rightarrow> rollout \<Rightarrow> operation option \<times> rollout" where
  "child_binding cap consume s =
     (if consume then
        (let owner = (case dict_get (ro_reserved s) cap of Some w \<Rightarrow> w | None \<Rightarrow> []) in
         (if owner = [] then None else live_install owner s, s\<lparr>ro_reserved := dict_del (ro_reserved s) cap\<rparr>))
      else
        (let owner = (case dict_get (ro_children s) cap of Some w \<Rightarrow> w | None \<Rightarrow> []);
             s1 = s\<lparr>ro_children := dict_del (ro_children s) cap\<rparr>;
             s2 = (if owner \<noteq> [] then s1\<lparr>ro_reserved := dict_set (ro_reserved s1) cap owner\<rparr> else s1) in
         (if owner = [] then None else live_install owner s, s2)))"

definition reserved_field :: "metadata \<Rightarrow> bool" where
  "reserved_field m = list_ex (\<lambda>k. take 14 k = ''_pluginRollout'') (dict_keys m)"

text \<open>The capability part of \<open>start_thread\<close>; \<open>memory_ok\<close> is the check of the memory flag.\<close>

definition start_thread :: "bool \<Rightarrow> metadata \<Rightarrow> string \<Rightarrow> string \<Rightarrow> string \<Rightarrow> rollout \<Rightarrow> rollout_error option \<times> rollout" where
  "start_thread memory_ok meta runtime thread cap s =
     (if \<not> memory_ok then (Some Bad_memory_flag, s)
      else if runtime \<noteq> ''stable'' then (Some Bad_runtime, s)
      else if dict_get meta ''runtime'' \<noteq> None \<or> reserved_field meta then (Some Reserved_field, s)
      else if cap = [] then (None, s)
      else case child_binding cap False s of
        (None, s1) \<Rightarrow> (Some Bad_capability, s1)
      | (Some p, s1) \<Rightarrow> (None, s1\<lparr>ro_threads := dict_set (ro_threads s1) thread cap\<rparr>))"

definition rollout_fields :: "operation \<Rightarrow> metadata" where
  "rollout_fields p = [(''_pluginRolloutOwnerTurnId'', JStr (po_owner p)), (''_pluginRolloutPluginId'', JStr (po_plugin p)),
     (''_pluginRolloutGenerationId'', JStr (po_generation p)), (''_pluginRolloutSourceRevision'', JStr (po_revision p))]"

definition dict_update :: "('k, 'v) dict \<Rightarrow> ('k, 'v) dict \<Rightarrow> ('k, 'v) dict" where
  "dict_update d e = fold (\<lambda>(k, v) d. dict_set d k v) e d"

text \<open>\<open>start_turn\<close> after its barrier: \<open>session\<close> is the stored metadata of the thread, \<open>runtime\<close> the
  selector of the call, and \<open>turn\<close> the id the runtime gives the turn.\<close>

definition start_turn :: "metadata option \<Rightarrow> string \<Rightarrow> metadata \<Rightarrow> json option \<Rightarrow> bool \<Rightarrow> string \<Rightarrow> rollout \<Rightarrow>
    rollout_error option \<times> rollout" where
  "start_turn session thread meta runtime attached turn s = (case session of None \<Rightarrow> (Some Unknown_thread, s)
     | Some sm \<Rightarrow>
       if dict_get meta ''runtime'' \<noteq> None \<or> reserved_field meta then (Some Reserved_field, s)
       else let requested = (case runtime of Some v \<Rightarrow> v | None \<Rightarrow> json_get sm ''runtime'' (JStr ''stable'')) in
       if requested \<notin> {JStr ''stable'', JStr ''latest''} then (Some Bad_runtime, s)
       else let cap = (case dict_get (ro_threads s) thread of Some c \<Rightarrow> c | None \<Rightarrow> []);
                s1 = s\<lparr>ro_threads := dict_del (ro_threads s) thread\<rparr>;
                run = (\<lambda>selector m t. t\<lparr>ro_turns := dict_set (ro_turns t) turn (dict_set m ''runtime'' (JStr selector))\<rparr>) in
       if cap = [] then (if requested = JStr ''latest'' then (Some Bad_runtime, s1) else (None, run ''stable'' meta s1))
       else case child_binding cap True s1 of
         (None, s2) \<Rightarrow> (Some Bad_capability, s2)
       | (Some p, s2) \<Rightarrow>
           if \<not> attached then (Some Not_attached, s2)
           else (None, log_event (Bound (po_ref p) turn cap) (run ''latest'' (dict_update meta (rollout_fields p)) s2)))"

definition delete_thread :: "string \<Rightarrow> rollout \<Rightarrow> rollout" where
  "delete_thread thread s = s\<lparr>ro_threads := dict_del (ro_threads s) thread\<rparr>"

subsection \<open>The end of turns\<close>

text \<open>\<open>str(metadata.get(k) or '')\<close>; \<open>repr\<close> is \<open>str\<close> of a JSON value that is not a text.\<close>

definition meta_text :: "(json \<Rightarrow> string) \<Rightarrow> metadata \<Rightarrow> string \<Rightarrow> string" where
  "meta_text repr m k = (let v = json_field m k in
     if \<not> truthy v then [] else case v of JStr t \<Rightarrow> t | _ \<Rightarrow> repr v)"

text \<open>\<open>evidence\<close>: the answer of \<open>candidate_child_evidence\<close>, nothing if it raised.  The names are sorted as a set.\<close>

definition record_child :: "(json \<Rightarrow> string) \<Rightarrow> string \<Rightarrow> string \<Rightarrow> turn_status \<Rightarrow> string list option \<Rightarrow> bool \<Rightarrow>
    rollout \<Rightarrow> rollout_error option \<times> rollout" where
  "record_child repr owner turn status evidence annotated s =
     (let m = (case dict_get (ro_turns s) turn of Some m \<Rightarrow> m | None \<Rightarrow> []) in
      case live_install owner s of None \<Rightarrow> (None, s)
      | Some p \<Rightarrow>
          if meta_text repr m ''_pluginRolloutGenerationId'' \<noteq> po_generation p \<or>
             meta_text repr m ''_pluginRolloutSourceRevision'' \<noteq> po_revision p then (None, s)
          else case (if status = Completed then evidence else Some []) of None \<Rightarrow> (Some Manager_raised, s)
          | Some ev \<Rightarrow> let s1 = log_event (Child_done (po_ref p) turn ev)
                (s\<lparr>ro_pending := Some (p\<lparr>po_evidence := sorted_list_of_set (set (po_evidence p) \<union> set ev)\<rparr>)\<rparr>) in
              if po_tx p = [] then (None, s1)
              else (if annotated then None else Some Manager_raised, log_event (Annotate (po_tx p)) s1))"

definition seal_operation :: "string \<Rightarrow> turn_status \<Rightarrow> rollout \<Rightarrow> rollout" where
  "seal_operation turn status s = (case ro_pending s of None \<Rightarrow> s
     | Some p \<Rightarrow>
         if po_owner p \<noteq> turn \<or> po_sealed p then s
         else let q = p\<lparr>po_sealed := True\<rparr> in
           log_event (Sealed (po_ref p) turn status) (unregister_minter (po_owner p) (clear_capabilities
             (s\<lparr>ro_pending := Some q, ro_tasks := ro_tasks s @ [\<lparr>rs_op = q, rs_status = status, rs_pc = Res_start\<rparr>],
                ro_resolution := Some (po_ref p)\<rparr>))))"

definition turn_terminal :: "(json \<Rightarrow> string) \<Rightarrow> string \<Rightarrow> turn_status \<Rightarrow> string list option \<Rightarrow> bool \<Rightarrow>
    rollout \<Rightarrow> rollout_error option \<times> rollout" where
  "turn_terminal repr turn status evidence annotated s =
     (let m = (case dict_get (ro_turns s) turn of Some m \<Rightarrow> m | None \<Rightarrow> []);
          owner = meta_text repr m ''_pluginRolloutOwnerTurnId'' in
      if owner \<noteq> [] then record_child repr owner turn status evidence annotated s
      else (None, seal_operation turn status s))"

text \<open>Whether a new turn passes the boundary: no resolution is running.\<close>

definition boundary_open :: "rollout \<Rightarrow> bool" where
  "boundary_open s \<longleftrightarrow> ro_resolution s = None"

subsection \<open>Resolutions\<close>

definition put_fact :: "bool \<Rightarrow> rollout_fact \<Rightarrow> rollout \<Rightarrow> rollout" where
  "put_fact ok f s = (if ok then s\<lparr>ro_fact := Some (Fact f)\<rparr> else s)"

text \<open>The \<open>finally\<close> block of \<open>_resolve_parent\<close>.\<close>

definition finish_resolution :: "resolution \<Rightarrow> rollout \<Rightarrow> rollout" where
  "finish_resolution t s = (let p = rs_op t;
       s1 = (case ro_pending s of None \<Rightarrow> s
             | Some q \<Rightarrow> if po_ref q = po_ref p then s\<lparr>ro_pending := None\<rparr> else s);
       s2 = unregister_minter (po_owner p) (clear_capabilities s1);
       s3 = (if ro_resolution s2 = Some (po_ref p) then s2\<lparr>ro_resolution := None\<rparr> else s2) in
     s3\<lparr>ro_tasks := filter (\<lambda>u. po_ref (rs_op u) \<noteq> po_ref p) (ro_tasks s3)\<rparr>)"

definition at_pc :: "resolution \<Rightarrow> res_pc \<Rightarrow> rollout \<Rightarrow> rollout" where
  "at_pc t pc s = s\<lparr>ro_tasks := map (\<lambda>u. if po_ref (rs_op u) = po_ref (rs_op t) then u\<lparr>rs_pc := pc\<rparr> else u) (ro_tasks s)\<rparr>"

text \<open>The outcomes of a step: whether the awaited call returned, whether the fact, and the fact of the
  failure, could be written, and whether the candidate still stands (nothing if its status cannot be read).\<close>

record call_outcome =
  oc_call :: bool
  oc_fact :: bool
  oc_failure_fact :: bool
  oc_standing :: "bool option"

definition failed_resolution :: "resolution \<Rightarrow> call_outcome \<Rightarrow> rollout \<Rightarrow> rollout" where
  "failed_resolution t oc s = (let p = rs_op t; s1 = put_fact (oc_failure_fact oc) (Not_done (po_plugin p) (po_kind p)) s in
     if oc_failure_fact oc \<and> po_kind p = Install_op \<and> oc_standing oc = Some True
     then at_pc t Res_cleaning (log_event (Drop (Some (po_ref p)) (po_plugin p)) s1)
     else finish_resolution t s1)"

definition cancel_operation :: "resolution \<Rightarrow> cancel_reason \<Rightarrow> rollout \<Rightarrow> rollout" where
  "cancel_operation t reason s = (let p = rs_op t in
     if po_kind p = Install_op then at_pc t (Res_dropping reason) (log_event (Drop (Some (po_ref p)) (po_plugin p)) s)
     else finish_resolution t s)"

definition after_call :: "resolution \<Rightarrow> rollout_fact \<Rightarrow> call_outcome \<Rightarrow> rollout \<Rightarrow> rollout" where
  "after_call t f oc s =
     (if oc_call oc \<and> oc_fact oc then finish_resolution t (put_fact True f s) else failed_resolution t oc s)"

definition resolve_step :: "resolution \<Rightarrow> call_outcome \<Rightarrow> rollout \<Rightarrow> rollout" where
  "resolve_step t oc s = (let p = rs_op t in case rs_pc t of
     Res_start \<Rightarrow>
       if rs_status t \<noteq> Completed then cancel_operation t (Parent_not_completed (rs_status t)) s
       else if po_kind p = Install_op \<and> po_evidence p = [] then cancel_operation t No_evidence s
       else if po_kind p = Install_op then at_pc t Res_switching (log_event (Switch (po_ref p) (po_plugin p)) s)
       else at_pc t Res_uninstalling (log_event (Uninstall (po_ref p) (po_plugin p)) s)
   | Res_dropping reason \<Rightarrow> after_call t (Kept (po_plugin p) reason) oc s
   | Res_switching \<Rightarrow> after_call t (Switched_in (po_plugin p)) oc s
   | Res_uninstalling \<Rightarrow> after_call t (Removed (po_plugin p)) oc s
   | Res_cleaning \<Rightarrow> finish_resolution t s)"

text \<open>\<open>shutdown\<close> up to its wait, and the cancellation of a task: one that did not start never runs its \<open>finally\<close>.\<close>

definition shutdown_begin :: "rollout \<Rightarrow> rollout" where
  "shutdown_begin s = clear_capabilities (case ro_pending s of None \<Rightarrow> s | Some p \<Rightarrow> unregister_minter (po_owner p) s)"

definition cancel_task :: "resolution \<Rightarrow> rollout \<Rightarrow> rollout" where
  "cancel_task t s = (if rs_pc t = Res_start
     then s\<lparr>ro_tasks := filter (\<lambda>u. po_ref (rs_op u) \<noteq> po_ref (rs_op t)) (ro_tasks s)\<rparr>
     else finish_resolution t s)"

definition consume_fact :: "rollout \<Rightarrow> (rollout_error + rollout_fact option) \<times> rollout" where
  "consume_fact s = (case ro_fact s of None \<Rightarrow> (Inr None, s)
     | Some Malformed \<Rightarrow> (Inl Bad_fact, s)
     | Some (Fact f) \<Rightarrow> (Inr (Some f), s\<lparr>ro_fact := None\<rparr>))"

subsection \<open>Steps\<close>

datatype rollout_cmd =
    Install_begin string | Install_end "staged option" bool | Install_dropped
  | Uninstall_plugin string string bool | Revert_op string
  | Mint_cap string string | Start_thread bool metadata string string string
  | Start_turn "metadata option" string metadata "json option" bool string | Delete_thread string
  | Turn_terminal string turn_status "string list option" bool
  | Resolve nat call_outcome | Cancel_task nat | Shutdown | Consume_fact

definition task_at :: "nat \<Rightarrow> (resolution \<Rightarrow> rollout \<Rightarrow> rollout) \<Rightarrow> rollout \<Rightarrow> rollout" where
  "task_at i f s = (if i < length (ro_tasks s) then f (ro_tasks s ! i) s else s)"

definition rollout_exec :: "(json \<Rightarrow> string) \<Rightarrow> rollout_cmd \<Rightarrow> rollout \<Rightarrow> rollout" where
  "rollout_exec repr c s = (case c of
     Install_begin owner \<Rightarrow> snd (install_begin owner s)
   | Install_end a ok \<Rightarrow> snd (install_end a ok s)
   | Install_dropped \<Rightarrow> snd (install_dropped s)
   | Uninstall_plugin owner plugin ok \<Rightarrow> snd (uninstall_plugin owner plugin ok s)
   | Revert_op owner \<Rightarrow> snd (revert_operation owner s)
   | Mint_cap owner fresh \<Rightarrow> snd (mint_capability owner fresh s)
   | Start_thread ok m r th cap \<Rightarrow> snd (start_thread ok m r th cap s)
   | Start_turn sm th m r a turn \<Rightarrow> snd (start_turn sm th m r a turn s)
   | Delete_thread th \<Rightarrow> delete_thread th s
   | Turn_terminal turn st ev ok \<Rightarrow> snd (turn_terminal repr turn st ev ok s)
   | Resolve i oc \<Rightarrow> task_at i (\<lambda>t. resolve_step t oc) s
   | Cancel_task i \<Rightarrow> task_at i cancel_task s
   | Shutdown \<Rightarrow> shutdown_begin s
   | Consume_fact \<Rightarrow> snd (consume_fact s))"

inductive rollout_reachable :: "(json \<Rightarrow> string) \<Rightarrow> rollout \<Rightarrow> bool" for repr where
  rollout_new: "rollout_reachable repr new_rollout"
| rollout_step: "rollout_reachable repr s \<Longrightarrow> rollout_reachable repr (rollout_exec repr c s)"

subsection \<open>The invariant\<close>

text \<open>What every event of the log rests on.\<close>

definition event_refs :: "rollout_event \<Rightarrow> nat set" where
  "event_refs e = (case e of Registered p \<Rightarrow> {po_ref p} | Reverted r \<Rightarrow> {r} | Minted r c \<Rightarrow> {r} | Bound r turn c \<Rightarrow> {r}
     | Child_done r turn ev \<Rightarrow> {r} | Sealed r turn st \<Rightarrow> {r} | Switch r p \<Rightarrow> {r} | Uninstall r p \<Rightarrow> {r}
     | Drop r p \<Rightarrow> set_option r | Annotate tx \<Rightarrow> {})"

definition registered :: "rollout_event list \<Rightarrow> operation \<Rightarrow> bool" where
  "registered log p \<longleftrightarrow> Registered (p\<lparr>po_evidence := [], po_sealed := False\<rparr>) \<in> set log"

definition unsealed_in :: "rollout_event list \<Rightarrow> nat \<Rightarrow> bool" where
  "unsealed_in log r \<longleftrightarrow> Reverted r \<notin> set log \<and> (\<forall>turn st. Sealed r turn st \<notin> set log) \<and> (\<forall>q. Switch r q \<notin> set log)"

definition evidenced :: "rollout_event list \<Rightarrow> nat \<Rightarrow> bool" where
  "evidenced log r \<longleftrightarrow> (\<exists>turn ev. Child_done r turn ev \<in> set log \<and> ev \<noteq> [])"

definition switch_allowed :: "rollout_event list \<Rightarrow> nat \<Rightarrow> string \<Rightarrow> bool" where
  "switch_allowed log r plugin \<longleftrightarrow> (\<exists>p. registered log p \<and> po_ref p = r \<and> po_plugin p = plugin \<and> po_kind p = Install_op \<and>
     Sealed r (po_owner p) Completed \<in> set log \<and> evidenced log r \<and> Reverted r \<notin> set log \<and> (\<forall>q. Switch r q \<notin> set log))"

definition bound_turn :: "rollout_event list \<Rightarrow> string \<Rightarrow> operation \<Rightarrow> bool" where
  "bound_turn log turn p \<longleftrightarrow> (\<exists>q cap. registered log q \<and> Bound (po_ref q) turn cap \<in> set log \<and> po_owner q = po_owner p \<and>
     po_generation q = po_generation p \<and> po_revision q = po_revision p)"

definition is_bound :: "string \<Rightarrow> rollout_event \<Rightarrow> bool" where
  "is_bound cap e \<longleftrightarrow> (\<exists>r turn. e = Bound r turn cap)"

definition is_minted :: "string \<Rightarrow> rollout_event \<Rightarrow> bool" where
  "is_minted cap e \<longleftrightarrow> (\<exists>r. e = Minted r cap)"

definition uses_cap :: "rollout_event list \<Rightarrow> string \<Rightarrow> nat" where
  "uses_cap log cap = length (filter (is_bound cap) log)"

definition mints_cap :: "rollout_event list \<Rightarrow> string \<Rightarrow> nat" where
  "mints_cap log cap = length (filter (is_minted cap) log)"

definition event_ok :: "rollout_event list \<Rightarrow> rollout_event \<Rightarrow> bool" where
  "event_ok log e \<longleftrightarrow> (case e of
     Registered p \<Rightarrow> \<forall>e \<in> set log. po_ref p \<notin> event_refs e
   | Switch r plugin \<Rightarrow> switch_allowed log r plugin
   | Bound r turn cap \<Rightarrow> Minted r cap \<in> set log \<and> unsealed_in log r \<and> uses_cap log cap < mints_cap log cap
   | Child_done r turn ev \<Rightarrow> \<exists>p. registered log p \<and> po_ref p = r \<and> bound_turn log turn p
   | _ \<Rightarrow> True)"

definition log_ok :: "rollout_event list \<Rightarrow> bool" where
  "log_ok log \<longleftrightarrow> (\<forall>pre e post. log = pre @ e # post \<longrightarrow> event_ok pre e)"

definition pending_ok :: "rollout_event list \<Rightarrow> nat \<Rightarrow> operation \<Rightarrow> bool" where
  "pending_ok log n p \<longleftrightarrow> registered log p \<and> po_ref p < n \<and> Reverted (po_ref p) \<notin> set log \<and>
     (po_evidence p \<noteq> [] \<longrightarrow> evidenced log (po_ref p)) \<and> (\<not> po_sealed p \<longrightarrow> unsealed_in log (po_ref p))"

definition task_ok :: "rollout \<Rightarrow> resolution \<Rightarrow> bool" where
  "task_ok s t \<longleftrightarrow> ro_pending s = Some (rs_op t) \<and> po_sealed (rs_op t) \<and> ro_resolution s = Some (po_ref (rs_op t)) \<and>
     Sealed (po_ref (rs_op t)) (po_owner (rs_op t)) (rs_status t) \<in> set (ro_log s) \<and>
     (rs_pc t = Res_start \<longrightarrow> (\<forall>q. Switch (po_ref (rs_op t)) q \<notin> set (ro_log s)))"

definition tasks_ok :: "rollout \<Rightarrow> bool" where
  "tasks_ok s \<longleftrightarrow> (ro_tasks s = [] \<or> (\<exists>t. ro_tasks s = [t] \<and> task_ok s t)) \<and>
     (ro_lock s \<noteq> None \<longrightarrow> ro_pending s = None)"

definition cap_ok :: "rollout \<Rightarrow> string \<Rightarrow> string \<Rightarrow> bool" where
  "cap_ok s cap w \<longleftrightarrow> (\<exists>p. live_install w s = Some p \<and> Minted (po_ref p) cap \<in> set (ro_log s))"

definition held_caps :: "rollout \<Rightarrow> string \<Rightarrow> nat" where
  "held_caps s cap = (if dict_get (ro_children s) cap = None then 0 else 1) + (if dict_get (ro_reserved s) cap = None then 0 else 1)"

definition caps_ok :: "rollout \<Rightarrow> bool" where
  "caps_ok s \<longleftrightarrow> (\<forall>w \<in> set (ro_minters s). live_install w s \<noteq> None) \<and>
     (\<forall>cap w. dict_get (ro_children s) cap = Some w \<or> dict_get (ro_reserved s) cap = Some w \<longrightarrow> cap_ok s cap w) \<and>
     (\<forall>cap. uses_cap (ro_log s) cap + held_caps s cap \<le> mints_cap (ro_log s) cap)"

definition turns_ok :: "(json \<Rightarrow> string) \<Rightarrow> rollout \<Rightarrow> bool" where
  "turns_ok repr s \<longleftrightarrow> (\<forall>turn m. dict_get (ro_turns s) turn = Some m \<longrightarrow> meta_text repr m ''_pluginRolloutOwnerTurnId'' \<noteq> [] \<longrightarrow>
     (\<exists>q cap. registered (ro_log s) q \<and> Bound (po_ref q) turn cap \<in> set (ro_log s) \<and>
        po_owner q = meta_text repr m ''_pluginRolloutOwnerTurnId'' \<and>
        po_generation q = meta_text repr m ''_pluginRolloutGenerationId'' \<and>
        po_revision q = meta_text repr m ''_pluginRolloutSourceRevision''))"

definition rollout_inv :: "(json \<Rightarrow> string) \<Rightarrow> rollout \<Rightarrow> bool" where
  "rollout_inv repr s \<longleftrightarrow> log_ok (ro_log s) \<and> (\<forall>e \<in> set (ro_log s). \<forall>r \<in> event_refs e. r < ro_next s) \<and>
     (\<forall>p. ro_pending s = Some p \<longrightarrow> pending_ok (ro_log s) (ro_next s) p) \<and> tasks_ok s \<and> caps_ok s \<and> turns_ok repr s"

lemma log_ok_empty [simp]: "log_ok []"
  by (simp add: log_ok_def)

lemma log_ok_snoc [simp]: "log_ok (log @ [e]) \<longleftrightarrow> log_ok log \<and> event_ok log e"
proof -
  have "log_ok (log @ [e]) \<Longrightarrow> log_ok log"
    unfolding log_ok_def by (metis append.assoc append_Cons)
  moreover have "log_ok (log @ [e]) \<Longrightarrow> event_ok log e" unfolding log_ok_def by blast
  moreover have "event_ok pre x" if "log_ok log" "event_ok log e" "log @ [e] = pre @ x # post" for pre x post
    using that by (cases post rule: rev_cases) (auto simp: log_ok_def)
  ultimately show ?thesis unfolding log_ok_def by blast
qed

lemma event_ok_plain [simp]:
  "event_ok log (Reverted r)" "event_ok log (Minted r cap)" "event_ok log (Sealed r turn st)"
  "event_ok log (Uninstall r plugin)" "event_ok log (Drop x plugin)" "event_ok log (Annotate tx)"
  by (simp_all add: event_ok_def)

lemma log_event_frame [simp]:
  "ro_log (log_event e s) = ro_log s @ [e]" "ro_pending (log_event e s) = ro_pending s" "ro_next (log_event e s) = ro_next s"
  "ro_lock (log_event e s) = ro_lock s" "ro_children (log_event e s) = ro_children s" "ro_reserved (log_event e s) = ro_reserved s"
  "ro_minters (log_event e s) = ro_minters s" "ro_tasks (log_event e s) = ro_tasks s" "ro_resolution (log_event e s) = ro_resolution s"
  "ro_turns (log_event e s) = ro_turns s" "ro_threads (log_event e s) = ro_threads s" "ro_fact (log_event e s) = ro_fact s"
  by (simp_all add: log_event_def)

lemma minters_frame [simp]:
  "ro_log (unregister_minter w s) = ro_log s" "ro_pending (unregister_minter w s) = ro_pending s" "ro_next (unregister_minter w s) = ro_next s"
  "ro_lock (unregister_minter w s) = ro_lock s" "ro_children (unregister_minter w s) = ro_children s"
  "ro_reserved (unregister_minter w s) = ro_reserved s" "ro_minters (unregister_minter w s) = removeAll w (ro_minters s)"
  "ro_tasks (unregister_minter w s) = ro_tasks s" "ro_resolution (unregister_minter w s) = ro_resolution s"
  "ro_turns (unregister_minter w s) = ro_turns s"
  "ro_log (register_minter w s) = ro_log s" "ro_pending (register_minter w s) = ro_pending s" "ro_next (register_minter w s) = ro_next s"
  "ro_lock (register_minter w s) = ro_lock s" "ro_children (register_minter w s) = ro_children s"
  "ro_reserved (register_minter w s) = ro_reserved s" "ro_minters (register_minter w s) = List.insert w (ro_minters s)"
  "ro_tasks (register_minter w s) = ro_tasks s" "ro_resolution (register_minter w s) = ro_resolution s"
  "ro_turns (register_minter w s) = ro_turns s"
  "ro_log (clear_capabilities s) = ro_log s" "ro_pending (clear_capabilities s) = ro_pending s" "ro_next (clear_capabilities s) = ro_next s"
  "ro_lock (clear_capabilities s) = ro_lock s" "ro_children (clear_capabilities s) = []" "ro_reserved (clear_capabilities s) = []"
  "ro_minters (clear_capabilities s) = ro_minters s" "ro_tasks (clear_capabilities s) = ro_tasks s"
  "ro_resolution (clear_capabilities s) = ro_resolution s" "ro_turns (clear_capabilities s) = ro_turns s"
  by (simp_all add: register_minter_def unregister_minter_def clear_capabilities_def)

lemma log_views [simp]:
  "registered (log @ [e]) p \<longleftrightarrow> registered log p \<or> e = Registered (p\<lparr>po_evidence := [], po_sealed := False\<rparr>)"
  "evidenced (log @ [e]) r \<longleftrightarrow> evidenced log r \<or> (\<exists>turn ev. e = Child_done r turn ev \<and> ev \<noteq> [])"
  "unsealed_in (log @ [e]) r \<longleftrightarrow> unsealed_in log r \<and> e \<noteq> Reverted r \<and> (\<forall>turn st. e \<noteq> Sealed r turn st) \<and> (\<forall>q. e \<noteq> Switch r q)"
  "uses_cap (log @ [e]) cap = uses_cap log cap + (if is_bound cap e then 1 else 0)"
  "mints_cap (log @ [e]) cap = mints_cap log cap + (if is_minted cap e then 1 else 0)"
  by (auto simp: registered_def evidenced_def unsealed_in_def uses_cap_def mints_cap_def)

lemma is_cap_event [simp]:
  "is_bound cap (Bound r turn c) \<longleftrightarrow> c = cap" "is_minted cap (Minted r c) \<longleftrightarrow> c = cap"
  "\<not> is_bound cap (Registered p)" "\<not> is_bound cap (Reverted r)" "\<not> is_bound cap (Minted r c)" "\<not> is_bound cap (Child_done r turn ev)"
  "\<not> is_bound cap (Sealed r turn st)" "\<not> is_bound cap (Switch r q)" "\<not> is_bound cap (Uninstall r q)" "\<not> is_bound cap (Drop x q)"
  "\<not> is_bound cap (Annotate tx)"
  "\<not> is_minted cap (Registered p)" "\<not> is_minted cap (Reverted r)" "\<not> is_minted cap (Bound r turn c)" "\<not> is_minted cap (Child_done r turn ev)"
  "\<not> is_minted cap (Sealed r turn st)" "\<not> is_minted cap (Switch r q)" "\<not> is_minted cap (Uninstall r q)" "\<not> is_minted cap (Drop x q)"
  "\<not> is_minted cap (Annotate tx)"
  by (auto simp: is_bound_def is_minted_def)

lemma live_install_Some: "live_install w s = Some p \<longleftrightarrow>
    ro_pending s = Some p \<and> \<not> po_sealed p \<and> po_kind p = Install_op \<and> po_owner p = w"
  by (auto simp: live_install_def split: option.split)

lemma live_install_eq: "ro_pending s' = ro_pending s \<Longrightarrow> live_install w s' = live_install w s"
  by (simp add: live_install_def)

lemma rollout_invD:
  assumes "rollout_inv repr s"
  shows "log_ok (ro_log s)" "e \<in> set (ro_log s) \<Longrightarrow> r \<in> event_refs e \<Longrightarrow> r < ro_next s"
    "ro_pending s = Some p \<Longrightarrow> pending_ok (ro_log s) (ro_next s) p" "tasks_ok s" "caps_ok s" "turns_ok repr s"
  using assms unfolding rollout_inv_def by blast+

text \<open>What only adds a plain event, or removes capabilities, keeps the invariant.\<close>

definition plain_event :: "rollout_event \<Rightarrow> bool" where
  "plain_event e = (case e of Annotate tx \<Rightarrow> True | Drop r q \<Rightarrow> True | Uninstall r q \<Rightarrow> True | _ \<Rightarrow> False)"

lemma plain_event_cases: "plain_event e \<Longrightarrow> (\<And>tx. e = Annotate tx \<Longrightarrow> P) \<Longrightarrow> (\<And>r q. e = Drop r q \<Longrightarrow> P) \<Longrightarrow>
    (\<And>r q. e = Uninstall r q \<Longrightarrow> P) \<Longrightarrow> P"
  by (cases e) (auto simp: plain_event_def)

lemma bound_turn_snoc: "bound_turn log turn p \<Longrightarrow> bound_turn (log @ [e]) turn p"
  by (auto simp: bound_turn_def)

lemma turns_ok_log: "turns_ok repr s \<Longrightarrow> ro_turns s' = ro_turns s \<Longrightarrow> ro_log s' = ro_log s @ es \<Longrightarrow> turns_ok repr s'"
proof -
  assume a: "turns_ok repr s" "ro_turns s' = ro_turns s" "ro_log s' = ro_log s @ es"
  have "registered (ro_log s) q \<Longrightarrow> registered (ro_log s') q" for q by (simp add: registered_def a(3))
  then show ?thesis using a unfolding turns_ok_def by (metis Un_iff set_append)
qed

lemma cap_ok_grow:
  "cap_ok s cap w \<Longrightarrow> ro_pending s' = ro_pending s \<Longrightarrow> set (ro_log s) \<subseteq> set (ro_log s') \<Longrightarrow> cap_ok s' cap w"
  unfolding cap_ok_def live_install_def by auto

lemma caps_ok_grow:
  assumes "caps_ok s" "\<forall>cap. \<not> is_bound cap e \<and> \<not> is_minted cap e"
    and "ro_pending s' = ro_pending s" "ro_log s' = ro_log s @ [e]" "ro_minters s' = ro_minters s"
    "ro_children s' = ro_children s" "ro_reserved s' = ro_reserved s"
  shows "caps_ok s'"
proof -
  have l: "live_install w s' = live_install w s" for w by (rule live_install_eq[OF assms(3)])
  have "cap_ok s cap w \<Longrightarrow> cap_ok s' cap w" for cap w using assms(3,4) by (auto intro: cap_ok_grow)
  then show ?thesis using assms(1,2) unfolding caps_ok_def l held_caps_def assms(4-7) log_views by auto
qed

lemma plain_event_inv:
  assumes "rollout_inv repr s" "plain_event e" "\<forall>r \<in> event_refs e. r < ro_next s"
  shows "rollout_inv repr (log_event e s)"
proof -
  note d = rollout_invD[OF assms(1)]
  have t: "turns_ok repr (log_event e s)" by (rule turns_ok_log[OF d(6)]) simp_all
  have l: "live_install w (log_event e s) = live_install w s" for w by (simp add: live_install_def)
  have neq: "event_ok (ro_log s) e" "\<forall>cap. \<not> is_bound cap e \<and> \<not> is_minted cap e"
      "\<forall>r turn st q. e \<noteq> Reverted r \<and> e \<noteq> Sealed r turn st \<and> Switch r q \<noteq> e \<and> e \<noteq> Switch r q"
    using assms(2) by (auto elim: plain_event_cases)
  have "tasks_ok (log_event e s)" using d(4) neq by (auto simp: tasks_ok_def task_ok_def)
  moreover have "caps_ok (log_event e s)"
    by (rule caps_ok_grow[OF d(5), where e = e]) (use neq in auto)
  moreover have "pending_ok (ro_log (log_event e s)) (ro_next s) p" if "ro_pending s = Some p" for p
    using d(3)[OF that] neq by (auto simp: pending_ok_def)
  ultimately show ?thesis using d(1,2) t neq(1) assms(3) by (auto simp: rollout_inv_def)
qed

text \<open>Dropping capabilities, and the end of an operation.\<close>

lemma weaker_caps_inv:
  assumes "rollout_inv repr s" "ro_log s' = ro_log s" "ro_next s' = ro_next s" "ro_pending s' = ro_pending s" "tasks_ok s'"
    "ro_turns s' = ro_turns s" "set (ro_minters s') \<subseteq> set (ro_minters s)"
    and "\<And>cap w. dict_get (ro_children s') cap = Some w \<or> dict_get (ro_reserved s') cap = Some w \<Longrightarrow>
      dict_get (ro_children s) cap = Some w \<or> dict_get (ro_reserved s) cap = Some w"
    and "\<And>cap. held_caps s' cap \<le> held_caps s cap"
  shows "rollout_inv repr s'"
proof -
  note d = rollout_invD[OF assms(1)]
  have l: "live_install w s' = live_install w s" for w by (rule live_install_eq[OF assms(4)])
  have "cap_ok s' cap w = cap_ok s cap w" for cap w by (simp add: cap_ok_def l assms(2))
  moreover have "uses_cap (ro_log s') cap + held_caps s' cap \<le> mints_cap (ro_log s') cap" for cap
    using assms(9)[of cap] d(5) unfolding assms(2) caps_ok_def by (meson add_le_mono le_refl le_trans)
  ultimately have "caps_ok s'" using d(5) assms(7,8) unfolding caps_ok_def l by blast
  moreover have "turns_ok repr s'" using turns_ok_log[OF d(6), of s' "[]"] assms(2,6) by simp
  ultimately show ?thesis using d(1-3) assms(2-5) by (auto simp: rollout_inv_def)
qed

lemma clear_inv [simp]:
  assumes "rollout_inv repr s"
  shows "rollout_inv repr (clear_capabilities s)" "rollout_inv repr (unregister_minter w s)"
  by (rule weaker_caps_inv[OF assms]; use rollout_invD(4)[OF assms] in \<open>auto simp: tasks_ok_def task_ok_def held_caps_def\<close>)+

lemma fact_inv [simp]: "rollout_inv repr (s\<lparr>ro_fact := f\<rparr>) = rollout_inv repr s"
  by (simp add: rollout_inv_def tasks_ok_def task_ok_def caps_ok_def cap_ok_def live_install_def held_caps_def turns_ok_def)

lemma threads_inv [simp]: "rollout_inv repr (s\<lparr>ro_threads := f\<rparr>) = rollout_inv repr s"
  by (simp add: rollout_inv_def tasks_ok_def task_ok_def caps_ok_def cap_ok_def live_install_def held_caps_def turns_ok_def)

lemma end_operation_inv:
  assumes "rollout_inv repr s" "ro_children s = []" "ro_reserved s = []"
    "\<And>p. ro_pending s = Some p \<Longrightarrow> \<not> po_sealed p \<Longrightarrow> po_kind p = Install_op \<Longrightarrow> po_owner p \<notin> set (ro_minters s)"
    and "ro_tasks s' = []" "ro_pending s' = None"
    and "ro_log s' = ro_log s" "ro_next s' = ro_next s" "ro_children s' = []" "ro_reserved s' = []" "ro_minters s' = ro_minters s"
    "ro_turns s' = ro_turns s"
  shows "rollout_inv repr s'"
proof -
  note d = rollout_invD[OF assms(1)]
  have "ro_minters s = []"
  proof (rule ccontr)
    assume "ro_minters s \<noteq> []"
    then obtain w where w: "w \<in> set (ro_minters s)" by (cases "ro_minters s") auto
    then obtain p where "live_install w s = Some p" using d(5) unfolding caps_ok_def by blast
    then show False using assms(4) w by (auto simp: live_install_Some)
  qed
  moreover have "turns_ok repr s'" using turns_ok_log[OF d(6), of s' "[]"] assms(7,12) by simp
  moreover have "uses_cap (ro_log s) cap \<le> mints_cap (ro_log s) cap" for cap using d(5) unfolding caps_ok_def by (meson add_leE)
  ultimately show ?thesis using d(1,2) assms(5-12)
    by (simp add: rollout_inv_def tasks_ok_def caps_ok_def held_caps_def)
qed

subsection \<open>Resolutions keep the invariant\<close>

lemma the_task:
  assumes "rollout_inv repr s" "t \<in> set (ro_tasks s)"
  shows "ro_tasks s = [t]" "task_ok s t" "pending_ok (ro_log s) (ro_next s) (rs_op t)"
proof -
  show "ro_tasks s = [t]" "task_ok s t" using rollout_invD(4)[OF assms(1)] assms(2) by (auto simp: tasks_ok_def)
  then show "pending_ok (ro_log s) (ro_next s) (rs_op t)" using rollout_invD(3)[OF assms(1)] by (simp add: task_ok_def)
qed

lemma finish_frame [simp]:
  "ro_log (finish_resolution t s) = ro_log s" "ro_next (finish_resolution t s) = ro_next s" "ro_turns (finish_resolution t s) = ro_turns s"
  "ro_children (finish_resolution t s) = []" "ro_reserved (finish_resolution t s) = []"
  "ro_minters (finish_resolution t s) = removeAll (po_owner (rs_op t)) (ro_minters s)"
  by (auto simp: finish_resolution_def Let_def unregister_minter_def clear_capabilities_def split: option.split)

lemma finish_inv:
  assumes "rollout_inv repr s" "t \<in> set (ro_tasks s)"
  shows "rollout_inv repr (finish_resolution t s) \<and> ro_tasks (finish_resolution t s) = [] \<and>
    ro_pending (finish_resolution t s) = None \<and> ro_resolution (finish_resolution t s) = None"
proof -
  note t = the_task[OF assms]
  define u where "u = unregister_minter (po_owner (rs_op t)) (clear_capabilities s)"
  have u: "rollout_inv repr u" unfolding u_def using assms(1) by simp
  have e: "ro_tasks (finish_resolution t s) = []" "ro_pending (finish_resolution t s) = None" "ro_resolution (finish_resolution t s) = None"
    using t by (auto simp: finish_resolution_def Let_def task_ok_def)
  have "rollout_inv repr (finish_resolution t s)"
    by (rule end_operation_inv[OF u]) (use e t in \<open>auto simp: u_def task_ok_def\<close>)
  then show ?thesis using e by simp
qed

lemma at_pc_frame [simp]:
  "ro_log (at_pc t pc s) = ro_log s" "ro_next (at_pc t pc s) = ro_next s" "ro_turns (at_pc t pc s) = ro_turns s"
  "ro_pending (at_pc t pc s) = ro_pending s" "ro_lock (at_pc t pc s) = ro_lock s" "ro_resolution (at_pc t pc s) = ro_resolution s"
  "ro_children (at_pc t pc s) = ro_children s" "ro_reserved (at_pc t pc s) = ro_reserved s" "ro_minters (at_pc t pc s) = ro_minters s"
  "at_pc t pc (log_event e s) = log_event e (at_pc t pc s)"
  by (simp_all add: at_pc_def log_event_def)

lemma at_pc_inv:
  assumes "rollout_inv repr s" "t \<in> set (ro_tasks s)" "pc \<noteq> Res_start"
  shows "rollout_inv repr (at_pc t pc s) \<and> ro_tasks (at_pc t pc s) = [t\<lparr>rs_pc := pc\<rparr>]"
proof -
  note t = the_task[OF assms(1,2)]
  have e: "ro_tasks (at_pc t pc s) = [t\<lparr>rs_pc := pc\<rparr>]" using t(1) by (simp add: at_pc_def)
  have "tasks_ok (at_pc t pc s)" using t(2) e assms(3) rollout_invD(4)[OF assms(1)] by (simp add: tasks_ok_def task_ok_def)
  then show ?thesis using e by (intro conjI weaker_caps_inv[OF assms(1)]) (simp_all add: held_caps_def)
qed

lemma switch_event_inv:
  assumes "rollout_inv repr s" "ro_tasks s = [t]" "rs_pc t \<noteq> Res_start" "switch_allowed (ro_log s) (po_ref (rs_op t)) plugin"
  shows "rollout_inv repr (log_event (Switch (po_ref (rs_op t)) plugin) s)"
proof -
  define s' where "s' = log_event (Switch (po_ref (rs_op t)) plugin) s"
  note d = rollout_invD[OF assms(1)]
  note t = the_task[OF assms(1), of t]
  have tt: "task_ok s t" "pending_ok (ro_log s) (ro_next s) (rs_op t)" using t assms(2) by simp_all
  have "caps_ok s'" by (rule caps_ok_grow[OF d(5)]) (auto simp: s'_def)
  moreover have "tasks_ok s'" using d(4) tt assms(2,3) by (auto simp: tasks_ok_def task_ok_def s'_def)
  moreover have "turns_ok repr s'" by (rule turns_ok_log[OF d(6)]) (simp_all add: s'_def)
  moreover have "event_ok (ro_log s) (Switch (po_ref (rs_op t)) plugin)" using assms(4) by (simp add: event_ok_def)
  ultimately show ?thesis using d(1,2) tt
    by (auto simp: rollout_inv_def s'_def task_ok_def pending_ok_def event_refs_def)
qed

lemma cancel_operation_inv:
  assumes "rollout_inv repr s" "t \<in> set (ro_tasks s)"
  shows "rollout_inv repr (cancel_operation t reason s)"
proof -
  have "po_ref (rs_op t) < ro_next s" using the_task(3)[OF assms] by (simp add: pending_ok_def)
  then show ?thesis using at_pc_inv[OF assms] finish_inv[OF assms]
    by (simp add: cancel_operation_def Let_def plain_event_inv plain_event_def event_refs_def)
qed

lemma put_fact_inv [simp]: "rollout_inv repr (put_fact ok f s) = rollout_inv repr s"
  "ro_tasks (put_fact ok f s) = ro_tasks s" "ro_next (put_fact ok f s) = ro_next s"
  by (simp_all add: put_fact_def)

lemma failed_resolution_inv:
  assumes "rollout_inv repr s" "t \<in> set (ro_tasks s)"
  shows "rollout_inv repr (failed_resolution t oc s)"
proof -
  define u where "u = put_fact (oc_failure_fact oc) (Not_done (po_plugin (rs_op t)) (po_kind (rs_op t))) s"
  have u: "rollout_inv repr u" "t \<in> set (ro_tasks u)" using assms by (simp_all add: u_def)
  have "po_ref (rs_op t) < ro_next u" using the_task(3)[OF u] by (simp add: pending_ok_def)
  then have "rollout_inv repr (log_event (Drop (Some (po_ref (rs_op t))) (po_plugin (rs_op t))) (at_pc t Res_cleaning u))"
    using at_pc_inv[OF u] by (simp add: plain_event_inv plain_event_def event_refs_def)
  moreover have "failed_resolution t oc s \<in> {log_event (Drop (Some (po_ref (rs_op t))) (po_plugin (rs_op t))) (at_pc t Res_cleaning u),
      finish_resolution t u}"
    unfolding failed_resolution_def Let_def u_def by simp
  ultimately show ?thesis using finish_inv[OF u] by auto
qed

lemma after_call_inv:
  assumes "rollout_inv repr s" "t \<in> set (ro_tasks s)"
  shows "rollout_inv repr (after_call t f oc s)"
  using failed_resolution_inv[OF assms] finish_inv[of repr "put_fact True f s" t] assms by (simp add: after_call_def)

lemma resolve_step_inv:
  assumes "rollout_inv repr s" "t \<in> set (ro_tasks s)"
  shows "rollout_inv repr (resolve_step t oc s)"
proof (cases "rs_pc t")
  case start: Res_start
  note t = the_task[OF assms]
  have n: "po_ref (rs_op t) < ro_next s" using t(3) by (simp add: pending_ok_def)
  show ?thesis
  proof (cases "rs_status t = Completed \<and> po_kind (rs_op t) = Install_op \<and> po_evidence (rs_op t) \<noteq> []")
    case go: True
    have "switch_allowed (ro_log s) (po_ref (rs_op t)) (po_plugin (rs_op t))"
      using t(2,3) start go unfolding switch_allowed_def task_ok_def pending_ok_def by metis
    then have "rollout_inv repr (log_event (Switch (po_ref (rs_op t)) (po_plugin (rs_op t))) (at_pc t Res_switching s))"
      using at_pc_inv[OF assms, of Res_switching] switch_event_inv[of repr "at_pc t Res_switching s" "t\<lparr>rs_pc := Res_switching\<rparr>"] by simp
    then show ?thesis using go start by (simp add: resolve_step_def Let_def)
  next
    case False
    then show ?thesis using start n cancel_operation_inv[OF assms] at_pc_inv[OF assms, of Res_uninstalling]
      by (simp add: resolve_step_def Let_def plain_event_inv plain_event_def event_refs_def) (cases "po_kind (rs_op t)", auto)
  qed
qed (use after_call_inv[OF assms] finish_inv[OF assms] in \<open>simp_all add: resolve_step_def Let_def\<close>)

lemma cancel_task_inv:
  assumes "rollout_inv repr s" "t \<in> set (ro_tasks s)"
  shows "rollout_inv repr (cancel_task t s)"
proof (cases "rs_pc t = Res_start")
  case True
  note t = the_task[OF assms]
  have "rollout_inv repr (s\<lparr>ro_tasks := []\<rparr>)"
    by (rule weaker_caps_inv[OF assms(1)]) (use rollout_invD(4)[OF assms(1)] in \<open>simp_all add: tasks_ok_def held_caps_def\<close>)
  then show ?thesis using True t(1) by (simp add: cancel_task_def)
qed (use finish_inv[OF assms] in \<open>simp add: cancel_task_def\<close>)

subsection \<open>Operations keep the invariant\<close>

lemma idle_parts:
  assumes "rollout_inv repr s" "ro_pending s = None"
  shows "ro_tasks s = []" "ro_minters s = []" "dict_get (ro_children s) cap = None" "dict_get (ro_reserved s) cap = None"
proof -
  note d = rollout_invD[OF assms(1)]
  have l: "live_install w s = None" for w using assms(2) by (simp add: live_install_def)
  show "ro_tasks s = []" using d(4) assms(2) by (auto simp: tasks_ok_def task_ok_def)
  show "ro_minters s = []" using d(5) l by (cases "ro_minters s") (auto simp: caps_ok_def)
  have "\<not> cap_ok s cap w" for w by (simp add: cap_ok_def l)
  then show "dict_get (ro_children s) cap = None" "dict_get (ro_reserved s) cap = None"
    using d(5) unfolding caps_ok_def by (metis not_None_eq)+
qed

lemma idle_event_inv:
  assumes "rollout_inv repr s" "ro_pending s = None" "\<forall>cap. \<not> is_bound cap e \<and> \<not> is_minted cap e" "event_ok (ro_log s) e"
    "\<forall>r \<in> event_refs e. r < ro_next s"
  shows "rollout_inv repr (log_event e s)"
proof -
  note d = rollout_invD[OF assms(1)]
  have "caps_ok (log_event e s)" by (rule caps_ok_grow[OF d(5) assms(3)]) simp_all
  moreover have "turns_ok repr (log_event e s)" by (rule turns_ok_log[OF d(6)]) simp_all
  ultimately show ?thesis using d(1,2) assms(2,4,5) idle_parts(1)[OF assms(1,2)]
    by (auto simp: rollout_inv_def tasks_ok_def)
qed

lemma lock_inv:
  assumes "rollout_inv repr s" "l \<noteq> None \<longrightarrow> ro_pending s = None"
  shows "rollout_inv repr (s\<lparr>ro_lock := l\<rparr>)"
proof -
  have "tasks_ok (s\<lparr>ro_lock := l\<rparr>)" using rollout_invD(4)[OF assms(1)] assms(2) by (auto simp: tasks_ok_def task_ok_def)
  then show ?thesis by (intro weaker_caps_inv[OF assms(1)]) (simp_all add: held_caps_def)
qed

lemma new_operation_inv:
  assumes "rollout_inv repr s" "ro_pending s = None" "ro_lock s = None" "po_ref p = ro_next s" "po_evidence p = []" "\<not> po_sealed p"
  shows "rollout_inv repr (log_event (Registered p) (s\<lparr>ro_pending := Some p, ro_next := ro_next s + 1\<rparr>))"
proof -
  define s' where "s' = log_event (Registered p) (s\<lparr>ro_pending := Some p, ro_next := ro_next s + 1\<rparr>)"
  note d = rollout_invD[OF assms(1)]
  note i = idle_parts[OF assms(1,2)]
  have fresh: "e \<notin> set (ro_log s)" if "po_ref p \<in> event_refs e" for e using d(2) that assms(4) by force
  have "unsealed_in (ro_log s) (po_ref p)" using fresh by (simp add: unsealed_in_def event_refs_def)
  moreover have "p\<lparr>po_evidence := [], po_sealed := False\<rparr> = p" using assms(5,6) by (cases p) simp
  ultimately have "pending_ok (ro_log s') (ro_next s') p"
    using assms(4,5) by (simp add: pending_ok_def s'_def unsealed_in_def)
  moreover have "turns_ok repr s'" by (rule turns_ok_log[OF d(6)]) (simp_all add: s'_def)
  moreover have "uses_cap (ro_log s) cap \<le> mints_cap (ro_log s) cap" for cap using d(5) unfolding caps_ok_def by (meson add_leE)
  then have "caps_ok s'" using i by (simp add: caps_ok_def held_caps_def s'_def)
  moreover have "event_ok (ro_log s) (Registered p)" using fresh by (auto simp: event_ok_def)
  moreover have "\<forall>e \<in> set (ro_log s'). \<forall>r \<in> event_refs e. r < ro_next s'"
    using d(2) assms(4) by (auto simp: s'_def event_refs_def less_SucI)
  ultimately show ?thesis using d(1) assms(2,3) i(1) unfolding rollout_inv_def s'_def[symmetric]
    by (auto simp: s'_def tasks_ok_def)
qed

lemma register_minter_inv:
  assumes "rollout_inv repr s" "live_install w s \<noteq> None"
  shows "rollout_inv repr (register_minter w s)"
proof -
  note d = rollout_invD[OF assms(1)]
  have l: "live_install v (register_minter w s) = live_install v s" for v by (simp add: live_install_def)
  have "caps_ok (register_minter w s)"
    using d(5) assms(2) unfolding caps_ok_def l cap_ok_def held_caps_def minters_frame set_insert by blast
  moreover have "turns_ok repr (register_minter w s)" using turns_ok_log[OF d(6), of _ "[]"] by simp
  moreover have "tasks_ok (register_minter w s)" using d(4) by (simp add: tasks_ok_def task_ok_def)
  ultimately show ?thesis using d(1-3) by (auto simp: rollout_inv_def)
qed

lemma install_end_inv:
  assumes "rollout_inv repr s"
  shows "rollout_inv repr (snd (install_end answer annotated s))"
proof (cases "\<exists>w a. ro_lock s = Some (Fetching w) \<and> answer = Some a")
  case True
  then obtain w a where wa: "ro_lock s = Some (Fetching w)" "answer = Some a" by blast
  have none: "ro_pending s = None" using rollout_invD(4)[OF assms] wa(1) by (simp add: tasks_ok_def)
  define u where "u = s\<lparr>ro_lock := None\<rparr>"
  have u: "rollout_inv repr u" "ro_pending u = None" "ro_lock u = None" "ro_next u = ro_next s"
    using lock_inv[OF assms, of None] none by (simp_all add: u_def)
  define p where "p = \<lparr>po_ref = ro_next s, po_owner = w, po_plugin = st_name a @ ''@'' @ st_market a, po_kind = Install_op,
      po_generation = st_generation a, po_revision = st_revision a, po_tx = st_tx a, po_evidence = [], po_sealed = False\<rparr>"
  define v where "v = log_event (Registered p) (u\<lparr>ro_pending := Some p, ro_next := ro_next u + 1\<rparr>)"
  have v: "rollout_inv repr v" unfolding v_def by (rule new_operation_inv[OF u(1-3)]) (simp_all add: p_def u)
  have "live_install w v \<noteq> None" by (simp add: v_def live_install_def p_def)
  then have three: "rollout_inv repr (log_event (Annotate (st_tx a)) (register_minter w v))"
    using register_minter_inv[OF v] by (simp add: plain_event_inv plain_event_def event_refs_def)
  have drop: "rollout_inv repr (log_event (Drop None q) (s\<lparr>ro_lock := Some (Dropping_unidentified q)\<rparr>))" for q
    using lock_inv[OF assms] none by (simp add: plain_event_inv plain_event_def event_refs_def)
  show ?thesis using u(1) drop three wa
    by (simp add: install_end_def Let_def u_def[symmetric] p_def[symmetric] v_def[symmetric] u(4)[symmetric])
      (simp add: v_def u_def p_def)
qed (use assms lock_inv[OF assms, of None] in \<open>auto simp: install_end_def Let_def split: option.split lock_holder.split\<close>)

lemma uninstall_inv:
  assumes "rollout_inv repr s"
  shows "rollout_inv repr (snd (uninstall_plugin owner plugin installed s))"
  using assms new_operation_inv[OF assms] by (auto simp: uninstall_plugin_def Let_def)

lemma revert_inv:
  assumes "rollout_inv repr s"
  shows "rollout_inv repr (snd (revert_operation owner s))"
proof (cases "\<exists>p. ro_pending s = Some p \<and> po_owner p = owner \<and> \<not> po_sealed p")
  case True
  then obtain p where p: "ro_pending s = Some p" "po_owner p = owner" "\<not> po_sealed p" by blast
  define u where "u = unregister_minter owner (clear_capabilities s)"
  define v where "v = unregister_minter owner (clear_capabilities (s\<lparr>ro_pending := None\<rparr>))"
  have t: "ro_tasks s = []" using rollout_invD(4)[OF assms] p by (auto simp: tasks_ok_def task_ok_def)
  have n: "po_ref p < ro_next s" using rollout_invD(3)[OF assms p(1)] by (simp add: pending_ok_def)
  have u: "rollout_inv repr u" using assms by (simp add: u_def)
  have v: "rollout_inv repr v" by (rule end_operation_inv[OF u]) (use t p in \<open>auto simp: u_def v_def\<close>)
  have w: "rollout_inv repr (log_event (Reverted (po_ref p)) v)"
    by (rule idle_event_inv[OF v]) (use n in \<open>simp_all add: v_def event_refs_def\<close>)
  have "rollout_inv repr (log_event (Drop (Some (po_ref p)) (po_plugin p)) (log_event (Reverted (po_ref p)) v))"
    using n by (intro plain_event_inv[OF w]) (simp_all add: plain_event_def event_refs_def v_def)
  then show ?thesis using p w assms by (simp add: revert_operation_def Let_def v_def[symmetric])
qed (use assms in \<open>auto simp: revert_operation_def split: option.split\<close>)

lemma mint_inv:
  assumes "rollout_inv repr s"
  shows "rollout_inv repr (snd (mint_capability owner fresh s))"
proof (cases "owner \<in> set (ro_minters s) \<and> live_install owner s \<noteq> None")
  case True
  then obtain p where p: "live_install owner s = Some p" by blast
  define s' where "s' = log_event (Minted (po_ref p) fresh) (s\<lparr>ro_children := dict_set (ro_children s) fresh owner\<rparr>)"
  note d = rollout_invD[OF assms]
  have pend: "ro_pending s = Some p" "pending_ok (ro_log s) (ro_next s) p" using p d(3) by (simp_all add: live_install_Some)
  have l: "live_install w s' = live_install w s" for w by (simp add: live_install_def s'_def)
  have grow: "cap_ok s cap w \<Longrightarrow> cap_ok s' cap w" for cap w by (rule cap_ok_grow) (auto simp: s'_def)
  have new: "cap_ok s' fresh owner" using p by (simp add: cap_ok_def l) (simp add: s'_def)
  have "uses_cap (ro_log s') cap + held_caps s' cap \<le> mints_cap (ro_log s') cap" for cap
  proof -
    have "uses_cap (ro_log s) cap + held_caps s cap \<le> mints_cap (ro_log s) cap" using d(5) by (simp add: caps_ok_def)
    then show ?thesis by (auto simp: s'_def held_caps_def split: if_splits)
  qed
  moreover have "cap_ok s' cap w" if "dict_get (ro_children s') cap = Some w \<or> dict_get (ro_reserved s') cap = Some w" for cap w
    using that d(5) grow new by (auto simp: s'_def caps_ok_def split: if_splits)
  ultimately have "caps_ok s'" using d(5) by (simp add: caps_ok_def l) (simp add: s'_def)
  moreover have "turns_ok repr s'" by (rule turns_ok_log[OF d(6)]) (simp_all add: s'_def)
  moreover have "tasks_ok s'" using d(4) by (auto simp: tasks_ok_def task_ok_def s'_def)
  moreover have "pending_ok (ro_log s') (ro_next s') p" using pend(2) by (simp add: pending_ok_def s'_def)
  ultimately have "rollout_inv repr s'" using d(1,2) pend by (auto simp: rollout_inv_def s'_def pending_ok_def event_refs_def)
  then show ?thesis using True p by (simp add: mint_capability_def s'_def)
qed (use assms in \<open>auto simp: mint_capability_def split: option.split\<close>)

lemma child_binding_inv:
  assumes "rollout_inv repr s"
  shows "rollout_inv repr (snd (child_binding cap consume s))"
  by (rule weaker_caps_inv[OF assms])
    (use rollout_invD(4)[OF assms] in \<open>auto simp: child_binding_def Let_def held_caps_def tasks_ok_def task_ok_def split: option.splits if_splits\<close>)

lemma child_binding_frame [simp]:
  "ro_log (snd (child_binding cap b s)) = ro_log s" "ro_pending (snd (child_binding cap b s)) = ro_pending s"
  "ro_turns (snd (child_binding cap b s)) = ro_turns s" "ro_next (snd (child_binding cap b s)) = ro_next s"
  by (simp_all add: child_binding_def Let_def)

lemma start_thread_inv:
  assumes "rollout_inv repr s"
  shows "rollout_inv repr (snd (start_thread memory_ok meta runtime thread cap s))"
  using assms child_binding_inv[OF assms, of cap False]
  by (auto simp: start_thread_def split: prod.split option.split)

text \<open>The metadata of turns: the reserved fields come from \<open>start_turn\<close> only.\<close>

lemma dict_update_get: "dict_ok e \<Longrightarrow> dict_get (dict_update d e) k = (case dict_get e k of Some v \<Rightarrow> Some v | None \<Rightarrow> dict_get d k)"
  unfolding dict_update_def
proof (induction e arbitrary: d)
  case (Cons x e)
  obtain a b where x: "x = (a, b)" by (cases x)
  have ok: "dict_ok e" "dict_get e a = None" using Cons.prems by (auto simp: x dict_ok_def dict_get_None_iff)
  have "dict_get ((a, b) # e) k = (if k = a then Some b else dict_get e k)" by (simp add: dict_get_def)
  then show ?case using Cons.IH[OF ok(1), of "dict_set d a b"] ok(2) by (auto simp: x split: option.splits)
qed simp

lemma rollout_fields_get:
  "dict_ok (rollout_fields p)"
  "dict_get (rollout_fields p) ''_pluginRolloutOwnerTurnId'' = Some (JStr (po_owner p))"
  "dict_get (rollout_fields p) ''_pluginRolloutGenerationId'' = Some (JStr (po_generation p))"
  "dict_get (rollout_fields p) ''_pluginRolloutSourceRevision'' = Some (JStr (po_revision p))"
  by (simp_all add: rollout_fields_def dict_ok_def dict_get_def)

lemma meta_text_JStr: "dict_get m k = Some (JStr t) \<Longrightarrow> meta_text repr m k = t"
  by (simp add: meta_text_def json_field_def Let_def truthy_def)

lemma meta_text_None: "dict_get m k = None \<Longrightarrow> meta_text repr m k = []"
  by (simp add: meta_text_def json_field_def Let_def truthy_def)

lemma unreserved_owner: "\<not> reserved_field m \<Longrightarrow> dict_get m ''_pluginRolloutOwnerTurnId'' = None"
  by (fastforce simp: reserved_field_def list_ex_iff dict_get_None_iff)

lemma bound_fields:
  assumes "m' = dict_set (dict_update m (rollout_fields p)) ''runtime'' v"
  shows "meta_text repr m' ''_pluginRolloutOwnerTurnId'' = po_owner p" "meta_text repr m' ''_pluginRolloutGenerationId'' = po_generation p"
    "meta_text repr m' ''_pluginRolloutSourceRevision'' = po_revision p"
  by (rule meta_text_JStr; simp add: assms dict_update_get rollout_fields_get)+

lemma turns_ok_set:
  assumes "turns_ok repr s" "ro_log s' = ro_log s @ es" "ro_turns s' = dict_set (ro_turns s) turn m"
    and "meta_text repr m ''_pluginRolloutOwnerTurnId'' \<noteq> [] \<Longrightarrow>
      \<exists>q cap. registered (ro_log s') q \<and> Bound (po_ref q) turn cap \<in> set (ro_log s') \<and>
        po_owner q = meta_text repr m ''_pluginRolloutOwnerTurnId'' \<and>
        po_generation q = meta_text repr m ''_pluginRolloutGenerationId'' \<and>
        po_revision q = meta_text repr m ''_pluginRolloutSourceRevision''"
  shows "turns_ok repr s'"
proof -
  define u where "u = s'\<lparr>ro_turns := ro_turns s\<rparr>"
  have "turns_ok repr u" by (rule turns_ok_log[OF assms(1)]) (simp_all add: u_def assms(2))
  then have old: "dict_get (ro_turns s) x = Some m' \<Longrightarrow> meta_text repr m' ''_pluginRolloutOwnerTurnId'' \<noteq> [] \<Longrightarrow>
      \<exists>q cap. registered (ro_log s') q \<and> Bound (po_ref q) x cap \<in> set (ro_log s') \<and>
        po_owner q = meta_text repr m' ''_pluginRolloutOwnerTurnId'' \<and>
        po_generation q = meta_text repr m' ''_pluginRolloutGenerationId'' \<and>
        po_revision q = meta_text repr m' ''_pluginRolloutSourceRevision''" for x m'
    unfolding turns_ok_def u_def by simp
  show ?thesis unfolding turns_ok_def assms(3) dict_get_set
    by (intro allI impI) (use old assms(4) in \<open>auto split: if_splits\<close>)
qed

lemma run_turn_inv:
  assumes "rollout_inv repr s" "meta_text repr m ''_pluginRolloutOwnerTurnId'' = []"
  shows "rollout_inv repr (s\<lparr>ro_turns := dict_set (ro_turns s) turn m\<rparr>)"
proof -
  define s' where "s' = s\<lparr>ro_turns := dict_set (ro_turns s) turn m\<rparr>"
  note d = rollout_invD[OF assms(1)]
  have l: "live_install w s' = live_install w s" for w by (simp add: live_install_def s'_def)
  have "turns_ok repr s'" by (rule turns_ok_set[OF d(6), where es = "[]"]) (use assms(2) in \<open>auto simp: s'_def\<close>)
  moreover have "ro_log s' = ro_log s" "ro_children s' = ro_children s" "ro_reserved s' = ro_reserved s" "ro_minters s' = ro_minters s"
    by (simp_all add: s'_def)
  then have "caps_ok s'" using d(5) unfolding caps_ok_def cap_ok_def held_caps_def l by simp
  moreover have "tasks_ok s'" using d(4) by (auto simp: tasks_ok_def task_ok_def s'_def)
  ultimately show ?thesis using d(1-3) by (auto simp: rollout_inv_def s'_def)
qed

lemma bound_inv:
  assumes "rollout_inv repr s" "child_binding cap True s = (Some p, s2)"
    and "meta_text repr m ''_pluginRolloutOwnerTurnId'' = po_owner p" "meta_text repr m ''_pluginRolloutGenerationId'' = po_generation p"
    "meta_text repr m ''_pluginRolloutSourceRevision'' = po_revision p"
  shows "rollout_inv repr (log_event (Bound (po_ref p) turn cap) (s2\<lparr>ro_turns := dict_set (ro_turns s2) turn m\<rparr>))"
proof -
  define s' where "s' = log_event (Bound (po_ref p) turn cap) (s2\<lparr>ro_turns := dict_set (ro_turns s2) turn m\<rparr>)"
  note d = rollout_invD[OF assms(1)]
  obtain w where w: "dict_get (ro_reserved s) cap = Some w" and p: "live_install w s = Some p"
    and s2: "s2 = s\<lparr>ro_reserved := dict_del (ro_reserved s) cap\<rparr>"
    using assms(2) by (auto simp: child_binding_def Let_def split: option.splits if_splits)
  have pend: "ro_pending s = Some p" "\<not> po_sealed p" "pending_ok (ro_log s) (ro_next s) p" using p d(3) by (simp_all add: live_install_Some)
  have l: "live_install v s' = live_install v s" for v by (simp add: live_install_def s'_def s2)
  have "cap_ok s cap w" using d(5) w unfolding caps_ok_def by blast
  then have minted: "Minted (po_ref p) cap \<in> set (ro_log s)" using p by (simp add: cap_ok_def)
  have "uses_cap (ro_log s') c + held_caps s' c \<le> mints_cap (ro_log s') c" for c
  proof -
    have "uses_cap (ro_log s) c + held_caps s c \<le> mints_cap (ro_log s) c" using d(5) by (simp add: caps_ok_def)
    then show ?thesis using w by (auto simp: s'_def s2 held_caps_def split: if_splits)
  qed
  moreover have "cap_ok s c v \<Longrightarrow> cap_ok s' c v" for c v by (rule cap_ok_grow) (auto simp: s'_def s2)
  then have "cap_ok s' c v" if "dict_get (ro_children s') c = Some v \<or> dict_get (ro_reserved s') c = Some v" for c v
    using that d(5) unfolding caps_ok_def by (auto simp: s'_def s2 split: if_splits)
  ultimately have "caps_ok s'" using d(5) by (simp add: caps_ok_def l) (simp add: s'_def s2)
  moreover have "turns_ok repr s'"
    by (rule turns_ok_set[OF d(6), where es = "[Bound (po_ref p) turn cap]"])
      (use assms(3-5) pend(3) in \<open>auto simp: s'_def s2 pending_ok_def\<close>)
  moreover have "tasks_ok s'" using d(4) by (auto simp: tasks_ok_def task_ok_def s'_def s2)
  moreover have "uses_cap (ro_log s) cap + held_caps s cap \<le> mints_cap (ro_log s) cap" using d(5) by (simp add: caps_ok_def)
  then have "uses_cap (ro_log s) cap < mints_cap (ro_log s) cap" using w by (simp add: held_caps_def)
  then have "event_ok (ro_log s) (Bound (po_ref p) turn cap)" using minted pend by (simp add: event_ok_def pending_ok_def)
  moreover have "pending_ok (ro_log s') (ro_next s') p" using pend by (simp add: pending_ok_def s'_def s2)
  ultimately have "rollout_inv repr s'" using d(1,2) pend by (auto simp: rollout_inv_def s'_def s2 pending_ok_def event_refs_def)
  then show ?thesis by (simp add: s'_def)
qed

lemma start_turn_inv:
  assumes "rollout_inv repr s"
  shows "rollout_inv repr (snd (start_turn session thread meta runtime attached turn s))"
proof -
  define s1 where "s1 = s\<lparr>ro_threads := dict_del (ro_threads s) thread\<rparr>"
  have s1: "rollout_inv repr s1" using assms by (simp add: s1_def)
  have plain: "rollout_inv repr (s1\<lparr>ro_turns := dict_set (ro_turns s1) turn (dict_set meta ''runtime'' v)\<rparr>)" if "\<not> reserved_field meta" for v
    by (rule run_turn_inv[OF s1]) (use unreserved_owner[OF that] in \<open>simp add: meta_text_None\<close>)
  have bind: "rollout_inv repr (log_event (Bound (po_ref p) turn c)
      (s2\<lparr>ro_turns := dict_set (ro_turns s2) turn (dict_set (dict_update meta (rollout_fields p)) ''runtime'' v)\<rparr>))"
    if "child_binding c True s1 = (Some p, s2)" for c p s2 v
    by (rule bound_inv[OF s1 that bound_fields]) (rule refl)+
  have "rollout_inv repr s2" if "child_binding c True s1 = (x, s2)" for c x s2
    using child_binding_inv[OF s1, of c True] that by simp
  then show ?thesis using assms s1 plain bind
    by (auto simp: start_turn_def Let_def s1_def[symmetric] simp del: threads_inv split: option.split prod.split)
qed

lemma record_child_inv:
  assumes "rollout_inv repr s"
    and "owner = meta_text repr (case dict_get (ro_turns s) turn of Some m \<Rightarrow> m | None \<Rightarrow> []) ''_pluginRolloutOwnerTurnId''" "owner \<noteq> []"
  shows "rollout_inv repr (snd (record_child repr owner turn status evidence annotated s))"
proof -
  define m where "m = (case dict_get (ro_turns s) turn of Some m \<Rightarrow> m | None \<Rightarrow> [])"
  note d = rollout_invD[OF assms(1)]
  have m: "dict_get (ro_turns s) turn = Some m"
    using assms(2,3) meta_text_None[of "[]"] by (cases "dict_get (ro_turns s) turn") (auto simp: m_def dict_get_def)
  show ?thesis
  proof (cases "live_install owner s")
    case (Some p)
    have p: "ro_pending s = Some p" "po_owner p = owner" "\<not> po_sealed p" "pending_ok (ro_log s) (ro_next s) p"
      using Some d(3) by (simp_all add: live_install_Some)
    have step: "rollout_inv repr (log_event (Child_done (po_ref p) turn ev) (s\<lparr>ro_pending :=
        Some (p\<lparr>po_evidence := sorted_list_of_set (set (po_evidence p) \<union> set ev)\<rparr>)\<rparr>))"
      if same: "meta_text repr m ''_pluginRolloutGenerationId'' = po_generation p" "meta_text repr m ''_pluginRolloutSourceRevision'' = po_revision p"
      for ev
    proof -
      define q where "q = p\<lparr>po_evidence := sorted_list_of_set (set (po_evidence p) \<union> set ev)\<rparr>"
      define s' where "s' = log_event (Child_done (po_ref p) turn ev) (s\<lparr>ro_pending := Some q\<rparr>)"
      obtain x cap where x: "registered (ro_log s) x" "Bound (po_ref x) turn cap \<in> set (ro_log s)" "po_owner x = owner"
          "po_generation x = po_generation p" "po_revision x = po_revision p"
        using d(6) m assms(2,3) same unfolding turns_ok_def m_def[symmetric] by metis
      have "bound_turn (ro_log s) turn p" using x p(2) by (auto simp: bound_turn_def)
      then have ok: "event_ok (ro_log s) (Child_done (po_ref p) turn ev)" using p(4) by (auto simp: event_ok_def pending_ok_def)
      have q: "po_ref q = po_ref p" "po_owner q = po_owner p" "po_kind q = po_kind p" "po_sealed q = po_sealed p" by (simp_all add: q_def)
      have "registered (ro_log s) q" using p(4) by (simp add: pending_ok_def registered_def q_def)
      moreover have "po_evidence q \<noteq> [] \<Longrightarrow> evidenced (ro_log s') (po_ref q)"
      proof -
        assume "po_evidence q \<noteq> []"
        then have "po_evidence p \<noteq> [] \<or> ev \<noteq> []" by (auto simp: q_def)
        then show ?thesis using p(4) by (auto simp: pending_ok_def s'_def q)
      qed
      ultimately have "pending_ok (ro_log s') (ro_next s') q" using p(4) by (auto simp: pending_ok_def s'_def q)
      moreover have live: "live_install w s' = None \<longleftrightarrow> live_install w s = None"
          "live_install w s = Some p \<Longrightarrow> live_install w s' = Some q" for w
        using p(1) q by (auto simp: live_install_def s'_def split: if_splits)
      have cap: "cap_ok s cap w \<Longrightarrow> cap_ok s' cap w" for cap w
      proof -
        assume "cap_ok s cap w"
        then have "live_install w s = Some p" "Minted (po_ref p) cap \<in> set (ro_log s)" using p(1) by (auto simp: cap_ok_def live_install_Some)
        then show "cap_ok s' cap w" using live(2) q by (auto simp: cap_ok_def s'_def)
      qed
      have f: "ro_children s' = ro_children s" "ro_reserved s' = ro_reserved s" "ro_minters s' = ro_minters s"
        "uses_cap (ro_log s') c = uses_cap (ro_log s) c" "mints_cap (ro_log s') c = mints_cap (ro_log s) c" for c
        by (simp_all add: s'_def)
      have "caps_ok s'" using d(5) cap unfolding caps_ok_def held_caps_def f live(1) by blast
      moreover have "turns_ok repr s'" by (rule turns_ok_log[OF d(6)]) (simp_all add: s'_def)
      moreover have "tasks_ok s'" using d(4) p(1,3) by (auto simp: tasks_ok_def task_ok_def s'_def)
      ultimately have "rollout_inv repr s'" using d(1,2) ok p(4) by (auto simp: rollout_inv_def s'_def pending_ok_def event_refs_def)
      then show ?thesis by (simp add: s'_def q_def)
    qed
    show ?thesis using assms(1) Some step step[of "[]", simplified]
      by (auto simp: record_child_def Let_def m_def[symmetric] plain_event_inv plain_event_def event_refs_def split: option.split)
  qed (use assms in \<open>simp add: record_child_def\<close>)
qed

lemma seal_inv:
  assumes "rollout_inv repr s"
  shows "rollout_inv repr (seal_operation turn status s)"
proof (cases "\<exists>p. ro_pending s = Some p \<and> po_owner p = turn \<and> \<not> po_sealed p")
  case True
  then obtain p where p: "ro_pending s = Some p" "po_owner p = turn" "\<not> po_sealed p" by blast
  define q where "q = p\<lparr>po_sealed := True\<rparr>"
  define t where "t = \<lparr>rs_op = q, rs_status = status, rs_pc = Res_start\<rparr>"
  define s' where "s' = log_event (Sealed (po_ref p) turn status) (unregister_minter (po_owner p) (clear_capabilities
    (s\<lparr>ro_pending := Some q, ro_tasks := ro_tasks s @ [t], ro_resolution := Some (po_ref p)\<rparr>)))"
  note d = rollout_invD[OF assms]
  have pend: "pending_ok (ro_log s) (ro_next s) p" using d(3) p(1) by blast
  have none: "ro_tasks s = []" "ro_lock s = None" using d(4) p by (auto simp: tasks_ok_def task_ok_def)
  have "w = po_owner p" if "w \<in> set (ro_minters s)" for w
    using that d(5) p(1) unfolding caps_ok_def by (auto simp: live_install_Some)
  then have m: "removeAll (po_owner p) (ro_minters s) = []" by (force simp: removeAll_filter_not_eq filter_empty_conv)
  have "uses_cap (ro_log s) cap \<le> mints_cap (ro_log s) cap" for cap using d(5) unfolding caps_ok_def by (meson add_leE)
  then have "caps_ok s'" using m by (simp add: caps_ok_def held_caps_def s'_def)
  moreover have "turns_ok repr s'" by (rule turns_ok_log[OF d(6)]) (simp_all add: s'_def)
  moreover have "tasks_ok s'"
    using none pend p by (simp add: tasks_ok_def task_ok_def s'_def t_def q_def pending_ok_def unsealed_in_def)
  moreover have "pending_ok (ro_log s') (ro_next s') q"
    using pend by (simp add: pending_ok_def s'_def q_def registered_def)
  ultimately have "rollout_inv repr s'" using d(1,2) pend by (auto simp: rollout_inv_def s'_def pending_ok_def event_refs_def)
  then show ?thesis using p by (simp add: seal_operation_def Let_def s'_def t_def q_def)
qed (use assms in \<open>auto simp: seal_operation_def split: option.split\<close>)

lemma turn_terminal_inv:
  assumes "rollout_inv repr s"
  shows "rollout_inv repr (snd (turn_terminal repr turn status evidence annotated s))"
  using record_child_inv[OF assms refl] seal_inv[OF assms] by (auto simp: turn_terminal_def Let_def)

lemma rollout_exec_inv:
  assumes "rollout_inv repr s"
  shows "rollout_inv repr (rollout_exec repr c s)"
proof -
  have task: "rollout_inv repr (task_at i f s)" if "\<And>t. t \<in> set (ro_tasks s) \<Longrightarrow> rollout_inv repr (f t s)" for i f
    using that assms by (simp add: task_at_def)
  show ?thesis
  proof (cases c)
    case (Install_begin owner)
    then show ?thesis using assms lock_inv[OF assms] by (simp add: rollout_exec_def install_begin_def)
  next
    case Install_dropped
    then show ?thesis using assms lock_inv[OF assms, of None]
      by (simp add: rollout_exec_def install_dropped_def split: option.split lock_holder.split)
  next
    case (Resolve i oc)
    then show ?thesis using task resolve_step_inv[OF assms] by (simp add: rollout_exec_def)
  next
    case (Cancel_task i)
    then show ?thesis using task cancel_task_inv[OF assms] by (simp add: rollout_exec_def)
  next
    case Shutdown
    then show ?thesis using assms by (simp add: rollout_exec_def shutdown_begin_def split: option.split)
  next
    case Consume_fact
    then show ?thesis using assms by (simp add: rollout_exec_def consume_fact_def split: option.split fact_file.split)
  next
    case (Delete_thread th)
    then show ?thesis using assms by (simp add: rollout_exec_def delete_thread_def)
  qed (simp_all add: rollout_exec_def install_end_inv uninstall_inv revert_inv mint_inv start_thread_inv start_turn_inv turn_terminal_inv assms)
qed

lemma rollout_reachable_inv: "rollout_reachable repr s \<Longrightarrow> rollout_inv repr s"
proof (induction rule: rollout_reachable.induct)
  case rollout_new
  show ?case by (simp add: rollout_inv_def new_rollout_def tasks_ok_def caps_ok_def turns_ok_def uses_cap_def mints_cap_def held_caps_def)
qed (simp add: rollout_exec_inv)

subsection \<open>Properties\<close>

lemma log_okD: "log_ok log \<Longrightarrow> e \<in> set log \<Longrightarrow> \<exists>pre post. log = pre @ e # post \<and> event_ok pre e \<and> log_ok pre"
proof -
  assume a: "log_ok log" "e \<in> set log"
  obtain pre post where l: "log = pre @ e # post" using a(2) by (auto simp: in_set_conv_decomp)
  have "event_ok pre' x" if "pre = pre' @ x # post'" for pre' x post'
    using a(1) l that unfolding log_ok_def by (metis append.assoc append_Cons)
  then show ?thesis using a(1) l unfolding log_ok_def by blast
qed

lemma registered_unique:
  assumes "log_ok log" "registered log p" "registered log q" "po_ref p = po_ref q"
  shows "p\<lparr>po_evidence := [], po_sealed := False\<rparr> = q\<lparr>po_evidence := [], po_sealed := False\<rparr>"
  using assms
proof (induction log rule: rev_induct)
  case (snoc e log)
  have older: "e \<noteq> Registered (x\<lparr>po_evidence := [], po_sealed := False\<rparr>)" if "registered log y" "po_ref x = po_ref y" for x y
  proof
    assume e: "e = Registered (x\<lparr>po_evidence := [], po_sealed := False\<rparr>)"
    have "Registered (y\<lparr>po_evidence := [], po_sealed := False\<rparr>) \<in> set log" using that(1) by (simp add: registered_def)
    moreover have "event_ok log e" using snoc.prems(1) by simp
    ultimately show False using that(2) unfolding event_ok_def e by (auto simp: event_refs_def dest!: bspec)
  qed
  show ?case using snoc older[of q p] older[of p q] by auto
qed (simp add: registered_def)

text \<open>
  C19. The rollout of a turn switches only a validated candidate in.  Whenever it asks the manager to switch a
  candidate in (the command plugin/promote, by which an operator asks directly, is not part of it),
  the operation was registered by an install of a turn, that very turn was reported as completed since,
  the operation was not reverted and no switch was asked for it before, and a child turn reported the use
  of the candidate's tools or skills: a turn that the control service itself bound, with a capability, to
  an operation of the same owner, generation and source revision.
\<close>

theorem rollout_switch_authorised:
  assumes "rollout_reachable repr s" "ro_log s = pre @ Switch r plugin # post"
  shows "\<exists>p. registered pre p \<and> po_ref p = r \<and> po_plugin p = plugin \<and> po_kind p = Install_op \<and>
    Sealed r (po_owner p) Completed \<in> set pre \<and> Reverted r \<notin> set pre \<and> (\<forall>q. Switch r q \<notin> set pre) \<and>
    (\<exists>turn ev q cap. Child_done r turn ev \<in> set pre \<and> ev \<noteq> [] \<and> registered pre q \<and> Bound (po_ref q) turn cap \<in> set pre \<and>
      po_owner q = po_owner p \<and> po_generation q = po_generation p \<and> po_revision q = po_revision p)"
proof -
  have ok: "log_ok (pre @ Switch r plugin # post)" using rollout_invD(1)[OF rollout_reachable_inv[OF assms(1)]] assms(2) by simp
  then have "event_ok pre (Switch r plugin)" by (auto simp: log_ok_def)
  then obtain p where p: "registered pre p" "po_ref p = r" "po_plugin p = plugin" "po_kind p = Install_op"
      "Sealed r (po_owner p) Completed \<in> set pre" "Reverted r \<notin> set pre" "\<forall>q. Switch r q \<notin> set pre" and "evidenced pre r"
    by (auto simp: event_ok_def switch_allowed_def)
  then obtain turn ev where child: "Child_done r turn ev \<in> set pre" "ev \<noteq> []" by (auto simp: evidenced_def)
  have lp: "log_ok pre" using ok unfolding log_ok_def by (metis append.assoc append_Cons)
  obtain a b where ab: "pre = a @ Child_done r turn ev # b" "event_ok a (Child_done r turn ev)" using log_okD[OF lp child(1)] by blast
  then obtain y q cap where y: "registered a y" "po_ref y = r"
      and q: "registered a q" "Bound (po_ref q) turn cap \<in> set a" "po_owner q = po_owner y" "po_generation q = po_generation y"
        "po_revision q = po_revision y"
    by (auto simp: event_ok_def bound_turn_def)
  have known: "registered pre y" "registered pre q" "Bound (po_ref q) turn cap \<in> set pre"
    using y q ab(1) by (auto simp: registered_def)
  then have "p\<lparr>po_evidence := [], po_sealed := False\<rparr> = y\<lparr>po_evidence := [], po_sealed := False\<rparr>"
    using registered_unique[OF lp p(1)] p(2) y(2) by simp
  then have "po_owner y = po_owner p" "po_generation y = po_generation p" "po_revision y = po_revision p"
    by (metis operation.select_convs(2,5,6) operation.surjective operation.update_convs(8,9))+
  then have "po_owner q = po_owner p" "po_generation q = po_generation p" "po_revision q = po_revision p" using q by simp_all
  then show ?thesis using p child known(2,3) by blast
qed

text \<open>
  A capability binds one child turn of the operation it was minted for.  Whenever the control service
  binds a turn with a capability, the capability was minted for that operation, the operation was neither
  sealed nor reverted nor switched in, and the capability was used fewer times than it was minted: once,
  for a fresh capability.
\<close>

theorem capability_single_use:
  assumes "rollout_reachable repr s" "ro_log s = pre @ Bound r turn cap # post"
  shows "Minted r cap \<in> set pre \<and> unsealed_in pre r \<and> uses_cap pre cap < mints_cap pre cap \<and>
    uses_cap (ro_log s) cap \<le> mints_cap (ro_log s) cap"
proof -
  have i: "rollout_inv repr s" by (rule rollout_reachable_inv[OF assms(1)])
  have "event_ok pre (Bound r turn cap)" using rollout_invD(1)[OF i] assms(2) by (auto simp: log_ok_def)
  moreover have "uses_cap (ro_log s) cap \<le> mints_cap (ro_log s) cap" using rollout_invD(5)[OF i] unfolding caps_ok_def by (meson add_leE)
  ultimately show ?thesis by (simp add: event_ok_def)
qed

text \<open>A resolution advances with every answer.\<close>

definition idle :: "rollout \<Rightarrow> bool" where
  "idle s \<longleftrightarrow> ro_tasks s = [] \<and> ro_pending s = None \<and> boundary_open s \<and> ro_children s = [] \<and> ro_reserved s = [] \<and> ro_minters s = []"

definition pc_rank :: "res_pc \<Rightarrow> nat" where
  "pc_rank pc = (case pc of Res_start \<Rightarrow> 3 | Res_cleaning \<Rightarrow> 1 | _ \<Rightarrow> 2)"

definition advanced :: "nat \<Rightarrow> rollout \<Rightarrow> bool" where
  "advanced n s \<longleftrightarrow> idle s \<or> (\<exists>t. ro_tasks s = [t] \<and> pc_rank (rs_pc t) \<le> n)"

lemma finish_idle: "rollout_inv repr s \<Longrightarrow> t \<in> set (ro_tasks s) \<Longrightarrow> idle (finish_resolution t s)"
  using finish_inv[of repr s t] idle_parts(2)[of repr "finish_resolution t s"] by (simp add: idle_def boundary_open_def)

lemma resolve_step_advances:
  assumes "rollout_inv repr s" "ro_tasks s = [t]" "pc_rank (rs_pc t) \<le> Suc n"
  shows "advanced n (resolve_step t oc s)"
proof -
  have t: "t \<in> set (ro_tasks s)" using assms(2) by simp
  have fin: "advanced n (finish_resolution t s)" "advanced n (finish_resolution t (put_fact b f s))" for b f
    using finish_idle[OF assms(1) t] finish_idle[of repr "put_fact b f s" t] assms(1) t by (simp_all add: advanced_def)
  have move: "advanced n (at_pc t pc (put_fact b f s))" "advanced n (at_pc t pc s)" if "pc_rank pc \<le> n" for pc b f
    using assms(2) that by (simp_all add: advanced_def at_pc_def put_fact_def)
  have ev: "advanced n (log_event e u) = advanced n u" for e u by (simp add: advanced_def idle_def boundary_open_def)
  have fail: "advanced n (failed_resolution t oc s)" if "1 \<le> n"
    using fin move that by (simp add: failed_resolution_def Let_def ev pc_rank_def)
  show ?thesis using assms(3) fin move fail
    by (cases "rs_pc t") (simp_all add: resolve_step_def Let_def cancel_operation_def after_call_def ev pc_rank_def)
qed

text \<open>
  C20. A sealed operation is always settled.  From every reachable state with a resolution under way, three
  steps of it, whatever the manager and the disk answer, end it: no operation is pending, the boundary is
  open for the next turn, and no capability or minter is left.
\<close>

theorem rollout_settles:
  assumes "rollout_reachable repr s" "ro_tasks s \<noteq> []"
  shows "idle (fold (\<lambda>oc. rollout_exec repr (Resolve 0 oc)) [a, b, c] s)"
proof -
  have step: "rollout_reachable repr (rollout_exec repr (Resolve 0 oc) u) \<and> advanced n (rollout_exec repr (Resolve 0 oc) u)"
    if u: "rollout_reachable repr u" "advanced (Suc n) u" for u n oc
  proof -
    have "advanced n (rollout_exec repr (Resolve 0 oc) u)"
    proof (cases "idle u")
      case True
      then show ?thesis by (simp add: rollout_exec_def task_at_def advanced_def idle_def)
    next
      case False
      then obtain t where "ro_tasks u = [t]" "pc_rank (rs_pc t) \<le> Suc n" using u(2) by (auto simp: advanced_def)
      then show ?thesis using resolve_step_advances[OF rollout_reachable_inv[OF u(1)]] by (simp add: rollout_exec_def task_at_def)
    qed
    then show ?thesis using u(1) by (simp add: rollout_step)
  qed
  obtain t where "ro_tasks s = [t]" using rollout_invD(4)[OF rollout_reachable_inv[OF assms(1)]] assms(2) by (auto simp: tasks_ok_def)
  moreover have "pc_rank pc \<le> Suc (Suc (Suc 0))" for pc by (cases pc) (simp_all add: pc_rank_def)
  ultimately have "advanced (Suc (Suc (Suc 0))) s" unfolding advanced_def by blast
  then have "advanced 0 (fold (\<lambda>oc. rollout_exec repr (Resolve 0 oc)) [a, b, c] s)" using step assms(1) by simp blast
  moreover have "\<not> pc_rank pc \<le> 0" for pc by (cases pc) (simp_all add: pc_rank_def)
  ultimately show ?thesis unfolding advanced_def by blast
qed

text \<open>A run: the turn \<open>u\<close> stages a candidate, its child \<open>v\<close> uses a tool of it, both complete.\<close>

definition answered :: call_outcome where
  "answered = \<lparr>oc_call = True, oc_fact = True, oc_failure_fact = True, oc_standing = Some True\<rparr>"

definition rollout_demo_cmds :: "rollout_cmd list" where
  "rollout_demo_cmds = [Install_begin ''u'',
     Install_end (Some \<lparr>st_name = ''p'', st_market = ''m'', st_staged = True, st_revision = ''r1'', st_generation = ''g1'',
       st_tx = ''t1''\<rparr>) True,
     Mint_cap ''u'' ''k'', Start_thread True [] ''stable'' ''th'' ''k'',
     Start_turn (Some []) ''th'' [] None True ''v'', Turn_terminal ''v'' Completed (Some [''tool'']) True,
     Turn_terminal ''u'' Completed (Some []) True, Resolve 0 answered]"

definition rollout_demo :: rollout where
  "rollout_demo = fold (rollout_exec (\<lambda>v. [])) rollout_demo_cmds new_rollout"

lemma rollout_fold_reachable: "rollout_reachable repr s \<Longrightarrow> rollout_reachable repr (fold (rollout_exec repr) cs s)"
  by (induction cs arbitrary: s) (auto intro: rollout_step)

lemma rollout_demo_reachable: "rollout_reachable (\<lambda>v. []) rollout_demo"
  unfolding rollout_demo_def by (intro rollout_fold_reachable rollout_new)

definition rollout_demo_op :: operation where
  "rollout_demo_op = \<lparr>po_ref = 0, po_owner = ''u'', po_plugin = ''p@m'', po_kind = Install_op, po_generation = ''g1'',
     po_revision = ''r1'', po_tx = ''t1'', po_evidence = [], po_sealed = False\<rparr>"

lemma rollout_demo_log: "ro_log rollout_demo = [Registered rollout_demo_op, Annotate ''t1'', Minted 0 ''k'', Bound 0 ''v'' ''k'',
    Child_done 0 ''v'' [''tool''], Annotate ''t1'', Sealed 0 ''u'' Completed, Switch 0 ''p@m'']"
  by code_simp

theorem rollout_switch_authorised_witness: "\<exists>p. registered (butlast (ro_log rollout_demo)) p \<and> po_plugin p = ''p@m'' \<and>
    Sealed 0 (po_owner p) Completed \<in> set (ro_log rollout_demo)"
proof -
  have "ro_log rollout_demo = butlast (ro_log rollout_demo) @ Switch 0 ''p@m'' # []" by (simp add: rollout_demo_log)
  from rollout_switch_authorised[OF rollout_demo_reachable this] show ?thesis by (meson in_set_butlastD)
qed

theorem capability_single_use_witness: "uses_cap (ro_log rollout_demo) ''k'' \<le> 1 \<and> uses_cap (take 3 (ro_log rollout_demo)) ''k'' = 0"
proof -
  have "ro_log rollout_demo = take 3 (ro_log rollout_demo) @ Bound 0 ''v'' ''k'' # drop 4 (ro_log rollout_demo)"
    by (simp add: rollout_demo_log)
  from capability_single_use[OF rollout_demo_reachable this]
  have "uses_cap (ro_log rollout_demo) ''k'' \<le> mints_cap (ro_log rollout_demo) ''k''"
    "uses_cap (take 3 (ro_log rollout_demo)) ''k'' < mints_cap (take 3 (ro_log rollout_demo)) ''k''" by blast+
  moreover have "mints_cap (ro_log rollout_demo) ''k'' = 1" "mints_cap (take 3 (ro_log rollout_demo)) ''k'' = 1"
    by (simp_all add: rollout_demo_log mints_cap_def is_minted_def)
  ultimately show ?thesis by simp
qed

theorem rollout_settles_witness: "idle (fold (\<lambda>oc. rollout_exec (\<lambda>v. []) (Resolve 0 oc)) [answered, answered, answered] rollout_demo)"
proof -
  have "length (ro_tasks rollout_demo) = 1" by code_simp
  then show ?thesis using rollout_settles[OF rollout_demo_reachable] by (metis list.size(3) zero_neq_one)
qed

end
