(* ===== verification/Shell_Output.thy ===== *)
theory Shell_Output
  imports Roxy_Prelude
begin

text \<open>
  The output of shell executions, agent/tools/unified_exec.py: the buffer that keeps the head and
  the tail of a byte stream (\<open>HeadTailBuffer\<close>, lines 43--120), the loop that collects what a
  process wrote until a deadline, the limit put on a result, the clamping of waiting times and the
  choice of the execution that is pruned when the manager is full.  A byte is a \<open>char\<close>.
\<close>

subsection \<open>The buffer\<close>

record head_tail =
  ht_max :: int
  ht_head_budget :: int
  ht_tail_budget :: int
  ht_head :: string
  ht_tail :: string
  ht_omitted :: int

definition blen :: "string \<Rightarrow> int" where
  "blen s = int (length s)"

definition empty_buffer :: "int \<Rightarrow> head_tail" where
  "empty_buffer m = \<lparr>ht_max = m, ht_head_budget = m div 2, ht_tail_budget = m - m div 2, ht_head = [], ht_tail = [],
     ht_omitted = 0\<rparr>"

text \<open>The constructor raises on a negative size.\<close>

definition new_buffer :: "int \<Rightarrow> head_tail option" where
  "new_buffer m = (if m < 0 then None else Some (empty_buffer m))"

definition retained_bytes :: "head_tail \<Rightarrow> int" where
  "retained_bytes b = blen (ht_head b) + blen (ht_tail b)"

definition total_bytes :: "head_tail \<Rightarrow> int" where
  "total_bytes b = retained_bytes b + ht_omitted b"

text \<open>\<open>chunk[-n:]\<close> for a positive \<open>n\<close> that is not longer than the chunk.\<close>

definition last_bytes :: "int \<Rightarrow> string \<Rightarrow> string" where
  "last_bytes n s = drop (length s - nat n) s"

definition push_to_tail :: "string \<Rightarrow> head_tail \<Rightarrow> head_tail" where
  "push_to_tail chunk b =
     (if chunk = [] then b
      else if ht_tail_budget b = 0 then b\<lparr>ht_omitted := ht_omitted b + blen chunk\<rparr>
      else if blen chunk \<ge> ht_tail_budget b then
        let kept = last_bytes (ht_tail_budget b) chunk in
        b\<lparr>ht_omitted := ht_omitted b + (blen (ht_tail b) + blen chunk - blen kept), ht_tail := kept\<rparr>
      else let full = ht_tail b @ chunk; excess = max (blen full - ht_tail_budget b) 0 in
        b\<lparr>ht_tail := drop (nat excess) full, ht_omitted := ht_omitted b + excess\<rparr>)"

definition push_chunk :: "string \<Rightarrow> head_tail \<Rightarrow> head_tail" where
  "push_chunk chunk b =
     (if chunk = [] then b
      else if ht_max b = 0 then b\<lparr>ht_omitted := ht_omitted b + blen chunk\<rparr>
      else let remaining = max (ht_head_budget b - blen (ht_head b)) 0;
               n = min remaining (blen chunk);
               b1 = (if n \<noteq> 0 then b\<lparr>ht_head := ht_head b @ take (nat n) chunk\<rparr> else b) in
        push_to_tail (drop (nat n) chunk) b1)"

definition push_buffer :: "head_tail \<Rightarrow> head_tail \<Rightarrow> head_tail" where
  "push_buffer c b = (let b1 = push_chunk (ht_tail c) (push_chunk (ht_head c) b) in
     b1\<lparr>ht_omitted := ht_omitted b1 + ht_omitted c\<rparr>)"

definition to_bytes :: "head_tail \<Rightarrow> string" where
  "to_bytes b = ht_head b @ ht_tail b"

text \<open>An omission count is never negative.\<close>

definition omission_marker :: "int \<Rightarrow> string" where
  "omission_marker n = ''... '' @ decimal (nat n) @ '' bytes omitted ...''"

definition newline_byte :: char where
  "newline_byte = char_of (10 :: nat)"

definition to_bytes_marked :: "head_tail \<Rightarrow> string" where
  "to_bytes_marked b =
     (if ht_omitted b = 0 then to_bytes b
      else ht_head b @ [newline_byte] @ omission_marker (ht_omitted b) @ [newline_byte] @ ht_tail b)"

definition drain_buffer :: "head_tail \<Rightarrow> head_tail \<times> head_tail" where
  "drain_buffer b = ((empty_buffer (ht_max b))\<lparr>ht_head := ht_head b, ht_tail := ht_tail b, ht_omitted := ht_omitted b\<rparr>,
     b\<lparr>ht_head := [], ht_tail := [], ht_omitted := 0\<rparr>)"

definition limit_output :: "head_tail \<Rightarrow> int \<Rightarrow> head_tail" where
  "limit_output b tokens = push_buffer b (empty_buffer (max tokens 0 * 4))"

subsection \<open>What the buffer keeps of a stream\<close>

definition kept_of :: "int \<Rightarrow> string \<Rightarrow> head_tail" where
  "kept_of m s = (let rest = drop (nat (m div 2)) s; tail = last_bytes (m - m div 2) rest in
     (empty_buffer m)\<lparr>ht_head := take (nat (m div 2)) s, ht_tail := tail, ht_omitted := blen rest - blen tail\<rparr>)"

lemma kept_of_sel [simp]:
  "ht_max (kept_of m s) = m" "ht_head_budget (kept_of m s) = m div 2" "ht_tail_budget (kept_of m s) = m - m div 2"
  "ht_head (kept_of m s) = take (nat (m div 2)) s"
  "ht_tail (kept_of m s) = last_bytes (m - m div 2) (drop (nat (m div 2)) s)"
  "ht_omitted (kept_of m s) = blen (drop (nat (m div 2)) s) - blen (last_bytes (m - m div 2) (drop (nat (m div 2)) s))"
  by (simp_all add: kept_of_def empty_buffer_def Let_def)

lemma kept_of_empty: "kept_of m [] = empty_buffer m"
  by (simp add: kept_of_def empty_buffer_def last_bytes_def blen_def)

lemma last_bytes_append:
  "int (length t) \<ge> n \<Longrightarrow> last_bytes n (s @ t) = last_bytes n t"
  by (simp add: last_bytes_def)

lemma last_bytes_last: "last_bytes n (last_bytes n s @ t) = last_bytes n (s @ t)"
proof (cases "length s < nat n")
  case False
  then show ?thesis by (cases "length t < nat n") (simp_all add: last_bytes_def add.commute)
qed (simp add: last_bytes_def)

lemma blen_last: "0 \<le> n \<Longrightarrow> blen (last_bytes n s) = min n (blen s)"
  by (simp add: blen_def last_bytes_def)

text \<open>One push: what is kept of the stream so far becomes what is kept of the longer stream.\<close>

lemma push_to_tail_kept:
  assumes "0 \<le> m" "ht_tail_budget b = m" "ht_tail b = last_bytes m r" "ht_omitted b = blen r - blen (last_bytes m r)"
  shows "push_to_tail chunk b = b\<lparr>ht_tail := last_bytes m (r @ chunk), ht_omitted := blen (r @ chunk) - blen (last_bytes m (r @ chunk))\<rparr>"
proof (cases "chunk = [] \<or> m = 0")
  case True
  then show ?thesis using assms by (auto simp: push_to_tail_def last_bytes_def blen_def)
next
  case False
  show ?thesis
  proof (cases "blen chunk \<ge> m")
    case True
    have "last_bytes m (r @ chunk) = last_bytes m chunk" using True by (intro last_bytes_append) (simp add: blen_def)
    moreover have "ht_omitted b + (blen (ht_tail b) + blen chunk - blen (last_bytes m chunk)) = blen (r @ chunk) - blen (last_bytes m chunk)"
      using assms by (simp add: blen_def)
    ultimately show ?thesis using False True assms(2) by (simp add: push_to_tail_def Let_def)
  next
    case short: False
    define full where "full = last_bytes m r @ chunk"
    have "drop (nat (max (blen full - m) 0)) full = last_bytes m full"
    proof (cases "blen full \<ge> m")
      case True
      then have "nat (max (blen full - m) 0) = length full - nat m" using assms(1) by (simp add: blen_def)
      then show ?thesis unfolding last_bytes_def by simp
    next
      case False
      then have "nat (max (blen full - m) 0) = 0" "length full - nat m = 0" using assms(1) by (simp_all add: blen_def)
      then show ?thesis unfolding last_bytes_def by simp
    qed
    moreover have "last_bytes m full = last_bytes m (r @ chunk)" by (simp add: full_def last_bytes_last)
    moreover have "blen r - blen (last_bytes m r) + max (blen full - m) 0 = blen (r @ chunk) - blen (last_bytes m (r @ chunk))"
    proof -
      have "blen full = min m (blen r) + blen chunk" "blen (r @ chunk) = blen r + blen chunk" "0 \<le> blen r" "0 \<le> blen chunk"
        using blen_last[OF assms(1), of r] by (simp_all add: full_def blen_def)
      then show ?thesis unfolding blen_last[OF assms(1)] by linarith
    qed
    ultimately show ?thesis using False short assms
      by (simp add: push_to_tail_def Let_def full_def)
  qed
qed

lemma push_chunk_kept:
  assumes "0 \<le> m"
  shows "push_chunk chunk (kept_of m s) = kept_of m (s @ chunk)"
proof (cases "chunk = [] \<or> m = 0")
  case True
  show ?thesis
  proof (cases "chunk = []")
    case False
    then have "m = 0" using True by simp
    then show ?thesis using False by (simp add: push_chunk_def kept_of_def empty_buffer_def last_bytes_def blen_def)
  qed (simp add: push_chunk_def)
next
  case False
  define h where "h = nat (m div 2)"
  define n where "n = min (max (m div 2 - blen (take h s)) 0) (blen chunk)"
  have n: "nat n = min (h - length s) (length chunk)" and n0: "0 \<le> n"
  proof -
    have "m div 2 = int h" using assms by (simp add: h_def)
    then have "n = min (max (int h - int (length (take h s))) 0) (int (length chunk))" by (simp add: n_def blen_def)
    then show "nat n = min (h - length s) (length chunk)" "0 \<le> n" by (auto simp: min_def max_def nat_diff_distrib')
  qed
  define H where "H = take h (s @ chunk)"
  have head: "take h s @ take (nat n) chunk = H" by (simp add: H_def n min_def)
  have rest: "drop h s @ drop (nat n) chunk = drop h (s @ chunk)" by (auto simp: n min_def)
  define b1 where "b1 = (kept_of m s)\<lparr>ht_head := H\<rparr>"
  have "push_chunk chunk (kept_of m s) = push_to_tail (drop (nat n) chunk) b1"
  proof -
    have "(if n \<noteq> 0 then (kept_of m s)\<lparr>ht_head := take h s @ take (nat n) chunk\<rparr> else kept_of m s) = b1"
    proof (cases "n = 0")
      case True
      then have "take h s = H" using head by simp
      then show ?thesis using True by (simp add: b1_def kept_of_def Let_def h_def)
    qed (simp add: b1_def head)
    then show ?thesis using False unfolding push_chunk_def Let_def kept_of_sel h_def[symmetric] n_def[symmetric] by simp
  qed
  also have "\<dots> = b1\<lparr>ht_tail := last_bytes (m - m div 2) (drop h s @ drop (nat n) chunk),
      ht_omitted := blen (drop h s @ drop (nat n) chunk) - blen (last_bytes (m - m div 2) (drop h s @ drop (nat n) chunk))\<rparr>"
    by (rule push_to_tail_kept) (use assms in \<open>simp_all add: b1_def h_def\<close>)
  also have "\<dots> = kept_of m (s @ chunk)" unfolding rest
    by (simp add: b1_def kept_of_def empty_buffer_def Let_def h_def[symmetric] H_def)
  finally show ?thesis .
qed

lemma kept_of_gap:
  assumes "m div 2 \<le> blen a" "m - m div 2 \<le> blen c" "0 \<le> m"
  shows "kept_of m (s @ a @ mid @ c) = (kept_of m (s @ a @ c))\<lparr>ht_omitted := ht_omitted (kept_of m (s @ a @ c)) + blen mid\<rparr>"
proof -
  define h where "h = nat (m div 2)"
  have h: "h \<le> length a" using assms(1,3) by (simp add: h_def blen_def nat_le_iff)
  have drop: "drop h (s @ a @ x @ c) = drop h (s @ a) @ x @ c" "drop h (s @ a @ c) = drop h (s @ a) @ c" for x
    using h by simp_all
  have take: "take h (s @ a @ mid @ c) = take h (s @ a @ c)" using h by simp
  have last: "last_bytes (m - m div 2) (x @ c) = last_bytes (m - m div 2) c" for x
    using assms(2) by (intro last_bytes_append) (simp add: blen_def)
  have "last_bytes (m - m div 2) (drop h (s @ a) @ mid @ c) = last_bytes (m - m div 2) c"
    using last[of "drop h (s @ a) @ mid"] by simp
  then show ?thesis using take last[of "drop h (s @ a)"]
    by (simp add: kept_of_def Let_def h_def[symmetric] drop del: drop_append take_append) (simp add: blen_def)
qed

text \<open>A drained buffer that is pushed into another one of at most its size loses nothing more.\<close>

lemma push_buffer_kept:
  assumes "0 \<le> m" "m \<le> k"
  shows "push_buffer (kept_of k u) (kept_of m s) = kept_of m (s @ u)"
proof -
  define a where "a = take (nat (k div 2)) u"
  define rest where "rest = drop (nat (k div 2)) u"
  define c where "c = last_bytes (k - k div 2) rest"
  define mid where "mid = take (length rest - length c) rest"
  have k: "0 \<le> k" "0 \<le> k div 2" "0 \<le> k - k div 2" using assms by auto
  have c: "c = drop (length rest - length c) rest" unfolding c_def last_bytes_def by simp
  have rest: "rest = mid @ c" unfolding mid_def by (subst c) simp
  have u: "u = a @ mid @ c" unfolding a_def by (subst append_take_drop_id[symmetric, of u "nat (k div 2)"]) (simp add: rest_def[symmetric] rest[symmetric])
  have pushed: "push_buffer (kept_of k u) (kept_of m s) = (kept_of m (s @ a @ c))\<lparr>ht_omitted := ht_omitted (kept_of m (s @ a @ c)) + blen mid\<rparr>"
    by (simp add: push_buffer_def push_chunk_kept[OF assms(1)] Let_def a_def[symmetric] rest_def[symmetric] c_def[symmetric])
      (simp add: rest blen_def)
  show ?thesis
  proof (cases "mid = []")
    case True
    then show ?thesis using pushed u by (simp add: blen_def)
  next
    case False
    then have "length c < length rest" using rest by (cases mid) auto
    then have lc: "length c = nat (k - k div 2)" unfolding c_def last_bytes_def by simp
    have "rest \<noteq> []" using False rest by auto
    then have la: "length a = nat (k div 2)" by (simp add: a_def rest_def)
    have "kept_of m (s @ a @ mid @ c) = (kept_of m (s @ a @ c))\<lparr>ht_omitted := ht_omitted (kept_of m (s @ a @ c)) + blen mid\<rparr>"
      by (rule kept_of_gap) (use assms k in \<open>auto simp: blen_def la lc\<close>)
    then show ?thesis using pushed u by simp
  qed
qed

subsection \<open>Collecting output\<close>

definition output_max_bytes :: int where
  "output_max_bytes = 1024 * 1024"

text \<open>What happens while a call waits: the pump appends a chunk, or the loop drains the buffer.  The state is
  the buffer of the execution and the collected one.\<close>

datatype output_step = Append string | Collect

definition collect_step :: "output_step \<Rightarrow> head_tail \<times> head_tail \<Rightarrow> head_tail \<times> head_tail" where
  "collect_step st bc = (case bc of (b, c) \<Rightarrow> (case st of
     Append chunk \<Rightarrow> (push_chunk chunk b, c)
   | Collect \<Rightarrow> let (d, b') = drain_buffer b in (b', if total_bytes d \<noteq> 0 then push_buffer d c else c)))"

text \<open>\<open>_collect_until_deadline\<close>: any number of drains before the deadline, and the last one.\<close>

definition collect_until :: "output_step list \<Rightarrow> head_tail \<Rightarrow> head_tail \<times> head_tail" where
  "collect_until steps b = collect_step Collect (fold collect_step steps (b, empty_buffer output_max_bytes))"

record shown_output =
  so_output :: string
  so_tokens :: int
  so_omitted :: int
  so_log_kept :: bool

text \<open>The output part of \<open>_build_result\<close>; \<open>alive\<close>: the process is still running.\<close>

definition shown_result :: "bool \<Rightarrow> head_tail \<Rightarrow> int \<Rightarrow> shown_output" where
  "shown_result alive collected tokens = (let out = limit_output collected tokens in
     \<lparr>so_output = to_bytes_marked out, so_tokens = (total_bytes collected + 3) div 4, so_omitted = ht_omitted out,
      so_log_kept = (alive \<or> ht_omitted out > 0 \<or> ht_omitted collected > 0)\<rparr>)"

definition appended :: "output_step list \<Rightarrow> string" where
  "appended steps = concat (map (\<lambda>st. case st of Append chunk \<Rightarrow> chunk | Collect \<Rightarrow> []) steps)"

lemma total_kept: "total_bytes (kept_of m s) = blen s"
  by (simp add: total_bytes_def retained_bytes_def blen_def)

lemma drain_kept: "drain_buffer (kept_of m s) = (kept_of m s, kept_of m [])"
  by (simp add: drain_buffer_def kept_of_def empty_buffer_def Let_def last_bytes_def blen_def)

lemma collect_kept:
  assumes "0 \<le> m"
  shows "collect_step Collect (kept_of m u, kept_of m s) = (kept_of m [], kept_of m (s @ u))"
  using assms by (simp add: collect_step_def drain_kept total_kept push_buffer_kept) (simp add: blen_def)

lemma collect_steps:
  assumes "0 \<le> m"
  shows "\<exists>s' u'. fold collect_step steps (kept_of m u, kept_of m s) = (kept_of m u', kept_of m s') \<and> s' @ u' = s @ u @ appended steps"
proof (induction steps arbitrary: s u)
  case (Cons st steps)
  show ?case
  proof (cases st)
    case (Append chunk)
    then show ?thesis using Cons.IH[of "u @ chunk" s]
      by (simp add: collect_step_def push_chunk_kept[OF assms] appended_def)
  next
    case Collect
    then show ?thesis using Cons.IH[of "[]" "s @ u"] by (simp add: collect_kept[OF assms] appended_def)
  qed
qed (auto simp: appended_def)

text \<open>
  C21. A result shows the head and the tail of what the process wrote.  However the output arrives in chunks
  and however the waiting loop interleaves its drains with them, the collected buffer is the one that a
  single uninterrupted stream would give and nothing stays behind; and for a limit from 0 to 262144
  tokens, the size of the buffer, the result is exact: a short stream is shown unchanged, of a longer one the first
  and the last half of the limit with the number of bytes between them, and the token count is that of the
  whole stream.
\<close>

theorem collected_output:
  assumes "stream = written @ appended steps" "0 \<le> tokens" "tokens \<le> 262144"
    and "collect_until steps (kept_of output_max_bytes written) = (left, collected)"
  shows "left = empty_buffer output_max_bytes \<and> collected = fold push_chunk [stream] (empty_buffer output_max_bytes) \<and>
    limit_output collected tokens = kept_of (4 * tokens) stream \<and>
    so_tokens (shown_result alive collected tokens) = (blen stream + 3) div 4 \<and>
    so_omitted (shown_result alive collected tokens) = max 0 (blen stream - 4 * tokens) \<and>
    so_output (shown_result alive collected tokens) =
      (if blen stream \<le> 4 * tokens then stream
       else take (nat (2 * tokens)) stream @ [newline_byte] @ omission_marker (blen stream - 4 * tokens) @ [newline_byte] @
         last_bytes (2 * tokens) stream)"
proof -
  define m where "m = output_max_bytes"
  have m: "0 \<le> m" "max tokens 0 * 4 \<le> m" "0 \<le> max tokens 0 * 4" using assms(2,3) by (simp_all add: m_def output_max_bytes_def)
  obtain s' u' where su: "fold collect_step steps (kept_of m written, kept_of m []) = (kept_of m u', kept_of m s')"
      "s' @ u' = written @ appended steps"
    using collect_steps[OF m(1), of steps written "[]"] by auto
  then have "collect_until steps (kept_of m written) = (kept_of m [], kept_of m stream)"
    using collect_kept[OF m(1)] assms(1) by (simp add: collect_until_def m_def kept_of_empty[symmetric])
  then have lc: "left = kept_of m []" "collected = kept_of m stream" using assms(4) by (simp_all add: m_def)
  have lim: "limit_output collected tokens = kept_of (4 * tokens) stream"
    using push_buffer_kept[OF m(3,2), of stream "[]"] assms(2) by (simp add: limit_output_def lc kept_of_empty mult.commute)
  have om: "ht_omitted (kept_of (4 * tokens) stream) = max 0 (blen stream - 4 * tokens)"
    using assms(2) by (simp add: blen_last) (simp add: blen_def)
  have half: "nat (4 * tokens div 2) = nat (2 * tokens)" "4 * tokens - 4 * tokens div 2 = 2 * tokens" by simp_all
  have "to_bytes (kept_of (4 * tokens) stream) = stream" if "blen stream \<le> 4 * tokens"
    using that by (simp add: to_bytes_def half last_bytes_def blen_def)
  moreover have "last_bytes (2 * tokens) (drop (nat (2 * tokens)) stream) = last_bytes (2 * tokens) stream" if "blen stream > 4 * tokens"
    using that assms(2) by (simp add: last_bytes_def blen_def nat_mult_distrib)
  ultimately have "to_bytes_marked (kept_of (4 * tokens) stream) = (if blen stream \<le> 4 * tokens then stream
       else take (nat (2 * tokens)) stream @ [newline_byte] @ omission_marker (blen stream - 4 * tokens) @ [newline_byte] @
         last_bytes (2 * tokens) stream)"
    unfolding to_bytes_marked_def om by (simp add: half)
  moreover have "fold push_chunk [stream] (empty_buffer m) = kept_of m stream"
    using push_chunk_kept[OF m(1), of stream "[]"] by (simp add: kept_of_empty)
  ultimately show ?thesis using lc
    unfolding shown_result_def Let_def lim lc(1) kept_of_empty m_def
    by (simp add: om total_kept lc(2)[unfolded m_def] lim[unfolded lc m_def] del: kept_of_sel(6))
qed

theorem collected_output_witness:
  "so_output (shown_result False (snd (collect_until [Append ''abcde'', Collect, Append ''fghij''] (kept_of output_max_bytes []))) 1) =
     ''ab'' @ [newline_byte] @ omission_marker 6 @ [newline_byte] @ ''ij''"
proof -
  obtain l c where lc: "collect_until [Append ''abcde'', Collect, Append ''fghij''] (kept_of output_max_bytes []) = (l, c)" by (rule prod.exhaust)
  have r: "0 \<le> (1::int)" "(1::int) \<le> 262144" by simp_all
  have "appended [Append ''abcde'', Collect, Append ''fghij''] = ''abcdefghij''" by (simp add: appended_def)
  then show ?thesis
    using collected_output[OF refl r lc, where alive = False, THEN conjunct2, THEN conjunct2, THEN conjunct2, THEN conjunct2, THEN conjunct2]
    by (simp add: lc blen_def last_bytes_def)
qed

text \<open>A limit above the size of the buffer moves the marker: here the bytes left out stood between ''ab'' and
  ''gh'', and the result puts the marker at the end.\<close>

lemma marker_misplaced:
  "to_bytes_marked (limit_output (kept_of 4 ''abcdefgh'') 2) = ''abgh'' @ [newline_byte] @ omission_marker 4 @ [newline_byte]"
  by code_simp

subsection \<open>Waiting times\<close>

definition clamp_initial_yield_time :: "int \<Rightarrow> int" where
  "clamp_initial_yield_time t = min (max t 250) 30000"

definition clamp_write_stdin_yield_time :: "int \<Rightarrow> bool \<Rightarrow> int \<Rightarrow> int" where
  "clamp_write_stdin_yield_time t has_input max_empty = (let value = max t 250 in
     if has_input then min value 30000 else min (max value 5000) max_empty)"

text \<open>\<open>_process_status\<close>: running, timed out, succeeded or failed.\<close>

definition process_status :: "int option \<Rightarrow> string \<Rightarrow> int option \<Rightarrow> string" where
  "process_status execution_id finish_reason exit_code =
     (if execution_id \<noteq> None then ''running'' else if finish_reason = ''timeout'' then ''timed_out''
      else if exit_code = Some 0 then ''succeeded'' else ''failed'')"

subsection \<open>The executions of the manager\<close>

text \<open>\<open>ex_last\<close>: the reading of the monotonic clock at the last use; \<open>ex_done\<close>: the process has returned.\<close>

record execution =
  ex_id :: int
  ex_owner :: string
  ex_last :: int
  ex_done :: bool

record shell_manager =
  sm_max :: nat
  sm_execs :: "(int, execution) dict"
  sm_quarantined :: "(string, int list) dict"

datatype shell_error = Quarantined "int list" | Capacity_full | Not_confirmed int | No_free_id | Spawn_failed | Unknown_execution

definition select_prune_candidate :: "execution list \<Rightarrow> execution option" where
  "select_prune_candidate xs =
     (if xs = [] then None
      else let by_recency = sort_key (\<lambda>x. - ex_last x) xs;
               protected = map ex_id (take (min 8 (length by_recency - 1)) by_recency);
               lru = sort_key ex_last xs in
        case find (\<lambda>x. ex_id x \<notin> set protected \<and> ex_done x) lru of Some x \<Rightarrow> Some x
        | None \<Rightarrow> find (\<lambda>x. ex_id x \<notin> set protected) lru)"

definition remove_execution :: "int \<Rightarrow> shell_manager \<Rightarrow> shell_manager" where
  "remove_execution i s = s\<lparr>sm_execs := dict_del (sm_execs s) i\<rparr>"

text \<open>\<open>confirmed\<close>: the process group was seen to end within the time allowed.\<close>

definition prune_if_needed :: "bool \<Rightarrow> shell_manager \<Rightarrow> shell_error option \<times> shell_manager" where
  "prune_if_needed confirmed s =
     (if length (sm_execs s) < sm_max s then (None, s)
      else case select_prune_candidate (map snd (sm_execs s)) of
        None \<Rightarrow> (Some Capacity_full, s)
      | Some x \<Rightarrow> if \<not> ex_done x \<and> \<not> confirmed then (Some (Not_confirmed (ex_id x)), s)
                 else (None, remove_execution (ex_id x) s))"

text \<open>The part of \<open>exec_command\<close> under the spawn lock; \<open>draws\<close> are the random ids in the order they are drawn.\<close>

definition exec_command :: "string \<Rightarrow> int \<Rightarrow> bool \<Rightarrow> int list \<Rightarrow> bool \<Rightarrow> shell_manager \<Rightarrow> shell_error option \<times> shell_manager" where
  "exec_command owner now confirmed draws spawned s =
     (case dict_get (sm_quarantined s) owner of Some failed \<Rightarrow> (Some (Quarantined failed), s)
      | None \<Rightarrow> (case prune_if_needed confirmed s of
          (Some e, s1) \<Rightarrow> (Some e, s1)
        | (None, s1) \<Rightarrow> (case find (\<lambda>i. 1000 \<le> i \<and> i \<le> 99999 \<and> dict_get (sm_execs s1) i = None) draws of
              None \<Rightarrow> (Some No_free_id, s1)
            | Some i \<Rightarrow> if \<not> spawned then (Some Spawn_failed, s1)
                else (None, s1\<lparr>sm_execs := dict_set (sm_execs s1) i
                  \<lparr>ex_id = i, ex_owner = owner, ex_last = now, ex_done = False\<rparr>\<rparr>))))"

definition get_owned_execution :: "int \<Rightarrow> string \<Rightarrow> int \<Rightarrow> shell_manager \<Rightarrow> (shell_error + execution) \<times> shell_manager" where
  "get_owned_execution i owner now s = (case dict_get (sm_execs s) i of
     None \<Rightarrow> (Inl Unknown_execution, s)
   | Some x \<Rightarrow> if ex_owner x \<noteq> owner then (Inl Unknown_execution, s)
       else (Inr x, s\<lparr>sm_execs := dict_set (sm_execs s) i (x\<lparr>ex_last := now\<rparr>)\<rparr>))"

definition terminate_execution :: "int \<Rightarrow> string \<Rightarrow> int \<Rightarrow> bool \<Rightarrow> shell_manager \<Rightarrow> (shell_error + bool) \<times> shell_manager" where
  "terminate_execution i owner now confirmed s = (case get_owned_execution i owner now s of
     (Inl e, s1) \<Rightarrow> (Inr False, s1)
   | (Inr x, s1) \<Rightarrow> if \<not> confirmed then (Inl (Not_confirmed i), s1) else (Inr True, remove_execution i s1))"

text \<open>\<open>_terminate_many\<close>: the ids whose clean-up failed, and the manager without the others.\<close>

definition terminate_many :: "execution list \<Rightarrow> (int \<Rightarrow> bool) \<Rightarrow> shell_manager \<Rightarrow> int list \<times> shell_manager" where
  "terminate_many xs cleaned s = (map ex_id (filter (\<lambda>x. \<not> cleaned (ex_id x)) xs),
     fold (\<lambda>x t. if cleaned (ex_id x) then remove_execution (ex_id x) t else t) xs s)"

definition terminate_owner :: "string \<Rightarrow> (int \<Rightarrow> bool) \<Rightarrow> shell_manager \<Rightarrow> int list \<times> shell_manager" where
  "terminate_owner owner cleaned s = (let xs = filter (\<lambda>x. ex_owner x = owner) (map snd (sm_execs s));
       (failed, s1) = terminate_many xs cleaned s in
     (failed, s1\<lparr>sm_quarantined := (if failed \<noteq> [] then dict_set (sm_quarantined s1) owner failed
        else dict_del (sm_quarantined s1) owner)\<rparr>))"

definition shutdown_manager :: "(int \<Rightarrow> bool) \<Rightarrow> shell_manager \<Rightarrow> int list \<times> shell_manager" where
  "shutdown_manager cleaned s = terminate_many (map snd (sm_execs s)) cleaned s"

text \<open>A process returns; a finished one is removed when its result was read.\<close>

definition mark_done :: "int \<Rightarrow> shell_manager \<Rightarrow> shell_manager" where
  "mark_done i s = (case dict_get (sm_execs s) i of None \<Rightarrow> s
     | Some x \<Rightarrow> s\<lparr>sm_execs := dict_set (sm_execs s) i (x\<lparr>ex_done := True\<rparr>)\<rparr>)"

datatype shell_cmd = Exec string int bool "int list" bool | Touch int string int | Terminate int string int bool
  | Terminate_owner string "int \<Rightarrow> bool" | Shut_down "int \<Rightarrow> bool" | Returned int | Removed int

definition shell_step :: "shell_cmd \<Rightarrow> shell_manager \<Rightarrow> shell_manager" where
  "shell_step c s = (case c of
     Exec owner now confirmed draws spawned \<Rightarrow> snd (exec_command owner now confirmed draws spawned s)
   | Touch i owner now \<Rightarrow> snd (get_owned_execution i owner now s)
   | Terminate i owner now confirmed \<Rightarrow> snd (terminate_execution i owner now confirmed s)
   | Terminate_owner owner cleaned \<Rightarrow> snd (terminate_owner owner cleaned s)
   | Shut_down cleaned \<Rightarrow> snd (shutdown_manager cleaned s)
   | Returned i \<Rightarrow> mark_done i s
   | Removed i \<Rightarrow> remove_execution i s)"

definition new_manager :: "nat \<Rightarrow> shell_manager" where
  "new_manager n = \<lparr>sm_max = n, sm_execs = [], sm_quarantined = []\<rparr>"

inductive shell_reachable :: "nat \<Rightarrow> shell_manager \<Rightarrow> bool" for n where
  shell_new: "0 < n \<Longrightarrow> shell_reachable n (new_manager n)"
| shell_more: "shell_reachable n s \<Longrightarrow> shell_reachable n (shell_step c s)"

lemma find_sorted_least:
  "sorted (map f xs) \<Longrightarrow> find Q xs = Some x \<Longrightarrow> x \<in> set xs \<and> Q x \<and> (\<forall>y \<in> set xs. Q y \<longrightarrow> f x \<le> f y)"
  by (induction xs) (auto split: if_splits)

lemma take_sorted_least: "sorted (map f xs) \<Longrightarrow> x \<in> set (take k xs) \<Longrightarrow> y \<in> set (drop k xs) \<Longrightarrow> f x \<le> f y"
proof -
  assume a: "sorted (map f xs)" "x \<in> set (take k xs)" "y \<in> set (drop k xs)"
  have "sorted (map f (take k xs) @ map f (drop k xs))" using a(1) by (simp flip: map_append)
  then show ?thesis using a(2,3) unfolding sorted_append by auto
qed

lemma select_prune_parts:
  assumes "distinct (map ex_id xs)" "xs \<noteq> []"
  shows "\<exists>x P. select_prune_candidate xs = Some x \<and> P \<subseteq> set xs \<and> card P = min 8 (length xs - 1) \<and>
    (\<forall>p \<in> P. \<forall>y \<in> set xs - P. ex_last y \<le> ex_last p) \<and> x \<in> set xs - P \<and>
    (\<forall>y \<in> set xs - P. ex_done y \<longrightarrow> ex_done x \<and> ex_last x \<le> ex_last y) \<and>
    (\<not> ex_done x \<longrightarrow> (\<forall>y \<in> set xs - P. ex_last x \<le> ex_last y))"
proof -
  define rs where "rs = sort_key (\<lambda>x::execution. - ex_last x) xs"
  define k where "k = min 8 (length xs - 1)"
  define P where "P = set (take k rs)"
  define lru where "lru = sort_key ex_last xs"
  have rs: "set rs = set xs" "distinct rs" "length rs = length xs" "sorted (map (\<lambda>x. - ex_last x) rs)" and inj: "inj_on ex_id (set xs)"
    using assms(1) by (auto simp: rs_def distinct_map)
  have free: "ex_id x \<notin> set (map ex_id (take k rs)) \<longleftrightarrow> x \<notin> P" if "x \<in> set xs" for x
    using that inj rs(1) set_take_subset[of k rs] by (auto simp: P_def inj_on_def)
  have P: "P \<subseteq> set xs" "card P = k" using rs set_take_subset[of k rs] by (auto simp: P_def distinct_card k_def)
  have out: "set xs - P = set (drop k rs)"
  proof -
    have "set rs = set (take k rs) \<union> set (drop k rs)" by (metis append_take_drop_id set_append)
    moreover have "set (take k rs) \<inter> set (drop k rs) = {}" using rs(2) by (simp add: set_take_disj_set_drop_if_distinct)
    ultimately show ?thesis using rs(1) by (auto simp: P_def)
  qed
  have recent: "ex_last y \<le> ex_last p" if "p \<in> P" "y \<in> set xs - P" for p y
  proof -
    have "y \<in> set (drop k rs)" using that(2) out by blast
    then show ?thesis using take_sorted_least[OF rs(4), of p k y] that(1) by (simp add: P_def)
  qed
  have "drop k rs \<noteq> []" using assms(2) rs(3) by (simp add: k_def) (cases xs; simp)
  then have some: "set xs - P \<noteq> {}" using out by simp
  have lru: "sorted (map ex_last lru)" "set lru = set xs" by (simp_all add: lru_def)
  define Q where "Q = (\<lambda>x::execution. ex_id x \<notin> set (map ex_id (take k rs)))"
  have Q: "Q y \<longleftrightarrow> y \<notin> P" if "y \<in> set xs" for y using free[OF that] by (simp add: Q_def)
  have sel: "select_prune_candidate xs = (case find (\<lambda>x. Q x \<and> ex_done x) lru of Some x \<Rightarrow> Some x | None \<Rightarrow> find Q lru)"
    using assms(2) by (simp add: select_prune_candidate_def Let_def Q_def lru_def k_def rs_def cong: option.case_cong)
  show ?thesis
  proof (cases "find (\<lambda>x. Q x \<and> ex_done x) lru")
    case (Some x)
    note x = find_sorted_least[OF lru(1) Some]
    then have "x \<in> set xs - P" "ex_done x" "\<forall>y \<in> set xs - P. ex_done y \<longrightarrow> ex_last x \<le> ex_last y" using Q lru(2) by auto
    then show ?thesis using P recent sel Some unfolding k_def
      by (intro exI[of _ x] exI[of _ P]) simp
  next
    case None
    then have nd: "\<forall>y \<in> set xs - P. \<not> ex_done y" using Q lru(2) by (auto simp: find_None_iff)
    obtain x where "find Q lru = Some x" using some Q lru(2) by (cases "find Q lru") (auto simp: find_None_iff)
    note x = this find_sorted_least[OF lru(1) this]
    then have "x \<in> set xs - P" "\<forall>y \<in> set xs - P. ex_last x \<le> ex_last y" using Q lru(2) by auto
    then show ?thesis using P recent sel None x(1) nd unfolding k_def
      by (intro exI[of _ x] exI[of _ P]) simp
  qed
qed

text \<open>
  The manager prunes the right execution.  Of executions with different ids one is always chosen; the
  eight most recently used (all but one when there are fewer than nine) are protected; a process that has
  ended is preferred, and among the candidates the least recently used is taken.
\<close>

theorem prune_choice:
  assumes "distinct (map ex_id xs)" "xs \<noteq> []"
  shows "\<exists>x P. select_prune_candidate xs = Some x \<and> P \<subseteq> set xs \<and> card P = min 8 (length xs - 1) \<and>
    (\<forall>p \<in> P. \<forall>y \<in> set xs - P. ex_last y \<le> ex_last p) \<and> x \<in> set xs - P \<and>
    (\<forall>y \<in> set xs - P. ex_done y \<longrightarrow> ex_done x \<and> ex_last x \<le> ex_last y) \<and>
    (\<not> ex_done x \<longrightarrow> (\<forall>y \<in> set xs - P. ex_last x \<le> ex_last y))"
  using select_prune_parts[OF assms] .

definition demo_execution :: "int \<Rightarrow> int \<Rightarrow> bool \<Rightarrow> execution" where
  "demo_execution i t d = \<lparr>ex_id = i, ex_owner = ''o'', ex_last = t, ex_done = d\<rparr>"

theorem prune_choice_witness:
  "select_prune_candidate [demo_execution 1001 5 False, demo_execution 1002 3 False] = Some (demo_execution 1002 3 False)"
proof -
  define a where "a = demo_execution 1001 5 False"
  define b where "b = demo_execution 1002 3 False"
  have ab: "a \<noteq> b" "ex_last b < ex_last a" "distinct (map ex_id [a, b])" by (simp_all add: a_def b_def demo_execution_def)
  have "[a, b] \<noteq> []" by simp
  then obtain x P where x: "select_prune_candidate [a, b] = Some x" "P \<subseteq> set [a, b]" "card P = min 8 (length [a, b] - 1)"
      "\<forall>p \<in> P. \<forall>y \<in> set [a, b] - P. ex_last y \<le> ex_last p" "x \<in> set [a, b] - P"
    using prune_choice[OF ab(3)] by blast
  have "card P = 1" using x(3) by simp
  then obtain p where p: "P = {p}" using card_1_singletonE by blast
  have "p = a \<or> p = b" "x = a \<or> x = b" "x \<noteq> p" using x(2,5) p by auto
  moreover have "ex_last x \<le> ex_last p" using x(4,5) p by blast
  ultimately have "x = b" using ab(2) by auto
  then show ?thesis using x(1) by (simp add: a_def b_def)
qed

subsection \<open>Capacity and isolation\<close>

definition manager_ok :: "nat \<Rightarrow> shell_manager \<Rightarrow> bool" where
  "manager_ok n s \<longleftrightarrow> sm_max s = n \<and> dict_ok (sm_execs s) \<and> length (sm_execs s) \<le> n \<and>
     (\<forall>i x. dict_get (sm_execs s) i = Some x \<longrightarrow> ex_id x = i \<and> 1000 \<le> i \<and> i \<le> 99999)"

lemma length_dict_del: "dict_ok d \<Longrightarrow> length (dict_del d k) = (if dict_get d k = None then length d else length d - 1)"
proof -
  assume ok: "dict_ok d"
  have c: "dict_ok d \<Longrightarrow> length d = card (set (dict_keys d))" for d :: "('a, 'b) dict"
    by (metis dict_ok_def distinct_card length_map)
  show ?thesis using c[OF ok] c[OF dict_ok_del[OF ok, of k]] by (auto simp: dict_get_None_iff card_Diff_singleton_if)
qed

lemma length_dict_set: "dict_ok d \<Longrightarrow> length (dict_set d k v) = (if dict_get d k = None then length d + 1 else length d)"
proof -
  assume ok: "dict_ok d"
  have c: "dict_ok d \<Longrightarrow> length d = card (set (dict_keys d))" for d :: "('a, 'b) dict"
    by (metis dict_ok_def distinct_card length_map)
  show ?thesis using c[OF ok] c[OF dict_ok_set[OF ok, of k v]] by (auto simp: dict_get_None_iff insert_absorb)
qed

lemma remove_ok: "manager_ok n s \<Longrightarrow> manager_ok n (remove_execution i s)"
  by (auto simp: manager_ok_def remove_execution_def length_dict_del)

lemma update_ok: "manager_ok n s \<Longrightarrow> dict_get (sm_execs s) i = Some x \<Longrightarrow> ex_id y = ex_id x \<Longrightarrow>
    manager_ok n (s\<lparr>sm_execs := dict_set (sm_execs s) i y\<rparr>)"
  by (auto simp: manager_ok_def length_dict_set)

lemma quarantine_ok [simp]: "manager_ok n (s\<lparr>sm_quarantined := q\<rparr>) = manager_ok n s"
  by (simp add: manager_ok_def)

lemma terminate_many_ok: "manager_ok n s \<Longrightarrow> manager_ok n (snd (terminate_many xs cleaned s))"
  unfolding terminate_many_def by simp (induction xs arbitrary: s; simp add: remove_ok)

lemma get_owned_ok: "manager_ok n s \<Longrightarrow> manager_ok n (snd (get_owned_execution i owner now s))"
  by (auto simp: get_owned_execution_def update_ok split: option.split)

lemma prune_ok:
  assumes "manager_ok n s" "0 < n" "prune_if_needed confirmed s = (None, s')"
  shows "manager_ok n s' \<and> length (sm_execs s') < n \<and> sm_quarantined s' = sm_quarantined s"
proof (cases "length (sm_execs s) < n")
  case False
  then obtain x where x: "select_prune_candidate (map snd (sm_execs s)) = Some x" "s' = remove_execution (ex_id x) s"
    using assms by (auto simp: prune_if_needed_def manager_ok_def split: option.splits if_splits)
  have ids: "map ex_id (map snd (sm_execs s)) = dict_keys (sm_execs s)"
    using assms(1) by (auto simp: manager_ok_def dict_get_Some_iff)
  have "distinct (map ex_id (map snd (sm_execs s)))" "map snd (sm_execs s) \<noteq> []"
    unfolding ids using assms(1,2) False by (auto simp: manager_ok_def dict_ok_def)
  from select_prune_parts[OF this] have "x \<in> set (map snd (sm_execs s))" using x(1) by auto
  then have "ex_id x \<in> set (dict_keys (sm_execs s))" unfolding ids[symmetric] by auto
  then have "dict_get (sm_execs s) (ex_id x) \<noteq> None" by (simp add: dict_get_None_iff)
  then show ?thesis using remove_ok[OF assms(1)] x(2) assms(1,2) by (auto simp: remove_execution_def length_dict_del manager_ok_def)
qed (use assms in \<open>auto simp: prune_if_needed_def manager_ok_def\<close>)

lemma exec_ok:
  assumes "manager_ok n s" "0 < n"
  shows "manager_ok n (snd (exec_command owner now confirmed draws spawned s))"
proof (cases "prune_if_needed confirmed s")
  case (Pair e s1)
  show ?thesis
  proof (cases e)
    case None
    have s1: "manager_ok n s1" "length (sm_execs s1) < n" using prune_ok[OF assms, of confirmed s1] Pair None by simp_all
    have "manager_ok n (s1\<lparr>sm_execs := dict_set (sm_execs s1) i \<lparr>ex_id = i, ex_owner = owner, ex_last = now, ex_done = False\<rparr>\<rparr>)"
      if "find (\<lambda>i. 1000 \<le> i \<and> i \<le> 99999 \<and> dict_get (sm_execs s1) i = None) draws = Some i" for i
      using s1 that by (auto simp: manager_ok_def length_dict_set find_Some_iff)
    then show ?thesis using Pair None s1 assms(1) by (simp add: exec_command_def split: option.split)
  next
    case (Some x)
    then have "s1 = s" using Pair by (auto simp: prune_if_needed_def split: if_splits option.splits)
    then show ?thesis using Pair Some assms(1) by (simp add: exec_command_def split: option.split)
  qed
qed

lemma shell_step_ok:
  assumes "manager_ok n s" "0 < n"
  shows "manager_ok n (shell_step c s)"
proof (cases c)
  case (Terminate i owner now confirmed)
  have "manager_ok n (snd (get_owned_execution i owner now s))" by (rule get_owned_ok[OF assms(1)])
  then show ?thesis using Terminate remove_ok
    by (auto simp: shell_step_def terminate_execution_def split: prod.split sum.split)
next
  case (Terminate_owner owner cleaned)
  then show ?thesis using terminate_many_ok[OF assms(1)]
    by (simp add: shell_step_def terminate_owner_def Let_def case_prod_beta)
next
  case (Returned i)
  then show ?thesis using assms(1) by (auto simp: shell_step_def mark_done_def update_ok split: option.split)
qed (simp_all add: shell_step_def exec_ok get_owned_ok shutdown_manager_def terminate_many_ok remove_ok assms)

lemma shell_reachable_ok: "shell_reachable n s \<Longrightarrow> 0 < n \<and> manager_ok n s"
proof (induction rule: shell_reachable.induct)
  case shell_new
  then show ?case by (simp add: new_manager_def manager_ok_def)
qed (simp add: shell_step_ok)

text \<open>
  The manager never holds more executions than it may, and an owner whose clean-up failed is shut out.
  In every reachable manager the executions are at most the configured number and are stored under their
  ids, from 1000 to 99999; and \<open>exec_command\<close> for a quarantined owner refuses with the ids that could
  not be cleaned up and changes nothing.
\<close>

theorem shell_manager_bounded:
  assumes "shell_reachable n s"
  shows "length (sm_execs s) \<le> n \<and> distinct (dict_keys (sm_execs s)) \<and>
    (\<forall>(i, x) \<in> set (sm_execs s). ex_id x = i \<and> 1000 \<le> i \<and> i \<le> 99999) \<and>
    (dict_get (sm_quarantined s) owner = Some failed \<longrightarrow>
      exec_command owner now confirmed draws spawned s = (Some (Quarantined failed), s))"
proof -
  have "manager_ok n s" using shell_reachable_ok[OF assms] by blast
  then show ?thesis by (auto simp: manager_ok_def dict_get_Some_iff dict_ok_def exec_command_def)
qed

theorem shell_manager_bounded_witness:
  "exec_command ''o'' 9 True [1000] True (shell_step (Terminate_owner ''o'' (\<lambda>i. False))
     (shell_step (Exec ''o'' 3 True [1001] True) (new_manager 4))) =
   (Some (Quarantined [1001]), shell_step (Terminate_owner ''o'' (\<lambda>i. False)) (shell_step (Exec ''o'' 3 True [1001] True) (new_manager 4)))"
proof -
  define s where "s = shell_step (Terminate_owner ''o'' (\<lambda>i. False)) (shell_step (Exec ''o'' 3 True [1001] True) (new_manager 4))"
  have "shell_reachable 4 s" unfolding s_def by (intro shell_more shell_new) simp
  moreover have "dict_get (sm_quarantined s) ''o'' = Some [1001]" unfolding s_def by code_simp
  ultimately show ?thesis using shell_manager_bounded by (simp add: s_def)
qed

end
