(* ===== verification/Mobile_Store.thy ===== *)
theory Mobile_Store
  imports Roxy_Prelude
begin

text \<open>
  The database of the mobile gateway, src/infra/mobile_realtime/storage.py: server identity, pairing
  sessions, devices with their event cursors, the durable inbox of each device, connection epochs and
  session claims, and the inbox manager of inbox.py.

  A table is a dictionary over its primary key; the inbox is the list of its rows in the order of their
  insertion.  A method runs in one transaction: its result is an error, and the store is unchanged, or a
  value with the new store.  Instants are integers (microseconds); the database compares their ISO texts
  in UTC, which are ordered as the instants are.
\<close>

subsection \<open>Tables\<close>

datatype pairing_status = Pair_pending | Pair_confirmed | Pair_consumed | Pair_expired

record pairing =
  pa_id :: string
  pa_secret :: "string option"
  pa_expires :: int
  pa_status :: pairing_status

record device =
  dv_id :: string
  dv_key :: string
  dv_name :: string
  dv_created :: int
  dv_revoked :: "int option"
  dv_caps :: "string list"

record device_cursor =
  cu_next :: int
  cu_sent :: int
  cu_acked :: int

record inbox_event =
  ie_device :: string
  ie_seq :: int
  ie_id :: string
  ie_envelope :: string
  ie_created :: int

record server_identity =
  si_server :: string
  si_manifest :: string
  si_fingerprint :: string

record mobile_store =
  ms_identity :: "server_identity option"
  ms_pairings :: "(string, pairing) dict"
  ms_devices :: "(string, device) dict"
  ms_cursors :: "(string, device_cursor) dict"
  ms_inbox :: "inbox_event list"
  ms_epoch :: int
  ms_sessions :: "(string, string \<times> int) dict"

definition new_mobile_store :: mobile_store where
  "new_mobile_store = \<lparr>ms_identity = None, ms_pairings = [], ms_devices = [], ms_cursors = [], ms_inbox = [],
     ms_epoch = 0, ms_sessions = []\<rparr>"

text \<open>The exceptions; \<open>Integrity\<close> and \<open>Sql_overflow\<close> are those of the sqlite3 module for a violated
  constraint and for an integer that does not fit 64 bits, \<open>Bad_row\<close> the type check of a row that was read.\<close>

datatype mobile_error = Value_error | Identity_conflict | Unknown_pairing | Pairing_state | Pairing_expired
  | Unknown_device | Ack_rollback | Ack_overflow | Sent_cursor | Integrity | Sql_overflow | Bad_row | Cursor_conflict

definition sql_max :: int where
  "sql_max = 9223372036854775807"

definition max_rebase_ack :: int where
  "max_rebase_ack = 4611686018427387904"

subsection \<open>Identity, epochs and sessions\<close>

definition write_server_identity :: "server_identity \<Rightarrow> mobile_store \<Rightarrow> mobile_error + mobile_store" where
  "write_server_identity r s =
     (if si_server r = [] \<or> si_manifest r = [] \<or> si_fingerprint r = [] then Inl Value_error
      else case ms_identity s of
        None \<Rightarrow> Inr (s\<lparr>ms_identity := Some r\<rparr>)
      | Some old \<Rightarrow> if si_server old \<noteq> si_server r \<or> si_fingerprint old \<noteq> si_fingerprint r then Inl Identity_conflict
          else Inr (s\<lparr>ms_identity := Some (old\<lparr>si_manifest := si_manifest r\<rparr>)\<rparr>))"

definition allocate_connection_epoch :: "mobile_store \<Rightarrow> mobile_error + (int \<times> mobile_store)" where
  "allocate_connection_epoch s =
     (if ms_epoch s + 1 > sql_max then Inl Sql_overflow
      else Inr (ms_epoch s + 1, s\<lparr>ms_epoch := ms_epoch s + 1\<rparr>))"

definition claim_session :: "string \<Rightarrow> string \<Rightarrow> int \<Rightarrow> mobile_store \<Rightarrow> mobile_error + mobile_store" where
  "claim_session d session now s =
     (if d = [] \<or> session = [] then Inl Value_error
      else case dict_get (ms_devices s) d of
        None \<Rightarrow> Inl Unknown_device
      | Some _ \<Rightarrow> (case dict_get (ms_sessions s) session of
            Some _ \<Rightarrow> Inr s
          | None \<Rightarrow> Inr (s\<lparr>ms_sessions := dict_set (ms_sessions s) session (d, now)\<rparr>)))"

definition has_session_claim :: "string \<Rightarrow> mobile_store \<Rightarrow> mobile_error + bool" where
  "has_session_claim session s = (if session = [] then Inl Value_error else Inr (dict_get (ms_sessions s) session \<noteq> None))"

definition list_device_sessions :: "string \<Rightarrow> mobile_store \<Rightarrow> mobile_error + string list" where
  "list_device_sessions d s =
     (if d = [] then Inl Value_error
      else case dict_get (ms_devices s) d of
        None \<Rightarrow> Inl Unknown_device
      | Some _ \<Rightarrow> Inr (map fst (sort_key (\<lambda>(_, _, t). - t) (filter (\<lambda>(_, o', _). o' = d) (ms_sessions s)))))"

subsection \<open>Pairing sessions and devices\<close>

definition caps_ok :: "string list \<Rightarrow> bool" where
  "caps_ok cs \<longleftrightarrow> distinct cs \<and> [] \<notin> set cs"

text \<open>\<open>_device_from_row\<close>: of the columns only the name can be empty.\<close>

definition device_from_row :: "device \<Rightarrow> mobile_error + device" where
  "device_from_row d = (if dv_name d = [] then Inl Bad_row else Inr d)"

definition create_pairing_session :: "pairing \<Rightarrow> mobile_store \<Rightarrow> mobile_error + mobile_store" where
  "create_pairing_session p s =
     (if pa_status p \<noteq> Pair_pending then Inl Pairing_state
      else if pa_secret p = None \<or> pa_secret p = Some [] \<or> pa_id p = [] then Inl Value_error
      else if dict_get (ms_pairings s) (pa_id p) \<noteq> None then Inl Integrity
      else Inr (s\<lparr>ms_pairings := dict_set (ms_pairings s) (pa_id p) p\<rparr>))"

definition read_pairing_session :: "string \<Rightarrow> mobile_store \<Rightarrow> mobile_error + pairing option" where
  "read_pairing_session k s = (if k = [] then Inl Value_error else Inr (dict_get (ms_pairings s) k))"

definition confirm_pairing :: "string \<Rightarrow> int \<Rightarrow> mobile_store \<Rightarrow> mobile_error + (pairing \<times> mobile_store)" where
  "confirm_pairing k now s =
     (if k = [] then Inl Value_error
      else case dict_get (ms_pairings s) k of
        None \<Rightarrow> Inl Unknown_pairing
      | Some p \<Rightarrow> if pa_status p \<noteq> Pair_pending then Inl Pairing_state
          else if pa_expires p \<le> now then Inl Pairing_expired
          else let p' = p\<lparr>pa_status := Pair_confirmed\<rparr> in
            Inr (p', s\<lparr>ms_pairings := dict_set (ms_pairings s) k p'\<rparr>))"

definition insert_device :: "device \<Rightarrow> mobile_store \<Rightarrow> mobile_error + mobile_store" where
  "insert_device d s =
     (if dv_revoked d \<noteq> None \<or> \<not> caps_ok (dv_caps d) \<or> dv_id d = [] \<or> dv_key d = [] \<or> dv_name d = [] then Inl Value_error
      else if dict_get (ms_devices s) (dv_id d) \<noteq> None \<or> dict_get (ms_cursors s) (dv_id d) \<noteq> None \<or>
              dv_key d \<in> dv_key ` snd ` set (ms_devices s) then Inl Integrity
      else Inr (s\<lparr>ms_devices := dict_set (ms_devices s) (dv_id d) d,
                  ms_cursors := dict_set (ms_cursors s) (dv_id d) \<lparr>cu_next = 1, cu_sent = 0, cu_acked = 0\<rparr>\<rparr>))"

definition find_by_key :: "string \<Rightarrow> mobile_store \<Rightarrow> device option" where
  "find_by_key k s = find (\<lambda>d. dv_key d = k) (map snd (ms_devices s))"

text \<open>The device row of a consumed pairing: a new one, or the stored one of the same key.\<close>

definition pair_device :: "device \<Rightarrow> mobile_store \<Rightarrow> mobile_error + (device \<times> mobile_store)" where
  "pair_device d s = (case find_by_key (dv_key d) s of
     None \<Rightarrow> (case insert_device d s of Inl e \<Rightarrow> Inl e | Inr s' \<Rightarrow> Inr (d, s'))
   | Some row \<Rightarrow> (case device_from_row row of
       Inl e \<Rightarrow> Inl e
     | Inr old \<Rightarrow> if dv_revoked old \<noteq> None then Inl Pairing_state
         else if \<not> caps_ok (dv_caps d) then Inl Value_error
         else let d' = old\<lparr>dv_name := dv_name d, dv_caps := dv_caps d\<rparr> in
           Inr (d', s\<lparr>ms_devices := dict_set (ms_devices s) (dv_id old) d'\<rparr>)))"

definition consume_pairing :: "string \<Rightarrow> device \<Rightarrow> int \<Rightarrow> mobile_store \<Rightarrow> mobile_error + (device \<times> mobile_store)" where
  "consume_pairing k d now s =
     (if k = [] then Inl Value_error
      else case dict_get (ms_pairings s) k of
        None \<Rightarrow> Inl Unknown_pairing
      | Some p \<Rightarrow> if pa_status p \<noteq> Pair_confirmed then Inl Pairing_state
          else if pa_expires p \<le> now then Inl Pairing_expired
          else if dv_key d = [] then Inl Value_error
          else (case pair_device d s of
              Inl e \<Rightarrow> Inl e
            | Inr (d', s') \<Rightarrow> Inr (d', s'\<lparr>ms_pairings := dict_set (ms_pairings s') k
                (p\<lparr>pa_secret := None, pa_status := Pair_consumed\<rparr>)\<rparr>)))"

definition read_device :: "string \<Rightarrow> mobile_store \<Rightarrow> mobile_error + device option" where
  "read_device k s =
     (if k = [] then Inl Value_error
      else case dict_get (ms_devices s) k of
        None \<Rightarrow> Inr None
      | Some row \<Rightarrow> (case device_from_row row of Inl e \<Rightarrow> Inl e | Inr d \<Rightarrow> Inr (Some d)))"

definition update_device_capabilities :: "string \<Rightarrow> string list \<Rightarrow> mobile_store \<Rightarrow> mobile_error + mobile_store" where
  "update_device_capabilities k caps s =
     (if k = [] then Inl Value_error
      else case dict_get (ms_devices s) k of
        None \<Rightarrow> Inl Value_error
      | Some row \<Rightarrow> if \<not> caps_ok caps then Inl Value_error
          else Inr (s\<lparr>ms_devices := dict_set (ms_devices s) k (row\<lparr>dv_caps := caps\<rparr>)\<rparr>))"

definition revoke_device :: "string \<Rightarrow> int \<Rightarrow> mobile_store \<Rightarrow> mobile_error + (device \<times> mobile_store)" where
  "revoke_device k at_time s =
     (if k = [] then Inl Value_error
      else case dict_get (ms_devices s) k of
        None \<Rightarrow> Inl Unknown_device
      | Some row \<Rightarrow> (case device_from_row row of
          Inl e \<Rightarrow> Inl e
        | Inr old \<Rightarrow> let d = (if dv_revoked old = None then old\<lparr>dv_revoked := Some at_time\<rparr> else old) in
            Inr (d, s\<lparr>ms_devices := dict_set (ms_devices s) k d, ms_inbox := filter (\<lambda>e. ie_device e \<noteq> k) (ms_inbox s)\<rparr>)))"

definition list_active_devices :: "mobile_store \<Rightarrow> mobile_error + device list" where
  "list_active_devices s = (let rows = sort_key (\<lambda>d. (dv_created d, dv_id d)) (filter (\<lambda>d. dv_revoked d = None) (map snd (ms_devices s))) in
     if list_ex (\<lambda>d. dv_name d = []) rows then Inl Bad_row else Inr rows)"

subsection \<open>The durable inbox\<close>

definition read_cursor :: "string \<Rightarrow> mobile_store \<Rightarrow> mobile_error + device_cursor" where
  "read_cursor d s = (if d = [] then Inl Value_error else case dict_get (ms_cursors s) d of None \<Rightarrow> Inl Unknown_device | Some c \<Rightarrow> Inr c)"

text \<open>An \<open>INSERT\<close> into the inbox: the primary key and the unique pair of device and event id.\<close>

definition insert_event :: "inbox_event \<Rightarrow> mobile_store \<Rightarrow> mobile_error + mobile_store" where
  "insert_event e s =
     (if list_ex (\<lambda>r. ie_device r = ie_device e \<and> (ie_seq r = ie_seq e \<or> ie_id r = ie_id e)) (ms_inbox s) then Inl Integrity
      else Inr (s\<lparr>ms_inbox := ms_inbox s @ [e]\<rparr>))"

definition put_cursor :: "string \<Rightarrow> device_cursor \<Rightarrow> mobile_store \<Rightarrow> mobile_store" where
  "put_cursor d c s = s\<lparr>ms_cursors := dict_set (ms_cursors s) d c\<rparr>"

definition rebase_cursor :: "string \<Rightarrow> int \<Rightarrow> string \<Rightarrow> string \<Rightarrow> int \<Rightarrow> mobile_store \<Rightarrow> mobile_error + (inbox_event \<times> mobile_store)" where
  "rebase_cursor d through event_id envelope now s =
     (if d = [] \<or> event_id = [] \<or> envelope = [] \<or> \<not> (0 \<le> through \<and> through \<le> max_rebase_ack) then Inl Value_error
      else case dict_get (ms_cursors s) d of
        None \<Rightarrow> Inl Unknown_device
      | Some c \<Rightarrow> if through < cu_next c then Inl Value_error
          else let e = \<lparr>ie_device = d, ie_seq = through + 1, ie_id = event_id, ie_envelope = envelope, ie_created = now\<rparr> in
            (case insert_event e (s\<lparr>ms_inbox := filter (\<lambda>r. ie_device r \<noteq> d) (ms_inbox s)\<rparr>) of
               Inl err \<Rightarrow> Inl err
             | Inr s' \<Rightarrow> Inr (e, put_cursor d \<lparr>cu_next = through + 2, cu_sent = through, cu_acked = through\<rparr> s')))"

text \<open>\<open>append_durable_events\<close>: the sequence numbers of all devices are read first, then every row is
  inserted and its cursor advanced, all in one transaction.\<close>

fun allocate_events :: "string list \<Rightarrow> mobile_store \<Rightarrow> mobile_error + (string \<times> int) list" where
  "allocate_events [] s = Inr []"
| "allocate_events (d # ds) s = (case dict_get (ms_cursors s) d of
     None \<Rightarrow> Inl Unknown_device
   | Some c \<Rightarrow> (case allocate_events ds s of Inl e \<Rightarrow> Inl e | Inr rest \<Rightarrow> Inr ((d, cu_next c) # rest)))"

definition store_event :: "inbox_event \<Rightarrow> mobile_store \<Rightarrow> mobile_error + mobile_store" where
  "store_event e s = (case insert_event e s of
     Inl err \<Rightarrow> Inl err
   | Inr s' \<Rightarrow> if ie_seq e + 1 > sql_max then Inl Sql_overflow
       else (case dict_get (ms_cursors s') (ie_device e) of
           Some c \<Rightarrow> if cu_next c = ie_seq e then Inr (put_cursor (ie_device e) (c\<lparr>cu_next := ie_seq e + 1\<rparr>) s') else Inl Cursor_conflict
         | None \<Rightarrow> Inl Cursor_conflict))"

fun store_events :: "inbox_event list \<Rightarrow> mobile_store \<Rightarrow> mobile_error + mobile_store" where
  "store_events [] s = Inr s"
| "store_events (e # es) s = (case store_event e s of Inl err \<Rightarrow> Inl err | Inr s' \<Rightarrow> store_events es s')"

definition append_events :: "string list \<Rightarrow> string \<Rightarrow> string \<Rightarrow> int \<Rightarrow> mobile_store \<Rightarrow> mobile_error + (inbox_event list \<times> mobile_store)" where
  "append_events ds event_id envelope now s =
     (if [] \<in> set ds \<or> \<not> distinct ds \<or> event_id = [] \<or> envelope = [] then Inl Value_error
      else if ds = [] then Inr ([], s)
      else case allocate_events ds s of
        Inl err \<Rightarrow> Inl err
      | Inr al \<Rightarrow> let es = map (\<lambda>(d, n). \<lparr>ie_device = d, ie_seq = n, ie_id = event_id, ie_envelope = envelope, ie_created = now\<rparr>) al in
          (case store_events es s of Inl err \<Rightarrow> Inl err | Inr s' \<Rightarrow> Inr (es, s')))"

definition append_event :: "string \<Rightarrow> string \<Rightarrow> string \<Rightarrow> int \<Rightarrow> mobile_store \<Rightarrow> mobile_error + (inbox_event \<times> mobile_store)" where
  "append_event d event_id envelope now s = (case append_events [d] event_id envelope now s of
     Inl err \<Rightarrow> Inl err | Inr (es, s') \<Rightarrow> Inr (hd es, s'))"

definition inbox_of :: "string \<Rightarrow> mobile_store \<Rightarrow> inbox_event list" where
  "inbox_of d s = filter (\<lambda>e. ie_device e = d) (ms_inbox s)"

text \<open>\<open>is_object\<close>: the text of the envelope is a JSON object; a row with another text is refused.\<close>

definition read_events :: "(string \<Rightarrow> bool) \<Rightarrow> string \<Rightarrow> int \<Rightarrow> int \<Rightarrow> mobile_store \<Rightarrow> mobile_error + inbox_event list" where
  "read_events is_object d after limit s =
     (if after < 0 \<or> limit \<le> 0 \<or> d = [] then Inl Value_error
      else if dict_get (ms_cursors s) d = None then Inl Unknown_device
      else if after > sql_max \<or> limit > sql_max then Inl Sql_overflow
      else let rows = take (nat limit) (sort_key ie_seq (filter (\<lambda>e. ie_seq e > after) (inbox_of d s))) in
        if list_all (\<lambda>e. is_object (ie_envelope e)) rows then Inr rows else Inl Bad_row)"

definition range_contiguous :: "string \<Rightarrow> int \<Rightarrow> int \<Rightarrow> mobile_store \<Rightarrow> mobile_error + bool" where
  "range_contiguous d after through s =
     (if after < 0 \<or> through < after \<or> d = [] then Inl Value_error
      else if dict_get (ms_cursors s) d = None then Inl Unknown_device
      else if through > sql_max then Inl Sql_overflow
      else Inr (int (length (filter (\<lambda>e. after < ie_seq e \<and> ie_seq e \<le> through) (inbox_of d s))) = through - after))"

definition mark_events_sent :: "string \<Rightarrow> int \<Rightarrow> mobile_store \<Rightarrow> mobile_error + (device_cursor \<times> mobile_store)" where
  "mark_events_sent d through s =
     (if d = [] \<or> through < 0 then Inl Value_error
      else case dict_get (ms_cursors s) d of
        None \<Rightarrow> Inl Unknown_device
      | Some c \<Rightarrow> if through < cu_sent c \<or> through > cu_next c - 1 then Inl Sent_cursor
          else let c' = c\<lparr>cu_sent := through\<rparr> in
            Inr (c', if through > cu_sent c then put_cursor d c' s else s))"

record ack_advance =
  aa_previous :: int
  aa_acked :: int
  aa_deleted :: int

definition acknowledge_events :: "string \<Rightarrow> int \<Rightarrow> mobile_store \<Rightarrow> mobile_error + (ack_advance \<times> mobile_store)" where
  "acknowledge_events d through s =
     (if d = [] \<or> through < 0 then Inl Value_error
      else case dict_get (ms_cursors s) d of
        None \<Rightarrow> Inl Unknown_device
      | Some c \<Rightarrow> if through < cu_acked c then Inl Ack_rollback
          else if through > cu_sent c then Inl Ack_overflow
          else if through = cu_acked c then Inr (\<lparr>aa_previous = cu_acked c, aa_acked = through, aa_deleted = 0\<rparr>, s)
          else let gone = (\<lambda>e. ie_device e = d \<and> ie_seq e \<le> through) in
            Inr (\<lparr>aa_previous = cu_acked c, aa_acked = through, aa_deleted = int (length (filter gone (ms_inbox s)))\<rparr>,
              (put_cursor d (c\<lparr>cu_acked := through\<rparr>) s)\<lparr>ms_inbox := filter (\<lambda>e. \<not> gone e) (ms_inbox s)\<rparr>))"

definition has_unacked_before :: "string \<Rightarrow> int \<Rightarrow> mobile_store \<Rightarrow> mobile_error + bool" where
  "has_unacked_before d cutoff s =
     (if d = [] then Inl Value_error
      else if dict_get (ms_cursors s) d = None then Inl Unknown_device
      else Inr (list_ex (\<lambda>e. ie_created e < cutoff) (inbox_of d s)))"

definition count_events :: "string \<Rightarrow> mobile_store \<Rightarrow> mobile_error + int" where
  "count_events d s =
     (if d = [] then Inl Value_error
      else if dict_get (ms_cursors s) d = None then Inl Unknown_device
      else Inr (int (length (inbox_of d s))))"

text \<open>\<open>DurableInboxManager.replay\<close>; \<open>None\<close> asks the client to rebuild its projection.\<close>

definition replay_inbox :: "(string \<Rightarrow> bool) \<Rightarrow> int \<Rightarrow> int \<Rightarrow> string \<Rightarrow> int \<Rightarrow> int \<Rightarrow> mobile_store \<Rightarrow>
    mobile_error + (inbox_event list \<times> device_cursor) option" where
  "replay_inbox is_object retention now d after limit s = (case has_unacked_before d (now - retention) s of
     Inl err \<Rightarrow> Inl err
   | Inr True \<Rightarrow> Inr None
   | Inr False \<Rightarrow> (case read_events is_object d after limit s of
       Inl err \<Rightarrow> Inl err
     | Inr es \<Rightarrow> (case read_cursor d s of Inl err \<Rightarrow> Inl err | Inr c \<Rightarrow> Inr (Some (es, c)))))"

subsection \<open>Commands\<close>

datatype mobile_cmd =
    Write_identity server_identity | Next_epoch | Claim_session string string int
  | Create_pairing pairing | Confirm_pairing string int | Consume_pairing string device int
  | Register_device device | Set_capabilities string "string list" | Revoke_device string int
  | Append_events "string list" string string int | Rebase string int string string int
  | Mark_sent string int | Acknowledge string int

definition keep_on_error :: "mobile_store \<Rightarrow> mobile_error + 'a \<times> mobile_store \<Rightarrow> mobile_store" where
  "keep_on_error s r = (case r of Inl _ \<Rightarrow> s | Inr (_, s') \<Rightarrow> s')"

definition with_unit :: "mobile_error + mobile_store \<Rightarrow> mobile_error + unit \<times> mobile_store" where
  "with_unit r = map_sum id (\<lambda>s. ((), s)) r"

definition mobile_exec :: "mobile_cmd \<Rightarrow> mobile_store \<Rightarrow> mobile_store" where
  "mobile_exec c s = (case c of
     Write_identity r \<Rightarrow> keep_on_error s (with_unit (write_server_identity r s))
   | Next_epoch \<Rightarrow> keep_on_error s (allocate_connection_epoch s)
   | Claim_session d x t \<Rightarrow> keep_on_error s (with_unit (claim_session d x t s))
   | Create_pairing p \<Rightarrow> keep_on_error s (with_unit (create_pairing_session p s))
   | Confirm_pairing k t \<Rightarrow> keep_on_error s (confirm_pairing k t s)
   | Consume_pairing k d t \<Rightarrow> keep_on_error s (consume_pairing k d t s)
   | Register_device d \<Rightarrow> keep_on_error s (with_unit (insert_device d s))
   | Set_capabilities k cs \<Rightarrow> keep_on_error s (with_unit (update_device_capabilities k cs s))
   | Revoke_device k t \<Rightarrow> keep_on_error s (revoke_device k t s)
   | Append_events ds i e t \<Rightarrow> keep_on_error s (append_events ds i e t s)
   | Rebase d n i e t \<Rightarrow> keep_on_error s (rebase_cursor d n i e t s)
   | Mark_sent d n \<Rightarrow> keep_on_error s (mark_events_sent d n s)
   | Acknowledge d n \<Rightarrow> keep_on_error s (acknowledge_events d n s))"

inductive mobile_reachable :: "mobile_store \<Rightarrow> bool" where
  mobile_new: "mobile_reachable new_mobile_store"
| mobile_step: "mobile_reachable s \<Longrightarrow> mobile_reachable (mobile_exec c s)"

subsection \<open>The invariant of the store\<close>

definition live_device :: "mobile_store \<Rightarrow> string \<Rightarrow> bool" where
  "live_device s d = (case dict_get (ms_devices s) d of None \<Rightarrow> False | Some x \<Rightarrow> dv_revoked x = None)"

text \<open>The cursor of a device and its rows; the rows of a device that was not revoked have no gap.\<close>

definition box_ok :: "bool \<Rightarrow> device_cursor \<Rightarrow> inbox_event list \<Rightarrow> bool" where
  "box_ok alive c rows \<longleftrightarrow> 0 \<le> cu_acked c \<and> cu_acked c \<le> cu_sent c \<and> cu_sent c < cu_next c \<and> cu_next c \<le> sql_max \<and>
     sorted_wrt (<) (map ie_seq rows) \<and> (\<forall>e \<in> set rows. cu_acked c < ie_seq e \<and> ie_seq e < cu_next c) \<and>
     (alive \<longrightarrow> map ie_seq rows = [cu_acked c + 1..cu_next c - 1])"

text \<open>Devices are stored under their id, and no two have the same public key.\<close>

definition devices_ok :: "(string, device) dict \<Rightarrow> bool" where
  "devices_ok ds \<longleftrightarrow> dict_ok ds \<and> (\<forall>k d. dict_get ds k = Some d \<longrightarrow> dv_id d = k) \<and>
     (\<forall>k k' d d'. dict_get ds k = Some d \<longrightarrow> dict_get ds k' = Some d' \<longrightarrow> dv_key d = dv_key d' \<longrightarrow> k = k')"

definition tables_ok :: "mobile_store \<Rightarrow> bool" where
  "tables_ok s \<longleftrightarrow> dict_ok (ms_pairings s) \<and> devices_ok (ms_devices s) \<and> dict_ok (ms_cursors s) \<and> 0 \<le> ms_epoch s \<and>
     (\<forall>k p. dict_get (ms_pairings s) k = Some p \<longrightarrow> (pa_status p = Pair_consumed \<longleftrightarrow> pa_secret p = None)) \<and>
     (\<forall>k. dict_get (ms_devices s) k = None \<longleftrightarrow> dict_get (ms_cursors s) k = None) \<and>
     (\<forall>e \<in> set (ms_inbox s). dict_get (ms_cursors s) (ie_device e) \<noteq> None)"

definition mobile_ok :: "mobile_store \<Rightarrow> bool" where
  "mobile_ok s \<longleftrightarrow> tables_ok s \<and> (\<forall>d c. dict_get (ms_cursors s) d = Some c \<longrightarrow> box_ok (live_device s d) c (inbox_of d s))"

lemma inbox_of_frame [simp]:
  "inbox_of d (s\<lparr>ms_identity := a\<rparr>) = inbox_of d s" "inbox_of d (s\<lparr>ms_pairings := b\<rparr>) = inbox_of d s"
  "inbox_of d (s\<lparr>ms_devices := x\<rparr>) = inbox_of d s" "inbox_of d (s\<lparr>ms_cursors := y\<rparr>) = inbox_of d s"
  "inbox_of d (s\<lparr>ms_epoch := n\<rparr>) = inbox_of d s" "inbox_of d (s\<lparr>ms_sessions := z\<rparr>) = inbox_of d s"
  "inbox_of d (put_cursor k c s) = inbox_of d s"
  "inbox_of d (s\<lparr>ms_inbox := r @ [e]\<rparr>) = inbox_of d (s\<lparr>ms_inbox := r\<rparr>) @ (if ie_device e = d then [e] else [])"
  "inbox_of d (s\<lparr>ms_inbox := ms_inbox s\<rparr>) = inbox_of d s"
  by (simp_all add: inbox_of_def put_cursor_def)

lemma inbox_of_filter:
  "inbox_of d (s\<lparr>ms_inbox := filter P (ms_inbox s)\<rparr>) = filter P (inbox_of d s)"
  by (simp add: inbox_of_def conj_commute)

lemma live_frame [simp]:
  "live_device (s\<lparr>ms_identity := a\<rparr>) = live_device s" "live_device (s\<lparr>ms_pairings := b\<rparr>) = live_device s"
  "live_device (s\<lparr>ms_inbox := x\<rparr>) = live_device s" "live_device (s\<lparr>ms_cursors := y\<rparr>) = live_device s"
  "live_device (s\<lparr>ms_epoch := n\<rparr>) = live_device s" "live_device (s\<lparr>ms_sessions := z\<rparr>) = live_device s"
  "live_device (put_cursor k c s) = live_device s"
  by (simp_all add: live_device_def put_cursor_def fun_eq_iff)

lemma put_cursor_sel [simp]:
  "ms_cursors (put_cursor k c s) = dict_set (ms_cursors s) k c" "ms_inbox (put_cursor k c s) = ms_inbox s"
  "ms_devices (put_cursor k c s) = ms_devices s" "ms_pairings (put_cursor k c s) = ms_pairings s" "ms_epoch (put_cursor k c s) = ms_epoch s"
  by (simp_all add: put_cursor_def)

lemma mobile_okD:
  assumes "mobile_ok s"
  shows "tables_ok s" "dict_get (ms_cursors s) d = Some c \<Longrightarrow> box_ok (live_device s d) c (inbox_of d s)"
  using assms by (simp_all add: mobile_ok_def)

text \<open>What the operations do to one box.\<close>

lemma box_new: "box_ok True \<lparr>cu_next = 1, cu_sent = 0, cu_acked = 0\<rparr> []"
  by (simp add: box_ok_def sql_max_def)

lemma box_append:
  assumes "box_ok l c rows" "ie_seq e = cu_next c" "cu_next c + 1 \<le> sql_max"
  shows "box_ok l (c\<lparr>cu_next := cu_next c + 1\<rparr>) (rows @ [e])"
proof -
  have "[cu_acked c + 1..cu_next c] = [cu_acked c + 1..cu_next c - 1] @ [cu_next c]"
    using assms(1) by (intro upto_rec2) (simp add: box_ok_def)
  then show ?thesis using assms by (auto simp: box_ok_def sorted_wrt_append)
qed

lemma box_sent: "box_ok l c rows \<Longrightarrow> cu_sent c \<le> n \<Longrightarrow> n < cu_next c \<Longrightarrow> box_ok l (c\<lparr>cu_sent := n\<rparr>) rows"
  by (auto simp: box_ok_def)

lemma filter_upto: "a \<le> n \<Longrightarrow> filter (\<lambda>x. n < x) [a + 1..b] = [n + 1..b]" for a n b :: int
proof -
  assume a: "a \<le> n"
  show ?thesis
  proof (cases "n \<le> b")
    case True
    have "[a + 1..b] = [a + 1..n] @ [n + 1..b]"
      using a True upto_split2[of "a + 1" n b] by (cases "a = n") auto
    then show ?thesis by (simp add: filter_empty_conv filter_id_conv)
  next
    case False
    then show ?thesis by (simp add: filter_empty_conv)
  qed
qed

lemma box_ack:
  assumes "box_ok l c rows" "cu_acked c \<le> n" "n \<le> cu_sent c"
  shows "box_ok l (c\<lparr>cu_acked := n\<rparr>) (filter (\<lambda>e. n < ie_seq e) rows)"
proof -
  have "map ie_seq (filter (\<lambda>e. n < ie_seq e) rows) = filter (\<lambda>x. n < x) (map ie_seq rows)" by (simp add: filter_map o_def)
  then show ?thesis using assms by (auto simp: box_ok_def sorted_wrt_filter filter_upto)
qed

lemma box_rebase: "0 \<le> n \<Longrightarrow> n \<le> max_rebase_ack \<Longrightarrow> ie_seq e = n + 1 \<Longrightarrow> box_ok l \<lparr>cu_next = n + 2, cu_sent = n, cu_acked = n\<rparr> [e]"
  by (simp add: box_ok_def max_rebase_ack_def sql_max_def add.commute[of 1])

lemma box_revoke: "box_ok l c rows \<Longrightarrow> box_ok False c []"
  by (simp add: box_ok_def)

lemma box_dead: "box_ok l c rows \<Longrightarrow> box_ok False c rows"
  by (simp add: box_ok_def)

subsection \<open>Every operation keeps the invariant\<close>

lemma devices_ok_update:
  assumes "devices_ok ds" "dict_get ds k = Some row" "dv_id d = dv_id row" "dv_key d = dv_key row"
  shows "devices_ok (dict_set ds k d)"
proof -
  have origin: "\<exists>e'. dict_get ds x = Some e' \<and> dv_id e' = dv_id e \<and> dv_key e' = dv_key e" if "dict_get (dict_set ds k d) x = Some e" for x e
    using that assms(2-4) by (auto split: if_splits)
  have "dv_id e = x" if "dict_get (dict_set ds k d) x = Some e" for x e
    using origin[OF that] assms(1) by (auto simp: devices_ok_def)
  moreover have "x = y" if e: "dict_get (dict_set ds k d) x = Some e" "dict_get (dict_set ds k d) y = Some g" "dv_key e = dv_key g" for x y e g
  proof -
    obtain e' g' where "dict_get ds x = Some e'" "dict_get ds y = Some g'" "dv_key e' = dv_key g'"
      using origin[OF e(1)] origin[OF e(2)] e(3) by auto
    then show ?thesis using assms(1) unfolding devices_ok_def by blast
  qed
  moreover have "dict_ok (dict_set ds k d)" using assms(1) by (simp add: devices_ok_def)
  ultimately show ?thesis unfolding devices_ok_def by blast
qed

lemma devices_ok_insert:
  assumes "devices_ok ds" "dict_get ds (dv_id d) = None" "dv_key d \<notin> dv_key ` snd ` set ds"
  shows "devices_ok (dict_set ds (dv_id d) d)"
proof -
  have "dv_key d \<noteq> dv_key d'" if "dict_get ds k = Some d'" for k d'
    using assms(3) dict_get_SomeD[OF that] by (force simp: image_iff)
  then have new: "dict_get ds k = Some d' \<Longrightarrow> dv_key d' \<noteq> dv_key d" for k d' by metis
  have "k = k'" if "dict_get (dict_set ds (dv_id d) d) k = Some a" "dict_get (dict_set ds (dv_id d) d) k' = Some b" "dv_key a = dv_key b" for k k' a b
  proof (cases "k = dv_id d \<or> k' = dv_id d")
    case True
    then show ?thesis using that(1,3) that(2)[symmetric] new[of k a] new[of k' b] by (auto split: if_splits)
  next
    case False
    then show ?thesis using that assms(1) by (simp add: devices_ok_def)
  qed
  moreover have "dv_id a = k" if "dict_get (dict_set ds (dv_id d) d) k = Some a" for k a
    using that assms(1) unfolding devices_ok_def by (auto split: if_splits)
  moreover have "dict_ok (dict_set ds (dv_id d) d)" using assms(1) by (simp add: devices_ok_def)
  ultimately show ?thesis unfolding devices_ok_def by blast
qed

lemma mobile_ok_box:
  assumes "mobile_ok s" "dict_get (ms_cursors s) d = Some c" "s' = put_cursor d c' (s\<lparr>ms_inbox := r\<rparr>)"
    and "box_ok (live_device s d) c' (inbox_of d s')" "\<And>x. x \<noteq> d \<Longrightarrow> inbox_of x s' = inbox_of x s"
    and "\<And>e. e \<in> set r \<Longrightarrow> ie_device e = d \<or> e \<in> set (ms_inbox s)"
  shows "mobile_ok s'"
proof -
  have "\<forall>e \<in> set r. ie_device e = d \<or> dict_get (ms_cursors s) (ie_device e) \<noteq> None"
    using mobile_okD(1)[OF assms(1)] assms(6) unfolding tables_ok_def by blast
  then have "\<forall>e \<in> set r. dict_get (dict_set (ms_cursors s) d c') (ie_device e) \<noteq> None" by auto
  then have "tables_ok s'" using mobile_okD(1)[OF assms(1)] assms(2,3) by (simp add: tables_ok_def)
  moreover have "box_ok (live_device s' x) k (inbox_of x s')" if "dict_get (ms_cursors s') x = Some k" for x k
    using that assms(3,4,5) mobile_okD(2)[OF assms(1), of x] by (cases "x = d") simp_all
  ultimately show ?thesis by (simp add: mobile_ok_def)
qed

lemma mobile_ok_device:
  assumes "mobile_ok s" "dict_get (ms_devices s) k = Some row" "dv_id d = dv_id row" "dv_key d = dv_key row" "dv_revoked d = dv_revoked row"
  shows "mobile_ok (s\<lparr>ms_devices := dict_set (ms_devices s) k d\<rparr>)"
proof -
  have "live_device (s\<lparr>ms_devices := dict_set (ms_devices s) k d\<rparr>) x = live_device s x" for x
    using assms(2,5) by (simp add: live_device_def)
  moreover have "tables_ok (s\<lparr>ms_devices := dict_set (ms_devices s) k d\<rparr>)"
    using mobile_okD(1)[OF assms(1)] devices_ok_update[OF _ assms(2,3,4)] assms(2) by (force simp: tables_ok_def)
  ultimately show ?thesis using assms(1) by (simp add: mobile_ok_def)
qed

lemma mobile_ok_frame [simp]:
  "mobile_ok (s\<lparr>ms_identity := a\<rparr>) = mobile_ok s" "mobile_ok (s\<lparr>ms_sessions := z\<rparr>) = mobile_ok s"
  by (simp_all add: mobile_ok_def tables_ok_def)

lemma mobile_ok_pairing:
  assumes "mobile_ok s" "pa_status p = Pair_consumed \<longleftrightarrow> pa_secret p = None"
  shows "mobile_ok (s\<lparr>ms_pairings := dict_set (ms_pairings s) k p\<rparr>)"
  using assms by (simp add: mobile_ok_def tables_ok_def)

lemma mobile_ok_epoch: "mobile_ok s \<Longrightarrow> 0 \<le> n \<Longrightarrow> mobile_ok (s\<lparr>ms_epoch := n\<rparr>)"
  by (simp add: mobile_ok_def tables_ok_def)

lemma insert_device_ok:
  assumes "mobile_ok s" "insert_device d s = Inr s'"
  shows "mobile_ok s'"
proof -
  have s': "s' = s\<lparr>ms_devices := dict_set (ms_devices s) (dv_id d) d,
      ms_cursors := dict_set (ms_cursors s) (dv_id d) \<lparr>cu_next = 1, cu_sent = 0, cu_acked = 0\<rparr>\<rparr>"
    and new: "dict_get (ms_devices s) (dv_id d) = None" "dict_get (ms_cursors s) (dv_id d) = None" "dv_revoked d = None"
    and key: "dv_key d \<notin> dv_key ` snd ` set (ms_devices s)"
    using assms(2) by (auto simp: insert_device_def split: if_splits)
  have ok: "tables_ok s" by (rule mobile_okD(1)[OF assms(1)])
  then have "devices_ok (ms_devices s')" unfolding s' using devices_ok_insert[OF _ new(1) key] by (simp add: tables_ok_def)
  then have "tables_ok s'" using ok unfolding s' by (simp add: tables_ok_def)
  moreover have "box_ok (live_device s' x) c (inbox_of x s')" if x: "dict_get (ms_cursors s') x = Some c" for x c
  proof (cases "x = dv_id d")
    case True
    have "inbox_of x s = []" using ok new(2) True by (auto simp: inbox_of_def tables_ok_def filter_empty_conv)
    then show ?thesis using True x new(3) box_new by (simp add: s' live_device_def)
  next
    case False
    then show ?thesis using x mobile_okD(2)[OF assms(1), of x c] by (simp add: s' live_device_def)
  qed
  ultimately show ?thesis by (simp add: mobile_ok_def)
qed

lemma pair_device_ok:
  assumes "mobile_ok s" "pair_device d s = Inr (d', s')"
  shows "mobile_ok s'" "ms_pairings s' = ms_pairings s" "dict_get (ms_devices s') (dv_id d') = Some d'" "dv_key d' = dv_key d"
    "dv_revoked d' = None"
proof -
  have ok: "devices_ok (ms_devices s)" using mobile_okD(1)[OF assms(1)] by (simp add: tables_ok_def)
  have "mobile_ok s' \<and> ms_pairings s' = ms_pairings s \<and> dict_get (ms_devices s') (dv_id d') = Some d' \<and> dv_key d' = dv_key d \<and>
    dv_revoked d' = None"
  proof (cases "find_by_key (dv_key d) s")
    case None
    then have "insert_device d s = Inr s'" "d' = d" using assms(2) by (auto simp: pair_device_def split: sum.splits)
    then show ?thesis using insert_device_ok[OF assms(1)] by (auto simp: insert_device_def split: if_splits)
  next
    case (Some row)
    then have "row \<in> set (map snd (ms_devices s))" "dv_key row = dv_key d"
      unfolding find_by_key_def find_Some_iff by (metis nth_mem)+
    then obtain k where k: "dict_get (ms_devices s) k = Some row" using ok by (auto simp: devices_ok_def dict_get_Some_iff)
    then have id: "dv_id row = k" using ok by (simp add: devices_ok_def)
    have "d' = row\<lparr>dv_name := dv_name d, dv_caps := dv_caps d\<rparr>" "s' = s\<lparr>ms_devices := dict_set (ms_devices s) k d'\<rparr>" "dv_revoked row = None"
      using assms(2) Some id by (auto simp: pair_device_def device_from_row_def Let_def split: sum.splits if_splits)
    then show ?thesis using mobile_ok_device[OF assms(1) k, of d'] \<open>dv_key row = dv_key d\<close> id by simp
  qed
  then show "mobile_ok s'" "ms_pairings s' = ms_pairings s" "dict_get (ms_devices s') (dv_id d') = Some d'" "dv_key d' = dv_key d"
    "dv_revoked d' = None" by simp_all
qed

lemma consume_pairing_parts:
  assumes "consume_pairing k d now s = Inr (d', s')"
  shows "\<exists>p s1. dict_get (ms_pairings s) k = Some p \<and> pa_status p = Pair_confirmed \<and> now < pa_expires p \<and> pair_device d s = Inr (d', s1) \<and>
    s' = s1\<lparr>ms_pairings := dict_set (ms_pairings s1) k (p\<lparr>pa_secret := None, pa_status := Pair_consumed\<rparr>)\<rparr>"
  using assms by (auto simp: consume_pairing_def split: option.splits if_splits sum.splits)

lemma consume_pairing_ok:
  assumes "mobile_ok s" "consume_pairing k d now s = Inr (d', s')"
  shows "mobile_ok s'"
proof -
  obtain p s1 where p: "pair_device d s = Inr (d', s1)"
      "s' = s1\<lparr>ms_pairings := dict_set (ms_pairings s1) k (p\<lparr>pa_secret := None, pa_status := Pair_consumed\<rparr>)\<rparr>"
    using consume_pairing_parts[OF assms(2)] by blast
  then show ?thesis using mobile_ok_pairing[OF pair_device_ok(1)[OF assms(1) p(1)]] by simp
qed

lemma store_event_parts:
  assumes "store_event e s = Inr s'"
  shows "\<exists>c. dict_get (ms_cursors s) (ie_device e) = Some c \<and> cu_next c = ie_seq e \<and> cu_next c + 1 \<le> sql_max \<and>
    s' = put_cursor (ie_device e) (c\<lparr>cu_next := cu_next c + 1\<rparr>) (s\<lparr>ms_inbox := ms_inbox s @ [e]\<rparr>) \<and>
    (\<forall>r \<in> set (inbox_of (ie_device e) s). ie_id r \<noteq> ie_id e)"
  using assms by (auto simp: store_event_def insert_event_def inbox_of_def list_ex_iff split: if_splits option.splits)

lemma store_event_ok:
  assumes "mobile_ok s" "store_event e s = Inr s'"
  shows "mobile_ok s'"
proof -
  obtain c where c: "dict_get (ms_cursors s) (ie_device e) = Some c" "ie_seq e = cu_next c" "cu_next c + 1 \<le> sql_max"
      and s': "s' = put_cursor (ie_device e) (c\<lparr>cu_next := cu_next c + 1\<rparr>) (s\<lparr>ms_inbox := ms_inbox s @ [e]\<rparr>)"
    using store_event_parts[OF assms(2)] by metis
  show ?thesis
    by (rule mobile_ok_box[OF assms(1) c(1) s'])
      (use box_append[OF mobile_okD(2)[OF assms(1) c(1)] c(2,3)] in \<open>auto simp: s'\<close>)
qed

lemma store_events_ok: "mobile_ok s \<Longrightarrow> store_events es s = Inr s' \<Longrightarrow> mobile_ok s'"
  by (induction es arbitrary: s) (auto split: sum.splits dest: store_event_ok)

lemma append_events_parts:
  assumes "append_events ds event_id envelope now s = Inr (es, s')" "ds \<noteq> []"
  shows "\<exists>al. allocate_events ds s = Inr al \<and>
    es = map (\<lambda>(d, n). \<lparr>ie_device = d, ie_seq = n, ie_id = event_id, ie_envelope = envelope, ie_created = now\<rparr>) al \<and>
    store_events es s = Inr s'"
  using assms by (auto simp: append_events_def Let_def split: if_splits sum.splits)

lemma append_events_ok: "mobile_ok s \<Longrightarrow> append_events ds i e t s = Inr (es, s') \<Longrightarrow> mobile_ok s'"
  using append_events_parts[of ds i e t s es s'] store_events_ok
  by (cases "ds = []") (auto simp: append_events_def split: if_splits)

lemma rebase_parts:
  assumes "rebase_cursor d n i env t s = Inr (e, s')"
  shows "\<exists>c. dict_get (ms_cursors s) d = Some c \<and> 0 \<le> n \<and> n \<le> max_rebase_ack \<and> cu_next c \<le> n \<and>
    e = \<lparr>ie_device = d, ie_seq = n + 1, ie_id = i, ie_envelope = env, ie_created = t\<rparr> \<and>
    s' = put_cursor d \<lparr>cu_next = n + 2, cu_sent = n, cu_acked = n\<rparr> (s\<lparr>ms_inbox := filter (\<lambda>r. ie_device r \<noteq> d) (ms_inbox s) @ [e]\<rparr>)"
  using assms by (auto simp: rebase_cursor_def insert_event_def Let_def split: if_splits option.splits)

lemma inbox_of_others [simp]: "x \<noteq> d \<Longrightarrow> inbox_of x (s\<lparr>ms_inbox := filter (\<lambda>r. ie_device r \<noteq> d) (ms_inbox s)\<rparr>) = inbox_of x s"
  "inbox_of d (s\<lparr>ms_inbox := filter (\<lambda>r. ie_device r \<noteq> d) (ms_inbox s)\<rparr>) = []"
  by (auto simp: inbox_of_def intro: filter_cong)

lemma rebase_ok:
  assumes "mobile_ok s" "rebase_cursor d n i env t s = Inr (e, s')"
  shows "mobile_ok s'"
proof -
  obtain c where c: "dict_get (ms_cursors s) d = Some c" "0 \<le> n" "n \<le> max_rebase_ack"
      and e: "e = \<lparr>ie_device = d, ie_seq = n + 1, ie_id = i, ie_envelope = env, ie_created = t\<rparr>"
      and s': "s' = put_cursor d \<lparr>cu_next = n + 2, cu_sent = n, cu_acked = n\<rparr> (s\<lparr>ms_inbox := filter (\<lambda>r. ie_device r \<noteq> d) (ms_inbox s) @ [e]\<rparr>)"
    using rebase_parts[OF assms(2)] by metis
  show ?thesis
    by (rule mobile_ok_box[OF assms(1) c(1) s']) (use box_rebase[OF c(2,3)] in \<open>auto simp: s' e\<close>)
qed

lemma sent_ok:
  assumes "mobile_ok s" "mark_events_sent d n s = Inr (c', s')"
  shows "mobile_ok s'"
proof (cases "s' = s")
  case False
  then obtain c where c: "dict_get (ms_cursors s) d = Some c" "cu_sent c \<le> n" "n < cu_next c"
      and s': "s' = put_cursor d (c\<lparr>cu_sent := n\<rparr>) (s\<lparr>ms_inbox := ms_inbox s\<rparr>)"
    using assms(2) by (auto simp: mark_events_sent_def Let_def split: if_splits option.splits)
  show ?thesis by (rule mobile_ok_box[OF assms(1) c(1) s'])
      (use box_sent[OF mobile_okD(2)[OF assms(1) c(1)] c(2,3)] in \<open>auto simp: s'\<close>)
qed (use assms in simp)

lemma ack_parts:
  assumes "acknowledge_events d n s = Inr (a, s')"
  shows "s' = s \<or> (\<exists>c. dict_get (ms_cursors s) d = Some c \<and> cu_acked c < n \<and> n \<le> cu_sent c \<and>
    s' = put_cursor d (c\<lparr>cu_acked := n\<rparr>) (s\<lparr>ms_inbox := filter (\<lambda>e. \<not> (ie_device e = d \<and> ie_seq e \<le> n)) (ms_inbox s)\<rparr>))"
  using assms by (auto simp: acknowledge_events_def put_cursor_def Let_def split: if_splits option.splits)

lemma inbox_of_ack:
  "inbox_of x (s\<lparr>ms_inbox := filter (\<lambda>e. \<not> (ie_device e = d \<and> ie_seq e \<le> n)) (ms_inbox s)\<rparr>) =
     (if x = d then filter (\<lambda>e. n < ie_seq e) (inbox_of d s) else inbox_of x s)"
  unfolding inbox_of_def by (auto intro: filter_cong)

lemma ack_ok:
  assumes "mobile_ok s" "acknowledge_events d n s = Inr (a, s')"
  shows "mobile_ok s'"
proof (cases "s' = s")
  case False
  then obtain c where c: "dict_get (ms_cursors s) d = Some c" "cu_acked c \<le> n" "n \<le> cu_sent c"
      and s': "s' = put_cursor d (c\<lparr>cu_acked := n\<rparr>) (s\<lparr>ms_inbox := filter (\<lambda>e. \<not> (ie_device e = d \<and> ie_seq e \<le> n)) (ms_inbox s)\<rparr>)"
    using ack_parts[OF assms(2)] by force
  have box: "inbox_of x s' = (if x = d then filter (\<lambda>e. n < ie_seq e) (inbox_of d s) else inbox_of x s)" for x
    unfolding s' by (simp only: inbox_of_frame inbox_of_ack)
  show ?thesis by (rule mobile_ok_box[OF assms(1) c(1) s'])
      (use box_ack[OF mobile_okD(2)[OF assms(1) c(1)] c(2,3)] in \<open>auto simp: box\<close>)
qed (use assms in simp)

lemma revoke_ok:
  assumes "mobile_ok s" "revoke_device k t s = Inr (d, s')"
  shows "mobile_ok s'"
proof -
  obtain row where row: "dict_get (ms_devices s) k = Some row" and d: "dv_id d = dv_id row" "dv_key d = dv_key row" "dv_revoked d \<noteq> None"
      and s': "s' = s\<lparr>ms_devices := dict_set (ms_devices s) k d, ms_inbox := filter (\<lambda>e. ie_device e \<noteq> k) (ms_inbox s)\<rparr>"
    using assms(2) by (auto simp: revoke_device_def device_from_row_def Let_def split: if_splits option.splits)
  have ok: "tables_ok s" by (rule mobile_okD(1)[OF assms(1)])
  have "devices_ok (dict_set (ms_devices s) k d)" using ok row d devices_ok_update by (simp add: tables_ok_def)
  then have "tables_ok s'" using ok row unfolding s' by (force simp: tables_ok_def)
  moreover have "box_ok (live_device s' x) c (inbox_of x s')" if "dict_get (ms_cursors s') x = Some c" for x c
  proof -
    have box: "inbox_of x s' = (if x = k then [] else inbox_of x s)" by (auto simp: s' inbox_of_def intro: filter_cong)
    have live: "live_device s' x = (x \<noteq> k \<and> live_device s x)" using d(3) by (simp add: s' live_device_def)
    have "dict_get (ms_cursors s) x = Some c" using that by (simp add: s')
    note ok = mobile_okD(2)[OF assms(1) this]
    show ?thesis unfolding box live using ok box_revoke[OF ok] by (cases "x = k") simp_all
  qed
  ultimately show ?thesis by (simp add: mobile_ok_def)
qed

lemma keep_ok: "mobile_ok s \<Longrightarrow> (\<And>a s'. r = Inr (a, s') \<Longrightarrow> mobile_ok s') \<Longrightarrow> mobile_ok (keep_on_error s r)"
  by (auto simp: keep_on_error_def split: sum.split)

lemma with_unit_Inr [simp]: "with_unit r = Inr (a, s') \<longleftrightarrow> r = Inr s'"
  by (cases r) (auto simp: with_unit_def)

lemma mobile_exec_ok:
  assumes "mobile_ok s"
  shows "mobile_ok (mobile_exec c s)"
proof (cases c)
  case (Write_identity r)
  show ?thesis unfolding Write_identity mobile_exec_def
    by (auto intro!: keep_ok assms simp: write_server_identity_def assms split: if_splits option.splits)
next
  case Next_epoch
  show ?thesis unfolding Next_epoch mobile_exec_def using mobile_okD(1)[OF assms]
    by (auto intro!: keep_ok mobile_ok_epoch assms simp: allocate_connection_epoch_def tables_ok_def split: if_splits)
next
  case (Claim_session d x t)
  show ?thesis unfolding Claim_session mobile_exec_def
    by (auto intro!: keep_ok assms simp: claim_session_def assms split: if_splits option.splits)
next
  case (Create_pairing p)
  show ?thesis unfolding Create_pairing mobile_exec_def
    by (auto intro!: keep_ok mobile_ok_pairing assms simp: create_pairing_session_def split: if_splits)
next
  case (Confirm_pairing k t)
  have "pa_secret p \<noteq> None" if "dict_get (ms_pairings s) k = Some p" "pa_status p = Pair_pending" for p
    using mobile_okD(1)[OF assms] that unfolding tables_ok_def by (metis pairing_status.distinct(3))
  then show ?thesis unfolding Confirm_pairing mobile_exec_def
    by (auto intro!: keep_ok mobile_ok_pairing assms simp: confirm_pairing_def Let_def split: if_splits option.splits)
next
  case (Consume_pairing k d t)
  show ?thesis unfolding Consume_pairing mobile_exec_def by (auto intro!: keep_ok assms dest: consume_pairing_ok[OF assms])
next
  case (Register_device d)
  show ?thesis unfolding Register_device mobile_exec_def by (auto intro!: keep_ok assms dest: insert_device_ok[OF assms])
next
  case (Set_capabilities k cs)
  show ?thesis unfolding Set_capabilities mobile_exec_def
    by (auto intro!: keep_ok assms mobile_ok_device[OF assms] simp: update_device_capabilities_def split: if_splits option.splits)
next
  case (Revoke_device k t)
  show ?thesis unfolding Revoke_device mobile_exec_def by (auto intro!: keep_ok assms dest: revoke_ok[OF assms])
next
  case (Append_events ds i e t)
  show ?thesis unfolding Append_events mobile_exec_def by (auto intro!: keep_ok assms dest: append_events_ok[OF assms])
next
  case (Rebase d n i e t)
  show ?thesis unfolding Rebase mobile_exec_def by (auto intro!: keep_ok assms dest: rebase_ok[OF assms])
next
  case (Mark_sent d n)
  show ?thesis unfolding Mark_sent mobile_exec_def by (auto intro!: keep_ok assms dest: sent_ok[OF assms])
next
  case (Acknowledge d n)
  show ?thesis unfolding Acknowledge mobile_exec_def by (auto intro!: keep_ok assms dest: ack_ok[OF assms])
qed

lemma mobile_reachable_ok: "mobile_reachable s \<Longrightarrow> mobile_ok s"
  by (induction rule: mobile_reachable.induct)
    (simp_all add: mobile_exec_ok, simp add: new_mobile_store_def mobile_ok_def tables_ok_def devices_ok_def)

subsection \<open>The inbox of a device is a numbered log\<close>

text \<open>What a device sees of the store: the number acknowledged, the number sent and the pending events.\<close>

record event_log =
  el_acked :: int
  el_sent :: int
  el_events :: "inbox_event list"

definition log_of :: "mobile_store \<Rightarrow> string \<Rightarrow> event_log option" where
  "log_of s d = map_option (\<lambda>c. \<lparr>el_acked = cu_acked c, el_sent = cu_sent c, el_events = inbox_of d s\<rparr>) (dict_get (ms_cursors s) d)"

definition log_last :: "event_log \<Rightarrow> int" where
  "log_last l = el_acked l + int (length (el_events l))"

definition log_append :: "string \<Rightarrow> string \<Rightarrow> string \<Rightarrow> int \<Rightarrow> event_log \<Rightarrow> mobile_error + (inbox_event \<times> event_log)" where
  "log_append d i env t l =
     (if i = [] \<or> env = [] then Inl Value_error
      else if i \<in> ie_id ` set (el_events l) then Inl Integrity
      else if log_last l + 2 > sql_max then Inl Sql_overflow
      else let e = \<lparr>ie_device = d, ie_seq = log_last l + 1, ie_id = i, ie_envelope = env, ie_created = t\<rparr> in
        Inr (e, l\<lparr>el_events := el_events l @ [e]\<rparr>))"

definition log_sent :: "int \<Rightarrow> event_log \<Rightarrow> mobile_error + event_log" where
  "log_sent n l = (if n < 0 then Inl Value_error else if n < el_sent l \<or> log_last l < n then Inl Sent_cursor else Inr (l\<lparr>el_sent := n\<rparr>))"

definition log_ack :: "int \<Rightarrow> event_log \<Rightarrow> mobile_error + (int \<times> event_log)" where
  "log_ack n l = (if n < 0 then Inl Value_error else if n < el_acked l then Inl Ack_rollback else if el_sent l < n then Inl Ack_overflow
     else Inr (n - el_acked l, l\<lparr>el_acked := n, el_events := drop (nat (n - el_acked l)) (el_events l)\<rparr>))"

definition log_read :: "int \<Rightarrow> int \<Rightarrow> event_log \<Rightarrow> inbox_event list" where
  "log_read after limit l = take (nat limit) (drop (nat (after - el_acked l)) (el_events l))"

definition log_rebase :: "string \<Rightarrow> int \<Rightarrow> string \<Rightarrow> string \<Rightarrow> int \<Rightarrow> event_log \<Rightarrow> mobile_error + (inbox_event \<times> event_log)" where
  "log_rebase d n i env t l =
     (if i = [] \<or> env = [] \<or> n < 0 \<or> max_rebase_ack < n \<or> n \<le> log_last l then Inl Value_error
      else let e = \<lparr>ie_device = d, ie_seq = n + 1, ie_id = i, ie_envelope = env, ie_created = t\<rparr> in
        Inr (e, \<lparr>el_acked = n, el_sent = n, el_events = [e]\<rparr>))"

definition log_page :: "(string \<Rightarrow> bool) \<Rightarrow> int \<Rightarrow> int \<Rightarrow> event_log \<Rightarrow> mobile_error + inbox_event list" where
  "log_page obj after limit l =
     (if after < 0 \<or> limit \<le> 0 then Inl Value_error
      else if after > sql_max \<or> limit > sql_max then Inl Sql_overflow
      else if \<forall>e \<in> set (log_read after limit l). obj (ie_envelope e) then Inr (log_read after limit l) else Inl Bad_row)"

text \<open>A range is complete when it is empty or lies within the pending numbers.\<close>

definition log_contiguous :: "int \<Rightarrow> int \<Rightarrow> event_log \<Rightarrow> mobile_error + bool" where
  "log_contiguous after through l =
     (if after < 0 \<or> through < after then Inl Value_error
      else if through > sql_max then Inl Sql_overflow
      else Inr (through = after \<or> el_acked l \<le> after \<and> through \<le> log_last l))"

text \<open>One event for several devices: all of them are known, then their logs are appended to in turn.\<close>

fun log_append_each :: "string list \<Rightarrow> string \<Rightarrow> string \<Rightarrow> int \<Rightarrow> (string \<Rightarrow> event_log option) \<Rightarrow>
    mobile_error + (inbox_event list \<times> (string \<Rightarrow> event_log option))" where
  "log_append_each [] i env t m = Inr ([], m)"
| "log_append_each (d # ds) i env t m = (case log_append d i env t (the (m d)) of Inl err \<Rightarrow> Inl err
     | Inr (e, l) \<Rightarrow> (case log_append_each ds i env t (m(d \<mapsto> l)) of Inl err \<Rightarrow> Inl err
         | Inr (es, m') \<Rightarrow> Inr (e # es, m')))"

definition log_append_all :: "string list \<Rightarrow> string \<Rightarrow> string \<Rightarrow> int \<Rightarrow> (string \<Rightarrow> event_log option) \<Rightarrow>
    mobile_error + (inbox_event list \<times> (string \<Rightarrow> event_log option))" where
  "log_append_all ds i env t m =
     (if [] \<in> set ds \<or> \<not> distinct ds \<or> i = [] \<or> env = [] then Inl Value_error
      else if \<exists>d \<in> set ds. m d = None then Inl Unknown_device
      else log_append_each ds i env t m)"

lemma filter_contiguous:
  "map f xs = [a + 1..b] \<Longrightarrow> a \<le> n \<Longrightarrow> filter (\<lambda>x. n < f x) xs = drop (nat (n - a)) xs" for a n b :: int
proof (induction xs arbitrary: a)
  case (Cons x xs)
  have ab: "a + 1 \<le> b" using Cons.prems(1) by (metis list.distinct(1) list.simps(9) upto_Nil2 not_le)
  then have x: "f x = a + 1" "map f xs = [(a + 1) + 1..b]" using Cons.prems(1) by (simp_all add: upto_rec1)
  show ?case
  proof (cases "a = n")
    case True
    have "n < f y" if "y \<in> set xs" for y
    proof -
      have "f y \<in> set [(a + 1) + 1..b]" using that by (metis x(2) image_eqI set_map)
      then show ?thesis using True by simp
    qed
    then show ?thesis using True x(1) by simp
  next
    case False
    then have "nat (n - a) = Suc (nat (n - (a + 1)))" "\<not> n < f x" using Cons.prems(2) x(1) by simp_all
    then show ?thesis using Cons.IH[OF x(2)] False Cons.prems(2) by simp
  qed
qed simp

lemma live_log:
  assumes "mobile_ok s" "live_device s d" "log_of s d = Some l"
  shows "map ie_seq (el_events l) = [el_acked l + 1..log_last l]" "0 \<le> el_acked l" "el_acked l \<le> el_sent l" "el_sent l \<le> log_last l"
    "dict_get (ms_cursors s) d = Some \<lparr>cu_next = log_last l + 1, cu_sent = el_sent l, cu_acked = el_acked l\<rparr>" "el_events l = inbox_of d s"
    "log_last l + 1 \<le> sql_max"
proof -
  obtain c where c: "dict_get (ms_cursors s) d = Some c" and l: "l = \<lparr>el_acked = cu_acked c, el_sent = cu_sent c, el_events = inbox_of d s\<rparr>"
    using assms(3) by (auto simp: log_of_def)
  have b: "box_ok True c (inbox_of d s)" using mobile_okD(2)[OF assms(1) c] assms(2) by simp
  then have m: "map ie_seq (inbox_of d s) = [cu_acked c + 1..cu_next c - 1]" by (simp add: box_ok_def)
  have "length (inbox_of d s) = nat (cu_next c - 1 - cu_acked c)" using arg_cong[OF m, of length] by simp
  then have n: "log_last l = cu_next c - 1" using b by (simp add: l log_last_def box_ok_def)
  then show "map ie_seq (el_events l) = [el_acked l + 1..log_last l]" using m by (simp add: l)
  show "0 \<le> el_acked l" "el_acked l \<le> el_sent l" "el_sent l \<le> log_last l" "el_events l = inbox_of d s" "log_last l + 1 \<le> sql_max"
    using b n by (simp_all add: box_ok_def l)
  show "dict_get (ms_cursors s) d = Some \<lparr>cu_next = log_last l + 1, cu_sent = el_sent l, cu_acked = el_acked l\<rparr>"
    using c n by (simp add: l)
qed

definition log_result :: "('a \<Rightarrow> 'b) \<Rightarrow> string \<Rightarrow> mobile_error + ('a \<times> mobile_store) \<Rightarrow> mobile_error + ('b \<times> event_log option)" where
  "log_result f d r = map_sum id (\<lambda>(a, s'). (f a, log_of s' d)) r"

lemma log_of_put:
  "log_of (put_cursor d c (s\<lparr>ms_inbox := r\<rparr>)) d =
     Some \<lparr>el_acked = cu_acked c, el_sent = cu_sent c, el_events = inbox_of d (s\<lparr>ms_inbox := r\<rparr>)\<rparr>"
  by (simp add: log_of_def)

lemma append_refines:
  assumes "mobile_ok s" "live_device s d" "log_of s d = Some l" "d \<noteq> []"
  shows "log_result id d (append_event d i env t s) = map_sum id (\<lambda>(e, l'). (e, Some l')) (log_append d i env t l)"
proof -
  note l = live_log[OF assms(1-3)]
  define e where "e = \<lparr>ie_device = d, ie_seq = log_last l + 1, ie_id = i, ie_envelope = env, ie_created = t\<rparr>"
  define s1 where "s1 = s\<lparr>ms_inbox := ms_inbox s @ [e]\<rparr>"
  have dup: "list_ex (\<lambda>r. ie_device r = ie_device e \<and> (ie_seq r = ie_seq e \<or> ie_id r = ie_id e)) (ms_inbox s) \<longleftrightarrow> i \<in> ie_id ` set (el_events l)"
  proof -
    have "ie_seq r \<noteq> log_last l + 1" if "r \<in> set (inbox_of d s)" for r
    proof -
      have "ie_seq r \<in> set [el_acked l + 1..log_last l]" using that l(1,6) by (metis image_eqI set_map)
      then show ?thesis by simp
    qed
    then show ?thesis unfolding l(6) by (auto simp: list_ex_iff e_def inbox_of_def)
  qed
  have store: "store_event e s = (if i \<in> ie_id ` set (el_events l) then Inl Integrity else if log_last l + 2 > sql_max then Inl Sql_overflow
      else Inr (put_cursor d \<lparr>cu_next = log_last l + 2, cu_sent = el_sent l, cu_acked = el_acked l\<rparr> s1))"
    unfolding store_event_def insert_event_def dup using l(5) by (simp add: e_def s1_def add.commute)
  have "append_event d i env t s = (if i = [] \<or> env = [] then Inl Value_error
      else case store_event e s of Inl err \<Rightarrow> Inl err | Inr s' \<Rightarrow> Inr (e, s'))"
    using assms(4) l(5) by (simp add: append_event_def append_events_def e_def split: sum.split)
  moreover have "log_of (put_cursor d \<lparr>cu_next = log_last l + 2, cu_sent = el_sent l, cu_acked = el_acked l\<rparr> s1) d = Some (l\<lparr>el_events := el_events l @ [e]\<rparr>)"
    unfolding s1_def log_of_put using l(6) by (simp add: e_def)
  ultimately show ?thesis unfolding log_result_def log_append_def Let_def e_def[symmetric] by (simp add: store)
qed

lemma sent_refines:
  assumes "mobile_ok s" "live_device s d" "log_of s d = Some l" "d \<noteq> []"
  shows "log_result (\<lambda>_. ()) d (mark_events_sent d n s) = map_sum id (\<lambda>l'. ((), Some l')) (log_sent n l)"
proof -
  note l = live_log[OF assms(1-3)]
  have "log_of (put_cursor d (\<lparr>cu_next = log_last l + 1, cu_sent = n, cu_acked = el_acked l\<rparr>) s) d = Some (l\<lparr>el_sent := n\<rparr>)"
    using log_of_put[where r = "ms_inbox s" and s = s] l(6) by simp
  moreover have "log_of s d = Some (l\<lparr>el_sent := n\<rparr>)" if "\<not> n < el_sent l" "\<not> el_sent l < n" using that assms(3) by simp
  ultimately show ?thesis using assms(4) l(5)
    by (auto simp: mark_events_sent_def log_sent_def log_result_def Let_def)
qed

lemma ack_refines:
  assumes "mobile_ok s" "live_device s d" "log_of s d = Some l" "d \<noteq> []"
  shows "log_result aa_deleted d (acknowledge_events d n s) = map_sum id (\<lambda>(k, l'). (k, Some l')) (log_ack n l)"
proof -
  note l = live_log[OF assms(1-3)]
  define gone where "gone = (\<lambda>e::inbox_event. ie_device e = d \<and> ie_seq e \<le> n)"
  define s1 where "s1 = (put_cursor d \<lparr>cu_next = log_last l + 1, cu_sent = el_sent l, cu_acked = n\<rparr> s)\<lparr>ms_inbox := filter (\<lambda>e. \<not> gone e) (ms_inbox s)\<rparr>"
  have kept: "filter (\<lambda>e. n < ie_seq e) (el_events l) = drop (nat (n - el_acked l)) (el_events l)" if "el_acked l \<le> n"
    using filter_contiguous[OF l(1) that] .
  have log: "log_of s1 d = Some (l\<lparr>el_acked := n, el_events := filter (\<lambda>e. n < ie_seq e) (el_events l)\<rparr>)"
    using inbox_of_ack[where x = d and d = d and n = n and s = s] by (simp add: s1_def log_of_def gone_def inbox_of_def l(6))
  have count: "int (length (filter gone (ms_inbox s))) = n - el_acked l" if "el_acked l \<le> n" "n \<le> el_sent l"
  proof -
    have "filter gone (ms_inbox s) = filter (\<lambda>e. \<not> n < ie_seq e) (el_events l)" by (auto simp: l(6) inbox_of_def gone_def intro: filter_cong)
    moreover have "length (filter (\<lambda>e. \<not> n < ie_seq e) (el_events l)) + length (filter (\<lambda>e. n < ie_seq e) (el_events l)) = length (el_events l)"
      using sum_length_filter_compl[of "\<lambda>e. n < ie_seq e" "el_events l"] by simp
    moreover have "int (length (drop (nat (n - el_acked l)) (el_events l))) = log_last l - n"
      using that l(4) by (simp add: log_last_def)
    ultimately show ?thesis using kept[OF that(1)] by (simp add: log_last_def)
  qed
  consider (negative) "n < 0" | (behind) "0 \<le> n" "n < el_acked l" | (over) "el_acked l \<le> n" "el_sent l < n" | (same) "n = el_acked l" "\<not> el_sent l < n"
    | (move) "el_acked l < n" "n \<le> el_sent l" by linarith
  then show ?thesis
  proof cases
    case move
    have "acknowledge_events d n s = Inr (\<lparr>aa_previous = el_acked l, aa_acked = n, aa_deleted = int (length (filter gone (ms_inbox s)))\<rparr>, s1)"
      using assms(4) l(2,5) move by (simp add: acknowledge_events_def Let_def gone_def s1_def)
    then show ?thesis using move count kept log l(2) by (simp add: log_result_def log_ack_def)
  qed (use assms(3,4) l(2,5) in \<open>simp_all add: acknowledge_events_def log_ack_def log_result_def\<close>)
qed

lemma rebase_refines:
  assumes "mobile_ok s" "live_device s d" "log_of s d = Some l" "d \<noteq> []"
  shows "log_result id d (rebase_cursor d n i env t s) = map_sum id (\<lambda>(e, l'). (e, Some l')) (log_rebase d n i env t l)"
proof -
  note l = live_log[OF assms(1-3)]
  define e where "e = \<lparr>ie_device = d, ie_seq = n + 1, ie_id = i, ie_envelope = env, ie_created = t\<rparr>"
  define s1 where "s1 = put_cursor d \<lparr>cu_next = n + 2, cu_sent = n, cu_acked = n\<rparr> (s\<lparr>ms_inbox := filter (\<lambda>r. ie_device r \<noteq> d) (ms_inbox s) @ [e]\<rparr>)"
  have "rebase_cursor d n i env t s = (if i = [] \<or> env = [] \<or> n < 0 \<or> max_rebase_ack < n \<or> n \<le> log_last l then Inl Value_error else Inr (e, s1))"
    using assms(4) l(5) by (auto simp: rebase_cursor_def insert_event_def list_ex_iff Let_def e_def s1_def)
  moreover have "log_of s1 d = Some \<lparr>el_acked = n, el_sent = n, el_events = [e]\<rparr>"
    unfolding s1_def log_of_put by (simp add: e_def)
  ultimately show ?thesis by (simp add: log_result_def log_rebase_def e_def Let_def)
qed

lemma sorted_events: "mobile_ok s \<Longrightarrow> dict_get (ms_cursors s) d = Some c \<Longrightarrow> sorted (map ie_seq (inbox_of d s))"
  using mobile_okD(2)[of s d c] by (simp add: box_ok_def strict_sorted_iff)

lemma read_refines:
  assumes "mobile_ok s" "live_device s d" "log_of s d = Some l" "d \<noteq> []"
  shows "read_events obj d after limit s = log_page obj after limit l"
proof -
  note l = live_log[OF assms(1-3)]
  have "filter (\<lambda>e. after < ie_seq e) (el_events l) = drop (nat (after - el_acked l)) (el_events l)"
  proof (cases "el_acked l \<le> after")
    case False
    have "after < ie_seq e" if "e \<in> set (el_events l)" for e
    proof -
      have "ie_seq e \<in> set [el_acked l + 1..log_last l]" using that l(1) by (metis image_eqI set_map)
      then show ?thesis using False by simp
    qed
    then show ?thesis using False by (simp add: filter_id_conv)
  qed (use filter_contiguous[OF l(1)] in simp)
  moreover have "sorted (map ie_seq (filter (\<lambda>e. after < ie_seq e) (el_events l)))"
    using sorted_events[OF assms(1) l(5)] unfolding l(6) by (simp add: sorted_filter)
  ultimately have "take (nat limit) (sort_key ie_seq (filter (\<lambda>e. after < ie_seq e) (inbox_of d s))) = log_read after limit l"
    by (simp add: log_read_def sort_key_id_if_sorted l(6)[symmetric])
  then show ?thesis using assms(4) l(5) by (simp add: read_events_def log_page_def Let_def list_all_iff)
qed

lemma count_between:
  "map f xs = [a + 1..b] \<Longrightarrow> a \<le> b \<Longrightarrow> 0 \<le> m \<Longrightarrow> m \<le> n \<Longrightarrow>
     int (length (filter (\<lambda>x. m < f x \<and> f x \<le> n) xs)) = n - m \<longleftrightarrow> n = m \<or> a \<le> m \<and> n \<le> b" for a b m n :: int
proof -
  assume m: "map f xs = [a + 1..b]" "a \<le> b" "0 \<le> m" "m \<le> n"
  have "length (filter (\<lambda>x. m < f x \<and> f x \<le> n) xs) = length (filter (\<lambda>k. m < k \<and> k \<le> n) (map f xs))"
    by (simp add: filter_map comp_def)
  then have "length (filter (\<lambda>x. m < f x \<and> f x \<le> n) xs) = length (filter (\<lambda>k. m < k \<and> k \<le> n) [a + 1..b])"
    unfolding m(1) .
  also have "\<dots> = card (set (filter (\<lambda>k. m < k \<and> k \<le> n) [a + 1..b]))"
    by (rule distinct_card[symmetric]) simp
  also have "set (filter (\<lambda>k. m < k \<and> k \<le> n) [a + 1..b]) = {k \<in> {a + 1..b}. m < k \<and> k \<le> n}" by auto
  also have "{k \<in> {a + 1..b}. m < k \<and> k \<le> n} = {max (a + 1) (m + 1)..min b n}" by auto
  finally have len: "length (filter (\<lambda>x. m < f x \<and> f x \<le> n) xs) = nat (min b n - max (a + 1) (m + 1) + 1)" by simp
  have "int (nat (min b n - max (a + 1) (m + 1) + 1)) = n - m \<longleftrightarrow> n = m \<or> a \<le> m \<and> n \<le> b" using m(2-4) by linarith
  then show ?thesis unfolding len .
qed

lemma queries_refine:
  assumes "mobile_ok s" "live_device s d" "log_of s d = Some l" "d \<noteq> []"
  shows "range_contiguous d after through s = log_contiguous after through l"
    and "has_unacked_before d cutoff s = Inr (\<exists>e \<in> set (el_events l). ie_created e < cutoff)"
    and "count_events d s = Inr (int (length (el_events l)))"
    and "read_cursor d s = Inr \<lparr>cu_next = log_last l + 1, cu_sent = el_sent l, cu_acked = el_acked l\<rparr>"
proof -
  note l = live_log[OF assms(1-3)]
  have b: "el_acked l \<le> log_last l" using l(3,4) by simp
  show "range_contiguous d after through s = log_contiguous after through l"
    using assms(4) l(5) count_between[OF l(1) b, of after through]
    by (auto simp: range_contiguous_def log_contiguous_def l(6)[symmetric])
  show "has_unacked_before d cutoff s = Inr (\<exists>e \<in> set (el_events l). ie_created e < cutoff)"
    "count_events d s = Inr (int (length (el_events l)))"
    "read_cursor d s = Inr \<lparr>cu_next = log_last l + 1, cu_sent = el_sent l, cu_acked = el_acked l\<rparr>"
    using assms(4) l(5,6) by (simp_all add: has_unacked_before_def count_events_def read_cursor_def list_ex_iff)
qed

text \<open>An event for several devices.\<close>

lemma allocate_known:
  "allocate_events ds s = (if \<exists>d \<in> set ds. dict_get (ms_cursors s) d = None then Inl Unknown_device
     else Inr (map (\<lambda>d. (d, cu_next (the (dict_get (ms_cursors s) d)))) ds))"
  by (induction ds) (auto split: option.splits)

lemma append_events_Cons:
  assumes "[] \<notin> set (d # ds)" "distinct (d # ds)" "i \<noteq> []" "env \<noteq> []" "\<forall>x \<in> set (d # ds). dict_get (ms_cursors s) x \<noteq> None"
  shows "append_events (d # ds) i env t s = (case append_event d i env t s of Inl err \<Rightarrow> Inl err
     | Inr (e, s') \<Rightarrow> (case append_events ds i env t s' of Inl err \<Rightarrow> Inl err | Inr (es, s'') \<Rightarrow> Inr (e # es, s'')))"
proof -
  define mk where "mk = (\<lambda>(d, n). \<lparr>ie_device = d, ie_seq = n, ie_id = i, ie_envelope = env, ie_created = t\<rparr>)"
  define al where "al = (\<lambda>s :: mobile_store. map (\<lambda>d. (d, cu_next (the (dict_get (ms_cursors s) d)))) ds)"
  define e where "e = mk (d, cu_next (the (dict_get (ms_cursors s) d)))"
  have one: "append_event d i env t s = (case store_event e s of Inl err \<Rightarrow> Inl err | Inr s' \<Rightarrow> Inr (e, s'))"
    using assms by (auto simp: append_event_def append_events_def allocate_known e_def mk_def split: sum.split)
  have rest: "append_events ds i env t s' = (case store_events (map mk (al s')) s' of Inl err \<Rightarrow> Inl err | Inr s'' \<Rightarrow> Inr (map mk (al s'), s''))"
    if "\<forall>x \<in> set ds. dict_get (ms_cursors s') x \<noteq> None" for s'
    using assms(1-4) that by (cases "ds = []") (auto simp: append_events_def allocate_known al_def mk_def split: sum.split)
  have all: "append_events (d # ds) i env t s = (case store_event e s of Inl err \<Rightarrow> Inl err
      | Inr s' \<Rightarrow> (case store_events (map mk (al s)) s' of Inl err \<Rightarrow> Inl err | Inr s'' \<Rightarrow> Inr (e # map mk (al s), s'')))"
    using assms by (auto simp: append_events_def allocate_known e_def al_def mk_def split: sum.split)
  show ?thesis
  proof (cases "store_event e s")
    case (Inr s')
    obtain c where "s' = put_cursor d c (s\<lparr>ms_inbox := ms_inbox s @ [e]\<rparr>)"
      using store_event_parts[OF Inr] by (auto simp: e_def mk_def)
    then have same: "dict_get (ms_cursors s') x = dict_get (ms_cursors s) x" if "x \<in> set ds" for x
      using that assms(2) by (auto simp: put_cursor_def)
    have "al s' = al s" using same by (simp add: al_def)
    moreover have "\<forall>x \<in> set ds. dict_get (ms_cursors s') x \<noteq> None" using same assms(5) by simp
    ultimately show ?thesis using all one rest[of s'] Inr by (auto split: sum.split)
  qed (use all one in simp)
qed

lemma append_event_frame:
  assumes "mobile_ok s" "append_event d i env t s = Inr (e, s')"
  shows "mobile_ok s'" "live_device s' = live_device s" "x \<noteq> d \<Longrightarrow> log_of s' x = log_of s x"
proof -
  obtain es where a: "append_events [d] i env t s = Inr (es, s')"
    using assms(2) by (auto simp: append_event_def split: sum.splits)
  show "mobile_ok s'" using mobile_exec_ok[OF assms(1), of "Append_events [d] i env t"] a by (simp add: mobile_exec_def keep_on_error_def)
  have "\<exists>e. store_event e s = Inr s' \<and> ie_device e = d" using a
    by (auto simp: append_events_def split: if_splits sum.splits option.splits)
  then obtain e c where s': "s' = put_cursor d c (s\<lparr>ms_inbox := ms_inbox s @ [e]\<rparr>)" "ie_device e = d"
    using store_event_parts by metis
  show "live_device s' = live_device s" by (simp add: s')
  show "x \<noteq> d \<Longrightarrow> log_of s' x = log_of s x" using s'(2) by (simp add: log_of_def s'(1))
qed

lemma append_all_refines:
  assumes "mobile_ok s" "\<forall>x \<in> set ds. live_device s x \<or> log_of s x = None"
  shows "map_sum id (\<lambda>(es, s'). (es, log_of s')) (append_events ds i env t s) = log_append_all ds i env t (log_of s)"
proof -
  have log: "log_of s x = None \<longleftrightarrow> dict_get (ms_cursors s) x = None" for s x by (simp add: log_of_def)
  have each: "map_sum id (\<lambda>(es, s'). (es, log_of s')) (append_events ds i env t s) = log_append_each ds i env t (log_of s)"
    if "mobile_ok s" "[] \<notin> set ds" "distinct ds" "i \<noteq> []" "env \<noteq> []" "\<forall>x \<in> set ds. live_device s x \<and> log_of s x \<noteq> None" for s ds
    using that
  proof (induction ds arbitrary: s)
    case Nil
    then show ?case by (simp add: append_events_def)
  next
    case (Cons d ds)
    obtain l where l: "log_of s d = Some l" using Cons.prems(6) by auto
    have one: "log_result id d (append_event d i env t s) = map_sum id (\<lambda>(e, l'). (e, Some l')) (log_append d i env t l)"
      using append_refines[OF Cons.prems(1) _ l] Cons.prems(2,6) by auto
    have eq: "append_events (d # ds) i env t s = (case append_event d i env t s of Inl err \<Rightarrow> Inl err
       | Inr (e, s') \<Rightarrow> (case append_events ds i env t s' of Inl err \<Rightarrow> Inl err | Inr (es, s'') \<Rightarrow> Inr (e # es, s'')))"
      using Cons.prems by (intro append_events_Cons) (auto simp: log)
    show ?case
    proof (cases "append_event d i env t s")
      case (Inl err)
      then have "log_append d i env t l = Inl err" using one by (cases "log_append d i env t l") (auto simp: log_result_def)
      then show ?thesis using Inl eq l by simp
    next
      case (Inr p)
      obtain e s' where p: "p = (e, s')" by (cases p)
      note fr = append_event_frame[OF Cons.prems(1) Inr[unfolded p]]
      obtain l' where l': "log_append d i env t l = Inr (e, l')" "log_of s' d = Some l'"
        using one Inr p by (cases "log_append d i env t l") (auto simp: log_result_def)
      have logs: "log_of s' = (log_of s)(d \<mapsto> l')" using fr(3) l'(2) by (auto simp: fun_eq_iff)
      have "\<forall>x \<in> set ds. live_device s' x \<and> log_of s' x \<noteq> None"
      proof
        fix x assume x: "x \<in> set ds"
        then have "x \<noteq> d" using Cons.prems(3) by auto
        then show "live_device s' x \<and> log_of s' x \<noteq> None" using fr(2,3) Cons.prems(6) x by simp
      qed
      then have "map_sum id (\<lambda>(es, s'). (es, log_of s')) (append_events ds i env t s') = log_append_each ds i env t (log_of s')"
        using Cons.prems(2-5) fr(1) by (intro Cons.IH) auto
      then show ?thesis using eq Inr p l l'(1) unfolding logs
        by (cases "append_events ds i env t s'") (auto split: sum.splits)
    qed
  qed
  consider (bad) "[] \<in> set ds \<or> \<not> distinct ds \<or> i = [] \<or> env = []"
    | (unknown) "\<not> ([] \<in> set ds \<or> \<not> distinct ds \<or> i = [] \<or> env = [])" "\<exists>x \<in> set ds. log_of s x = None"
    | (known) "\<not> ([] \<in> set ds \<or> \<not> distinct ds \<or> i = [] \<or> env = [])" "\<forall>x \<in> set ds. log_of s x \<noteq> None"
    by (cases "\<exists>x \<in> set ds. log_of s x = None") metis+
  then show ?thesis
  proof cases
    case unknown
    then have "append_events ds i env t s = Inl Unknown_device" by (auto simp: append_events_def allocate_known log)
    then show ?thesis using unknown by (simp add: log_append_all_def)
  next
    case known
    then have "\<forall>x \<in> set ds. live_device s x \<and> log_of s x \<noteq> None" using assms(2) by blast
    from each[OF assms(1) _ _ _ _ this] known show ?thesis by (auto simp: log_append_all_def)
  qed (auto simp: append_events_def log_append_all_def)
qed

subsection \<open>Progress of the store\<close>

text \<open>From one state to a later one: sequence numbers only grow, a revoked device stays revoked, and an
  event leaves the inbox of a device only when it is acknowledged or the device is revoked.\<close>

definition store_grows :: "mobile_store \<Rightarrow> mobile_store \<Rightarrow> bool" where
  "store_grows s s' \<longleftrightarrow> ms_epoch s \<le> ms_epoch s' \<and> (\<forall>d c. dict_get (ms_cursors s) d = Some c \<longrightarrow>
     (live_device s' d \<longrightarrow> live_device s d) \<and>
     (\<exists>c'. dict_get (ms_cursors s') d = Some c' \<and> cu_next c \<le> cu_next c' \<and> cu_acked c \<le> cu_acked c' \<and>
       (\<forall>e \<in> set (inbox_of d s). e \<in> set (inbox_of d s') \<or> \<not> live_device s' d \<or> ie_seq e \<le> cu_acked c')))"

lemma store_grows_refl [simp]: "store_grows s s"
  by (simp add: store_grows_def)

lemma store_grows_trans:
  assumes "store_grows s t" "store_grows t u"
  shows "store_grows s u"
  unfolding store_grows_def
proof (intro conjI allI impI)
  show "ms_epoch s \<le> ms_epoch u" using assms by (auto simp: store_grows_def)
next
  fix d c assume c: "dict_get (ms_cursors s) d = Some c"
  obtain c1 where c1: "dict_get (ms_cursors t) d = Some c1" "cu_next c \<le> cu_next c1" "cu_acked c \<le> cu_acked c1"
      "\<forall>e \<in> set (inbox_of d s). e \<in> set (inbox_of d t) \<or> \<not> live_device t d \<or> ie_seq e \<le> cu_acked c1"
      and l1: "live_device t d \<longrightarrow> live_device s d"
    using assms(1) c unfolding store_grows_def by blast
  obtain c2 where c2: "dict_get (ms_cursors u) d = Some c2" "cu_next c1 \<le> cu_next c2" "cu_acked c1 \<le> cu_acked c2"
      "\<forall>e \<in> set (inbox_of d t). e \<in> set (inbox_of d u) \<or> \<not> live_device u d \<or> ie_seq e \<le> cu_acked c2"
      and l2: "live_device u d \<longrightarrow> live_device t d"
    using assms(2) c1(1) unfolding store_grows_def by blast
  show "live_device s d" if "live_device u d" using that l1 l2 by blast
  have "\<forall>e \<in> set (inbox_of d s). e \<in> set (inbox_of d u) \<or> \<not> live_device u d \<or> ie_seq e \<le> cu_acked c2"
    using c1(4) c2(3,4) l2 by fastforce
  then show "\<exists>c'. dict_get (ms_cursors u) d = Some c' \<and> cu_next c \<le> cu_next c' \<and> cu_acked c \<le> cu_acked c' \<and>
      (\<forall>e \<in> set (inbox_of d s). e \<in> set (inbox_of d u) \<or> \<not> live_device u d \<or> ie_seq e \<le> cu_acked c')"
    using c1(2,3) c2(1-3) by (intro exI[of _ c2]) simp
qed

lemma grows_same_box:
  assumes "ms_epoch s \<le> ms_epoch s'" "\<And>d. inbox_of d s' = inbox_of d s"
    and "\<And>d c. dict_get (ms_cursors s) d = Some c \<Longrightarrow> dict_get (ms_cursors s') d = Some c"
    and "\<And>d. dict_get (ms_cursors s) d \<noteq> None \<Longrightarrow> live_device s' d \<Longrightarrow> live_device s d"
  shows "store_grows s s'"
  unfolding store_grows_def using assms by auto

lemma grows_box:
  assumes "dict_get (ms_cursors s) d = Some c" "s' = put_cursor d c' (s\<lparr>ms_inbox := r\<rparr>)"
    and "cu_next c \<le> cu_next c'" "cu_acked c \<le> cu_acked c'"
    and "\<And>x. x \<noteq> d \<Longrightarrow> inbox_of x s' = inbox_of x s"
    and "\<And>e. e \<in> set (inbox_of d s) \<Longrightarrow> e \<in> set (inbox_of d s') \<or> ie_seq e \<le> cu_acked c'"
  shows "store_grows s s'"
  unfolding store_grows_def
proof (intro conjI allI impI)
  fix x k assume k: "dict_get (ms_cursors s) x = Some k"
  show "live_device s x" if "live_device s' x" using that by (simp add: assms(2))
  show "\<exists>k'. dict_get (ms_cursors s') x = Some k' \<and> cu_next k \<le> cu_next k' \<and> cu_acked k \<le> cu_acked k' \<and>
      (\<forall>e \<in> set (inbox_of x s). e \<in> set (inbox_of x s') \<or> \<not> live_device s' x \<or> ie_seq e \<le> cu_acked k')"
  proof (cases "x = d")
    case True
    then show ?thesis using assms k by (intro exI[of _ c']) auto
  next
    case False
    then show ?thesis using assms(2) assms(5)[OF False] k by (intro exI[of _ k]) simp
  qed
qed (simp add: assms(2) put_cursor_def)

lemma store_event_grows: "store_event e s = Inr s' \<Longrightarrow> store_grows s s'"
proof -
  assume "store_event e s = Inr s'"
  then obtain c where c: "dict_get (ms_cursors s) (ie_device e) = Some c"
      and s': "s' = put_cursor (ie_device e) (c\<lparr>cu_next := cu_next c + 1\<rparr>) (s\<lparr>ms_inbox := ms_inbox s @ [e]\<rparr>)"
    using store_event_parts by metis
  show ?thesis by (rule grows_box[OF c s']) (auto simp: s')
qed

lemma store_events_grows: "store_events es s = Inr s' \<Longrightarrow> store_grows s s'"
  by (induction es arbitrary: s) (auto split: sum.splits intro: store_grows_trans store_event_grows)

lemma append_events_grows: "append_events ds i e t s = Inr (es, s') \<Longrightarrow> store_grows s s'"
  using append_events_parts[of ds i e t s es s'] store_events_grows
  by (cases "ds = []") (auto simp: append_events_def split: if_splits)

lemma rebase_grows:
  assumes "mobile_ok s" "rebase_cursor d n i env t s = Inr (e, s')"
  shows "store_grows s s'"
proof -
  obtain c where c: "dict_get (ms_cursors s) d = Some c" "cu_next c \<le> n"
      and e: "e = \<lparr>ie_device = d, ie_seq = n + 1, ie_id = i, ie_envelope = env, ie_created = t\<rparr>"
      and s': "s' = put_cursor d \<lparr>cu_next = n + 2, cu_sent = n, cu_acked = n\<rparr> (s\<lparr>ms_inbox := filter (\<lambda>r. ie_device r \<noteq> d) (ms_inbox s) @ [e]\<rparr>)"
    using rebase_parts[OF assms(2)] by metis
  have b: "box_ok (live_device s d) c (inbox_of d s)" using mobile_okD(2)[OF assms(1) c(1)] .
  have seqs: "ie_seq x \<le> n" if "x \<in> set (inbox_of d s)" for x using b c(2) that by (force simp: box_ok_def)
  have "cu_acked c \<le> n" using b c(2) by (simp add: box_ok_def)
  then show ?thesis by (intro grows_box[OF c(1) s']) (use c(2) seqs in \<open>auto simp: s' e\<close>)
qed

lemma sent_grows: "mark_events_sent d n s = Inr (c', s') \<Longrightarrow> store_grows s s'"
proof (cases "s' = s")
  case False
  assume "mark_events_sent d n s = Inr (c', s')"
  then obtain c where c: "dict_get (ms_cursors s) d = Some c" and s': "s' = put_cursor d (c\<lparr>cu_sent := n\<rparr>) (s\<lparr>ms_inbox := ms_inbox s\<rparr>)"
    using False by (auto simp: mark_events_sent_def Let_def split: if_splits option.splits)
  show ?thesis by (rule grows_box[OF c s']) (auto simp: s')
qed simp

lemma ack_grows: "acknowledge_events d n s = Inr (a, s') \<Longrightarrow> store_grows s s'"
proof (cases "s' = s")
  case False
  assume "acknowledge_events d n s = Inr (a, s')"
  then obtain c where c: "dict_get (ms_cursors s) d = Some c" "cu_acked c \<le> n"
      and s': "s' = put_cursor d (c\<lparr>cu_acked := n\<rparr>) (s\<lparr>ms_inbox := filter (\<lambda>e. \<not> (ie_device e = d \<and> ie_seq e \<le> n)) (ms_inbox s)\<rparr>)"
    using ack_parts False by force
  have box: "inbox_of x s' = (if x = d then filter (\<lambda>e. n < ie_seq e) (inbox_of d s) else inbox_of x s)" for x
    unfolding s' by (simp only: inbox_of_frame inbox_of_ack)
  show ?thesis by (rule grows_box[OF c(1) s']) (use c(2) in \<open>auto simp: box\<close>)
qed simp

lemma insert_device_grows:
  assumes "mobile_ok s" "insert_device d s = Inr s'"
  shows "store_grows s s'"
proof -
  have s': "s' = s\<lparr>ms_devices := dict_set (ms_devices s) (dv_id d) d,
      ms_cursors := dict_set (ms_cursors s) (dv_id d) \<lparr>cu_next = 1, cu_sent = 0, cu_acked = 0\<rparr>\<rparr>"
    and new: "dict_get (ms_cursors s) (dv_id d) = None"
    using assms(2) by (auto simp: insert_device_def split: if_splits)
  show ?thesis by (rule grows_same_box) (use new in \<open>auto simp: s' live_device_def split: if_splits\<close>)
qed

lemma pair_device_grows:
  assumes "mobile_ok s" "pair_device d s = Inr (d', s')"
  shows "store_grows s s'"
proof (cases "find_by_key (dv_key d) s")
  case None
  then have "insert_device d s = Inr s'" using assms(2) by (auto simp: pair_device_def split: sum.splits)
  then show ?thesis by (rule insert_device_grows[OF assms(1)])
next
  case (Some row)
  have ok: "devices_ok (ms_devices s)" using mobile_okD(1)[OF assms(1)] by (simp add: tables_ok_def)
  have "row \<in> set (map snd (ms_devices s))" using Some unfolding find_by_key_def find_Some_iff by (metis nth_mem)
  then obtain k where "dict_get (ms_devices s) k = Some row" using ok by (auto simp: devices_ok_def dict_get_Some_iff)
  then have k: "dict_get (ms_devices s) (dv_id row) = Some row" using ok by (auto simp: devices_ok_def)
  have "dv_revoked row = None" "s' = s\<lparr>ms_devices := dict_set (ms_devices s) (dv_id row) (row\<lparr>dv_name := dv_name d, dv_caps := dv_caps d\<rparr>)\<rparr>"
    using assms(2) Some by (auto simp: pair_device_def device_from_row_def Let_def split: sum.splits if_splits)
  then show ?thesis using k by (intro grows_same_box) (auto simp: live_device_def split: if_splits)
qed

lemma revoke_grows:
  assumes "revoke_device k t s = Inr (d, s')"
  shows "store_grows s s'"
proof -
  obtain row where row: "dict_get (ms_devices s) k = Some row" "dv_revoked d \<noteq> None"
      and s': "s' = s\<lparr>ms_devices := dict_set (ms_devices s) k d, ms_inbox := filter (\<lambda>e. ie_device e \<noteq> k) (ms_inbox s)\<rparr>"
    using assms by (auto simp: revoke_device_def device_from_row_def Let_def split: if_splits option.splits)
  have box: "inbox_of x s' = (if x = k then [] else inbox_of x s)" for x by (auto simp: s' inbox_of_def intro: filter_cong)
  have live: "live_device s' x = (x \<noteq> k \<and> live_device s x)" for x using row(2) by (simp add: s' live_device_def)
  show ?thesis unfolding store_grows_def box live by (simp add: s')
qed

lemma keep_grows: "(\<And>a s'. r = Inr (a, s') \<Longrightarrow> store_grows s s') \<Longrightarrow> store_grows s (keep_on_error s r)"
  by (auto simp: keep_on_error_def split: sum.split)

lemma grows_frame [simp]:
  "store_grows s (s\<lparr>ms_identity := a\<rparr>)" "store_grows s (s\<lparr>ms_pairings := b\<rparr>)" "store_grows s (s\<lparr>ms_sessions := z\<rparr>)"
  "ms_epoch s \<le> n \<Longrightarrow> store_grows s (s\<lparr>ms_epoch := n\<rparr>)" "store_grows s s' \<Longrightarrow> store_grows s (s'\<lparr>ms_pairings := b\<rparr>)"
  by (simp_all add: store_grows_def)

lemma mobile_exec_grows:
  assumes "mobile_ok s"
  shows "store_grows s (mobile_exec c s)"
proof (cases c)
  case (Consume_pairing k d t)
  have "store_grows s s'" if "consume_pairing k d t s = Inr (d', s')" for d' s'
    using consume_pairing_parts[OF that] pair_device_grows[OF assms] by auto
  then show ?thesis unfolding Consume_pairing mobile_exec_def by (auto intro: keep_grows)
next
  case (Set_capabilities k cs)
  show ?thesis unfolding Set_capabilities mobile_exec_def
    by (auto intro!: keep_grows grows_same_box simp: update_device_capabilities_def live_device_def split: if_splits option.splits)
next
  case (Register_device d)
  show ?thesis unfolding Register_device mobile_exec_def using insert_device_grows[OF assms] by (auto intro: keep_grows)
next
  case (Revoke_device k t)
  show ?thesis unfolding Revoke_device mobile_exec_def using revoke_grows by (auto intro: keep_grows)
next
  case (Append_events ds i e t)
  show ?thesis unfolding Append_events mobile_exec_def using append_events_grows by (auto intro: keep_grows)
next
  case (Rebase d n i e t)
  show ?thesis unfolding Rebase mobile_exec_def using rebase_grows[OF assms] by (auto intro: keep_grows)
next
  case (Mark_sent d n)
  show ?thesis unfolding Mark_sent mobile_exec_def using sent_grows by (auto intro: keep_grows)
next
  case (Acknowledge d n)
  show ?thesis unfolding Acknowledge mobile_exec_def using ack_grows by (auto intro: keep_grows)
qed (auto intro!: keep_grows simp: mobile_exec_def write_server_identity_def allocate_connection_epoch_def claim_session_def
  create_pairing_session_def confirm_pairing_def Let_def split: if_splits option.splits)

lemma mobile_run_grows: "mobile_ok s \<Longrightarrow> store_grows s (fold mobile_exec cs s) \<and> mobile_ok (fold mobile_exec cs s)"
  by (induction cs arbitrary: s) (auto intro: store_grows_trans mobile_exec_grows mobile_exec_ok)

text \<open>
  C24. No durable event is lost.  In whatever reachable state an event is pending for a device: after any
  further operations it is still pending, unless the device was revoked or has acknowledged the event's
  number; sequence numbers, acknowledgements and connection epochs never go back, and a revoked device is
  never live again.
\<close>

theorem inbox_keeps_unacked:
  assumes "mobile_reachable s" "dict_get (ms_cursors s) d = Some c" "e \<in> set (inbox_of d s)"
  shows "\<exists>c'. dict_get (ms_cursors (fold mobile_exec cs s)) d = Some c' \<and> cu_next c \<le> cu_next c' \<and> cu_acked c \<le> cu_acked c' \<and>
    ms_epoch s \<le> ms_epoch (fold mobile_exec cs s) \<and> (live_device (fold mobile_exec cs s) d \<longrightarrow> live_device s d) \<and>
    (e \<in> set (inbox_of d (fold mobile_exec cs s)) \<or> \<not> live_device (fold mobile_exec cs s) d \<or> ie_seq e \<le> cu_acked c')"
proof -
  have "store_grows s (fold mobile_exec cs s)" using mobile_run_grows[OF mobile_reachable_ok[OF assms(1)]] by blast
  then show ?thesis using assms(2,3) unfolding store_grows_def by blast
qed

definition demo_device :: device where
  "demo_device = \<lparr>dv_id = ''p'', dv_key = ''k'', dv_name = ''phone'', dv_created = 0, dv_revoked = None, dv_caps = []\<rparr>"

definition demo_mobile :: mobile_store where
  "demo_mobile = fold mobile_exec [Register_device demo_device, Append_events [''p''] ''a'' ''{}'' 1, Append_events [''p''] ''b'' ''{}'' 2] new_mobile_store"

lemma mobile_reachable_fold: "mobile_reachable s \<Longrightarrow> mobile_reachable (fold mobile_exec cs s)"
  by (induction cs arbitrary: s) (auto intro: mobile_step)

lemma demo_mobile_reachable: "mobile_reachable demo_mobile"
  unfolding demo_mobile_def by (intro mobile_reachable_fold mobile_new)

lemma demo_mobile_eval:
  "demo_mobile = \<lparr>ms_identity = None, ms_pairings = [], ms_devices = [(''p'', demo_device)],
     ms_cursors = [(''p'', \<lparr>cu_next = 3, cu_sent = 0, cu_acked = 0\<rparr>)],
     ms_inbox = [\<lparr>ie_device = ''p'', ie_seq = 1, ie_id = ''a'', ie_envelope = ''{}'', ie_created = 1\<rparr>,
       \<lparr>ie_device = ''p'', ie_seq = 2, ie_id = ''b'', ie_envelope = ''{}'', ie_created = 2\<rparr>], ms_epoch = 0, ms_sessions = []\<rparr>"
  by code_simp

theorem inbox_keeps_unacked_witness:
  "\<lparr>ie_device = ''p'', ie_seq = 2, ie_id = ''b'', ie_envelope = ''{}'', ie_created = 2\<rparr>
     \<in> set (inbox_of ''p'' (fold mobile_exec [Mark_sent ''p'' 2, Acknowledge ''p'' 1] demo_mobile))"
proof -
  define s where "s = fold mobile_exec [Mark_sent ''p'' 2, Acknowledge ''p'' 1] demo_mobile"
  have c: "dict_get (ms_cursors demo_mobile) ''p'' = Some \<lparr>cu_next = 3, cu_sent = 0, cu_acked = 0\<rparr>"
    unfolding demo_mobile_eval by code_simp
  have e: "\<lparr>ie_device = ''p'', ie_seq = 2, ie_id = ''b'', ie_envelope = ''{}'', ie_created = 2\<rparr> \<in> set (inbox_of ''p'' demo_mobile)"
    unfolding demo_mobile_eval by code_simp
  have s: "live_device s ''p''" "dict_get (ms_cursors s) ''p'' = Some \<lparr>cu_next = 3, cu_sent = 2, cu_acked = 1\<rparr>"
    unfolding s_def demo_mobile_eval by code_simp+
  show ?thesis
    using inbox_keeps_unacked[OF demo_mobile_reachable c e, of "[Mark_sent ''p'' 2, Acknowledge ''p'' 1]", folded s_def] s by (simp add: s_def)
qed

text \<open>
  C23. The durable inbox implements a numbered log.  For a device that was not revoked the pending events
  carry exactly the numbers after the acknowledged one, in order and without a gap; and appending, marking
  as sent, acknowledging, rebasing, reading, the contiguity test, the test for old events, the count and the
  cursor are, for all arguments and with all their errors, the operations of the log.  An event for several
  devices is appended to the log of each; an unknown device refuses it for all.
\<close>

theorem inbox_refines_log:
  assumes "mobile_reachable s" "live_device s d" "log_of s d = Some l" "d \<noteq> []"
  shows "map ie_seq (el_events l) = [el_acked l + 1..log_last l] \<and> 0 \<le> el_acked l \<and> el_acked l \<le> el_sent l \<and> el_sent l \<le> log_last l \<and>
    log_result id d (append_event d i env t s) = map_sum id (\<lambda>(e, l'). (e, Some l')) (log_append d i env t l) \<and>
    log_result (\<lambda>_. ()) d (mark_events_sent d n s) = map_sum id (\<lambda>l'. ((), Some l')) (log_sent n l) \<and>
    log_result aa_deleted d (acknowledge_events d n s) = map_sum id (\<lambda>(k, l'). (k, Some l')) (log_ack n l) \<and>
    log_result id d (rebase_cursor d n i env t s) = map_sum id (\<lambda>(e, l'). (e, Some l')) (log_rebase d n i env t l) \<and>
    read_events obj d after limit s = log_page obj after limit l \<and>
    range_contiguous d after through s = log_contiguous after through l \<and>
    has_unacked_before d cutoff s = Inr (\<exists>e \<in> set (el_events l). ie_created e < cutoff) \<and>
    count_events d s = Inr (int (length (el_events l))) \<and>
    read_cursor d s = Inr \<lparr>cu_next = log_last l + 1, cu_sent = el_sent l, cu_acked = el_acked l\<rparr> \<and>
    ((\<forall>x \<in> set ds. live_device s x \<or> log_of s x = None) \<longrightarrow>
      map_sum id (\<lambda>(es, s'). (es, log_of s')) (append_events ds i env t s) = log_append_all ds i env t (log_of s))"
proof -
  note ok = mobile_reachable_ok[OF assms(1)]
  show ?thesis
    using live_log(1-4)[OF ok assms(2,3)] append_refines[OF ok assms(2-4)] sent_refines[OF ok assms(2-4)]
      ack_refines[OF ok assms(2-4)] rebase_refines[OF ok assms(2-4)] read_refines[OF ok assms(2-4)]
      queries_refine[OF ok assms(2-4)] append_all_refines[OF ok]
    by (intro conjI impI) simp_all
qed

theorem inbox_refines_log_witness:
  "log_result (\<lambda>_. ()) ''p'' (mark_events_sent ''p'' 3 demo_mobile) = Inl Sent_cursor \<and>
   log_result (\<lambda>_. ()) ''p'' (mark_events_sent ''p'' (- 1) demo_mobile) = Inl Value_error \<and>
   range_contiguous ''p'' 0 2 demo_mobile = Inr True \<and>
   isl (append_events [''p'', ''q''] ''c'' ''{}'' 3 demo_mobile) = True"
proof -
  obtain l where l: "log_of demo_mobile ''p'' = Some l" "log_last l = 2" "el_acked l = 0"
    by (simp add: demo_mobile_eval log_of_def dict_get_def log_last_def inbox_of_def)
  have live: "live_device demo_mobile ''p''" unfolding demo_mobile_eval by code_simp
  have ne: "''p'' \<noteq> []" by simp
  have none: "log_of demo_mobile ''q'' = None" by (simp add: demo_mobile_eval log_of_def dict_get_def)
  note r = inbox_refines_log[OF demo_mobile_reachable live l(1) ne]
  have sent: "log_result (\<lambda>_. ()) ''p'' (mark_events_sent ''p'' n demo_mobile) = map_sum id (\<lambda>l'. ((), Some l')) (log_sent n l)" for n
    using r[where n = n] by blast
  have range: "range_contiguous ''p'' 0 2 demo_mobile = log_contiguous 0 2 l" using r by blast
  have "map_sum id (\<lambda>(es, s'). (es, log_of s')) (append_events [''p'', ''q''] ''c'' ''{}'' 3 demo_mobile) =
      log_append_all [''p'', ''q''] ''c'' ''{}'' 3 (log_of demo_mobile)"
    using r[where ds = "[''p'', ''q'']" and i = "''c''" and env = "''{}''" and t = 3] live none by simp
  then have "isl (append_events [''p'', ''q''] ''c'' ''{}'' 3 demo_mobile)" using none
    by (cases "append_events [''p'', ''q''] ''c'' ''{}'' 3 demo_mobile") (auto simp: log_append_all_def)
  then show ?thesis using l sent range by (simp add: log_sent_def log_contiguous_def sql_max_def)
qed

end
