(* ===== verification/Mobile_Delivery.thy ===== *)
theory Mobile_Delivery
  imports Mobile_Store
begin

text \<open>
  The delivery of durable events to phones, src/infra/mobile_realtime/gateway.py: how a reconnecting
  device resumes (\<open>_prepare_resume\<close>, \<open>_send_resume_window\<close>), how published events are queued and
  drained, and how they are acknowledged.  Every step is what happens between two awaits; the work under
  the delivery lock is one step.  The frames written to a socket are recorded in order.

  The JSON of the envelopes is read through a \<open>wire_codec\<close>: whether a text is an object, its type, whether
  it has an invalid message identity, and the text of the frames that end a resume.
\<close>

datatype resume_note = Reset_note string | Completed_note int

record wire_codec =
  wc_object :: "string \<Rightarrow> bool"
  wc_type :: "string \<Rightarrow> string option"
  wc_bad_client :: "string \<Rightarrow> bool"
  wc_encode :: "string \<Rightarrow> resume_note \<Rightarrow> string"

subsection \<open>What the gateway relies on\<close>

text \<open>The interface of the store to the gateway: the log of a live device is numbered without gaps, and
  reading returns a part of it or refuses a row.\<close>

locale numbered_log =
  fixes ok :: "'s \<Rightarrow> bool"
    and alive :: "'s \<Rightarrow> string \<Rightarrow> bool"
    and log :: "'s \<Rightarrow> string \<Rightarrow> event_log option"
    and read :: "string \<Rightarrow> int \<Rightarrow> int \<Rightarrow> 's \<Rightarrow> mobile_error + inbox_event list"
  assumes numbered: "ok s \<Longrightarrow> alive s d \<Longrightarrow> log s d = Some l \<Longrightarrow>
      map ie_seq (el_events l) = [el_acked l + 1..log_last l] \<and> el_acked l \<le> log_last l \<and> log_last l + 1 \<le> sql_max \<and> 0 \<le> el_acked l"
    and reads: "ok s \<Longrightarrow> alive s d \<Longrightarrow> log s d = Some l \<Longrightarrow> d \<noteq> [] \<Longrightarrow> 0 \<le> after \<Longrightarrow> after \<le> sql_max \<Longrightarrow> 0 < limit \<Longrightarrow> limit \<le> sql_max \<Longrightarrow>
      read d after limit s = Inr (log_read after limit l) \<or> read d after limit s = Inl Bad_row"
begin

lemma numbers_after:
  assumes "ok s" "alive s d" "log s d = Some l" "el_acked l \<le> n"
  shows "map ie_seq (filter (\<lambda>e. n < ie_seq e) (el_events l)) = [n + 1..log_last l]"
proof -
  have "map ie_seq (filter (\<lambda>e. n < ie_seq e) (el_events l)) = filter (\<lambda>x. n < x) (map ie_seq (el_events l))"
    by (simp add: filter_map o_def)
  then show ?thesis using numbered[OF assms(1-3)] assms(4) by (simp add: filter_upto)
qed

text \<open>The event that is read first after a number is the next one.\<close>

lemma read_head:
  assumes "ok s" "alive s d" "log s d = Some l" "d \<noteq> []" "el_acked l \<le> n" "read d n 1 s = Inr es"
  shows "(n < log_last l \<longrightarrow> (\<exists>e. es = [e] \<and> ie_seq e = n + 1 \<and> e \<in> set (el_events l))) \<and> (log_last l \<le> n \<longrightarrow> n \<le> sql_max \<longrightarrow> es = [])"
proof (cases "n \<le> sql_max")
  case True
  note l = numbered[OF assms(1-3)]
  have es: "es = take 1 (drop (nat (n - el_acked l)) (el_events l))"
    using reads[OF assms(1-4), of n 1] assms(5,6) l True by (auto simp: log_read_def sql_max_def)
  have f: "filter (\<lambda>e. n < ie_seq e) (el_events l) = drop (nat (n - el_acked l)) (el_events l)"
    using filter_contiguous[of ie_seq "el_events l"] l assms(5) by blast
  have m: "map ie_seq (drop (nat (n - el_acked l)) (el_events l)) = [n + 1..log_last l]"
    using numbers_after[OF assms(1-3,5)] unfolding f .
  show ?thesis
  proof (cases "n < log_last l")
    case True
    then obtain x xs where x: "drop (nat (n - el_acked l)) (el_events l) = x # xs" "ie_seq x = n + 1"
      using m by (cases "drop (nat (n - el_acked l)) (el_events l)") (simp_all add: upto_rec1)
    then show ?thesis using True es in_set_dropD[of x "nat (n - el_acked l)" "el_events l"] by simp
  next
    case False
    then show ?thesis using m es by simp
  qed
next
  case False
  then show ?thesis using numbered[OF assms(1-3)] by simp
qed

end

lemma log_of_interface:
  assumes "mobile_ok s" "live_device s d" "log_of s d = Some l"
  shows "map ie_seq (el_events l) = [el_acked l + 1..log_last l] \<and> el_acked l \<le> log_last l \<and> log_last l + 1 \<le> sql_max \<and> 0 \<le> el_acked l"
  using live_log[OF assms] by simp

interpretation store_log: numbered_log mobile_ok live_device log_of "read_events obj" for obj
  by unfold_locales (simp_all add: log_of_interface read_refines log_page_def)

subsection \<open>Preparing a resume\<close>

lemma read_events_after: "read_events obj d after limit s = Inr es \<Longrightarrow> e \<in> set es \<Longrightarrow> after < ie_seq e"
  by (auto simp: read_events_def Let_def split: if_splits dest!: in_set_takeD)

function (sequential) first_invalid :: "wire_codec \<Rightarrow> string \<Rightarrow> int \<Rightarrow> int \<Rightarrow> mobile_store \<Rightarrow> mobile_error + int option" where
  "first_invalid W d cursor through s =
     (if through \<le> cursor then Inr None
      else case read_events (wc_object W) d cursor 512 s of
        Inl err \<Rightarrow> Inl err
      | Inr rows \<Rightarrow> (case filter (\<lambda>e. ie_seq e \<le> through) rows of
            [] \<Rightarrow> Inr None
          | p # page \<Rightarrow> (case find (\<lambda>e. wc_bad_client W (ie_envelope e)) (p # page) of
                Some e \<Rightarrow> Inr (Some (ie_seq e))
              | None \<Rightarrow> first_invalid W d (ie_seq (last (p # page))) through s)))"
  by pat_completeness auto

termination
proof (relation "measure (\<lambda>(W, d, cursor, through, s). nat (through - cursor))", simp, goal_cases)
  case (1 W d cursor through s rows p page)
  define e where "e = last (p # page)"
  have "e \<in> set (p # page)" unfolding e_def by (intro last_in_set) simp
  also have "p # page = filter (\<lambda>e. ie_seq e \<le> through) rows" using 1 by simp
  finally have e: "e \<in> set rows" "ie_seq e \<le> through" by simp_all
  have "cursor < ie_seq e" using 1 e(1) by (intro read_events_after) simp_all
  then have "nat (through - ie_seq e) < nat (through - cursor)" using e(2) by simp
  then show ?case by (simp only: e_def in_measure case_prod_conv)
qed

declare first_invalid.simps [simp del]

definition reset_type :: string where
  "reset_type = ''sync.reset_required''"

text \<open>\<open>_enqueue_event\<close>, used for the frames that end a resume.\<close>

definition enqueue_note :: "wire_codec \<Rightarrow> string \<Rightarrow> string \<Rightarrow> int \<Rightarrow> resume_note \<Rightarrow> mobile_store \<Rightarrow> mobile_error + (inbox_event \<times> mobile_store)" where
  "enqueue_note W d eid created note s = append_event d eid (wc_encode W eid note) created s"

definition resume_reset :: "wire_codec \<Rightarrow> string \<Rightarrow> string \<Rightarrow> int \<Rightarrow> int \<Rightarrow> string \<Rightarrow> mobile_store \<Rightarrow>
    mobile_error + ((int \<times> int \<times> inbox_event) \<times> mobile_store)" where
  "resume_reset W d eid created last_ack reason s =
     map_sum id (\<lambda>(t, s'). ((last_ack, last_ack, t), s')) (enqueue_note W d eid created (Reset_note reason) s)"

text \<open>The stored reset is the start of the rebuilt projection; what was stored after it is sent again.\<close>

definition resume_from_reset :: "wire_codec \<Rightarrow> string \<Rightarrow> string \<Rightarrow> int \<Rightarrow> int \<Rightarrow> int \<Rightarrow> inbox_event \<Rightarrow> mobile_store \<Rightarrow>
    mobile_error + ((int \<times> int \<times> inbox_event) \<times> mobile_store)" where
  "resume_from_reset W d eid created last_ack through r s =
     (case range_contiguous d (ie_seq r) through s of
        Inl err \<Rightarrow> Inl err
      | Inr ok \<Rightarrow> if \<not> ok then resume_reset W d eid created last_ack ''inbox_sequence_gap_after_reset'' s
          else if through = ie_seq r then Inr ((last_ack, last_ack, r), s)
          else (case read_events (wc_object W) d (through - 1) 1 s of
              Inl err \<Rightarrow> Inl err
            | Inr [] \<Rightarrow> Inl Cursor_conflict
            | Inr (t # _) \<Rightarrow> if ie_seq t \<noteq> through then Inl Cursor_conflict
                else Inr ((ie_seq r - 1, through - 1, t), s)))"

definition resume_replay :: "wire_codec \<Rightarrow> string \<Rightarrow> string \<Rightarrow> int \<Rightarrow> int \<Rightarrow> int \<Rightarrow> mobile_store \<Rightarrow>
    mobile_error + ((int \<times> int \<times> inbox_event) \<times> mobile_store)" where
  "resume_replay W d eid created last_ack through s =
     (case range_contiguous d last_ack through s of
        Inl err \<Rightarrow> Inl err
      | Inr ok \<Rightarrow> if \<not> ok then resume_reset W d eid created last_ack ''inbox_sequence_gap'' s
          else map_sum id (\<lambda>(t, s'). ((last_ack, through, t), s'))
            (enqueue_note W d eid created (Completed_note (max 0 (through - last_ack))) s))"

definition resume_from_events :: "wire_codec \<Rightarrow> string \<Rightarrow> string \<Rightarrow> int \<Rightarrow> int \<Rightarrow> int \<Rightarrow> inbox_event list \<Rightarrow> mobile_store \<Rightarrow>
    mobile_error + ((int \<times> int \<times> inbox_event) \<times> mobile_store)" where
  "resume_from_events W d eid created last_ack through events s =
     (case events of
        [] \<Rightarrow> resume_replay W d eid created last_ack through s
      | r # _ \<Rightarrow> (case wc_type W (ie_envelope r) of
            None \<Rightarrow> Inl Bad_row
          | Some ty \<Rightarrow> if ty = reset_type then resume_from_reset W d eid created last_ack through r s
              else resume_replay W d eid created last_ack through s))"

text \<open>\<open>now\<close> is the clock of the retention check, \<open>created\<close> that of the stored frame, \<open>eid\<close> its fresh id.\<close>

definition resume_inside :: "wire_codec \<Rightarrow> int \<Rightarrow> int \<Rightarrow> int \<Rightarrow> string \<Rightarrow> string \<Rightarrow> int \<Rightarrow> int \<Rightarrow> mobile_store \<Rightarrow>
    mobile_error + ((int \<times> int \<times> inbox_event) \<times> mobile_store)" where
  "resume_inside W retention now created eid d last_ack through s =
     (case replay_inbox (wc_object W) retention now d last_ack 1 s of
        Inl err \<Rightarrow> Inl err
      | Inr None \<Rightarrow> resume_reset W d eid created last_ack ''inbox_retention_exceeded'' s
      | Inr (Some (events, _)) \<Rightarrow> (case first_invalid W d last_ack through s of
            Inl err \<Rightarrow> Inl err
          | Inr (Some _) \<Rightarrow> resume_reset W d eid created last_ack ''invalid_durable_client_message_id'' s
          | Inr None \<Rightarrow> resume_from_events W d eid created last_ack through events s))"

definition prepare_resume :: "wire_codec \<Rightarrow> int \<Rightarrow> int \<Rightarrow> int \<Rightarrow> string \<Rightarrow> string \<Rightarrow> int \<Rightarrow> mobile_store \<Rightarrow>
    mobile_error + ((int \<times> int \<times> inbox_event) \<times> mobile_store)" where
  "prepare_resume W retention now created eid d last_ack s =
     (case read_cursor d s of
        Inl err \<Rightarrow> Inl err
      | Inr c \<Rightarrow>
        if last_ack < cu_acked c then resume_reset W d eid created last_ack ''client_ack_behind_server_cursor'' s
        else if last_ack > cu_next c - 1 then
          map_sum id (\<lambda>(t, s'). ((last_ack, last_ack, t), s'))
            (rebase_cursor d last_ack eid (wc_encode W eid (Reset_note ''client_ack_ahead_of_server_cursor'')) created s)
        else resume_inside W retention now created eid d last_ack (cu_next c - 1) s)"

subsection \<open>What a resume sends\<close>

definition between :: "int \<Rightarrow> int \<Rightarrow> inbox_event list \<Rightarrow> inbox_event list" where
  "between after through es = filter (\<lambda>e. after < ie_seq e \<and> ie_seq e \<le> through) es"

definition is_reset :: "wire_codec \<Rightarrow> inbox_event \<Rightarrow> bool" where
  "is_reset W e \<longleftrightarrow> wc_type W (ie_envelope e) = Some reset_type \<or> (\<exists>i r. ie_envelope e = wc_encode W i (Reset_note r))"

lemma between_numbers:
  assumes "map ie_seq es = [a + 1..b]" "a \<le> n"
  shows "map ie_seq (between n m es) = [n + 1..min m b]"
proof -
  have "map ie_seq (between n m es) = filter (\<lambda>x. x \<le> m) (filter (\<lambda>x. n < x) (map ie_seq es))"
    by (simp add: between_def filter_map o_def conj_commute)
  also have "\<dots> = filter (\<lambda>x. x \<le> m) [n + 1..b]" using assms by (simp add: filter_upto)
  also have "\<dots> = [n + 1..min m b]"
  proof (cases "n \<le> m \<and> m < b")
    case True
    have "[n + 1..b] = [n + 1..m] @ [m + 1..b]" using True upto_split2[of "n + 1" m b] by (cases "n = m") auto
    then show ?thesis using True by (simp add: filter_empty_conv filter_id_conv)
  next
    case False
    then have "m < n \<or> b \<le> m" by linarith
    then show ?thesis
    proof
      assume "m < n"
      then show ?thesis by (simp add: filter_empty_conv)
    next
      assume "b \<le> m"
      then show ?thesis by (simp add: filter_id_conv min_def)
    qed
  qed
  finally show ?thesis .
qed

lemma store_events_devices: "store_events es s = Inr s' \<Longrightarrow> ms_devices s' = ms_devices s"
proof (induction es arbitrary: s)
  case (Cons e es)
  then obtain s1 where s1: "store_event e s = Inr s1" "store_events es s1 = Inr s'" by (auto split: sum.splits)
  have "ms_devices s1 = ms_devices s" using store_event_parts[OF s1(1)] by auto
  then show ?case using Cons.IH[OF s1(2)] by simp
qed simp

lemma append_events_devices: "append_events ds i env t s = Inr (es, s') \<Longrightarrow> ms_devices s' = ms_devices s"
  using append_events_parts[of ds i env t s es s'] store_events_devices
  by (cases "ds = []") (auto simp: append_events_def split: if_splits)

lemma append_event_parts:
  assumes "append_event d i env t s = Inr (e, s')"
  shows "\<exists>es. append_events [d] i env t s = Inr (es, s') \<and> e = hd es"
  using assms by (auto simp: append_event_def split: sum.splits)

lemma live_devices: "ms_devices s' = ms_devices s \<Longrightarrow> live_device s' d = live_device s d"
  by (simp add: live_device_def)

lemma append_log:
  assumes "mobile_ok s" "live_device s d" "log_of s d = Some l" "d \<noteq> []" "append_event d i env t s = Inr (e, s')"
  shows "mobile_ok s'" "live_device s' d" "log_of s' d = Some (l\<lparr>el_events := el_events l @ [e]\<rparr>)" "ie_seq e = log_last l + 1" "ie_envelope e = env"
proof -
  obtain es where es: "append_events [d] i env t s = Inr (es, s')" using append_event_parts[OF assms(5)] by blast
  show "mobile_ok s'" by (rule append_events_ok[OF assms(1) es])
  show "live_device s' d" using assms(2) live_devices[OF append_events_devices[OF es]] by simp
  have "log_result id d (Inr (e, s')) = map_sum id (\<lambda>(e, l'). (e, Some l')) (log_append d i env t l)"
    using append_refines[OF assms(1-4), of i env t] assms(5) by simp
  then show "log_of s' d = Some (l\<lparr>el_events := el_events l @ [e]\<rparr>)" "ie_seq e = log_last l + 1" "ie_envelope e = env"
    by (auto simp: log_result_def log_append_def Let_def split: if_splits)
qed

text \<open>The frames of a plan in the log it leaves, and what is shown of them.\<close>

definition plan_ok :: "wire_codec \<Rightarrow> event_log \<Rightarrow> int \<Rightarrow> int \<times> int \<times> inbox_event \<Rightarrow> event_log \<Rightarrow> bool" where
  "plan_ok W l last_ack p l' = (case p of (after, through, t) \<Rightarrow> let frames = between after through (el_events l') @ [t] in
     map ie_seq frames = [ie_seq (hd frames)..log_last l'] \<and> last_ack < ie_seq (hd frames) \<and> el_sent l' \<le> ie_seq t \<and> ie_seq t = log_last l' \<and> through < ie_seq t \<and> (after < through \<longrightarrow> el_acked l' \<le> after) \<and>
     (is_reset W (hd frames) \<or> el_acked l \<le> last_ack \<and> ie_seq (hd frames) = last_ack + 1))"

lemma between_empty [simp]: "n \<le> m \<Longrightarrow> between m n es = []"
  by (auto simp: between_def filter_empty_conv)

lemma reset_plan_ok:
  assumes "mobile_ok s" "live_device s d" "log_of s d = Some l" "d \<noteq> []" "last_ack \<le> log_last l"
    and "resume_reset W d eid created last_ack reason s = Inr (p, s')"
  shows "\<exists>l'. mobile_ok s' \<and> live_device s' d \<and> log_of s' d = Some l' \<and> plan_ok W l last_ack p l'"
proof -
  obtain t where t: "append_event d eid (wc_encode W eid (Reset_note reason)) created s = Inr (t, s')" and p: "p = (last_ack, last_ack, t)"
    using assms(6) by (auto simp: resume_reset_def enqueue_note_def map_sum_def split: sum.splits)
  note a = append_log[OF assms(1-4) t]
  have "log_last (l\<lparr>el_events := el_events l @ [t]\<rparr>) = log_last l + 1" by (simp add: log_last_def)
  moreover have "is_reset W t" using a(5) by (auto simp: is_reset_def)
  ultimately have "plan_ok W l last_ack p (l\<lparr>el_events := el_events l @ [t]\<rparr>)"
    using a(4) assms(5) live_log(4)[OF assms(1-3)] by (simp add: plan_ok_def p)
  then show ?thesis using a(1-3) by blast
qed

lemma replay_plan_ok:
  assumes "mobile_ok s" "live_device s d" "log_of s d = Some l" "d \<noteq> []" "el_acked l \<le> last_ack" "last_ack \<le> log_last l"
    and "resume_replay W d eid created last_ack (log_last l) s = Inr (p, s')"
  shows "\<exists>l'. mobile_ok s' \<and> live_device s' d \<and> log_of s' d = Some l' \<and> plan_ok W l last_ack p l'"
proof -
  note l = live_log[OF assms(1-3)]
  obtain ok where rc: "range_contiguous d last_ack (log_last l) s = Inr ok"
    using assms(7) by (auto simp: resume_replay_def split: sum.splits)
  show ?thesis
  proof (cases ok)
    case False
    then show ?thesis using reset_plan_ok[OF assms(1-4,6)] assms(7) rc by (simp add: resume_replay_def)
  next
    case True
    then obtain t where t: "append_event d eid (wc_encode W eid (Completed_note (max 0 (log_last l - last_ack)))) created s = Inr (t, s')"
        and p: "p = (last_ack, log_last l, t)"
      using assms(7) rc by (auto simp: resume_replay_def enqueue_note_def map_sum_def split: sum.splits)
    note a = append_log[OF assms(1-4) t]
    define l' where "l' = l\<lparr>el_events := el_events l @ [t]\<rparr>"
    have ll: "log_last l' = log_last l + 1" by (simp add: l'_def log_last_def)
    have m': "map ie_seq (el_events l') = [el_acked l + 1..log_last l + 1]"
      using l(1-4) a(4) upto_rec2[of "el_acked l + 1" "log_last l + 1"] by (simp add: l'_def)
    have m: "map ie_seq (between last_ack (log_last l) (el_events l')) = [last_ack + 1..log_last l]"
      using between_numbers[OF m' assms(5)] by (simp add: min_def)
    have hd: "ie_seq (hd (between last_ack (log_last l) (el_events l') @ [t])) = last_ack + 1"
    proof (cases "last_ack = log_last l")
      case False
      then have "map ie_seq (between last_ack (log_last l) (el_events l')) = (last_ack + 1) # [last_ack + 2..log_last l]"
        using m assms(6) by (simp add: upto_rec1 add.commute)
      then show ?thesis by (cases "between last_ack (log_last l) (el_events l')") simp_all
    qed (simp add: a(4))
    have "[last_ack + 1..log_last l + 1] = [last_ack + 1..log_last l] @ [log_last l + 1]"
      using assms(6) upto_rec2[of "last_ack + 1" "log_last l + 1"] by simp
    then have "plan_ok W l last_ack p l'"
      using m hd a(4) ll assms(5,6) l(4) by (simp add: plan_ok_def p Let_def l'_def)
    then show ?thesis using a(1-3) by (auto simp: l'_def)
  qed
qed

lemma from_reset_plan_ok:
  assumes "mobile_ok s" "live_device s d" "log_of s d = Some l" "d \<noteq> []" "el_acked l \<le> last_ack" "last_ack \<le> log_last l"
    and "r \<in> set (el_events l)" "last_ack < ie_seq r" "wc_type W (ie_envelope r) = Some reset_type"
    and "resume_from_reset W d eid created last_ack (log_last l) r s = Inr (p, s')"
  shows "\<exists>l'. mobile_ok s' \<and> live_device s' d \<and> log_of s' d = Some l' \<and> plan_ok W l last_ack p l'"
proof -
  note l = live_log[OF assms(1-3)]
  have "ie_seq r \<in> set [el_acked l + 1..log_last l]" using assms(7) l(1) by (metis image_eqI set_map)
  then have r: "el_acked l < ie_seq r" "ie_seq r \<le> log_last l" by simp_all
  obtain ok where rc: "range_contiguous d (ie_seq r) (log_last l) s = Inr ok"
    using assms(10) by (auto simp: resume_from_reset_def split: sum.splits)
  consider (gap) "\<not> ok" | (only) "ok" "log_last l = ie_seq r" | (more) "ok" "log_last l \<noteq> ie_seq r" by blast
  then show ?thesis
  proof cases
    case gap
    then show ?thesis using reset_plan_ok[OF assms(1-4,6)] assms(10) rc by (simp add: resume_from_reset_def)
  next
    case only
    then have p: "p = (last_ack, last_ack, r)" "s' = s" using assms(10) rc by (simp_all add: resume_from_reset_def)
    have "plan_ok W l last_ack p l" using only assms(8,9) l(4) by (simp add: plan_ok_def p is_reset_def)
    then show ?thesis using assms(1-3) p(2) by blast
  next
    case more
    then obtain t rest where rd: "read_events (wc_object W) d (log_last l - 1) 1 s = Inr (t # rest)" "ie_seq t = log_last l"
        and p: "p = (ie_seq r - 1, log_last l - 1, t)" "s' = s"
      using assms(10) rc by (auto simp: resume_from_reset_def split: sum.splits list.splits if_splits)
    have m: "map ie_seq (between (ie_seq r - 1) (log_last l - 1) (el_events l)) = [ie_seq r..log_last l - 1]"
      using between_numbers[OF l(1), of "ie_seq r - 1" "log_last l - 1"] r by simp
    define ms where "ms = between (ie_seq r - 1) (log_last l - 1) (el_events l)"
    have rm: "r \<in> set ms" using assms(7) r more by (auto simp: ms_def between_def)
    have m2: "map ie_seq ms = ie_seq r # [ie_seq r + 1..log_last l - 1]" using m r more by (simp add: ms_def upto_rec1)
    then obtain x xs where x: "ms = x # xs" "ie_seq x = ie_seq r" "map ie_seq xs = [ie_seq r + 1..log_last l - 1]"
      by (cases ms) simp_all
    have "x = r"
    proof (rule ccontr)
      assume "x \<noteq> r"
      then have "r \<in> set xs" using rm x(1) by simp
      then have "ie_seq r \<in> set [ie_seq r + 1..log_last l - 1]" using x(3) by (metis image_eqI set_map)
      then show False by simp
    qed
    moreover have "[ie_seq r..log_last l] = [ie_seq r..log_last l - 1] @ [log_last l]" using r by (intro upto_rec2) simp
    ultimately have "plan_ok W l last_ack p l"
      using m x(1) rd(2) assms(8,9) l(4) r by (simp add: plan_ok_def p Let_def ms_def[symmetric] is_reset_def)
    then show ?thesis using assms(1-3) p(2) by blast
  qed
qed

lemma replay_inbox_parts:
  assumes "replay_inbox obj retention now d after limit s = Inr (Some (es, c))"
  shows "read_events obj d after limit s = Inr es"
  using assms by (auto simp: replay_inbox_def split: sum.splits bool.splits)

lemma rebase_plan_ok:
  assumes "mobile_ok s" "live_device s d" "log_of s d = Some l" "d \<noteq> []" "0 \<le> last_ack" "log_last l < last_ack"
    and "rebase_cursor d last_ack eid (wc_encode W eid (Reset_note reason)) created s = Inr (t, s')"
  shows "\<exists>l'. mobile_ok s' \<and> live_device s' d \<and> log_of s' d = Some l' \<and> plan_ok W l last_ack (last_ack, last_ack, t) l'"
proof -
  have ok: "mobile_ok s'" by (rule rebase_ok[OF assms(1,7)])
  have live: "live_device s' d" using rebase_parts[OF assms(7)] assms(2) by auto
  have "log_result id d (Inr (t, s')) = map_sum id (\<lambda>(e, l'). (e, Some l')) (log_rebase d last_ack eid (wc_encode W eid (Reset_note reason)) created l)"
    using rebase_refines[OF assms(1-4), of last_ack eid "wc_encode W eid (Reset_note reason)" created] assms(7) by simp
  then have "log_of s' d = Some \<lparr>el_acked = last_ack, el_sent = last_ack, el_events = [t]\<rparr>" "ie_seq t = last_ack + 1"
      "ie_envelope t = wc_encode W eid (Reset_note reason)"
    by (auto simp: log_result_def log_rebase_def Let_def split: if_splits)
  moreover from this have "plan_ok W l last_ack (last_ack, last_ack, t) \<lparr>el_acked = last_ack, el_sent = last_ack, el_events = [t]\<rparr>"
    by (auto simp: plan_ok_def log_last_def is_reset_def)
  ultimately show ?thesis using ok live by blast
qed

lemma prepare_plan_ok:
  assumes "mobile_ok s" "live_device s d" "log_of s d = Some l" "d \<noteq> []" "0 \<le> last_ack"
    and "prepare_resume W retention now created eid d last_ack s = Inr (p, s')"
  shows "\<exists>l'. mobile_ok s' \<and> live_device s' d \<and> log_of s' d = Some l' \<and> plan_ok W l last_ack p l'"
proof -
  note l = live_log[OF assms(1-3)]
  have rc: "read_cursor d s = Inr \<lparr>cu_next = log_last l + 1, cu_sent = el_sent l, cu_acked = el_acked l\<rparr>"
    using l(5) assms(4) by (simp add: read_cursor_def)
  consider (behind) "last_ack < el_acked l" | (ahead) "\<not> last_ack < el_acked l" "log_last l < last_ack"
    | (inside) "el_acked l \<le> last_ack" "last_ack \<le> log_last l" by linarith
  then show ?thesis
  proof cases
    case behind
    then show ?thesis using assms(6) rc l(3,4) by (intro reset_plan_ok[OF assms(1-4)]) (auto simp: prepare_resume_def)
  next
    case ahead
    then obtain t where t: "rebase_cursor d last_ack eid (wc_encode W eid (Reset_note ''client_ack_ahead_of_server_cursor'')) created s = Inr (t, s')"
        and p: "p = (last_ack, last_ack, t)"
      using assms(6) rc by (auto simp: prepare_resume_def map_sum_def split: sum.splits)
    show ?thesis unfolding p by (rule rebase_plan_ok[OF assms(1-5) ahead(2) t])
  next
    case inside
    note reset = reset_plan_ok[OF assms(1-4) inside(2)]
    have run: "resume_inside W retention now created eid d last_ack (log_last l) s = Inr (p, s')"
      using inside rc assms(6) by (simp add: prepare_resume_def)
    show ?thesis
    proof (cases "\<exists>reason. resume_reset W d eid created last_ack reason s = Inr (p, s')")
      case True
      then show ?thesis using reset by blast
    next
      case False
      then obtain es c where es: "replay_inbox (wc_object W) retention now d last_ack 1 s = Inr (Some (es, c))"
          and step: "resume_from_events W d eid created last_ack (log_last l) es s = Inr (p, s')"
        using run by (auto simp: resume_inside_def split: sum.splits option.splits)
      have rd: "read_events (wc_object W) d last_ack 1 s = Inr es" by (rule replay_inbox_parts[OF es])
      have head: "r \<in> set (el_events l)" "last_ack < ie_seq r" if "es = r # rs" for r rs
        using store_log.read_head[OF assms(1-4) inside(1) rd] inside(2) l(7) that by (cases "last_ack < log_last l"; simp)+
      show ?thesis
      proof (cases "\<exists>r rs. es = r # rs \<and> wc_type W (ie_envelope r) = Some reset_type")
        case True
        then obtain r rs where r: "es = r # rs" "wc_type W (ie_envelope r) = Some reset_type" by blast
        show ?thesis using from_reset_plan_ok[OF assms(1-4) inside head[OF r(1)] r(2)] step r by (simp add: resume_from_events_def)
      next
        case False
        then have "resume_replay W d eid created last_ack (log_last l) s = Inr (p, s')"
          using step by (auto simp: resume_from_events_def split: list.splits option.splits if_splits)
        then show ?thesis by (rule replay_plan_ok[OF assms(1-4) inside])
      qed
    qed
  qed
qed

text \<open>
  A resume never hides a gap from the client.  For a device that was not revoked, whatever the client
  acknowledged last and whichever of the plans is taken, the frames of the plan carry consecutive numbers,
  all above the client's acknowledgement, and end with the last number that is allocated; and the first
  frame is the one right after the client's acknowledgement, which the server has not yet passed, or it
  tells the client to rebuild.
\<close>

theorem resume_plan_gapless:
  assumes "mobile_reachable s" "live_device s d" "d \<noteq> []" "0 \<le> last_ack"
    and "prepare_resume W retention now created eid d last_ack s = Inr ((after, through, t), s')"
    and "dict_get (ms_cursors s) d = Some c" "frames = between after through (inbox_of d s') @ [t]"
  shows "\<exists>c'. dict_get (ms_cursors s') d = Some c' \<and> map ie_seq frames = [ie_seq (hd frames)..cu_next c' - 1] \<and>
    last_ack < ie_seq (hd frames) \<and> cu_sent c' \<le> ie_seq t \<and> ie_seq t = cu_next c' - 1 \<and>
    (is_reset W (hd frames) \<or> cu_acked c \<le> last_ack \<and> ie_seq (hd frames) = last_ack + 1)"
proof -
  note ok = mobile_reachable_ok[OF assms(1)]
  define l where "l = \<lparr>el_acked = cu_acked c, el_sent = cu_sent c, el_events = inbox_of d s\<rparr>"
  have l: "log_of s d = Some l" using assms(6) by (simp add: log_of_def l_def)
  obtain l' where l': "mobile_ok s'" "live_device s' d" "log_of s' d = Some l'" "plan_ok W l last_ack (after, through, t) l'"
    using prepare_plan_ok[OF ok assms(2) l assms(3,4,5)] by blast
  note f = live_log[OF l'(1-3)]
  have fr: "frames = between after through (el_events l') @ [t]" using assms(7) f(6) by simp
  have acked: "el_acked l = cu_acked c" by (simp add: l_def)
  from l'(4)[unfolded plan_ok_def prod.case Let_def fr[symmetric] acked]
  show ?thesis using f(5) by (intro exI) (rule conjI, assumption, simp)
qed

definition demo_codec :: wire_codec where
  "demo_codec = \<lparr>wc_object = (\<lambda>x. True), wc_type = (\<lambda>x. if x = ''r'' then Some reset_type else Some ''x''), wc_bad_client = (\<lambda>x. False),
     wc_encode = (\<lambda>i n. case n of Reset_note _ \<Rightarrow> ''r'' | Completed_note _ \<Rightarrow> ''c'')\<rparr>"

theorem resume_plan_gapless_witness:
  "map ie_seq (between 1 2 (inbox_of ''p'' (snd (projr (prepare_resume demo_codec 100 9 9 ''e'' ''p'' 1 demo_mobile)))) @
     [snd (snd (fst (projr (prepare_resume demo_codec 100 9 9 ''e'' ''p'' 1 demo_mobile))))]) = [2, 3]"
proof -
  define t where "t = \<lparr>ie_device = ''p'', ie_seq = 3, ie_id = ''e'', ie_envelope = ''c'', ie_created = 9\<rparr>"
  define s' where "s' = snd (projr (prepare_resume demo_codec 100 9 9 ''e'' ''p'' 1 demo_mobile))"
  have p: "prepare_resume demo_codec 100 9 9 ''e'' ''p'' 1 demo_mobile = Inr ((1, 2, t), s')"
    unfolding s'_def t_def demo_mobile_eval by code_simp
  have c: "dict_get (ms_cursors demo_mobile) ''p'' = Some \<lparr>cu_next = 3, cu_sent = 0, cu_acked = 0\<rparr>" "live_device demo_mobile ''p''"
    unfolding demo_mobile_eval by code_simp+
  have e: "hd (between 1 2 (inbox_of ''p'' s') @ [t]) = \<lparr>ie_device = ''p'', ie_seq = 2, ie_id = ''b'', ie_envelope = ''{}'', ie_created = 2\<rparr>"
    unfolding s'_def t_def demo_mobile_eval by code_simp
  have "''p'' \<noteq> []" "0 \<le> (1::int)" by simp_all
  from resume_plan_gapless[OF demo_mobile_reachable c(2) this p c(1) refl] obtain c' :: device_cursor where
    c': "map ie_seq (between 1 2 (inbox_of ''p'' s') @ [t]) = [ie_seq (hd (between 1 2 (inbox_of ''p'' s') @ [t]))..cu_next c' - 1]"
      "ie_seq t = cu_next c' - 1" by blast
  have "map ie_seq (between 1 2 (inbox_of ''p'' s') @ [t]) = [2..ie_seq t]" using c' unfolding e by simp
  then have "map ie_seq (between 1 2 (inbox_of ''p'' s') @ [t]) = [2..3]" by (simp add: t_def)
  also have "[2..3] = [2, 3::int]" by (simp add: upto_rec1)
  finally show ?thesis unfolding s'_def[symmetric] p by simp
qed

subsection \<open>Connections\<close>

text \<open>The task of a resume: sending the window (the last number sent, the end of the window, the last frame and
  the rest of the page that was read), marking the last frame as sent, switching to live delivery.\<close>

datatype resume_pc = Window int int inbox_event "inbox_event list" | Mark_terminal inbox_event | Make_ready | Resumed | Resume_failed

text \<open>The task that drains the queue of a connection.\<close>

datatype drain_pc = Take_next | Sending inbox_event | Marking inbox_event

record connection =
  cn_device :: string
  cn_epoch :: int
  cn_pending :: "inbox_event list"
  cn_ready :: bool
  cn_barrier :: "int option"
  cn_drain :: "drain_pc option"
  cn_resume :: resume_pc
  cn_wire :: "inbox_event list"

record gateway =
  gw_store :: mobile_store
  gw_conns :: "(string, nat) dict"
  gw_heap :: "nat \<Rightarrow> connection option"
  gw_count :: nat

definition new_gateway :: gateway where
  "new_gateway = \<lparr>gw_store = new_mobile_store, gw_conns = [], gw_heap = (\<lambda>_. None), gw_count = 0\<rparr>"

definition is_current :: "nat \<Rightarrow> connection \<Rightarrow> gateway \<Rightarrow> bool" where
  "is_current i cn g \<longleftrightarrow> dict_get (gw_conns g) (cn_device cn) = Some i"

definition put_conn :: "nat \<Rightarrow> connection \<Rightarrow> gateway \<Rightarrow> gateway" where
  "put_conn i cn g = g\<lparr>gw_heap := (gw_heap g)(i \<mapsto> cn)\<rparr>"

definition drop_conn :: "nat \<Rightarrow> connection \<Rightarrow> gateway \<Rightarrow> gateway" where
  "drop_conn i cn g = (if is_current i cn g then g\<lparr>gw_conns := dict_del (gw_conns g) (cn_device cn)\<rparr> else g)"

text \<open>\<open>_schedule_delivery_locked\<close>\<close>

definition schedule_delivery :: "connection \<Rightarrow> connection" where
  "schedule_delivery cn = (if \<not> cn_ready cn \<or> cn_pending cn = [] \<or> cn_drain cn \<noteq> None then cn else cn\<lparr>cn_drain := Some Take_next\<rparr>)"

definition resume_begin :: "wire_codec \<Rightarrow> int \<Rightarrow> int \<Rightarrow> int \<Rightarrow> string \<Rightarrow> string \<Rightarrow> int \<Rightarrow> int \<Rightarrow> gateway \<Rightarrow> gateway" where
  "resume_begin W retention now created eid d epoch last_ack g =
     (if last_ack < 0 \<or> max_rebase_ack < last_ack then g
      else case prepare_resume W retention now created eid d last_ack (gw_store g) of
        Inl _ \<Rightarrow> g
      | Inr ((after, through, t), s') \<Rightarrow> g\<lparr>gw_store := s', gw_conns := dict_set (gw_conns g) d (gw_count g),
          gw_heap := (gw_heap g)(gw_count g \<mapsto> \<lparr>cn_device = d, cn_epoch = epoch, cn_pending = [], cn_ready = False, cn_barrier = None,
            cn_drain = None, cn_resume = Window after through t [], cn_wire = []\<rparr>), gw_count := gw_count g + 1\<rparr>)"

definition resume_abort :: "nat \<Rightarrow> connection \<Rightarrow> gateway \<Rightarrow> gateway" where
  "resume_abort i cn g = put_conn i (cn\<lparr>cn_resume := Resume_failed\<rparr>) (drop_conn i cn g)"

text \<open>One step of a resume; \<open>sent\<close> tells whether the frame of this step could be written.\<close>

definition send_window :: "wire_codec \<Rightarrow> bool \<Rightarrow> nat \<Rightarrow> connection \<Rightarrow> int \<Rightarrow> int \<Rightarrow> inbox_event \<Rightarrow> inbox_event list \<Rightarrow> gateway \<Rightarrow> gateway" where
  "send_window W sent i cn after through t page g =
     (case page of
        e # rest \<Rightarrow> if sent then put_conn i (cn\<lparr>cn_wire := cn_wire cn @ [e], cn_resume := Window (ie_seq e) through t rest\<rparr>) g
          else resume_abort i cn g
      | [] \<Rightarrow> if after < through then
            (case read_events (wc_object W) (cn_device cn) after 512 (gw_store g) of
               Inl _ \<Rightarrow> resume_abort i cn g
             | Inr rows \<Rightarrow> (case filter (\<lambda>e. ie_seq e \<le> through) rows of
                   [] \<Rightarrow> resume_abort i cn g
                 | p # ps \<Rightarrow> put_conn i (cn\<lparr>cn_resume := Window after through t (p # ps)\<rparr>) g))
          else if sent then put_conn i (cn\<lparr>cn_wire := cn_wire cn @ [t], cn_resume := Mark_terminal t\<rparr>) g
          else resume_abort i cn g)"

definition resume_step :: "wire_codec \<Rightarrow> nat \<Rightarrow> bool \<Rightarrow> gateway \<Rightarrow> gateway" where
  "resume_step W i sent g = (case gw_heap g i of
     None \<Rightarrow> g
   | Some cn \<Rightarrow> (case cn_resume cn of
       Window after through t page \<Rightarrow> send_window W sent i cn after through t page g
     | Mark_terminal t \<Rightarrow> if \<not> is_current i cn g then put_conn i (cn\<lparr>cn_resume := Make_ready\<rparr>) g
         else (case mark_events_sent (cn_device cn) (ie_seq t) (gw_store g) of
             Inl _ \<Rightarrow> resume_abort i cn g
           | Inr (_, s') \<Rightarrow> put_conn i (cn\<lparr>cn_resume := Make_ready\<rparr>) (g\<lparr>gw_store := s'\<rparr>))
     | Make_ready \<Rightarrow> if is_current i cn g then put_conn i (schedule_delivery (cn\<lparr>cn_ready := True, cn_resume := Resumed\<rparr>)) g
         else put_conn i (cn\<lparr>cn_resume := Resumed\<rparr>) g
     | Resumed \<Rightarrow> g
     | Resume_failed \<Rightarrow> g))"

subsection \<open>Publishing and draining\<close>

datatype audience = All_devices | One_device string "int option"

text \<open>The devices an event is stored for.\<close>

definition publish_targets :: "audience \<Rightarrow> string option \<Rightarrow> gateway \<Rightarrow> mobile_error + string list" where
  "publish_targets a cap g = (case a of
     All_devices \<Rightarrow> (case list_active_devices (gw_store g) of
         Inl err \<Rightarrow> Inl err
       | Inr ds \<Rightarrow> Inr (map dv_id (filter (\<lambda>d. case cap of None \<Rightarrow> True | Some k \<Rightarrow> k \<in> set (dv_caps d)) ds)))
   | One_device d epoch \<Rightarrow>
       if epoch \<noteq> None \<and> map_option cn_epoch (Option.bind (dict_get (gw_conns g) d) (gw_heap g)) \<noteq> epoch then Inr []
       else (case cap of
           None \<Rightarrow> Inr [d]
         | Some k \<Rightarrow> (case read_device d (gw_store g) of
               Inl err \<Rightarrow> Inl err
             | Inr None \<Rightarrow> Inr []
             | Inr (Some x) \<Rightarrow> Inr (if k \<in> set (dv_caps x) then [d] else []))))"

definition max_pending :: nat where
  "max_pending = 64"

definition queue_event :: "inbox_event \<Rightarrow> gateway \<Rightarrow> gateway" where
  "queue_event e g = (case dict_get (gw_conns g) (ie_device e) of
     None \<Rightarrow> g
   | Some i \<Rightarrow> (case gw_heap g i of
       None \<Rightarrow> g
     | Some cn \<Rightarrow> if max_pending \<le> length (cn_pending cn) then g\<lparr>gw_conns := dict_del (gw_conns g) (ie_device e)\<rparr>
         else put_conn i (schedule_delivery (cn\<lparr>cn_pending := cn_pending cn @ [e]\<rparr>)) g))"

definition publish_event :: "audience \<Rightarrow> string option \<Rightarrow> string \<Rightarrow> string \<Rightarrow> int \<Rightarrow> gateway \<Rightarrow> gateway" where
  "publish_event a cap eid env now g = (case publish_targets a cap g of
     Inl _ \<Rightarrow> g
   | Inr ds \<Rightarrow> (case append_events ds eid env now (gw_store g) of
       Inl _ \<Rightarrow> g
     | Inr (es, s') \<Rightarrow> fold queue_event es (g\<lparr>gw_store := s'\<rparr>)))"

definition drain_step :: "nat \<Rightarrow> bool \<Rightarrow> gateway \<Rightarrow> gateway" where
  "drain_step i sent g = (case gw_heap g i of
     None \<Rightarrow> g
   | Some cn \<Rightarrow> (case cn_drain cn of
       None \<Rightarrow> g
     | Some Take_next \<Rightarrow> if \<not> is_current i cn g then put_conn i (cn\<lparr>cn_drain := None\<rparr>) g
         else (case cn_pending cn of
             [] \<Rightarrow> put_conn i (cn\<lparr>cn_drain := None\<rparr>) g
           | e # es \<Rightarrow> put_conn i (cn\<lparr>cn_pending := es, cn_drain := Some (Sending e)\<rparr>) g)
     | Some (Sending e) \<Rightarrow> if sent then put_conn i (cn\<lparr>cn_wire := cn_wire cn @ [e], cn_drain := Some (Marking e)\<rparr>) g
         else put_conn i (cn\<lparr>cn_drain := None\<rparr>) (drop_conn i cn g)
     | Some (Marking e) \<Rightarrow> if \<not> is_current i cn g then put_conn i (cn\<lparr>cn_drain := Some Take_next\<rparr>) g
         else (case mark_events_sent (cn_device cn) (ie_seq e) (gw_store g) of
             Inl _ \<Rightarrow> put_conn i (cn\<lparr>cn_drain := None\<rparr>) g
           | Inr (_, s') \<Rightarrow> put_conn i (cn\<lparr>cn_drain := (case cn_barrier cn of
                 None \<Rightarrow> Some Take_next | Some b \<Rightarrow> if b \<le> ie_seq e then None else Some Take_next)\<rparr>) (g\<lparr>gw_store := s'\<rparr>))))"

text \<open>An acknowledgement read from a connection; frames are read only after its resume.\<close>

definition ack_frame :: "nat \<Rightarrow> int \<Rightarrow> gateway \<Rightarrow> gateway" where
  "ack_frame i n g = (case gw_heap g i of
     None \<Rightarrow> g
   | Some cn \<Rightarrow> if cn_resume cn \<noteq> Resumed \<or> \<not> is_current i cn g then g
       else (case acknowledge_events (cn_device cn) n (gw_store g) of Inl _ \<Rightarrow> g | Inr (_, s') \<Rightarrow> g\<lparr>gw_store := s'\<rparr>))"

text \<open>A command whose reply must follow the events stored so far sets a barrier, and clears it after the reply.\<close>

definition set_barrier :: "nat \<Rightarrow> gateway \<Rightarrow> gateway" where
  "set_barrier i g = (case gw_heap g i of
     None \<Rightarrow> g
   | Some cn \<Rightarrow> if \<not> is_current i cn g then g
       else (case read_cursor (cn_device cn) (gw_store g) of
           Inl _ \<Rightarrow> g
         | Inr c \<Rightarrow> if cu_sent c < cu_next c - 1 then put_conn i (cn\<lparr>cn_barrier := Some (cu_next c - 1)\<rparr>) g else g))"

definition clear_barrier :: "nat \<Rightarrow> int \<Rightarrow> gateway \<Rightarrow> gateway" where
  "clear_barrier i b g = (case gw_heap g i of
     None \<Rightarrow> g
   | Some cn \<Rightarrow> if cn_barrier cn \<noteq> Some b then g
       else let cn' = cn\<lparr>cn_barrier := None\<rparr> in put_conn i (if is_current i cn g then schedule_delivery cn' else cn') g)"

text \<open>The other operations of the server on the store; the inbox is only written under the delivery lock.\<close>

definition outside_inbox :: "mobile_cmd \<Rightarrow> bool" where
  "outside_inbox c = (case c of Append_events _ _ _ _ \<Rightarrow> False | Rebase _ _ _ _ _ \<Rightarrow> False | Mark_sent _ _ \<Rightarrow> False
     | Acknowledge _ _ \<Rightarrow> False | _ \<Rightarrow> True)"

datatype gw_cmd =
    Resume_begin int int string string int int | Resume_step nat bool
  | Publish audience "string option" string string int | Drain_step nat bool | Ack_frame nat int
  | Set_barrier nat | Clear_barrier nat int | Disconnect nat | Store_cmd mobile_cmd | Restart_server

definition gw_exec :: "wire_codec \<Rightarrow> int \<Rightarrow> gw_cmd \<Rightarrow> gateway \<Rightarrow> gateway" where
  "gw_exec W retention c g = (case c of
     Resume_begin now created eid d epoch last_ack \<Rightarrow> resume_begin W retention now created eid d epoch last_ack g
   | Resume_step i sent \<Rightarrow> resume_step W i sent g
   | Publish a cap eid env now \<Rightarrow> publish_event a cap eid env now g
   | Drain_step i sent \<Rightarrow> drain_step i sent g
   | Ack_frame i n \<Rightarrow> ack_frame i n g
   | Set_barrier i \<Rightarrow> set_barrier i g
   | Clear_barrier i b \<Rightarrow> clear_barrier i b g
   | Disconnect i \<Rightarrow> (case gw_heap g i of None \<Rightarrow> g | Some cn \<Rightarrow> drop_conn i cn g)
   | Store_cmd m \<Rightarrow> if outside_inbox m then g\<lparr>gw_store := mobile_exec m (gw_store g)\<rparr> else g
   | Restart_server \<Rightarrow> g\<lparr>gw_conns := [], gw_heap := (\<lambda>_. None)\<rparr>)"

inductive gw_reachable :: "wire_codec \<Rightarrow> int \<Rightarrow> gateway \<Rightarrow> bool" for W retention where
  gw_new: "gw_reachable W retention new_gateway"
| gw_more: "gw_reachable W retention g \<Longrightarrow> gw_reachable W retention (gw_exec W retention c g)"

subsection \<open>The frames of a connection\<close>

text \<open>What a connection still has to send, and what it still has to mark as sent.\<close>

definition window_left :: "connection \<Rightarrow> inbox_event list \<Rightarrow> inbox_event list" where
  "window_left cn rows = (case cn_resume cn of Window after through t _ \<Rightarrow> between after through rows @ [t] | _ \<Rightarrow> [])"

definition to_send :: "connection \<Rightarrow> inbox_event list \<Rightarrow> inbox_event list" where
  "to_send cn rows = window_left cn rows @ (case cn_drain cn of Some (Sending e) \<Rightarrow> [e] | _ \<Rightarrow> []) @ cn_pending cn"

definition to_mark :: "connection \<Rightarrow> inbox_event list" where
  "to_mark cn = (case cn_resume cn of Window _ _ t _ \<Rightarrow> [t] | Mark_terminal t \<Rightarrow> [t] | _ \<Rightarrow> []) @
     (case cn_drain cn of Some (Sending e) \<Rightarrow> [e] | Some (Marking e) \<Rightarrow> [e] | _ \<Rightarrow> []) @ cn_pending cn"

definition pc_ok :: "device_cursor \<Rightarrow> connection \<Rightarrow> inbox_event list \<Rightarrow> bool" where
  "pc_ok c cn rows \<longleftrightarrow> (case cn_resume cn of
       Window after through t page \<Rightarrow> (\<exists>k. page = take k (between after through rows)) \<and> (after < through \<longrightarrow> cu_acked c \<le> after) \<and>
         through < ie_seq t \<and> cn_drain cn = None \<and> \<not> cn_ready cn
     | Mark_terminal t \<Rightarrow> cn_drain cn = None \<and> \<not> cn_ready cn
     | Make_ready \<Rightarrow> cn_drain cn = None \<and> \<not> cn_ready cn
     | Resumed \<Rightarrow> True
     | Resume_failed \<Rightarrow> False)"

definition frames_ok :: "device_cursor \<Rightarrow> connection \<Rightarrow> inbox_event list \<Rightarrow> bool" where
  "frames_ok c cn rows \<longleftrightarrow> (\<exists>a. map ie_seq (cn_wire cn @ to_send cn rows) = [a..cu_next c - 1]) \<and>
     sorted (map ie_seq (to_mark cn)) \<and> (\<forall>e \<in> set (to_mark cn). cu_sent c \<le> ie_seq e \<and> ie_seq e < cu_next c) \<and> pc_ok c cn rows"

lemma schedule_sel [simp]:
  "cn_device (schedule_delivery cn) = cn_device cn" "cn_resume (schedule_delivery cn) = cn_resume cn"
  "cn_wire (schedule_delivery cn) = cn_wire cn" "cn_pending (schedule_delivery cn) = cn_pending cn"
  "cn_ready (schedule_delivery cn) = cn_ready cn"
  by (simp_all add: schedule_delivery_def)

lemma schedule_lists [simp]: "to_send (schedule_delivery cn) rows = to_send cn rows" "to_mark (schedule_delivery cn) = to_mark cn"
  by (auto simp: to_send_def to_mark_def window_left_def schedule_delivery_def)

lemma schedule_pc [simp]: "pc_ok c (schedule_delivery cn) rows = pc_ok c cn rows"
  by (auto simp: pc_ok_def schedule_delivery_def split: resume_pc.splits)

lemma frames_schedule [simp]: "frames_ok c (schedule_delivery cn) rows = frames_ok c cn rows"
  by (simp add: frames_ok_def)

text \<open>A new event at the end of the inbox and of the queue.\<close>

lemma between_snoc: "through < ie_seq e \<Longrightarrow> between after through (rows @ [e]) = between after through rows"
  by (simp add: between_def)

lemma frames_append:
  assumes "frames_ok c cn rows" "ie_seq e = cu_next c" "cu_sent c < cu_next c"
  shows "frames_ok (c\<lparr>cu_next := cu_next c + 1\<rparr>) (cn\<lparr>cn_pending := cn_pending cn @ [e]\<rparr>) (rows @ [e])"
proof -
  have left: "window_left (cn\<lparr>cn_pending := cn_pending cn @ [e]\<rparr>) (rows @ [e]) = window_left cn rows"
  proof (cases "cn_resume cn")
    case (Window after through t page)
    then have "through < ie_seq t" "ie_seq t < cu_next c" using assms(1) by (auto simp: frames_ok_def pc_ok_def to_mark_def)
    then show ?thesis using Window assms(2) by (simp add: window_left_def between_snoc)
  qed (simp_all add: window_left_def)
  have pc: "pc_ok (c\<lparr>cu_next := cu_next c + 1\<rparr>) (cn\<lparr>cn_pending := cn_pending cn @ [e]\<rparr>) (rows @ [e])"
  proof (cases "cn_resume cn")
    case (Window after through t page)
    then have "through < ie_seq t" "ie_seq t < cu_next c" using assms(1) by (auto simp: frames_ok_def pc_ok_def to_mark_def)
    then have "between after through (rows @ [e]) = between after through rows" using assms(2) by (simp add: between_snoc)
    then show ?thesis using assms(1) Window by (simp add: frames_ok_def pc_ok_def)
  qed (use assms(1) in \<open>simp_all add: frames_ok_def pc_ok_def\<close>)
  obtain a where a: "map ie_seq (cn_wire cn @ to_send cn rows) = [a..cu_next c - 1]" using assms(1) by (auto simp: frames_ok_def)
  have "\<exists>a. map ie_seq (cn_wire cn @ to_send cn rows) @ [cu_next c] = [a..cu_next c]"
  proof (cases "a \<le> cu_next c")
    case True
    then show ?thesis using a upto_rec2[of a "cu_next c"] by metis
  next
    case False
    then have "map ie_seq (cn_wire cn @ to_send cn rows) = []" using a by simp
    then show ?thesis by (intro exI[of _ "cu_next c"]) simp
  qed
  moreover have "to_send (cn\<lparr>cn_pending := cn_pending cn @ [e]\<rparr>) (rows @ [e]) = to_send cn rows @ [e]" using left by (simp add: to_send_def)
  moreover have "to_mark (cn\<lparr>cn_pending := cn_pending cn @ [e]\<rparr>) = to_mark cn @ [e]" by (simp add: to_mark_def)
  moreover have "sorted (map ie_seq (to_mark cn @ [e]))" "\<forall>x \<in> set (to_mark cn @ [e]). ie_seq x < cu_next c + 1"
    using assms by (force simp: frames_ok_def sorted_append)+
  ultimately show ?thesis using assms pc by (auto simp: frames_ok_def)
qed

text \<open>The steps of a resume.\<close>

lemma between_step: "sorted_wrt (<) (map ie_seq es) \<Longrightarrow> between a m es = e # B \<Longrightarrow> between (ie_seq e) m es = B"
proof (induction es)
  case (Cons x xs)
  show ?case
  proof (cases "a < ie_seq x \<and> ie_seq x \<le> m")
    case True
    then have e: "e = x" "B = between a m xs" using Cons.prems(2) by (simp_all add: between_def)
    have "\<forall>y \<in> set xs. ie_seq x < ie_seq y" using Cons.prems(1) by simp
    then have "between (ie_seq x) m xs = between a m xs" unfolding between_def using True by (intro filter_cong) auto
    then show ?thesis using e by (simp add: between_def)
  next
    case False
    then have B: "between a m xs = e # B" using Cons.prems(2) by (simp add: between_def split: if_splits)
    then have "e \<in> set (between a m xs)" by simp
    then have "e \<in> set xs" by (simp add: between_def)
    then have "ie_seq x < ie_seq e" using Cons.prems(1) by simp
    then show ?thesis using Cons.IH[OF _ B] Cons.prems(1) by (simp add: between_def)
  qed
qed (simp add: between_def)

lemma filter_take_sorted: "sorted (map f xs) \<Longrightarrow> filter (\<lambda>x. f x \<le> m) (take n xs) = take n (filter (\<lambda>x. f x \<le> m) xs)" for m :: int
proof (induction xs arbitrary: n)
  case (Cons x xs)
  show ?case
  proof (cases "f x \<le> m")
    case True
    then show ?thesis using Cons by (cases n) simp_all
  next
    case False
    then have all: "\<forall>y \<in> set xs. \<not> f y \<le> m" using Cons.prems by force
    moreover have "\<forall>y \<in> set (take k xs). \<not> f y \<le> m" for k using all by (meson in_set_takeD)
    ultimately show ?thesis using False by (cases n) (simp_all add: filter_empty_conv)
  qed
qed simp

lemma read_page:
  assumes "read_events obj d after 512 s = Inr rows" "sorted (map ie_seq (inbox_of d s))"
  shows "filter (\<lambda>e. ie_seq e \<le> through) rows = take 512 (between after through (inbox_of d s))"
proof -
  define F where "F = filter (\<lambda>e. ie_seq e > after) (inbox_of d s)"
  have "sorted (map ie_seq F)" using assms(2) by (simp add: F_def sorted_filter)
  moreover from this have "rows = take 512 F" using assms(1)
    by (auto simp: read_events_def Let_def F_def[symmetric] sort_key_id_if_sorted split: if_splits)
  moreover have "filter (\<lambda>e. ie_seq e \<le> through) F = between after through (inbox_of d s)"
    unfolding F_def between_def filter_filter by (rule filter_cong) auto
  ultimately show ?thesis using filter_take_sorted[of ie_seq F through 512] by simp
qed

lemma frames_page:
  assumes "frames_ok c cn rows" "cn_resume cn = Window after through t page" "page' = take k (between after through rows)"
  shows "frames_ok c (cn\<lparr>cn_resume := Window after through t page'\<rparr>) rows"
  using assms by (auto simp: frames_ok_def to_send_def to_mark_def window_left_def pc_ok_def)

lemma frames_send_event:
  assumes "frames_ok c cn rows" "cn_resume cn = Window after through t (e # rest)" "sorted_wrt (<) (map ie_seq rows)"
  shows "frames_ok c (cn\<lparr>cn_wire := cn_wire cn @ [e], cn_resume := Window (ie_seq e) through t rest\<rparr>) rows"
proof -
  obtain k where k: "e # rest = take k (between after through rows)" using assms(1,2) by (auto simp: frames_ok_def pc_ok_def)
  then obtain B where B: "between after through rows = e # B" "rest = take (k - 1) B" by (cases "between after through rows"; cases k) auto
  note next' = between_step[OF assms(3) B(1)]
  have "e \<in> set (between after through rows)" using B(1) by simp
  then have e: "after < ie_seq e" "ie_seq e \<le> through" by (simp_all add: between_def)
  have "pc_ok c (cn\<lparr>cn_wire := cn_wire cn @ [e], cn_resume := Window (ie_seq e) through t rest\<rparr>) rows"
    using assms(1,2) B(2) e next' by (auto simp: frames_ok_def pc_ok_def)
  moreover have "(cn_wire cn @ [e]) @ to_send (cn\<lparr>cn_wire := cn_wire cn @ [e], cn_resume := Window (ie_seq e) through t rest\<rparr>) rows =
      cn_wire cn @ to_send cn rows"
    using assms(2) B(1) next' by (simp add: to_send_def window_left_def)
  moreover have "to_mark (cn\<lparr>cn_wire := cn_wire cn @ [e], cn_resume := Window (ie_seq e) through t rest\<rparr>) = to_mark cn"
    using assms(2) by (simp add: to_mark_def)
  ultimately show ?thesis using assms(1) by (simp add: frames_ok_def del: append_assoc)
qed

lemma frames_send_last:
  assumes "frames_ok c cn rows" "cn_resume cn = Window after through t page" "\<not> after < through"
  shows "frames_ok c (cn\<lparr>cn_wire := cn_wire cn @ [t], cn_resume := Mark_terminal t\<rparr>) rows"
proof -
  have "between after through rows = []" using assms(3) by simp
  then show ?thesis using assms(1,2)
    by (auto simp: frames_ok_def to_send_def to_mark_def window_left_def pc_ok_def)
qed

lemma sent_mark_rest:
  assumes "frames_ok c cn rows" "to_mark cn = e # es"
  shows "cu_sent c \<le> ie_seq e" "ie_seq e < cu_next c" "\<forall>x \<in> set es. ie_seq e \<le> ie_seq x" "sorted (map ie_seq es)"
  using assms by (auto simp: frames_ok_def)

lemma frames_marked_terminal:
  assumes "frames_ok c cn rows" "cn_resume cn = Mark_terminal t"
  shows "frames_ok (c\<lparr>cu_sent := ie_seq t\<rparr>) (cn\<lparr>cn_resume := Make_ready\<rparr>) rows"
  using assms by (auto simp: frames_ok_def to_send_def to_mark_def window_left_def pc_ok_def)

lemma frames_ready:
  assumes "frames_ok c cn rows" "cn_resume cn = Make_ready"
  shows "frames_ok c (cn\<lparr>cn_ready := True, cn_resume := Resumed\<rparr>) rows"
  using assms by (auto simp: frames_ok_def to_send_def to_mark_def window_left_def pc_ok_def)

text \<open>The steps of the draining task.\<close>

lemma pc_resumed: "pc_ok c cn rows \<Longrightarrow> cn_drain cn \<noteq> None \<Longrightarrow> cn_resume cn = Resumed"
  by (auto simp: pc_ok_def split: resume_pc.splits)

lemma frames_take:
  assumes "frames_ok c cn rows" "cn_drain cn = Some Take_next" "cn_pending cn = e # es"
  shows "frames_ok c (cn\<lparr>cn_pending := es, cn_drain := Some (Sending e)\<rparr>) rows"
  using assms pc_resumed[of c cn rows] by (auto simp: frames_ok_def to_send_def to_mark_def window_left_def pc_ok_def)

lemma frames_idle:
  assumes "frames_ok c cn rows" "cn_drain cn = Some Take_next"
  shows "frames_ok c (cn\<lparr>cn_drain := None\<rparr>) rows"
  using assms pc_resumed[of c cn rows] by (auto simp: frames_ok_def to_send_def to_mark_def window_left_def pc_ok_def)

lemma frames_sent:
  assumes "frames_ok c cn rows" "cn_drain cn = Some (Sending e)"
  shows "frames_ok c (cn\<lparr>cn_wire := cn_wire cn @ [e], cn_drain := Some (Marking e)\<rparr>) rows"
  using assms pc_resumed[of c cn rows] by (auto simp: frames_ok_def to_send_def to_mark_def window_left_def pc_ok_def)

lemma frames_marked:
  assumes "frames_ok c cn rows" "cn_drain cn = Some (Marking e)" "dr = None \<or> dr = Some Take_next"
  shows "frames_ok (c\<lparr>cu_sent := ie_seq e\<rparr>) (cn\<lparr>cn_drain := dr\<rparr>) rows"
  using assms pc_resumed[of c cn rows] by (auto simp: frames_ok_def to_send_def to_mark_def window_left_def pc_ok_def)

lemma frames_ack:
  assumes "frames_ok c cn rows" "cn_resume cn = Resumed"
  shows "frames_ok (c\<lparr>cu_acked := n\<rparr>) cn rows'"
  using assms by (auto simp: frames_ok_def to_send_def window_left_def pc_ok_def)

lemma frames_barrier [simp]: "frames_ok c (cn\<lparr>cn_barrier := b\<rparr>) rows = frames_ok c cn rows"
  by (simp add: frames_ok_def to_send_def to_mark_def window_left_def pc_ok_def cong: resume_pc.case_cong)

subsection \<open>Every step keeps the frames of the current connections\<close>

definition conn_at :: "gateway \<Rightarrow> string \<Rightarrow> connection option" where
  "conn_at g d = Option.bind (dict_get (gw_conns g) d) (gw_heap g)"

definition conn_ok :: "mobile_store \<Rightarrow> connection \<Rightarrow> bool" where
  "conn_ok s cn \<longleftrightarrow> (\<exists>c. dict_get (ms_cursors s) (cn_device cn) = Some c \<and>
     (live_device s (cn_device cn) \<longrightarrow> frames_ok c cn (inbox_of (cn_device cn) s)))"

definition gw_linked :: "gateway \<Rightarrow> bool" where
  "gw_linked g \<longleftrightarrow> (\<forall>i cn. gw_heap g i = Some cn \<longrightarrow> i < gw_count g) \<and>
     (\<forall>d i. dict_get (gw_conns g) d = Some i \<longrightarrow> (\<exists>cn. gw_heap g i = Some cn \<and> cn_device cn = d \<and> d \<noteq> []))"

definition gw_ok :: "gateway \<Rightarrow> bool" where
  "gw_ok g \<longleftrightarrow> mobile_ok (gw_store g) \<and> gw_linked g \<and> (\<forall>d cn. conn_at g d = Some cn \<longrightarrow> conn_ok (gw_store g) cn)"

lemma conn_at_store [simp]: "conn_at (g\<lparr>gw_store := s\<rparr>) d = conn_at g d"
  by (simp add: conn_at_def)

lemma linked_store [simp]: "gw_linked (g\<lparr>gw_store := s\<rparr>) = gw_linked g"
  by (simp add: gw_linked_def)

lemma conn_at_put: "conn_at (put_conn i cn g) d = (if dict_get (gw_conns g) d = Some i then Some cn else conn_at g d)"
  by (auto simp: conn_at_def put_conn_def split: bind_splits)

lemma linked_put: "gw_linked g \<Longrightarrow> gw_heap g i = Some cn \<Longrightarrow> cn_device cn' = cn_device cn \<Longrightarrow> gw_linked (put_conn i cn' g)"
  by (fastforce simp: gw_linked_def put_conn_def)

lemma put_store [simp]: "gw_store (put_conn i cn g) = gw_store g" "gw_store (drop_conn i cn g) = gw_store g"
  by (simp_all add: put_conn_def drop_conn_def)

lemma conn_at_drop: "conn_at (drop_conn i cn g) d = (if is_current i cn g \<and> d = cn_device cn then None else conn_at g d)"
  by (auto simp: conn_at_def drop_conn_def split: bind_splits)

lemma linked_drop: "gw_linked g \<Longrightarrow> gw_linked (drop_conn i cn g)"
  by (auto simp: gw_linked_def drop_conn_def)

lemma drop_heap [simp]: "gw_heap (drop_conn i cn g) = gw_heap g"
  by (simp add: drop_conn_def)

lemma linked_device: "gw_linked g \<Longrightarrow> conn_at g d = Some cn \<Longrightarrow> cn_device cn = d \<and> d \<noteq> []"
  by (fastforce simp: gw_linked_def conn_at_def split: bind_splits)

lemma current_at:
  assumes "gw_linked g" "gw_heap g i = Some cn"
  shows "dict_get (gw_conns g) d = Some i \<longleftrightarrow> is_current i cn g \<and> d = cn_device cn"
  using assms by (force simp: gw_linked_def is_current_def)

lemma gw_okD:
  assumes "gw_ok g"
  shows "mobile_ok (gw_store g)" "gw_linked g" "conn_at g d = Some cn \<Longrightarrow> conn_ok (gw_store g) cn"
  using assms by (simp_all add: gw_ok_def)

lemma gw_ok_put:
  assumes "gw_ok g" "gw_heap g i = Some cn" "cn_device cn' = cn_device cn"
    and "is_current i cn g \<Longrightarrow> conn_ok (gw_store g) cn \<Longrightarrow> conn_ok (gw_store g) cn'"
  shows "gw_ok (put_conn i cn' g)"
proof -
  have "conn_ok (gw_store g) x" if "conn_at (put_conn i cn' g) d = Some x" for d x
  proof (cases "dict_get (gw_conns g) d = Some i")
    case True
    then have "is_current i cn g" using current_at[OF gw_okD(2)[OF assms(1)] assms(2)] by blast
    moreover have "conn_at g d = Some cn" using True assms(2) by (simp add: conn_at_def)
    ultimately show ?thesis using assms(4) gw_okD(3)[OF assms(1)] that True by (simp add: conn_at_put)
  next
    case False
    then show ?thesis using that gw_okD(3)[OF assms(1)] by (simp add: conn_at_put)
  qed
  then show ?thesis using gw_okD(1,2)[OF assms(1)] linked_put[OF _ assms(2,3)] by (simp add: gw_ok_def)
qed

lemma gw_ok_drop: "gw_ok g \<Longrightarrow> gw_ok (drop_conn i cn g)"
  by (auto simp: gw_ok_def linked_drop conn_at_drop split: if_splits)

lemma gw_ok_gone:
  assumes "gw_ok g" "gw_heap g i = Some cn" "cn_device cn' = cn_device cn"
  shows "gw_ok (put_conn i cn' (drop_conn i cn g))"
proof (rule gw_ok_put[OF gw_ok_drop[OF assms(1)], of i cn])
  assume "is_current i cn (drop_conn i cn g)"
  then show "conn_ok (gw_store (drop_conn i cn g)) cn'" by (auto simp: is_current_def drop_conn_def split: if_splits)
qed (use assms in simp_all)

lemma conn_ok_same:
  assumes "conn_ok s cn" "live_device s' (cn_device cn) \<Longrightarrow> live_device s (cn_device cn)"
    and "dict_get (ms_cursors s') (cn_device cn) = dict_get (ms_cursors s) (cn_device cn)" "inbox_of (cn_device cn) s' = inbox_of (cn_device cn) s"
  shows "conn_ok s' cn"
  using assms by (auto simp: conn_ok_def)

text \<open>A store operation on behalf of the current connection of one device.\<close>

lemma gw_ok_put_store:
  assumes "gw_ok g" "gw_heap g i = Some cn" "is_current i cn g" "cn_device cn' = cn_device cn" "mobile_ok s'"
    and "ms_devices s' = ms_devices (gw_store g)"
    and "\<And>x. x \<noteq> cn_device cn \<Longrightarrow> dict_get (ms_cursors s') x = dict_get (ms_cursors (gw_store g)) x \<and> inbox_of x s' = inbox_of x (gw_store g)"
    and "conn_ok (gw_store g) cn \<Longrightarrow> conn_ok s' cn'"
  shows "gw_ok (put_conn i cn' (g\<lparr>gw_store := s'\<rparr>))"
proof -
  have l: "gw_linked g" by (rule gw_okD(2)[OF assms(1)])
  have "conn_ok s' x" if "conn_at (put_conn i cn' (g\<lparr>gw_store := s'\<rparr>)) d = Some x" for d x
  proof (cases "dict_get (gw_conns g) d = Some i")
    case True
    then have "conn_at g d = Some cn" using assms(2) by (simp add: conn_at_def)
    then show ?thesis using that True assms(8) gw_okD(3)[OF assms(1)] by (simp add: conn_at_put)
  next
    case False
    then have x: "conn_at g d = Some x" using that by (simp add: conn_at_put)
    then have d: "cn_device x = d" using linked_device[OF l] by blast
    have "d \<noteq> cn_device cn" using False assms(3) by (auto simp: is_current_def)
    then have "dict_get (ms_cursors s') d = dict_get (ms_cursors (gw_store g)) d" "inbox_of d s' = inbox_of d (gw_store g)"
      using assms(7) by simp_all
    moreover have "live_device s' d = live_device (gw_store g) d" by (rule live_devices[OF assms(6)])
    ultimately show ?thesis using conn_ok_same[OF gw_okD(3)[OF assms(1) x], of s'] d by simp
  qed
  moreover have "gw_linked (put_conn i cn' (g\<lparr>gw_store := s'\<rparr>))" using l assms(2,4) by (intro linked_put[of _ i cn]) simp_all
  ultimately show ?thesis using assms(5) by (simp add: gw_ok_def)
qed

lemma mark_parts:
  assumes "mark_events_sent d n s = Inr (c', s')" "dict_get (ms_cursors s) d = Some c"
  shows "dict_get (ms_cursors s') x = (if x = d then Some (c\<lparr>cu_sent := n\<rparr>) else dict_get (ms_cursors s) x)"
    "inbox_of x s' = inbox_of x s" "ms_devices s' = ms_devices s"
  using assms by (auto simp: mark_events_sent_def Let_def split: if_splits option.splits)

lemma mark_succeeds:
  assumes "dict_get (ms_cursors s) d = Some c" "d \<noteq> []" "0 \<le> cu_sent c" "cu_sent c \<le> n" "n < cu_next c"
  shows "\<exists>r. mark_events_sent d n s = Inr r"
  using assms by (simp add: mark_events_sent_def Let_def)

lemma mark_cursor: "mark_events_sent d n s = Inr r \<Longrightarrow> \<exists>c. dict_get (ms_cursors s) d = Some c"
  by (auto simp: mark_events_sent_def split: if_splits option.splits)

lemma conn_box:
  assumes "mobile_ok s" "dict_get (ms_cursors s) d = Some c"
  shows "0 \<le> cu_sent c" "cu_sent c < cu_next c" "sorted_wrt (<) (map ie_seq (inbox_of d s))" "sorted (map ie_seq (inbox_of d s))"
  using mobile_okD(2)[OF assms] by (auto simp: box_ok_def strict_sorted_iff)

text \<open>Marking an event that is due on the current connection of a live device succeeds.\<close>

lemma due_marks:
  assumes "gw_ok g" "gw_heap g i = Some cn" "is_current i cn g" "e \<in> set (to_mark cn)" "live_device (gw_store g) (cn_device cn)"
  shows "\<exists>r. mark_events_sent (cn_device cn) (ie_seq e) (gw_store g) = Inr r"
proof -
  have at: "conn_at g (cn_device cn) = Some cn" using assms(2,3) by (simp add: conn_at_def is_current_def)
  obtain c where c: "dict_get (ms_cursors (gw_store g)) (cn_device cn) = Some c" "frames_ok c cn (inbox_of (cn_device cn) (gw_store g))"
    using gw_okD(3)[OF assms(1) at] assms(5) by (auto simp: conn_ok_def)
  have "cn_device cn \<noteq> []" using linked_device[OF gw_okD(2)[OF assms(1)] at] by simp
  then show ?thesis using mark_succeeds[OF c(1)] conn_box(1)[OF gw_okD(1)[OF assms(1)] c(1)] c(2) assms(4) by (auto simp: frames_ok_def)
qed

lemma gw_ok_mark:
  assumes "gw_ok g" "gw_heap g i = Some cn" "is_current i cn g" "cn_device cn' = cn_device cn"
    and "mark_events_sent (cn_device cn) n (gw_store g) = Inr (c', s')"
    and "\<And>c rows. frames_ok c cn rows \<Longrightarrow> frames_ok (c\<lparr>cu_sent := n\<rparr>) cn' rows"
  shows "gw_ok (put_conn i cn' (g\<lparr>gw_store := s'\<rparr>))"
proof -
  obtain c where c: "dict_get (ms_cursors (gw_store g)) (cn_device cn) = Some c" using mark_cursor[OF assms(5)] by blast
  note m = mark_parts[OF assms(5) c]
  have "conn_ok s' cn'" if "conn_ok (gw_store g) cn"
    using that m c assms(4,6) by (auto simp: conn_ok_def live_devices[OF m(3)])
  then show ?thesis using sent_ok[OF gw_okD(1)[OF assms(1)] assms(5)] m by (intro gw_ok_put_store[OF assms(1-4)]) simp_all
qed

lemma ack_frame_parts:
  assumes "acknowledge_events d n s = Inr (a, s')" "dict_get (ms_cursors s) d = Some c"
  shows "ms_devices s' = ms_devices s" "x \<noteq> d \<Longrightarrow> dict_get (ms_cursors s') x = dict_get (ms_cursors s) x \<and> inbox_of x s' = inbox_of x s"
    "dict_get (ms_cursors s') d = Some (c\<lparr>cu_acked := n\<rparr>)"
proof -
  have "ms_devices s' = ms_devices s \<and> (\<forall>x. x \<noteq> d \<longrightarrow> dict_get (ms_cursors s') x = dict_get (ms_cursors s) x \<and> inbox_of x s' = inbox_of x s) \<and>
      dict_get (ms_cursors s') d = Some (c\<lparr>cu_acked := n\<rparr>)"
  proof (cases "n = cu_acked c")
    case True
    then show ?thesis using assms by (auto simp: acknowledge_events_def split: if_splits)
  next
    case False
    then have s': "s' = put_cursor d (c\<lparr>cu_acked := n\<rparr>) (s\<lparr>ms_inbox := filter (\<lambda>e. \<not> (ie_device e = d \<and> ie_seq e \<le> n)) (ms_inbox s)\<rparr>)"
      using assms by (auto simp: acknowledge_events_def put_cursor_def Let_def split: if_splits)
    have "inbox_of x s' = (if x = d then filter (\<lambda>e. n < ie_seq e) (inbox_of d s) else inbox_of x s)" for x
      unfolding s' by (simp only: inbox_of_frame inbox_of_ack)
    moreover have "ms_devices s' = ms_devices s" "dict_get (ms_cursors s') x = (if x = d then Some (c\<lparr>cu_acked := n\<rparr>) else dict_get (ms_cursors s) x)" for x
      by (simp_all add: s')
    ultimately show ?thesis by simp
  qed
  then show "ms_devices s' = ms_devices s" "x \<noteq> d \<Longrightarrow> dict_get (ms_cursors s') x = dict_get (ms_cursors s) x \<and> inbox_of x s' = inbox_of x s"
    "dict_get (ms_cursors s') d = Some (c\<lparr>cu_acked := n\<rparr>)" by auto
qed

text \<open>Appending to several devices at once.\<close>

lemma store_event_frame:
  assumes "store_event e s = Inr s'"
  shows "\<exists>c. dict_get (ms_cursors s) (ie_device e) = Some c \<and> ie_seq e = cu_next c \<and>
    (\<forall>x. dict_get (ms_cursors s') x = (if x = ie_device e then Some (c\<lparr>cu_next := cu_next c + 1\<rparr>) else dict_get (ms_cursors s) x) \<and>
      inbox_of x s' = (if x = ie_device e then inbox_of x s @ [e] else inbox_of x s))"
  using store_event_parts[OF assms] by force

lemma store_events_frame:
  assumes "store_events es s = Inr s'" "distinct (map ie_device es)"
  shows "(\<forall>x. x \<notin> ie_device ` set es \<longrightarrow> dict_get (ms_cursors s') x = dict_get (ms_cursors s) x \<and> inbox_of x s' = inbox_of x s) \<and>
    (\<forall>e \<in> set es. \<exists>c. dict_get (ms_cursors s) (ie_device e) = Some c \<and> ie_seq e = cu_next c \<and>
      dict_get (ms_cursors s') (ie_device e) = Some (c\<lparr>cu_next := cu_next c + 1\<rparr>) \<and> inbox_of (ie_device e) s' = inbox_of (ie_device e) s @ [e])"
  using assms
proof (induction es arbitrary: s)
  case (Cons e es)
  then obtain s1 where s1: "store_event e s = Inr s1" "store_events es s1 = Inr s'" by (auto split: sum.splits)
  obtain c where c: "dict_get (ms_cursors s) (ie_device e) = Some c" "ie_seq e = cu_next c"
      and f: "\<And>x. dict_get (ms_cursors s1) x = (if x = ie_device e then Some (c\<lparr>cu_next := cu_next c + 1\<rparr>) else dict_get (ms_cursors s) x)"
        "\<And>x. inbox_of x s1 = (if x = ie_device e then inbox_of x s @ [e] else inbox_of x s)"
    using store_event_frame[OF s1(1)] by blast
  have d: "ie_device e \<notin> ie_device ` set es" "distinct (map ie_device es)" using Cons.prems(2) by simp_all
  note IH = Cons.IH[OF s1(2) d(2)]
  have outside: "dict_get (ms_cursors s') x = dict_get (ms_cursors s1) x \<and> inbox_of x s' = inbox_of x s1" if "x \<notin> ie_device ` set es" for x
    using IH that by blast
  show ?case
  proof (intro conjI allI impI ballI)
    fix x assume "x \<notin> ie_device ` set (e # es)"
    then show "dict_get (ms_cursors s') x = dict_get (ms_cursors s) x" "inbox_of x s' = inbox_of x s" using outside[of x] f by simp_all
  next
    fix a assume a: "a \<in> set (e # es)"
    show "\<exists>c. dict_get (ms_cursors s) (ie_device a) = Some c \<and> ie_seq a = cu_next c \<and>
      dict_get (ms_cursors s') (ie_device a) = Some (c\<lparr>cu_next := cu_next c + 1\<rparr>) \<and> inbox_of (ie_device a) s' = inbox_of (ie_device a) s @ [a]"
    proof (cases "a = e")
      case True
      then show ?thesis using outside[OF d(1)] c f by simp
    next
      case False
      then have "a \<in> set es" using a by simp
      moreover from this have "ie_device a \<noteq> ie_device e" using d(1) by (metis image_eqI)
      moreover obtain ca where "dict_get (ms_cursors s1) (ie_device a) = Some ca" "ie_seq a = cu_next ca"
          "dict_get (ms_cursors s') (ie_device a) = Some (ca\<lparr>cu_next := cu_next ca + 1\<rparr>)"
          "inbox_of (ie_device a) s' = inbox_of (ie_device a) s1 @ [a]" using IH \<open>a \<in> set es\<close> by blast
      ultimately show ?thesis using f by simp
    qed
  qed
qed simp

lemma append_events_frame:
  assumes "append_events ds eid env now s = Inr (es, s')"
  shows "map ie_device es = ds" "distinct (map ie_device es)" "store_events es s = Inr s'"
proof -
  have al: "map fst al = ds" if "allocate_events ds s = Inr al" for al ds
    using that by (induction ds arbitrary: al) (auto split: option.splits sum.splits)
  have "map ie_device es = ds \<and> store_events es s = Inr s' \<and> distinct ds"
  proof (cases "ds = []")
    case False
    obtain al where a: "allocate_events ds s = Inr al" "store_events es s = Inr s'"
        "es = map (\<lambda>(d, n). \<lparr>ie_device = d, ie_seq = n, ie_id = eid, ie_envelope = env, ie_created = now\<rparr>) al"
      using append_events_parts[OF assms False] by blast
    have "map ie_device es = map fst al" using a(3) by (simp add: case_prod_beta o_def)
    moreover have "distinct ds" using assms by (auto simp: append_events_def split: if_splits)
    ultimately show ?thesis using al[OF a(1)] a(2) by simp
  qed (use assms in \<open>auto simp: append_events_def split: if_splits\<close>)
  then show "map ie_device es = ds" "distinct (map ie_device es)" "store_events es s = Inr s'" by simp_all
qed

text \<open>Queueing the stored events.\<close>

lemma queue_linked:
  assumes "gw_linked g"
  shows "gw_linked (queue_event e g)"
proof (cases "conn_at g (ie_device e)")
  case (Some cn)
  then obtain i where i: "dict_get (gw_conns g) (ie_device e) = Some i" "gw_heap g i = Some cn" by (auto simp: conn_at_def split: bind_splits)
  show ?thesis
  proof (cases "max_pending \<le> length (cn_pending cn)")
    case True
    then show ?thesis using assms i by (auto simp: queue_event_def gw_linked_def)
  next
    case False
    then show ?thesis using i linked_put[OF assms i(2)] by (simp add: queue_event_def)
  qed
qed (use assms in \<open>auto simp: queue_event_def conn_at_def split: option.splits bind_splits\<close>)

lemma queue_conn_at:
  assumes "gw_linked g"
  shows "conn_at (queue_event e g) x = (if x \<noteq> ie_device e then conn_at g x else case conn_at g x of None \<Rightarrow> None
    | Some cn \<Rightarrow> if max_pending \<le> length (cn_pending cn) then None else Some (schedule_delivery (cn\<lparr>cn_pending := cn_pending cn @ [e]\<rparr>)))"
proof (cases "conn_at g (ie_device e)")
  case (Some cn)
  then obtain i where i: "dict_get (gw_conns g) (ie_device e) = Some i" "gw_heap g i = Some cn" by (auto simp: conn_at_def split: bind_splits)
  have dev: "dict_get (gw_conns g) x = Some i \<longleftrightarrow> x = ie_device e"
    using current_at[OF assms i(2), of x] current_at[OF assms i(2), of "ie_device e"] i(1) by auto
  show ?thesis
  proof (cases "max_pending \<le> length (cn_pending cn)")
    case True
    then have "queue_event e g = g\<lparr>gw_conns := dict_del (gw_conns g) (ie_device e)\<rparr>" using i by (simp add: queue_event_def)
    then show ?thesis using True Some by (simp add: conn_at_def)
  next
    case False
    then have "queue_event e g = put_conn i (schedule_delivery (cn\<lparr>cn_pending := cn_pending cn @ [e]\<rparr>)) g" using i by (simp add: queue_event_def)
    then show ?thesis using False Some dev by (simp add: conn_at_put)
  qed
next
  case None
  then have "queue_event e g = g" by (auto simp: queue_event_def conn_at_def split: option.splits bind_splits)
  then show ?thesis using None by simp
qed

lemma queue_store [simp]: "gw_store (queue_event e g) = gw_store g"
  by (simp add: queue_event_def split: option.split)

lemma queue_all:
  assumes "gw_linked g" "distinct (map ie_device es)"
  shows "gw_linked (fold queue_event es g) \<and> gw_store (fold queue_event es g) = gw_store g \<and>
    (\<forall>x. x \<notin> ie_device ` set es \<longrightarrow> conn_at (fold queue_event es g) x = conn_at g x) \<and>
    (\<forall>e \<in> set es. \<forall>cn'. conn_at (fold queue_event es g) (ie_device e) = Some cn' \<longrightarrow>
      (\<exists>cn. conn_at g (ie_device e) = Some cn \<and> cn' = schedule_delivery (cn\<lparr>cn_pending := cn_pending cn @ [e]\<rparr>)))"
  using assms
proof (induction es arbitrary: g)
  case (Cons e es)
  have d: "ie_device e \<notin> ie_device ` set es" "distinct (map ie_device es)" using Cons.prems(2) by simp_all
  define h where "h = queue_event e g"
  have at: "conn_at h x = (if x \<noteq> ie_device e then conn_at g x else case conn_at g x of None \<Rightarrow> None
    | Some cn \<Rightarrow> if max_pending \<le> length (cn_pending cn) then None else Some (schedule_delivery (cn\<lparr>cn_pending := cn_pending cn @ [e]\<rparr>)))" for x
    unfolding h_def by (rule queue_conn_at[OF Cons.prems(1)])
  have l: "gw_linked h" unfolding h_def by (rule queue_linked[OF Cons.prems(1)])
  note IH = Cons.IH[OF l d(2)]
  have fold: "fold queue_event (e # es) g = fold queue_event es h" by (simp add: h_def)
  have step: "\<exists>cn. conn_at g (ie_device a) = Some cn \<and> cn' = schedule_delivery (cn\<lparr>cn_pending := cn_pending cn @ [a]\<rparr>)"
    if "a \<in> set (e # es)" "conn_at (fold queue_event es h) (ie_device a) = Some cn'" for a cn'
  proof (cases "a = e")
    case True
    then have "conn_at h (ie_device e) = Some cn'" using that(2) IH d(1) by metis
    then show ?thesis using True at[of "ie_device e"] by (auto split: option.splits if_splits)
  next
    case False
    then have a: "a \<in> set es" using that(1) by simp
    then have "ie_device a \<noteq> ie_device e" using d(1) by (metis image_eqI)
    then have "conn_at h (ie_device a) = conn_at g (ie_device a)" using at[of "ie_device a"] by simp
    moreover have "\<exists>cn. conn_at h (ie_device a) = Some cn \<and> cn' = schedule_delivery (cn\<lparr>cn_pending := cn_pending cn @ [a]\<rparr>)"
      using IH a that(2) by blast
    ultimately show ?thesis by simp
  qed
  have other: "conn_at (fold queue_event es h) x = conn_at g x" if "x \<notin> ie_device ` set (e # es)" for x
    using IH that at[of x] by simp
  show ?case unfolding fold using IH step other by (simp add: h_def)
qed simp

lemma publish_ok:
  assumes "gw_ok g"
  shows "gw_ok (publish_event a cap eid env now g)"
proof (cases "publish_targets a cap g")
  case (Inr ds)
  show ?thesis
  proof (cases "append_events ds eid env now (gw_store g)")
    case (Inr r)
    obtain es s' where es: "append_events ds eid env now (gw_store g) = Inr (es, s')" using Inr by (cases r) simp
    note f = append_events_frame[OF es]
    note s = store_events_frame[OF f(3,2)]
    have dev: "live_device s' d = live_device (gw_store g) d" for d by (rule live_devices[OF append_events_devices[OF es]])
    have l: "gw_linked (g\<lparr>gw_store := s'\<rparr>)" using gw_okD(2)[OF assms] by simp
    note q = queue_all[OF l f(2)]
    define g' where "g' = fold queue_event es (g\<lparr>gw_store := s'\<rparr>)"
    have g': "gw_linked g'" "gw_store g' = s'" using q by (simp_all add: g'_def)
    have "conn_ok s' cn'" if at: "conn_at g' d = Some cn'" for d cn'
    proof (cases "d \<in> ie_device ` set es")
      case False
      then have old: "conn_at g d = Some cn'" using q at by (simp add: g'_def)
      then have "cn_device cn' = d" using linked_device[OF gw_okD(2)[OF assms]] by blast
      then show ?thesis using conn_ok_same[OF gw_okD(3)[OF assms old], of s'] s False dev by simp
    next
      case True
      then obtain e where e: "e \<in> set es" "d = ie_device e" by blast
      have "\<exists>cn. conn_at (g\<lparr>gw_store := s'\<rparr>) (ie_device e) = Some cn \<and> cn' = schedule_delivery (cn\<lparr>cn_pending := cn_pending cn @ [e]\<rparr>)"
        using q e at unfolding g'_def by blast
      then obtain cn where cn: "conn_at g d = Some cn" "cn' = schedule_delivery (cn\<lparr>cn_pending := cn_pending cn @ [e]\<rparr>)" using e(2) by auto
      have d: "cn_device cn = d" using linked_device[OF gw_okD(2)[OF assms] cn(1)] by blast
      obtain c where c: "dict_get (ms_cursors (gw_store g)) d = Some c" "ie_seq e = cu_next c"
          "dict_get (ms_cursors s') d = Some (c\<lparr>cu_next := cu_next c + 1\<rparr>)" "inbox_of d s' = inbox_of d (gw_store g) @ [e]"
        using s e by blast
      note b = conn_box(2)[OF gw_okD(1)[OF assms] c(1)]
      have "frames_ok c cn (inbox_of d (gw_store g))" if "live_device (gw_store g) d"
        using gw_okD(3)[OF assms cn(1)] that d c(1) by (simp add: conn_ok_def)
      then show ?thesis using frames_append[OF _ c(2) b] c d dev by (simp add: conn_ok_def cn(2))
    qed
    then have "gw_ok g'" using g' append_events_ok[OF gw_okD(1)[OF assms] es] by (simp add: gw_ok_def)
    then show ?thesis using \<open>publish_targets a cap g = Inr ds\<close> es by (simp add: publish_event_def g'_def)
  qed (use assms Inr in \<open>simp add: publish_event_def\<close>)
qed (use assms in \<open>simp add: publish_event_def\<close>)

text \<open>A resume writes to the inbox of its own device only.\<close>

definition only_device :: "string \<Rightarrow> mobile_store \<Rightarrow> mobile_store \<Rightarrow> bool" where
  "only_device d s s' \<longleftrightarrow> ms_devices s' = ms_devices s \<and> (mobile_ok s \<longrightarrow> mobile_ok s') \<and>
     (dict_get (ms_cursors s) d \<noteq> None \<longrightarrow> dict_get (ms_cursors s') d \<noteq> None) \<and>
     (\<forall>x. x \<noteq> d \<longrightarrow> dict_get (ms_cursors s') x = dict_get (ms_cursors s) x \<and> inbox_of x s' = inbox_of x s)"

lemma only_refl [simp]: "only_device d s s"
  by (simp add: only_device_def)

lemma enqueue_only: "enqueue_note W d eid created note s = Inr (t, s') \<Longrightarrow> only_device d s s'"
proof -
  assume "enqueue_note W d eid created note s = Inr (t, s')"
  then obtain es where es: "append_events [d] eid (wc_encode W eid note) created s = Inr (es, s')"
    using append_event_parts unfolding enqueue_note_def by blast
  note f = append_events_frame[OF es]
  obtain e where e: "es = [e]" "ie_device e = d" using f(1) by (cases es) auto
  have "(\<forall>x. x \<noteq> d \<longrightarrow> dict_get (ms_cursors s') x = dict_get (ms_cursors s) x \<and> inbox_of x s' = inbox_of x s) \<and> dict_get (ms_cursors s') d \<noteq> None"
    using store_events_frame[OF f(3,2)] unfolding e by (auto simp: e(2))
  then show ?thesis using append_events_devices[OF es] append_events_ok[OF _ es] by (simp add: only_device_def)
qed

lemma reset_only: "resume_reset W d eid created last_ack reason s = Inr (p, s') \<Longrightarrow> only_device d s s'"
  by (auto dest: enqueue_only simp: resume_reset_def map_sum_def split: sum.splits)

lemma replay_only: "resume_replay W d eid created last_ack through s = Inr (p, s') \<Longrightarrow> only_device d s s'"
  by (auto dest: enqueue_only reset_only simp: resume_replay_def map_sum_def split: sum.splits if_splits)

lemma from_reset_only: "resume_from_reset W d eid created last_ack through r s = Inr (p, s') \<Longrightarrow> only_device d s s'"
  by (auto dest: reset_only simp: resume_from_reset_def split: sum.splits if_splits list.splits)

lemma from_events_only: "resume_from_events W d eid created last_ack through es s = Inr (p, s') \<Longrightarrow> only_device d s s'"
  by (auto dest: replay_only from_reset_only simp: resume_from_events_def split: list.splits option.splits if_splits)

lemma inside_only: "resume_inside W retention now created eid d last_ack through s = Inr (p, s') \<Longrightarrow> only_device d s s'"
  by (auto dest: reset_only from_events_only simp: resume_inside_def split: sum.splits option.splits)

lemma rebase_only:
  assumes "rebase_cursor d n eid env created s = Inr (t, s')"
  shows "only_device d s s'"
proof -
  obtain e where s': "s' = put_cursor d \<lparr>cu_next = n + 2, cu_sent = n, cu_acked = n\<rparr> (s\<lparr>ms_inbox := filter (\<lambda>r. ie_device r \<noteq> d) (ms_inbox s) @ [e]\<rparr>)"
      and e: "ie_device e = d"
    using rebase_parts[OF assms] by auto
  then show ?thesis using rebase_ok[OF _ assms] by (auto simp: only_device_def)
qed

lemma prepare_only:
  assumes "prepare_resume W retention now created eid d last_ack s = Inr (p, s')"
  shows "only_device d s s'" "d \<noteq> []" "\<exists>c. dict_get (ms_cursors s) d = Some c"
proof -
  show "only_device d s s'" using assms
    by (auto dest: reset_only rebase_only inside_only simp: prepare_resume_def map_sum_def split: sum.splits if_splits)
  show "d \<noteq> []" "\<exists>c. dict_get (ms_cursors s) d = Some c"
    using assms by (auto simp: prepare_resume_def read_cursor_def split: if_splits option.splits)
qed

lemma plan_frames:
  assumes "mobile_ok s'" "live_device s' d" "log_of s' d = Some l'" "plan_ok W l last_ack (after, through, t) l'"
  shows "\<exists>c. dict_get (ms_cursors s') d = Some c \<and> frames_ok c \<lparr>cn_device = d, cn_epoch = epoch, cn_pending = [], cn_ready = False, cn_barrier = None,
    cn_drain = None, cn_resume = Window after through t [], cn_wire = []\<rparr> (inbox_of d s')"
proof -
  note l = live_log[OF assms(1-3)]
  note p = assms(4)[unfolded plan_ok_def prod.case Let_def l(6)]
  from p have "\<exists>a. map ie_seq (between after through (inbox_of d s') @ [t]) = [a..log_last l']" by blast
  moreover have "el_sent l' \<le> ie_seq t" "ie_seq t = log_last l'" "through < ie_seq t" "after < through \<longrightarrow> el_acked l' \<le> after" using p by blast+
  ultimately show ?thesis using l(5) by (auto simp: frames_ok_def to_send_def to_mark_def window_left_def pc_ok_def intro!: exI[of _ 0])
qed

lemma resume_begin_ok:
  assumes "gw_ok g"
  shows "gw_ok (resume_begin W retention now created eid d epoch last_ack g)"
proof (cases "last_ack < 0 \<or> max_rebase_ack < last_ack \<or> (\<exists>err. prepare_resume W retention now created eid d last_ack (gw_store g) = Inl err)")
  case True
  then show ?thesis using assms by (auto simp: resume_begin_def)
next
  case False
  then obtain after through t s' where p: "prepare_resume W retention now created eid d last_ack (gw_store g) = Inr ((after, through, t), s')"
    by (cases "prepare_resume W retention now created eid d last_ack (gw_store g)") auto
  define cn where "cn = \<lparr>cn_device = d, cn_epoch = epoch, cn_pending = [], cn_ready = False, cn_barrier = None,
            cn_drain = None, cn_resume = Window after through t [], cn_wire = []\<rparr>"
  define g' where "g' = g\<lparr>gw_store := s', gw_conns := dict_set (gw_conns g) d (gw_count g), gw_heap := (gw_heap g)(gw_count g \<mapsto> cn), gw_count := gw_count g + 1\<rparr>"
  have g'_eq: "resume_begin W retention now created eid d epoch last_ack g = g'" using False p by (simp add: resume_begin_def g'_def cn_def)
  note o = prepare_only[OF p] and l = gw_okD(2)[OF assms] and m = gw_okD(1)[OF assms]
  have store: "mobile_ok s'" using o(1) m by (simp add: only_device_def)
  have dev: "live_device s' x = live_device (gw_store g) x" for x using o(1) by (intro live_devices) (simp add: only_device_def)
  have linked: "gw_linked g'"
  proof -
    have "i < gw_count g" if "gw_heap g i = Some k" for i k using l that by (auto simp: gw_linked_def)
    then have heap: "\<forall>i k. gw_heap g' i = Some k \<longrightarrow> i < gw_count g'" by (auto simp: g'_def less_Suc_eq)
    have "\<exists>k. gw_heap g' i = Some k \<and> cn_device k = x \<and> x \<noteq> []" if xi: "dict_get (gw_conns g') x = Some i" for x i
    proof (cases "x = d")
      case True
      then show ?thesis using xi o(2) by (simp add: g'_def cn_def)
    next
      case other: False
      then have "dict_get (gw_conns g) x = Some i" using xi by (simp add: g'_def)
      then obtain k where k: "gw_heap g i = Some k" "cn_device k = x" "x \<noteq> []" using l unfolding gw_linked_def by blast
      then have "i \<noteq> gw_count g" using l by (auto simp: gw_linked_def)
      then show ?thesis using k by (simp add: g'_def)
    qed
    then show ?thesis using heap by (simp add: gw_linked_def)
  qed
  have "conn_ok s' k" if k: "conn_at g' x = Some k" for x k
  proof (cases "x = d")
    case True
    then have "k = cn" using k by (simp add: conn_at_def g'_def)
    show ?thesis
    proof (cases "live_device s' d")
      case live: True
      obtain c where "dict_get (ms_cursors (gw_store g)) d = Some c" using o(3) by blast
      then obtain l0 where l0: "log_of (gw_store g) d = Some l0" by (simp add: log_of_def)
      obtain l' where l': "live_device s' d" "log_of s' d = Some l'" "plan_ok W l0 last_ack (after, through, t) l'"
        using prepare_plan_ok[OF m _ l0 o(2) _ p] live dev False by auto
      have "\<exists>c. dict_get (ms_cursors s') d = Some c \<and> frames_ok c cn (inbox_of d s')"
        using plan_frames[OF store l'] by (simp add: cn_def)
      moreover have "cn_device cn = d" by (simp add: cn_def)
      ultimately show ?thesis using \<open>k = cn\<close> by (auto simp: conn_ok_def)
    next
      case False
      moreover have "\<exists>c. dict_get (ms_cursors s') d = Some c" using o(1,3) by (auto simp: only_device_def)
      ultimately show ?thesis using \<open>k = cn\<close> by (simp add: conn_ok_def cn_def)
    qed
  next
    case other: False
    then obtain i where i: "dict_get (gw_conns g) x = Some i" "gw_heap g' i = Some k" using k by (auto simp: conn_at_def g'_def split: bind_splits)
    then have "i < gw_count g" using l unfolding gw_linked_def by blast
    then have old: "conn_at g x = Some k" using i by (simp add: conn_at_def g'_def)
    have "cn_device k = x" using linked_device[OF l old] by blast
    then show ?thesis using conn_ok_same[OF gw_okD(3)[OF assms old], of s'] o(1) other dev by (simp add: only_device_def)
  qed
  then show ?thesis using store linked unfolding g'_eq by (simp add: gw_ok_def g'_def)
qed

lemma conn_ok_frames:
  assumes "conn_ok s cn" "cn_device cn' = cn_device cn" "\<And>c. dict_get (ms_cursors s) (cn_device cn) = Some c \<Longrightarrow>
      frames_ok c cn (inbox_of (cn_device cn) s) \<Longrightarrow> frames_ok c cn' (inbox_of (cn_device cn) s)"
  shows "conn_ok s cn'"
  using assms by (auto simp: conn_ok_def)

lemma abort_ok: "gw_ok g \<Longrightarrow> gw_heap g i = Some cn \<Longrightarrow> gw_ok (resume_abort i cn g)"
  unfolding resume_abort_def by (intro gw_ok_gone) simp_all

lemma send_window_ok:
  assumes "gw_ok g" "gw_heap g i = Some cn" "cn_resume cn = Window after through t page"
  shows "gw_ok (send_window W sent i cn after through t page g)"
proof (cases page)
  case (Cons e rest)
  have "conn_ok (gw_store g) (cn\<lparr>cn_wire := cn_wire cn @ [e], cn_resume := Window (ie_seq e) through t rest\<rparr>)" if "conn_ok (gw_store g) cn"
    using that by (rule conn_ok_frames)
      (use frames_send_event assms(3) Cons conn_box(3)[OF gw_okD(1)[OF assms(1)]] in auto)
  then have "gw_ok (put_conn i (cn\<lparr>cn_wire := cn_wire cn @ [e], cn_resume := Window (ie_seq e) through t rest\<rparr>) g)"
    by (intro gw_ok_put[OF assms(1,2)]) simp_all
  then show ?thesis using abort_ok[OF assms(1,2)] Cons by (simp add: send_window_def)
next
  case Nil
  show ?thesis
  proof (cases "after < through")
    case True
    have "gw_ok (put_conn i (cn\<lparr>cn_resume := Window after through t (p # ps)\<rparr>) g)"
      if rows: "read_events (wc_object W) (cn_device cn) after 512 (gw_store g) = Inr rows" "filter (\<lambda>e. ie_seq e \<le> through) rows = p # ps" for rows p ps
    proof (rule gw_ok_put[OF assms(1,2)])
      assume "conn_ok (gw_store g) cn"
      then show "conn_ok (gw_store g) (cn\<lparr>cn_resume := Window after through t (p # ps)\<rparr>)"
      proof (rule conn_ok_frames)
        fix c assume c: "dict_get (ms_cursors (gw_store g)) (cn_device cn) = Some c" "frames_ok c cn (inbox_of (cn_device cn) (gw_store g))"
        have "p # ps = take 512 (between after through (inbox_of (cn_device cn) (gw_store g)))"
          using read_page[OF rows(1) conn_box(4)[OF gw_okD(1)[OF assms(1)] c(1)]] rows(2) by simp
        then show "frames_ok c (cn\<lparr>cn_resume := Window after through t (p # ps)\<rparr>) (inbox_of (cn_device cn) (gw_store g))"
          by (rule frames_page[OF c(2) assms(3)])
      qed simp
    qed simp
    then show ?thesis using True Nil abort_ok[OF assms(1,2)] by (simp add: send_window_def split: sum.split list.split)
  next
    case False
    have "conn_ok (gw_store g) (cn\<lparr>cn_wire := cn_wire cn @ [t], cn_resume := Mark_terminal t\<rparr>)" if "conn_ok (gw_store g) cn"
      using that by (rule conn_ok_frames) (use frames_send_last[OF _ assms(3) False] in auto)
    then have "gw_ok (put_conn i (cn\<lparr>cn_wire := cn_wire cn @ [t], cn_resume := Mark_terminal t\<rparr>) g)"
      by (intro gw_ok_put[OF assms(1,2)]) simp_all
    then show ?thesis using abort_ok[OF assms(1,2)] Nil False by (simp add: send_window_def)
  qed
qed

lemma not_current_put:
  assumes "gw_ok g" "gw_heap g i = Some cn" "\<not> is_current i cn g" "cn_device cn' = cn_device cn"
  shows "gw_ok (put_conn i cn' g)"
  using gw_ok_put[OF assms(1,2,4)] assms(3) by simp

lemma resume_step_ok:
  assumes "gw_ok g"
  shows "gw_ok (resume_step W i sent g)"
proof (cases "gw_heap g i")
  case (Some cn)
  show ?thesis
  proof (cases "cn_resume cn")
    case (Window after through t page)
    then show ?thesis using send_window_ok[OF assms Some Window] Some by (simp add: resume_step_def)
  next
    case (Mark_terminal t)
    have "gw_ok (put_conn i (cn\<lparr>cn_resume := Make_ready\<rparr>) (g\<lparr>gw_store := s'\<rparr>))"
      if "is_current i cn g" "mark_events_sent (cn_device cn) (ie_seq t) (gw_store g) = Inr (c', s')" for c' s'
      by (rule gw_ok_mark[OF assms Some that(1) _ that(2)]) (use frames_marked_terminal[OF _ Mark_terminal] in simp_all)
    then show ?thesis using Some Mark_terminal abort_ok[OF assms Some] not_current_put[OF assms Some]
      by (auto simp: resume_step_def split: sum.split)
  next
    case Make_ready
    have "conn_ok (gw_store g) (schedule_delivery (cn\<lparr>cn_ready := True, cn_resume := Resumed\<rparr>))" if "conn_ok (gw_store g) cn"
      using that by (rule conn_ok_frames) (use frames_ready[OF _ Make_ready] in simp_all)
    then have "gw_ok (put_conn i (schedule_delivery (cn\<lparr>cn_ready := True, cn_resume := Resumed\<rparr>)) g)"
      by (intro gw_ok_put[OF assms Some]) simp_all
    then show ?thesis using Some Make_ready not_current_put[OF assms Some] by (simp add: resume_step_def)
  qed (use Some assms in \<open>simp_all add: resume_step_def\<close>)
qed (use assms in \<open>simp add: resume_step_def\<close>)

lemma drain_step_ok:
  assumes "gw_ok g"
  shows "gw_ok (drain_step i sent g)"
proof (cases "\<exists>cn pc. gw_heap g i = Some cn \<and> cn_drain cn = Some pc")
  case True
  then obtain cn pc where cn: "gw_heap g i = Some cn" "cn_drain cn = Some pc" by blast
  show ?thesis
  proof (cases pc)
    case Take_next
    show ?thesis
    proof (cases "cn_pending cn")
      case Nil
      have "conn_ok (gw_store g) (cn\<lparr>cn_drain := None\<rparr>)" if "conn_ok (gw_store g) cn"
        using that by (rule conn_ok_frames) (use frames_idle cn(2) Take_next in simp_all)
      then show ?thesis using cn Take_next Nil gw_ok_put[OF assms cn(1), of "cn\<lparr>cn_drain := None\<rparr>"] by (simp add: drain_step_def)
    next
      case (Cons e es)
      have "conn_ok (gw_store g) (cn\<lparr>cn_pending := es, cn_drain := Some (Sending e)\<rparr>)" if "conn_ok (gw_store g) cn"
        using that by (rule conn_ok_frames) (use frames_take[OF _ _ Cons] cn(2) Take_next in simp_all)
      then have "gw_ok (put_conn i (cn\<lparr>cn_pending := es, cn_drain := Some (Sending e)\<rparr>) g)"
        by (intro gw_ok_put[OF assms cn(1)]) simp_all
      then show ?thesis using cn Take_next Cons not_current_put[OF assms cn(1), of "cn\<lparr>cn_drain := None\<rparr>"] by (simp add: drain_step_def)
    qed
  next
    case (Sending e)
    have "conn_ok (gw_store g) (cn\<lparr>cn_wire := cn_wire cn @ [e], cn_drain := Some (Marking e)\<rparr>)" if "conn_ok (gw_store g) cn"
      using that by (rule conn_ok_frames) (use frames_sent cn(2) Sending in simp_all)
    then have "gw_ok (put_conn i (cn\<lparr>cn_wire := cn_wire cn @ [e], cn_drain := Some (Marking e)\<rparr>) g)"
      by (intro gw_ok_put[OF assms cn(1)]) simp_all
    then show ?thesis using cn Sending gw_ok_gone[OF assms cn(1), of "cn\<lparr>cn_drain := None\<rparr>"] by (simp add: drain_step_def)
  next
    case (Marking e)
    have marked: "gw_ok (put_conn i (cn\<lparr>cn_drain := dr\<rparr>) (g\<lparr>gw_store := s'\<rparr>))"
      if "is_current i cn g" "mark_events_sent (cn_device cn) (ie_seq e) (gw_store g) = Inr (c', s')" "dr = None \<or> dr = Some Take_next" for c' s' dr
      by (rule gw_ok_mark[OF assms cn(1) that(1) _ that(2)]) (use frames_marked[OF _ _ that(3)] cn(2) Marking in simp_all)
    have failed: "gw_ok (put_conn i (cn\<lparr>cn_drain := None\<rparr>) g)"
      if "is_current i cn g" "mark_events_sent (cn_device cn) (ie_seq e) (gw_store g) = Inl err" for err
    proof (rule gw_ok_put[OF assms cn(1)])
      have "e \<in> set (to_mark cn)" using cn(2) Marking by (simp add: to_mark_def)
      then have "\<not> live_device (gw_store g) (cn_device cn)" using due_marks[OF assms cn(1) that(1) \<open>e \<in> set (to_mark cn)\<close>] that(2) by auto
      moreover assume "conn_ok (gw_store g) cn"
      ultimately show "conn_ok (gw_store g) (cn\<lparr>cn_drain := None\<rparr>)" by (simp add: conn_ok_def)
    qed simp
    show ?thesis
    proof (cases "is_current i cn g")
      case True
      then show ?thesis using cn Marking marked failed by (auto simp: drain_step_def split: sum.split option.split)
    next
      case False
      then show ?thesis using cn Marking not_current_put[OF assms cn(1) False] by (simp add: drain_step_def)
    qed
  qed
next
  case False
  then show ?thesis using assms by (auto simp: drain_step_def split: option.split)
qed

lemma ack_frame_ok:
  assumes "gw_ok g"
  shows "gw_ok (ack_frame i n g)"
proof (cases "\<exists>cn. gw_heap g i = Some cn \<and> cn_resume cn = Resumed \<and> is_current i cn g")
  case True
  then obtain cn where cn: "gw_heap g i = Some cn" "cn_resume cn = Resumed" "is_current i cn g" by blast
  show ?thesis
  proof (cases "acknowledge_events (cn_device cn) n (gw_store g)")
    case (Inr r)
    obtain a s' where a: "acknowledge_events (cn_device cn) n (gw_store g) = Inr (a, s')" using Inr by (cases r) simp
    obtain c where c: "dict_get (ms_cursors (gw_store g)) (cn_device cn) = Some c"
      using a by (auto simp: acknowledge_events_def split: if_splits option.splits)
    note p = ack_frame_parts[OF a c]
    have "conn_ok s' cn" if "conn_ok (gw_store g) cn"
      using that p(3) c frames_ack[OF _ cn(2)] by (auto simp: conn_ok_def live_devices[OF p(1)])
    then have "gw_ok (put_conn i cn (g\<lparr>gw_store := s'\<rparr>))"
      using ack_ok[OF gw_okD(1)[OF assms] a] p(1,2) by (intro gw_ok_put_store[OF assms cn(1,3)]) simp_all
    moreover have "put_conn i cn (g\<lparr>gw_store := s'\<rparr>) = g\<lparr>gw_store := s'\<rparr>" using cn(1) by (simp add: put_conn_def fun_upd_idem)
    ultimately show ?thesis using cn a by (simp add: ack_frame_def)
  qed (use cn assms in \<open>simp add: ack_frame_def\<close>)
next
  case False
  then show ?thesis using assms by (auto simp: ack_frame_def split: option.split)
qed

text \<open>The other operations of the server leave the cursors and, unless they revoke, the inboxes alone.\<close>

definition inbox_quiet :: "mobile_store \<Rightarrow> mobile_store \<Rightarrow> bool" where
  "inbox_quiet s s' \<longleftrightarrow> (\<forall>x c. dict_get (ms_cursors s) x = Some c \<longrightarrow> dict_get (ms_cursors s') x = Some c \<and>
     (live_device s' x \<longrightarrow> inbox_of x s' = inbox_of x s))"

lemma quiet_keep: "(\<And>a s'. r = Inr (a, s') \<Longrightarrow> inbox_quiet s s') \<Longrightarrow> inbox_quiet s (keep_on_error s r)"
  by (auto simp: keep_on_error_def inbox_quiet_def split: sum.split)

lemma quiet_frame [simp]: "inbox_quiet s s"
  "inbox_quiet s (s\<lparr>ms_identity := a\<rparr>)" "inbox_quiet s (s\<lparr>ms_pairings := b\<rparr>)" "inbox_quiet s (s\<lparr>ms_sessions := z\<rparr>)"
  "inbox_quiet s (s\<lparr>ms_epoch := n\<rparr>)" "inbox_quiet s (s\<lparr>ms_devices := ds\<rparr>)" "inbox_quiet s s' \<Longrightarrow> inbox_quiet s (s'\<lparr>ms_pairings := b\<rparr>)"
  by (simp_all add: inbox_quiet_def)

lemma insert_device_quiet: "insert_device d s = Inr s' \<Longrightarrow> inbox_quiet s s'"
  by (auto simp: insert_device_def inbox_quiet_def split: if_splits)

lemma pair_device_quiet: "pair_device d s = Inr (d', s') \<Longrightarrow> inbox_quiet s s'"
  by (auto simp: pair_device_def Let_def dest: insert_device_quiet split: option.splits sum.splits if_splits)

lemma revoke_quiet:
  assumes "revoke_device k t s = Inr (d, s')"
  shows "inbox_quiet s s'"
proof -
  obtain row where row: "dict_get (ms_devices s) k = Some row" "dv_revoked d \<noteq> None"
      and s': "s' = s\<lparr>ms_devices := dict_set (ms_devices s) k d, ms_inbox := filter (\<lambda>e. ie_device e \<noteq> k) (ms_inbox s)\<rparr>"
    using assms by (auto simp: revoke_device_def device_from_row_def Let_def split: if_splits option.splits)
  have box: "inbox_of x s' = (if x = k then [] else inbox_of x s)" for x by (auto simp: s' inbox_of_def intro: filter_cong)
  have live: "live_device s' x = (x \<noteq> k \<and> live_device s x)" for x using row(2) by (simp add: s' live_device_def)
  show ?thesis unfolding inbox_quiet_def box live by (simp add: s')
qed

lemma outside_quiet:
  assumes "outside_inbox m"
  shows "inbox_quiet s (mobile_exec m s)"
proof (cases m)
  case (Consume_pairing k d t)
  have "inbox_quiet s s'" if "consume_pairing k d t s = Inr (d', s')" for d' s'
    using consume_pairing_parts[OF that] pair_device_quiet by auto
  then show ?thesis unfolding Consume_pairing mobile_exec_def by (auto intro: quiet_keep)
next
  case (Register_device d)
  then show ?thesis unfolding mobile_exec_def using insert_device_quiet by (auto intro: quiet_keep)
next
  case (Revoke_device k t)
  then show ?thesis unfolding mobile_exec_def using revoke_quiet by (auto intro: quiet_keep)
qed (use assms in \<open>auto intro!: quiet_keep simp: outside_inbox_def mobile_exec_def write_server_identity_def allocate_connection_epoch_def
  claim_session_def create_pairing_session_def confirm_pairing_def update_device_capabilities_def Let_def split: if_splits option.splits\<close>)

lemma store_cmd_ok:
  assumes "gw_ok g" "outside_inbox m"
  shows "gw_ok (g\<lparr>gw_store := mobile_exec m (gw_store g)\<rparr>)"
proof -
  note quiet = outside_quiet[OF assms(2), of "gw_store g", unfolded inbox_quiet_def]
  note grows = mobile_exec_grows[OF gw_okD(1)[OF assms(1)], of m, unfolded store_grows_def]
  have "conn_ok (mobile_exec m (gw_store g)) cn" if at: "conn_at g d = Some cn" for d cn
  proof -
    obtain c where c: "dict_get (ms_cursors (gw_store g)) (cn_device cn) = Some c"
        "live_device (gw_store g) (cn_device cn) \<longrightarrow> frames_ok c cn (inbox_of (cn_device cn) (gw_store g))"
      using gw_okD(3)[OF assms(1) at] by (auto simp: conn_ok_def)
    have "live_device (mobile_exec m (gw_store g)) (cn_device cn) \<longrightarrow> live_device (gw_store g) (cn_device cn)" using grows c(1) by blast
    then show ?thesis using quiet c by (auto simp: conn_ok_def)
  qed
  then show ?thesis using assms(1) mobile_exec_ok by (simp add: gw_ok_def)
qed

lemma gw_exec_ok:
  assumes "gw_ok g"
  shows "gw_ok (gw_exec W retention c g)"
proof (cases c)
  case (Set_barrier i)
  have "gw_ok (put_conn i (cn\<lparr>cn_barrier := b\<rparr>) g)" if "gw_heap g i = Some cn" for cn b
    by (rule gw_ok_put[OF assms that]) (simp_all add: conn_ok_def)
  then show ?thesis using assms Set_barrier by (simp add: gw_exec_def set_barrier_def split: option.split sum.split)
next
  case (Clear_barrier i b)
  have "gw_ok (put_conn i (if p then schedule_delivery (cn\<lparr>cn_barrier := None\<rparr>) else cn\<lparr>cn_barrier := None\<rparr>) g)" if "gw_heap g i = Some cn" for cn p
    by (rule gw_ok_put[OF assms that]) (simp_all add: conn_ok_def)
  then show ?thesis using assms Clear_barrier by (simp add: gw_exec_def clear_barrier_def Let_def split: option.split)
next
  case Restart_server
  have "gw_ok (g\<lparr>gw_conns := [], gw_heap := (\<lambda>_. None)\<rparr>)"
    using assms by (simp add: gw_ok_def gw_linked_def conn_at_def)
  then show ?thesis using Restart_server by (simp add: gw_exec_def)
qed (simp_all add: gw_exec_def assms resume_begin_ok resume_step_ok publish_ok drain_step_ok ack_frame_ok store_cmd_ok gw_ok_drop split: option.split)

lemma gw_reachable_ok: "gw_reachable W retention g \<Longrightarrow> gw_ok g"
proof (induction rule: gw_reachable.induct)
  case gw_new
  have "mobile_ok new_mobile_store" by (rule mobile_reachable_ok[OF mobile_new])
  then show ?case by (simp add: gw_ok_def new_gateway_def gw_linked_def conn_at_def)
qed (simp add: gw_exec_ok)

text \<open>
  C22. Live delivery and resume together skip nothing.  In every state the gateway can reach, for the current
  connection of a device that was not revoked: the frames written to its socket, followed by the rest of the
  resume window, the event being sent and the queued events, carry consecutive numbers that end with the last
  number allocated to the device.  What is still to be marked as sent is in order, between the sent cursor and
  that number, so marking never fails.
\<close>

theorem delivery_gapless:
  assumes "gw_reachable W retention g" "conn_at g d = Some cn" "live_device (gw_store g) d"
  shows "\<exists>c a. dict_get (ms_cursors (gw_store g)) d = Some c \<and>
    map ie_seq (cn_wire cn @ to_send cn (inbox_of d (gw_store g))) = [a..cu_next c - 1] \<and>
    sorted (map ie_seq (to_mark cn)) \<and> (\<forall>e \<in> set (to_mark cn). cu_sent c \<le> ie_seq e \<and> ie_seq e < cu_next c)"
proof -
  note ok = gw_reachable_ok[OF assms(1)]
  have "cn_device cn = d" using linked_device[OF gw_okD(2)[OF ok] assms(2)] by blast
  then show ?thesis using gw_okD(3)[OF ok assms(2)] assms(3) by (auto simp: conn_ok_def frames_ok_def)
qed

definition demo_gateway :: gateway where
  "demo_gateway = fold (gw_exec demo_codec 100) [Store_cmd (Register_device demo_device), Publish All_devices None ''a'' ''x'' 1,
     Publish All_devices None ''b'' ''x'' 2, Resume_begin 3 3 ''e'' ''p'' 1 0, Publish All_devices None ''f'' ''x'' 4,
     Resume_step 0 True, Resume_step 0 True] new_gateway"

theorem delivery_gapless_witness:
  "\<exists>cn. conn_at demo_gateway ''p'' = Some cn \<and> map ie_seq (cn_wire cn) = [1] \<and>
     (\<exists>a. map ie_seq (cn_wire cn @ to_send cn (inbox_of ''p'' (gw_store demo_gateway))) = [a..4])"
proof -
  have reach: "gw_reachable demo_codec 100 (fold (gw_exec demo_codec 100) cs g)" if "gw_reachable demo_codec 100 g" for cs g
    using that by (induction cs arbitrary: g) (auto intro: gw_more)
  have g: "gw_reachable demo_codec 100 demo_gateway" unfolding demo_gateway_def by (rule reach[OF gw_new])
  have "map_option (\<lambda>cn. map ie_seq (cn_wire cn)) (conn_at demo_gateway ''p'') = Some [1]" by code_simp
  then obtain cn where cn: "conn_at demo_gateway ''p'' = Some cn" "map ie_seq (cn_wire cn) = [1]" by auto
  have live: "live_device (gw_store demo_gateway) ''p''" by code_simp
  have c: "map_option cu_next (dict_get (ms_cursors (gw_store demo_gateway)) ''p'') = Some 5" by code_simp
  show ?thesis using delivery_gapless[OF g cn(1) live] cn c by auto
qed

end
