(* ===== verification/Mobile_Commands.thy ===== *)
theory Mobile_Commands
  imports Mobile_Store
begin

text \<open>
  Commands from phones and their receipts: \<open>reserve_command\<close>, \<open>complete_command\<close>,
  \<open>mark_command_outcome_unknown\<close> and the clean-up in src/infra/mobile_realtime/storage.py, and
  \<open>handle_command\<close> with its recovery in src/infra/mobile_realtime/channel.py.  A phone repeats a
  command under the same id until it has an answer; the receipt makes the repetition harmless.

  Executing a command and the facts of the session store are inputs.  Instants are microseconds; a row
  counts its text columns in UTF-8 bytes, and an instant the length of its ISO text.
\<close>

subsection \<open>Receipts\<close>

datatype receipt_status = Processing | Completed | Outcome_unknown

record receipt =
  cr_type :: string
  cr_hash :: string
  cr_status :: receipt_status
  cr_reply :: "string option"
  cr_payload :: "string option"
  cr_session :: "string option"
  cr_turn :: "string option"
  cr_created :: int
  cr_completed :: "int option"

type_synonym command_key = "string \<times> string"

record command_db =
  cd_store :: mobile_store
  cd_rows :: "(command_key, receipt) dict"

datatype command_error = Command_value | Command_device | Command_conflict | Command_capacity | Command_absent | Not_processing

definition receipt_retention :: int where
  "receipt_retention = 7 * 24 * 60 * 60 * 1000000"

definition receipt_max_count :: int where
  "receipt_max_count = 10000"

definition receipt_max_bytes :: int where
  "receipt_max_bytes = 64 * 1024 * 1024"

definition status_text :: "receipt_status \<Rightarrow> string" where
  "status_text s = (case s of Processing \<Rightarrow> ''processing'' | Completed \<Rightarrow> ''completed'' | Outcome_unknown \<Rightarrow> ''outcome_unknown'')"

text \<open>\<open>isoformat\<close> of an instant in UTC: the fraction is left out when it is zero.\<close>

definition iso_length :: "int \<Rightarrow> int" where
  "iso_length t = (if t mod 1000000 = 0 then 25 else 32)"

definition text_length :: "string option \<Rightarrow> int" where
  "text_length x = (case x of None \<Rightarrow> 0 | Some s \<Rightarrow> int (length s))"

definition receipt_bytes :: "command_key \<Rightarrow> receipt \<Rightarrow> int" where
  "receipt_bytes k r = int (length (fst k)) + int (length (snd k)) + int (length (cr_type r)) + int (length (cr_hash r)) +
     int (length (status_text (cr_status r))) + text_length (cr_reply r) + text_length (cr_payload r) + text_length (cr_session r) +
     text_length (cr_turn r) + iso_length (cr_created r) + (case cr_completed r of None \<Rightarrow> 0 | Some t \<Rightarrow> iso_length t)"

definition expired_receipt :: "string \<Rightarrow> int \<Rightarrow> command_key \<times> receipt \<Rightarrow> bool" where
  "expired_receipt d now kr \<longleftrightarrow> fst (fst kr) = d \<and> cr_status (snd kr) = Completed \<and>
     (case cr_completed (snd kr) of None \<Rightarrow> False | Some t \<Rightarrow> t < now - receipt_retention)"

definition cleanup_rows :: "string \<Rightarrow> int \<Rightarrow> (command_key, receipt) dict \<Rightarrow> (command_key, receipt) dict" where
  "cleanup_rows d now rows = filter (\<lambda>kr. \<not> expired_receipt d now kr) rows"

definition usage_count :: "string \<Rightarrow> (command_key, receipt) dict \<Rightarrow> int" where
  "usage_count d rows = int (length (filter (\<lambda>kr. fst (fst kr) = d) rows))"

definition usage_bytes :: "string \<Rightarrow> (command_key, receipt) dict \<Rightarrow> int" where
  "usage_bytes d rows = sum_list (map (\<lambda>(k, r). receipt_bytes k r) (filter (\<lambda>kr. fst (fst kr) = d) rows))"

definition new_receipt :: "string \<Rightarrow> string \<Rightarrow> int \<Rightarrow> receipt" where
  "new_receipt ty h now = \<lparr>cr_type = ty, cr_hash = h, cr_status = Processing, cr_reply = None, cr_payload = None, cr_session = None,
     cr_turn = None, cr_created = now, cr_completed = None\<rparr>"

definition reserve_command :: "string \<Rightarrow> string \<Rightarrow> string \<Rightarrow> string \<Rightarrow> int \<Rightarrow> command_db \<Rightarrow> command_error + ((receipt \<times> bool) \<times> command_db)" where
  "reserve_command d k ty h now db =
     (if d = [] \<or> k = [] \<or> ty = [] \<or> h = [] then Inl Command_value
      else if dict_get (ms_devices (cd_store db)) d = None then Inl Command_device
      else let rows = cleanup_rows d now (cd_rows db) in
        (case dict_get rows (d, k) of
           Some r \<Rightarrow> if cr_type r \<noteq> ty \<or> cr_hash r \<noteq> h then Inl Command_conflict else Inr ((r, False), db\<lparr>cd_rows := rows\<rparr>)
         | None \<Rightarrow> let r = new_receipt ty h now in
             if usage_count d rows \<ge> receipt_max_count \<or> usage_bytes d rows + receipt_bytes (d, k) r > receipt_max_bytes then Inl Command_capacity
             else Inr ((r, True), db\<lparr>cd_rows := dict_set rows (d, k) r\<rparr>)))"

definition cleanup_command_receipts :: "string \<Rightarrow> int \<Rightarrow> command_db \<Rightarrow> command_error + (int \<times> command_db)" where
  "cleanup_command_receipts d now db =
     (if d = [] then Inl Command_value
      else if dict_get (ms_devices (cd_store db)) d = None then Inl Command_device
      else Inr (int (length (filter (expired_receipt d now) (cd_rows db))), db\<lparr>cd_rows := cleanup_rows d now (cd_rows db)\<rparr>))"

definition mark_outcome_unknown :: "string \<Rightarrow> string \<Rightarrow> command_db \<Rightarrow> command_error + (receipt \<times> command_db)" where
  "mark_outcome_unknown d k db =
     (if d = [] \<or> k = [] then Inl Command_value
      else case dict_get (cd_rows db) (d, k) of
        None \<Rightarrow> Inl Not_processing
      | Some r \<Rightarrow> if cr_status r \<noteq> Processing then Inl Not_processing
          else let r' = r\<lparr>cr_status := Outcome_unknown\<rparr> in Inr (r', db\<lparr>cd_rows := dict_set (cd_rows db) (d, k) r'\<rparr>))"

definition complete_command :: "string \<Rightarrow> string \<Rightarrow> string \<Rightarrow> string \<Rightarrow> string option \<Rightarrow> string option \<Rightarrow> int \<Rightarrow> command_db \<Rightarrow>
    command_error + (receipt \<times> command_db)" where
  "complete_command d k reply payload session turn now db =
     (if d = [] \<or> k = [] \<or> reply = [] \<or> payload = [] then Inl Command_value
      else case dict_get (cd_rows db) (d, k) of
        None \<Rightarrow> Inl Command_absent
      | Some r \<Rightarrow> if cr_status r \<noteq> Processing then Inl Not_processing
          else let rows = cleanup_rows d now (cd_rows db);
                   r' = r\<lparr>cr_status := Completed, cr_reply := Some reply, cr_payload := Some payload, cr_session := session, cr_turn := turn,
                     cr_completed := Some now\<rparr> in
            if usage_bytes d rows - receipt_bytes (d, k) r + receipt_bytes (d, k) r' > receipt_max_bytes then Inl Command_capacity
            else Inr (r', db\<lparr>cd_rows := dict_set rows (d, k) r'\<rparr>))"

subsection \<open>Handling a command\<close>

datatype command_kind = Message_send string | Session_create | Other_command

record command_frame =
  fr_id :: string
  fr_type :: string
  fr_hash :: string
  fr_session :: "string option"
  fr_kind :: command_kind

text \<open>What the session store and the bus say while a command is recovered: the role of the message stored for
  the client's message id, whether its handoff is pending, and the session that the command has created
  (\<open>Inl\<close> when reading it raises).\<close>

record recovery_facts =
  rf_message :: "string option"
  rf_handoff :: bool
  rf_created :: "unit + string option"

text \<open>The stored JSON texts of the replies made during recovery.\<close>

record reply_codec =
  rq_accepted :: "string \<Rightarrow> string"
  rq_created :: "string \<Rightarrow> string"
  rq_interrupted :: string

datatype command_answer = Stored_reply string string "string option" "string option" | Unknown_answer | In_progress | No_capacity

datatype command_event = Executed command_key | Answered command_key command_answer

record command_host =
  ch_db :: command_db
  ch_processing :: "command_key list"
  ch_failures :: "command_key list"
  ch_tasks :: "command_key list"
  ch_log :: "command_event list"

text \<open>\<open>_reply_from_receipt\<close>\<close>

definition reply_of :: "receipt \<Rightarrow> command_answer" where
  "reply_of r = (if cr_status r \<noteq> Completed then Unknown_answer
     else Stored_reply (the (cr_reply r)) (the (cr_payload r)) (cr_session r) (cr_turn r))"

definition answer :: "command_key \<Rightarrow> command_answer \<Rightarrow> command_host \<Rightarrow> command_host" where
  "answer k a h = h\<lparr>ch_log := ch_log h @ [Answered k a]\<rparr>"

text \<open>A receipt is written and answered; an error of the store is an exception of the handler.\<close>

definition settle_receipt :: "command_key \<Rightarrow> command_error + (receipt \<times> command_db) \<Rightarrow> command_host \<Rightarrow> command_host" where
  "settle_receipt k res h = (case res of Inl _ \<Rightarrow> h | Inr (r, db) \<Rightarrow> answer k (reply_of r) (h\<lparr>ch_db := db\<rparr>))"

definition recover_send :: "reply_codec \<Rightarrow> command_key \<Rightarrow> command_frame \<Rightarrow> string \<Rightarrow> recovery_facts \<Rightarrow> int \<Rightarrow> command_host \<Rightarrow> command_host" where
  "recover_send Q k f client facts now h = (case rf_message facts of
     None \<Rightarrow>
       if rf_handoff facts then answer k In_progress h
       else if k \<in> set (ch_failures h) then settle_receipt k (mark_outcome_unknown (fst k) (snd k) (ch_db h)) (h\<lparr>ch_failures := removeAll k (ch_failures h)\<rparr>)
       else settle_receipt k (complete_command (fst k) (snd k) ''message.send.error'' (rq_interrupted Q) (fr_session f) None now (ch_db h)) h
   | Some role \<Rightarrow>
       if role \<noteq> ''user'' then h
       else (case complete_command (fst k) (snd k) ''message.send.ok'' (rq_accepted Q client) (fr_session f) None now (ch_db h) of
           Inl _ \<Rightarrow> h
         | Inr (r, db) \<Rightarrow> answer k (reply_of r) (h\<lparr>ch_db := db, ch_failures := removeAll k (ch_failures h), ch_processing := removeAll k (ch_processing h)\<rparr>)))"

definition recover_receipt :: "reply_codec \<Rightarrow> command_key \<Rightarrow> command_frame \<Rightarrow> receipt \<Rightarrow> recovery_facts \<Rightarrow> int \<Rightarrow> command_host \<Rightarrow> command_host" where
  "recover_receipt Q k f r facts now h =
     (if cr_status r \<noteq> Processing then answer k (reply_of r) (h\<lparr>ch_processing := removeAll k (ch_processing h)\<rparr>)
      else if k \<in> set (ch_processing h) then answer k In_progress h
      else case fr_kind f of
        Message_send client \<Rightarrow> recover_send Q k f client facts now h
      | Other_command \<Rightarrow> settle_receipt k (mark_outcome_unknown (fst k) (snd k) (ch_db h)) h
      | Session_create \<Rightarrow> (case rf_created facts of
            Inl _ \<Rightarrow> h
          | Inr None \<Rightarrow> settle_receipt k (mark_outcome_unknown (fst k) (snd k) (ch_db h)) h
          | Inr (Some s) \<Rightarrow> settle_receipt k (complete_command (fst k) (snd k) ''session.created'' (rq_created Q s) (Some s) None now (ch_db h)) h))"

text \<open>\<open>handle_command\<close> up to the execution of the command, and from there.  An execution ends with a reply or
  with an exception, which includes a reply that is too large and a cancellation.\<close>

definition handle_begin :: "reply_codec \<Rightarrow> string \<Rightarrow> command_frame \<Rightarrow> recovery_facts \<Rightarrow> int \<Rightarrow> int \<Rightarrow> command_host \<Rightarrow> command_host" where
  "handle_begin Q d f facts now later h = (let k = (d, fr_id f) in
     case reserve_command d (fr_id f) (fr_type f) (fr_hash f) now (ch_db h) of
       Inl e \<Rightarrow> if e = Command_capacity then answer k No_capacity h else h
     | Inr ((r, created), db) \<Rightarrow>
         if created then h\<lparr>ch_db := db, ch_processing := List.insert k (ch_processing h), ch_tasks := ch_tasks h @ [k], ch_log := ch_log h @ [Executed k]\<rparr>
         else recover_receipt Q k f r facts later (h\<lparr>ch_db := db\<rparr>))"

datatype execution_result = Execution_reply string string "string option" "string option" | Execution_raised

definition handle_end :: "command_key \<Rightarrow> execution_result \<Rightarrow> int \<Rightarrow> command_host \<Rightarrow> command_host" where
  "handle_end k out now h =
     (if k \<notin> set (ch_tasks h) then h
      else let h1 = h\<lparr>ch_tasks := remove1 k (ch_tasks h), ch_processing := removeAll k (ch_processing h)\<rparr> in
        (case out of
           Execution_raised \<Rightarrow> h1
         | Execution_reply ty payload session turn \<Rightarrow> (case complete_command (fst k) (snd k) ty payload session turn now (ch_db h) of
               Inl _ \<Rightarrow> h1\<lparr>ch_failures := List.insert k (ch_failures h)\<rparr>
             | Inr (r, db) \<Rightarrow> answer k (reply_of r) (h1\<lparr>ch_db := db\<rparr>))))"

datatype host_cmd = Handle_begin string command_frame recovery_facts int int | Handle_end command_key execution_result int
  | Cleanup_receipts string int | Stop_channel | Crash_server | Other_store mobile_cmd

definition host_exec :: "reply_codec \<Rightarrow> host_cmd \<Rightarrow> command_host \<Rightarrow> command_host" where
  "host_exec Q c h = (case c of
     Handle_begin d f facts now later \<Rightarrow> handle_begin Q d f facts now later h
   | Handle_end k out now \<Rightarrow> handle_end k out now h
   | Cleanup_receipts d now \<Rightarrow> (case cleanup_command_receipts d now (ch_db h) of Inl _ \<Rightarrow> h | Inr (_, db) \<Rightarrow> h\<lparr>ch_db := db\<rparr>)
   | Stop_channel \<Rightarrow> h\<lparr>ch_processing := [], ch_failures := []\<rparr>
   | Crash_server \<Rightarrow> h\<lparr>ch_processing := [], ch_failures := [], ch_tasks := []\<rparr>
   | Other_store m \<Rightarrow> h\<lparr>ch_db := (ch_db h)\<lparr>cd_store := mobile_exec m (cd_store (ch_db h))\<rparr>\<rparr>)"

definition new_host :: "mobile_store \<Rightarrow> command_host" where
  "new_host s = \<lparr>ch_db = \<lparr>cd_store = s, cd_rows = []\<rparr>, ch_processing = [], ch_failures = [], ch_tasks = [], ch_log = []\<rparr>"

subsection \<open>Capacity\<close>

definition row_total :: "(command_key \<times> receipt \<Rightarrow> int) \<Rightarrow> (command_key, receipt) dict \<Rightarrow> int" where
  "row_total f rows = sum_list (map f rows)"

definition bytes_for :: "string \<Rightarrow> command_key \<times> receipt \<Rightarrow> int" where
  "bytes_for d kr = (if fst (fst kr) = d then receipt_bytes (fst kr) (snd kr) else 0)"

definition one_for :: "string \<Rightarrow> command_key \<times> receipt \<Rightarrow> int" where
  "one_for d kr = (if fst (fst kr) = d then 1 else 0)"

definition unknown_for :: "string \<Rightarrow> command_key \<times> receipt \<Rightarrow> int" where
  "unknown_for d kr = (if fst (fst kr) = d \<and> cr_status (snd kr) = Outcome_unknown then 1 else 0)"

lemma usage_totals: "usage_bytes d rows = row_total (bytes_for d) rows" "usage_count d rows = row_total (one_for d) rows"
  by (induction rows) (auto simp: usage_bytes_def usage_count_def row_total_def bytes_for_def one_for_def)

lemma row_total_set:
  "row_total f (dict_set rows k v) = row_total f rows - (case dict_get rows k of None \<Rightarrow> 0 | Some w \<Rightarrow> f (k, w)) + f (k, v)"
  by (induction rows) (auto simp: row_total_def dict_set_def dict_get_def split: option.split)

lemma receipt_bytes_nonneg [simp]: "0 \<le> receipt_bytes k r"
  by (simp add: receipt_bytes_def text_length_def iso_length_def split: option.split)

lemma row_total_filter: "(\<And>x. 0 \<le> f x) \<Longrightarrow> row_total f (filter P rows) \<le> row_total f rows"
  by (induction rows) (auto simp: row_total_def add_increasing)

lemma row_total_filter_same: "(\<And>x. x \<in> set rows \<Longrightarrow> \<not> P x \<Longrightarrow> f x = 0) \<Longrightarrow> row_total f (filter P rows) = row_total f rows"
  by (induction rows) (auto simp: row_total_def)

lemma cleanup_totals:
  "row_total (bytes_for d) (cleanup_rows x now rows) \<le> row_total (bytes_for d) rows"
  "row_total (one_for d) (cleanup_rows x now rows) \<le> row_total (one_for d) rows"
  "row_total (unknown_for d) (cleanup_rows x now rows) = row_total (unknown_for d) rows"
  unfolding cleanup_rows_def
  by (auto intro!: row_total_filter row_total_filter_same simp: bytes_for_def one_for_def unknown_for_def expired_receipt_def)

lemma unknown_le_count: "row_total (unknown_for d) rows \<le> row_total (one_for d) rows"
  by (induction rows) (auto simp: row_total_def unknown_for_def one_for_def)

lemma unknown_nonneg: "0 \<le> row_total (unknown_for d) rows"
  by (induction rows) (auto simp: row_total_def unknown_for_def)

definition rows_bounded :: "(command_key, receipt) dict \<Rightarrow> bool" where
  "rows_bounded rows \<longleftrightarrow> dict_ok rows \<and> (\<forall>d. row_total (one_for d) rows \<le> receipt_max_count \<and>
     row_total (bytes_for d) rows \<le> receipt_max_bytes + 5 * row_total (unknown_for d) rows)"

lemma cleanup_bounded: "rows_bounded rows \<Longrightarrow> rows_bounded (cleanup_rows d now rows)"
  using cleanup_totals by (simp add: rows_bounded_def) (metis cleanup_rows_def dict_ok_filter order_trans)

lemma reserve_parts:
  assumes "reserve_command d k ty h now db = Inr ((r, created), db')"
  shows "(\<not> created \<and> dict_get (cleanup_rows d now (cd_rows db)) (d, k) = Some r \<and> cr_type r = ty \<and> cr_hash r = h \<and>
      db' = db\<lparr>cd_rows := cleanup_rows d now (cd_rows db)\<rparr>) \<or>
    (created \<and> dict_get (cleanup_rows d now (cd_rows db)) (d, k) = None \<and> r = new_receipt ty h now \<and>
      usage_count d (cleanup_rows d now (cd_rows db)) < receipt_max_count \<and>
      usage_bytes d (cleanup_rows d now (cd_rows db)) + receipt_bytes (d, k) r \<le> receipt_max_bytes \<and>
      db' = db\<lparr>cd_rows := dict_set (cleanup_rows d now (cd_rows db)) (d, k) r\<rparr>)"
  using assms by (auto simp: reserve_command_def Let_def split: if_splits option.splits)

lemma reserve_bounded:
  assumes "rows_bounded (cd_rows db)" "reserve_command d k ty h now db = Inr ((r, created), db')"
  shows "rows_bounded (cd_rows db')"
proof -
  define rows where "rows = cleanup_rows d now (cd_rows db)"
  have b: "rows_bounded rows" unfolding rows_def by (rule cleanup_bounded[OF assms(1)])
  show ?thesis
  proof (cases created)
    case True
    then have p: "dict_get rows (d, k) = None" "row_total (one_for d) rows < receipt_max_count"
        "row_total (bytes_for d) rows + receipt_bytes (d, k) r \<le> receipt_max_bytes" "cd_rows db' = dict_set rows (d, k) r"
      and r: "r = new_receipt ty h now"
      using reserve_parts[OF assms(2)] by (auto simp: rows_def usage_totals)
    have u: "0 \<le> row_total (unknown_for d) rows" by (rule unknown_nonneg)
    have "row_total (one_for x) (cd_rows db') \<le> receipt_max_count \<and>
        row_total (bytes_for x) (cd_rows db') \<le> receipt_max_bytes + 5 * row_total (unknown_for x) (cd_rows db')" for x
      using b p u by (cases "x = d") (auto simp: row_total_set rows_bounded_def one_for_def bytes_for_def unknown_for_def r new_receipt_def)
    then show ?thesis using b p(4) by (simp add: rows_bounded_def)
  next
    case False
    then show ?thesis using reserve_parts[OF assms(2)] b by (auto simp: rows_def)
  qed
qed

lemma mark_parts':
  assumes "mark_outcome_unknown d k db = Inr (r', db')"
  shows "\<exists>r. dict_get (cd_rows db) (d, k) = Some r \<and> cr_status r = Processing \<and> r' = r\<lparr>cr_status := Outcome_unknown\<rparr> \<and>
    db' = db\<lparr>cd_rows := dict_set (cd_rows db) (d, k) r'\<rparr>"
  using assms by (auto simp: mark_outcome_unknown_def Let_def split: if_splits option.splits)

lemma mark_bounded:
  assumes "rows_bounded (cd_rows db)" "mark_outcome_unknown d k db = Inr (r', db')"
  shows "rows_bounded (cd_rows db')"
proof -
  obtain r where r: "dict_get (cd_rows db) (d, k) = Some r" "cr_status r = Processing" "r' = r\<lparr>cr_status := Outcome_unknown\<rparr>"
      "cd_rows db' = dict_set (cd_rows db) (d, k) r'"
    using mark_parts'[OF assms(2)] by auto
  have size: "receipt_bytes (d, k) r' = receipt_bytes (d, k) r + 5" using r(2,3) by (simp add: receipt_bytes_def status_text_def)
  have "row_total (one_for x) (cd_rows db') \<le> receipt_max_count \<and>
      row_total (bytes_for x) (cd_rows db') \<le> receipt_max_bytes + 5 * row_total (unknown_for x) (cd_rows db')" for x
  proof (cases "x = d")
    case True
    have "row_total (bytes_for d) (cd_rows db') = row_total (bytes_for d) (cd_rows db) + 5" "row_total (unknown_for d) (cd_rows db') = row_total (unknown_for d) (cd_rows db) + 1"
        "row_total (one_for d) (cd_rows db') = row_total (one_for d) (cd_rows db)"
      using r size by (simp_all add: row_total_set bytes_for_def unknown_for_def one_for_def)
    then show ?thesis using True assms(1) by (simp add: rows_bounded_def)
  qed (use assms(1) r in \<open>simp add: row_total_set rows_bounded_def one_for_def bytes_for_def unknown_for_def\<close>)
  then show ?thesis using assms(1) r(4) by (simp add: rows_bounded_def)
qed

lemma complete_parts:
  assumes "complete_command d k reply payload session turn now db = Inr (r', db')"
  shows "\<exists>r. dict_get (cd_rows db) (d, k) = Some r \<and> cr_status r = Processing \<and> cr_status r' = Completed \<and> cr_completed r' = Some now \<and>
    r' = r\<lparr>cr_status := Completed, cr_reply := Some reply, cr_payload := Some payload, cr_session := session, cr_turn := turn, cr_completed := Some now\<rparr> \<and>
    usage_bytes d (cleanup_rows d now (cd_rows db)) - receipt_bytes (d, k) r + receipt_bytes (d, k) r' \<le> receipt_max_bytes \<and>
    db' = db\<lparr>cd_rows := dict_set (cleanup_rows d now (cd_rows db)) (d, k) r'\<rparr>"
  using assms by (auto simp: complete_command_def Let_def split: if_splits option.splits)

lemma complete_bounded:
  assumes "rows_bounded (cd_rows db)" "complete_command d k reply payload session turn now db = Inr (r', db')"
  shows "rows_bounded (cd_rows db')"
proof -
  define rows where "rows = cleanup_rows d now (cd_rows db)"
  have b: "rows_bounded rows" unfolding rows_def by (rule cleanup_bounded[OF assms(1)])
  obtain r where r: "dict_get (cd_rows db) (d, k) = Some r" "cr_status r = Processing" "cr_status r' = Completed"
      "row_total (bytes_for d) rows - receipt_bytes (d, k) r + receipt_bytes (d, k) r' \<le> receipt_max_bytes" "cd_rows db' = dict_set rows (d, k) r'"
    using complete_parts[OF assms(2)] by (auto simp: rows_def usage_totals)
  have "dict_get rows (d, k) = Some r"
    using r(1,2) assms(1) by (simp add: rows_def cleanup_rows_def dict_get_filter rows_bounded_def expired_receipt_def)
  moreover have "0 \<le> row_total (unknown_for d) rows" by (rule unknown_nonneg)
  ultimately have "row_total (one_for x) (cd_rows db') \<le> receipt_max_count \<and>
      row_total (bytes_for x) (cd_rows db') \<le> receipt_max_bytes + 5 * row_total (unknown_for x) (cd_rows db')" for x
    using b r by (cases "x = d") (auto simp: row_total_set rows_bounded_def one_for_def bytes_for_def unknown_for_def)
  then show ?thesis using b r(5) by (simp add: rows_bounded_def)
qed

text \<open>The host reaches the rows only through these operations.\<close>

lemma answer_sel [simp]: "ch_db (answer k a h) = ch_db h" "ch_log (answer k a h) = ch_log h @ [Answered k a]"
  by (simp_all add: answer_def)

lemma settle_db:
  assumes "P (ch_db h)" "\<And>r db. res = Inr (r, db) \<Longrightarrow> P db"
  shows "P (ch_db (settle_receipt k res h))"
  using assms by (auto simp: settle_receipt_def split: sum.split)

definition host_bounded :: "command_host \<Rightarrow> bool" where
  "host_bounded h \<longleftrightarrow> rows_bounded (cd_rows (ch_db h))"

lemma settle_bounded:
  assumes "host_bounded h" "\<And>r db. res = Inr (r, db) \<Longrightarrow> rows_bounded (cd_rows db)"
  shows "host_bounded (settle_receipt k res h)"
  unfolding host_bounded_def using assms by (intro settle_db[where P = "\<lambda>db. rows_bounded (cd_rows db)"]) (auto simp: host_bounded_def)

lemma recover_bounded:
  assumes "host_bounded h"
  shows "host_bounded (recover_receipt Q k f r facts now h)"
proof -
  have m: "host_bounded (settle_receipt k (mark_outcome_unknown (fst k) (snd k) (ch_db h)) h')" if "host_bounded h'" for h'
    using that assms by (intro settle_bounded) (auto simp: host_bounded_def dest: mark_bounded)
  have c: "host_bounded (settle_receipt k (complete_command (fst k) (snd k) a b u v now (ch_db h)) h)" for a b u v
    using assms by (intro settle_bounded) (auto simp: host_bounded_def dest: complete_bounded)
  have s: "host_bounded (recover_send Q k f client facts now h)" for client
    using assms m[of "h\<lparr>ch_failures := removeAll k (ch_failures h)\<rparr>"] c
    by (auto simp: recover_send_def host_bounded_def dest: complete_bounded split: option.split sum.split)
  show ?thesis using assms m[OF assms] c s
    by (simp add: recover_receipt_def host_bounded_def split: command_kind.split sum.split option.split)
qed

lemma host_exec_bounded:
  assumes "host_bounded h"
  shows "host_bounded (host_exec Q c h)"
proof (cases c)
  case (Handle_begin d f facts now later)
  show ?thesis
  proof (cases "reserve_command d (fr_id f) (fr_type f) (fr_hash f) now (ch_db h)")
    case (Inr res)
    obtain r created db where r: "res = ((r, created), db)" by (metis surj_pair)
    have "rows_bounded (cd_rows db)" using reserve_bounded assms Inr r by (auto simp: host_bounded_def)
    then have "host_bounded (h\<lparr>ch_db := db\<rparr>)" by (simp add: host_bounded_def)
    then show ?thesis using Handle_begin Inr r recover_bounded[of "h\<lparr>ch_db := db\<rparr>"]
      by (simp add: host_exec_def handle_begin_def Let_def host_bounded_def)
  qed (use assms Handle_begin in \<open>simp add: host_exec_def handle_begin_def Let_def host_bounded_def\<close>)
next
  case (Handle_end k out now)
  then show ?thesis using assms
    by (auto simp: host_exec_def handle_end_def Let_def host_bounded_def dest: complete_bounded split: execution_result.split sum.split)
next
  case (Cleanup_receipts d now)
  then show ?thesis using assms cleanup_bounded
    by (auto simp: host_exec_def cleanup_command_receipts_def host_bounded_def split: sum.split)
qed (use assms in \<open>simp_all add: host_exec_def host_bounded_def\<close>)

text \<open>
  C26. Receipts stay within their capacity.  After any commands, of any phones and with any faults, a device
  has at most 10,000 receipts, and their text columns take at most 64 MiB plus five bytes for each receipt
  whose outcome is unknown: that status is longer than the one whose size was checked.
\<close>

theorem receipts_bounded:
  "usage_count d (cd_rows (ch_db (fold (host_exec Q) cs (new_host s)))) \<le> 10000 \<and>
   usage_bytes d (cd_rows (ch_db (fold (host_exec Q) cs (new_host s)))) \<le> 64 * 1024 * 1024 +
     5 * int (length (filter (\<lambda>kr. fst (fst kr) = d \<and> cr_status (snd kr) = Outcome_unknown) (cd_rows (ch_db (fold (host_exec Q) cs (new_host s))))))"
proof -
  have run: "host_bounded (fold (host_exec Q) cs h)" if "host_bounded h" for h
    using that by (induction cs arbitrary: h) (simp_all add: host_exec_bounded)
  have "row_total f [] = 0" for f by (simp add: row_total_def)
  then have "host_bounded (new_host s)" by (simp add: host_bounded_def new_host_def rows_bounded_def receipt_max_count_def receipt_max_bytes_def)
  note b = run[OF this]
  have "int (length (filter (\<lambda>kr. fst (fst kr) = d \<and> cr_status (snd kr) = Outcome_unknown) rows)) = row_total (unknown_for d) rows" for rows
    by (induction rows) (simp_all add: row_total_def unknown_for_def)
  then show ?thesis using b by (simp add: host_bounded_def rows_bounded_def usage_totals receipt_max_count_def receipt_max_bytes_def)
qed

subsection \<open>Each command is executed once\<close>

definition cmd_times :: "host_cmd \<Rightarrow> int list" where
  "cmd_times c = (case c of Handle_begin d f facts now later \<Rightarrow> [now, later] | Handle_end k out now \<Rightarrow> [now]
     | Cleanup_receipts d now \<Rightarrow> [now] | Stop_channel \<Rightarrow> [] | Crash_server \<Rightarrow> [] | Other_store m \<Rightarrow> [])"

definition in_window :: "int \<Rightarrow> host_cmd \<Rightarrow> bool" where
  "in_window t0 c \<longleftrightarrow> (\<forall>t \<in> set (cmd_times c). t0 \<le> t \<and> t \<le> t0 + receipt_retention)"

definition final_answer :: "command_answer \<Rightarrow> bool" where
  "final_answer a \<longleftrightarrow> a \<noteq> In_progress \<and> a \<noteq> No_capacity"

definition log_ok :: "int \<Rightarrow> (command_key, receipt) dict \<Rightarrow> command_event list \<Rightarrow> bool" where
  "log_ok t0 rows log \<longleftrightarrow> dict_ok rows \<and>
     (\<forall>k r t. dict_get rows k = Some r \<longrightarrow> cr_completed r = Some t \<longrightarrow> t0 \<le> t) \<and>
     (\<forall>k. count_list log (Executed k) = (if dict_get rows k = None then 0 else 1)) \<and>
     (\<forall>k a. Answered k a \<in> set log \<longrightarrow> final_answer a \<longrightarrow>
        (\<exists>r. dict_get rows k = Some r \<and> cr_status r \<noteq> Processing \<and> a = reply_of r))"

definition host_once :: "int \<Rightarrow> command_host \<Rightarrow> bool" where
  "host_once t0 h \<longleftrightarrow> log_ok t0 (cd_rows (ch_db h)) (ch_log h)"

lemma log_answered: "log_ok t0 rows log \<Longrightarrow> Answered k a \<in> set log \<Longrightarrow> final_answer a \<Longrightarrow>
    \<exists>r. dict_get rows k = Some r \<and> cr_status r \<noteq> Processing \<and> a = reply_of r"
  unfolding log_ok_def by blast

lemma receipt_logD:
  assumes "log_ok t0 rows log"
  shows "dict_ok rows" "dict_get rows k = Some r \<Longrightarrow> cr_completed r = Some t \<Longrightarrow> t0 \<le> t"
    "count_list log (Executed k) = (if dict_get rows k = None then 0 else 1)"
  using assms unfolding log_ok_def by blast+

lemma log_put:
  assumes "log_ok t0 rows log" "dict_get rows k = Some r" "cr_status r = Processing" "\<And>t. cr_completed r' = Some t \<Longrightarrow> t0 \<le> t"
  shows "log_ok t0 (dict_set rows k r') log"
  unfolding log_ok_def
proof (intro conjI allI impI)
  fix x :: command_key and a assume a: "Answered x a \<in> set log" "final_answer a"
  obtain q where "dict_get rows x = Some q" "cr_status q \<noteq> Processing" "a = reply_of q" using log_answered[OF assms(1) a] by blast
  then show "\<exists>q. dict_get (dict_set rows k r') x = Some q \<and> cr_status q \<noteq> Processing \<and> a = reply_of q" using assms(2,3) by auto
qed (use assms in \<open>auto simp: receipt_logD split: if_splits dest: receipt_logD(2)[OF assms(1)]\<close>)

lemma log_new:
  assumes "log_ok t0 rows log" "dict_get rows k = None" "cr_completed r = None"
  shows "log_ok t0 (dict_set rows k r) (log @ [Executed k])"
  unfolding log_ok_def
proof (intro conjI allI impI)
  fix x :: command_key and a assume a: "Answered x a \<in> set (log @ [Executed k])" "final_answer a"
  obtain q where "dict_get rows x = Some q" "cr_status q \<noteq> Processing" "a = reply_of q" using log_answered[OF assms(1) _ a(2), of x] a(1) by auto
  then show "\<exists>q. dict_get (dict_set rows k r) x = Some q \<and> cr_status q \<noteq> Processing \<and> a = reply_of q" using assms(2) by auto
qed (use assms in \<open>auto simp: receipt_logD split: if_splits dest: receipt_logD(2)[OF assms(1)]\<close>)

lemma log_answer:
  assumes "log_ok t0 rows log" "final_answer a \<Longrightarrow> \<exists>r. dict_get rows k = Some r \<and> cr_status r \<noteq> Processing \<and> a = reply_of r"
  shows "log_ok t0 rows (log @ [Answered k a])"
  using assms by (auto simp: log_ok_def)

lemma cleanup_window:
  assumes "log_ok t0 rows log" "now \<le> t0 + receipt_retention"
  shows "cleanup_rows d now rows = rows"
proof -
  have "\<not> expired_receipt d now kr" if "kr \<in> set rows" for kr
  proof
    assume e: "expired_receipt d now kr"
    then obtain t where t: "cr_completed (snd kr) = Some t" "t < now - receipt_retention" by (auto simp: expired_receipt_def split: option.splits)
    have "dict_get rows (fst kr) = Some (snd kr)" using that receipt_logD(1)[OF assms(1)] by (simp add: dict_get_Some_iff)
    from receipt_logD(2)[OF assms(1) this t(1)] show False using assms(2) t(2) by simp
  qed
  then show ?thesis by (simp add: cleanup_rows_def)
qed

lemma settle_once:
  assumes "host_once t0 h" "\<And>r db. res = Inr (r, db) \<Longrightarrow> log_ok t0 (cd_rows db) (ch_log h) \<and> dict_get (cd_rows db) k = Some r \<and> cr_status r \<noteq> Processing"
  shows "host_once t0 (settle_receipt k res h)"
proof (cases res)
  case (Inr p)
  obtain r db where p: "p = (r, db)" by fastforce
  then have s: "log_ok t0 (cd_rows db) (ch_log h)" "dict_get (cd_rows db) k = Some r" "cr_status r \<noteq> Processing" using assms(2) Inr by auto
  then have "log_ok t0 (cd_rows db) (ch_log h @ [Answered k (reply_of r)])" by (intro log_answer) auto
  then show ?thesis using Inr p by (simp add: settle_receipt_def host_once_def)
qed (use assms(1) in \<open>simp add: settle_receipt_def\<close>)

lemma mark_once:
  assumes "log_ok t0 (cd_rows db) log" "mark_outcome_unknown (fst k) (snd k) db = Inr (r, db')"
  shows "log_ok t0 (cd_rows db') log \<and> dict_get (cd_rows db') k = Some r \<and> cr_status r \<noteq> Processing"
proof -
  obtain q where q: "dict_get (cd_rows db) k = Some q" "cr_status q = Processing" "r = q\<lparr>cr_status := Outcome_unknown\<rparr>"
      "cd_rows db' = dict_set (cd_rows db) k r"
    using mark_parts'[OF assms(2)] by auto
  have "log_ok t0 (cd_rows db') log" unfolding q(4) using receipt_logD(2)[OF assms(1) q(1)] q by (intro log_put[OF assms(1) q(1,2)]) auto
  then show ?thesis using q by simp
qed

lemma complete_receipt_once:
  assumes "log_ok t0 (cd_rows db) log" "complete_command (fst k) (snd k) a b u v now db = Inr (r, db')" "t0 \<le> now" "now \<le> t0 + receipt_retention"
  shows "log_ok t0 (cd_rows db') log \<and> dict_get (cd_rows db') k = Some r \<and> cr_status r \<noteq> Processing"
proof -
  obtain q where q: "dict_get (cd_rows db) k = Some q" "cr_status q = Processing" "cr_status r = Completed" "cr_completed r = Some now"
      "cd_rows db' = dict_set (cd_rows db) k r"
    using complete_parts[OF assms(2)] cleanup_window[OF assms(1,4)] by auto
  have "log_ok t0 (cd_rows db') log" unfolding q(5) using assms(3) q by (intro log_put[OF assms(1) q(1,2)]) auto
  then show ?thesis using q by simp
qed

lemma final_simps [simp]: "\<not> final_answer In_progress" "\<not> final_answer No_capacity" "final_answer (reply_of r)"
  by (simp_all add: final_answer_def reply_of_def)

lemma recover_once:
  assumes h: "host_once t0 h" and r: "dict_get (cd_rows (ch_db h)) k = Some r" and w: "t0 \<le> now" "now \<le> t0 + receipt_retention"
  shows "host_once t0 (recover_receipt Q k f r facts now h)"
proof -
  have l: "log_ok t0 (cd_rows (ch_db h)) (ch_log h)" using h by (simp add: host_once_def)
  have m: "host_once t0 (settle_receipt k (mark_outcome_unknown (fst k) (snd k) (ch_db h)) h')"
    if "host_once t0 h'" "ch_log h' = ch_log h" for h'
    using that l by (intro settle_once) (auto dest: mark_once)
  have c: "host_once t0 (settle_receipt k (complete_command (fst k) (snd k) a b u v now (ch_db h)) h)" for a b u v
    using h l w by (intro settle_once) (auto dest: complete_receipt_once)
  have p: "host_once t0 (answer k In_progress h)" using log_answer[OF l, of In_progress k] by (simp add: host_once_def)
  have u: "host_once t0 (recover_send Q k f client facts now h)" for client
  proof (cases "rf_message facts")
    case None
    then show ?thesis using p c m[of "h\<lparr>ch_failures := removeAll k (ch_failures h)\<rparr>"] h by (simp add: recover_send_def host_once_def)
  next
    case (Some role)
    show ?thesis
      using Some h c[of "''message.send.ok''" "rq_accepted Q client" "fr_session f" None]
      by (auto simp: recover_send_def settle_receipt_def host_once_def split: sum.splits)
  qed
  have d: "host_once t0 (answer k (reply_of r) (h\<lparr>ch_processing := removeAll k (ch_processing h)\<rparr>))" if "cr_status r \<noteq> Processing"
    using log_answer[OF l, of "reply_of r" k] r that by (simp add: host_once_def)
  show ?thesis using h p u d c m[of h] by (simp add: recover_receipt_def split: command_kind.split sum.split option.split)
qed

lemma begin_once:
  assumes h: "host_once t0 h" and w: "now \<le> t0 + receipt_retention" "t0 \<le> later" "later \<le> t0 + receipt_retention"
  shows "host_once t0 (handle_begin Q d f facts now later h)"
proof (cases "reserve_command d (fr_id f) (fr_type f) (fr_hash f) now (ch_db h)")
  case (Inl e)
  have "host_once t0 (answer k No_capacity h)" for k
    using h log_answer[of t0 _ _ No_capacity k] by (simp add: host_once_def)
  then show ?thesis using Inl h by (simp add: handle_begin_def Let_def)
next
  case (Inr res)
  obtain r created db where res: "res = ((r, created), db)" by (metis surj_pair)
  have l: "log_ok t0 (cd_rows (ch_db h)) (ch_log h)" using h by (simp add: host_once_def)
  note parts = reserve_parts[OF Inr[unfolded res]] cleanup_window[OF l w(1)]
  show ?thesis
  proof (cases created)
    case True
    then have "dict_get (cd_rows (ch_db h)) (d, fr_id f) = None" "cr_completed r = None" "cd_rows db = dict_set (cd_rows (ch_db h)) (d, fr_id f) r"
      using parts by (auto simp: new_receipt_def)
    then have "log_ok t0 (cd_rows db) (ch_log h @ [Executed (d, fr_id f)])" using log_new[OF l] by simp
    then show ?thesis using Inr res True by (simp add: handle_begin_def Let_def host_once_def)
  next
    case False
    then have rows: "cd_rows db = cd_rows (ch_db h)" "dict_get (cd_rows (ch_db h)) (d, fr_id f) = Some r" using parts by auto
    then have "host_once t0 (h\<lparr>ch_db := db\<rparr>)" using h by (simp add: host_once_def)
    then show ?thesis using recover_once[of t0 "h\<lparr>ch_db := db\<rparr>"] rows w Inr res False by (simp add: handle_begin_def Let_def)
  qed
qed

lemma end_once:
  assumes h: "host_once t0 h" and w: "t0 \<le> now" "now \<le> t0 + receipt_retention"
  shows "host_once t0 (handle_end k out now h)"
proof -
  have l: "log_ok t0 (cd_rows (ch_db h)) (ch_log h)" using h by (simp add: host_once_def)
  have "log_ok t0 (cd_rows db) (ch_log h @ [Answered k (reply_of r)])"
    if "complete_command (fst k) (snd k) a b u v now (ch_db h) = Inr (r, db)" for a b u v r db
    using complete_receipt_once[OF l that w] by (intro log_answer) auto
  then show ?thesis using h by (auto simp: handle_end_def Let_def host_once_def split: execution_result.split sum.split)
qed

lemma host_exec_once:
  assumes "host_once t0 h" "in_window t0 c"
  shows "host_once t0 (host_exec Q c h)"
proof (cases c)
  case (Handle_begin d f facts now later)
  then show ?thesis using assms begin_once by (simp add: host_exec_def in_window_def cmd_times_def)
next
  case (Handle_end k out now)
  then show ?thesis using assms end_once by (simp add: host_exec_def in_window_def cmd_times_def)
next
  case (Cleanup_receipts d now)
  have "log_ok t0 (cd_rows (ch_db h)) (ch_log h)" using assms(1) by (simp add: host_once_def)
  from cleanup_window[OF this] show ?thesis using assms Cleanup_receipts
    by (auto simp: host_exec_def cleanup_command_receipts_def host_once_def in_window_def cmd_times_def)
qed (use assms in \<open>simp_all add: host_exec_def host_once_def\<close>)

lemma host_run_once: "host_once t0 h \<Longrightarrow> \<forall>c \<in> set cs. in_window t0 c \<Longrightarrow> host_once t0 (fold (host_exec Q) cs h)"
  by (induction cs arbitrary: h) (simp_all add: host_exec_once)

text \<open>
  C25. A command is executed once, and its answer is stable.  Within the seven days a receipt is kept, however
  often a phone repeats a command, in whatever order commands end, with the channel stopped or the process
  lost in between and whatever the session store says during recovery: the command is executed at most once,
  all its final answers (a reply, or that its outcome is unknown) are the same, and it has one only after an
  execution.
\<close>

theorem command_executed_once:
  assumes "\<forall>c \<in> set cs. in_window t0 c"
  shows "count_list (ch_log (fold (host_exec Q) cs (new_host s))) (Executed k) \<le> 1 \<and>
    (\<forall>a b. Answered k a \<in> set (ch_log (fold (host_exec Q) cs (new_host s))) \<and> final_answer a \<and>
        Answered k b \<in> set (ch_log (fold (host_exec Q) cs (new_host s))) \<and> final_answer b \<longrightarrow>
        a = b \<and> Executed k \<in> set (ch_log (fold (host_exec Q) cs (new_host s))))"
proof -
  define h where "h = fold (host_exec Q) cs (new_host s)"
  have "host_once t0 (new_host s)" by (simp add: host_once_def log_ok_def new_host_def)
  then have l: "log_ok t0 (cd_rows (ch_db h)) (ch_log h)" using host_run_once[OF _ assms] by (simp add: h_def host_once_def)
  have "a = b \<and> Executed k \<in> set (ch_log h)"
    if ab: "Answered k a \<in> set (ch_log h)" "final_answer a" "Answered k b \<in> set (ch_log h)" "final_answer b" for a b
  proof -
    obtain r where "dict_get (cd_rows (ch_db h)) k = Some r" "a = reply_of r" using log_answered[OF l ab(1,2)] by blast
    then show ?thesis using log_answered[OF l ab(3,4)] receipt_logD(3)[OF l, of k] count_list_0_iff[of "ch_log h" "Executed k"] by auto
  qed
  moreover have "count_list (ch_log h) (Executed k) \<le> 1" by (simp add: receipt_logD(3)[OF l])
  ultimately show ?thesis unfolding h_def by blast
qed

definition demo_frame :: command_frame where
  "demo_frame = \<lparr>fr_id = ''c1'', fr_type = ''message.send'', fr_hash = ''h'', fr_session = Some ''s'', fr_kind = Message_send ''m1''\<rparr>"

definition demo_codec :: reply_codec where
  "demo_codec = \<lparr>rq_accepted = (\<lambda>m. ''ok '' @ m), rq_created = (\<lambda>s. s), rq_interrupted = ''interrupted''\<rparr>"

definition demo_commands :: "host_cmd list" where
  "demo_commands = (let fresh = \<lparr>rf_message = None, rf_handoff = False, rf_created = Inr None\<rparr>;
      stored = \<lparr>rf_message = Some ''user'', rf_handoff = False, rf_created = Inr None\<rparr> in
     [Handle_begin ''p'' demo_frame fresh 10 10, Handle_begin ''p'' demo_frame fresh 11 11, Crash_server,
      Handle_begin ''p'' demo_frame stored 12 12, Handle_begin ''p'' demo_frame fresh 13 13])"

lemma demo_commands_log: "ch_log (fold (host_exec demo_codec) demo_commands (new_host demo_mobile)) =
    [Executed (''p'', ''c1''), Answered (''p'', ''c1'') In_progress,
     Answered (''p'', ''c1'') (Stored_reply ''message.send.ok'' ''ok m1'' (Some ''s'') None),
     Answered (''p'', ''c1'') (Stored_reply ''message.send.ok'' ''ok m1'' (Some ''s'') None)]"
  unfolding demo_mobile_eval by code_simp

theorem command_executed_once_witness:
  "count_list (ch_log (fold (host_exec demo_codec) demo_commands (new_host demo_mobile))) (Executed (''p'', ''c1'')) = 1"
proof -
  have "\<forall>c \<in> set demo_commands. in_window 10 c" by code_simp
  from command_executed_once[OF this, of demo_codec demo_mobile "(''p'', ''c1'')"] show ?thesis
    by (simp add: demo_commands_log)
qed

end
