(* ===== verification/Canonical_Text.thy ===== *)
theory Canonical_Text
  imports Roxy_Prelude
begin

text \<open>
  The texts that are signed: \<open>json.dumps\<close> with ASCII output, sorted keys and no spaces, as the
  functions \<open>_canonical_json\<close> of src/infra/mobile_realtime/pairing.py, auth.py and signed_ticket.py
  use it.  A text holds code points below 256.  The lemmas show that a quoted text is never the
  beginning of another one, so a canonical document determines the values in it.
\<close>

subsection \<open>Quoted texts\<close>

definition hex_digit :: "nat \<Rightarrow> char" where
  "hex_digit n = (if n < 10 then char_of (48 + n) else char_of (87 + n))"

definition backslash :: char where
  "backslash = CHR 0x5C"

definition escape_char :: "char \<Rightarrow> string" where
  "escape_char c = (let n = of_char c :: nat in
     if c = CHR 0x22 \<or> c = backslash then [backslash, c]
     else if n = 8 then backslash # ''b'' else if n = 9 then backslash # ''t'' else if n = 10 then backslash # ''n''
     else if n = 12 then backslash # ''f'' else if n = 13 then backslash # ''r''
     else if 32 \<le> n \<and> n < 127 then [c]
     else backslash # ''u00'' @ [hex_digit (n div 16), hex_digit (n mod 16)])"

definition json_string :: "string \<Rightarrow> string" where
  "json_string s = CHR 0x22 # concat (map escape_char s) @ [CHR 0x22]"

fun join_texts :: "string list \<Rightarrow> string" where
  "join_texts [] = []"
| "join_texts [x] = x"
| "join_texts (x # y # ys) = x @ CHR 0x2C # join_texts (y # ys)"

definition int_text :: "int \<Rightarrow> string" where
  "int_text n = (if n < 0 then CHR 0x2D # decimal (nat (- n)) else decimal (nat n))"

fun json_dumps :: "json \<Rightarrow> string" where
  "json_dumps JNull = ''null''"
| "json_dumps (JBool b) = (if b then ''true'' else ''false'')"
| "json_dumps (JInt n) = int_text n"
| "json_dumps (JFloat t) = t"
| "json_dumps (JStr s) = json_string s"
| "json_dumps (JList xs) = CHR 0x5B # join_texts (map json_dumps xs) @ [CHR 0x5D]"
| "json_dumps (JObj kvs) = CHR 0x7B # join_texts (map snd (sort_key fst (map (\<lambda>(k, v). (k, json_string k @ CHR 0x3A # json_dumps v)) kvs))) @ [CHR 0x7D]"

subsection \<open>Quoted texts are self-delimiting\<close>

definition hex_value :: "char \<Rightarrow> nat" where
  "hex_value c = (let n = of_char c :: nat in if n < 58 then n - 48 else n - 87)"

lemma hex_value_digit [simp]: "n < 16 \<Longrightarrow> hex_value (hex_digit n) = n"
  by (simp add: hex_value_def hex_digit_def Let_def)

text \<open>The inverse of an escape.\<close>

definition read_escape :: "string \<Rightarrow> char \<times> string" where
  "read_escape t = (if hd t \<noteq> backslash then (hd t, tl t)
     else case tl t of
       [] \<Rightarrow> (backslash, [])
     | e # r \<Rightarrow> (if e = CHR ''b'' then char_of (8 :: nat) else if e = CHR ''t'' then char_of (9 :: nat) else if e = CHR ''n'' then char_of (10 :: nat)
         else if e = CHR ''f'' then char_of (12 :: nat) else if e = CHR ''r'' then char_of (13 :: nat)
         else if e = CHR ''u'' then char_of (hex_value (r ! 2) * 16 + hex_value (r ! 3)) else e,
         if e = CHR ''u'' then drop 4 r else r))"

lemma read_escape_char: "read_escape (escape_char c @ xs) = (c, xs)"
proof -
  define n where "n = (of_char c :: nat)"
  have c: "c = char_of n" and n: "n < 256" by (simp_all add: n_def)
  have u: "char_of (hex_value (hex_digit (n div 16)) * 16 + hex_value (hex_digit (n mod 16))) = c"
    using n c by simp
  show ?thesis
  proof (cases "c = CHR 0x22 \<or> c = backslash")
    case True
    then show ?thesis by (auto simp: escape_char_def read_escape_def backslash_def)
  next
    case False
    have "n mod 256 = n" using n by simp
    then show ?thesis using False u
      by (auto simp: escape_char_def read_escape_def backslash_def n_def[symmetric] Let_def c)
  qed
qed

lemma escape_nonempty [simp]: "escape_char c \<noteq> []"
  by (simp add: escape_char_def Let_def)

lemma escape_hd: "hd (escape_char c) \<noteq> CHR 0x22"
  by (simp add: escape_char_def backslash_def Let_def)

lemma escape_not_quote [simp]: "CHR 0x22 # xs \<noteq> escape_char c @ ys" "escape_char c @ ys \<noteq> CHR 0x22 # xs"
  using escape_hd[of c] by (metis escape_nonempty hd_append2 list.sel(1))+

lemma escape_prefix: "escape_char c @ xs = escape_char d @ ys \<longleftrightarrow> c = d \<and> xs = ys"
  by (metis read_escape_char prod.inject)

lemma body_prefix:
  "concat (map escape_char s) @ CHR 0x22 # xs = concat (map escape_char t) @ CHR 0x22 # ys \<longleftrightarrow> s = t \<and> xs = ys"
proof (induction s arbitrary: t)
  case Nil
  show ?case by (cases t) simp_all
next
  case (Cons c s)
  show ?case
  proof (cases t)
    case Nil
    then show ?thesis by simp
  next
    case (Cons d t')
    then show ?thesis using Cons.IH[of t'] by (simp add: escape_prefix)
  qed
qed

lemma json_string_prefix [simp]: "json_string s @ xs = json_string t @ ys \<longleftrightarrow> s = t \<and> xs = ys"
  using body_prefix by (simp add: json_string_def)

lemma json_string_eq [simp]: "json_string s = json_string t \<longleftrightarrow> s = t"
  using json_string_prefix[of s "[]" t "[]"] by simp

lemma json_string_hd [simp]: "json_string s \<noteq> []" "json_string s @ xs \<noteq> CHR 0x5D # ys" "CHR 0x5D # ys \<noteq> json_string s @ xs"
  by (simp_all add: json_string_def)

lemma join_prefix:
  "join_texts (map json_string s) @ CHR 0x5D # xs = join_texts (map json_string t) @ CHR 0x5D # ys \<longleftrightarrow> s = t \<and> xs = ys"
proof (induction s arbitrary: t rule: join_texts.induct)
  case 1
  show ?case by (cases t rule: join_texts.cases) simp_all
next
  case (2 x)
  show ?case by (cases t rule: join_texts.cases) simp_all
next
  case (3 x y zs)
  show ?case
  proof (cases t rule: join_texts.cases)
    case (3 u v ws)
    then show ?thesis using "3.IH"[of "v # ws"] by simp
  qed simp_all
qed

lemma string_list_prefix [simp]:
  "json_dumps (JList (map JStr s)) @ xs = json_dumps (JList (map JStr t)) @ ys \<longleftrightarrow> s = t \<and> xs = ys"
proof -
  have "map json_dumps (map JStr u) = map json_string u" for u by simp
  then show ?thesis using join_prefix[of s xs t ys] by (simp del: map_map)
qed

subsection \<open>Base64\<close>

text \<open>A byte is a \<open>char\<close>; three bytes are four sextets.  \<open>a2b_base64\<close> is the strict decoder of the
  \<open>binascii\<close> module: groups of four, padding only at the very end; bits left over are ignored.\<close>

definition sextet_char :: "nat \<Rightarrow> char" where
  "sextet_char n = (if n < 26 then char_of (65 + n) else if n < 52 then char_of (71 + n) else if n < 62 then char_of (n - 4)
     else if n = 62 then CHR ''+'' else CHR ''/'')"

definition sextet_of :: "char \<Rightarrow> nat option" where
  "sextet_of c = (let n = of_char c :: nat in
     if 65 \<le> n \<and> n \<le> 90 then Some (n - 65) else if 97 \<le> n \<and> n \<le> 122 then Some (n - 71)
     else if 48 \<le> n \<and> n \<le> 57 then Some (n + 4) else if c = CHR ''+'' then Some 62 else if c = CHR ''/'' then Some 63 else None)"

definition pad :: char where
  "pad = CHR 0x3D"

fun b2a_base64 :: "string \<Rightarrow> string" where
  "b2a_base64 [] = []"
| "b2a_base64 [x] = (let a = of_char x :: nat in [sextet_char (a div 4), sextet_char (a mod 4 * 16), pad, pad])"
| "b2a_base64 [x, y] = (let a = of_char x :: nat; b = of_char y :: nat in
     [sextet_char (a div 4), sextet_char (a mod 4 * 16 + b div 16), sextet_char (b mod 16 * 4), pad])"
| "b2a_base64 (x # y # z # r) = (let a = of_char x :: nat; b = of_char y :: nat; c = of_char z :: nat in
     [sextet_char (a div 4), sextet_char (a mod 4 * 16 + b div 16), sextet_char (b mod 16 * 4 + c div 64), sextet_char (c mod 64)] @ b2a_base64 r)"

fun a2b_base64 :: "string \<Rightarrow> string option" where
  "a2b_base64 [] = Some []"
| "a2b_base64 (p # q # u # v # r) =
     (if v = pad then
        if r \<noteq> [] then None
        else if u = pad then (case (sextet_of p, sextet_of q) of (Some a, Some b) \<Rightarrow> Some [char_of (a * 4 + b div 16)] | _ \<Rightarrow> None)
        else (case (sextet_of p, sextet_of q, sextet_of u) of
            (Some a, Some b, Some c) \<Rightarrow> Some [char_of (a * 4 + b div 16), char_of (b mod 16 * 16 + c div 4)] | _ \<Rightarrow> None)
      else (case (sextet_of p, sextet_of q, sextet_of u, sextet_of v) of
          (Some a, Some b, Some c, Some d) \<Rightarrow>
            map_option (\<lambda>t. [char_of (a * 4 + b div 16), char_of (b mod 16 * 16 + c div 4), char_of (c mod 4 * 64 + d)] @ t) (a2b_base64 r)
        | _ \<Rightarrow> None))"
| "a2b_base64 _ = None"

lemma sextet_char_of [simp]: "n < 64 \<Longrightarrow> sextet_of (sextet_char n) = Some n"
  by (auto simp: sextet_char_def sextet_of_def Let_def)

lemma sextet_not_pad [simp]: "n < 64 \<Longrightarrow> sextet_char n \<noteq> pad"
  using sextet_char_of[of n] by (auto simp: sextet_of_def pad_def)

lemma of_char_byte [simp]: "(of_char c :: nat) < 256" "(of_char c :: nat) div 4 < 64" "(of_char c :: nat) div 16 < 16" "(of_char c :: nat) div 64 < 4"
  by (simp_all add: less_mult_imp_div_less)

lemma split_digits [simp]: "j < 16 \<Longrightarrow> (k * 16 + j) div 16 = (k :: nat)" "j < 16 \<Longrightarrow> (k * 16 + j) mod 16 = j"
    "j < 4 \<Longrightarrow> (k * 4 + j) div 4 = k" "j < 4 \<Longrightarrow> (k * 4 + j) mod 4 = j"
  by simp_all

lemma sextet_bounds [simp]: "k < 4 \<Longrightarrow> j < 16 \<Longrightarrow> k * 16 + j < (64 :: nat)" "m < 16 \<Longrightarrow> i < 4 \<Longrightarrow> m * 4 + i < (64 :: nat)"
  by simp_all

lemma base64_roundtrip: "a2b_base64 (b2a_base64 s) = Some s"
proof (induction s rule: b2a_base64.induct)
  case (4 x y z r)
  define a b c :: nat where "a = of_char x" and "b = of_char y" and "c = of_char z"
  have "a < 256" "b < 256" "c < 256" and bytes: "char_of a = x" "char_of b = y" "char_of c = z" by (simp_all add: a_def b_def c_def)
  then have "a div 4 < 64" "b div 16 < 16" "c div 64 < 4" by (simp_all add: less_mult_imp_div_less)
  then show ?case using 4 bytes by (simp add: Let_def a_def[symmetric] b_def[symmetric] c_def[symmetric])
next
  case (3 x y)
  define a b :: nat where "a = of_char x" and "b = of_char y"
  have "a < 256" "b < 256" and bytes: "char_of a = x" "char_of b = y" by (simp_all add: a_def b_def)
  then have "a div 4 < 64" "b div 16 < 16" by (simp_all add: less_mult_imp_div_less)
  then show ?case using 3 bytes by (simp add: Let_def a_def[symmetric] b_def[symmetric])
next
  case (2 x)
  define a :: nat where "a = of_char x"
  have "a < 256" and bytes: "char_of a = x" by (simp_all add: a_def)
  then have "a div 4 < 64" by (simp add: less_mult_imp_div_less)
  then show ?case using 2 bytes by (simp add: Let_def a_def[symmetric])
qed simp

text \<open>\<open>_b64url\<close>: the URL alphabet without padding, and \<open>decode_b64url\<close> of signed_ticket.py, which accepts
  exactly what \<open>b64url\<close> writes.\<close>

definition url_char :: "char \<Rightarrow> char" where
  "url_char c = (if c = CHR ''+'' then CHR ''-'' else if c = CHR ''/'' then CHR ''_'' else c)"

definition plain_char :: "char \<Rightarrow> char" where
  "plain_char c = (if c = CHR ''-'' then CHR ''+'' else if c = CHR ''_'' then CHR ''/'' else c)"

definition rstrip_pad :: "string \<Rightarrow> string" where
  "rstrip_pad s = rev (dropWhile (\<lambda>c. c = pad) (rev s))"

definition b64url :: "string \<Rightarrow> string" where
  "b64url s = rstrip_pad (map url_char (b2a_base64 s))"

definition decode_b64url :: "string \<Rightarrow> string option" where
  "decode_b64url v = (if v = [] then None
     else case a2b_base64 (map plain_char (v @ replicate (nat (- int (length v) mod 4)) pad)) of
       None \<Rightarrow> None
     | Some b \<Rightarrow> if b64url b \<noteq> v then None else Some b)"

lemma sextet_plain [simp]: "n < 64 \<Longrightarrow> plain_char (url_char (sextet_char n)) = sextet_char n" "n < 64 \<Longrightarrow> url_char (sextet_char n) \<noteq> pad"
proof -
  have ne: "sextet_char n \<notin> {CHR ''-'', CHR ''_'', pad}" if "n < 64"
    using sextet_char_of[OF that] by (auto simp: sextet_of_def pad_def)
  have "plain_char (url_char c) = c" "url_char c \<noteq> pad" if "c \<notin> {CHR ''-'', CHR ''_'', pad}" for c
    using that by (auto simp: plain_char_def url_char_def pad_def)
  from this[OF ne] show "n < 64 \<Longrightarrow> plain_char (url_char (sextet_char n)) = sextet_char n" "n < 64 \<Longrightarrow> url_char (sextet_char n) \<noteq> pad" by blast+
qed

lemma pad_plain [simp]: "url_char pad = pad" "plain_char pad = pad"
  by (simp_all add: url_char_def plain_char_def pad_def)

lemma rstrip_pad_simps: "rstrip_pad [] = []" "rstrip_pad (s @ [pad]) = rstrip_pad s" "c \<noteq> pad \<Longrightarrow> rstrip_pad (s @ [c]) = s @ [c]"
  by (simp_all add: rstrip_pad_def)

lemma rstrip_last: "rstrip_pad x = u @ [e] \<Longrightarrow> e \<noteq> pad"
  by (metis (mono_tags) dropWhile_eq_Cons_conv rev_eq_Cons_iff rev_rev_ident rev_swap rstrip_pad_def)

text \<open>Where the padding of an encoded text was removed, the decoder puts it back.\<close>

lemma b64url_padded: "map plain_char (b64url s @ replicate (nat (- int (length (b64url s)) mod 4)) pad) = b2a_base64 s"
proof -
  have "\<exists>t n. map url_char (b2a_base64 s) = t @ replicate n pad \<and> rstrip_pad (t @ replicate n pad) = t \<and>
      nat (- int (length t) mod 4) = n \<and> map plain_char (t @ replicate n pad) = b2a_base64 s"
  proof (induction s rule: b2a_base64.induct)
    case 1
    show ?case by (intro exI[of _ "[]"] exI[of _ 0]) (simp add: rstrip_pad_def)
  next
    case (2 x)
    define a :: nat where "a = of_char x"
    have a: "a div 4 < 64" by (simp add: a_def)
    show ?case
      by (intro exI[of _ "[url_char (sextet_char (a div 4)), url_char (sextet_char (a mod 4 * 16))]"] exI[of _ 2])
        (simp add: Let_def a_def[symmetric] a rstrip_pad_def numeral_2_eq_2)
  next
    case (3 x y)
    define a b :: nat where "a = of_char x" and "b = of_char y"
    have a: "a div 4 < 64" "b div 16 < 16" by (simp_all add: a_def b_def)
    show ?case
      by (intro exI[of _ "[url_char (sextet_char (a div 4)), url_char (sextet_char (a mod 4 * 16 + b div 16)), url_char (sextet_char (b mod 16 * 4))]"] exI[of _ 1])
        (simp add: Let_def a_def[symmetric] b_def[symmetric] a rstrip_pad_def)
  next
    case (4 x y z r)
    define a b c :: nat where "a = of_char x" and "b = of_char y" and "c = of_char z"
    have a: "a div 4 < 64" "b div 16 < 16" "c div 64 < 4" by (simp_all add: a_def b_def c_def)
    obtain t n where t: "map url_char (b2a_base64 r) = t @ replicate n pad" "rstrip_pad (t @ replicate n pad) = t"
        "nat (- int (length t) mod 4) = n" "map plain_char (t @ replicate n pad) = b2a_base64 r"
      using "4.IH" by blast
    define q where "q = map (\<lambda>k. url_char (sextet_char k)) [a div 4, a mod 4 * 16 + b div 16, b mod 16 * 4 + c div 64, c mod 64]"
    have q: "map url_char (b2a_base64 (x # y # z # r)) = (q @ t) @ replicate n pad"
      using t(1) by (simp add: q_def Let_def a_def b_def c_def)
    have "rstrip_pad ((q @ t) @ replicate n pad) = q @ t"
    proof (cases t rule: rev_cases)
      case Nil
      then show ?thesis using a t(3) by (simp add: q_def rstrip_pad_def)
    next
      case (snoc u e)
      then have "rstrip_pad (t @ replicate n pad) = u @ [e]" using t(2) by simp
      then have "e \<noteq> pad" by (rule rstrip_last)
      moreover have "dropWhile (\<lambda>c. c = pad) (replicate n pad @ ys) = dropWhile (\<lambda>c. c = pad) ys" for ys by (induction n) simp_all
      ultimately show ?thesis using snoc by (simp add: rstrip_pad_def)
    qed
    moreover have "(- 4 - x) mod 4 = - x mod 4" for x :: int by presburger
    then have "nat (- int (length (q @ t)) mod 4) = n" using t(3) by (simp add: q_def)
    moreover have "map plain_char ((q @ t) @ replicate n pad) = b2a_base64 (x # y # z # r)"
      using t(4) a by (simp add: q_def Let_def a_def b_def c_def)
    ultimately show ?case using q by blast
  qed
  then obtain t n where "map url_char (b2a_base64 s) = t @ replicate n pad" "rstrip_pad (t @ replicate n pad) = t"
      "nat (- int (length t) mod 4) = n" "map plain_char (t @ replicate n pad) = b2a_base64 s" by blast
  then show ?thesis by (simp add: b64url_def)
qed

text \<open>
  The ticket decoder accepts exactly what the encoder writes.  \<open>decode_b64url\<close> returns the bytes \<open>b\<close>
  for a text if and only if the text is not empty and is the encoding of \<open>b\<close>: every encoding is read
  back, and no second text (padded, with letters of the other alphabet or with bits left over) is accepted
  for the same bytes.
\<close>

theorem b64url_exact: "decode_b64url v = Some b \<longleftrightarrow> v \<noteq> [] \<and> b64url b = v"
proof
  assume "v \<noteq> [] \<and> b64url b = v"
  then have "v \<noteq> []" "a2b_base64 (map plain_char (v @ replicate (nat (- int (length v) mod 4)) pad)) = Some b" "b64url b = v"
    using b64url_padded[of b] base64_roundtrip[of b] by (simp_all del: map_append)
  then show "decode_b64url v = Some b" by (simp add: decode_b64url_def del: map_append)
qed (auto simp: decode_b64url_def split: if_splits option.splits)

end
