(* ===== verification/Mobile_Pairing.thy ===== *)
theory Mobile_Pairing
  imports Mobile_Store Canonical_Text
begin

text \<open>
  Pairing a phone and authenticating it: class \<open>PairingService\<close> of
  src/infra/mobile_realtime/pairing.py and class \<open>DeviceAuthenticator\<close> of auth.py, over the database of
  Mobile_Store.  SHA-256, the loading of DER keys, ECDSA and \<open>isoformat\<close> are parameters; the theorems hold
  for any of them.  Fresh identifiers, random bytes and clock readings are inputs of the commands.

  Claims are made on the event loop and approvals in a request thread of the web chat, so a claim and an
  approval are split where they take a lock or open a transaction of the database.
\<close>

subsection \<open>Signed texts\<close>

record mobile_crypto =
  mk_sha256 :: "string \<Rightarrow> string"
  mk_load_key :: "string \<Rightarrow> string option"
  mk_verify :: "string \<Rightarrow> string \<Rightarrow> string \<Rightarrow> bool"
  mk_sign :: "string \<Rightarrow> string"
  mk_format :: "int \<Rightarrow> string"

record pairing_config =
  pg_server :: string
  pg_fingerprint :: string
  pg_public_key :: string
  pg_spki :: string
  pg_lan :: "string list"
  pg_tunnel :: "string list"
  pg_ttl :: int
  pg_challenge_ttl :: int

definition max_endpoints :: nat where
  "max_endpoints = 16"

definition endpoints_ok :: "string list \<Rightarrow> bool" where
  "endpoints_ok es \<longleftrightarrow> length es \<le> max_endpoints \<and> list_all (prefix ''wss://'') es"

definition pairing_service_ok :: "pairing_config \<Rightarrow> bool" where
  "pairing_service_ok C \<longleftrightarrow> 0 < pg_ttl C \<and> endpoints_ok (pg_lan C) \<and> endpoints_ok (pg_tunnel C)"

definition hexdigest :: "string \<Rightarrow> string" where
  "hexdigest s = concat (map (\<lambda>c. let n = of_char c :: nat in [hex_digit (n div 16), hex_digit (n mod 16)]) s)"

definition secret_domain :: string where
  "secret_domain = ''roxy-mobile-pairing-secret-v1'' @ [CHR 0x00]"

definition legacy_secret_domain :: string where
  "legacy_secret_domain = ''akasic-mobile-pairing-secret-v1'' @ [CHR 0x00]"

definition pairing_secret_hash :: "mobile_crypto \<Rightarrow> string \<Rightarrow> string \<Rightarrow> string" where
  "pairing_secret_hash X domain secret = hexdigest (mk_sha256 X (domain @ secret))"

definition matches_secret_hash :: "mobile_crypto \<Rightarrow> string \<Rightarrow> string \<Rightarrow> bool" where
  "matches_secret_hash X stored secret = list_ex (\<lambda>d. stored = pairing_secret_hash X d secret) [secret_domain, legacy_secret_domain]"

text \<open>\<open>int.from_bytes(digest[:8], "big") % 1_000_000\<close> with six digits.\<close>

definition confirmation_code :: "mobile_crypto \<Rightarrow> string \<Rightarrow> string" where
  "confirmation_code X tr =
     (let n = foldl (\<lambda>k c. k * 256 + of_char c) (0 :: int) (take 8 (mk_sha256 X tr)); ds = int_text (n mod 1000000) in
      replicate (6 - length ds) CHR ''0'' @ ds)"

definition pair_claim_transcript :: "string \<Rightarrow> string \<Rightarrow> string \<Rightarrow> string \<Rightarrow> string \<Rightarrow> string list \<Rightarrow> string \<Rightarrow> string" where
  "pair_claim_transcript server pairing h key name caps nonce = json_dumps (JObj
     [(''capabilities'', JList (map JStr caps)), (''client_nonce'', JStr nonce), (''device_name'', JStr name),
      (''device_public_key'', JStr key), (''pairing_id'', JStr pairing), (''protocol_version'', JInt 1),
      (''secret_hash'', JStr h), (''server_id'', JStr server)])"

definition device_proof_signing_bytes :: "string \<Rightarrow> string \<Rightarrow> string \<Rightarrow> string \<Rightarrow> string \<Rightarrow> string" where
  "device_proof_signing_bytes server challenge challenge_nonce dev nonce = json_dumps (JObj
     [(''challenge_id'', JStr challenge), (''challenge_nonce'', JStr challenge_nonce), (''client_nonce'', JStr nonce),
      (''device_id'', JStr dev), (''protocol_version'', JInt 1), (''server_id'', JStr server)])"

definition server_challenge_signing_bytes :: "string \<Rightarrow> string \<Rightarrow> string \<Rightarrow> string \<Rightarrow> string \<Rightarrow> string \<Rightarrow> string" where
  "server_challenge_signing_bytes challenge server fingerprint key nonce expires = json_dumps (JObj
     [(''challenge_id'', JStr challenge), (''expires_at'', JStr expires), (''nonce'', JStr nonce), (''protocol_version'', JInt 1),
      (''server_fingerprint'', JStr fingerprint), (''server_id'', JStr server), (''server_public_key'', JStr key)])"

definition b64decode :: "string \<Rightarrow> string option" where
  "b64decode v = (if is_ascii v then a2b_base64 v else None)"

definition parse_device_public_key :: "mobile_crypto \<Rightarrow> string \<Rightarrow> string option" where
  "parse_device_public_key X encoded = Option.bind (b64decode encoded) (mk_load_key X)"

subsection \<open>Claims\<close>

record pair_claim =
  pc_pairing :: string
  pc_secret :: string
  pc_key :: string
  pc_name :: string
  pc_caps :: "string list"
  pc_nonce :: string
  pc_signature :: string

definition len_in :: "nat \<Rightarrow> nat \<Rightarrow> string \<Rightarrow> bool" where
  "len_in a b s \<longleftrightarrow> a \<le> length s \<and> length s \<le> b"

definition secret_char :: "char \<Rightarrow> bool" where
  "secret_char c \<longleftrightarrow> (let n = of_char c :: nat in (65 \<le> n \<and> n \<le> 90) \<or> (97 \<le> n \<and> n \<le> 122) \<or> (48 \<le> n \<and> n \<le> 57) \<or> n = 95 \<or> n = 45)"

definition claim_payload_ok :: "pair_claim \<Rightarrow> bool" where
  "claim_payload_ok p \<longleftrightarrow> len_in 1 512 (pc_pairing p) \<and> length (pc_secret p) = 43 \<and> list_all secret_char (pc_secret p) \<and>
     len_in 80 2048 (pc_key p) \<and> len_in 1 128 (pc_name p) \<and> length (pc_caps p) \<le> 128 \<and> list_all (len_in 1 512) (pc_caps p) \<and>
     distinct (pc_caps p) \<and> len_in 16 128 (pc_nonce p) \<and> len_in 64 512 (pc_signature p)"

record pending_claim =
  pd_pairing :: string
  pd_key :: string
  pd_name :: string
  pd_caps :: "string list"
  pd_nonce :: string
  pd_code :: string

datatype pair_error = Invalid_payload | Secret_error | Signature_error | Confirmation_error | Pair_state_error | Type_error
  | Store_error mobile_error | Key_error

definition check_session :: "mobile_crypto \<Rightarrow> int \<Rightarrow> pair_claim \<Rightarrow> mobile_store \<Rightarrow> pair_error + string" where
  "check_session X now p s = (case read_pairing_session (pc_pairing p) s of
     Inl e \<Rightarrow> Inl (Store_error e)
   | Inr None \<Rightarrow> Inl Secret_error
   | Inr (Some x) \<Rightarrow>
       if pa_status x \<notin> {Pair_pending, Pair_confirmed} then Inl Pair_state_error
       else if pa_expires x \<le> now then Inl Secret_error
       else (case pa_secret x of
           None \<Rightarrow> Inl Secret_error
         | Some h \<Rightarrow> if matches_secret_hash X h (pc_secret p) then Inr h else Inl Secret_error))"

definition add_hash :: "string list \<Rightarrow> string \<Rightarrow> string list" where
  "add_hash hs h = (if h \<in> set hs then hs else hs @ [h])"

definition secret_hashes :: "mobile_crypto \<Rightarrow> string \<Rightarrow> string \<Rightarrow> string list" where
  "secret_hashes X stored secret = foldl add_hash [stored] (map (\<lambda>d. pairing_secret_hash X d secret) [secret_domain, legacy_secret_domain])"

definition claim_text :: "pairing_config \<Rightarrow> pair_claim \<Rightarrow> string \<Rightarrow> string" where
  "claim_text C p h = pair_claim_transcript (pg_server C) (pc_pairing p) h (pc_key p) (pc_name p) (pc_caps p) (pc_nonce p)"

text \<open>The first transcript that the claimed key has signed.\<close>

definition verify_claim :: "mobile_crypto \<Rightarrow> pairing_config \<Rightarrow> pair_claim \<Rightarrow> string \<Rightarrow> pair_error + string" where
  "verify_claim X C p stored = (case (parse_device_public_key X (pc_key p), b64decode (pc_signature p)) of
     (Some k, Some sg) \<Rightarrow> (case find (\<lambda>t. mk_verify X k sg t) (map (claim_text C p) (secret_hashes X stored (pc_secret p))) of
         None \<Rightarrow> Inl Signature_error | Some t \<Rightarrow> Inr t)
   | _ \<Rightarrow> Inl Signature_error)"

definition claim_check :: "mobile_crypto \<Rightarrow> pairing_config \<Rightarrow> int \<Rightarrow> pair_claim \<Rightarrow> mobile_store \<Rightarrow> pair_error + pending_claim" where
  "claim_check X C now p s =
     (if \<not> claim_payload_ok p then Inl Invalid_payload
      else case check_session X now p s of
        Inl e \<Rightarrow> Inl e
      | Inr h \<Rightarrow> (case verify_claim X C p h of
          Inl e \<Rightarrow> Inl e
        | Inr t \<Rightarrow> Inr \<lparr>pd_pairing = pc_pairing p, pd_key = pc_key p, pd_name = pc_name p, pd_caps = pc_caps p,
            pd_nonce = pc_nonce p, pd_code = confirmation_code X t\<rparr>))"

definition claim_store :: "pending_claim \<Rightarrow> (string, pending_claim) dict \<Rightarrow> pair_error + (string, pending_claim) dict" where
  "claim_store c claims = (case dict_get claims (pd_pairing c) of
     Some old \<Rightarrow> if old \<noteq> c then Inl Pair_state_error else Inr (dict_set claims (pd_pairing c) c)
   | None \<Rightarrow> Inr (dict_set claims (pd_pairing c) c))"

subsection \<open>Challenges\<close>

record challenge =
  cg_id :: string
  cg_nonce :: string
  cg_expires :: int

record server_challenge =
  sc_id :: string
  sc_nonce :: string
  sc_expires :: int
  sc_signature :: string

datatype auth_error = Empty_connection | Duplicate_challenge | Unknown_challenge | Challenge_expired | Device_unknown | Device_revoked
  | Bad_proof | Bad_device_key | Auth_store mobile_error

record device_proof =
  dp_challenge :: string
  dp_device :: string
  dp_nonce :: string
  dp_signature :: string

record authenticated_device =
  ad_device :: string
  ad_name :: string
  ad_caps :: "string list"
  ad_epoch :: int

definition proof_payload_ok :: "device_proof \<Rightarrow> bool" where
  "proof_payload_ok p \<longleftrightarrow> len_in 1 512 (dp_challenge p) \<and> len_in 1 512 (dp_device p) \<and> len_in 16 128 (dp_nonce p) \<and> len_in 64 512 (dp_signature p)"

definition purge_expired :: "int \<Rightarrow> (string, challenge) dict \<Rightarrow> (string, challenge) dict" where
  "purge_expired now cs = filter (\<lambda>(_, c). \<not> cg_expires c \<le> now) cs"

text \<open>\<open>create_challenge\<close>; the purge stays when the connection already has a challenge.\<close>

definition create_challenge :: "mobile_crypto \<Rightarrow> pairing_config \<Rightarrow> string \<Rightarrow> string \<Rightarrow> string \<Rightarrow> int \<Rightarrow> (string, challenge) dict \<Rightarrow>
    (auth_error + server_challenge) \<times> (string, challenge) dict" where
  "create_challenge X C conn cid bytes now cs =
     (if conn = [] then (Inl Empty_connection, cs)
      else let r = \<lparr>cg_id = cid, cg_nonce = b64url bytes, cg_expires = now + pg_challenge_ttl C\<rparr>;
               sg = mk_sign X (server_challenge_signing_bytes cid (pg_server C) (pg_fingerprint C) (pg_public_key C) (cg_nonce r) (mk_format X (cg_expires r)));
               live = purge_expired now cs in
        if dict_get live conn \<noteq> None then (Inl Duplicate_challenge, live)
        else (Inr \<lparr>sc_id = cid, sc_nonce = cg_nonce r, sc_expires = cg_expires r, sc_signature = b2a_base64 sg\<rparr>, dict_set live conn r))"

definition proof_text :: "pairing_config \<Rightarrow> challenge \<Rightarrow> device_proof \<Rightarrow> string" where
  "proof_text C r p = device_proof_signing_bytes (pg_server C) (cg_id r) (cg_nonce r) (dp_device p) (dp_nonce p)"

text \<open>From the row of the device on.\<close>

definition verify_proof :: "mobile_crypto \<Rightarrow> pairing_config \<Rightarrow> challenge \<Rightarrow> device_proof \<Rightarrow> device \<Rightarrow> auth_error option" where
  "verify_proof X C r p d =
     (if dv_revoked d \<noteq> None then Some Device_revoked
      else case parse_device_public_key X (dv_key d) of
        None \<Rightarrow> Some Bad_device_key
      | Some k \<Rightarrow> (case b64decode (dp_signature p) of
          None \<Rightarrow> Some Bad_proof
        | Some sg \<Rightarrow> if mk_verify X k sg (proof_text C r p) then None else Some Bad_proof))"

definition authenticate_device :: "mobile_crypto \<Rightarrow> pairing_config \<Rightarrow> challenge \<Rightarrow> device_proof \<Rightarrow> mobile_store \<Rightarrow>
    auth_error + (authenticated_device \<times> mobile_store)" where
  "authenticate_device X C r p s = (case read_device (dp_device p) s of
     Inl e \<Rightarrow> Inl (Auth_store e)
   | Inr None \<Rightarrow> Inl Device_unknown
   | Inr (Some d) \<Rightarrow> (case verify_proof X C r p d of
       Some e \<Rightarrow> Inl e
     | None \<Rightarrow> (case allocate_connection_epoch s of
         Inl e \<Rightarrow> Inl (Auth_store e)
       | Inr (n, s') \<Rightarrow> Inr (\<lparr>ad_device = dv_id d, ad_name = dv_name d, ad_caps = dv_caps d, ad_epoch = n\<rparr>, s'))))"

definition authenticate :: "mobile_crypto \<Rightarrow> pairing_config \<Rightarrow> string \<Rightarrow> device_proof \<Rightarrow> int \<Rightarrow> (string, challenge) dict \<Rightarrow> mobile_store \<Rightarrow>
    (auth_error + (authenticated_device \<times> mobile_store)) \<times> (string, challenge) dict" where
  "authenticate X C conn p now cs s = (case dict_get cs conn of
     None \<Rightarrow> (Inl Unknown_challenge, cs)
   | Some r \<Rightarrow>
       (if cg_id r \<noteq> dp_challenge p then Inl Unknown_challenge
        else if cg_expires r \<le> now then Inl Challenge_expired
        else authenticate_device X C r p s, dict_del cs conn))"

subsection \<open>The service\<close>

datatype approve_pc = Ap_read pending_claim | Ap_confirm pending_claim int | Ap_consume pending_claim int | Ap_forget string

text \<open>What happened, newest first: an offer with the hash of its secret and its expiry, a verified claim, an
  approved claim with the code that was typed, a device registered by a pairing, a challenge, a connection, a revocation.\<close>

datatype pair_event = Offered string string int | Claimed pair_claim string int | Approved pending_claim string
  | Registered string pending_claim device int | Challenged string challenge | Connected string challenge device_proof device int int
  | Revoked string

record pair_state =
  mp_store :: mobile_store
  mp_claims :: "(string, pending_claim) dict"
  mp_claiming :: "pending_claim list"
  mp_approving :: "(nat, approve_pc) dict"
  mp_challenges :: "(string, challenge) dict"
  mp_log :: "pair_event list"

definition note_event :: "pair_event \<Rightarrow> pair_state \<Rightarrow> pair_state" where
  "note_event e g = g\<lparr>mp_log := e # mp_log g\<rparr>"

definition create_offer :: "mobile_crypto \<Rightarrow> pairing_config \<Rightarrow> string \<Rightarrow> string \<Rightarrow> int \<Rightarrow> pair_state \<Rightarrow> mobile_error + pair_state" where
  "create_offer X C pairing bytes now g =
     (let h = pairing_secret_hash X secret_domain (b64url bytes); e = now + pg_ttl C in
      case create_pairing_session \<lparr>pa_id = pairing, pa_secret = Some h, pa_expires = e, pa_status = Pair_pending\<rparr> (mp_store g) of
        Inl err \<Rightarrow> Inl err
      | Inr s \<Rightarrow> Inr (note_event (Offered pairing h e) (g\<lparr>mp_store := s\<rparr>)))"

text \<open>\<open>claim\<close> up to its lock, and under the lock.\<close>

definition claim_begin :: "mobile_crypto \<Rightarrow> pairing_config \<Rightarrow> int \<Rightarrow> pair_claim \<Rightarrow> pair_state \<Rightarrow> pair_state" where
  "claim_begin X C now p g = (case claim_check X C now p (mp_store g) of
     Inl _ \<Rightarrow> g
   | Inr c \<Rightarrow> note_event (Claimed p (pd_code c) now) (g\<lparr>mp_claiming := c # mp_claiming g\<rparr>))"

definition claim_end :: "pending_claim \<Rightarrow> pair_state \<Rightarrow> pair_state" where
  "claim_end c g =
     (if c \<notin> set (mp_claiming g) then g
      else let g1 = g\<lparr>mp_claiming := remove1 c (mp_claiming g)\<rparr> in
        (case claim_store c (mp_claims g) of Inl _ \<Rightarrow> g1 | Inr cs \<Rightarrow> g1\<lparr>mp_claims := cs\<rparr>))"

definition pending_claim_of :: "string \<Rightarrow> pair_state \<Rightarrow> pending_claim option" where
  "pending_claim_of pairing g = dict_get (mp_claims g) pairing"

text \<open>\<open>approve\<close>: comparing the code, then one step per transaction, then forgetting the claim.\<close>

definition approve_begin :: "string \<Rightarrow> string \<Rightarrow> pair_state \<Rightarrow> pair_error + pending_claim" where
  "approve_begin pairing code g = (case dict_get (mp_claims g) pairing of
     None \<Rightarrow> Inl Confirmation_error
   | Some c \<Rightarrow> (case compare_digest (pd_code c) code of
       None \<Rightarrow> Inl Type_error
     | Some same \<Rightarrow> if same then Inr c else Inl Confirmation_error))"

definition goto :: "nat \<Rightarrow> approve_pc \<Rightarrow> pair_state \<Rightarrow> pair_state" where
  "goto t pc g = g\<lparr>mp_approving := dict_set (mp_approving g) t pc\<rparr>"

definition leave :: "nat \<Rightarrow> pair_state \<Rightarrow> pair_state" where
  "leave t g = g\<lparr>mp_approving := dict_del (mp_approving g) t\<rparr>"

definition approve_read :: "nat \<Rightarrow> pending_claim \<Rightarrow> int \<Rightarrow> pair_state \<Rightarrow> pair_state" where
  "approve_read t c now g = (case read_pairing_session (pd_pairing c) (mp_store g) of
     Inl _ \<Rightarrow> leave t g
   | Inr None \<Rightarrow> leave t g
   | Inr (Some x) \<Rightarrow> if pa_status x = Pair_pending then goto t (Ap_confirm c now) g
       else if pa_status x \<noteq> Pair_confirmed then leave t g else goto t (Ap_consume c now) g)"

definition approve_confirm :: "nat \<Rightarrow> pending_claim \<Rightarrow> int \<Rightarrow> pair_state \<Rightarrow> pair_state" where
  "approve_confirm t c now g = (case confirm_pairing (pd_pairing c) now (mp_store g) of
     Inl _ \<Rightarrow> leave t g | Inr (_, s) \<Rightarrow> goto t (Ap_consume c now) (g\<lparr>mp_store := s\<rparr>))"

definition claimed_device :: "string \<Rightarrow> pending_claim \<Rightarrow> int \<Rightarrow> device" where
  "claimed_device fresh c now = \<lparr>dv_id = fresh, dv_key = pd_key c, dv_name = pd_name c, dv_created = now, dv_revoked = None, dv_caps = pd_caps c\<rparr>"

definition approve_consume :: "nat \<Rightarrow> pending_claim \<Rightarrow> int \<Rightarrow> string \<Rightarrow> pair_state \<Rightarrow> pair_state" where
  "approve_consume t c now fresh g = (case consume_pairing (pd_pairing c) (claimed_device fresh c now) now (mp_store g) of
     Inl _ \<Rightarrow> leave t g
   | Inr (d, s) \<Rightarrow> goto t (Ap_forget (pd_pairing c)) (note_event (Registered (pd_pairing c) c d now) (g\<lparr>mp_store := s\<rparr>)))"

text \<open>\<open>del self._claims[pairing_id]\<close>: \<open>None\<close> is a \<open>KeyError\<close>.\<close>

definition approve_forget :: "nat \<Rightarrow> string \<Rightarrow> pair_state \<Rightarrow> pair_state option" where
  "approve_forget t pairing g = (if dict_get (mp_claims g) pairing = None then None
     else Some (leave t (g\<lparr>mp_claims := dict_del (mp_claims g) pairing\<rparr>)))"

definition approve_step :: "nat \<Rightarrow> int \<Rightarrow> string \<Rightarrow> pair_state \<Rightarrow> pair_state" where
  "approve_step t now fresh g = (case dict_get (mp_approving g) t of
     None \<Rightarrow> g
   | Some (Ap_read c) \<Rightarrow> approve_read t c now g
   | Some (Ap_confirm c n) \<Rightarrow> approve_confirm t c n g
   | Some (Ap_consume c n) \<Rightarrow> approve_consume t c n fresh g
   | Some (Ap_forget pairing) \<Rightarrow> (case approve_forget t pairing g of None \<Rightarrow> leave t g | Some g' \<Rightarrow> g'))"

text \<open>The other clients of the database do not touch pairing sessions and register no device.\<close>

definition other_client :: "mobile_cmd \<Rightarrow> bool" where
  "other_client m = (case m of Create_pairing _ \<Rightarrow> False | Confirm_pairing _ _ \<Rightarrow> False | Consume_pairing _ _ _ \<Rightarrow> False
     | Register_device _ \<Rightarrow> False | Revoke_device _ _ \<Rightarrow> False | Next_epoch \<Rightarrow> False | _ \<Rightarrow> True)"

datatype pair_cmd = Offer string string int | Claim_begin pair_claim int | Claim_end pending_claim | Approve nat string string
  | Approve_step nat int string | Open_connection string string string int | Prove string device_proof int
  | Revoke string int | Other_client mobile_cmd | Restart_gateway

definition open_connection :: "mobile_crypto \<Rightarrow> pairing_config \<Rightarrow> string \<Rightarrow> string \<Rightarrow> string \<Rightarrow> int \<Rightarrow> pair_state \<Rightarrow> pair_state" where
  "open_connection X C conn cid bytes now g = (case create_challenge X C conn cid bytes now (mp_challenges g) of
     (Inl _, cs) \<Rightarrow> g\<lparr>mp_challenges := cs\<rparr>
   | (Inr c, cs) \<Rightarrow> note_event (Challenged conn \<lparr>cg_id = sc_id c, cg_nonce = sc_nonce c, cg_expires = sc_expires c\<rparr>) (g\<lparr>mp_challenges := cs\<rparr>))"

definition prove_device :: "mobile_crypto \<Rightarrow> pairing_config \<Rightarrow> string \<Rightarrow> device_proof \<Rightarrow> int \<Rightarrow> pair_state \<Rightarrow> pair_state" where
  "prove_device X C conn p now g =
     (if \<not> proof_payload_ok p then g
      else case authenticate X C conn p now (mp_challenges g) (mp_store g) of
        (Inl _, cs) \<Rightarrow> g\<lparr>mp_challenges := cs\<rparr>
      | (Inr (a, s), cs) \<Rightarrow> note_event (Connected conn (the (dict_get (mp_challenges g) conn)) p (the (dict_get (ms_devices (mp_store g)) (dp_device p))) (ad_epoch a) now)
          (g\<lparr>mp_challenges := cs, mp_store := s\<rparr>))"

definition pair_exec :: "mobile_crypto \<Rightarrow> pairing_config \<Rightarrow> pair_cmd \<Rightarrow> pair_state \<Rightarrow> pair_state" where
  "pair_exec X C cmd g = (case cmd of
     Offer pairing bytes now \<Rightarrow> (case create_offer X C pairing bytes now g of Inl _ \<Rightarrow> g | Inr g' \<Rightarrow> g')
   | Claim_begin p now \<Rightarrow> claim_begin X C now p g
   | Claim_end c \<Rightarrow> claim_end c g
   | Approve t pairing code \<Rightarrow> (if dict_get (mp_approving g) t \<noteq> None then g
       else case approve_begin pairing code g of Inl _ \<Rightarrow> g | Inr c \<Rightarrow> note_event (Approved c code) (goto t (Ap_read c) g))
   | Approve_step t now fresh \<Rightarrow> approve_step t now fresh g
   | Open_connection conn cid bytes now \<Rightarrow> open_connection X C conn cid bytes now g
   | Prove conn p now \<Rightarrow> prove_device X C conn p now g
   | Revoke d now \<Rightarrow> (case revoke_device d now (mp_store g) of Inl _ \<Rightarrow> g | Inr (_, s) \<Rightarrow> note_event (Revoked d) (g\<lparr>mp_store := s\<rparr>))
   | Other_client m \<Rightarrow> (if other_client m then g\<lparr>mp_store := mobile_exec m (mp_store g)\<rparr> else g)
   | Restart_gateway \<Rightarrow> g\<lparr>mp_claims := [], mp_claiming := [], mp_approving := [], mp_challenges := []\<rparr>)"

definition new_pairing :: pair_state where
  "new_pairing = \<lparr>mp_store = new_mobile_store, mp_claims = [], mp_claiming = [], mp_approving = [], mp_challenges = [], mp_log = []\<rparr>"

subsection \<open>Signed texts determine what they say\<close>

lemma transcript_text: "pair_claim_transcript server pairing h key name caps nonce =
    ''{'' @ json_string ''capabilities'' @ '':'' @ json_dumps (JList (map JStr caps)) @ '','' @
    json_string ''client_nonce'' @ '':'' @ json_string nonce @ '','' @ json_string ''device_name'' @ '':'' @ json_string name @ '','' @
    json_string ''device_public_key'' @ '':'' @ json_string key @ '','' @ json_string ''pairing_id'' @ '':'' @ json_string pairing @ '','' @
    json_string ''protocol_version'' @ '':'' @ int_text 1 @ '','' @ json_string ''secret_hash'' @ '':'' @ json_string h @ '','' @
    json_string ''server_id'' @ '':'' @ json_string server @ ''}''"
  by (simp add: pair_claim_transcript_def less_char_def del: json_dumps.simps(6))

subsection \<open>What a trace may hold\<close>

text \<open>A signature of a public key in its stored form over a text.\<close>

definition signed_by :: "mobile_crypto \<Rightarrow> string \<Rightarrow> string \<Rightarrow> string \<Rightarrow> bool" where
  "signed_by X key sg t \<longleftrightarrow> (case (parse_device_public_key X key, b64decode sg) of (Some k, Some b) \<Rightarrow> mk_verify X k b t | _ \<Rightarrow> False)"

text \<open>The claim knows the secret behind the hash, and the claimed key has signed a transcript that holds
  the whole claim and that has the given confirmation code.\<close>

definition claim_proof :: "mobile_crypto \<Rightarrow> pairing_config \<Rightarrow> pair_claim \<Rightarrow> string \<Rightarrow> string \<Rightarrow> bool" where
  "claim_proof X C p h code \<longleftrightarrow>
     list_ex (\<lambda>d. h = pairing_secret_hash X d (pc_secret p)) [secret_domain, legacy_secret_domain] \<and>
     list_ex (\<lambda>d. let t = claim_text C p (pairing_secret_hash X d (pc_secret p)) in
       signed_by X (pc_key p) (pc_signature p) t \<and> code = confirmation_code X t) [secret_domain, legacy_secret_domain]"

definition claim_of :: "pair_claim \<Rightarrow> string \<Rightarrow> pending_claim" where
  "claim_of p code = \<lparr>pd_pairing = pc_pairing p, pd_key = pc_key p, pd_name = pc_name p, pd_caps = pc_caps p, pd_nonce = pc_nonce p, pd_code = code\<rparr>"

lemma claim_of_sel [simp]: "pd_pairing (claim_of p code) = pc_pairing p" "pd_key (claim_of p code) = pc_key p" "pd_name (claim_of p code) = pc_name p"
    "pd_caps (claim_of p code) = pc_caps p" "pd_code (claim_of p code) = code"
  by (simp_all add: claim_of_def)

definition was_claimed :: "pair_event list \<Rightarrow> pending_claim \<Rightarrow> bool" where
  "was_claimed G c \<longleftrightarrow> (\<exists>p now. Claimed p (pd_code c) now \<in> set G \<and> claim_of p (pd_code c) = c)"

definition offered :: "pair_event list \<Rightarrow> string \<Rightarrow> bool" where
  "offered G k \<longleftrightarrow> (\<exists>h x. Offered k h x \<in> set G)"

definition registered :: "pair_event list \<Rightarrow> string \<Rightarrow> bool" where
  "registered G k \<longleftrightarrow> (\<exists>c d t. Registered k c d t \<in> set G)"

definition registered_as :: "pair_event list \<Rightarrow> string \<Rightarrow> string \<Rightarrow> bool" where
  "registered_as G i key \<longleftrightarrow> (\<exists>k c d t. Registered k c d t \<in> set G \<and> dv_id d = i \<and> dv_key d = key)"

definition trace_ok :: "mobile_crypto \<Rightarrow> pairing_config \<Rightarrow> pair_event list \<Rightarrow> pair_event \<Rightarrow> bool" where
  "trace_ok X C G e \<longleftrightarrow> (case e of
     Offered k h x \<Rightarrow> \<not> offered G k
   | Claimed p code now \<Rightarrow> \<not> registered G (pc_pairing p) \<and>
       (\<exists>h x. Offered (pc_pairing p) h x \<in> set G \<and> now < x \<and> claim_proof X C p h code)
   | Approved c code \<Rightarrow> was_claimed G c \<and> code = pd_code c
   | Registered k c d t \<Rightarrow> k = pd_pairing c \<and> Approved c (pd_code c) \<in> set G \<and> \<not> registered G k \<and> (\<exists>h x. Offered k h x \<in> set G \<and> t < x) \<and>
       dv_key d = pd_key c \<and> dv_name d = pd_name c \<and> dv_caps d = pd_caps c \<and> Revoked (dv_id d) \<notin> set G
   | Challenged conn r \<Rightarrow> True
   | Connected conn r p d n now \<Rightarrow> Challenged conn r \<in> set G \<and> cg_id r = dp_challenge p \<and> now < cg_expires r \<and>
       dv_id d = dp_device p \<and> registered_as G (dv_id d) (dv_key d) \<and> Revoked (dv_id d) \<notin> set G \<and>
       signed_by X (dv_key d) (dp_signature p) (proof_text C r p) \<and>
       (\<forall>conn' r' p' d' n' now'. Connected conn' r' p' d' n' now' \<in> set G \<longrightarrow> n' < n)
   | Revoked i \<Rightarrow> True)"

fun trace_sound :: "mobile_crypto \<Rightarrow> pairing_config \<Rightarrow> pair_event list \<Rightarrow> bool" where
  "trace_sound X C [] \<longleftrightarrow> True"
| "trace_sound X C (e # G) \<longleftrightarrow> trace_ok X C G e \<and> trace_sound X C G"

subsection \<open>The tables and the trace\<close>

definition pairings_sound :: "(string, pairing) dict \<Rightarrow> pair_event list \<Rightarrow> bool" where
  "pairings_sound P G \<longleftrightarrow>
     (\<forall>k x. dict_get P k = Some x \<longrightarrow> (\<exists>h. Offered k h (pa_expires x) \<in> set G \<and> (pa_secret x = None \<or> pa_secret x = Some h)) \<and>
        (pa_status x \<noteq> Pair_consumed \<longrightarrow> \<not> registered G k)) \<and>
     (\<forall>k. dict_get P k = None \<longrightarrow> \<not> offered G k \<and> \<not> registered G k)"

definition devices_sound :: "(string, device) dict \<Rightarrow> pair_event list \<Rightarrow> bool" where
  "devices_sound D G \<longleftrightarrow>
     (\<forall>i d. dict_get D i = Some d \<longrightarrow> registered_as G i (dv_key d)) \<and>
     (\<forall>i. Revoked i \<in> set G \<longrightarrow> (\<exists>d. dict_get D i = Some d \<and> dv_revoked d \<noteq> None))"

definition epochs_sound :: "int \<Rightarrow> pair_event list \<Rightarrow> bool" where
  "epochs_sound E G \<longleftrightarrow> (\<forall>conn r p d n now. Connected conn r p d n now \<in> set G \<longrightarrow> n \<le> E)"

definition claims_sound :: "(string, pending_claim) dict \<Rightarrow> pending_claim list \<Rightarrow> pair_event list \<Rightarrow> bool" where
  "claims_sound cs ws G \<longleftrightarrow> (\<forall>k c. dict_get cs k = Some c \<longrightarrow> pd_pairing c = k \<and> was_claimed G c) \<and> (\<forall>c \<in> set ws. was_claimed G c)"

definition approve_claim :: "approve_pc \<Rightarrow> pending_claim option" where
  "approve_claim pc = (case pc of Ap_read c \<Rightarrow> Some c | Ap_confirm c _ \<Rightarrow> Some c | Ap_consume c _ \<Rightarrow> Some c | Ap_forget _ \<Rightarrow> None)"

definition approvals_sound :: "(nat, approve_pc) dict \<Rightarrow> pair_event list \<Rightarrow> bool" where
  "approvals_sound A G \<longleftrightarrow> (\<forall>t pc c. dict_get A t = Some pc \<longrightarrow> approve_claim pc = Some c \<longrightarrow> Approved c (pd_code c) \<in> set G)"

definition is_challenge :: "string \<Rightarrow> challenge \<Rightarrow> pair_event \<Rightarrow> bool" where
  "is_challenge conn r e \<longleftrightarrow> (case e of Challenged a b \<Rightarrow> a = conn \<and> b = r | _ \<Rightarrow> False)"

definition is_connection :: "string \<Rightarrow> challenge \<Rightarrow> pair_event \<Rightarrow> bool" where
  "is_connection conn r e \<longleftrightarrow> (case e of Connected a b _ _ _ _ \<Rightarrow> a = conn \<and> b = r | _ \<Rightarrow> False)"

definition occurs :: "(pair_event \<Rightarrow> bool) \<Rightarrow> pair_event list \<Rightarrow> nat" where
  "occurs P G = length (filter P G)"

definition challenges_sound :: "(string, challenge) dict \<Rightarrow> pair_event list \<Rightarrow> bool" where
  "challenges_sound H G \<longleftrightarrow> dict_ok H \<and>
     (\<forall>conn r. occurs (is_connection conn r) G + (if dict_get H conn = Some r then 1 else 0) \<le> occurs (is_challenge conn r) G)"

definition pair_inv :: "mobile_crypto \<Rightarrow> pairing_config \<Rightarrow> pair_state \<Rightarrow> bool" where
  "pair_inv X C g \<longleftrightarrow> mobile_ok (mp_store g) \<and> trace_sound X C (mp_log g) \<and> pairings_sound (ms_pairings (mp_store g)) (mp_log g) \<and>
     devices_sound (ms_devices (mp_store g)) (mp_log g) \<and> epochs_sound (ms_epoch (mp_store g)) (mp_log g) \<and>
     claims_sound (mp_claims g) (mp_claiming g) (mp_log g) \<and> approvals_sound (mp_approving g) (mp_log g) \<and>
     challenges_sound (mp_challenges g) (mp_log g)"

lemma pair_invD:
  assumes "pair_inv X C g"
  shows "mobile_ok (mp_store g)" "trace_sound X C (mp_log g)" "pairings_sound (ms_pairings (mp_store g)) (mp_log g)"
    "devices_sound (ms_devices (mp_store g)) (mp_log g)" "epochs_sound (ms_epoch (mp_store g)) (mp_log g)"
    "claims_sound (mp_claims g) (mp_claiming g) (mp_log g)" "approvals_sound (mp_approving g) (mp_log g)"
    "challenges_sound (mp_challenges g) (mp_log g)"
  using assms by (simp_all add: pair_inv_def)

lemma pairings_soundD:
  assumes "pairings_sound P G" "dict_get P k = Some x"
  shows "\<exists>h. Offered k h (pa_expires x) \<in> set G \<and> (pa_secret x = None \<or> pa_secret x = Some h)"
    "pa_status x \<noteq> Pair_consumed \<Longrightarrow> \<not> registered G k"
  using assms by (simp_all add: pairings_sound_def)

lemma devices_soundD: "devices_sound D G \<Longrightarrow> Revoked i \<in> set G \<Longrightarrow> \<exists>d. dict_get D i = Some d \<and> dv_revoked d \<noteq> None"
  by (simp add: devices_sound_def)

text \<open>A longer trace: what is no offer, registration, revocation or connection changes nothing.\<close>

lemma was_claimed_Cons [simp]: "was_claimed G c \<Longrightarrow> was_claimed (e # G) c"
  by (auto simp: was_claimed_def)

lemma registered_Cons [simp]: "registered (e # G) k \<longleftrightarrow> registered G k \<or> (\<exists>c d t. e = Registered k c d t)"
  by (auto simp: registered_def)

lemma offered_Cons [simp]: "offered (e # G) k \<longleftrightarrow> offered G k \<or> (\<exists>h x. e = Offered k h x)"
  by (auto simp: offered_def)

lemma registered_as_Cons [simp]: "registered_as G i key \<Longrightarrow> registered_as (e # G) i key"
  by (auto simp: registered_as_def)

lemma pairings_Cons: "pairings_sound P G \<Longrightarrow> (\<And>k h x. e \<noteq> Offered k h x) \<Longrightarrow> (\<And>k c d t. e \<noteq> Registered k c d t) \<Longrightarrow> pairings_sound P (e # G)"
  by (fastforce simp: pairings_sound_def)

lemma devices_Cons: "devices_sound D G \<Longrightarrow> (\<And>i. e \<noteq> Revoked i) \<Longrightarrow> devices_sound D (e # G)"
  by (auto simp: devices_sound_def)

lemma epochs_Cons: "epochs_sound E G \<Longrightarrow> (\<And>conn r p d n now. e \<noteq> Connected conn r p d n now) \<Longrightarrow> epochs_sound E (e # G)"
  by (force simp: epochs_sound_def)

lemma claims_Cons: "claims_sound cs ws G \<Longrightarrow> claims_sound cs ws (e # G)"
  by (auto simp: claims_sound_def)

lemma approvals_Cons: "approvals_sound A G \<Longrightarrow> approvals_sound A (e # G)"
  by (auto simp: approvals_sound_def)

lemma occurs_Cons [simp]: "occurs P (e # G) = (if P e then 1 else 0) + occurs P G"
  by (simp add: occurs_def)

lemma challenges_Cons: "challenges_sound H G \<Longrightarrow> (\<And>conn r. e \<noteq> Challenged conn r) \<Longrightarrow> (\<And>conn r p d n now. e \<noteq> Connected conn r p d n now) \<Longrightarrow>
    challenges_sound H (e # G)"
proof -
  assume e: "\<And>conn r. e \<noteq> Challenged conn r" "\<And>conn r p d n now. e \<noteq> Connected conn r p d n now" and H: "challenges_sound H G"
  have "\<not> is_connection conn r e" "\<not> is_challenge conn r e" for conn r
    using e by (simp_all add: is_connection_def is_challenge_def split: pair_event.split)
  then show ?thesis using H by (simp add: challenges_sound_def)
qed

lemmas trace_Cons = pairings_Cons devices_Cons epochs_Cons claims_Cons approvals_Cons challenges_Cons

subsection \<open>Every command keeps the invariant\<close>

lemma note_sel [simp]: "mp_store (note_event e g) = mp_store g" "mp_log (note_event e g) = e # mp_log g" "mp_claims (note_event e g) = mp_claims g"
  "mp_claiming (note_event e g) = mp_claiming g" "mp_approving (note_event e g) = mp_approving g" "mp_challenges (note_event e g) = mp_challenges g"
  by (simp_all add: note_event_def)

lemma goto_sel [simp]: "mp_store (goto t pc g) = mp_store g" "mp_log (goto t pc g) = mp_log g" "mp_claims (goto t pc g) = mp_claims g"
  "mp_claiming (goto t pc g) = mp_claiming g" "mp_approving (goto t pc g) = dict_set (mp_approving g) t pc" "mp_challenges (goto t pc g) = mp_challenges g"
  by (simp_all add: goto_def)

lemma leave_sel [simp]: "mp_store (leave t g) = mp_store g" "mp_log (leave t g) = mp_log g" "mp_claims (leave t g) = mp_claims g"
  "mp_claiming (leave t g) = mp_claiming g" "mp_approving (leave t g) = dict_del (mp_approving g) t" "mp_challenges (leave t g) = mp_challenges g"
  by (simp_all add: leave_def)

lemma offer_inv:
  assumes "pair_inv X C g" "create_offer X C k bytes now g = Inr g'"
  shows "pair_inv X C g'"
proof -
  define x where "x = \<lparr>pa_id = k, pa_secret = Some (pairing_secret_hash X secret_domain (b64url bytes)), pa_expires = now + pg_ttl C, pa_status = Pair_pending\<rparr>"
  define s where "s = (mp_store g)\<lparr>ms_pairings := dict_set (ms_pairings (mp_store g)) k x\<rparr>"
  define e where "e = Offered k (pairing_secret_hash X secret_domain (b64url bytes)) (now + pg_ttl C)"
  have c: "create_pairing_session x (mp_store g) = Inr s" and new: "dict_get (ms_pairings (mp_store g)) k = None"
    and g': "g' = note_event e (g\<lparr>mp_store := s\<rparr>)"
    using assms(2) by (auto simp: create_offer_def create_pairing_session_def x_def s_def e_def Let_def split: sum.splits if_splits)
  have "mobile_exec (Create_pairing x) (mp_store g) = s" using c by (simp add: mobile_exec_def keep_on_error_def with_unit_def)
  then have "mobile_ok s" using mobile_exec_ok[of "mp_store g" "Create_pairing x"] assms(1) by (simp add: pair_inv_def)
  moreover have new_log: "\<not> registered (mp_log g) k" "\<not> offered (mp_log g) k"
    using assms(1) new by (simp_all add: pair_inv_def pairings_sound_def)
  moreover have "pairings_sound (ms_pairings s) (e # mp_log g)"
    using assms(1) new_log by (auto simp: pair_inv_def pairings_sound_def s_def x_def e_def)
  ultimately show ?thesis using assms(1) by (simp add: pair_inv_def g' e_def trace_Cons trace_ok_def s_def)
qed

text \<open>A verified claim.\<close>

lemma secret_hashes_set:
  assumes "matches_secret_hash X h secret"
  shows "set (secret_hashes X h secret) = {pairing_secret_hash X secret_domain secret, pairing_secret_hash X legacy_secret_domain secret}"
  using assms by (auto simp: secret_hashes_def add_hash_def matches_secret_hash_def)

lemma claim_check_parts:
  assumes "claim_check X C now p s = Inr c"
  shows "\<exists>x h. dict_get (ms_pairings s) (pc_pairing p) = Some x \<and> pa_status x \<noteq> Pair_consumed \<and> now < pa_expires x \<and> pa_secret x = Some h \<and>
    claim_proof X C p h (pd_code c) \<and> c = claim_of p (pd_code c)"
proof -
  obtain h t where h: "check_session X now p s = Inr h" "verify_claim X C p h = Inr t" "c = claim_of p (confirmation_code X t)"
    using assms by (auto simp: claim_check_def claim_of_def split: if_splits sum.splits)
  obtain x where x: "dict_get (ms_pairings s) (pc_pairing p) = Some x" "pa_status x \<noteq> Pair_consumed" "now < pa_expires x" "pa_secret x = Some h"
      and m: "matches_secret_hash X h (pc_secret p)"
    using h(1) by (auto simp: check_session_def read_pairing_session_def split: if_splits sum.splits option.splits)
  obtain k sg where k: "parse_device_public_key X (pc_key p) = Some k" "b64decode (pc_signature p) = Some sg"
      and f: "find (\<lambda>t. mk_verify X k sg t) (map (claim_text C p) (secret_hashes X h (pc_secret p))) = Some t"
    using h(2) by (auto simp: verify_claim_def split: option.splits)
  have t: "mk_verify X k sg t" "t \<in> claim_text C p ` set (secret_hashes X h (pc_secret p))"
    using f by (auto simp: find_Some_iff)
  have "claim_proof X C p h (confirmation_code X t)"
    using m t k by (auto simp: claim_proof_def secret_hashes_set[OF m] signed_by_def matches_secret_hash_def)
  then show ?thesis using x h(3) by (auto simp: claim_of_def)
qed

lemma claim_begin_inv:
  assumes "pair_inv X C g"
  shows "pair_inv X C (claim_begin X C now p g)"
proof (cases "claim_check X C now p (mp_store g)")
  case (Inr c)
  obtain x h where x: "dict_get (ms_pairings (mp_store g)) (pc_pairing p) = Some x" "pa_status x \<noteq> Pair_consumed" "now < pa_expires x"
      "pa_secret x = Some h" "claim_proof X C p h (pd_code c)" and c: "c = claim_of p (pd_code c)"
    using claim_check_parts[OF Inr] by blast
  have "Offered (pc_pairing p) h (pa_expires x) \<in> set (mp_log g)" "\<not> registered (mp_log g) (pc_pairing p)"
    using pairings_soundD[OF pair_invD(3)[OF assms] x(1)] x(2,4) by auto
  then have t: "trace_ok X C (mp_log g) (Claimed p (pd_code c) now)" using x(3,5) by (auto simp: trace_ok_def)
  have "was_claimed (Claimed p (pd_code c) now # mp_log g) c" using c by (auto simp: was_claimed_def)
  then have "claims_sound (mp_claims g) (c # mp_claiming g) (Claimed p (pd_code c) now # mp_log g)"
    using assms by (auto simp: pair_inv_def claims_sound_def)
  then show ?thesis using assms t by (simp add: claim_begin_def Inr pair_inv_def trace_Cons)
qed (use assms in \<open>simp add: claim_begin_def\<close>)

lemma claim_end_inv:
  assumes "pair_inv X C g"
  shows "pair_inv X C (claim_end c g)"
proof (cases "c \<in> set (mp_claiming g)")
  case True
  have s: "claims_sound (mp_claims g) (mp_claiming g) (mp_log g)" using assms by (simp add: pair_inv_def)
  have "claims_sound (mp_claims g) (remove1 c (mp_claiming g)) (mp_log g)"
    "claims_sound (dict_set (mp_claims g) (pd_pairing c) c) (remove1 c (mp_claiming g)) (mp_log g)"
    using s True notin_set_remove1 by (fastforce simp: claims_sound_def)+
  then show ?thesis using assms by (auto simp: claim_end_def claim_store_def pair_inv_def split: option.splits if_splits)
qed (use assms in \<open>simp add: claim_end_def\<close>)

text \<open>An approval.\<close>

lemma approvals_set: "approvals_sound A G \<Longrightarrow> (\<And>c. approve_claim pc = Some c \<Longrightarrow> Approved c (pd_code c) \<in> set G) \<Longrightarrow> approvals_sound (dict_set A t pc) G"
  by (auto simp: approvals_sound_def)

lemma approvals_del: "approvals_sound A G \<Longrightarrow> approvals_sound (dict_del A t) G"
  by (auto simp: approvals_sound_def)

lemma leave_inv: "pair_inv X C g \<Longrightarrow> pair_inv X C (leave t g)"
  by (simp add: pair_inv_def approvals_del)

lemma goto_inv: "pair_inv X C g \<Longrightarrow> (\<And>c. approve_claim pc = Some c \<Longrightarrow> Approved c (pd_code c) \<in> set (mp_log g)) \<Longrightarrow> pair_inv X C (goto t pc g)"
  by (simp add: pair_inv_def approvals_set)

lemma approve_begin_inv:
  assumes "pair_inv X C g" "approve_begin k code g = Inr c"
  shows "pair_inv X C (note_event (Approved c code) (goto t (Ap_read c) g))"
proof -
  have c: "dict_get (mp_claims g) k = Some c" "pd_code c = code"
    using assms(2) by (auto simp: approve_begin_def compare_digest_def split: option.splits if_splits)
  then have "trace_ok X C (mp_log g) (Approved c code)" using pair_invD(6)[OF assms(1)] by (auto simp: claims_sound_def trace_ok_def)
  moreover have "approvals_sound (dict_set (mp_approving g) t (Ap_read c)) (Approved c code # mp_log g)"
    using approvals_Cons[OF pair_invD(7)[OF assms(1)]] by (rule approvals_set) (simp add: approve_claim_def c(2))
  ultimately show ?thesis using assms(1) by (simp add: pair_inv_def trace_Cons)
qed

lemma confirm_inv:
  assumes "pair_inv X C g" "confirm_pairing k now (mp_store g) = Inr (x', s)"
  shows "pair_inv X C (g\<lparr>mp_store := s\<rparr>)"
proof -
  obtain x where x: "dict_get (ms_pairings (mp_store g)) k = Some x" "pa_status x = Pair_pending" "x' = x\<lparr>pa_status := Pair_confirmed\<rparr>"
      and s: "s = (mp_store g)\<lparr>ms_pairings := dict_set (ms_pairings (mp_store g)) k x'\<rparr>"
    using assms(2) by (auto simp: confirm_pairing_def Let_def split: if_splits option.splits)
  have "mobile_exec (Confirm_pairing k now) (mp_store g) = s" using assms(2) by (simp add: mobile_exec_def keep_on_error_def)
  then have "mobile_ok s" using mobile_exec_ok[OF pair_invD(1)[OF assms(1)], of "Confirm_pairing k now"] by simp
  moreover have "pairings_sound (ms_pairings s) (mp_log g)"
    using pair_invD(3)[OF assms(1)] x by (auto simp: s pairings_sound_def)
  ultimately show ?thesis using assms(1) by (simp add: pair_inv_def s)
qed

text \<open>What a consumed pairing does to the devices: a fresh row, or the row with the same key under a new name.\<close>

lemma pair_device_view:
  assumes "mobile_ok s" "pair_device d s = Inr (d', s')"
  shows "ms_pairings s' = ms_pairings s" "ms_epoch s' = ms_epoch s" "ms_devices s' = dict_set (ms_devices s) (dv_id d') d'"
    "dv_key d' = dv_key d" "dv_name d' = dv_name d" "dv_caps d' = dv_caps d" "dv_revoked d' = None"
    "\<And>old. dict_get (ms_devices s) (dv_id d') = Some old \<Longrightarrow> dv_key old = dv_key d \<and> dv_revoked old = None"
proof -
  have ok: "devices_ok (ms_devices s)" using mobile_okD(1)[OF assms(1)] by (simp add: tables_ok_def)
  have "ms_epoch s' = ms_epoch s \<and> ms_devices s' = dict_set (ms_devices s) (dv_id d') d' \<and> dv_name d' = dv_name d \<and> dv_caps d' = dv_caps d \<and>
     (\<forall>old. dict_get (ms_devices s) (dv_id d') = Some old \<longrightarrow> dv_key old = dv_key d \<and> dv_revoked old = None)"
  proof (cases "find_by_key (dv_key d) s")
    case None
    then have "insert_device d s = Inr s'" "d' = d" using assms(2) by (auto simp: pair_device_def split: sum.splits)
    then show ?thesis by (auto simp: insert_device_def split: if_splits)
  next
    case (Some row)
    then have row: "row \<in> set (map snd (ms_devices s))" "dv_key row = dv_key d"
      unfolding find_by_key_def find_Some_iff by (metis nth_mem)+
    then obtain k where k: "dict_get (ms_devices s) k = Some row" using ok by (auto simp: devices_ok_def dict_get_Some_iff)
    then have "dv_id row = k" using ok by (simp add: devices_ok_def)
    then show ?thesis using assms(2) Some k row(2) by (auto simp: pair_device_def device_from_row_def Let_def split: sum.splits if_splits)
  qed
  then show "ms_epoch s' = ms_epoch s" "ms_devices s' = dict_set (ms_devices s) (dv_id d') d'" "dv_name d' = dv_name d" "dv_caps d' = dv_caps d"
    "\<And>old. dict_get (ms_devices s) (dv_id d') = Some old \<Longrightarrow> dv_key old = dv_key d \<and> dv_revoked old = None" by blast+
qed (use pair_device_ok[OF assms] in simp_all)

lemma devices_register:
  assumes "devices_sound D G" "\<And>old. dict_get D (dv_id d) = Some old \<Longrightarrow> dv_key old = dv_key d \<and> dv_revoked old = None" "dv_revoked d = None"
  shows "devices_sound (dict_set D (dv_id d) d) (Registered k c d t # G)" "Revoked (dv_id d) \<notin> set G"
proof -
  show new: "Revoked (dv_id d) \<notin> set G"
  proof
    assume "Revoked (dv_id d) \<in> set G"
    then obtain old where "dict_get D (dv_id d) = Some old" "dv_revoked old \<noteq> None" using assms(1) unfolding devices_sound_def by blast
    then show False using assms(2) by simp
  qed
  have "registered_as (Registered k c d t # G) (dv_id d) (dv_key d)" unfolding registered_as_def by (intro exI[of _ k] exI[of _ c] exI[of _ d] exI[of _ t]) simp
  then show "devices_sound (dict_set D (dv_id d) d) (Registered k c d t # G)"
    using assms(1) new unfolding devices_sound_def by (auto split: if_splits)
qed

lemma pairings_consume:
  assumes "pairings_sound P G" "dict_get P k = Some x" "x' = x\<lparr>pa_secret := None, pa_status := Pair_consumed\<rparr>"
  shows "pairings_sound (dict_set P k x') (Registered k c d t # G)"
proof -
  have "\<exists>h. Offered k h (pa_expires x) \<in> set G" using pairings_soundD(1)[OF assms(1,2)] by blast
  then show ?thesis using assms(1,3) unfolding pairings_sound_def by (auto split: if_splits)
qed

lemma consume_inv:
  assumes "pair_inv X C g" "Approved c (pd_code c) \<in> set (mp_log g)" "consume_pairing (pd_pairing c) (claimed_device fresh c now) now (mp_store g) = Inr (d, s)"
  shows "pair_inv X C (note_event (Registered (pd_pairing c) c d now) (g\<lparr>mp_store := s\<rparr>))"
proof -
  define k G where "k = pd_pairing c" and "G = mp_log g"
  note ok = pair_invD[OF assms(1)]
  obtain x s1 where x: "dict_get (ms_pairings (mp_store g)) k = Some x" "pa_status x = Pair_confirmed" "now < pa_expires x"
      and p: "pair_device (claimed_device fresh c now) (mp_store g) = Inr (d, s1)"
      and s: "s = s1\<lparr>ms_pairings := dict_set (ms_pairings s1) k (x\<lparr>pa_secret := None, pa_status := Pair_consumed\<rparr>)\<rparr>"
    using consume_pairing_parts[OF assms(3)] by (auto simp: k_def)
  note v = pair_device_view[OF ok(1) p]
  have d: "dv_key d = pd_key c" "dv_name d = pd_name c" "dv_caps d = pd_caps c" using v(4,5,6) by (simp_all add: claimed_device_def)
  have D: "devices_sound (ms_devices s) (Registered k c d now # G)" "Revoked (dv_id d) \<notin> set G"
    using devices_register[of "ms_devices (mp_store g)" G d] ok(4) v(4,7,8) by (simp_all add: s v(3) G_def)
  have P: "pairings_sound (ms_pairings s) (Registered k c d now # G)"
    using pairings_consume[OF ok(3) x(1) refl] by (simp add: s v(1) G_def)
  have "\<not> registered G k" "\<exists>h. Offered k h (pa_expires x) \<in> set G"
    using pairings_soundD[OF ok(3) x(1)] x(2) by (auto simp: G_def)
  then have "trace_ok X C G (Registered k c d now)" using x(3) assms(2) d D(2) by (auto simp: trace_ok_def k_def G_def)
  moreover have "mobile_ok s" by (rule consume_pairing_ok[OF ok(1) assms(3)])
  moreover have "ms_epoch s = ms_epoch (mp_store g)" by (simp add: s v(2))
  ultimately show ?thesis using ok D(1) P by (simp add: pair_inv_def trace_Cons k_def[symmetric] G_def[symmetric])
qed

lemma approve_step_inv:
  assumes "pair_inv X C g"
  shows "pair_inv X C (approve_step t now fresh g)"
proof (cases "dict_get (mp_approving g) t")
  case (Some pc)
  have app: "Approved c (pd_code c) \<in> set (mp_log g)" if "approve_claim pc = Some c" for c
    using pair_invD(7)[OF assms] Some that by (auto simp: approvals_sound_def)
  show ?thesis
  proof (cases pc)
    case (Ap_read c)
    then show ?thesis using Some assms app leave_inv[OF assms]
      by (auto simp: approve_step_def approve_read_def approve_claim_def split: sum.split option.split intro!: goto_inv)
  next
    case (Ap_confirm c n)
    have "pair_inv X C (goto t (Ap_consume c n) (g\<lparr>mp_store := s\<rparr>))" if "confirm_pairing (pd_pairing c) n (mp_store g) = Inr (x, s)" for x s
      by (rule goto_inv[OF confirm_inv[OF assms that]]) (use app Ap_confirm in \<open>simp add: approve_claim_def\<close>)
    then show ?thesis using Ap_confirm Some leave_inv[OF assms]
      by (auto simp: approve_step_def approve_confirm_def split: sum.split)
  next
    case (Ap_consume c n)
    have "pair_inv X C (goto t (Ap_forget (pd_pairing c)) (note_event (Registered (pd_pairing c) c d n) (g\<lparr>mp_store := s\<rparr>)))"
      if "consume_pairing (pd_pairing c) (claimed_device fresh c n) n (mp_store g) = Inr (d, s)" for d s
      by (rule goto_inv[OF consume_inv[OF assms _ that]]) (use app Ap_consume in \<open>simp_all add: approve_claim_def\<close>)
    then show ?thesis using Ap_consume Some leave_inv[OF assms]
      by (auto simp: approve_step_def approve_consume_def split: sum.split)
  next
    case (Ap_forget k)
    have "pair_inv X C (g\<lparr>mp_claims := dict_del (mp_claims g) k\<rparr>)"
      using assms by (auto simp: pair_inv_def claims_sound_def split: if_splits)
    then show ?thesis using Ap_forget Some leave_inv[OF assms] leave_inv by (auto simp: approve_step_def approve_forget_def)
  qed
qed (use assms in \<open>simp add: approve_step_def\<close>)

text \<open>Challenges and connections.\<close>

lemma occursD: "challenges_sound H G \<Longrightarrow> occurs (is_connection conn r) G + (if dict_get H conn = Some r then 1 else 0) \<le> occurs (is_challenge conn r) G"
  by (simp add: challenges_sound_def)

lemma challenges_drop:
  assumes "challenges_sound H G" "dict_ok H'" "\<And>conn r. dict_get H' conn = Some r \<Longrightarrow> dict_get H conn = Some r"
  shows "challenges_sound H' G"
proof -
  have "occurs (is_connection conn r) G + (if dict_get H' conn = Some r then 1 else 0) \<le> occurs (is_challenge conn r) G" for conn r
    using occursD[OF assms(1), of conn r] assms(3)[of conn r] by (cases "dict_get H' conn = Some r") auto
  then show ?thesis using assms(2) by (simp add: challenges_sound_def)
qed

lemma purge_sound: "challenges_sound H G \<Longrightarrow> challenges_sound (purge_expired now H) G"
  by (rule challenges_drop) (auto simp: purge_expired_def challenges_sound_def dict_ok_filter dict_get_filter split: option.splits if_splits)

lemma challenge_add:
  assumes "challenges_sound H G" "dict_get H conn = None"
  shows "challenges_sound (dict_set H conn r) (Challenged conn r # G)"
proof -
  have "occurs (is_connection a b) G + (if dict_get (dict_set H conn r) a = Some b then 1 else 0) \<le>
      (if a = conn \<and> b = r then 1 else 0) + occurs (is_challenge a b) G" for a b
    using occursD[OF assms(1), of a b] assms(2) by (cases "a = conn") (auto split: if_splits)
  moreover have "is_challenge a b (Challenged conn r) = (a = conn \<and> b = r)" "\<not> is_connection a b (Challenged conn r)" for a b
    by (auto simp: is_challenge_def is_connection_def)
  ultimately show ?thesis using assms(1) by (simp add: challenges_sound_def)
qed

lemma challenge_use:
  assumes "challenges_sound H G" "dict_get H conn = Some r"
  shows "challenges_sound (dict_del H conn) (Connected conn r p d n now # G)" "Challenged conn r \<in> set G"
proof -
  have "occurs (is_challenge conn r) G \<noteq> 0" using occursD[OF assms(1), of conn r] assms(2) by simp
  then obtain e where e: "e \<in> set G" "is_challenge conn r e" by (auto simp: occurs_def filter_empty_conv)
  then have "e = Challenged conn r" by (simp add: is_challenge_def split: pair_event.splits)
  then show "Challenged conn r \<in> set G" using e(1) by simp
  have "(if a = conn \<and> b = r then 1 else 0) + occurs (is_connection a b) G + (if dict_get (dict_del H conn) a = Some b then 1 else 0) \<le>
      occurs (is_challenge a b) G" for a b
    using occursD[OF assms(1), of a b] assms(2) by (cases "a = conn") (auto split: if_splits)
  moreover have "is_connection a b (Connected conn r p d n now) = (a = conn \<and> b = r)" "\<not> is_challenge a b (Connected conn r p d n now)" for a b
    by (auto simp: is_challenge_def is_connection_def)
  ultimately show "challenges_sound (dict_del H conn) (Connected conn r p d n now # G)" using assms(1) by (simp add: challenges_sound_def)
qed

lemma open_connection_inv:
  assumes "pair_inv X C g"
  shows "pair_inv X C (open_connection X C conn cid bytes now g)"
proof -
  define r where "r = \<lparr>cg_id = cid, cg_nonce = b64url bytes, cg_expires = now + pg_challenge_ttl C\<rparr>"
  have P: "challenges_sound (purge_expired now (mp_challenges g)) (mp_log g)" by (rule purge_sound[OF pair_invD(8)[OF assms]])
  have "challenges_sound (dict_set (purge_expired now (mp_challenges g)) conn r) (Challenged conn r # mp_log g)"
    if "dict_get (purge_expired now (mp_challenges g)) conn = None"
    by (rule challenge_add[OF P that])
  then show ?thesis using assms P
    by (auto simp: open_connection_def create_challenge_def Let_def r_def[symmetric] pair_inv_def trace_Cons trace_ok_def)
      (simp_all add: r_def)
qed

lemma authenticate_parts:
  assumes "authenticate X C conn p now H s = (Inr (a, s'), H')" "mobile_ok s"
  shows "\<exists>r d. dict_get H conn = Some r \<and> cg_id r = dp_challenge p \<and> now < cg_expires r \<and> H' = dict_del H conn \<and>
    dict_get (ms_devices s) (dp_device p) = Some d \<and> dv_id d = dp_device p \<and> dv_revoked d = None \<and>
    signed_by X (dv_key d) (dp_signature p) (proof_text C r p) \<and> ad_epoch a = ms_epoch s + 1 \<and> s' = s\<lparr>ms_epoch := ms_epoch s + 1\<rparr>"
proof -
  obtain r where r: "dict_get H conn = Some r" "cg_id r = dp_challenge p" "now < cg_expires r" "H' = dict_del H conn"
      and a: "authenticate_device X C r p s = Inr (a, s')"
    using assms(1) by (auto simp: authenticate_def split: option.splits if_splits)
  obtain d where d: "dict_get (ms_devices s) (dp_device p) = Some d" "verify_proof X C r p d = None"
      and e: "ad_epoch a = ms_epoch s + 1" "s' = s\<lparr>ms_epoch := ms_epoch s + 1\<rparr>"
    using a by (auto simp: authenticate_device_def read_device_def device_from_row_def allocate_connection_epoch_def
      split: sum.splits option.splits if_splits)
  have "dv_id d = dp_device p" using d(1) mobile_okD(1)[OF assms(2)] by (auto simp: tables_ok_def devices_ok_def)
  moreover have "dv_revoked d = None" "signed_by X (dv_key d) (dp_signature p) (proof_text C r p)"
    using d(2) by (auto simp: verify_proof_def signed_by_def split: option.splits if_splits)
  ultimately show ?thesis using r d(1) e by blast
qed

lemma prove_inv:
  assumes "pair_inv X C g"
  shows "pair_inv X C (prove_device X C conn p now g)"
proof -
  note ok = pair_invD[OF assms]
  obtain res H' where au: "authenticate X C conn p now (mp_challenges g) (mp_store g) = (res, H')" by fastforce
  show ?thesis
  proof (cases res)
    case (Inl e)
    have "challenges_sound H' (mp_log g)"
    proof (rule challenges_drop[OF ok(8)])
      show "dict_ok H'" using au ok(8) by (auto simp: authenticate_def challenges_sound_def split: option.splits)
      show "dict_get (mp_challenges g) a = Some b" if "dict_get H' a = Some b" for a b
        using au that by (auto simp: authenticate_def split: option.splits if_splits)
    qed
    then show ?thesis using assms au Inl by (simp add: prove_device_def pair_inv_def)
  next
    case (Inr as)
    obtain a s' where as: "as = (a, s')" by fastforce
    obtain r d where r: "dict_get (mp_challenges g) conn = Some r" "cg_id r = dp_challenge p" "now < cg_expires r" "H' = dict_del (mp_challenges g) conn"
        and d: "dict_get (ms_devices (mp_store g)) (dp_device p) = Some d" "dv_id d = dp_device p" "dv_revoked d = None"
          "signed_by X (dv_key d) (dp_signature p) (proof_text C r p)"
        and n: "ad_epoch a = ms_epoch (mp_store g) + 1" "s' = (mp_store g)\<lparr>ms_epoch := ms_epoch (mp_store g) + 1\<rparr>"
      using authenticate_parts[OF au[unfolded Inr as] ok(1)] by blast
    define e where "e = Connected conn r p d (ms_epoch (mp_store g) + 1) now"
    have H: "challenges_sound H' (e # mp_log g)" "Challenged conn r \<in> set (mp_log g)"
      unfolding e_def r(4) by (rule challenge_use[OF ok(8) r(1)])+
    have "registered_as (mp_log g) (dv_id d) (dv_key d)" "Revoked (dv_id d) \<notin> set (mp_log g)"
      using ok(4) d(1,2,3) by (auto simp: devices_sound_def)
    moreover have "\<forall>conn' r' p' d' n' now'. Connected conn' r' p' d' n' now' \<in> set (mp_log g) \<longrightarrow> n' < ms_epoch (mp_store g) + 1"
      using ok(5) unfolding epochs_sound_def by fastforce
    ultimately have t: "trace_ok X C (mp_log g) e" using H(2) r(2,3) d(2,4) by (simp add: e_def trace_ok_def)
    have E: "epochs_sound (ms_epoch (mp_store g) + 1) (e # mp_log g)" using ok(5) by (fastforce simp: epochs_sound_def e_def)
    have "mobile_ok s'" using mobile_ok_epoch[OF ok(1)] mobile_okD(1)[OF ok(1)] by (simp add: n(2) tables_ok_def)
    moreover have "prove_device X C conn p now g = (if proof_payload_ok p then note_event e (g\<lparr>mp_challenges := H', mp_store := s'\<rparr>) else g)"
      using au Inr as r(1) d(1) n by (simp add: prove_device_def e_def)
    moreover have "pairings_sound (ms_pairings (mp_store g)) (e # mp_log g)" "devices_sound (ms_devices (mp_store g)) (e # mp_log g)"
        "claims_sound (mp_claims g) (mp_claiming g) (e # mp_log g)" "approvals_sound (mp_approving g) (e # mp_log g)"
      using ok by (simp_all add: e_def trace_Cons)
    ultimately show ?thesis using assms H(1) t E by (simp add: pair_inv_def n(2))
  qed
qed

text \<open>The other clients of the database, and revocation.\<close>

definition same_devices :: "mobile_store \<Rightarrow> mobile_store \<Rightarrow> bool" where
  "same_devices s s' \<longleftrightarrow> ms_pairings s' = ms_pairings s \<and> ms_epoch s' = ms_epoch s \<and>
     (\<forall>i. case dict_get (ms_devices s') i of None \<Rightarrow> dict_get (ms_devices s) i = None
        | Some d \<Rightarrow> \<exists>d0. dict_get (ms_devices s) i = Some d0 \<and> dv_key d = dv_key d0 \<and> dv_revoked d = dv_revoked d0)"

lemma same_devices_eq: "ms_pairings s' = ms_pairings s \<Longrightarrow> ms_epoch s' = ms_epoch s \<Longrightarrow> ms_devices s' = ms_devices s \<Longrightarrow> same_devices s s'"
  by (simp add: same_devices_def split: option.split)

lemma same_devices_keep: "(\<And>a s'. r = Inr (a, s') \<Longrightarrow> same_devices s s') \<Longrightarrow> same_devices s (keep_on_error s r)"
  by (auto simp: keep_on_error_def intro: same_devices_eq split: sum.split)

lemma pair_events_frame:
  "store_events es s = Inr s' \<Longrightarrow> ms_pairings s' = ms_pairings s \<and> ms_epoch s' = ms_epoch s \<and> ms_devices s' = ms_devices s"
proof (induction es arbitrary: s)
  case (Cons e es)
  obtain s1 where s1: "store_event e s = Inr s1" "store_events es s1 = Inr s'" using Cons.prems by (auto split: sum.splits)
  have "ms_pairings s1 = ms_pairings s \<and> ms_epoch s1 = ms_epoch s \<and> ms_devices s1 = ms_devices s"
    using store_event_parts[OF s1(1)] by auto
  then show ?case using Cons.IH[OF s1(2)] by simp
qed simp

lemma other_client_devices:
  assumes "other_client m"
  shows "same_devices s (mobile_exec m s)"
proof (cases m)
  case (Set_capabilities k cs)
  have "same_devices s s'" if "update_device_capabilities k cs s = Inr s'" for s'
    using that by (auto simp: update_device_capabilities_def same_devices_def split: if_splits option.splits)
  then show ?thesis unfolding Set_capabilities mobile_exec_def by (auto intro: same_devices_keep)
next
  case (Append_events ds i e t)
  have "same_devices s s'" if "append_events ds i e t s = Inr (es, s')" for es s'
    using that pair_events_frame by (auto intro!: same_devices_eq simp: append_events_def Let_def split: if_splits sum.splits)
  then show ?thesis unfolding Append_events mobile_exec_def by (auto intro: same_devices_keep)
next
  case (Rebase d n i e t)
  show ?thesis unfolding Rebase mobile_exec_def
    by (auto intro!: same_devices_keep same_devices_eq simp: rebase_cursor_def insert_event_def Let_def split: if_splits option.splits sum.splits)
next
  case (Mark_sent d n)
  show ?thesis unfolding Mark_sent mobile_exec_def
    by (auto intro!: same_devices_keep same_devices_eq simp: mark_events_sent_def Let_def split: if_splits option.splits)
next
  case (Acknowledge d n)
  show ?thesis unfolding Acknowledge mobile_exec_def
    by (auto intro!: same_devices_keep same_devices_eq simp: acknowledge_events_def Let_def split: if_splits option.splits)
qed (use assms in \<open>auto intro!: same_devices_keep same_devices_eq simp: other_client_def mobile_exec_def write_server_identity_def claim_session_def
  split: if_splits option.splits\<close>)

lemma other_client_inv:
  assumes "pair_inv X C g" "other_client m"
  shows "pair_inv X C (g\<lparr>mp_store := mobile_exec m (mp_store g)\<rparr>)"
proof -
  define s where "s = mobile_exec m (mp_store g)"
  have v: "ms_pairings s = ms_pairings (mp_store g)" "ms_epoch s = ms_epoch (mp_store g)"
    and D: "case dict_get (ms_devices s) i of None \<Rightarrow> dict_get (ms_devices (mp_store g)) i = None
        | Some d \<Rightarrow> \<exists>d0. dict_get (ms_devices (mp_store g)) i = Some d0 \<and> dv_key d = dv_key d0 \<and> dv_revoked d = dv_revoked d0" for i
    using other_client_devices[OF assms(2), of "mp_store g"] by (simp_all add: s_def same_devices_def)
  have "registered_as (mp_log g) i (dv_key d)" if "dict_get (ms_devices s) i = Some d" for i d
    using D[of i] that pair_invD(4)[OF assms(1)] by (auto simp: devices_sound_def)
  moreover have "\<exists>d. dict_get (ms_devices s) i = Some d \<and> dv_revoked d \<noteq> None" if rv: "Revoked i \<in> set (mp_log g)" for i
  proof -
    obtain d0 where "dict_get (ms_devices (mp_store g)) i = Some d0" "dv_revoked d0 \<noteq> None"
      using devices_soundD[OF pair_invD(4)[OF assms(1)] rv] by blast
    then show ?thesis using D[of i] by (auto split: option.splits)
  qed
  ultimately have "devices_sound (ms_devices s) (mp_log g)" unfolding devices_sound_def by blast
  then show ?thesis using assms(1) mobile_exec_ok[OF pair_invD(1)[OF assms(1)]] v by (simp add: pair_inv_def s_def)
qed

lemma revoke_inv:
  assumes "pair_inv X C g" "revoke_device i now (mp_store g) = Inr (d, s)"
  shows "pair_inv X C (note_event (Revoked i) (g\<lparr>mp_store := s\<rparr>))"
proof -
  obtain row where row: "dict_get (ms_devices (mp_store g)) i = Some row" "dv_key d = dv_key row" "dv_revoked d \<noteq> None"
      and s: "s = (mp_store g)\<lparr>ms_devices := dict_set (ms_devices (mp_store g)) i d, ms_inbox := filter (\<lambda>e. ie_device e \<noteq> i) (ms_inbox (mp_store g))\<rparr>"
    using assms(2) by (auto simp: revoke_device_def device_from_row_def Let_def split: if_splits option.splits)
  have "devices_sound (dict_set (ms_devices (mp_store g)) i d) (Revoked i # mp_log g)"
    using pair_invD(4)[OF assms(1)] row by (auto simp: devices_sound_def)
  then show ?thesis using assms(1) revoke_ok[OF pair_invD(1)[OF assms(1)] assms(2)] by (simp add: pair_inv_def trace_Cons trace_ok_def s)
qed

lemma pair_exec_inv:
  assumes "pair_inv X C g"
  shows "pair_inv X C (pair_exec X C cmd g)"
proof (cases cmd)
  case Restart_gateway
  then show ?thesis using assms by (simp add: pair_exec_def pair_inv_def claims_sound_def approvals_sound_def)
    (auto intro: challenges_drop)
qed (use assms in \<open>auto simp: pair_exec_def offer_inv claim_begin_inv claim_end_inv approve_begin_inv approve_step_inv open_connection_inv prove_inv
  revoke_inv other_client_inv split: sum.split\<close>)

lemma pair_run_inv: "pair_inv X C g \<Longrightarrow> pair_inv X C (fold (pair_exec X C) cs g)"
  by (induction cs arbitrary: g) (simp_all add: pair_exec_inv)

lemma new_pairing_inv: "pair_inv X C new_pairing"
  by (simp add: pair_inv_def new_pairing_def pairings_sound_def devices_sound_def epochs_sound_def claims_sound_def approvals_sound_def
    challenges_sound_def occurs_def offered_def registered_def)
    (simp add: new_mobile_store_def mobile_ok_def tables_ok_def devices_ok_def)

lemma trace_sound_split: "trace_sound X C (later @ e # earlier) \<Longrightarrow> trace_ok X C earlier e"
  by (induction later) simp_all

lemma proof_bytes_text: "device_proof_signing_bytes server challenge challenge_nonce dev nonce =
    ''{'' @ json_string ''challenge_id'' @ '':'' @ json_string challenge @ '','' @ json_string ''challenge_nonce'' @ '':'' @ json_string challenge_nonce @ '','' @
    json_string ''client_nonce'' @ '':'' @ json_string nonce @ '','' @ json_string ''device_id'' @ '':'' @ json_string dev @ '','' @
    json_string ''protocol_version'' @ '':'' @ int_text 1 @ '','' @ json_string ''server_id'' @ '':'' @ json_string server @ ''}''"
  by (simp add: device_proof_signing_bytes_def less_char_def)

lemma challenge_bytes_text: "server_challenge_signing_bytes challenge server fingerprint key nonce expires =
    ''{'' @ json_string ''challenge_id'' @ '':'' @ json_string challenge @ '','' @ json_string ''expires_at'' @ '':'' @ json_string expires @ '','' @
    json_string ''nonce'' @ '':'' @ json_string nonce @ '','' @ json_string ''protocol_version'' @ '':'' @ int_text 1 @ '','' @
    json_string ''server_fingerprint'' @ '':'' @ json_string fingerprint @ '','' @ json_string ''server_id'' @ '':'' @ json_string server @ '','' @
    json_string ''server_public_key'' @ '':'' @ json_string key @ ''}''"
  by (simp add: server_challenge_signing_bytes_def less_char_def)

lemmas signed_texts = transcript_text proof_bytes_text challenge_bytes_text

text \<open>
  A signature binds everything it is about.  Two claims, two device proofs or two server challenges have
  the same signed bytes only if all their fields are the same, and no text of one kind is a text of another,
  whatever quotes, backslashes or control characters the fields hold.
\<close>

theorem signed_texts_bind:
  "(pair_claim_transcript s k h key name caps n = pair_claim_transcript s' k' h' key' name' caps' n' \<longleftrightarrow>
      (s, k, h, key, name, caps, n) = (s', k', h', key', name', caps', n')) \<and>
   (device_proof_signing_bytes s c cn d n = device_proof_signing_bytes s' c' cn' d' n' \<longleftrightarrow> (s, c, cn, d, n) = (s', c', cn', d', n')) \<and>
   (server_challenge_signing_bytes c s f key n x = server_challenge_signing_bytes c' s' f' key' n' x' \<longleftrightarrow> (c, s, f, key, n, x) = (c', s', f', key', n', x')) \<and>
   pair_claim_transcript s k h key name caps n \<noteq> device_proof_signing_bytes s' c cn d n' \<and>
   pair_claim_transcript s k h key name caps n \<noteq> server_challenge_signing_bytes c s' f key' n' x \<and>
   device_proof_signing_bytes s c cn d n \<noteq> server_challenge_signing_bytes c' s' f key n' x"
  by (auto simp: signed_texts simp del: json_dumps.simps)

lemma offer_unique: "trace_sound X C G \<Longrightarrow> Offered k h x \<in> set G \<Longrightarrow> Offered k h' x' \<in> set G \<Longrightarrow> h = h' \<and> x = x'"
  by (induction G) (auto simp: trace_ok_def offered_def)

lemma trace_sound_append: "trace_sound X C (later @ G) \<Longrightarrow> trace_sound X C G"
  by (induction later) simp_all

lemma approved_claimed: "trace_sound X C G \<Longrightarrow> Approved c code \<in> set G \<Longrightarrow> was_claimed G c"
  by (induction G) (auto simp: trace_ok_def)

lemma claimed_proof: "trace_sound X C G \<Longrightarrow> Claimed p code now \<in> set G \<Longrightarrow>
    \<exists>h x. Offered (pc_pairing p) h x \<in> set G \<and> now < x \<and> claim_proof X C p h code"
proof (induction G)
  case (Cons e G)
  show ?case
  proof (cases "e = Claimed p code now")
    case True
    then show ?thesis using Cons.prems(1) by (auto simp: trace_ok_def)
  next
    case False
    then have "\<exists>h x. Offered (pc_pairing p) h x \<in> set G \<and> now < x \<and> claim_proof X C p h code" using Cons by simp
    then show ?thesis by auto
  qed
qed simp

text \<open>
  C27. A phone is registered only with the consent of both sides.  Whatever claims, approvals, restarts and
  other calls came before, in any interleaving: when a pairing registers a device, the pairing was offered
  and not expired; a claim for it was verified, which knew the secret of that offer and was signed, with
  all its fields, by the key that is registered; exactly this claim was approved by typing its confirmation code;
  the device carries the key, name and capabilities of the claim; and the pairing had registered no device.
\<close>

theorem pairing_authorised:
  assumes "mp_log (fold (pair_exec X C) cs new_pairing) = later @ Registered k c d t # earlier"
  shows "\<exists>p h x now. Offered k h x \<in> set earlier \<and> now < x \<and> t < x \<and> Claimed p (pd_code c) now \<in> set earlier \<and> claim_proof X C p h (pd_code c) \<and>
    pc_pairing p = k \<and> pc_key p = dv_key d \<and> pc_name p = dv_name d \<and> pc_caps p = dv_caps d \<and> c = claim_of p (pd_code c) \<and>
    Approved c (pd_code c) \<in> set earlier \<and> (\<forall>c' d' t'. Registered k c' d' t' \<notin> set earlier)"
proof -
  have all: "trace_sound X C (later @ Registered k c d t # earlier)"
    using pair_invD(2)[OF pair_run_inv[OF new_pairing_inv], of X C cs] assms by simp
  then have s: "trace_sound X C earlier" using trace_sound_append[OF all] by simp
  have r: "k = pd_pairing c" "Approved c (pd_code c) \<in> set earlier" "\<not> registered earlier k" "dv_key d = pd_key c" "dv_name d = pd_name c" "dv_caps d = pd_caps c"
    and "\<exists>h x. Offered k h x \<in> set earlier \<and> t < x"
    using trace_sound_split[OF all] by (auto simp: trace_ok_def)
  then obtain h x where x: "Offered k h x \<in> set earlier" "t < x" by blast
  obtain p now where p: "Claimed p (pd_code c) now \<in> set earlier" "claim_of p (pd_code c) = c"
    using approved_claimed[OF s r(2)] by (auto simp: was_claimed_def)
  have f: "pc_pairing p = pd_pairing c" "pc_key p = pd_key c" "pc_name p = pd_name c" "pc_caps p = pd_caps c"
    using claim_of_sel[of p "pd_code c"] unfolding p(2) by simp_all
  obtain h' x' where "Offered k h' x' \<in> set earlier" "now < x'" "claim_proof X C p h' (pd_code c)"
    using claimed_proof[OF s p(1)] f(1) r(1) by auto
  then have "now < x" "claim_proof X C p h (pd_code c)" using offer_unique[OF s x(1)] by auto
  then show ?thesis using x p r f unfolding registered_def by metis
qed

text \<open>
  C28. A connection is a fresh proof by a registered device.  When a connection is accepted, its challenge was
  issued to this very connection and had not expired; the proof names it and is signed over the challenge,
  its nonce, the server and the device by the key of the named device, which was registered by a pairing and
  never revoked; its epoch is above that of every earlier connection; and a challenge is accepted at most as
  often as it was issued.
\<close>

theorem connection_authentic:
  assumes "mp_log (fold (pair_exec X C) cs new_pairing) = later @ Connected conn r p d n now # earlier"
  shows "Challenged conn r \<in> set earlier \<and> cg_id r = dp_challenge p \<and> now < cg_expires r \<and>
    signed_by X (dv_key d) (dp_signature p) (proof_text C r p) \<and>
    (\<exists>k c d0 t. Registered k c d0 t \<in> set earlier \<and> dv_id d0 = dp_device p \<and> dv_key d0 = dv_key d) \<and> Revoked (dp_device p) \<notin> set earlier \<and>
    (\<forall>conn' r' p' d' n' now'. Connected conn' r' p' d' n' now' \<in> set earlier \<longrightarrow> n' < n) \<and>
    occurs (is_connection conn r) (mp_log (fold (pair_exec X C) cs new_pairing)) \<le> occurs (is_challenge conn r) (mp_log (fold (pair_exec X C) cs new_pairing))"
proof -
  note inv = pair_run_inv[OF new_pairing_inv, of X C cs]
  have "trace_ok X C earlier (Connected conn r p d n now)"
    using pair_invD(2)[OF inv] assms trace_sound_split by metis
  then have "Challenged conn r \<in> set earlier \<and> cg_id r = dp_challenge p \<and> now < cg_expires r \<and> dv_id d = dp_device p \<and>
      registered_as earlier (dv_id d) (dv_key d) \<and> Revoked (dv_id d) \<notin> set earlier \<and> signed_by X (dv_key d) (dp_signature p) (proof_text C r p) \<and>
      (\<forall>conn' r' p' d' n' now'. Connected conn' r' p' d' n' now' \<in> set earlier \<longrightarrow> n' < n)"
    unfolding trace_ok_def pair_event.case .
  moreover have "occurs (is_connection conn r) (mp_log (fold (pair_exec X C) cs new_pairing)) \<le> occurs (is_challenge conn r) (mp_log (fold (pair_exec X C) cs new_pairing))"
    using occursD[OF pair_invD(8)[OF inv], of conn r] by simp
  ultimately show ?thesis by (elim conjE) (simp add: registered_as_def)
qed

text \<open>A phone is paired and connects.\<close>

definition demo_crypto :: mobile_crypto where
  "demo_crypto = \<lparr>mk_sha256 = (\<lambda>s. replicate 8 (CHR 0x00) @ take 24 (rev s)), mk_load_key = (\<lambda>b. Some b), mk_verify = (\<lambda>k sg t. sg = take (length sg) k),
     mk_sign = (\<lambda>t. ''sig''), mk_format = (\<lambda>n. int_text n)\<rparr>"

definition demo_pairing :: pairing_config where
  "demo_pairing = \<lparr>pg_server = ''srv'', pg_fingerprint = ''fp'', pg_public_key = ''pk'', pg_spki = ''spki'', pg_lan = [''wss://host''], pg_tunnel = [],
     pg_ttl = 100, pg_challenge_ttl = 30\<rparr>"

definition demo_claim :: pair_claim where
  "demo_claim = \<lparr>pc_pairing = ''k1'', pc_secret = replicate 43 (CHR ''A''), pc_key = replicate 80 (CHR ''A''), pc_name = ''Phone'', pc_caps = [''chat''],
     pc_nonce = replicate 16 (CHR ''n''), pc_signature = replicate 64 (CHR ''A'')\<rparr>"

definition demo_pending :: pending_claim where
  "demo_pending = claim_of demo_claim ''000000''"

definition demo_device :: device where
  "demo_device = \<lparr>dv_id = ''d1'', dv_key = replicate 80 (CHR ''A''), dv_name = ''Phone'', dv_created = 2, dv_revoked = None, dv_caps = [''chat'']\<rparr>"

definition demo_challenge :: challenge where
  "demo_challenge = \<lparr>cg_id = ''c1'', cg_nonce = ''AAAA'', cg_expires = 35\<rparr>"

definition demo_proof :: device_proof where
  "demo_proof = \<lparr>dp_challenge = ''c1'', dp_device = ''d1'', dp_nonce = replicate 16 (CHR ''n''), dp_signature = replicate 64 (CHR ''A'')\<rparr>"

definition demo_pair_cmds :: "pair_cmd list" where
  "demo_pair_cmds = [Offer ''k1'' (replicate 32 (CHR 0x00)) 0, Claim_begin demo_claim 1, Claim_end demo_pending, Approve 7 ''k1'' ''000000'',
     Approve_step 7 2 ''d1'', Approve_step 7 2 ''d1'', Approve_step 7 2 ''d1'', Approve_step 7 2 ''d1'',
     Open_connection ''w1'' ''c1'' (replicate 3 (CHR 0x00)) 5, Prove ''w1'' demo_proof 6]"

definition demo_hash :: string where
  "demo_hash = hexdigest (replicate 8 (CHR 0x00) @ replicate 24 (CHR ''A''))"


definition demo_session :: "pairing_status \<Rightarrow> pairing" where
  "demo_session st = \<lparr>pa_id = ''k1'', pa_secret = (if st = Pair_consumed then None else Some demo_hash), pa_expires = 100, pa_status = st\<rparr>"

lemma demo_offer_hash: "pairing_secret_hash demo_crypto secret_domain (b64url (replicate 32 (CHR 0x00))) = demo_hash"
  by code_simp

lemma demo_claim_check: "claim_check demo_crypto demo_pairing 1 demo_claim (new_mobile_store\<lparr>ms_pairings := [(''k1'', demo_session Pair_pending)]\<rparr>) = Inr demo_pending"
  by code_simp

lemma demo_proof_check: "verify_proof demo_crypto demo_pairing demo_challenge demo_proof demo_device = None" "proof_payload_ok demo_proof"
  by code_simp+

lemma demo_nonce_text: "b64url (replicate 3 (CHR 0x00)) = ''AAAA''"
  by code_simp

definition demo_paired :: pair_state where
  "demo_paired = fold (pair_exec demo_crypto demo_pairing) (take 2 demo_pair_cmds) new_pairing"

lemma demo_paired_eval: "demo_paired = \<lparr>mp_store = new_mobile_store\<lparr>ms_pairings := [(''k1'', demo_session Pair_pending)]\<rparr>, mp_claims = [], mp_claiming = [demo_pending],
    mp_approving = [], mp_challenges = [], mp_log = [Claimed demo_claim ''000000'' 1, Offered ''k1'' demo_hash 100]\<rparr>"
proof -
  have "demo_hash \<noteq> []" by code_simp
  then have offer: "pair_exec demo_crypto demo_pairing (Offer ''k1'' (replicate 32 (CHR 0x00)) 0) new_pairing =
     new_pairing\<lparr>mp_store := new_mobile_store\<lparr>ms_pairings := [(''k1'', demo_session Pair_pending)]\<rparr>, mp_log := [Offered ''k1'' demo_hash 100]\<rparr>"
    unfolding pair_exec_def pair_cmd.case create_offer_def demo_offer_hash
    by (simp add: create_pairing_session_def new_pairing_def new_mobile_store_def demo_pairing_def demo_session_def note_event_def
      dict_get_def dict_set_def Let_def)
  show ?thesis unfolding demo_paired_def demo_pair_cmds_def
    by (simp add: offer del: replicate.simps)
      (simp add: pair_exec_def claim_begin_def new_pairing_def demo_claim_check note_event_def demo_pending_def del: replicate.simps)
qed

definition demo_state :: "(string, pending_claim) dict \<Rightarrow> pending_claim list \<Rightarrow> (nat, approve_pc) dict \<Rightarrow> pairing_status \<Rightarrow> (string, device) dict \<Rightarrow>
    (string, challenge) dict \<Rightarrow> pair_event list \<Rightarrow> pair_state" where
  "demo_state cs ws ap st ds ch lg = \<lparr>mp_store = new_mobile_store\<lparr>ms_pairings := [(''k1'', demo_session st)], ms_devices := ds,
      ms_cursors := map (\<lambda>(i, _). (i, \<lparr>cu_next = 1, cu_sent = 0, cu_acked = 0\<rparr>)) ds\<rparr>, mp_claims = cs, mp_claiming = ws, mp_approving = ap,
    mp_challenges = ch, mp_log = lg\<rparr>"

lemma demo_steps:
  "pair_exec demo_crypto demo_pairing (Claim_end demo_pending) (demo_state [] [demo_pending] [] st ds ch lg) = demo_state [(''k1'', demo_pending)] [] [] st ds ch lg"
  "pair_exec demo_crypto demo_pairing (Approve 7 ''k1'' ''000000'') (demo_state [(''k1'', demo_pending)] [] [] st ds ch lg) =
     demo_state [(''k1'', demo_pending)] [] [(7, Ap_read demo_pending)] st ds ch (Approved demo_pending ''000000'' # lg)"
  "pair_exec demo_crypto demo_pairing (Approve_step 7 2 i) (demo_state cs ws [(7, Ap_read demo_pending)] Pair_pending ds ch lg) =
     demo_state cs ws [(7, Ap_confirm demo_pending 2)] Pair_pending ds ch lg"
  "pair_exec demo_crypto demo_pairing (Approve_step 7 2 i) (demo_state cs ws [(7, Ap_confirm demo_pending 2)] Pair_pending ds ch lg) =
     demo_state cs ws [(7, Ap_consume demo_pending 2)] Pair_confirmed ds ch lg"
  "pair_exec demo_crypto demo_pairing (Approve_step 7 2 ''d1'') (demo_state cs ws [(7, Ap_consume demo_pending 2)] Pair_confirmed [] ch lg) =
     demo_state cs ws [(7, Ap_forget ''k1'')] Pair_consumed [(''d1'', demo_device)] ch (Registered ''k1'' demo_pending demo_device 2 # lg)"
  "pair_exec demo_crypto demo_pairing (Approve_step 7 2 i) (demo_state [(''k1'', demo_pending)] ws [(7, Ap_forget ''k1'')] st ds ch lg) = demo_state [] ws [] st ds ch lg"
  "pair_exec demo_crypto demo_pairing (Open_connection ''w1'' ''c1'' (replicate 3 (CHR 0x00)) 5) (demo_state cs ws ap st ds [] lg) =
     demo_state cs ws ap st ds [(''w1'', demo_challenge)] (Challenged ''w1'' demo_challenge # lg)"
proof -
  have pd: "pd_pairing demo_pending = ''k1''" "pd_code demo_pending = ''000000''" by (simp_all add: demo_pending_def demo_claim_def)
  have ascii: "compare_digest ''000000'' ''000000'' = Some True" by code_simp
  have dev: "claimed_device ''d1'' demo_pending 2 = demo_device" by (simp add: claimed_device_def demo_pending_def demo_claim_def demo_device_def)
  have ins: "dv_revoked demo_device = None" "caps_ok (dv_caps demo_device)" "dv_id demo_device = ''d1''" "dv_key demo_device \<noteq> []" "dv_name demo_device \<noteq> []"
    by (simp_all add: demo_device_def caps_ok_def)
  show "pair_exec demo_crypto demo_pairing (Claim_end demo_pending) (demo_state [] [demo_pending] [] st ds ch lg) = demo_state [(''k1'', demo_pending)] [] [] st ds ch lg"
    by (simp add: pair_exec_def claim_end_def claim_store_def demo_state_def pd dict_get_def dict_set_def)
  show "pair_exec demo_crypto demo_pairing (Approve 7 ''k1'' ''000000'') (demo_state [(''k1'', demo_pending)] [] [] st ds ch lg) =
     demo_state [(''k1'', demo_pending)] [] [(7, Ap_read demo_pending)] st ds ch (Approved demo_pending ''000000'' # lg)"
    by (simp add: pair_exec_def approve_begin_def demo_state_def pd ascii dict_get_def dict_set_def goto_def note_event_def)
  show "pair_exec demo_crypto demo_pairing (Approve_step 7 2 i) (demo_state cs ws [(7, Ap_read demo_pending)] Pair_pending ds ch lg) =
     demo_state cs ws [(7, Ap_confirm demo_pending 2)] Pair_pending ds ch lg"
    by (simp add: pair_exec_def approve_step_def approve_read_def demo_state_def demo_session_def read_pairing_session_def pd dict_get_def dict_set_def goto_def)
  show "pair_exec demo_crypto demo_pairing (Approve_step 7 2 i) (demo_state cs ws [(7, Ap_confirm demo_pending 2)] Pair_pending ds ch lg) =
     demo_state cs ws [(7, Ap_consume demo_pending 2)] Pair_confirmed ds ch lg"
    by (simp add: pair_exec_def approve_step_def approve_confirm_def demo_state_def demo_session_def confirm_pairing_def pd dict_get_def dict_set_def goto_def Let_def)
  show "pair_exec demo_crypto demo_pairing (Approve_step 7 2 ''d1'') (demo_state cs ws [(7, Ap_consume demo_pending 2)] Pair_confirmed [] ch lg) =
     demo_state cs ws [(7, Ap_forget ''k1'')] Pair_consumed [(''d1'', demo_device)] ch (Registered ''k1'' demo_pending demo_device 2 # lg)"
    by (simp add: pair_exec_def approve_step_def approve_consume_def demo_state_def demo_session_def consume_pairing_def pair_device_def find_by_key_def
      insert_device_def ins dev pd dict_get_def dict_set_def goto_def note_event_def new_mobile_store_def Let_def)
  show "pair_exec demo_crypto demo_pairing (Approve_step 7 2 i) (demo_state [(''k1'', demo_pending)] ws [(7, Ap_forget ''k1'')] st ds ch lg) = demo_state [] ws [] st ds ch lg"
    by (simp add: pair_exec_def approve_step_def approve_forget_def demo_state_def dict_get_def dict_del_def leave_def)
  show "pair_exec demo_crypto demo_pairing (Open_connection ''w1'' ''c1'' (replicate 3 (CHR 0x00)) 5) (demo_state cs ws ap st ds [] lg) =
     demo_state cs ws ap st ds [(''w1'', demo_challenge)] (Challenged ''w1'' demo_challenge # lg)"
    unfolding pair_exec_def pair_cmd.case open_connection_def create_challenge_def demo_nonce_text
    by (simp add: demo_state_def purge_expired_def dict_get_def dict_set_def note_event_def Let_def demo_challenge_def)
      (simp add: demo_pairing_def)
qed

lemma demo_pair_log: "mp_log (fold (pair_exec demo_crypto demo_pairing) demo_pair_cmds new_pairing) =
    [Connected ''w1'' demo_challenge demo_proof demo_device 1 6, Challenged ''w1'' demo_challenge, Registered ''k1'' demo_pending demo_device 2,
     Approved demo_pending ''000000'', Claimed demo_claim ''000000'' 1, Offered ''k1'' demo_hash 100]"
proof -
  have start: "fold (pair_exec demo_crypto demo_pairing) (take 2 demo_pair_cmds) new_pairing =
      demo_state [] [demo_pending] [] Pair_pending [] [] [Claimed demo_claim ''000000'' 1, Offered ''k1'' demo_hash 100]"
    using demo_paired_eval by (simp add: demo_paired_def demo_state_def new_mobile_store_def)
  have cmds: "demo_pair_cmds = take 2 demo_pair_cmds @ [Claim_end demo_pending, Approve 7 ''k1'' ''000000'',
     Approve_step 7 2 ''d1'', Approve_step 7 2 ''d1'', Approve_step 7 2 ''d1'', Approve_step 7 2 ''d1'',
     Open_connection ''w1'' ''c1'' (replicate 3 (CHR 0x00)) 5, Prove ''w1'' demo_proof 6]" by (simp add: demo_pair_cmds_def)
  have sel: "cg_id demo_challenge = dp_challenge demo_proof" "cg_expires demo_challenge = 35" "dp_device demo_proof = ''d1''" "dv_name demo_device \<noteq> []"
    by (simp_all add: demo_challenge_def demo_proof_def demo_device_def)
  show ?thesis
    by (subst cmds, simp only: fold_append comp_apply start fold_simps demo_steps)
      (simp add: pair_exec_def prove_device_def demo_proof_check sel authenticate_def authenticate_device_def read_device_def device_from_row_def
        allocate_connection_epoch_def sql_max_def new_mobile_store_def dict_get_def note_event_def demo_state_def)
qed

theorem pairing_authorised_witness:
  "\<exists>p h x now. Offered ''k1'' h x \<in> {Offered ''k1'' demo_hash 100, Claimed demo_claim ''000000'' 1, Approved demo_pending ''000000''} \<and>
     claim_proof demo_crypto demo_pairing p h ''000000'' \<and> pc_key p = dv_key demo_device"
proof -
  have code: "pd_code demo_pending = ''000000''" by (simp add: demo_pending_def)
  have "mp_log (fold (pair_exec demo_crypto demo_pairing) demo_pair_cmds new_pairing) =
      [Connected ''w1'' demo_challenge demo_proof demo_device 1 6, Challenged ''w1'' demo_challenge] @ Registered ''k1'' demo_pending demo_device 2 #
      [Approved demo_pending ''000000'', Claimed demo_claim ''000000'' 1, Offered ''k1'' demo_hash 100]"
    by (simp add: demo_pair_log)
  from pairing_authorised[OF this] show ?thesis unfolding code by auto
qed

theorem connection_authentic_witness:
  "signed_by demo_crypto (dv_key demo_device) (dp_signature demo_proof) (proof_text demo_pairing demo_challenge demo_proof) \<and> (6 :: int) < cg_expires demo_challenge"
proof -
  have "mp_log (fold (pair_exec demo_crypto demo_pairing) demo_pair_cmds new_pairing) =
      [] @ Connected ''w1'' demo_challenge demo_proof demo_device 1 6 # [Challenged ''w1'' demo_challenge, Registered ''k1'' demo_pending demo_device 2,
       Approved demo_pending ''000000'', Claimed demo_claim ''000000'' 1, Offered ''k1'' demo_hash 100]"
    by (simp add: demo_pair_log)
  from connection_authentic[OF this] show ?thesis by simp
qed

end
