(* ===== verification/Mobile_Uploads.thy ===== *)
theory Mobile_Uploads
  imports Mobile_Store Canonical_Text
begin

text \<open>
  Attachments of the mobile gateway: the table \<open>mobile_attachments\<close> of
  src/infra/mobile_realtime/storage.py, and class \<open>AttachmentTransferService\<close> of attachments.py with the
  binary frames of chunks.

  A file is a text of bytes under its path.  The service holds a lock per attachment during an operation, so
  an operation is one step; a write that fails or a process that dies in the middle of one leaves the bytes
  that were confirmed and an arbitrary rest, which is an input (\<open>Some rest\<close>).  A disk may lose the end of a
  file at any time.  The digest of a content and the parser of a chunk header are parameters.
\<close>

subsection \<open>The table\<close>

datatype at_direction = Upload_dir | Outbound_dir
datatype at_state = At_transferring | At_ready | At_failed

record attachment =
  at_id :: string
  at_device :: "string option"
  at_session :: string
  at_dir :: at_direction
  at_name :: string
  at_type :: string
  at_size :: int
  at_sha :: string
  at_path :: string
  at_done :: int
  at_state :: at_state
  at_created :: int
  at_updated :: int

datatype at_error = At_request | At_state_error | At_value | At_runtime | At_os | At_integrity | At_no_device | At_store mobile_error

type_synonym at_rows = "(string, attachment) dict"

definition create_attachment :: "mobile_store \<Rightarrow> attachment \<Rightarrow> at_rows \<Rightarrow> at_error + at_rows" where
  "create_attachment st r rows =
     (if at_device r = Some [] then Inl At_value
      else if (case at_device r of None \<Rightarrow> False | Some d \<Rightarrow> dict_get (ms_devices st) d = None) then Inl (At_store Unknown_device)
      else if at_id r = [] \<or> at_session r = [] \<or> at_name r = [] \<or> at_type r = [] \<or> at_sha r = [] \<or> at_path r = [] then Inl At_value
      else if dict_get rows (at_id r) \<noteq> None \<or> at_size r \<le> 0 \<or> at_done r < 0 \<or> at_size r < at_done r then Inl At_integrity
      else Inr (dict_set rows (at_id r) r))"

definition read_attachment :: "string \<Rightarrow> at_rows \<Rightarrow> at_error + attachment option" where
  "read_attachment i rows = (if i = [] then Inl At_value else Inr (dict_get rows i))"

text \<open>An \<open>UPDATE\<close> of the upload of a device in a given state; exactly one row must change.\<close>

definition update_upload :: "string \<Rightarrow> string \<Rightarrow> (attachment \<Rightarrow> bool) \<Rightarrow> (attachment \<Rightarrow> attachment) \<Rightarrow> at_rows \<Rightarrow> at_error + (attachment \<times> at_rows)" where
  "update_upload d i P f rows =
     (if i = [] \<or> d = [] then Inl At_value
      else case dict_get rows i of
        None \<Rightarrow> Inl At_state_error
      | Some r \<Rightarrow> if at_device r = Some d \<and> at_dir r = Upload_dir \<and> P r then Inr (f r, dict_set rows i (f r)) else Inl At_state_error)"

definition fail_upload :: "string \<Rightarrow> string \<Rightarrow> int \<Rightarrow> at_rows \<Rightarrow> at_error + (attachment \<times> at_rows)" where
  "fail_upload d i now = update_upload d i (\<lambda>r. at_state r = At_transferring) (\<lambda>r. r\<lparr>at_state := At_failed, at_updated := now\<rparr>)"

definition reset_failed_upload :: "string \<Rightarrow> string \<Rightarrow> int \<Rightarrow> at_rows \<Rightarrow> at_error + (attachment \<times> at_rows)" where
  "reset_failed_upload d i now = update_upload d i (\<lambda>r. at_state r = At_failed)
     (\<lambda>r. r\<lparr>at_state := At_transferring, at_done := 0, at_updated := now\<rparr>)"

definition advance_attachment :: "string \<Rightarrow> string \<Rightarrow> int \<Rightarrow> int \<Rightarrow> int \<Rightarrow> at_rows \<Rightarrow> at_error + (attachment \<times> at_rows)" where
  "advance_attachment d i expected nxt now rows =
     (if nxt \<le> expected then Inl At_value
      else update_upload d i (\<lambda>r. at_state r = At_transferring \<and> at_done r = expected \<and> nxt \<le> at_size r)
        (\<lambda>r. r\<lparr>at_done := nxt, at_updated := now\<rparr>) rows)"

definition mark_attachment_ready :: "string \<Rightarrow> string \<Rightarrow> int \<Rightarrow> at_rows \<Rightarrow> at_error + (attachment \<times> at_rows)" where
  "mark_attachment_ready d i now = update_upload d i (\<lambda>r. at_state r = At_transferring \<and> at_done r = at_size r)
     (\<lambda>r. r\<lparr>at_state := At_ready, at_updated := now\<rparr>)"

definition require_row :: "string \<Rightarrow> (attachment \<Rightarrow> bool) \<Rightarrow> at_rows \<Rightarrow> at_error + attachment" where
  "require_row i P rows = (case read_attachment i rows of
     Inl e \<Rightarrow> Inl e
   | Inr None \<Rightarrow> Inl At_state_error
   | Inr (Some r) \<Rightarrow> if P r then Inr r else Inl At_state_error)"

definition require_upload_attachment :: "string \<Rightarrow> string \<Rightarrow> at_rows \<Rightarrow> at_error + attachment" where
  "require_upload_attachment d i = require_row i (\<lambda>r. at_dir r = Upload_dir \<and> at_device r = Some d \<and> at_state r = At_transferring)"

definition require_owned_upload :: "string \<Rightarrow> string \<Rightarrow> string \<Rightarrow> at_rows \<Rightarrow> at_error + attachment" where
  "require_owned_upload d s i = require_row i (\<lambda>r. at_dir r = Upload_dir \<and> at_device r = Some d \<and> at_session r = s)"

definition require_ready_upload :: "string \<Rightarrow> string \<Rightarrow> string \<Rightarrow> at_rows \<Rightarrow> at_error + attachment" where
  "require_ready_upload d s i = require_row i (\<lambda>r. at_dir r = Upload_dir \<and> at_device r = Some d \<and> at_session r = s \<and> at_state r = At_ready)"

definition require_ready_outbound :: "string \<Rightarrow> string \<Rightarrow> at_rows \<Rightarrow> at_error + attachment" where
  "require_ready_outbound s i = require_row i (\<lambda>r. at_dir r = Outbound_dir \<and> at_session r = s \<and> at_state r = At_ready)"

subsection \<open>Declared metadata\<close>

definition validate_filename :: "string \<Rightarrow> at_error + string" where
  "validate_filename name = (let safe = py_strip name in
     if safe = [] \<or> safe \<noteq> name \<or> length safe > 255 \<or> CHR ''/'' \<in> set safe \<or> CHR 0x5C \<in> set safe \<or> CHR 0x00 \<in> set safe \<or>
        list_ex (\<lambda>c. let n = of_char c :: nat in n < 32 \<or> n = 127) safe
     then Inl At_request else Inr safe)"

definition mime_char :: "char \<Rightarrow> bool" where
  "mime_char c \<longleftrightarrow> (let n = of_char c :: nat in (65 \<le> n \<and> n \<le> 90) \<or> (97 \<le> n \<and> n \<le> 122) \<or> (48 \<le> n \<and> n \<le> 57)) \<or> c \<in> set ''!#$&^_.+-''"

definition validate_content_type :: "string \<Rightarrow> at_error + string" where
  "validate_content_type t = (let kind = takeWhile mime_char t; rest = dropWhile mime_char t in
     if length t \<le> 255 \<and> kind \<noteq> [] \<and> rest \<noteq> [] \<and> hd rest = CHR ''/'' \<and> tl rest \<noteq> [] \<and> list_all mime_char (tl rest) then Inr t else Inl At_request)"

definition lower_char :: "char \<Rightarrow> char" where
  "lower_char c = (let n = of_char c :: nat in if 65 \<le> n \<and> n \<le> 90 then char_of (n + 32) else c)"

definition is_hex_char :: "char \<Rightarrow> bool" where
  "is_hex_char c \<longleftrightarrow> c \<in> set ''0123456789abcdef''"

subsection \<open>The transfer service\<close>

record upload_config =
  ug_max :: int
  ug_digest :: "string \<Rightarrow> string"

datatype upload_event = Restarted string | Accepted string string | Completed string

record upload_state =
  up_store :: mobile_store
  up_rows :: at_rows
  up_files :: "(string, string) dict"
  up_log :: "upload_event list"

definition note_upload :: "upload_event \<Rightarrow> upload_state \<Rightarrow> upload_state" where
  "note_upload e u = u\<lparr>up_log := e # up_log u\<rparr>"

definition put_file :: "string \<Rightarrow> string \<Rightarrow> upload_state \<Rightarrow> upload_state" where
  "put_file p x u = u\<lparr>up_files := dict_set (up_files u) p x\<rparr>"

text \<open>Where the process may die inside an operation: before the transaction that resets a failed row, or
  before the one that writes a row whose file is there.\<close>

datatype step_fault = No_fault | Dies_before_reset | Dies_before_row

definition max_chunk :: nat where
  "max_chunk = 128 * 1024"

definition progress_interval :: int where
  "progress_interval = 1024 * 1024"

text \<open>\<open>_reset_failed_upload\<close>: the file is emptied before the offset goes back to zero.\<close>

definition reset_upload :: "step_fault \<Rightarrow> attachment \<Rightarrow> int \<Rightarrow> upload_state \<Rightarrow> (at_error + attachment) \<times> upload_state" where
  "reset_upload fault r now u =
     (if dict_get (up_files u) (at_path r) = None then (Inl At_os, u)
      else let u1 = put_file (at_path r) [] u in
        if fault = Dies_before_row then (Inl At_os, u1)
        else (case at_device r of
           None \<Rightarrow> (Inl At_runtime, u1)
         | Some d \<Rightarrow> (case reset_failed_upload d (at_id r) now (up_rows u1) of
             Inl e \<Rightarrow> (Inl e, u1)
           | Inr (r', rows) \<Rightarrow> (Inr r', note_upload (Restarted (at_id r)) (u1\<lparr>up_rows := rows\<rparr>)))))"

definition reconcile_upload :: "step_fault \<Rightarrow> attachment \<Rightarrow> int \<Rightarrow> upload_state \<Rightarrow> (at_error + attachment) \<times> upload_state" where
  "reconcile_upload fault r now u =
     (if at_state r = At_failed then reset_upload fault r now u
      else if at_state r = At_ready then (Inr r, u)
      else case dict_get (up_files u) (at_path r) of
        None \<Rightarrow> (Inl At_os, u)
      | Some x \<Rightarrow>
          if int (length x) < at_done r then
            (case at_device r of
               None \<Rightarrow> (Inl At_runtime, u)
             | Some d \<Rightarrow> (case fail_upload d (at_id r) now (up_rows u) of
                 Inl e \<Rightarrow> (Inl e, u)
               | Inr (_, rows) \<Rightarrow> if fault = Dies_before_reset then (Inl At_os, u\<lparr>up_rows := rows\<rparr>)
                   else reset_upload fault r now (u\<lparr>up_rows := rows\<rparr>)))
          else if int (length x) > at_done r then (Inr r, put_file (at_path r) (take (nat (at_done r)) x) u)
          else (Inr r, u))"

definition same_upload :: "string \<Rightarrow> string \<Rightarrow> string \<Rightarrow> string \<Rightarrow> int \<Rightarrow> string \<Rightarrow> attachment \<Rightarrow> bool" where
  "same_upload d s name t nbytes sha r \<longleftrightarrow> at_dir r = Upload_dir \<and> at_device r = Some d \<and> at_session r = s \<and> at_name r = name \<and>
     at_type r = t \<and> at_size r = nbytes \<and> at_sha r = sha"

definition begin_upload_locked :: "step_fault \<Rightarrow> string \<Rightarrow> string \<Rightarrow> string \<Rightarrow> string \<Rightarrow> string \<Rightarrow> int \<Rightarrow> string \<Rightarrow> string \<Rightarrow> int \<Rightarrow> upload_state \<Rightarrow>
    (at_error + attachment) \<times> upload_state" where
  "begin_upload_locked fault d i s name t nbytes sha path now u = (case read_attachment i (up_rows u) of
     Inl e \<Rightarrow> (Inl e, u)
   | Inr (Some r) \<Rightarrow> if \<not> same_upload d s name t nbytes sha r then (Inl At_state_error, u) else reconcile_upload fault r now u
   | Inr None \<Rightarrow>
       if dict_get (up_files u) path \<noteq> None then (Inl At_os, u)
       else if fault = Dies_before_row then (Inl At_os, put_file path [] u)
       else let r = \<lparr>at_id = i, at_device = Some d, at_session = s, at_dir = Upload_dir, at_name = name, at_type = t, at_size = nbytes,
             at_sha = sha, at_path = path, at_done = 0, at_state = At_transferring, at_created = now, at_updated = now\<rparr> in
         (case create_attachment (up_store u) r (up_rows u) of
            Inl e \<Rightarrow> (Inl e, u)
          | Inr rows \<Rightarrow> (Inr r, note_upload (Restarted i) (put_file path [] (u\<lparr>up_rows := rows\<rparr>)))))"

definition begin_upload :: "upload_config \<Rightarrow> step_fault \<Rightarrow> string \<Rightarrow> string \<Rightarrow> string \<Rightarrow> string \<Rightarrow> string \<Rightarrow> int \<Rightarrow> string \<Rightarrow> string \<Rightarrow> int \<Rightarrow> upload_state \<Rightarrow>
    (at_error + attachment) \<times> upload_state" where
  "begin_upload C fault d i s name t nbytes sha path now u =
     (if nbytes < 1 \<or> ug_max C < nbytes then (Inl At_request, u)
      else case validate_filename name of
        Inl e \<Rightarrow> (Inl e, u)
      | Inr safe \<Rightarrow> (case validate_content_type t of
          Inl e \<Rightarrow> (Inl e, u)
        | Inr _ \<Rightarrow> let h = map lower_char sha in
            if length h \<noteq> 64 \<or> \<not> list_all is_hex_char h then (Inl At_request, u)
            else begin_upload_locked fault d i s safe t nbytes h path now u))"

text \<open>Writing a chunk at the confirmed offset; \<open>Some rest\<close> is a write that failed or a process that died
  before the offset was advanced, and left \<open>rest\<close> behind the confirmed bytes.\<close>

definition append_row :: "string \<Rightarrow> string \<Rightarrow> string option \<Rightarrow> int \<Rightarrow> attachment \<Rightarrow> upload_state \<Rightarrow> (at_error + (attachment \<times> bool)) \<times> upload_state" where
  "append_row d data fault now r u = (case dict_get (up_files u) (at_path r) of
     None \<Rightarrow> (Inl At_os, u)
   | Some x \<Rightarrow>
       if int (length x) < at_done r then (Inl At_runtime, u)
       else (case fault of
           Some rest \<Rightarrow> (Inl At_os, put_file (at_path r) (take (nat (at_done r)) x @ rest) u)
         | None \<Rightarrow> let u1 = put_file (at_path r) (take (nat (at_done r)) x @ data) u in
             (case advance_attachment d (at_id r) (at_done r) (at_done r + int (length data)) now (up_rows u) of
                Inl e \<Rightarrow> (Inl e, u1)
              | Inr (r', rows) \<Rightarrow>
                  (Inr (r', at_done r div progress_interval < at_done r' div progress_interval \<or> at_done r' = at_size r'),
                   note_upload (Accepted (at_id r) data) (u1\<lparr>up_rows := rows\<rparr>)))))"

definition append_chunk :: "string \<Rightarrow> string \<Rightarrow> int \<Rightarrow> string \<Rightarrow> string option \<Rightarrow> int \<Rightarrow> upload_state \<Rightarrow> (at_error + (attachment \<times> bool)) \<times> upload_state" where
  "append_chunk d i offset data fault now u =
     (if data = [] \<or> max_chunk < length data then (Inl At_request, u)
      else case require_upload_attachment d i (up_rows u) of
        Inl e \<Rightarrow> (Inl e, u)
      | Inr r \<Rightarrow> if offset \<noteq> at_done r then (Inl At_state_error, u)
          else if offset + int (length data) > at_size r then (Inl At_state_error, u)
          else append_row d data fault now r u)"

definition finish_row :: "upload_config \<Rightarrow> string \<Rightarrow> int \<Rightarrow> attachment \<Rightarrow> upload_state \<Rightarrow> (at_error + attachment) \<times> upload_state" where
  "finish_row C d now r u = (case dict_get (up_files u) (at_path r) of
     None \<Rightarrow> (Inl At_os, u)
   | Some x \<Rightarrow>
       if int (length x) \<noteq> at_size r then (Inl At_state_error, u)
       else if ug_digest C x \<noteq> at_sha r then
         (case fail_upload d (at_id r) now (up_rows u) of Inl e \<Rightarrow> (Inl e, u) | Inr (_, rows) \<Rightarrow> (Inl At_state_error, u\<lparr>up_rows := rows\<rparr>))
       else (case mark_attachment_ready d (at_id r) now (up_rows u) of
           Inl e \<Rightarrow> (Inl e, u)
         | Inr (r', rows) \<Rightarrow> (Inr r', note_upload (Completed (at_id r)) (u\<lparr>up_rows := rows\<rparr>))))"

definition finish_upload :: "upload_config \<Rightarrow> string \<Rightarrow> string \<Rightarrow> string \<Rightarrow> int \<Rightarrow> upload_state \<Rightarrow> (at_error + attachment) \<times> upload_state" where
  "finish_upload C d s i now u = (case require_owned_upload d s i (up_rows u) of
     Inl e \<Rightarrow> (Inl e, u)
   | Inr r \<Rightarrow> if at_state r = At_ready then (Inr r, u)
       else if at_state r \<noteq> At_transferring then (Inl At_state_error, u)
       else if at_done r \<noteq> at_size r then (Inl At_state_error, u)
       else finish_row C d now r u)"

fun require_all :: "string \<Rightarrow> string \<Rightarrow> string list \<Rightarrow> at_rows \<Rightarrow> at_error + attachment list" where
  "require_all d s [] rows = Inr []"
| "require_all d s (i # is) rows = (case require_ready_upload d s i rows of
     Inl e \<Rightarrow> Inl e
   | Inr r \<Rightarrow> (case require_all d s is rows of Inl e \<Rightarrow> Inl e | Inr rs \<Rightarrow> Inr (r # rs)))"

definition resolve_uploads :: "upload_config \<Rightarrow> string \<Rightarrow> string \<Rightarrow> string list \<Rightarrow> upload_state \<Rightarrow> at_error + string list" where
  "resolve_uploads C d s is u = (case require_all d s is (up_rows u) of
     Inl e \<Rightarrow> Inl e
   | Inr rs \<Rightarrow> if sum_list (map at_size rs) > ug_max C then Inl At_request else Inr (map at_path rs))"

text \<open>\<open>read_outbound_chunk\<close>; \<open>os.read\<close> returns \<open>n\<close> bytes, at most the limit and the rest of the file.\<close>

record outbound_chunk =
  oc_offset :: int
  oc_data :: string
  oc_eof :: bool

definition read_outbound_chunk :: "string \<Rightarrow> string \<Rightarrow> int \<Rightarrow> nat \<Rightarrow> upload_state \<Rightarrow> at_error + outbound_chunk" where
  "read_outbound_chunk s i offset n u =
     (if offset < 0 then Inl At_request
      else case require_ready_outbound s i (up_rows u) of
        Inl e \<Rightarrow> Inl e
      | Inr r \<Rightarrow> if at_size r \<le> offset then Inl At_request
          else (case dict_get (up_files u) (at_path r) of
              None \<Rightarrow> Inl At_os
            | Some x \<Rightarrow> if int (length x) \<noteq> at_size r then Inl At_runtime
                else let data = take (min n max_chunk) (drop (nat offset) x) in
                  Inr \<lparr>oc_offset = offset, oc_data = data, oc_eof = (offset + int (length data) = at_size r)\<rparr>))"

datatype upload_cmd = Begin_upload step_fault string string string string string int string string int
  | Append_chunk string string int string "string option" int | Finish_upload string string string int
  | Lose_end string nat | Store_cmd mobile_cmd

definition upload_exec :: "upload_config \<Rightarrow> upload_cmd \<Rightarrow> upload_state \<Rightarrow> upload_state" where
  "upload_exec C cmd u = (case cmd of
     Begin_upload fault d i s name t nbytes sha path now \<Rightarrow> snd (begin_upload C fault d i s name t nbytes sha path now u)
   | Append_chunk d i offset data fault now \<Rightarrow> snd (append_chunk d i offset data fault now u)
   | Finish_upload d s i now \<Rightarrow> snd (finish_upload C d s i now u)
   | Lose_end path n \<Rightarrow> (case dict_get (up_files u) path of None \<Rightarrow> u | Some x \<Rightarrow> put_file path (take n x) u)
   | Store_cmd m \<Rightarrow> u\<lparr>up_store := mobile_exec m (up_store u)\<rparr>)"

definition new_uploads :: "mobile_store \<Rightarrow> upload_state" where
  "new_uploads s = \<lparr>up_store = s, up_rows = [], up_files = [], up_log = []\<rparr>"

subsection \<open>The bytes that were confirmed\<close>

fun confirmed :: "string \<Rightarrow> upload_event list \<Rightarrow> string" where
  "confirmed i [] = []"
| "confirmed i (Restarted j # es) = (if j = i then [] else confirmed i es)"
| "confirmed i (Accepted j data # es) = (if j = i then confirmed i es @ data else confirmed i es)"
| "confirmed i (Completed j # es) = confirmed i es"

text \<open>A row and the file it names; the confirmed bytes are the beginning of the file as far as the disk kept it.\<close>

definition upload_row_ok :: "upload_config \<Rightarrow> string \<Rightarrow> string \<Rightarrow> attachment \<Rightarrow> bool" where
  "upload_row_ok C x body r \<longleftrightarrow> at_done r = int (length body) \<and> (at_state r \<noteq> At_failed \<longrightarrow> prefix (take (length body) x) body) \<and>
     (at_state r = At_ready \<longrightarrow> at_done r = at_size r \<and> ug_digest C body = at_sha r)"

text \<open>An outbound file is the beginning of a content with the registered size and digest.\<close>

definition outbound_row_ok :: "upload_config \<Rightarrow> string \<Rightarrow> attachment \<Rightarrow> bool" where
  "outbound_row_ok C x r \<longleftrightarrow> at_state r = At_ready \<and> at_device r = None \<and> at_done r = at_size r \<and>
     (\<exists>c. prefix x c \<and> int (length c) = at_size r \<and> ug_digest C c = at_sha r)"

definition row_ok :: "upload_config \<Rightarrow> (string, string) dict \<Rightarrow> string \<Rightarrow> attachment \<Rightarrow> bool" where
  "row_ok C files body r \<longleftrightarrow> 0 < at_size r \<and> at_size r \<le> ug_max C \<and> at_done r \<le> at_size r \<and>
     (\<exists>x. dict_get files (at_path r) = Some x \<and> (if at_dir r = Upload_dir then upload_row_ok C x body r else outbound_row_ok C x r))"

lemma upload_rowD:
  assumes "row_ok C files body r" "at_dir r = Upload_dir"
  obtains x where "dict_get files (at_path r) = Some x" "0 < at_size r" "at_size r \<le> ug_max C" "at_done r \<le> at_size r"
    "at_done r = int (length body)" "at_state r \<noteq> At_failed \<Longrightarrow> prefix (take (length body) x) body"
    "at_state r = At_ready \<Longrightarrow> at_done r = at_size r \<and> ug_digest C body = at_sha r"
  using assms by (auto simp: row_ok_def upload_row_ok_def)

lemma upload_rowI:
  assumes "at_dir r = Upload_dir" "0 < at_size r" "at_size r \<le> ug_max C" "at_done r \<le> at_size r" "dict_get files (at_path r) = Some x"
    "at_done r = int (length body)" "at_state r \<noteq> At_failed \<Longrightarrow> prefix (take (length body) x) body"
    "at_state r = At_ready \<Longrightarrow> at_done r = at_size r \<and> ug_digest C body = at_sha r"
  shows "row_ok C files body r"
  using assms by (auto simp: row_ok_def upload_row_ok_def)

definition uploads_ok :: "upload_config \<Rightarrow> upload_state \<Rightarrow> bool" where
  "uploads_ok C u \<longleftrightarrow> dict_ok (up_rows u) \<and>
     (\<forall>i r. dict_get (up_rows u) i = Some r \<longrightarrow> at_id r = i \<and> row_ok C (up_files u) (confirmed i (up_log u)) r) \<and>
     (\<forall>i j r q. dict_get (up_rows u) i = Some r \<longrightarrow> dict_get (up_rows u) j = Some q \<longrightarrow> at_path r = at_path q \<longrightarrow> i = j)"

lemma put_file_sel [simp]: "up_rows (put_file p x u) = up_rows u" "up_files (put_file p x u) = dict_set (up_files u) p x" "up_log (put_file p x u) = up_log u"
  "up_store (put_file p x u) = up_store u"
  by (simp_all add: put_file_def)

lemma note_upload_sel [simp]: "up_rows (note_upload e u) = up_rows u" "up_files (note_upload e u) = up_files u" "up_log (note_upload e u) = e # up_log u"
  "up_store (note_upload e u) = up_store u"
  by (simp_all add: note_upload_def)

lemma uploads_okD:
  assumes "uploads_ok C u" "dict_get (up_rows u) i = Some r"
  shows "at_id r = i" "row_ok C (up_files u) (confirmed i (up_log u)) r" "dict_get (up_rows u) j = Some q \<Longrightarrow> at_path r = at_path q \<Longrightarrow> i = j"
  using assms by (simp_all add: uploads_ok_def)

text \<open>A change of one row, of its file and of the events of its id.\<close>

lemma uploads_put:
  assumes "uploads_ok C u" "dict_get (up_rows u) i = Some r" "at_path r' = at_path r" "at_id r' = i"
    and "up_rows u' = dict_set (up_rows u) i r'"
    and "\<And>p. p \<noteq> at_path r \<Longrightarrow> dict_get (up_files u') p = dict_get (up_files u) p"
    and "\<And>j. j \<noteq> i \<Longrightarrow> confirmed j (up_log u') = confirmed j (up_log u)"
    and "row_ok C (up_files u') (confirmed i (up_log u')) r'"
  shows "uploads_ok C u'"
proof -
  have other: "at_path q \<noteq> at_path r" if "dict_get (up_rows u) j = Some q" "j \<noteq> i" for j q
    using uploads_okD(3)[OF assms(1,2) that(1)] that(2) by auto
  have "at_id q = j \<and> row_ok C (up_files u') (confirmed j (up_log u')) q" if q: "dict_get (up_rows u') j = Some q" for j q
  proof (cases "j = i")
    case False
    then have old: "dict_get (up_rows u) j = Some q" using q assms(5) by simp
    then show ?thesis using uploads_okD(1,2)[OF assms(1) old] other[of j q] assms(6)[of "at_path q"] assms(7)[of j] False by (auto simp: row_ok_def)
  qed (use q assms(4,5,8) in simp)
  moreover have "a = b" if "dict_get (up_rows u') a = Some x" "dict_get (up_rows u') b = Some y" "at_path x = at_path y" for a b x y
  proof (rule ccontr)
    assume ab: "a \<noteq> b"
    show False
    proof (cases "a = i \<or> b = i")
      case True
      then show ?thesis using that ab assms(3,5) other[of b y] other[of a x] by (auto split: if_splits)
    next
      case False
      then show ?thesis using that ab assms(5) uploads_okD(3)[OF assms(1), of a x b y] by simp
    qed
  qed
  moreover have "dict_ok (up_rows u')" using assms(1,5) by (simp add: uploads_ok_def)
  ultimately show ?thesis unfolding uploads_ok_def by blast
qed

subsection \<open>Every operation keeps the invariant\<close>

lemma update_upload_parts:
  assumes "update_upload d i P f rows = Inr (r', rows')"
  shows "\<exists>r. dict_get rows i = Some r \<and> at_device r = Some d \<and> at_dir r = Upload_dir \<and> P r \<and> r' = f r \<and> rows' = dict_set rows i (f r)"
  using assms by (auto simp: update_upload_def split: if_splits option.splits)

lemma uploads_put_row:
  assumes "uploads_ok C u" "dict_get (up_rows u) i = Some r" "at_path r' = at_path r" "at_id r' = i"
    and "row_ok C (up_files u) (confirmed i (up_log u)) r'"
  shows "uploads_ok C (u\<lparr>up_rows := dict_set (up_rows u) i r'\<rparr>)"
  by (rule uploads_put[OF assms(1-4)]) (use assms(5) in simp_all)

lemma uploads_put_file:
  assumes "uploads_ok C u" "dict_get (up_rows u) i = Some r" "at_dir r = Upload_dir"
    and "at_state r \<noteq> At_failed \<Longrightarrow> prefix (take (length (confirmed i (up_log u))) x) (confirmed i (up_log u))"
  shows "uploads_ok C (put_file (at_path r) x u)"
proof -
  have "dict_set (up_rows u) i r = up_rows u" using assms(2) by (auto simp: dict_set_def dict_get_def intro: update_triv)
  then have "up_rows (put_file (at_path r) x u) = dict_set (up_rows u) i r" by simp
  then show ?thesis
    by (rule uploads_put[OF assms(1,2) refl uploads_okD(1)[OF assms(1,2)]])
      (use uploads_okD(2)[OF assms(1,2)] assms(3,4) in \<open>auto simp: row_ok_def upload_row_ok_def outbound_row_ok_def\<close>)
qed

lemma fail_upload_ok:
  assumes "uploads_ok C u" "fail_upload d i now (up_rows u) = Inr (r', rows)"
  shows "uploads_ok C (u\<lparr>up_rows := rows\<rparr>)" "\<exists>r. dict_get (up_rows u) i = Some r \<and> dict_get rows i = Some (r\<lparr>at_state := At_failed, at_updated := now\<rparr>)"
proof -
  obtain r where r: "dict_get (up_rows u) i = Some r" "rows = dict_set (up_rows u) i (r\<lparr>at_state := At_failed, at_updated := now\<rparr>)" "at_dir r = Upload_dir"
    using update_upload_parts[OF assms(2)[unfolded fail_upload_def]] by blast
  have "uploads_ok C (u\<lparr>up_rows := dict_set (up_rows u) i (r\<lparr>at_state := At_failed, at_updated := now\<rparr>)\<rparr>)"
    by (rule uploads_put_row[OF assms(1) r(1)]) (use uploads_okD[OF assms(1) r(1)] r(3) in \<open>auto simp: row_ok_def upload_row_ok_def outbound_row_ok_def\<close>)
  then show "uploads_ok C (u\<lparr>up_rows := rows\<rparr>)" by (simp add: r(2))
  show "\<exists>r. dict_get (up_rows u) i = Some r \<and> dict_get rows i = Some (r\<lparr>at_state := At_failed, at_updated := now\<rparr>)" using r by simp
qed

lemma reset_upload_ok:
  assumes "uploads_ok C u" "dict_get (up_rows u) i = Some q" "at_path q = at_path r" "at_id r = i" "at_state q = At_failed" "at_dir q = Upload_dir"
  shows "uploads_ok C (snd (reset_upload fault r now u))"
proof -
  have F: "uploads_ok C (put_file (at_path r) [] u)"
    using uploads_put_file[OF assms(1,2,6), of "[]"] assms(3) by simp
  have "uploads_ok C (note_upload (Restarted i) (put_file (at_path r) [] u\<lparr>up_rows := rows\<rparr>))"
    if "reset_failed_upload d i now (up_rows u) = Inr (r', rows)" for d r' rows
  proof -
    have rows: "rows = dict_set (up_rows u) i (q\<lparr>at_state := At_transferring, at_done := 0, at_updated := now\<rparr>)"
      using update_upload_parts[OF that[unfolded reset_failed_upload_def]] assms(2) by auto
    show ?thesis
      by (rule uploads_put[OF assms(1,2), where r' = "q\<lparr>at_state := At_transferring, at_done := 0, at_updated := now\<rparr>"])
        (use uploads_okD[OF assms(1,2)] rows assms(3,6) in \<open>auto simp: row_ok_def upload_row_ok_def outbound_row_ok_def\<close>)
  qed
  then show ?thesis using assms(1,4) F by (auto simp: reset_upload_def Let_def split: option.split sum.split)
qed

lemma reconcile_ok:
  assumes "uploads_ok C u" "dict_get (up_rows u) i = Some r" and dir: "at_dir r = Upload_dir"
  shows "uploads_ok C (snd (reconcile_upload fault r now u))"
proof -
  have id: "at_id r = i" by (rule uploads_okD(1)[OF assms(1,2)])
  consider (failed) "at_state r = At_failed" | (ready) "at_state r = At_ready" | (missing) "at_state r = At_transferring" "dict_get (up_files u) (at_path r) = None"
    | (present) x where "at_state r = At_transferring" "dict_get (up_files u) (at_path r) = Some x"
    by (cases "at_state r"; cases "dict_get (up_files u) (at_path r)") auto
  then show ?thesis
  proof cases
    case failed
    then show ?thesis using reset_upload_ok[OF assms(1,2) refl id failed dir] by (simp add: reconcile_upload_def)
  next
    case ready
    then show ?thesis using assms(1) by (simp add: reconcile_upload_def)
  next
    case missing
    then show ?thesis using assms(1) by (simp add: reconcile_upload_def)
  next
    case present
    have k: "at_done r = int (length (confirmed i (up_log u)))" "prefix (take (length (confirmed i (up_log u))) x) (confirmed i (up_log u))"
      using uploads_okD(2)[OF assms(1,2)] present dir by (auto simp: row_ok_def upload_row_ok_def outbound_row_ok_def)
    have "uploads_ok C (snd (reset_upload fault r now (u\<lparr>up_rows := rows\<rparr>))) \<and> uploads_ok C (u\<lparr>up_rows := rows\<rparr>)"
      if "fail_upload d i now (up_rows u) = Inr (r', rows)" for d r' rows
    proof -
      have "dict_get rows i = Some (r\<lparr>at_state := At_failed, at_updated := now\<rparr>)" using fail_upload_ok(2)[OF assms(1) that] assms(2) by simp
      then show ?thesis using reset_upload_ok[OF fail_upload_ok(1)[OF assms(1) that], of i "r\<lparr>at_state := At_failed, at_updated := now\<rparr>" r] id dir
          fail_upload_ok(1)[OF assms(1) that] by simp
    qed
    moreover have "uploads_ok C (put_file (at_path r) (take (nat (at_done r)) x) u)"
      using uploads_put_file[OF assms(1,2) dir, of "take (nat (at_done r)) x"] k by simp
    ultimately show ?thesis using present assms(1) id by (auto simp: reconcile_upload_def split: option.split sum.split)
  qed
qed

lemma row_ok_other_file: "row_ok C files body r \<Longrightarrow> dict_get files path = None \<Longrightarrow> row_ok C (dict_set files path x) body r"
  by (auto simp: row_ok_def)

lemma put_fresh_file: "uploads_ok C u \<Longrightarrow> dict_get (up_files u) path = None \<Longrightarrow> uploads_ok C (put_file path x u)"
  by (auto simp: uploads_ok_def intro: row_ok_other_file)

lemma create_upload_ok:
  assumes "uploads_ok C u" "dict_get (up_rows u) (at_id r) = None" "dict_get (up_files u) (at_path r) = None"
    and "at_dir r = Upload_dir" "0 < at_size r" "at_size r \<le> ug_max C" "at_done r = 0" "at_state r = At_transferring"
  shows "uploads_ok C (note_upload (Restarted (at_id r)) (put_file (at_path r) [] (u\<lparr>up_rows := dict_set (up_rows u) (at_id r) r\<rparr>)))"
proof -
  have path: "at_path q \<noteq> at_path r" if "dict_get (up_rows u) j = Some q" for j q
    using uploads_okD(2)[OF assms(1) that] assms(3) by (auto simp: row_ok_def)
  have old: "at_id q = j \<and> row_ok C (dict_set (up_files u) (at_path r) []) (confirmed j (up_log u)) q" if "dict_get (up_rows u) j = Some q" for j q
    using uploads_okD(1,2)[OF assms(1) that] row_ok_other_file assms(3) by blast
  have new: "row_ok C (dict_set (up_files u) (at_path r) []) [] r" using assms(4-8) by (simp add: row_ok_def upload_row_ok_def)
  let ?rows = "dict_set (up_rows u) (at_id r) r"
  have "at_id q = j \<and> row_ok C (dict_set (up_files u) (at_path r) []) (confirmed j (Restarted (at_id r) # up_log u)) q" if "dict_get ?rows j = Some q" for j q
    using that old[of j q] new by (auto split: if_splits)
  moreover have "a = b" if "dict_get ?rows a = Some x" "dict_get ?rows b = Some y" "at_path x = at_path y" for a b x y
    using that path[of a x] path[of b y] uploads_okD(3)[OF assms(1), of a x b y] by (auto split: if_splits)
  moreover have "dict_ok ?rows" using assms(1) by (simp add: uploads_ok_def)
  moreover have sel: "up_rows (u\<lparr>up_rows := ?rows\<rparr>) = ?rows" "up_files (u\<lparr>up_rows := ?rows\<rparr>) = up_files u" "up_log (u\<lparr>up_rows := ?rows\<rparr>) = up_log u"
    by simp_all
  ultimately show ?thesis unfolding uploads_ok_def note_upload_sel put_file_sel sel by blast
qed

lemma begin_ok:
  assumes "uploads_ok C u"
  shows "uploads_ok C (snd (begin_upload C fault d i s name t nbytes sha path now u))"
proof -
  have "uploads_ok C (snd (begin_upload_locked fault d i s n t nbytes h path now u))" if "1 \<le> nbytes" "nbytes \<le> ug_max C" for n h
  proof (cases "read_attachment i (up_rows u)")
    case (Inr res)
    show ?thesis
    proof (cases res)
      case (Some r)
      then have "dict_get (up_rows u) i = Some r" using Inr by (simp add: read_attachment_def split: if_splits)
      then show ?thesis using Inr Some reconcile_ok[OF assms] assms by (simp add: begin_upload_locked_def same_upload_def)
    next
      case None
      then have new: "dict_get (up_rows u) i = None" using Inr by (simp add: read_attachment_def split: if_splits)
      define r where "r = \<lparr>at_id = i, at_device = Some d, at_session = s, at_dir = Upload_dir, at_name = n, at_type = t, at_size = nbytes,
             at_sha = h, at_path = path, at_done = 0, at_state = At_transferring, at_created = now, at_updated = now\<rparr>"
      have "uploads_ok C (note_upload (Restarted i) (put_file path [] (u\<lparr>up_rows := rows\<rparr>)))"
        if "create_attachment (up_store u) r (up_rows u) = Inr rows" "dict_get (up_files u) path = None" for rows
      proof -
        have rows: "rows = dict_set (up_rows u) i r" using that(1) by (auto simp: create_attachment_def r_def split: if_splits)
        have sel: "at_id r = i" "at_path r = path" "at_dir r = Upload_dir" "at_size r = nbytes" "at_done r = 0" "at_state r = At_transferring"
          by (simp_all add: r_def)
        show ?thesis using create_upload_ok[OF assms, of r] new that(2) \<open>1 \<le> nbytes\<close> \<open>nbytes \<le> ug_max C\<close> unfolding rows sel by simp
      qed
      then show ?thesis using Inr None assms put_fresh_file[OF assms]
        by (simp add: begin_upload_locked_def Let_def r_def[symmetric] split: sum.split)
    qed
  qed (use assms in \<open>simp add: begin_upload_locked_def\<close>)
  then show ?thesis using assms by (simp add: begin_upload_def Let_def split: sum.split)
qed

lemma require_row_parts: "require_row i P rows = Inr r \<Longrightarrow> dict_get rows i = Some r \<and> P r"
  by (auto simp: require_row_def read_attachment_def split: if_splits option.splits)

lemma append_row_ok:
  assumes "uploads_ok C u" "dict_get (up_rows u) i = Some r" "at_state r = At_transferring" and dir: "at_dir r = Upload_dir"
  shows "uploads_ok C (snd (append_row d data fault now r u))"
proof -
  define body where "body = confirmed i (up_log u)"
  note row = uploads_okD[OF assms(1,2)]
  obtain x where x: "dict_get (up_files u) (at_path r) = Some x" "prefix (take (length body) x) body" and len: "at_done r = int (length body)"
    using row(2) assms(3) dir by (auto simp: row_ok_def upload_row_ok_def outbound_row_ok_def body_def)
  show ?thesis
  proof (cases "int (length x) < at_done r")
    case True
    then show ?thesis using assms(1) x(1) by (simp add: append_row_def)
  next
    case False
    then have full: "take (length body) x = body" using x(2) len by (simp add: prefix_def) (metis append_eq_conv_conj length_take min.absorb2 not_less of_nat_less_iff take_all_iff le_refl)
    have put: "uploads_ok C (put_file (at_path r) (body @ z) u)" for z
      using uploads_put_file[OF assms(1,2) dir, of "body @ z"] by (simp add: body_def)
    have "uploads_ok C (note_upload (Accepted i data) (put_file (at_path r) (body @ data) u\<lparr>up_rows := rows\<rparr>))"
      if "advance_attachment d i (at_done r) (at_done r + int (length data)) now (up_rows u) = Inr (r', rows)" for r' rows
    proof -
      have a: "rows = dict_set (up_rows u) i r'" "r' = r\<lparr>at_done := at_done r + int (length data), at_updated := now\<rparr>" "at_done r + int (length data) \<le> at_size r"
        using update_upload_parts[of d i _ _ "up_rows u" r' rows] that assms(2) by (auto simp: advance_attachment_def split: if_splits)
      show ?thesis
        by (rule uploads_put[OF assms(1,2), where r' = r']) (use a row assms(3) dir len in \<open>auto simp: row_ok_def upload_row_ok_def outbound_row_ok_def body_def\<close>)
    qed
    then show ?thesis using assms(1) x(1) False full len put row(1)
      by (simp add: append_row_def Let_def split: option.split sum.split)
  qed
qed

lemma append_ok:
  assumes "uploads_ok C u"
  shows "uploads_ok C (snd (append_chunk d i offset data fault now u))"
proof (cases "require_upload_attachment d i (up_rows u)")
  case (Inr r)
  then have "dict_get (up_rows u) i = Some r" "at_state r = At_transferring" "at_dir r = Upload_dir"
    using require_row_parts by (auto simp: require_upload_attachment_def)
  then show ?thesis using Inr assms append_row_ok[OF assms] by (simp add: append_chunk_def)
qed (use assms in \<open>simp add: append_chunk_def\<close>)

lemma finish_ok:
  assumes "uploads_ok C u"
  shows "uploads_ok C (snd (finish_upload C d s i now u))"
proof (cases "require_owned_upload d s i (up_rows u)")
  case (Inr r)
  then have r: "dict_get (up_rows u) i = Some r" "at_dir r = Upload_dir" using require_row_parts by (auto simp: require_owned_upload_def)
  note row = uploads_okD[OF assms r(1)]
  define body where "body = confirmed i (up_log u)"
  show ?thesis
  proof (cases "at_state r = At_transferring \<and> at_done r = at_size r")
    case True
    obtain x where x: "dict_get (up_files u) (at_path r) = Some x" "prefix (take (length body) x) body" and len: "at_done r = int (length body)"
      using row(2) True r(2) by (auto simp: row_ok_def upload_row_ok_def outbound_row_ok_def body_def)
    have "uploads_ok C (note_upload (Completed i) (u\<lparr>up_rows := rows\<rparr>))"
      if m: "mark_attachment_ready d i now (up_rows u) = Inr (r', rows)" "int (length x) = at_size r" "ug_digest C x = at_sha r" for r' rows
    proof -
      have "length x = length body" using m(2) True len by simp
      then have body: "x = body" using x(2) by (metis not_equal_is_parallel parallel_def take_all_iff le_refl)
      have a: "rows = dict_set (up_rows u) i (r\<lparr>at_state := At_ready, at_updated := now\<rparr>)"
        using update_upload_parts[OF m(1)[unfolded mark_attachment_ready_def]] r(1) by auto
      show ?thesis
        by (rule uploads_put[OF assms r(1), where r' = "r\<lparr>at_state := At_ready, at_updated := now\<rparr>"])
          (use a row True m(3) body r(2) in \<open>auto simp: row_ok_def upload_row_ok_def outbound_row_ok_def body_def\<close>)
    qed
    moreover have "uploads_ok C (u\<lparr>up_rows := rows\<rparr>)" if "fail_upload d i now (up_rows u) = Inr (r', rows)" for r' rows
      by (rule fail_upload_ok(1)[OF assms that])
    ultimately show ?thesis using Inr True x(1) assms row(1)
      by (auto simp: finish_upload_def finish_row_def split: sum.split)
  qed (use Inr assms in \<open>auto simp: finish_upload_def\<close>)
qed (use assms in \<open>simp add: finish_upload_def\<close>)

lemma lose_end_ok:
  assumes "uploads_ok C u" "dict_get (up_files u) path = Some x"
  shows "uploads_ok C (put_file path (take n x) u)"
proof -
  have "row_ok C (dict_set (up_files u) path (take n x)) body r" if "row_ok C (up_files u) body r" for body r
  proof (cases "at_path r = path")
    case True
    have "prefix (take k (take n x)) body" if "prefix (take k x) body" for k
      using that by (metis prefix_order.trans take_is_prefix take_take min.commute)
    moreover have "prefix (take n x) c" if "prefix x c" for c
      using that take_is_prefix prefix_order.trans by blast
    then have "outbound_row_ok C (take n x) r" if "outbound_row_ok C x r" using that unfolding outbound_row_ok_def by blast
    ultimately show ?thesis using that assms(2) True by (auto simp: row_ok_def upload_row_ok_def)
  qed (use that in \<open>auto simp: row_ok_def\<close>)
  then show ?thesis using assms(1) by (auto simp: uploads_ok_def)
qed

lemma upload_exec_ok: "uploads_ok C u \<Longrightarrow> uploads_ok C (upload_exec C cmd u)"
  by (cases cmd) (auto simp: upload_exec_def begin_ok append_ok finish_ok lose_end_ok split: option.split, auto simp: uploads_ok_def)

lemma upload_run_ok: "uploads_ok C u \<Longrightarrow> uploads_ok C (fold (upload_exec C) cs u)"
  by (induction cs arbitrary: u) (simp_all add: upload_exec_ok)

lemma new_uploads_ok: "uploads_ok C (new_uploads s)"
  by (simp add: uploads_ok_def new_uploads_def)

text \<open>
  C29. An upload holds the confirmed chunks, in order, and nothing else.  Whatever uploads run in whatever
  order, with writes that fail half-way, a process that dies inside an operation and a disk that loses the
  end of files: the offset of an upload is the number of bytes confirmed since it last started over and never
  exceeds the declared size, the file of an upload that did not fail begins with these bytes as far as the
  disk kept them, and a ready upload has the declared size and the declared digest of the confirmed bytes.
\<close>

theorem upload_assembled:
  assumes "u = fold (upload_exec C) cs (new_uploads s)" "dict_get (up_rows u) i = Some r" "at_dir r = Upload_dir"
  shows "at_done r = int (length (confirmed i (up_log u))) \<and> at_done r \<le> at_size r \<and> at_size r \<le> ug_max C \<and>
    (\<exists>x. dict_get (up_files u) (at_path r) = Some x \<and>
      (at_state r \<noteq> At_failed \<longrightarrow> prefix (take (nat (at_done r)) x) (confirmed i (up_log u)))) \<and>
    (at_state r = At_ready \<longrightarrow> at_done r = at_size r \<and> ug_digest C (confirmed i (up_log u)) = at_sha r)"
  using uploads_okD(2)[OF upload_run_ok[OF new_uploads_ok], of C cs s i r] assms by (auto simp: row_ok_def upload_row_ok_def outbound_row_ok_def)

subsection \<open>An upload completes\<close>

fun send_chunks :: "string \<Rightarrow> string \<Rightarrow> int \<Rightarrow> int \<Rightarrow> string list \<Rightarrow> upload_state \<Rightarrow> at_error + upload_state" where
  "send_chunks d i now offset [] u = Inr u"
| "send_chunks d i now offset (p # ps) u = (case append_chunk d i offset p None now u of
     (Inl e, _) \<Rightarrow> Inl e | (Inr _, u') \<Rightarrow> send_chunks d i now (offset + int (length p)) ps u')"

definition chunk_ok :: "string \<Rightarrow> bool" where
  "chunk_ok p \<longleftrightarrow> p \<noteq> [] \<and> length p \<le> max_chunk"

definition sending :: "string \<Rightarrow> string \<Rightarrow> string \<Rightarrow> string \<Rightarrow> string \<Rightarrow> nat \<Rightarrow> upload_state \<Rightarrow> bool" where
  "sending d s i h c k u \<longleftrightarrow> k \<le> length c \<and> (\<exists>r. dict_get (up_rows u) i = Some r \<and> at_id r = i \<and> at_dir r = Upload_dir \<and> at_device r = Some d \<and> at_session r = s \<and>
     at_size r = int (length c) \<and> at_sha r = h \<and> at_state r = At_transferring \<and> at_done r = int k \<and> dict_get (up_files u) (at_path r) = Some (take k c))"

lemma send_one:
  assumes "sending d s i h c k u" "chunk_ok p" "take (length p) (drop k c) = p" "i \<noteq> []" "d \<noteq> []"
  shows "\<exists>r u'. append_chunk d i (int k) p None now u = (Inr r, u') \<and> sending d s i h c (k + length p) u'"
proof -
  obtain r where r: "dict_get (up_rows u) i = Some r" "at_id r = i" "at_dir r = Upload_dir" "at_device r = Some d" "at_session r = s"
      "at_size r = int (length c)" "at_sha r = h" "at_state r = At_transferring" "at_done r = int k" "dict_get (up_files u) (at_path r) = Some (take k c)"
    and k: "k \<le> length c"
    using assms(1) unfolding sending_def by blast
  have len: "k + length p \<le> length c" using arg_cong[OF assms(3), of length] k by simp
  have content: "take k c @ p = take (k + length p) c" using assms(3) by (simp add: take_add)
  have "p \<noteq> []" "length p \<le> max_chunk" using assms(2) by (auto simp: chunk_ok_def)
  then show ?thesis using r k len content assms(4,5)
    by (simp add: append_chunk_def require_upload_attachment_def require_row_def read_attachment_def append_row_def advance_attachment_def
      update_upload_def Let_def sending_def)
qed

lemma send_all:
  assumes "sending d s i h c k u" "concat ps = drop k c" "list_all chunk_ok ps" "i \<noteq> []" "d \<noteq> []"
  shows "\<exists>u'. send_chunks d i now (int k) ps u = Inr u' \<and> sending d s i h c (length c) u'"
  using assms
proof (induction ps arbitrary: k u)
  case Nil
  then have "k = length c" by (simp add: sending_def)
  then show ?case using Nil by simp
next
  case (Cons p ps)
  have p: "take (length p) (drop k c) = p" "concat ps = drop (k + length p) c"
    using Cons.prems(2) by (metis append_eq_conv_conj concat.simps(2), metis append_eq_conv_conj concat.simps(2) drop_drop add.commute)
  obtain r u1 where u1: "append_chunk d i (int k) p None now u = (Inr r, u1)" "sending d s i h c (k + length p) u1"
    using send_one[OF Cons.prems(1) _ p(1) Cons.prems(4,5), of now] Cons.prems(3) by auto
  then show ?case using Cons.IH[OF u1(2) p(2)] Cons.prems(3-5) by simp
qed

lemma finish_sent:
  assumes "sending d s i (ug_digest C c) c (length c) u" "i \<noteq> []" "d \<noteq> []"
  shows "\<exists>r u'. finish_upload C d s i now u = (Inr r, u') \<and> at_state r = At_ready \<and> dict_get (up_files u') (at_path r) = Some c"
proof -
  obtain r where r: "dict_get (up_rows u) i = Some r" "at_id r = i" "at_dir r = Upload_dir" "at_device r = Some d" "at_session r = s"
      "at_size r = int (length c)" "at_sha r = ug_digest C c" "at_state r = At_transferring" "at_done r = int (length c)" "dict_get (up_files u) (at_path r) = Some c"
    using assms(1) by (auto simp: sending_def)
  then show ?thesis using assms(2,3)
    by (simp add: finish_upload_def require_owned_upload_def require_row_def read_attachment_def finish_row_def mark_attachment_ready_def update_upload_def)
qed

text \<open>What a client may find when it starts or resumes the upload of \<open>c\<close>.\<close>

definition resumable :: "string \<Rightarrow> string \<Rightarrow> string \<Rightarrow> string \<Rightarrow> string \<Rightarrow> string \<Rightarrow> string \<Rightarrow> string \<Rightarrow> upload_state \<Rightarrow> bool" where
  "resumable d i s name t c h path u \<longleftrightarrow> (case dict_get (up_rows u) i of
     None \<Rightarrow> dict_get (up_files u) path = None \<and> dict_get (ms_devices (up_store u)) d \<noteq> None \<and> s \<noteq> [] \<and> path \<noteq> []
   | Some r \<Rightarrow> same_upload d s name t (int (length c)) h r \<and> (at_state r \<noteq> At_failed \<longrightarrow> prefix (confirmed i (up_log u)) c))"

lemma reset_sending:
  assumes "dict_get (up_rows u) i = Some q" "at_state q = At_failed" "same_upload d s name t (int (length c)) h q" "at_id q = i"
    and "dict_get (up_files u) (at_path q) = Some x" "at_path r = at_path q" "at_id r = i" "at_device r = Some d" "i \<noteq> []" "d \<noteq> []"
  shows "\<exists>r' u'. reset_upload No_fault r now u = (Inr r', u') \<and> at_state r' = At_transferring \<and> at_done r' = 0 \<and> sending d s i h c 0 u'"
  using assms by (simp add: reset_upload_def reset_failed_upload_def update_upload_def Let_def sending_def same_upload_def)

lemma begin_sending:
  assumes "uploads_ok C u" "resumable d i s name t c h path u" "i \<noteq> []" "d \<noteq> []" "c \<noteq> []" "name \<noteq> []" "t \<noteq> []" "h \<noteq> []"
  shows "\<exists>r u'. begin_upload_locked No_fault d i s name t (int (length c)) h path now u = (Inr r, u') \<and>
    0 \<le> at_done r \<and> (at_state r = At_ready \<or> sending d s i h c (nat (at_done r)) u')"
proof (cases "dict_get (up_rows u) i")
  case None
  then show ?thesis using assms(2-8)
    by (auto simp: begin_upload_locked_def read_attachment_def resumable_def Let_def create_attachment_def sending_def)
next
  case (Some r)
  note row = uploads_okD[OF assms(1) Some]
  have same: "same_upload d s name t (int (length c)) h r" using assms(2) Some by (simp add: resumable_def)
  obtain x where x: "dict_get (up_files u) (at_path r) = Some x" using row(2) by (auto simp: row_ok_def)
  have start: "begin_upload_locked No_fault d i s name t (int (length c)) h path now u = reconcile_upload No_fault r now u"
    using Some same assms(3) by (simp add: begin_upload_locked_def read_attachment_def)
  have dev: "at_device r = Some d" using same by (simp add: same_upload_def)
  consider (failed) "at_state r = At_failed" | (ready) "at_state r = At_ready"
    | (short) "at_state r = At_transferring" "int (length x) < at_done r" | (full) "at_state r = At_transferring" "at_done r \<le> int (length x)"
    by (cases "at_state r"; cases "int (length x) < at_done r") (simp_all add: not_less)
  then show ?thesis
  proof cases
    case failed
    then show ?thesis using reset_sending[OF Some failed same row(1) x refl row(1) dev assms(3,4), of now] start by (auto simp: reconcile_upload_def)
  next
    case ready
    then show ?thesis using start row(2) same by (auto simp: reconcile_upload_def row_ok_def upload_row_ok_def same_upload_def)
  next
    case short
    define q where "q = r\<lparr>at_state := At_failed, at_updated := now\<rparr>"
    define u1 where "u1 = u\<lparr>up_rows := dict_set (up_rows u) i q\<rparr>"
    have "fail_upload d i now (up_rows u) = Inr (q, dict_set (up_rows u) i q)"
      using Some short same assms(3,4) by (simp add: fail_upload_def update_upload_def q_def same_upload_def)
    then have "reconcile_upload No_fault r now u = reset_upload No_fault r now u1"
      using short x dev row(1) by (simp add: reconcile_upload_def u1_def)
    moreover have "\<exists>r' u'. reset_upload No_fault r now u1 = (Inr r', u') \<and> at_state r' = At_transferring \<and> at_done r' = 0 \<and> sending d s i h c 0 u'"
      by (rule reset_sending[where q = q]) (use same row(1) x dev assms(3,4) in \<open>auto simp: u1_def q_def same_upload_def\<close>)
    ultimately show ?thesis using start by auto
  next
    case full
    define body where "body = confirmed i (up_log u)"
    have k: "at_done r = int (length body)" "prefix (take (length body) x) body" "at_done r \<le> at_size r"
      using row(2) full x same by (auto simp: row_ok_def upload_row_ok_def same_upload_def body_def)
    have body: "take (length body) x = body" using k(1,2) full(2) by (metis append_eq_conv_conj length_take min.absorb2 nat_int nat_le_iff of_nat_le_iff prefix_def take_all_iff le_refl)
    have "prefix body c" using assms(2) Some full by (simp add: resumable_def body_def)
    then have c: "body = take (length body) c" by (auto simp: prefix_def)
    have len: "length body \<le> length c" using \<open>prefix body c\<close> by (rule prefix_length_le)
    have "sending d s i h c (length body) (put_file (at_path r) (take (length body) x) u)"
      using Some row(1) same full k(1) len body c by (auto simp: sending_def same_upload_def)
    moreover have "sending d s i h c (length body) u" if "length x = length body"
      using Some row(1) same full k(1) len body c that x by (auto simp: sending_def same_upload_def)
    ultimately show ?thesis using start full x k(1)
      by (cases "int (length x) = at_done r") (auto simp: reconcile_upload_def)
  qed
qed

text \<open>
  C30. An interrupted upload can be completed.  Take any reachable state in which the client starts the upload
  of a content, or had sent only bytes of it, with valid declarations and the right digest; then beginning
  the upload succeeds, and the upload is ready or, whatever way the client cuts the bytes from the returned
  offset on into chunks of allowed size, sending them and finishing succeeds, the upload is ready and its
  file is the content.
\<close>

theorem upload_completes:
  assumes "u = fold (upload_exec C) cs (new_uploads st)" "resumable d i s name t c (map lower_char sha) path u"
    and "c \<noteq> []" "int (length c) \<le> ug_max C" "ug_digest C c = map lower_char sha" "length sha = 64" "list_all is_hex_char (map lower_char sha)"
    and "validate_filename name = Inr name" "validate_content_type t = Inr t" "i \<noteq> []" "d \<noteq> []"
  shows "\<exists>r u1. begin_upload C No_fault d i s name t (int (length c)) sha path now u = (Inr r, u1) \<and>
    (at_state r = At_ready \<or>
     (\<forall>ps. concat ps = drop (nat (at_done r)) c \<longrightarrow> list_all chunk_ok ps \<longrightarrow>
        (\<exists>u2 r2 u3. send_chunks d i now (at_done r) ps u1 = Inr u2 \<and> finish_upload C d s i now u2 = (Inr r2, u3) \<and>
           at_state r2 = At_ready \<and> dict_get (up_files u3) (at_path r2) = Some c)))"
proof -
  have ok: "uploads_ok C u" unfolding assms(1) by (rule upload_run_ok[OF new_uploads_ok])
  have ne: "name \<noteq> []" "t \<noteq> []" "map lower_char sha \<noteq> []"
    using assms(6,8,9) by (auto simp: validate_filename_def validate_content_type_def Let_def py_strip_def)
  have "1 \<le> int (length c)" using assms(3) by (simp add: Suc_le_eq)
  then have "begin_upload C No_fault d i s name t (int (length c)) sha path now u = begin_upload_locked No_fault d i s name t (int (length c)) (map lower_char sha) path now u"
    using assms(3,4,6-9) by (simp add: begin_upload_def)
  then obtain r u1 where r: "begin_upload C No_fault d i s name t (int (length c)) sha path now u = (Inr r, u1)"
      "0 \<le> at_done r" "at_state r = At_ready \<or> sending d s i (map lower_char sha) c (nat (at_done r)) u1"
    using begin_sending[OF ok assms(2,10,11,3) ne, of now] by auto
  have fin: "\<exists>u2 r2 u3. send_chunks d i now (at_done r) ps u1 = Inr u2 \<and> finish_upload C d s i now u2 = (Inr r2, u3) \<and>
           at_state r2 = At_ready \<and> dict_get (up_files u3) (at_path r2) = Some c"
    if s: "sending d s i (map lower_char sha) c (nat (at_done r)) u1" "0 \<le> at_done r" and ps: "concat ps = drop (nat (at_done r)) c" "list_all chunk_ok ps" for ps
  proof -
    obtain u2 where u2: "send_chunks d i now (int (nat (at_done r))) ps u1 = Inr u2" "sending d s i (ug_digest C c) c (length c) u2"
      using send_all[OF s(1) ps assms(10,11)] assms(5) by auto
    then show ?thesis using finish_sent[OF u2(2) assms(10,11)] s(2) by auto
  qed
  show ?thesis
  proof (intro exI conjI)
    show "at_state r = At_ready \<or>
     (\<forall>ps. concat ps = drop (nat (at_done r)) c \<longrightarrow> list_all chunk_ok ps \<longrightarrow>
        (\<exists>u2 r2 u3. send_chunks d i now (at_done r) ps u1 = Inr u2 \<and> finish_upload C d s i now u2 = (Inr r2, u3) \<and>
           at_state r2 = At_ready \<and> dict_get (up_files u3) (at_path r2) = Some c))"
      using r(2,3) fin by (cases "at_state r = At_ready") simp_all
  qed (rule r(1))
qed

text \<open>The path of a file whose owner dies before it writes the row.\<close>

definition dying_path :: "upload_cmd \<Rightarrow> string list" where
  "dying_path cmd = (case cmd of Begin_upload fault d i s name t nbytes sha path now \<Rightarrow> (if fault = Dies_before_row then [path] else []) | _ \<Rightarrow> [])"

subsection \<open>What the operations of uploads leave alone\<close>

text \<open>Outbound rows stay; rows keep their path; no file disappears; a file that is not of an upload only loses
  its end; a new file is of a new row or of an owner that died.\<close>

definition upload_frame :: "string list \<Rightarrow> upload_state \<Rightarrow> upload_state \<Rightarrow> bool" where
  "upload_frame lost u v \<longleftrightarrow>
     (\<forall>i r. dict_get (up_rows u) i = Some r \<longrightarrow> (\<exists>q. dict_get (up_rows v) i = Some q \<and> at_path q = at_path r \<and> at_dir q = at_dir r \<and> (at_dir r = Outbound_dir \<longrightarrow> q = r))) \<and>
     (\<forall>i q. dict_get (up_rows v) i = Some q \<longrightarrow> dict_get (up_rows u) i \<noteq> None \<or> (at_dir q = Upload_dir \<and> dict_get (up_files u) (at_path q) = None)) \<and>
     (\<forall>p x. dict_get (up_files u) p = Some x \<longrightarrow> dict_get (up_files v) p \<noteq> None \<and>
        ((\<forall>i r. dict_get (up_rows u) i = Some r \<longrightarrow> at_path r = p \<longrightarrow> at_dir r = Outbound_dir) \<longrightarrow> (\<exists>n. dict_get (up_files v) p = Some (take n x)))) \<and>
     (\<forall>p. dict_get (up_files v) p \<noteq> None \<longrightarrow> dict_get (up_files u) p \<noteq> None \<or> p \<in> set lost \<or> (\<exists>i r. dict_get (up_rows v) i = Some r \<and> at_path r = p))"

lemma upload_frameD:
  assumes "upload_frame lost u v"
  shows "dict_get (up_rows u) i = Some r \<Longrightarrow> \<exists>q. dict_get (up_rows v) i = Some q \<and> at_path q = at_path r \<and> at_dir q = at_dir r \<and> (at_dir r = Outbound_dir \<longrightarrow> q = r)"
    and "dict_get (up_rows v) i = Some q \<Longrightarrow> dict_get (up_rows u) i \<noteq> None \<or> (at_dir q = Upload_dir \<and> dict_get (up_files u) (at_path q) = None)"
    and "dict_get (up_files u) p = Some x \<Longrightarrow> dict_get (up_files v) p \<noteq> None"
    and "dict_get (up_files u) p = Some x \<Longrightarrow> (\<And>i r. dict_get (up_rows u) i = Some r \<Longrightarrow> at_path r = p \<Longrightarrow> at_dir r = Outbound_dir) \<Longrightarrow>
       \<exists>n. dict_get (up_files v) p = Some (take n x)"
    and "dict_get (up_files v) p \<noteq> None \<Longrightarrow> dict_get (up_files u) p \<noteq> None \<or> p \<in> set lost \<or> (\<exists>i r. dict_get (up_rows v) i = Some r \<and> at_path r = p)"
  using assms unfolding upload_frame_def by blast+

lemma ex_take [simp]: "\<exists>n. x = take n x"
  by (rule exI[of _ "length x"]) simp

lemma upload_frame_refl: "up_rows v = up_rows u \<Longrightarrow> up_files v = up_files u \<Longrightarrow> upload_frame lost u v"
  unfolding upload_frame_def by auto

lemma upload_frame_trans:
  assumes f: "upload_frame lost u v" and g: "upload_frame lost v w"
  shows "upload_frame lost u w"
  unfolding upload_frame_def
proof (intro conjI allI impI)
  fix i r
  assume "dict_get (up_rows u) i = Some r"
  then obtain q where "dict_get (up_rows v) i = Some q" "at_path q = at_path r" "at_dir q = at_dir r" "at_dir r = Outbound_dir \<longrightarrow> q = r"
    using upload_frameD(1)[OF f] by blast
  then show "\<exists>q. dict_get (up_rows w) i = Some q \<and> at_path q = at_path r \<and> at_dir q = at_dir r \<and> (at_dir r = Outbound_dir \<longrightarrow> q = r)"
    using upload_frameD(1)[OF g, of i q] by auto
next
  fix i q
  assume q: "dict_get (up_rows w) i = Some q"
  show "dict_get (up_rows u) i \<noteq> None \<or> (at_dir q = Upload_dir \<and> dict_get (up_files u) (at_path q) = None)"
  proof (cases "dict_get (up_rows v) i")
    case None
    then show ?thesis using upload_frameD(2)[OF g q] upload_frameD(3)[OF f, of "at_path q"] by (cases "dict_get (up_files u) (at_path q)") auto
  next
    case (Some s)
    then show ?thesis using upload_frameD(2)[OF f Some] upload_frameD(1)[OF g Some] q by auto
  qed
next
  fix p x
  assume x: "dict_get (up_files u) p = Some x"
  then show "dict_get (up_files w) p \<noteq> None" using upload_frameD(3)[OF f x] upload_frameD(3)[OF g] by auto
  assume own: "\<forall>i r. dict_get (up_rows u) i = Some r \<longrightarrow> at_path r = p \<longrightarrow> at_dir r = Outbound_dir"
  then obtain n where n: "dict_get (up_files v) p = Some (take n x)" using upload_frameD(4)[OF f x] by blast
  have "at_dir q = Outbound_dir" if q: "dict_get (up_rows v) i = Some q" "at_path q = p" for i q
    using upload_frameD(2)[OF f q(1)] upload_frameD(1)[OF f] own q x by fastforce
  then obtain k where "dict_get (up_files w) p = Some (take k (take n x))" using upload_frameD(4)[OF g n] by blast
  then show "\<exists>n. dict_get (up_files w) p = Some (take n x)" by (auto simp: take_take)
next
  fix p
  assume "dict_get (up_files w) p \<noteq> None"
  then show "dict_get (up_files u) p \<noteq> None \<or> p \<in> set lost \<or> (\<exists>i r. dict_get (up_rows w) i = Some r \<and> at_path r = p)"
    using upload_frameD(5)[OF g, of p] upload_frameD(5)[OF f, of p] upload_frameD(1)[OF g] by metis
qed

lemma upload_frame_put_file:
  assumes "dict_get (up_rows u) i = Some r" "at_dir r = Upload_dir" "dict_get (up_files u) (at_path r) \<noteq> None"
  shows "upload_frame lost u (put_file (at_path r) x u)"
  using assms unfolding upload_frame_def by (auto simp: put_file_def)

lemma upload_frame_put_row:
  assumes "dict_get (up_rows u) i = Some r" "at_dir r = Upload_dir" "at_path q = at_path r" "at_dir q = Upload_dir"
  shows "upload_frame lost u (u\<lparr>up_rows := dict_set (up_rows u) i q\<rparr>)"
  using assms unfolding upload_frame_def by (auto split: if_splits)

lemma upload_frame_new_file:
  assumes "dict_get (up_files u) p = None" "p \<in> set lost"
  shows "upload_frame lost u (put_file p x u)"
  using assms unfolding upload_frame_def by (auto simp: put_file_def)

lemma upload_frame_create:
  assumes "dict_get (up_rows u) i = None" "dict_get (up_files u) (at_path r) = None" "at_dir r = Upload_dir"
  shows "upload_frame lost u (put_file (at_path r) x (u\<lparr>up_rows := dict_set (up_rows u) i r\<rparr>))"
  using assms unfolding upload_frame_def by (auto simp: put_file_def split: if_splits)

lemma upload_frame_note: "upload_frame lost u v \<Longrightarrow> upload_frame lost u (note_upload e v)"
  by (simp add: upload_frame_def note_upload_def)


lemma upload_frame_update:
  assumes "update_upload d i P f (up_rows u) = Inr (q, rows)" "\<And>r. at_path (f r) = at_path r \<and> at_dir (f r) = at_dir r"
  shows "upload_frame lost u (u\<lparr>up_rows := rows\<rparr>)"
proof -
  obtain r where r: "dict_get (up_rows u) i = Some r" "at_dir r = Upload_dir" "rows = dict_set (up_rows u) i (f r)"
    using update_upload_parts[OF assms(1)] by blast
  show ?thesis unfolding r(3) by (rule upload_frame_put_row[OF r(1,2)]) (use r(2) assms(2)[of r] in simp_all)
qed

lemmas row_update_defs = fail_upload_def reset_failed_upload_def advance_attachment_def mark_attachment_ready_def

lemma upload_frame_updates:
  "fail_upload d i now (up_rows u) = Inr (q, rows) \<Longrightarrow> upload_frame lost u (u\<lparr>up_rows := rows\<rparr>)"
  "reset_failed_upload d i now (up_rows u) = Inr (q, rows) \<Longrightarrow> upload_frame lost u (u\<lparr>up_rows := rows\<rparr>)"
  "advance_attachment d i a b now (up_rows u) = Inr (q, rows) \<Longrightarrow> upload_frame lost u (u\<lparr>up_rows := rows\<rparr>)"
  "mark_attachment_ready d i now (up_rows u) = Inr (q, rows) \<Longrightarrow> upload_frame lost u (u\<lparr>up_rows := rows\<rparr>)"
  unfolding row_update_defs by (auto split: if_splits intro: upload_frame_update)

lemma upload_frame_reset:
  assumes "dict_get (up_rows u) i = Some q" "at_dir q = Upload_dir" "at_path q = at_path r"
  shows "upload_frame lost u (snd (reset_upload fault r now u))"
proof (cases "dict_get (up_files u) (at_path r)")
  case (Some x)
  have a: "upload_frame lost u (put_file (at_path r) [] u)"
    using upload_frame_put_file[OF assms(1,2)] Some assms(3) by simp
  have "upload_frame lost u (note_upload e (put_file (at_path r) [] u\<lparr>up_rows := rows\<rparr>))"
    if "reset_failed_upload d (at_id r) now (up_rows u) = Inr (s, rows)" for d s rows e
    by (rule upload_frame_note, rule upload_frame_trans[OF a], rule upload_frame_updates(2)) (use that in simp)
  then show ?thesis using a Some by (auto simp: reset_upload_def Let_def upload_frame_refl split: option.split sum.split)
qed (simp add: reset_upload_def upload_frame_refl)

lemma upload_frame_reconcile:
  assumes "dict_get (up_rows u) i = Some r" "at_dir r = Upload_dir"
  shows "upload_frame lost u (snd (reconcile_upload fault r now u))"
proof -
  have a: "upload_frame lost u (put_file (at_path r) y u)" if "dict_get (up_files u) (at_path r) = Some x" for x y
    using upload_frame_put_file[OF assms] that by simp
  have b: "upload_frame lost u (u\<lparr>up_rows := rows\<rparr>) \<and> upload_frame lost u (snd (reset_upload fault r now (u\<lparr>up_rows := rows\<rparr>)))"
    if f: "fail_upload d (at_id r) now (up_rows u) = Inr (s, rows)" for d s rows
  proof -
    note fr = upload_frame_updates(1)[OF f]
    obtain q where "dict_get rows i = Some q" "at_path q = at_path r" "at_dir q = Upload_dir" using upload_frameD(1)[OF fr assms(1)] assms(2) by auto
    then show ?thesis using upload_frame_trans[OF fr upload_frame_reset[of "u\<lparr>up_rows := rows\<rparr>" i q r]] fr by simp
  qed
  show ?thesis using a b upload_frame_reset[OF assms refl]
    by (auto simp: reconcile_upload_def upload_frame_refl split: option.split sum.split)
qed

lemma upload_frame_begin:
  assumes "fault = Dies_before_row \<Longrightarrow> path \<in> set lost"
  shows "upload_frame lost u (snd (begin_upload C fault d i s name t nbytes sha path now u))"
proof -
  have "upload_frame lost u (snd (begin_upload_locked fault d i s n t nbytes h path now u))" for n h
  proof (cases "read_attachment i (up_rows u)")
    case (Inr res)
    then have res: "res = dict_get (up_rows u) i" by (simp add: read_attachment_def split: if_splits)
    show ?thesis
    proof (cases res)
      case None
      have "upload_frame lost u (note_upload e (put_file path [] (u\<lparr>up_rows := rows\<rparr>)))"
        if "create_attachment st r (up_rows u) = Inr rows" "at_path r = path" "at_id r = i" "at_dir r = Upload_dir" "dict_get (up_files u) path = None" for st r rows e
      proof -
        have "rows = dict_set (up_rows u) i r" using that(1,3) by (auto simp: create_attachment_def split: if_splits)
        then show ?thesis using upload_frame_note[OF upload_frame_create[of u i r]] that None res by simp
      qed
      then show ?thesis using Inr None assms upload_frame_new_file[of u path lost "[]"]
        by (auto simp: begin_upload_locked_def Let_def upload_frame_refl split: sum.split)
    next
      case (Some r)
      then show ?thesis using upload_frame_reconcile[of u i r lost] Inr res
        by (auto simp: begin_upload_locked_def same_upload_def upload_frame_refl)
    qed
  qed (simp add: begin_upload_locked_def upload_frame_refl)
  then show ?thesis by (auto simp: begin_upload_def Let_def upload_frame_refl split: sum.split)
qed

lemma upload_frame_append: "upload_frame lost u (snd (append_chunk d i offset data fault now u))"
proof (cases "require_upload_attachment d i (up_rows u)")
  case (Inr r)
  then have r: "dict_get (up_rows u) i = Some r" "at_dir r = Upload_dir" using require_row_parts by (auto simp: require_upload_attachment_def)
  have a: "upload_frame lost u (put_file (at_path r) y u)" if "dict_get (up_files u) (at_path r) = Some x" for x y
    using upload_frame_put_file[OF r] that by simp
  have b: "upload_frame lost u (note_upload e (put_file (at_path r) y u\<lparr>up_rows := rows\<rparr>))"
    if "dict_get (up_files u) (at_path r) = Some x" "advance_attachment d j p q now (up_rows u) = Inr (s, rows)" for x y e j p q s rows
    by (rule upload_frame_note, rule upload_frame_trans[OF a[OF that(1)]], rule upload_frame_updates(3)) (use that in simp)
  show ?thesis using Inr a b by (auto simp: append_chunk_def append_row_def Let_def upload_frame_refl split: option.split sum.split)
qed (simp add: append_chunk_def upload_frame_refl)

lemma upload_frame_finish: "upload_frame lost u (snd (finish_upload C d s i now u))"
proof (cases "require_owned_upload d s i (up_rows u)")
  case (Inr r)
  have "upload_frame lost u (note_upload e (u\<lparr>up_rows := rows\<rparr>))" if "mark_attachment_ready d j now (up_rows u) = Inr (q, rows)" for j q rows e
    by (rule upload_frame_note[OF upload_frame_updates(4)[OF that]])
  then show ?thesis using Inr upload_frame_updates(1)
    by (auto simp: finish_upload_def finish_row_def upload_frame_refl split: option.split sum.split)
qed (simp add: finish_upload_def upload_frame_refl)

lemma upload_exec_frame: "upload_frame (dying_path cmd) u (upload_exec C cmd u)"
proof (cases cmd)
  case (Lose_end path n)
  have "upload_frame lost u (put_file path (take n x) u)" if "dict_get (up_files u) path = Some x" for lost x
    using that unfolding upload_frame_def by (auto simp: put_file_def)
  then show ?thesis using Lose_end by (auto simp: upload_exec_def upload_frame_refl split: option.split)
qed (auto simp: upload_exec_def dying_path_def upload_frame_refl intro!: upload_frame_begin upload_frame_append upload_frame_finish)

subsection \<open>A concrete upload\<close>

definition demo_sha :: string where
  "demo_sha = replicate 64 (CHR ''0'')"

definition demo_uploads :: upload_config where
  "demo_uploads = \<lparr>ug_max = 10, ug_digest = (\<lambda>x. if x = ''hi'' then demo_sha else [])\<rparr>"

definition demo_upload_cmds :: "upload_cmd list" where
  "demo_upload_cmds = [Begin_upload No_fault ''p'' ''a'' ''s'' ''f.txt'' ''text/plain'' 2 demo_sha ''/f'' 1,
     Append_chunk ''p'' ''a'' 0 ''h'' None 2, Append_chunk ''p'' ''a'' 1 ''i'' (Some ''x'') 3]"

definition demo_row :: "string \<Rightarrow> int \<Rightarrow> at_state \<Rightarrow> int \<Rightarrow> attachment" where
  "demo_row h k st t = \<lparr>at_id = ''a'', at_device = Some ''p'', at_session = ''s'', at_dir = Upload_dir, at_name = ''f.txt'', at_type = ''text/plain'',
     at_size = 2, at_sha = h, at_path = ''/f'', at_done = k, at_state = st, at_created = 1, at_updated = t\<rparr>"

lemma lower_demo_sha: "map lower_char demo_sha = demo_sha" by code_simp
lemma demo_sha_hex: "list_all is_hex_char demo_sha" "length demo_sha = 64" by code_simp+

lemma demo_begun: "upload_exec demo_uploads (Begin_upload No_fault ''p'' ''a'' ''s'' ''f.txt'' ''text/plain'' 2 demo_sha ''/f'' 1) (new_uploads demo_mobile) =
  \<lparr>up_store = demo_mobile, up_rows = [(''a'', demo_row demo_sha 0 At_transferring 1)], up_files = [(''/f'', [])], up_log = [Restarted ''a'']\<rparr>"
proof -
  have n: "validate_filename ''f.txt'' = Inr ''f.txt''" "validate_content_type ''text/plain'' = Inr ''text/plain''" by code_simp+
  have ne: "demo_sha \<noteq> []" by (simp add: demo_sha_def)
  have dv: "dict_get (ms_devices demo_mobile) ''p'' = Some demo_device" unfolding demo_mobile_eval by code_simp
  show ?thesis unfolding upload_exec_def
    by (simp add: begin_upload_def demo_uploads_def n Let_def lower_demo_sha demo_sha_hex begin_upload_locked_def read_attachment_def new_uploads_def create_attachment_def ne dv[unfolded dict_get_def]
       demo_row_def note_upload_def put_file_def dict_set_def dict_get_def)
qed

lemma demo_sent: "fold (upload_exec demo_uploads) demo_upload_cmds (new_uploads demo_mobile) =
  \<lparr>up_store = demo_mobile, up_rows = [(''a'', demo_row demo_sha 1 At_transferring 2)], up_files = [(''/f'', ''hx'')], up_log = [Accepted ''a'' ''h'', Restarted ''a'']\<rparr>"
  unfolding demo_upload_cmds_def fold_simps demo_begun
  by (simp add: upload_exec_def append_chunk_def max_chunk_def require_upload_attachment_def require_row_def read_attachment_def append_row_def advance_attachment_def
       update_upload_def Let_def demo_row_def note_upload_def put_file_def dict_set_def dict_get_def)

theorem upload_assembled_witness:
  "\<exists>x. dict_get [(''/f'', ''hx'')] ''/f'' = Some x \<and> prefix (take 1 x) (confirmed ''a'' [Accepted ''a'' ''h'', Restarted ''a''])"
proof -
  have "dict_get (up_rows (fold (upload_exec demo_uploads) demo_upload_cmds (new_uploads demo_mobile))) ''a'' = Some (demo_row demo_sha 1 At_transferring 2)"
    unfolding demo_sent by (simp add: dict_get_def)
  from upload_assembled[OF refl this] show ?thesis unfolding demo_sent by (simp add: demo_row_def)
qed

theorem upload_completes_witness:
  "\<exists>r u1. begin_upload demo_uploads No_fault ''p'' ''a'' ''s'' ''f.txt'' ''text/plain'' 2 demo_sha ''/g'' 9
      (fold (upload_exec demo_uploads) demo_upload_cmds (new_uploads demo_mobile)) = (Inr r, u1) \<and>
    (at_state r = At_ready \<or> (\<forall>ps. concat ps = drop (nat (at_done r)) ''hi'' \<longrightarrow> list_all chunk_ok ps \<longrightarrow>
        (\<exists>u2 r2 u3. send_chunks ''p'' ''a'' 9 (at_done r) ps u1 = Inr u2 \<and> finish_upload demo_uploads ''p'' ''s'' ''a'' 9 u2 = (Inr r2, u3) \<and>
           at_state r2 = At_ready \<and> dict_get (up_files u3) (at_path r2) = Some ''hi'')))"
proof -
  have n: "validate_filename ''f.txt'' = Inr ''f.txt''" "validate_content_type ''text/plain'' = Inr ''text/plain''" by code_simp+
  have res: "resumable ''p'' ''a'' ''s'' ''f.txt'' ''text/plain'' ''hi'' (map lower_char demo_sha) ''/g''
      (fold (upload_exec demo_uploads) demo_upload_cmds (new_uploads demo_mobile))"
    unfolding demo_sent lower_demo_sha by (simp add: resumable_def dict_get_def same_upload_def demo_row_def)
  have "length ''hi'' = 2" by simp
  then show ?thesis
    using upload_completes[OF refl res, of 9] n lower_demo_sha demo_sha_hex by (simp add: demo_uploads_def)
qed

end
