(* ===== verification/Mobile_Media.thy ===== *)
theory Mobile_Media
  imports Mobile_Uploads
begin

text \<open>
  Outbound attachments: the snapshots that \<open>AttachmentTransferService\<close> (src/infra/mobile_realtime/attachments.py)
  makes of local media, their registration and binding to messages, the commit of an event with its
  attachments for all devices (storage.py), and the downloads of clients.

  A batch is a call with one step per file, because other operations run between the files; a registration is
  one transaction.  An owner of a batch may die at any step.  New paths come from \<open>uuid4\<close>: a command that draws
  a path in use does nothing.  The digest, the type guessed for a file name and the builder of an envelope are
  parameters; what the reads of a source return is an input, where \<open>None\<close> is a read or a write that fails.
\<close>

subsection \<open>Snapshots of local media\<close>

record media_source =
  src_path :: string
  src_name :: string
  src_symlink :: bool
  src_openable :: bool
  src_regular :: bool
  src_stat :: int
  src_blocks :: "string option list"

definition crockford :: string where
  "crockford = ''0123456789ABCDEFGHJKMNPQRSTVWXYZ''"

text \<open>\<open>_new_outbound_attachment_id\<close> from the time in milliseconds and 80 random bits.\<close>

fun base32_digits :: "nat \<Rightarrow> nat \<Rightarrow> string" where
  "base32_digits 0 n = []"
| "base32_digits (Suc k) n = base32_digits k (n div 32) @ [crockford ! (n mod 32)]"

definition new_outbound_id :: "nat \<Rightarrow> nat \<Rightarrow> string" where
  "new_outbound_id millis rand = base32_digits 26 (millis * 2 ^ 80 + rand)"

fun copy_limited :: "int \<Rightarrow> int \<Rightarrow> string \<Rightarrow> string option list \<Rightarrow> at_error + (int \<times> string)" where
  "copy_limited cap n written [] = Inr (n, written)"
| "copy_limited cap n written (None # bs) = Inl At_os"
| "copy_limited cap n written (Some b # bs) =
     (if b = [] then Inr (n, written)
      else if cap < n + int (length b) then Inl At_request
      else copy_limited cap (n + int (length b)) (written @ b) bs)"

definition copy_outbound :: "upload_config \<Rightarrow> media_source \<Rightarrow> string \<Rightarrow> upload_state \<Rightarrow> at_error + (int \<times> string)" where
  "copy_outbound C src path u =
     (if src_symlink src \<or> \<not> src_openable src then Inl At_os
      else if \<not> src_regular src then Inl At_request
      else if src_stat src < 1 \<or> ug_max C < src_stat src then Inl At_request
      else if dict_get (up_files u) path \<noteq> None then Inl At_os
      else case copy_limited (ug_max C) 0 [] (src_blocks src) of
        Inl e \<Rightarrow> Inl e
      | Inr (n, content) \<Rightarrow> if n \<noteq> src_stat src then Inl At_state_error else Inr (n, content))"

definition read_ready_upload_by_path :: "string \<Rightarrow> string \<Rightarrow> at_rows \<Rightarrow> at_error + attachment option" where
  "read_ready_upload_by_path s path rows =
     (if s = [] \<or> path = [] then Inl At_value
      else Inr (find (\<lambda>r. at_session r = s \<and> at_path r = path \<and> at_dir r = Upload_dir \<and> at_state r = At_ready) (map snd rows)))"

definition checked_metadata :: "string \<Rightarrow> string \<Rightarrow> at_error + (string \<times> string)" where
  "checked_metadata name t = (case validate_filename name of
     Inl e \<Rightarrow> Inl e
   | Inr n \<Rightarrow> (case validate_content_type t of Inl e \<Rightarrow> Inl e | Inr ct \<Rightarrow> Inr (n, ct)))"

definition outbound_metadata :: "(string \<Rightarrow> string option) \<Rightarrow> string \<Rightarrow> media_source \<Rightarrow> upload_state \<Rightarrow> at_error + (string \<times> string)" where
  "outbound_metadata guess s src u =
     (if src_symlink src then Inl At_request
      else case read_ready_upload_by_path s (src_path src) (up_rows u) of
        Inl e \<Rightarrow> Inl e
      | Inr (Some r) \<Rightarrow> checked_metadata (at_name r) (at_type r)
      | Inr None \<Rightarrow> (case validate_filename (src_name src) of
          Inl e \<Rightarrow> Inl e
        | Inr n \<Rightarrow> checked_metadata n (case guess n of Some t \<Rightarrow> (if t = [] then ''application/octet-stream'' else t) | None \<Rightarrow> ''application/octet-stream'')))"

definition drop_file :: "string \<Rightarrow> upload_state \<Rightarrow> upload_state" where
  "drop_file p u = u\<lparr>up_files := dict_del (up_files u) p\<rparr>"

text \<open>\<open>_snapshot_outbound_candidate\<close>; whatever goes wrong with the copy, the new path is unlinked.\<close>

definition snapshot_candidate :: "upload_config \<Rightarrow> (string \<Rightarrow> string option) \<Rightarrow> string \<Rightarrow> media_source \<Rightarrow> (string \<times> string) option \<Rightarrow> string \<Rightarrow> string \<Rightarrow> int \<Rightarrow>
    upload_state \<Rightarrow> (at_error + attachment) \<times> upload_state" where
  "snapshot_candidate C guess s src override path i now u =
     (case (case override of None \<Rightarrow> outbound_metadata guess s src u | Some (n, t) \<Rightarrow> checked_metadata n t) of
        Inl e \<Rightarrow> (Inl e, u)
      | Inr (n, t) \<Rightarrow> (case copy_outbound C src path u of
          Inl e \<Rightarrow> (Inl e, drop_file path u)
        | Inr (k, content) \<Rightarrow> (Inr \<lparr>at_id = i, at_device = None, at_session = s, at_dir = Outbound_dir, at_name = n, at_type = t, at_size = k,
              at_sha = ug_digest C content, at_path = path, at_done = k, at_state = At_ready, at_created = now, at_updated = now\<rparr>,
            put_file path content u)))"

definition cleanup_candidates :: "attachment list \<Rightarrow> upload_state \<Rightarrow> upload_state" where
  "cleanup_candidates cs u = fold (\<lambda>r. drop_file (at_path r)) cs u"

subsection \<open>Registration\<close>

type_synonym content_key = "string \<times> string \<times> string \<times> string \<times> int"

definition content_key :: "attachment \<Rightarrow> content_key" where
  "content_key r = (at_session r, at_name r, at_type r, at_sha r, at_size r)"

definition require_canonical :: "attachment \<Rightarrow> (string, string) dict \<Rightarrow> at_error option" where
  "require_canonical r files = (case dict_get files (at_path r) of
     None \<Rightarrow> Some At_os | Some x \<Rightarrow> if int (length x) \<noteq> at_size r then Some At_state_error else None)"

definition validate_candidate :: "(string, string) dict \<Rightarrow> attachment \<Rightarrow> at_error option" where
  "validate_candidate files r =
     (if at_dir r \<noteq> Outbound_dir \<or> at_device r \<noteq> None \<or> at_state r \<noteq> At_ready \<or> at_done r \<noteq> at_size r then Some At_value
      else require_canonical r files)"

fun first_error :: "('a \<Rightarrow> 'e option) \<Rightarrow> 'a list \<Rightarrow> 'e option" where
  "first_error f [] = None"
| "first_error f (x # xs) = (case f x of Some e \<Rightarrow> Some e | None \<Rightarrow> first_error f xs)"

definition read_outbound_for :: "attachment \<Rightarrow> (string, string) dict \<Rightarrow> at_rows \<Rightarrow> at_error + attachment option" where
  "read_outbound_for c files rows =
     (if at_session c = [] \<or> at_name c = [] \<or> at_type c = [] \<or> at_sha c = [] then Inl At_value
      else case sort_key at_created (filter (\<lambda>r. at_dir r = Outbound_dir \<and> at_state r = At_ready \<and> content_key r = content_key c) (map snd rows)) of
        [] \<Rightarrow> Inr None
      | r # _ \<Rightarrow> if at_device r \<noteq> None \<or> at_done r \<noteq> at_size r then Inl At_state_error
          else (case require_canonical r files of Some e \<Rightarrow> Inl e | None \<Rightarrow> Inr (Some r)))"

definition insert_outbound :: "attachment \<Rightarrow> at_rows \<Rightarrow> at_error + at_rows" where
  "insert_outbound r rows =
     (if at_session r = [] \<or> at_name r = [] \<or> at_type r = [] \<or> at_sha r = [] \<or> at_path r = [] then Inl At_value
      else if dict_get rows (at_id r) \<noteq> None \<or> at_size r \<le> 0 \<or> at_done r < 0 \<or> at_size r < at_done r then Inl At_integrity
      else Inr (dict_set rows (at_id r) r))"

text \<open>One candidate: the record of the batch or of the table with its content, or the candidate itself.\<close>

definition resolve_candidate :: "attachment \<Rightarrow> (content_key, attachment) dict \<Rightarrow> (string, string) dict \<Rightarrow> at_rows \<Rightarrow>
    at_error + (attachment \<times> (content_key, attachment) dict \<times> at_rows)" where
  "resolve_candidate c seen files rows = (case dict_get seen (content_key c) of
     Some r \<Rightarrow> Inr (r, seen, rows)
   | None \<Rightarrow> (case read_outbound_for c files rows of
       Inl e \<Rightarrow> Inl e
     | Inr (Some r) \<Rightarrow> Inr (r, dict_set seen (content_key c) r, rows)
     | Inr None \<Rightarrow> (case insert_outbound c rows of
         Inl e \<Rightarrow> Inl e
       | Inr rows' \<Rightarrow> Inr (c, dict_set seen (content_key c) c, rows'))))"

text \<open>The loop over a batch; files of duplicates are unlinked at once, and stay so when the transaction fails.\<close>

fun resolve_candidates :: "attachment list \<Rightarrow> (content_key, attachment) dict \<Rightarrow> (string, string) dict \<Rightarrow> at_rows \<Rightarrow>
    (at_error + (attachment list \<times> at_rows)) \<times> (string, string) dict" where
  "resolve_candidates [] seen files rows = (Inr ([], rows), files)"
| "resolve_candidates (c # cs) seen files rows = (case resolve_candidate c seen files rows of
     Inl e \<Rightarrow> (Inl e, files)
   | Inr (r, seen', rows') \<Rightarrow>
       if at_path r \<noteq> at_path c \<and> dict_get files (at_path c) = None then (Inl At_os, files)
       else (case resolve_candidates cs seen' (if at_path r \<noteq> at_path c then dict_del files (at_path c) else files) rows' of
           (Inl e, files') \<Rightarrow> (Inl e, files')
         | (Inr (rs, rows''), files') \<Rightarrow> (Inr (r # rs, rows''), files')))"

type_synonym bindings = "(string \<times> nat, string) dict"

definition bound_rows :: "string \<Rightarrow> string \<Rightarrow> bindings \<Rightarrow> at_rows \<Rightarrow> attachment list" where
  "bound_rows mid s bs rows = concat (map (\<lambda>(_, i). case dict_get rows i of Some r \<Rightarrow> (if at_session r = s then [r] else []) | None \<Rightarrow> [])
     (sort_key (\<lambda>((_, n), _). n) (filter (\<lambda>((m, _), _). m = mid) bs)))"

definition read_message_outbound :: "string \<Rightarrow> string \<Rightarrow> bindings \<Rightarrow> upload_state \<Rightarrow> at_error + attachment list" where
  "read_message_outbound mid s bs u =
     (if mid = [] \<or> s = [] then Inl At_value
      else let rs = bound_rows mid s bs (up_rows u) in
        (case first_error (\<lambda>r. if at_dir r \<noteq> Outbound_dir \<or> at_state r \<noteq> At_ready then Some At_state_error else require_canonical r (up_files u)) rs of
           Some e \<Rightarrow> Inl e | None \<Rightarrow> Inr rs))"

fun bind_message :: "string \<Rightarrow> nat \<Rightarrow> attachment list \<Rightarrow> bindings \<Rightarrow> at_error + bindings" where
  "bind_message mid n [] bs = Inr bs"
| "bind_message mid n (r # rs) bs =
     (if dict_get bs (mid, n) \<noteq> None then Inl At_integrity else bind_message mid (Suc n) rs (dict_set bs (mid, n) (at_id r)))"

fun unlink_all :: "attachment list \<Rightarrow> (string, string) dict \<Rightarrow> at_error option \<times> (string, string) dict" where
  "unlink_all [] files = (None, files)"
| "unlink_all (c # cs) files = (if dict_get files (at_path c) = None then (Some At_os, files) else unlink_all cs (dict_del files (at_path c)))"

text \<open>\<open>create_or_read_outbound_attachments\<close>: one transaction, whose failure restores the rows but no file.\<close>

definition create_or_read :: "attachment list \<Rightarrow> string option \<Rightarrow> bindings \<Rightarrow> upload_state \<Rightarrow>
    (at_error + attachment list) \<times> bindings \<times> upload_state" where
  "create_or_read cs message bs u =
     (if cs = [] then (Inl At_value, bs, u)
      else case first_error (validate_candidate (up_files u)) cs of
        Some e \<Rightarrow> (Inl e, bs, u)
      | None \<Rightarrow> (case (case message of None \<Rightarrow> Inr [] | Some mid \<Rightarrow> read_message_outbound mid (at_session (hd cs)) bs u) of
          Inl e \<Rightarrow> (Inl e, bs, u)
        | Inr bound \<Rightarrow>
            if bound \<noteq> [] then
              (if length bound \<noteq> length cs then (Inl At_state_error, bs, u)
               else case unlink_all cs (up_files u) of
                 (Some e, files) \<Rightarrow> (Inl e, bs, u\<lparr>up_files := files\<rparr>)
               | (None, files) \<Rightarrow> (Inr bound, bs, u\<lparr>up_files := files\<rparr>))
            else (case resolve_candidates cs [] (up_files u) (up_rows u) of
                (Inl e, files) \<Rightarrow> (Inl e, bs, u\<lparr>up_files := files\<rparr>)
              | (Inr (rs, rows), files) \<Rightarrow> (case (case message of None \<Rightarrow> Inr bs | Some mid \<Rightarrow> bind_message mid 0 rs bs) of
                  Inl e \<Rightarrow> (Inl e, bs, u\<lparr>up_files := files\<rparr>)
                | Inr bs' \<Rightarrow> (Inr rs, bs', u\<lparr>up_rows := rows, up_files := files\<rparr>)))))"

subsection \<open>An event with its attachments\<close>

fun commit_events :: "string list \<Rightarrow> string \<Rightarrow> string \<Rightarrow> int \<Rightarrow> mobile_store \<Rightarrow> mobile_error + (inbox_event list \<times> mobile_store)" where
  "commit_events [] i envelope now s = Inr ([], s)"
| "commit_events (d # ds) i envelope now s = (case dict_get (ms_cursors s) d of
     None \<Rightarrow> Inl Unknown_device
   | Some c \<Rightarrow> let e = \<lparr>ie_device = d, ie_seq = cu_next c, ie_id = i, ie_envelope = envelope, ie_created = now\<rparr> in
       (case store_event e s of
          Inl err \<Rightarrow> Inl err
        | Inr s' \<Rightarrow> (case commit_events ds i envelope now s' of Inl err \<Rightarrow> Inl err | Inr (es, s'') \<Rightarrow> Inr (e # es, s''))))"

definition commit_outbound_event :: "attachment list \<Rightarrow> string list \<Rightarrow> string \<Rightarrow> (attachment list \<Rightarrow> string) \<Rightarrow> int \<Rightarrow> upload_state \<Rightarrow>
    (at_error + (attachment list \<times> inbox_event list)) \<times> upload_state" where
  "commit_outbound_event cs ds event_id build now u =
     (if cs = [] then (Inl At_value, u)
      else case first_error (validate_candidate (up_files u)) cs of
        Some e \<Rightarrow> (Inl e, u)
      | None \<Rightarrow> if [] \<in> set ds then (Inl At_value, u)
          else if ds = [] then (Inl At_no_device, u)
          else if \<not> distinct ds \<or> event_id = [] then (Inl At_value, u)
          else (case resolve_candidates cs [] (up_files u) (up_rows u) of
              (Inl e, files) \<Rightarrow> (Inl e, u\<lparr>up_files := files\<rparr>)
            | (Inr (rs, rows), files) \<Rightarrow>
                if build rs = [] then (Inl At_value, u\<lparr>up_files := files\<rparr>)
                else (case commit_events ds event_id (build rs) now (up_store u) of
                    Inl e \<Rightarrow> (Inl (At_store e), u\<lparr>up_files := files\<rparr>)
                  | Inr (es, st) \<Rightarrow> (Inr (rs, es), u\<lparr>up_rows := rows, up_files := files, up_store := st\<rparr>))))"

text \<open>\<open>publish_event_with_outbound_attachments\<close> of src/infra/mobile_realtime/gateway.py: the devices are read
  under the delivery lock; queueing for connections follows the commit (see Mobile_Delivery).\<close>

definition publish_with_attachments :: "attachment list \<Rightarrow> string \<Rightarrow> (attachment list \<Rightarrow> string) \<Rightarrow> int \<Rightarrow> upload_state \<Rightarrow>
    (at_error + (attachment list \<times> inbox_event list)) \<times> upload_state" where
  "publish_with_attachments cs event_id build now u = (case list_active_devices (up_store u) of
     Inl e \<Rightarrow> (Inl (At_store e), u)
   | Inr ds \<Rightarrow> commit_outbound_event cs (map dv_id ds) event_id build now u)"

subsection \<open>Batches\<close>

record media_call =
  mc_session :: string
  mc_todo :: "(media_source \<times> (string \<times> string) option) list"
  mc_made :: "attachment list"
  mc_total :: int

record media_state =
  md_up :: upload_state
  md_bound :: bindings
  md_calls :: "(nat, media_call) dict"
  md_lost :: "string list"

definition start_batch :: "nat \<Rightarrow> string \<Rightarrow> (media_source \<times> (string \<times> string) option) list \<Rightarrow> media_state \<Rightarrow> at_error + media_state" where
  "start_batch k s sources m =
     (if \<not> (1 \<le> length sources \<and> length sources \<le> 10) then Inl At_request
      else Inr (m\<lparr>md_calls := dict_set (md_calls m) k \<lparr>mc_session = s, mc_todo = sources, mc_made = [], mc_total = 0\<rparr>\<rparr>))"

text \<open>The end of a call that failed: the files of its candidates are removed.\<close>

definition end_batch :: "nat \<Rightarrow> attachment list \<Rightarrow> media_state \<Rightarrow> media_state" where
  "end_batch k cs m = m\<lparr>md_up := cleanup_candidates cs (md_up m), md_calls := dict_del (md_calls m) k\<rparr>"

definition snapshot_next :: "upload_config \<Rightarrow> (string \<Rightarrow> string option) \<Rightarrow> nat \<Rightarrow> media_call \<Rightarrow> string \<Rightarrow> nat \<Rightarrow> nat \<Rightarrow> int \<Rightarrow> media_state \<Rightarrow>
    (at_error + unit) \<times> media_state" where
  "snapshot_next C guess k call path millis rand now m = (case mc_todo call of
     [] \<Rightarrow> (Inr (), m)
   | (src, override) # rest \<Rightarrow>
       (case snapshot_candidate C guess (mc_session call) src override path (new_outbound_id millis rand) now (md_up m) of
          (Inl e, u) \<Rightarrow> (Inl e, end_batch k (mc_made call) (m\<lparr>md_up := u\<rparr>))
        | (Inr c, u) \<Rightarrow> let made = mc_made call @ [c]; total = mc_total call + at_size c in
            if ug_max C < total then (Inl At_request, end_batch k made (m\<lparr>md_up := u\<rparr>))
            else (Inr (), m\<lparr>md_up := u, md_calls := dict_set (md_calls m) k (call\<lparr>mc_todo := rest, mc_made := made, mc_total := total\<rparr>)\<rparr>)))"

definition register_batch :: "nat \<Rightarrow> media_call \<Rightarrow> string option \<Rightarrow> media_state \<Rightarrow> (at_error + attachment list) \<times> media_state" where
  "register_batch k call message m = (case create_or_read (mc_made call) message (md_bound m) (md_up m) of
     (Inl e, _, u) \<Rightarrow> (Inl e, end_batch k (mc_made call) (m\<lparr>md_up := u\<rparr>))
   | (Inr rs, bs, u) \<Rightarrow> (Inr rs, m\<lparr>md_up := u, md_bound := bs, md_calls := dict_del (md_calls m) k\<rparr>))"

definition publish_batch :: "nat \<Rightarrow> media_call \<Rightarrow> string \<Rightarrow> (attachment list \<Rightarrow> string) \<Rightarrow> int \<Rightarrow> media_state \<Rightarrow>
    (at_error + (attachment list \<times> inbox_event list)) \<times> media_state" where
  "publish_batch k call event_id build now m = (case publish_with_attachments (mc_made call) event_id build now (md_up m) of
     (Inl e, u) \<Rightarrow> (Inl e, end_batch k (mc_made call) (m\<lparr>md_up := u\<rparr>))
   | (Inr r, u) \<Rightarrow> (Inr r, m\<lparr>md_up := u, md_calls := dict_del (md_calls m) k\<rparr>))"

text \<open>The commands.  A command of a call that does not exist, or whose step is not the next one, does nothing.\<close>

datatype media_cmd = Start_batch nat string "(media_source \<times> (string \<times> string) option) list"
  | Snapshot_next nat string nat nat int | Register_batch nat "string option"
  | Publish_batch nat string "attachment list \<Rightarrow> string" int | Batch_dies nat | Upload_cmd upload_cmd

definition media_exec :: "upload_config \<Rightarrow> (string \<Rightarrow> string option) \<Rightarrow> media_cmd \<Rightarrow> media_state \<Rightarrow> media_state" where
  "media_exec C guess cmd m = (case cmd of
     Start_batch k s sources \<Rightarrow> if dict_get (md_calls m) k \<noteq> None then m else (case start_batch k s sources m of Inl _ \<Rightarrow> m | Inr m' \<Rightarrow> m')
   | Snapshot_next k path millis rand now \<Rightarrow> (case dict_get (md_calls m) k of None \<Rightarrow> m
       | Some call \<Rightarrow> if dict_get (up_files (md_up m)) path \<noteq> None then m else snd (snapshot_next C guess k call path millis rand now m))
   | Register_batch k message \<Rightarrow> (case dict_get (md_calls m) k of None \<Rightarrow> m
       | Some call \<Rightarrow> if mc_todo call \<noteq> [] then m else snd (register_batch k call message m))
   | Publish_batch k event_id build now \<Rightarrow> (case dict_get (md_calls m) k of None \<Rightarrow> m
       | Some call \<Rightarrow> if mc_todo call \<noteq> [] then m else snd (publish_batch k call event_id build now m))
   | Batch_dies k \<Rightarrow> (case dict_get (md_calls m) k of None \<Rightarrow> m
       | Some call \<Rightarrow> m\<lparr>md_calls := dict_del (md_calls m) k, md_lost := map at_path (mc_made call) @ md_lost m\<rparr>)
   | Upload_cmd c \<Rightarrow> m\<lparr>md_up := upload_exec C c (md_up m), md_lost := dying_path c @ md_lost m\<rparr>)"

definition new_media :: "mobile_store \<Rightarrow> media_state" where
  "new_media s = \<lparr>md_up = new_uploads s, md_bound = [], md_calls = [], md_lost = []\<rparr>"

subsection \<open>What a registration does to the rows and the files\<close>

text \<open>A table before a batch is resolved, and the candidates of the batch.\<close>

definition outbound_unique :: "at_rows \<Rightarrow> bool" where
  "outbound_unique rows \<longleftrightarrow> dict_ok rows \<and> (\<forall>i r. dict_get rows i = Some r \<longrightarrow> at_id r = i) \<and>
     (\<forall>i r. dict_get rows i = Some r \<longrightarrow> at_dir r = Outbound_dir \<longrightarrow> at_state r = At_ready) \<and>
     (\<forall>i j r q. dict_get rows i = Some r \<longrightarrow> dict_get rows j = Some q \<longrightarrow> at_dir r = Outbound_dir \<longrightarrow> at_dir q = Outbound_dir \<longrightarrow>
        content_key r = content_key q \<longrightarrow> i = j)"

definition batch_fresh :: "attachment list \<Rightarrow> (string, string) dict \<Rightarrow> at_rows \<Rightarrow> bool" where
  "batch_fresh cs files rows \<longleftrightarrow> distinct (map at_path cs) \<and>
     (\<forall>c \<in> set cs. at_dir c = Outbound_dir \<and> at_state c = At_ready \<and> dict_get files (at_path c) \<noteq> None) \<and>
     (\<forall>c \<in> set cs. \<forall>i r. dict_get rows i = Some r \<longrightarrow> at_path r \<noteq> at_path c)"

definition seen_ok :: "(content_key, attachment) dict \<Rightarrow> at_rows \<Rightarrow> bool" where
  "seen_ok seen rows \<longleftrightarrow> (\<forall>k r. dict_get seen k = Some r \<longrightarrow> content_key r = k \<and> at_dir r = Outbound_dir \<and> dict_get rows (at_id r) = Some r)"

text \<open>The rows afterwards: old ones stay, new ones are candidates whose file stays; the other files of the batch are gone.\<close>

definition batch_added :: "attachment list \<Rightarrow> (string, string) dict \<Rightarrow> at_rows \<Rightarrow> (string, string) dict \<Rightarrow> at_rows \<Rightarrow> bool" where
  "batch_added cs files rows files' rows' \<longleftrightarrow> outbound_unique rows' \<and>
     (\<forall>p. p \<notin> at_path ` set cs \<longrightarrow> dict_get files' p = dict_get files p) \<and>
     (\<forall>i r. dict_get rows i = Some r \<longrightarrow> dict_get rows' i = Some r) \<and>
     (\<forall>i r. dict_get rows' i = Some r \<longrightarrow> dict_get rows i = Some r \<or> r \<in> set cs) \<and>
     (\<forall>c \<in> set cs. (dict_get rows' (at_id c) = Some c \<and> dict_get files' (at_path c) = dict_get files (at_path c)) \<or>
        (dict_get files' (at_path c) = None \<and> (\<forall>i. dict_get rows' i \<noteq> Some c)))"

definition resolved :: "at_rows \<Rightarrow> attachment \<Rightarrow> attachment \<Rightarrow> bool" where
  "resolved rows c r \<longleftrightarrow> content_key r = content_key c \<and> at_dir r = Outbound_dir \<and> dict_get rows (at_id r) = Some r"

lemma seen_okD: "seen_ok seen rows \<Longrightarrow> dict_get seen (content_key c) = Some r \<Longrightarrow> resolved rows c r"
  unfolding seen_ok_def resolved_def by blast

lemma seen_ok_set: "seen_ok seen rows \<Longrightarrow> resolved rows c r \<Longrightarrow> seen_ok (dict_set seen (content_key c) r) rows"
  unfolding seen_ok_def resolved_def by (metis dict_get_set option.inject)

lemma seen_ok_grow: "seen_ok seen rows \<Longrightarrow> (\<And>i r. dict_get rows i = Some r \<Longrightarrow> dict_get rows' i = Some r) \<Longrightarrow> seen_ok seen rows'"
  unfolding seen_ok_def by blast

lemma read_outbound_forD:
  assumes "read_outbound_for c files rows = Inr res" "outbound_unique rows"
  shows "res = Some r \<Longrightarrow> resolved rows c r"
    and "res = None \<Longrightarrow> dict_get rows i = Some r \<Longrightarrow> at_dir r = Outbound_dir \<Longrightarrow> content_key r \<noteq> content_key c"
proof -
  define hits where "hits = sort_key at_created (filter (\<lambda>r. at_dir r = Outbound_dir \<and> at_state r = At_ready \<and> content_key r = content_key c) (map snd rows))"
  have set: "r \<in> set hits \<longleftrightarrow> r \<in> snd ` set rows \<and> at_dir r = Outbound_dir \<and> at_state r = At_ready \<and> content_key r = content_key c" for r
    by (simp add: hits_def)
  have ok: "dict_ok rows" "\<And>i r. dict_get rows i = Some r \<Longrightarrow> at_id r = i"
    "\<And>i r. dict_get rows i = Some r \<Longrightarrow> at_dir r = Outbound_dir \<Longrightarrow> at_state r = At_ready"
    using assms(2) by (auto simp: outbound_unique_def)
  have res: "(hits = [] \<and> res = None) \<or> (hits \<noteq> [] \<and> res = Some (hd hits))"
    using assms(1) by (auto simp: read_outbound_for_def hits_def[symmetric] split: if_splits list.splits option.splits)
  show "resolved rows c r" if "res = Some r"
  proof -
    have "r \<in> set hits" using res that by auto
    then obtain i where "(i, r) \<in> set rows" "at_dir r = Outbound_dir" "content_key r = content_key c" unfolding set by auto
    then show ?thesis using ok(1,2) by (auto simp: resolved_def dict_get_Some_iff[OF ok(1), symmetric])
  qed
  show "content_key r \<noteq> content_key c" if "res = None" and r: "dict_get rows i = Some r" "at_dir r = Outbound_dir"
  proof -
    have "r \<notin> set hits" using res that(1) by simp
    moreover have "r \<in> snd ` set rows" using dict_get_SomeD[OF r(1)] by force
    ultimately show ?thesis using r(2) ok(3)[OF r] unfolding set by blast
  qed
qed

lemma outbound_unique_insert:
  assumes "outbound_unique rows" "dict_get rows (at_id c) = None" "at_dir c = Outbound_dir" "at_state c = At_ready"
    and "\<And>i r. dict_get rows i = Some r \<Longrightarrow> at_dir r = Outbound_dir \<Longrightarrow> content_key r \<noteq> content_key c"
  shows "outbound_unique (dict_set rows (at_id c) c)"
proof -
  have "i = j" if "dict_get (dict_set rows (at_id c) c) i = Some r" "dict_get (dict_set rows (at_id c) c) j = Some q"
      "at_dir r = Outbound_dir" "at_dir q = Outbound_dir" "content_key r = content_key q" for i j r q
  proof (cases "i = at_id c \<or> j = at_id c")
    case True
    then show ?thesis using that assms(5)[of i r] assms(5)[of j q] by (auto split: if_splits)
  next
    case False
    then show ?thesis using that assms(1) unfolding outbound_unique_def by (auto split: if_splits)
  qed
  moreover have "dict_ok (dict_set rows (at_id c) c)" using assms(1) by (simp add: outbound_unique_def)
  moreover have "at_id r = i \<and> (at_dir r = Outbound_dir \<longrightarrow> at_state r = At_ready)" if "dict_get (dict_set rows (at_id c) c) i = Some r" for i r
    using that assms(1,4) by (auto simp: outbound_unique_def split: if_splits)
  ultimately show ?thesis unfolding outbound_unique_def by blast
qed

lemma insert_outboundD: "insert_outbound c rows = Inr rows' \<Longrightarrow> dict_get rows (at_id c) = None \<and> rows' = dict_set rows (at_id c) c"
  by (auto simp: insert_outbound_def split: if_splits)

lemma resolve_candidateD:
  assumes "resolve_candidate c seen files rows = Inr (r, seen', rows')" "outbound_unique rows" "seen_ok seen rows"
    and "at_dir c = Outbound_dir" "at_state c = At_ready"
  shows "outbound_unique rows'" "seen_ok seen' rows'" "resolved rows' c r"
    and "(rows' = rows \<and> dict_get rows (at_id r) = Some r) \<or> (dict_get rows (at_id c) = None \<and> rows' = dict_set rows (at_id c) c \<and> r = c)"
proof -
  consider (seen) "dict_get seen (content_key c) = Some r" "seen' = seen" "rows' = rows"
    | (old) "read_outbound_for c files rows = Inr (Some r)" "seen' = dict_set seen (content_key c) r" "rows' = rows"
    | (new) "read_outbound_for c files rows = Inr None" "dict_get rows (at_id c) = None" "rows' = dict_set rows (at_id c) c"
        "r = c" "seen' = dict_set seen (content_key c) c"
  proof (cases "dict_get seen (content_key c)")
    case None
    note none = this
    consider (fails) e where "read_outbound_for c files rows = Inl e" | (found) q where "read_outbound_for c files rows = Inr (Some q)"
      | (absent) "read_outbound_for c files rows = Inr None"
      by (metis not_Some_eq sumE)
    then show ?thesis
    proof cases
      case fails
      then show ?thesis using none assms(1) by (simp add: resolve_candidate_def)
    next
      case found
      then have "seen' = dict_set seen (content_key c) r" "rows' = rows" "q = r"
        using none assms(1) by (auto simp: resolve_candidate_def)
      then show ?thesis using found by (intro old) simp_all
    next
      case absent
      then have ins: "(case insert_outbound c rows of Inl e \<Rightarrow> Inl e | Inr rows' \<Rightarrow> Inr (c, dict_set seen (content_key c) c, rows')) = Inr (r, seen', rows')"
        using none assms(1) by (simp add: resolve_candidate_def)
      then obtain rows1 where "insert_outbound c rows = Inr rows1" by (cases "insert_outbound c rows") simp_all
      then have "r = c" "seen' = dict_set seen (content_key c) c" "insert_outbound c rows = Inr rows'" using ins by auto
      then show ?thesis using absent insert_outboundD[of c rows rows'] by (intro new) simp_all
    qed
  next
    case (Some q)
    then have "q = r" "seen' = seen" "rows' = rows" using assms(1) by (simp_all add: resolve_candidate_def)
    then show ?thesis using Some by (intro seen) simp_all
  qed
  then have "outbound_unique rows' \<and> seen_ok seen' rows' \<and> resolved rows' c r \<and>
    ((rows' = rows \<and> dict_get rows (at_id r) = Some r) \<or> (dict_get rows (at_id c) = None \<and> rows' = dict_set rows (at_id c) c \<and> r = c))"
  proof cases
    case seen
    then show ?thesis using assms(2,3) seen_okD[OF assms(3) seen(1)] by (simp add: resolved_def)
  next
    case old
    have "resolved rows c r" using read_outbound_forD(1)[OF old(1) assms(2) refl] .
    then show ?thesis using old assms(2) seen_ok_set[OF assms(3)] by (simp add: resolved_def)
  next
    case new
    have "outbound_unique rows'" unfolding new(3)
      by (rule outbound_unique_insert[OF assms(2) new(2) assms(4,5)]) (use read_outbound_forD(2)[OF new(1) assms(2) refl] in blast)
    moreover have res: "resolved rows' c c" using new(3) assms(4) by (simp add: resolved_def)
    moreover have "dict_get rows' i = Some q" if "dict_get rows i = Some q" for i q using that new(2,3) by auto
    then have "seen_ok seen' rows'" unfolding new(5) by (rule seen_ok_set[OF seen_ok_grow[OF assms(3)] res])
    ultimately show ?thesis using new by simp
  qed
  then show "outbound_unique rows'" "seen_ok seen' rows'" "resolved rows' c r"
    and "(rows' = rows \<and> dict_get rows (at_id r) = Some r) \<or> (dict_get rows (at_id c) = None \<and> rows' = dict_set rows (at_id c) c \<and> r = c)"
    by simp_all
qed

lemma batch_fresh_tl:
  assumes "batch_fresh (c # cs) files rows" "\<And>p. p \<noteq> at_path c \<Longrightarrow> dict_get files' p = dict_get files p"
    and "\<And>i r. dict_get rows' i = Some r \<Longrightarrow> dict_get rows i = Some r \<or> r = c"
  shows "batch_fresh cs files' rows'"
proof -
  have "dict_get files' (at_path d) \<noteq> None" if "d \<in> set cs" for d
  proof -
    have "at_path c \<notin> at_path ` set cs" "dict_get files (at_path d) \<noteq> None" using assms(1) that by (auto simp: batch_fresh_def)
    then have "at_path d \<noteq> at_path c" using that by (metis imageI)
    then show ?thesis using \<open>dict_get files (at_path d) \<noteq> None\<close> by (simp add: assms(2))
  qed
  moreover have "at_path r \<noteq> at_path d" if "d \<in> set cs" "dict_get rows' i = Some r" for d i r
    using assms(1) assms(3)[OF that(2)] that by (auto simp: batch_fresh_def)
  ultimately show ?thesis using assms(1) by (auto simp: batch_fresh_def)
qed

lemma resolved_mono: "resolved rows c r \<Longrightarrow> (\<And>i r. dict_get rows i = Some r \<Longrightarrow> dict_get rows' i = Some r) \<Longrightarrow> resolved rows' c r"
  by (simp add: resolved_def)

lemma resolve_candidates_files:
  assumes "resolve_candidates cs seen files rows = (res, files')"
  shows "p \<notin> at_path ` set cs \<Longrightarrow> dict_get files' p = dict_get files p" "dict_get files' p = dict_get files p \<or> dict_get files' p = None"
  using assms
proof (induction cs arbitrary: seen files rows res files')
  case (Cons c cs)
  {
    case 1
    then show ?case using Cons.IH(1) by (auto split: sum.splits if_splits prod.splits)
  next
    case 2
    show ?case
    proof (cases "resolve_candidate c seen files rows")
      case (Inr x)
      then obtain r s1 r1 where x: "resolve_candidate c seen files rows = Inr (r, s1, r1)" by (cases x) auto
      define f1 where "f1 = (if at_path r \<noteq> at_path c then dict_del files (at_path c) else files)"
      obtain res1 f2 where rec: "resolve_candidates cs s1 f1 r1 = (res1, f2)" by (cases "resolve_candidates cs s1 f1 r1")
      have "files' = files \<or> files' = f2" using 2 x rec by (auto simp: f1_def[symmetric] split: if_splits sum.splits)
      moreover have "dict_get f1 p = dict_get files p \<or> dict_get f1 p = None" by (simp add: f1_def)
      ultimately show ?thesis using Cons.IH(2)[OF rec] by auto
    qed (use 2 in simp)
  }
qed simp_all

lemma resolve_candidates_added:
  assumes "resolve_candidates cs seen files rows = (Inr (rs, rows'), files')" "outbound_unique rows" "seen_ok seen rows" "batch_fresh cs files rows"
  shows "batch_added cs files rows files' rows' \<and> list_all2 (resolved rows') cs rs"
  using assms
proof (induction cs arbitrary: seen files rows rs)
  case (Cons c cs)
  obtain r s1 r1 where x: "resolve_candidate c seen files rows = Inr (r, s1, r1)" using Cons.prems(1) by (auto split: sum.splits)
  define f1 where "f1 = (if at_path r \<noteq> at_path c then dict_del files (at_path c) else files)"
  obtain rs1 where rec: "resolve_candidates cs s1 f1 r1 = (Inr (rs1, rows'), files')" and rs: "rs = r # rs1"
    using Cons.prems(1) x by (auto simp: f1_def split: sum.splits if_splits prod.splits)
  have c: "at_dir c = Outbound_dir" "at_state c = At_ready" "\<And>i r. dict_get rows i = Some r \<Longrightarrow> at_path r \<noteq> at_path c"
    using Cons.prems(4) by (auto simp: batch_fresh_def)
  note one = resolve_candidateD[OF x Cons.prems(2,3) c(1,2)]
  have grow: "dict_get rows i = Some q \<Longrightarrow> dict_get r1 i = Some q" and shrink: "dict_get r1 i = Some q \<Longrightarrow> dict_get rows i = Some q \<or> q = c" for i q
    using one(4) by (auto split: if_splits)
  have f1: "p \<noteq> at_path c \<Longrightarrow> dict_get f1 p = dict_get files p" for p by (simp add: f1_def)
  have fresh: "batch_fresh cs f1 r1" by (rule batch_fresh_tl[OF Cons.prems(4) f1 shrink])
  note IH = Cons.IH[OF rec one(1,2) fresh]
  have add: "outbound_unique rows'" "\<And>p. p \<notin> at_path ` set cs \<Longrightarrow> dict_get files' p = dict_get f1 p"
    "\<And>i r. dict_get r1 i = Some r \<Longrightarrow> dict_get rows' i = Some r" "\<And>i r. dict_get rows' i = Some r \<Longrightarrow> dict_get r1 i = Some r \<or> r \<in> set cs"
    using IH unfolding batch_added_def by blast+
  have "at_path c \<notin> at_path ` set cs" using Cons.prems(4) by (auto simp: batch_fresh_def)
  then have fc: "dict_get files' (at_path c) = dict_get f1 (at_path c)" "c \<notin> set cs" using add(2) by auto
  have head: "(dict_get rows' (at_id c) = Some c \<and> dict_get files' (at_path c) = dict_get files (at_path c)) \<or>
      (dict_get files' (at_path c) = None \<and> (\<forall>i. dict_get rows' i \<noteq> Some c))"
  proof (cases "r = c")
    case True
    then have "dict_get r1 (at_id c) = Some c" using one(3) by (simp add: resolved_def)
    then show ?thesis using add(3) fc True by (simp add: f1_def)
  next
    case False
    then have old: "r1 = rows" "dict_get rows (at_id r) = Some r" using one(4) by auto
    then have "at_path r \<noteq> at_path c" using c(3) by blast
    moreover have "dict_get rows' i \<noteq> Some c" for i using add(4)[of i c] fc(2) old(1) c(3) by blast
    ultimately show ?thesis using fc(1) by (simp add: f1_def)
  qed
  have tail: "(dict_get rows' (at_id d) = Some d \<and> dict_get files' (at_path d) = dict_get files (at_path d)) \<or>
      (dict_get files' (at_path d) = None \<and> (\<forall>i. dict_get rows' i \<noteq> Some d))" if "d \<in> set cs" for d
  proof -
    have "at_path d \<noteq> at_path c" using \<open>at_path c \<notin> at_path ` set cs\<close> that by (metis imageI)
    then show ?thesis using IH that f1 unfolding batch_added_def by metis
  qed
  have old: "dict_get rows' i = Some q" if "dict_get rows i = Some q" for i q using add(3)[OF grow[OF that]] .
  have new: "dict_get rows i = Some q \<or> q \<in> set (c # cs)" if "dict_get rows' i = Some q" for i q
    using add(4)[OF that] shrink[of i q] by (metis list.set_intros)
  have rest: "dict_get files' p = dict_get files p" if "p \<notin> at_path ` set (c # cs)" for p
    using add(2)[of p] f1[of p] that by simp
  have "batch_added (c # cs) files rows files' rows'"
    unfolding batch_added_def
  proof (intro conjI allI impI ballI)
    fix d
    assume "d \<in> set (c # cs)"
    then show "(dict_get rows' (at_id d) = Some d \<and> dict_get files' (at_path d) = dict_get files (at_path d)) \<or>
        (dict_get files' (at_path d) = None \<and> (\<forall>i. dict_get rows' i \<noteq> Some d))"
      using head tail[of d] by (cases "d = c") simp_all
  qed (fact add(1), fact rest, fact old, fact new)
  moreover have "resolved rows' c r" using resolved_mono[OF one(3)] add(3) by blast
  ultimately show ?case using IH rs by simp
qed (auto simp: batch_added_def)

subsection \<open>The invariant of batches\<close>

text \<open>The candidates of a call: their files hold their contents, and no row names these files.\<close>

definition call_ok :: "upload_config \<Rightarrow> upload_state \<Rightarrow> media_call \<Rightarrow> bool" where
  "call_ok C u call \<longleftrightarrow> distinct (map at_path (mc_made call)) \<and>
     (\<forall>c \<in> set (mc_made call). at_dir c = Outbound_dir \<and> at_session c = mc_session call \<and> row_ok C (up_files u) [] c \<and>
        (\<forall>i r. dict_get (up_rows u) i = Some r \<longrightarrow> at_path r \<noteq> at_path c))"

definition calls_apart :: "(nat, media_call) dict \<Rightarrow> bool" where
  "calls_apart calls \<longleftrightarrow> dict_ok calls \<and>
     (\<forall>k l a b c d. dict_get calls k = Some a \<longrightarrow> dict_get calls l = Some b \<longrightarrow> c \<in> set (mc_made a) \<longrightarrow> d \<in> set (mc_made b) \<longrightarrow>
        at_path c = at_path d \<longrightarrow> k = l)"

definition file_owned :: "string \<Rightarrow> media_state \<Rightarrow> bool" where
  "file_owned p m \<longleftrightarrow> p \<in> set (md_lost m) \<or> (\<exists>i r. dict_get (up_rows (md_up m)) i = Some r \<and> at_path r = p) \<or>
     (\<exists>k call c. dict_get (md_calls m) k = Some call \<and> c \<in> set (mc_made call) \<and> at_path c = p)"

definition media_ok :: "upload_config \<Rightarrow> media_state \<Rightarrow> bool" where
  "media_ok C m \<longleftrightarrow> uploads_ok C (md_up m) \<and> outbound_unique (up_rows (md_up m)) \<and> calls_apart (md_calls m) \<and>
     (\<forall>k call. dict_get (md_calls m) k = Some call \<longrightarrow> call_ok C (md_up m) call) \<and>
     (\<forall>p. dict_get (up_files (md_up m)) p \<noteq> None \<longrightarrow> file_owned p m)"

lemma media_okD:
  assumes "media_ok C m"
  shows "uploads_ok C (md_up m)" "outbound_unique (up_rows (md_up m))" "calls_apart (md_calls m)"
    and "dict_get (md_calls m) k = Some call \<Longrightarrow> call_ok C (md_up m) call"
    and "dict_get (up_files (md_up m)) p \<noteq> None \<Longrightarrow> file_owned p m"
  using assms unfolding media_ok_def by blast+

lemma media_okI:
  assumes "uploads_ok C (md_up m)" "outbound_unique (up_rows (md_up m))" "calls_apart (md_calls m)"
    and "\<And>k call. dict_get (md_calls m) k = Some call \<Longrightarrow> call_ok C (md_up m) call"
    and "\<And>p. dict_get (up_files (md_up m)) p \<noteq> None \<Longrightarrow> file_owned p m"
  shows "media_ok C m"
  using assms unfolding media_ok_def by blast

lemma call_okD:
  assumes "call_ok C u call"
  shows "distinct (map at_path (mc_made call))"
    and "c \<in> set (mc_made call) \<Longrightarrow> at_dir c = Outbound_dir \<and> at_session c = mc_session call \<and> row_ok C (up_files u) [] c"
    and "c \<in> set (mc_made call) \<Longrightarrow> dict_get (up_rows u) i = Some r \<Longrightarrow> at_path r \<noteq> at_path c"
  using assms unfolding call_ok_def by blast+

lemma calls_apartD:
  "calls_apart calls \<Longrightarrow> dict_get calls k = Some a \<Longrightarrow> dict_get calls l = Some b \<Longrightarrow> c \<in> set (mc_made a) \<Longrightarrow> d \<in> set (mc_made b) \<Longrightarrow>
    at_path c = at_path d \<Longrightarrow> k = l"
  unfolding calls_apart_def by blast

lemma row_ok_file: "row_ok C files body r \<Longrightarrow> dict_get files (at_path r) \<noteq> None"
  by (auto simp: row_ok_def)

lemma row_ok_outbound: "row_ok C files body r \<Longrightarrow> at_dir r = Outbound_dir \<Longrightarrow> dict_get files' (at_path r) = dict_get files (at_path r) \<Longrightarrow> row_ok C files' body' r"
  by (auto simp: row_ok_def)

lemma row_ok_shorter:
  assumes "row_ok C files body r" "at_dir r = Outbound_dir" "dict_get files (at_path r) = Some x" "dict_get files' (at_path r) = Some (take n x)"
  shows "row_ok C files' body' r"
proof -
  have "outbound_row_ok C x r" using assms(1-3) by (auto simp: row_ok_def)
  then have "outbound_row_ok C (take n x) r" unfolding outbound_row_ok_def using take_is_prefix prefix_order.trans by blast
  then show ?thesis using assms by (auto simp: row_ok_def)
qed

lemma uploads_other_files:
  assumes "uploads_ok C u" "up_rows v = up_rows u" "up_log v = up_log u"
    and "\<And>i r. dict_get (up_rows u) i = Some r \<Longrightarrow> dict_get (up_files v) (at_path r) = dict_get (up_files u) (at_path r)"
  shows "uploads_ok C v"
  using assms(1) unfolding uploads_ok_def assms(2,3) by (auto simp: row_ok_def assms(4))

lemma file_owned_mono:
  assumes "file_owned p m" "set (md_lost m) \<subseteq> set (md_lost m')"
    and "\<And>i r. dict_get (up_rows (md_up m)) i = Some r \<Longrightarrow> \<exists>q. dict_get (up_rows (md_up m')) i = Some q \<and> at_path q = at_path r"
    and "\<And>k call c. dict_get (md_calls m) k = Some call \<Longrightarrow> c \<in> set (mc_made call) \<Longrightarrow> at_path c = p \<Longrightarrow>
      p \<in> set (md_lost m') \<or> (\<exists>call'. dict_get (md_calls m') k = Some call' \<and> c \<in> set (mc_made call'))"
  shows "file_owned p m'"
proof -
  consider (lost) "p \<in> set (md_lost m)" | (row) i r where "dict_get (up_rows (md_up m)) i = Some r" "at_path r = p"
    | (made) l other c where "dict_get (md_calls m) l = Some other" "c \<in> set (mc_made other)" "at_path c = p"
    using assms(1) unfolding file_owned_def by blast
  then show ?thesis
  proof cases
    case row
    then show ?thesis using assms(3)[OF row(1)] unfolding file_owned_def by metis
  next
    case made
    then show ?thesis using assms(4)[OF made] unfolding file_owned_def by blast
  qed (use assms(2) in \<open>auto simp: file_owned_def\<close>)
qed

lemma owned_after_del:
  assumes "file_owned p m" "dict_get (md_calls m) k = Some call" "p \<notin> at_path ` set (mc_made call)"
    and "\<And>i r. dict_get (up_rows (md_up m)) i = Some r \<Longrightarrow> \<exists>q. dict_get (up_rows u) i = Some q \<and> at_path q = at_path r"
  shows "file_owned p (m\<lparr>md_up := u, md_bound := bs, md_calls := dict_del (md_calls m) k\<rparr>)"
  by (rule file_owned_mono[OF assms(1)]) (use assms(2-4) in auto)

text \<open>A call ends without a row: its files are gone and nothing else changed.\<close>

lemma media_abandon:
  assumes ok: "media_ok C m" and call: "dict_get (md_calls m) k = Some call"
    and same: "up_rows u = up_rows (md_up m)" "up_log u = up_log (md_up m)"
    and rest: "\<And>p. p \<notin> at_path ` set (mc_made call) \<Longrightarrow> dict_get (up_files u) p = dict_get (up_files (md_up m)) p"
    and gone: "\<And>c. c \<in> set (mc_made call) \<Longrightarrow> dict_get (up_files u) (at_path c) = None"
  shows "media_ok C (m\<lparr>md_up := u, md_calls := dict_del (md_calls m) k\<rparr>)"
proof (rule media_okI)
  note call_ok = media_okD(4)[OF ok call]
  have row: "dict_get (up_files u) (at_path r) = dict_get (up_files (md_up m)) (at_path r)" if "dict_get (up_rows (md_up m)) i = Some r" for i r
    using rest[of "at_path r"] call_okD(3)[OF call_ok _ that] by (metis imageE)
  show "uploads_ok C (md_up (m\<lparr>md_up := u, md_calls := dict_del (md_calls m) k\<rparr>))"
    using uploads_other_files[OF media_okD(1)[OF ok] same row] by simp
  show "outbound_unique (up_rows (md_up (m\<lparr>md_up := u, md_calls := dict_del (md_calls m) k\<rparr>)))" using media_okD(2)[OF ok] same by simp
  show "calls_apart (md_calls (m\<lparr>md_up := u, md_calls := dict_del (md_calls m) k\<rparr>))"
    using media_okD(3)[OF ok] unfolding calls_apart_def by (auto split: if_splits)
  fix l other
  assume "dict_get (md_calls (m\<lparr>md_up := u, md_calls := dict_del (md_calls m) k\<rparr>)) l = Some other"
  then have l: "dict_get (md_calls m) l = Some other" "l \<noteq> k" by (auto split: if_splits)
  note o = media_okD(4)[OF ok l(1)]
  have "dict_get (up_files u) (at_path c) = dict_get (up_files (md_up m)) (at_path c)" if "c \<in> set (mc_made other)" for c
    using rest[of "at_path c"] calls_apartD[OF media_okD(3)[OF ok] l(1) call that] l(2) by (metis imageE)
  then show "call_ok C (md_up (m\<lparr>md_up := u, md_calls := dict_del (md_calls m) k\<rparr>)) other"
    using o same unfolding call_ok_def by (auto intro: row_ok_outbound)
next
  fix p
  assume p: "dict_get (up_files (md_up (m\<lparr>md_up := u, md_calls := dict_del (md_calls m) k\<rparr>))) p \<noteq> None"
  then have n: "p \<notin> at_path ` set (mc_made call)" using gone by auto
  then have "file_owned p m" using media_okD(5)[OF ok] rest p by simp
  then show "file_owned p (m\<lparr>md_up := u, md_calls := dict_del (md_calls m) k\<rparr>)"
    using owned_after_del[OF _ call n, of u "md_bound m"] same(1) by simp
qed

lemma cleanup_candidates_sel [simp]:
  "up_rows (cleanup_candidates cs u) = up_rows u" "up_log (cleanup_candidates cs u) = up_log u" "up_store (cleanup_candidates cs u) = up_store u"
  "dict_get (up_files (cleanup_candidates cs u)) p = (if p \<in> at_path ` set cs then None else dict_get (up_files u) p)"
  by (induction cs arbitrary: u) (simp_all add: cleanup_candidates_def drop_file_def)

text \<open>A call registers its batch.\<close>

lemma media_registers:
  assumes ok: "media_ok C m" and call: "dict_get (md_calls m) k = Some call"
    and added: "batch_added (mc_made call) (up_files (md_up m)) (up_rows (md_up m)) (up_files u) (up_rows u)" and log: "up_log u = up_log (md_up m)"
  shows "media_ok C (m\<lparr>md_up := u, md_bound := bs, md_calls := dict_del (md_calls m) k\<rparr>)"
proof (rule media_okI)
  let ?m = "m\<lparr>md_up := u, md_bound := bs, md_calls := dict_del (md_calls m) k\<rparr>"
  define cs where "cs = mc_made call"
  note c = call_okD[OF media_okD(4)[OF ok call], folded cs_def]
  have new: "outbound_unique (up_rows u)" and rest: "\<And>p. p \<notin> at_path ` set cs \<Longrightarrow> dict_get (up_files u) p = dict_get (up_files (md_up m)) p"
    and old: "\<And>i r. dict_get (up_rows (md_up m)) i = Some r \<Longrightarrow> dict_get (up_rows u) i = Some r"
    and src: "\<And>i r. dict_get (up_rows u) i = Some r \<Longrightarrow> dict_get (up_rows (md_up m)) i = Some r \<or> r \<in> set cs"
    and kept: "\<And>c. c \<in> set cs \<Longrightarrow> (dict_get (up_rows u) (at_id c) = Some c \<and> dict_get (up_files u) (at_path c) = dict_get (up_files (md_up m)) (at_path c)) \<or>
        (dict_get (up_files u) (at_path c) = None \<and> (\<forall>i. dict_get (up_rows u) i \<noteq> Some c))"
    using added unfolding batch_added_def cs_def by blast+
  have id: "at_id r = i" if "dict_get (up_rows u) i = Some r" for i r using new that unfolding outbound_unique_def by blast
  have apart: "at_path r \<notin> at_path ` set cs" if "dict_get (up_rows (md_up m)) i = Some r" for i r using c(3)[OF _ that] by blast
  have rows: "row_ok C (up_files u) (confirmed i (up_log u)) r" if r: "dict_get (up_rows u) i = Some r" for i r
    using src[OF r]
  proof
    assume o: "dict_get (up_rows (md_up m)) i = Some r"
    show ?thesis using uploads_okD(2)[OF media_okD(1)[OF ok] o] rest[OF apart[OF o]] log by (simp add: row_ok_def)
  next
    assume n: "r \<in> set cs"
    then have "dict_get (up_files u) (at_path r) = dict_get (up_files (md_up m)) (at_path r)" using kept[OF n] r by blast
    then show ?thesis using row_ok_outbound c(2)[OF n] by blast
  qed
  have paths: "i = j" if r: "dict_get (up_rows u) i = Some r" and q: "dict_get (up_rows u) j = Some q" and eq: "at_path r = at_path q" for i j r q
  proof -
    consider "dict_get (up_rows (md_up m)) i = Some r" "dict_get (up_rows (md_up m)) j = Some q" | "r \<in> set cs" "q \<in> set cs"
      using src[OF r] src[OF q] apart eq by (metis imageI)
    then show ?thesis
    proof cases
      case 1
      then show ?thesis using uploads_okD(3)[OF media_okD(1)[OF ok]] eq by blast
    next
      case 2
      then have "r = q" using c(1) eq by (auto simp: distinct_map inj_on_def)
      then show ?thesis using id[OF r] id[OF q] by simp
    qed
  qed
  have dok: "dict_ok (up_rows u)" using new by (simp add: outbound_unique_def)
  have "uploads_ok C u" unfolding uploads_ok_def using dok id rows paths by blast
  then show "uploads_ok C (md_up ?m)" by simp
  show "outbound_unique (up_rows (md_up ?m))" using new by simp
  show "calls_apart (md_calls ?m)" using media_okD(3)[OF ok] unfolding calls_apart_def by (auto split: if_splits)
  show "call_ok C (md_up ?m) other" if "dict_get (md_calls ?m) l = Some other" for l other
  proof -
    have l: "dict_get (md_calls m) l = Some other" "l \<noteq> k" using that by (auto split: if_splits)
    note o = call_okD[OF media_okD(4)[OF ok l(1)]]
    have n: "at_path d \<notin> at_path ` set cs" if "d \<in> set (mc_made other)" for d
      using calls_apartD[OF media_okD(3)[OF ok] l(1) call that] l(2) unfolding cs_def by blast
    have "row_ok C (up_files u) [] d" if "d \<in> set (mc_made other)" for d
      using row_ok_outbound o(2)[OF that] rest[OF n[OF that]] by blast
    moreover have "at_path r \<noteq> at_path d" if "d \<in> set (mc_made other)" "dict_get (up_rows u) i = Some r" for d i r
      using src[OF that(2)] o(3)[OF that(1)] n[OF that(1)] by (metis imageI)
    ultimately show ?thesis using o(1,2) by (simp add: call_ok_def)
  qed
  show "file_owned p ?m" if p: "dict_get (up_files (md_up ?m)) p \<noteq> None" for p
  proof (cases "p \<in> at_path ` set cs")
    case True
    then obtain d where "d \<in> set cs" "p = at_path d" by blast
    then have "dict_get (up_rows u) (at_id d) = Some d" using kept[of d] p by auto
    then show ?thesis unfolding file_owned_def using \<open>p = at_path d\<close> by auto
  next
    case False
    then have "file_owned p m" using media_okD(5)[OF ok] p rest by simp
    then show ?thesis by (rule owned_after_del[OF _ call False[unfolded cs_def]]) (use old in blast)
  qed
qed

subsection \<open>Every command keeps the invariant\<close>

lemma start_batch_ok:
  assumes "media_ok C m" "dict_get (md_calls m) k = None" "start_batch k s sources m = Inr m'"
  shows "media_ok C m'"
proof -
  define call where "call = \<lparr>mc_session = s, mc_todo = sources, mc_made = [], mc_total = 0\<rparr>"
  have m': "m' = m\<lparr>md_calls := dict_set (md_calls m) k call\<rparr>" using assms(3) by (simp add: start_batch_def call_def split: if_splits)
  have none: "mc_made call = []" by (simp add: call_def)
  show ?thesis unfolding m'
  proof (rule media_okI)
    show "calls_apart (md_calls (m\<lparr>md_calls := dict_set (md_calls m) k call\<rparr>))"
      using media_okD(3)[OF assms(1)] none unfolding calls_apart_def by (auto split: if_splits)
    show "call_ok C (md_up (m\<lparr>md_calls := dict_set (md_calls m) k call\<rparr>)) other"
      if "dict_get (md_calls (m\<lparr>md_calls := dict_set (md_calls m) k call\<rparr>)) l = Some other" for l other
      using that media_okD(4)[OF assms(1)] none by (auto simp: call_ok_def split: if_splits)
    show "file_owned p (m\<lparr>md_calls := dict_set (md_calls m) k call\<rparr>)" if "dict_get (up_files (md_up (m\<lparr>md_calls := dict_set (md_calls m) k call\<rparr>))) p \<noteq> None" for p
      by (rule file_owned_mono[OF media_okD(5)[OF assms(1)]]) (use that assms(2) in auto)
  qed (use media_okD(1,2)[OF assms(1)] in simp_all)
qed

lemma copy_limited_length:
  "copy_limited cap n w bs = Inr (k, c) \<Longrightarrow> n = int (length w) \<Longrightarrow> n \<le> cap \<Longrightarrow> k = int (length c) \<and> k \<le> cap"
  by (induction cap n w bs rule: copy_limited.induct) (auto split: if_splits)

lemma copy_outboundD:
  assumes "copy_outbound C src path u = Inr (k, c)"
  shows "k = int (length c)" "0 < k" "k \<le> ug_max C" "dict_get (up_files u) path = None"
  using assms copy_limited_length[of "ug_max C" 0 "[]" "src_blocks src" k c]
  by (auto simp: copy_outbound_def split: if_splits sum.splits)

lemma snapshot_candidateD:
  assumes "snapshot_candidate C guess s src override path i now u = (Inr c, v)"
  shows "\<exists>x. v = put_file path x u \<and> at_path c = path \<and> at_dir c = Outbound_dir \<and> at_session c = s \<and> at_id c = i \<and> row_ok C (up_files v) [] c"
proof -
  obtain n t where a: "(case override of None \<Rightarrow> outbound_metadata guess s src u | Some (n, t) \<Rightarrow> checked_metadata n t) = Inr (n, t)"
    using assms by (cases "case override of None \<Rightarrow> outbound_metadata guess s src u | Some (n, t) \<Rightarrow> checked_metadata n t") (auto simp: snapshot_candidate_def)
  obtain k x where b: "copy_outbound C src path u = Inr (k, x)" using assms a by (auto simp: snapshot_candidate_def split: sum.splits)
  note k = copy_outboundD[OF b]
  have c: "c = \<lparr>at_id = i, at_device = None, at_session = s, at_dir = Outbound_dir, at_name = n, at_type = t, at_size = k,
      at_sha = ug_digest C x, at_path = path, at_done = k, at_state = At_ready, at_created = now, at_updated = now\<rparr>" "v = put_file path x u"
    using assms unfolding snapshot_candidate_def a b by simp_all
  have "row_ok C (up_files v) [] c" unfolding c using k(1-3) by (auto simp: row_ok_def outbound_row_ok_def)
  then show ?thesis using c by auto
qed

lemma snapshot_candidate_error:
  assumes "snapshot_candidate C guess s src override path i now u = (Inl e, v)" "dict_get (up_files u) path = None"
  shows "up_rows v = up_rows u \<and> up_log v = up_log u \<and> dict_get (up_files v) p = dict_get (up_files u) p"
  using assms by (auto simp: snapshot_candidate_def drop_file_def split: sum.splits)

lemma media_grows:
  assumes ok: "media_ok C m" and call: "dict_get (md_calls m) k = Some call" and fresh: "dict_get (up_files (md_up m)) (at_path c) = None"
    and c: "at_dir c = Outbound_dir" "at_session c = mc_session call" "row_ok C (dict_set (up_files (md_up m)) (at_path c) x) [] c"
    and call': "mc_made call' = mc_made call @ [c]" "mc_session call' = mc_session call"
  shows "media_ok C (m\<lparr>md_up := put_file (at_path c) x (md_up m), md_calls := dict_set (md_calls m) k call'\<rparr>)"
proof -
  let ?m = "m\<lparr>md_up := put_file (at_path c) x (md_up m), md_calls := dict_set (md_calls m) k call'\<rparr>"
  have rows: "at_path r \<noteq> at_path c" if "dict_get (up_rows (md_up m)) i = Some r" for i r
    using row_ok_file[OF uploads_okD(2)[OF media_okD(1)[OF ok] that]] fresh by metis
  have made: "at_path d \<noteq> at_path c" if "dict_get (md_calls m) l = Some other" "d \<in> set (mc_made other)" for l other d
    using row_ok_file call_okD(2)[OF media_okD(4)[OF ok that(1)] that(2)] fresh by metis
  have old: "call_ok C (put_file (at_path c) x (md_up m)) other" if "dict_get (md_calls m) l = Some other" for l other
  proof -
    have "row_ok C (dict_set (up_files (md_up m)) (at_path c) x) [] d" if "d \<in> set (mc_made other)" for d
      using call_okD(2)[OF media_okD(4)[OF ok \<open>dict_get (md_calls m) l = Some other\<close>] that] made[OF \<open>dict_get (md_calls m) l = Some other\<close> that]
      by (auto intro: row_ok_outbound)
    then show ?thesis using media_okD(4)[OF ok that] by (simp add: call_ok_def)
  qed
  have "at_path c \<notin> at_path ` set (mc_made call)" using made[OF call] by (metis imageE)
  then have mine: "call_ok C (put_file (at_path c) x (md_up m)) call'" using old[OF call] c call' rows by (auto simp: call_ok_def)
  show ?thesis
  proof (rule media_okI)
    have "uploads_ok C (put_file (at_path c) x (md_up m))" by (rule put_fresh_file[OF media_okD(1)[OF ok] fresh])
    then show "uploads_ok C (md_up ?m)" by simp
    show "outbound_unique (up_rows (md_up ?m))" using media_okD(2)[OF ok] by simp
    show "calls_apart (md_calls ?m)"
      unfolding calls_apart_def
    proof (intro conjI allI impI)
      fix i j a b d e
      assume ab: "dict_get (md_calls ?m) i = Some a" "dict_get (md_calls ?m) j = Some b" and de: "d \<in> set (mc_made a)" "e \<in> set (mc_made b)" "at_path d = at_path e"
      have split: "(\<exists>z. dict_get (md_calls m) l = Some z \<and> f \<in> set (mc_made z)) \<or> (l = k \<and> f = c)"
        if "dict_get (md_calls ?m) l = Some y" "f \<in> set (mc_made y)" for l y f
        using that call call'(1) by (auto split: if_splits)
      show "i = j" using split[OF ab(1) de(1)] split[OF ab(2) de(2)] de(3) made calls_apartD[OF media_okD(3)[OF ok]] by metis
    qed (use media_okD(3)[OF ok] in \<open>simp add: calls_apart_def\<close>)
    show "call_ok C (md_up ?m) other" if "dict_get (md_calls ?m) l = Some other" for l other
      using that old mine by (auto split: if_splits)
    show "file_owned p ?m" if p: "dict_get (up_files (md_up ?m)) p \<noteq> None" for p
    proof (cases "p = at_path c")
      case True
      show ?thesis unfolding file_owned_def by (intro disjI2 exI[of _ k] exI[of _ call'] exI[of _ c]) (use call' True in simp)
    next
      case False
      then have "file_owned p m" using media_okD(5)[OF ok] p by simp
      then show ?thesis by (rule file_owned_mono) (use call call' in auto)
    qed
  qed
qed

lemma unlink_all_files:
  "unlink_all cs files = (e, files') \<Longrightarrow> p \<notin> at_path ` set cs \<Longrightarrow> dict_get files' p = dict_get files p"
  "unlink_all cs files = (e, files') \<Longrightarrow> dict_get files p = None \<Longrightarrow> dict_get files' p = None"
  "unlink_all cs files = (None, files') \<Longrightarrow> c \<in> set cs \<Longrightarrow> dict_get files' (at_path c) = None"
proof (induction cs arbitrary: files p e)
  case (Cons d cs)
  {
    case 1
    then show ?case using Cons.IH(1) by (auto split: if_splits)
  next
    case 2
    then show ?case using Cons.IH(2)[of "dict_del files (at_path d)"] by (auto split: if_splits)
  next
    case 3
    then show ?case using Cons.IH(2)[of "dict_del files (at_path d)" None "at_path d"] Cons.IH(3)[of "dict_del files (at_path d)"] by (auto split: if_splits)
  }
qed simp_all

definition rows_kept :: "attachment list \<Rightarrow> upload_state \<Rightarrow> upload_state \<Rightarrow> bool" where
  "rows_kept cs u v \<longleftrightarrow> up_rows v = up_rows u \<and> up_log v = up_log u \<and> up_store v = up_store u \<and>
     (\<forall>p. p \<notin> at_path ` set cs \<longrightarrow> dict_get (up_files v) p = dict_get (up_files u) p)"

lemma create_or_read_cases:
  assumes "create_or_read cs message bs u = (res, bs', v)"
  shows "(\<exists>e. res = Inl e) \<and> bs' = bs \<and> rows_kept cs u v \<or>
    (\<exists>mid rs. message = Some mid \<and> res = Inr rs \<and> bs' = bs \<and> read_message_outbound mid (at_session (hd cs)) bs u = Inr rs \<and> rs \<noteq> [] \<and> length rs = length cs \<and>
       rows_kept cs u v \<and> (\<forall>c \<in> set cs. dict_get (up_files v) (at_path c) = None)) \<or>
    (\<exists>rs rows files. res = Inr rs \<and> resolve_candidates cs [] (up_files u) (up_rows u) = (Inr (rs, rows), files) \<and>
       v = u\<lparr>up_rows := rows, up_files := files\<rparr> \<and> (case message of None \<Rightarrow> Inr bs | Some mid \<Rightarrow> bind_message mid 0 rs bs) = Inr bs')"
proof -
  have keep: "rows_kept cs u u" by (simp add: rows_kept_def)
  consider (bad) "cs = [] \<or> (\<exists>e. first_error (validate_candidate (up_files u)) cs = Some e) \<or>
        (\<exists>e. (case message of None \<Rightarrow> Inr [] | Some mid \<Rightarrow> read_message_outbound mid (at_session (hd cs)) bs u) = Inl e)"
    | (good) bound where "cs \<noteq> []" "first_error (validate_candidate (up_files u)) cs = None"
        "(case message of None \<Rightarrow> Inr [] | Some mid \<Rightarrow> read_message_outbound mid (at_session (hd cs)) bs u) = Inr bound"
    by (cases "case message of None \<Rightarrow> Inr [] | Some mid \<Rightarrow> read_message_outbound mid (at_session (hd cs)) bs u") auto
  then show ?thesis
  proof cases
    case bad
    then have "\<exists>e. create_or_read cs message bs u = (Inl e, bs, u)" by (auto simp: create_or_read_def split: option.split)
    then show ?thesis using assms keep by auto
  next
    case good
    show ?thesis
    proof (cases "bound = []")
      case False
      then obtain mid where mid: "message = Some mid" "read_message_outbound mid (at_session (hd cs)) bs u = Inr bound" using good(3) by (cases message) auto
      obtain e files where un: "unlink_all cs (up_files u) = (e, files)" by (cases "unlink_all cs (up_files u)")
      have "rows_kept cs u (u\<lparr>up_files := files\<rparr>)" using unlink_all_files(1)[OF un] by (auto simp: rows_kept_def)
      then show ?thesis using assms good(1,2) mid False keep un unlink_all_files(3)[of cs "up_files u" files]
        by (cases e) (auto simp: create_or_read_def split: if_splits)
    next
      case True
      obtain x files where re: "resolve_candidates cs [] (up_files u) (up_rows u) = (x, files)" by (cases "resolve_candidates cs [] (up_files u) (up_rows u)")
      have kept: "rows_kept cs u (u\<lparr>up_files := files\<rparr>)" using resolve_candidates_files(1)[OF re] by (auto simp: rows_kept_def)
      define bound' where "bound' rs = (case message of None \<Rightarrow> Inr bs | Some mid \<Rightarrow> bind_message mid 0 rs bs)" for rs
      have unf: "create_or_read cs message bs u = (case x of Inl e \<Rightarrow> (Inl e, bs, u\<lparr>up_files := files\<rparr>)
          | Inr (rs, rows) \<Rightarrow> (case bound' rs of Inl e \<Rightarrow> (Inl e, bs, u\<lparr>up_files := files\<rparr>) | Inr bs' \<Rightarrow> (Inr rs, bs', u\<lparr>up_rows := rows, up_files := files\<rparr>)))"
        using good True re by (auto simp: create_or_read_def bound'_def[symmetric] split: sum.split)
      show ?thesis
      proof (cases x)
        case (Inr y)
        obtain rs rows where y: "y = (rs, rows)" by (cases y)
        show ?thesis using assms kept re Inr y unfolding unf bound'_def[of rs, symmetric]
          by (cases "bound' rs") (auto simp: bound'_def)
      qed (use assms kept unf in auto)
    qed
  qed
qed

lemma call_batch_fresh:
  assumes "call_ok C u call"
  shows "batch_fresh (mc_made call) (up_files u) (up_rows u)"
proof -
  have "at_state c = At_ready \<and> dict_get (up_files u) (at_path c) \<noteq> None" if "c \<in> set (mc_made call)" for c
    using call_okD(2)[OF assms that] by (auto simp: row_ok_def outbound_row_ok_def)
  then show ?thesis using assms by (auto simp: batch_fresh_def call_ok_def)
qed

lemma seen_ok_empty [simp]: "seen_ok [] rows"
  by (simp add: seen_ok_def)

lemma end_batch_ok:
  assumes "media_ok C m" "dict_get (md_calls m) k = Some call" "rows_kept cs (md_up m) u"
    and "set (mc_made call) \<subseteq> set cs" "\<And>c. c \<in> set cs \<Longrightarrow> c \<notin> set (mc_made call) \<Longrightarrow> dict_get (up_files (md_up m)) (at_path c) = None"
  shows "media_ok C (end_batch k cs (m\<lparr>md_up := u\<rparr>))"
proof -
  have rest: "dict_get (up_files (cleanup_candidates cs u)) p = dict_get (up_files (md_up m)) p" if "p \<notin> at_path ` set (mc_made call)" for p
    using assms(3,5) that by (auto simp: rows_kept_def image_iff)
  have gone: "dict_get (up_files (cleanup_candidates cs u)) (at_path c) = None" if "c \<in> set (mc_made call)" for c
    using assms(4) that by auto
  have same: "up_rows (cleanup_candidates cs u) = up_rows (md_up m)" "up_log (cleanup_candidates cs u) = up_log (md_up m)"
    using assms(3) by (simp_all add: rows_kept_def)
  show ?thesis using media_abandon[OF assms(1,2) same rest gone] by (simp add: end_batch_def)
qed

lemma snapshot_next_ok:
  assumes ok: "media_ok C m" and call: "dict_get (md_calls m) k = Some call" and fresh: "dict_get (up_files (md_up m)) path = None"
  shows "media_ok C (snd (snapshot_next C guess k call path millis rand now m))"
proof (cases "mc_todo call")
  case Nil
  then show ?thesis using ok by (simp add: snapshot_next_def)
next
  case (Cons todo rest)
  obtain src override where todo: "todo = (src, override)" by (cases todo)
  obtain res u where snap: "snapshot_candidate C guess (mc_session call) src override path (new_outbound_id millis rand) now (md_up m) = (res, u)"
    by (cases "snapshot_candidate C guess (mc_session call) src override path (new_outbound_id millis rand) now (md_up m)")
  show ?thesis
  proof (cases res)
    case (Inl e)
    have "up_store u = up_store (md_up m)"
      using snap Inl by (auto simp: snapshot_candidate_def drop_file_def split: sum.splits)
    then have "rows_kept (mc_made call) (md_up m) u"
      using snapshot_candidate_error[OF snap[unfolded Inl] fresh] by (simp add: rows_kept_def)
    then show ?thesis using end_batch_ok[OF ok call, of "mc_made call"] Cons todo snap Inl by (simp add: snapshot_next_def)
  next
    case (Inr c)
    obtain x where c: "u = put_file path x (md_up m)" "at_path c = path" "at_dir c = Outbound_dir" "at_session c = mc_session call" "row_ok C (up_files u) [] c"
      using snapshot_candidateD[OF snap[unfolded Inr]] by blast
    define call' where "call' = call\<lparr>mc_todo := rest, mc_made := mc_made call @ [c], mc_total := mc_total call + at_size c\<rparr>"
    have "media_ok C (m\<lparr>md_up := u, md_calls := dict_set (md_calls m) k call'\<rparr>)"
      unfolding c(1) c(2)[symmetric] by (rule media_grows[OF ok call]) (use c fresh in \<open>simp_all add: call'_def\<close>)
    moreover have "media_ok C (end_batch k (mc_made call @ [c]) (m\<lparr>md_up := u\<rparr>))"
      by (rule end_batch_ok[OF ok call]) (use c fresh in \<open>auto simp: rows_kept_def\<close>)
    ultimately show ?thesis using Cons todo snap Inr by (simp add: snapshot_next_def Let_def call'_def)
  qed
qed

lemma register_batch_ok:
  assumes ok: "media_ok C m" and call: "dict_get (md_calls m) k = Some call"
  shows "media_ok C (snd (register_batch k call message m))"
proof -
  obtain res bs u where r: "create_or_read (mc_made call) message (md_bound m) (md_up m) = (res, bs, u)"
    by (metis prod_cases3)
  have fails: "media_ok C (end_batch k (mc_made call) (m\<lparr>md_up := u\<rparr>))" if "rows_kept (mc_made call) (md_up m) u"
    by (rule end_batch_ok[OF ok call that]) simp_all
  have bound: "media_ok C (m\<lparr>md_up := u, md_bound := md_bound m, md_calls := dict_del (md_calls m) k\<rparr>)"
    if k: "rows_kept (mc_made call) (md_up m) u" and "\<forall>c \<in> set (mc_made call). dict_get (up_files u) (at_path c) = None"
    using media_abandon[OF ok call, of u] that by (simp add: rows_kept_def)
  have new: "media_ok C (m\<lparr>md_up := u, md_bound := bs, md_calls := dict_del (md_calls m) k\<rparr>)"
    if "resolve_candidates (mc_made call) [] (up_files (md_up m)) (up_rows (md_up m)) = (Inr (rs, rows), files)" "u = md_up m\<lparr>up_rows := rows, up_files := files\<rparr>" for rs rows files
  proof -
    have "batch_added (mc_made call) (up_files (md_up m)) (up_rows (md_up m)) files rows"
      using resolve_candidates_added[OF that(1) media_okD(2)[OF ok] seen_ok_empty call_batch_fresh[OF media_okD(4)[OF ok call]]] by blast
    then show ?thesis using media_registers[OF ok call, of u bs] that(2) by simp
  qed
  show ?thesis using create_or_read_cases[OF r]
  proof (elim disjE exE conjE)
    fix e
    assume "res = Inl e" "rows_kept (mc_made call) (md_up m) u"
    then show ?thesis using fails r by (simp add: register_batch_def)
  next
    fix mid rs
    assume "res = Inr rs" "bs = md_bound m" "rows_kept (mc_made call) (md_up m) u" "\<forall>c \<in> set (mc_made call). dict_get (up_files u) (at_path c) = None"
    then show ?thesis using bound r by (simp add: register_batch_def)
  next
    fix rs rows files
    assume "res = Inr rs" "resolve_candidates (mc_made call) [] (up_files (md_up m)) (up_rows (md_up m)) = (Inr (rs, rows), files)"
      "u = md_up m\<lparr>up_rows := rows, up_files := files\<rparr>"
    then show ?thesis using new r by (simp add: register_batch_def)
  qed
qed

lemma commit_events_added:
  assumes "commit_events ds i envelope now s = Inr (es, s')"
  shows "map ie_device es = ds \<and> ms_inbox s' = ms_inbox s @ es \<and> (\<forall>e \<in> set es. ie_id e = i \<and> ie_envelope e = envelope) \<and> ms_devices s' = ms_devices s"
  using assms
proof (induction ds arbitrary: s es)
  case (Cons d ds)
  obtain c where c: "dict_get (ms_cursors s) d = Some c" using Cons.prems by (auto split: option.splits)
  define e where "e = \<lparr>ie_device = d, ie_seq = cu_next c, ie_id = i, ie_envelope = envelope, ie_created = now\<rparr>"
  obtain s1 where s1: "store_event e s = Inr s1" using Cons.prems c by (auto simp: e_def Let_def split: sum.splits)
  obtain fs where fs: "commit_events ds i envelope now s1 = Inr (fs, s')" "es = e # fs"
    using Cons.prems c s1 by (auto simp: e_def Let_def split: sum.splits)
  have "ms_inbox s1 = ms_inbox s @ [e] \<and> ms_devices s1 = ms_devices s"
    using s1 by (auto simp: store_event_def insert_event_def put_cursor_def split: if_splits option.splits)
  then show ?case using Cons.IH[OF fs(1)] fs(2) by (simp add: e_def)
qed simp

lemma publish_cases:
  assumes "publish_with_attachments cs event_id build now u = (res, v)"
  shows "(\<exists>e. res = Inl e) \<and> rows_kept cs u v \<or>
    (\<exists>rs es rows files st devices. res = Inr (rs, es) \<and> resolve_candidates cs [] (up_files u) (up_rows u) = (Inr (rs, rows), files) \<and>
       list_active_devices (up_store u) = Inr devices \<and> commit_events (map dv_id devices) event_id (build rs) now (up_store u) = Inr (es, st) \<and>
       v = u\<lparr>up_rows := rows, up_files := files, up_store := st\<rparr>)"
proof (cases "list_active_devices (up_store u)")
  case (Inl e)
  then show ?thesis using assms by (auto simp: publish_with_attachments_def rows_kept_def)
next
  case (Inr devices)
  have keep: "rows_kept cs u u" by (simp add: rows_kept_def)
  obtain x files where re: "resolve_candidates cs [] (up_files u) (up_rows u) = (x, files)" by (cases "resolve_candidates cs [] (up_files u) (up_rows u)")
  have kept: "rows_kept cs u (u\<lparr>up_files := files\<rparr>)" using resolve_candidates_files(1)[OF re] by (auto simp: rows_kept_def)
  define ds where "ds = map dv_id devices"
  consider (bad) e where "commit_outbound_event cs ds event_id build now u = (Inl e, u)"
    | (good) "commit_outbound_event cs ds event_id build now u = (case x of Inl e \<Rightarrow> (Inl e, u\<lparr>up_files := files\<rparr>)
            | Inr (rs, rows) \<Rightarrow>
                if build rs = [] then (Inl At_value, u\<lparr>up_files := files\<rparr>)
                else (case commit_events ds event_id (build rs) now (up_store u) of
                    Inl e \<Rightarrow> (Inl (At_store e), u\<lparr>up_files := files\<rparr>)
                  | Inr (es, st) \<Rightarrow> (Inr (rs, es), u\<lparr>up_rows := rows, up_files := files, up_store := st\<rparr>)))"
  proof (cases "cs = [] \<or> first_error (validate_candidate (up_files u)) cs \<noteq> None \<or> [] \<in> set ds \<or> ds = [] \<or> \<not> distinct ds \<or> event_id = []")
    case True
    then have "\<exists>e. commit_outbound_event cs ds event_id build now u = (Inl e, u)" by (auto simp: commit_outbound_event_def split: option.split)
    then show ?thesis using bad by blast
  next
    case False
    then show ?thesis by (intro good) (simp add: commit_outbound_event_def re)
  qed
  then show ?thesis
  proof cases
    case bad
    then show ?thesis using assms Inr keep by (auto simp: publish_with_attachments_def ds_def)
  next
    case good
    show ?thesis
    proof (cases x)
      case (Inl e)
      then show ?thesis using assms good Inr kept by (auto simp: publish_with_attachments_def ds_def)
    next
      case (Inr y)
      obtain rs rows where y: "y = (rs, rows)" by (cases y)
      show ?thesis
      proof (cases "commit_events ds event_id (build rs) now (up_store u)")
        case (Inl e)
        then show ?thesis using assms good \<open>x = Inr y\<close> y kept \<open>list_active_devices (up_store u) = Inr devices\<close>
          by (auto simp: publish_with_attachments_def ds_def split: if_splits)
      next
        case (Inr z)
        obtain es st where z: "z = (es, st)" by (cases z)
        show ?thesis using assms good \<open>x = Inr y\<close> y z Inr kept re \<open>list_active_devices (up_store u) = Inr devices\<close>
          by (auto simp: publish_with_attachments_def ds_def split: if_splits)
      qed
    qed
  qed
qed

lemma publish_batch_ok:
  assumes ok: "media_ok C m" and call: "dict_get (md_calls m) k = Some call"
  shows "media_ok C (snd (publish_batch k call event_id build now m))"
proof -
  obtain res u where r: "publish_with_attachments (mc_made call) event_id build now (md_up m) = (res, u)"
    by (cases "publish_with_attachments (mc_made call) event_id build now (md_up m)")
  have new: "media_ok C (m\<lparr>md_up := u, md_calls := dict_del (md_calls m) k\<rparr>)"
    if "resolve_candidates (mc_made call) [] (up_files (md_up m)) (up_rows (md_up m)) = (Inr (rs, rows), files)"
      "u = md_up m\<lparr>up_rows := rows, up_files := files, up_store := st\<rparr>" for rs rows files st
  proof -
    have "batch_added (mc_made call) (up_files (md_up m)) (up_rows (md_up m)) files rows"
      using resolve_candidates_added[OF that(1) media_okD(2)[OF ok] seen_ok_empty call_batch_fresh[OF media_okD(4)[OF ok call]]] by blast
    then show ?thesis using media_registers[OF ok call, of u "md_bound m"] that(2) by simp
  qed
  show ?thesis using publish_cases[OF r]
  proof (elim disjE exE conjE)
    fix e
    assume "res = Inl e" "rows_kept (mc_made call) (md_up m) u"
    then show ?thesis using end_batch_ok[OF ok call, of "mc_made call"] r by (simp add: publish_batch_def)
  next
    fix rs es rows files st devices
    assume "res = Inr (rs, es)" "resolve_candidates (mc_made call) [] (up_files (md_up m)) (up_rows (md_up m)) = (Inr (rs, rows), files)"
      "u = md_up m\<lparr>up_rows := rows, up_files := files, up_store := st\<rparr>"
    then show ?thesis using new r by (simp add: publish_batch_def)
  qed
qed

lemma batch_dies_ok:
  assumes ok: "media_ok C m" and call: "dict_get (md_calls m) k = Some call"
  shows "media_ok C (m\<lparr>md_calls := dict_del (md_calls m) k, md_lost := map at_path (mc_made call) @ md_lost m\<rparr>)"
proof (rule media_okI)
  let ?m = "m\<lparr>md_calls := dict_del (md_calls m) k, md_lost := map at_path (mc_made call) @ md_lost m\<rparr>"
  show "calls_apart (md_calls ?m)" using media_okD(3)[OF ok] unfolding calls_apart_def by (auto split: if_splits)
  show "call_ok C (md_up ?m) other" if "dict_get (md_calls ?m) l = Some other" for l other
    using that media_okD(4)[OF ok] by (auto split: if_splits)
  show "file_owned p ?m" if "dict_get (up_files (md_up ?m)) p \<noteq> None" for p
    by (rule file_owned_mono[OF media_okD(5)[OF ok]]) (use that call in auto)
qed (use media_okD(1,2)[OF ok] in simp_all)

lemma upload_cmd_ok:
  assumes ok: "media_ok C m"
  shows "media_ok C (m\<lparr>md_up := upload_exec C cmd (md_up m), md_lost := dying_path cmd @ md_lost m\<rparr>)"
proof (rule media_okI)
  let ?m = "m\<lparr>md_up := upload_exec C cmd (md_up m), md_lost := dying_path cmd @ md_lost m\<rparr>"
  define u where "u = md_up m"
  define v where "v = upload_exec C cmd u"
  note fr = upload_exec_frame[of cmd u C, folded v_def]
  have v: "uploads_ok C v" unfolding v_def u_def by (rule upload_exec_ok[OF media_okD(1)[OF ok]])
  then show "uploads_ok C (md_up ?m)" by (simp add: v_def u_def)
  have out: "dict_get (up_rows u) i = Some r" if r: "dict_get (up_rows v) i = Some r" "at_dir r = Outbound_dir" for i r
  proof -
    have "dict_get (up_rows u) i \<noteq> None" using upload_frameD(2)[OF fr r(1)] r(2) by auto
    then show ?thesis using upload_frameD(1)[OF fr] r by fastforce
  qed
  have u: "outbound_unique (up_rows u)" using media_okD(2)[OF ok] by (simp add: u_def)
  have "at_state r = At_ready" if "dict_get (up_rows v) i = Some r" "at_dir r = Outbound_dir" for i r
    using u out[OF that] that(2) unfolding outbound_unique_def by blast
  moreover have "i = j" if "dict_get (up_rows v) i = Some r" "dict_get (up_rows v) j = Some q" "at_dir r = Outbound_dir" "at_dir q = Outbound_dir"
      "content_key r = content_key q" for i j r q
    using u out[OF that(1,3)] out[OF that(2,4)] that(3-5) unfolding outbound_unique_def by blast
  ultimately have "outbound_unique (up_rows v)" using v unfolding outbound_unique_def uploads_ok_def by blast
  then show "outbound_unique (up_rows (md_up ?m))" by (simp add: v_def u_def)
  show "calls_apart (md_calls ?m)" using media_okD(3)[OF ok] by simp
  show "call_ok C (md_up ?m) call" if "dict_get (md_calls ?m) k = Some call" for k call
  proof -
    have call: "call_ok C u call" using media_okD(4)[OF ok] that by (simp add: u_def)
    have "row_ok C (up_files v) [] c" if c: "c \<in> set (mc_made call)" for c
    proof -
      obtain x where x: "dict_get (up_files u) (at_path c) = Some x" using call_okD(2)[OF call c] by (auto simp: row_ok_def)
      obtain n where "dict_get (up_files v) (at_path c) = Some (take n x)" using upload_frameD(4)[OF fr x] call_okD(3)[OF call c] by blast
      then show ?thesis using row_ok_shorter[OF _ _ x] call_okD(2)[OF call c] by blast
    qed
    moreover have "at_path r \<noteq> at_path c" if c: "c \<in> set (mc_made call)" and r: "dict_get (up_rows v) i = Some r" for c i r
    proof (cases "dict_get (up_rows u) i")
      case None
      then show ?thesis using upload_frameD(2)[OF fr r] row_ok_file[of C "up_files u" "[]" c] call_okD(2)[OF call c] by auto
    next
      case (Some q)
      then show ?thesis using upload_frameD(1)[OF fr Some] call_okD(3)[OF call c Some] r by auto
    qed
    ultimately show ?thesis using call by (simp add: call_ok_def v_def u_def)
  qed
  show "file_owned p ?m" if p: "dict_get (up_files (md_up ?m)) p \<noteq> None" for p
  proof -
    consider "dict_get (up_files u) p \<noteq> None" | "p \<in> set (dying_path cmd)" | i r where "dict_get (up_rows v) i = Some r" "at_path r = p"
      using upload_frameD(5)[OF fr, of p] p by (auto simp: v_def u_def)
    then show ?thesis
    proof cases
      case 1
      show ?thesis
        by (rule file_owned_mono[OF media_okD(5)[OF ok 1[unfolded u_def]]]) (use upload_frameD(1)[OF fr] in \<open>auto simp: u_def v_def\<close>)
    next
      case 3
      then show ?thesis unfolding file_owned_def by (auto simp: v_def u_def)
    qed (simp add: file_owned_def)
  qed
qed

lemma media_exec_ok:
  assumes "media_ok C m"
  shows "media_ok C (media_exec C guess cmd m)"
proof (cases cmd)
  case (Start_batch k s sources)
  then show ?thesis using assms start_batch_ok[OF assms] by (auto simp: media_exec_def split: sum.split)
next
  case (Upload_cmd c)
  then show ?thesis using upload_cmd_ok[OF assms] by (simp add: media_exec_def)
qed (use assms in \<open>auto simp: media_exec_def snapshot_next_ok register_batch_ok publish_batch_ok batch_dies_ok split: option.split\<close>)

lemma new_media_ok: "media_ok C (new_media st)"
  by (rule media_okI) (simp_all add: new_media_def new_uploads_ok, simp_all add: new_uploads_def outbound_unique_def calls_apart_def)

lemma media_run_ok: "media_ok C m \<Longrightarrow> media_ok C (fold (media_exec C guess) cs m)"
  by (induction cs arbitrary: m) (simp_all add: media_exec_ok)

subsection \<open>Properties of outbound media\<close>

text \<open>
  C31. No outbound content is stored twice and no file is left over.  Whatever snapshots, registrations, commits,
  failures, dying owners and uploads run in whatever order: two outbound records never have the same session,
  name, type, digest and size; a record has its file, which is the beginning of a content with the recorded size
  and digest; and every file is of a record, of a batch in progress, or of an owner that died.
\<close>

theorem media_files_owned:
  assumes "m = fold (media_exec C guess) cs (new_media st)" "dict_get (up_rows (md_up m)) i = Some r" "at_dir r = Outbound_dir"
  shows "(\<exists>x c. dict_get (up_files (md_up m)) (at_path r) = Some x \<and> prefix x c \<and> int (length c) = at_size r \<and> ug_digest C c = at_sha r) \<and>
    (\<forall>j q. dict_get (up_rows (md_up m)) j = Some q \<longrightarrow> at_dir q = Outbound_dir \<longrightarrow>
       (at_session r, at_name r, at_type r, at_sha r, at_size r) = (at_session q, at_name q, at_type q, at_sha q, at_size q) \<longrightarrow> i = j) \<and>
    (\<forall>p. dict_get (up_files (md_up m)) p \<noteq> None \<longrightarrow> p \<in> set (md_lost m) \<or> (\<exists>j q. dict_get (up_rows (md_up m)) j = Some q \<and> at_path q = p) \<or>
       (\<exists>k call c. dict_get (md_calls m) k = Some call \<and> c \<in> set (mc_made call) \<and> at_path c = p))"
proof (intro conjI)
  note ok = media_run_ok[OF new_media_ok, of C guess cs st, folded assms(1)]
  show "\<exists>x c. dict_get (up_files (md_up m)) (at_path r) = Some x \<and> prefix x c \<and> int (length c) = at_size r \<and> ug_digest C c = at_sha r"
    using uploads_okD(2)[OF media_okD(1)[OF ok] assms(2)] assms(3) by (auto simp: row_ok_def outbound_row_ok_def)
  show "\<forall>j q. dict_get (up_rows (md_up m)) j = Some q \<longrightarrow> at_dir q = Outbound_dir \<longrightarrow>
       (at_session r, at_name r, at_type r, at_sha r, at_size r) = (at_session q, at_name q, at_type q, at_sha q, at_size q) \<longrightarrow> i = j"
    using media_okD(2)[OF ok] assms(2,3) unfolding outbound_unique_def content_key_def by blast
  show "\<forall>p. dict_get (up_files (md_up m)) p \<noteq> None \<longrightarrow> p \<in> set (md_lost m) \<or> (\<exists>j q. dict_get (up_rows (md_up m)) j = Some q \<and> at_path q = p) \<or>
       (\<exists>k call c. dict_get (md_calls m) k = Some call \<and> c \<in> set (mc_made call) \<and> at_path c = p)"
    using media_okD(5)[OF ok] unfolding file_owned_def by blast
qed

text \<open>A client downloads with one read per number, which is what \<open>os.read\<close> returned at most.\<close>

fun download :: "string \<Rightarrow> string \<Rightarrow> int \<Rightarrow> nat list \<Rightarrow> upload_state \<Rightarrow> at_error + string" where
  "download s i offset [] u = Inr []"
| "download s i offset (n # ns) u = (case read_outbound_chunk s i offset n u of
     Inl e \<Rightarrow> Inl e
   | Inr ch \<Rightarrow> if oc_eof ch then Inr (oc_data ch)
       else (case download s i (offset + int (length (oc_data ch))) ns u of Inl e \<Rightarrow> Inl e | Inr rest \<Rightarrow> Inr (oc_data ch @ rest)))"

lemma read_chunk_eval:
  assumes "dict_get (up_rows u) i = Some r" "at_dir r = Outbound_dir" "at_state r = At_ready" "i \<noteq> []"
    and "dict_get (up_files u) (at_path r) = Some x" "int (length x) = at_size r" "k < length x"
  shows "read_outbound_chunk (at_session r) i (int k) n u =
    (let y = take (min n max_chunk) (drop k x) in Inr \<lparr>oc_offset = int k, oc_data = y, oc_eof = (k + length y = length x)\<rparr>)"
proof -
  have "(int k + int (length y) = at_size r) = (k + length y = length x)" for y using assms(6) by linarith
  then show ?thesis using assms
    by (simp add: read_outbound_chunk_def require_ready_outbound_def require_row_def read_attachment_def Let_def del: length_take)
qed

lemma take_rest: "take m z @ drop (length (take m z)) z = z"
  by (cases "m \<le> length z") simp_all

lemma download_rest:
  assumes "dict_get (up_rows u) i = Some r" "at_dir r = Outbound_dir" "at_state r = At_ready" "i \<noteq> []"
    and "dict_get (up_files u) (at_path r) = Some x" "int (length x) = at_size r"
  shows "k < length x \<Longrightarrow> list_all (\<lambda>n. 0 < n) ns \<Longrightarrow> length x - k \<le> length ns \<Longrightarrow> download (at_session r) i (int k) ns u = Inr (drop k x)"
proof (induction ns arbitrary: k)
  case (Cons n ns)
  define y where "y = take (min n max_chunk) (drop k x)"
  have y: "0 < length y" "k + length y \<le> length x" using Cons.prems by (auto simp: y_def max_chunk_def)
  have cut: "y @ drop (k + length y) x = drop k x"
    using take_rest[of "min n max_chunk" "drop k x"] by (simp add: y_def[symmetric] add.commute)
  note chunk = read_chunk_eval[OF assms(1-4) assms(5,6) Cons.prems(1), of n, folded y_def]
  show ?case
  proof (cases "k + length y = length x")
    case True
    then show ?thesis using chunk cut by (simp add: Let_def)
  next
    case False
    then have "download (at_session r) i (int (k + length y)) ns u = Inr (drop (k + length y) x)"
    proof (intro Cons.IH)
      have "length x - k \<le> Suc (length ns)" using Cons.prems(3) by simp
      then show "length x - (k + length y) \<le> length ns" using y(1) by linarith
      show "k + length y < length x" using False y(2) by linarith
      show "list_all (\<lambda>n. 0 < n) ns" using Cons.prems(2) by simp
    qed
    then show ?thesis using chunk False cut by (simp add: Let_def)
  qed
qed simp

text \<open>
  A download returns the registered content or fails.  For an outbound record in any reachable state, a
  client that reads from the beginning, whatever each read returns as long as it returns something, gets
  exactly the file, with the recorded size and digest, within as many reads as the file has bytes; or the first
  read fails because the disk lost the end of the file.
\<close>

theorem media_download:
  assumes "m = fold (media_exec C guess) cs (new_media st)" "dict_get (up_rows (md_up m)) i = Some r" "at_dir r = Outbound_dir" "i \<noteq> []"
    and "list_all (\<lambda>n. 0 < n) ns" "nat (at_size r) \<le> length ns"
  shows "case download (at_session r) i 0 ns (md_up m) of
      Inr x \<Rightarrow> dict_get (up_files (md_up m)) (at_path r) = Some x \<and> int (length x) = at_size r \<and> ug_digest C x = at_sha r
    | Inl e \<Rightarrow> e = At_runtime \<and> (\<exists>x. dict_get (up_files (md_up m)) (at_path r) = Some x \<and> int (length x) < at_size r)"
proof -
  note ok = media_run_ok[OF new_media_ok, of C guess cs st, folded assms(1)]
  obtain x c where x: "dict_get (up_files (md_up m)) (at_path r) = Some x" "prefix x c" "int (length c) = at_size r" "ug_digest C c = at_sha r"
    and r: "at_state r = At_ready" "0 < at_size r"
    using uploads_okD(2)[OF media_okD(1)[OF ok] assms(2)] assms(3) by (auto simp: row_ok_def outbound_row_ok_def)
  show ?thesis
  proof (cases "length x = length c")
    case True
    then have "x = c" using x(2) by (metis not_equal_is_parallel parallel_def)
    then have "0 < length x" "length x \<le> length ns" "int (length x) = at_size r" using x(3) r(2) assms(6) by auto
    then have down: "download (at_session r) i 0 ns (md_up m) = Inr x"
      using download_rest[OF assms(2,3) r(1) assms(4) x(1), of 0 ns] assms(5) by simp
    then show ?thesis using \<open>x = c\<close> down x(1,3,4) r(2) by simp
  next
    case False
    then have short: "int (length x) < at_size r" using prefix_length_le[OF x(2)] x(3) by linarith
    obtain n ns' where "ns = n # ns'" using assms(6) r(2) by (cases ns) simp_all
    then show ?thesis using assms(2-4) r x(1) short
      by (simp add: read_outbound_chunk_def require_ready_outbound_def require_row_def read_attachment_def)
  qed
qed

text \<open>
  C32. An event and its attachments are committed together or not at all.  When the batch of a call is published
  in a reachable state, either it fails: rows, inboxes and devices are as before and the files of the batch are
  gone; or it succeeds: there is one record per candidate, with its session, name, type, digest and size and
  ready in the table, and the inbox has grown by exactly one event per active device, with the envelope built
  from these records.
\<close>

theorem publish_atomic:
  assumes "m = fold (media_exec C guess) cs (new_media st)" "dict_get (md_calls m) k = Some call"
    and "publish_batch k call event_id build now m = (res, m')"
  shows "case res of
      Inl e \<Rightarrow> up_rows (md_up m') = up_rows (md_up m) \<and> up_store (md_up m') = up_store (md_up m) \<and>
        (\<forall>p. dict_get (up_files (md_up m')) p = (if p \<in> at_path ` set (mc_made call) then None else dict_get (up_files (md_up m)) p))
    | Inr (rs, es) \<Rightarrow> map content_key rs = map content_key (mc_made call) \<and>
        (\<forall>r \<in> set rs. at_dir r = Outbound_dir \<and> dict_get (up_rows (md_up m')) (at_id r) = Some r) \<and>
        ms_inbox (up_store (md_up m')) = ms_inbox (up_store (md_up m)) @ es \<and>
        (\<exists>devices. list_active_devices (up_store (md_up m)) = Inr devices \<and> map ie_device es = map dv_id devices) \<and>
        (\<forall>e \<in> set es. ie_id e = event_id \<and> ie_envelope e = build rs)"
proof -
  note ok = media_run_ok[OF new_media_ok, of C guess cs st, folded assms(1)]
  obtain x u where p: "publish_with_attachments (mc_made call) event_id build now (md_up m) = (x, u)"
    by (cases "publish_with_attachments (mc_made call) event_id build now (md_up m)")
  show ?thesis using publish_cases[OF p]
  proof (elim disjE exE conjE)
    fix e
    assume "x = Inl e" "rows_kept (mc_made call) (md_up m) u"
    then show ?thesis using assms(3) p by (auto simp: publish_batch_def end_batch_def rows_kept_def)
  next
    fix rs es rows files st' devices
    assume x: "x = Inr (rs, es)" and re: "resolve_candidates (mc_made call) [] (up_files (md_up m)) (up_rows (md_up m)) = (Inr (rs, rows), files)"
      and dev: "list_active_devices (up_store (md_up m)) = Inr devices"
      and ev: "commit_events (map dv_id devices) event_id (build rs) now (up_store (md_up m)) = Inr (es, st')"
      and u: "u = md_up m\<lparr>up_rows := rows, up_files := files, up_store := st'\<rparr>"
    have "list_all2 (resolved rows) (mc_made call) rs"
      using resolve_candidates_added[OF re media_okD(2)[OF ok] seen_ok_empty call_batch_fresh[OF media_okD(4)[OF ok assms(2)]]] by blast
    then have "map content_key rs = map content_key (mc_made call)" "\<forall>r \<in> set rs. at_dir r = Outbound_dir \<and> dict_get rows (at_id r) = Some r"
      by (induction rule: list_all2_induct) (simp_all add: resolved_def)
    then show ?thesis using commit_events_added[OF ev] assms(3) p x u dev by (auto simp: publish_batch_def)
  qed
qed

subsection \<open>Chunk frames\<close>

text \<open>The binary frame of a chunk: four bytes with the length of the header, the JSON header, the data.  The
  parser of the header (a pydantic model) is a parameter.\<close>

record chunk =
  ck_id :: string
  ck_offset :: int
  ck_data :: string

definition max_header :: nat where
  "max_header = 1024"

definition pack32 :: "nat \<Rightarrow> string" where
  "pack32 n = [char_of (n div 16777216), char_of (n div 65536), char_of (n div 256), char_of n]"

fun unpack32 :: "string \<Rightarrow> nat" where
  "unpack32 [a, b, c, d] = ((of_char a * 256 + of_char b) * 256 + of_char c) * 256 + of_char d"
| "unpack32 _ = 0"

text \<open>\<open>json.dumps\<close> with \<open>ensure_ascii=False\<close> leaves characters beyond ASCII as they are.\<close>

definition escape_utf8 :: "char \<Rightarrow> string" where
  "escape_utf8 c = (if (127 :: nat) \<le> of_char c then [c] else escape_char c)"

definition chunk_header :: "string \<Rightarrow> int \<Rightarrow> string" where
  "chunk_header i offset = CHR 0x7B # json_string ''attachment_id'' @ CHR 0x3A # (CHR 0x22 # concat (map escape_utf8 i) @ [CHR 0x22]) @
     CHR 0x2C # json_string ''offset'' @ CHR 0x3A # int_text offset @ [CHR 0x7D]"

definition encode_chunk :: "chunk \<Rightarrow> at_error + string" where
  "encode_chunk c = (let h = chunk_header (ck_id c) (ck_offset c) in
     if max_header < length h then Inl At_value else Inr (pack32 (length h) @ h @ ck_data c))"

definition decode_chunk :: "(string \<Rightarrow> (string \<times> int) option) \<Rightarrow> string \<Rightarrow> at_error + chunk" where
  "decode_chunk parse raw =
     (if length raw < 4 then Inl At_value
      else let n = unpack32 (take 4 raw) in
        if \<not> (1 \<le> n \<and> n \<le> max_header) then Inl At_value
        else if length raw \<le> 4 + n then Inl At_value
        else (case parse (take n (drop 4 raw)) of
            None \<Rightarrow> Inl At_value
          | Some (i, offset) \<Rightarrow> if max_chunk < length (drop (4 + n) raw) then Inl At_value
              else Inr \<lparr>ck_id = i, ck_offset = offset, ck_data = drop (4 + n) raw\<rparr>))"

lemma pack32_length [simp]: "length (pack32 n) = 4"
  by (simp add: pack32_def)

lemma unpack_pack [simp]: "n < 2 ^ 32 \<Longrightarrow> unpack32 (pack32 n) = n"
proof -
  assume "n < 2 ^ 32"
  then have "n div 16777216 < 256" by simp
  then have a: "of_char (char_of (n div 16777216) :: char) = n div 16777216" by simp
  have b: "n div 16777216 * 256 + n div 65536 mod 256 = n div 65536"
    using div_mult_mod_eq[of "n div 65536" 256] by (simp add: div_mult2_eq[symmetric])
  have c: "n div 65536 * 256 + n div 256 mod 256 = n div 256"
    using div_mult_mod_eq[of "n div 256" 256] by (simp add: div_mult2_eq[symmetric])
  show ?thesis using a b c by (simp add: pack32_def)
qed

lemma pack_unpack: "length w = 4 \<Longrightarrow> pack32 (unpack32 w) = w"
proof -
  assume "length w = 4"
  then obtain a b c d where w: "w = [a, b, c, d]" by (auto simp: numeral_eq_Suc length_Suc_conv)
  define m where "m x y = x * 256 + (of_char (y :: char) :: nat)" for x y
  have m: "m x y div 256 = x" "char_of (m x y) = y" for x y
    by (simp_all add: m_def char_of_mod_256[of "x * 256 + of_char y", symmetric] flip: mod_add_left_eq)
  define n where "n = m (m (m (of_char a) b) c) d"
  have "n div 65536 = n div 256 div 256" "n div 16777216 = n div 256 div 256 div 256" by (simp_all add: div_mult2_eq[symmetric])
  then have "pack32 n = [a, b, c, d]" by (simp add: pack32_def n_def m)
  moreover have "unpack32 w = n" by (simp add: w n_def m_def)
  ultimately show ?thesis by (simp add: w)
qed

text \<open>
  C33. A chunk frame is read as it was written, and only such frames are read.  When the parser understands the
  header of a chunk, the frame of the chunk, with one to 128 KiB of data, decodes to that chunk; and a frame
  that decodes is the length of a header within the limit, the header as the parser read it, and all the data,
  which is not empty and within the limit.
\<close>

theorem chunk_frames:
  assumes "parse (chunk_header (ck_id c) (ck_offset c)) = Some (ck_id c, ck_offset c)" "encode_chunk c = Inr raw"
    and "ck_data c \<noteq> []" "length (ck_data c) \<le> max_chunk"
  shows "decode_chunk parse raw = Inr c \<and>
    (\<forall>frame d. decode_chunk parse frame = Inr d \<longrightarrow>
       (\<exists>h. frame = pack32 (length h) @ h @ ck_data d \<and> parse h = Some (ck_id d, ck_offset d) \<and> h \<noteq> [] \<and> length h \<le> max_header \<and>
          ck_data d \<noteq> [] \<and> length (ck_data d) \<le> max_chunk))"
proof (intro conjI allI impI)
  define h where "h = chunk_header (ck_id c) (ck_offset c)"
  have raw: "raw = pack32 (length h) @ h @ ck_data c" "length h \<le> max_header" using assms(2) by (auto simp: encode_chunk_def h_def[symmetric] Let_def split: if_splits)
  have "h \<noteq> []" by (simp add: h_def chunk_header_def)
  then have "1 \<le> length h" by (simp add: Suc_le_eq)
  have "length h < 2 ^ 32" using raw(2) by (simp add: max_header_def)
  moreover have "take 4 raw = pack32 (length h)" "drop 4 raw = h @ ck_data c" "drop (4 + length h) raw = ck_data c" by (simp_all add: raw(1))
  ultimately show "decode_chunk parse raw = Inr c"
    using assms(1,3,4) raw(2) \<open>1 \<le> length h\<close> \<open>h \<noteq> []\<close> by (simp add: decode_chunk_def Let_def h_def[symmetric] raw(1))
next
  fix frame d
  assume dec: "decode_chunk parse frame = Inr d"
  define n where "n = unpack32 (take 4 frame)"
  define h where "h = take n (drop 4 frame)"
  have n: "4 \<le> length frame" "1 \<le> n" "n \<le> max_header" "4 + n < length frame" "parse h = Some (ck_id d, ck_offset d)"
      "ck_data d = drop (4 + n) frame" "length (ck_data d) \<le> max_chunk"
    using dec by (auto simp: decode_chunk_def Let_def n_def[symmetric] h_def[symmetric] split: if_splits option.splits)
  have "length h = n" using n(4) by (simp add: h_def)
  moreover have "pack32 n = take 4 frame" using pack_unpack[of "take 4 frame"] n(1) by (simp add: n_def)
  moreover have "frame = take 4 frame @ h @ drop (4 + n) frame"
    by (metis add.commute append_take_drop_id drop_drop h_def)
  ultimately show "\<exists>h. frame = pack32 (length h) @ h @ ck_data d \<and> parse h = Some (ck_id d, ck_offset d) \<and> h \<noteq> [] \<and> length h \<le> max_header \<and>
          ck_data d \<noteq> [] \<and> length (ck_data d) \<le> max_chunk"
    using n by (intro exI[of _ h]) auto
qed

subsection \<open>A concrete batch\<close>

definition demo_source :: media_source where
  "demo_source = \<lparr>src_path = ''/x'', src_name = ''x'', src_symlink = False, src_openable = True, src_regular = True, src_stat = 2,
     src_blocks = [Some ''h'', Some ''i'', Some []]\<rparr>"

definition demo_media_id :: string where
  "demo_media_id = new_outbound_id 1 2"

definition demo_media :: attachment where
  "demo_media = \<lparr>at_id = demo_media_id, at_device = None, at_session = ''s'', at_dir = Outbound_dir, at_name = ''f.txt'', at_type = ''text/plain'',
     at_size = 2, at_sha = demo_sha, at_path = ''/m'', at_done = 2, at_state = At_ready, at_created = 5, at_updated = 5\<rparr>"

definition demo_call :: media_call where
  "demo_call = \<lparr>mc_session = ''s'', mc_todo = [], mc_made = [demo_media], mc_total = 2\<rparr>"

definition demo_batch :: "media_cmd list" where
  "demo_batch = [Start_batch 0 ''s'' [(demo_source, Some (''f.txt'', ''text/plain''))], Snapshot_next 0 ''/m'' 1 2 5]"

lemma base32_digits_length [simp]: "length (base32_digits k n) = k"
  by (induction k n rule: base32_digits.induct) simp_all

lemma new_outbound_id_length: "length (new_outbound_id millis rand) = 26"
  by (simp add: new_outbound_id_def)

lemma demo_media_id_nonempty: "demo_media_id \<noteq> []"
  using new_outbound_id_length[of 1 2] by (auto simp: demo_media_id_def)

lemma demo_media_sel [simp]: "at_id demo_media = demo_media_id" "at_device demo_media = None" "at_session demo_media = ''s''" "at_dir demo_media = Outbound_dir"
  "at_name demo_media = ''f.txt''" "at_type demo_media = ''text/plain''" "at_size demo_media = 2" "at_sha demo_media = demo_sha" "at_path demo_media = ''/m''"
  "at_done demo_media = 2" "at_state demo_media = At_ready"
  by (simp_all add: demo_media_def)

lemma demo_snapshot: "snapshot_candidate demo_uploads guess ''s'' demo_source (Some (''f.txt'', ''text/plain'')) ''/m'' demo_media_id 5 (new_uploads st) =
  (Inr demo_media, put_file ''/m'' ''hi'' (new_uploads st))"
proof -
  have "checked_metadata ''f.txt'' ''text/plain'' = Inr (''f.txt'', ''text/plain'')" by code_simp
  then show ?thesis
    by (simp add: snapshot_candidate_def copy_outbound_def demo_source_def demo_uploads_def new_uploads_def demo_media_def)
qed

lemma demo_batch_made: "fold (media_exec demo_uploads guess) demo_batch (new_media st) =
  \<lparr>md_up = put_file ''/m'' ''hi'' (new_uploads st), md_bound = [], md_calls = [(0, demo_call)], md_lost = []\<rparr>"
proof -
  have new: "new_outbound_id 1 2 = demo_media_id" by (simp add: demo_media_id_def)
  have "ug_max demo_uploads = 10" by (simp add: demo_uploads_def)
  then show ?thesis unfolding demo_batch_def
    by (simp add: media_exec_def start_batch_def new_media_def snapshot_next_def new demo_snapshot[unfolded new_uploads_def] new_uploads_def Let_def demo_call_def
      dict_set_def dict_get_def del: One_nat_def)
qed

lemma demo_resolved: "resolve_candidates [demo_media] [] [(''/m'', ''hi'')] [] = (Inr ([demo_media], [(demo_media_id, demo_media)]), [(''/m'', ''hi'')])"
proof -
  have "demo_sha \<noteq> []" by (simp add: demo_sha_def)
  then show ?thesis by (simp add: resolve_candidate_def read_outbound_for_def insert_outbound_def dict_set_def)
qed

lemma demo_created: "create_or_read [demo_media] None [] (put_file ''/m'' ''hi'' (new_uploads st)) =
  (Inr [demo_media], [], \<lparr>up_store = st, up_rows = [(demo_media_id, demo_media)], up_files = [(''/m'', ''hi'')], up_log = []\<rparr>)"
proof -
  have "validate_candidate [(''/m'', ''hi'')] demo_media = None" by (simp add: validate_candidate_def require_canonical_def dict_get_def)
  then show ?thesis by (simp add: create_or_read_def put_file_def new_uploads_def dict_set_def demo_resolved del: resolve_candidates.simps)
qed

lemma demo_registered: "media_exec demo_uploads guess (Register_batch 0 None) (fold (media_exec demo_uploads guess) demo_batch (new_media st)) =
  \<lparr>md_up = \<lparr>up_store = st, up_rows = [(demo_media_id, demo_media)], up_files = [(''/m'', ''hi'')], up_log = []\<rparr>, md_bound = [], md_calls = [], md_lost = []\<rparr>"
proof -
  have "mc_made demo_call = [demo_media]" "mc_todo demo_call = []" by (simp_all add: demo_call_def)
  then show ?thesis unfolding demo_batch_made
    by (simp add: media_exec_def register_batch_def demo_created dict_get_def dict_del_def)
qed

theorem media_files_owned_witness:
  "prefix ''hi'' ''hi'' \<and> (\<exists>x c. dict_get [(''/m'', ''hi'')] ''/m'' = Some x \<and> prefix x c \<and> int (length c) = 2 \<and> ug_digest demo_uploads c = demo_sha)"
proof -
  define m where "m = fold (media_exec demo_uploads (\<lambda>_. None)) (demo_batch @ [Register_batch 0 None]) (new_media demo_mobile)"
  have m: "md_up m = \<lparr>up_store = demo_mobile, up_rows = [(demo_media_id, demo_media)], up_files = [(''/m'', ''hi'')], up_log = []\<rparr>"
    unfolding m_def by (simp add: demo_registered)
  then have "dict_get (up_rows (md_up m)) demo_media_id = Some demo_media" by (simp add: dict_get_def)
  from media_files_owned[OF m_def this] show ?thesis by (simp add: m)
qed

theorem media_download_witness:
  "case download ''s'' demo_media_id 0 [2, 5] \<lparr>up_store = demo_mobile, up_rows = [(demo_media_id, demo_media)], up_files = [(''/m'', ''hi'')], up_log = []\<rparr> of
     Inr x \<Rightarrow> dict_get [(''/m'', ''hi'')] ''/m'' = Some x \<and> int (length x) = 2 \<and> ug_digest demo_uploads x = demo_sha
   | Inl e \<Rightarrow> e = At_runtime \<and> (\<exists>x. dict_get [(''/m'', ''hi'')] ''/m'' = Some x \<and> int (length x) < 2)"
proof -
  define m where "m = fold (media_exec demo_uploads (\<lambda>_. None)) (demo_batch @ [Register_batch 0 None]) (new_media demo_mobile)"
  have m: "md_up m = \<lparr>up_store = demo_mobile, up_rows = [(demo_media_id, demo_media)], up_files = [(''/m'', ''hi'')], up_log = []\<rparr>"
    unfolding m_def by (simp add: demo_registered)
  then have "dict_get (up_rows (md_up m)) demo_media_id = Some demo_media" by (simp add: dict_get_def)
  from media_download[OF m_def this _ demo_media_id_nonempty, of "[2, 5]"] show ?thesis
    unfolding m demo_media_sel upload_state.simps by (simp del: download.simps)
qed

theorem publish_atomic_witness:
  "case fst (publish_batch 0 demo_call ''e'' (\<lambda>_. ''{}'') 6 (fold (media_exec demo_uploads (\<lambda>_. None)) demo_batch (new_media demo_mobile))) of
     Inl e \<Rightarrow> True | Inr (rs, es) \<Rightarrow> map content_key rs = [content_key demo_media] \<and> (\<forall>e \<in> set es. ie_id e = ''e'' \<and> ie_envelope e = ''{}'')"
proof -
  define m where "m = fold (media_exec demo_uploads (\<lambda>_. None)) demo_batch (new_media demo_mobile)"
  obtain res m' where p: "publish_batch 0 demo_call ''e'' (\<lambda>_. ''{}'') 6 m = (res, m')" by (cases "publish_batch 0 demo_call ''e'' (\<lambda>_. ''{}'') 6 m")
  have "dict_get (md_calls m) 0 = Some demo_call" by (simp add: m_def demo_batch_made dict_get_def)
  from publish_atomic[OF m_def this p] show ?thesis unfolding m_def[symmetric] p by (auto simp: demo_call_def split: sum.splits)
qed

definition demo_chunk :: chunk where
  "demo_chunk = \<lparr>ck_id = ''01ARZ3NDEKTSV4RRFFQ69G5FAV'', ck_offset = 5, ck_data = ''xy''\<rparr>"

definition demo_parse :: "string \<Rightarrow> (string \<times> int) option" where
  "demo_parse h = (if h = chunk_header (ck_id demo_chunk) 5 then Some (ck_id demo_chunk, 5) else None)"

theorem chunk_frames_witness:
  "\<exists>raw. encode_chunk demo_chunk = Inr raw \<and> decode_chunk demo_parse raw = Inr demo_chunk"
proof -
  have "\<not> max_header < length (chunk_header (ck_id demo_chunk) (ck_offset demo_chunk))"
    by (simp add: demo_chunk_def chunk_header_def escape_utf8_def escape_char_def backslash_def json_string_def int_text_def decimal.simps digit_def max_header_def Let_def)
  then obtain raw where "encode_chunk demo_chunk = Inr raw" by (simp add: encode_chunk_def Let_def)
  moreover from chunk_frames[OF _ this, of demo_parse] have "decode_chunk demo_parse raw = Inr demo_chunk"
    by (simp add: demo_parse_def demo_chunk_def max_chunk_def)
  ultimately show ?thesis by blast
qed

end
