(* ===== verification/Turn_Store.thy ===== *)
theory Turn_Store
  imports Roxy_Prelude
begin

text \<open>
  The turns of a thread: the records of src/agent/control/models.py with their JSON forms, and the table
  \<open>turns\<close> of src/session/store.py with its transactions.

  A row holds the JSON documents that the code stores as text; the \<open>json\<close> module reads back what it wrote.
  Times are microseconds in UTC: the code stores \<open>isoformat\<close> texts of UTC times, which compare as the times.
  Each method of the store holds its lock, so it is one step.
\<close>

subsection \<open>Records and their JSON forms\<close>

datatype turn_state = Turn_queued | Turn_running | Turn_completed | Turn_interrupted | Turn_failed | Turn_cancelled

definition is_terminal :: "turn_state \<Rightarrow> bool" where
  "is_terminal s \<longleftrightarrow> s \<in> {Turn_completed, Turn_interrupted, Turn_failed, Turn_cancelled}"

definition state_text :: "turn_state \<Rightarrow> string" where
  "state_text s = (case s of Turn_queued \<Rightarrow> ''queued'' | Turn_running \<Rightarrow> ''in_progress'' | Turn_completed \<Rightarrow> ''completed''
     | Turn_interrupted \<Rightarrow> ''interrupted'' | Turn_failed \<Rightarrow> ''failed'' | Turn_cancelled \<Rightarrow> ''cancelled'')"

datatype item_kind = User_item | Assistant_item | Reasoning_item | Tool_item | Error_item

definition kind_text :: "item_kind \<Rightarrow> string" where
  "kind_text k = (case k of User_item \<Rightarrow> ''userMessage'' | Assistant_item \<Rightarrow> ''assistantMessage'' | Reasoning_item \<Rightarrow> ''reasoning''
     | Tool_item \<Rightarrow> ''toolCall'' | Error_item \<Rightarrow> ''error'')"

definition kind_of :: "string \<Rightarrow> item_kind option" where
  "kind_of t = (if t = ''userMessage'' then Some User_item else if t = ''assistantMessage'' then Some Assistant_item
     else if t = ''reasoning'' then Some Reasoning_item else if t = ''toolCall'' then Some Tool_item
     else if t = ''error'' then Some Error_item else None)"

record turn_item =
  ti_kind :: item_kind
  ti_id :: string
  ti_data :: "(string, json) dict"

record turn_usage =
  us_input :: "int option"
  us_cached :: "int option"
  us_output :: "int option"
  us_reasoning :: "int option"
  us_requests :: int
  us_covered :: int
  us_coverage :: string

record turn_error =
  te_type :: string
  te_message :: string
  te_retryable :: bool
  te_data :: "(string, json) dict option"

record turn_record =
  tn_id :: string
  tn_thread :: string
  tn_status :: turn_state
  tn_input :: string
  tn_metadata :: "(string, json) dict"
  tn_items :: "turn_item list"
  tn_usage :: "turn_usage option"
  tn_error :: "turn_error option"
  tn_final :: "string option"
  tn_created :: int
  tn_started :: "int option"
  tn_completed :: "int option"

datatype turn_fault = Turn_not_found | Turn_transition | Turn_value | Turn_integrity

text \<open>What the constructors check.\<close>

definition item_ok :: "turn_item \<Rightarrow> bool" where
  "item_ok i \<longleftrightarrow> ti_id i \<noteq> []"

definition nonneg :: "int option \<Rightarrow> bool" where
  "nonneg x = (case x of None \<Rightarrow> True | Some n \<Rightarrow> 0 \<le> n)"

definition usage_ok :: "turn_usage \<Rightarrow> bool" where
  "usage_ok u \<longleftrightarrow> nonneg (us_input u) \<and> nonneg (us_cached u) \<and> nonneg (us_output u) \<and> nonneg (us_reasoning u) \<and>
     0 \<le> us_requests u \<and> 0 \<le> us_covered u \<and> us_coverage u \<in> {''exact'', ''partial'', ''unavailable''}"

definition item_to_dict :: "turn_item \<Rightarrow> json" where
  "item_to_dict i = JObj [(''id'', JStr (ti_id i)), (''type'', JStr (kind_text (ti_kind i))), (''data'', JObj (ti_data i))]"

definition item_from_dict :: "json \<Rightarrow> turn_fault + turn_item" where
  "item_from_dict j = (case j of
     JObj d \<Rightarrow> (case (json_field d ''id'', json_field d ''type'', json_field d ''data'') of
         (JStr i, JStr t, JObj x) \<Rightarrow> (case kind_of t of
             Some k \<Rightarrow> if i = [] then Inl Turn_value else Inr \<lparr>ti_kind = k, ti_id = i, ti_data = x\<rparr>
           | None \<Rightarrow> Inl Turn_value)
       | _ \<Rightarrow> Inl Turn_value)
   | _ \<Rightarrow> Inl Turn_value)"

definition opt_json :: "int option \<Rightarrow> json" where
  "opt_json x = (case x of None \<Rightarrow> JNull | Some n \<Rightarrow> JInt n)"

definition usage_to_dict :: "turn_usage \<Rightarrow> json" where
  "usage_to_dict u = JObj [(''inputTokens'', opt_json (us_input u)), (''cachedInputTokens'', opt_json (us_cached u)),
     (''outputTokens'', opt_json (us_output u)), (''reasoningOutputTokens'', opt_json (us_reasoning u)),
     (''requestCount'', JInt (us_requests u)), (''coveredRequestCount'', JInt (us_covered u)), (''coverage'', JStr (us_coverage u))]"

definition int_or_null :: "json \<Rightarrow> int option option" where
  "int_or_null j = (case j of JNull \<Rightarrow> Some None | JInt n \<Rightarrow> Some (Some n) | _ \<Rightarrow> None)"

definition usage_from_dict :: "json \<Rightarrow> turn_fault + turn_usage" where
  "usage_from_dict j = (case j of
     JObj d \<Rightarrow> (case (int_or_null (json_field d ''inputTokens''), int_or_null (json_field d ''cachedInputTokens''),
           int_or_null (json_field d ''outputTokens''), int_or_null (json_field d ''reasoningOutputTokens''),
           json_get d ''requestCount'' (JInt 0), json_get d ''coveredRequestCount'' (JInt 0), json_get d ''coverage'' (JStr ''unavailable'')) of
         (Some a, Some b, Some c, Some e, JInt m, JInt n, JStr t) \<Rightarrow>
           (let u = \<lparr>us_input = a, us_cached = b, us_output = c, us_reasoning = e, us_requests = m, us_covered = n, us_coverage = t\<rparr> in
             if usage_ok u then Inr u else Inl Turn_value)
       | _ \<Rightarrow> Inl Turn_value)
   | _ \<Rightarrow> Inl Turn_value)"

definition error_to_dict :: "turn_error \<Rightarrow> json" where
  "error_to_dict e = JObj ([(''type'', JStr (te_type e)), (''message'', JStr (te_message e)), (''retryable'', JBool (te_retryable e))] @
     (case te_data e of None \<Rightarrow> [] | Some d \<Rightarrow> [(''data'', JObj d)]))"

definition error_from_dict :: "json \<Rightarrow> turn_fault + turn_error" where
  "error_from_dict j = (case j of
     JObj d \<Rightarrow> (case (case json_field d ''data'' of JNull \<Rightarrow> Some None | JObj x \<Rightarrow> Some (Some x) | _ \<Rightarrow> None) of
         None \<Rightarrow> Inl Turn_value
       | Some x \<Rightarrow> (case (json_field d ''retryable'', json_field d ''type'', json_field d ''message'') of
           (JBool r, JStr t, JStr m) \<Rightarrow> if t = [] \<or> m = [] then Inl Turn_value
             else Inr \<lparr>te_type = t, te_message = m, te_retryable = r, te_data = x\<rparr>
         | _ \<Rightarrow> Inl Turn_value))
   | _ \<Rightarrow> Inl Turn_value)"

subsection \<open>Rows\<close>

record turn_row =
  tr_id :: string
  tr_thread :: string
  tr_status :: turn_state
  tr_input :: json
  tr_items :: json
  tr_usage :: "json option"
  tr_error :: "json option"
  tr_final :: "string option"
  tr_created :: int
  tr_started :: "int option"
  tr_completed :: "int option"

type_synonym turn_table = "(string, turn_row) dict"

definition encode_input :: "string \<Rightarrow> (string, json) dict \<Rightarrow> json" where
  "encode_input t m = JObj [(''input'', JStr t), (''metadata'', JObj m)]"

definition decode_turn_input :: "json \<Rightarrow> turn_fault + (string \<times> (string, json) dict)" where
  "decode_turn_input j = (case j of
     JObj d \<Rightarrow> (case (json_field d ''input'', json_field d ''metadata'') of (JStr t, JObj m) \<Rightarrow> Inr (t, m) | _ \<Rightarrow> Inl Turn_value)
   | _ \<Rightarrow> Inl Turn_value)"

definition encode_items :: "turn_item list \<Rightarrow> json" where
  "encode_items xs = JList (map item_to_dict xs)"

fun decode_all :: "('a \<Rightarrow> 'e + 'b) \<Rightarrow> 'a list \<Rightarrow> 'e + 'b list" where
  "decode_all f [] = Inr []"
| "decode_all f (x # xs) = (case f x of Inl e \<Rightarrow> Inl e | Inr y \<Rightarrow> (case decode_all f xs of Inl e \<Rightarrow> Inl e | Inr ys \<Rightarrow> Inr (y # ys)))"

definition decode_turn_items :: "json \<Rightarrow> turn_fault + turn_item list" where
  "decode_turn_items j = (case j of JList xs \<Rightarrow> decode_all item_from_dict xs | _ \<Rightarrow> Inl Turn_value)"

definition decode_opt :: "(json \<Rightarrow> turn_fault + 'a) \<Rightarrow> json option \<Rightarrow> turn_fault + 'a option" where
  "decode_opt f x = (case x of None \<Rightarrow> Inr None | Some j \<Rightarrow> map_sum id Some (f j))"

definition row_to_turn :: "turn_row \<Rightarrow> turn_fault + turn_record" where
  "row_to_turn r = (case decode_turn_input (tr_input r) of
     Inl e \<Rightarrow> Inl e
   | Inr (t, m) \<Rightarrow> (case decode_turn_items (tr_items r) of
       Inl e \<Rightarrow> Inl e
     | Inr xs \<Rightarrow> (case decode_opt usage_from_dict (tr_usage r) of
         Inl e \<Rightarrow> Inl e
       | Inr u \<Rightarrow> (case decode_opt error_from_dict (tr_error r) of
           Inl e \<Rightarrow> Inl e
         | Inr e \<Rightarrow> Inr \<lparr>tn_id = tr_id r, tn_thread = tr_thread r, tn_status = tr_status r, tn_input = t, tn_metadata = m, tn_items = xs,
             tn_usage = u, tn_error = e, tn_final = tr_final r, tn_created = tr_created r, tn_started = tr_started r, tn_completed = tr_completed r\<rparr>))))"

definition read_turn :: "string \<Rightarrow> turn_table \<Rightarrow> turn_fault + turn_record option" where
  "read_turn i t = (case dict_get t i of None \<Rightarrow> Inr None | Some r \<Rightarrow> map_sum id Some (row_to_turn r))"

text \<open>The result of a method that wrote row \<open>i\<close> and reads it back after its commit.\<close>

definition stored_turn :: "string \<Rightarrow> turn_table \<Rightarrow> (turn_fault + turn_record) \<times> turn_table" where
  "stored_turn i t = (case read_turn i t of Inl e \<Rightarrow> (Inl e, t) | Inr None \<Rightarrow> (Inl Turn_not_found, t) | Inr (Some r) \<Rightarrow> (Inr r, t))"

subsection \<open>The methods\<close>

definition create_turn :: "turn_record \<Rightarrow> turn_table \<Rightarrow> (turn_fault + turn_record) \<times> turn_table" where
  "create_turn r t =
     (if tn_status r \<noteq> Turn_queued \<or> tn_started r \<noteq> None \<or> tn_completed r \<noteq> None \<or> tn_usage r \<noteq> None \<or> tn_error r \<noteq> None \<or> tn_final r \<noteq> None
      then (Inl Turn_transition, t)
      else if dict_get t (tn_id r) \<noteq> None then (Inl Turn_integrity, t)
      else stored_turn (tn_id r) (dict_set t (tn_id r) \<lparr>tr_id = tn_id r, tr_thread = tn_thread r, tr_status = tn_status r,
        tr_input = encode_input (tn_input r) (tn_metadata r), tr_items = encode_items (tn_items r), tr_usage = None, tr_error = None,
        tr_final = None, tr_created = tn_created r, tr_started = None, tr_completed = None\<rparr>))"

definition active_items :: "string \<Rightarrow> string \<Rightarrow> turn_table \<Rightarrow> turn_fault + (turn_row \<times> turn_item list)" where
  "active_items i thread t = (case dict_get t i of
     None \<Rightarrow> Inl Turn_not_found
   | Some r \<Rightarrow> if tr_thread r \<noteq> thread then Inl Turn_not_found
       else if is_terminal (tr_status r) then Inl Turn_transition
       else map_sum id (\<lambda>xs. (r, xs)) (decode_turn_items (tr_items r)))"

definition append_active_turn_item :: "string \<Rightarrow> string \<Rightarrow> turn_item \<Rightarrow> turn_table \<Rightarrow> (turn_fault + turn_record) \<times> turn_table" where
  "append_active_turn_item i thread x t = (case active_items i thread t of
     Inl e \<Rightarrow> (Inl e, t)
   | Inr (r, xs) \<Rightarrow> if ti_id x \<in> ti_id ` set xs then (Inl Turn_value, t)
       else stored_turn i (dict_set t i (r\<lparr>tr_items := encode_items (xs @ [x])\<rparr>)))"

definition replace_active_turn_item :: "string \<Rightarrow> string \<Rightarrow> turn_item \<Rightarrow> turn_table \<Rightarrow> (turn_fault + turn_record) \<times> turn_table" where
  "replace_active_turn_item i thread x t = (case active_items i thread t of
     Inl e \<Rightarrow> (Inl e, t)
   | Inr (r, xs) \<Rightarrow> (case filter (\<lambda>n. ti_id (xs ! n) = ti_id x) [0..<length xs] of
       [n] \<Rightarrow> stored_turn i (dict_set t i (r\<lparr>tr_items := encode_items (xs[n := x])\<rparr>))
     | _ \<Rightarrow> (Inl Turn_value, t)))"

definition turn_step :: "turn_state \<Rightarrow> turn_state \<Rightarrow> bool" where
  "turn_step a b \<longleftrightarrow> (a = Turn_queued \<and> b \<in> {Turn_running, Turn_cancelled}) \<or>
     (a = Turn_running \<and> b \<in> {Turn_completed, Turn_interrupted, Turn_failed, Turn_cancelled})"

text \<open>The fields that a transition may set besides the status.\<close>

record turn_update =
  tu_items :: "turn_item list option"
  tu_usage :: "turn_usage option"
  tu_error :: "turn_error option"
  tu_final :: "string option"

definition or_else :: "'a option \<Rightarrow> 'a option \<Rightarrow> 'a option" where
  "or_else x y = (case x of None \<Rightarrow> y | Some _ \<Rightarrow> x)"

definition updated_row :: "turn_state \<Rightarrow> turn_update \<Rightarrow> int \<Rightarrow> turn_row \<Rightarrow> turn_row" where
  "updated_row s w now r = r\<lparr>tr_status := s,
     tr_started := (if s = Turn_running then Some now else tr_started r),
     tr_completed := (if is_terminal s then Some now else tr_completed r),
     tr_items := (case tu_items w of None \<Rightarrow> tr_items r | Some xs \<Rightarrow> encode_items xs),
     tr_usage := or_else (map_option usage_to_dict (tu_usage w)) (tr_usage r),
     tr_error := or_else (map_option error_to_dict (tu_error w)) (tr_error r),
     tr_final := or_else (tu_final w) (tr_final r)\<rparr>"

definition transition_turn :: "string \<Rightarrow> turn_state \<Rightarrow> turn_state \<Rightarrow> string option \<Rightarrow> turn_update \<Rightarrow> int \<Rightarrow> turn_table \<Rightarrow>
    (turn_fault + turn_record) \<times> turn_table" where
  "transition_turn i expected s thread w now t =
     (if \<not> turn_step expected s \<or> (s = Turn_failed \<and> tu_error w = None) then (Inl Turn_transition, t)
      else case dict_get t i of
        None \<Rightarrow> (Inl Turn_not_found, t)
      | Some r \<Rightarrow> if thread \<noteq> None \<and> thread \<noteq> Some (tr_thread r) then (Inl Turn_not_found, t)
          else if tr_status r \<noteq> expected then (Inl Turn_transition, t)
          else stored_turn i (dict_set t i (updated_row s w now r)))"

definition list_turns :: "string \<Rightarrow> nat \<Rightarrow> (int \<times> string) option \<Rightarrow> turn_table \<Rightarrow> turn_fault + turn_record list" where
  "list_turns thread limit before t =
     (if limit = 0 \<or> 200 < limit then Inl Turn_value
      else decode_all row_to_turn (take limit (rev (sort_key (\<lambda>r. (tr_created r, tr_id r))
        (filter (\<lambda>r. tr_thread r = thread \<and> (case before of None \<Rightarrow> True | Some c \<Rightarrow> (tr_created r, tr_id r) < c)) (map snd t))))))"

text \<open>\<open>recover_in_progress_turns\<close>: every row that was left queued or running is closed, in one transaction.\<close>

definition close_item :: "turn_item \<Rightarrow> turn_item" where
  "close_item x = (if json_field (ti_data x) ''status'' = JStr (state_text Turn_running)
     then x\<lparr>ti_data := dict_set (ti_data x) ''status'' (JStr (state_text Turn_interrupted))\<rparr> else x)"

definition interrupt_row :: "int \<Rightarrow> turn_row \<Rightarrow> turn_fault + turn_row" where
  "interrupt_row now r = map_sum id (\<lambda>xs. r\<lparr>tr_status := (if tr_status r = Turn_queued then Turn_cancelled else Turn_interrupted),
     tr_items := encode_items (map close_item xs), tr_completed := Some now\<rparr>) (decode_turn_items (tr_items r))"

fun recover_rows :: "int \<Rightarrow> turn_row list \<Rightarrow> turn_table \<Rightarrow> turn_fault + turn_table" where
  "recover_rows now [] t = Inr t"
| "recover_rows now (r # rs) t = (case interrupt_row now r of Inl e \<Rightarrow> Inl e | Inr r' \<Rightarrow> recover_rows now rs (dict_set t (tr_id r) r'))"

definition stale_rows :: "turn_table \<Rightarrow> turn_row list" where
  "stale_rows t = sort_key (\<lambda>r. (tr_created r, tr_id r)) (filter (\<lambda>r. \<not> is_terminal (tr_status r)) (map snd t))"

definition recover_in_progress_turns :: "int \<Rightarrow> turn_table \<Rightarrow> (turn_fault + turn_record list) \<times> turn_table" where
  "recover_in_progress_turns now t = (case recover_rows now (stale_rows t) t of
     Inl e \<Rightarrow> (Inl e, t)
   | Inr t' \<Rightarrow> (decode_all (\<lambda>r. fst (stored_turn (tr_id r) t')) (stale_rows t), t'))"

definition delete_thread_turns :: "string \<Rightarrow> turn_table \<Rightarrow> int \<times> turn_table" where
  "delete_thread_turns thread t = (int (length (filter (\<lambda>(i, r). tr_thread r = thread) t)), filter (\<lambda>(i, r). tr_thread r \<noteq> thread) t)"

datatype turn_cmd = Create_turn turn_record | Append_item string string turn_item | Replace_item string string turn_item
  | Transition string turn_state turn_state "string option" turn_update int | Recover_turns int | Delete_turns string

definition turn_exec :: "turn_cmd \<Rightarrow> turn_table \<Rightarrow> turn_table" where
  "turn_exec c t = (case c of
     Create_turn r \<Rightarrow> snd (create_turn r t)
   | Append_item i thread x \<Rightarrow> snd (append_active_turn_item i thread x t)
   | Replace_item i thread x \<Rightarrow> snd (replace_active_turn_item i thread x t)
   | Transition i a b thread w now \<Rightarrow> snd (transition_turn i a b thread w now t)
   | Recover_turns now \<Rightarrow> snd (recover_in_progress_turns now t)
   | Delete_turns thread \<Rightarrow> snd (delete_thread_turns thread t))"

subsection \<open>Documents are read back\<close>

lemma kind_of_text [simp]: "kind_of (kind_text k) = Some k"
  by (cases k) (simp_all add: kind_of_def kind_text_def)

lemma item_read_back [simp]: "item_ok i \<Longrightarrow> item_from_dict (item_to_dict i) = Inr i"
  by (simp add: item_from_dict_def item_to_dict_def json_field_def dict_get_def item_ok_def)

lemma items_read_back: "list_all item_ok xs \<Longrightarrow> decode_turn_items (encode_items xs) = Inr xs"
proof -
  have "list_all item_ok xs \<Longrightarrow> decode_all item_from_dict (map item_to_dict xs) = Inr xs" by (induction xs) simp_all
  then show "list_all item_ok xs \<Longrightarrow> decode_turn_items (encode_items xs) = Inr xs" by (simp add: decode_turn_items_def encode_items_def)
qed

lemma int_or_null_opt [simp]: "int_or_null (opt_json x) = Some x"
  by (cases x) (simp_all add: int_or_null_def opt_json_def)

lemma usage_read_back [simp]: "usage_ok u \<Longrightarrow> usage_from_dict (usage_to_dict u) = Inr u"
  by (cases u) (simp add: usage_from_dict_def usage_to_dict_def json_field_def json_get_def dict_get_def Let_def)

definition error_readable :: "turn_error \<Rightarrow> bool" where
  "error_readable e \<longleftrightarrow> te_type e \<noteq> [] \<and> te_message e \<noteq> []"

lemma error_read_back: "error_from_dict (error_to_dict e) = (if error_readable e then Inr e else Inl Turn_value)"
  by (cases e; cases "te_data e") (simp_all add: error_from_dict_def error_to_dict_def json_field_def dict_get_def error_readable_def)

text \<open>The row of a record.\<close>

definition row_of :: "turn_record \<Rightarrow> turn_row" where
  "row_of r = \<lparr>tr_id = tn_id r, tr_thread = tn_thread r, tr_status = tn_status r, tr_input = encode_input (tn_input r) (tn_metadata r),
     tr_items = encode_items (tn_items r), tr_usage = map_option usage_to_dict (tn_usage r), tr_error = map_option error_to_dict (tn_error r),
     tr_final = tn_final r, tr_created = tn_created r, tr_started = tn_started r, tr_completed = tn_completed r\<rparr>"

definition record_ok :: "turn_record \<Rightarrow> bool" where
  "record_ok r \<longleftrightarrow> list_all item_ok (tn_items r) \<and> (case tn_usage r of None \<Rightarrow> True | Some u \<Rightarrow> usage_ok u)"

definition readable :: "turn_record \<Rightarrow> bool" where
  "readable r \<longleftrightarrow> (case tn_error r of None \<Rightarrow> True | Some e \<Rightarrow> error_readable e)"

lemma row_of_sel [simp]: "tr_id (row_of r) = tn_id r" "tr_thread (row_of r) = tn_thread r" "tr_status (row_of r) = tn_status r"
  "tr_items (row_of r) = encode_items (tn_items r)" "tr_created (row_of r) = tn_created r" "tr_started (row_of r) = tn_started r"
  "tr_completed (row_of r) = tn_completed r" "tr_final (row_of r) = tn_final r"
  by (simp_all add: row_of_def)

lemma row_read_back: "record_ok r \<Longrightarrow> row_to_turn (row_of r) = (if readable r then Inr r else Inl Turn_value)"
proof -
  assume ok: "record_ok r"
  have "decode_turn_input (encode_input a b) = Inr (a, b)" for a b
    by (simp add: decode_turn_input_def encode_input_def json_field_def dict_get_def)
  moreover have "decode_opt usage_from_dict (map_option usage_to_dict (tn_usage r)) = Inr (tn_usage r)"
    using ok by (cases "tn_usage r") (simp_all add: decode_opt_def record_ok_def)
  moreover have "decode_opt error_from_dict (map_option error_to_dict (tn_error r)) = (if readable r then Inr (tn_error r) else Inl Turn_value)"
    by (cases "tn_error r") (simp_all add: decode_opt_def readable_def error_read_back)
  moreover have "decode_turn_items (encode_items (tn_items r)) = Inr (tn_items r)" using ok by (simp add: record_ok_def items_read_back)
  ultimately show ?thesis by (simp add: row_to_turn_def row_of_def)
qed

subsection \<open>The table as a store of records\<close>

type_synonym record_table = "(string, turn_record) dict"

definition apply_update :: "turn_state \<Rightarrow> turn_update \<Rightarrow> int \<Rightarrow> turn_record \<Rightarrow> turn_record" where
  "apply_update s w now r = r\<lparr>tn_status := s,
     tn_started := (if s = Turn_running then Some now else tn_started r),
     tn_completed := (if is_terminal s then Some now else tn_completed r),
     tn_items := (case tu_items w of None \<Rightarrow> tn_items r | Some xs \<Rightarrow> xs),
     tn_usage := or_else (tu_usage w) (tn_usage r),
     tn_error := or_else (tu_error w) (tn_error r),
     tn_final := or_else (tu_final w) (tn_final r)\<rparr>"

definition close_record :: "int \<Rightarrow> turn_record \<Rightarrow> turn_record" where
  "close_record now r = (if is_terminal (tn_status r) then r
     else r\<lparr>tn_status := (if tn_status r = Turn_queued then Turn_cancelled else Turn_interrupted),
       tn_items := map close_item (tn_items r), tn_completed := Some now\<rparr>)"

definition change_record :: "string \<Rightarrow> (turn_record \<Rightarrow> bool) \<Rightarrow> (turn_record \<Rightarrow> turn_record) \<Rightarrow> record_table \<Rightarrow> record_table" where
  "change_record i P f t = (case dict_get t i of None \<Rightarrow> t | Some r \<Rightarrow> if P r then dict_set t i (f r) else t)"

definition fresh_turn :: "turn_record \<Rightarrow> bool" where
  "fresh_turn r \<longleftrightarrow> tn_status r = Turn_queued \<and> tn_started r = None \<and> tn_completed r = None \<and> tn_usage r = None \<and> tn_error r = None \<and> tn_final r = None"

definition record_exec :: "turn_cmd \<Rightarrow> record_table \<Rightarrow> record_table" where
  "record_exec c t = (case c of
     Create_turn r \<Rightarrow> if fresh_turn r \<and> dict_get t (tn_id r) = None then dict_set t (tn_id r) r else t
   | Append_item i thread x \<Rightarrow> change_record i (\<lambda>r. tn_thread r = thread \<and> \<not> is_terminal (tn_status r) \<and> ti_id x \<notin> ti_id ` set (tn_items r))
       (\<lambda>r. r\<lparr>tn_items := tn_items r @ [x]\<rparr>) t
   | Replace_item i thread x \<Rightarrow> change_record i (\<lambda>r. tn_thread r = thread \<and> \<not> is_terminal (tn_status r) \<and> count_list (map ti_id (tn_items r)) (ti_id x) = 1)
       (\<lambda>r. r\<lparr>tn_items := map (\<lambda>y. if ti_id y = ti_id x then x else y) (tn_items r)\<rparr>) t
   | Transition i a b thread w now \<Rightarrow> if turn_step a b \<and> (b = Turn_failed \<longrightarrow> tu_error w \<noteq> None)
       then change_record i (\<lambda>r. (thread = None \<or> thread = Some (tn_thread r)) \<and> tn_status r = a) (apply_update b w now) t else t
   | Recover_turns now \<Rightarrow> map (\<lambda>(i, r). (i, close_record now r)) t
   | Delete_turns thread \<Rightarrow> filter (\<lambda>(i, r). tn_thread r \<noteq> thread) t)"

text \<open>The arguments are objects that their constructors accepted.\<close>

definition update_ok :: "turn_update \<Rightarrow> bool" where
  "update_ok w \<longleftrightarrow> (case tu_items w of None \<Rightarrow> True | Some xs \<Rightarrow> list_all item_ok xs) \<and> (case tu_usage w of None \<Rightarrow> True | Some u \<Rightarrow> usage_ok u)"

definition turn_cmd_ok :: "turn_cmd \<Rightarrow> bool" where
  "turn_cmd_ok c = (case c of Create_turn r \<Rightarrow> record_ok r | Append_item i thread x \<Rightarrow> item_ok x | Replace_item i thread x \<Rightarrow> item_ok x
     | Transition i a b thread w now \<Rightarrow> update_ok w | _ \<Rightarrow> True)"

definition encodes :: "turn_table \<Rightarrow> record_table \<Rightarrow> bool" where
  "encodes t a \<longleftrightarrow> dict_ok t \<and> dict_ok a \<and> (\<forall>i. dict_get t i = map_option row_of (dict_get a i)) \<and>
     (\<forall>i r. dict_get a i = Some r \<longrightarrow> tn_id r = i \<and> record_ok r)"

lemma encodesD:
  assumes "encodes t a"
  shows "dict_ok t" "dict_ok a" "dict_get t i = map_option row_of (dict_get a i)" "dict_get a i = Some r \<Longrightarrow> tn_id r = i" "dict_get a i = Some r \<Longrightarrow> record_ok r"
  using assms by (simp_all add: encodes_def)

lemma encodes_set:
  assumes "encodes t a" "record_ok r" "tn_id r = i"
  shows "encodes (dict_set t i (row_of r)) (dict_set a i r)"
  using assms by (auto simp: encodes_def split: if_splits)

lemma stored_turn_table [simp]: "snd (stored_turn i t) = t"
  by (auto simp: stored_turn_def split: sum.split option.split)

lemma stored_turn_read:
  "encodes t a \<Longrightarrow> dict_get a i = Some r \<Longrightarrow> stored_turn i t = (if readable r then Inr r else Inl Turn_value, t)"
  using encodesD(3)[of t a i] encodesD(5)[of t a i r] by (simp add: stored_turn_def read_turn_def row_read_back)

lemma active_items_read:
  assumes "encodes t a"
  shows "active_items i thread t = (case dict_get a i of
     None \<Rightarrow> Inl Turn_not_found
   | Some r \<Rightarrow> if tn_thread r \<noteq> thread then Inl Turn_not_found else if is_terminal (tn_status r) then Inl Turn_transition else Inr (row_of r, tn_items r))"
proof (cases "dict_get a i")
  case (Some r)
  then have "decode_turn_items (encode_items (tn_items r)) = Inr (tn_items r)" using encodesD(5)[OF assms Some] by (simp add: record_ok_def items_read_back)
  then show ?thesis using Some encodesD(3)[OF assms, of i] by (simp add: active_items_def)
qed (use encodesD(3)[OF assms, of i] in \<open>simp add: active_items_def\<close>)

subsection \<open>Every method refines its record operation\<close>

lemma unique_index:
  assumes "filter (\<lambda>n. P (xs ! n)) [0..<length xs] = [n]"
  shows "n < length xs \<and> xs[n := x] = map (\<lambda>y. if P y then x else y) xs"
proof -
  have mem: "m \<in> set (filter (\<lambda>n. P (xs ! n)) [0..<length xs]) \<longleftrightarrow> m = n" for m using assms by simp
  have n: "n < length xs" "P (xs ! n)" using mem[of n] by auto
  have "xs[n := x] ! m = map (\<lambda>y. if P y then x else y) xs ! m" if "m < length xs" for m
    using that mem[of m] n by (cases "m = n") auto
  then show ?thesis using n by (auto intro: nth_equalityI)
qed

lemma index_count: "length (filter (\<lambda>n. f (xs ! n) = k) [0..<length xs]) = count_list (map f xs) k"
proof -
  have "length (filter (\<lambda>n. f (xs ! n) = k) [0..<length xs]) = card (set (filter (\<lambda>n. f (xs ! n) = k) [0..<length xs]))"
    by (rule distinct_card[symmetric]) simp
  also have "set (filter (\<lambda>n. f (xs ! n) = k) [0..<length xs]) = {n. n < length xs \<and> f (xs ! n) = k}" by auto
  also have "card {n. n < length xs \<and> f (xs ! n) = k} = length (filter (\<lambda>y. f y = k) xs)" by (rule length_filter_conv_card[symmetric])
  also have "\<dots> = count_list (map f xs) k" by (induction xs) simp_all
  finally show ?thesis .
qed

lemma encodes_append:
  assumes "encodes t a" "item_ok x"
  shows "encodes (snd (append_active_turn_item i thread x t)) (record_exec (Append_item i thread x) a)"
proof (cases "dict_get a i")
  case (Some r)
  have "row_of r\<lparr>tr_items := encode_items (tn_items r @ [x])\<rparr> = row_of (r\<lparr>tn_items := tn_items r @ [x]\<rparr>)" by (simp add: row_of_def)
  then show ?thesis using assms Some encodesD(4,5)[OF assms(1) Some] encodes_set[OF assms(1), of "r\<lparr>tn_items := tn_items r @ [x]\<rparr>" i]
    by (simp add: append_active_turn_item_def active_items_read[OF assms(1)] record_exec_def change_record_def record_ok_def)
qed (use assms in \<open>simp add: append_active_turn_item_def active_items_read[OF assms(1)] record_exec_def change_record_def\<close>)

lemma encodes_replace:
  assumes "encodes t a" "item_ok x"
  shows "encodes (snd (replace_active_turn_item i thread x t)) (record_exec (Replace_item i thread x) a)"
proof (cases "dict_get a i")
  case (Some r)
  define ms where "ms = filter (\<lambda>n. ti_id (tn_items r ! n) = ti_id x) [0..<length (tn_items r)]"
  define ys where "ys = map (\<lambda>y. if ti_id y = ti_id x then x else y) (tn_items r)"
  have count: "length ms = count_list (map ti_id (tn_items r)) (ti_id x)" unfolding ms_def by (rule index_count)
  have ys: "(tn_items r)[n := x] = ys" if "ms = [n]" for n
    using unique_index[of "\<lambda>y. ti_id y = ti_id x" "tn_items r" n x] that by (simp add: ms_def ys_def)
  have row: "row_of r\<lparr>tr_items := encode_items ys\<rparr> = row_of (r\<lparr>tn_items := ys\<rparr>)" by (simp add: row_of_def)
  have ok: "record_ok (r\<lparr>tn_items := ys\<rparr>)" using encodesD(5)[OF assms(1) Some] assms(2)
    by (auto simp: record_ok_def ys_def list_all_iff)
  have new: "encodes (dict_set t i (row_of (r\<lparr>tn_items := ys\<rparr>))) (dict_set a i (r\<lparr>tn_items := ys\<rparr>))"
    using encodes_set[OF assms(1) ok] encodesD(4)[OF assms(1) Some] by simp
  have one: "length ms = 1 \<longleftrightarrow> (\<exists>n. ms = [n])" by (cases ms) auto
  show ?thesis
  proof (cases "tn_thread r = thread \<and> \<not> is_terminal (tn_status r)")
    case True
    then have conc: "snd (replace_active_turn_item i thread x t) = snd (case ms of [n] \<Rightarrow> stored_turn i (dict_set t i (row_of r\<lparr>tr_items := encode_items ((tn_items r)[n := x])\<rparr>)) | _ \<Rightarrow> (Inl Turn_value, t))"
      using Some by (simp add: replace_active_turn_item_def active_items_read[OF assms(1)] ms_def)
    have rec: "record_exec (Replace_item i thread x) a = (if length ms = 1 then dict_set a i (r\<lparr>tn_items := ys\<rparr>) else a)"
      using Some True by (simp add: record_exec_def change_record_def count ys_def)
    show ?thesis unfolding conc rec
      using assms(1) new ys row by (cases ms rule: remdups_adj.cases) simp_all
  next
    case False
    then show ?thesis using Some assms(1) by (auto simp: replace_active_turn_item_def active_items_read[OF assms(1)] record_exec_def change_record_def)
  qed
qed (use assms in \<open>simp add: replace_active_turn_item_def active_items_read[OF assms(1)] record_exec_def change_record_def\<close>)

lemma updated_row_of: "updated_row s w now (row_of r) = row_of (apply_update s w now r)"
  by (simp add: updated_row_def apply_update_def row_of_def or_else_def split: option.split)

lemma apply_update_sel [simp]: "tn_id (apply_update s w now r) = tn_id r" "tn_thread (apply_update s w now r) = tn_thread r"
  "tn_status (apply_update s w now r) = s" "tn_created (apply_update s w now r) = tn_created r" "tn_input (apply_update s w now r) = tn_input r"
  "tn_metadata (apply_update s w now r) = tn_metadata r"
  by (simp_all add: apply_update_def)

lemma apply_update_ok: "record_ok r \<Longrightarrow> update_ok w \<Longrightarrow> record_ok (apply_update s w now r)"
  by (auto simp: record_ok_def update_ok_def apply_update_def or_else_def split: option.splits)

lemma encodes_transition:
  assumes "encodes t a" "update_ok w"
  shows "encodes (snd (transition_turn i x y thread w now t)) (record_exec (Transition i x y thread w now) a)"
proof (cases "dict_get a i")
  case (Some r)
  have "encodes (dict_set t i (row_of (apply_update y w now r))) (dict_set a i (apply_update y w now r))"
    using encodes_set[OF assms(1) apply_update_ok[OF encodesD(5)[OF assms(1) Some] assms(2)]] encodesD(4)[OF assms(1) Some] by simp
  then show ?thesis using assms(1) Some encodesD(3)[OF assms(1), of i]
    by (auto simp: transition_turn_def record_exec_def change_record_def updated_row_of)
next
  case None
  then have "dict_get t i = None" using encodesD(3)[OF assms(1), of i] by simp
  then show ?thesis using assms(1) None by (simp add: transition_turn_def record_exec_def change_record_def)
qed

lemma recover_row_of:
  assumes "record_ok r" "\<not> is_terminal (tn_status r)"
  shows "interrupt_row now (row_of r) = Inr (row_of (close_record now r))"
  using assms by (simp add: interrupt_row_def record_ok_def items_read_back close_record_def) (simp add: row_of_def)

lemma close_item_ok [simp]: "item_ok (close_item x) = item_ok x" "ti_id (close_item x) = ti_id x"
  by (simp_all add: item_ok_def close_item_def)

lemma close_record_sel [simp]: "tn_id (close_record now r) = tn_id r" "tn_thread (close_record now r) = tn_thread r" "tn_created (close_record now r) = tn_created r"
  "tn_input (close_record now r) = tn_input r" "tn_metadata (close_record now r) = tn_metadata r" "tn_started (close_record now r) = tn_started r"
  by (simp_all add: close_record_def)

lemma close_record_ok: "record_ok r \<Longrightarrow> record_ok (close_record now r)"
  by (simp add: record_ok_def close_record_def list_all_iff)

lemma recover_rows_spec:
  assumes "\<And>r. r \<in> set rs \<Longrightarrow> \<exists>q. dict_get a (tr_id r) = Some q \<and> r = row_of q \<and> record_ok q \<and> \<not> is_terminal (tn_status q)"
    and "dict_ok t" "\<And>i. dict_get t i = map_option row_of (map_option (if i \<in> D then close_record now else id) (dict_get a i))"
  shows "\<exists>t'. recover_rows now rs t = Inr t' \<and> dict_ok t' \<and>
    (\<forall>i. dict_get t' i = map_option row_of (map_option (if i \<in> D \<union> tr_id ` set rs then close_record now else id) (dict_get a i)))"
  using assms
proof (induction rs arbitrary: t D)
  case (Cons r rs)
  obtain q where q: "dict_get a (tr_id r) = Some q" "r = row_of q" "record_ok q" "\<not> is_terminal (tn_status q)" using Cons.prems(1)[of r] by auto
  define t1 where "t1 = dict_set t (tr_id r) (row_of (close_record now q))"
  have "dict_get t1 i = map_option row_of (map_option (if i \<in> insert (tr_id r) D then close_record now else id) (dict_get a i))" for i
    using Cons.prems(3)[of i] q(1) by (auto simp: t1_def)
  moreover have "dict_ok t1" using Cons.prems(2) by (simp add: t1_def)
  ultimately have "\<exists>t'. recover_rows now rs t1 = Inr t' \<and> dict_ok t' \<and>
    (\<forall>i. dict_get t' i = map_option row_of (map_option (if i \<in> insert (tr_id r) D \<union> tr_id ` set rs then close_record now else id) (dict_get a i)))"
    using Cons.prems(1) by (intro Cons.IH) auto
  moreover have "recover_rows now (r # rs) t = recover_rows now rs t1" using q recover_row_of[OF q(3,4), of now] by (simp add: t1_def)
  ultimately show ?case by simp
qed auto

lemma stale_rows_of:
  assumes "encodes t a"
  shows "r \<in> set (stale_rows t) \<longleftrightarrow> (\<exists>q. dict_get a (tr_id r) = Some q \<and> r = row_of q \<and> record_ok q \<and> \<not> is_terminal (tn_status q))"
proof -
  have get: "(i, r) \<in> set t \<longleftrightarrow> dict_get t i = Some r" for i using dict_get_Some_iff[OF encodesD(1)[OF assms]] by simp
  have enc: "dict_get t i = Some r \<longleftrightarrow> (\<exists>q. dict_get a i = Some q \<and> r = row_of q)" for i
    unfolding encodesD(3)[OF assms, of i] by auto
  have "r \<in> set (stale_rows t) \<longleftrightarrow> \<not> is_terminal (tr_status r) \<and> (\<exists>i. dict_get t i = Some r)"
    by (force simp: stale_rows_def get[symmetric])
  also have "\<dots> \<longleftrightarrow> (\<exists>i q. dict_get a i = Some q \<and> r = row_of q \<and> \<not> is_terminal (tn_status q))"
    unfolding enc by (metis row_of_sel(3))
  also have "\<dots> \<longleftrightarrow> (\<exists>q. dict_get a (tr_id r) = Some q \<and> r = row_of q \<and> record_ok q \<and> \<not> is_terminal (tn_status q))"
    using encodesD(4,5)[OF assms] by (metis row_of_sel(1))
  finally show ?thesis .
qed

lemma dict_ok_map_values: "dict_ok (map (\<lambda>(i, r). (i, f r)) d) = dict_ok d"
  by (simp add: dict_ok_def comp_def case_prod_unfold)

lemma encodes_recover:
  assumes "encodes t a"
  shows "encodes (snd (recover_in_progress_turns now t)) (record_exec (Recover_turns now) a)"
proof -
  have "dict_get t i = map_option row_of (map_option (if i \<in> {} then close_record now else id) (dict_get a i))" for i
    using encodesD(3)[OF assms, of i] by (simp add: option.map_id)
  then obtain t' where t': "recover_rows now (stale_rows t) t = Inr t'" "dict_ok t'"
    "\<And>i. dict_get t' i = map_option row_of (map_option (if i \<in> tr_id ` set (stale_rows t) then close_record now else id) (dict_get a i))"
    using recover_rows_spec[of "stale_rows t" a t "{}" now] stale_rows_of[OF assms] encodesD(1)[OF assms] by auto
  have "dict_get t' i = map_option row_of (map_option (close_record now) (dict_get a i))" for i
  proof (cases "dict_get a i")
    case (Some q)
    have "i \<in> tr_id ` set (stale_rows t)" if "\<not> is_terminal (tn_status q)"
      using stale_rows_of[OF assms, of "row_of q"] encodesD(4,5)[OF assms Some] Some that by (metis imageI row_of_sel(1))
    then show ?thesis using t'(3)[of i] Some by (auto simp: close_record_def)
  qed (use t'(3)[of i] in simp)
  then have "encodes t' (map (\<lambda>(i, r). (i, close_record now r)) a)"
    using t'(2) encodesD(2,4,5)[OF assms] by (auto simp: encodes_def dict_get_map_values dict_ok_map_values close_record_ok)
  then show ?thesis using t'(1) by (simp add: recover_in_progress_turns_def record_exec_def)
qed

lemma encodes_create:
  assumes "encodes t a" "record_ok r"
  shows "encodes (snd (create_turn r t)) (record_exec (Create_turn r) a)"
proof -
  have "fresh_turn r \<Longrightarrow> \<lparr>tr_id = tn_id r, tr_thread = tn_thread r, tr_status = tn_status r,
        tr_input = encode_input (tn_input r) (tn_metadata r), tr_items = encode_items (tn_items r), tr_usage = None, tr_error = None,
        tr_final = None, tr_created = tn_created r, tr_started = None, tr_completed = None\<rparr> = row_of r"
    by (simp add: fresh_turn_def row_of_def)
  then show ?thesis using assms encodes_set[OF assms refl] encodesD(3)[OF assms(1), of "tn_id r"]
    by (auto simp: create_turn_def record_exec_def fresh_turn_def)
qed

lemma encodes_delete:
  assumes "encodes t a"
  shows "encodes (snd (delete_thread_turns thread t)) (record_exec (Delete_turns thread) a)"
proof -
  have f: "(\<lambda>(i, r). Q r) = (\<lambda>kr. Q (snd kr))" for Q :: "'b \<Rightarrow> bool" by auto
  show ?thesis using encodesD[OF assms]
    by (auto simp: encodes_def delete_thread_turns_def record_exec_def f dict_get_filter dict_ok_filter split: option.splits if_splits)
qed

lemma encodes_exec:
  assumes "encodes t a" "turn_cmd_ok c"
  shows "encodes (turn_exec c t) (record_exec c a)"
  using assms encodes_create encodes_append encodes_replace encodes_transition encodes_recover encodes_delete
  by (cases c) (simp_all add: turn_exec_def turn_cmd_ok_def)

lemma encodes_run: "encodes t a \<Longrightarrow> list_all turn_cmd_ok cs \<Longrightarrow> encodes (fold turn_exec cs t) (fold record_exec cs a)"
  by (induction cs arbitrary: t a) (simp_all add: encodes_exec)

lemma encodes_empty [simp]: "encodes [] []"
  by (simp add: encodes_def)

subsection \<open>The life of a turn\<close>

definition turn_shape :: "turn_record \<Rightarrow> bool" where
  "turn_shape r \<longleftrightarrow> (tn_completed r \<noteq> None \<longleftrightarrow> is_terminal (tn_status r)) \<and> (tn_status r = Turn_running \<longrightarrow> tn_started r \<noteq> None) \<and>
     (tn_status r = Turn_queued \<longrightarrow> tn_started r = None \<and> tn_usage r = None \<and> tn_error r = None \<and> tn_final r = None) \<and>
     (tn_status r = Turn_failed \<longrightarrow> tn_error r \<noteq> None)"

definition evolves :: "turn_record \<Rightarrow> turn_record \<Rightarrow> bool" where
  "evolves r q \<longleftrightarrow> tn_id q = tn_id r \<and> tn_thread q = tn_thread r \<and> tn_input q = tn_input r \<and> tn_metadata q = tn_metadata r \<and> tn_created q = tn_created r \<and>
     turn_step\<^sup>*\<^sup>* (tn_status r) (tn_status q) \<and> (is_terminal (tn_status r) \<longrightarrow> q = r) \<and> (tn_started r \<noteq> None \<longrightarrow> tn_started q = tn_started r)"

lemma is_terminal_simps [simp]: "is_terminal Turn_completed" "is_terminal Turn_interrupted" "is_terminal Turn_failed" "is_terminal Turn_cancelled"
  "\<not> is_terminal Turn_queued" "\<not> is_terminal Turn_running"
  by (simp_all add: is_terminal_def)

lemma turn_step_simps [simp]: "turn_step Turn_queued s \<longleftrightarrow> s = Turn_running \<or> s = Turn_cancelled"
  "turn_step Turn_running s \<longleftrightarrow> is_terminal s" "is_terminal a \<Longrightarrow> \<not> turn_step a s"
  by (cases s; auto simp: turn_step_def is_terminal_def)+

lemma evolves_refl [simp]: "evolves r r"
  by (simp add: evolves_def)

lemma evolves_trans: "evolves p q \<Longrightarrow> evolves q r \<Longrightarrow> evolves p r"
  unfolding evolves_def by (auto intro: rtranclp_trans)

lemma evolves_update:
  assumes "turn_step (tn_status r) s" "turn_shape r"
  shows "evolves r (apply_update s w now r)"
proof -
  have "\<not> is_terminal (tn_status r)" using assms(1) by auto
  moreover have "tn_started r = None" if "s = Turn_running" using assms that by (cases "tn_status r") (auto simp: turn_shape_def)
  ultimately show ?thesis using assms(1) by (auto simp: evolves_def) (auto simp: apply_update_def)
qed

lemma shape_update:
  assumes "turn_step (tn_status r) s" "turn_shape r" "s = Turn_failed \<longrightarrow> tu_error w \<noteq> None"
  shows "turn_shape (apply_update s w now r)"
proof -
  have "s \<noteq> Turn_queued" using assms(1) by (cases "tn_status r") (auto simp: is_terminal_def)
  moreover have "tn_completed r = None" using assms(1,2) by (cases "tn_status r") (auto simp: turn_shape_def)
  moreover have "s = Turn_running \<or> is_terminal s" using assms(1) by (cases "tn_status r") auto
  ultimately show ?thesis using assms(3)
    by (auto simp: turn_shape_def) (auto simp: apply_update_def or_else_def split: option.split)
qed

lemma close_record_evolves: "turn_shape r \<Longrightarrow> evolves r (close_record now r) \<and> turn_shape (close_record now r) \<and> is_terminal (tn_status (close_record now r))"
  by (cases "tn_status r") (auto simp: evolves_def close_record_def turn_shape_def)

lemma change_record_get:
  "dict_get (change_record i P f a) j = (case dict_get a j of None \<Rightarrow> None | Some r \<Rightarrow> if j = i \<and> P r then Some (f r) else Some r)"
  by (auto simp: change_record_def split: option.split)

lemma record_exec_evolves:
  assumes "dict_get a i = Some r" "turn_shape r" "c \<noteq> Delete_turns (tn_thread r)" "dict_ok a" "tn_id r = i"
  shows "\<exists>q. dict_get (record_exec c a) i = Some q \<and> evolves r q \<and> turn_shape q"
proof (cases c)
  case (Create_turn x)
  then show ?thesis using assms by (auto simp: record_exec_def)
next
  case (Append_item j thread x)
  have "evolves r (r\<lparr>tn_items := tn_items r @ [x]\<rparr>) \<and> turn_shape (r\<lparr>tn_items := tn_items r @ [x]\<rparr>)" if "\<not> is_terminal (tn_status r)"
    using that assms(2) by (simp add: evolves_def turn_shape_def)
  then show ?thesis using assms(1,2) Append_item by (auto simp: record_exec_def change_record_get)
next
  case (Replace_item j thread x)
  have "evolves r (r\<lparr>tn_items := xs\<rparr>) \<and> turn_shape (r\<lparr>tn_items := xs\<rparr>)" if "\<not> is_terminal (tn_status r)" for xs
    using that assms(2) by (simp add: evolves_def turn_shape_def)
  then show ?thesis using assms(1,2) Replace_item by (auto simp: record_exec_def change_record_get)
next
  case (Transition j x y thread w now)
  then show ?thesis using assms(1,2) evolves_update[of r y w now] shape_update[of r y w now] by (auto simp: record_exec_def change_record_get)
next
  case (Recover_turns now)
  then show ?thesis using assms(1) close_record_evolves[OF assms(2)] by (auto simp: record_exec_def dict_get_map_values)
next
  case (Delete_turns thread)
  have f: "(\<lambda>(i, r). tn_thread r \<noteq> thread) = (\<lambda>kr. tn_thread (snd kr) \<noteq> thread)" by auto
  show ?thesis using assms(1-4) Delete_turns by (auto simp: record_exec_def f dict_get_filter)
qed

definition shapes :: "record_table \<Rightarrow> bool" where
  "shapes a \<longleftrightarrow> (\<forall>i r. dict_get a i = Some r \<longrightarrow> turn_shape r)"

lemma record_exec_shapes:
  assumes "encodes t a" "turn_cmd_ok c" "shapes a"
  shows "shapes (record_exec c a)"
  unfolding shapes_def
proof (intro allI impI)
  fix i q
  assume q: "dict_get (record_exec c a) i = Some q"
  show "turn_shape q"
  proof (cases "dict_get a i")
    case (Some r)
    show ?thesis
    proof (cases "c = Delete_turns (tn_thread r)")
      case True
      have f: "(\<lambda>(i, r). tn_thread r \<noteq> thread) = (\<lambda>kr. tn_thread (snd kr) \<noteq> thread)" for thread by auto
      show ?thesis using q Some True assms(3) encodesD(2)[OF assms(1)] by (auto simp: record_exec_def f dict_get_filter shapes_def split: if_splits)
    next
      case False
      then show ?thesis using record_exec_evolves[OF Some _ False encodesD(2)[OF assms(1)] encodesD(4)[OF assms(1) Some]] assms(3) Some q by (auto simp: shapes_def)
    qed
  next
    case None
    have f: "(\<lambda>(i, r). tn_thread r \<noteq> thread) = (\<lambda>kr. tn_thread (snd kr) \<noteq> thread)" for thread by auto
    show ?thesis
    proof (cases c)
      case (Create_turn r)
      then show ?thesis using q None by (auto simp: record_exec_def fresh_turn_def turn_shape_def split: if_splits)
    qed (use q None encodesD(2)[OF assms(1)] in \<open>auto simp: record_exec_def change_record_get dict_get_map_values f dict_get_filter split: if_splits\<close>)
  qed
qed

lemma record_run:
  assumes "encodes t a" "shapes a" "list_all turn_cmd_ok cs"
  shows "shapes (fold record_exec cs a)"
    and "dict_get a i = Some r \<Longrightarrow> Delete_turns (tn_thread r) \<notin> set cs \<Longrightarrow> \<exists>q. dict_get (fold record_exec cs a) i = Some q \<and> evolves r q"
proof -
  show "shapes (fold record_exec cs a)"
    using assms by (induction cs arbitrary: t a) (auto intro: record_exec_shapes encodes_exec)
  show "\<exists>q. dict_get (fold record_exec cs a) i = Some q \<and> evolves r q" if "dict_get a i = Some r" "Delete_turns (tn_thread r) \<notin> set cs"
    using assms that
  proof (induction cs arbitrary: t a r)
    case (Cons c cs)
    have "turn_shape r" using Cons.prems(2,4) by (simp add: shapes_def)
    then obtain q where q: "dict_get (record_exec c a) i = Some q" "evolves r q"
      using record_exec_evolves[OF Cons.prems(4) _ _ encodesD(2)[OF Cons.prems(1)] encodesD(4)[OF Cons.prems(1,4)], of c] Cons.prems(5) by auto
    then have "\<exists>p. dict_get (fold record_exec cs (record_exec c a)) i = Some p \<and> evolves q p"
      using Cons.prems by (intro Cons.IH[OF encodes_exec[OF Cons.prems(1)] record_exec_shapes[OF Cons.prems(1)]]) (auto simp: evolves_def)
    then show ?case using q(2) evolves_trans by auto
  qed simp
qed

lemma shapes_empty [simp]: "shapes []"
  by (simp add: shapes_def)

subsection \<open>Properties of the turn store\<close>

text \<open>The answers of the methods over the table of records: a record with an error that has no type or no
  message cannot be read back.\<close>

definition answer :: "turn_record \<Rightarrow> turn_fault + turn_record" where
  "answer r = (if readable r then Inr r else Inl Turn_value)"

definition record_create :: "turn_record \<Rightarrow> record_table \<Rightarrow> turn_fault + turn_record" where
  "record_create r a = (if \<not> fresh_turn r then Inl Turn_transition
     else if dict_get a (tn_id r) \<noteq> None then Inl Turn_integrity else Inr r)"

definition record_items :: "string \<Rightarrow> string \<Rightarrow> (turn_item list \<Rightarrow> turn_item list option) \<Rightarrow> record_table \<Rightarrow> turn_fault + turn_record" where
  "record_items i thread f a = (case dict_get a i of
     None \<Rightarrow> Inl Turn_not_found
   | Some r \<Rightarrow> if tn_thread r \<noteq> thread then Inl Turn_not_found
       else if is_terminal (tn_status r) then Inl Turn_transition
       else (case f (tn_items r) of None \<Rightarrow> Inl Turn_value | Some xs \<Rightarrow> answer (r\<lparr>tn_items := xs\<rparr>)))"

definition with_item :: "turn_item \<Rightarrow> turn_item list \<Rightarrow> turn_item list option" where
  "with_item x xs = (if ti_id x \<in> ti_id ` set xs then None else Some (xs @ [x]))"

definition with_replaced :: "turn_item \<Rightarrow> turn_item list \<Rightarrow> turn_item list option" where
  "with_replaced x xs = (if count_list (map ti_id xs) (ti_id x) = 1
     then Some (map (\<lambda>y. if ti_id y = ti_id x then x else y) xs) else None)"

definition record_transition :: "string \<Rightarrow> turn_state \<Rightarrow> turn_state \<Rightarrow> string option \<Rightarrow> turn_update \<Rightarrow> int \<Rightarrow> record_table \<Rightarrow>
    turn_fault + turn_record" where
  "record_transition i x y thread w now a =
     (if \<not> turn_step x y \<or> (y = Turn_failed \<and> tu_error w = None) then Inl Turn_transition
      else case dict_get a i of None \<Rightarrow> Inl Turn_not_found
      | Some r \<Rightarrow> if thread \<noteq> None \<and> thread \<noteq> Some (tn_thread r) then Inl Turn_not_found
          else if tn_status r \<noteq> x then Inl Turn_transition
          else answer (apply_update y w now r))"

text \<open>The turns that recovery closes, the oldest first, and its answer.\<close>

definition open_turns :: "record_table \<Rightarrow> turn_record list" where
  "open_turns a = sort_key (\<lambda>r. (tn_created r, tn_id r)) (filter (\<lambda>r. \<not> is_terminal (tn_status r)) (map snd a))"

definition record_recover :: "int \<Rightarrow> record_table \<Rightarrow> turn_fault + turn_record list" where
  "record_recover now a = (if \<forall>r \<in> set (open_turns a). readable r then Inr (map (close_record now) (open_turns a)) else Inl Turn_value)"

lemma create_answers:
  assumes "encodes t a" "record_ok r"
  shows "fst (create_turn r t) = record_create r a"
proof (cases "fresh_turn r \<and> dict_get a (tn_id r) = None")
  case True
  have row: "\<lparr>tr_id = tn_id r, tr_thread = tn_thread r, tr_status = tn_status r,
        tr_input = encode_input (tn_input r) (tn_metadata r), tr_items = encode_items (tn_items r), tr_usage = None, tr_error = None,
        tr_final = None, tr_created = tn_created r, tr_started = None, tr_completed = None\<rparr> = row_of r"
    using True by (simp add: fresh_turn_def row_of_def)
  have "stored_turn (tn_id r) (dict_set t (tn_id r) (row_of r)) = (Inr r, dict_set t (tn_id r) (row_of r))"
    using stored_turn_read[OF encodes_set[OF assms refl], of "tn_id r" r] True by (simp add: readable_def fresh_turn_def)
  then have "create_turn r t = (Inr r, dict_set t (tn_id r) (row_of r))"
    unfolding create_turn_def row using True encodesD(3)[OF assms(1), of "tn_id r"] by (simp add: fresh_turn_def)
  then show ?thesis using True by (simp add: record_create_def)
next
  case False
  then show ?thesis using encodesD(3)[OF assms(1), of "tn_id r"]
    by (auto simp: create_turn_def record_create_def fresh_turn_def)
qed

text \<open>A turn whose items were changed.\<close>

lemma items_answer:
  assumes "encodes t a" "dict_get a i = Some r" "list_all item_ok xs"
  shows "fst (stored_turn i (dict_set t i (row_of r\<lparr>tr_items := encode_items xs\<rparr>))) = answer (r\<lparr>tn_items := xs\<rparr>)"
proof -
  have row: "row_of r\<lparr>tr_items := encode_items xs\<rparr> = row_of (r\<lparr>tn_items := xs\<rparr>)" by (simp add: row_of_def)
  have "record_ok (r\<lparr>tn_items := xs\<rparr>)" using encodesD(5)[OF assms(1,2)] assms(3) by (simp add: record_ok_def)
  then have "encodes (dict_set t i (row_of (r\<lparr>tn_items := xs\<rparr>))) (dict_set a i (r\<lparr>tn_items := xs\<rparr>))"
    using encodes_set[OF assms(1)] encodesD(4)[OF assms(1,2)] by simp
  from stored_turn_read[OF this, of i "r\<lparr>tn_items := xs\<rparr>"] show ?thesis by (simp add: row answer_def)
qed

lemma items_ok_of: "encodes t a \<Longrightarrow> dict_get a i = Some r \<Longrightarrow> list_all item_ok (tn_items r)"
  using encodesD(5)[of t a i r] by (simp add: record_ok_def)

lemma append_answers:
  assumes "encodes t a" "item_ok x"
  shows "fst (append_active_turn_item i thread x t) = record_items i thread (with_item x) a"
  unfolding append_active_turn_item_def active_items_read[OF assms(1)] record_items_def
  using items_answer[OF assms(1), of i _ "_ @ [x]"] items_ok_of[OF assms(1), of i] assms(2)
  by (auto simp: with_item_def split: option.split)

lemma replace_answers:
  assumes "encodes t a" "item_ok x"
  shows "fst (replace_active_turn_item i thread x t) = record_items i thread (with_replaced x) a"
proof (cases "dict_get a i")
  case (Some r)
  define ms where "ms = filter (\<lambda>n. ti_id (tn_items r ! n) = ti_id x) [0..<length (tn_items r)]"
  define ys where "ys = map (\<lambda>y. if ti_id y = ti_id x then x else y) (tn_items r)"
  have count: "length ms = count_list (map ti_id (tn_items r)) (ti_id x)" unfolding ms_def by (rule index_count)
  have with_ms: "with_replaced x (tn_items r) = (if length ms = 1 then Some ys else None)" by (simp add: with_replaced_def count ys_def)
  have ys: "(tn_items r)[n := x] = ys" if "ms = [n]" for n
    using unique_index[of "\<lambda>y. ti_id y = ti_id x" "tn_items r" n x] that by (simp add: ms_def ys_def)
  have ok: "list_all item_ok ys" using items_ok_of[OF assms(1) Some] assms(2) by (auto simp: ys_def list_all_iff)
  have conc: "fst (replace_active_turn_item i thread x t) = (if tn_thread r \<noteq> thread then Inl Turn_not_found
      else if is_terminal (tn_status r) then Inl Turn_transition
      else fst (case ms of [n] \<Rightarrow> stored_turn i (dict_set t i (row_of r\<lparr>tr_items := encode_items ((tn_items r)[n := x])\<rparr>)) | _ \<Rightarrow> (Inl Turn_value, t)))"
    using Some by (simp add: replace_active_turn_item_def active_items_read[OF assms(1)] ms_def)
  show ?thesis unfolding conc record_items_def
    using Some ys items_answer[OF assms(1) Some ok] with_ms by (cases ms rule: remdups_adj.cases) simp_all
qed (use assms in \<open>simp add: replace_active_turn_item_def active_items_read[OF assms(1)] record_items_def\<close>)

lemma transition_answers:
  assumes "encodes t a" "update_ok w"
  shows "fst (transition_turn i x y thread w now t) = record_transition i x y thread w now a"
proof -
  have "fst (stored_turn i (dict_set t i (row_of (apply_update y w now r)))) = answer (apply_update y w now r)" if "dict_get a i = Some r" for r
  proof -
    have "encodes (dict_set t i (row_of (apply_update y w now r))) (dict_set a i (apply_update y w now r))"
      using encodes_set[OF assms(1) apply_update_ok[OF encodesD(5)[OF assms(1) that] assms(2)]] encodesD(4)[OF assms(1) that] by simp
    from stored_turn_read[OF this, of i] show ?thesis by (simp add: answer_def)
  qed
  then show ?thesis using encodesD(3)[OF assms(1), of i]
    by (auto simp: transition_turn_def record_transition_def updated_row_of split: option.split)
qed

lemma table_members:
  assumes "encodes t a"
  shows "set (map snd a) = {q. dict_get a (tn_id q) = Some q}"
proof -
  have mem: "(i, q) \<in> set a \<longleftrightarrow> dict_get a i = Some q" for i q using dict_get_Some_iff[OF encodesD(2)[OF assms]] by simp
  have "q \<in> set (map snd a) \<longleftrightarrow> (\<exists>i. dict_get a i = Some q)" for q unfolding mem[symmetric] by force
  moreover have "(\<exists>i. dict_get a i = Some q) \<longleftrightarrow> dict_get a (tn_id q) = Some q" for q using encodesD(4)[OF assms] by blast
  ultimately show ?thesis by blast
qed

lemma distinct_ids:
  assumes "encodes t a"
  shows "distinct (map tn_id (map snd a))" "distinct (map tr_id (map snd t))"
proof -
  have "tn_id q = i" if "(i, q) \<in> set a" for i q
    using that dict_get_Some_iff[OF encodesD(2)[OF assms], of i q] encodesD(4)[OF assms, of i q] by simp
  then have "map tn_id (map snd a) = map fst a" by auto
  then show "distinct (map tn_id (map snd a))" using encodesD(2)[OF assms] by (simp only: dict_ok_def)
  have "tr_id r = i" if "(i, r) \<in> set t" for i r
    using that dict_get_Some_iff[OF encodesD(1)[OF assms], of i r] encodesD(3)[OF assms, of i] encodesD(4)[OF assms, of i] by auto
  then have "map tr_id (map snd t) = map fst t" by auto
  then show "distinct (map tr_id (map snd t))" using encodesD(1)[OF assms] by (simp only: dict_ok_def)
qed

lemma stale_rows_open:
  assumes "encodes t a"
  shows "stale_rows t = map row_of (open_turns a)"
proof -
  define k where "k = (\<lambda>r :: turn_row. (tr_created r, tr_id r))"
  have key: "(\<lambda>r. (tn_created r, tn_id r)) = k \<circ> row_of" by (simp add: k_def fun_eq_iff)
  have sorted: "sorted (map k (stale_rows t))" "sorted (map k (map row_of (open_turns a)))"
    unfolding stale_rows_def open_turns_def key k_def[symmetric] by (simp_all add: sorted_sort_key[of "k \<circ> row_of", simplified comp_def] comp_def)
  have "distinct (map tr_id (stale_rows t))" "distinct (map tn_id (open_turns a))"
    using distinct_map_filter[OF distinct_ids(2)[OF assms]] distinct_map_filter[OF distinct_ids(1)[OF assms]]
    unfolding stale_rows_def open_turns_def by (simp_all add: distinct_map)
  then have distinct: "distinct (map k (stale_rows t))" "distinct (map k (map row_of (open_turns a)))"
    by (auto simp: k_def distinct_map inj_on_def)
  have open_set: "q \<in> set (open_turns a) \<longleftrightarrow> dict_get a (tn_id q) = Some q \<and> \<not> is_terminal (tn_status q)" for q
    using table_members[OF assms] by (auto simp: open_turns_def simp del: set_map)
  have same: "set (stale_rows t) = set (map row_of (open_turns a))"
  proof (intro set_eqI iffI)
    fix r assume "r \<in> set (stale_rows t)"
    then obtain q where "dict_get a (tr_id r) = Some q" "r = row_of q" "\<not> is_terminal (tn_status q)" using stale_rows_of[OF assms] by blast
    then show "r \<in> set (map row_of (open_turns a))" using open_set[of q] by auto
  next
    fix r assume "r \<in> set (map row_of (open_turns a))"
    then obtain q where "q \<in> set (open_turns a)" "r = row_of q" by auto
    then show "r \<in> set (stale_rows t)" using open_set[of q] stale_rows_of[OF assms, of r] encodesD(5)[OF assms] by auto
  qed
  show ?thesis by (rule map_sorted_distinct_set_unique[OF _ sorted(1) distinct(1) sorted(2) distinct(2) same])
    (use distinct(1) same in \<open>simp add: distinct_map\<close>)
qed

lemma recover_answers:
  assumes "encodes t a"
  shows "fst (recover_in_progress_turns now t) = record_recover now a"
proof -
  define u where "u = snd (recover_in_progress_turns now t)"
  have e: "encodes u (map (\<lambda>(i, r). (i, close_record now r)) a)"
    unfolding u_def using encodes_recover[OF assms, of now] by (simp add: record_exec_def)
  have got: "fst (stored_turn (tn_id q) u) = answer (close_record now q)" if q: "q \<in> set (open_turns a)" for q
  proof -
    have "q \<in> set (map snd a)" using q by (auto simp: open_turns_def)
    then have "dict_get a (tn_id q) = Some q" using table_members[OF assms] by blast
    then have "dict_get (map (\<lambda>(i, r). (i, close_record now r)) a) (tn_id q) = Some (close_record now q)" by (simp add: dict_get_map_values)
    from stored_turn_read[OF e this] show ?thesis by (simp add: answer_def)
  qed
  have closed: "readable (close_record now q) = readable q" for q by (simp add: readable_def close_record_def)
  have all: "decode_all (\<lambda>q. fst (stored_turn (tn_id q) u)) qs =
      (if \<forall>q \<in> set qs. readable q then Inr (map (close_record now) qs) else Inl Turn_value)" if "set qs \<subseteq> set (open_turns a)" for qs
    using that by (induction qs) (auto simp: got answer_def closed)
  have map_all: "decode_all f (map g qs) = decode_all (\<lambda>q. f (g q)) qs" for f :: "turn_row \<Rightarrow> turn_fault + turn_record" and g :: "turn_record \<Rightarrow> turn_row" and qs
    by (induction qs) (auto split: sum.split)
  obtain t' where t': "recover_rows now (stale_rows t) t = Inr t'"
  proof -
    have "dict_get t i = map_option row_of (map_option (if i \<in> {} then close_record now else id) (dict_get a i))" for i
      using encodesD(3)[OF assms, of i] by (simp add: option.map_id)
    then show thesis using recover_rows_spec[of "stale_rows t" a t "{}" now] stale_rows_of[OF assms] encodesD(1)[OF assms] that by blast
  qed
  then have "u = t'" by (simp add: u_def recover_in_progress_turns_def)
  then have "fst (recover_in_progress_turns now t) = decode_all (\<lambda>r. fst (stored_turn (tr_id r) u)) (stale_rows t)"
    using t' by (simp add: recover_in_progress_turns_def)
  then show ?thesis unfolding stale_rows_open[OF assms] map_all by (simp add: all record_recover_def)
qed

lemma delete_answers:
  assumes "encodes t a"
  shows "fst (delete_thread_turns thread t) = int (card {q. dict_get a (tn_id q) = Some q \<and> tn_thread q = thread})"
proof -
  have f: "(\<lambda>(i, r). tr_thread r = thread) = (\<lambda>r. tr_thread r = thread) \<circ> snd" by auto
  define rows where "rows = filter (\<lambda>r. tr_thread r = thread) (map snd t)"
  have "distinct (map tr_id rows)" unfolding rows_def by (rule distinct_map_filter[OF distinct_ids(2)[OF assms]])
  then have "length rows = card (set rows)" by (simp add: distinct_card distinct_map)
  also have "set rows = row_of ` {q. dict_get a (tn_id q) = Some q \<and> tn_thread q = thread}"
  proof -
    have "r \<in> set (map snd t) \<longleftrightarrow> (\<exists>i. dict_get t i = Some r)" for r
      unfolding dict_get_Some_iff[OF encodesD(1)[OF assms]] by force
    moreover have "(\<exists>i. dict_get t i = Some r) \<longleftrightarrow> (\<exists>i q. dict_get a i = Some q \<and> r = row_of q)" for r
      unfolding encodesD(3)[OF assms] map_option_eq_Some by blast
    moreover have "(\<exists>i q. dict_get a i = Some q \<and> r = row_of q) \<longleftrightarrow> (\<exists>q. dict_get a (tn_id q) = Some q \<and> r = row_of q)" for r
      using encodesD(4)[OF assms] by blast
    ultimately have mem: "r \<in> set (map snd t) \<longleftrightarrow> (\<exists>q. dict_get a (tn_id q) = Some q \<and> r = row_of q)" for r by simp
    show ?thesis
    proof (intro set_eqI iffI)
      fix r assume "r \<in> set rows"
      then obtain q where "dict_get a (tn_id q) = Some q" "r = row_of q" "tr_thread r = thread"
        using mem[of r] by (auto simp: rows_def)
      then show "r \<in> row_of ` {q. dict_get a (tn_id q) = Some q \<and> tn_thread q = thread}" by auto
    next
      fix r assume "r \<in> row_of ` {q. dict_get a (tn_id q) = Some q \<and> tn_thread q = thread}"
      then obtain q where "dict_get a (tn_id q) = Some q" "r = row_of q" "tn_thread q = thread" by blast
      then have "r \<in> set (map snd t)" "tr_thread r = thread" using mem[of r] by auto
      then show "r \<in> set rows" by (simp add: rows_def)
    qed
  qed
  also have "card \<dots> = card {q. dict_get a (tn_id q) = Some q \<and> tn_thread q = thread}"
  proof (rule card_image, rule inj_onI)
    fix x y assume xy: "x \<in> {q. dict_get a (tn_id q) = Some q \<and> tn_thread q = thread}"
      "y \<in> {q. dict_get a (tn_id q) = Some q \<and> tn_thread q = thread}" "row_of x = row_of y"
    have "tn_id x = tn_id y" using xy(3) by (metis row_of_sel(1))
    then show "x = y" using xy(1,2) by simp
  qed
  finally show ?thesis by (simp add: delete_thread_turns_def f rows_def filter_map)
qed

text \<open>
  C34. The table is a store of turn records.  After any methods with valid arguments, every method answers what
  its operation on the records answers, with its error in every case: reading a turn, creating one, appending
  and replacing an item of an active turn, a transition, the recovery with the list of the closed turns in
  their order, and the deletion with its count.  A record whose error has no type or no message is stored but
  cannot be read back, and every call that has to return it raises.
\<close>

theorem turn_table_refines:
  assumes "list_all turn_cmd_ok cs" "t = fold turn_exec cs []" "a = fold record_exec cs []"
  shows "read_turn i t = (case dict_get a i of None \<Rightarrow> Inr None | Some r \<Rightarrow> map_sum id Some (answer r)) \<and>
    (record_ok q \<longrightarrow> fst (create_turn q t) = record_create q a) \<and>
    (item_ok z \<longrightarrow> fst (append_active_turn_item i th z t) = record_items i th (with_item z) a \<and>
       fst (replace_active_turn_item i th z t) = record_items i th (with_replaced z) a) \<and>
    (update_ok w \<longrightarrow> fst (transition_turn i x y thread w now t) = record_transition i x y thread w now a) \<and>
    fst (recover_in_progress_turns now t) = record_recover now a \<and>
    fst (delete_thread_turns th t) = int (card {q. dict_get a (tn_id q) = Some q \<and> tn_thread q = th})"
proof -
  have e: "encodes t a" unfolding assms(2,3) by (rule encodes_run[OF encodes_empty assms(1)])
  have "read_turn i t = (case dict_get a i of None \<Rightarrow> Inr None | Some r \<Rightarrow> map_sum id Some (answer r))"
    using encodesD(3)[OF e, of i] encodesD(5)[OF e] by (auto simp: read_turn_def row_read_back answer_def split: option.split)
  then show ?thesis using create_answers[OF e] append_answers[OF e] replace_answers[OF e] transition_answers[OF e]
      recover_answers[OF e] delete_answers[OF e] by simp
qed

text \<open>
  C35. The life of a turn.  From any reachable table, whatever methods follow, unless they delete the turns of the
  thread: a turn stays, with its id, thread, input and creation time; its status only moves along the
  transitions of the code; a terminal turn never changes at all; a start time never changes; and a turn has a
  completion time exactly when it is terminal, a start time while it runs, and an error when it failed.
\<close>

theorem turn_lifecycle:
  assumes "list_all turn_cmd_ok cs" "t = fold turn_exec cs []" "dict_get t i = Some r"
    and "list_all turn_cmd_ok ds" "Delete_turns (tr_thread r) \<notin> set ds"
  shows "\<exists>q. dict_get (fold turn_exec ds t) i = Some q \<and> tr_thread q = tr_thread r \<and> tr_input q = tr_input r \<and> tr_created q = tr_created r \<and>
    turn_step\<^sup>*\<^sup>* (tr_status r) (tr_status q) \<and> (is_terminal (tr_status r) \<longrightarrow> q = r) \<and> (tr_started r \<noteq> None \<longrightarrow> tr_started q = tr_started r) \<and>
    (tr_completed q \<noteq> None \<longleftrightarrow> is_terminal (tr_status q)) \<and> (tr_status q = Turn_running \<longrightarrow> tr_started q \<noteq> None) \<and>
    (tr_status q = Turn_failed \<longrightarrow> tr_error q \<noteq> None)"
proof -
  define a where "a = fold record_exec cs []"
  have e: "encodes t a" and s: "shapes a"
    unfolding assms(2) a_def using encodes_run[OF encodes_empty assms(1)] record_run(1)[OF encodes_empty shapes_empty assms(1)] by blast+
  have "map_option row_of (dict_get a i) = Some r" using encodesD(3)[OF e, of i] assms(3) by simp
  then obtain x where x: "dict_get a i = Some x" "r = row_of x" by auto
  have "Delete_turns (tn_thread x) \<notin> set ds" using assms(5) x(2) by simp
  then obtain y where y: "dict_get (fold record_exec ds a) i = Some y" "evolves x y" using record_run(2)[OF e s assms(4) x(1)] by blast
  have "turn_shape y" using record_run(1)[OF e s assms(4)] y(1) by (simp add: shapes_def)
  moreover have "dict_get (fold turn_exec ds t) i = Some (row_of y)" using encodesD(3)[OF encodes_run[OF e assms(4)], of i] y(1) by simp
  moreover have "tr_error (row_of y) = map_option error_to_dict (tn_error y)" "tr_input (row_of y) = encode_input (tn_input y) (tn_metadata y)"
    "tr_input r = encode_input (tn_input x) (tn_metadata x)" by (simp_all add: row_of_def x(2))
  ultimately show ?thesis using y(2) x(2) by (auto simp: evolves_def turn_shape_def)
qed

text \<open>
  Recovery closes what the previous process left.  In any reachable table recovery commits one change:
  afterwards every turn is terminal, a queued turn became cancelled, a running one interrupted, their items are
  the same ones in the same order and none is in progress; turns that were terminal are as before.
\<close>

theorem recovery_closes:
  assumes "list_all turn_cmd_ok cs" "t = fold turn_exec cs []" "dict_get t i = Some r"
  shows "\<exists>q. dict_get (snd (recover_in_progress_turns now t)) i = Some q \<and> (if is_terminal (tr_status r) then q = r
    else tr_status q = (if tr_status r = Turn_queued then Turn_cancelled else Turn_interrupted) \<and> tr_completed q = Some now \<and>
      (\<exists>xs ys. decode_turn_items (tr_items r) = Inr xs \<and> decode_turn_items (tr_items q) = Inr ys \<and> map ti_id ys = map ti_id xs \<and>
         (\<forall>y \<in> set ys. json_field (ti_data y) ''status'' \<noteq> JStr ''in_progress'')))"
proof -
  define a where "a = fold record_exec cs []"
  have e: "encodes t a" unfolding assms(2) a_def by (rule encodes_run[OF encodes_empty assms(1)])
  have "map_option row_of (dict_get a i) = Some r" using encodesD(3)[OF e, of i] assms(3) by simp
  then obtain x where x: "dict_get a i = Some x" "r = row_of x" by auto
  have e': "encodes (snd (recover_in_progress_turns now t)) (map (\<lambda>(i, r). (i, close_record now r)) a)"
    using encodes_recover[OF e, of now] by (simp add: record_exec_def)
  have q: "dict_get (snd (recover_in_progress_turns now t)) i = Some (row_of (close_record now x))"
    using encodesD(3)[OF e', of i] x(1) by (simp add: dict_get_map_values)
  have ok: "list_all item_ok (tn_items x)" using encodesD(5)[OF e x(1)] by (simp add: record_ok_def)
  have closed: "json_field (ti_data (close_item y)) ''status'' \<noteq> JStr ''in_progress''" for y
    by (simp add: close_item_def json_field_def state_text_def)
  show ?thesis
  proof (cases "is_terminal (tn_status x)")
    case True
    then show ?thesis using q x(2) by (simp add: close_record_def)
  next
    case False
    have items: "tn_items (close_record now x) = map close_item (tn_items x)" "tn_completed (close_record now x) = Some now"
      "tn_status (close_record now x) = (if tn_status x = Turn_queued then Turn_cancelled else Turn_interrupted)"
      using False by (simp_all add: close_record_def)
    have "list_all item_ok (map close_item (tn_items x))" using ok by (simp add: list_all_iff)
    then have "decode_turn_items (encode_items (map close_item (tn_items x))) = Inr (map close_item (tn_items x))" by (rule items_read_back)
    then show ?thesis using False q x(2) items items_read_back[OF ok] closed by (auto simp: comp_def)
  qed
qed

subsection \<open>Pages\<close>

definition turn_key :: "turn_row \<Rightarrow> int \<times> string" where
  "turn_key r = (tr_created r, tr_id r)"

text \<open>The turns of a thread, the newest first.\<close>

definition thread_turns :: "string \<Rightarrow> turn_table \<Rightarrow> turn_row list" where
  "thread_turns thread t = rev (sort_key turn_key (filter (\<lambda>r. tr_thread r = thread) (map snd t)))"

lemma sorted_take_less:
  fixes f :: "'a \<Rightarrow> 'b :: linorder"
  assumes "sorted_wrt (\<lambda>x y. f y < f x) xs" "k < length xs"
  shows "filter (\<lambda>x. f x < f (xs ! k)) xs = drop (Suc k) xs"
  using assms
proof (induction xs arbitrary: k)
  case (Cons x xs)
  show ?case
  proof (cases k)
    case 0
    then show ?thesis using Cons.prems by (auto simp: filter_id_conv)
  next
    case (Suc j)
    then have "xs ! j \<in> set xs" using Cons.prems(2) by simp
    then have "f (xs ! j) < f x" using Cons.prems(1) by simp
    then have "\<not> f x < f (xs ! j)" by (rule less_not_sym)
    then show ?thesis using Cons.IH[of j] Cons.prems Suc by simp
  qed
qed simp

lemma filter_sort_key: "filter P (sort_key f xs) = sort_key f (filter P xs)"
  by (induction xs) (simp_all add: filter_insort_triv filter_insort)

lemma thread_turns_sorted:
  assumes "encodes t a"
  shows "sorted_wrt (\<lambda>x y. turn_key y < turn_key x) (thread_turns thread t)"
proof -
  define xs where "xs = sort_key turn_key (filter (\<lambda>r. tr_thread r = thread) (map snd t))"
  have ids: "map tr_id (map snd t) = map fst t"
  proof -
    have "tr_id r = i" if "(i, r) \<in> set t" for i r
      using that dict_get_Some_iff[OF encodesD(1)[OF assms], of i r] encodesD(3)[OF assms, of i] encodesD(4)[OF assms, of i] by auto
    then show ?thesis by auto
  qed
  have "distinct (map tr_id (filter (\<lambda>r. tr_thread r = thread) (map snd t)))"
    by (rule distinct_map_filter) (use encodesD(1)[OF assms] in \<open>simp only: ids dict_ok_def\<close>)
  then have "distinct (map tr_id xs)"
    unfolding xs_def by (metis distinct_map distinct_sort set_sort)
  then have "distinct (map turn_key xs)" unfolding turn_key_def by (auto simp: distinct_map inj_on_def)
  then have "sorted_wrt (<) (map turn_key xs)" using sorted_sort_key[of turn_key] by (simp add: xs_def strict_sorted_iff)
  then show ?thesis by (simp add: thread_turns_def xs_def[symmetric] sorted_wrt_rev sorted_wrt_map)
qed

lemma list_turns_page:
  assumes "encodes t a" "0 < limit" "limit \<le> 200"
  shows "list_turns thread limit None t = decode_all row_to_turn (take limit (thread_turns thread t))"
    and "k < length (thread_turns thread t) \<Longrightarrow> list_turns thread limit (Some (turn_key (thread_turns thread t ! k))) t =
       decode_all row_to_turn (take limit (drop (Suc k) (thread_turns thread t)))"
proof -
  have key: "(\<lambda>r. (tr_created r, tr_id r)) = turn_key" by (simp add: turn_key_def fun_eq_iff)
  show "list_turns thread limit None t = decode_all row_to_turn (take limit (thread_turns thread t))"
    using assms(2,3) by (simp add: list_turns_def thread_turns_def key)
  assume k: "k < length (thread_turns thread t)"
  define c where "c = turn_key (thread_turns thread t ! k)"
  have "filter (\<lambda>r. turn_key r < c) (thread_turns thread t) = drop (Suc k) (thread_turns thread t)"
    unfolding c_def by (rule sorted_take_less[OF thread_turns_sorted[OF assms(1)] k])
  moreover have "filter (\<lambda>r. turn_key r < c) (thread_turns thread t) =
      rev (sort_key turn_key (filter (\<lambda>r. tr_thread r = thread \<and> turn_key r < c) (map snd t)))"
    by (simp add: thread_turns_def rev_filter[symmetric] filter_sort_key conj_commute)
  moreover have "(\<lambda>r. tr_thread r = thread \<and> (tr_created r, tr_id r) < c) = (\<lambda>r. tr_thread r = thread \<and> turn_key r < c)" by (simp add: turn_key_def)
  ultimately show "list_turns thread limit (Some (turn_key (thread_turns thread t ! k))) t = decode_all row_to_turn (take limit (drop (Suc k) (thread_turns thread t)))"
    using assms(2,3) by (simp add: list_turns_def key c_def[symmetric])
qed

text \<open>
  C36. Pages skip and repeat nothing.  In any reachable table the first page of a thread holds its newest turns,
  and the page after a turn holds the turns that follow it in the order of creation time and id: so following
  the pages by their last turn shows every turn of the thread once.
\<close>

theorem turn_pages:
  assumes "list_all turn_cmd_ok cs" "t = fold turn_exec cs []" "0 < limit" "limit \<le> 200"
  shows "distinct (thread_turns thread t) \<and> set (thread_turns thread t) = {r. tr_thread r = thread \<and> dict_get t (tr_id r) = Some r} \<and>
    list_turns thread limit None t = decode_all row_to_turn (take limit (thread_turns thread t)) \<and>
    (\<forall>k < length (thread_turns thread t). list_turns thread limit (Some (turn_key (thread_turns thread t ! k))) t =
       decode_all row_to_turn (take limit (drop (Suc k) (thread_turns thread t))))"
proof (intro conjI allI impI)
  have e: "encodes t (fold record_exec cs [])" unfolding assms(2) by (rule encodes_run[OF encodes_empty assms(1)])
  have "sorted_wrt (\<lambda>x y. turn_key y < turn_key x) xs \<Longrightarrow> distinct xs" for xs by (induction xs) auto
  then show "distinct (thread_turns thread t)" using thread_turns_sorted[OF e] by blast
  have "r \<in> set (thread_turns thread t) \<longleftrightarrow> tr_thread r = thread \<and> (\<exists>i. dict_get t i = Some r)" for r
    unfolding dict_get_Some_iff[OF encodesD(1)[OF e]] by (force simp: thread_turns_def)
  moreover have "tr_id r = i" if "dict_get t i = Some r" for i r using that encodesD(3,4)[OF e, of i] by auto
  ultimately show "set (thread_turns thread t) = {r. tr_thread r = thread \<and> dict_get t (tr_id r) = Some r}"
    by blast
  show "list_turns thread limit None t = decode_all row_to_turn (take limit (thread_turns thread t))"
    by (rule list_turns_page(1)[OF e assms(3,4)])
  show "list_turns thread limit (Some (turn_key (thread_turns thread t ! k))) t = decode_all row_to_turn (take limit (drop (Suc k) (thread_turns thread t)))"
    if "k < length (thread_turns thread t)" for k
    by (rule list_turns_page(2)[OF e assms(3,4) that])
qed

lemma thread_turns_decode:
  assumes "encodes u a" "q \<in> set (thread_turns thread u)"
  shows "row_to_turn q = Inl Turn_value \<or> (\<exists>p. row_to_turn q = Inr p)"
proof -
  obtain j where "dict_get u j = Some q" using assms dict_get_Some_iff[OF encodesD(1)[OF assms(1)]] by (force simp: thread_turns_def)
  then obtain p where "dict_get a j = Some p" "q = row_of p" using encodesD(3)[OF assms(1), of j] by auto
  then show ?thesis using row_read_back[OF encodesD(5)[OF assms(1)]] by simp
qed

lemma decode_all_unreadable:
  "\<lbrakk>q \<in> set rs; f q = Inl e; \<And>p. p \<in> set rs \<Longrightarrow> f p = Inl e \<or> (\<exists>y. f p = Inr y)\<rbrakk> \<Longrightarrow> decode_all f rs = Inl e"
proof (induction rs)
  case (Cons p rs)
  have "f p = Inl e \<or> (\<exists>y. f p = Inr y)" by (rule Cons.prems(3)) simp
  moreover have "decode_all f rs = Inl e \<or> p = q" using Cons.IH Cons.prems by auto
  ultimately show ?case using Cons.prems(2) by auto
qed simp

text \<open>The rows of a page: the newest turns, or the newest of those before the cursor.\<close>

definition page_rows :: "string \<Rightarrow> nat \<Rightarrow> (int \<times> string) option \<Rightarrow> turn_table \<Rightarrow> turn_row list" where
  "page_rows thread n before t = take n (filter (\<lambda>r. case before of None \<Rightarrow> True | Some c \<Rightarrow> turn_key r < c) (thread_turns thread t))"

lemma list_turns_rows:
  assumes "0 < n" "n \<le> 200"
  shows "list_turns thread n before t = decode_all row_to_turn (page_rows thread n before t)"
proof -
  have rows: "filter P (thread_turns thread t) = rev (sort_key turn_key (filter (\<lambda>r. tr_thread r = thread \<and> P r) (map snd t)))" for P
    by (simp add: thread_turns_def rev_filter[symmetric] filter_sort_key conj_commute)
  have key: "(\<lambda>r :: turn_row. (tr_created r, tr_id r)) = turn_key" by (simp add: turn_key_def fun_eq_iff)
  show ?thesis unfolding list_turns_def page_rows_def rows key using assms by (cases before) (simp_all add: turn_key_def)
qed

lemma list_turns_unreadable:
  assumes "encodes u a" "0 < n" "n \<le> 200" "q \<in> set (page_rows thread n before u)" "row_to_turn q = Inl Turn_value"
  shows "list_turns thread n before u = Inl Turn_value"
  unfolding list_turns_rows[OF assms(2,3)]
proof (rule decode_all_unreadable[where f = row_to_turn, OF assms(4,5)])
  fix x assume "x \<in> set (page_rows thread n before u)"
  then have "x \<in> set (thread_turns thread u)" by (auto simp: page_rows_def dest: in_set_takeD)
  then show "row_to_turn x = Inl Turn_value \<or> (\<exists>y. row_to_turn x = Inr y)" by (rule thread_turns_decode[OF assms(1)])
qed

text \<open>
  C37. An error without a message makes its turn unreadable for good.  When a running turn is set to failed with
  an error whose type or message is empty, the change is committed but the call raises; whatever methods follow,
  unless they delete the turns of the thread, the turn stays failed and reading it raises, and so does every page
  of the thread that includes it, the first one as well as the page before any cursor.
\<close>

theorem empty_error_poisons:
  assumes "list_all turn_cmd_ok cs" "t = fold turn_exec cs []" "dict_get t i = Some r" "tr_status r = Turn_running"
    and "update_ok w" "tu_error w = Some e" "te_type e = [] \<or> te_message e = []"
    and "list_all turn_cmd_ok ds" "Delete_turns (tr_thread r) \<notin> set ds"
    and "u = fold turn_exec ds (snd (transition_turn i Turn_running Turn_failed (Some (tr_thread r)) w now t))"
  shows "fst (transition_turn i Turn_running Turn_failed (Some (tr_thread r)) w now t) = Inl Turn_value \<and>
    (\<exists>q. dict_get u i = Some q \<and> tr_status q = Turn_failed \<and> tr_thread q = tr_thread r \<and> read_turn i u = Inl Turn_value \<and>
       (\<forall>n before. 0 < n \<longrightarrow> n \<le> 200 \<longrightarrow> q \<in> set (page_rows (tr_thread r) n before u) \<longrightarrow> list_turns (tr_thread r) n before u = Inl Turn_value))"
proof -
  define a where "a = fold record_exec cs []"
  define c where "c = Transition i Turn_running Turn_failed (Some (tr_thread r)) w now"
  have e: "encodes t a" and s: "shapes a"
    unfolding assms(2) a_def using encodes_run[OF encodes_empty assms(1)] record_run(1)[OF encodes_empty shapes_empty assms(1)] by blast+
  have "map_option row_of (dict_get a i) = Some r" using encodesD(3)[OF e, of i] assms(3) by simp
  then obtain x where x: "dict_get a i = Some x" "r = row_of x" by auto
  define y where "y = apply_update Turn_failed w now x"
  have c: "turn_cmd_ok c" using assms(5) by (simp add: turn_cmd_ok_def c_def)
  have y: "dict_get (record_exec c a) i = Some y" "is_terminal (tn_status y)" "tn_thread y = tr_thread r" "\<not> readable y" "tn_status y = Turn_failed"
  proof -
    have "tn_error y = Some e" by (simp add: y_def apply_update_def or_else_def assms(6))
    then show "\<not> readable y" using assms(7) by (auto simp: readable_def error_readable_def)
    show "dict_get (record_exec c a) i = Some y" using x assms(4,6) by (simp add: record_exec_def change_record_get c_def y_def)
  qed (use x in \<open>simp_all add: y_def\<close>)
  note e1 = encodes_exec[OF e c] and s1 = record_exec_shapes[OF e c s]
  have t1: "turn_exec c t = snd (transition_turn i Turn_running Turn_failed (Some (tr_thread r)) w now t)" by (simp add: turn_exec_def c_def)
  have eu: "encodes u (fold record_exec ds (record_exec c a))" unfolding assms(10) t1[symmetric] by (rule encodes_run[OF e1 assms(8)])
  have "Delete_turns (tn_thread y) \<notin> set ds" using assms(9) y(3) by simp
  then have stay: "dict_get (fold record_exec ds (record_exec c a)) i = Some y"
    using record_run(2)[OF e1 s1 assms(8) y(1)] y(2) by (auto simp: evolves_def)
  have row: "dict_get u i = Some (row_of y)" "row_to_turn (row_of y) = Inl Turn_value"
    using encodesD(3)[OF eu, of i] stay row_read_back[OF encodesD(5)[OF eu stay]] y(4) by simp_all
  have "list_turns (tr_thread r) n before u = Inl Turn_value" if "0 < n" "n \<le> 200" "row_of y \<in> set (page_rows (tr_thread r) n before u)" for n before
    by (rule list_turns_unreadable[OF eu that(1,2,3) row(2)])
  moreover have "fst (transition_turn i Turn_running Turn_failed (Some (tr_thread r)) w now t) = Inl Turn_value"
  proof -
    have "record_ok y" unfolding y_def by (rule apply_update_ok[OF encodesD(5)[OF e x(1)] assms(5)])
    then have "encodes (dict_set t i (row_of y)) (dict_set a i y)" using encodes_set[OF e] encodesD(4)[OF e x(1)] by (simp add: y_def)
    then have "stored_turn i (dict_set t i (row_of y)) = (Inl Turn_value, dict_set t i (row_of y))"
      using stored_turn_read[of _ _ i y] y(4) by simp
    then show ?thesis using assms(3,4,6) x(2) by (simp add: transition_turn_def updated_row_of y_def[symmetric])
  qed
  moreover have "read_turn i u = Inl Turn_value" using row by (simp add: read_turn_def)
  ultimately show ?thesis using row(1) y(3,5) by auto
qed

subsection \<open>A concrete thread\<close>

definition demo_turn :: turn_record where
  "demo_turn = \<lparr>tn_id = ''t'', tn_thread = ''p'', tn_status = Turn_queued, tn_input = ''hello'', tn_metadata = [],
     tn_items = [\<lparr>ti_kind = User_item, ti_id = ''i'', ti_data = [(''content'', JStr ''hello'')]\<rparr>], tn_usage = None, tn_error = None, tn_final = None,
     tn_created = 1, tn_started = None, tn_completed = None\<rparr>"

definition no_update :: turn_update where
  "no_update = \<lparr>tu_items = None, tu_usage = None, tu_error = None, tu_final = None\<rparr>"

definition demo_turn_cmds :: "turn_cmd list" where
  "demo_turn_cmds = [Create_turn demo_turn, Transition ''t'' Turn_queued Turn_running (Some ''p'') no_update 2,
     Append_item ''t'' ''p'' \<lparr>ti_kind = Tool_item, ti_id = ''j'', ti_data = [(''status'', JStr ''in_progress'')]\<rparr>]"

definition demo_running :: turn_record where
  "demo_running = demo_turn\<lparr>tn_status := Turn_running, tn_started := Some 2,
     tn_items := tn_items demo_turn @ [\<lparr>ti_kind = Tool_item, ti_id = ''j'', ti_data = [(''status'', JStr ''in_progress'')]\<rparr>]\<rparr>"

lemma demo_turns_ok: "list_all turn_cmd_ok demo_turn_cmds"
  by code_simp

lemma demo_turns: "fold turn_exec demo_turn_cmds [] = [(''t'', row_of demo_running)]"
  by code_simp

lemma demo_records: "fold record_exec demo_turn_cmds [] = [(''t'', demo_running)]"
  by code_simp

lemma demo_get: "dict_get [(''t'', row_of demo_running)] ''t'' = Some (row_of demo_running)"
  by (simp add: dict_get_def)

lemma demo_running_sel [simp]: "tn_status demo_running = Turn_running" "tn_thread demo_running = ''p''" "tn_started demo_running = Some 2" "tn_error demo_running = None"
  by (simp_all add: demo_running_def demo_turn_def)

theorem turn_table_refines_witness:
  "read_turn ''t'' [(''t'', row_of demo_running)] = Inr (Some demo_running) \<and>
   fst (create_turn demo_turn [(''t'', row_of demo_running)]) = Inl Turn_integrity \<and>
   fst (append_active_turn_item ''t'' ''p'' (hd (tn_items demo_turn)) [(''t'', row_of demo_running)]) = Inl Turn_value \<and>
   fst (recover_in_progress_turns 9 [(''t'', row_of demo_running)]) = Inr [close_record 9 demo_running]"
proof -
  have ok: "record_ok demo_turn" "item_ok (hd (tn_items demo_turn))" "fresh_turn demo_turn" by code_simp+
  have opens: "open_turns [(''t'', demo_running)] = [demo_running]" by code_simp
  have item: "record_items ''t'' ''p'' (with_item (hd (tn_items demo_turn))) [(''t'', demo_running)] = Inl Turn_value" by code_simp
  show ?thesis
    using turn_table_refines[OF demo_turns_ok refl refl, of "''t''" demo_turn "hd (tn_items demo_turn)" "''p''" no_update Turn_running Turn_completed None 9]
      ok opens item
    by (simp add: demo_turns demo_records dict_get_def answer_def readable_def record_create_def record_recover_def demo_turn_def)
qed

theorem turn_lifecycle_witness:
  "\<exists>q. dict_get (fold turn_exec [Transition ''t'' Turn_running Turn_completed None no_update 3, Recover_turns 4] [(''t'', row_of demo_running)]) ''t'' = Some q \<and>
     tr_thread q = ''p'' \<and> turn_step\<^sup>*\<^sup>* Turn_running (tr_status q) \<and> tr_started q = Some 2"
proof -
  have "dict_get (fold turn_exec demo_turn_cmds []) ''t'' = Some (row_of demo_running)" unfolding demo_turns by (rule demo_get)
  moreover have "list_all turn_cmd_ok [Transition ''t'' Turn_running Turn_completed None no_update 3, Recover_turns 4]" by code_simp
  ultimately show ?thesis
    using turn_lifecycle[OF demo_turns_ok refl, of "''t''" "row_of demo_running" "[Transition ''t'' Turn_running Turn_completed None no_update 3, Recover_turns 4]"]
    unfolding demo_turns by auto
qed

theorem recovery_closes_witness:
  "\<exists>q. dict_get (snd (recover_in_progress_turns 9 [(''t'', row_of demo_running)])) ''t'' = Some q \<and> tr_status q = Turn_interrupted \<and> tr_completed q = Some 9"
proof -
  have "dict_get (fold turn_exec demo_turn_cmds []) ''t'' = Some (row_of demo_running)" unfolding demo_turns by (rule demo_get)
  from recovery_closes[OF demo_turns_ok refl this, of 9] show ?thesis unfolding demo_turns by auto
qed

theorem turn_pages_witness:
  "list_turns ''p'' 1 None [(''t'', row_of demo_running)] = decode_all row_to_turn (take 1 (thread_turns ''p'' [(''t'', row_of demo_running)]))"
  using turn_pages[OF demo_turns_ok refl, of 1 "''p''"] unfolding demo_turns by simp

theorem empty_error_poisons_witness:
  "fst (transition_turn ''t'' Turn_running Turn_failed (Some ''p'') (no_update\<lparr>tu_error := Some \<lparr>te_type = ''TimeoutError'', te_message = [], te_retryable = False, te_data = None\<rparr>\<rparr>) 3
     [(''t'', row_of demo_running)]) = Inl Turn_value"
proof -
  let ?e = "\<lparr>te_type = ''TimeoutError'', te_message = [], te_retryable = False, te_data = None\<rparr>"
  have "dict_get (fold turn_exec demo_turn_cmds []) ''t'' = Some (row_of demo_running)" unfolding demo_turns by (rule demo_get)
  moreover have "update_ok (no_update\<lparr>tu_error := Some ?e\<rparr>)" by (simp add: update_ok_def no_update_def)
  ultimately show ?thesis
    using empty_error_poisons[OF demo_turns_ok refl, of "''t''" "row_of demo_running" "no_update\<lparr>tu_error := Some ?e\<rparr>" ?e "[]" _ 3] unfolding demo_turns by simp
qed

end
