(* ===== verification/Control_Replay.thy ===== *)
theory Control_Replay
  imports Turn_Store
begin

text \<open>
  The event streams of turns (src/agent/control/runtime.py): the bounded history that the runtime keeps to
  replay events, its global index, its expiry, and the queues of the subscribers.

  Objects that the code compares with \<open>is\<close> carry their identity (\<open>ev_ref\<close>); the size of an encoded event,
  which depends on its time stamp, is a parameter; times of the monotonic clock are inputs.  No method here
  awaits, except a consumer that waits for its queue, so each is one step.  A method that raises returns the
  fault and the state it leaves.
\<close>

subsection \<open>State\<close>

datatype event_data = Turn_data turn_record | Item_data turn_item | Delta_data string string int

record turn_event =
  ev_ref :: nat
  ev_method :: string
  ev_thread :: string
  ev_turn :: string
  ev_data :: event_data

datatype stream_value = Event_value turn_event | Truncated_notice turn_record | Expired_notice turn_record
  | Slow_consumer | Stream_failure string | Stream_end

record stream_queue =
  sq_turn :: string
  sq_max :: nat
  sq_values :: "stream_value list"
  sq_taken :: "stream_value list"
  sq_open :: bool

record replay_config =
  rc_size :: "turn_event \<Rightarrow> nat"
  rc_events :: nat
  rc_turn_bytes :: int
  rc_global_bytes :: int
  rc_ttl :: int
  rc_queue :: nat

record replay =
  rp_history :: "(string, turn_event list) dict"
  rp_sequences :: "(string, int list) dict"
  rp_next :: "(string, int) dict"
  rp_truncated :: "string list"
  rp_order :: "(string \<times> int, turn_event \<times> int) dict"
  rp_totals :: "(string, int) dict"
  rp_bytes :: int
  rp_expiry :: "(string, int) dict"
  rp_subscribers :: "(string, nat list) dict"
  rp_queues :: "stream_queue list"
  rp_results :: "string list"
  rp_failed :: bool

datatype replay_fault = Index_corrupted | Key_missing | Reaper_failed | Stream_turn_missing | Stream_argument | Stream_store turn_fault

definition new_replay :: replay where
  "new_replay = \<lparr>rp_history = [], rp_sequences = [], rp_next = [], rp_truncated = [], rp_order = [], rp_totals = [], rp_bytes = 0,
     rp_expiry = [], rp_subscribers = [], rp_queues = [], rp_results = [], rp_failed = False\<rparr>"

text \<open>What \<open>start_turn\<close> and \<open>reject_never_fit_turn\<close> register for a new turn.\<close>

definition register_turn :: "string \<Rightarrow> replay \<Rightarrow> replay" where
  "register_turn t r = r\<lparr>rp_results := List.insert t (rp_results r), rp_history := dict_set (rp_history r) t [],
     rp_sequences := dict_set (rp_sequences r) t [], rp_totals := dict_set (rp_totals r) t 0, rp_next := dict_set (rp_next r) t 0,
     rp_subscribers := dict_set (rp_subscribers r) t []\<rparr>"

subsection \<open>Removing events\<close>

text \<open>The loop of \<open>_remove_replay_event\<close>: every event of the history must be in the index; \<open>None\<close> is the raise.\<close>

fun find_target :: "(string \<times> int, turn_event \<times> int) dict \<Rightarrow> string \<Rightarrow> int \<Rightarrow> turn_event \<Rightarrow> bool \<Rightarrow> nat \<Rightarrow> (int \<times> turn_event) list \<Rightarrow> nat option \<Rightarrow> nat option option" where
  "find_target ord t s e glob n [] target = Some target"
| "find_target ord t s e glob n ((s', e') # xs) target =
     (if glob \<and> s' = s then
        if e' \<noteq> e \<or> target \<noteq> None then None else find_target ord t s e glob (Suc n) xs (Some n)
      else case dict_get ord (t, s') of
        None \<Rightarrow> None
      | Some (x, b) \<Rightarrow> if x \<noteq> e' then None
          else if s' = s then if e' \<noteq> e then None else find_target ord t s e glob (Suc n) xs (Some n)
          else find_target ord t s e glob (Suc n) xs target)"

definition drop_nth :: "nat \<Rightarrow> 'a list \<Rightarrow> 'a list" where
  "drop_nth n xs = take n xs @ drop (Suc n) xs"

definition remove_replay_event :: "string \<Rightarrow> int \<Rightarrow> turn_event \<Rightarrow> int option \<Rightarrow> bool \<Rightarrow> replay \<Rightarrow> replay_fault option \<times> replay" where
  "remove_replay_event t s e bytes glob r = (case (dict_get (rp_history r) t, dict_get (rp_sequences r) t) of
     (Some hs, Some ss) \<Rightarrow>
       if length hs \<noteq> length ss \<or> \<not> distinct ss then (Some Index_corrupted, r)
       else (case find_target (rp_order r) t s e glob 0 (zip ss hs) None of
         Some (Some n) \<Rightarrow>
           (let entry = dict_get (rp_order r) (t, s);
                size = (if glob then if entry \<noteq> None then None else bytes
                  else case entry of None \<Rightarrow> None | Some (x, b) \<Rightarrow> if x \<noteq> e \<or> (bytes \<noteq> None \<and> bytes \<noteq> Some b) then None else Some b)
            in case (size, dict_get (rp_totals r) t) of
              (Some b, Some tot) \<Rightarrow>
                if b < 0 \<or> tot < b \<or> rp_bytes r < b then (Some Index_corrupted, r)
                else (None, r\<lparr>rp_history := dict_set (rp_history r) t (drop_nth n hs), rp_sequences := dict_set (rp_sequences r) t (drop_nth n ss),
                  rp_order := (if glob then rp_order r else dict_del (rp_order r) (t, s)), rp_bytes := rp_bytes r - b,
                  rp_totals := dict_set (rp_totals r) t (tot - b)\<rparr>)
            | _ \<Rightarrow> (Some Index_corrupted, r))
       | _ \<Rightarrow> (Some Index_corrupted, r))
   | _ \<Rightarrow> (Some Index_corrupted, r))"

definition remove_oldest_replay_event :: "string \<Rightarrow> replay \<Rightarrow> replay_fault option \<times> replay" where
  "remove_oldest_replay_event t r = (case (dict_get (rp_history r) t, dict_get (rp_sequences r) t) of
     (Some (e # hs), Some (s # ss)) \<Rightarrow> if length hs \<noteq> length ss then (Some Index_corrupted, r) else remove_replay_event t s e None False r
   | (Some _, Some _) \<Rightarrow> (Some Index_corrupted, r)
   | _ \<Rightarrow> (Some Key_missing, r))"

definition history_of :: "string \<Rightarrow> replay \<Rightarrow> turn_event list" where
  "history_of t r = (case dict_get (rp_history r) t of None \<Rightarrow> [] | Some hs \<Rightarrow> hs)"

lemma find_target_bound:
  "find_target ord t s e glob n xs target = Some (Some k) \<Longrightarrow> (\<And>j. target = Some j \<Longrightarrow> j < n) \<Longrightarrow> k < n + length xs"
  by (induction xs arbitrary: n target) (auto split: if_splits option.splits, fastforce+)

lemma remove_event_shorter: "remove_replay_event t s e b glob r = (None, r') \<Longrightarrow> length (history_of t r') < length (history_of t r)"
  by (auto simp: remove_replay_event_def history_of_def drop_nth_def Let_def split: option.splits if_splits dest!: find_target_bound)

lemma remove_oldest_shorter: "remove_oldest_replay_event t r = (None, r') \<Longrightarrow> length (history_of t r') < length (history_of t r)"
  by (auto simp: remove_oldest_replay_event_def split: option.splits list.splits if_splits dest: remove_event_shorter)

text \<open>The loops of \<open>_trim_turn_replay\<close> and of \<open>_gc_terminal_replay\<close> over the events of one turn.\<close>

function remove_while :: "(replay \<Rightarrow> bool) \<Rightarrow> string \<Rightarrow> replay \<Rightarrow> replay_fault option \<times> replay" where
  "remove_while P t r = (if history_of t r = [] \<or> \<not> P r then (None, r)
     else case remove_oldest_replay_event t r of (Some f, r') \<Rightarrow> (Some f, r') | (None, r') \<Rightarrow> remove_while P t r')"
  by pat_completeness auto
termination by (relation "measure (\<lambda>(P, t, r). length (history_of t r))") (auto dest: remove_oldest_shorter[OF sym])

declare remove_while.simps [simp del]

definition over_turn_limits :: "replay_config \<Rightarrow> string \<Rightarrow> replay \<Rightarrow> bool" where
  "over_turn_limits c t r \<longleftrightarrow> rc_events c < length (history_of t r) \<or> (case dict_get (rp_totals r) t of None \<Rightarrow> False | Some b \<Rightarrow> rc_turn_bytes c < b)"

definition trim_turn_replay :: "replay_config \<Rightarrow> string \<Rightarrow> replay \<Rightarrow> replay_fault option \<times> replay" where
  "trim_turn_replay c t r = (case remove_while (over_turn_limits c t) t r of
     (Some f, r') \<Rightarrow> (Some f, r')
   | (None, r') \<Rightarrow> (case dict_get (rp_next r') t of
       None \<Rightarrow> (Some Key_missing, r')
     | Some n \<Rightarrow> (None, if int (length (history_of t r')) < n then r'\<lparr>rp_truncated := List.insert t (rp_truncated r')\<rparr> else r')))"

lemma remove_global_order: "remove_replay_event t s e b True r = (f, r') \<Longrightarrow> rp_order r' = rp_order r"
  by (auto simp: remove_replay_event_def Let_def split: option.splits if_splits)

function trim_global_replay :: "replay_config \<Rightarrow> replay \<Rightarrow> replay_fault option \<times> replay" where
  "trim_global_replay c r = (case rp_order r of
     [] \<Rightarrow> (None, r)
   | ((t, s), (e, b)) # rest \<Rightarrow> if rp_bytes r \<le> rc_global_bytes c then (None, r)
       else (case remove_replay_event t s e (Some b) True (r\<lparr>rp_order := rest\<rparr>) of
         (Some f, r') \<Rightarrow> (Some f, r')
       | (None, r') \<Rightarrow> trim_global_replay c (r'\<lparr>rp_truncated := List.insert t (rp_truncated r')\<rparr>)))"
  by pat_completeness auto
termination by (relation "measure (\<lambda>(c, r). length (rp_order r))") (auto dest!: remove_global_order[OF sym])

declare trim_global_replay.simps [simp del]

text \<open>\<open>_gc_terminal_replay\<close>.\<close>

definition forget_turn :: "string \<Rightarrow> replay \<Rightarrow> replay" where
  "forget_turn t r = r\<lparr>rp_history := dict_del (rp_history r) t, rp_sequences := dict_del (rp_sequences r) t, rp_totals := dict_del (rp_totals r) t,
     rp_truncated := removeAll t (rp_truncated r), rp_next := dict_del (rp_next r) t, rp_subscribers := dict_del (rp_subscribers r) t,
     rp_results := removeAll t (rp_results r), rp_expiry := dict_del (rp_expiry r) t\<rparr>"

fun gc_turns :: "int \<Rightarrow> (string \<times> int) list \<Rightarrow> replay \<Rightarrow> replay_fault option \<times> replay" where
  "gc_turns now [] r = (None, r)"
| "gc_turns now ((t, x) # rest) r =
     (if now < x then gc_turns now rest r
      else if dict_get (rp_history r) t = None then gc_turns now rest (r\<lparr>rp_expiry := dict_del (rp_expiry r) t\<rparr>)
      else case remove_while (\<lambda>r. True) t r of
        (Some f, r') \<Rightarrow> (Some f, r')
      | (None, r') \<Rightarrow> gc_turns now rest (forget_turn t r'))"

definition gc_terminal_replay :: "int \<Rightarrow> replay \<Rightarrow> replay_fault option \<times> replay" where
  "gc_terminal_replay now r = gc_turns now (rp_expiry r) r"

text \<open>Sequencing of steps that may raise.\<close>

definition and_then :: "replay_fault option \<times> replay \<Rightarrow> (replay \<Rightarrow> replay_fault option \<times> replay) \<Rightarrow> replay_fault option \<times> replay" where
  "and_then x f = (case x of (Some e, r) \<Rightarrow> (Some e, r) | (None, r) \<Rightarrow> f r)"

subsection \<open>Publishing\<close>

definition put_or_drop :: "stream_value \<Rightarrow> stream_queue \<Rightarrow> stream_queue" where
  "put_or_drop v q = q\<lparr>sq_values := (if length (sq_values q) < sq_max q then sq_values q @ [v] else [Slow_consumer])\<rparr>"

fun deliver :: "turn_event \<Rightarrow> nat list \<Rightarrow> replay \<Rightarrow> replay" where
  "deliver e [] r = r"
| "deliver e (i # is') r = deliver e is' (r\<lparr>rp_queues := (rp_queues r)[i := put_or_drop (Event_value e) (rp_queues r ! i)],
     rp_subscribers := (if length (sq_values (rp_queues r ! i)) < sq_max (rp_queues r ! i) then rp_subscribers r
       else dict_set (rp_subscribers r) (ev_turn e) (case dict_get (rp_subscribers r) (ev_turn e) of None \<Rightarrow> [] | Some qs \<Rightarrow> removeAll i qs))\<rparr>)"

definition push_event :: "replay_config \<Rightarrow> turn_event \<Rightarrow> replay \<Rightarrow> replay_fault option \<times> replay" where
  "push_event c e r = (let t = ev_turn e in case (dict_get (rp_history r) t, dict_get (rp_sequences r) t, dict_get (rp_next r) t, dict_get (rp_totals r) t) of
     (Some hs, Some ss, Some n, Some tot) \<Rightarrow> (None, r\<lparr>rp_next := dict_set (rp_next r) t (n + 1),
       rp_history := dict_set (rp_history r) t (hs @ [e]), rp_sequences := dict_set (rp_sequences r) t (ss @ [n]),
       rp_order := dict_set (rp_order r) (t, n) (e, int (rc_size c e)), rp_bytes := rp_bytes r + int (rc_size c e),
       rp_totals := dict_set (rp_totals r) t (tot + int (rc_size c e))\<rparr>)
   | _ \<Rightarrow> (Some Key_missing, r))"

definition publish :: "replay_config \<Rightarrow> int \<Rightarrow> turn_event \<Rightarrow> replay \<Rightarrow> replay_fault option \<times> replay" where
  "publish c now e r =
     (if rp_failed r then (Some Reaper_failed, r)
      else and_then (gc_terminal_replay now r) (\<lambda>r. and_then (push_event c e r) (\<lambda>r. and_then (trim_turn_replay c (ev_turn e) r) (\<lambda>r.
        and_then (trim_global_replay c r) (\<lambda>r. case dict_get (rp_subscribers r) (ev_turn e) of
          None \<Rightarrow> (Some Key_missing, r)
        | Some qs \<Rightarrow> (None, deliver e qs r))))))"

fun update_queues :: "(stream_queue \<Rightarrow> stream_queue) \<Rightarrow> nat list \<Rightarrow> stream_queue list \<Rightarrow> stream_queue list" where
  "update_queues f [] qs = qs"
| "update_queues f (i # is') qs = update_queues f is' (qs[i := f (qs ! i)])"

definition finish_streams :: "replay_config \<Rightarrow> int \<Rightarrow> string \<Rightarrow> replay \<Rightarrow> replay_fault option \<times> replay" where
  "finish_streams c now t r =
     (if rp_failed r then (Some Reaper_failed, r)
      else let r = r\<lparr>rp_expiry := dict_set (rp_expiry r) t (now + rc_ttl c)\<rparr> in case dict_get (rp_subscribers r) t of
        None \<Rightarrow> (Some Key_missing, r)
      | Some qs \<Rightarrow> (None, r\<lparr>rp_queues := update_queues (put_or_drop Stream_end) qs (rp_queues r)\<rparr>))"

definition fail_streams :: "string \<Rightarrow> string \<Rightarrow> replay \<Rightarrow> replay_fault option \<times> replay" where
  "fail_streams t msg r = (case dict_get (rp_subscribers r) t of
     None \<Rightarrow> (Some Key_missing, r)
   | Some qs \<Rightarrow> (None, r\<lparr>rp_queues := update_queues (\<lambda>q. q\<lparr>sq_values := [Stream_failure msg]\<rparr>) qs (rp_queues r)\<rparr>))"

subsection \<open>Consumers\<close>

definition read_thread_turn :: "string \<Rightarrow> string \<Rightarrow> turn_table \<Rightarrow> replay_fault + turn_record" where
  "read_thread_turn thread t tbl = (case read_turn t tbl of
     Inl f \<Rightarrow> Inl (Stream_store f)
   | Inr None \<Rightarrow> Inl Stream_turn_missing
   | Inr (Some x) \<Rightarrow> if tn_thread x = thread then Inr x else Inl Stream_turn_missing)"

text \<open>
  The events a subscription starts with.  The cursor \<open>after\<close> is the sequence number of the last event the
  client saw.
\<close>

definition replay_values :: "turn_record \<Rightarrow> bool \<Rightarrow> int option \<Rightarrow> replay \<Rightarrow> stream_value list" where
  "replay_values x expired after r =
     (let t = tn_id x; hs = history_of t r; ss = (case dict_get (rp_sequences r) t of None \<Rightarrow> [] | Some ss \<Rightarrow> ss) in
      if expired then [Expired_notice x]
      else case after of
        Some a \<Rightarrow> (if ss \<noteq> [] \<and> a < hd ss - 1 then [Truncated_notice x] else []) @ map (Event_value \<circ> snd) (filter (\<lambda>(s, e). a < s) (zip ss hs))
      | None \<Rightarrow> (if t \<in> set (rp_truncated r) then [Truncated_notice x] else []) @ map Event_value hs)"

definition replay_expired :: "int \<Rightarrow> turn_record \<Rightarrow> replay \<Rightarrow> bool" where
  "replay_expired now x r \<longleftrightarrow> is_terminal (tn_status x) \<and> (dict_get (rp_history r) (tn_id x) = None \<or>
     (case dict_get (rp_expiry r) (tn_id x) of None \<Rightarrow> False | Some y \<Rightarrow> y \<le> now))"

definition open_stream :: "replay_config \<Rightarrow> turn_record \<Rightarrow> stream_value list \<Rightarrow> replay \<Rightarrow> replay" where
  "open_stream c x vs r = (let i = length (rp_queues r);
       q = \<lparr>sq_turn = tn_id x, sq_max = max (rc_queue c) (length vs + 1), sq_values = vs @ (if is_terminal (tn_status x) then [Stream_end] else []),
         sq_taken = [], sq_open = True\<rparr>
     in r\<lparr>rp_queues := rp_queues r @ [q], rp_subscribers := (if is_terminal (tn_status x) then rp_subscribers r
       else dict_set (rp_subscribers r) (tn_id x) (case dict_get (rp_subscribers r) (tn_id x) of None \<Rightarrow> [i] | Some qs \<Rightarrow> List.insert i qs))\<rparr>)"

definition subscribe :: "replay_config \<Rightarrow> int \<Rightarrow> string \<Rightarrow> string \<Rightarrow> int option \<Rightarrow> turn_table \<Rightarrow> replay \<Rightarrow> replay_fault option \<times> replay" where
  "subscribe c now thread t after tbl r =
     (if after \<noteq> None \<and> the after < -1 then (Some Stream_argument, r)
      else if rp_failed r then (Some Reaper_failed, r)
      else and_then (gc_terminal_replay now r) (\<lambda>r. case read_thread_turn thread t tbl of
        Inl f \<Rightarrow> (Some f, r)
      | Inr x \<Rightarrow> if dict_get (rp_history r) t = None \<and> \<not> is_terminal (tn_status x) then (Some Stream_turn_missing, r)
          else (None, open_stream c x (replay_values x (replay_expired now x r) after r) r)))"

definition discard_queue :: "nat \<Rightarrow> replay \<Rightarrow> replay" where
  "discard_queue i r = (let t = sq_turn (rp_queues r ! i) in case dict_get (rp_subscribers r) t of
     None \<Rightarrow> r
   | Some qs \<Rightarrow> r\<lparr>rp_subscribers := dict_set (rp_subscribers r) t (removeAll i qs)\<rparr>)"

definition close_stream :: "nat \<Rightarrow> replay \<Rightarrow> replay" where
  "close_stream i r = discard_queue i (r\<lparr>rp_queues := (rp_queues r)[i := (rp_queues r ! i)\<lparr>sq_open := False\<rparr>]\<rparr>)"

definition ends_stream :: "stream_value \<Rightarrow> bool" where
  "ends_stream v = (case v of Event_value e \<Rightarrow> False | Truncated_notice x \<Rightarrow> False | Expired_notice x \<Rightarrow> False | _ \<Rightarrow> True)"

definition take_value :: "nat \<Rightarrow> replay \<Rightarrow> replay" where
  "take_value i r = (if length (rp_queues r) \<le> i \<or> \<not> sq_open (rp_queues r ! i) then r
     else case sq_values (rp_queues r ! i) of
       [] \<Rightarrow> r
     | v # vs \<Rightarrow> (let r' = r\<lparr>rp_queues := (rp_queues r)[i := (rp_queues r ! i)\<lparr>sq_values := vs, sq_taken := sq_taken (rp_queues r ! i) @ [v]\<rparr>]\<rparr>
         in if ends_stream v then close_stream i r' else r'))"

text \<open>The body of the loop of \<open>_replay_reaper\<close> when a turn expires; a fault is recorded and ends the reaper.\<close>

definition reap :: "int \<Rightarrow> replay \<Rightarrow> replay" where
  "reap now r = (case gc_terminal_replay now r of (None, r') \<Rightarrow> r' | (Some f, r') \<Rightarrow> r'\<lparr>rp_failed := True\<rparr>)"

subsection \<open>Steps\<close>

datatype replay_cmd = Register_turn string | Publish int turn_event | Finish int string | Fail_turn string string
  | Subscribe int string string "int option" turn_table | Take_value nat | Close_stream nat | Reap int

definition replay_step :: "replay_config \<Rightarrow> replay_cmd \<Rightarrow> replay \<Rightarrow> replay_fault option \<times> replay" where
  "replay_step c k r = (case k of
     Register_turn t \<Rightarrow> (None, if dict_get (rp_history r) t = None then register_turn t r else r)
   | Publish now e \<Rightarrow> publish c now e r
   | Finish now t \<Rightarrow> finish_streams c now t r
   | Fail_turn t msg \<Rightarrow> fail_streams t msg r
   | Subscribe now thread t after tbl \<Rightarrow> subscribe c now thread t after tbl r
   | Take_value i \<Rightarrow> (None, take_value i r)
   | Close_stream i \<Rightarrow> (None, if i < length (rp_queues r) then close_stream i r else r)
   | Reap now \<Rightarrow> (None, reap now r))"

definition replay_exec :: "replay_config \<Rightarrow> replay_cmd \<Rightarrow> replay \<Rightarrow> replay" where
  "replay_exec c k r = snd (replay_step c k r)"

subsection \<open>The index\<close>

text \<open>The numbers of the last events when \<open>n\<close> were published.\<close>

fun last_numbers :: "int \<Rightarrow> 'a list \<Rightarrow> int list" where
  "last_numbers n [] = []"
| "last_numbers n (x # xs) = (n - int (length (x # xs))) # last_numbers n xs"

lemma last_numbers_snoc: "last_numbers (n + 1) (xs @ [x]) = last_numbers n xs @ [n]"
  by (induction xs) simp_all

lemma length_last_numbers [simp]: "length (last_numbers n xs) = length xs"
  by (induction xs) simp_all

lemma last_numbers_set: "s \<in> set (last_numbers n xs) \<longleftrightarrow> n - int (length xs) \<le> s \<and> s < n"
  by (induction xs) auto

lemma last_numbers_distinct [simp]: "distinct (last_numbers n xs)"
  by (induction xs) (auto simp: last_numbers_set)

lemma last_numbers_Nil [simp]: "last_numbers n xs = [] \<longleftrightarrow> xs = []"
  by (cases xs) simp_all

lemma last_numbers_hd [simp]: "xs \<noteq> [] \<Longrightarrow> hd (last_numbers n xs) = n - int (length xs)"
  by (cases xs) simp_all

lemma last_numbers_above: "map snd (filter (\<lambda>(s, e). a < s) (zip (last_numbers n xs) xs)) = drop (nat (a + 1 - (n - int (length xs)))) xs"
proof (induction xs)
  case (Cons x xs)
  show ?case
  proof (cases "a < n - int (length (x # xs))")
    case True
    then have "filter (\<lambda>(s, e). a < s) (zip (last_numbers n xs) xs) = zip (last_numbers n xs) xs"
      by (intro filter_True) (auto dest!: set_zip_leftD simp: last_numbers_set)
    then show ?thesis using True by simp
  next
    case False
    then have "nat (a + 1 - (n - int (length (x # xs)))) = Suc (nat (a + 1 - (n - int (length xs))))" by simp
    then show ?thesis using False Cons.IH by simp
  qed
qed simp

text \<open>What the global index says of one turn, oldest first: number, event and size.\<close>

definition order_of :: "string \<Rightarrow> (string \<times> int, turn_event \<times> int) dict \<Rightarrow> (int \<times> turn_event \<times> int) list" where
  "order_of t ord = map (\<lambda>((u, s), x). (s, x)) (filter (\<lambda>((u, s), x). u = t) ord)"

lemma order_of_Nil [simp]: "order_of t [] = []"
  by (simp add: order_of_def)

lemma order_of_Cons [simp]: "order_of t (((u, s), x) # ord) = (if u = t then (s, x) # order_of t ord else order_of t ord)"
  by (simp add: order_of_def)

lemma order_of_set: "(s, x) \<in> set (order_of t ord) \<longleftrightarrow> ((t, s), x) \<in> set ord"
  by (force simp: order_of_def)

lemma order_of_get: "dict_ok ord \<Longrightarrow> dict_get ord (t, s) = Some x \<longleftrightarrow> (s, x) \<in> set (order_of t ord)"
  by (simp add: dict_get_Some_iff order_of_set)

lemma order_of_append: "order_of t (a @ b) = order_of t a @ order_of t b"
  by (simp add: order_of_def)

lemma order_of_del: "order_of t (dict_del ord (u, s)) = (if u = t then filter (\<lambda>(s', x). s' \<noteq> s) (order_of t ord) else order_of t ord)"
  by (induction ord) (auto simp: dict_del_def AList.delete_eq split: if_splits)

definition order_bytes :: "(string \<times> int, turn_event \<times> int) dict \<Rightarrow> int" where
  "order_bytes ord = sum_list (map (\<lambda>(k, e, b). b) ord)"

lemma order_bytes_simps [simp]: "order_bytes [] = 0" "order_bytes ((k, e, b) # ord) = b + order_bytes ord" "order_bytes (a @ c) = order_bytes a + order_bytes c"
  by (simp_all add: order_bytes_def)

lemma order_bytes_del: "dict_ok ord \<Longrightarrow> dict_get ord k = Some (e, b) \<Longrightarrow> order_bytes (dict_del ord k) = order_bytes ord - b"
proof (induction ord)
  case (Cons x ord)
  obtain k' e' b' where x: "x = (k', e', b')" by (cases x) auto
  have "dict_ok ord" "dict_get ord k' = None" using Cons.prems(1) x by (auto simp: dict_ok_def dict_get_None_iff)
  moreover have "dict_get ord k = None \<Longrightarrow> dict_del ord k = ord"
    by (metis AList.delete_id dict_del_def dict_get_def map_of_eq_None_iff)
  ultimately show ?case using Cons.IH Cons.prems(2) x by (auto simp: dict_get_def dict_del_def split: if_splits)
qed (simp add: dict_get_def)

lemma order_bytes_ge: "(\<And>k' e' b'. (k', e', b') \<in> set ord \<Longrightarrow> 0 \<le> b') \<Longrightarrow> (k, e, b) \<in> set ord \<Longrightarrow> b \<le> order_bytes ord \<and> 0 \<le> order_bytes ord"
proof -
  have nn: "(\<And>k' e' b'. (k', e', b') \<in> set ord \<Longrightarrow> 0 \<le> b') \<Longrightarrow> 0 \<le> order_bytes ord" for ord :: "(string \<times> int, turn_event \<times> int) dict"
    unfolding order_bytes_def by (rule sum_list_nonneg) force
  assume p: "\<And>k' e' b'. (k', e', b') \<in> set ord \<Longrightarrow> 0 \<le> b'" and "(k, e, b) \<in> set ord"
  then obtain u v where "ord = u @ (k, e, b) # v" by (meson split_list)
  then show ?thesis using nn[of u] nn[of v] p by fastforce
qed

definition sizes :: "replay_config \<Rightarrow> turn_event list \<Rightarrow> int" where
  "sizes c es = sum_list (map (\<lambda>e. int (rc_size c e)) es)"

lemma sizes_simps [simp]: "sizes c [] = 0" "sizes c (e # es) = int (rc_size c e) + sizes c es" "sizes c (es @ fs) = sizes c es + sizes c fs"
  by (simp_all add: sizes_def)

lemma sizes_nonneg [simp]: "0 \<le> sizes c es"
  by (induction es) simp_all

definition stamped :: "replay_config \<Rightarrow> int \<Rightarrow> turn_event list \<Rightarrow> (int \<times> turn_event \<times> int) list" where
  "stamped c n es = zip (last_numbers n es) (map (\<lambda>e. (e, int (rc_size c e))) es)"

lemma stamped_simps [simp]: "stamped c n [] = []" "stamped c n (e # es) = (n - int (length (e # es)), e, int (rc_size c e)) # stamped c n es"
  by (simp_all add: stamped_def)

lemma stamped_snoc: "stamped c (n + 1) (es @ [e]) = stamped c n es @ [(n, e, int (rc_size c e))]"
  by (simp add: stamped_def last_numbers_snoc)

lemma stamped_set: "(s, e, b) \<in> set (stamped c n es) \<Longrightarrow> n - int (length es) \<le> s \<and> s < n \<and> b = int (rc_size c e) \<and> e \<in> set es"
  by (induction es) auto

lemma stamped_zip: "(s, e) \<in> set (zip (last_numbers n es) es) \<Longrightarrow> (s, e, int (rc_size c e)) \<in> set (stamped c n es)"
  by (induction es) auto

text \<open>
  The state agrees with the events \<open>L t\<close> that were published to each known turn: its history is the end of
  them, and the index holds exactly the histories.
\<close>

definition index_ok :: "replay_config \<Rightarrow> (string \<Rightarrow> turn_event list) \<Rightarrow> replay \<Rightarrow> bool" where
  "index_ok c L r \<longleftrightarrow> dict_ok (rp_order r) \<and>
     (\<forall>t. dict_get (rp_sequences r) t = map_option (last_numbers (int (length (L t)))) (dict_get (rp_history r) t)) \<and>
     (\<forall>t. dict_get (rp_next r) t = map_option (\<lambda>hs. int (length (L t))) (dict_get (rp_history r) t)) \<and>
     (\<forall>t. dict_get (rp_totals r) t = map_option (sizes c) (dict_get (rp_history r) t)) \<and>
     (\<forall>t. dict_get (rp_subscribers r) t = None \<longleftrightarrow> dict_get (rp_history r) t = None) \<and>
     (\<forall>t hs. dict_get (rp_history r) t = Some hs \<longrightarrow> suffix hs (L t)) \<and>
     (\<forall>t. order_of t (rp_order r) = stamped c (int (length (L t))) (history_of t r)) \<and>
     rp_bytes r = order_bytes (rp_order r)"

lemma index_okD:
  assumes "index_ok c L r"
  shows "dict_ok (rp_order r)" "dict_get (rp_sequences r) t = map_option (last_numbers (int (length (L t)))) (dict_get (rp_history r) t)"
    "dict_get (rp_next r) t = map_option (\<lambda>hs. int (length (L t))) (dict_get (rp_history r) t)"
    "dict_get (rp_totals r) t = map_option (sizes c) (dict_get (rp_history r) t)"
    "dict_get (rp_subscribers r) t = None \<longleftrightarrow> dict_get (rp_history r) t = None"
    "dict_get (rp_history r) t = Some hs \<Longrightarrow> suffix hs (L t)"
    "order_of t (rp_order r) = stamped c (int (length (L t))) (history_of t r)" "rp_bytes r = order_bytes (rp_order r)"
  using assms by (simp_all add: index_ok_def)

lemma index_entry:
  assumes "index_ok c L r" "((t, s), e, b) \<in> set (rp_order r)"
  shows "b = int (rc_size c e) \<and> e \<in> set (history_of t r)"
proof -
  have "(s, e, b) \<in> set (stamped c (int (length (L t))) (history_of t r))"
    using assms(2) by (simp add: index_okD(7)[OF assms(1), symmetric] order_of_set)
  from stamped_set[OF this] show ?thesis by simp
qed

text \<open>Removing the oldest event of a turn, which may already have left the index.\<close>

lemma find_target_absent:
  assumes "s \<notin> fst ` set xs" "\<And>s' e'. (s', e') \<in> set xs \<Longrightarrow> \<exists>b. dict_get ord (t, s') = Some (e', b)"
  shows "find_target ord t s e glob n xs target = Some target"
  using assms by (induction xs arbitrary: n) (auto, fastforce)

lemma find_target_head:
  assumes "s \<notin> fst ` set xs" "\<And>s' e'. (s', e') \<in> set xs \<Longrightarrow> \<exists>b. dict_get ord (t, s') = Some (e', b)"
    "glob \<or> (\<exists>b. dict_get ord (t, s) = Some (e, b))"
  shows "find_target ord t s e glob 0 ((s, e) # xs) None = Some (Some 0)"
  using assms by (auto simp: find_target_absent)

definition removed_head :: "replay_config \<Rightarrow> string \<Rightarrow> turn_event \<Rightarrow> turn_event list \<Rightarrow> int \<Rightarrow> (string \<times> int, turn_event \<times> int) dict \<Rightarrow> replay \<Rightarrow> replay" where
  "removed_head c t e hs n ord r = r\<lparr>rp_history := dict_set (rp_history r) t hs, rp_sequences := dict_set (rp_sequences r) t (last_numbers n hs),
     rp_order := ord, rp_bytes := rp_bytes r - int (rc_size c e), rp_totals := dict_set (rp_totals r) t (sizes c hs)\<rparr>"

lemma removed_head_sel [simp]:
  "rp_next (removed_head c t e hs n ord r) = rp_next r" "rp_truncated (removed_head c t e hs n ord r) = rp_truncated r"
  "rp_subscribers (removed_head c t e hs n ord r) = rp_subscribers r" "rp_queues (removed_head c t e hs n ord r) = rp_queues r"
  "rp_failed (removed_head c t e hs n ord r) = rp_failed r" "rp_expiry (removed_head c t e hs n ord r) = rp_expiry r"
  "rp_order (removed_head c t e hs n ord r) = ord"
  "history_of u (removed_head c t e hs n ord r) = (if u = t then hs else history_of u r)"
  "dict_get (rp_history (removed_head c t e hs n ord r)) u = (if u = t then Some hs else dict_get (rp_history r) u)"
  by (simp_all add: removed_head_def history_of_def)

lemma removed_head_index:
  assumes "index_ok c L r" "dict_get (rp_history r) t = Some (e # hs)" "dict_ok ord" "order_bytes ord = rp_bytes r - int (rc_size c e)"
    "\<And>u. order_of u ord = (if u = t then stamped c (int (length (L t))) hs else order_of u (rp_order r))"
  shows "index_ok c L (removed_head c t e hs (int (length (L t))) ord r)"
  unfolding index_ok_def
proof (intro conjI allI impI)
  fix u gs assume "dict_get (rp_history (removed_head c t e hs (int (length (L t))) ord r)) u = Some gs"
  then show "suffix gs (L u)" using index_okD(6)[OF assms(1), of u gs] index_okD(6)[OF assms(1,2)] by (auto split: if_splits dest: suffix_ConsD)
qed (use assms(2-) index_okD[OF assms(1)] in \<open>auto simp: removed_head_def history_of_def\<close>)

lemma index_present:
  assumes "index_ok c L r" "dict_get (rp_history r) t = Some hs" "(s, e) \<in> set (zip (last_numbers (int (length (L t))) hs) hs)"
  shows "dict_get (rp_order r) (t, s) = Some (e, int (rc_size c e))"
  using stamped_zip[OF assms(3), of c] assms(2) index_okD(7)[OF assms(1), of t] by (simp add: order_of_get[OF index_okD(1)[OF assms(1)]] history_of_def)

lemma index_room:
  assumes "index_ok c L r" "dict_get (rp_history r) t = Some (e # hs)" "((t, s), e, b) \<in> set (rp_order r)"
  shows "int (rc_size c e) \<le> rp_bytes r" "b = int (rc_size c e)"
proof -
  have "0 \<le> b'" if "(k', e', b') \<in> set (rp_order r)" for k' e' b'
    using index_entry[OF assms(1), of "fst k'" "snd k'" e' b'] that by simp
  from order_bytes_ge[OF this assms(3)] show "int (rc_size c e) \<le> rp_bytes r" "b = int (rc_size c e)"
    using index_entry[OF assms(1,3)] by (simp_all add: index_okD(8)[OF assms(1)])
qed

lemma remove_oldest:
  assumes ok: "index_ok c L r" and h: "dict_get (rp_history r) t = Some (e # hs)"
  defines "n \<equiv> int (length (L t))"
  defines "r' \<equiv> removed_head c t e hs n (dict_del (rp_order r) (t, n - int (length (e # hs)))) r"
  shows "remove_oldest_replay_event t r = (None, r')" "index_ok c L r'"
proof -
  let ?s = "n - int (length (e # hs))"
  have here: "dict_get (rp_order r) (t, ?s) = Some (e, int (rc_size c e))" using index_present[OF ok h, of ?s e] by (simp add: n_def)
  have "((t, ?s), e, int (rc_size c e)) \<in> set (rp_order r)" by (rule dict_get_SomeD[OF here])
  note room = index_room(1)[OF ok h this]
  have "find_target (rp_order r) t ?s e False 0 ((?s, e) # zip (last_numbers n hs) hs) None = Some (Some 0)"
  proof (rule find_target_head)
    show "\<exists>b. dict_get (rp_order r) (t, s') = Some (e', b)" if "(s', e') \<in> set (zip (last_numbers n hs) hs)" for s' e'
      using index_present[OF ok h, of s' e'] that by (simp add: n_def)
  qed (use here in \<open>auto simp: last_numbers_set dest!: set_zip_leftD\<close>)
  then show "remove_oldest_replay_event t r = (None, r')"
    using h here room index_okD(2,4)[OF ok, of t]
    by (simp add: remove_oldest_replay_event_def remove_replay_event_def n_def[symmetric] r'_def removed_head_def drop_nth_def last_numbers_set Let_def not_less)
  show "index_ok c L r'"
    unfolding r'_def n_def
  proof (rule removed_head_index[OF ok h])
    fix u
    have "filter (\<lambda>(s', x). s' \<noteq> int (length (L t)) - int (length (e # hs))) (stamped c (int (length (L t))) hs) = stamped c (int (length (L t))) hs"
      by (rule filter_True) (auto dest: stamped_set)
    then show "order_of u (dict_del (rp_order r) (t, int (length (L t)) - int (length (e # hs)))) = (if u = t then stamped c (int (length (L t))) hs else order_of u (rp_order r))"
      using index_okD(7)[OF ok, of t] h by (auto simp: order_of_del history_of_def)
  qed (use index_okD(1,8)[OF ok] order_bytes_del[OF index_okD(1)[OF ok] here] in \<open>simp_all add: n_def\<close>)
qed

lemma remove_global:
  assumes ok: "index_ok c L r" and o: "rp_order r = ((t, s), (e, b)) # rest"
  obtains hs where "dict_get (rp_history r) t = Some (e # hs)" "b = int (rc_size c e)"
    "remove_replay_event t s e (Some b) True (r\<lparr>rp_order := rest\<rparr>) = (None, removed_head c t e hs (int (length (L t))) rest r)"
    "index_ok c L (removed_head c t e hs (int (length (L t))) rest r)"
proof -
  let ?n = "int (length (L t))"
  have st: "(s, e, b) # order_of t rest = stamped c ?n (history_of t r)" using index_okD(7)[OF ok, of t] o by simp
  then obtain hs where hs: "history_of t r = e # hs" "order_of t rest = stamped c ?n hs" "s = ?n - int (length (e # hs))" "b = int (rc_size c e)"
    by (cases "history_of t r") auto
  then have h: "dict_get (rp_history r) t = Some (e # hs)" by (simp add: history_of_def split: option.splits)
  have ok': "dict_ok rest" "dict_get rest (t, s) = None" using index_okD(1)[OF ok] o by (auto simp: dict_ok_def dict_get_None_iff)
  have present: "\<exists>b. dict_get rest (t, s') = Some (e', b)" if "(s', e') \<in> set (zip (last_numbers ?n hs) hs)" for s' e'
    using stamped_zip[OF that, of c] hs(2) by (auto simp: order_of_get[OF ok'(1)])
  have "find_target rest t s e True 0 ((s, e) # zip (last_numbers ?n hs) hs) None = Some (Some 0)"
    by (rule find_target_head) (use present in \<open>auto simp: hs(3) last_numbers_set dest!: set_zip_leftD\<close>)
  moreover have "int (rc_size c e) \<le> rp_bytes r" by (rule index_room(1)[OF ok h, of s b]) (simp add: o)
  ultimately have "remove_replay_event t s e (Some b) True (r\<lparr>rp_order := rest\<rparr>) = (None, removed_head c t e hs ?n rest r)"
    using h ok'(2) index_okD(2,4)[OF ok, of t] hs(3,4)
    by (simp add: remove_replay_event_def removed_head_def drop_nth_def last_numbers_set Let_def not_less)
  moreover have "index_ok c L (removed_head c t e hs ?n rest r)"
    by (rule removed_head_index[OF ok h ok'(1)]) (use o hs index_okD(8)[OF ok] in \<open>auto split: if_splits\<close>)
  ultimately show thesis using that h hs(4) by blast
qed

text \<open>What the loops leave.\<close>

definition shrinks :: "replay \<Rightarrow> replay \<Rightarrow> bool" where
  "shrinks r r' \<longleftrightarrow> (\<forall>t. dict_get (rp_history r') t = None \<longleftrightarrow> dict_get (rp_history r) t = None) \<and> (\<forall>t. suffix (history_of t r') (history_of t r)) \<and>
     rp_bytes r' \<le> rp_bytes r \<and> rp_next r' = rp_next r \<and> rp_subscribers r' = rp_subscribers r \<and> rp_queues r' = rp_queues r \<and>
     rp_failed r' = rp_failed r \<and> rp_expiry r' = rp_expiry r"

lemma shrinks_refl [simp]: "shrinks r r"
  by (simp add: shrinks_def)

lemma shrinks_trans: "shrinks r s \<Longrightarrow> shrinks s u \<Longrightarrow> shrinks r u"
  by (fastforce simp: shrinks_def intro: suffix_order.trans)

lemma shrinks_head:
  "dict_get (rp_history r) t = Some (e # hs) \<Longrightarrow> shrinks r (removed_head c t e hs n ord r)"
  by (simp add: shrinks_def) (simp add: history_of_def removed_head_def suffix_Cons)

lemma remove_while_ok:
  assumes "index_ok c L r"
  obtains r' where "remove_while P t r = (None, r')" "index_ok c L r'" "shrinks r r'" "rp_truncated r' = rp_truncated r"
    "history_of t r' = [] \<or> \<not> P r'" "\<And>u. u \<noteq> t \<Longrightarrow> history_of u r' = history_of u r"
proof -
  have "\<exists>r'. remove_while P t r = (None, r') \<and> index_ok c L r' \<and> shrinks r r' \<and> rp_truncated r' = rp_truncated r \<and> (history_of t r' = [] \<or> \<not> P r') \<and>
      (\<forall>u. u \<noteq> t \<longrightarrow> history_of u r' = history_of u r)"
    using assms
  proof (induction "length (history_of t r)" arbitrary: r rule: less_induct)
    case less
    show ?case
    proof (cases "history_of t r = [] \<or> \<not> P r")
      case True then show ?thesis using less.prems by (subst remove_while.simps) auto
    next
      case False
      then obtain e hs where h: "history_of t r = e # hs" "dict_get (rp_history r) t = Some (e # hs)"
        by (cases "history_of t r") (auto simp: history_of_def split: option.splits)
      note rm = remove_oldest[OF less.prems h(2)]
      show ?thesis
        using less.hyps[OF _ rm(2)] h rm(1) False shrinks_trans[OF shrinks_head[OF h(2)]] by (subst remove_while.simps) fastforce
    qed
  qed
  then show thesis using that by blast
qed

definition trunc_ok :: "(string \<Rightarrow> turn_event list) \<Rightarrow> replay \<Rightarrow> bool" where
  "trunc_ok L r \<longleftrightarrow> (\<forall>t. t \<in> set (rp_truncated r) \<longleftrightarrow> (\<exists>hs. dict_get (rp_history r) t = Some hs \<and> length hs < length (L t)))"

lemma known_history: "dict_get (rp_history r) t = Some hs \<Longrightarrow> history_of t r = hs"
  by (simp add: history_of_def)

lemma known_iff: "dict_get (rp_history r) t = (if dict_get (rp_history r) t = None then None else Some (history_of t r))"
  by (auto simp: history_of_def)

lemma known_same:
  "(dict_get (rp_history r) t = None) = (dict_get (rp_history s) t = None) \<Longrightarrow> history_of t r = history_of t s \<Longrightarrow>
     dict_get (rp_history r) t = dict_get (rp_history s) t"
  by (auto simp: history_of_def split: option.splits)

lemma dict_get_member: "(k, v) \<in> set d \<Longrightarrow> dict_get d k \<noteq> None"
  by (induction d) (auto simp: dict_get_def)

lemma trim_turn_ok:
  assumes "index_ok c L r" "dict_get (rp_history r) t \<noteq> None"
    and "\<And>u. u \<noteq> t \<Longrightarrow> u \<in> set (rp_truncated r) \<longleftrightarrow> (\<exists>hs. dict_get (rp_history r) u = Some hs \<and> length hs < length (L u))"
    and "t \<in> set (rp_truncated r) \<Longrightarrow> length (history_of t r) < length (L t)"
  obtains r' where "trim_turn_replay c t r = (None, r')" "index_ok c L r'" "trunc_ok L r'" "shrinks r r'"
    "history_of t r' = [] \<or> \<not> over_turn_limits c t r'" "\<And>u. u \<noteq> t \<Longrightarrow> history_of u r' = history_of u r"
proof -
  from remove_while_ok[OF assms(1), of "over_turn_limits c t" t] obtain r1 where
    r1: "remove_while (over_turn_limits c t) t r = (None, r1)" "index_ok c L r1" "shrinks r r1" "rp_truncated r1 = rp_truncated r"
    "history_of t r1 = [] \<or> \<not> over_turn_limits c t r1" "\<And>u. u \<noteq> t \<Longrightarrow> history_of u r1 = history_of u r" by blast
  have known: "dict_get (rp_history r1) u = None \<longleftrightarrow> dict_get (rp_history r) u = None" for u using r1(3) by (simp add: shrinks_def)
  have n: "dict_get (rp_next r1) t = Some (int (length (L t)))" using index_okD(3)[OF r1(2), of t] assms(2) known[of t] by auto
  define r' where "r' = (if length (history_of t r1) < length (L t) then r1\<lparr>rp_truncated := List.insert t (rp_truncated r1)\<rparr> else r1)"
  have same: "history_of u r' = history_of u r1" "index_ok c L r'" "shrinks r1 r'" "rp_totals r' = rp_totals r1" for u
    using r1(2) by (simp_all add: r'_def history_of_def index_ok_def shrinks_def)
  have "trunc_ok L r'" unfolding trunc_ok_def
  proof
    fix u
    show "u \<in> set (rp_truncated r') \<longleftrightarrow> (\<exists>hs. dict_get (rp_history r') u = Some hs \<and> length hs < length (L u))"
    proof (cases "u = t")
      case True
      moreover have "length (history_of t r1) \<le> length (history_of t r)" using r1(3) by (auto simp: shrinks_def dest: suffix_length_le)
      moreover have "dict_get (rp_history r1) t = Some (history_of t r1)" using known_iff[of r1 t] assms(2) known[of t] by auto
      ultimately show ?thesis using assms(4) r1(4) by (auto simp: r'_def)
    next
      case False
      have "dict_get (rp_history r1) u = dict_get (rp_history r) u" using known_iff[of r1 u] known_iff[of r u] known[of u] r1(6)[OF False] by auto
      then show ?thesis using assms(3)[OF False] False r1(4) by (auto simp: r'_def)
    qed
  qed
  moreover have "trim_turn_replay c t r = (None, r')" using r1(1) n by (simp add: trim_turn_replay_def r'_def)
  moreover have "history_of t r' = [] \<or> \<not> over_turn_limits c t r'" using r1(5) same(1,4) by (simp add: over_turn_limits_def)
  ultimately show thesis using that same r1(6) shrinks_trans[OF r1(3) same(3)] by auto
qed

lemma trim_global_ok:
  assumes "index_ok c L r" "trunc_ok L r" "0 \<le> rc_global_bytes c"
  obtains r' where "trim_global_replay c r = (None, r')" "index_ok c L r'" "trunc_ok L r'" "shrinks r r'" "rp_bytes r' \<le> rc_global_bytes c"
proof -
  have "\<exists>r'. trim_global_replay c r = (None, r') \<and> index_ok c L r' \<and> trunc_ok L r' \<and> shrinks r r' \<and> rp_bytes r' \<le> rc_global_bytes c"
    using assms(1,2)
  proof (induction "length (rp_order r)" arbitrary: r rule: less_induct)
    case less
    consider "rp_order r = []" | "rp_bytes r \<le> rc_global_bytes c" "rp_order r \<noteq> []" | t s e b rest where "rp_order r = ((t, s), (e, b)) # rest" "\<not> rp_bytes r \<le> rc_global_bytes c"
      by (cases "rp_order r") auto
    then show ?case
    proof cases
      case 1 then show ?thesis using less.prems index_okD(8)[OF less.prems(1)] assms(3) by (subst trim_global_replay.simps) simp
    next
      case 2 then show ?thesis using less.prems by (subst trim_global_replay.simps) (auto split: list.split)
    next
      case 3
      from remove_global[OF less.prems(1) 3(1)] obtain hs where
        hs: "dict_get (rp_history r) t = Some (e # hs)"
        "remove_replay_event t s e (Some b) True (r\<lparr>rp_order := rest\<rparr>) = (None, removed_head c t e hs (int (length (L t))) rest r)"
        "index_ok c L (removed_head c t e hs (int (length (L t))) rest r)" by blast
      define r1 where "r1 = removed_head c t e hs (int (length (L t))) rest r"
      define r2 where "r2 = r1\<lparr>rp_truncated := List.insert t (rp_truncated r1)\<rparr>"
      have "length (e # hs) \<le> length (L t)" using index_okD(6)[OF less.prems(1) hs(1)] by (rule suffix_length_le)
      then have "trunc_ok L r2" using less.prems(2) hs(1) by (auto simp: trunc_ok_def r2_def r1_def)
      moreover have "index_ok c L r2" using hs(3) by (simp add: index_ok_def r2_def r1_def history_of_def)
      moreover have "shrinks r r2" using shrinks_head[OF hs(1)] by (simp add: shrinks_def r2_def r1_def history_of_def)
      moreover have "length (rp_order r2) < length (rp_order r)" by (simp add: r2_def r1_def 3(1))
      moreover have "trim_global_replay c r = trim_global_replay c r2" using 3 hs(2) by (subst trim_global_replay.simps) (simp add: r2_def r1_def)
      ultimately show ?thesis using less.hyps[of r2] shrinks_trans[of r r2] by metis
    qed
  qed
  then show thesis using that by blast
qed

text \<open>Expired turns are forgotten as a whole; the others stay as they are.\<close>

definition keeps :: "replay \<Rightarrow> replay \<Rightarrow> bool" where
  "keeps r r' \<longleftrightarrow> (\<forall>t. dict_get (rp_history r') t = dict_get (rp_history r) t \<and> dict_get (rp_subscribers r') t = dict_get (rp_subscribers r) t
       \<or> dict_get (rp_history r') t = None \<and> dict_get (rp_subscribers r') t = None \<and> dict_get (rp_expiry r) t \<noteq> None) \<and>
     (\<forall>t. dict_get (rp_expiry r) t = None \<longrightarrow> dict_get (rp_expiry r') t = None) \<and>
     rp_queues r' = rp_queues r \<and> rp_failed r' = rp_failed r \<and> rp_bytes r' \<le> rp_bytes r"

lemma keeps_refl [simp]: "keeps r r"
  by (simp add: keeps_def)

lemma keeps_trans: "keeps r s \<Longrightarrow> keeps s u \<Longrightarrow> keeps r u"
proof -
  assume a: "keeps r s" "keeps s u"
  have "dict_get (rp_history u) t = dict_get (rp_history r) t \<and> dict_get (rp_subscribers u) t = dict_get (rp_subscribers r) t
       \<or> dict_get (rp_history u) t = None \<and> dict_get (rp_subscribers u) t = None \<and> dict_get (rp_expiry r) t \<noteq> None" for t
    using a[unfolded keeps_def, THEN conjunct1, THEN spec, of t] a(1)[unfolded keeps_def, THEN conjunct2, THEN conjunct1, THEN spec, of t] by auto
  then show "keeps r u" using a by (auto simp: keeps_def)
qed

lemma gc_turns_ok:
  assumes "index_ok c L r" "trunc_ok L r" "\<And>t x. (t, x) \<in> set xs \<Longrightarrow> dict_get (rp_expiry r0) t \<noteq> None" "keeps r0 r"
  obtains r' where "gc_turns now xs r = (None, r')" "index_ok c L r'" "trunc_ok L r'" "keeps r0 r'"
proof -
  have "\<exists>r'. gc_turns now xs r = (None, r') \<and> index_ok c L r' \<and> trunc_ok L r' \<and> keeps r0 r'"
    using assms
  proof (induction xs arbitrary: r)
    case (Cons x xs)
    obtain t y where x: "x = (t, y)" by (cases x)
    have step: ?case if "gc_turns now (x # xs) r = gc_turns now xs r2" "index_ok c L r2" "trunc_ok L r2" "keeps r0 r2" for r2
      using Cons.IH[OF that(2,3) _ that(4)] Cons.prems(3) that(1) by (metis list.set_intros(2))
    consider "now < y" | "\<not> now < y" "dict_get (rp_history r) t = None" | "\<not> now < y" "dict_get (rp_history r) t \<noteq> None" by blast
    then show ?case
    proof cases
      case 1 then show ?thesis using step[of r] Cons.prems x by simp
    next
      case 2
      define r1 where "r1 = r\<lparr>rp_expiry := dict_del (rp_expiry r) t\<rparr>"
      have "index_ok c L r1" "trunc_ok L r1" "keeps r r1"
        using Cons.prems(1,2) by (simp_all add: r1_def index_ok_def trunc_ok_def history_of_def keeps_def)
      then show ?thesis using step[of r1] 2 x keeps_trans[OF Cons.prems(4)] by (simp add: r1_def)
    next
      case 3
      from remove_while_ok[OF Cons.prems(1), of "\<lambda>r. True" t] obtain r1 where
        r1: "remove_while (\<lambda>r. True) t r = (None, r1)" "index_ok c L r1" "shrinks r r1" "rp_truncated r1 = rp_truncated r" "history_of t r1 = []"
        "\<And>u. u \<noteq> t \<Longrightarrow> history_of u r1 = history_of u r" by blast
      define r2 where "r2 = forget_turn t r1"
      have same: "dict_get (rp_history r1) u = dict_get (rp_history r) u" if "u \<noteq> t" for u
        using known_same[of r1 u r] r1(3) r1(6)[OF that] by (simp add: shrinks_def)
      have "index_ok c L r2" using r1(2,5) by (auto simp: r2_def forget_turn_def index_ok_def history_of_def)
      moreover have "trunc_ok L r2" using Cons.prems(2) same r1(4) by (auto simp: trunc_ok_def r2_def forget_turn_def)
      moreover have "keeps r0 r2"
      proof -
        have "dict_get (rp_expiry r0) t \<noteq> None" using Cons.prems(3)[of t y] x by simp
        then show ?thesis using Cons.prems(4) r1(3) same by (fastforce simp: keeps_def shrinks_def r2_def forget_turn_def)
      qed
      ultimately show ?thesis using step[of r2] 3 x r1(1) by (auto simp: r2_def)
    qed
  qed auto
  then show thesis using that by blast
qed

lemma gc_ok:
  assumes "index_ok c L r" "trunc_ok L r"
  obtains r' where "gc_terminal_replay now r = (None, r')" "index_ok c L r'" "trunc_ok L r'" "keeps r r'"
proof (rule gc_turns_ok[OF assms _ keeps_refl, of "rp_expiry r" now])
  show "dict_get (rp_expiry r) t \<noteq> None" if "(t, x) \<in> set (rp_expiry r)" for t x by (rule dict_get_member[OF that])
qed (rule that, simp_all add: gc_terminal_replay_def)

subsection \<open>Publishing keeps everything within bounds\<close>

definition config_ok :: "replay_config \<Rightarrow> bool" where
  "config_ok c \<longleftrightarrow> 1 \<le> rc_events c \<and> 1 \<le> rc_turn_bytes c \<and> 1 \<le> rc_global_bytes c \<and> 1 \<le> rc_ttl c \<and> 2 \<le> rc_queue c"

definition bounded :: "replay_config \<Rightarrow> replay \<Rightarrow> bool" where
  "bounded c r \<longleftrightarrow> rp_bytes r \<le> rc_global_bytes c \<and>
     (\<forall>t hs. dict_get (rp_history r) t = Some hs \<longrightarrow> length hs \<le> rc_events c \<and> sizes c hs \<le> rc_turn_bytes c)"

definition subs_ok :: "replay \<Rightarrow> bool" where
  "subs_ok r \<longleftrightarrow> (\<forall>q \<in> set (rp_queues r). length (sq_values q) \<le> sq_max q \<and> 1 \<le> sq_max q) \<and>
     (\<forall>t qs. dict_get (rp_subscribers r) t = Some qs \<longrightarrow> distinct qs \<and> (\<forall>i \<in> set qs. i < length (rp_queues r) \<and> sq_turn (rp_queues r ! i) = t \<and> sq_open (rp_queues r ! i)))"

lemma subs_okD:
  assumes "subs_ok r" "dict_get (rp_subscribers r) t = Some qs"
  shows "distinct qs" "i \<in> set qs \<Longrightarrow> i < length (rp_queues r)" "i \<in> set qs \<Longrightarrow> sq_turn (rp_queues r ! i) = t" "i \<in> set qs \<Longrightarrow> sq_open (rp_queues r ! i)"
  using assms by (simp_all add: subs_ok_def)

definition replay_ok :: "replay_config \<Rightarrow> (string \<Rightarrow> turn_event list) \<Rightarrow> replay \<Rightarrow> bool" where
  "replay_ok c L r \<longleftrightarrow> index_ok c L r \<and> trunc_ok L r \<and> bounded c r \<and> subs_ok r \<and> \<not> rp_failed r"

lemma replay_okD:
  assumes "replay_ok c L r"
  shows "index_ok c L r" "trunc_ok L r" "bounded c r" "subs_ok r" "\<not> rp_failed r"
  using assms by (simp_all add: replay_ok_def)

lemma sizes_suffix: "suffix xs ys \<Longrightarrow> sizes c xs \<le> sizes c ys"
  by (auto simp: suffix_def)

lemma length_update_queues [simp]: "length (update_queues f is' qs) = length qs"
  by (induction is' arbitrary: qs) simp_all

lemma update_queues_nth: "distinct is' \<Longrightarrow> j < length qs \<Longrightarrow> update_queues f is' qs ! j = (if j \<in> set is' then f (qs ! j) else qs ! j)"
proof (induction is' arbitrary: qs)
  case (Cons i is')
  then show ?case using Cons.IH[of "qs[i := f (qs ! i)]"] by (cases "j = i") auto
qed simp

definition has_room :: "stream_queue \<Rightarrow> bool" where
  "has_room q \<longleftrightarrow> length (sq_values q) < sq_max q"

lemma deliver_fields [simp]:
  "rp_history (deliver e is' r) = rp_history r" "rp_sequences (deliver e is' r) = rp_sequences r" "rp_next (deliver e is' r) = rp_next r"
  "rp_truncated (deliver e is' r) = rp_truncated r" "rp_order (deliver e is' r) = rp_order r" "rp_totals (deliver e is' r) = rp_totals r"
  "rp_bytes (deliver e is' r) = rp_bytes r" "rp_expiry (deliver e is' r) = rp_expiry r" "rp_failed (deliver e is' r) = rp_failed r"
  "rp_queues (deliver e is' r) = update_queues (put_or_drop (Event_value e)) is' (rp_queues r)"
  by (induction e is' r rule: deliver.induct) simp_all

lemma deliver_subscribers:
  assumes "distinct is'" "\<forall>i \<in> set is'. i < length (rp_queues r)" "dict_get (rp_subscribers r) (ev_turn e) = Some qs"
  shows "dict_get (rp_subscribers (deliver e is' r)) u =
    (if u = ev_turn e then Some (filter (\<lambda>i. i \<in> set is' \<longrightarrow> has_room (rp_queues r ! i)) qs) else dict_get (rp_subscribers r) u)"
  using assms
proof (induction is' arbitrary: r qs)
  case (Cons i is')
  define r1 where "r1 = r\<lparr>rp_queues := (rp_queues r)[i := put_or_drop (Event_value e) (rp_queues r ! i)],
     rp_subscribers := (if length (sq_values (rp_queues r ! i)) < sq_max (rp_queues r ! i) then rp_subscribers r
       else dict_set (rp_subscribers r) (ev_turn e) (case dict_get (rp_subscribers r) (ev_turn e) of None \<Rightarrow> [] | Some qs \<Rightarrow> removeAll i qs))\<rparr>"
  define qs1 where "qs1 = (if has_room (rp_queues r ! i) then qs else removeAll i qs)"
  have q1: "dict_get (rp_subscribers r1) (ev_turn e) = Some qs1" "\<forall>j \<in> set is'. j < length (rp_queues r1)"
    using Cons.prems by (auto simp: r1_def qs1_def has_room_def)
  have other: "rp_queues r1 ! j = rp_queues r ! j" if "j \<in> set is'" for j using that Cons.prems(1,2) by (auto simp: r1_def nth_list_update)
  have "filter (\<lambda>j. j \<in> set is' \<longrightarrow> has_room (rp_queues r1 ! j)) qs1 = filter (\<lambda>j. j \<in> set (i # is') \<longrightarrow> has_room (rp_queues r ! j)) qs"
    unfolding qs1_def removeAll_filter_not_eq using other Cons.prems(1) by (auto intro!: filter_cong)
  moreover have "dict_get (rp_subscribers r1) u = dict_get (rp_subscribers r) u" if "u \<noteq> ev_turn e" using that by (simp add: r1_def)
  moreover have "deliver e (i # is') r = deliver e is' r1" by (simp add: r1_def)
  ultimately show ?case using Cons.IH[OF _ q1(2,1)] Cons.prems(1) by simp
qed simp

lemma push_event_ok:
  assumes "index_ok c L r" "dict_get (rp_history r) (ev_turn e) = Some hs"
  obtains r' where "push_event c e r = (None, r')" "index_ok c (L(ev_turn e := L (ev_turn e) @ [e])) r'"
    "\<And>u. dict_get (rp_history r') u = (if u = ev_turn e then Some (hs @ [e]) else dict_get (rp_history r) u)"
    "rp_truncated r' = rp_truncated r" "rp_subscribers r' = rp_subscribers r" "rp_queues r' = rp_queues r" "rp_failed r' = rp_failed r" "rp_expiry r' = rp_expiry r"
proof -
  let ?t = "ev_turn e"
  let ?n = "int (length (L ?t))"
  let ?b = "int (rc_size c e)"
  define r' where "r' = r\<lparr>rp_next := dict_set (rp_next r) ?t (?n + 1), rp_history := dict_set (rp_history r) ?t (hs @ [e]),
     rp_sequences := dict_set (rp_sequences r) ?t (last_numbers ?n hs @ [?n]), rp_order := dict_set (rp_order r) (?t, ?n) (e, ?b),
     rp_bytes := rp_bytes r + ?b, rp_totals := dict_set (rp_totals r) ?t (sizes c hs + ?b)\<rparr>"
  note ok = index_okD[OF assms(1)]
  have "(?n, x) \<notin> set (order_of ?t (rp_order r))" for x unfolding ok(7) by (cases x) (auto dest!: stamped_set)
  then have "dict_get (rp_order r) (?t, ?n) = None" using order_of_get[OF ok(1), of ?t ?n] by (metis not_Some_eq)
  then have ord: "dict_set (rp_order r) (?t, ?n) (e, ?b) = rp_order r @ [((?t, ?n), e, ?b)]" unfolding dict_get_None_iff by (rule dict_set_new)
  have "index_ok c (L(?t := L ?t @ [e])) r'"
    unfolding index_ok_def
  proof (intro conjI allI impI)
    fix u gs assume "dict_get (rp_history r') u = Some gs"
    then show "suffix gs ((L(?t := L ?t @ [e])) u)" using ok(6)[of u gs] ok(6)[OF assms(2)] by (auto simp: r'_def split: if_splits)
  next
    fix u
    have "history_of u r' = (if u = ?t then hs @ [e] else history_of u r)" "history_of ?t r = hs" using assms(2) by (simp_all add: r'_def history_of_def)
    then show "order_of u (rp_order r') = stamped c (int (length ((L(?t := L ?t @ [e])) u))) (history_of u r')"
      using ok(7)[of u] stamped_snoc[of c ?n hs e] by (simp add: r'_def ord order_of_append add.commute)
    show "dict_get (rp_sequences r') u = map_option (last_numbers (int (length ((L(?t := L ?t @ [e])) u)))) (dict_get (rp_history r') u)"
      using ok(2)[of u] last_numbers_snoc[of ?n hs e] by (simp add: r'_def add.commute)
  qed (use ok(1,3,4,5,8) assms(2) in \<open>auto simp: r'_def ord[symmetric]\<close>, simp add: ord)
  moreover have "push_event c e r = (None, r')" using assms(2) ok(2,3,4)[of ?t] by (simp add: push_event_def r'_def Let_def)
  ultimately show thesis using that by (simp add: r'_def)
qed

lemma keeps_unexpired:
  assumes "keeps r r'" "dict_get (rp_expiry r) t = None"
  shows "dict_get (rp_history r') t = dict_get (rp_history r) t" "dict_get (rp_subscribers r') t = dict_get (rp_subscribers r) t" "dict_get (rp_expiry r') t = None"
  using assms unfolding keeps_def by metis+

lemma keeps_known:
  assumes "keeps r r'" "dict_get (rp_history r') t = Some hs"
  shows "dict_get (rp_subscribers r') t = dict_get (rp_subscribers r) t"
  using assms(1)[unfolded keeps_def, THEN conjunct1, THEN spec, of t] assms(2) by auto

lemma keeps_ok:
  assumes "replay_ok c L r" "keeps r r'" "index_ok c L r'" "trunc_ok L r'"
  shows "replay_ok c L r'"
proof -
  have sub: "dict_get (rp_history r') t = dict_get (rp_history r) t \<or> dict_get (rp_history r') t = None"
    "dict_get (rp_subscribers r') t = dict_get (rp_subscribers r) t \<or> dict_get (rp_subscribers r') t = None" for t
    using assms(2) by (auto simp: keeps_def)
  have same: "rp_queues r' = rp_queues r" "rp_failed r' = rp_failed r" "rp_bytes r' \<le> rp_bytes r" using assms(2) by (simp_all add: keeps_def)
  note ok = replay_okD[OF assms(1)]
  have "bounded c r'" unfolding bounded_def
  proof (intro conjI allI impI)
    fix t hs assume "dict_get (rp_history r') t = Some hs"
    then have "dict_get (rp_history r) t = Some hs" using sub(1)[of t] by simp
    then show "length hs \<le> rc_events c" "sizes c hs \<le> rc_turn_bytes c" using ok(3) by (auto simp: bounded_def)
  qed (use ok(3) same(3) in \<open>simp add: bounded_def\<close>)
  moreover have "subs_ok r'" unfolding subs_ok_def same
  proof (intro conjI allI impI)
    fix t qs assume "dict_get (rp_subscribers r') t = Some qs"
    then have "dict_get (rp_subscribers r) t = Some qs" using sub(2)[of t] by simp
    then show "distinct qs" "\<forall>i \<in> set qs. i < length (rp_queues r) \<and> sq_turn (rp_queues r ! i) = t \<and> sq_open (rp_queues r ! i)"
      using ok(4) by (auto simp: subs_ok_def)
  qed (use ok(4) in \<open>simp add: subs_ok_def\<close>)
  ultimately show ?thesis using assms(3,4) ok(5) same(2) by (simp add: replay_ok_def)
qed

lemma put_or_drop_sel [simp]: "sq_turn (put_or_drop v q) = sq_turn q" "sq_open (put_or_drop v q) = sq_open q" "sq_max (put_or_drop v q) = sq_max q"
  "sq_taken (put_or_drop v q) = sq_taken q"
  by (simp_all add: put_or_drop_def)

lemma put_or_drop_fits: "1 \<le> sq_max q \<Longrightarrow> length (sq_values (put_or_drop v q)) \<le> sq_max q"
  by (simp add: put_or_drop_def)

lemma subs_ok_update:
  assumes "subs_ok r" "distinct is'" "rp_queues r' = update_queues f is' (rp_queues r)"
    and "\<And>q. 1 \<le> sq_max q \<Longrightarrow> length (sq_values (f q)) \<le> sq_max (f q) \<and> sq_max (f q) = sq_max q \<and> sq_turn (f q) = sq_turn q \<and> sq_open (f q) = sq_open q"
    and "\<And>t qs. dict_get (rp_subscribers r') t = Some qs \<Longrightarrow> \<exists>ps. dict_get (rp_subscribers r) t = Some ps \<and> set qs \<subseteq> set ps \<and> distinct qs"
  shows "subs_ok r'"
proof -
  have q: "rp_queues r' ! j = (if j \<in> set is' then f (rp_queues r ! j) else rp_queues r ! j)" if "j < length (rp_queues r)" for j
    using update_queues_nth[OF assms(2) that] assms(3) by simp
  have max: "length (sq_values (rp_queues r ! j)) \<le> sq_max (rp_queues r ! j)" "1 \<le> sq_max (rp_queues r ! j)" if "j < length (rp_queues r)" for j
    using assms(1) that by (auto simp: subs_ok_def)
  have "length (sq_values (rp_queues r' ! j)) \<le> sq_max (rp_queues r' ! j) \<and> 1 \<le> sq_max (rp_queues r' ! j) \<and>
      sq_turn (rp_queues r' ! j) = sq_turn (rp_queues r ! j) \<and> sq_open (rp_queues r' ! j) = sq_open (rp_queues r ! j)" if "j < length (rp_queues r)" for j
    using q[OF that] max[OF that] assms(4)[OF max(2)[OF that]] by simp
  moreover have "length (rp_queues r') = length (rp_queues r)" by (simp add: assms(3))
  moreover have "distinct qs \<and> (\<forall>i \<in> set qs. i < length (rp_queues r) \<and> sq_turn (rp_queues r ! i) = t \<and> sq_open (rp_queues r ! i))"
    if s: "dict_get (rp_subscribers r') t = Some qs" for t qs
  proof -
    obtain ps where "dict_get (rp_subscribers r) t = Some ps" "set qs \<subseteq> set ps" "distinct qs" using assms(5)[OF s] by blast
    then show ?thesis using subs_okD[OF assms(1)] by blast
  qed
  ultimately show ?thesis unfolding subs_ok_def all_set_conv_all_nth by simp
qed

lemma index_ok_frame:
  assumes "index_ok c L r" "rp_order r' = rp_order r" "rp_sequences r' = rp_sequences r" "rp_next r' = rp_next r" "rp_totals r' = rp_totals r"
    "rp_history r' = rp_history r" "rp_bytes r' = rp_bytes r" "\<And>t. dict_get (rp_subscribers r') t = None \<longleftrightarrow> dict_get (rp_subscribers r) t = None"
  shows "index_ok c L r'"
  using assms by (simp add: index_ok_def history_of_def)

lemma trimmed_bounded:
  assumes "config_ok c" "\<And>u. u \<noteq> t \<Longrightarrow> history_of u r3 = history_of u r1" "bounded c r1" "index_ok c L r3"
    "history_of t r3 = [] \<or> \<not> over_turn_limits c t r3" "shrinks r3 r4" "rp_bytes r4 \<le> rc_global_bytes c"
  shows "bounded c r4"
  unfolding bounded_def
proof (intro conjI allI impI)
  fix u gs assume u: "dict_get (rp_history r4) u = Some gs"
  have suf: "suffix gs (history_of u r3)" and known: "dict_get (rp_history r3) u \<noteq> None"
    using assms(6) known_history[OF u] u unfolding shrinks_def by (metis, metis option.distinct(1))
  have "length (history_of u r3) \<le> rc_events c \<and> sizes c (history_of u r3) \<le> rc_turn_bytes c"
  proof (cases "u = t")
    case True
    then have "dict_get (rp_totals r3) t = Some (sizes c (history_of t r3))" using index_okD(4)[OF assms(4), of t] known by (auto simp: history_of_def)
    then show ?thesis using assms(1,5) True by (auto simp: over_turn_limits_def config_ok_def)
  next
    case False
    then show ?thesis using assms(1,2,3) by (cases "dict_get (rp_history r1) u") (auto simp: bounded_def config_ok_def history_of_def)
  qed
  then show "length gs \<le> rc_events c" "sizes c gs \<le> rc_turn_bytes c" using suffix_length_le[OF suf] sizes_suffix[OF suf, of c] by linarith+
qed (rule assms(7))

lemma publish_event_cases:
  assumes ok: "replay_ok c L r" and cfg: "config_ok c"
  obtains (gone) r1 where "publish c now e r = (Some Key_missing, r1)" "replay_ok c L r1" "keeps r r1" "dict_get (rp_history r1) (ev_turn e) = None"
  | (sent) r' qs where "publish c now e r = (None, r')" "replay_ok c (L(ev_turn e := L (ev_turn e) @ [e])) r'"
    "dict_get (rp_subscribers r) (ev_turn e) = Some qs" "rp_queues r' = update_queues (put_or_drop (Event_value e)) qs (rp_queues r)"
    "dict_get (rp_subscribers r') (ev_turn e) = Some (filter (\<lambda>i. has_room (rp_queues r ! i)) qs)"
    "\<And>u. dict_get (rp_expiry r) u = None \<Longrightarrow> dict_get (rp_expiry r') u = None \<and> (dict_get (rp_history r') u = None \<longleftrightarrow> dict_get (rp_history r) u = None) \<and>
       (u \<noteq> ev_turn e \<longrightarrow> dict_get (rp_subscribers r') u = dict_get (rp_subscribers r) u)"
proof -
  let ?t = "ev_turn e"
  let ?L = "L(?t := L ?t @ [e])"
  note okD = replay_okD[OF ok]
  obtain r1 where r1: "gc_terminal_replay now r = (None, r1)" "index_ok c L r1" "trunc_ok L r1" "keeps r r1" by (rule gc_ok[OF okD(1,2)])
  have ok1: "replay_ok c L r1" by (rule keeps_ok[OF ok r1(4,2,3)])
  show thesis
  proof (cases "dict_get (rp_history r1) ?t")
    case None
    then have "publish c now e r = (Some Key_missing, r1)" using okD(5) r1(1) by (simp add: publish_def and_then_def push_event_def Let_def)
    then show thesis using gone ok1 r1(4) None by blast
  next
    case (Some hs)
    obtain r2 where r2: "push_event c e r1 = (None, r2)" "index_ok c ?L r2" "\<And>u. dict_get (rp_history r2) u = (if u = ?t then Some (hs @ [e]) else dict_get (rp_history r1) u)"
      "rp_truncated r2 = rp_truncated r1" "rp_subscribers r2 = rp_subscribers r1" "rp_queues r2 = rp_queues r1" "rp_failed r2 = rp_failed r1" "rp_expiry r2 = rp_expiry r1"
      by (rule push_event_ok[OF r1(2) Some]) blast
    have t1: "u \<in> set (rp_truncated r1) \<longleftrightarrow> (\<exists>hs. dict_get (rp_history r1) u = Some hs \<and> length hs < length (L u))" for u
      using r1(3) by (simp add: trunc_ok_def)
    obtain r3 where r3: "trim_turn_replay c ?t r2 = (None, r3)" "index_ok c ?L r3" "trunc_ok ?L r3" "shrinks r2 r3"
      "history_of ?t r3 = [] \<or> \<not> over_turn_limits c ?t r3" "\<And>u. u \<noteq> ?t \<Longrightarrow> history_of u r3 = history_of u r2"
      by (rule trim_turn_ok[OF r2(2), of ?t]) (use r2(3,4) t1 Some in \<open>auto simp: history_of_def\<close>)
    have "0 \<le> rc_global_bytes c" using cfg by (simp add: config_ok_def)
    then obtain r4 where r4: "trim_global_replay c r3 = (None, r4)" "index_ok c ?L r4" "trunc_ok ?L r4" "shrinks r3 r4" "rp_bytes r4 \<le> rc_global_bytes c"
      by (rule trim_global_ok[OF r3(2,3)])
    have s: "shrinks r2 r4" by (rule shrinks_trans[OF r3(4) r4(4)])
    obtain qs where qs: "dict_get (rp_subscribers r1) ?t = Some qs" using index_okD(5)[OF r1(2), of ?t] Some by auto
    define r5 where "r5 = deliver e qs r4"
    have subs4: "rp_subscribers r4 = rp_subscribers r1" "rp_queues r4 = rp_queues r1" using s r2(5,6) by (simp_all add: shrinks_def)
    note sub = subs_okD[OF replay_okD(4)[OF ok1] qs]
    have subs5: "dict_get (rp_subscribers r5) u = (if u = ?t then Some (filter (\<lambda>i. has_room (rp_queues r1 ! i)) qs) else dict_get (rp_subscribers r1) u)" for u
      using deliver_subscribers[of qs r4 e qs u] sub(1,2) qs subs4 by (auto simp: r5_def cong: filter_cong)
    have pub: "publish c now e r = (None, r5)"
      using okD(5) r1(1) r2(1) r3(1) r4(1) qs subs4 by (simp add: publish_def and_then_def r5_def)
    have known5: "dict_get (rp_history r5) u = None \<longleftrightarrow> dict_get (rp_history r1) u = None" for u
      using s r2(3)[of u] Some by (auto simp: shrinks_def r5_def)
    have idx5: "index_ok c ?L r5" by (rule index_ok_frame[OF r4(2)]) (use subs5 subs4(1) qs in \<open>simp_all add: r5_def\<close>)
    have "history_of u r3 = history_of u r1" if "u \<noteq> ?t" for u using r3(6)[OF that] r2(3)[of u] that by (simp add: history_of_def)
    then have "bounded c r4" by (rule trimmed_bounded[OF cfg _ replay_okD(3)[OF ok1] r3(2,5) r4(4,5)])
    then have bounds5: "bounded c r5" by (simp add: bounded_def r5_def)
    have "subs_ok r5"
    proof (rule subs_ok_update[OF replay_okD(4)[OF ok1] sub(1)])
      show "rp_queues r5 = update_queues (put_or_drop (Event_value e)) qs (rp_queues r1)" by (simp add: r5_def subs4)
      show "\<exists>ps. dict_get (rp_subscribers r1) u = Some ps \<and> set gs \<subseteq> set ps \<and> distinct gs" if "dict_get (rp_subscribers r5) u = Some gs" for u gs
        using that subs5[of u] qs sub(1) subs_okD(1)[OF replay_okD(4)[OF ok1]] by (auto split: if_splits)
    qed (simp add: put_or_drop_fits)
    moreover have "trunc_ok ?L r5" using r4(3) by (simp add: trunc_ok_def r5_def)
    moreover have "rp_failed r5 = False" using s r2(7) replay_okD(5)[OF ok1] by (simp add: shrinks_def r5_def)
    ultimately have ok5: "replay_ok c ?L r5" using idx5 bounds5 by (simp add: replay_ok_def)
    have was: "dict_get (rp_subscribers r) ?t = Some qs" "rp_queues r1 = rp_queues r" using keeps_known[OF r1(4) Some] qs r1(4) by (simp_all add: keeps_def)
    have "rp_expiry r5 = rp_expiry r1" using s r2(8) by (simp add: shrinks_def r5_def)
    then show thesis using sent[OF pub ok5 was(1)] subs5 known5 keeps_unexpired[OF r1(4)] was(2) by (simp add: r5_def subs4)
  qed
qed

subsection \<open>Every step keeps the index\<close>

definition log_after :: "replay_config \<Rightarrow> replay_cmd \<Rightarrow> replay \<Rightarrow> (string \<Rightarrow> turn_event list) \<Rightarrow> string \<Rightarrow> turn_event list" where
  "log_after c k r L = (case k of
     Register_turn t \<Rightarrow> if dict_get (rp_history r) t = None then L(t := []) else L
   | Publish now e \<Rightarrow> if fst (publish c now e r) = None then L(ev_turn e := L (ev_turn e) @ [e]) else L
   | _ \<Rightarrow> L)"

text \<open>A step that touches the queues and their owners only.\<close>

lemma replay_ok_queues:
  assumes "replay_ok c L r" "subs_ok (r\<lparr>rp_queues := qs, rp_subscribers := ss, rp_expiry := x\<rparr>)"
    "\<And>t. dict_get ss t = None \<longleftrightarrow> dict_get (rp_subscribers r) t = None"
  shows "replay_ok c L (r\<lparr>rp_queues := qs, rp_subscribers := ss, rp_expiry := x\<rparr>)"
proof -
  note ok = replay_okD[OF assms(1)]
  have "index_ok c L (r\<lparr>rp_queues := qs, rp_subscribers := ss, rp_expiry := x\<rparr>)" by (rule index_ok_frame[OF ok(1)]) (simp_all add: assms(3))
  then show ?thesis using ok(2,3,5) assms(2) by (simp add: replay_ok_def trunc_ok_def bounded_def)
qed

lemma register_ok: "replay_ok c L r \<Longrightarrow> dict_get (rp_history r) t = None \<Longrightarrow> config_ok c \<Longrightarrow> replay_ok c (L(t := [])) (register_turn t r)"
proof -
  assume ok: "replay_ok c L r" and new: "dict_get (rp_history r) t = None" and cfg: "config_ok c"
  note okD = replay_okD[OF ok]
  have "index_ok c (L(t := [])) (register_turn t r)"
    using index_okD[OF okD(1)] new by (auto simp: index_ok_def register_turn_def history_of_def split: if_splits)
  moreover have "trunc_ok (L(t := [])) (register_turn t r)"
    using okD(2) new by (auto simp: trunc_ok_def register_turn_def)
  moreover have "bounded c (register_turn t r)" using okD(3) cfg by (auto simp: bounded_def register_turn_def config_ok_def)
  moreover have "subs_ok (register_turn t r)" using okD(4) by (auto simp: subs_ok_def register_turn_def)
  ultimately show ?thesis using okD(5) by (simp add: replay_ok_def register_turn_def)
qed

lemma update_all_ok:
  assumes "replay_ok c L r" "dict_get (rp_subscribers r) t = Some is'"
    and "\<And>q. 1 \<le> sq_max q \<Longrightarrow> length (sq_values (f q)) \<le> sq_max (f q) \<and> sq_max (f q) = sq_max q \<and> sq_turn (f q) = sq_turn q \<and> sq_open (f q) = sq_open q"
  shows "replay_ok c L (r\<lparr>rp_queues := update_queues f is' (rp_queues r), rp_subscribers := rp_subscribers r, rp_expiry := x\<rparr>)"
proof (rule replay_ok_queues[OF assms(1)])
  note sub = replay_okD(4)[OF assms(1)]
  show "subs_ok (r\<lparr>rp_queues := update_queues f is' (rp_queues r), rp_subscribers := rp_subscribers r, rp_expiry := x\<rparr>)"
    by (rule subs_ok_update[OF sub subs_okD(1)[OF sub assms(2)] _ assms(3)]) (use subs_okD(1)[OF sub] in auto)
qed simp

lemma finish_streams_ok:
  assumes "replay_ok c L r"
  shows "replay_ok c L (snd (finish_streams c now t r))"
proof (cases "dict_get (rp_subscribers r) t")
  case None
  then have "snd (finish_streams c now t r) = r\<lparr>rp_queues := rp_queues r, rp_subscribers := rp_subscribers r, rp_expiry := dict_set (rp_expiry r) t (now + rc_ttl c)\<rparr>"
    using replay_okD(5)[OF assms] by (simp add: finish_streams_def Let_def)
  then show ?thesis using replay_ok_queues[OF assms, where qs = "rp_queues r" and ss = "rp_subscribers r"] replay_okD(4)[OF assms] by (simp add: subs_ok_def)
next
  case (Some qs)
  then have "snd (finish_streams c now t r) = r\<lparr>rp_queues := update_queues (put_or_drop Stream_end) qs (rp_queues r), rp_subscribers := rp_subscribers r,
      rp_expiry := dict_set (rp_expiry r) t (now + rc_ttl c)\<rparr>"
    using replay_okD(5)[OF assms] by (simp add: finish_streams_def Let_def)
  then show ?thesis using update_all_ok[OF assms Some, of "put_or_drop Stream_end"] put_or_drop_fits by simp
qed

lemma fail_streams_ok:
  assumes "replay_ok c L r"
  shows "replay_ok c L (snd (fail_streams t msg r))"
proof (cases "dict_get (rp_subscribers r) t")
  case None then show ?thesis using assms by (simp add: fail_streams_def)
next
  case (Some qs)
  show ?thesis using Some update_all_ok[OF assms Some, of "\<lambda>q. q\<lparr>sq_values := [Stream_failure msg]\<rparr>" "rp_expiry r"] by (simp add: fail_streams_def)
qed

lemma open_stream_ok:
  assumes "replay_ok c L r" "dict_get (rp_history r) (tn_id x) \<noteq> None \<or> is_terminal (tn_status x)"
  shows "replay_ok c L (open_stream c x vs r)"
proof -
  let ?t = "tn_id x"
  let ?q = "\<lparr>sq_turn = ?t, sq_max = max (rc_queue c) (length vs + 1), sq_values = vs @ (if is_terminal (tn_status x) then [Stream_end] else []),
     sq_taken = [], sq_open = True\<rparr>"
  let ?ss = "if is_terminal (tn_status x) then rp_subscribers r
     else dict_set (rp_subscribers r) ?t (case dict_get (rp_subscribers r) ?t of None \<Rightarrow> [length (rp_queues r)] | Some qs \<Rightarrow> List.insert (length (rp_queues r)) qs)"
  note sub = replay_okD(4)[OF assms(1)]
  have r: "open_stream c x vs r = r\<lparr>rp_queues := rp_queues r @ [?q], rp_subscribers := ?ss, rp_expiry := rp_expiry r\<rparr>" by (simp add: open_stream_def Let_def)
  have "subs_ok (r\<lparr>rp_queues := rp_queues r @ [?q], rp_subscribers := ?ss, rp_expiry := rp_expiry r\<rparr>)"
    unfolding subs_ok_def
  proof (intro conjI allI impI)
    fix t qs assume "dict_get (rp_subscribers (r\<lparr>rp_queues := rp_queues r @ [?q], rp_subscribers := ?ss, rp_expiry := rp_expiry r\<rparr>)) t = Some qs"
    then have g: "dict_get ?ss t = Some qs" by simp
    have old: "distinct ps \<and> (\<forall>i \<in> set ps. i < length (rp_queues r) \<and> sq_turn (rp_queues r ! i) = t \<and> sq_open (rp_queues r ! i))"
      if "dict_get (rp_subscribers r) t = Some ps" for ps
      using subs_okD[OF sub that] by blast
    show "distinct qs" "\<forall>i \<in> set qs. i < length (rp_queues (r\<lparr>rp_queues := rp_queues r @ [?q], rp_subscribers := ?ss, rp_expiry := rp_expiry r\<rparr>)) \<and>
        sq_turn (rp_queues (r\<lparr>rp_queues := rp_queues r @ [?q], rp_subscribers := ?ss, rp_expiry := rp_expiry r\<rparr>) ! i) = t \<and>
        sq_open (rp_queues (r\<lparr>rp_queues := rp_queues r @ [?q], rp_subscribers := ?ss, rp_expiry := rp_expiry r\<rparr>) ! i)"
      using g old by (auto simp: nth_append split: if_splits option.splits)
  qed (use sub in \<open>auto simp: subs_ok_def\<close>)
  then show ?thesis unfolding r
    by (rule replay_ok_queues[OF assms(1)]) (use assms(2) index_okD(5)[OF replay_okD(1)[OF assms(1)], of ?t] in \<open>auto split: if_splits\<close>)
qed

lemma close_stream_ok:
  assumes "replay_ok c L r" "i < length (rp_queues r)"
  shows "replay_ok c L (close_stream i r)"
proof -
  let ?t = "sq_turn (rp_queues r ! i)"
  let ?qs = "(rp_queues r)[i := (rp_queues r ! i)\<lparr>sq_open := False\<rparr>]"
  let ?ss = "case dict_get (rp_subscribers r) ?t of None \<Rightarrow> rp_subscribers r | Some qs \<Rightarrow> dict_set (rp_subscribers r) ?t (removeAll i qs)"
  note sub = replay_okD(4)[OF assms(1)]
  have r: "close_stream i r = r\<lparr>rp_queues := ?qs, rp_subscribers := ?ss, rp_expiry := rp_expiry r\<rparr>"
    using assms(2) by (simp add: close_stream_def discard_queue_def Let_def split: option.split)
  have old: "distinct ps \<and> (\<forall>j \<in> set ps. j < length (rp_queues r) \<and> sq_turn (rp_queues r ! j) = t \<and> sq_open (rp_queues r ! j))"
    if "dict_get (rp_subscribers r) t = Some ps" for ps t
    using subs_okD[OF sub that] by blast
  have "subs_ok (r\<lparr>rp_queues := ?qs, rp_subscribers := ?ss, rp_expiry := rp_expiry r\<rparr>)"
    unfolding subs_ok_def
  proof (intro conjI allI impI ballI)
    fix q assume "q \<in> set (rp_queues (r\<lparr>rp_queues := ?qs, rp_subscribers := ?ss, rp_expiry := rp_expiry r\<rparr>))"
    then have "q \<in> insert ((rp_queues r ! i)\<lparr>sq_open := False\<rparr>) (set (rp_queues r))" using set_update_subset_insert by fastforce
    then show "length (sq_values q) \<le> sq_max q" "1 \<le> sq_max q" using sub assms(2) by (auto simp: subs_ok_def)
  next
    fix t qs assume "dict_get (rp_subscribers (r\<lparr>rp_queues := ?qs, rp_subscribers := ?ss, rp_expiry := rp_expiry r\<rparr>)) t = Some qs"
    then have g: "dict_get ?ss t = Some qs" by simp
    have "distinct qs \<and> (\<forall>j \<in> set qs. j \<noteq> i \<and> j < length (rp_queues r) \<and> sq_turn (rp_queues r ! j) = t \<and> sq_open (rp_queues r ! j))"
    proof (cases "t = ?t")
      case True then show ?thesis using g old[of ?t] by (auto split: option.splits if_splits simp: distinct_removeAll)
    next
      case False then show ?thesis using g old[of t] by (auto split: option.splits if_splits)
    qed
    then show "distinct qs" "j \<in> set qs \<Longrightarrow> j < length (rp_queues (r\<lparr>rp_queues := ?qs, rp_subscribers := ?ss, rp_expiry := rp_expiry r\<rparr>))"
      "j \<in> set qs \<Longrightarrow> sq_turn (rp_queues (r\<lparr>rp_queues := ?qs, rp_subscribers := ?ss, rp_expiry := rp_expiry r\<rparr>) ! j) = t"
      "j \<in> set qs \<Longrightarrow> sq_open (rp_queues (r\<lparr>rp_queues := ?qs, rp_subscribers := ?ss, rp_expiry := rp_expiry r\<rparr>) ! j)" for j
      by auto
  qed
  then show ?thesis unfolding r by (rule replay_ok_queues[OF assms(1)]) (auto split: option.split)
qed

lemma pop_value_ok:
  assumes "replay_ok c L r" "i < length (rp_queues r)" "sq_values (rp_queues r ! i) = v # vs"
  shows "replay_ok c L (r\<lparr>rp_queues := (rp_queues r)[i := (rp_queues r ! i)\<lparr>sq_values := vs, sq_taken := ts\<rparr>]\<rparr>)"
proof -
  let ?q = "(rp_queues r ! i)\<lparr>sq_values := vs, sq_taken := ts\<rparr>"
  let ?r = "r\<lparr>rp_queues := (rp_queues r)[i := ?q], rp_subscribers := rp_subscribers r, rp_expiry := rp_expiry r\<rparr>"
  note sub = replay_okD(4)[OF assms(1)]
  have "q \<in> insert ?q (set (rp_queues r))" if "q \<in> set (rp_queues ?r)" for q using that set_update_subset_insert by fastforce
  moreover have "length vs \<le> sq_max (rp_queues r ! i) \<and> 1 \<le> sq_max (rp_queues r ! i)"
    using sub assms(2,3) nth_mem[OF assms(2)] unfolding subs_ok_def by fastforce
  ultimately have "\<forall>q \<in> set (rp_queues ?r). length (sq_values q) \<le> sq_max q \<and> 1 \<le> sq_max q" using sub by (fastforce simp: subs_ok_def)
  moreover have "sq_turn ((rp_queues r)[i := ?q] ! j) = sq_turn (rp_queues r ! j)" "sq_open ((rp_queues r)[i := ?q] ! j) = sq_open (rp_queues r ! j)" for j
    using assms(2) by (cases "j = i"; simp)+
  ultimately have "subs_ok ?r" using sub by (simp add: subs_ok_def)
  then show ?thesis using replay_ok_queues[OF assms(1), where qs = "(rp_queues r)[i := ?q]" and ss = "rp_subscribers r" and x = "rp_expiry r"] by simp
qed

text \<open>What a subscription does once the expired turns are gone.\<close>

lemma subscribe_cases:
  assumes "replay_ok c L r"
  obtains (refused) f r1 where "subscribe c now thread t after tbl r = (Some f, r1)" "keeps r r1" "replay_ok c L r1"
  | (opened) r1 x where "gc_terminal_replay now r = (None, r1)" "keeps r r1" "replay_ok c L r1" "read_thread_turn thread t tbl = Inr x"
    "dict_get (rp_history r1) t \<noteq> None \<or> is_terminal (tn_status x)" "after = None \<or> -1 \<le> the after"
    "subscribe c now thread t after tbl r = (None, open_stream c x (replay_values x (replay_expired now x r1) after r1) r1)"
proof -
  note okD = replay_okD[OF assms]
  obtain r1 where r1: "gc_terminal_replay now r = (None, r1)" "index_ok c L r1" "trunc_ok L r1" "keeps r r1" by (rule gc_ok[OF okD(1,2)])
  note ok1 = keeps_ok[OF assms r1(4,2,3)]
  show thesis
  proof (cases "after \<noteq> None \<and> the after < -1")
    case True then show thesis using refused[of Stream_argument r] assms by (simp add: subscribe_def)
  next
    case False
    show thesis
    proof (cases "read_thread_turn thread t tbl")
      case (Inl f) then show thesis using refused[of f r1] False okD(5) r1 ok1 by (auto simp: subscribe_def and_then_def)
    next
      case (Inr x)
      show thesis
      proof (cases "dict_get (rp_history r1) t = None \<and> \<not> is_terminal (tn_status x)")
        case True then show thesis using refused[of Stream_turn_missing r1] Inr False okD(5) r1 ok1 by (auto simp: subscribe_def and_then_def)
      next
        case no: False then show thesis using opened[OF r1(1,4) ok1 Inr] Inr False okD(5) r1 by (auto simp: subscribe_def and_then_def)
      qed
    qed
  qed
qed

text \<open>Every turn of the store is found under its own id.\<close>

definition ids_ok :: "turn_table \<Rightarrow> bool" where
  "ids_ok tbl \<longleftrightarrow> (\<forall>t x. read_turn t tbl = Inr (Some x) \<longrightarrow> tn_id x = t)"

definition replay_cmd_ok :: "replay_cmd \<Rightarrow> bool" where
  "replay_cmd_ok k = (case k of Subscribe now thread t after tbl \<Rightarrow> ids_ok tbl | _ \<Rightarrow> True)"

lemma read_thread_id: "ids_ok tbl \<Longrightarrow> read_thread_turn thread t tbl = Inr x \<Longrightarrow> tn_id x = t"
  by (auto simp: ids_ok_def read_thread_turn_def split: sum.splits option.splits if_splits)

lemma take_value_ok:
  assumes "replay_ok c L r"
  shows "replay_ok c L (take_value i r)"
proof (cases "length (rp_queues r) \<le> i \<or> \<not> sq_open (rp_queues r ! i) \<or> sq_values (rp_queues r ! i) = []")
  case True then show ?thesis using assms by (auto simp: take_value_def)
next
  case False
  then obtain v vs where v: "sq_values (rp_queues r ! i) = v # vs" by (cases "sq_values (rp_queues r ! i)") auto
  define r1 where "r1 = r\<lparr>rp_queues := (rp_queues r)[i := (rp_queues r ! i)\<lparr>sq_values := vs, sq_taken := sq_taken (rp_queues r ! i) @ [v]\<rparr>]\<rparr>"
  have "replay_ok c L r1" unfolding r1_def by (rule pop_value_ok[OF assms _ v]) (use False in simp)
  moreover have "take_value i r = (if ends_stream v then close_stream i r1 else r1)" using False v by (simp add: take_value_def r1_def Let_def)
  moreover have "i < length (rp_queues r1)" using False by (simp add: r1_def)
  ultimately show ?thesis using close_stream_ok[of c L r1 i] by simp
qed

lemma replay_exec_ok:
  assumes "replay_ok c L r" "config_ok c" "replay_cmd_ok k"
  shows "replay_ok c (log_after c k r L) (replay_exec c k r)"
proof (cases k)
  case (Register_turn t)
  then show ?thesis using assms register_ok[OF assms(1)] by (simp add: replay_exec_def replay_step_def log_after_def)
next
  case (Publish now e)
  show ?thesis
    by (rule publish_event_cases[OF assms(1,2), of now e]) (simp_all add: Publish replay_exec_def replay_step_def log_after_def)
next
  case (Subscribe now thread t after tbl)
  have ids: "ids_ok tbl" using assms(3) Subscribe by (simp add: replay_cmd_ok_def)
  show ?thesis
  proof (rule subscribe_cases[OF assms(1), of now thread t after tbl])
    fix r1 x assume a: "replay_ok c L r1" "read_thread_turn thread t tbl = Inr x" "dict_get (rp_history r1) t \<noteq> None \<or> is_terminal (tn_status x)"
      "subscribe c now thread t after tbl r = (None, open_stream c x (replay_values x (replay_expired now x r1) after r1) r1)"
    then show ?thesis using open_stream_ok[OF a(1), of x] read_thread_id[OF ids a(2)] by (simp add: Subscribe replay_exec_def replay_step_def log_after_def)
  qed (simp add: Subscribe replay_exec_def replay_step_def log_after_def)
next
  case (Reap now)
  obtain r1 where r1: "gc_terminal_replay now r = (None, r1)" "index_ok c L r1" "trunc_ok L r1" "keeps r r1" by (rule gc_ok[OF replay_okD(1,2)[OF assms(1)]])
  then show ?thesis using keeps_ok[OF assms(1) r1(4,2,3)] by (simp add: Reap replay_exec_def replay_step_def log_after_def reap_def)
qed (use assms(1) finish_streams_ok fail_streams_ok take_value_ok close_stream_ok in \<open>simp_all add: replay_exec_def replay_step_def log_after_def\<close>)

lemma new_replay_ok: "config_ok c \<Longrightarrow> replay_ok c (\<lambda>t. []) new_replay"
  by (simp add: replay_ok_def new_replay_def index_ok_def trunc_ok_def bounded_def subs_ok_def history_of_def config_ok_def)

fun log_run :: "replay_config \<Rightarrow> replay_cmd list \<Rightarrow> replay \<Rightarrow> (string \<Rightarrow> turn_event list) \<Rightarrow> string \<Rightarrow> turn_event list" where
  "log_run c [] r L = L"
| "log_run c (k # ks) r L = log_run c ks (replay_exec c k r) (log_after c k r L)"

lemma replay_run_ok:
  "replay_ok c L r \<Longrightarrow> config_ok c \<Longrightarrow> list_all replay_cmd_ok ks \<Longrightarrow> replay_ok c (log_run c ks r L) (fold (replay_exec c) ks r)"
  by (induction ks arbitrary: r L) (simp_all add: replay_exec_ok)

subsection \<open>What a subscriber receives\<close>

definition stream_received :: "nat \<Rightarrow> replay \<Rightarrow> stream_value list" where
  "stream_received i r = sq_taken (rp_queues r ! i) @ sq_values (rp_queues r ! i)"

definition published :: "string \<Rightarrow> replay_cmd list \<Rightarrow> turn_event list" where
  "published t ks = concat (map (\<lambda>k. case k of Publish now e \<Rightarrow> if ev_turn e = t then [e] else [] | _ \<Rightarrow> []) ks)"

lemma published_simps [simp]: "published t [] = []" "published t (ks @ ls) = published t ks @ published t ls"
  "published t (Publish now e # ks) = (if ev_turn e = t then e # published t ks else published t ks)"
  "(\<And>now e. k \<noteq> Publish now e) \<Longrightarrow> published t (k # ks) = published t ks"
  by (simp_all add: published_def split: replay_cmd.split)

text \<open>A turn that is known and has not ended.\<close>

definition turn_open :: "string \<Rightarrow> replay \<Rightarrow> bool" where
  "turn_open t r \<longleftrightarrow> dict_get (rp_history r) t \<noteq> None \<and> dict_get (rp_expiry r) t = None"

definition subscribed :: "nat \<Rightarrow> string \<Rightarrow> replay \<Rightarrow> bool" where
  "subscribed i t r \<longleftrightarrow> (\<exists>qs. dict_get (rp_subscribers r) t = Some qs \<and> i \<in> set qs)"

text \<open>Steps that end the turn, or the consumer's own end.\<close>

definition ends_turn :: "string \<Rightarrow> replay_cmd \<Rightarrow> bool" where
  "ends_turn t k = (case k of Finish now u \<Rightarrow> u = t | Fail_turn u msg \<Rightarrow> u = t | _ \<Rightarrow> False)"

definition stream_state :: "string \<Rightarrow> nat \<Rightarrow> stream_value list \<Rightarrow> turn_event list \<Rightarrow> replay \<Rightarrow> bool" where
  "stream_state t i base es r \<longleftrightarrow> turn_open t r \<and> i < length (rp_queues r) \<and> sq_turn (rp_queues r ! i) = t \<and>
     (if subscribed i t r then stream_received i r = base @ map Event_value es
      else \<exists>k \<le> length (base @ map Event_value es). stream_received i r = take k (base @ map Event_value es) @ [Slow_consumer])"

lemma stream_state_frame:
  assumes "stream_state t i base es r" "turn_open t r'" "i < length (rp_queues r')" "rp_queues r' ! i = rp_queues r ! i" "subscribed i t r' \<longleftrightarrow> subscribed i t r"
  shows "stream_state t i base es r'"
proof -
  have "stream_received i r' = stream_received i r" by (simp add: stream_received_def assms(4))
  then show ?thesis using assms unfolding stream_state_def by (auto split: if_splits)
qed

lemma stream_state_keeps:
  assumes "stream_state t i base es r" "keeps r r'"
  shows "stream_state t i base es r'"
proof (rule stream_state_frame[OF assms(1)])
  have "dict_get (rp_expiry r) t = None" using assms(1) by (simp add: stream_state_def turn_open_def)
  note k = keeps_unexpired[OF assms(2) this]
  show "turn_open t r'" "subscribed i t r' \<longleftrightarrow> subscribed i t r" using assms(1) k by (simp_all add: stream_state_def turn_open_def subscribed_def)
  show "i < length (rp_queues r')" "rp_queues r' ! i = rp_queues r ! i" using assms by (simp_all add: stream_state_def keeps_def)
qed

lemma not_subscribed_elsewhere:
  assumes "replay_ok c L r" "dict_get (rp_subscribers r) u = Some qs" "sq_turn (rp_queues r ! i) \<noteq> u"
  shows "i \<notin> set qs"
  using subs_okD(3)[OF replay_okD(4)[OF assms(1)] assms(2), of i] assms(3) by blast

lemma stream_state_updates:
  assumes ok: "replay_ok c L r" and s: "stream_state t i base es r" and u: "dict_get (rp_subscribers r) u = Some qs" "u \<noteq> t"
    and r': "rp_queues r' = update_queues f qs (rp_queues r)" "turn_open t r'" "dict_get (rp_subscribers r') t = dict_get (rp_subscribers r) t"
  shows "stream_state t i base es r'"
proof (rule stream_state_frame[OF s r'(2)])
  have i: "i < length (rp_queues r)" "sq_turn (rp_queues r ! i) = t" using s by (simp_all add: stream_state_def)
  then have "i \<notin> set qs" using u(2) by (intro not_subscribed_elsewhere[OF ok u(1)]) simp
  then show "i < length (rp_queues r')" "rp_queues r' ! i = rp_queues r ! i"
    using i(1) update_queues_nth[OF subs_okD(1)[OF replay_okD(4)[OF ok] u(1)] i(1)] by (simp_all add: r'(1))
qed (simp add: subscribed_def r'(3))

lemma stream_state_publish:
  assumes ok: "replay_ok c L r" "config_ok c" and s: "stream_state t i base es r"
  shows "stream_state t i base (es @ published t [Publish now e]) (replay_exec c (Publish now e) r)"
proof (rule publish_event_cases[OF ok, of now e])
  have live: "dict_get (rp_expiry r) t = None" "dict_get (rp_history r) t \<noteq> None" using s by (simp_all add: stream_state_def turn_open_def)
  have i: "i < length (rp_queues r)" "sq_turn (rp_queues r ! i) = t" using s by (simp_all add: stream_state_def)
  {
    fix r1 assume a: "publish c now e r = (Some Key_missing, r1)" "keeps r r1" "dict_get (rp_history r1) (ev_turn e) = None"
    have "ev_turn e \<noteq> t" using keeps_unexpired(1)[OF a(2) live(1)] a(3) live(2) by auto
    then show ?thesis using stream_state_keeps[OF s a(2)] a(1) by (simp add: replay_exec_def replay_step_def)
  next
    fix r' qs
    assume a: "publish c now e r = (None, r')" "dict_get (rp_subscribers r) (ev_turn e) = Some qs" "rp_queues r' = update_queues (put_or_drop (Event_value e)) qs (rp_queues r)"
      "dict_get (rp_subscribers r') (ev_turn e) = Some (filter (\<lambda>i. has_room (rp_queues r ! i)) qs)"
      "\<And>u. dict_get (rp_expiry r) u = None \<Longrightarrow> dict_get (rp_expiry r') u = None \<and> (dict_get (rp_history r') u = None \<longleftrightarrow> dict_get (rp_history r) u = None) \<and>
         (u \<noteq> ev_turn e \<longrightarrow> dict_get (rp_subscribers r') u = dict_get (rp_subscribers r) u)"
    have un: "turn_open t r'" using a(5)[OF live(1)] live by (simp add: turn_open_def)
    show ?thesis
    proof (cases "ev_turn e = t")
      case False
      then show ?thesis using stream_state_updates[OF ok(1) s a(2) _ a(3) un] a(1) a(5)[OF live(1)] by (simp add: replay_exec_def replay_step_def)
    next
      case True
      have q: "rp_queues r' ! i = (if i \<in> set qs then put_or_drop (Event_value e) (rp_queues r ! i) else rp_queues r ! i)"
        using update_queues_nth[OF subs_okD(1)[OF replay_okD(4)[OF ok(1)] a(2)] i(1)] by (simp add: a(3))
      have len: "length (rp_queues r') = length (rp_queues r)" by (simp add: a(3))
      have sub: "subscribed i t r \<longleftrightarrow> i \<in> set qs" "subscribed i t r' \<longleftrightarrow> i \<in> set qs \<and> has_room (rp_queues r ! i)"
        using a(2,4) True by (auto simp: subscribed_def)
      consider "i \<in> set qs" "has_room (rp_queues r ! i)" | "i \<in> set qs" "\<not> has_room (rp_queues r ! i)" | "i \<notin> set qs" by blast
      then have "stream_state t i base (es @ [e]) r'"
      proof cases
        case 1
        then have "stream_received i r' = stream_received i r @ [Event_value e]" by (simp add: stream_received_def q put_or_drop_def has_room_def)
        then show ?thesis using s 1 sub un i by (simp add: stream_state_def q len)
      next
        case 2
        then have "stream_received i r = base @ map Event_value es" using s sub by (simp add: stream_state_def)
        moreover have "stream_received i r' = sq_taken (rp_queues r ! i) @ [Slow_consumer]" using 2 by (simp add: stream_received_def q put_or_drop_def has_room_def)
        moreover have "sq_taken (rp_queues r ! i) = take (length (sq_taken (rp_queues r ! i))) (stream_received i r)" by (simp add: stream_received_def)
        moreover have "length (sq_taken (rp_queues r ! i)) \<le> length (stream_received i r)" by (simp add: stream_received_def)
        ultimately show ?thesis using 2 sub un i by (auto simp: stream_state_def q len intro!: exI[of _ "length (sq_taken (rp_queues r ! i))"])
      next
        case 3
        then obtain k where "k \<le> length (base @ map Event_value es)" "stream_received i r = take k (base @ map Event_value es) @ [Slow_consumer]" using s sub by (auto simp: stream_state_def)
        then show ?thesis using 3 sub un i by (auto simp: stream_state_def q len stream_received_def intro!: exI[of _ k])
      qed
      then show ?thesis using True a(1) by (simp add: replay_exec_def replay_step_def)
    qed
  }
qed

lemma close_stream_sel:
  "j < length (rp_queues r) \<Longrightarrow> length (rp_queues (close_stream j r)) = length (rp_queues r)"
  "j < length (rp_queues r) \<Longrightarrow> i \<noteq> j \<Longrightarrow> rp_queues (close_stream j r) ! i = rp_queues r ! i"
  "j < length (rp_queues r) \<Longrightarrow> stream_received i (close_stream j r) = stream_received i r"
  "j < length (rp_queues r) \<Longrightarrow> sq_turn (rp_queues (close_stream j r) ! i) = sq_turn (rp_queues r ! i)"
  "turn_open t (close_stream j r) \<longleftrightarrow> turn_open t r"
  "i \<noteq> j \<Longrightarrow> subscribed i t (close_stream j r) \<longleftrightarrow> subscribed i t r"
  "subscribed i t (close_stream j r) \<Longrightarrow> subscribed i t r"
proof -
  have q: "rp_queues (close_stream j r) = (rp_queues r)[j := (rp_queues r ! j)\<lparr>sq_open := False\<rparr>]"
    by (simp add: close_stream_def discard_queue_def Let_def split: option.split)
  show "length (rp_queues (close_stream j r)) = length (rp_queues r)" by (simp add: q)
  show "i \<noteq> j \<Longrightarrow> rp_queues (close_stream j r) ! i = rp_queues r ! i" by (simp add: q)
  show "stream_received i (close_stream j r) = stream_received i r" "sq_turn (rp_queues (close_stream j r) ! i) = sq_turn (rp_queues r ! i)" if "j < length (rp_queues r)"
    using that by (cases "i = j"; simp add: stream_received_def q)+
  show "turn_open t (close_stream j r) \<longleftrightarrow> turn_open t r"
    by (simp add: close_stream_def discard_queue_def turn_open_def Let_def split: option.split)
  have "sq_turn ((rp_queues r)[j := (rp_queues r ! j)\<lparr>sq_open := False\<rparr>] ! j) = sq_turn (rp_queues r ! j)"
    by (cases "j < length (rp_queues r)") (simp_all add: list_update_beyond)
  then have "dict_get (rp_subscribers (close_stream j r)) t = (case dict_get (rp_subscribers r) t of None \<Rightarrow> None
      | Some qs \<Rightarrow> if sq_turn (rp_queues r ! j) = t then Some (removeAll j qs) else Some qs)"
    by (cases "sq_turn (rp_queues r ! j) = t"; cases "dict_get (rp_subscribers r) (sq_turn (rp_queues r ! j))")
      (simp_all add: close_stream_def discard_queue_def Let_def split: option.split)
  then show "i \<noteq> j \<Longrightarrow> subscribed i t (close_stream j r) \<longleftrightarrow> subscribed i t r" "subscribed i t (close_stream j r) \<Longrightarrow> subscribed i t r"
    by (cases "dict_get (rp_subscribers r) t"; simp add: subscribed_def split: if_splits)+
qed

lemma stream_state_close:
  assumes "stream_state t i base es r" "j < length (rp_queues r)" "j \<noteq> i \<or> \<not> subscribed i t r"
  shows "stream_state t i base es (close_stream j r)"
proof -
  have "subscribed i t (close_stream j r) \<longleftrightarrow> subscribed i t r" using assms(3) close_stream_sel(6)[where i = i and j = j and t = t and r = r] close_stream_sel(7)[where i = i and j = j and t = t and r = r] by blast
  then show ?thesis using assms(1) close_stream_sel(1,3,4)[OF assms(2)] close_stream_sel(5)[of t j r] unfolding stream_state_def by (auto split: if_splits)
qed

lemma stream_state_take:
  assumes s: "stream_state t i base es r" and base: "\<And>v. v \<in> set base \<Longrightarrow> \<not> ends_stream v"
  shows "stream_state t i base es (take_value j r)"
proof (cases "length (rp_queues r) \<le> j \<or> \<not> sq_open (rp_queues r ! j) \<or> sq_values (rp_queues r ! j) = []")
  case True then show ?thesis using s by (auto simp: take_value_def)
next
  case False
  then obtain v vs where v: "sq_values (rp_queues r ! j) = v # vs" by (cases "sq_values (rp_queues r ! j)") auto
  have j: "j < length (rp_queues r)" using False by simp
  define r1 where "r1 = r\<lparr>rp_queues := (rp_queues r)[j := (rp_queues r ! j)\<lparr>sq_values := vs, sq_taken := sq_taken (rp_queues r ! j) @ [v]\<rparr>]\<rparr>"
  have tk: "take_value j r = (if ends_stream v then close_stream j r1 else r1)" using False v by (simp add: take_value_def r1_def Let_def)
  have same: "stream_received i r1 = stream_received i r" "sq_turn (rp_queues r1 ! i) = sq_turn (rp_queues r ! i)" "length (rp_queues r1) = length (rp_queues r)"
    using j v by (cases "i = j"; simp add: stream_received_def r1_def)+
  have sub: "subscribed i t r1 \<longleftrightarrow> subscribed i t r" "turn_open t r1 \<longleftrightarrow> turn_open t r" by (simp_all add: subscribed_def turn_open_def r1_def)
  have s1: "stream_state t i base es r1" using s unfolding stream_state_def same sub .
  have "j \<noteq> i \<or> \<not> subscribed i t r1" if "ends_stream v"
  proof (rule ccontr)
    assume "\<not> (j \<noteq> i \<or> \<not> subscribed i t r1)"
    then have "stream_received i r = base @ map Event_value es" using s sub unfolding stream_state_def by simp
    moreover have "v \<in> set (stream_received i r)" using \<open>\<not> (j \<noteq> i \<or> \<not> subscribed i t r1)\<close> v by (simp add: stream_received_def)
    ultimately have "v \<in> set base \<union> Event_value ` set es" by simp
    then show False using base that by (auto simp: ends_stream_def)
  qed
  then show ?thesis using stream_state_close[OF s1, of j] s1 tk j same(3) by auto
qed

lemma stream_state_step:
  assumes ok: "replay_ok c L r" "config_ok c" "replay_cmd_ok k" and s: "stream_state t i base es r"
    and base: "\<And>v. v \<in> set base \<Longrightarrow> \<not> ends_stream v" and k: "\<not> ends_turn t k" "k \<noteq> Close_stream i"
  shows "stream_state t i base (es @ published t [k]) (replay_exec c k r)"
proof (cases k)
  case (Register_turn u)
  have un: "turn_open t r" "i < length (rp_queues r)" using s by (simp_all add: stream_state_def)
  have "stream_state t i base es (if dict_get (rp_history r) u = None then register_turn u r else r)"
    by (rule stream_state_frame[OF s]) (use un in \<open>auto simp: register_turn_def turn_open_def subscribed_def\<close>)
  then show ?thesis by (simp add: Register_turn replay_exec_def replay_step_def)
next
  case (Publish now e) then show ?thesis using stream_state_publish[OF ok(1,2) s] by simp
next
  case (Finish now u)
  have un: "turn_open t (replay_exec c k r)" "u \<noteq> t"
    using s k by (auto simp: stream_state_def turn_open_def Finish replay_exec_def replay_step_def finish_streams_def Let_def ends_turn_def split: option.split)
  show ?thesis
  proof (cases "dict_get (rp_subscribers r) u")
    case None
    have "stream_state t i base es (replay_exec c k r)"
      by (rule stream_state_frame[OF s un(1)]) (use s None in \<open>auto simp: stream_state_def subscribed_def Finish replay_exec_def replay_step_def finish_streams_def Let_def\<close>)
    then show ?thesis by (simp add: Finish)
  next
    case (Some qs)
    have "stream_state t i base es (replay_exec c k r)"
      by (rule stream_state_updates[OF ok(1) s Some un(2) _ un(1), of "put_or_drop Stream_end"])
        (use Some replay_okD(5)[OF ok(1)] in \<open>simp_all add: Finish replay_exec_def replay_step_def finish_streams_def Let_def\<close>)
    then show ?thesis by (simp add: Finish)
  qed
next
  case (Fail_turn u msg)
  have un: "turn_open t (replay_exec c k r)" "u \<noteq> t"
    using s k by (auto simp: stream_state_def turn_open_def Fail_turn replay_exec_def replay_step_def fail_streams_def ends_turn_def split: option.split)
  show ?thesis
  proof (cases "dict_get (rp_subscribers r) u")
    case None then show ?thesis using s by (simp add: Fail_turn replay_exec_def replay_step_def fail_streams_def)
  next
    case (Some qs)
    have "stream_state t i base es (replay_exec c k r)"
      by (rule stream_state_updates[OF ok(1) s Some un(2) _ un(1), of "\<lambda>q. q\<lparr>sq_values := [Stream_failure msg]\<rparr>"])
        (use Some in \<open>simp_all add: Fail_turn replay_exec_def replay_step_def fail_streams_def\<close>)
    then show ?thesis by (simp add: Fail_turn)
  qed
next
  case (Subscribe now thread u after tbl)
  have "stream_state t i base es (snd (subscribe c now thread u after tbl r))"
  proof (rule subscribe_cases[OF ok(1), of now thread u after tbl])
    fix f r1 assume "subscribe c now thread u after tbl r = (Some f, r1)" "keeps r r1"
    then show ?thesis using stream_state_keeps[OF s] by simp
  next
    fix r1 x assume a: "keeps r r1" "subscribe c now thread u after tbl r = (None, open_stream c x (replay_values x (replay_expired now x r1) after r1) r1)"
    have s1: "stream_state t i base es r1" by (rule stream_state_keeps[OF s a(1)])
    define vs where "vs = replay_values x (replay_expired now x r1) after r1"
    have "i < length (rp_queues r1)" using s1 by (simp add: stream_state_def)
    then have "stream_state t i base es (open_stream c x vs r1)"
      by (intro stream_state_frame[OF s1])
        (use s1 in \<open>auto simp: stream_state_def open_stream_def turn_open_def subscribed_def nth_append Let_def split: option.splits\<close>)
    then show ?thesis using a(2) by (simp add: vs_def)
  qed
  then show ?thesis by (simp add: Subscribe replay_exec_def replay_step_def)
next
  case (Take_value j) then show ?thesis using stream_state_take[OF s base] by (simp add: replay_exec_def replay_step_def)
next
  case (Close_stream j)
  then show ?thesis using stream_state_close[OF s, of j] s k(2) by (simp add: replay_exec_def replay_step_def)
next
  case (Reap now)
  obtain r1 where r1: "gc_terminal_replay now r = (None, r1)" "keeps r r1" by (rule gc_ok[OF replay_okD(1,2)[OF ok(1)]])
  then show ?thesis using stream_state_keeps[OF s r1(2)] by (simp add: Reap replay_exec_def replay_step_def reap_def)
qed

lemma stream_state_run:
  assumes "replay_ok c L r" "config_ok c" "list_all replay_cmd_ok ks" "stream_state t i base es r" "\<And>v. v \<in> set base \<Longrightarrow> \<not> ends_stream v"
    and "list_all (\<lambda>k. \<not> ends_turn t k) ks" "Close_stream i \<notin> set ks"
  shows "stream_state t i base (es @ published t ks) (fold (replay_exec c) ks r)"
  using assms(1,3,4,6,7)
proof (induction ks arbitrary: L r es)
  case (Cons k ks)
  have "stream_state t i base (es @ published t [k]) (replay_exec c k r)" by (rule stream_state_step[OF Cons.prems(1) assms(2) _ Cons.prems(3) assms(5)]) (use Cons.prems in auto)
  moreover have "replay_ok c (log_after c k r L) (replay_exec c k r)" by (rule replay_exec_ok[OF Cons.prems(1) assms(2)]) (use Cons.prems in simp)
  moreover have "published t (k # ks) = published t [k] @ published t ks" using published_simps(2)[of t "[k]" ks] by simp
  ultimately show ?case using Cons.IH[of "log_after c k r L" "replay_exec c k r" "es @ published t [k]"] Cons.prems by simp
qed simp

subsection \<open>Histories, cursors and streams\<close>

lemma unfinished_step:
  assumes ok: "replay_ok c L r" "config_ok c" and u: "turn_open t r" and k: "\<not> ends_turn t k"
  shows "turn_open t (replay_exec c k r) \<and> log_after c k r L t = L t @ published t [k]"
proof -
  have live: "dict_get (rp_expiry r) t = None" "dict_get (rp_history r) t \<noteq> None" using u by (simp_all add: turn_open_def)
  have keep: "turn_open t r1" if "keeps r r1" for r1 using keeps_unexpired[OF that live(1)] live by (simp add: turn_open_def)
  show ?thesis
  proof (cases k)
    case (Register_turn v)
    then show ?thesis using u by (auto simp: replay_exec_def replay_step_def log_after_def turn_open_def register_turn_def)
  next
    case (Publish now e)
    show ?thesis
    proof (rule publish_event_cases[OF ok, of now e])
      fix r1 assume a: "publish c now e r = (Some Key_missing, r1)" "keeps r r1" "dict_get (rp_history r1) (ev_turn e) = None"
      then have "ev_turn e \<noteq> t" using keeps_unexpired(1)[OF a(2) live(1)] live(2) by auto
      then show ?thesis using keep[OF a(2)] a(1) by (simp add: Publish replay_exec_def replay_step_def log_after_def)
    next
      fix r' assume a: "publish c now e r = (None, r')" "\<And>u. dict_get (rp_expiry r) u = None \<Longrightarrow> dict_get (rp_expiry r') u = None \<and>
        (dict_get (rp_history r') u = None \<longleftrightarrow> dict_get (rp_history r) u = None) \<and> (u \<noteq> ev_turn e \<longrightarrow> dict_get (rp_subscribers r') u = dict_get (rp_subscribers r) u)"
      then show ?thesis using a(2)[OF live(1)] live by (simp add: Publish replay_exec_def replay_step_def log_after_def turn_open_def)
    qed
  next
    case (Subscribe now thread v after tbl)
    have "turn_open t (snd (subscribe c now thread v after tbl r))"
      by (rule subscribe_cases[OF ok(1), of now thread v after tbl]) (use keep in \<open>auto simp: open_stream_def turn_open_def Let_def\<close>)
    then show ?thesis by (simp add: Subscribe replay_exec_def replay_step_def log_after_def)
  next
    case (Take_value j)
    then show ?thesis using u by (auto simp: replay_exec_def replay_step_def log_after_def take_value_def close_stream_sel(5) Let_def split: list.split) (simp_all add: turn_open_def)
  next
    case (Close_stream j)
    then show ?thesis using u by (simp add: replay_exec_def replay_step_def log_after_def close_stream_sel(5))
  next
    case (Reap now)
    obtain r1 where "gc_terminal_replay now r = (None, r1)" "keeps r r1" by (rule gc_ok[OF replay_okD(1,2)[OF ok(1)]])
    then show ?thesis using keep by (simp add: Reap replay_exec_def replay_step_def log_after_def reap_def)
  qed (use u k in \<open>auto simp: replay_exec_def replay_step_def log_after_def close_stream_sel(5) finish_streams_def fail_streams_def Let_def ends_turn_def turn_open_def split: option.splits\<close>)
qed

lemma unfinished_run:
  assumes "replay_ok c L r" "config_ok c" "list_all replay_cmd_ok ks" "turn_open t r" "list_all (\<lambda>k. \<not> ends_turn t k) ks"
  obtains L' where "replay_ok c L' (fold (replay_exec c) ks r)" "turn_open t (fold (replay_exec c) ks r)" "L' t = L t @ published t ks"
proof -
  have "\<exists>L'. replay_ok c L' (fold (replay_exec c) ks r) \<and> turn_open t (fold (replay_exec c) ks r) \<and> L' t = L t @ published t ks"
    using assms(1,3,4,5)
  proof (induction ks arbitrary: L r)
    case (Cons k ks)
    have "turn_open t (replay_exec c k r) \<and> log_after c k r L t = L t @ published t [k]"
      by (rule unfinished_step[OF Cons.prems(1) assms(2)]) (use Cons.prems in simp_all)
    moreover have "replay_ok c (log_after c k r L) (replay_exec c k r)" by (rule replay_exec_ok[OF Cons.prems(1) assms(2)]) (use Cons.prems in simp)
    moreover have "published t (k # ks) = published t [k] @ published t ks" using published_simps(2)[of t "[k]" ks] by simp
    ultimately show ?case using Cons.IH[of "log_after c k r L" "replay_exec c k r"] Cons.prems by auto
  qed auto
  then show thesis using that by blast
qed

text \<open>The state of a turn that was registered and has not ended since.\<close>

lemma started_turn:
  assumes "config_ok c" "list_all replay_cmd_ok (bs @ cs)" "r0 = fold (replay_exec c) bs new_replay" "dict_get (rp_history r0) t = None" "dict_get (rp_expiry r0) t = None"
    and "r = fold (replay_exec c) (Register_turn t # cs) r0" "list_all (\<lambda>k. \<not> ends_turn t k) cs"
  obtains L where "replay_ok c L r" "turn_open t r" "L t = published t cs"
proof -
  have ok0: "replay_ok c (log_run c bs new_replay (\<lambda>t. [])) r0" unfolding assms(3) by (rule replay_run_ok[OF new_replay_ok]) (use assms(1,2) in simp_all)
  let ?L = "(log_run c bs new_replay (\<lambda>t. []))(t := [])"
  have r1: "replay_exec c (Register_turn t) r0 = register_turn t r0" using assms(4) by (simp add: replay_exec_def replay_step_def)
  have ok1: "replay_ok c ?L (register_turn t r0)" by (rule register_ok[OF ok0 assms(4,1)])
  have "turn_open t (register_turn t r0)" using assms(5) by (simp add: turn_open_def register_turn_def)
  from unfinished_run[OF ok1 assms(1) _ this assms(7)] obtain L where "replay_ok c L (fold (replay_exec c) cs (register_turn t r0))"
    "turn_open t (fold (replay_exec c) cs (register_turn t r0))" "L t = ?L t @ published t cs" using assms(2) by auto
  then show thesis using that by (simp add: assms(6) r1)
qed

definition first_values :: "turn_record \<Rightarrow> int option \<Rightarrow> nat \<Rightarrow> turn_event list \<Rightarrow> stream_value list" where
  "first_values x after n hs = (case after of
     Some a \<Rightarrow> (if hs \<noteq> [] \<and> a < int n - int (length hs) - 1 then [Truncated_notice x] else []) @ map Event_value (drop (nat (a + 1 - (int n - int (length hs)))) hs)
   | None \<Rightarrow> (if length hs < n then [Truncated_notice x] else []) @ map Event_value hs)"

lemma subscribe_live:
  assumes ok: "replay_ok c L r" and u: "turn_open t r" and x: "ids_ok tbl" "read_thread_turn thread t tbl = Inr x" "\<not> is_terminal (tn_status x)"
    and a: "after = None \<or> -1 \<le> the after"
  shows "stream_state t (length (rp_queues r)) (first_values x after (length (L t)) (history_of t r)) [] (replay_exec c (Subscribe now thread t after tbl) r)
    \<and> subscribed (length (rp_queues r)) t (replay_exec c (Subscribe now thread t after tbl) r)"
proof (rule subscribe_cases[OF ok, of now thread t after tbl])
  have id: "tn_id x = t" by (rule read_thread_id[OF x(1,2)])
  have live: "dict_get (rp_expiry r) t = None" "dict_get (rp_history r) t \<noteq> None" using u by (simp_all add: turn_open_def)
  {
    fix f r1 assume r1: "subscribe c now thread t after tbl r = (Some f, r1)" "keeps r r1"
    obtain r2 where r2: "gc_terminal_replay now r = (None, r2)" "keeps r r2" by (rule gc_ok[OF replay_okD(1,2)[OF ok]])
    have "fst (subscribe c now thread t after tbl r) = None"
      using r2(1) x a replay_okD(5)[OF ok] keeps_unexpired(1)[OF r2(2) live(1)] live(2) by (auto simp: subscribe_def and_then_def)
    then show ?thesis using r1 by simp
  next
    fix r1 y assume r1: "keeps r r1" "replay_ok c L r1" "read_thread_turn thread t tbl = Inr y"
      "subscribe c now thread t after tbl r = (None, open_stream c y (replay_values y (replay_expired now y r1) after r1) r1)"
    then have y: "y = x" using x(2) by simp
    note same = keeps_unexpired[OF r1(1) live(1)]
    have h: "history_of t r1 = history_of t r" "dict_get (rp_history r1) t = Some (history_of t r)" using same live(2) by (auto simp: history_of_def)
    have seq: "dict_get (rp_sequences r1) t = Some (last_numbers (int (length (L t))) (history_of t r))" using index_okD(2)[OF replay_okD(1)[OF r1(2)], of t] h(2) by simp
    have tr: "t \<in> set (rp_truncated r1) \<longleftrightarrow> length (history_of t r) < length (L t)" using replay_okD(2)[OF r1(2)] h(2) by (simp add: trunc_ok_def)
    have vs: "replay_values x (replay_expired now x r1) after r1 = first_values x after (length (L t)) (history_of t r)"
      using x(3) id h(1) seq tr
      by (auto simp: replay_values_def replay_expired_def first_values_def Let_def last_numbers_above map_map[symmetric] simp del: map_map split: option.split)
    have q: "rp_queues r1 = rp_queues r" using r1(1) by (simp add: keeps_def)
    show ?thesis using r1(4) x(3) y vs id same live
      by (auto simp: replay_exec_def replay_step_def stream_state_def open_stream_def turn_open_def subscribed_def stream_received_def q Let_def split: option.splits)
  }
qed

lemma ids_ok_run: "list_all turn_cmd_ok cs \<Longrightarrow> ids_ok (fold turn_exec cs [])"
proof -
  assume "list_all turn_cmd_ok cs"
  then have e: "encodes (fold turn_exec cs []) (fold record_exec cs [])" by (rule encodes_run[OF encodes_empty])
  show ?thesis unfolding ids_ok_def
  proof (intro allI impI)
    fix t x assume "read_turn t (fold turn_exec cs []) = Inr (Some x)"
    then obtain q where "dict_get (fold turn_exec cs []) t = Some q" "row_to_turn q = Inr x"
      by (cases "dict_get (fold turn_exec cs []) t") (auto simp: read_turn_def map_sum_def split: sum.splits)
    then show "tn_id x = t" using encodesD(3,4,5)[OF e, of t] row_read_back by (fastforce split: if_splits)
  qed
qed

text \<open>
  C38. The replay index is exact and within its limits.  Whatever is published, removed, expired, subscribed and
  read, in any order: the global index holds exactly the events of the histories with their numbers and sizes,
  the totals are the sums, no history and no queue exceeds its limit, the whole stays within the global limit,
  and no step finds the index corrupted, so the reaper never fails.
\<close>

theorem replay_index_exact:
  assumes "config_ok c" "list_all replay_cmd_ok ks" "r = fold (replay_exec c) ks new_replay"
  shows "rp_bytes r = order_bytes (rp_order r) \<and> rp_bytes r \<le> rc_global_bytes c \<and> \<not> rp_failed r \<and>
    (\<forall>t hs. dict_get (rp_history r) t = Some hs \<longrightarrow> length hs \<le> rc_events c \<and> sizes c hs \<le> rc_turn_bytes c \<and> dict_get (rp_totals r) t = Some (sizes c hs) \<and>
       (\<exists>ss. dict_get (rp_sequences r) t = Some ss \<and> order_of t (rp_order r) = zip ss (map (\<lambda>e. (e, int (rc_size c e))) hs))) \<and>
    (\<forall>q \<in> set (rp_queues r). length (sq_values q) \<le> sq_max q) \<and>
    fst (replay_step c k r) \<noteq> Some Index_corrupted \<and> fst (replay_step c k r) \<noteq> Some Reaper_failed"
proof (intro conjI allI impI)
  define L where "L = log_run c ks new_replay (\<lambda>t. [])"
  have ok: "replay_ok c L r" unfolding assms(3) L_def by (rule replay_run_ok[OF new_replay_ok[OF assms(1)] assms(1,2)])
  note okD = replay_okD[OF ok]
  show "rp_bytes r = order_bytes (rp_order r)" "\<not> rp_failed r" "rp_bytes r \<le> rc_global_bytes c" using index_okD(8)[OF okD(1)] okD(3,5) by (simp_all add: bounded_def)
  fix t hs assume h: "dict_get (rp_history r) t = Some hs"
  then show "length hs \<le> rc_events c" "sizes c hs \<le> rc_turn_bytes c" "dict_get (rp_totals r) t = Some (sizes c hs)"
    using okD(3) index_okD(4)[OF okD(1), of t] by (simp_all add: bounded_def)
  show "\<exists>ss. dict_get (rp_sequences r) t = Some ss \<and> order_of t (rp_order r) = zip ss (map (\<lambda>e. (e, int (rc_size c e))) hs)"
    using h index_okD(2,7)[OF okD(1), of t] by (simp add: history_of_def stamped_def)
next
  define L where "L = log_run c ks new_replay (\<lambda>t. [])"
  have ok: "replay_ok c L r" unfolding assms(3) L_def by (rule replay_run_ok[OF new_replay_ok[OF assms(1)] assms(1,2)])
  show "\<forall>q \<in> set (rp_queues r). length (sq_values q) \<le> sq_max q" using replay_okD(4)[OF ok] by (simp add: subs_ok_def)
  have "fst (publish c now e r) \<notin> {Some Index_corrupted, Some Reaper_failed}" for now e by (rule publish_event_cases[OF ok assms(1), of now e]) simp_all
  moreover have "fst (subscribe c now thread t after tbl r) \<notin> {Some Index_corrupted, Some Reaper_failed}" for now thread t after tbl
  proof -
    obtain r1 where "gc_terminal_replay now r = (None, r1)" by (rule gc_ok[OF replay_okD(1,2)[OF ok]])
    then show ?thesis using replay_okD(5)[OF ok] by (auto simp: subscribe_def and_then_def read_thread_turn_def split: sum.splits option.splits)
  qed
  ultimately have "fst (replay_step c k r) \<notin> {Some Index_corrupted, Some Reaper_failed}"
    using replay_okD(5)[OF ok] by (cases k) (auto simp: replay_step_def finish_streams_def fail_streams_def Let_def split: option.splits)
  then show "fst (replay_step c k r) \<noteq> Some Index_corrupted" "fst (replay_step c k r) \<noteq> Some Reaper_failed" by simp_all
qed

text \<open>
  C39. A resumed stream is complete.  A client of a running turn subscribes with the number \<open>a\<close> of the last event
  it saw.  As long as the turn runs and the client does not leave, it receives every event after \<open>a\<close> that the
  history still holds and everything published since, in order, each once; if older events were lost it first
  receives the notice, provided the history is not empty; if it is too slow the stream ends with that error after
  a part of these values.
\<close>

theorem resumed_stream_complete:
  assumes "config_ok c" "list_all replay_cmd_ok (bs @ cs @ ds)"
    and "r0 = fold (replay_exec c) bs new_replay" "dict_get (rp_history r0) t = None" "dict_get (rp_expiry r0) t = None"
    and "r = fold (replay_exec c) (Register_turn t # cs) r0" "list_all (\<lambda>k. \<not> ends_turn t k) (cs @ ds)"
    and "ids_ok tbl" "read_thread_turn thread t tbl = Inr x" "\<not> is_terminal (tn_status x)" "-1 \<le> a" "a < int (length (published t cs))"
    and "i = length (rp_queues r)" "Close_stream i \<notin> set ds"
    and "start = max (nat (a + 1)) (length (published t cs) - length (history_of t r))"
    and "expected = (if history_of t r \<noteq> [] \<and> nat (a + 1) < start then [Truncated_notice x] else []) @ map Event_value (drop start (published t (cs @ ds)))"
    and "r' = fold (replay_exec c) ds (replay_exec c (Subscribe now thread t (Some a) tbl) r)"
  shows "suffix (history_of t r) (published t cs) \<and>
    (stream_received i r' = expected \<or> (\<exists>k \<le> length expected. stream_received i r' = take k expected @ [Slow_consumer]))"
proof -
  have ok: "list_all replay_cmd_ok (bs @ cs)" "list_all replay_cmd_ok ds" "list_all (\<lambda>k. \<not> ends_turn t k) cs" "list_all (\<lambda>k. \<not> ends_turn t k) ds" using assms(2,7) by simp_all
  obtain L where L: "replay_ok c L r" "turn_open t r" "L t = published t cs" by (rule started_turn[OF assms(1) ok(1) assms(3-6) ok(3)])
  define hs where "hs = history_of t r"
  have suf: "suffix hs (published t cs)"
    using index_okD(6)[OF replay_okD(1)[OF L(1)], of t hs] L(2,3) known_iff[of r t] by (auto simp: hs_def turn_open_def)
  define base where "base = first_values x (Some a) (length (published t cs)) hs"
  have "stream_state t i base [] (replay_exec c (Subscribe now thread t (Some a) tbl) r)"
    using subscribe_live[OF L(1,2) assms(8-10), of "Some a" now] assms(11,13) L(3) by (simp add: base_def hs_def)
  moreover have "replay_ok c (log_after c (Subscribe now thread t (Some a) tbl) r L) (replay_exec c (Subscribe now thread t (Some a) tbl) r)"
    by (rule replay_exec_ok[OF L(1) assms(1)]) (simp add: replay_cmd_ok_def assms(8))
  moreover have "\<not> ends_stream v" if "v \<in> set base" for v using that by (auto simp: base_def first_values_def ends_stream_def split: if_splits)
  ultimately have s: "stream_state t i base (published t ds) r'"
    unfolding assms(17) using stream_state_run[of c _ _ ds t i base "[]"] assms(1,14) ok(2,4) by simp
  have "base @ map Event_value (published t ds) = expected"
  proof -
    obtain us where us: "published t cs = us @ hs" using suf by (auto simp: suffix_def)
    have "nat (a + 1 - int (length us)) = nat (a + 1) - length us" "start = max (nat (a + 1)) (length us)" "start \<le> length (published t cs)"
      using assms(11,12,15) us by (auto simp: hs_def[symmetric])
    then show ?thesis using us assms(11) unfolding assms(16) hs_def[symmetric]
      by (auto simp: base_def first_values_def max_def)
  qed
  then show ?thesis using s suf unfolding stream_state_def hs_def by (auto split: if_splits)
qed

text \<open>
  C40. Lost events without a notice.  When an event of a running turn is larger than the byte limit of a turn, the
  history is empty afterwards; a client that then resumes with the number of the last event it saw receives
  neither the events in between nor the truncation notice, which a client without a number does receive.
\<close>

theorem oversized_event_lost_silently:
  assumes "config_ok c" "list_all replay_cmd_ok (bs @ cs)"
    and "r0 = fold (replay_exec c) bs new_replay" "dict_get (rp_history r0) t = None" "dict_get (rp_expiry r0) t = None"
    and "r = fold (replay_exec c) (Register_turn t # cs) r0" "list_all (\<lambda>k. \<not> ends_turn t k) cs"
    and "published t cs = es @ [e]" "rc_turn_bytes c < int (rc_size c e)"
    and "ids_ok tbl" "read_thread_turn thread t tbl = Inr x" "\<not> is_terminal (tn_status x)" "-1 \<le> a"
  shows "history_of t r = [] \<and> stream_received (length (rp_queues r)) (replay_exec c (Subscribe now thread t (Some a) tbl) r) = [] \<and>
    stream_received (length (rp_queues r)) (replay_exec c (Subscribe now thread t None tbl) r) = [Truncated_notice x]"
proof -
  obtain L where L: "replay_ok c L r" "turn_open t r" "L t = published t cs" by (rule started_turn[OF assms(1-7)])
  have h: "dict_get (rp_history r) t = Some (history_of t r)" using L(2) known_iff[of r t] by (auto simp: turn_open_def)
  have suf: "suffix (history_of t r) (es @ [e])" using index_okD(6)[OF replay_okD(1)[OF L(1)] h] L(3) assms(8) by simp
  have "sizes c (history_of t r) \<le> rc_turn_bytes c" using replay_okD(3)[OF L(1)] h by (simp add: bounded_def)
  then have empty: "history_of t r = []"
  proof (cases "history_of t r" rule: rev_cases)
    case (snoc ys y)
    then have "y = e" using suf by simp
    then show ?thesis using \<open>sizes c (history_of t r) \<le> rc_turn_bytes c\<close> snoc assms(9) sizes_nonneg[of c ys] by simp
  qed simp
  have "stream_received (length (rp_queues r)) (replay_exec c (Subscribe now thread t after tbl) r) = first_values x after (length (L t)) []"
    if "after = None \<or> -1 \<le> the after" for after
    using subscribe_live[OF L(1,2) assms(10-12) that, of now] by (simp add: empty stream_state_def)
  then show ?thesis using empty L(3) assms(8,13) by (simp add: first_values_def)
qed

subsection \<open>A concrete stream\<close>

definition demo_event :: "nat \<Rightarrow> turn_event" where
  "demo_event n = \<lparr>ev_ref = n, ev_method = ''item/assistantMessage/delta'', ev_thread = ''p'', ev_turn = ''t'', ev_data = Delta_data ''i'' ''x'' (int n)\<rparr>"

definition demo_config :: replay_config where
  "demo_config = \<lparr>rc_size = (\<lambda>e. if ev_ref e = 9 then 8 else 2), rc_events = 2, rc_turn_bytes = 6, rc_global_bytes = 8, rc_ttl = 3, rc_queue = 2\<rparr>"

definition demo_feed :: "replay_cmd list" where
  "demo_feed = map (\<lambda>n. Publish 0 (demo_event n)) [0, 1, 2]"

lemma demo_config_ok: "config_ok demo_config"
  by (simp add: config_ok_def demo_config_def)

lemma demo_tbl_ok: "ids_ok [(''t'', row_of demo_running)]"
  using ids_ok_run[OF demo_turns_ok] by (simp add: demo_turns)

lemma demo_read: "read_thread_turn ''p'' ''t'' [(''t'', row_of demo_running)] = Inr demo_running"
proof -
  have "row_to_turn (row_of demo_running) = Inr demo_running" by code_simp
  then show ?thesis by (simp add: read_thread_turn_def read_turn_def dict_get_def)
qed

lemma demo_stream_state:
  "rp_queues (fold (replay_exec demo_config) (Register_turn ''t'' # demo_feed) new_replay) = []"
  "history_of ''t'' (fold (replay_exec demo_config) (Register_turn ''t'' # demo_feed) new_replay) = [demo_event 1, demo_event 2]"
  by code_simp+

theorem replay_index_exact_witness:
  "rp_bytes (fold (replay_exec demo_config) (Register_turn ''t'' # demo_feed) new_replay) \<le> 8"
proof -
  have "list_all replay_cmd_ok (Register_turn ''t'' # demo_feed)" by (simp add: demo_feed_def replay_cmd_ok_def)
  from replay_index_exact[OF demo_config_ok this refl, of "Reap 5"] show ?thesis by (simp add: demo_config_def)
qed

theorem resumed_stream_complete_witness:
  "\<exists>k. stream_received 0 (fold (replay_exec demo_config) [Publish 0 (demo_event 3)] (replay_exec demo_config
       (Subscribe 0 ''p'' ''t'' (Some (-1)) [(''t'', row_of demo_running)]) (fold (replay_exec demo_config) (Register_turn ''t'' # demo_feed) new_replay))) =
     take k (Truncated_notice demo_running # map (Event_value \<circ> demo_event) [1, 2, 3]) @ (if k = 4 then [] else [Slow_consumer])"
proof -
  let ?r = "fold (replay_exec demo_config) (Register_turn ''t'' # demo_feed) new_replay"
  have pub: "published ''t'' demo_feed = map demo_event [0, 1, 2]" "published ''t'' (demo_feed @ [Publish 0 (demo_event 3)]) = map demo_event [0, 1, 2, 3]"
    by (simp_all add: demo_feed_def demo_event_def published_def)
  have ok: "list_all replay_cmd_ok ([] @ demo_feed @ [Publish 0 (demo_event 3)])" "list_all (\<lambda>k. \<not> ends_turn ''t'' k) (demo_feed @ [Publish 0 (demo_event 3)])"
    by (simp_all add: demo_feed_def replay_cmd_ok_def ends_turn_def)
  have new: "dict_get (rp_history new_replay) ''t'' = None" "dict_get (rp_expiry new_replay) ''t'' = None" by (simp_all add: new_replay_def)
  have r0: "new_replay = fold (replay_exec demo_config) [] new_replay" by simp
  have "stream_received 0 (fold (replay_exec demo_config) [Publish 0 (demo_event 3)] (replay_exec demo_config (Subscribe 0 ''p'' ''t'' (Some (-1)) [(''t'', row_of demo_running)]) ?r)) =
      Truncated_notice demo_running # map (Event_value \<circ> demo_event) [1, 2, 3] \<or>
    (\<exists>k \<le> 4. stream_received 0 (fold (replay_exec demo_config) [Publish 0 (demo_event 3)] (replay_exec demo_config (Subscribe 0 ''p'' ''t'' (Some (-1)) [(''t'', row_of demo_running)]) ?r)) =
      take k (Truncated_notice demo_running # map (Event_value \<circ> demo_event) [1, 2, 3]) @ [Slow_consumer])"
    using resumed_stream_complete[OF demo_config_ok ok(1) r0 new refl ok(2) demo_tbl_ok demo_read _ _ _ refl _ refl refl refl, where a = "-1" and now = 0]
    unfolding demo_stream_state pub by (simp add: eval_nat_numeral)
  then show ?thesis
  proof (elim disjE exE conjE)
    fix k assume k: "k \<le> 4" and rec: "stream_received 0 (fold (replay_exec demo_config) [Publish 0 (demo_event 3)] (replay_exec demo_config
        (Subscribe 0 ''p'' ''t'' (Some (-1)) [(''t'', row_of demo_running)]) ?r)) = take k (Truncated_notice demo_running # map (Event_value \<circ> demo_event) [1, 2, 3]) @ [Slow_consumer]"
    show ?thesis by (rule exI[of _ "if k = 4 then 5 else k"]) (use rec in simp)
  qed (rule exI[of _ 4], simp)
qed

theorem oversized_event_lost_silently_witness:
  "stream_received 0 (replay_exec demo_config (Subscribe 0 ''p'' ''t'' (Some 0) [(''t'', row_of demo_running)])
     (fold (replay_exec demo_config) [Register_turn ''t'', Publish 0 (demo_event 0), Publish 0 (demo_event 9)] new_replay)) = []"
proof -
  have ok: "list_all replay_cmd_ok ([] @ [Publish 0 (demo_event 0), Publish 0 (demo_event 9)])" "list_all (\<lambda>k. \<not> ends_turn ''t'' k) [Publish 0 (demo_event 0), Publish 0 (demo_event 9)]"
    by (simp_all add: replay_cmd_ok_def ends_turn_def)
  have new: "dict_get (rp_history new_replay) ''t'' = None" "dict_get (rp_expiry new_replay) ''t'' = None" by (simp_all add: new_replay_def)
  have r0: "new_replay = fold (replay_exec demo_config) [] new_replay" by simp
  have pub: "published ''t'' [Publish 0 (demo_event 0), Publish 0 (demo_event 9)] = [demo_event 0] @ [demo_event 9]" by (simp add: demo_event_def)
  have big: "rc_turn_bytes demo_config < int (rc_size demo_config (demo_event 9))" by (simp add: demo_config_def demo_event_def)
  have q: "rp_queues (fold (replay_exec demo_config) [Register_turn ''t'', Publish 0 (demo_event 0), Publish 0 (demo_event 9)] new_replay) = []" by code_simp
  show ?thesis
    using oversized_event_lost_silently[OF demo_config_ok ok(1) r0 new refl ok(2) pub big demo_tbl_ok demo_read, of 0 0] unfolding q by simp
qed

end
