(* ===== verification/Control_Attempts.thy ===== *)
theory Control_Attempts
  imports Turn_Store
begin

text \<open>
  The attempts of an interaction (src/agent/control/runtime.py, src/agent/control/replay_format.py): a turn that
  was interrupted or failed is continued by the next turn of its thread, which takes over the inputs and the
  finished tool calls of the turns before it.

  Parsing and printing of ISO times and the printing of tool arguments are parameters.  Lemmas: the open
  attempts are found exactly and their inputs are numbered without gaps, their replayed messages split at the
  finished tool calls, and a predecessor named by a client blocks its thread.
\<close>

subsection \<open>Requests\<close>

record turn_request =
  rq_thread :: string
  rq_input :: string
  rq_metadata :: "(string, json) dict"

record user_input =
  ui_item :: string
  ui_ordinal :: int
  ui_content :: string
  ui_media :: "string list"
  ui_metadata :: "(string, json) dict"
  ui_time :: int

record tool_group =
  tg_call :: string
  tg_name :: string
  tg_status :: json
  tg_arguments :: "(string, json) dict"
  tg_result :: string

datatype attempt_fault = Attempt_value | Attempt_runtime | Attempt_type | Attempt_store turn_fault

definition validate_request_metadata :: "turn_request \<Rightarrow> attempt_fault option" where
  "validate_request_metadata q = (if dict_get (rq_metadata q) ''interactionRejected'' \<noteq> None then Some Attempt_value else None)"

subsection \<open>Finding the open attempts\<close>

definition interaction_id :: "turn_record \<Rightarrow> attempt_fault + string" where
  "interaction_id x = (case json_get (tn_metadata x) ''interactionId'' (JStr (tn_id x)) of
     JStr i \<Rightarrow> if i = [] then Inl Attempt_value else Inr i
   | _ \<Rightarrow> Inl Attempt_value)"

text \<open>The loop over \<open>continuedFromTurnId\<close>; \<open>xs\<close> is never empty, its last turn is the oldest so far.\<close>

function predecessors :: "turn_table \<Rightarrow> string \<Rightarrow> turn_record list \<Rightarrow> string list \<Rightarrow> attempt_fault + turn_record list" where
  "predecessors t thread xs seen =
     (let p = json_field (tn_metadata (last xs)) ''continuedFromTurnId'' in
      if \<not> truthy p then Inr xs
      else case p of
        JStr i \<Rightarrow> if i \<in> set seen then Inl Attempt_runtime
          else (case read_turn i t of
            Inl f \<Rightarrow> Inl (Attempt_store f)
          | Inr None \<Rightarrow> Inl Attempt_runtime
          | Inr (Some x) \<Rightarrow> if tn_thread x \<noteq> thread \<or> tn_status x = Turn_completed then Inl Attempt_runtime
              else predecessors t thread (xs @ [x]) (i # seen))
      | _ \<Rightarrow> Inl Attempt_value)"
  by pat_completeness auto

termination
proof (relation "measure (\<lambda>(t, thread, xs, seen). card (set (dict_keys t) - set seen))")
  fix t :: turn_table and thread :: string and xs :: "turn_record list" and seen p i y x
  assume a: "i \<notin> set seen" "read_turn i t = Inr y" "y = Some x"
  then have "i \<in> set (dict_keys t)" using dict_get_None_iff[of t i] by (auto simp: read_turn_def)
  then have "set (dict_keys t) - set (i # seen) \<subset> set (dict_keys t) - set seen" using a(1) by auto
  then show "((t, thread, xs @ [x], i # seen), (t, thread, xs, seen)) \<in> measure (\<lambda>(t, thread, xs, seen). card (set (dict_keys t) - set seen))"
    using psubset_card_mono[of "set (dict_keys t) - set seen"] by simp
qed simp

declare predecessors.simps [simp del]

fun same_interaction :: "string \<Rightarrow> turn_record list \<Rightarrow> attempt_fault option" where
  "same_interaction i [] = None"
| "same_interaction i (x # xs) = (case interaction_id x of Inl f \<Rightarrow> Some f | Inr j \<Rightarrow> if j \<noteq> i then Some Attempt_runtime else same_interaction i xs)"

definition open_interaction_attempts :: "string \<Rightarrow> turn_table \<Rightarrow> attempt_fault + turn_record list" where
  "open_interaction_attempts thread t = (case list_turns thread 1 None t of
     Inl f \<Rightarrow> Inl (Attempt_store f)
   | Inr [] \<Rightarrow> Inr []
   | Inr (x # _) \<Rightarrow> if tn_status x = Turn_completed then Inr []
       else case json_field (tn_metadata x) ''interactionRejected'' of
         JBool True \<Rightarrow> Inr []
       | rejected \<Rightarrow> if rejected \<noteq> JNull \<and> rejected \<noteq> JBool False then Inl Attempt_value
           else (case predecessors t thread [x] [tn_id x] of
             Inl f \<Rightarrow> Inl f
           | Inr xs \<Rightarrow> (case interaction_id x of
               Inl f \<Rightarrow> Inl f
             | Inr i \<Rightarrow> (case same_interaction i (rev xs) of Some f \<Rightarrow> Inl f | None \<Rightarrow> Inr (rev xs)))))"

subsection \<open>What the attempts hand on\<close>

definition string_list :: "json \<Rightarrow> string list option" where
  "string_list j = (case j of JList xs \<Rightarrow> if list_all is_str xs then Some (map the_str xs) else None | _ \<Rightarrow> None)"

definition read_user_input :: "(string \<Rightarrow> int option) \<Rightarrow> int \<Rightarrow> turn_item \<Rightarrow> attempt_fault + user_input" where
  "read_user_input parse n x = (case (json_field (ti_data x) ''ordinal'', json_field (ti_data x) ''content'', string_list (json_get (ti_data x) ''media'' (JList [])),
       json_get (ti_data x) ''metadata'' (JObj []), json_field (ti_data x) ''timestamp'') of
     (JInt k, JStr c, Some media, JObj meta, JStr ts) \<Rightarrow>
       if k \<noteq> n then Inl Attempt_value
       else (case parse ts of None \<Rightarrow> Inl Attempt_value
         | Some tm \<Rightarrow> Inr \<lparr>ui_item = ti_id x, ui_ordinal = n, ui_content = c, ui_media = media, ui_metadata = meta, ui_time = tm\<rparr>)
   | _ \<Rightarrow> Inl Attempt_value)"

fun item_inputs :: "(string \<Rightarrow> int option) \<Rightarrow> user_input list \<Rightarrow> turn_item list \<Rightarrow> attempt_fault + user_input list" where
  "item_inputs parse us [] = Inr us"
| "item_inputs parse us (x # xs) = (if ti_kind x \<noteq> User_item then item_inputs parse us xs
     else case read_user_input parse (int (length us)) x of Inl f \<Rightarrow> Inl f | Inr u \<Rightarrow> item_inputs parse (us @ [u]) xs)"

definition attempt_user_inputs :: "(string \<Rightarrow> int option) \<Rightarrow> turn_record list \<Rightarrow> attempt_fault + user_input list" where
  "attempt_user_inputs parse xs = item_inputs parse [] (concat (map tn_items xs))"

definition tool_group_from_item :: "turn_item \<Rightarrow> attempt_fault + tool_group option" where
  "tool_group_from_item x = (if ti_kind x \<noteq> Tool_item then Inr None
     else let status = json_field (ti_data x) ''status'' in case status of
       JList _ \<Rightarrow> Inl Attempt_type
     | JObj _ \<Rightarrow> Inl Attempt_type
     | _ \<Rightarrow> if status \<in> {JStr ''in_progress'', JStr ''interrupted'', JStr ''cancelled''} then Inr None
         else (case (json_field (ti_data x) ''callId'', json_field (ti_data x) ''name'', json_get (ti_data x) ''arguments'' (JObj []), json_field (ti_data x) ''resultPreview'') of
           (JStr c, JStr n, JObj a, JStr r) \<Rightarrow> if c = [] \<or> n = [] then Inl Attempt_value
             else Inr (Some \<lparr>tg_call = c, tg_name = n, tg_status = status, tg_arguments = a, tg_result = r\<rparr>)
         | _ \<Rightarrow> Inl Attempt_value))"

fun item_groups :: "turn_item list \<Rightarrow> attempt_fault + tool_group list" where
  "item_groups [] = Inr []"
| "item_groups (x # xs) = (case tool_group_from_item x of
     Inl f \<Rightarrow> Inl f
   | Inr g \<Rightarrow> (case item_groups xs of Inl f \<Rightarrow> Inl f | Inr gs \<Rightarrow> Inr (case g of None \<Rightarrow> gs | Some h \<Rightarrow> h # gs)))"

definition attempt_tool_chain :: "turn_record list \<Rightarrow> attempt_fault + tool_group list" where
  "attempt_tool_chain xs = item_groups (concat (map tn_items xs))"

text \<open>The model messages of earlier attempts (\<open>replay_messages\<close>).\<close>

type_synonym model_message = "(string, json) dict"

definition join_lines :: "string list \<Rightarrow> string" where
  "join_lines xs = concat (map (\<lambda>x. CHR 0x0A # x) xs)"

text \<open>The heading that announces attached media, in UTF-8.\<close>

definition media_heading :: string where
  "media_heading = CHR 0x5B # [CHR 0xE9, CHR 0x99, CHR 0x84, CHR 0xE5, CHR 0x8A, CHR 0xA0, CHR 0xE5, CHR 0xAA, CHR 0x92, CHR 0xE4, CHR 0xBD, CHR 0x93] @ [CHR 0x5D]"

definition user_message :: "turn_item \<Rightarrow> attempt_fault + model_message" where
  "user_message x = (case (json_field (ti_data x) ''content'', string_list (json_get (ti_data x) ''media'' (JList []))) of
     (JStr c, Some media) \<Rightarrow> Inr [(''role'', JStr ''user''), (''content'', JStr (if media = [] then c
        else c @ join_lines ([[], media_heading] @ map (\<lambda>m. ''- '' @ m) media)))]
   | _ \<Rightarrow> Inl Attempt_value)"

definition tool_messages :: "(json \<Rightarrow> string) \<Rightarrow> tool_group \<Rightarrow> model_message list" where
  "tool_messages dumps g =
     [[(''role'', JStr ''assistant''), (''content'', JStr []),
       (''tool_calls'', JList [JObj [(''id'', JStr (tg_call g)), (''type'', JStr ''function''),
         (''function'', JObj [(''name'', JStr (tg_name g)), (''arguments'', JStr (dumps (JObj (tg_arguments g))))])]])],
      [(''role'', JStr ''tool''), (''tool_call_id'', JStr (tg_call g)), (''content'', JStr (tg_result g))]]"

fun item_messages :: "(json \<Rightarrow> string) \<Rightarrow> turn_item list \<Rightarrow> attempt_fault + model_message list" where
  "item_messages dumps [] = Inr []"
| "item_messages dumps (x # xs) =
     (case (if ti_kind x = User_item then map_sum id (\<lambda>m. [m]) (user_message x)
         else if ti_kind x = Tool_item then map_sum id (\<lambda>g. case g of None \<Rightarrow> [] | Some h \<Rightarrow> tool_messages dumps h) (tool_group_from_item x)
         else Inr []) of
       Inl f \<Rightarrow> Inl f
     | Inr ms \<Rightarrow> (case item_messages dumps xs of Inl f \<Rightarrow> Inl f | Inr ns \<Rightarrow> Inr (ms @ ns)))"

definition interrupted_marker :: model_message where
  "interrupted_marker = [(''role'', JStr ''assistant''), (''content'', JStr ''[execution attempt interrupted]'')]"

fun replay_messages :: "(json \<Rightarrow> string) \<Rightarrow> turn_record list \<Rightarrow> attempt_fault + model_message list" where
  "replay_messages dumps [] = Inr []"
| "replay_messages dumps (x # xs) = (case item_messages dumps (tn_items x) of
     Inl f \<Rightarrow> Inl f
   | Inr ms \<Rightarrow> (case replay_messages dumps xs of Inl f \<Rightarrow> Inl f | Inr ns \<Rightarrow> Inr (ms @ interrupted_marker # ns)))"

text \<open>
  \<open>split_replay_batches\<close>: the messages are cut after every tool call whose results all follow it.  \<open>pend\<close> holds
  the messages since the last cut.
\<close>

definition raw_calls :: "model_message \<Rightarrow> json list option" where
  "raw_calls m = (case (json_field m ''role'', json_field m ''tool_calls'') of
     (JStr r, JList cs) \<Rightarrow> if r = ''assistant'' then Some cs else None
   | _ \<Rightarrow> None)"

definition call_id :: "json \<Rightarrow> string option" where
  "call_id c = (case c of JObj d \<Rightarrow> (case json_field d ''id'' of JStr i \<Rightarrow> Some i | _ \<Rightarrow> None) | _ \<Rightarrow> None)"

definition call_ids :: "json list \<Rightarrow> string list" where
  "call_ids cs = remdups (List.map_filter call_id cs)"

definition is_tool :: "model_message \<Rightarrow> bool" where
  "is_tool m \<longleftrightarrow> json_field m ''role'' = JStr ''tool''"

function split_from :: "model_message list \<Rightarrow> model_message list \<Rightarrow> model_message list list \<Rightarrow> attempt_fault + (model_message list list \<times> model_message list)" where
  "split_from pend [] bs = Inr (bs, pend)"
| "split_from pend (m # ms) bs = (case raw_calls m of
     None \<Rightarrow> split_from (pend @ [m]) ms bs
   | Some cs \<Rightarrow> if call_ids cs = [] \<or> length (call_ids cs) \<noteq> length cs then Inl Attempt_runtime
       else let rs = takeWhile is_tool ms; ids = map (\<lambda>r. json_field r ''tool_call_id'') rs in
         if \<not> list_all is_str ids then Inl Attempt_runtime
         else if set (map the_str ids) \<noteq> set (call_ids cs) then Inr (bs, pend @ m # ms)
         else split_from [] (dropWhile is_tool ms) (bs @ [pend @ m # rs]))"
  by pat_completeness auto
termination by (relation "measure (\<lambda>(pend, ms, bs). length ms)") (auto simp: le_imp_less_Suc length_dropWhile_le)

declare split_from.simps(2) [simp del]

definition split_replay_batches :: "model_message list \<Rightarrow> attempt_fault + (model_message list list \<times> model_message list)" where
  "split_replay_batches ms = split_from [] ms []"

subsection \<open>The next attempt\<close>

definition effective_request :: "turn_request \<Rightarrow> string \<Rightarrow> turn_record list \<Rightarrow> user_input list \<Rightarrow> attempt_fault + turn_request" where
  "effective_request q i prev inputs =
     (case (if prev = [] then Inr i else interaction_id (last prev)) of
       Inl f \<Rightarrow> Inl f
     | Inr ia \<Rightarrow> (let m = dict_set (dict_set (dict_set (rq_metadata q) ''interactionId'' (JStr ia)) ''attemptOrdinal'' (JInt (int (length prev))))
           ''priorInputCount'' (JInt (int (length inputs))) in
         Inr (q\<lparr>rq_metadata := (if prev = [] then m else dict_set m ''continuedFromTurnId'' (JStr (tn_id (last prev))))\<rparr>)))"

definition build_user_input :: "(string \<Rightarrow> int option) \<Rightarrow> turn_request \<Rightarrow> int \<Rightarrow> string \<Rightarrow> int \<Rightarrow> attempt_fault + user_input" where
  "build_user_input parse q n item now =
     (case (case json_field (rq_metadata q) ''inputTimestamp'' of JStr ts \<Rightarrow> parse ts | _ \<Rightarrow> Some now) of
       None \<Rightarrow> Inl Attempt_value
     | Some tm \<Rightarrow> (case (string_list (json_get (rq_metadata q) ''media'' (JList [])), json_get (rq_metadata q) ''inboundMetadata'' (JObj [])) of
         (Some media, JObj meta) \<Rightarrow> if is_str (json_get meta ''client_message_id'' (JStr []))
           then Inr \<lparr>ui_item = item, ui_ordinal = n, ui_content = rq_input q, ui_media = media, ui_metadata = meta, ui_time = tm\<rparr>
           else Inl Attempt_value
       | _ \<Rightarrow> Inl Attempt_value))"

definition user_input_item :: "(int \<Rightarrow> string) \<Rightarrow> user_input \<Rightarrow> turn_item" where
  "user_input_item show_time u = \<lparr>ti_kind = User_item, ti_id = ui_item u, ti_data = [(''content'', JStr (ui_content u)), (''ordinal'', JInt (ui_ordinal u)),
     (''media'', JList (map JStr (ui_media u))), (''metadata'', JObj (ui_metadata u)), (''timestamp'', JStr (show_time (ui_time u)))]\<rparr>"

text \<open>\<open>_merge_turn_items\<close>.\<close>

fun merge_item :: "turn_item list \<Rightarrow> turn_item \<Rightarrow> turn_item list" where
  "merge_item [] x = [x]"
| "merge_item (y # ys) x = (if ti_id y = ti_id x then x # ys else y # merge_item ys x)"

definition merge_turn_items :: "turn_item list \<Rightarrow> turn_item list \<Rightarrow> attempt_fault + turn_item list" where
  "merge_turn_items base updates = (if distinct (map ti_id base) then Inr (foldl merge_item base updates) else Inl Attempt_runtime)"

subsection \<open>Replayed messages are cut at their tool calls\<close>

lemma split_from_parts:
  "split_from pend ms bs = Inr (cs, rest) \<Longrightarrow> \<exists>ds. cs = bs @ ds \<and> concat ds @ rest = pend @ ms"
proof (induction pend ms bs rule: split_from.induct)
  case (2 pend m ms bs)
  show ?case
  proof (cases "raw_calls m")
    case None then show ?thesis using 2 by (simp add: split_from.simps(2))
  next
    case (Some calls)
    let ?rs = "takeWhile is_tool ms"
    show ?thesis
    proof (cases "split_from [] (dropWhile is_tool ms) (bs @ [pend @ m # ?rs]) = Inr (cs, rest) \<and> split_from pend (m # ms) bs \<noteq> Inr (bs, pend @ m # ms)")
      case True
      then have "\<exists>ds. cs = (bs @ [pend @ m # ?rs]) @ ds \<and> concat ds @ rest = [] @ dropWhile is_tool ms"
        using 2(2)[OF Some _ refl refl] 2(3) Some by (auto simp: split_from.simps(2) Let_def split: if_splits)
      then obtain ds where "cs = bs @ (pend @ m # ?rs) # ds" "concat ds @ rest = dropWhile is_tool ms" by auto
      then show ?thesis using takeWhile_dropWhile_id[of is_tool ms] by (intro exI[of _ "(pend @ m # ?rs) # ds"]) simp
    next
      case False then show ?thesis using 2(3) Some by (auto simp: split_from.simps(2) Let_def split: if_splits)
    qed
  qed
qed simp

lemma raw_calls_user: "user_message x = Inr m \<Longrightarrow> raw_calls m = None \<and> \<not> is_tool m"
  by (auto simp: user_message_def raw_calls_def is_tool_def json_field_def dict_get_def split: json.splits option.splits)

lemma raw_calls_marker: "raw_calls interrupted_marker = None" "\<not> is_tool interrupted_marker"
  by (simp_all add: interrupted_marker_def raw_calls_def is_tool_def json_field_def dict_get_def)

definition no_result_first :: "model_message list \<Rightarrow> bool" where
  "no_result_first ms \<longleftrightarrow> ms = [] \<or> \<not> is_tool (hd ms)"

lemma split_from_group:
  assumes "no_result_first rest"
  shows "split_from pend (tool_messages dumps g @ rest) bs = split_from [] rest (bs @ [pend @ tool_messages dumps g])"
proof -
  have "takeWhile is_tool rest = []" "dropWhile is_tool rest = rest" using assms by (cases rest; simp add: no_result_first_def)+
  then show ?thesis
    by (simp add: tool_messages_def split_from.simps(2) raw_calls_def json_field_def dict_get_def call_ids_def call_id_def is_tool_def is_str_def the_str_def
      List.map_filter_def Let_def)
qed

lemma item_messages_start: "item_messages dumps xs = Inr ms \<Longrightarrow> no_result_first rest \<Longrightarrow> no_result_first (ms @ rest)"
proof (induction xs arbitrary: ms)
  case (Cons x xs)
  then obtain ns where "item_messages dumps xs = Inr ns" by (auto split: sum.splits)
  from Cons.IH[OF this Cons.prems(2)] show ?case
    using Cons.prems(1) \<open>item_messages dumps xs = Inr ns\<close> raw_calls_user[of x]
    by (auto simp: map_sum_def tool_messages_def no_result_first_def is_tool_def json_field_def dict_get_def split: sum.splits option.splits if_splits)
qed simp

lemma split_from_items:
  assumes "item_messages dumps xs = Inr ms" "no_result_first rest"
  shows "\<exists>gs ds pend'. item_groups xs = Inr gs \<and> split_from pend (ms @ rest) bs = split_from pend' rest (bs @ ds) \<and> list_all2 (\<lambda>d g. suffix (tool_messages dumps g) d) ds gs"
  using assms(1)
proof (induction xs arbitrary: ms pend bs)
  case (Cons x xs)
  then obtain us ns where ns: "item_messages dumps xs = Inr ns" "ms = us @ ns" by (auto split: sum.splits)
  have start: "no_result_first (ns @ rest)" by (rule item_messages_start[OF ns(1) assms(2)])
  consider m where "ti_kind x = User_item" "user_message x = Inr m" "us = [m]"
    | g where "ti_kind x = Tool_item" "tool_group_from_item x = Inr (Some g)" "us = tool_messages dumps g"
    | "ti_kind x \<noteq> User_item" "tool_group_from_item x = Inr None" "us = []"
    using Cons.prems ns by (auto simp: tool_group_from_item_def map_sum_def split: sum.splits option.splits if_splits)
  then show ?case
  proof cases
    case 1
    have "tool_group_from_item x = Inr None" using 1(1) by (simp add: tool_group_from_item_def)
    then have "item_groups (x # xs) = item_groups xs" "split_from pend (ms @ rest) bs = split_from (pend @ [m]) (ns @ rest) bs"
      using 1 raw_calls_user[OF 1(2)] by (simp_all add: ns(2) split_from.simps(2) split: sum.split)
    then show ?thesis using Cons.IH[OF ns(1), of "pend @ [m]" bs] by simp
  next
    case 2
    obtain gs ds pend' where IH: "item_groups xs = Inr gs" "split_from [] (ns @ rest) (bs @ [pend @ us]) = split_from pend' rest ((bs @ [pend @ us]) @ ds)"
      "list_all2 (\<lambda>d g. suffix (tool_messages dumps g) d) ds gs" using Cons.IH[OF ns(1), of "[]" "bs @ [pend @ us]"] by blast
    have "split_from pend (ms @ rest) bs = split_from pend' rest (bs @ (pend @ us) # ds)" using split_from_group[OF start] IH(2) 2(3) by (simp add: ns(2))
    moreover have "list_all2 (\<lambda>d g. suffix (tool_messages dumps g) d) ((pend @ us) # ds) (g # gs)" using IH(3) 2(3) by (simp add: suffix_def)
    ultimately show ?thesis using 2 IH(1) by (intro exI[of _ "g # gs"] exI[of _ "(pend @ us) # ds"] exI[of _ pend']) simp
  next
    case 3
    then have "item_groups (x # xs) = item_groups xs" by (simp split: sum.split)
    then show ?thesis using Cons.IH[OF ns(1), of pend bs] 3(3) by (simp add: ns(2))
  qed
qed auto

lemma item_groups_append: "item_groups (xs @ ys) = (case item_groups xs of Inl f \<Rightarrow> Inl f | Inr gs \<Rightarrow> map_sum id (\<lambda>hs. gs @ hs) (item_groups ys))"
  by (induction xs) (auto simp: map_sum.id sum.map_comp comp_def id_def map_sum_def split: sum.splits option.splits)

lemma replay_messages_start: "replay_messages dumps xs = Inr ms \<Longrightarrow> no_result_first ms"
proof (cases xs)
  case (Cons x ys)
  assume "replay_messages dumps xs = Inr ms"
  then obtain us ns where "item_messages dumps (tn_items x) = Inr us" "ms = us @ interrupted_marker # ns" using Cons by (auto split: sum.splits)
  then show ?thesis using item_messages_start[of dumps "tn_items x" us "interrupted_marker # ns"] raw_calls_marker(2) by (simp add: no_result_first_def)
qed (simp add: no_result_first_def)

lemma split_from_replay:
  "replay_messages dumps xs = Inr ms \<Longrightarrow> \<exists>gs ds pend'. attempt_tool_chain xs = Inr gs \<and> split_from pend ms bs = Inr (bs @ ds, pend') \<and>
     list_all2 (\<lambda>d g. suffix (tool_messages dumps g) d) ds gs"
proof (induction xs arbitrary: ms pend bs)
  case (Cons x xs)
  then obtain us ns where u: "item_messages dumps (tn_items x) = Inr us" "replay_messages dumps xs = Inr ns" "ms = us @ interrupted_marker # ns" by (auto split: sum.splits)
  have "no_result_first (interrupted_marker # ns)" using raw_calls_marker(2) by (simp add: no_result_first_def)
  from split_from_items[OF u(1) this, of pend bs] obtain gs ds p where
    1: "item_groups (tn_items x) = Inr gs" "split_from pend ms bs = split_from p (interrupted_marker # ns) (bs @ ds)" "list_all2 (\<lambda>d g. suffix (tool_messages dumps g) d) ds gs"
    unfolding u(3) by blast
  from Cons.IH[OF u(2), of "p @ [interrupted_marker]" "bs @ ds"] obtain hs es q where
    2: "attempt_tool_chain xs = Inr hs" "split_from (p @ [interrupted_marker]) ns (bs @ ds) = Inr ((bs @ ds) @ es, q)" "list_all2 (\<lambda>d g. suffix (tool_messages dumps g) d) es hs" by blast
  have "split_from pend ms bs = Inr (bs @ ds @ es, q)" using 1(2) 2(2) raw_calls_marker(1) by (simp add: split_from.simps(2))
  moreover have "attempt_tool_chain (x # xs) = Inr (gs @ hs)" using 1(1) 2(1) by (simp add: attempt_tool_chain_def item_groups_append)
  ultimately show ?case using list_all2_appendI[OF 1(3) 2(3)] by blast
qed (simp add: attempt_tool_chain_def)

text \<open>
  The replay of earlier attempts splits into their tool calls.  Whenever the messages of earlier attempts can
  be built, the model loop's splitting of them succeeds and loses nothing: the batches and the tail are the
  messages, there is one batch for each finished tool call of the attempts, in order, and each batch ends with
  the call and its result.
\<close>

theorem replay_splits_at_calls:
  assumes "replay_messages dumps xs = Inr ms"
  shows "\<exists>gs bs tail. attempt_tool_chain xs = Inr gs \<and> split_replay_batches ms = Inr (bs, tail) \<and> concat bs @ tail = ms \<and>
    list_all2 (\<lambda>b g. suffix (tool_messages dumps g) b) bs gs"
proof -
  obtain gs bs tail where "attempt_tool_chain xs = Inr gs" "split_from [] ms [] = Inr (bs, tail)" "list_all2 (\<lambda>b g. suffix (tool_messages dumps g) b) bs gs"
    using split_from_replay[OF assms, of "[]" "[]"] by auto
  then show ?thesis using split_from_parts[of "[]" ms "[]" bs tail] by (auto simp: split_replay_batches_def)
qed

subsection \<open>Preparing and creating an attempt\<close>

text \<open>What \<open>start_turn\<close> computes before it reserves capacity, and what it stores afterwards.\<close>

record prepared =
  pa_previous :: "turn_record list"
  pa_inputs :: "user_input list"
  pa_replay :: "model_message list"
  pa_chain :: "tool_group list"
  pa_request :: turn_request

definition prepare_attempt :: "(string \<Rightarrow> int option) \<Rightarrow> (json \<Rightarrow> string) \<Rightarrow> turn_request \<Rightarrow> string \<Rightarrow> turn_table \<Rightarrow> attempt_fault + prepared" where
  "prepare_attempt parse dumps q i t =
     (case open_interaction_attempts (rq_thread q) t of Inl f \<Rightarrow> Inl f | Inr prev \<Rightarrow>
      case attempt_user_inputs parse prev of Inl f \<Rightarrow> Inl f | Inr inputs \<Rightarrow>
      case replay_messages dumps prev of Inl f \<Rightarrow> Inl f | Inr ms \<Rightarrow>
      case attempt_tool_chain prev of Inl f \<Rightarrow> Inl f | Inr chain \<Rightarrow>
      case effective_request q i prev inputs of Inl f \<Rightarrow> Inl f | Inr eff \<Rightarrow>
        Inr \<lparr>pa_previous = prev, pa_inputs = inputs, pa_replay = ms, pa_chain = chain, pa_request = eff\<rparr>)"

definition attempt_record :: "(int \<Rightarrow> string) \<Rightarrow> turn_request \<Rightarrow> string \<Rightarrow> user_input \<Rightarrow> int \<Rightarrow> turn_record" where
  "attempt_record show_time q i u now = \<lparr>tn_id = i, tn_thread = rq_thread q, tn_status = Turn_queued, tn_input = rq_input q, tn_metadata = rq_metadata q,
     tn_items = [user_input_item show_time u], tn_usage = None, tn_error = None, tn_final = None, tn_created = now, tn_started = None, tn_completed = None\<rparr>"

definition create_attempt :: "(string \<Rightarrow> int option) \<Rightarrow> (int \<Rightarrow> string) \<Rightarrow> prepared \<Rightarrow> string \<Rightarrow> string \<Rightarrow> int \<Rightarrow> turn_table \<Rightarrow>
    (attempt_fault + turn_record \<times> user_input) \<times> turn_table" where
  "create_attempt parse show_time p i item now t =
     (case build_user_input parse (pa_request p) (int (length (pa_inputs p))) item now of
       Inl f \<Rightarrow> (Inl f, t)
     | Inr u \<Rightarrow> (case create_turn (attempt_record show_time (pa_request p) i u now) t of
         (Inl f, t') \<Rightarrow> (Inl (Attempt_store f), t')
       | (Inr r, t') \<Rightarrow> (Inr (r, u), t')))"

subsection \<open>Attempts are linked\<close>

definition rejected_turn :: "turn_record \<Rightarrow> bool" where
  "rejected_turn x \<longleftrightarrow> json_field (tn_metadata x) ''interactionRejected'' = JBool True"

definition closed_turn :: "turn_record \<Rightarrow> bool" where
  "closed_turn x \<longleftrightarrow> tn_status x = Turn_completed \<or> rejected_turn x"

definition user_items :: "turn_record \<Rightarrow> turn_item list" where
  "user_items x = filter (\<lambda>y. ti_kind y = User_item) (tn_items x)"

text \<open>Turn \<open>x\<close> follows the open attempts \<open>xs\<close>, the newest of them first.\<close>

definition follows :: "(string \<Rightarrow> int option) \<Rightarrow> turn_record \<Rightarrow> turn_record list \<Rightarrow> bool" where
  "follows parse x xs \<longleftrightarrow>
     (if xs = [] then \<not> truthy (json_field (tn_metadata x) ''continuedFromTurnId'') else json_field (tn_metadata x) ''continuedFromTurnId'' = JStr (tn_id (hd xs))) \<and>
     interaction_id x = Inr (if xs = [] then tn_id x else tn_id (last xs)) \<and>
     json_field (tn_metadata x) ''interactionRejected'' \<in> {JNull, JBool True} \<and>
     (\<exists>y u. user_items x = [y] \<and> read_user_input parse (int (length xs)) y = Inr u)"

fun linked :: "(string \<Rightarrow> int option) \<Rightarrow> turn_record list \<Rightarrow> bool" where
  "linked parse [] = True"
| "linked parse (x # xs) = (linked parse xs \<and> follows parse x (takeWhile (\<lambda>x. \<not> closed_turn x) xs))"

lemma linked_split: "linked parse (us @ x # xs) \<Longrightarrow> follows parse x (takeWhile (\<lambda>x. \<not> closed_turn x) xs)"
  by (induction us) auto

lemma attempt_linked_drop: "linked parse (us @ xs) \<Longrightarrow> linked parse xs"
  by (induction us) auto

text \<open>The loop walks back over exactly the open attempts.\<close>

lemma predecessors_open:
  assumes "linked parse (acc @ rest @ older)" "acc \<noteq> []" "\<And>x. x \<in> set (acc @ rest) \<Longrightarrow> \<not> closed_turn x" "older = [] \<or> closed_turn (hd older)"
    and "\<And>x. x \<in> set rest \<Longrightarrow> read_turn (tn_id x) t = Inr (Some x) \<and> tn_thread x = thread \<and> tn_id x \<noteq> []" "distinct (map tn_id (acc @ rest))" "set seen = tn_id ` set acc"
  shows "predecessors t thread acc seen = Inr (acc @ rest)"
  using assms
proof (induction rest arbitrary: acc seen)
  case Nil
  obtain us x where acc: "acc = us @ [x]" using Nil.prems(2) by (cases acc rule: rev_cases) auto
  have "takeWhile (\<lambda>x. \<not> closed_turn x) older = []" using Nil.prems(4) by (cases older) auto
  then have "\<not> truthy (json_field (tn_metadata x) ''continuedFromTurnId'')"
    using linked_split[of parse us x older] Nil.prems(1) acc by (simp add: follows_def)
  then show ?case by (subst predecessors.simps) (simp add: acc Let_def)
next
  case (Cons y rest)
  obtain us x where acc: "acc = us @ [x]" using Cons.prems(2) by (cases acc rule: rev_cases) auto
  have y: "read_turn (tn_id y) t = Inr (Some y)" "tn_thread y = thread" "tn_id y \<noteq> []" "\<not> closed_turn y" "tn_id y \<notin> set seen"
    using Cons.prems(3,5,6,7) by auto
  have "json_field (tn_metadata x) ''continuedFromTurnId'' = JStr (tn_id y)"
    using linked_split[of parse us x "y # rest @ older"] Cons.prems(1) acc y(4) by (simp add: follows_def)
  then have "predecessors t thread acc seen = predecessors t thread (acc @ [y]) (tn_id y # seen)"
    using y by (subst predecessors.simps) (simp add: acc Let_def truthy_def closed_turn_def)
  also have "\<dots> = Inr ((acc @ [y]) @ rest)"
    by (rule Cons.IH) (use Cons.prems in auto)
  finally show ?case by simp
qed

lemma item_inputs_append: "item_inputs parse us (xs @ ys) = (case item_inputs parse us xs of Inl f \<Rightarrow> Inl f | Inr vs \<Rightarrow> item_inputs parse vs ys)"
  by (induction parse us xs rule: item_inputs.induct) (auto split: sum.split)

lemma item_inputs_filter: "item_inputs parse us xs = item_inputs parse us (filter (\<lambda>y. ti_kind y = User_item) xs)"
  by (induction parse us xs rule: item_inputs.induct) (auto split: sum.split)

lemma read_user_input_sel: "read_user_input parse n y = Inr u \<Longrightarrow> ui_ordinal u = n \<and> ui_item u = ti_id y"
  by (auto simp: read_user_input_def split: json.splits option.splits if_splits)

lemma linked_open:
  assumes "linked parse (x # xs)" "\<And>y. y \<in> set (x # xs) \<Longrightarrow> \<not> closed_turn y"
  shows "follows parse x xs"
proof -
  have "takeWhile (\<lambda>x. \<not> closed_turn x) xs = xs" using assms(2) by (simp add: takeWhile_eq_all_conv)
  then show ?thesis using assms(1) by (simp only: linked.simps)
qed

text \<open>The inputs of linked open attempts are numbered without gaps.\<close>

lemma linked_inputs:
  "linked parse xs \<Longrightarrow> (\<And>x. x \<in> set xs \<Longrightarrow> \<not> closed_turn x) \<Longrightarrow> \<exists>us. attempt_user_inputs parse (rev xs) = Inr us \<and> map ui_ordinal us = map int [0..<length xs] \<and>
     map ui_item us = map ti_id (concat (map user_items (rev xs)))"
proof (induction xs)
  case (Cons x xs)
  then obtain us where us: "attempt_user_inputs parse (rev xs) = Inr us" "map ui_ordinal us = map int [0..<length xs]" "map ui_item us = map ti_id (concat (map user_items (rev xs)))" by auto
  obtain y u where u: "user_items x = [y]" "read_user_input parse (int (length xs)) y = Inr u" using linked_open[OF Cons.prems] by (auto simp: follows_def)
  have "length us = length xs" using arg_cong[OF us(2), of length] by simp
  then have "attempt_user_inputs parse (rev (x # xs)) = Inr (us @ [u])"
    using us(1) u by (simp add: attempt_user_inputs_def item_inputs_append item_inputs_filter[of parse us "tn_items x"] user_items_def[symmetric])
      (auto simp: user_items_def filter_eq_Cons_iff)
  then show ?case using us(2,3) u read_user_input_sel[OF u(2)] by (intro exI[of _ "us @ [u]"]) simp
qed (simp add: attempt_user_inputs_def)

lemma linked_ids:
  "linked parse xs \<Longrightarrow> (\<And>x. x \<in> set xs \<Longrightarrow> \<not> closed_turn x) \<Longrightarrow> x \<in> set xs \<Longrightarrow> interaction_id x = Inr (tn_id (last xs))"
proof (induction xs)
  case (Cons z xs)
  have "interaction_id z = Inr (tn_id (last (z # xs)))" using linked_open[OF Cons.prems(1,2)] by (simp add: follows_def)
  then show ?case using Cons by (cases "xs = []") auto
qed simp

lemma same_interaction_None: "(\<And>x. x \<in> set xs \<Longrightarrow> interaction_id x = Inr i) \<Longrightarrow> same_interaction i xs = None"
  by (induction xs) auto

text \<open>
  The life of one thread as the attempts see it: turns are begun while all others of the thread have ended, with a
  later time; anything else may happen to the store, but user items stay as they are and errors stay readable.
\<close>

definition flagged :: "bool \<Rightarrow> turn_request \<Rightarrow> turn_request" where
  "flagged rejected q = (if rejected then q\<lparr>rq_metadata := dict_set (rq_metadata q) ''interactionRejected'' (JBool True)\<rparr> else q)"

definition inputs_kept :: "string \<Rightarrow> turn_table \<Rightarrow> turn_table \<Rightarrow> bool" where
  "inputs_kept thread t t' \<longleftrightarrow> (\<forall>i x. read_turn i t = Inr (Some x) \<longrightarrow> tn_thread x = thread \<longrightarrow> (\<exists>y. read_turn i t' = Inr (Some y) \<and> user_items y = user_items x))"

inductive attempt_run :: "(string \<Rightarrow> int option) \<Rightarrow> (int \<Rightarrow> string) \<Rightarrow> string \<Rightarrow> turn_table \<Rightarrow> bool" for parse show_time thread where
  run_empty: "attempt_run parse show_time thread []"
| run_begin: "attempt_run parse show_time thread t \<Longrightarrow> validate_request_metadata q = None \<Longrightarrow> rq_thread q = thread \<Longrightarrow>
    \<not> truthy (json_field (rq_metadata q) ''continuedFromTurnId'') \<Longrightarrow> i \<noteq> [] \<Longrightarrow> item \<noteq> [] \<Longrightarrow>
    (\<And>r. r \<in> set (thread_turns thread t) \<Longrightarrow> is_terminal (tr_status r) \<and> turn_key r < (now, i)) \<Longrightarrow>
    open_interaction_attempts thread t = Inr prev \<Longrightarrow> attempt_user_inputs parse prev = Inr inputs \<Longrightarrow> effective_request q i prev inputs = Inr eff \<Longrightarrow>
    build_user_input parse (flagged rejected eff) (int (length inputs)) item clock = Inr u \<Longrightarrow>
    create_turn (attempt_record show_time (flagged rejected eff) i u now) t = (Inr r, t') \<Longrightarrow> attempt_run parse show_time thread t'"
| run_work: "attempt_run parse show_time thread t \<Longrightarrow> turn_cmd_ok c \<Longrightarrow> c \<noteq> Delete_turns thread \<Longrightarrow> (\<And>r. c = Create_turn r \<Longrightarrow> tn_thread r \<noteq> thread) \<Longrightarrow>
    inputs_kept thread t (turn_exec c t) \<Longrightarrow> attempt_run parse show_time thread (turn_exec c t)"

definition attempts_inv :: "(string \<Rightarrow> int option) \<Rightarrow> string \<Rightarrow> turn_table \<Rightarrow> record_table \<Rightarrow> turn_record list \<Rightarrow> bool" where
  "attempts_inv parse thread t a xs \<longleftrightarrow> encodes t a \<and> shapes a \<and> thread_turns thread t = map row_of xs \<and>
     (\<forall>x \<in> set xs. dict_get a (tn_id x) = Some x \<and> readable x \<and> tn_thread x = thread \<and> tn_id x \<noteq> []) \<and> linked parse xs \<and> (\<forall>x \<in> set (tl xs). is_terminal (tn_status x))"

lemma thread_turns_set:
  assumes "encodes t a"
  shows "r \<in> set (thread_turns thread t) \<longleftrightarrow> (\<exists>x. dict_get a (tn_id x) = Some x \<and> r = row_of x \<and> tn_thread x = thread)"
proof -
  have "r \<in> set (thread_turns thread t) \<longleftrightarrow> tr_thread r = thread \<and> (\<exists>i. dict_get t i = Some r)"
    unfolding dict_get_Some_iff[OF encodesD(1)[OF assms]] by (force simp: thread_turns_def)
  moreover have "(\<exists>i. dict_get t i = Some r) \<longleftrightarrow> (\<exists>x. dict_get a (tn_id x) = Some x \<and> r = row_of x)"
  proof
    assume "\<exists>i. dict_get t i = Some r"
    then obtain i where "map_option row_of (dict_get a i) = Some r" using encodesD(3)[OF assms] by metis
    then obtain x where "dict_get a i = Some x" "r = row_of x" by auto
    then show "\<exists>x. dict_get a (tn_id x) = Some x \<and> r = row_of x" using encodesD(4)[OF assms, of i x] by auto
  qed (use encodesD(3)[OF assms] in auto)
  ultimately show ?thesis by auto
qed

lemma sorted_by_key_unique:
  fixes f :: "'a \<Rightarrow> 'b :: linorder"
  shows "sorted_wrt (\<lambda>x y. f y < f x) xs \<Longrightarrow> sorted_wrt (\<lambda>x y. f y < f x) ys \<Longrightarrow> set xs = set ys \<Longrightarrow> xs = ys"
proof (induction xs arbitrary: ys)
  case (Cons x xs)
  then obtain y zs where ys: "ys = y # zs" by (cases ys) auto
  have "x = y"
  proof (rule ccontr)
    assume "x \<noteq> y"
    then have "x \<in> set zs" "y \<in> set xs" using Cons.prems(3) ys by auto
    then have "f x < f y" "f y < f x" using Cons.prems(1,2) ys by auto
    then show False by simp
  qed
  moreover have "x \<notin> set xs" "y \<notin> set zs" using Cons.prems(1,2) ys by auto
  moreover have "set xs = set zs" using Cons.prems(3) ys calculation by (metis insert_ident list.simps(15))
  ultimately show ?case using Cons.IH[of zs] Cons.prems ys by auto
qed simp

lemma thread_turns_eq:
  assumes "encodes t a" "sorted_wrt (\<lambda>x y. turn_key (row_of y) < turn_key (row_of x)) xs"
    and "\<And>x. x \<in> set xs \<longleftrightarrow> dict_get a (tn_id x) = Some x \<and> tn_thread x = thread"
  shows "thread_turns thread t = map row_of xs"
proof (rule sorted_by_key_unique[OF thread_turns_sorted[OF assms(1)]])
  show "sorted_wrt (\<lambda>x y. turn_key y < turn_key x) (map row_of xs)" using assms(2) by (simp add: sorted_wrt_map)
  show "set (thread_turns thread t) = set (map row_of xs)" using thread_turns_set[OF assms(1)] assms(3) by auto
qed

lemma attempts_set:
  assumes "attempts_inv parse thread t a xs"
  shows "x \<in> set xs \<longleftrightarrow> dict_get a (tn_id x) = Some x \<and> tn_thread x = thread"
proof
  assume "dict_get a (tn_id x) = Some x \<and> tn_thread x = thread"
  then have "row_of x \<in> set (map row_of xs)" using thread_turns_set[of t a "row_of x" thread] assms unfolding attempts_inv_def by metis
  then obtain y where "y \<in> set xs" "row_of y = row_of x" by auto
  moreover have "dict_get a (tn_id y) = Some y" "tn_id y = tn_id x" using assms calculation row_of_sel(1)[of x] row_of_sel(1)[of y] by (auto simp: attempts_inv_def)
  ultimately show "x \<in> set xs" using \<open>dict_get a (tn_id x) = Some x \<and> tn_thread x = thread\<close> by simp
qed (use assms in \<open>simp add: attempts_inv_def\<close>)

lemma read_turn_get:
  assumes "encodes t a" "dict_get a i = Some x"
  shows "read_turn i t = (if readable x then Inr (Some x) else Inl Turn_value)"
  using encodesD(3)[OF assms(1), of i] row_read_back[OF encodesD(5)[OF assms]] assms(2) by (simp add: read_turn_def)

lemma linked_cut:
  "linked parse (us @ late) \<Longrightarrow> (\<And>y. y \<in> set us \<Longrightarrow> \<not> closed_turn y) \<Longrightarrow> late = [] \<or> closed_turn (hd late) \<Longrightarrow> linked parse us"
proof (induction us)
  case (Cons x us)
  have "takeWhile (\<lambda>x. \<not> closed_turn x) late = []" using Cons.prems(3) by (cases late) auto
  then have "takeWhile (\<lambda>x. \<not> closed_turn x) (us @ late) = takeWhile (\<lambda>x. \<not> closed_turn x) us" using Cons.prems(2)
    by (simp add: takeWhile_append takeWhile_eq_all_conv[THEN iffD2])
  then show ?case using Cons by auto
qed simp

lemma attempts_open:
  assumes inv: "attempts_inv parse thread t a xs"
  shows "open_interaction_attempts thread t = Inr (rev (takeWhile (\<lambda>x. \<not> closed_turn x) xs))"
proof (cases xs)
  case Nil
  then have "thread_turns thread t = []" using inv by (simp add: attempts_inv_def)
  then have "list_turns thread 1 None t = Inr []" using list_turns_page(1)[of t a 1 thread] inv by (simp add: attempts_inv_def)
  then show ?thesis using Nil by (simp add: open_interaction_attempts_def)
next
  case (Cons x older)
  have e: "encodes t a" using inv by (simp add: attempts_inv_def)
  have x: "dict_get a (tn_id x) = Some x" "readable x" "linked parse (x # older)" using inv Cons by (simp_all add: attempts_inv_def)
  have "row_to_turn (row_of x) = Inr x" using row_read_back[OF encodesD(5)[OF e x(1)]] x(2) by simp
  then have page: "list_turns thread 1 None t = Inr [x]" using list_turns_page(1)[OF e, of 1 thread] inv Cons by (simp add: attempts_inv_def)
  have flag: "json_field (tn_metadata x) ''interactionRejected'' \<in> {JNull, JBool True}" using x(3) by (simp add: follows_def)
  show ?thesis
  proof (cases "closed_turn x")
    case True then show ?thesis using page flag Cons by (auto simp: open_interaction_attempts_def closed_turn_def rejected_turn_def split: json.split bool.split)
  next
    case False
    define rest where "rest = takeWhile (\<lambda>x. \<not> closed_turn x) older"
    define late where "late = dropWhile (\<lambda>x. \<not> closed_turn x) older"
    have parts: "older = rest @ late" by (simp add: rest_def late_def)
    have member: "read_turn (tn_id y) t = Inr (Some y) \<and> tn_thread y = thread \<and> tn_id y \<noteq> []" if "y \<in> set older" for y
      using that inv Cons read_turn_get[OF e] by (auto simp: attempts_inv_def)
    have "distinct (map row_of xs)"
    proof -
      have "sorted_wrt (\<lambda>x y. turn_key y < turn_key x) rs \<Longrightarrow> distinct rs" for rs by (induction rs) auto
      then show ?thesis using thread_turns_sorted[OF e, of thread] inv by (simp add: attempts_inv_def)
    qed
    then have "distinct xs" by (simp add: distinct_map)
    moreover have "inj_on tn_id (set xs)" using inv by (intro inj_onI) (metis attempts_inv_def option.inject)
    ultimately have "distinct (map tn_id xs)" by (simp add: distinct_map)
    then have ids: "distinct (map tn_id (x # rest))" using Cons parts by simp
    have "predecessors t thread [x] [tn_id x] = Inr ([x] @ rest)"
    proof (rule predecessors_open[where older = late and parse = parse])
      show "linked parse ([x] @ rest @ late)" using x(3) parts by simp
      show "\<not> closed_turn y" if "y \<in> set ([x] @ rest)" for y using that False set_takeWhileD[of y "\<lambda>x. \<not> closed_turn x" older] by (auto simp: rest_def)
      show "late = [] \<or> closed_turn (hd late)" using hd_dropWhile[of "\<lambda>x. \<not> closed_turn x" older] by (auto simp: late_def)
    qed (use member parts ids in auto)
    moreover have "x # rest = takeWhile (\<lambda>x. \<not> closed_turn x) xs" using Cons False by (simp add: rest_def)
    moreover have "interaction_id y = Inr (tn_id (last (x # rest)))" if "y \<in> set (x # rest)" for y
    proof (rule linked_ids[OF _ _ that])
      show "linked parse (x # rest)"
      proof (rule linked_cut[of parse "x # rest" late])
        show "linked parse ((x # rest) @ late)" using x(3) parts by simp
        show "\<not> closed_turn y" if "y \<in> set (x # rest)" for y using that False set_takeWhileD[of y "\<lambda>x. \<not> closed_turn x" older] by (auto simp: rest_def)
        show "late = [] \<or> closed_turn (hd late)" using hd_dropWhile[of "\<lambda>x. \<not> closed_turn x" older] by (auto simp: late_def)
      qed
      show "\<not> closed_turn y" if "y \<in> set (x # rest)" for y using that False set_takeWhileD[of y "\<lambda>x. \<not> closed_turn x" older] by (auto simp: rest_def)
    qed
    ultimately have facts: "predecessors t thread [x] [tn_id x] = Inr (x # rest)" "x # rest = takeWhile (\<lambda>x. \<not> closed_turn x) xs"
      "\<And>y. y \<in> set (x # rest) \<Longrightarrow> interaction_id y = Inr (tn_id (last (x # rest)))" by simp_all
    have "same_interaction (tn_id (last (x # rest))) (rev (x # rest)) = None" by (rule same_interaction_None) (use facts(3) in simp)
    moreover have "tn_status x \<noteq> Turn_completed" "json_field (tn_metadata x) ''interactionRejected'' = JNull"
      using False flag by (auto simp: closed_turn_def rejected_turn_def)
    ultimately show ?thesis using page facts(1) facts(3)[of x] unfolding facts(2)[symmetric] by (simp add: open_interaction_attempts_def)
  qed
qed

lemma string_list_strings [simp]: "string_list (JList (map JStr xs)) = Some xs"
  by (simp add: string_list_def is_str_def the_str_def list_all_iff comp_def)

lemma user_item_read:
  assumes "\<And>tm. parse (show_time tm) = Some tm"
  shows "read_user_input parse (ui_ordinal u) (user_input_item show_time u) = Inr u"
  using assms by (simp add: read_user_input_def user_input_item_def json_field_def json_get_def dict_get_def)

lemma build_user_input_sel: "build_user_input parse q n item now = Inr u \<Longrightarrow> ui_item u = item \<and> ui_ordinal u = n"
  by (auto simp: build_user_input_def split: option.splits json.splits if_splits)

lemma effective_follows:
  assumes eff: "effective_request q i (rev xs) inputs = Inr eff" "length inputs = length xs" and q: "validate_request_metadata q = None" "\<not> truthy (json_field (rq_metadata q) ''continuedFromTurnId'')" "i \<noteq> []"
    and xs: "linked parse xs" "\<And>x. x \<in> set xs \<Longrightarrow> \<not> closed_turn x \<and> tn_id x \<noteq> []"
    and u: "build_user_input parse (flagged rejected eff) (int (length inputs)) item clock = Inr u" and law: "\<And>tm. parse (show_time tm) = Some tm"
  shows "follows parse (attempt_record show_time (flagged rejected eff) i u now) xs" "rq_thread (flagged rejected eff) = rq_thread q"
proof -
  define ia where "ia = (if xs = [] then i else tn_id (last xs))"
  have last: "rev xs \<noteq> [] \<Longrightarrow> interaction_id (last (rev xs)) = Inr (tn_id (last xs))" using linked_ids[OF xs(1)] xs(2) by (cases xs) auto
  have ia: "ia \<noteq> []" using q(3) xs(2)[of "last xs"] by (simp add: ia_def)
  define m where "m = dict_set (dict_set (dict_set (rq_metadata q) ''interactionId'' (JStr ia)) ''attemptOrdinal'' (JInt (int (length xs)))) ''priorInputCount'' (JInt (int (length inputs)))"
  have "eff = q\<lparr>rq_metadata := (if xs = [] then m else dict_set m ''continuedFromTurnId'' (JStr (tn_id (hd xs))))\<rparr>"
    using eff(1) last by (cases xs) (auto simp: effective_request_def m_def ia_def Let_def split: if_splits)
  then have e: "rq_metadata eff = (if xs = [] then m else dict_set m ''continuedFromTurnId'' (JStr (tn_id (hd xs))))" "rq_thread eff = rq_thread q" by simp_all
  have no_flag: "dict_get (rq_metadata q) ''interactionRejected'' = None" using q(1) by (simp add: validate_request_metadata_def split: if_splits)
  show "rq_thread (flagged rejected eff) = rq_thread q" using e(2) by (simp add: flagged_def)
  let ?meta = "rq_metadata (flagged rejected eff)"
  have meta: "dict_get ?meta ''interactionId'' = Some (JStr ia)" "json_field ?meta ''interactionRejected'' = (if rejected then JBool True else JNull)"
    "xs = [] \<Longrightarrow> json_field ?meta ''continuedFromTurnId'' = json_field (rq_metadata q) ''continuedFromTurnId''"
    "xs \<noteq> [] \<Longrightarrow> json_field ?meta ''continuedFromTurnId'' = JStr (tn_id (hd xs))"
    using e(1) no_flag by (simp_all add: flagged_def m_def json_field_def)
  have "read_user_input parse (int (length xs)) (user_input_item show_time u) = Inr u"
    using user_item_read[OF law, of u] build_user_input_sel[OF u] eff(2) by simp
  then show "follows parse (attempt_record show_time (flagged rejected eff) i u now) xs"
    using meta q(2) ia by (auto simp: follows_def attempt_record_def interaction_id_def json_get_def user_items_def user_input_item_def ia_def)
qed

lemma attempts_begin:
  assumes inv: "attempts_inv parse thread t a xs" and new: "turn_key (row_of y) = (now, tn_id y)" "tn_thread y = thread" "tn_id y \<noteq> []" "readable y" "turn_cmd_ok (Create_turn y)"
    and old: "\<And>r. r \<in> set (thread_turns thread t) \<Longrightarrow> is_terminal (tr_status r) \<and> turn_key r < (now, tn_id y)"
    and f: "follows parse y (takeWhile (\<lambda>x. \<not> closed_turn x) xs)" and c: "create_turn y t = (Inr r, t')"
  shows "attempts_inv parse thread t' (record_exec (Create_turn y) a) (y # xs)"
proof -
  let ?a = "record_exec (Create_turn y) a"
  have e: "encodes t a" "shapes a" using inv by (simp_all add: attempts_inv_def)
  have t': "t' = turn_exec (Create_turn y) t" using c by (simp add: turn_exec_def)
  have e': "encodes t' ?a" "shapes ?a" unfolding t' by (rule encodes_exec[OF e(1) new(5)], rule record_exec_shapes[OF e(1) new(5) e(2)])
  have "dict_get t (tn_id y) = None" "fresh_turn y" using c by (auto simp: create_turn_def fresh_turn_def split: if_splits)
  then have a': "?a = dict_set a (tn_id y) y" "dict_get a (tn_id y) = None" using encodesD(3)[OF e(1), of "tn_id y"] by (auto simp: record_exec_def)
  have "row_of x \<in> set (thread_turns thread t)" if "x \<in> set xs" for x using that inv by (simp add: attempts_inv_def)
  then have older: "is_terminal (tn_status x) \<and> turn_key (row_of x) < turn_key (row_of y)" if "x \<in> set xs" for x using old[of "row_of x"] that new(1) by simp
  have "thread_turns thread t' = map row_of (y # xs)"
  proof (rule thread_turns_eq[OF e'(1)])
    have "sorted_wrt (\<lambda>x y. turn_key y < turn_key x) (map row_of xs)" using thread_turns_sorted[OF e(1), of thread] inv by (simp add: attempts_inv_def)
    then show "sorted_wrt (\<lambda>x y. turn_key (row_of y) < turn_key (row_of x)) (y # xs)" using older by (simp add: sorted_wrt_map)
    show "x \<in> set (y # xs) \<longleftrightarrow> dict_get ?a (tn_id x) = Some x \<and> tn_thread x = thread" for x
      using attempts_set[OF inv, of x] a' new(2) by auto
  qed
  moreover have "\<forall>x \<in> set (y # xs). dict_get ?a (tn_id x) = Some x \<and> readable x \<and> tn_thread x = thread \<and> tn_id x \<noteq> []"
    using inv a' new by (auto simp: attempts_inv_def)
  ultimately show ?thesis using e' f older inv by (simp add: attempts_inv_def)
qed

lemma record_exec_known:
  assumes "dict_get (record_exec c a) i = Some y" "dict_get a i = None" "dict_ok a"
  shows "c = Create_turn y"
proof -
  have f: "(\<lambda>(i, r). tn_thread r \<noteq> thread) = (\<lambda>kr. tn_thread (snd kr) \<noteq> thread)" for thread by auto
  show ?thesis using assms
    by (cases c) (auto simp: record_exec_def change_record_get dict_get_map_values f dict_get_filter split: if_splits)
qed

lemma linked_cong:
  assumes "linked parse xs" "\<And>x. x \<in> set xs \<Longrightarrow> tn_id (g x) = tn_id x \<and> tn_metadata (g x) = tn_metadata x \<and> user_items (g x) = user_items x"
    "\<And>x. x \<in> set (tl xs) \<Longrightarrow> g x = x"
  shows "linked parse (map g xs)"
proof (cases xs)
  case (Cons x older)
  have "map g older = older" using assms(3) Cons by (simp add: map_idI)
  moreover have "interaction_id (g x) = interaction_id x" using assms(2)[of x] Cons by (simp add: interaction_id_def)
  then have "follows parse (g x) ys = follows parse x ys" for ys using assms(2)[of x] Cons by (simp add: follows_def)
  ultimately show ?thesis using assms(1) Cons by simp
qed simp

lemma attempts_work:
  assumes inv: "attempts_inv parse thread t a xs" and c: "turn_cmd_ok c" "c \<noteq> Delete_turns thread" "\<And>r. c = Create_turn r \<Longrightarrow> tn_thread r \<noteq> thread"
    and kept: "inputs_kept thread t (turn_exec c t)"
  shows "\<exists>ys. attempts_inv parse thread (turn_exec c t) (record_exec c a) ys"
proof -
  let ?a = "record_exec c a"
  have e: "encodes t a" "shapes a" using inv by (simp_all add: attempts_inv_def)
  have e': "encodes (turn_exec c t) ?a" "shapes ?a" by (rule encodes_exec[OF e(1) c(1)], rule record_exec_shapes[OF e(1) c(1) e(2)])
  define g where "g x = the (dict_get ?a (tn_id x))" for x :: turn_record
  have g: "dict_get ?a (tn_id x) = Some (g x) \<and> evolves x (g x) \<and> readable (g x) \<and> user_items (g x) = user_items x" if "x \<in> set xs" for x
  proof -
    have x: "dict_get a (tn_id x) = Some x" "readable x" "tn_thread x = thread" using that inv by (simp_all add: attempts_inv_def)
    have "turn_shape x" using e(2) x(1) by (simp add: shapes_def)
    then obtain y where y: "dict_get ?a (tn_id x) = Some y" "evolves x y"
      using record_exec_evolves[OF x(1) _ _ encodesD(2)[OF e(1)] refl, of c] c(2) x(3) by auto
    have "read_turn (tn_id x) t = Inr (Some x)" using read_turn_get[OF e(1) x(1)] x(2) by simp
    then obtain z where "read_turn (tn_id x) (turn_exec c t) = Inr (Some z)" "user_items z = user_items x" using kept x(3) unfolding inputs_kept_def by blast
    then show ?thesis using read_turn_get[OF e'(1) y(1)] y by (auto simp: g_def split: if_splits)
  qed
  then have ev: "tn_id (g x) = tn_id x" "tn_thread (g x) = tn_thread x" "tn_metadata (g x) = tn_metadata x" "tn_created (g x) = tn_created x"
    "is_terminal (tn_status x) \<Longrightarrow> g x = x" if "x \<in> set xs" for x using that by (auto simp: evolves_def)
  have "thread_turns thread (turn_exec c t) = map row_of (map g xs)"
  proof (rule thread_turns_eq[OF e'(1)])
    have s: "sorted_wrt (\<lambda>x y. turn_key (row_of y) < turn_key (row_of x)) xs" using thread_turns_sorted[OF e(1), of thread] inv by (simp add: attempts_inv_def sorted_wrt_map)
    have k: "turn_key (row_of (g x)) = turn_key (row_of x)" if "x \<in> set xs" for x using ev[OF that] by (simp add: turn_key_def)
    show "sorted_wrt (\<lambda>x y. turn_key (row_of y) < turn_key (row_of x)) (map g xs)"
      unfolding sorted_wrt_map by (rule sorted_wrt_mono_rel[OF _ s]) (simp add: k)
    show "y \<in> set (map g xs) \<longleftrightarrow> dict_get ?a (tn_id y) = Some y \<and> tn_thread y = thread" for y
    proof
      assume "y \<in> set (map g xs)"
      then show "dict_get ?a (tn_id y) = Some y \<and> tn_thread y = thread" using g ev inv by (auto simp: attempts_inv_def)
    next
      assume y: "dict_get ?a (tn_id y) = Some y \<and> tn_thread y = thread"
      show "y \<in> set (map g xs)"
      proof (cases "dict_get a (tn_id y)")
        case None then show ?thesis using record_exec_known[of c a "tn_id y" y] y c(3) encodesD(2)[OF e(1)] by auto
      next
        case (Some x)
        have id: "tn_id x = tn_id y" using encodesD(4)[OF e(1) Some] .
        have "turn_shape x" using e(2) Some by (simp add: shapes_def)
        then have "evolves x y \<or> c = Delete_turns (tn_thread x)"
          using record_exec_evolves[OF Some _ _ encodesD(2)[OF e(1)] id, of c] y by auto
        moreover have "c \<noteq> Delete_turns (tn_thread x)" if "tn_thread x \<noteq> thread"
        proof
          assume d: "c = Delete_turns (tn_thread x)"
          have f: "(\<lambda>(i, r). tn_thread r \<noteq> th) = (\<lambda>kr. tn_thread (snd kr) \<noteq> th)" for th by auto
          show False using y Some d encodesD(2)[OF e(1)] by (auto simp: record_exec_def f dict_get_filter split: if_splits)
        qed
        ultimately have "tn_thread x = thread" using y c(2) by (auto simp: evolves_def)
        then have "x \<in> set xs" using attempts_set[OF inv, of x] Some id by simp
        then show ?thesis using g[of x] id y by auto
      qed
    qed
  qed
  moreover have "g x = x" if "x \<in> set (tl xs)" for x using that ev(5)[of x] inv by (cases xs) (auto simp: attempts_inv_def)
  then have "linked parse (map g xs)" by (intro linked_cong) (use inv ev g in \<open>auto simp: attempts_inv_def\<close>)
  moreover have "\<forall>y \<in> set (tl (map g xs)). is_terminal (tn_status y)"
    using inv ev(5) list.set_sel(2)[of xs] by (cases xs) (auto simp: attempts_inv_def)
  moreover have "\<forall>y \<in> set (map g xs). dict_get ?a (tn_id y) = Some y \<and> readable y \<and> tn_thread y = thread \<and> tn_id y \<noteq> []"
    using g ev inv by (auto simp: attempts_inv_def)
  ultimately show ?thesis using e' unfolding attempts_inv_def by blast
qed

lemma attempts_reached:
  assumes law: "\<And>tm. parse (show_time tm) = Some tm" and run: "attempt_run parse show_time thread t"
  shows "\<exists>a xs. attempts_inv parse thread t a xs"
  using run
proof (induction rule: attempt_run.induct)
  case run_empty
  have "thread_turns thread [] = []" by (simp add: thread_turns_def)
  then show ?case by (intro exI[of _ "[]"]) (simp add: attempts_inv_def)
next
  case (run_begin t q i item now prev inputs eff rejected clock u r t')
  obtain a xs where inv: "attempts_inv parse thread t a xs" using run_begin.IH by blast
  define ys where "ys = takeWhile (\<lambda>x. \<not> closed_turn x) xs"
  have prev: "prev = rev ys" using attempts_open[OF inv] run_begin.hyps(8) by (simp add: ys_def)
  have linked: "linked parse xs" using inv by (simp add: attempts_inv_def)
  have ys: "linked parse ys" "\<And>x. x \<in> set ys \<Longrightarrow> \<not> closed_turn x \<and> tn_id x \<noteq> []"
  proof -
    have "hd (dropWhile (\<lambda>x. \<not> closed_turn x) xs) = x \<Longrightarrow> dropWhile (\<lambda>x. \<not> closed_turn x) xs \<noteq> [] \<Longrightarrow> closed_turn x" for x
      using hd_dropWhile[of "\<lambda>x. \<not> closed_turn x" xs] by auto
    then show "linked parse ys" using linked_cut[of parse ys "dropWhile (\<lambda>x. \<not> closed_turn x) xs"] linked set_takeWhileD[of _ "\<lambda>x. \<not> closed_turn x" xs]
      unfolding ys_def by (metis takeWhile_dropWhile_id)
    show "\<not> closed_turn x \<and> tn_id x \<noteq> []" if "x \<in> set ys" for x
      using set_takeWhileD[of x "\<lambda>x. \<not> closed_turn x" xs] that inv by (auto simp: ys_def attempts_inv_def)
  qed
  obtain us where us: "attempt_user_inputs parse (rev ys) = Inr us" "map ui_ordinal us = map int [0..<length ys]" using linked_inputs[OF ys(1)] ys(2) by blast
  have len: "length inputs = length ys" using us run_begin.hyps(9) prev arg_cong[OF us(2), of length] by simp
  let ?y = "attempt_record show_time (flagged rejected eff) i u now"
  have y: "follows parse ?y ys" "rq_thread (flagged rejected eff) = thread"
    using effective_follows[OF _ len run_begin.hyps(2,4,5) ys run_begin.hyps(11) law] run_begin.hyps(3,10) prev by simp_all
  have "turn_cmd_ok (Create_turn ?y)" using build_user_input_sel[OF run_begin.hyps(11)] run_begin.hyps(6)
    by (simp add: turn_cmd_ok_def record_ok_def attempt_record_def user_input_item_def item_ok_def)
  then have "attempts_inv parse thread t' (record_exec (Create_turn ?y) a) (?y # xs)"
    by (intro attempts_begin[OF inv, of ?y now]) (use y run_begin.hyps(5,7,12) in \<open>simp_all add: turn_key_def attempt_record_def readable_def ys_def\<close>)
  then show ?case by blast
next
  case (run_work t c)
  then show ?case using attempts_work by blast
qed

text \<open>
  The open interaction is found exactly.  However a thread got into its state, the next start of a turn finds
  as earlier attempts exactly the turns since the last completed or rejected one, in order, and reads their user
  inputs in order, numbered from zero; all of them carry the id of the first as their interaction.
\<close>

theorem attempts_recovered:
  assumes "\<And>tm. parse (show_time tm) = Some tm" "attempt_run parse show_time thread t"
  shows "\<exists>xs us. map row_of xs = thread_turns thread t \<and>
    (let open_turns = rev (takeWhile (\<lambda>x. \<not> closed_turn x) xs) in
       open_interaction_attempts thread t = Inr open_turns \<and> attempt_user_inputs parse open_turns = Inr us \<and>
       map ui_ordinal us = map int [0..<length open_turns] \<and> map ui_item us = map ti_id (concat (map user_items open_turns)) \<and>
       (\<forall>x \<in> set open_turns. interaction_id x = Inr (tn_id (hd open_turns))))"
proof -
  obtain a xs where inv: "attempts_inv parse thread t a xs" using attempts_reached[OF assms] by blast
  define ys where "ys = takeWhile (\<lambda>x. \<not> closed_turn x) xs"
  have op: "\<not> closed_turn x" if "x \<in> set ys" for x using set_takeWhileD[of x "\<lambda>x. \<not> closed_turn x" xs] that by (simp add: ys_def)
  have late: "dropWhile (\<lambda>x. \<not> closed_turn x) xs = [] \<or> closed_turn (hd (dropWhile (\<lambda>x. \<not> closed_turn x) xs))"
    using hd_dropWhile[of "\<lambda>x. \<not> closed_turn x" xs] by blast
  have "linked parse (ys @ dropWhile (\<lambda>x. \<not> closed_turn x) xs)" using inv by (simp add: attempts_inv_def ys_def)
  from linked_cut[OF this op late] have ys: "linked parse ys" .
  obtain us where "attempt_user_inputs parse (rev ys) = Inr us" "map ui_ordinal us = map int [0..<length ys]" "map ui_item us = map ti_id (concat (map user_items (rev ys)))"
    using linked_inputs[OF ys op] by blast
  moreover have "interaction_id x = Inr (tn_id (hd (rev ys)))" if "x \<in> set ys" for x using linked_ids[OF ys op that] by (simp add: hd_rev)
  ultimately show ?thesis using attempts_open[OF inv] inv
    by (intro exI[of _ xs] exI[of _ us]) (simp add: ys_def[symmetric] attempts_inv_def Let_def)
qed

text \<open>
  A forged predecessor blocks a thread.  If the newest turn of a thread is readable, was neither completed nor
  rejected, and its metadata name as the turn it continues one that does not exist, no turn can be started on the
  thread: the preparation of every request raises.
\<close>

theorem forged_predecessor_blocks:
  assumes "list_all turn_cmd_ok cs" "t = fold turn_exec cs []" "thread_turns (rq_thread q) t = row_of x # older"
    and "read_turn (tn_id x) t = Inr (Some x)" "tn_status x \<noteq> Turn_completed" "json_field (tn_metadata x) ''interactionRejected'' = JNull"
    and "json_field (tn_metadata x) ''continuedFromTurnId'' = JStr p" "p \<noteq> []" "read_turn p t = Inr None"
  shows "prepare_attempt parse dumps q i t = Inl Attempt_runtime"
proof -
  have e: "encodes t (fold record_exec cs [])" unfolding assms(2) by (rule encodes_run[OF encodes_empty assms(1)])
  have "dict_get (fold record_exec cs []) (tn_id x) \<noteq> None"
    using assms(4) encodesD(3)[OF e, of "tn_id x"] by (cases "dict_get (fold record_exec cs []) (tn_id x)") (simp_all add: read_turn_def)
  then obtain y where y: "dict_get (fold record_exec cs []) (tn_id x) = Some y" by blast
  then have "row_to_turn (row_of x) = Inr x"
    using read_turn_get[OF e y] assms(4) row_read_back[OF encodesD(5)[OF e y]] by (simp split: if_splits)
  then have "list_turns (rq_thread q) 1 None t = Inr [x]" using list_turns_page(1)[OF e, of 1 "rq_thread q"] assms(3) by simp
  moreover have "predecessors t (rq_thread q) [x] [tn_id x] = Inl Attempt_runtime"
    using assms(7-9) by (subst predecessors.simps) (simp add: truthy_def Let_def)
  ultimately show ?thesis using assms(5,6) by (simp add: prepare_attempt_def open_interaction_attempts_def)
qed

subsection \<open>A concrete interaction\<close>

definition demo_iso_parse :: "string \<Rightarrow> int option" where
  "demo_iso_parse s = Some (int (length s))"

definition demo_time :: "int \<Rightarrow> string" where
  "demo_time n = replicate (nat n) (CHR ''t'')"

definition demo_request :: "(string, json) dict \<Rightarrow> turn_request" where
  "demo_request m = \<lparr>rq_thread = ''p'', rq_input = ''hello'', rq_metadata = m\<rparr>"

definition demo_begun :: "(string, json) dict \<Rightarrow> turn_table" where
  "demo_begun m = (case prepare_attempt demo_iso_parse (\<lambda>j. []) (demo_request m) ''t'' [] of
     Inl f \<Rightarrow> [] | Inr p \<Rightarrow> snd (create_attempt demo_iso_parse demo_time p ''t'' ''i'' 1 []))"

text \<open>A client that sends \<open>continuedFromTurnId\<close> itself with the first turn of a thread blocks the thread.\<close>

lemma forged_predecessor_example:
  "prepare_attempt demo_iso_parse (\<lambda>j. []) (demo_request []) ''u'' (demo_begun [(''continuedFromTurnId'', JStr ''x'')]) = Inl Attempt_runtime"
  by code_simp

lemma plain_start_example:
  "map tn_id (case open_interaction_attempts ''p'' (demo_begun []) of Inl f \<Rightarrow> [] | Inr xs \<Rightarrow> xs) = [''t'']"
  by code_simp

end
