(* ===== verification/Spec2Isabelle.thy ===== *)
theory Spec2Isabelle
  imports Phase_Graph Chat_Lane Scheduler Notes_Broker Message_Bus Outbound Restart Reload_Journal Snapshot_Store
    Plugin_Rollout Shell_Output Mobile_Delivery Mobile_Commands Mobile_Pairing Mobile_Uploads Mobile_Media Turn_Store Control_Replay Control_Attempts
begin

text \<open>
  Verification library for Roxy Agent, a single-user agent runtime in Python (asyncio).

  The program.  Channels (Telegram, mobile, web) put messages on a message bus
  (src/bus/queue.py); a loop takes them, runs a pipeline of lifecycle phases
  (src/agent/lifecycle/phase.py) around a language model, and publishes the answers on the bus,
  whose dispatcher sends them under a per-chat lane so that answers go before proactive messages.
  A scheduler (src/agent/scheduler.py) starts jobs that push messages on their own.  A supervisor
  process (src/agent/supervisor.py) owns the runtime, which asks it for restarts over a private
  pipe (src/agent/restart.py).  Plugins are reloaded in journalled transactions
  (src/agent/plugins/reload_journal.py), and notes are written on a Mac through a signed
  propose/commit exchange (src/infra/notes_bridge/broker.py).

  Theories, in import order.

  \<^item> \<open>Roxy_Prelude\<close>: Python dictionaries as association lists (locale \<open>keyed_store\<close>,
    interpreted on them), \<open>strip\<close>, JSON documents, list lemmas.
  \<^item> \<open>Phase_Graph\<close>: src/agent/lifecycle/phase.py.  Phase modules as records; the topological order
    (\<open>topo_sort_modules\<close>), the disabling of modules with missing dependencies, the start-up check
    and the run.  Lemmas: the order is sound, complete on active modules, deterministic, and fails
    exactly on cycles; a phase that starts has its requirements met.
  \<^item> \<open>Chat_Lane\<close>: class \<open>ChatLane\<close> of src/bus/queue.py.  One record per chat with the code's
    counters and tickets; calls are clients with a program counter per await.  Lemmas: mutual
    exclusion, passive before proactive, ticket order, balanced counts, reclaiming, progress.
  \<^item> \<open>Schedule_Time\<close>: the arithmetic of src/agent/scheduler.py (durations, wall-clock times, cron
    fields, next firing time).  Instants are integer microseconds; the zone database, ISO parsing
    and the cron trigger are parameters.
  \<^item> \<open>Scheduler\<close>: jobs, their JSON file, the service with its background tasks and the tools of
    src/agent/tools/schedule.py.  Jobs are objects in a heap, tasks have one program counter per
    await.  Lemmas: the file is always the persisted state, one task per job, capacity, exact
    rescheduling, recovery, the round trip of the file.
  \<^item> \<open>Notes_Broker\<close>: src/infra/notes_bridge.  Handshake, signed frames, the calls of
    \<open>execute\<close> with their ledger rows, crash recovery.  Locale \<open>audit_ledger\<close>, interpreted on the
    ledger.  Lemmas: commit only after acceptance, at most once, crash recovery keeps the commit
    boundary, no replay.
  \<^item> \<open>Handoff_Store\<close>: the handoff table of src/session/store.py; locale \<open>durable_inbound\<close> states the
    protocol \<open>DurableInboundStore\<close> of the bus and is interpreted on the table; the table refines two maps.
  \<^item> \<open>Message_Bus\<close>: the inbound half of class \<open>MessageBus\<close>.  Messages are objects in a heap, the
    durable lock has one constructor per await inside it.  Lemmas: one owner per handoff, no stored
    message is lost, recovery rebuilds what was stored.
  \<^item> \<open>Outbound\<close>: the outbound half of \<open>MessageBus\<close>: subscriptions, the retry and fallback of a send,
    the dispatcher, receipts, draining.  Lemmas: what a send result says of the callbacks, every
    receipt is accounted for, a receipt is true only for a delivered message.
  \<^item> \<open>Lifecycle_Pipe\<close>: the frames of \<open>SupervisorCommitChannel\<close> and the reader \<open>_LifecycleState\<close>.
    The reader's loop is a total function (each frame shortens the buffer).  Lemmas: chunking does
    not matter, reader states are well-formed, what is written is understood.
  \<^item> \<open>Restart\<close>: class \<open>RestartCoordinator\<close> with its calls recorded in a log.  Lemmas: commit only
    after completion and delivery, at most once; admission is frozen exactly while a request is
    pending and always thawed otherwise.
  \<^item> \<open>Reload_Journal\<close>: the two tables of the plugin reload journal as lists, the phase machine, and
    the start-up recovery of src/agent/plugins/manager.py over it.  Lemmas: the events explain the
    rows, transactions end after at most eight phase changes, recovery settles everything or stops
    on a ground that is listed.
  \<^item> \<open>Snapshot_Store\<close>: classes \<open>RuntimeSnapshotStore\<close> and \<open>RuntimeSnapshotLease\<close> of
    src/agent/plugins/snapshot.py.  Snapshots are objects in a heap, a lease is an object, a running
    clean-up an entry of the store.  Lemmas: lease counts are exact, a leased snapshot is kept.
  \<^item> \<open>Plugin_Rollout\<close>: class \<open>TurnPluginRollout\<close> of src/agent/plugins/turn_rollout.py with the
    capability parts of src/agent/control/service.py and context.py.  Manager calls are events of
    a log; the resolution task has one program counter per await.  Lemmas: only a candidate that a
    bound child turn used is switched in, capabilities are used once, resolutions settle.
  \<^item> \<open>Shell_Output\<close>: src/agent/tools/unified_exec.py.  The head and tail buffer of a process's output,
    the collecting and limiting of output, and the table of executions with its owners.  Lemmas: the
    shown output depends on the stream only, pruning takes the right execution, capacity.
  \<^item> \<open>Mobile_Store\<close>: src/infra/mobile_realtime/storage.py and inbox.py.  The tables of pairing
    sessions, devices, cursors and the durable inbox with their transactions; the inbox of a device
    refines a numbered log.  Lemmas: no gaps for live devices, no event is lost.
  \<^item> \<open>Mobile_Delivery\<close>: the delivery of src/infra/mobile_realtime/gateway.py.  Resume plans, connections
    with a resume task and a draining task, the queue.  Locale \<open>numbered_log\<close>, interpreted on the store.
    Lemmas: resumes and live delivery skip nothing.
  \<^item> \<open>Mobile_Commands\<close>: the command receipts of storage.py and \<open>handle_command\<close> of
    src/infra/mobile_realtime/channel.py with its recovery.  Lemmas: a command is executed once and its
    answer is stable, receipts stay within their capacity.
  \<^item> \<open>Canonical_Text\<close>: the canonical JSON of signed texts and the Base64 of tickets
    (src/infra/mobile_realtime/signed_ticket.py).  Lemmas: quoted texts are self-delimiting, the strict
    decoder accepts exactly the encodings.
  \<^item> \<open>Mobile_Pairing\<close>: src/infra/mobile_realtime/pairing.py and auth.py.  Offers, claims and approvals
    with one step per lock or transaction, challenges and proofs; a trace with the newest event first.
    Lemmas: each event of the trace is justified by earlier ones.
  \<^item> \<open>Mobile_Uploads\<close>: src/infra/mobile_realtime/attachments.py with the table of attachments.  Uploads
    with their files, failed writes, crashes and lost file ends.  Lemmas: an upload holds exactly the
    confirmed bytes, and an interrupted upload can be completed.
  \<^item> \<open>Mobile_Media\<close>: outbound attachments of attachments.py, storage.py and gateway.py.  Batches of
    snapshots with one step per file, registration, events with attachments, downloads, chunk frames; the
    uploads run in between.  Lemmas: content is stored once, no file is left over, commits are atomic.
  \<^item> \<open>Turn_Store\<close>: the turns of a thread, from models.py and store.py.  Records with their JSON documents,
    rows, and the methods of the store as steps.  Lemmas: every method refines one on a map of records, a turn moves only
    forward, recovery closes every turn, pages are complete, and what an error without a message does.
  \<^item> \<open>Control_Replay\<close>: the event streams of the control runtime (runtime.py).  The stored events of each
    turn with the global index, trimming and expiry, subscriptions and their queues.  Lemmas: the index is
    exact and within its limits, resumed streams are complete, and the gap after an oversized event.
  \<^item> \<open>Control_Attempts\<close>: how runtime.py continues an interrupted or failed turn, and replay_format.py.  The walk
    over the earlier attempts, what they hand on, the next request and its record.  Lemmas: the open attempts
    are found exactly, replayed messages split at the tool calls, and a forged predecessor blocks a thread.

  How the theories fit together.  Message_Bus uses the table of Handoff_Store through its locale,
  and counts the passive turns that Chat_Lane orders; Outbound counts the pending sends of the
  same lane.  Restart produces the request ids that Lifecycle_Pipe commits.  Scheduler uses the
  arithmetic of Schedule_Time.  Mobile_Delivery uses the inbox of Mobile_Store through the locale
  \<open>numbered_log\<close>, and Mobile_Commands keeps its receipts beside that store's tables.  Mobile_Media runs the
  uploads of Mobile_Uploads between its steps and puts its events into the inbox of Mobile_Store.
  Control_Replay reads the turns of Turn_Store when a client subscribes, and Control_Attempts reads and
  creates turns there.

  Conventions.  Python integers are \<open>int\<close>; text is a list of characters (code points below 256;
  a text with others is given by its UTF-8 bytes).  Exceptions are \<open>Inl\<close> or \<open>None\<close> branches.
  Concurrency is interleaving at awaits: each command of a step function (\<open>lane_exec\<close>,
  \<open>sched_exec\<close>, \<open>nb_exec\<close>, \<open>bus_exec\<close>, \<open>ob_exec\<close>, \<open>restart_exec\<close>, \<open>journal_exec\<close>, \<open>snap_exec\<close>,
  \<open>rollout_exec\<close>, \<open>shell_step\<close>, \<open>mobile_exec\<close>, \<open>gw_exec\<close>, \<open>host_exec\<close>, \<open>pair_exec\<close>,
  \<open>upload_exec\<close>, \<open>media_exec\<close>, \<open>turn_exec\<close>, \<open>replay_exec\<close>) is the code
  between two awaits, and the invariants hold in every state that any sequence of commands
  reaches.  Clocks, fresh identifiers, file outcomes and the answers of callbacks are inputs of
  the commands.  Every function is total; no fuel is used.

  Not modelled.  Language model calls and their prompts, the memory engines (embedding search and
  floating-point ranking), the adapters of chat services, process and file system tools, SQL
  schemas beyond the tables above, configuration, migrations and the user interfaces; logging;
  exhaustion of memory or recursion.  Of src/session/store.py only the handoffs and the turns are
  modelled: messages, admissions and compactions are not, nor are the event bus and the execution and
  admission of turns in the control runtime, which run over them.  The command plugin/promote, by which an
  operator switches a candidate in past the rollout of a turn, is not modelled either.
\<close>

end
